(* ===== verification/Prelude.thy ===== *)
theory Prelude
  imports Main "HOL-Library.Word"
begin

text \<open>
  Shared vocabulary of the development: the machine types of the C sources, the
  convention for C functions with out-parameters, big-endian byte strings, and the
  generic word and list lemmas the components use.

  A C function that returns 1/0 (or true/false), writes its result through
  out-parameters and advances a cursor is modelled as a function from the cursor to a
  pair: the out-parameters (\<open>None\<close> when the function returned 0) and the cursor as the
  function left it, on failure too.
\<close>

unbundle bit_operations_syntax

type_synonym byte = "8 word"
type_synonym u16 = "16 word"
type_synonym u32 = "32 word"
type_synonym u64 = "64 word"

named_theorems wsimps \<open>arithmetic reading of word operations\<close>

text \<open>\<open>size_t\<close> values are \<open>nat\<close>; the sums that may wrap are written out modulo \<open>2 ^ 64\<close>.\<close>

definition SIZE_MOD :: nat where
  "SIZE_MOD = 2 ^ 64"

definition size_add :: "nat \<Rightarrow> nat \<Rightarrow> nat" where
  "size_add a b = (a + b) mod SIZE_MOD"

lemma size_add_small: "a + b < SIZE_MOD \<Longrightarrow> size_add a b = a + b"
  by (simp add: size_add_def)

lemma size_add_less: "size_add a b < SIZE_MOD"
  by (simp add: size_add_def SIZE_MOD_def)

text \<open>The overflow test \<open>a + b < a\<close> of the C sources is exact.\<close>

lemma size_add_overflow_iff:
  assumes "a < SIZE_MOD" and "b < SIZE_MOD"
  shows "size_add a b < a \<longleftrightarrow> SIZE_MOD \<le> a + b"
proof (cases "a + b < SIZE_MOD")
  case True
  then show ?thesis by (simp add: size_add_def)
next
  case False
  then have "size_add a b = a + b - SIZE_MOD"
    using assms by (simp add: size_add_def mod_if)
  then show ?thesis using False assms by linarith
qed

text \<open>
  The C idiom \<open>if (!f(s) || !g(s)) return 0;\<close> on operations that return a success flag and the
  new state.
\<close>

definition and_then :: "bool \<times> 's \<Rightarrow> ('s \<Rightarrow> bool \<times> 's) \<Rightarrow> bool \<times> 's" where
  "and_then r k = (if fst r then k (snd r) else r)"

lemma and_then_simps [simp]:
  "and_then (True, s) k = k s"
  "and_then (False, s) k = (False, s)"
  by (simp_all add: and_then_def)

section \<open>Words\<close>

declare push_bit_and [simp del]

lemma word_or_add_disjoint:
  fixes x y :: "'a::len word"
  assumes "unat y < 2 ^ k" and "2 ^ k dvd unat x"
  shows "x OR y = x + y"
proof -
  have "x AND y = 0"
  proof (rule bit_word_eqI)
    fix n assume n: "n < LENGTH('a)"
    have "\<not> bit x n" if "n < k"
    proof -
      from assms(2) obtain q where q: "unat x = 2 ^ k * q" by (elim dvdE)
      have "bit (unat x) n \<longleftrightarrow> bit (push_bit k q) n"
        by (simp add: q push_bit_eq_mult mult.commute)
      also have "\<dots> \<longleftrightarrow> False" using that by (simp add: bit_push_bit_iff)
      finally show ?thesis by (simp add: bit_unsigned_iff n)
    qed
    moreover have "\<not> bit y n" if "\<not> n < k"
    proof -
      have "take_bit k (unat y) = unat y" using assms(1) by (simp add: take_bit_nat_eq_self)
      then have "\<not> bit (unat y) n" using that by (metis bit_take_bit_iff)
      then show ?thesis by (simp add: bit_unsigned_iff n)
    qed
    ultimately show "bit (x AND y) n \<longleftrightarrow> bit 0 n" by (auto simp: bit_and_iff)
  qed
  then show ?thesis by (rule disjunctive_add_eq_or [symmetric])
qed

lemma unat_push_bit:
  fixes x :: "'a::len word"
  assumes "unat x * 2 ^ k < 2 ^ LENGTH('a)"
  shows "unat (push_bit k x) = unat x * 2 ^ k"
  using assms by (subst unsigned_push_bit_eq) (simp add: push_bit_eq_mult take_bit_eq_mod)

lemma unat_shift_or:
  fixes x y :: "'a::len word"
  assumes "unat x * 2 ^ k + unat y < 2 ^ LENGTH('a)" and "unat y < 2 ^ k"
  shows "unat (push_bit k x OR y) = unat x * 2 ^ k + unat y"
proof -
  from assms have s: "unat (push_bit k x) = unat x * 2 ^ k"
    by (simp add: unat_push_bit)
  then have "push_bit k x OR y = push_bit k x + y"
    using assms by (intro word_or_add_disjoint) auto
  then show ?thesis
    using assms(1) by (simp add: s unat_word_ariths)
qed

lemma unat_ucast_up [wsimps]:
  fixes x :: "'a::len word"
  assumes "LENGTH('a) \<le> LENGTH('b::len)"
  shows "unat (ucast x :: 'b word) = unat x"
proof -
  have "unat x < 2 ^ LENGTH('a)" by simp
  also have "(2::nat) ^ LENGTH('a) \<le> 2 ^ LENGTH('b)" using assms by simp
  finally show ?thesis by (simp add: unsigned_ucast_eq take_bit_nat_eq_self)
qed

lemma unat_ucast_down [wsimps]:
  fixes x :: "'a::len word"
  shows "unat (ucast x :: 'b::len word) = unat x mod 2 ^ LENGTH('b)"
  by (simp add: unsigned_ucast_eq take_bit_eq_mod)

lemma of_nat_unat [simp]: "(of_nat (unat x) :: 'a::len word) = x"
  by simp

lemma unat_eq_of_nat: "unat x = n \<Longrightarrow> x = of_nat n"
  by auto

lemma ucast_ucast_up:
  fixes x :: "'a::len word"
  assumes "LENGTH('a) \<le> LENGTH('b::len)"
  shows "ucast (ucast x :: 'b word) = x"
proof (rule word_unat_eq_iff [THEN iffD2])
  have "unat (ucast (ucast x :: 'b word) :: 'a word) = unat x mod 2 ^ LENGTH('a)"
    by (simp only: unat_ucast_down [where 'a = 'b] unat_ucast_up [OF assms])
  then show "unat (ucast (ucast x :: 'b word) :: 'a word) = unat x" by simp
qed

lemma unat_and_mask [wsimps]: "unat (x AND mask n :: 'a::len word) = unat x mod 2 ^ n"
  by (metis take_bit_eq_mask unsigned_take_bit_eq take_bit_eq_mod)

lemma unat_drop_bit [wsimps]: "unat (drop_bit n x :: 'a::len word) = unat x div 2 ^ n"
  by (metis unat_drop_bit_eq drop_bit_eq_div)

lemma drop_bit_zero_iff: "drop_bit n (x :: 'a::len word) = 0 \<longleftrightarrow> unat x < 2 ^ n"
proof -
  have "drop_bit n x = 0 \<longleftrightarrow> unat x div 2 ^ n = 0"
    by (metis unat_0_iff unat_drop_bit)
  also have "\<dots> \<longleftrightarrow> unat x < 2 ^ n" by (simp add: div_eq_0_iff)
  finally show ?thesis .
qed

lemma word_or_eq_0: "(x :: 'a::len word) OR y = 0 \<longleftrightarrow> x = 0 \<and> y = 0"
  by (auto simp: bit_eq_iff bit_or_iff)

lemma word_xor_eq_0: "(x :: 'a::len word) XOR y = 0 \<longleftrightarrow> x = y"
  by (metis xor.assoc xor_self_eq xor.left_neutral xor.right_neutral)

text \<open>A property of all 256 bytes, by evaluation.\<close>

lemma byte_forallI:
  assumes "list_all (\<lambda>n. P (word_of_int n :: byte)) [0..255]"
  shows "P b"
proof -
  have "uint b \<in> set [0..255]" using uint_lt2p [of b] by simp
  with assms have "P (word_of_int (uint b))" unfolding list_all_iff by blast
  then show "P b" by simp
qed

lemma byte_and_7f: "unat ((b :: byte) AND 0x7f) = unat b mod 128"
  using unat_and_mask [of b 7] by (simp add: mask_eq_exp_minus_1)

lemma byte_and_80: "(b :: byte) AND 0x80 = 0 \<longleftrightarrow> unat b < 128"
  by (rule byte_forallI [where P = "\<lambda>b. b AND 0x80 = 0 \<longleftrightarrow> unat b < 128"]) code_simp

text \<open>Reading big-endian bytes: the value of a byte string, and the bytes of a value.\<close>

definition be_nat :: "byte list \<Rightarrow> nat" where
  "be_nat bs = foldl (\<lambda>r b. r * 256 + unat b) 0 bs"

fun be_bytes :: "nat \<Rightarrow> nat \<Rightarrow> byte list" where
  "be_bytes 0 v = []"
| "be_bytes (Suc n) v = be_bytes n (v div 256) @ [of_nat v]"

lemma unat_byte_less: "unat (b :: byte) < 256"
  using unsigned_less [where w = b] by simp

lemma unat_u16_less: "unat (w :: u16) < 65536"
  using unsigned_less [where w = w] by simp

lemma unat_u32_less: "unat (w :: u32) < 4294967296"
  using unsigned_less [where w = w] by simp

lemma unat_u64_less: "unat (w :: u64) < 18446744073709551616"
  using unsigned_less [where w = w] by simp

lemma be_nat_Nil [simp]: "be_nat [] = 0"
  by (simp add: be_nat_def)

lemma be_nat_snoc [simp]: "be_nat (bs @ [b]) = be_nat bs * 256 + unat b"
  by (simp add: be_nat_def)

lemma be_nat_single [simp]: "be_nat [b] = unat b"
  using be_nat_snoc [of "[]" b] by simp

lemma be_nat_less: "be_nat bs < 256 ^ length bs"
proof (induction bs rule: rev_induct)
  case (snoc b bs)
  have "unat b < 256" by (rule unat_byte_less)
  with snoc.IH show ?case by simp
qed simp

lemma length_be_bytes [simp]: "length (be_bytes n v) = n"
  by (induction n arbitrary: v) auto

lemma be_nat_be_bytes: "be_nat (be_bytes n v) = v mod 256 ^ n"
proof (induction n arbitrary: v)
  case (Suc n)
  have "be_nat (be_bytes (Suc n) v) = (v div 256 mod 256 ^ n) * 256 + v mod 256"
    by (simp add: Suc.IH unat_of_nat)
  also have "\<dots> = v mod 256 ^ Suc n"
    using mod_mult2_eq [of v 256 "256 ^ n"] by (simp add: mult.commute)
  finally show ?case .
qed simp

lemma be_bytes_be_nat: "be_bytes (length bs) (be_nat bs) = bs"
proof (induction bs rule: rev_induct)
  case (snoc b bs)
  have "(be_nat bs * 256 + unat b) div 256 = be_nat bs"
    using unat_byte_less [of b] by simp
  moreover have "(of_nat (be_nat bs * 256 + unat b) :: byte) = b"
  proof -
    have "(256 :: byte) = 0" by simp
    then show ?thesis by (simp only: of_nat_add of_nat_mult of_nat_numeral mult_zero_right) simp
  qed
  ultimately show ?case by (simp add: snoc.IH)
qed simp

lemma be_nat_append: "be_nat (xs @ ys) = be_nat xs * 256 ^ length ys + be_nat ys"
proof (induction ys rule: rev_induct)
  case (snoc y ys)
  have "be_nat (xs @ ys @ [y]) = be_nat (xs @ ys) * 256 + unat y"
    using be_nat_snoc [of "xs @ ys" y] by simp
  then show ?case by (simp add: snoc.IH algebra_simps)
qed simp

lemma be_nat_inject:
  "length xs = length ys \<Longrightarrow> be_nat xs = be_nat ys \<Longrightarrow> xs = ys"
  by (metis be_bytes_be_nat)

section \<open>Lists\<close>

lemma append_prefix_split:
  assumes "c = out @ r" and "c = p @ s" and "length p \<le> length out"
  shows "out = p @ drop (length p) out"
proof -
  have "take (length p) c = p" unfolding assms(2) by simp
  moreover have "take (length p) c = take (length p) out" unfolding assms(1) using assms(3) by simp
  ultimately have "take (length p) out = p" by simp
  then show ?thesis by (metis append_take_drop_id)
qed

end
