(* ===== verification/Codec.thy ===== *)
theory Codec
  imports Prelude
begin

text \<open>
  The interfaces between the writers and the readers of the development. A \<open>decoder\<close>
  reads back what an encoder wrote and leaves the rest of the input; a
  \<open>canonical_codec\<close> also accepts nothing but what the encoder writes. The readers of
  \<open>cbs.c\<close> and \<open>unicode.c\<close>, and those of nanopb, are instances; the lemmas proved here
  once (prefix-freeness, injectivity, reading sequences, the exact accepted language)
  hold of all of them.

  A \<open>reader\<close> only ever drops a prefix of its input.
\<close>

text \<open>Reading \<open>n\<close> items in a row, stopping at the first failure.\<close>

fun decode_n :: "('c \<Rightarrow> 'v option \<times> 'c) \<Rightarrow> nat \<Rightarrow> 'c \<Rightarrow> 'v list option \<times> 'c" where
  "decode_n dec 0 c = (Some [], c)"
| "decode_n dec (Suc n) c =
     (case dec c of
        (None, c') \<Rightarrow> (None, c')
      | (Some v, c') \<Rightarrow>
          (case decode_n dec n c' of
             (None, c'') \<Rightarrow> (None, c'')
           | (Some vs, c'') \<Rightarrow> (Some (v # vs), c'')))"

locale decoder =
  fixes enc :: "'v \<Rightarrow> byte list"
    and dec :: "byte list \<Rightarrow> 'v option \<times> byte list"
    and valid :: "'v \<Rightarrow> bool"
  assumes dec_enc: "valid v \<Longrightarrow> dec (enc v @ rest) = (Some v, rest)"
begin

lemma dec_enc_Nil: "valid v \<Longrightarrow> dec (enc v) = (Some v, [])"
  using dec_enc [of v "[]"] by simp

lemma enc_prefix_free:
  assumes "valid v" and "valid w" and "enc v @ r = enc w @ r'"
  shows "v = w \<and> r = r'"
proof -
  have "(Some v, r) = dec (enc v @ r)" using assms(1) by (rule dec_enc [symmetric])
  also have "\<dots> = dec (enc w @ r')" by (simp only: assms(3))
  also have "\<dots> = (Some w, r')" using assms(2) by (rule dec_enc)
  finally show ?thesis by simp
qed

lemma enc_inject: "valid v \<Longrightarrow> valid w \<Longrightarrow> enc v = enc w \<longleftrightarrow> v = w"
  using enc_prefix_free [of v w "[]" "[]"] by auto

lemma decode_n_enc:
  "\<forall>v\<in>set vs. valid v \<Longrightarrow>
     decode_n dec (length vs) (concat (map enc vs) @ rest) = (Some vs, rest)"
  by (induction vs) (auto simp: dec_enc)

end

locale canonical_codec = decoder +
  assumes enc_dec: "dec c = (Some v, c') \<Longrightarrow> valid v \<and> c = enc v @ c'"
begin

lemma dec_Some_iff: "dec c = (Some v, c') \<longleftrightarrow> valid v \<and> c = enc v @ c'"
  using enc_dec dec_enc by blast

lemma dec_unique_input:
  "dec c = (Some v, c') \<Longrightarrow> dec d = (Some v, c') \<Longrightarrow> c = d"
  by (simp add: dec_Some_iff)

lemma decode_n_Some:
  "decode_n dec n c = (Some vs, c') \<Longrightarrow>
     length vs = n \<and> (\<forall>v\<in>set vs. valid v) \<and> c = concat (map enc vs) @ c'"
proof (induction n arbitrary: c vs)
  case (Suc n)
  then show ?case
    by (auto split: prod.splits option.splits dest!: enc_dec)
qed simp

end

locale reader =
  fixes rd :: "byte list \<Rightarrow> 'v option \<times> byte list"
  assumes rd_suffix: "rd c = (r, c') \<Longrightarrow> \<exists>p. c = p @ c'"
begin

lemma rd_length: "rd c = (r, c') \<Longrightarrow> length c' \<le> length c"
  using rd_suffix by fastforce

lemma rd_set: "rd c = (r, c') \<Longrightarrow> set c' \<subseteq> set c"
  using rd_suffix by fastforce

end

end
