(* ===== verification/Mem.thy ===== *)
theory Mem
  imports Prelude
begin

text \<open>
  \<open>crypto/mem.c\<close>: the allocator wrappers, the constant-time comparison, the string helpers
  and the ASCII character classes of BoringSSL.

  The C library's \<open>malloc\<close> is a parameter \<open>mal\<close>: \<open>mal n\<close> is the content of the fresh block
  of \<open>n\<close> bytes, or \<open>None\<close> when the allocation fails. An OPENSSL block is the whole block
  with its 8-byte size prefix in front; the pointer a caller sees is the block past the
  prefix. The weak hooks \<open>OPENSSL_memory_alloc\<close>, \<open>OPENSSL_memory_free\<close>,
  \<open>OPENSSL_memory_get_size\<close> and \<open>sdallocx\<close> are null function pointers on the targets of the
  application (no ELF), and \<open>should_fail_allocation\<close> is constantly 0 outside of the malloc
  failure tests, so these branches do not exist in the model.

  A C string is a memory that holds a NUL; reading or writing past the end of a memory is
  the value \<open>None\<close>. The platform's \<open>char\<close> is signed: its \<open>int\<close> value is \<open>sint\<close>.
\<close>

section \<open>Allocation\<close>

type_synonym malloc_fn = "nat \<Rightarrow> byte list option"

text \<open>What the C standard promises of \<open>malloc\<close>: a block of the requested size.\<close>

definition malloc_ok :: "malloc_fn \<Rightarrow> bool" where
  "malloc_ok mal \<longleftrightarrow> (\<forall>n b. mal n = Some b \<longrightarrow> length b = n)"

definition OPENSSL_MALLOC_PREFIX :: nat where
  "OPENSSL_MALLOC_PREFIX = 8"

definition SIZE_MAX :: nat where
  "SIZE_MAX = SIZE_MOD - 1"

text \<open>A \<open>size_t\<close> in memory is little endian on the targets.\<close>

definition store_size :: "nat \<Rightarrow> byte list" where
  "store_size n = rev (be_bytes 8 n)"

definition load_size :: "byte list \<Rightarrow> nat" where
  "load_size p = be_nat (rev (take 8 p))"

definition user_data :: "byte list \<Rightarrow> byte list" where
  "user_data blk = drop OPENSSL_MALLOC_PREFIX blk"

text \<open>The block of an OPENSSL allocation whose user part is \<open>buf\<close>.\<close>

definition ossl_block :: "byte list \<Rightarrow> byte list" where
  "ossl_block buf = store_size (length buf) @ buf"

definition OPENSSL_malloc :: "malloc_fn \<Rightarrow> nat \<Rightarrow> byte list option" where
  "OPENSSL_malloc mal sz =
     (if size_add sz OPENSSL_MALLOC_PREFIX < sz then None
      else case mal (size_add sz OPENSSL_MALLOC_PREFIX) of
             None \<Rightarrow> None
           | Some ptr \<Rightarrow> Some (store_size sz @ drop OPENSSL_MALLOC_PREFIX ptr))"

text \<open>\<open>OPENSSL_memset\<close> of \<open>n\<close> bytes at the start of a memory.\<close>

definition OPENSSL_memset :: "byte list \<Rightarrow> byte \<Rightarrow> nat \<Rightarrow> byte list" where
  "OPENSSL_memset p c n = replicate n c @ drop n p"

definition OPENSSL_zalloc :: "malloc_fn \<Rightarrow> nat \<Rightarrow> byte list option" where
  "OPENSSL_zalloc mal sz =
     (case OPENSSL_malloc mal sz of
        None \<Rightarrow> None
      | Some blk \<Rightarrow> Some (take OPENSSL_MALLOC_PREFIX blk @ OPENSSL_memset (user_data blk) 0 sz))"

definition OPENSSL_calloc :: "malloc_fn \<Rightarrow> nat \<Rightarrow> nat \<Rightarrow> byte list option" where
  "OPENSSL_calloc mal num sz =
     (if sz \<noteq> 0 \<and> num > SIZE_MAX div sz then None
      else OPENSSL_zalloc mal (num * sz mod SIZE_MOD))"

definition OPENSSL_cleanse :: "byte list \<Rightarrow> nat \<Rightarrow> byte list" where
  "OPENSSL_cleanse p len = OPENSSL_memset p 0 len"

text \<open>The block as \<open>OPENSSL_free\<close> hands it to \<open>free\<close>; nothing is freed for NULL.\<close>

definition OPENSSL_free :: "byte list option \<Rightarrow> byte list option" where
  "OPENSSL_free orig =
     (case orig of
        None \<Rightarrow> None
      | Some ptr \<Rightarrow> Some (OPENSSL_cleanse ptr (size_add (load_size ptr) OPENSSL_MALLOC_PREFIX)))"

text \<open>The new block, and the block that was freed on the way.\<close>

definition OPENSSL_realloc ::
  "malloc_fn \<Rightarrow> byte list option \<Rightarrow> nat \<Rightarrow> byte list option \<times> byte list option" where
  "OPENSSL_realloc mal orig new_size =
     (case orig of
        None \<Rightarrow> (OPENSSL_malloc mal new_size, None)
      | Some ptr \<Rightarrow>
          let old_size = load_size ptr
          in (case OPENSSL_malloc mal new_size of
                None \<Rightarrow> (None, None)
              | Some ret \<Rightarrow>
                  let to_copy = (if old_size < new_size then old_size else new_size)
                  in (Some (take OPENSSL_MALLOC_PREFIX ret @ take to_copy (user_data ptr)
                              @ drop to_copy (user_data ret)),
                      OPENSSL_free (Some ptr))))"

definition OPENSSL_clear_free :: "byte list option \<Rightarrow> nat \<Rightarrow> byte list option" where
  "OPENSSL_clear_free ptr unused = OPENSSL_free ptr"

definition OPENSSL_memdup :: "malloc_fn \<Rightarrow> byte list \<Rightarrow> byte list option" where
  "OPENSSL_memdup mal data =
     (if length data = 0 then None
      else case OPENSSL_malloc mal (length data) of
             None \<Rightarrow> None
           | Some blk \<Rightarrow> Some (take OPENSSL_MALLOC_PREFIX blk @ data @ drop (length data) (user_data blk)))"

section \<open>Comparison and hashing\<close>

definition CRYPTO_memcmp :: "byte list \<Rightarrow> byte list \<Rightarrow> byte" where
  "CRYPTO_memcmp a b = foldl (\<lambda>x (p, q). x OR (p XOR q)) 0 (zip a b)"

fun OPENSSL_memchr :: "byte list \<Rightarrow> byte \<Rightarrow> nat option" where
  "OPENSSL_memchr [] c = None"
| "OPENSSL_memchr (b # bs) c =
     (if b = c then Some 0 else map_option Suc (OPENSSL_memchr bs c))"

definition OPENSSL_hash32 :: "byte list \<Rightarrow> u32" where
  "OPENSSL_hash32 bs = foldl (\<lambda>h b. (h XOR ucast b) * 16777619) 2166136261 bs"

text \<open>
  \<open>OPENSSL_memcmp\<close> of the first \<open>n\<close> bytes of two memories that have them: only the sign of the
  result is specified.
\<close>

fun memcmp_sign :: "byte list \<Rightarrow> byte list \<Rightarrow> int" where
  "memcmp_sign (a # as) (b # bs) = (if a < b then - 1 else if b < a then 1 else memcmp_sign as bs)"
| "memcmp_sign _ _ = 0"

definition OPENSSL_memcmp :: "byte list \<Rightarrow> byte list \<Rightarrow> nat \<Rightarrow> int" where
  "OPENSSL_memcmp s1 s2 n = (if n = 0 then 0 else memcmp_sign (take n s1) (take n s2))"

text \<open>Writing \<open>xs\<close> at an offset of a memory; \<open>OPENSSL_memcpy\<close> and \<open>OPENSSL_memmove\<close> inside one memory.\<close>

definition mem_write :: "byte list \<Rightarrow> nat \<Rightarrow> byte list \<Rightarrow> byte list" where
  "mem_write m off xs = take off m @ xs @ drop (off + length xs) m"

definition OPENSSL_memmove :: "byte list \<Rightarrow> nat \<Rightarrow> nat \<Rightarrow> nat \<Rightarrow> byte list" where
  "OPENSSL_memmove m dst src n = (if n = 0 then m else mem_write m dst (take n (drop src m)))"

section \<open>Strings\<close>

fun OPENSSL_strnlen :: "byte list \<Rightarrow> nat \<Rightarrow> nat" where
  "OPENSSL_strnlen s 0 = 0"
| "OPENSSL_strnlen [] (Suc n) = 0"
| "OPENSSL_strnlen (c # s) (Suc n) = (if c = 0 then 0 else Suc (OPENSSL_strnlen s n))"

fun strlen :: "byte list \<Rightarrow> nat option" where
  "strlen [] = None"
| "strlen (c # s) = (if c = 0 then Some 0 else map_option Suc (strlen s))"

definition OPENSSL_strhash :: "byte list \<Rightarrow> u32 option" where
  "OPENSSL_strhash s = map_option (\<lambda>n. OPENSSL_hash32 (take n s)) (strlen s)"

text \<open>\<open>Some None\<close> is a NULL result, \<open>None\<close> a read past the end of \<open>s\<close>.\<close>

definition OPENSSL_strdup :: "malloc_fn \<Rightarrow> byte list option \<Rightarrow> byte list option option" where
  "OPENSSL_strdup mal s =
     (case s of
        None \<Rightarrow> Some None
      | Some s \<Rightarrow> map_option (\<lambda>n. OPENSSL_memdup mal (take (n + 1) s)) (strlen s))"

definition OPENSSL_strndup :: "malloc_fn \<Rightarrow> byte list \<Rightarrow> nat \<Rightarrow> byte list option" where
  "OPENSSL_strndup mal str sz =
     (let sz = OPENSSL_strnlen str sz;
          alloc_size = size_add sz 1
      in if alloc_size < sz then None
         else case OPENSSL_malloc mal alloc_size of
                None \<Rightarrow> None
              | Some ret \<Rightarrow>
                  Some (take OPENSSL_MALLOC_PREFIX ret @
                        (take sz str @ drop sz (user_data ret)) [sz := 0]))"

text \<open>The destination afterwards and the return value.\<close>

fun OPENSSL_strlcpy :: "byte list \<Rightarrow> byte list \<Rightarrow> nat \<Rightarrow> (byte list \<times> nat) option" where
  "OPENSSL_strlcpy dst [] dst_size = None"
| "OPENSSL_strlcpy dst (c # src) dst_size =
     (if dst_size > 1 \<and> c \<noteq> 0
      then (case dst of
              [] \<Rightarrow> None
            | _ # dst' \<Rightarrow>
                map_option (\<lambda>(d, l). (c # d, l + 1)) (OPENSSL_strlcpy dst' src (dst_size - 1)))
      else if dst_size \<noteq> 0
      then (case dst of [] \<Rightarrow> None | _ # dst' \<Rightarrow> map_option (\<lambda>l. (0 # dst', l)) (strlen (c # src)))
      else map_option (\<lambda>l. (dst, l)) (strlen (c # src)))"

fun OPENSSL_strlcat :: "byte list \<Rightarrow> byte list \<Rightarrow> nat \<Rightarrow> (byte list \<times> nat) option" where
  "OPENSSL_strlcat [] src dst_size = (if dst_size > 0 then None else OPENSSL_strlcpy [] src 0)"
| "OPENSSL_strlcat (d # dst) src dst_size =
     (if dst_size > 0 \<and> d \<noteq> 0
      then map_option (\<lambda>(m, l). (d # m, l + 1)) (OPENSSL_strlcat dst src (dst_size - 1))
      else OPENSSL_strlcpy (d # dst) src dst_size)"

section \<open>Characters\<close>

definition OPENSSL_isalpha :: "int \<Rightarrow> bool" where
  "OPENSSL_isalpha c \<longleftrightarrow> (c \<ge> 0x61 \<and> c \<le> 0x7a) \<or> (c \<ge> 0x41 \<and> c \<le> 0x5a)"

definition OPENSSL_isdigit :: "int \<Rightarrow> bool" where
  "OPENSSL_isdigit c \<longleftrightarrow> c \<ge> 0x30 \<and> c \<le> 0x39"

definition OPENSSL_isxdigit :: "int \<Rightarrow> bool" where
  "OPENSSL_isxdigit c \<longleftrightarrow>
     OPENSSL_isdigit c \<or> (c \<ge> 0x61 \<and> c \<le> 0x66) \<or> (c \<ge> 0x41 \<and> c \<le> 0x46)"

definition OPENSSL_fromxdigit :: "int \<Rightarrow> byte option" where
  "OPENSSL_fromxdigit c =
     (if OPENSSL_isdigit c then Some (of_int (c - 0x30))
      else if 0x61 \<le> c \<and> c \<le> 0x66 then Some (of_int (c - 0x61 + 10))
      else if 0x41 \<le> c \<and> c \<le> 0x46 then Some (of_int (c - 0x41 + 10))
      else None)"

definition OPENSSL_isalnum :: "int \<Rightarrow> bool" where
  "OPENSSL_isalnum c \<longleftrightarrow> OPENSSL_isalpha c \<or> OPENSSL_isdigit c"

definition OPENSSL_tolower :: "int \<Rightarrow> int" where
  "OPENSSL_tolower c = (if c \<ge> 0x41 \<and> c \<le> 0x5a then c + (0x61 - 0x41) else c)"

definition OPENSSL_isspace :: "int \<Rightarrow> bool" where
  "OPENSSL_isspace c \<longleftrightarrow> c = 9 \<or> c = 10 \<or> c = 11 \<or> c = 12 \<or> c = 13 \<or> c = 32"

fun OPENSSL_strcasecmp :: "byte list \<Rightarrow> byte list \<Rightarrow> int option" where
  "OPENSSL_strcasecmp (a # as) (b # bs) =
     (let aa = OPENSSL_tolower (sint a); bb = OPENSSL_tolower (sint b)
      in if aa < bb then Some (- 1)
         else if aa > bb then Some 1
         else if aa = 0 then Some 0
         else OPENSSL_strcasecmp as bs)"
| "OPENSSL_strcasecmp _ _ = None"

fun OPENSSL_strncasecmp :: "byte list \<Rightarrow> byte list \<Rightarrow> nat \<Rightarrow> int option" where
  "OPENSSL_strncasecmp as bs 0 = Some 0"
| "OPENSSL_strncasecmp (a # as) (b # bs) (Suc n) =
     (let aa = OPENSSL_tolower (sint a); bb = OPENSSL_tolower (sint b)
      in if aa < bb then Some (- 1)
         else if aa > bb then Some 1
         else if aa = 0 then Some 0
         else OPENSSL_strncasecmp as bs n)"
| "OPENSSL_strncasecmp _ _ (Suc n) = None"

section \<open>Formatted allocation\<close>

text \<open>
  \<open>vsnprintf\<close> with its format and arguments fixed is a parameter: from the destination
  buffer to the return value and the buffer afterwards. \<open>OPENSSL_vasprintf_internal\<close> with
  the OPENSSL allocator returns the value and the string (\<open>None\<close> for NULL).
\<close>

definition OPENSSL_vasprintf_internal ::
  "malloc_fn \<Rightarrow> (byte list \<Rightarrow> int \<times> byte list) \<Rightarrow> int \<times> byte list option" where
  "OPENSSL_vasprintf_internal mal vsnprintf =
     (case OPENSSL_malloc mal 64 of
        None \<Rightarrow> (- 1, None)
      | Some candidate \<Rightarrow>
          let candidate_len = 64;
              (ret, buf) = vsnprintf (user_data candidate)
          in if ret < 0 then (- 1, None)
             else if nat ret \<ge> candidate_len
             then (let candidate_len = size_add (nat ret) 1
                   in case fst (OPENSSL_realloc mal (Some (take OPENSSL_MALLOC_PREFIX candidate @ buf))
                                  candidate_len) of
                        None \<Rightarrow> (- 1, None)
                      | Some tmp \<Rightarrow>
                          let (ret, buf) = vsnprintf (user_data tmp)
                          in if ret < 0 \<or> nat ret \<ge> candidate_len then (- 1, None)
                             else (ret, Some buf))
             else (ret, Some buf))"

section \<open>Lemmas on allocation\<close>

lemma malloc_okD: "malloc_ok mal \<Longrightarrow> mal n = Some b \<Longrightarrow> length b = n"
  by (simp add: malloc_ok_def)

lemma length_store_size [simp]: "length (store_size n) = 8"
  by (simp add: store_size_def)

lemma load_store_size [simp]: "n < SIZE_MOD \<Longrightarrow> load_size (store_size n @ p) = n"
  by (simp add: load_size_def store_size_def be_nat_be_bytes SIZE_MOD_def)

lemma user_data_ossl_block [simp]: "user_data (ossl_block buf) = buf"
  by (simp add: user_data_def ossl_block_def OPENSSL_MALLOC_PREFIX_def)

lemma take_prefix_ossl_block [simp]:
  "take OPENSSL_MALLOC_PREFIX (ossl_block buf) = store_size (length buf)"
  by (simp add: ossl_block_def OPENSSL_MALLOC_PREFIX_def)

lemma load_size_ossl_block [simp]: "length buf < SIZE_MOD \<Longrightarrow> load_size (ossl_block buf) = length buf"
  by (simp add: ossl_block_def)

lemma size_add_prefix:
  assumes "\<not> size_add n OPENSSL_MALLOC_PREFIX < n" and "n < SIZE_MOD"
  shows "size_add n OPENSSL_MALLOC_PREFIX = n + OPENSSL_MALLOC_PREFIX"
    and "n + OPENSSL_MALLOC_PREFIX < SIZE_MOD"
  using assms size_add_overflow_iff [of n OPENSSL_MALLOC_PREFIX]
  by (auto simp: size_add_def OPENSSL_MALLOC_PREFIX_def SIZE_MOD_def)

text \<open>A successful allocation is a block whose user part has the requested size.\<close>

lemma OPENSSL_malloc_Some:
  assumes "malloc_ok mal" and "OPENSSL_malloc mal n = Some blk" and "n < SIZE_MOD"
  obtains fresh where "blk = ossl_block fresh" and "length fresh = n" and "n + 8 < SIZE_MOD"
proof -
  from assms(2) obtain ptr where nov: "\<not> size_add n OPENSSL_MALLOC_PREFIX < n"
    and m: "mal (size_add n OPENSSL_MALLOC_PREFIX) = Some ptr"
    and blk: "blk = store_size n @ drop OPENSSL_MALLOC_PREFIX ptr"
    by (auto simp: OPENSSL_malloc_def split: if_splits option.splits)
  have "length ptr = n + 8"
    using malloc_okD [OF assms(1) m] size_add_prefix [OF nov assms(3)] by (simp add: OPENSSL_MALLOC_PREFIX_def)
  then show thesis
    using that [of "drop OPENSSL_MALLOC_PREFIX ptr"] blk size_add_prefix(2) [OF nov assms(3)]
    by (simp add: ossl_block_def OPENSSL_MALLOC_PREFIX_def)
qed

lemma OPENSSL_malloc_succeeds:
  assumes "malloc_ok mal" and "mal (n + 8) = Some p" and "n + 8 < SIZE_MOD"
  shows "OPENSSL_malloc mal n = Some (ossl_block (drop 8 p))"
  using malloc_okD [OF assms(1,2)] assms(2,3)
  by (simp add: OPENSSL_malloc_def size_add_small OPENSSL_MALLOC_PREFIX_def ossl_block_def)

lemma OPENSSL_zalloc_Some:
  assumes "malloc_ok mal" and "OPENSSL_zalloc mal n = Some blk" and "n < SIZE_MOD"
  shows "blk = ossl_block (replicate n 0)"
proof -
  from assms(2) obtain b where b: "OPENSSL_malloc mal n = Some b"
    and blk: "blk = take OPENSSL_MALLOC_PREFIX b @ OPENSSL_memset (user_data b) 0 n"
    by (auto simp: OPENSSL_zalloc_def split: option.splits)
  from OPENSSL_malloc_Some [OF assms(1) b assms(3)] obtain fresh
    where "b = ossl_block fresh" "length fresh = n" by blast
  then show ?thesis by (simp add: blk OPENSSL_memset_def) (simp add: ossl_block_def)
qed

text \<open>The guard of \<open>OPENSSL_calloc\<close> is exactly the absence of overflow.\<close>

lemma calloc_guard:
  assumes "num < SIZE_MOD" and "sz < SIZE_MOD"
  shows "(sz \<noteq> 0 \<and> num > SIZE_MAX div sz) \<longleftrightarrow> num * sz \<ge> SIZE_MOD"
proof (cases "sz = 0")
  case False
  have "num > SIZE_MAX div sz \<longleftrightarrow> SIZE_MAX < num * sz"
    using False by (simp add: div_less_iff_less_mult)
  also have "\<dots> \<longleftrightarrow> SIZE_MOD \<le> num * sz"
    using assms(1) unfolding SIZE_MAX_def by linarith
  finally show ?thesis using False by simp
qed (use assms in simp)

lemma OPENSSL_realloc_succeeds:
  assumes "OPENSSL_malloc mal n = Some (ossl_block fresh)" and "length fresh = n" and "length buf < SIZE_MOD"
  shows "fst (OPENSSL_realloc mal (Some (ossl_block buf)) n) =
           Some (ossl_block (take n buf @ drop (length buf) fresh))"
  using assms
  by (auto simp: OPENSSL_realloc_def Let_def ossl_block_def user_data_def OPENSSL_MALLOC_PREFIX_def min_def)

lemma OPENSSL_realloc_Some:
  assumes "malloc_ok mal" and "length buf < SIZE_MOD" and "n < SIZE_MOD"
    and "fst (OPENSSL_realloc mal (Some (ossl_block buf)) n) = Some blk"
  obtains fresh where "blk = ossl_block (take n buf @ drop (length buf) fresh)" and "length fresh = n"
proof -
  from assms(4) obtain ret where r: "OPENSSL_malloc mal n = Some ret"
    by (auto simp: OPENSSL_realloc_def Let_def split: option.splits)
  from OPENSSL_malloc_Some [OF assms(1) r assms(3)] obtain fresh
    where f: "ret = ossl_block fresh" "length fresh = n" by blast
  then show thesis
    using that [of fresh] assms(4) OPENSSL_realloc_succeeds [of mal n fresh buf] r assms(2) by simp
qed

lemma OPENSSL_free_block:
  assumes "length buf + 8 < SIZE_MOD"
  shows "OPENSSL_free (Some (ossl_block buf)) = Some (replicate (8 + length buf) 0)"
  using assms
  by (simp add: OPENSSL_free_def OPENSSL_cleanse_def OPENSSL_memset_def OPENSSL_MALLOC_PREFIX_def size_add_small)
    (simp add: ossl_block_def add.commute)

lemma OPENSSL_memdup_Some:
  assumes "malloc_ok mal" and "length d < SIZE_MOD" and "OPENSSL_memdup mal d = Some blk"
  shows "blk = ossl_block d"
proof -
  from assms(3) obtain b where b: "OPENSSL_malloc mal (length d) = Some b"
    and blk: "blk = take OPENSSL_MALLOC_PREFIX b @ d @ drop (length d) (user_data b)"
    by (auto simp: OPENSSL_memdup_def split: option.splits if_splits)
  from OPENSSL_malloc_Some [OF assms(1) b assms(2)] obtain fresh
    where "b = ossl_block fresh" "length fresh = length d" by blast
  then show ?thesis by (simp add: blk) (simp add: ossl_block_def)
qed

text \<open>
  \<open>OPENSSL_calloc\<close> never wraps: whenever it returns a block, the product of its arguments
  fits in a \<open>size_t\<close>, the user part of the block is exactly that many zero bytes and the size
  recorded in front of it is that product.
\<close>

theorem OPENSSL_calloc_correct:
  assumes "malloc_ok mal" and "num < SIZE_MOD" and "sz < SIZE_MOD"
    and "OPENSSL_calloc mal num sz = Some blk"
  shows "num * sz < SIZE_MOD \<and> user_data blk = replicate (num * sz) 0 \<and> load_size blk = num * sz"
proof -
  have fits: "num * sz < SIZE_MOD"
    using assms(4) calloc_guard [OF assms(2,3)] by (auto simp: OPENSSL_calloc_def split: if_splits)
  then have "OPENSSL_zalloc mal (num * sz) = Some blk"
    using assms(4) by (auto simp: OPENSSL_calloc_def split: if_splits)
  from OPENSSL_zalloc_Some [OF assms(1) this fits] fits show ?thesis by simp
qed

theorem OPENSSL_calloc_correct_witness:
  "2 * 3 < SIZE_MOD \<and> user_data (ossl_block [0, 0, 0, 0, 0, 0]) = replicate (2 * 3) 0 \<and>
   load_size (ossl_block [0, 0, 0, 0, 0, 0]) = 2 * 3"
proof (rule OPENSSL_calloc_correct [where mal = "\<lambda>n. Some (replicate n 0xaa)"])
  show ok: "malloc_ok (\<lambda>n. Some (replicate n 0xaa))" by (simp add: malloc_ok_def)
  show "(2::nat) < SIZE_MOD" "(3::nat) < SIZE_MOD" by (simp_all add: SIZE_MOD_def)
  have "OPENSSL_malloc (\<lambda>n. Some (replicate n 0xaa)) 6 = Some (ossl_block (replicate 6 0xaa))"
    using OPENSSL_malloc_succeeds [OF ok, of 6] by (simp add: SIZE_MOD_def)
  then show "OPENSSL_calloc (\<lambda>n. Some (replicate n 0xaa)) 2 3 = Some (ossl_block [0, 0, 0, 0, 0, 0])"
    by (simp add: OPENSSL_calloc_def SIZE_MAX_def SIZE_MOD_def OPENSSL_zalloc_def OPENSSL_memset_def)
      (simp add: ossl_block_def numeral_eq_Suc)
qed

text \<open>
  \<open>OPENSSL_realloc\<close> keeps the data and leaks nothing: the new block starts with the old
  contents (cut to the new size), has exactly the new size, and the old block, its size
  prefix included, is all zeros when it is handed to \<open>free\<close>.
\<close>

theorem OPENSSL_realloc_correct:
  assumes "malloc_ok mal" and "length buf + 8 < SIZE_MOD" and "n < SIZE_MOD"
    and "OPENSSL_realloc mal (Some (ossl_block buf)) n = (Some blk, freed)"
  shows "length (user_data blk) = n \<and> take (length buf) (user_data blk) = take n buf \<and>
         freed = Some (replicate (8 + length buf) 0)"
proof -
  from assms(2) have lb: "length buf < SIZE_MOD" by simp
  from assms(4) have b: "fst (OPENSSL_realloc mal (Some (ossl_block buf)) n) = Some blk" by simp
  from OPENSSL_realloc_Some [OF assms(1) lb assms(3) b] obtain fresh
    where f: "blk = ossl_block (take n buf @ drop (length buf) fresh)" "length fresh = n" by blast
  have "freed = OPENSSL_free (Some (ossl_block buf))"
    using assms(4) by (auto simp: OPENSSL_realloc_def Let_def split: option.splits)
  then show ?thesis using f OPENSSL_free_block [OF assms(2)] by (auto simp: min_def)
qed

theorem OPENSSL_realloc_correct_witness:
  "length (user_data (ossl_block [1, 2, 0xaa])) = 3 \<and>
   take (length [1, 2 :: byte]) (user_data (ossl_block [1, 2, 0xaa])) = take 3 [1, 2] \<and>
   Some (replicate 10 0) = Some (replicate (8 + length [1, 2 :: byte]) (0 :: byte))"
proof (rule OPENSSL_realloc_correct [where mal = "\<lambda>n. Some (replicate n 0xaa)"])
  show ok: "malloc_ok (\<lambda>n. Some (replicate n 0xaa))" by (simp add: malloc_ok_def)
  show "length [1, 2 :: byte] + 8 < SIZE_MOD" "(3::nat) < SIZE_MOD" by (simp_all add: SIZE_MOD_def)
  have "OPENSSL_malloc (\<lambda>n. Some (replicate n 0xaa)) 3 = Some (ossl_block [0xaa, 0xaa, 0xaa])"
    using OPENSSL_malloc_succeeds [OF ok, of 3 "replicate 11 0xaa"]
    by (simp add: SIZE_MOD_def) (simp add: ossl_block_def numeral_eq_Suc)
  moreover have "OPENSSL_free (Some (ossl_block [1, 2])) = Some (replicate 10 0)"
    using OPENSSL_free_block [of "[1, 2]"] by (simp add: SIZE_MOD_def)
  ultimately show "OPENSSL_realloc (\<lambda>n. Some (replicate n 0xaa)) (Some (ossl_block [1, 2])) 3 =
          (Some (ossl_block [1, 2, 0xaa]), Some (replicate 10 0))"
    using load_size_ossl_block [of "[1, 2]"]
    by (simp add: OPENSSL_realloc_def SIZE_MOD_def) (simp add: ossl_block_def)
qed

section \<open>Lemmas on memories\<close>

lemma length_mem_write [simp]: "off + length xs \<le> length m \<Longrightarrow> length (mem_write m off xs) = length m"
  by (simp add: mem_write_def)

lemma mem_write_Nil [simp]: "mem_write m off [] = m"
  by (simp add: mem_write_def)

lemma take_mem_write: "off + length xs \<le> length m \<Longrightarrow> take (off + length xs) (mem_write m off xs) = take off m @ xs"
  by (simp add: mem_write_def)

lemma mem_write_at: "mem_write (a @ b @ c) (length a) b' = a @ b' @ c" if "length b' = length b"
  using that by (simp add: mem_write_def)

lemma list_update_at: "length a = n \<Longrightarrow> (a @ x # c)[n := y] = a @ y # c"
  by (simp add: list_update_append)

section \<open>Lemmas on strings\<close>

lemma strlen_eq: "0 \<notin> set s \<Longrightarrow> strlen (s @ 0 # t) = Some (length s)"
  by (induction s) auto

lemma OPENSSL_strnlen_le: "OPENSSL_strnlen s n \<le> n"
  by (induction s n rule: OPENSSL_strnlen.induct) auto

lemma OPENSSL_strnlen_eq: "OPENSSL_strnlen s n = length (takeWhile (\<lambda>c. c \<noteq> 0) (take n s))"
  by (induction s n rule: OPENSSL_strnlen.induct) auto

lemma OPENSSL_strlcpy_eq:
  "0 \<notin> set s \<Longrightarrow> n \<le> length dst \<Longrightarrow>
   OPENSSL_strlcpy dst (s @ 0 # t) n =
     Some (if n = 0 then dst else take (n - 1) s @ 0 # drop (Suc (min (n - 1) (length s))) dst,
           length s)"
proof (induction s arbitrary: dst n)
  case Nil
  then show ?case by (cases dst) auto
next
  case (Cons c s)
  show ?case
  proof (cases "1 < n")
    case True
    then obtain d ds where dst: "dst = d # ds" using Cons.prems by (cases dst) auto
    have "OPENSSL_strlcpy ds (s @ 0 # t) (n - 1) =
        Some (take (n - 1 - 1) s @ 0 # drop (Suc (min (n - 1 - 1) (length s))) ds, length s)"
      using Cons True dst by (subst Cons.IH) auto
    moreover have "take (n - 1) (c # s) = c # take (n - 1 - 1) s"
      using True by (simp add: take_Cons')
    moreover have "min (n - 1) (length (c # s)) = Suc (min (n - 1 - 1) (length s))"
      using True by simp
    ultimately show ?thesis using True Cons.prems dst by simp
  next
    case False
    then consider "n = 0" | "n = 1" by linarith
    then show ?thesis
    proof cases
      case 2
      then show ?thesis using Cons.prems by (cases dst) (auto simp: strlen_eq)
    qed (use Cons.prems in \<open>auto simp: strlen_eq\<close>)
  qed
qed

text \<open>
  \<open>OPENSSL_strlcpy\<close> into a buffer of at least \<open>dst_size\<close> bytes never reads or writes out
  of bounds, returns the full length of the source string, leaves the buffer alone when
  \<open>dst_size\<close> is 0, and otherwise writes the longest prefix that fits, a NUL, and no byte more.
\<close>

theorem OPENSSL_strlcpy_correct:
  assumes "0 \<notin> set s" and "dst_size \<le> length dst"
  shows "OPENSSL_strlcpy dst (s @ 0 # t) dst_size =
           Some (if dst_size = 0 then dst
                 else take (dst_size - 1) s @ [0] @ drop (Suc (min (dst_size - 1) (length s))) dst,
                 length s)"
  using OPENSSL_strlcpy_eq [OF assms] by simp

theorem OPENSSL_strlcpy_correct_witness:
  "OPENSSL_strlcpy [9, 9, 9, 9] ([0x61, 0x62, 0x63] @ 0 # []) 3 =
     Some (if (3::nat) = 0 then [9, 9, 9, 9]
           else take (3 - 1) [0x61, 0x62, 0x63] @ [0] @
                drop (Suc (min (3 - 1) (length [0x61, 0x62, 0x63 :: byte]))) [9, 9, 9, 9],
           length [0x61, 0x62, 0x63 :: byte])"
  by (rule OPENSSL_strlcpy_correct) simp_all

lemma OPENSSL_strlcat_eq:
  "0 \<notin> set d \<Longrightarrow> length d < n \<Longrightarrow>
   OPENSSL_strlcat (d @ 0 # r) src n =
     map_option (\<lambda>(m, l). (d @ m, length d + l)) (OPENSSL_strlcpy (0 # r) src (n - length d))"
proof (induction d arbitrary: n)
  case Nil
  then show ?case by (cases "OPENSSL_strlcpy (0 # r) src n") auto
next
  case (Cons c d)
  then have "OPENSSL_strlcat (d @ 0 # r) src (n - 1) =
     map_option (\<lambda>(m, l). (d @ m, length d + l)) (OPENSSL_strlcpy (0 # r) src (n - 1 - length d))"
    by (intro Cons.IH) auto
  then show ?case using Cons.prems
    by (cases "OPENSSL_strlcpy (0 # r) src (n - 1 - length d)") auto
qed

lemma CRYPTO_memcmp_snoc:
  "length a = length b \<Longrightarrow> CRYPTO_memcmp (a @ [p]) (b @ [q]) = CRYPTO_memcmp a b OR (p XOR q)"
  by (simp add: CRYPTO_memcmp_def)

lemma CRYPTO_memcmp_zero_iff: "length a = length b \<Longrightarrow> CRYPTO_memcmp a b = 0 \<longleftrightarrow> a = b"
proof (induction a arbitrary: b rule: rev_induct)
  case Nil
  then show ?case by (simp add: CRYPTO_memcmp_def)
next
  case (snoc p a)
  then obtain b' q where b: "b = b' @ [q]" "length a = length b'"
    by (cases b rule: rev_cases) auto
  then show ?case
    using snoc.IH [of b'] by (simp add: CRYPTO_memcmp_snoc word_or_eq_0 word_xor_eq_0)
qed

subsection \<open>Case-insensitive comparison\<close>

definition lower :: "byte list \<Rightarrow> int list" where
  "lower s = map (\<lambda>c. OPENSSL_tolower (sint c)) s"

lemma OPENSSL_tolower_zero_iff [simp]: "OPENSSL_tolower (sint (c :: byte)) = 0 \<longleftrightarrow> c = 0"
  by (rule byte_forallI [where P = "\<lambda>c. OPENSSL_tolower (sint c) = 0 \<longleftrightarrow> c = 0"]) code_simp

lemma OPENSSL_tolower_zero [simp]: "OPENSSL_tolower 0 = 0"
  by (simp add: OPENSSL_tolower_def)

lemma OPENSSL_tolower_zero_eq [simp]: "0 = OPENSSL_tolower (sint (c :: byte)) \<longleftrightarrow> c = 0"
  by (metis OPENSSL_tolower_zero_iff)

lemma OPENSSL_strcasecmp_eq:
  "0 \<notin> set a \<Longrightarrow> 0 \<notin> set b \<Longrightarrow>
   \<exists>r. OPENSSL_strcasecmp (a @ 0 # s) (b @ 0 # t) = Some r \<and> r \<in> {-1, 0, 1} \<and>
       (r = 0 \<longleftrightarrow> lower a = lower b)"
proof (induction a arbitrary: b)
  case Nil
  then show ?case
    by (cases b) (auto simp: lower_def Let_def)
next
  case (Cons c a)
  show ?case
  proof (cases b)
    case Nil
    then show ?thesis using Cons.prems by (auto simp: lower_def Let_def)
  next
    case (Cons d b')
    then show ?thesis
      using Cons.prems Cons.IH [of b'] by (auto simp: lower_def Let_def)
  qed
qed

subsection \<open>Formatted allocation\<close>

text \<open>What C11 promises of \<open>vsnprintf\<close> for an output \<open>out\<close> without an encoding error.\<close>

definition vsnprintf_ok :: "(byte list \<Rightarrow> int \<times> byte list) \<Rightarrow> byte list \<Rightarrow> bool" where
  "vsnprintf_ok vsn out \<longleftrightarrow>
     (\<forall>buf. buf \<noteq> [] \<longrightarrow>
        vsn buf = (int (length out),
                   take (length buf - 1) out @ [0] @ drop (Suc (min (length buf - 1) (length out))) buf))"

lemma vsnprintf_okD:
  "vsnprintf_ok vsn out \<Longrightarrow> length buf = Suc n \<Longrightarrow>
     vsn buf = (int (length out), take n out @ [0] @ drop (Suc (min n (length out))) buf)"
  unfolding vsnprintf_ok_def by (metis diff_Suc_1 length_0_conv nat.distinct(1))

text \<open>
  When the format succeeds and memory is available, \<open>OPENSSL_vasprintf_internal\<close> returns the
  whole formatted output followed by a NUL, and its length, whether or not the output fits
  into the first guess of 64 bytes.
\<close>

theorem OPENSSL_vasprintf_complete:
  assumes "vsnprintf_ok vsn out" and "malloc_ok mal" and "\<forall>n. mal n \<noteq> None" and "length out < 2 ^ 31"
  shows "\<exists>rest. OPENSSL_vasprintf_internal mal vsn = (int (length out), Some (out @ [0] @ rest))"
proof -
  have mal: "\<exists>fresh. OPENSSL_malloc mal n = Some (ossl_block fresh) \<and> length fresh = n"
    if n: "n < 2 ^ 32" for n
  proof -
    from assms(3) obtain p where p: "mal (n + 8) = Some p" by blast
    then show ?thesis
      using OPENSSL_malloc_succeeds [OF assms(2) p] malloc_okD [OF assms(2) p] n
      by (intro exI [of _ "drop 8 p"]) (simp add: SIZE_MOD_def)
  qed
  obtain f where f: "OPENSSL_malloc mal 64 = Some (ossl_block f)" "length f = 64"
    using mal [of 64] by auto
  then have v: "vsn f = (int (length out), take 63 out @ [0] @ drop (Suc (min 63 (length out))) f)"
    using vsnprintf_okD [OF assms(1), of f 63] by simp
  show ?thesis
  proof (cases "length out < 64")
    case True
    then show ?thesis using f(1) v by (auto simp: OPENSSL_vasprintf_internal_def)
  next
    case False
    let ?n = "Suc (length out)"
    obtain g where g: "OPENSSL_malloc mal ?n = Some (ossl_block g)" "length g = ?n"
      using mal [of ?n] assms(4) by auto
    let ?g = "take ?n (snd (vsn f)) @ drop (length (snd (vsn f))) g"
    have l: "length (snd (vsn f)) = 64" using v f(2) False by simp
    have n: "size_add (nat (int (length out))) 1 = ?n"
      using assms(4) by (simp add: size_add_def SIZE_MOD_def)
    have b: "take OPENSSL_MALLOC_PREFIX (ossl_block f) @ snd (vsn f) = ossl_block (snd (vsn f))"
      using f(2) l by (simp only: take_prefix_ossl_block) (simp only: ossl_block_def)
    have r: "fst (OPENSSL_realloc mal (Some (ossl_block (snd (vsn f)))) ?n) = Some (ossl_block ?g)"
      using g l by (intro OPENSSL_realloc_succeeds) (simp_all add: SIZE_MOD_def)
    have "length ?g = ?n" using g(2) l False by simp
    from vsnprintf_okD [OF assms(1) this] have w: "vsn ?g = (int (length out), out @ [0])"
      using \<open>length ?g = ?n\<close> by simp
    obtain buf where vb: "vsn f = (int (length out), buf)" using v by blast
    show ?thesis
      using f(1) False n b r w unfolding vb
      by (simp add: OPENSSL_vasprintf_internal_def Let_def vb del: take_prefix_ossl_block of_nat_Suc)
  qed
qed

theorem OPENSSL_vasprintf_complete_witness:
  "\<exists>rest. OPENSSL_vasprintf_internal (\<lambda>n. Some (replicate n 0xaa))
       (\<lambda>buf. (2, take (length buf - 1) [0x61, 0x62] @ [0] @
                  drop (Suc (min (length buf - 1) (length [0x61, 0x62 :: byte]))) buf)) =
     (int (length [0x61, 0x62 :: byte]), Some ([0x61, 0x62] @ [0] @ rest))"
  by (rule OPENSSL_vasprintf_complete) (simp_all add: vsnprintf_ok_def malloc_ok_def)

end
