(* ===== verification/Cbs.thy ===== *)
theory Cbs
  imports Codec Mem
begin

text \<open>
  The byte-string reader of BoringSSL (\<open>crypto/bytestring/cbs.c\<close>). A \<open>CBS\<close> is a pointer
  and a length into bytes nobody writes through it; the model of a \<open>CBS\<close> is the list of
  bytes it still covers, and advancing the pointer is dropping a prefix. This theory holds
  the integer readers, the length-prefixed readers and the decimal reader, with their
  correctness: every reader consumes a prefix, and accepts exactly the encodings of its
  values. The ASN.1 readers are in \<open>Cbs_Asn1\<close>, \<open>Cbs_Integer\<close> and \<open>Cbs_Time\<close>.
\<close>

type_synonym cbs = "byte list"
type_synonym asn1_tag = u32

section \<open>Raw reads\<close>

definition cbs_get :: "cbs \<Rightarrow> nat \<Rightarrow> byte list option \<times> cbs" where
  "cbs_get cbs n =
     (if length cbs < n then (None, cbs) else (Some (take n cbs), drop n cbs))"

definition CBS_skip :: "cbs \<Rightarrow> nat \<Rightarrow> unit option \<times> cbs" where
  "CBS_skip cbs len =
     (case cbs_get cbs len of (None, cbs') \<Rightarrow> (None, cbs') | (Some _, cbs') \<Rightarrow> (Some (), cbs'))"

text \<open>
  \<open>CBS_stow\<close> and \<open>CBS_strdup\<close> free what the caller's pointer held and copy into fresh memory.
  The result is the return value, the new pointer (\<open>None\<close> for NULL), the length where there is
  one, and the block that was freed.
\<close>

definition CBS_stow ::
  "malloc_fn \<Rightarrow> cbs \<Rightarrow> byte list option \<Rightarrow> bool \<times> byte list option \<times> nat \<times> byte list option" where
  "CBS_stow mal cbs out_ptr =
     (let freed = OPENSSL_free out_ptr
      in if length cbs = 0 then (True, None, 0, freed)
         else case OPENSSL_memdup mal cbs of
                None \<Rightarrow> (False, None, 0, freed)
              | Some p \<Rightarrow> (True, Some p, length cbs, freed))"

definition CBS_strdup ::
  "malloc_fn \<Rightarrow> cbs \<Rightarrow> byte list option \<Rightarrow> bool \<times> byte list option \<times> byte list option" where
  "CBS_strdup mal cbs out_ptr =
     (let freed = (case out_ptr of None \<Rightarrow> None | Some p \<Rightarrow> OPENSSL_free (Some p));
          out = OPENSSL_strndup mal cbs (length cbs)
      in (out \<noteq> None, out, freed))"

definition CBS_contains_zero_byte :: "cbs \<Rightarrow> bool" where
  "CBS_contains_zero_byte cbs \<longleftrightarrow> OPENSSL_memchr cbs 0 \<noteq> None"

definition CBS_mem_equal :: "cbs \<Rightarrow> byte list \<Rightarrow> bool" where
  "CBS_mem_equal cbs data \<longleftrightarrow>
     (if length data \<noteq> length cbs then False else CRYPTO_memcmp cbs data = 0)"

section \<open>Integers\<close>

definition be_fold :: "byte list \<Rightarrow> u64" where
  "be_fold bs = foldl (\<lambda>result b. push_bit 8 result OR ucast b) 0 bs"

definition cbs_get_u :: "cbs \<Rightarrow> nat \<Rightarrow> u64 option \<times> cbs" where
  "cbs_get_u cbs len =
     (case cbs_get cbs len of
        (None, cbs') \<Rightarrow> (None, cbs')
      | (Some data, cbs') \<Rightarrow> (Some (be_fold data), cbs'))"

definition CBS_get_u8 :: "cbs \<Rightarrow> byte option \<times> cbs" where
  "CBS_get_u8 cbs =
     (case cbs_get cbs 1 of (None, cbs') \<Rightarrow> (None, cbs') | (Some v, cbs') \<Rightarrow> (Some (hd v), cbs'))"

definition CBS_get_u16 :: "cbs \<Rightarrow> u16 option \<times> cbs" where
  "CBS_get_u16 cbs =
     (case cbs_get_u cbs 2 of (None, cbs') \<Rightarrow> (None, cbs') | (Some v, cbs') \<Rightarrow> (Some (ucast v), cbs'))"

definition CRYPTO_bswap2 :: "u16 \<Rightarrow> u16" where
  "CRYPTO_bswap2 x = drop_bit 8 x OR push_bit 8 x"

definition CRYPTO_bswap4 :: "u32 \<Rightarrow> u32" where
  "CRYPTO_bswap4 x =
     (let x = (drop_bit 16 x) OR (push_bit 16 x)
      in (drop_bit 8 (x AND 0xff00ff00)) OR (push_bit 8 (x AND 0x00ff00ff)))"

definition CRYPTO_bswap8 :: "u64 \<Rightarrow> u64" where
  "CRYPTO_bswap8 x =
     ucast (CRYPTO_bswap4 (ucast (drop_bit 32 x))) OR push_bit 32 (ucast (CRYPTO_bswap4 (ucast x)))"

definition CBS_get_u16le :: "cbs \<Rightarrow> u16 option \<times> cbs" where
  "CBS_get_u16le cbs =
     (case CBS_get_u16 cbs of
        (None, cbs') \<Rightarrow> (None, cbs') | (Some v, cbs') \<Rightarrow> (Some (CRYPTO_bswap2 v), cbs'))"

definition CBS_get_u24 :: "cbs \<Rightarrow> u32 option \<times> cbs" where
  "CBS_get_u24 cbs =
     (case cbs_get_u cbs 3 of (None, cbs') \<Rightarrow> (None, cbs') | (Some v, cbs') \<Rightarrow> (Some (ucast v), cbs'))"

definition CBS_get_u32 :: "cbs \<Rightarrow> u32 option \<times> cbs" where
  "CBS_get_u32 cbs =
     (case cbs_get_u cbs 4 of (None, cbs') \<Rightarrow> (None, cbs') | (Some v, cbs') \<Rightarrow> (Some (ucast v), cbs'))"

definition CBS_get_u32le :: "cbs \<Rightarrow> u32 option \<times> cbs" where
  "CBS_get_u32le cbs =
     (case CBS_get_u32 cbs of
        (None, cbs') \<Rightarrow> (None, cbs') | (Some v, cbs') \<Rightarrow> (Some (CRYPTO_bswap4 v), cbs'))"

definition CBS_get_u64 :: "cbs \<Rightarrow> u64 option \<times> cbs" where
  "CBS_get_u64 cbs = cbs_get_u cbs 8"

definition CBS_get_u64le :: "cbs \<Rightarrow> u64 option \<times> cbs" where
  "CBS_get_u64le cbs =
     (case cbs_get_u cbs 8 of
        (None, cbs') \<Rightarrow> (None, cbs') | (Some v, cbs') \<Rightarrow> (Some (CRYPTO_bswap8 v), cbs'))"

definition CBS_get_last_u8 :: "cbs \<Rightarrow> byte option \<times> cbs" where
  "CBS_get_last_u8 cbs =
     (if length cbs = 0 then (None, cbs)
      else (Some (cbs ! (length cbs - 1)), take (length cbs - 1) cbs))"

definition CBS_get_bytes :: "cbs \<Rightarrow> nat \<Rightarrow> cbs option \<times> cbs" where
  "CBS_get_bytes cbs len =
     (case cbs_get cbs len of (None, cbs') \<Rightarrow> (None, cbs') | (Some v, cbs') \<Rightarrow> (Some v, cbs'))"

definition CBS_copy_bytes :: "cbs \<Rightarrow> nat \<Rightarrow> byte list option \<times> cbs" where
  "CBS_copy_bytes cbs len =
     (case cbs_get cbs len of (None, cbs') \<Rightarrow> (None, cbs') | (Some v, cbs') \<Rightarrow> (Some v, cbs'))"

definition cbs_get_length_prefixed :: "cbs \<Rightarrow> nat \<Rightarrow> cbs option \<times> cbs" where
  "cbs_get_length_prefixed cbs len_len =
     (case cbs_get_u cbs len_len of
        (None, cbs') \<Rightarrow> (None, cbs')
      | (Some len, cbs') \<Rightarrow> CBS_get_bytes cbs' (unat len))"

definition CBS_get_u8_length_prefixed :: "cbs \<Rightarrow> cbs option \<times> cbs" where
  "CBS_get_u8_length_prefixed cbs = cbs_get_length_prefixed cbs 1"

definition CBS_get_u16_length_prefixed :: "cbs \<Rightarrow> cbs option \<times> cbs" where
  "CBS_get_u16_length_prefixed cbs = cbs_get_length_prefixed cbs 2"

definition CBS_get_u24_length_prefixed :: "cbs \<Rightarrow> cbs option \<times> cbs" where
  "CBS_get_u24_length_prefixed cbs = cbs_get_length_prefixed cbs 3"

definition CBS_get_until_first :: "cbs \<Rightarrow> byte \<Rightarrow> cbs option \<times> cbs" where
  "CBS_get_until_first cbs c =
     (case OPENSSL_memchr cbs c of
        None \<Rightarrow> (None, cbs)
      | Some split \<Rightarrow> CBS_get_bytes cbs split)"

definition UINT64_MAX :: u64 where
  "UINT64_MAX = 0xffffffffffffffff"

fun u64_decimal_loop :: "cbs \<Rightarrow> u64 \<Rightarrow> bool \<Rightarrow> u64 option \<times> cbs" where
  "u64_decimal_loop [] v seen_digit = (if seen_digit then Some v else None, [])"
| "u64_decimal_loop (c # cbs) v seen_digit =
     (if \<not> OPENSSL_isdigit (uint c) then (if seen_digit then Some v else None, c # cbs)
      else if (v = 0 \<and> seen_digit) \<or> v > UINT64_MAX div 10
              \<or> v * 10 > UINT64_MAX - ucast (c - 0x30)
      then (None, cbs)
      else u64_decimal_loop cbs (v * 10 + ucast (c - 0x30)) True)"

definition CBS_get_u64_decimal :: "cbs \<Rightarrow> u64 option \<times> cbs" where
  "CBS_get_u64_decimal cbs = u64_decimal_loop cbs 0 False"

section \<open>Lemmas\<close>

lemma cbs_get_append [simp]: "length xs = n \<Longrightarrow> cbs_get (xs @ rest) n = (Some xs, rest)"
  by (auto simp: cbs_get_def)

lemma cbs_get_short [simp]: "length cbs < n \<Longrightarrow> cbs_get cbs n = (None, cbs)"
  by (simp add: cbs_get_def)

lemma cbs_get_Some: "cbs_get cbs n = (Some v, cbs') \<longleftrightarrow> cbs = v @ cbs' \<and> length v = n"
  by (auto simp: cbs_get_def split: if_splits)

lemma CBS_get_u8_Cons [simp]: "CBS_get_u8 (b # cbs) = (Some b, cbs)"
  by (simp add: CBS_get_u8_def cbs_get_def)

lemma CBS_get_u8_Nil [simp]: "CBS_get_u8 [] = (None, [])"
  by (simp add: CBS_get_u8_def cbs_get_def)

lemma CBS_get_u8_Some: "CBS_get_u8 cbs = (Some b, cbs') \<longleftrightarrow> cbs = b # cbs'"
  by (cases cbs) auto

lemma CBS_get_bytes_eq: "CBS_get_bytes cbs n = cbs_get cbs n"
  by (simp add: CBS_get_bytes_def split: prod.split option.split)

lemma CBS_skip_append [simp]: "length xs = n \<Longrightarrow> CBS_skip (xs @ rest) n = (Some (), rest)"
  by (simp add: CBS_skip_def)

lemma be_fold_snoc: "be_fold (bs @ [b]) = push_bit 8 (be_fold bs) OR ucast b"
  by (simp add: be_fold_def)

lemma unat_be_fold: "length bs \<le> 8 \<Longrightarrow> unat (be_fold bs) = be_nat bs"
proof (induction bs rule: rev_induct)
  case (snoc b bs)
  have "be_nat (bs @ [b]) < 256 ^ length (bs @ [b])" by (rule be_nat_less)
  also have "(256::nat) ^ length (bs @ [b]) \<le> 256 ^ 8"
    using snoc.prems by (intro power_increasing) auto
  finally have bound: "be_nat bs * 256 + unat b < 2 ^ 64" by simp
  have "unat (push_bit 8 (be_fold bs) OR ucast b) = unat (be_fold bs) * 2 ^ 8 + unat b"
    using snoc bound unat_byte_less [of b]
    by (subst unat_shift_or) (simp_all add: unat_ucast_up)
  then show ?case using snoc by (simp add: be_fold_snoc)
qed (simp add: be_fold_def)

lemma be_fold_eq: "length bs \<le> 8 \<Longrightarrow> be_fold bs = of_nat (be_nat bs)"
  by (simp flip: unat_be_fold)

lemma be_fold_be_bytes:
  "n \<le> 8 \<Longrightarrow> unat v < 256 ^ n \<Longrightarrow> be_fold (be_bytes n (unat v)) = v"
  by (simp add: be_fold_eq be_nat_be_bytes)

lemma be_bytes_be_fold:
  "length bs \<le> 8 \<Longrightarrow> be_bytes (length bs) (unat (be_fold bs)) = bs"
  by (simp add: unat_be_fold be_bytes_be_nat)

lemma cbs_get_u_eq:
  "cbs_get_u cbs n =
     (if length cbs < n then (None, cbs) else (Some (be_fold (take n cbs)), drop n cbs))"
  by (simp add: cbs_get_u_def cbs_get_def)

subsection \<open>The integer readers as canonical codecs\<close>

lemma cbs_get_u_canonical:
  assumes "n \<le> 8"
  shows "canonical_codec (\<lambda>v. be_bytes n (unat v)) (\<lambda>c. cbs_get_u c n) (\<lambda>v. unat v < 256 ^ n)"
proof
  fix v :: u64 and rest
  assume "unat v < 256 ^ n"
  with assms show "cbs_get_u (be_bytes n (unat v) @ rest) n = (Some v, rest)"
    by (simp add: cbs_get_u_eq be_fold_be_bytes)
next
  fix c c' and v :: u64
  assume "cbs_get_u c n = (Some v, c')"
  then have n: "n \<le> length c" and v: "v = be_fold (take n c)" and c': "c' = drop n c"
    by (auto simp: cbs_get_u_eq split: if_splits)
  then have len: "length (take n c) = n" by simp
  have "unat v = be_nat (take n c)" using len assms v by (simp add: unat_be_fold)
  moreover have "be_bytes n (unat v) = take n c"
    using be_bytes_be_nat [of "take n c"] len calculation by simp
  ultimately show "unat v < 256 ^ n \<and> c = be_bytes n (unat v) @ c'"
    using be_nat_less [of "take n c"] len c' by simp
qed

text \<open>A narrower integer type: the value is truncated after \<open>cbs_get_u\<close>, with no loss.\<close>

lemma narrow_canonical:
  fixes dec :: "cbs \<Rightarrow> ('a::len word) option \<times> cbs"
  assumes "n \<le> 8" and "8 * n \<le> LENGTH('a)" and "LENGTH('a) \<le> 64"
    and dec: "\<And>c. dec c = (case cbs_get_u c n of (None, c') \<Rightarrow> (None, c')
                                   | (Some v, c') \<Rightarrow> (Some (ucast v), c'))"
  shows "canonical_codec (\<lambda>v. be_bytes n (unat v)) dec (\<lambda>v. unat v < 256 ^ n)"
proof -
  have pow: "(256::nat) ^ n \<le> 2 ^ LENGTH('a)"
    using assms(2) power_increasing [of "8 * n" "LENGTH('a)" "2::nat"] by (simp add: power_mult)
  note wide = cbs_get_u_canonical [OF assms(1)]
  show ?thesis
  proof
    fix v :: "'a word" and rest
    assume v: "unat v < 256 ^ n"
    have up: "unat (ucast v :: u64) = unat v" using assms(3) by (simp add: unat_ucast_up)
    have "cbs_get_u (be_bytes n (unat v) @ rest) n = (Some (ucast v), rest)"
      using decoder.dec_enc [OF canonical_codec.axioms(1) [OF wide], of "ucast v" rest] v up
      by simp
    then show "dec (be_bytes n (unat v) @ rest) = (Some v, rest)"
      using assms(3) by (simp add: dec ucast_ucast_up)
  next
    fix c c' and v :: "'a word"
    assume "dec c = (Some v, c')"
    then obtain w where w: "cbs_get_u c n = (Some w, c')" and v: "v = ucast w"
      by (auto simp: dec split: prod.splits option.splits)
    from canonical_codec.enc_dec [OF wide w]
    have lt: "unat w < 256 ^ n" and c: "c = be_bytes n (unat w) @ c'" by auto
    have "unat v = unat w" using lt pow by (simp add: v unat_ucast_down)
    with lt c show "unat v < 256 ^ n \<and> c = be_bytes n (unat v) @ c'" by simp
  qed
qed

interpretation u16_codec: canonical_codec "\<lambda>v. be_bytes 2 (unat v)" CBS_get_u16 "\<lambda>v. unat v < 256 ^ 2"
  by (rule narrow_canonical) (simp_all add: CBS_get_u16_def)

interpretation u24_codec: canonical_codec "\<lambda>v. be_bytes 3 (unat v)" CBS_get_u24 "\<lambda>v. unat v < 256 ^ 3"
  by (rule narrow_canonical) (simp_all add: CBS_get_u24_def)

interpretation u32_codec: canonical_codec "\<lambda>v. be_bytes 4 (unat v)" CBS_get_u32 "\<lambda>v. unat v < 256 ^ 4"
  by (rule narrow_canonical) (simp_all add: CBS_get_u32_def)

interpretation u64_codec: canonical_codec "\<lambda>v. be_bytes 8 (unat v)" CBS_get_u64 "\<lambda>v. unat v < 256 ^ 8"
  using cbs_get_u_canonical [of 8] by (simp add: CBS_get_u64_def [abs_def])

text \<open>
  The fixed-width readers accept exactly the big-endian encodings: \<open>CBS_get_u16\<close>,
  \<open>CBS_get_u24\<close>, \<open>CBS_get_u32\<close> and \<open>CBS_get_u64\<close> succeed with value \<open>v\<close> and remaining
  input \<open>c'\<close> if and only if the input is the 2, 3, 4 or 8 byte big-endian form of \<open>v\<close>
  followed by \<open>c'\<close> (a 24-bit value never has its upper byte set).
\<close>

theorem CBS_get_uN_exact:
  "(CBS_get_u16 c = (Some v16, c') \<longleftrightarrow> c = be_bytes 2 (unat v16) @ c') \<and>
   (CBS_get_u24 c = (Some v24, c') \<longleftrightarrow> unat v24 < 2 ^ 24 \<and> c = be_bytes 3 (unat v24) @ c') \<and>
   (CBS_get_u32 c = (Some v32, c') \<longleftrightarrow> c = be_bytes 4 (unat v32) @ c') \<and>
   (CBS_get_u64 c = (Some v64, c') \<longleftrightarrow> c = be_bytes 8 (unat v64) @ c')"
  by (simp add: unat_u16_less unat_u32_less unat_u64_less u16_codec.dec_Some_iff u24_codec.dec_Some_iff u32_codec.dec_Some_iff
      u64_codec.dec_Some_iff)

subsection \<open>Length-prefixed strings\<close>

lemma cbs_get_length_prefixed_exact:
  assumes "n \<le> 3"
  shows "cbs_get_length_prefixed c n = (Some d, c') \<longleftrightarrow>
           length d < 256 ^ n \<and> c = be_bytes n (length d) @ d @ c'"
proof -
  note codec = cbs_get_u_canonical [OF order_trans [OF assms], simplified]
  have small: "m < 256 ^ n \<Longrightarrow> m < 2 ^ 64" for m :: nat
    using assms power_increasing [of n 3 "256 :: nat"] by simp
  show ?thesis
  proof
    assume "cbs_get_length_prefixed c n = (Some d, c')"
    then obtain len c1 where "cbs_get_u c n = (Some len, c1)" and "cbs_get c1 (unat len) = (Some d, c')"
      by (auto simp: cbs_get_length_prefixed_def CBS_get_bytes_eq split: prod.splits option.splits)
    then show "length d < 256 ^ n \<and> c = be_bytes n (length d) @ d @ c'"
      using canonical_codec.enc_dec [OF codec] by (auto simp: cbs_get_Some)
  next
    assume r: "length d < 256 ^ n \<and> c = be_bytes n (length d) @ d @ c'"
    then have "unat (of_nat (length d) :: u64) = length d"
      using small by (simp add: unat_of_nat)
    then have "cbs_get_u c n = (Some (of_nat (length d)), d @ c')"
      using decoder.dec_enc [OF canonical_codec.axioms(1) [OF codec], of "of_nat (length d)" "d @ c'"] r
      by simp
    then show "cbs_get_length_prefixed c n = (Some d, c')"
      using \<open>unat (of_nat (length d) :: u64) = length d\<close>
      by (simp add: cbs_get_length_prefixed_def CBS_get_bytes_eq)
  qed
qed

text \<open>
  The length-prefixed readers return a string \<open>d\<close> exactly when the input starts with the
  1, 2 or 3 byte big-endian length of \<open>d\<close> and then \<open>d\<close> itself, leaving what follows.
\<close>

theorem CBS_length_prefixed_exact:
  "(CBS_get_u8_length_prefixed c = (Some d, c') \<longleftrightarrow>
      length d < 2 ^ 8 \<and> c = be_bytes 1 (length d) @ d @ c') \<and>
   (CBS_get_u16_length_prefixed c = (Some d, c') \<longleftrightarrow>
      length d < 2 ^ 16 \<and> c = be_bytes 2 (length d) @ d @ c') \<and>
   (CBS_get_u24_length_prefixed c = (Some d, c') \<longleftrightarrow>
      length d < 2 ^ 24 \<and> c = be_bytes 3 (length d) @ d @ c')"
  using cbs_get_length_prefixed_exact [of 1 c d c'] cbs_get_length_prefixed_exact [of 2 c d c']
    cbs_get_length_prefixed_exact [of 3 c d c']
  by (simp add: CBS_get_u8_length_prefixed_def CBS_get_u16_length_prefixed_def
      CBS_get_u24_length_prefixed_def)

subsection \<open>Decimal numbers\<close>

text \<open>The decimal digits of a number, as \<open>snprintf\<close> with \<open>PRIu64\<close> prints them.\<close>

fun decimal :: "nat \<Rightarrow> byte list" where
  "decimal n = (if n < 10 then [of_nat (0x30 + n)] else decimal (n div 10) @ [of_nat (0x30 + n mod 10)])"

declare decimal.simps [simp del]

definition digits_val :: "nat \<Rightarrow> byte list \<Rightarrow> nat" where
  "digits_val a ds = foldl (\<lambda>a d. a * 10 + (unat d - 0x30)) a ds"

lemma digits_val_simps [simp]:
  "digits_val a [] = a"
  "digits_val a (d # ds) = digits_val (a * 10 + (unat d - 0x30)) ds"
  "digits_val a (ds @ [d]) = digits_val a ds * 10 + (unat d - 0x30)"
  by (simp_all add: digits_val_def)

lemma isdigit_iff: "OPENSSL_isdigit (uint (c :: byte)) \<longleftrightarrow> 0x30 \<le> unat c \<and> unat c \<le> 0x39"
  unfolding OPENSSL_isdigit_def uint_nat by linarith

lemma unat_digit: "OPENSSL_isdigit (uint (c :: byte)) \<Longrightarrow> unat (ucast (c - 0x30) :: u64) = unat c - 0x30"
  by (simp add: isdigit_iff unat_ucast_up unat_sub word_le_nat_alt)

lemma digits_val_ge: "a \<le> digits_val a ds"
proof (induction ds arbitrary: a)
  case (Cons d ds)
  have "a \<le> a * 10 + (unat d - 0x30)" by simp
  also have "\<dots> \<le> digits_val (a * 10 + (unat d - 0x30)) ds" by (rule Cons.IH)
  finally show ?case by simp
qed simp

text \<open>The overflow guard of one step is exact.\<close>

lemma decimal_step_guard:
  assumes "OPENSSL_isdigit (uint (c :: byte))"
  shows "v > UINT64_MAX div 10 \<or> v * 10 > UINT64_MAX - ucast (c - 0x30) \<longleftrightarrow>
           unat v * 10 + (unat c - 0x30) \<ge> 2 ^ 64"
    and "unat v * 10 + (unat c - 0x30) < 2 ^ 64 \<Longrightarrow>
           unat (v * 10 + ucast (c - 0x30)) = unat v * 10 + (unat c - 0x30)"
proof -
  let ?d = "unat c - 0x30"
  have d: "?d \<le> 9" using assms by (auto simp: isdigit_iff)
  have ud: "unat (ucast (c - 0x30) :: u64) = ?d" using assms by (rule unat_digit)
  have m: "unat (UINT64_MAX - ucast (c - 0x30)) = 2 ^ 64 - 1 - ?d"
    using d ud by (simp add: UINT64_MAX_def unat_sub_if')
  have q: "v > UINT64_MAX div 10 \<longleftrightarrow> unat v \<ge> 1844674407370955162"
    by (auto simp: UINT64_MAX_def word_less_nat_alt unat_div)
  show "v > UINT64_MAX div 10 \<or> v * 10 > UINT64_MAX - ucast (c - 0x30) \<longleftrightarrow>
           unat v * 10 + ?d \<ge> 2 ^ 64"
  proof (cases "unat v \<ge> 1844674407370955162")
    case True
    then show ?thesis using q by simp
  next
    case False
    then have "unat (v * 10) = unat v * 10" by (simp add: unat_word_ariths)
    then have "v * 10 > UINT64_MAX - ucast (c - 0x30) \<longleftrightarrow> unat v * 10 > 2 ^ 64 - 1 - ?d"
      using m by (simp add: word_less_nat_alt)
    then show ?thesis using q False d by auto
  qed
  assume "unat v * 10 + ?d < 2 ^ 64"
  then show "unat (v * 10 + ucast (c - 0x30)) = unat v * 10 + ?d"
    using ud by (simp add: unat_word_ariths)
qed

definition canonical_digits :: "nat \<Rightarrow> bool \<Rightarrow> byte list \<Rightarrow> bool" where
  "canonical_digits v seen ds \<longleftrightarrow>
     (\<forall>d\<in>set ds. OPENSSL_isdigit (uint d)) \<and> (seen \<or> ds \<noteq> []) \<and>
     (v = 0 \<longrightarrow> (if seen then ds = [] else hd ds = 0x30 \<longrightarrow> tl ds = []))"

lemma digit_zero_iff: "OPENSSL_isdigit (uint (c :: byte)) \<Longrightarrow> unat c - 0x30 = 0 \<longleftrightarrow> c = 0x30"
  by (auto simp: isdigit_iff word_unat_eq_iff)

lemma u64_decimal_loop_Some:
  "u64_decimal_loop c v seen = (Some w, c') \<Longrightarrow> (\<not> seen \<Longrightarrow> v = 0) \<Longrightarrow>
     \<exists>ds. c = ds @ c' \<and> canonical_digits (unat v) seen ds \<and> unat w = digits_val (unat v) ds
        \<and> (c' = [] \<or> \<not> OPENSSL_isdigit (uint (hd c')))"
proof (induction c v seen rule: u64_decimal_loop.induct)
  case (1 v seen)
  then show ?case by (auto simp: canonical_digits_def split: if_splits)
next
  case (2 b c v seen)
  show ?case
  proof (cases "OPENSSL_isdigit (uint b)")
    case False
    with "2.prems" show ?thesis
      by (intro exI [of _ "[]"]) (auto simp: canonical_digits_def split: if_splits)
  next
    case True
    note step = decimal_step_guard [OF True, of v]
    let ?v = "v * 10 + ucast (b - 0x30)"
    from "2.prems"(1) True have nz: "\<not> (v = 0 \<and> seen)"
      and g: "\<not> (v > UINT64_MAX div 10 \<or> v * 10 > UINT64_MAX - ucast (b - 0x30))"
      and rec: "u64_decimal_loop c ?v True = (Some w, c')"
      by (auto split: if_splits)
    from step g have uv: "unat ?v = unat v * 10 + (unat b - 0x30)" by simp
    have "\<exists>ds. c = ds @ c' \<and> canonical_digits (unat ?v) True ds \<and> unat w = digits_val (unat ?v) ds
        \<and> (c' = [] \<or> \<not> OPENSSL_isdigit (uint (hd c')))"
      using "2.IH" True nz g rec by simp
    then obtain ds where ds: "c = ds @ c'" "canonical_digits (unat ?v) True ds"
      "unat w = digits_val (unat ?v) ds" "c' = [] \<or> \<not> OPENSSL_isdigit (uint (hd c'))" by blast
    moreover have "canonical_digits (unat v) seen (b # ds)"
      using ds(2) True nz "2.prems"(2) uv digit_zero_iff [OF True]
      by (auto simp: canonical_digits_def unat_0_iff)
    ultimately show ?thesis by (intro exI [of _ "b # ds"]) (simp add: uv)
  qed
qed

lemma u64_decimal_loop_digits:
  "canonical_digits (unat v) seen ds \<Longrightarrow> (\<not> seen \<Longrightarrow> v = 0) \<Longrightarrow> digits_val (unat v) ds < 2 ^ 64 \<Longrightarrow>
   c' = [] \<or> \<not> OPENSSL_isdigit (uint (hd c')) \<Longrightarrow>
   u64_decimal_loop (ds @ c') v seen = (Some (of_nat (digits_val (unat v) ds)), c')"
proof (induction ds arbitrary: v seen)
  case Nil
  then show ?case by (cases c') (auto simp: canonical_digits_def)
next
  case (Cons b ds)
  let ?v = "v * 10 + ucast (b - 0x30)"
  from Cons.prems have b: "OPENSSL_isdigit (uint b)" by (simp add: canonical_digits_def)
  note step = decimal_step_guard [OF b, of v]
  have "unat v * 10 + (unat b - 0x30) \<le> digits_val (unat v) (b # ds)"
    using digits_val_ge by simp
  then have lt: "unat v * 10 + (unat b - 0x30) < 2 ^ 64" using Cons.prems(3) by linarith
  then have uv: "unat ?v = unat v * 10 + (unat b - 0x30)" using step by simp
  have nz: "\<not> (v = 0 \<and> seen)" using Cons.prems(1) by (auto simp: canonical_digits_def)
  have "canonical_digits (unat ?v) True ds"
    using Cons.prems(1) uv digit_zero_iff [OF b] nz Cons.prems(2)
    by (auto simp: canonical_digits_def unat_0_iff)
  moreover have "digits_val (unat ?v) ds < 2 ^ 64" using Cons.prems(3) uv by simp
  ultimately have "u64_decimal_loop (ds @ c') ?v True = (Some (of_nat (digits_val (unat ?v) ds)), c')"
    using Cons.IH [of ?v True] Cons.prems(4) by blast
  then show ?case using b nz lt step uv by simp
qed

lemma decimal_digits: "canonical_digits 0 False (decimal n) \<and> digits_val 0 (decimal n) = n"
proof (induction n rule: decimal.induct)
  case (1 n)
  show ?case
  proof (cases "n < 10")
    case True
    then have "unat (of_nat (48 + n) :: byte) = 48 + n" by (subst unat_of_nat) simp
    with True show ?thesis
      by (subst (1 2) decimal.simps) (simp add: canonical_digits_def isdigit_iff del: of_nat_add)
  next
    case False
    let ?b = "of_nat (48 + n mod 10) :: byte"
    have b: "unat ?b = 48 + n mod 10" by (subst unat_of_nat) simp
    have d: "decimal n = decimal (n div 10) @ [?b]" using False by (subst decimal.simps) simp
    have ne: "decimal (n div 10) \<noteq> []" by (subst decimal.simps) simp
    have IH: "canonical_digits 0 False (decimal (n div 10))" "digits_val 0 (decimal (n div 10)) = n div 10"
      using "1.IH" False by auto
    have "decimal (n div 10) \<noteq> [0x30]"
    proof
      assume "decimal (n div 10) = [0x30]"
      then have "digits_val 0 [0x30] = n div 10" using IH(2) by simp
      then show False using False by simp
    qed
    then have "hd (decimal (n div 10)) \<noteq> 0x30"
      using IH(1) ne by (cases "decimal (n div 10)") (auto simp: canonical_digits_def)
    then have "canonical_digits 0 False (decimal n)"
      using IH(1) ne b by (simp add: d canonical_digits_def isdigit_iff)
    then show ?thesis using IH(2) b d by simp
  qed
qed

lemma digits_val_pos: "canonical_digits 0 False ds \<Longrightarrow> hd ds \<noteq> 0x30 \<Longrightarrow> 0 < digits_val 0 ds"
proof -
  assume c: "canonical_digits 0 False ds" and h: "hd ds \<noteq> 0x30"
  then obtain d ds' where ds: "ds = d # ds'" by (cases ds) (auto simp: canonical_digits_def)
  have "0 < unat d - 0x30" using c h ds digit_zero_iff [of d] by (auto simp: canonical_digits_def)
  also have "\<dots> \<le> digits_val (unat d - 0x30) ds'" by (rule digits_val_ge)
  finally show ?thesis using ds by simp
qed

lemma decimal_digits_val: "canonical_digits 0 False ds \<Longrightarrow> decimal (digits_val 0 ds) = ds"
proof (induction ds rule: rev_induct)
  case Nil
  then show ?case by (simp add: canonical_digits_def)
next
  case (snoc d ds)
  from snoc.prems have d: "OPENSSL_isdigit (uint d)" by (simp add: canonical_digits_def)
  then have dl: "unat d - 0x30 < 10" and db: "of_nat (48 + (unat d - 0x30)) = d"
    by (auto simp: isdigit_iff)
  show ?case
  proof (cases "ds = []")
    case True
    then show ?thesis using dl db by (subst decimal.simps) simp
  next
    case False
    have c: "canonical_digits 0 False ds" and h: "hd ds \<noteq> 0x30"
      using snoc.prems False by (auto simp: canonical_digits_def)
    have p: "0 < digits_val 0 ds" using c h by (rule digits_val_pos)
    then have "decimal (digits_val 0 ds * 10 + (unat d - 0x30)) = decimal (digits_val 0 ds) @ [d]"
      using dl db by (subst decimal.simps) simp
    then show ?thesis using snoc.IH [OF c] by simp
  qed
qed

text \<open>The input after a number: empty, or no further digit.\<close>

definition number_ends :: "cbs \<Rightarrow> bool" where
  "number_ends c = (case c of [] \<Rightarrow> True | b # _ \<Rightarrow> \<not> OPENSSL_isdigit (uint b))"

lemma number_ends_iff: "number_ends c \<longleftrightarrow> c = [] \<or> \<not> OPENSSL_isdigit (uint (hd c))"
  by (simp add: number_ends_def split: list.split)

lemma CBS_get_u64_decimal_iff:
  "CBS_get_u64_decimal c = (Some v, c') \<longleftrightarrow> c = decimal (unat v) @ c' \<and> number_ends c'"
  unfolding number_ends_iff
proof
  assume "CBS_get_u64_decimal c = (Some v, c')"
  from u64_decimal_loop_Some [OF this [unfolded CBS_get_u64_decimal_def]]
  show "c = decimal (unat v) @ c' \<and> (c' = [] \<or> \<not> OPENSSL_isdigit (uint (hd c')))"
    using decimal_digits_val by auto
next
  assume r: "c = decimal (unat v) @ c' \<and> (c' = [] \<or> \<not> OPENSSL_isdigit (uint (hd c')))"
  have "digits_val 0 (decimal (unat v)) < 2 ^ 64" using decimal_digits unat_u64_less [of v] by simp
  then show "CBS_get_u64_decimal c = (Some v, c')"
    using u64_decimal_loop_digits [of 0 False "decimal (unat v)" c'] r decimal_digits [of "unat v"]
    by (simp add: CBS_get_u64_decimal_def)
qed

text \<open>
  \<open>CBS_get_u64_decimal\<close> returns \<open>v\<close> exactly when the input is the decimal form of \<open>v\<close>, with
  no superfluous leading zero, up to the end of the input or the first non-digit. A number
  that does not fit in 64 bits is never returned, truncated or wrapped.
\<close>

theorem CBS_get_u64_decimal_exact:
  "CBS_get_u64_decimal c = (Some v, c') \<longleftrightarrow> c = decimal (unat v) @ c' \<and> number_ends c'"
  by (rule CBS_get_u64_decimal_iff)

end
