(* ===== verification/Cbs_Asn1.thy ===== *)
theory Cbs_Asn1
  imports Cbs
begin

text \<open>
  The ASN.1 part of \<open>crypto/bytestring/cbs.c\<close>: base-128 integers, tags, the DER/BER
  element parser and the readers of INTEGER, BOOLEAN, OPTIONAL fields, BIT STRING and
  OBJECT IDENTIFIER contents.
\<close>

section \<open>Tags\<close>

definition CBS_ASN1_TAG_SHIFT :: nat where
  "CBS_ASN1_TAG_SHIFT = 24"

definition CBS_ASN1_CONSTRUCTED :: asn1_tag where
  "CBS_ASN1_CONSTRUCTED = push_bit CBS_ASN1_TAG_SHIFT 0x20"

definition CBS_ASN1_TAG_NUMBER_MASK :: asn1_tag where
  "CBS_ASN1_TAG_NUMBER_MASK = push_bit (5 + CBS_ASN1_TAG_SHIFT) 1 - 1"

definition CBS_ASN1_BOOLEAN :: asn1_tag where "CBS_ASN1_BOOLEAN = 0x1"
definition CBS_ASN1_INTEGER :: asn1_tag where "CBS_ASN1_INTEGER = 0x2"
definition CBS_ASN1_OCTETSTRING :: asn1_tag where "CBS_ASN1_OCTETSTRING = 0x4"

fun base128_loop :: "cbs \<Rightarrow> u64 \<Rightarrow> u64 option \<times> cbs" where
  "base128_loop [] v = (None, [])"
| "base128_loop (b # cbs) v =
     (if drop_bit (64 - 7) v \<noteq> 0 then (None, cbs)
      else if v = 0 \<and> b = 0x80 then (None, cbs)
      else let v' = push_bit 7 v OR ucast (b AND 0x7f)
           in if b AND 0x80 \<noteq> 0 then base128_loop cbs v' else (Some v', cbs))"

definition parse_base128_integer :: "cbs \<Rightarrow> u64 option \<times> cbs" where
  "parse_base128_integer cbs = base128_loop cbs 0"

definition parse_asn1_tag :: "cbs \<Rightarrow> asn1_tag option \<times> cbs" where
  "parse_asn1_tag cbs =
     (case CBS_get_u8 cbs of
        (None, cbs1) \<Rightarrow> (None, cbs1)
      | (Some tag_byte, cbs1) \<Rightarrow>
          let tag = push_bit CBS_ASN1_TAG_SHIFT (ucast tag_byte AND 0xe0);
              tag_number = ucast (tag_byte AND 0x1f);
              finish = (\<lambda>n c. let t = tag OR n in
                          if t AND NOT CBS_ASN1_CONSTRUCTED = 0 then (None, c) else (Some t, c))
          in if tag_number = 0x1f
             then (case parse_base128_integer cbs1 of
                     (None, cbs2) \<Rightarrow> (None, cbs2)
                   | (Some v, cbs2) \<Rightarrow>
                       if v > ucast CBS_ASN1_TAG_NUMBER_MASK \<or> v < 0x1f then (None, cbs2)
                       else finish (ucast v) cbs2)
             else finish tag_number cbs1)"

section \<open>Elements\<close>

record asn1_element =
  el_out :: cbs
  el_tag :: asn1_tag
  el_header_len :: nat
  el_ber_found :: bool
  el_indefinite :: bool

definition cbs_get_any_asn1_element :: "cbs \<Rightarrow> bool \<Rightarrow> asn1_element option \<times> cbs" where
  "cbs_get_any_asn1_element cbs ber_ok =
     (case parse_asn1_tag cbs of
        (None, _) \<Rightarrow> (None, cbs)
      | (Some tag, header) \<Rightarrow>
     (case CBS_get_u8 header of
        (None, _) \<Rightarrow> (None, cbs)
      | (Some length_byte, header) \<Rightarrow>
      let header_len = length cbs - length header;
          get = (\<lambda>len hl ber indef.
                   case CBS_get_bytes cbs len of
                     (None, cbs') \<Rightarrow> (None, cbs')
                   | (Some out, cbs') \<Rightarrow>
                       (Some \<lparr>el_out = out, el_tag = tag, el_header_len = hl,
                              el_ber_found = ber, el_indefinite = indef\<rparr>, cbs'))
      in if length_byte AND 0x80 = 0
         then get (unat length_byte + header_len) header_len False False
         else
           let num_bytes = unat (length_byte AND 0x7f)
           in if ber_ok \<and> tag AND CBS_ASN1_CONSTRUCTED \<noteq> 0 \<and> num_bytes = 0
              then get header_len header_len True True
              else if num_bytes = 0 \<or> num_bytes > 4 then (None, cbs)
              else (case cbs_get_u header num_bytes of
                      (None, _) \<Rightarrow> (None, cbs)
                    | (Some len64, header) \<Rightarrow>
                        let not_short = len64 < 128;
                            not_minimal = drop_bit ((num_bytes - 1) * 8) len64 = 0;
                            len = unat len64
                        in if (not_short \<or> not_minimal) \<and> \<not> ber_ok then (None, cbs)
                           else if size_add (size_add len header_len) num_bytes < len
                           then (None, cbs)
                           else get (len + (header_len + num_bytes)) (header_len + num_bytes)
                                  (not_short \<or> not_minimal) False)))"

definition CBS_get_any_asn1_element :: "cbs \<Rightarrow> asn1_element option \<times> cbs" where
  "CBS_get_any_asn1_element cbs = cbs_get_any_asn1_element cbs False"

definition CBS_get_any_ber_asn1_element :: "cbs \<Rightarrow> asn1_element option \<times> cbs" where
  "CBS_get_any_ber_asn1_element cbs = cbs_get_any_asn1_element cbs True"

definition CBS_get_any_asn1 :: "cbs \<Rightarrow> (cbs \<times> asn1_tag) option \<times> cbs" where
  "CBS_get_any_asn1 cbs =
     (case CBS_get_any_asn1_element cbs of
        (None, cbs') \<Rightarrow> (None, cbs')
      | (Some e, cbs') \<Rightarrow>
          (case CBS_skip (el_out e) (el_header_len e) of
             (None, _) \<Rightarrow> (None, cbs')
           | (Some _, out) \<Rightarrow> (Some (out, el_tag e), cbs')))"

definition cbs_get_asn1 :: "cbs \<Rightarrow> asn1_tag \<Rightarrow> bool \<Rightarrow> cbs option \<times> cbs" where
  "cbs_get_asn1 cbs tag_value skip_header =
     (case CBS_get_any_asn1_element cbs of
        (None, cbs') \<Rightarrow> (None, cbs')
      | (Some e, cbs') \<Rightarrow>
          if el_tag e \<noteq> tag_value then (None, cbs')
          else if skip_header
          then (case CBS_skip (el_out e) (el_header_len e) of
                  (None, _) \<Rightarrow> (None, cbs')
                | (Some _, out) \<Rightarrow> (Some out, cbs'))
          else (Some (el_out e), cbs'))"

definition CBS_get_asn1 :: "cbs \<Rightarrow> asn1_tag \<Rightarrow> cbs option \<times> cbs" where
  "CBS_get_asn1 cbs tag_value = cbs_get_asn1 cbs tag_value True"

definition CBS_get_asn1_element :: "cbs \<Rightarrow> asn1_tag \<Rightarrow> cbs option \<times> cbs" where
  "CBS_get_asn1_element cbs tag_value = cbs_get_asn1 cbs tag_value False"

definition CBS_peek_asn1_tag :: "cbs \<Rightarrow> asn1_tag \<Rightarrow> bool" where
  "CBS_peek_asn1_tag cbs tag_value \<longleftrightarrow>
     (case parse_asn1_tag cbs of (None, _) \<Rightarrow> False | (Some actual_tag, _) \<Rightarrow> tag_value = actual_tag)"

section \<open>Primitive values\<close>

text \<open>\<open>Some is_negative\<close> for a valid INTEGER body, \<open>None\<close> for an invalid one.\<close>

definition CBS_is_valid_asn1_integer :: "cbs \<Rightarrow> bool option" where
  "CBS_is_valid_asn1_integer cbs =
     (case CBS_get_u8 cbs of
        (None, _) \<Rightarrow> None
      | (Some first_byte, copy) \<Rightarrow>
          let is_negative = (first_byte AND 0x80 \<noteq> 0)
          in (case CBS_get_u8 copy of
                (None, _) \<Rightarrow> Some is_negative
              | (Some second_byte, _) \<Rightarrow>
                  if (first_byte = 0x00 \<and> second_byte AND 0x80 = 0)
                     \<or> (first_byte = 0xff \<and> second_byte AND 0x80 \<noteq> 0)
                  then None
                  else Some is_negative))"

definition CBS_is_unsigned_asn1_integer :: "cbs \<Rightarrow> bool" where
  "CBS_is_unsigned_asn1_integer cbs \<longleftrightarrow> CBS_is_valid_asn1_integer cbs = Some False"

fun asn1_uint64_loop :: "byte list \<Rightarrow> u64 \<Rightarrow> u64 option" where
  "asn1_uint64_loop [] out = Some out"
| "asn1_uint64_loop (b # data) out =
     (if drop_bit 56 out \<noteq> 0 then None
      else asn1_uint64_loop data (push_bit 8 out OR ucast b))"

definition CBS_get_asn1_uint64 :: "cbs \<Rightarrow> u64 option \<times> cbs" where
  "CBS_get_asn1_uint64 cbs =
     (case CBS_get_asn1 cbs CBS_ASN1_INTEGER of
        (None, cbs') \<Rightarrow> (None, cbs')
      | (Some bytes, cbs') \<Rightarrow>
          if \<not> CBS_is_unsigned_asn1_integer bytes then (None, cbs')
          else (asn1_uint64_loop bytes 0, cbs'))"

text \<open>The \<open>int64_t\<close> result is its 64-bit two's complement pattern; \<open>sint\<close> reads it.\<close>

definition CBS_get_asn1_int64 :: "cbs \<Rightarrow> u64 option \<times> cbs" where
  "CBS_get_asn1_int64 cbs =
     (case CBS_get_asn1 cbs CBS_ASN1_INTEGER of
        (None, cbs') \<Rightarrow> (None, cbs')
      | (Some bytes, cbs') \<Rightarrow>
          (case CBS_is_valid_asn1_integer bytes of
             None \<Rightarrow> (None, cbs')
           | Some is_negative \<Rightarrow>
               if length bytes > 8 then (None, cbs')
               else (Some (be_fold (replicate (8 - length bytes) (if is_negative then 0xff else 0)
                                    @ bytes)), cbs')))"

definition CBS_get_asn1_bool :: "cbs \<Rightarrow> bool option \<times> cbs" where
  "CBS_get_asn1_bool cbs =
     (case CBS_get_asn1 cbs CBS_ASN1_BOOLEAN of
        (None, cbs') \<Rightarrow> (None, cbs')
      | (Some bytes, cbs') \<Rightarrow>
          if length bytes \<noteq> 1 then (None, cbs')
          else let v = hd bytes
               in if v \<noteq> 0 \<and> v \<noteq> 0xff then (None, cbs') else (Some (v \<noteq> 0), cbs'))"

text \<open>\<open>Some (Some out)\<close>: present with contents \<open>out\<close>; \<open>Some None\<close>: absent, \<open>out\<close> untouched.\<close>

definition CBS_get_optional_asn1 :: "cbs \<Rightarrow> asn1_tag \<Rightarrow> cbs option option \<times> cbs" where
  "CBS_get_optional_asn1 cbs tag =
     (if CBS_peek_asn1_tag cbs tag
      then (case CBS_get_asn1 cbs tag of
              (None, cbs') \<Rightarrow> (None, cbs')
            | (Some out, cbs') \<Rightarrow> (Some (Some out), cbs'))
      else (Some None, cbs))"

definition CBS_get_optional_asn1_octet_string ::
  "cbs \<Rightarrow> asn1_tag \<Rightarrow> (cbs \<times> bool) option \<times> cbs" where
  "CBS_get_optional_asn1_octet_string cbs tag =
     (case CBS_get_optional_asn1 cbs tag of
        (None, cbs') \<Rightarrow> (None, cbs')
      | (Some (Some child), cbs') \<Rightarrow>
          (case CBS_get_asn1 child CBS_ASN1_OCTETSTRING of
             (None, _) \<Rightarrow> (None, cbs')
           | (Some out, child') \<Rightarrow>
               if length child' \<noteq> 0 then (None, cbs') else (Some (out, True), cbs'))
      | (Some None, cbs') \<Rightarrow> (Some ([], False), cbs'))"

definition CBS_get_optional_asn1_uint64 ::
  "cbs \<Rightarrow> asn1_tag \<Rightarrow> u64 \<Rightarrow> u64 option \<times> cbs" where
  "CBS_get_optional_asn1_uint64 cbs tag default_value =
     (case CBS_get_optional_asn1 cbs tag of
        (None, cbs') \<Rightarrow> (None, cbs')
      | (Some (Some child), cbs') \<Rightarrow>
          (case CBS_get_asn1_uint64 child of
             (None, _) \<Rightarrow> (None, cbs')
           | (Some out, child') \<Rightarrow>
               if length child' \<noteq> 0 then (None, cbs') else (Some out, cbs'))
      | (Some None, cbs') \<Rightarrow> (Some default_value, cbs'))"

definition CBS_get_optional_asn1_bool ::
  "cbs \<Rightarrow> asn1_tag \<Rightarrow> int \<Rightarrow> int option \<times> cbs" where
  "CBS_get_optional_asn1_bool cbs tag default_value =
     (case CBS_get_optional_asn1 cbs tag of
        (None, cbs') \<Rightarrow> (None, cbs')
      | (Some (Some child), cbs') \<Rightarrow>
          (case CBS_get_asn1 child CBS_ASN1_BOOLEAN of
             (None, _) \<Rightarrow> (None, cbs')
           | (Some child2, child') \<Rightarrow>
               if length child2 \<noteq> 1 \<or> length child' \<noteq> 0 then (None, cbs')
               else let boolean = hd child2
                    in if boolean = 0 then (Some 0, cbs')
                       else if boolean = 0xff then (Some 1, cbs')
                       else (None, cbs'))
      | (Some None, cbs') \<Rightarrow> (Some default_value, cbs'))"

definition CBS_is_valid_asn1_bitstring :: "cbs \<Rightarrow> bool" where
  "CBS_is_valid_asn1_bitstring cbs \<longleftrightarrow>
     (case CBS_get_u8 cbs of
        (None, _) \<Rightarrow> False
      | (Some num_unused_bits, i) \<Rightarrow>
          if num_unused_bits > 7 then False
          else if num_unused_bits = 0 then True
          else (case CBS_get_last_u8 i of
                  (None, _) \<Rightarrow> False
                | (Some last_byte, _) \<Rightarrow> last_byte AND (push_bit (unat num_unused_bits) 1 - 1) = 0))"

definition CBS_asn1_bitstring_has_bit :: "cbs \<Rightarrow> u32 \<Rightarrow> bool" where
  "CBS_asn1_bitstring_has_bit cbs n \<longleftrightarrow>
     (if \<not> CBS_is_valid_asn1_bitstring cbs then False
      else let byte_num = drop_bit 3 n + 1; bit_num = 7 - (n AND 7)
           in unat byte_num < length cbs
              \<and> cbs ! unat byte_num AND push_bit (unat bit_num) 1 \<noteq> 0)"

fun oid_loop :: "cbs \<Rightarrow> byte \<Rightarrow> bool" where
  "oid_loop [] prev = (prev AND 0x80 = 0)"
| "oid_loop (v # copy) prev =
     (if prev AND 0x80 = 0 \<and> v = 0x80 then False else oid_loop copy v)"

definition CBS_is_valid_asn1_oid :: "cbs \<Rightarrow> bool" where
  "CBS_is_valid_asn1_oid cbs \<longleftrightarrow> (if length cbs = 0 then False else oid_loop cbs 0)"

subsection \<open>Base-128 integers\<close>

text \<open>The continuation bytes of \<open>n\<close> (high bit set, no leading zero group), then the final byte.\<close>

fun base128_high :: "nat \<Rightarrow> byte list" where
  "base128_high n = (if n = 0 then [] else base128_high (n div 128) @ [of_nat (128 + n mod 128)])"

declare base128_high.simps [simp del]

definition base128 :: "nat \<Rightarrow> byte list" where
  "base128 n = base128_high (n div 128) @ [of_nat (n mod 128)]"

lemma base128_high_0 [simp]: "base128_high 0 = []"
  by (simp add: base128_high.simps)

lemma base128_high_step:
  "0 < q * 128 + r \<Longrightarrow> r < 128 \<Longrightarrow> base128_high (q * 128 + r) = base128_high q @ [of_nat (128 + r)]"
  by (subst base128_high.simps) simp

lemma base128_value:
  fixes b :: byte
  assumes "unat v < 2 ^ 57"
  shows "unat (push_bit 7 v OR ucast (b AND 0x7f) :: u64) = unat v * 128 + unat b mod 128"
proof -
  have "unat (ucast (b AND 0x7f :: byte) :: u64) = unat b mod 128"
    by (simp add: unat_ucast_up byte_and_7f)
  with assms show ?thesis by (subst unat_shift_or) simp_all
qed

lemma base128_loop_high:
  "n < 2 ^ 64 \<Longrightarrow> base128_loop (base128_high n @ tail) 0 = base128_loop tail (of_nat n)"
proof (induction n arbitrary: tail rule: base128_high.induct)
  case (1 n)
  show ?case
  proof (cases "n = 0")
    case False
    let ?v = "of_nat (n div 128) :: u64" and ?b = "of_nat (128 + n mod 128) :: byte"
    have v: "unat ?v = n div 128" using "1.prems" by (subst unat_of_nat) simp
    have b: "unat ?b = 128 + n mod 128" by (subst unat_of_nat) simp
    have vlt: "unat ?v < 2 ^ 57" using v "1.prems" by simp
    have nz: "\<not> (?v = 0 \<and> ?b = 0x80)"
      using v b False unat_0_iff [of ?v] by (auto simp: word_unat_eq_iff)
    have "unat (push_bit 7 ?v OR ucast (?b AND 0x7f)) = n"
      using base128_value [OF vlt, of ?b] v b by simp
    then have val: "push_bit 7 ?v OR ucast (?b AND 0x7f) = of_nat n"
      by (rule unat_eq_of_nat)
    have "base128_loop (base128_high n @ tail) 0 = base128_loop (?b # tail) ?v"
      using "1.IH" [of "?b # tail"] False "1.prems" by (subst base128_high.simps) simp
    also have "\<dots> = base128_loop tail (of_nat n)"
      using nz vlt b by (auto simp: Let_def val drop_bit_zero_iff byte_and_80 simp del: of_nat_add)
    finally show ?thesis .
  qed simp
qed

lemma parse_base128: "parse_base128_integer (base128 (unat v) @ rest) = (Some v, rest)"
proof -
  let ?q = "of_nat (unat v div 128) :: u64" and ?b = "of_nat (unat v mod 128) :: byte"
  have vl: "unat v < 2 ^ 64" using unat_u64_less [of v] by simp
  have q: "unat ?q = unat v div 128" using vl by (subst unat_of_nat) simp
  have b: "unat ?b = unat v mod 128" by (subst unat_of_nat) simp
  have qlt: "unat ?q < 2 ^ 57" using q vl by simp
  have "unat (push_bit 7 ?q OR ucast (?b AND 0x7f)) = unat v"
    using base128_value [OF qlt, of ?b] q b by simp
  then have val: "push_bit 7 ?q OR ucast (?b AND 0x7f) = v" by (simp only: word_unat_eq_iff)
  have "base128_loop (?b # rest) ?q = (Some v, rest)"
    using qlt b by (auto simp: Let_def val drop_bit_zero_iff byte_and_80)
  then show ?thesis
    using base128_loop_high [of "unat v div 128" "?b # rest"] vl
    by (simp add: parse_base128_integer_def base128_def)
qed

lemma base128_loop_Some:
  "base128_loop c v = (Some w, c') \<Longrightarrow> base128_high (unat v) @ c = base128 (unat w) @ c'"
proof (induction c v rule: base128_loop.induct)
  case (2 b c v)
  let ?v = "push_bit 7 v OR ucast (b AND 0x7f)"
  from "2.prems" have lt: "unat v < 2 ^ 57" and nz: "\<not> (v = 0 \<and> b = 0x80)"
    by (auto simp: drop_bit_zero_iff split: if_splits)
  note val = base128_value [OF lt, of b]
  show ?case
  proof (cases "unat b < 128")
    case True
    with "2.prems" lt nz have "w = ?v" "c' = c"
      by (auto simp: drop_bit_zero_iff byte_and_80 Let_def)
    then show ?thesis using val True by (simp add: base128_def)
  next
    case False
    have b: "(of_nat (128 + unat b mod 128) :: byte) = b"
    proof -
      have "128 + unat b mod 128 = unat b" using False unat_byte_less [of b] by (simp add: le_mod_geq)
      then show ?thesis by (simp only: of_nat_unat)
    qed
    have "0 < unat v * 128 + unat b mod 128"
      using nz False unat_byte_less [of b] by (auto simp: word_unat_eq_iff)
    then have "base128_high (unat ?v) = base128_high (unat v) @ [b]"
      using b by (simp add: val base128_high_step)
    moreover have "base128_high (unat ?v) @ c = base128 (unat w) @ c'"
      using "2.prems" "2.IH" lt nz False by (auto simp: drop_bit_zero_iff byte_and_80 Let_def)
    ultimately show ?thesis by simp
  qed
qed simp

interpretation base128_codec:
  canonical_codec "\<lambda>v. base128 (unat v)" parse_base128_integer "\<lambda>_. True"
proof
  show "parse_base128_integer (base128 (unat v) @ rest) = (Some v, rest)" for v rest
    by (rule parse_base128)
  show "True \<and> c = base128 (unat v) @ c'" if "parse_base128_integer c = (Some v, c')" for c v c'
    using base128_loop_Some [OF that [unfolded parse_base128_integer_def]] by simp
qed

subsection \<open>Tags\<close>

text \<open>The identifier octets of a tag, as \<open>CBB_add_asn1\<close> writes them.\<close>

definition tag_bytes :: "asn1_tag \<Rightarrow> byte list" where
  "tag_bytes tag =
     (let tag_bits = ucast (drop_bit CBS_ASN1_TAG_SHIFT tag) AND 0xe0;
          tag_number = tag AND CBS_ASN1_TAG_NUMBER_MASK
      in if tag_number \<ge> 0x1f then (tag_bits OR 0x1f) # base128 (unat tag_number)
         else [tag_bits OR ucast tag_number])"

definition valid_tag :: "asn1_tag \<Rightarrow> bool" where
  "valid_tag tag \<longleftrightarrow> tag AND NOT CBS_ASN1_CONSTRUCTED \<noteq> 0"

lemma tag_number_mask: "CBS_ASN1_TAG_NUMBER_MASK = mask 29"
  by (simp add: CBS_ASN1_TAG_NUMBER_MASK_def CBS_ASN1_TAG_SHIFT_def mask_eq_exp_minus_1)

lemma unat_tag_number: "unat (tag AND CBS_ASN1_TAG_NUMBER_MASK) = unat tag mod 2 ^ 29"
  by (simp only: tag_number_mask unat_and_mask)

lemma byte_and_1f: "unat ((b :: byte) AND 0x1f) = unat b mod 32"
  using unat_and_mask [of b 5] by (simp add: mask_eq_exp_minus_1)

lemma byte_and_e0: "unat ((b :: byte) AND 0xe0) = unat b div 32 * 32"
  by (rule byte_forallI [where P = "\<lambda>b. unat (b AND 0xe0) = unat b div 32 * 32"]) code_simp

lemma unat_tag_bits:
  fixes tag :: asn1_tag
  shows "unat (ucast (drop_bit CBS_ASN1_TAG_SHIFT tag) AND 0xe0 :: byte) = unat tag div 2 ^ 29 * 32"
proof -
  have "unat (ucast (drop_bit CBS_ASN1_TAG_SHIFT tag) :: byte) = unat tag div 2 ^ 24"
    using unat_u32_less [of tag]
    by (simp add: unat_ucast_down unat_drop_bit CBS_ASN1_TAG_SHIFT_def)
  moreover have "unat tag div 2 ^ 24 div 32 = unat tag div 2 ^ 29"
    by (simp flip: div_mult2_eq)
  ultimately show ?thesis by (simp add: byte_and_e0)
qed

lemma unat_class_bits:
  "unat (push_bit CBS_ASN1_TAG_SHIFT (ucast (b :: byte) AND 0xe0) :: u32) = unat b div 32 * 2 ^ 29"
proof -
  have m: "unat (ucast b AND 0xe0 :: u32) = unat b div 32 * 32"
    by (rule byte_forallI [where P = "\<lambda>b. unat (ucast b AND 0xe0 :: u32) = unat b div 32 * 32"]) code_simp
  moreover have "unat b div 32 * 32 < 256" using unat_byte_less [of b] by linarith
  ultimately show ?thesis
    by (subst unat_push_bit) (simp_all add: CBS_ASN1_TAG_SHIFT_def)
qed

lemma unat_class_or_number:
  assumes "unat n < 2 ^ 29"
  shows "unat (push_bit CBS_ASN1_TAG_SHIFT (ucast (b :: byte) AND 0xe0) OR n :: u32)
           = unat b div 32 * 2 ^ 29 + unat n"
proof -
  have "unat b div 32 * 2 ^ 29 + unat n < 2 ^ 32"
  proof -
    have "unat b div 32 \<le> 7" using unat_byte_less [of b] by linarith
    then show ?thesis using assms by simp
  qed
  moreover have "push_bit CBS_ASN1_TAG_SHIFT (ucast b AND 0xe0) OR n
       = push_bit CBS_ASN1_TAG_SHIFT (ucast b AND 0xe0) + n"
    using assms by (intro word_or_add_disjoint [where k = 29]) (auto simp: unat_class_bits)
  ultimately show ?thesis by (simp add: unat_word_ariths unat_class_bits)
qed

lemma unat_tag_byte:
  fixes tag :: asn1_tag
  assumes "unat (n :: byte) < 32"
  shows "unat ((ucast (drop_bit CBS_ASN1_TAG_SHIFT tag) AND 0xe0) OR n) = unat tag div 2 ^ 29 * 32 + unat n"
proof -
  let ?t = "ucast (drop_bit CBS_ASN1_TAG_SHIFT tag) AND 0xe0 :: byte"
  have "?t OR n = ?t + n"
    using assms by (intro word_or_add_disjoint [where k = 5]) (auto simp: unat_tag_bits)
  moreover have "unat tag div 2 ^ 29 * 32 + unat n < 256"
  proof -
    have "unat tag div 2 ^ 29 \<le> 7" using unat_u32_less [of tag] by simp
    then show ?thesis using assms by simp
  qed
  ultimately show ?thesis by (simp add: unat_word_ariths unat_tag_bits)
qed

lemma tag_recompose:
  assumes "unat b div 32 = unat tag div 2 ^ 29" and "unat n = unat tag mod 2 ^ 29"
  shows "push_bit CBS_ASN1_TAG_SHIFT (ucast (b :: byte) AND 0xe0) OR n = (tag :: asn1_tag)"
proof -
  have "unat n < 2 ^ 29" using assms(2) by simp
  then have "unat (push_bit CBS_ASN1_TAG_SHIFT (ucast b AND 0xe0) OR n) = unat tag"
    using assms by (simp add: unat_class_or_number)
  then show ?thesis by (simp only: word_unat_eq_iff)
qed

lemma parse_tag_bytes:
  assumes "valid_tag tag"
  shows "parse_asn1_tag (tag_bytes tag @ rest) = (Some tag, rest)"
proof (cases "31 \<le> unat tag mod 2 ^ 29")
  case True
  let ?n = "tag AND CBS_ASN1_TAG_NUMBER_MASK"
  let ?b = "(ucast (drop_bit CBS_ASN1_TAG_SHIFT tag) AND 0xe0) OR 0x1f :: byte"
  have n: "unat (ucast ?n :: u64) = unat ?n" by (simp add: unat_ucast_up)
  have b: "unat ?b = unat tag div 2 ^ 29 * 32 + 31" using unat_tag_byte [of "0x1f" tag] by simp
  have enc: "tag_bytes tag = ?b # base128 (unat (ucast ?n :: u64))"
    using True by (simp add: tag_bytes_def Let_def word_le_nat_alt unat_tag_number n)
  have p: "parse_base128_integer (base128 (unat (ucast ?n :: u64)) @ rest) = (Some (ucast ?n), rest)"
    by (rule parse_base128)
  have s: "ucast (?b AND 0x1f) = (0x1f :: u32)"
    using b by (simp add: word_unat_eq_iff unat_ucast_up byte_and_1f)
  have lim: "\<not> (ucast ?n > (ucast CBS_ASN1_TAG_NUMBER_MASK :: u64) \<or> ucast ?n < (0x1f :: u64))"
  proof -
    have "unat (ucast CBS_ASN1_TAG_NUMBER_MASK :: u64) = 2 ^ 29 - 1"
      by (simp add: tag_number_mask mask_eq_exp_minus_1 unat_ucast_up)
    moreover have "unat ?n < 2 ^ 29" "31 \<le> unat ?n" using True by (simp_all add: unat_tag_number)
    ultimately show ?thesis by (simp add: word_less_nat_alt n)
  qed
  have t: "push_bit CBS_ASN1_TAG_SHIFT (ucast ?b AND 0xe0) OR ucast (ucast ?n :: u64) = tag"
    by (rule tag_recompose) (simp_all add: b ucast_ucast_up unat_tag_number)
  show ?thesis
    unfolding enc parse_asn1_tag_def using assms p s lim t
    by (simp add: Let_def valid_tag_def)
next
  case False
  let ?n = "tag AND CBS_ASN1_TAG_NUMBER_MASK"
  have nb: "unat (ucast ?n :: byte) = unat ?n"
    using False by (simp add: unat_ucast_down unat_tag_number)
  let ?b = "(ucast (drop_bit CBS_ASN1_TAG_SHIFT tag) AND 0xe0) OR ucast ?n :: byte"
  have b: "unat ?b = unat tag div 2 ^ 29 * 32 + unat ?n"
    using unat_tag_byte [of "ucast ?n" tag] nb False by (simp add: unat_tag_number)
  have enc: "tag_bytes tag = [?b]"
    using False by (simp add: tag_bytes_def Let_def word_le_nat_alt unat_tag_number)
  have bn: "unat (ucast (?b AND 0x1f) :: u32) = unat tag mod 2 ^ 29"
    using b False by (simp add: unat_ucast_up byte_and_1f unat_tag_number)
  have s: "ucast (?b AND 0x1f) \<noteq> (0x1f :: u32)"
    using bn False by (auto simp: word_unat_eq_iff)
  have t: "push_bit CBS_ASN1_TAG_SHIFT (ucast ?b AND 0xe0) OR ucast (?b AND 0x1f) = tag"
    using False by (intro tag_recompose) (simp_all only: b bn, simp add: unat_tag_number)
  show ?thesis
    unfolding enc parse_asn1_tag_def using assms s t by (simp add: Let_def valid_tag_def)
qed


lemma byte_eqI: "unat (b :: byte) = unat c \<Longrightarrow> b = c"
  by (simp only: word_unat_eq_iff)

lemma parse_asn1_tag_Some:
  assumes "parse_asn1_tag c = (Some tag, c')"
  shows "valid_tag tag \<and> c = tag_bytes tag @ c'"
proof -
  from assms obtain b c1 where c: "c = b # c1"
    by (cases c) (auto simp: parse_asn1_tag_def)
  let ?hi = "push_bit CBS_ASN1_TAG_SHIFT (ucast b AND 0xe0) :: u32"
  let ?lo = "ucast (b AND 0x1f) :: u32"
  have lo: "unat ?lo = unat b mod 32" by (simp add: unat_ucast_up byte_and_1f)
  show ?thesis
  proof (cases "?lo = 0x1f")
    case True
    with assms obtain v where v: "parse_base128_integer c1 = (Some v, c')"
      and lim: "\<not> v > ucast CBS_ASN1_TAG_NUMBER_MASK" "\<not> v < 0x1f"
      and tag: "tag = ?hi OR ucast v" and ok: "valid_tag tag"
      by (auto simp: parse_asn1_tag_def c Let_def valid_tag_def split: prod.splits option.splits if_splits)
    have "unat (ucast CBS_ASN1_TAG_NUMBER_MASK :: u64) = 2 ^ 29 - 1"
      by (simp add: tag_number_mask mask_eq_exp_minus_1 unat_ucast_up)
    with lim have vl: "unat v < 2 ^ 29" and vg: "31 \<le> unat v"
      by (simp_all add: word_less_nat_alt)
    have uv: "unat (ucast v :: u32) = unat v" using vl by (simp add: unat_ucast_down)
    have ut: "unat tag = unat b div 32 * 2 ^ 29 + unat v"
      using vl by (simp add: tag unat_class_or_number uv)
    have n: "unat (tag AND CBS_ASN1_TAG_NUMBER_MASK) = unat v"
      using ut vl by (simp add: unat_tag_number)
    have "unat b mod 32 = 31" using True lo by (simp add: word_unat_eq_iff)
    moreover have "unat tag div 2 ^ 29 = unat b div 32" using ut vl by simp
    ultimately have "(ucast (drop_bit CBS_ASN1_TAG_SHIFT tag) AND 0xe0) OR 0x1f = b"
      using unat_tag_byte [of "0x1f" tag] div_mult_mod_eq [of "unat b" 32]
      by (intro byte_eqI) simp
    then have "tag_bytes tag = b # base128 (unat v)"
      using n vg by (simp add: tag_bytes_def Let_def word_le_nat_alt)
    then show ?thesis using base128_codec.enc_dec [OF v] ok c by simp
  next
    case False
    with assms have tag: "tag = ?hi OR ?lo" and ok: "valid_tag tag" and c': "c' = c1"
      by (auto simp: parse_asn1_tag_def c Let_def valid_tag_def split: if_splits)
    have l31: "unat b mod 32 < 31"
      using False lo by (auto simp: word_unat_eq_iff)
    have ut: "unat tag = unat b div 32 * 2 ^ 29 + unat b mod 32"
      using l31 by (simp add: tag unat_class_or_number lo)
    have n: "unat (tag AND CBS_ASN1_TAG_NUMBER_MASK) = unat b mod 32"
      using ut l31 by (simp add: unat_tag_number)
    have nb: "unat (ucast (tag AND CBS_ASN1_TAG_NUMBER_MASK) :: byte) = unat b mod 32"
      using n l31 by (simp add: unat_ucast_down)
    have "unat tag div 2 ^ 29 = unat b div 32" using ut l31 by simp
    then have "(ucast (drop_bit CBS_ASN1_TAG_SHIFT tag) AND 0xe0)
                 OR ucast (tag AND CBS_ASN1_TAG_NUMBER_MASK) = b"
      using unat_tag_byte [of "ucast (tag AND CBS_ASN1_TAG_NUMBER_MASK)" tag] nb l31
        div_mult_mod_eq [of "unat b" 32]
      by (intro byte_eqI) simp
    then have "tag_bytes tag = [b]"
      using n l31 by (simp add: tag_bytes_def Let_def word_le_nat_alt)
    then show ?thesis using ok c c' by simp
  qed
qed

interpretation tag_codec: canonical_codec tag_bytes parse_asn1_tag valid_tag
  by unfold_locales (simp_all add: parse_tag_bytes parse_asn1_tag_Some)

lemma length_base128_high: "n < 128 ^ k \<Longrightarrow> length (base128_high n) \<le> k"
proof (induction n arbitrary: k rule: base128_high.induct)
  case (1 n)
  show ?case
  proof (cases "n = 0")
    case False
    with "1.prems" obtain k' where k: "k = Suc k'" by (cases k) auto
    have "n div 128 < 128 ^ k'" using "1.prems" k by (simp add: less_mult_imp_div_less)
    then show ?thesis using "1.IH" [of k'] False k by (subst base128_high.simps) simp
  qed simp
qed

lemma length_tag_bytes: "0 < length (tag_bytes tag) \<and> length (tag_bytes tag) \<le> 6"
proof -
  have "unat (tag AND CBS_ASN1_TAG_NUMBER_MASK) < 2 ^ 29" by (simp add: unat_tag_number)
  then have "unat (tag AND CBS_ASN1_TAG_NUMBER_MASK) div 128 < 128 ^ 4" by simp
  then show ?thesis
    using length_base128_high [of _ 4] by (simp add: tag_bytes_def Let_def base128_def)
qed

subsection \<open>Elements: the DER grammar\<close>

text \<open>The minimal length octets of DER, for lengths below \<open>2 ^ 32\<close>.\<close>

definition der_len_len :: "nat \<Rightarrow> nat" where
  "der_len_len n = (if n > 0xffffff then 4 else if n > 0xffff then 3 else if n > 0xff then 2 else 1)"

definition der_length :: "nat \<Rightarrow> byte list" where
  "der_length n =
     (if n \<le> 0x7f then [of_nat n] else of_nat (0x80 + der_len_len n) # be_bytes (der_len_len n) n)"

definition der_header :: "asn1_tag \<Rightarrow> nat \<Rightarrow> byte list" where
  "der_header tag n = tag_bytes tag @ der_length n"

definition der_element :: "cbs \<times> asn1_tag \<Rightarrow> byte list" where
  "der_element x = der_header (snd x) (length (fst x)) @ fst x"

definition der_valid :: "cbs \<times> asn1_tag \<Rightarrow> bool" where
  "der_valid x \<longleftrightarrow> valid_tag (snd x) \<and> length (fst x) < 2 ^ 32"

text \<open>What the element parser reports for a DER element.\<close>

definition der_parsed :: "cbs \<times> asn1_tag \<Rightarrow> asn1_element" where
  "der_parsed x =
     \<lparr>el_out = der_element x, el_tag = snd x, el_header_len = length (der_header (snd x) (length (fst x))),
      el_ber_found = False, el_indefinite = False\<rparr>"

lemma der_len_len_bounds: "1 \<le> der_len_len n \<and> der_len_len n \<le> 4"
  by (simp add: der_len_len_def)

lemma der_len_len_fits: "n < 2 ^ 32 \<Longrightarrow> n < 256 ^ der_len_len n"
  by (simp add: der_len_len_def)

lemma der_len_len_minimal: "0x7f < n \<Longrightarrow> der_len_len n = 1 \<or> 256 ^ (der_len_len n - 1) \<le> n"
  by (simp add: der_len_len_def)

lemma der_len_len_unique:
  assumes "1 \<le> k" and "k \<le> 4" and "n < 256 ^ k" and "256 ^ (k - 1) \<le> n"
  shows "der_len_len n = k"
proof -
  from assms(1,2) consider "k = 1" | "k = 2" | "k = 3" | "k = 4" by linarith
  then show ?thesis using assms(3,4) by cases (simp_all add: der_len_len_def)
qed

lemma length_der_length: "length (der_length n) = (if n \<le> 0x7f then 1 else Suc (der_len_len n))"
  by (simp add: der_length_def)

lemma CBS_get_any_asn1_element_der:
  assumes "valid_tag tag" and "length body < 2 ^ 32"
  shows "CBS_get_any_asn1_element (der_element (body, tag) @ rest) = (Some (der_parsed (body, tag)), rest)"
proof (cases "length body \<le> 0x7f")
  case True
  let ?b = "of_nat (length body) :: byte"
  have b: "unat ?b = length body" using True by (simp add: unat_of_nat)
  have t: "parse_asn1_tag (tag_bytes tag @ ?b # body @ rest) = (Some tag, ?b # body @ rest)"
    using assms(1) by (rule parse_tag_bytes)
  have g: "cbs_get (tag_bytes tag @ ?b # body @ rest) (Suc (length body + length (tag_bytes tag)))
             = (Some (tag_bytes tag @ ?b # body), rest)"
    using cbs_get_append [of "tag_bytes tag @ ?b # body" _ rest] by (simp add: add.commute)
  show ?thesis
    using True b t g
    by (simp add: CBS_get_any_asn1_element_def cbs_get_any_asn1_element_def der_parsed_def
        der_element_def der_header_def der_length_def byte_and_80 Let_def CBS_get_bytes_eq)
next
  case False
  let ?k = "der_len_len (length body)"
  let ?b = "of_nat (0x80 + ?k) :: byte" and ?l = "be_bytes ?k (length body)"
  let ?v = "of_nat (length body) :: u64"
  have k: "1 \<le> ?k" "?k \<le> 4" using der_len_len_bounds by auto
  then have b: "unat ?b = 128 + ?k" by (subst unat_of_nat) simp
  then have b7: "unat (?b AND 0x7f) = ?k" using k by (simp add: byte_and_7f)
  have uv: "unat ?v = length body" using assms(2) by (simp add: unat_of_nat)
  have t: "parse_asn1_tag (tag_bytes tag @ ?b # ?l @ body @ rest) = (Some tag, ?b # ?l @ body @ rest)"
    using assms(1) by (rule parse_tag_bytes)
  have "cbs_get_u (be_bytes ?k (unat ?v) @ body @ rest) ?k = (Some ?v, body @ rest)"
    using k der_len_len_fits [OF assms(2)] uv
    by (intro decoder.dec_enc [OF canonical_codec.axioms(1) [OF cbs_get_u_canonical]]) auto
  then have u: "cbs_get_u (?l @ body @ rest) ?k = (Some ?v, body @ rest)" using uv by simp
  have ge: "\<not> ?v < 128" using False uv by (simp add: word_less_nat_alt)
  have "drop_bit ((?k - 1) * 8) ?v \<noteq> 0"
    using der_len_len_minimal [of "length body"] False uv
    by (auto simp: drop_bit_zero_iff power_mult mult.commute)
  moreover have "size_add (size_add (length body) (Suc (length (tag_bytes tag)))) ?k =
      length body + Suc (length (tag_bytes tag)) + ?k"
    using assms(2) k length_tag_bytes [of tag] by (simp add: size_add_def SIZE_MOD_def)
  moreover have "cbs_get (tag_bytes tag @ ?b # ?l @ body @ rest)
      (length body + (Suc (length (tag_bytes tag)) + ?k)) = (Some (tag_bytes tag @ ?b # ?l @ body), rest)"
    using cbs_get_append [of "tag_bytes tag @ ?b # ?l @ body" _ rest] by (simp add: ac_simps)
  ultimately show ?thesis
    using False b b7 t u uv ge k
    by (simp add: CBS_get_any_asn1_element_def cbs_get_any_asn1_element_def der_parsed_def
        der_element_def der_header_def der_length_def byte_and_80 Let_def CBS_get_bytes_eq del: of_nat_add)
qed

lemma CBS_get_any_asn1_element_Some:
  assumes "CBS_get_any_asn1_element c = (Some e, c')"
  shows "\<exists>x. der_valid x \<and> c = der_element x @ c' \<and> e = der_parsed x"
proof -
  from assms obtain tag b h where p: "parse_asn1_tag c = (Some tag, b # h)"
    by (auto simp: CBS_get_any_asn1_element_def cbs_get_any_asn1_element_def CBS_get_u8_Some
        split: prod.splits option.splits)
  from tag_codec.enc_dec [OF p] have vt: "valid_tag tag" and c: "c = tag_bytes tag @ b # h" by auto
  show ?thesis
  proof (cases "unat b < 128")
    case True
    from assms p True obtain out where
      g: "cbs_get c (unat b + Suc (length (tag_bytes tag))) = (Some out, c')" and
      e: "e = \<lparr>el_out = out, el_tag = tag, el_header_len = Suc (length (tag_bytes tag)),
               el_ber_found = False, el_indefinite = False\<rparr>"
      by (auto simp: CBS_get_any_asn1_element_def cbs_get_any_asn1_element_def byte_and_80 Let_def c
          CBS_get_bytes_eq split: prod.splits option.splits)
    from g have o1: "c = out @ c'" and o2: "length out = unat b + Suc (length (tag_bytes tag))"
      by (auto simp: cbs_get_Some)
    define body where "body = drop (Suc (length (tag_bytes tag))) out"
    have out: "out = tag_bytes tag @ b # body"
      using append_prefix_split [of c out c' "tag_bytes tag @ [b]" h] o1 o2 c by (simp add: body_def)
    have lb: "length body = unat b" using o2 out by simp
    then have "der_length (length body) = [b]" using True by (simp add: der_length_def)
    then show ?thesis
      using vt lb True out o1 e by (intro exI [of _ "(body, tag)"])
        (simp add: der_valid_def der_element_def der_header_def der_parsed_def)
  next
    case False
    let ?k = "unat (b AND 0x7f)"
    from assms p False obtain v h' out where
      k: "?k \<noteq> 0" "?k \<le> 4" and u: "cbs_get_u h ?k = (Some v, h')" and
      ge: "\<not> v < 128" and mn: "drop_bit ((?k - 1) * 8) v \<noteq> 0" and
      g: "cbs_get c (unat v + (Suc (length (tag_bytes tag)) + ?k)) = (Some out, c')" and
      e: "e = \<lparr>el_out = out, el_tag = tag, el_header_len = Suc (length (tag_bytes tag)) + ?k,
               el_ber_found = False, el_indefinite = False\<rparr>"
      by (auto simp: CBS_get_any_asn1_element_def cbs_get_any_asn1_element_def byte_and_80 Let_def c
          CBS_get_bytes_eq split: prod.splits option.splits if_splits)
    from canonical_codec.enc_dec [OF cbs_get_u_canonical u] k
    have vl: "unat v < 256 ^ ?k" and h: "h = be_bytes ?k (unat v) @ h'" by auto
    from mn have vg: "256 ^ (?k - 1) \<le> unat v"
      by (auto simp: drop_bit_zero_iff power_mult mult.commute)
    have kk: "der_len_len (unat v) = ?k"
      using k vl vg by (intro der_len_len_unique) auto
    have b: "of_nat (0x80 + ?k) = b"
    proof -
      have "128 + unat b mod 128 = unat b" using False unat_byte_less [of b] by (simp add: le_mod_geq)
      then show ?thesis by (simp only: byte_and_7f of_nat_unat)
    qed
    have dl: "der_length (unat v) = b # be_bytes ?k (unat v)"
      using ge by (simp only: der_length_def kk b) (simp add: word_less_nat_alt)
    from g have o1: "c = out @ c'" and
      o2: "length out = unat v + (Suc (length (tag_bytes tag)) + ?k)" by (auto simp: cbs_get_Some)
    define body where "body = drop (Suc (length (tag_bytes tag)) + ?k) out"
    have c2: "c = (tag_bytes tag @ b # be_bytes ?k (unat v)) @ h'" using c h by simp
    have out: "out = (tag_bytes tag @ b # be_bytes ?k (unat v)) @ body"
      using append_prefix_split [OF o1 c2] o2 by (simp add: body_def)
    have lb: "length body = unat v" using o2 out by simp
    have "unat v < 2 ^ 32"
      using vl k power_increasing [of ?k 4 "256 :: nat"] by simp
    then show ?thesis
      using vt lb out o1 e dl by (intro exI [of _ "(body, tag)"])
        (simp add: der_valid_def der_element_def der_header_def der_parsed_def)
  qed
qed

lemma CBS_skip_der_parsed [simp]:
  "CBS_skip (el_out (der_parsed x)) (el_header_len (der_parsed x)) = (Some (), fst x)"
  by (simp add: der_parsed_def der_element_def)

lemma el_tag_der_parsed [simp]: "el_tag (der_parsed x) = snd x"
  by (simp add: der_parsed_def)

lemma CBS_get_any_asn1_element_exact:
  "CBS_get_any_asn1_element c = (Some e, c') \<longleftrightarrow>
     (\<exists>x. der_valid x \<and> c = der_element x @ c' \<and> e = der_parsed x)"
proof
  assume "CBS_get_any_asn1_element c = (Some e, c')"
  then show "\<exists>x. der_valid x \<and> c = der_element x @ c' \<and> e = der_parsed x"
    by (rule CBS_get_any_asn1_element_Some)
next
  assume "\<exists>x. der_valid x \<and> c = der_element x @ c' \<and> e = der_parsed x"
  then show "CBS_get_any_asn1_element c = (Some e, c')"
    using CBS_get_any_asn1_element_der by (auto simp: der_valid_def)
qed

lemma CBS_get_any_asn1_exact:
  "CBS_get_any_asn1 c = (Some x, c') \<longleftrightarrow> der_valid x \<and> c = der_element x @ c'"
proof
  assume "CBS_get_any_asn1 c = (Some x, c')"
  then obtain e out where e: "CBS_get_any_asn1_element c = (Some e, c')"
    and out: "CBS_skip (el_out e) (el_header_len e) = (Some (), out)" and x: "x = (out, el_tag e)"
    by (auto simp: CBS_get_any_asn1_def split: prod.splits option.splits)
  from CBS_get_any_asn1_element_Some [OF e] obtain y
    where "der_valid y" "c = der_element y @ c'" "e = der_parsed y" by blast
  moreover from this(3) have "x = y" using out x by (simp add: prod_eq_iff)
  ultimately show "der_valid x \<and> c = der_element x @ c'" by simp
next
  assume "der_valid x \<and> c = der_element x @ c'"
  then have "CBS_get_any_asn1_element c = (Some (der_parsed x), c')"
    by (simp only: CBS_get_any_asn1_element_exact) blast
  then show "CBS_get_any_asn1 c = (Some x, c')" by (simp add: CBS_get_any_asn1_def)
qed

interpretation der_codec: canonical_codec der_element CBS_get_any_asn1 der_valid
  by unfold_locales (simp_all add: CBS_get_any_asn1_exact)


text \<open>
  (C9) The DER element parser accepts exactly the DER encodings. \<open>CBS_get_any_asn1\<close> returns
  contents and tag \<open>x\<close> and leaves \<open>c'\<close> if and only if \<open>x\<close> is representable (a tag other
  than the reserved [UNIVERSAL 0], contents shorter than \<open>2 ^ 32\<close>) and the input is the
  minimal identifier and length octets of \<open>x\<close>, its contents, and then \<open>c'\<close>.
\<close>

theorem CBS_get_any_asn1_accepts_DER:
  "CBS_get_any_asn1 c = (Some x, c') \<longleftrightarrow> der_valid x \<and> c = der_element x @ c'"
  by (rule der_codec.dec_Some_iff)

text \<open>
  (C15) No element accepted by the DER parser is a proper prefix of another one, so the elements
  of a SET OF can be ordered by comparing their common prefix only.
\<close>

theorem DER_elements_prefix_free:
  assumes "CBS_get_any_asn1_element c = (Some e, c')"
    and "CBS_get_any_asn1_element d = (Some f, d')"
    and "el_out f = el_out e @ xs"
  shows "el_out e = el_out f \<and> xs = []"
proof -
  from assms(1,2) obtain x y where x: "der_valid x" "e = der_parsed x" and y: "der_valid y" "f = der_parsed y"
    by (auto simp: CBS_get_any_asn1_element_exact)
  have "der_element y @ [] = der_element x @ xs"
    using assms(3) x(2) y(2) by (simp add: der_parsed_def)
  with y(1) x(1) have "y = x \<and> [] = xs" by (rule der_codec.enc_prefix_free)
  then show ?thesis using x(2) y(2) by simp
qed

theorem DER_elements_prefix_free_witness:
  "el_out (der_parsed ([1], 2)) = el_out (der_parsed ([1], 2)) \<and> ([] :: byte list) = []"
proof (rule DER_elements_prefix_free)
  show "CBS_get_any_asn1_element [2, 1, 1, 9] = (Some (der_parsed ([1], 2)), [9])" by code_simp
  show "CBS_get_any_asn1_element [2, 1, 1] = (Some (der_parsed ([1], 2)), [])" by code_simp
  show "el_out (der_parsed ([1], 2)) = el_out (der_parsed ([1], 2)) @ []" by simp
qed

subsection \<open>Tagged elements\<close>

lemma CBS_get_asn1_exact:
  "CBS_get_asn1 c tag = (Some body, c') \<longleftrightarrow>
     valid_tag tag \<and> length body < 2 ^ 32 \<and> c = der_element (body, tag) @ c'"
proof -
  have "CBS_get_asn1 c tag = (Some body, c') \<longleftrightarrow> CBS_get_any_asn1 c = (Some (body, tag), c')"
    by (auto simp: CBS_get_asn1_def cbs_get_asn1_def CBS_get_any_asn1_def split: prod.splits option.splits)
  then show ?thesis by (simp add: CBS_get_any_asn1_exact der_valid_def)
qed

end
