(* ===== verification/Cbs_Integer.thy ===== *)
theory Cbs_Integer
  imports Cbs_Asn1
begin

text \<open>
  The DER INTEGER readers of \<open>cbs.c\<close> accept exactly the minimal two's complement forms:
  \<open>der_uint\<close> and \<open>der_int64\<close> are the contents octets of a number, and
  \<open>CBS_get_asn1_uint64\<close> and \<open>CBS_get_asn1_int64\<close> are canonical codecs for them.
\<close>

section \<open>INTEGER contents\<close>

text \<open>The minimal big-endian bytes of a number, and its DER INTEGER contents.\<close>

fun min_be :: "nat \<Rightarrow> byte list" where
  "min_be n = (if n = 0 then [] else min_be (n div 256) @ [of_nat n])"

declare min_be.simps [simp del]

definition der_uint :: "nat \<Rightarrow> byte list" where
  "der_uint n = (let b = min_be n in if b = [] \<or> unat (hd b) \<ge> 128 then 0 # b else b)"

lemma min_be_0 [simp]: "min_be 0 = []"
  by (simp add: min_be.simps)

lemma min_be_eq: "256 ^ n \<le> w \<Longrightarrow> w < 256 ^ Suc n \<Longrightarrow> min_be w = be_bytes (Suc n) w"
proof (induction n arbitrary: w)
  case 0
  then show ?case by (subst min_be.simps) simp
next
  case (Suc n)
  then have "min_be (w div 256) = be_bytes (Suc n) (w div 256)"
    by (intro Suc.IH) (auto simp: less_eq_div_iff_mult_less_eq div_less_iff_less_mult mult.commute)
  moreover have "w \<noteq> 0" using Suc.prems(1) by (auto intro: gr0I)
  ultimately show ?case by (subst min_be.simps) simp
qed

lemma be_nat_Cons: "be_nat (b # bs) = unat b * 256 ^ length bs + be_nat bs"
  using be_nat_append [of "[b]" bs] by simp

lemma min_be_be_nat:
  assumes "b \<noteq> 0"
  shows "min_be (be_nat (b # bs)) = b # bs"
proof -
  have "unat b \<noteq> 0" using assms by (simp only: unat_0_iff not_False_eq_True)
  then have "256 ^ length bs \<le> unat b * 256 ^ length bs" by simp
  then have "256 ^ length bs \<le> be_nat (b # bs)" unfolding be_nat_Cons by linarith
  then have "min_be (be_nat (b # bs)) = be_bytes (Suc (length bs)) (be_nat (b # bs))"
    using be_nat_less [of "b # bs"] by (intro min_be_eq) simp_all
  then show ?thesis using be_bytes_be_nat [of "b # bs"] by simp
qed

lemma min_be_hd: "min_be n = b # bs \<Longrightarrow> b \<noteq> 0"
proof (induction n arbitrary: b bs rule: min_be.induct)
  case (1 n)
  show ?case
  proof (cases "n div 256 = 0")
    case True
    then have n: "n < 256" by (simp add: div_eq_0_iff)
    have "n \<noteq> 0" using 1(2) by (cases "n = 0") auto
    then have "b = of_nat n" using 1(2) True by (subst (asm) min_be.simps) (simp add: min_be.simps [of 0])
    moreover have "unat (of_nat n :: byte) = n" using n by (simp add: unat_of_nat)
    ultimately show ?thesis using \<open>n \<noteq> 0\<close> by (metis unat_0)
  next
    case False
    then have n: "n \<noteq> 0" by (intro notI) simp
    have "min_be (n div 256) \<noteq> []" using False by (subst min_be.simps) simp
    then obtain b' bs' where b': "min_be (n div 256) = b' # bs'" by (cases "min_be (n div 256)") auto
    then have "b = b'" using 1(2) n by (subst (asm) min_be.simps) simp
    then show ?thesis using 1(1) n b' by blast
  qed
qed

lemma be_nat_min_be: "be_nat (min_be n) = n"
proof (induction n rule: min_be.induct)
  case (1 n)
  then show ?case by (subst min_be.simps) (simp add: unat_of_nat)
qed

lemma be_nat_der_uint: "be_nat (der_uint n) = n"
  by (simp add: der_uint_def Let_def be_nat_min_be be_nat_Cons)

lemma CBS_is_unsigned_iff:
  "CBS_is_unsigned_asn1_integer bs \<longleftrightarrow>
     (case bs of [] \<Rightarrow> False | [b] \<Rightarrow> unat b < 128
      | b # c # _ \<Rightarrow> unat b < 128 \<and> (b = 0 \<longrightarrow> unat c \<ge> 128))"
  by (cases bs; cases "tl bs")
    (auto simp: CBS_is_unsigned_asn1_integer_def CBS_is_valid_asn1_integer_def byte_and_80 not_less)

lemma unsigned_der_uint: "CBS_is_unsigned_asn1_integer (der_uint n)"
proof (cases "min_be n")
  case Nil
  then show ?thesis by (simp add: der_uint_def CBS_is_unsigned_iff)
next
  case (Cons b bs)
  then have "b \<noteq> 0" by (rule min_be_hd)
  then show ?thesis using Cons by (auto simp: der_uint_def Let_def CBS_is_unsigned_iff split: list.splits)
qed

lemma length_min_be: "n < 256 ^ k \<Longrightarrow> length (min_be n) \<le> k"
proof (induction k arbitrary: n)
  case (Suc k)
  then have "length (min_be (n div 256)) \<le> k"
    by (intro Suc.IH) (simp add: div_less_iff_less_mult mult.commute)
  then show ?case by (subst min_be.simps) simp
qed simp

lemma length_der_uint: "n < 256 ^ k \<Longrightarrow> length (der_uint n) \<le> Suc k"
  using length_min_be [of n k] by (simp add: der_uint_def Let_def)

lemma der_uint_unique:
  assumes "CBS_is_unsigned_asn1_integer bs"
  shows "bs = der_uint (be_nat bs)"
proof (cases bs)
  case (Cons b cs)
  show ?thesis
  proof (cases "b = 0")
    case False
    then show ?thesis
      using assms min_be_be_nat [OF False, of cs] Cons
      by (auto simp: der_uint_def CBS_is_unsigned_iff split: list.splits)
  next
    case True
    show ?thesis
    proof (cases cs)
      case Nil
      then show ?thesis using True Cons by (simp add: der_uint_def)
    next
      case (Cons c ds)
      then have "unat c \<ge> 128" using assms True \<open>bs = b # cs\<close> by (simp add: CBS_is_unsigned_iff)
      moreover from this have "c \<noteq> 0" by auto
      ultimately show ?thesis
        using min_be_be_nat [of c ds] True Cons \<open>bs = b # cs\<close> by (simp add: der_uint_def be_nat_Cons [of 0])
    qed
  qed
qed (use assms in \<open>simp add: CBS_is_unsigned_iff\<close>)

lemma asn1_uint64_loop_eq:
  "asn1_uint64_loop bs out =
     (if unat out * 256 ^ length bs + be_nat bs < 2 ^ 64
      then Some (of_nat (unat out * 256 ^ length bs + be_nat bs)) else None)"
proof (induction bs arbitrary: out)
  case (Cons b bs)
  show ?case
  proof (cases "unat out < 2 ^ 56")
    case True
    have v: "unat (push_bit 8 out OR ucast b :: u64) = unat out * 256 + unat b"
      using True unat_byte_less [of b] by (subst unat_shift_or) (simp_all add: unat_ucast_up)
    have "drop_bit 56 out = 0" using True by (simp add: drop_bit_zero_iff)
    then show ?thesis
      using Cons.IH [of "push_bit 8 out OR ucast b"]
      by (simp only: asn1_uint64_loop.simps v be_nat_Cons length_Cons power_Suc) (simp add: algebra_simps)
  next
    case False
    then have "drop_bit 56 out \<noteq> 0" by (simp add: drop_bit_zero_iff)
    moreover have "2 ^ 64 \<le> unat out * 256 ^ length (b # bs) + be_nat (b # bs)"
    proof -
      have "(2::nat) ^ 64 = 2 ^ 56 * 256 ^ 1" by simp
      also have "\<dots> \<le> unat out * 256 ^ length (b # bs)"
        using False by (intro mult_mono power_increasing) auto
      finally show ?thesis by linarith
    qed
    ultimately show ?thesis by simp
  qed
qed (simp add: unat_u64_less)

lemma valid_tag_INTEGER [simp]: "valid_tag CBS_ASN1_INTEGER"
  by (simp add: valid_tag_def CBS_ASN1_INTEGER_def CBS_ASN1_CONSTRUCTED_def CBS_ASN1_TAG_SHIFT_def)

lemma CBS_get_asn1_uint64_exact:
  "CBS_get_asn1_uint64 c = (Some v, c') \<longleftrightarrow> c = der_element (der_uint (unat v), CBS_ASN1_INTEGER) @ c'"
proof -
  have "CBS_get_asn1_uint64 c = (Some v, c') \<longleftrightarrow>
      (\<exists>bs. CBS_get_asn1 c CBS_ASN1_INTEGER = (Some bs, c') \<and> CBS_is_unsigned_asn1_integer bs \<and>
            asn1_uint64_loop bs 0 = Some v)"
    by (auto simp: CBS_get_asn1_uint64_def split: prod.splits option.splits)
  also have "\<dots> \<longleftrightarrow> (\<exists>bs. CBS_get_asn1 c CBS_ASN1_INTEGER = (Some bs, c') \<and> bs = der_uint (unat v))"
  proof -
    have "CBS_is_unsigned_asn1_integer bs \<and> asn1_uint64_loop bs 0 = Some v \<longleftrightarrow> bs = der_uint (unat v)" for bs
    proof
      assume a: "CBS_is_unsigned_asn1_integer bs \<and> asn1_uint64_loop bs 0 = Some v"
      then have "be_nat bs < 2 ^ 64" and "v = of_nat (be_nat bs)"
        by (auto simp: asn1_uint64_loop_eq split: if_splits)
      then have "unat v = be_nat bs" by (simp add: unat_of_nat)
      then show "bs = der_uint (unat v)" using a der_uint_unique by simp
    next
      assume "bs = der_uint (unat v)"
      then show "CBS_is_unsigned_asn1_integer bs \<and> asn1_uint64_loop bs 0 = Some v"
        using unsigned_der_uint unat_u64_less [of v] by (simp add: asn1_uint64_loop_eq be_nat_der_uint)
    qed
    then show ?thesis by blast
  qed
  also have "\<dots> \<longleftrightarrow> c = der_element (der_uint (unat v), CBS_ASN1_INTEGER) @ c'"
  proof -
    have "length (der_uint (unat v)) < 2 ^ 32"
      using length_der_uint [of "unat v" 8] unat_u64_less [of v] by simp
    then show ?thesis by (auto simp: CBS_get_asn1_exact)
  qed
  finally show ?thesis .
qed


interpretation asn1_uint64_codec: canonical_codec
  "\<lambda>v. der_element (der_uint (unat v), CBS_ASN1_INTEGER)" CBS_get_asn1_uint64 "\<lambda>_. True"
  by unfold_locales (simp_all add: CBS_get_asn1_uint64_exact)

section \<open>Signed INTEGER contents\<close>

text \<open>Leading bytes of a negative number that only repeat the sign are dropped.\<close>

fun strip_ff :: "byte list \<Rightarrow> byte list" where
  "strip_ff (b # c # bs) = (if b = 0xff \<and> unat c \<ge> 128 then strip_ff (c # bs) else b # c # bs)"
| "strip_ff bs = bs"

definition der_int64 :: "u64 \<Rightarrow> byte list" where
  "der_int64 v = (if sint v < 0 then strip_ff (be_bytes 8 (unat v)) else der_uint (unat v))"

lemma sint_neg_iff: "sint (v :: u64) < 0 \<longleftrightarrow> 2 ^ 63 \<le> unat v"
proof -
  have "sint v < 0 \<longleftrightarrow> bit (uint v) 63"
    by (simp add: sint_uint signed_take_bit_negative_iff)
  also have "\<dots> \<longleftrightarrow> bit (unat v) 63" by (simp add: bit_unsigned_iff)
  also have "\<dots> \<longleftrightarrow> odd (unat v div 2 ^ 63)" by (rule bit_iff_odd)
  also have "\<dots> \<longleftrightarrow> 2 ^ 63 \<le> unat v"
  proof -
    have "unat v div 2 ^ 63 < 2" using unat_u64_less [of v] by (simp add: div_less_iff_less_mult)
    then consider "unat v div 2 ^ 63 = 0" | "unat v div 2 ^ 63 = 1" by linarith
    then have "odd (unat v div 2 ^ 63) \<longleftrightarrow> 1 \<le> unat v div 2 ^ 63" by cases simp_all
    also have "\<dots> \<longleftrightarrow> 2 ^ 63 \<le> unat v" by (simp add: less_eq_div_iff_mult_less_eq)
    finally show ?thesis .
  qed
  finally show ?thesis .
qed

lemma length_strip_ff: "length (strip_ff bs) \<le> length bs"
  by (induction bs rule: strip_ff.induct) auto

lemma strip_ff_shorter: "length cs < length ds \<Longrightarrow> strip_ff cs \<noteq> ds"
  using length_strip_ff [of cs] by auto

lemma valid_negative_iff:
  "CBS_is_valid_asn1_integer bs = Some True \<longleftrightarrow> bs \<noteq> [] \<and> unat (hd bs) \<ge> 128 \<and> strip_ff bs = bs"
  by (cases bs rule: strip_ff.cases)
    (auto simp: CBS_is_valid_asn1_integer_def byte_and_80 not_less strip_ff_shorter)

lemma strip_ff_idem: "strip_ff (strip_ff bs) = strip_ff bs"
  by (induction bs rule: strip_ff.induct) auto

lemma strip_ff_replicate:
  assumes "bs \<noteq> []" and "unat (hd bs) \<ge> 128"
  shows "strip_ff (replicate k 0xff @ bs) = strip_ff bs"
proof (induction k)
  case (Suc k)
  obtain c cs where c: "replicate k 0xff @ bs = c # cs" "unat c \<ge> 128"
    using assms by (cases k; cases bs) auto
  then show ?case using Suc by simp
qed simp

lemma strip_ff_prefix:
  "bs \<noteq> [] \<Longrightarrow> unat (hd bs) \<ge> 128 \<Longrightarrow>
   bs = replicate (length bs - length (strip_ff bs)) 0xff @ strip_ff bs \<and>
   strip_ff bs \<noteq> [] \<and> unat (hd (strip_ff bs)) \<ge> 128"
proof (induction bs rule: strip_ff.induct)
  case (1 b c bs)
  show ?case
  proof (cases "b = 0xff \<and> unat c \<ge> 128")
    case True
    with 1 have IH: "c # bs = replicate (length (c # bs) - length (strip_ff (c # bs))) 0xff @ strip_ff (c # bs)"
      and r: "strip_ff (c # bs) \<noteq> []" "unat (hd (strip_ff (c # bs))) \<ge> 128" by auto
    have "length (b # c # bs) - length (strip_ff (c # bs)) = Suc (length (c # bs) - length (strip_ff (c # bs)))"
      using length_strip_ff [of "c # bs"] by (simp add: Suc_diff_le)
    then show ?thesis using True IH r by simp
  qed (use 1 in auto)
qed auto

lemma be_nat_replicate_0: "be_nat (replicate k 0 @ bs) = be_nat bs"
  by (induction k) (simp_all add: be_nat_Cons)

lemma CBS_is_valid_Some_False: "CBS_is_valid_asn1_integer bs = Some False \<longleftrightarrow> CBS_is_unsigned_asn1_integer bs"
  by (simp add: CBS_is_unsigned_asn1_integer_def)

text \<open>Sign and size of the eight bytes that \<open>CBS_get_asn1_int64\<close> assembles.\<close>

lemma hd_sign:
  assumes "length bs = 8"
  shows "sint (be_fold bs) < 0 \<longleftrightarrow> unat (hd bs) \<ge> 128"
proof -
  obtain b cs where bs: "bs = b # cs" "length cs = 7" using assms by (cases bs) auto
  have "be_nat cs < 256 ^ 7" using be_nat_less [of cs] bs by simp
  then show ?thesis
    using assms bs by (auto simp: sint_neg_iff unat_be_fold be_nat_Cons)
qed

lemma der_uint_short:
  assumes "n < 2 ^ 63"
  shows "length (der_uint n) \<le> 8"
proof (cases "n < 256 ^ 7")
  case True
  then show ?thesis using length_der_uint [of n 7] by simp
next
  case False
  then have b: "min_be n = be_bytes 8 n" using assms min_be_eq [of 7 n] by simp
  have "length (min_be n) = Suc 7" unfolding b by simp
  then obtain x xs where x: "min_be n = x # xs" "length xs = 7"
    unfolding length_Suc_conv by blast
  have "be_nat (x # xs) = n" using be_nat_min_be [of n] x by simp
  then have "unat x < 128" using assms x by (simp add: be_nat_Cons)
  then show ?thesis using x by (simp add: der_uint_def)
qed

lemma int64_body_iff:
  "(\<exists>neg. CBS_is_valid_asn1_integer bs = Some neg \<and> length bs \<le> 8 \<and>
      v = be_fold (replicate (8 - length bs) (if neg then 0xff else 0) @ bs)) \<longleftrightarrow> bs = der_int64 v"
  (is "?L \<longleftrightarrow> _")
proof
  assume ?L
  then obtain neg where neg: "CBS_is_valid_asn1_integer bs = Some neg" and len: "length bs \<le> 8"
    and v: "v = be_fold (replicate (8 - length bs) (if neg then 0xff else 0) @ bs)" by blast
  let ?p = "replicate (8 - length bs) (if neg then 0xff else 0) @ bs"
  have p8: "length ?p = 8" using len by simp
  show "bs = der_int64 v"
  proof (cases neg)
    case True
    then have b: "bs \<noteq> []" "unat (hd bs) \<ge> 128" "strip_ff bs = bs" using neg valid_negative_iff by auto
    then have "unat (hd ?p) \<ge> 128" using True by (cases "8 - length bs") auto
    then have "sint v < 0" using hd_sign [OF p8] v by simp
    moreover have "be_bytes 8 (unat v) = ?p" using be_bytes_be_fold [of ?p] p8 v by simp
    ultimately show ?thesis using b True strip_ff_replicate [OF b(1,2)] by (simp add: der_int64_def)
  next
    case False
    then have u: "CBS_is_unsigned_asn1_integer bs" using neg CBS_is_valid_Some_False by simp
    then have "unat (hd bs) < 128" "bs \<noteq> []" by (auto simp: CBS_is_unsigned_iff split: list.splits)
    then have "unat (hd ?p) < 128" using False by (cases "8 - length bs") auto
    then have "\<not> sint v < 0" using hd_sign [OF p8] v by simp
    moreover have "unat v = be_nat bs"
      using v p8 False be_nat_replicate_0 by (simp add: unat_be_fold)
    ultimately show ?thesis using der_uint_unique [OF u] by (simp add: der_int64_def)
  qed
next
  assume bs: "bs = der_int64 v"
  let ?w = "be_bytes 8 (unat v)"
  have fw: "be_fold ?w = v" using unat_u64_less [of v] by (intro be_fold_be_bytes) simp_all
  show ?L
  proof (cases "sint v < 0")
    case True
    then have h: "unat (hd ?w) \<ge> 128" using hd_sign [of ?w] fw by simp
    have ne: "?w \<noteq> []" using length_be_bytes [of 8 "unat v"] by (metis length_0_conv zero_neq_numeral)
    from strip_ff_prefix [OF ne h] bs True
    have pre: "?w = replicate (8 - length bs) 0xff @ bs" and b: "bs \<noteq> []" "unat (hd bs) \<ge> 128"
      by (simp_all add: der_int64_def)
    have "strip_ff bs = bs" using bs True strip_ff_idem by (simp add: der_int64_def)
    then have "CBS_is_valid_asn1_integer bs = Some True" using b valid_negative_iff by blast
    moreover have "length bs \<le> 8" using length_strip_ff [of ?w] bs True by (simp add: der_int64_def)
    ultimately show ?thesis using pre fw by (intro exI [of _ True]) simp
  next
    case False
    then have n: "unat v < 2 ^ 63" using sint_neg_iff by simp
    have "length bs \<le> 8" using der_uint_short [OF n] False bs by (simp add: der_int64_def)
    moreover have "CBS_is_valid_asn1_integer bs = Some False"
      using CBS_is_valid_Some_False unsigned_der_uint bs False by (simp add: der_int64_def)
    moreover have "be_nat bs = unat v" using bs False be_nat_der_uint by (simp add: der_int64_def)
    ultimately show ?thesis by (intro exI [of _ False]) (simp add: be_fold_eq be_nat_replicate_0)
  qed
qed

lemma length_der_int64: "length (der_int64 v) \<le> 8"
  using int64_body_iff [of "der_int64 v" v] by blast

lemma CBS_get_asn1_int64_exact:
  "CBS_get_asn1_int64 c = (Some v, c') \<longleftrightarrow> c = der_element (der_int64 v, CBS_ASN1_INTEGER) @ c'"
proof -
  have "CBS_get_asn1_int64 c = (Some v, c') \<longleftrightarrow>
      (\<exists>bs. CBS_get_asn1 c CBS_ASN1_INTEGER = (Some bs, c') \<and>
        (\<exists>neg. CBS_is_valid_asn1_integer bs = Some neg \<and> length bs \<le> 8 \<and>
          v = be_fold (replicate (8 - length bs) (if neg then 0xff else 0) @ bs)))"
    by (fastforce simp: CBS_get_asn1_int64_def split: prod.splits option.splits if_splits)
  also have "\<dots> \<longleftrightarrow> c = der_element (der_int64 v, CBS_ASN1_INTEGER) @ c'"
    using length_der_int64 [of v] by (simp add: int64_body_iff CBS_get_asn1_exact)
  finally show ?thesis .
qed

interpretation asn1_int64_codec: canonical_codec
  "\<lambda>v. der_element (der_int64 v, CBS_ASN1_INTEGER)" CBS_get_asn1_int64 "\<lambda>_. True"
  by unfold_locales (simp_all add: CBS_get_asn1_int64_exact)


section \<open>The accepted INTEGERs\<close>

text \<open>
  (C16) The INTEGER readers accept exactly one encoding of every value: \<open>CBS_get_asn1_uint64\<close>
  returns \<open>v\<close> if and only if the input starts with the DER element whose contents are the
  minimal non-negative form of \<open>v\<close>, and \<open>CBS_get_asn1_int64\<close> returns \<open>v\<close> if and only if it
  starts with the minimal two's complement form of \<open>v\<close>; both leave what follows.
\<close>

theorem CBS_get_asn1_integers_exact:
  "(CBS_get_asn1_uint64 c = (Some v, c') \<longleftrightarrow> c = der_element (der_uint (unat v), CBS_ASN1_INTEGER) @ c') \<and>
   (CBS_get_asn1_int64 c = (Some v, c') \<longleftrightarrow> c = der_element (der_int64 v, CBS_ASN1_INTEGER) @ c')"
  by (simp add: asn1_uint64_codec.dec_Some_iff asn1_int64_codec.dec_Some_iff)

end
