(* ===== verification/Cbb.thy ===== *)
theory Cbb
  imports Cbs_Asn1
begin

text \<open>
  The byte-string writer of BoringSSL (\<open>crypto/bytestring/cbb.c\<close>). A root \<open>CBB\<close> owns a buffer;
  adding a length-prefixed or ASN.1 element reserves the length octets and returns a child
  \<open>CBB\<close> that shares the buffer, and the length is filled in when an ancestor is flushed.

  The state of a tree of \<open>CBB\<close>s is the shared \<open>cbb_buffer_st\<close> and the chain of pending children:
  every \<open>CBB\<close> has at most one pending child, so a \<open>CBB\<close> object is named by its depth, 0 for the
  root and \<open>d + 1\<close> for the pending child of the object at depth \<open>d\<close>. The \<open>child\<close> pointer of the
  object at depth \<open>d\<close> is non-null when \<open>d\<close> is below the length of the chain. An object
  deeper than the chain has been flushed or discarded: its \<open>base\<close> is null.
\<close>

section \<open>State\<close>

text \<open>
  The pointer \<open>buf\<close> is the bytes it points to, \<open>cb_buf\<close>, and whether it is null, \<open>cb_null\<close>; a null \<open>buf\<close> has
  no bytes.
\<close>

record cbb_buffer_st =
  cb_buf :: "byte list"
  cb_null :: bool
  cb_len :: nat
  cb_cap :: nat
  cb_can_resize :: bool
  cb_error :: bool

record cbb_child_st =
  ch_offset :: nat
  ch_pending_len_len :: nat
  ch_pending_is_asn1 :: bool

record cbb =
  cbb_base :: cbb_buffer_st
  cbb_chain :: "cbb_child_st list"

definition cbb_init :: "byte list option \<Rightarrow> nat \<Rightarrow> bool \<Rightarrow> cbb" where
  "cbb_init buf cap can_resize =
     \<lparr>cbb_base = \<lparr>cb_buf = (case buf of None \<Rightarrow> [] | Some b \<Rightarrow> b), cb_null = (buf = None), cb_len = 0,
        cb_cap = cap, cb_can_resize = can_resize, cb_error = False\<rparr>,
      cbb_chain = []\<rparr>"

definition CBB_init :: "malloc_fn \<Rightarrow> nat \<Rightarrow> cbb option" where
  "CBB_init mal initial_capacity =
     (case OPENSSL_malloc mal initial_capacity of
        None \<Rightarrow> if initial_capacity > 0 then None else Some (cbb_init None 0 True)
      | Some blk \<Rightarrow> Some (cbb_init (Some (user_data blk)) initial_capacity True))"

definition CBB_init_fixed :: "byte list \<Rightarrow> nat \<Rightarrow> cbb" where
  "CBB_init_fixed buf len = cbb_init (Some buf) len False"

text \<open>The buffer as \<open>OPENSSL_realloc\<close> and \<open>OPENSSL_free\<close> get it.\<close>

definition cb_ptr :: "cbb_buffer_st \<Rightarrow> byte list option" where
  "cb_ptr base = (if cb_null base then None else Some (ossl_block (cb_buf base)))"

text \<open>The block that \<open>CBB_cleanup\<close> of a root hands to \<open>free\<close>, if any.\<close>

definition CBB_cleanup :: "cbb \<Rightarrow> byte list option" where
  "CBB_cleanup cbb =
     (if cb_can_resize (cbb_base cbb) then OPENSSL_free (cb_ptr (cbb_base cbb)) else None)"

section \<open>The buffer\<close>

definition cb_set_error :: "cbb_buffer_st \<Rightarrow> cbb_buffer_st" where
  "cb_set_error base = base\<lparr>cb_error := True\<rparr>"

text \<open>\<open>Some p\<close>: success, with \<open>*out\<close> the address \<open>p\<close> inside the buffer.\<close>

definition cbb_buffer_reserve :: "malloc_fn \<Rightarrow> cbb_buffer_st \<Rightarrow> nat \<Rightarrow> nat option \<times> cbb_buffer_st" where
  "cbb_buffer_reserve mal base len =
     (let newlen = size_add (cb_len base) len
      in if newlen < cb_len base then (None, cb_set_error base)
         else if newlen > cb_cap base
         then (if \<not> cb_can_resize base then (None, cb_set_error base)
               else let twice = cb_cap base * 2 mod SIZE_MOD;
                        newcap = (if twice < cb_cap base \<or> twice < newlen then newlen else twice)
                    in case fst (OPENSSL_realloc mal (cb_ptr base) newcap) of
                         None \<Rightarrow> (None, cb_set_error base)
                       | Some newbuf \<Rightarrow>
                           (Some (cb_len base), base\<lparr>cb_buf := user_data newbuf, cb_null := False, cb_cap := newcap\<rparr>))
         else (Some (cb_len base), base))"

definition cbb_buffer_add :: "malloc_fn \<Rightarrow> cbb_buffer_st \<Rightarrow> nat \<Rightarrow> nat option \<times> cbb_buffer_st" where
  "cbb_buffer_add mal base len =
     (case cbb_buffer_reserve mal base len of
        (None, base') \<Rightarrow> (None, base')
      | (Some out, base') \<Rightarrow> (Some out, base'\<lparr>cb_len := size_add (cb_len base') len\<rparr>))"

section \<open>Flushing\<close>

definition cbb_on_error :: "nat \<Rightarrow> cbb \<Rightarrow> cbb" where
  "cbb_on_error d cbb = cbb\<lparr>cbb_base := cb_set_error (cbb_base cbb), cbb_chain := take d (cbb_chain cbb)\<rparr>"

text \<open>The loop \<open>for (i = n - 1; i < n; i--) { p[i] = len; len >>= 8; }\<close> from index \<open>off\<close>.\<close>

fun write_be_loop :: "byte list \<Rightarrow> nat \<Rightarrow> nat \<Rightarrow> nat \<Rightarrow> byte list \<times> nat" where
  "write_be_loop buf off 0 v = (buf, v)"
| "write_be_loop buf off (Suc i) v = write_be_loop (buf[off + i := of_nat v]) off i (v div 256)"

definition asn1_len_len :: "nat \<Rightarrow> nat \<times> byte \<times> nat" where
  "asn1_len_len len =
     (if len > 0xffffff then (5, 0x80 OR 4, len)
      else if len > 0xffff then (4, 0x80 OR 3, len)
      else if len > 0xff then (3, 0x80 OR 2, len)
      else if len > 0x7f then (2, 0x80 OR 1, len)
      else (1, of_nat len, 0))"

definition cbb_write_len :: "cbb_buffer_st \<Rightarrow> nat \<Rightarrow> nat \<Rightarrow> nat \<Rightarrow> bool \<times> cbb_buffer_st" where
  "cbb_write_len base offset pending_len_len len =
     (let (buf, rest) = write_be_loop (cb_buf base) offset pending_len_len len
      in (rest = 0, base\<lparr>cb_buf := buf\<rparr>))"

text \<open>The part of \<open>CBB_flush\<close> after the recursive call: it fills in the length of \<open>child\<close>.\<close>

definition cbb_flush_child :: "malloc_fn \<Rightarrow> cbb_child_st \<Rightarrow> cbb_buffer_st \<Rightarrow> bool \<times> cbb_buffer_st" where
  "cbb_flush_child mal child base =
     (let child_start = size_add (ch_offset child) (ch_pending_len_len child)
      in if child_start < ch_offset child \<or> cb_len base < child_start then (False, base)
         else let len = cb_len base - child_start
              in if ch_pending_is_asn1 child
                 then (if len > 0xfffffffe then (False, base)
                       else let (len_len, initial_length_byte, len') = asn1_len_len len;
                                finish = (\<lambda>b. cbb_write_len
                                   (b\<lparr>cb_buf := (cb_buf b)[ch_offset child := initial_length_byte]\<rparr>)
                                   (ch_offset child + 1) (len_len - 1) len')
                            in if len_len \<noteq> 1
                               then (case cbb_buffer_add mal base (len_len - 1) of
                                       (None, base') \<Rightarrow> (False, base')
                                     | (Some _, base') \<Rightarrow>
                                         finish (base'\<lparr>cb_buf := OPENSSL_memmove (cb_buf base')
                                                   (child_start + (len_len - 1)) child_start len'\<rparr>))
                               else finish base)
                 else cbb_write_len base (ch_offset child) (ch_pending_len_len child) len)"

function CBB_flush :: "malloc_fn \<Rightarrow> nat \<Rightarrow> cbb \<Rightarrow> bool \<times> cbb" where
  "CBB_flush mal d cbb =
     (if d > length (cbb_chain cbb) \<or> cb_error (cbb_base cbb) then (False, cbb)
      else if d = length (cbb_chain cbb) then (True, cbb)
      else case CBB_flush mal (Suc d) cbb of
             (False, cbb') \<Rightarrow> (False, cbb_on_error d cbb')
           | (True, cbb') \<Rightarrow>
               (case cbb_flush_child mal (cbb_chain cbb ! d) (cbb_base cbb') of
                  (False, base) \<Rightarrow> (False, cbb_on_error d (cbb'\<lparr>cbb_base := base\<rparr>))
                | (True, base) \<Rightarrow> (True, cbb'\<lparr>cbb_base := base, cbb_chain := take d (cbb_chain cbb')\<rparr>)))"
  by pat_completeness auto
termination
  by (relation "measure (\<lambda>(mal, d, cbb). length (cbb_chain cbb) - d)") auto

declare CBB_flush.simps [simp del]

text \<open>
  \<open>CBB_finish\<close> of the object at depth \<open>d\<close>; \<open>want\<close> says that both out pointers are non-null. The
  result is the data and its length (both are written when wanted) and the \<open>CBB\<close> without its
  buffer, so that the call of \<open>CBB_cleanup\<close> at the end has nothing to free (\<open>CBB_finish_hands_over\<close>).
\<close>

definition CBB_finish :: "malloc_fn \<Rightarrow> nat \<Rightarrow> bool \<Rightarrow> cbb \<Rightarrow> (byte list \<times> nat) option \<times> cbb" where
  "CBB_finish mal d want cbb =
     (if d \<noteq> 0 then (None, cbb)
      else case CBB_flush mal d cbb of
             (False, cbb') \<Rightarrow> (None, cbb')
           | (True, cbb') \<Rightarrow>
               if cb_can_resize (cbb_base cbb') \<and> \<not> want then (None, cbb')
               else (Some (cb_buf (cbb_base cbb'), cb_len (cbb_base cbb')),
                     cbb'\<lparr>cbb_base := (cbb_base cbb')\<lparr>cb_buf := [], cb_null := True\<rparr>\<rparr>))"

text \<open>The position of an object's contents in the buffer and their length.\<close>

definition CBB_data :: "nat \<Rightarrow> cbb \<Rightarrow> nat" where
  "CBB_data d cbb =
     (if d = 0 then 0
      else let c = cbb_chain cbb ! (d - 1) in ch_offset c + ch_pending_len_len c)"

definition CBB_len :: "nat \<Rightarrow> cbb \<Rightarrow> nat" where
  "CBB_len d cbb =
     (if d = 0 then cb_len (cbb_base cbb)
      else let c = cbb_chain cbb ! (d - 1)
           in cb_len (cbb_base cbb) - ch_offset c - ch_pending_len_len c)"

section \<open>Adding data\<close>

definition cbb_with_base :: "cbb \<Rightarrow> 'a option \<times> cbb_buffer_st \<Rightarrow> 'a option \<times> cbb" where
  "cbb_with_base cbb r = (fst r, cbb\<lparr>cbb_base := snd r\<rparr>)"

definition CBB_add_space :: "malloc_fn \<Rightarrow> nat \<Rightarrow> cbb \<Rightarrow> nat \<Rightarrow> nat option \<times> cbb" where
  "CBB_add_space mal d cbb len =
     (case CBB_flush mal d cbb of
        (False, cbb') \<Rightarrow> (None, cbb')
      | (True, cbb') \<Rightarrow> cbb_with_base cbb' (cbb_buffer_add mal (cbb_base cbb') len))"

definition CBB_reserve :: "malloc_fn \<Rightarrow> nat \<Rightarrow> cbb \<Rightarrow> nat \<Rightarrow> nat option \<times> cbb" where
  "CBB_reserve mal d cbb len =
     (case CBB_flush mal d cbb of
        (False, cbb') \<Rightarrow> (None, cbb')
      | (True, cbb') \<Rightarrow> cbb_with_base cbb' (cbb_buffer_reserve mal (cbb_base cbb') len))"

text \<open>\<open>CBB_did_write\<close> of an object that has been flushed (null \<open>base\<close>) is undefined in C.\<close>

definition CBB_did_write :: "nat \<Rightarrow> cbb \<Rightarrow> nat \<Rightarrow> bool \<times> cbb" where
  "CBB_did_write d cbb len =
     (let base = cbb_base cbb; newlen = size_add (cb_len base) len
      in if length (cbb_chain cbb) \<noteq> d \<or> newlen < cb_len base \<or> newlen > cb_cap base then (False, cbb)
         else (True, cbb\<lparr>cbb_base := base\<lparr>cb_len := newlen\<rparr>\<rparr>))"

definition cbb_poke :: "cbb \<Rightarrow> nat \<Rightarrow> byte list \<Rightarrow> cbb" where
  "cbb_poke cbb out data =
     cbb\<lparr>cbb_base := (cbb_base cbb)\<lparr>cb_buf := mem_write (cb_buf (cbb_base cbb)) out data\<rparr>\<rparr>"

definition CBB_add_bytes :: "malloc_fn \<Rightarrow> nat \<Rightarrow> cbb \<Rightarrow> byte list \<Rightarrow> bool \<times> cbb" where
  "CBB_add_bytes mal d cbb data =
     (case CBB_add_space mal d cbb (length data) of
        (None, cbb') \<Rightarrow> (False, cbb')
      | (Some out, cbb') \<Rightarrow> (True, cbb_poke cbb' out data))"

definition CBB_add_zeros :: "malloc_fn \<Rightarrow> nat \<Rightarrow> cbb \<Rightarrow> nat \<Rightarrow> bool \<times> cbb" where
  "CBB_add_zeros mal d cbb len =
     (case CBB_add_space mal d cbb len of
        (None, cbb') \<Rightarrow> (False, cbb')
      | (Some out, cbb') \<Rightarrow> (True, cbb_poke cbb' out (replicate len 0)))"

definition cbb_add_u :: "malloc_fn \<Rightarrow> nat \<Rightarrow> cbb \<Rightarrow> u64 \<Rightarrow> nat \<Rightarrow> bool \<times> cbb" where
  "cbb_add_u mal d cbb v len_len =
     (case CBB_add_space mal d cbb len_len of
        (None, cbb') \<Rightarrow> (False, cbb')
      | (Some out, cbb') \<Rightarrow>
          let (buf, rest) = write_be_loop (cb_buf (cbb_base cbb')) out len_len (unat v);
              cbb'' = cbb'\<lparr>cbb_base := (cbb_base cbb')\<lparr>cb_buf := buf\<rparr>\<rparr>
          in if rest \<noteq> 0 then (False, cbb_on_error d cbb'') else (True, cbb''))"

definition CBB_add_u8 :: "malloc_fn \<Rightarrow> nat \<Rightarrow> cbb \<Rightarrow> byte \<Rightarrow> bool \<times> cbb" where
  "CBB_add_u8 mal d cbb v = cbb_add_u mal d cbb (ucast v) 1"

definition CBB_add_u16 :: "malloc_fn \<Rightarrow> nat \<Rightarrow> cbb \<Rightarrow> u16 \<Rightarrow> bool \<times> cbb" where
  "CBB_add_u16 mal d cbb v = cbb_add_u mal d cbb (ucast v) 2"

definition CBB_add_u16le :: "malloc_fn \<Rightarrow> nat \<Rightarrow> cbb \<Rightarrow> u16 \<Rightarrow> bool \<times> cbb" where
  "CBB_add_u16le mal d cbb v = CBB_add_u16 mal d cbb (CRYPTO_bswap2 v)"

definition CBB_add_u24 :: "malloc_fn \<Rightarrow> nat \<Rightarrow> cbb \<Rightarrow> u32 \<Rightarrow> bool \<times> cbb" where
  "CBB_add_u24 mal d cbb v = cbb_add_u mal d cbb (ucast v) 3"

definition CBB_add_u32 :: "malloc_fn \<Rightarrow> nat \<Rightarrow> cbb \<Rightarrow> u32 \<Rightarrow> bool \<times> cbb" where
  "CBB_add_u32 mal d cbb v = cbb_add_u mal d cbb (ucast v) 4"

definition CBB_add_u32le :: "malloc_fn \<Rightarrow> nat \<Rightarrow> cbb \<Rightarrow> u32 \<Rightarrow> bool \<times> cbb" where
  "CBB_add_u32le mal d cbb v = CBB_add_u32 mal d cbb (CRYPTO_bswap4 v)"

definition CBB_add_u64 :: "malloc_fn \<Rightarrow> nat \<Rightarrow> cbb \<Rightarrow> u64 \<Rightarrow> bool \<times> cbb" where
  "CBB_add_u64 mal d cbb v = cbb_add_u mal d cbb v 8"

definition CBB_add_u64le :: "malloc_fn \<Rightarrow> nat \<Rightarrow> cbb \<Rightarrow> u64 \<Rightarrow> bool \<times> cbb" where
  "CBB_add_u64le mal d cbb v = CBB_add_u64 mal d cbb (CRYPTO_bswap8 v)"

section \<open>Children\<close>

text \<open>The new child is the object at depth \<open>d + 1\<close>.\<close>

definition cbb_add_child :: "malloc_fn \<Rightarrow> nat \<Rightarrow> cbb \<Rightarrow> nat \<Rightarrow> bool \<Rightarrow> bool \<times> cbb" where
  "cbb_add_child mal d cbb len_len is_asn1 =
     (let offset = cb_len (cbb_base cbb)
      in case cbb_with_base cbb (cbb_buffer_add mal (cbb_base cbb) len_len) of
           (None, cbb') \<Rightarrow> (False, cbb')
         | (Some prefix_bytes, cbb') \<Rightarrow>
             let cbb'' = cbb_poke cbb' prefix_bytes (replicate len_len 0)
             in (True, cbb''\<lparr>cbb_chain := take d (cbb_chain cbb'') @
                    [\<lparr>ch_offset = offset, ch_pending_len_len = len_len, ch_pending_is_asn1 = is_asn1\<rparr>]\<rparr>))"

definition cbb_add_length_prefixed :: "malloc_fn \<Rightarrow> nat \<Rightarrow> cbb \<Rightarrow> nat \<Rightarrow> bool \<times> cbb" where
  "cbb_add_length_prefixed mal d cbb len_len =
     and_then (CBB_flush mal d cbb) (\<lambda>cbb. cbb_add_child mal d cbb len_len False)"

definition CBB_add_u8_length_prefixed :: "malloc_fn \<Rightarrow> nat \<Rightarrow> cbb \<Rightarrow> bool \<times> cbb" where
  "CBB_add_u8_length_prefixed mal d cbb = cbb_add_length_prefixed mal d cbb 1"

definition CBB_add_u16_length_prefixed :: "malloc_fn \<Rightarrow> nat \<Rightarrow> cbb \<Rightarrow> bool \<times> cbb" where
  "CBB_add_u16_length_prefixed mal d cbb = cbb_add_length_prefixed mal d cbb 2"

definition CBB_add_u24_length_prefixed :: "malloc_fn \<Rightarrow> nat \<Rightarrow> cbb \<Rightarrow> bool \<times> cbb" where
  "CBB_add_u24_length_prefixed mal d cbb = cbb_add_length_prefixed mal d cbb 3"

function base128_len_len :: "u64 \<Rightarrow> nat" where
  "base128_len_len copy = (if copy > 0 then Suc (base128_len_len (drop_bit 7 copy)) else 0)"
  by pat_completeness auto
termination
proof (relation "measure unat")
  fix copy :: u64
  assume "copy > 0"
  then have "unat copy > 0" by (simp add: word_less_nat_alt)
  then show "(drop_bit 7 copy, copy) \<in> measure unat" by (simp add: unat_drop_bit)
qed simp

declare base128_len_len.simps [simp del]

fun add_base128_loop :: "malloc_fn \<Rightarrow> nat \<Rightarrow> u64 \<Rightarrow> nat \<Rightarrow> cbb \<Rightarrow> bool \<times> cbb" where
  "add_base128_loop mal d v 0 cbb = (True, cbb)"
| "add_base128_loop mal d v (Suc i) cbb =
     (let b = ucast (drop_bit (7 * i) v AND 0x7f) :: byte;
          b = (if i \<noteq> 0 then b OR 0x80 else b)
      in and_then (CBB_add_u8 mal d cbb b) (add_base128_loop mal d v i))"

definition add_base128_integer :: "malloc_fn \<Rightarrow> nat \<Rightarrow> cbb \<Rightarrow> u64 \<Rightarrow> bool \<times> cbb" where
  "add_base128_integer mal d cbb v =
     (let len_len = base128_len_len v;
          len_len = (if len_len = 0 then 1 else len_len)
      in add_base128_loop mal d v len_len cbb)"

definition CBB_add_asn1 :: "malloc_fn \<Rightarrow> nat \<Rightarrow> cbb \<Rightarrow> asn1_tag \<Rightarrow> bool \<times> cbb" where
  "CBB_add_asn1 mal d cbb tag =
     and_then (CBB_flush mal d cbb) (\<lambda>cbb.
       let tag_bits = ucast (drop_bit CBS_ASN1_TAG_SHIFT tag AND 0xe0) :: byte;
           tag_number = tag AND CBS_ASN1_TAG_NUMBER_MASK
       in and_then
            (if tag_number \<ge> 0x1f
             then and_then (CBB_add_u8 mal d cbb (tag_bits OR 0x1f))
                    (\<lambda>cbb. add_base128_integer mal d cbb (ucast tag_number))
             else CBB_add_u8 mal d cbb (tag_bits OR ucast tag_number))
            (\<lambda>cbb. cbb_add_child mal d cbb 1 True))"

definition CBB_discard_child :: "nat \<Rightarrow> cbb \<Rightarrow> cbb" where
  "CBB_discard_child d cbb =
     (if length (cbb_chain cbb) \<le> d then cbb
      else cbb\<lparr>cbb_base := (cbb_base cbb)\<lparr>cb_len := ch_offset (cbb_chain cbb ! d)\<rparr>,
               cbb_chain := take d (cbb_chain cbb)\<rparr>)"

section \<open>ASN.1 values\<close>

text \<open>The \<open>goto err\<close> of the value writers.\<close>

definition or_on_error :: "nat \<Rightarrow> bool \<times> cbb \<Rightarrow> bool \<times> cbb" where
  "or_on_error d r = (if fst r then r else (False, cbb_on_error d (snd r)))"

text \<open>The eight rounds of the loop of \<open>CBB_add_asn1_uint64_with_tag\<close>: \<open>n\<close> rounds are left.\<close>

fun asn1_uint64_write :: "malloc_fn \<Rightarrow> nat \<Rightarrow> u64 \<Rightarrow> nat \<Rightarrow> bool \<Rightarrow> cbb \<Rightarrow> bool \<times> bool \<times> cbb" where
  "asn1_uint64_write mal d v 0 started cbb = (True, started, cbb)"
| "asn1_uint64_write mal d v (Suc n) started cbb =
     (let b = ucast (drop_bit (8 * n) v AND 0xff) :: byte
      in if \<not> started \<and> b = 0 then asn1_uint64_write mal d v n started cbb
         else (case (if \<not> started \<and> b AND 0x80 \<noteq> 0 then CBB_add_u8 mal d cbb 0 else (True, cbb)) of
                 (False, cbb) \<Rightarrow> (False, started, cbb)
               | (True, cbb) \<Rightarrow>
                   (case CBB_add_u8 mal d cbb b of
                      (False, cbb) \<Rightarrow> (False, True, cbb)
                    | (True, cbb) \<Rightarrow> asn1_uint64_write mal d v n True cbb)))"

definition CBB_add_asn1_uint64_with_tag ::
  "malloc_fn \<Rightarrow> nat \<Rightarrow> cbb \<Rightarrow> u64 \<Rightarrow> asn1_tag \<Rightarrow> bool \<times> cbb" where
  "CBB_add_asn1_uint64_with_tag mal d cbb v tag =
     and_then
       (or_on_error d (and_then (CBB_add_asn1 mal d cbb tag) (\<lambda>cbb.
          case asn1_uint64_write mal (Suc d) v 8 False cbb of
            (False, _, cbb) \<Rightarrow> (False, cbb)
          | (True, started, cbb) \<Rightarrow>
              if \<not> started then CBB_add_u8 mal (Suc d) cbb 0 else (True, cbb))))
       (CBB_flush mal d)"

definition CBB_add_asn1_uint64 :: "malloc_fn \<Rightarrow> nat \<Rightarrow> cbb \<Rightarrow> u64 \<Rightarrow> bool \<times> cbb" where
  "CBB_add_asn1_uint64 mal d cbb v = CBB_add_asn1_uint64_with_tag mal d cbb v CBS_ASN1_INTEGER"

fun int64_start :: "byte list \<Rightarrow> nat \<Rightarrow> nat" where
  "int64_start bytes 0 = 0"
| "int64_start bytes (Suc start) =
     (if bytes ! Suc start = 0xff \<and> bytes ! start AND 0x80 \<noteq> 0 then int64_start bytes start else Suc start)"

fun add_bytes_down :: "malloc_fn \<Rightarrow> nat \<Rightarrow> byte list \<Rightarrow> nat \<Rightarrow> cbb \<Rightarrow> bool \<times> cbb" where
  "add_bytes_down mal d bytes 0 cbb = CBB_add_u8 mal d cbb (bytes ! 0)"
| "add_bytes_down mal d bytes (Suc i) cbb =
     and_then (CBB_add_u8 mal d cbb (bytes ! Suc i)) (add_bytes_down mal d bytes i)"

text \<open>An \<open>int64_t\<close> is its 64-bit pattern; in memory it is little endian.\<close>

definition CBB_add_asn1_int64_with_tag ::
  "malloc_fn \<Rightarrow> nat \<Rightarrow> cbb \<Rightarrow> u64 \<Rightarrow> asn1_tag \<Rightarrow> bool \<times> cbb" where
  "CBB_add_asn1_int64_with_tag mal d cbb v tag =
     (if sint v \<ge> 0 then CBB_add_asn1_uint64_with_tag mal d cbb v tag
      else let bytes = rev (be_bytes 8 (unat v)); start = int64_start bytes 7
           in and_then (or_on_error d (and_then (CBB_add_asn1 mal d cbb tag)
                          (add_bytes_down mal (Suc d) bytes start)))
                (CBB_flush mal d))"

definition CBB_add_asn1_int64 :: "malloc_fn \<Rightarrow> nat \<Rightarrow> cbb \<Rightarrow> u64 \<Rightarrow> bool \<times> cbb" where
  "CBB_add_asn1_int64 mal d cbb v = CBB_add_asn1_int64_with_tag mal d cbb v CBS_ASN1_INTEGER"

definition CBB_add_asn1_octet_string :: "malloc_fn \<Rightarrow> nat \<Rightarrow> cbb \<Rightarrow> byte list \<Rightarrow> bool \<times> cbb" where
  "CBB_add_asn1_octet_string mal d cbb data =
     or_on_error d (and_then (CBB_add_asn1 mal d cbb CBS_ASN1_OCTETSTRING) (\<lambda>cbb.
       and_then (CBB_add_bytes mal (Suc d) cbb data) (CBB_flush mal d)))"

definition CBB_add_asn1_bool :: "malloc_fn \<Rightarrow> nat \<Rightarrow> cbb \<Rightarrow> int \<Rightarrow> bool \<times> cbb" where
  "CBB_add_asn1_bool mal d cbb value =
     or_on_error d (and_then (CBB_add_asn1 mal d cbb CBS_ASN1_BOOLEAN) (\<lambda>cbb.
       and_then (CBB_add_u8 mal (Suc d) cbb (if value \<noteq> 0 then 0xff else 0)) (CBB_flush mal d)))"

end
