(* ===== verification/Cbb_Spec.thy ===== *)
theory Cbb_Spec
  imports Cbb Cbs_Integer
begin

text \<open>
  What the writer of \<open>cbb.c\<close> promises, and that it keeps the promise. The abstract state is a
  \<open>builder\<close>: the finished contents of the root and, for every pending child, how its length will
  be written and the contents it has so far. The abstract operations append bytes and close
  children; the buffer, its growth, the reserved length octets and the moves inside the buffer
  do not appear. \<open>realizes\<close> says that an operation on the concrete state implements an abstract
  one exactly: it succeeds with the abstract result, or it sets the error flag and there is a
  reason (the abstract operation is undefined, or the memory does not suffice).
\<close>

section \<open>Builders\<close>

datatype len_prefix = Asn1 | Fixed nat

fun plen :: "len_prefix \<Rightarrow> nat" where
  "plen Asn1 = 1"
| "plen (Fixed n) = n"

fun fits :: "len_prefix \<Rightarrow> byte list \<Rightarrow> bool" where
  "fits Asn1 b = (length b \<le> 0xfffffffe)"
| "fits (Fixed n) b = (length b < 256 ^ n)"

fun encode :: "len_prefix \<Rightarrow> byte list \<Rightarrow> byte list" where
  "encode Asn1 b = der_length (length b) @ b"
| "encode (Fixed n) b = be_bytes n (length b) @ b"

datatype builder = Root "byte list" | Open builder len_prefix "byte list"

fun depth :: "builder \<Rightarrow> nat" where
  "depth (Root r) = 0"
| "depth (Open B p b) = Suc (depth B)"

text \<open>Appending to the innermost open string.\<close>

fun put :: "builder \<Rightarrow> byte list \<Rightarrow> builder" where
  "put (Root r) e = Root (r @ e)"
| "put (Open B p b) e = Open B p (b @ e)"

lemma depth_put [simp]: "depth (put B e) = depth B"
  by (cases B) auto

lemma put_put [simp]: "put (put B e) f = put B (e @ f)"
  by (cases B) auto

lemma put_Nil [simp]: "put B [] = B"
  by (cases B) auto

text \<open>Closing the children below depth \<open>d\<close>, the innermost first.\<close>

fun close1 :: "builder \<Rightarrow> builder option" where
  "close1 (Root r) = None"
| "close1 (Open B p b) = (if fits p b then Some (put B (encode p b)) else None)"

function close_to :: "nat \<Rightarrow> builder \<Rightarrow> builder option" where
  "close_to d B =
     (if depth B < d then None
      else if depth B = d then Some B
      else case close1 B of None \<Rightarrow> None | Some B' \<Rightarrow> close_to d B')"
  by pat_completeness auto
lemma close1_depth: "close1 B = Some B' \<Longrightarrow> depth B = Suc (depth B')"
  by (cases B) (auto split: if_splits)

termination close_to
  by (relation "measure (\<lambda>(d, B). depth B)") (auto dest: close1_depth)

declare close_to.simps [simp del]

lemma close_to_same [simp]: "close_to (depth B) B = Some B"
  by (simp add: close_to.simps)

lemma close_to_depth: "close_to d B = Some B' \<Longrightarrow> depth B' = d"
  by (induction d B rule: close_to.induct)
    (auto simp: close_to.simps [of _ "_ :: builder"] split: if_splits option.splits)

lemma close_to_Suc:
  "d < depth B \<Longrightarrow> close_to d B = Option.bind (close_to (Suc d) B) close1"
proof (induction d B rule: close_to.induct)
  case (1 d B)
  show ?case
  proof (cases "depth B = Suc d")
    case True
    then show ?thesis
      using close1_depth [of B] by (auto simp: close_to.simps [of d B] close_to.simps [of "Suc d" B]
          close_to.simps [of d "_ :: builder"] split: option.splits)
  next
    case False
    with 1 show ?thesis
      using close1_depth [of B]
      by (auto simp: close_to.simps [of d B] close_to.simps [of "Suc d" B] split: option.splits)
  qed
qed

section \<open>Representation\<close>

text \<open>The bytes in the buffer: every pending child has its reserved octets in front.\<close>

fun layout :: "builder \<Rightarrow> byte list" where
  "layout (Root r) = r"
| "layout (Open B p b) = layout B @ replicate (plen p) 0 @ b"

fun chain_of :: "builder \<Rightarrow> cbb_child_st list" where
  "chain_of (Root r) = []"
| "chain_of (Open B p b) = chain_of B @
     [\<lparr>ch_offset = length (layout B), ch_pending_len_len = plen p, ch_pending_is_asn1 = (p = Asn1)\<rparr>]"

lemma layout_put [simp]: "layout (put B e) = layout B @ e"
  by (cases B) auto

lemma chain_of_put [simp]: "chain_of (put B e) = chain_of B"
  by (cases B) auto

lemma length_chain_of [simp]: "length (chain_of B) = depth B"
  by (induction B) auto

lemma take_chain_of: "close1 B = Some B' \<Longrightarrow> take (depth B') (chain_of B) = chain_of B'"
  by (cases B) (auto split: if_splits)

definition buf_ok :: "cbb_buffer_st \<Rightarrow> bool" where
  "buf_ok base \<longleftrightarrow>
     length (cb_buf base) = cb_cap base \<and> cb_len base \<le> cb_cap base \<and> cb_cap base < SIZE_MOD \<and>
     (cb_null base \<longrightarrow> cb_cap base = 0)"

definition written :: "cbb_buffer_st \<Rightarrow> byte list" where
  "written base = take (cb_len base) (cb_buf base)"

definition rep :: "cbb \<Rightarrow> builder \<Rightarrow> bool" where
  "rep cbb B \<longleftrightarrow> buf_ok (cbb_base cbb) \<and> \<not> cb_error (cbb_base cbb) \<and>
     written (cbb_base cbb) = layout B \<and> cbb_chain cbb = chain_of B"

text \<open>
  Whether the buffer can come to hold \<open>n\<close> bytes: it has the capacity, or it can grow, the
  allocator does not fail and the sizes are far from wrapping.
\<close>

definition ample :: "malloc_fn \<Rightarrow> cbb_buffer_st \<Rightarrow> nat \<Rightarrow> bool" where
  "ample mal base n \<longleftrightarrow> n \<le> cb_cap base \<or> cb_can_resize base \<and> (\<forall>k. mal k \<noteq> None) \<and> n < 2 ^ 62"

definition evolves :: "cbb_buffer_st \<Rightarrow> cbb_buffer_st \<Rightarrow> bool" where
  "evolves base base' \<longleftrightarrow>
     cb_can_resize base' = cb_can_resize base \<and> cb_cap base \<le> cb_cap base'"

lemma evolves_refl [simp, intro]: "evolves b b"
  by (simp add: evolves_def)

lemma evolves_trans: "evolves a b \<Longrightarrow> evolves b c \<Longrightarrow> evolves a c"
  by (simp add: evolves_def)

lemma ample_evolves: "evolves b b' \<Longrightarrow> ample mal b n \<Longrightarrow> ample mal b' n"
  by (auto simp: evolves_def ample_def)

lemma ample_mono: "ample mal b n \<Longrightarrow> m \<le> n \<Longrightarrow> ample mal b m"
  by (auto simp: ample_def)

lemma written_length: "buf_ok b \<Longrightarrow> length (written b) = cb_len b"
  by (simp add: written_def buf_ok_def)

lemma buf_split: "buf_ok b \<Longrightarrow> cb_buf b = written b @ drop (cb_len b) (cb_buf b)"
  by (simp add: written_def)

section \<open>The buffer\<close>

lemma realloc_null_empty:
  assumes "malloc_ok mal" and "n < SIZE_MOD"
  shows "fst (OPENSSL_realloc mal None n) = fst (OPENSSL_realloc mal (Some (ossl_block [])) n)"
proof (cases "OPENSSL_malloc mal n")
  case (Some blk)
  from OPENSSL_malloc_Some [OF assms(1) Some assms(2)] obtain fresh
    where f: "blk = ossl_block fresh" "length fresh = n" by blast
  then show ?thesis
    using OPENSSL_realloc_succeeds [of mal n fresh "[]"] Some by (simp add: OPENSSL_realloc_def SIZE_MOD_def)
qed (simp add: OPENSSL_realloc_def Let_def)

lemma realloc_buffer:
  assumes "malloc_ok mal" and "buf_ok base" and "n < SIZE_MOD"
  shows "fst (OPENSSL_realloc mal (cb_ptr base) n) = fst (OPENSSL_realloc mal (Some (ossl_block (cb_buf base))) n)"
  using realloc_null_empty [OF assms(1,3)] assms(2) by (auto simp: cb_ptr_def buf_ok_def)

lemma cbb_buffer_reserve_cases:
  assumes "malloc_ok mal" and "buf_ok base" and "n < SIZE_MOD"
  obtains
    (ok) base' where "cbb_buffer_reserve mal base n = (Some (cb_len base), base')" and "buf_ok base'"
      and "evolves base base'" and "cb_len base' = cb_len base" and "cb_error base' = cb_error base"
      and "written base' = written base" and "cb_len base + n \<le> cb_cap base'"
  | (err) "cbb_buffer_reserve mal base n = (None, cb_set_error base)" and "\<not> ample mal base (cb_len base + n)"
proof -
  let ?new = "size_add (cb_len base) n"
  have lt: "cb_len base < SIZE_MOD" using assms(2) by (auto simp: buf_ok_def)
  consider "SIZE_MOD \<le> cb_len base + n" | "cb_len base + n < SIZE_MOD" "cb_len base + n \<le> cb_cap base"
    | "cb_len base + n < SIZE_MOD" "\<not> cb_can_resize base" "cb_cap base < cb_len base + n"
    | "cb_len base + n < SIZE_MOD" "cb_can_resize base" "cb_cap base < cb_len base + n"
    by linarith
  then show thesis
  proof cases
    case 1
    then have "?new < cb_len base" using size_add_overflow_iff [OF lt assms(3)] by simp
    moreover have "\<not> ample mal base (cb_len base + n)"
      using 1 assms(2) by (auto simp: ample_def buf_ok_def SIZE_MOD_def)
    ultimately show thesis by (intro err) (simp_all add: cbb_buffer_reserve_def)
  next
    case 2
    then show thesis using assms(2)
      by (intro ok [of base]) (simp_all add: cbb_buffer_reserve_def size_add_small)
  next
    case 3
    then show thesis
      by (intro err) (simp_all add: cbb_buffer_reserve_def size_add_small ample_def)
  next
    case 4
    define newcap where "newcap = (let twice = cb_cap base * 2 mod SIZE_MOD
      in if twice < cb_cap base \<or> twice < ?new then ?new else twice)"
    have new: "?new = cb_len base + n" using 4 by (simp add: size_add_small)
    have nc: "newcap < SIZE_MOD" "cb_len base + n \<le> newcap"
      using 4 by (auto simp: newcap_def Let_def new SIZE_MOD_def)
    have red: "cbb_buffer_reserve mal base n =
        (case fst (OPENSSL_realloc mal (Some (ossl_block (cb_buf base))) newcap) of
           None \<Rightarrow> (None, cb_set_error base)
         | Some nb \<Rightarrow> (Some (cb_len base), base\<lparr>cb_buf := user_data nb, cb_null := False, cb_cap := newcap\<rparr>))"
      unfolding realloc_buffer [OF assms(1,2) nc(1), symmetric]
      using 4 by (simp add: cbb_buffer_reserve_def new newcap_def Let_def cong: option.case_cong)
    have lb: "length (cb_buf base) < SIZE_MOD" using assms(2) by (simp add: buf_ok_def)
    show thesis
    proof (cases "fst (OPENSSL_realloc mal (Some (ossl_block (cb_buf base))) newcap)")
      case None
      have "\<not> ample mal base (cb_len base + n)"
      proof
        assume "ample mal base (cb_len base + n)"
        then have a: "\<forall>k. mal k \<noteq> None" "cb_len base + n < 2 ^ 62" using 4 by (auto simp: ample_def)
        then have "cb_cap base * 2 mod SIZE_MOD = cb_cap base * 2" using 4 by (simp add: SIZE_MOD_def)
        then have "newcap + 8 < SIZE_MOD"
          using a 4 by (auto simp: newcap_def Let_def new SIZE_MOD_def)
        moreover from a obtain p where "mal (newcap + 8) = Some p" by blast
        ultimately have "OPENSSL_malloc mal newcap \<noteq> None"
          using OPENSSL_malloc_succeeds [OF assms(1)] by force
        then show False using None by (auto simp: OPENSSL_realloc_def Let_def split: option.splits)
      qed
      then show thesis using None by (intro err) (simp_all add: red)
    next
      case (Some blk)
      from OPENSSL_realloc_Some [OF assms(1) lb nc(1) Some] obtain fresh
        where f: "blk = ossl_block (take newcap (cb_buf base) @ drop (length (cb_buf base)) fresh)"
          "length fresh = newcap" by blast
      let ?b = "base\<lparr>cb_buf := user_data blk, cb_null := False, cb_cap := newcap\<rparr>"
      have cap: "cb_cap base \<le> newcap" using 4 nc by linarith
      then have u: "user_data blk = cb_buf base @ drop (length (cb_buf base)) fresh"
        using assms(2) f(1) by (simp add: buf_ok_def)
      have "cbb_buffer_reserve mal base n = (Some (cb_len base), ?b)"
        using Some by (simp add: red)
      then show thesis
        by (rule ok) (use assms(2) u f(2) cap nc in \<open>auto simp: buf_ok_def evolves_def written_def\<close>)
    qed
  qed
qed

lemma cbb_buffer_add_cases:
  assumes "malloc_ok mal" and "buf_ok base" and "n < SIZE_MOD"
  obtains
    (ok) base' where "cbb_buffer_add mal base n = (Some (cb_len base), base')" and "buf_ok base'"
      and "evolves base base'" and "cb_len base' = cb_len base + n" and "cb_error base' = cb_error base"
      and "take (cb_len base) (cb_buf base') = written base"
  | (err) "cbb_buffer_add mal base n = (None, cb_set_error base)" and "\<not> ample mal base (cb_len base + n)"
using assms
proof (cases rule: cbb_buffer_reserve_cases)
  case (ok base')
  let ?b = "base'\<lparr>cb_len := cb_len base + n\<rparr>"
  have "cb_len base + n < SIZE_MOD" using ok by (auto simp: buf_ok_def)
  with ok have "cbb_buffer_add mal base n = (Some (cb_len base), ?b)"
    by (simp add: cbb_buffer_add_def size_add_small)
  then show thesis
    by (rule that(1)) (use ok in \<open>auto simp: buf_ok_def evolves_def written_def\<close>)
next
  case err
  then show thesis by (intro that(2)) (simp_all add: cbb_buffer_add_def)
qed

lemma write_be_loop_eq:
  "length mid = n \<Longrightarrow> write_be_loop (a @ mid @ c) (length a) n v = (a @ be_bytes n v @ c, v div 256 ^ n)"
proof (induction n arbitrary: mid c v)
  case (Suc n)
  then obtain m x where mid: "mid = m @ [x]" "length m = n" by (cases mid rule: rev_cases) auto
  have "(a @ mid @ c)[length a + n := of_nat v] = a @ m @ of_nat v # c"
    using mid by (simp add: list_update_append)
  then show ?case using Suc.IH [of m "of_nat v # c" "v div 256"] mid by (simp add: div_mult2_eq)
qed simp


lemma cbb_write_len_eq:
  assumes "cb_buf base = a @ mid @ c" and "length mid = n" and "off = length a"
  shows "cbb_write_len base off n v = (v < 256 ^ n, base\<lparr>cb_buf := a @ be_bytes n v @ c\<rparr>)"
  by (simp add: cbb_write_len_def assms(1,3) write_be_loop_eq [OF assms(2)] div_eq_0_iff)

lemma asn1_len_len_eq:
  assumes "len \<le> 0xfffffffe"
  shows "asn1_len_len len =
     (if len \<le> 0x7f then (1, of_nat len, 0)
      else (Suc (der_len_len len), of_nat (0x80 + der_len_len len), len))"
  using assms by (auto simp: asn1_len_len_def der_len_len_def)

lemma encode_Asn1_long:
  "length b > 0x7f \<Longrightarrow> encode Asn1 b =
     of_nat (0x80 + der_len_len (length b)) # be_bytes (der_len_len (length b)) (length b) @ b"
  by (simp add: der_length_def)

lemma move_contents:
  assumes "length rest \<ge> k"
  shows "OPENSSL_memmove (L @ x # b @ rest) (Suc (length L) + k) (Suc (length L)) (length b) =
     L @ x # take k (b @ rest) @ b @ drop k rest"
  using assms by (cases "b = []") (auto simp: OPENSSL_memmove_def mem_write_def)

definition child_at :: "byte list \<Rightarrow> len_prefix \<Rightarrow> cbb_child_st" where
  "child_at L p = \<lparr>ch_offset = length L, ch_pending_len_len = plen p, ch_pending_is_asn1 = (p = Asn1)\<rparr>"

lemma cbb_flush_child_fixed:
  assumes "buf_ok base" and "written base = L @ replicate n 0 @ b"
  shows "\<exists>base'. cbb_flush_child mal (child_at L (Fixed n)) base = (fits (Fixed n) b, base') \<and> buf_ok base' \<and>
           evolves base base' \<and> cb_error base' = cb_error base \<and> written base' = L @ encode (Fixed n) b"
proof -
  let ?r = "drop (cb_len base) (cb_buf base)"
  have buf: "cb_buf base = L @ replicate n 0 @ b @ ?r" using buf_split [OF assms(1)] assms(2) by simp
  have len: "cb_len base = length L + n + length b" using written_length [OF assms(1)] assms(2) by simp
  have s: "size_add (length L) n = length L + n"
    using len assms(1) by (auto simp: buf_ok_def intro: size_add_small)
  have w: "cbb_write_len base (length L) n (length b) =
      (length b < 256 ^ n, base\<lparr>cb_buf := L @ be_bytes n (length b) @ b @ ?r\<rparr>)"
    using buf by (rule cbb_write_len_eq) simp_all
  have "cbb_flush_child mal (child_at L (Fixed n)) base =
      (fits (Fixed n) b, base\<lparr>cb_buf := L @ be_bytes n (length b) @ b @ ?r\<rparr>)"
    using w by (simp add: cbb_flush_child_def child_at_def s len Let_def)
  then show ?thesis
    using assms(1) buf len by (auto simp: buf_ok_def evolves_def written_def)
qed

lemma cbb_flush_child_asn1_short:
  assumes "buf_ok base" and "written base = L @ x # b" and "length b \<le> 0x7f"
  shows "\<exists>base'. cbb_flush_child mal (child_at L Asn1) base = (True, base') \<and> buf_ok base' \<and>
           evolves base base' \<and> cb_error base' = cb_error base \<and> written base' = L @ encode Asn1 b"
proof -
  obtain r where buf: "cb_buf base = L @ x # b @ r" using buf_split [OF assms(1)] assms(2) by simp
  have len: "cb_len base = Suc (length L + length b)" using written_length [OF assms(1)] assms(2) by simp
  have s: "size_add (length L) (Suc 0) = Suc (length L)"
    using len assms(1) size_add_small [of "length L" 1] by (auto simp: buf_ok_def)
  have "cbb_flush_child mal (child_at L Asn1) base =
      (True, base\<lparr>cb_buf := L @ of_nat (length b) # b @ r\<rparr>)"
    using assms(3) buf len
    by (simp add: cbb_flush_child_def child_at_def s Let_def asn1_len_len_eq cbb_write_len_def list_update_append)
  then show ?thesis
    using assms(1,3) buf len by (auto simp: buf_ok_def evolves_def written_def der_length_def)
qed

lemma cbb_flush_child_asn1_long:
  assumes "malloc_ok mal" and "buf_ok base" and "written base = L @ x # b" and "length b > 0x7f"
    and "length b \<le> 0xfffffffe"
  obtains
    (ok) base' where "cbb_flush_child mal (child_at L Asn1) base = (True, base')" and "buf_ok base'"
      and "evolves base base'" and "cb_error base' = cb_error base" and "written base' = L @ encode Asn1 b"
  | (err) base' where "cbb_flush_child mal (child_at L Asn1) base = (False, base')"
      and "\<not> ample mal base (length (L @ encode Asn1 b))"
proof -
  let ?k = "der_len_len (length b)"
  have k: "1 \<le> ?k" "?k \<le> 4" using der_len_len_bounds by auto
  have ks: "?k < SIZE_MOD" using k by (simp add: SIZE_MOD_def)
  have len: "cb_len base = Suc (length L + length b)" using written_length [OF assms(2)] assms(3) by simp
  have s: "size_add (length L) (Suc 0) = Suc (length L)"
    using len assms(2) size_add_small [of "length L" 1] by (auto simp: buf_ok_def)
  have total: "length (L @ encode Asn1 b) = cb_len base + ?k"
    using len assms(4) by (simp add: length_der_length)
  have red: "cbb_flush_child mal (child_at L Asn1) base =
      (case cbb_buffer_add mal base ?k of
         (None, b') \<Rightarrow> (False, b')
       | (Some _, b') \<Rightarrow>
           let b'' = b'\<lparr>cb_buf := OPENSSL_memmove (cb_buf b') (Suc (length L) + ?k) (Suc (length L)) (length b)\<rparr>
           in cbb_write_len (b''\<lparr>cb_buf := (cb_buf b'')[length L := of_nat (0x80 + ?k)]\<rparr>)
                (Suc (length L)) ?k (length b))"
    using assms(4,5) len k
    by (simp add: cbb_flush_child_def child_at_def s Let_def asn1_len_len_eq
        cong: option.case_cong prod.case_cong)
  from assms(1,2) ks show thesis
  proof (cases rule: cbb_buffer_add_cases)
    case (ok base')
    let ?r = "drop (cb_len base) (cb_buf base')"
    have buf: "cb_buf base' = L @ x # b @ ?r"
      using ok(6) assms(3) by (metis append_Cons append_assoc append_take_drop_id)
    have r: "?k \<le> length ?r" using ok(2,4) by (auto simp: buf_ok_def)
    let ?m = "L @ of_nat (0x80 + ?k) # take ?k (b @ ?r) @ b @ drop ?k ?r"
    let ?b'' = "base'\<lparr>cb_buf := ?m\<rparr>"
    have "cbb_flush_child mal (child_at L Asn1) base = cbb_write_len ?b'' (Suc (length L)) ?k (length b)"
      using move_contents [OF r, of L x b] buf by (simp add: red ok(1) Let_def list_update_append)
    also have "\<dots> = (length b < 256 ^ ?k, ?b''\<lparr>cb_buf := (L @ [of_nat (0x80 + ?k)]) @ be_bytes ?k (length b) @ b @ drop ?k ?r\<rparr>)"
      using r by (intro cbb_write_len_eq [where mid = "take ?k (b @ ?r)"]) simp_all
    also have "length b < 256 ^ ?k \<longleftrightarrow> True" using der_len_len_fits assms(5) by simp
    finally show thesis
      by (rule that(1)) (use ok buf r len assms(4) in
          \<open>auto simp: buf_ok_def evolves_def written_def encode_Asn1_long simp del: encode.simps of_nat_add\<close>)
  next
    case err
    then show thesis using total by (intro that(2)) (simp_all add: red)
  qed
qed


lemma cbb_flush_child_cases:
  assumes "malloc_ok mal" and "buf_ok base" and "\<not> cb_error base"
    and "written base = L @ replicate (plen p) 0 @ b"
  obtains
    (ok) base' where "cbb_flush_child mal (child_at L p) base = (True, base')" and "fits p b" and "buf_ok base'"
      and "evolves base base'" and "\<not> cb_error base'" and "written base' = L @ encode p b"
  | (err) base' where "cbb_flush_child mal (child_at L p) base = (False, base')"
      and "fits p b \<longrightarrow> \<not> ample mal base (length (L @ encode p b))"
proof (cases p)
  case (Fixed n)
  then show thesis
    using cbb_flush_child_fixed [of base L n b mal] assms that by (cases "fits p b") auto
next
  case Asn1
  with assms(4) have w: "written base = L @ 0 # b" by simp
  consider "length b \<le> 0x7f" | "0x7f < length b" "length b \<le> 0xfffffffe" | "length b > 0xfffffffe"
    by linarith
  then show thesis
  proof cases
    case 1
    then show thesis
      using cbb_flush_child_asn1_short [OF assms(2) w, of mal] assms(3) that(1) Asn1 by fastforce
  next
    case 2
    with assms(1,2) w show thesis
      by (cases rule: cbb_flush_child_asn1_long) (use assms(3) that Asn1 2 in auto)
  next
    case 3
    have len: "cb_len base = Suc (length L + length b)" using written_length [OF assms(2)] w by simp
    have s: "size_add (length L) (Suc 0) = Suc (length L)"
      using len assms(2) size_add_small [of "length L" 1] by (auto simp: buf_ok_def)
    show thesis
      using 3 len Asn1 by (intro that(2) [of base]) (simp_all add: cbb_flush_child_def child_at_def s Let_def)
  qed
qed

section \<open>Exact implementation\<close>

text \<open>
  \<open>realizes mal base r T\<close>: the result \<open>r\<close> of an operation started with buffer \<open>base\<close> implements the
  abstract result \<open>T\<close>.
\<close>

definition realizes :: "malloc_fn \<Rightarrow> cbb_buffer_st \<Rightarrow> bool \<times> cbb \<Rightarrow> builder option \<Rightarrow> bool" where
  "realizes mal base r T \<longleftrightarrow>
     (if fst r then (\<exists>B. T = Some B \<and> rep (snd r) B) \<and> evolves base (cbb_base (snd r))
      else cb_error (cbb_base (snd r)) \<and> (\<forall>B. T = Some B \<longrightarrow> \<not> ample mal base (length (layout B))))"

lemma realizes_ok:
  "rep cbb B \<Longrightarrow> evolves base (cbb_base cbb) \<Longrightarrow> realizes mal base (True, cbb) (Some B)"
  by (simp add: realizes_def)

lemma realizes_err:
  "cb_error (cbb_base cbb) \<Longrightarrow> (\<And>B. T = Some B \<Longrightarrow> \<not> ample mal base (length (layout B))) \<Longrightarrow>
   realizes mal base (False, cbb) T"
  by (simp add: realizes_def)

text \<open>Sequential composition, for continuations that only add to the buffer.\<close>

lemma realizes_and_then:
  assumes "realizes mal base r T"
    and "\<And>cbb B. rep cbb B \<Longrightarrow> T = Some B \<Longrightarrow> evolves base (cbb_base cbb) \<Longrightarrow> realizes mal (cbb_base cbb) (k cbb) (F B)"
    and "\<And>B B'. F B = Some B' \<Longrightarrow> T = Some B \<Longrightarrow> length (layout B) \<le> length (layout B')"
  shows "realizes mal base (and_then r k) (Option.bind T F)"
proof (cases "fst r")
  case True
  with assms(1) obtain B where B: "T = Some B" "rep (snd r) B" "evolves base (cbb_base (snd r))"
    by (auto simp: realizes_def)
  note R = assms(2) [OF B(2,1,3)]
  show ?thesis
  proof (cases "fst (k (snd r))")
    case True
    then show ?thesis
      using \<open>fst r\<close> R B evolves_trans [OF B(3)] by (auto simp: realizes_def and_then_def)
  next
    case False
    then show ?thesis
      using \<open>fst r\<close> R B ample_evolves [OF B(3)] by (auto simp: realizes_def and_then_def)
  qed
next
  case False
  then show ?thesis
    using assms(1,3) ample_mono by (fastforce simp: realizes_def and_then_def bind_eq_Some_conv)
qed

lemma realizes_or_on_error:
  "realizes mal base r T \<Longrightarrow> realizes mal base (or_on_error d r) T"
  by (auto simp: realizes_def or_on_error_def cbb_on_error_def cb_set_error_def)

lemma layout_close1: "close1 B = Some B' \<Longrightarrow> length (layout B) \<le> length (layout B')"
  by (cases B; cases "case B of Open _ p _ \<Rightarrow> p") (auto simp: length_der_length split: if_splits)

lemma layout_close_to: "close_to d B = Some B' \<Longrightarrow> length (layout B) \<le> length (layout B')"
proof (induction d B rule: close_to.induct)
  case (1 d B)
  then show ?case
    using layout_close1 [of B] by (auto simp: close_to.simps [of d B] split: if_splits option.splits)
qed

lemma chain_of_close_to: "close_to d B = Some B' \<Longrightarrow> take d (chain_of B) = chain_of B'"
proof (induction d B rule: close_to.induct)
  case (1 d B)
  show ?case
  proof (cases "depth B = d")
    case False
    with 1(2) obtain B1 where B1: "close1 B = Some B1" "close_to d B1 = Some B'" "\<not> depth B < d"
      by (auto simp: close_to.simps [of d B] split: if_splits option.splits)
    then have "take d (chain_of B1) = chain_of B'" using False 1(1) by blast
    moreover have "d \<le> depth B1" using close1_depth [OF B1(1)] B1(3) False by simp
    ultimately show ?thesis using take_chain_of [OF B1(1)] by (metis min.absorb1 take_take)
  qed (use 1 in \<open>auto simp: close_to.simps [of d B]\<close>)
qed

text \<open>Flushing closes the children below the flushed object, and nothing else.\<close>

lemma CBB_flush_realizes:
  assumes "malloc_ok mal" and "rep cbb B" and "d \<le> depth B"
  shows "realizes mal (cbb_base cbb) (CBB_flush mal d cbb) (close_to d B)"
  using assms
proof (induction mal d cbb rule: CBB_flush.induct)
  case (1 mal d cbb)
  have ch: "cbb_chain cbb = chain_of B" and ne: "\<not> cb_error (cbb_base cbb)"
    using 1(3) by (auto simp: rep_def)
  show ?case
  proof (cases "d = depth B")
    case True
    then show ?thesis
      using 1(3) ch ne by (auto simp: CBB_flush.simps [of mal "depth B" cbb] intro!: realizes_ok)
  next
    case False
    then have d: "d < depth B" using 1(4) by simp
    have IH: "realizes mal (cbb_base cbb) (CBB_flush mal (Suc d) cbb) (close_to (Suc d) B)"
      using 1 ch ne d by simp
    obtain f cbb' where f: "CBB_flush mal (Suc d) cbb = (f, cbb')" by fastforce
    note unf = CBB_flush.simps [of mal d cbb]
    show ?thesis
    proof (cases f)
      case False
      have "CBB_flush mal d cbb = (False, cbb_on_error d cbb')"
        using ch ne d f False by (simp add: unf)
      moreover have "\<not> ample mal (cbb_base cbb) (length (layout B'))" if "close_to d B = Some B'" for B'
        using that IH f False layout_close1 ample_mono
        by (fastforce simp: realizes_def close_to_Suc [OF d] bind_eq_Some_conv)
      ultimately show ?thesis by (auto intro!: realizes_err simp: cbb_on_error_def cb_set_error_def)
    next
      case True
      with IH f obtain B1 where B1: "close_to (Suc d) B = Some B1" "rep cbb' B1"
        and ev: "evolves (cbb_base cbb) (cbb_base cbb')" by (auto simp: realizes_def)
      then obtain B2 p b where B2: "B1 = Open B2 p b" "depth B2 = d"
        using close_to_depth [of "Suc d" B B1] by (cases B1) auto
      have c: "take (Suc d) (chain_of B) = chain_of B1" using chain_of_close_to [OF B1(1)] .
      then have "chain_of B ! d = chain_of B1 ! d" by (metis lessI nth_take)
      then have child: "cbb_chain cbb ! d = child_at (layout B2) p"
        using B2 ch by (simp add: nth_append child_at_def)
      have ch': "take d (cbb_chain cbb') = chain_of B2" using B1(2) B2 by (simp add: rep_def)
      have T: "close_to d B = close1 B1" using B1(1) by (simp add: close_to_Suc [OF d])
      have base': "buf_ok (cbb_base cbb')" "\<not> cb_error (cbb_base cbb')"
        "written (cbb_base cbb') = layout B2 @ replicate (plen p) 0 @ b"
        using B1(2) B2 by (auto simp: rep_def)
      from 1(2) base' show ?thesis
      proof (cases rule: cbb_flush_child_cases)
        case (ok base2)
        have "CBB_flush mal d cbb = (True, cbb'\<lparr>cbb_base := base2, cbb_chain := take d (cbb_chain cbb')\<rparr>)"
          using ch ne d f True child ok(1) by (simp add: unf)
        then show ?thesis
          using T B2 ok ch' evolves_trans [OF ev ok(4)] by (auto intro!: realizes_ok simp: rep_def)
      next
        case (err base2)
        have "CBB_flush mal d cbb = (False, cbb_on_error d (cbb'\<lparr>cbb_base := base2\<rparr>))"
          using ch ne d f True child err(1) by (simp add: unf)
        then show ?thesis
          using T B2 err(2) ample_evolves [OF ev]
          by (auto intro!: realizes_err simp: cbb_on_error_def cb_set_error_def split: if_splits)
      qed
    qed
  qed
qed


section \<open>The operations\<close>

abbreviation put_to :: "nat \<Rightarrow> builder \<Rightarrow> byte list \<Rightarrow> builder option" where
  "put_to d B e \<equiv> Option.bind (close_to d B) (\<lambda>B'. Some (put B' e))"

text \<open>Space for \<open>n\<close> bytes, then any \<open>n\<close> bytes written into it.\<close>

lemma CBB_add_space_realizes:
  assumes "malloc_ok mal" and "rep cbb B" and "d \<le> depth B" and "n < SIZE_MOD"
    and "\<And>base' out. buf_ok base' \<Longrightarrow> out + n \<le> cb_len base' \<Longrightarrow> fill base' out = base'\<lparr>cb_buf := mem_write (cb_buf base') out data\<rparr>"
    and "length data = n"
  shows "realizes mal (cbb_base cbb)
     (case CBB_add_space mal d cbb n of
        (None, cbb') \<Rightarrow> (False, cbb')
      | (Some out, cbb') \<Rightarrow> (True, cbb'\<lparr>cbb_base := fill (cbb_base cbb') out\<rparr>)) (put_to d B data)"
proof -
  note F = CBB_flush_realizes [OF assms(1-3)]
  let ?k = "\<lambda>cbb. case cbb_with_base cbb (cbb_buffer_add mal (cbb_base cbb) n) of
        (None, cbb') \<Rightarrow> (False, cbb')
      | (Some out, cbb') \<Rightarrow> (True, cbb'\<lparr>cbb_base := fill (cbb_base cbb') out\<rparr>)"
  have "realizes mal (cbb_base cbb) (and_then (CBB_flush mal d cbb) ?k) (put_to d B data)"
    using F
  proof (rule realizes_and_then)
    fix c B1 assume r: "rep c B1"
    then have ok: "buf_ok (cbb_base c)" by (simp add: rep_def)
    have len: "cb_len (cbb_base c) = length (layout B1)" using r written_length [OF ok] by (simp add: rep_def)
    from assms(1) ok assms(4) show "realizes mal (cbb_base c) (?k c) (Some (put B1 data))"
    proof (cases rule: cbb_buffer_add_cases)
      case (ok b')
      have f: "fill b' (cb_len (cbb_base c)) = b'\<lparr>cb_buf := mem_write (cb_buf b') (cb_len (cbb_base c)) data\<rparr>"
        using ok(2,4) by (intro assms(5)) simp_all
      show ?thesis
        using r ok f len assms(6)
        by (auto intro!: realizes_ok simp: cbb_with_base_def rep_def buf_ok_def evolves_def written_def mem_write_def)
    next
      case err
      then show ?thesis
        using len assms(6) by (auto intro!: realizes_err simp: cbb_with_base_def cb_set_error_def)
    qed
  qed auto
  then show ?thesis
    by (cases "CBB_flush mal d cbb"; cases "fst (CBB_flush mal d cbb)") (simp_all add: CBB_add_space_def)
qed

lemma CBB_add_bytes_realizes:
  assumes "malloc_ok mal" and "rep cbb B" and "d \<le> depth B" and "length data < SIZE_MOD"
  shows "realizes mal (cbb_base cbb) (CBB_add_bytes mal d cbb data) (put_to d B data)"
  using CBB_add_space_realizes [OF assms, of "\<lambda>b out. b\<lparr>cb_buf := mem_write (cb_buf b) out data\<rparr>" data]
  by (simp add: CBB_add_bytes_def cbb_poke_def cong: option.case_cong prod.case_cong)

lemma CBB_add_zeros_realizes:
  assumes "malloc_ok mal" and "rep cbb B" and "d \<le> depth B" and "n < SIZE_MOD"
  shows "realizes mal (cbb_base cbb) (CBB_add_zeros mal d cbb n) (put_to d B (replicate n 0))"
  using CBB_add_space_realizes [OF assms, of "\<lambda>b out. b\<lparr>cb_buf := mem_write (cb_buf b) out (replicate n 0)\<rparr>" "replicate n 0"]
  by (simp add: CBB_add_zeros_def cbb_poke_def cong: option.case_cong prod.case_cong)


lemma write_be_loop_mem_write:
  assumes "out + n \<le> length m"
  shows "write_be_loop m out n v = (mem_write m out (be_bytes n v), v div 256 ^ n)"
proof -
  have m: "m = take out m @ take n (drop out m) @ drop (out + n) m"
    by (metis add.commute append_take_drop_id drop_drop)
  have "write_be_loop (take out m @ take n (drop out m) @ drop (out + n) m) (length (take out m)) n v =
      (take out m @ be_bytes n v @ drop (out + n) m, v div 256 ^ n)"
    using assms by (intro write_be_loop_eq) simp
  then show ?thesis using m assms by (simp add: mem_write_def)
qed

lemma cbb_add_u_realizes:
  assumes "malloc_ok mal" and "rep cbb B" and "d \<le> depth B" and "n \<le> 8"
  shows "realizes mal (cbb_base cbb) (cbb_add_u mal d cbb v n)
           (if unat v < 256 ^ n then put_to d B (be_bytes n (unat v)) else None)"
proof -
  have n: "n < SIZE_MOD" using assms(4) by (simp add: SIZE_MOD_def)
  let ?fill = "\<lambda>b out. b\<lparr>cb_buf := fst (write_be_loop (cb_buf b) out n (unat v))\<rparr>"
  have R: "realizes mal (cbb_base cbb) (case CBB_add_space mal d cbb n of (None, cbb') \<Rightarrow> (False, cbb')
      | (Some out, cbb') \<Rightarrow> (True, cbb'\<lparr>cbb_base := ?fill (cbb_base cbb') out\<rparr>)) (put_to d B (be_bytes n (unat v)))"
  proof (rule CBB_add_space_realizes [OF assms(1-3) n])
    fix base' out assume "buf_ok base'" "out + n \<le> cb_len base'"
    then have "out + n \<le> length (cb_buf base')" by (simp add: buf_ok_def)
    then show "?fill base' out = base'\<lparr>cb_buf := mem_write (cb_buf base') out (be_bytes n (unat v))\<rparr>"
      by (simp add: write_be_loop_mem_write)
  qed simp
  have rest: "snd (write_be_loop m out n w) = w div 256 ^ n" for m out w
    by (induction m out n w rule: write_be_loop.induct) (simp_all add: div_mult2_eq)
  have small: "unat v < 256 ^ n \<longleftrightarrow> unat v div 256 ^ n = 0" by (simp add: div_eq_0_iff)
  obtain r c where rc: "CBB_add_space mal d cbb n = (r, c)" by fastforce
  show ?thesis
  proof (cases r)
    case None
    then show ?thesis using R rc by (auto simp: cbb_add_u_def realizes_def)
  next
    case (Some out)
    then show ?thesis
      using R rc rest [of "cb_buf (cbb_base c)" out "unat v"] small
      by (auto simp: cbb_add_u_def case_prod_beta Let_def realizes_def cbb_on_error_def cb_set_error_def)
  qed
qed

lemma CBB_add_u8_realizes:
  assumes "malloc_ok mal" and "rep cbb B" and "d \<le> depth B"
  shows "realizes mal (cbb_base cbb) (CBB_add_u8 mal d cbb v) (put_to d B [v])"
proof -
  have "unat (ucast v :: u64) = unat v" by (simp add: unat_ucast_up)
  then show ?thesis
    using cbb_add_u_realizes [OF assms, of 1 "ucast v"] unat_byte_less [of v] by (simp add: CBB_add_u8_def)
qed

lemma cbb_add_child_realizes:
  assumes "malloc_ok mal" and "rep cbb B" and "d = depth B" and "plen p < SIZE_MOD"
  shows "realizes mal (cbb_base cbb) (cbb_add_child mal d cbb (plen p) (p = Asn1)) (Some (Open B p []))"
proof -
  have ok: "buf_ok (cbb_base cbb)" using assms(2) by (simp add: rep_def)
  have len: "cb_len (cbb_base cbb) = length (layout B)"
    using assms(2) written_length [OF ok] by (simp add: rep_def)
  from assms(1) ok assms(4) show ?thesis
  proof (cases rule: cbb_buffer_add_cases)
    case (ok b')
    then show ?thesis
      using assms(2,3) len
      by (auto intro!: realizes_ok simp: cbb_add_child_def cbb_with_base_def cbb_poke_def rep_def buf_ok_def
          evolves_def written_def mem_write_def)
  next
    case err
    then show ?thesis
      using len by (auto intro!: realizes_err simp: cbb_add_child_def cbb_with_base_def cb_set_error_def)
  qed
qed

lemma cbb_add_length_prefixed_realizes:
  assumes "malloc_ok mal" and "rep cbb B" and "d \<le> depth B" and "n < SIZE_MOD"
  shows "realizes mal (cbb_base cbb) (cbb_add_length_prefixed mal d cbb n)
           (Option.bind (close_to d B) (\<lambda>B'. Some (Open B' (Fixed n) [])))"
  unfolding cbb_add_length_prefixed_def using CBB_flush_realizes [OF assms(1-3)]
proof (rule realizes_and_then)
  fix c B' assume "rep c B'" and "close_to d B = Some B'"
  then show "realizes mal (cbb_base c) (cbb_add_child mal d c n False) (Some (Open B' (Fixed n) []))"
    using cbb_add_child_realizes [OF assms(1), of c B' d "Fixed n"] assms(4) close_to_depth by simp
qed auto

subsection \<open>Base-128 integers and tags\<close>

text \<open>The digits \<open>i - 1, ..., 0\<close> of \<open>n\<close> in base 128, each with the continuation bit.\<close>

definition digits128 :: "nat \<Rightarrow> nat \<Rightarrow> byte list" where
  "digits128 n i = map (\<lambda>j. of_nat (128 + n div 128 ^ j mod 128)) (rev [0..<i])"

lemma digits128_0 [simp]: "digits128 n 0 = []"
  by (simp add: digits128_def)

lemma digits128_Suc: "digits128 n (Suc i) = of_nat (128 + n div 128 ^ i mod 128) # digits128 n i"
  by (simp add: digits128_def)

lemma digits128_snoc: "digits128 n (Suc i) = digits128 (n div 128) i @ [of_nat (128 + n mod 128)]"
  by (induction i) (simp_all add: digits128_Suc div_mult2_eq)

lemma base128_high_digits:
  "n < 128 ^ i \<Longrightarrow> i = 0 \<or> 128 ^ (i - 1) \<le> n \<Longrightarrow> base128_high n = digits128 n i"
proof (induction i arbitrary: n)
  case (Suc i)
  have "0 < n" using Suc.prems(2) by (auto intro: gr0I)
  moreover have "base128_high (n div 128) = digits128 (n div 128) i"
  proof (rule Suc.IH)
    show "n div 128 < 128 ^ i" using Suc.prems(1) by (simp add: div_less_iff_less_mult mult.commute)
    show "i = 0 \<or> 128 ^ (i - 1) \<le> n div 128"
      using Suc.prems(2) by (cases i) (auto simp: less_eq_div_iff_mult_less_eq mult.commute)
  qed
  ultimately show ?case by (subst base128_high.simps) (simp add: digits128_snoc)
qed simp

lemma base128_len_len_bounds:
  "unat v < 128 ^ base128_len_len v \<and> (v = 0 \<or> 128 ^ (base128_len_len v - 1) \<le> unat v) \<and>
   (base128_len_len v = 0 \<longleftrightarrow> v = 0)"
proof (induction v rule: base128_len_len.induct)
  case (1 v)
  show ?case
  proof (cases "v = 0")
    case False
    let ?w = "drop_bit 7 v" and ?k = "base128_len_len (drop_bit 7 v)"
    have k: "base128_len_len v = Suc ?k" using False by (subst base128_len_len.simps) (simp add: word_neq_0_conv)
    have w: "unat ?w = unat v div 128" by (simp add: unat_drop_bit)
    have IH: "unat ?w < 128 ^ ?k" "?w = 0 \<or> 128 ^ (?k - 1) \<le> unat ?w" "?k = 0 \<longleftrightarrow> ?w = 0"
      using 1 False by (auto simp: word_neq_0_conv)
    have "unat v < 128 ^ Suc ?k" using IH(1) by (simp add: w div_less_iff_less_mult mult.commute)
    moreover have "128 ^ ?k \<le> unat v"
    proof (cases "?w = 0")
      case True
      then have "?k = 0" using IH(3) by blast
      moreover have "unat v \<noteq> 0" using False by (simp only: unat_0_iff not_False_eq_True)
      ultimately show ?thesis by simp
    next
      case False
      then obtain j where "?k = Suc j" using IH(3) not0_implies_Suc by blast
      then show ?thesis using IH(2) False by (simp add: w less_eq_div_iff_mult_less_eq mult.commute)
    qed
    ultimately show ?thesis using False k by simp
  qed (simp add: base128_len_len.simps)
qed

lemma base128_byte:
  "(let b = ucast (drop_bit (7 * i) (v :: u64) AND 0x7f) :: byte in if i \<noteq> 0 then b OR 0x80 else b) =
   of_nat ((if i \<noteq> 0 then 128 else 0) + unat v div 128 ^ i mod 128)"
proof -
  have m: "(0x7f :: u64) = mask 7" by (simp add: mask_eq_exp_minus_1)
  have b: "unat (ucast (drop_bit (7 * i) v AND 0x7f) :: byte) = unat v div 128 ^ i mod 128" (is "unat ?b = _")
    by (simp add: unat_ucast_down m unat_and_mask unat_drop_bit power_mult)
  have "?b OR 0x80 = of_nat (128 + unat v div 128 ^ i mod 128)"
  proof (rule unat_eq_of_nat)
    have "unat (push_bit 7 1 OR ?b) = unat (1 :: byte) * 2 ^ 7 + unat ?b"
      by (rule unat_shift_or) (use b in simp_all)
    then show "unat (?b OR 0x80) = 128 + unat v div 128 ^ i mod 128" using b by (simp add: or.commute)
  qed
  moreover have "?b = of_nat (unat v div 128 ^ i mod 128)" using b by (rule unat_eq_of_nat)
  ultimately show ?thesis by (simp add: Let_def)
qed

lemma add_base128_loop_realizes:
  "malloc_ok mal \<Longrightarrow> rep cbb B \<Longrightarrow> depth B = d \<Longrightarrow>
   realizes mal (cbb_base cbb) (add_base128_loop mal d v (Suc i) cbb)
     (Some (put B (digits128 (unat v div 128) i @ [of_nat (unat v mod 128)])))"
proof (induction i arbitrary: cbb B)
  case 0
  let ?b = "of_nat (unat v mod 128) :: byte"
  have "and_then (CBB_add_u8 mal d cbb ?b) (add_base128_loop mal d v 0) = CBB_add_u8 mal d cbb ?b"
    by (cases "CBB_add_u8 mal d cbb ?b") (auto simp: and_then_def)
  then show ?case
    using CBB_add_u8_realizes [OF 0(1,2), of d ?b] base128_byte [of 0 v] close_to_same [of B] 0(3)
    by (auto simp: Let_def)
next
  case (Suc i)
  let ?b = "of_nat (128 + unat v div 128 ^ Suc i mod 128) :: byte"
  let ?ds = "digits128 (unat v div 128) i @ [of_nat (unat v mod 128)]"
  have "add_base128_loop mal d v (Suc (Suc i)) cbb =
      and_then (CBB_add_u8 mal d cbb ?b) (add_base128_loop mal d v (Suc i))"
    using base128_byte [of "Suc i" v] by (simp add: Let_def del: add_base128_loop.simps(2)) (simp add: Let_def)
  moreover have "realizes mal (cbb_base cbb) (and_then (CBB_add_u8 mal d cbb ?b) (add_base128_loop mal d v (Suc i)))
      (Option.bind (put_to d B [?b]) (\<lambda>B'. Some (put B' ?ds)))"
  proof (rule realizes_and_then)
    show "realizes mal (cbb_base cbb) (CBB_add_u8 mal d cbb ?b) (put_to d B [?b])"
      using Suc.prems by (intro CBB_add_u8_realizes) simp_all
    fix c B' assume "rep c B'" and "put_to d B [?b] = Some B'"
    moreover from this(2) have "depth B' = d" using Suc.prems(3) close_to_same [of B] by auto
    ultimately show "realizes mal (cbb_base c) (add_base128_loop mal d v (Suc i) c) (Some (put B' ?ds))"
      using Suc.prems(1) by (intro Suc.IH)
  qed auto
  ultimately show ?case
    using Suc.prems(3) close_to_same [of B] by (auto simp: digits128_Suc div_mult2_eq)
qed

lemma add_base128_integer_realizes:
  assumes "malloc_ok mal" and "rep cbb B" and "depth B = d"
  shows "realizes mal (cbb_base cbb) (add_base128_integer mal d cbb v) (Some (put B (base128 (unat v))))"
proof -
  let ?l = "base128_len_len v" and ?k = "base128_len_len v - 1"
  have b: "unat v < 128 ^ ?l" "v = 0 \<or> 128 ^ ?k \<le> unat v" "?l = 0 \<longleftrightarrow> v = 0"
    using base128_len_len_bounds [of v] by auto
  have hi: "base128_high (unat v div 128) = digits128 (unat v div 128) ?k"
  proof (cases "v = 0")
    case False
    then obtain j where j: "?l = Suc j" using b(3) not0_implies_Suc by blast
    show ?thesis
    proof (rule base128_high_digits)
      show "unat v div 128 < 128 ^ ?k" using b(1) j by (simp add: div_less_iff_less_mult mult.commute)
      show "?k = 0 \<or> 128 ^ (?k - 1) \<le> unat v div 128"
        using b(2) j False by (cases j) (auto simp: less_eq_div_iff_mult_less_eq mult.commute)
    qed
  qed (use b in simp)
  have "add_base128_integer mal d cbb v = add_base128_loop mal d v (Suc ?k) cbb"
    by (auto simp: add_base128_integer_def Let_def simp del: add_base128_loop.simps)
  then show ?thesis
    using add_base128_loop_realizes [OF assms, of v ?k] by (simp add: base128_def hi)
qed

lemma tag_bits_eq:
  "ucast (drop_bit CBS_ASN1_TAG_SHIFT (tag :: asn1_tag) AND 0xe0) = (ucast (drop_bit CBS_ASN1_TAG_SHIFT tag) AND 0xe0 :: byte)"
  by (simp add: bit_eq_iff bit_and_iff bit_unsigned_iff)

lemma CBB_add_asn1_realizes:
  assumes "malloc_ok mal" and "rep cbb B" and "d \<le> depth B"
  shows "realizes mal (cbb_base cbb) (CBB_add_asn1 mal d cbb tag)
           (Option.bind (close_to d B) (\<lambda>B'. Some (Open (put B' (tag_bytes tag)) Asn1 [])))"
proof -
  let ?bits = "ucast (drop_bit CBS_ASN1_TAG_SHIFT tag AND 0xe0) :: byte"
  let ?num = "tag AND CBS_ASN1_TAG_NUMBER_MASK"
  let ?ident = "\<lambda>c. if ?num \<ge> 0x1f
             then and_then (CBB_add_u8 mal d c (?bits OR 0x1f)) (\<lambda>c. add_base128_integer mal d c (ucast ?num))
             else CBB_add_u8 mal d c (?bits OR ucast ?num)"
  have up: "unat (ucast ?num :: u64) = unat ?num" by (simp add: unat_ucast_up)
  have put1: "realizes mal (cbb_base c) (CBB_add_u8 mal d c x) (Some (put B1 [x]))"
    if "rep c B1" "depth B1 = d" for c B1 x
    using CBB_add_u8_realizes [OF assms(1) that(1), of d x] that(2) close_to_same [of B1] by auto
  have ident: "realizes mal (cbb_base c) (?ident c) (Some (put B1 (tag_bytes tag)))"
    if c: "rep c B1" and d1: "depth B1 = d" for c B1
  proof (cases "?num \<ge> 0x1f")
    case True
    have "realizes mal (cbb_base c)
        (and_then (CBB_add_u8 mal d c (?bits OR 0x1f)) (\<lambda>c. add_base128_integer mal d c (ucast ?num)))
        (Option.bind (Some (put B1 [?bits OR 0x1f])) (\<lambda>B2. Some (put B2 (base128 (unat ?num)))))"
    proof (rule realizes_and_then [OF put1 [OF c d1]])
      fix c' B2 assume "rep c' B2" and "Some (put B1 [?bits OR 0x1f]) = Some B2"
      then show "realizes mal (cbb_base c') (add_base128_integer mal d c' (ucast ?num))
          (Some (put B2 (base128 (unat ?num))))"
        using add_base128_integer_realizes [OF assms(1), of c' B2 d "ucast ?num"] d1 up by fastforce
    qed auto
    then show ?thesis using True by (simp add: tag_bytes_def tag_bits_eq Let_def)
  next
    case False
    then show ?thesis using put1 [OF c d1] by (simp add: tag_bytes_def tag_bits_eq Let_def)
  qed
  have rest: "realizes mal (cbb_base c) (and_then (?ident c) (\<lambda>c. cbb_add_child mal d c 1 True))
      (Option.bind (Some (put B1 (tag_bytes tag))) (\<lambda>B2. Some (Open B2 Asn1 [])))"
    if c: "rep c B1" and d1: "depth B1 = d" for c B1
  proof (rule realizes_and_then [OF ident [OF c d1]])
    fix c' B2 assume "rep c' B2" and "Some (put B1 (tag_bytes tag)) = Some B2"
    then show "realizes mal (cbb_base c') (cbb_add_child mal d c' 1 True) (Some (Open B2 Asn1 []))"
      using cbb_add_child_realizes [OF assms(1), of c' B2 d Asn1] d1 by (fastforce simp: SIZE_MOD_def)
  qed auto
  show ?thesis
    unfolding CBB_add_asn1_def Let_def using CBB_flush_realizes [OF assms]
    by (rule realizes_and_then) (use rest close_to_depth in auto)
qed


subsection \<open>ASN.1 values\<close>

text \<open>A writer that opens an element, lets \<open>body\<close> fill it in and closes it.\<close>

lemma asn1_value_realizes:
  assumes "malloc_ok mal" and "rep cbb B" and "d \<le> depth B"
    and body: "\<And>c B'. rep c B' \<Longrightarrow> depth B' = Suc d \<Longrightarrow> realizes mal (cbb_base c) (body c) (Some (put B' data))"
  shows "realizes mal (cbb_base cbb)
     (and_then (or_on_error d (and_then (CBB_add_asn1 mal d cbb tag) body)) (CBB_flush mal d))
     (if length data \<le> 0xfffffffe then put_to d B (der_element (data, tag)) else None)"
proof -
  let ?T = "Option.bind (close_to d B) (\<lambda>B'. Some (Open (put B' (tag_bytes tag)) Asn1 []))"
  have dT: "depth B1 = Suc d" if "?T = Some B1" for B1
    using that close_to_depth by (auto simp: bind_eq_Some_conv)
  have "realizes mal (cbb_base cbb) (and_then (CBB_add_asn1 mal d cbb tag) body)
      (Option.bind ?T (\<lambda>B'. Some (put B' data)))"
    by (rule realizes_and_then [OF CBB_add_asn1_realizes [OF assms(1-3)]]) (use body dT in auto)
  then have "realizes mal (cbb_base cbb)
     (and_then (or_on_error d (and_then (CBB_add_asn1 mal d cbb tag) body)) (CBB_flush mal d))
     (Option.bind (Option.bind ?T (\<lambda>B'. Some (put B' data))) (close_to d))"
    by (intro realizes_and_then [OF realizes_or_on_error])
      (use CBB_flush_realizes [OF assms(1)] dT layout_close_to in \<open>auto simp: bind_eq_Some_conv\<close>)
  moreover have "Option.bind (Option.bind ?T (\<lambda>B'. Some (put B' data))) (close_to d) =
     (if length data \<le> 0xfffffffe then put_to d B (der_element (data, tag)) else None)"
  proof (cases "close_to d B")
    case (Some B')
    then have "depth B' = d" by (rule close_to_depth)
    then show ?thesis
      using close_to_same [of "put B' (tag_bytes tag @ der_length (length data) @ data)"] Some
      by (simp add: close_to.simps [of d "Open _ _ _"] der_element_def der_header_def)
  qed simp
  ultimately show ?thesis by simp
qed

text \<open>The writers whose \<open>CBB_flush\<close> is inside the checked condition.\<close>

lemma or_on_error_flush:
  assumes "realizes mal base (and_then (or_on_error d r) (CBB_flush mal d)) T"
  shows "realizes mal base (or_on_error d (and_then r (CBB_flush mal d))) T"
proof (cases "fst r")
  case True
  then have "or_on_error d r = r" by (simp add: or_on_error_def)
  then show ?thesis using assms realizes_or_on_error by metis
next
  case False
  then have "and_then (or_on_error d r) (CBB_flush mal d) = or_on_error d r"
    and "and_then r (CBB_flush mal d) = r" by (simp_all add: and_then_def or_on_error_def)
  then show ?thesis using assms by metis
qed

lemma and_then_assoc: "and_then (and_then r f) g = and_then r (\<lambda>s. and_then (f s) g)"
  by (simp add: and_then_def)

lemma put_to_same: "depth B = d \<Longrightarrow> put_to d B e = Some (put B e)"
  using close_to_same [of B] by auto

lemma CBB_add_asn1_octet_string_realizes:
  assumes "malloc_ok mal" and "rep cbb B" and "d \<le> depth B" and "length data < SIZE_MOD"
  shows "realizes mal (cbb_base cbb) (CBB_add_asn1_octet_string mal d cbb data)
     (if length data \<le> 0xfffffffe then put_to d B (der_element (data, CBS_ASN1_OCTETSTRING)) else None)"
proof -
  have "realizes mal (cbb_base c) (CBB_add_bytes mal (Suc d) c data) (Some (put B' data))"
    if "rep c B'" "depth B' = Suc d" for c B'
    using CBB_add_bytes_realizes [OF assms(1) that(1), of "Suc d" data] that(2) assms(4) by (simp add: put_to_same)
  from or_on_error_flush [OF asn1_value_realizes [OF assms(1-3) this]] show ?thesis
    by (simp add: CBB_add_asn1_octet_string_def and_then_assoc)
qed

lemma CBB_add_asn1_bool_realizes:
  assumes "malloc_ok mal" and "rep cbb B" and "d \<le> depth B"
  shows "realizes mal (cbb_base cbb) (CBB_add_asn1_bool mal d cbb value)
     (put_to d B (der_element ([if value \<noteq> 0 then 0xff else 0], CBS_ASN1_BOOLEAN)))"
proof -
  have "realizes mal (cbb_base c) (CBB_add_u8 mal (Suc d) c x) (Some (put B' [x]))"
    if "rep c B'" "depth B' = Suc d" for c B' x
    using CBB_add_u8_realizes [OF assms(1) that(1), of "Suc d" x] that(2) by (simp add: put_to_same)
  from or_on_error_flush [OF asn1_value_realizes [OF assms this]] show ?thesis
    by (simp add: CBB_add_asn1_bool_def and_then_assoc)
qed

text \<open>The bytes the loop of \<open>CBB_add_asn1_uint64_with_tag\<close> writes.\<close>

fun uint64_bytes :: "nat \<Rightarrow> nat \<Rightarrow> bool \<Rightarrow> byte list" where
  "uint64_bytes v 0 started = []"
| "uint64_bytes v (Suc n) started =
     (let b = of_nat (v div 256 ^ n) :: byte
      in if \<not> started \<and> b = 0 then uint64_bytes v n started
         else (if \<not> started \<and> unat b \<ge> 128 then [0] else []) @ b # uint64_bytes v n True)"

lemma uint64_byte: "ucast (drop_bit (8 * n) (v :: u64) AND 0xff) = (of_nat (unat v div 256 ^ n) :: byte)"
proof (rule unat_eq_of_nat [THEN trans])
  have m: "(0xff :: u64) = mask 8" by (simp add: mask_eq_exp_minus_1)
  show "unat (ucast (drop_bit (8 * n) v AND 0xff) :: byte) = unat v div 256 ^ n mod 256"
    by (simp add: unat_ucast_down m unat_and_mask unat_drop_bit power_mult)
  show "of_nat (unat v div 256 ^ n mod 256) = (of_nat (unat v div 256 ^ n) :: byte)"
    by (rule word_unat_eq_iff [THEN iffD2]) (simp add: unat_of_nat)
qed

lemma be_bytes_Cons: "be_bytes (Suc n) v = of_nat (v div 256 ^ n) # be_bytes n v"
proof (induction n arbitrary: v)
  case (Suc n)
  then have "be_bytes (Suc n) (v div 256) = of_nat (v div 256 div 256 ^ n) # be_bytes n (v div 256)" .
  then show ?case by (simp add: div_mult2_eq)
qed simp

lemma uint64_bytes_started: "uint64_bytes v n True = be_bytes n v"
  by (induction n) (simp_all add: be_bytes_Cons del: be_bytes.simps(2))

lemma be_bytes_cong: "v mod 256 ^ n = w mod 256 ^ n \<Longrightarrow> be_bytes n v = be_bytes n w"
  by (intro be_nat_inject) (simp_all add: be_nat_be_bytes)

lemma uint64_bytes_unstarted:
  "uint64_bytes v n False = (if v mod 256 ^ n = 0 then [] else der_uint (v mod 256 ^ n))"
proof (induction n)
  case (Suc n)
  let ?b = "of_nat (v div 256 ^ n) :: byte" and ?w = "v mod 256 ^ Suc n"
  have ub: "unat ?b = v div 256 ^ n mod 256" by (simp add: unat_of_nat)
  have w: "?w = v div 256 ^ n mod 256 * 256 ^ n + v mod 256 ^ n"
    using mod_mult2_eq [of v "256 ^ n" 256] by (simp add: mult.commute)
  have b0: "?b = 0 \<longleftrightarrow> v div 256 ^ n mod 256 = 0"
    using ub by (metis unat_0 unat_0_iff)
  show ?case
  proof (cases "?b = 0")
    case True
    then show ?thesis using Suc.IH b0 w by simp
  next
    case False
    then have t: "1 \<le> v div 256 ^ n mod 256" using b0 by simp
    have lo: "256 ^ n \<le> ?w" using t unfolding w by (metis le_add1 mult_1 mult_le_mono1 order_trans)
    have hi: "?w < 256 ^ Suc n" by simp
    have "?w div 256 ^ n = v div 256 ^ n mod 256" unfolding w by simp
    then have "(of_nat (?w div 256 ^ n) :: byte) = ?b"
      by (intro word_unat_eq_iff [THEN iffD2]) (simp add: unat_of_nat)
    moreover have "be_bytes n ?w = be_bytes n v" by (rule be_bytes_cong) (simp add: mod_mod_cancel)
    ultimately have mb: "min_be ?w = ?b # be_bytes n v"
      using min_be_eq [OF lo hi] by (simp add: be_bytes_Cons del: be_bytes.simps(2))
    have "?w \<noteq> 0" using lo by (intro notI) simp
    moreover have "uint64_bytes v (Suc n) False = (if unat ?b \<ge> 128 then [0] else []) @ ?b # be_bytes n v"
      using False by (simp only: uint64_bytes.simps uint64_bytes_started Let_def) simp
    ultimately show ?thesis by (simp only: der_uint_def mb Let_def) simp
  qed
qed simp

lemma u8_realizes:
  "malloc_ok mal \<Longrightarrow> rep c B \<Longrightarrow> depth B = d \<Longrightarrow>
     realizes mal (cbb_base c) (CBB_add_u8 mal d c x) (Some (put B [x]))"
  using CBB_add_u8_realizes [of mal c B d x] by (simp add: put_to_same)

text \<open>One byte written, then a continuation that writes \<open>rest\<close>.\<close>

lemma u8_then_realizes:
  assumes "malloc_ok mal" and "rep c B" and "depth B = d"
    and "\<And>c' B'. rep c' B' \<Longrightarrow> depth B' = d \<Longrightarrow> realizes mal (cbb_base c') (k c') (Some (put B' rest))"
  shows "realizes mal (cbb_base c) (and_then (CBB_add_u8 mal d c x) k) (Some (put B (x # rest)))"
proof -
  have "realizes mal (cbb_base c) (and_then (CBB_add_u8 mal d c x) k)
      (Option.bind (Some (put B [x])) (\<lambda>B'. Some (put B' rest)))"
    using u8_realizes [OF assms(1-3)] by (rule realizes_and_then) (use assms(3,4) in force)+
  then show ?thesis by simp
qed

definition write_result :: "bool \<times> bool \<times> cbb \<Rightarrow> bool \<times> cbb" where
  "write_result r = (fst r, snd (snd r))"

lemma asn1_uint64_write_step:
  "\<not> (\<not> started \<and> of_nat (unat v div 256 ^ n) = (0 :: byte)) \<Longrightarrow>
   write_result (asn1_uint64_write mal d v (Suc n) started c) =
     (let b = of_nat (unat v div 256 ^ n);
          k = \<lambda>c. and_then (CBB_add_u8 mal d c b) (\<lambda>c. write_result (asn1_uint64_write mal d v n True c))
      in if \<not> started \<and> unat b \<ge> 128 then and_then (CBB_add_u8 mal d c 0) k else k c)"
  by (auto simp: write_result_def uint64_byte Let_def and_then_def byte_and_80 not_less not_le
      split: prod.splits bool.splits)

lemma asn1_uint64_write_realizes:
  "malloc_ok mal \<Longrightarrow> rep c B \<Longrightarrow> depth B = d \<Longrightarrow>
   realizes mal (cbb_base c) (write_result (asn1_uint64_write mal d v n started c))
     (Some (put B (uint64_bytes (unat v) n started)))"
proof (induction n arbitrary: c B started)
  case 0
  then show ?case by (simp add: write_result_def realizes_ok)
next
  case (Suc n)
  let ?b = "of_nat (unat v div 256 ^ n) :: byte"
  show ?case
  proof (cases "\<not> started \<and> ?b = 0")
    case True
    then show ?thesis using Suc by (simp add: uint64_byte)
  next
    case False
    let ?k = "\<lambda>c. and_then (CBB_add_u8 mal d c ?b) (\<lambda>c. write_result (asn1_uint64_write mal d v n True c))"
    have k: "realizes mal (cbb_base c') (?k c') (Some (put B' (?b # uint64_bytes (unat v) n True)))"
      if "rep c' B'" "depth B' = d" for c' B'
      using that Suc.prems(1) Suc.IH by (intro u8_then_realizes)
    have k0: "realizes mal (cbb_base c) (and_then (CBB_add_u8 mal d c 0) ?k)
        (Some (put B (0 # ?b # uint64_bytes (unat v) n True)))"
      by (rule u8_then_realizes [OF Suc.prems]) (rule k)
    show ?thesis
      using False k [OF Suc.prems(2,3)] k0
      by (subst asn1_uint64_write_step [OF False]) (auto simp: Let_def)
  qed
qed

lemma asn1_uint64_write_started:
  "fst (asn1_uint64_write mal d v n started c) \<Longrightarrow>
   fst (snd (asn1_uint64_write mal d v n started c)) \<longleftrightarrow> started \<or> uint64_bytes (unat v) n started \<noteq> []"
proof (induction n arbitrary: c started)
  case (Suc n)
  show ?case
  proof (cases "\<not> started \<and> of_nat (unat v div 256 ^ n) = (0 :: byte)")
    case True
    then show ?thesis using Suc by (simp add: uint64_byte)
  next
    case False
    then show ?thesis
      using Suc by (auto simp: uint64_byte Let_def split: prod.splits bool.splits if_splits)
  qed
qed simp

lemma CBB_add_asn1_uint64_with_tag_realizes:
  assumes "malloc_ok mal" and "rep cbb B" and "d \<le> depth B"
  shows "realizes mal (cbb_base cbb) (CBB_add_asn1_uint64_with_tag mal d cbb v tag)
           (put_to d B (der_element (der_uint (unat v), tag)))"
proof -
  let ?body = "\<lambda>cbb. case asn1_uint64_write mal (Suc d) v 8 False cbb of
      (False, _, cbb) \<Rightarrow> (False, cbb)
    | (True, started, cbb) \<Rightarrow> if \<not> started then CBB_add_u8 mal (Suc d) cbb 0 else (True, cbb)"
  let ?w = "uint64_bytes (unat v) 8 False"
  have w: "?w = (if v = 0 then [] else der_uint (unat v))"
    using unat_u64_less [of v] by (simp add: uint64_bytes_unstarted unat_0_iff)
  have body: "realizes mal (cbb_base c) (?body c) (Some (put B' (der_uint (unat v))))"
    if c: "rep c B'" and d': "depth B' = Suc d" for c B'
  proof -
    note R = asn1_uint64_write_realizes [OF assms(1) c d', of v 8 False]
    have st: "?body c = and_then (write_result (asn1_uint64_write mal (Suc d) v 8 False c))
        (\<lambda>c. if ?w = [] then CBB_add_u8 mal (Suc d) c 0 else (True, c))"
      using asn1_uint64_write_started [of mal "Suc d" v 8 False c]
      by (auto simp: write_result_def and_then_def split: prod.splits bool.splits)
    have "realizes mal (cbb_base c) (?body c)
        (Option.bind (Some (put B' ?w)) (\<lambda>B2. Some (put B2 (if ?w = [] then [0] else []))))"
      unfolding st using R
      by (rule realizes_and_then) (use u8_realizes [OF assms(1), of _ _ "Suc d" 0] d' in \<open>auto intro: realizes_ok\<close>)
    moreover have "?w @ (if ?w = [] then [0] else []) = der_uint (unat v)"
      by (simp only: w) (auto simp: der_uint_def Let_def)
    ultimately show ?thesis by (simp only: Option.bind.simps put_put)
  qed
  have "length (der_uint (unat v)) \<le> 0xfffffffe"
    using length_der_uint [of "unat v" 8] unat_u64_less [of v] by simp
  then show ?thesis
    using asn1_value_realizes [OF assms body, where tag = tag]
    by (simp add: CBB_add_asn1_uint64_with_tag_def)
qed


lemma add_bytes_down_realizes:
  "malloc_ok mal \<Longrightarrow> rep c B \<Longrightarrow> depth B = d \<Longrightarrow> i < length bs \<Longrightarrow>
   realizes mal (cbb_base c) (add_bytes_down mal d bs i c) (Some (put B (rev (take (Suc i) bs))))"
proof (induction i arbitrary: c B)
  case 0
  then show ?case using u8_realizes [OF 0(1-3), of "bs ! 0"] by (simp add: take_Suc_conv_app_nth)
next
  case (Suc i)
  have "realizes mal (cbb_base c) (and_then (CBB_add_u8 mal d c (bs ! Suc i)) (add_bytes_down mal d bs i))
      (Some (put B (bs ! Suc i # rev (take (Suc i) bs))))"
    by (rule u8_then_realizes [OF Suc.prems(1-3)]) (use Suc in auto)
  then show ?case using Suc.prems(4) by (simp add: take_Suc_conv_app_nth [of "Suc i" bs])
qed

text \<open>The start index of \<open>CBB_add_asn1_int64_with_tag\<close> on the reversed bytes.\<close>

lemma int64_start_le: "int64_start bs i \<le> i"
  by (induction bs i rule: int64_start.induct) auto

lemma int64_start_strip:
  "i < length bs \<Longrightarrow> rev (take (Suc (int64_start bs i)) bs) = strip_ff (rev (take (Suc i) bs))"
proof (induction bs i rule: int64_start.induct)
  case (1 bs)
  then show ?case by (cases bs) auto
next
  case (2 bs i)
  have "rev (take (Suc (Suc i)) bs) = bs ! Suc i # bs ! i # rev (take i bs)"
    using 2(2) by (simp add: take_Suc_conv_app_nth)
  then show ?case using 2 by (simp add: byte_and_80 not_less take_Suc_conv_app_nth)
qed

lemma CBB_add_asn1_int64_with_tag_realizes:
  assumes "malloc_ok mal" and "rep cbb B" and "d \<le> depth B"
  shows "realizes mal (cbb_base cbb) (CBB_add_asn1_int64_with_tag mal d cbb v tag)
           (put_to d B (der_element (der_int64 v, tag)))"
proof (cases "sint v < 0")
  case False
  then show ?thesis
    using CBB_add_asn1_uint64_with_tag_realizes [OF assms, of v tag]
    by (simp add: CBB_add_asn1_int64_with_tag_def der_int64_def)
next
  case True
  let ?bs = "rev (be_bytes 8 (unat v))"
  let ?s = "int64_start ?bs 7"
  have s: "?s < length ?bs" using int64_start_le [of ?bs 7] by simp
  have d: "rev (take (Suc ?s) ?bs) = der_int64 v"
    using int64_start_strip [of 7 ?bs] True by (simp add: der_int64_def)
  have body: "realizes mal (cbb_base c) (add_bytes_down mal (Suc d) ?bs ?s c) (Some (put B' (der_int64 v)))"
    if "rep c B'" "depth B' = Suc d" for c B'
    using add_bytes_down_realizes [OF assms(1) that s] d by simp
  have "length (der_int64 v) \<le> 0xfffffffe" using length_der_int64 [of v] by simp
  then show ?thesis
    using asn1_value_realizes [OF assms body, where tag = tag] True
    by (simp add: CBB_add_asn1_int64_with_tag_def Let_def)
qed

section \<open>The whole life of a builder\<close>

lemma rep_init_fixed: "length buf < SIZE_MOD \<Longrightarrow> rep (CBB_init_fixed buf (length buf)) (Root [])"
  by (simp add: CBB_init_fixed_def cbb_init_def rep_def buf_ok_def written_def)

lemma rep_init:
  assumes "malloc_ok mal" and "CBB_init mal n = Some cbb" and "n < SIZE_MOD"
  shows "rep cbb (Root [])"
proof (cases "OPENSSL_malloc mal n")
  case None
  then show ?thesis
    using assms(2) by (auto simp: CBB_init_def cbb_init_def rep_def buf_ok_def written_def SIZE_MOD_def split: if_splits)
next
  case (Some blk)
  from OPENSSL_malloc_Some [OF assms(1) Some assms(3)] obtain fresh
    where "blk = ossl_block fresh" "length fresh = n" by blast
  then show ?thesis
    using assms(2,3) Some by (auto simp: CBB_init_def cbb_init_def rep_def buf_ok_def written_def)
qed

text \<open>
  \<open>CBB_cleanup\<close> frees the buffer of a growable builder, and nothing once \<open>CBB_finish\<close> has handed it over or if
  it belongs to the caller.
\<close>

lemma CBB_finish_hands_over:
  "CBB_finish mal d want cbb = (Some r, cbb') \<Longrightarrow> cb_null (cbb_base cbb') \<and> CBB_cleanup cbb' = None"
  by (auto simp: CBB_finish_def CBB_cleanup_def cb_ptr_def OPENSSL_free_def split: prod.splits bool.splits if_splits)

lemma CBB_cleanup_frees:
  assumes "length (cb_buf (cbb_base cbb)) < SIZE_MOD - 8"
  shows "CBB_cleanup cbb =
    (if cb_can_resize (cbb_base cbb) \<and> \<not> cb_null (cbb_base cbb)
     then Some (replicate (8 + length (cb_buf (cbb_base cbb))) 0) else None)"
  using OPENSSL_free_block [of "cb_buf (cbb_base cbb)"] assms
  by (simp add: CBB_cleanup_def cb_ptr_def OPENSSL_free_def)

lemma CBB_finish_correct:
  assumes "malloc_ok mal" and "rep cbb B" and "CBB_finish mal 0 want cbb = (Some (out, n), cbb')"
  shows "close_to 0 B = Some (Root (take n out)) \<and> n \<le> length out"
proof -
  obtain c where f: "CBB_flush mal 0 cbb = (True, c)"
    and o: "out = cb_buf (cbb_base c)" "n = cb_len (cbb_base c)"
    using assms(3) by (auto simp: CBB_finish_def split: prod.splits bool.splits if_splits)
  from CBB_flush_realizes [OF assms(1,2), of 0] f obtain B'
    where B': "close_to 0 B = Some B'" "rep c B'" by (auto simp: realizes_def)
  then obtain r where "B' = Root r" using close_to_depth by (cases B') force+
  then show ?thesis using B' o by (auto simp: rep_def written_def buf_ok_def)
qed

end
