(* ===== verification/Cbb_Props.thy ===== *)
theory Cbb_Props
  imports Cbb_Spec
begin

text \<open>
  The properties of the writer. The locale \<open>cbb_codec\<close> is the interface between a writer of
  \<open>cbb.c\<close> and the reader of \<open>cbs.c\<close> for the same values: what it promises of the writer is the
  exact implementation of \<open>Cbb_Spec\<close>, what it promises of the reader is the \<open>decoder\<close> law. Its
  lemmas say that a sequence of values written into a buffer that is large enough is read back.
\<close>

section \<open>Writers and readers\<close>

text \<open>Writing values one after the other at the root of a builder.\<close>

fun write_all :: "(malloc_fn \<Rightarrow> 'v \<Rightarrow> nat \<Rightarrow> cbb \<Rightarrow> bool \<times> cbb) \<Rightarrow> malloc_fn \<Rightarrow> 'v list \<Rightarrow> cbb \<Rightarrow> bool \<times> cbb" where
  "write_all w mal [] cbb = (True, cbb)"
| "write_all w mal (v # vs) cbb = and_then (w mal v 0 cbb) (write_all w mal vs)"

locale cbb_codec = decoder enc dec valid
  for enc :: "'v \<Rightarrow> byte list" and dec :: "byte list \<Rightarrow> 'v option \<times> byte list" and valid :: "'v \<Rightarrow> bool" +
  fixes w :: "malloc_fn \<Rightarrow> 'v \<Rightarrow> nat \<Rightarrow> cbb \<Rightarrow> bool \<times> cbb"
  assumes w_realizes:
    "malloc_ok mal \<Longrightarrow> rep cbb B \<Longrightarrow> d \<le> depth B \<Longrightarrow> valid v \<Longrightarrow>
     realizes mal (cbb_base cbb) (w mal v d cbb) (put_to d B (enc v))"
begin

lemma write_all_realizes:
  assumes "malloc_ok mal" and "rep cbb (Root r)" and "\<forall>v\<in>set vs. valid v"
  shows "realizes mal (cbb_base cbb) (write_all w mal vs cbb) (Some (Root (r @ concat (map enc vs))))"
  using assms(2,3)
proof (induction vs arbitrary: cbb r)
  case Nil
  then show ?case by (simp add: realizes_ok)
next
  case (Cons v vs)
  have "realizes mal (cbb_base cbb) (and_then (w mal v 0 cbb) (write_all w mal vs))
      (Option.bind (Some (Root (r @ enc v))) (\<lambda>_. Some (Root ((r @ enc v) @ concat (map enc vs)))))"
  proof (rule realizes_and_then)
    show "realizes mal (cbb_base cbb) (w mal v 0 cbb) (Some (Root (r @ enc v)))"
      using w_realizes [OF assms(1) Cons.prems(1), of 0 v] Cons.prems(2) put_to_same [of "Root r" 0 "enc v"] by simp
    fix c B assume "rep c B" and "Some (Root (r @ enc v)) = Some B"
    then show "realizes mal (cbb_base c) (write_all w mal vs c) (Some (Root ((r @ enc v) @ concat (map enc vs))))"
      using Cons.IH [of c "r @ enc v"] Cons.prems(2) by simp
  qed auto
  then show ?case by simp
qed

lemma write_all_fixed:
  assumes "malloc_ok mal" and "\<forall>v\<in>set vs. valid v" and "length buf < SIZE_MOD"
    and "length (concat (map enc vs)) \<le> length buf"
  shows "\<exists>cbb. write_all w mal vs (CBB_init_fixed buf (length buf)) = (True, cbb) \<and>
           rep cbb (Root (concat (map enc vs)))"
proof -
  let ?c = "CBB_init_fixed buf (length buf)"
  have R: "realizes mal (cbb_base ?c) (write_all w mal vs ?c) (Some (Root ([] @ concat (map enc vs))))"
    by (rule write_all_realizes [OF assms(1) rep_init_fixed [OF assms(3)] assms(2)])
  have "ample mal (cbb_base ?c) (length (concat (map enc vs)))"
    using assms(4) by (simp add: ample_def CBB_init_fixed_def cbb_init_def)
  then show ?thesis using R by (cases "write_all w mal vs ?c") (auto simp: realizes_def split: if_splits)
qed

lemma write_read:
  assumes "malloc_ok mal" and "\<forall>v\<in>set vs. valid v" and "length buf < SIZE_MOD"
    and "length (concat (map enc vs)) \<le> length buf"
  shows "\<exists>cbb out n cbb'. write_all w mal vs (CBB_init_fixed buf (length buf)) = (True, cbb) \<and>
           CBB_finish mal 0 True cbb = (Some (out, n), cbb') \<and>
           n = length (concat (map enc vs)) \<and> decode_n dec (length vs) (take n out) = (Some vs, [])"
proof -
  obtain cbb where c: "write_all w mal vs (CBB_init_fixed buf (length buf)) = (True, cbb)"
    and r: "rep cbb (Root (concat (map enc vs)))" using write_all_fixed [OF assms] by blast
  have "CBB_flush mal 0 cbb = (True, cbb)" using r by (subst CBB_flush.simps) (simp add: rep_def)
  then have f: "CBB_finish mal 0 True cbb =
      (Some (cb_buf (cbb_base cbb), cb_len (cbb_base cbb)), cbb\<lparr>cbb_base := (cbb_base cbb)\<lparr>cb_buf := [], cb_null := True\<rparr>\<rparr>)"
    by (simp add: CBB_finish_def)
  have t: "take (cb_len (cbb_base cbb)) (cb_buf (cbb_base cbb)) = concat (map enc vs)"
    using r by (simp add: rep_def written_def)
  have n: "cb_len (cbb_base cbb) = length (concat (map enc vs))"
    using r written_length by (fastforce simp: rep_def)
  show ?thesis using c f t n decode_n_enc [OF assms(2), of "[]"] by auto
qed

end

lemma narrow_writer:
  fixes v :: "'a::len word"
  assumes "malloc_ok mal" and "rep cbb B" and "d \<le> depth B" and "n \<le> 8" and "LENGTH('a) \<le> 64"
    and "unat v < 256 ^ n"
  shows "realizes mal (cbb_base cbb) (cbb_add_u mal d cbb (ucast v) n) (put_to d B (be_bytes n (unat v)))"
proof -
  have "unat (ucast v :: u64) = unat v" using assms(5) by (simp add: unat_ucast_up)
  then show ?thesis using cbb_add_u_realizes [OF assms(1-4), of "ucast v"] assms(6) by simp
qed

interpretation u16_rw: cbb_codec "\<lambda>v. be_bytes 2 (unat v)" CBS_get_u16 "\<lambda>v. unat v < 256 ^ 2"
  "\<lambda>mal v d cbb. CBB_add_u16 mal d cbb v"
  by unfold_locales (auto simp: CBB_add_u16_def intro!: narrow_writer)

interpretation u24_rw: cbb_codec "\<lambda>v. be_bytes 3 (unat v)" CBS_get_u24 "\<lambda>v. unat v < 256 ^ 3"
  "\<lambda>mal v d cbb. CBB_add_u24 mal d cbb v"
  by unfold_locales (auto simp: CBB_add_u24_def intro!: narrow_writer)

interpretation u32_rw: cbb_codec "\<lambda>v. be_bytes 4 (unat v)" CBS_get_u32 "\<lambda>v. unat v < 256 ^ 4"
  "\<lambda>mal v d cbb. CBB_add_u32 mal d cbb v"
  by unfold_locales (auto simp: CBB_add_u32_def intro!: narrow_writer)

interpretation u64_rw: cbb_codec "\<lambda>v. be_bytes 8 (unat v)" CBS_get_u64 "\<lambda>v. unat v < 256 ^ 8"
  "\<lambda>mal v d cbb. CBB_add_u64 mal d cbb v"
proof
  fix mal cbb B d and v :: u64
  assume "malloc_ok mal" "rep cbb B" "d \<le> depth B" "unat v < 256 ^ 8"
  then show "realizes mal (cbb_base cbb) (CBB_add_u64 mal d cbb v) (put_to d B (be_bytes 8 (unat v)))"
    using cbb_add_u_realizes [of mal cbb B d 8 v] by (simp add: CBB_add_u64_def)
qed

interpretation asn1_uint64_rw: cbb_codec
  "\<lambda>v. der_element (der_uint (unat v), CBS_ASN1_INTEGER)" CBS_get_asn1_uint64 "\<lambda>_. True"
  "\<lambda>mal v d cbb. CBB_add_asn1_uint64 mal d cbb v"
  by unfold_locales (simp add: CBB_add_asn1_uint64_def CBB_add_asn1_uint64_with_tag_realizes)

interpretation asn1_int64_rw: cbb_codec
  "\<lambda>v. der_element (der_int64 v, CBS_ASN1_INTEGER)" CBS_get_asn1_int64 "\<lambda>_. True"
  "\<lambda>mal v d cbb. CBB_add_asn1_int64 mal d cbb v"
  by unfold_locales (simp add: CBB_add_asn1_int64_def CBB_add_asn1_int64_with_tag_realizes)

lemma valid_tag_OCTETSTRING [simp]: "valid_tag CBS_ASN1_OCTETSTRING"
  by (simp add: valid_tag_def CBS_ASN1_OCTETSTRING_def CBS_ASN1_CONSTRUCTED_def CBS_ASN1_TAG_SHIFT_def)

lemma valid_tag_BOOLEAN [simp]: "valid_tag CBS_ASN1_BOOLEAN"
  by (simp add: valid_tag_def CBS_ASN1_BOOLEAN_def CBS_ASN1_CONSTRUCTED_def CBS_ASN1_TAG_SHIFT_def)

interpretation octet_string_rw: cbb_codec
  "\<lambda>s. der_element (s, CBS_ASN1_OCTETSTRING)" "\<lambda>c. CBS_get_asn1 c CBS_ASN1_OCTETSTRING"
  "\<lambda>s. length s \<le> 0xfffffffe" "\<lambda>mal s d cbb. CBB_add_asn1_octet_string mal d cbb s"
proof
  fix s rest assume "length (s :: byte list) \<le> 0xfffffffe"
  then show "CBS_get_asn1 (der_element (s, CBS_ASN1_OCTETSTRING) @ rest) CBS_ASN1_OCTETSTRING = (Some s, rest)"
    by (simp add: CBS_get_asn1_exact)
next
  fix mal cbb B d and s :: "byte list"
  assume "malloc_ok mal" "rep cbb B" "d \<le> depth B" "length s \<le> 0xfffffffe"
  then show "realizes mal (cbb_base cbb) (CBB_add_asn1_octet_string mal d cbb s)
      (put_to d B (der_element (s, CBS_ASN1_OCTETSTRING)))"
    using CBB_add_asn1_octet_string_realizes [of mal cbb B d s] by (simp add: SIZE_MOD_def)
qed

interpretation bool_rw: cbb_codec
  "\<lambda>b. der_element ([if b then 0xff else 0], CBS_ASN1_BOOLEAN)" CBS_get_asn1_bool "\<lambda>_. True"
  "\<lambda>mal b d cbb. CBB_add_asn1_bool mal d cbb (if b then 1 else 0)"
proof
  fix b rest
  have "CBS_get_asn1 (der_element ([if b then 0xff else 0], CBS_ASN1_BOOLEAN) @ rest) CBS_ASN1_BOOLEAN =
      (Some [if b then 0xff else 0], rest)" by (simp add: CBS_get_asn1_exact)
  then show "CBS_get_asn1_bool (der_element ([if b then 0xff else 0], CBS_ASN1_BOOLEAN) @ rest) = (Some b, rest)"
    by (simp add: CBS_get_asn1_bool_def Let_def)
next
  fix mal cbb B d b
  assume "malloc_ok mal" "rep cbb B" "d \<le> depth B"
  then show "realizes mal (cbb_base cbb) (CBB_add_asn1_bool mal d cbb (if b then 1 else 0))
      (put_to d B (der_element ([if b then 0xff else 0], CBS_ASN1_BOOLEAN)))"
    using CBB_add_asn1_bool_realizes [of mal cbb B d "if b then 1 else 0"] by (cases b) simp_all
qed


section \<open>Properties\<close>

text \<open>
  (C10) \<open>CBB_flush\<close> refines closing a builder. On a state that represents the builder \<open>B\<close>, the
  flush of the object at depth \<open>d\<close> either succeeds with a state that represents \<open>B\<close> with every
  child below \<open>d\<close> closed, the innermost first, its minimal DER or fixed-width length written in
  front of its contents; or it fails, and then the error flag is set and either some length
  does not fit its prefix or the memory does not suffice.
\<close>

theorem CBB_flush_refines:
  assumes "malloc_ok mal" and "rep cbb B" and "d \<le> depth B"
  shows "case CBB_flush mal d cbb of
      (True, cbb') \<Rightarrow> \<exists>B'. close_to d B = Some B' \<and> rep cbb' B'
    | (False, cbb') \<Rightarrow> cb_error (cbb_base cbb') \<and>
        (\<forall>B'. close_to d B = Some B' \<longrightarrow> \<not> ample mal (cbb_base cbb) (length (layout B')))"
  using CBB_flush_realizes [OF assms] by (auto simp: realizes_def split: prod.splits bool.splits)

text \<open>A witness state: a root with \<open>01\<close>, an open ASN.1 child with \<open>aa bb\<close>, in five bytes.\<close>

definition demo_cbb :: cbb where
  "demo_cbb = \<lparr>cbb_base = \<lparr>cb_buf = [1, 0, 0xaa, 0xbb, 9], cb_null = False, cb_len = 4, cb_cap = 5, cb_can_resize = False,
     cb_error = False\<rparr>, cbb_chain = [\<lparr>ch_offset = 1, ch_pending_len_len = 1, ch_pending_is_asn1 = True\<rparr>]\<rparr>"

definition demo_builder :: builder where
  "demo_builder = Open (Root [1]) Asn1 [0xaa, 0xbb]"

lemma demo_rep: "rep demo_cbb demo_builder"
  by (simp add: rep_def demo_cbb_def demo_builder_def buf_ok_def written_def SIZE_MOD_def)

lemma malloc_ok_None: "malloc_ok (\<lambda>_. None)"
  by (simp add: malloc_ok_def)

theorem CBB_flush_refines_witness:
  "case CBB_flush (\<lambda>_. None) 0 demo_cbb of
      (True, cbb') \<Rightarrow> \<exists>B'. close_to 0 demo_builder = Some B' \<and> rep cbb' B'
    | (False, cbb') \<Rightarrow> cb_error (cbb_base cbb') \<and>
        (\<forall>B'. close_to 0 demo_builder = Some B' \<longrightarrow> \<not> ample (\<lambda>_. None) (cbb_base demo_cbb) (length (layout B')))"
  by (rule CBB_flush_refines [OF malloc_ok_None demo_rep]) simp

text \<open>
  The data writers refine appending to a builder: \<open>CBB_add_bytes\<close>, \<open>CBB_add_zeros\<close> and
  \<open>cbb_add_u\<close> (which all fixed-width writers call) close the children of the object and then
  append exactly the bytes, the zeros or the big-endian form of the value; a value that does
  not fit its width is refused. They fail only for a reason and then set the error flag.
\<close>

theorem CBB_data_writers_refine:
  assumes "malloc_ok mal" and "rep cbb B" and "d \<le> depth B"
    and "length data < SIZE_MOD" and "k < SIZE_MOD" and "n \<le> 8"
  shows "realizes mal (cbb_base cbb) (CBB_add_bytes mal d cbb data) (put_to d B data) \<and>
    realizes mal (cbb_base cbb) (CBB_add_zeros mal d cbb k) (put_to d B (replicate k 0)) \<and>
    realizes mal (cbb_base cbb) (cbb_add_u mal d cbb v n)
      (if unat v < 256 ^ n then put_to d B (be_bytes n (unat v)) else None)"
  using CBB_add_bytes_realizes [OF assms(1-4)] CBB_add_zeros_realizes [OF assms(1-3,5)]
    cbb_add_u_realizes [OF assms(1-3,6)] by simp

theorem CBB_data_writers_refine_witness:
  "realizes (\<lambda>_. None) (cbb_base demo_cbb) (CBB_add_bytes (\<lambda>_. None) 0 demo_cbb [7]) (put_to 0 demo_builder [7]) \<and>
   realizes (\<lambda>_. None) (cbb_base demo_cbb) (CBB_add_zeros (\<lambda>_. None) 0 demo_cbb 3) (put_to 0 demo_builder (replicate 3 0)) \<and>
   realizes (\<lambda>_. None) (cbb_base demo_cbb) (cbb_add_u (\<lambda>_. None) 0 demo_cbb 5 1)
      (if unat (5 :: u64) < 256 ^ 1 then put_to 0 demo_builder (be_bytes 1 (unat (5 :: u64))) else None)"
  by (rule CBB_data_writers_refine [OF malloc_ok_None demo_rep]) (simp_all add: SIZE_MOD_def)

text \<open>
  (C17) The ASN.1 writers refine appending the DER element of the value. \<open>CBB_add_asn1_uint64\<close>,
  \<open>CBB_add_asn1_int64\<close>, \<open>CBB_add_asn1_octet_string\<close> and \<open>CBB_add_asn1_bool\<close> append the
  identifier octets, the minimal length octets and the DER contents octets, and nothing else;
  an octet string of more than \<open>2 ^ 32 - 2\<close> bytes is refused.
\<close>

theorem CBB_asn1_writers_refine:
  assumes "malloc_ok mal" and "rep cbb B" and "d \<le> depth B" and "length data < SIZE_MOD"
  shows "realizes mal (cbb_base cbb) (CBB_add_asn1_uint64 mal d cbb v)
      (put_to d B (der_element (der_uint (unat v), CBS_ASN1_INTEGER))) \<and>
    realizes mal (cbb_base cbb) (CBB_add_asn1_int64 mal d cbb v)
      (put_to d B (der_element (der_int64 v, CBS_ASN1_INTEGER))) \<and>
    realizes mal (cbb_base cbb) (CBB_add_asn1_octet_string mal d cbb data)
      (if length data \<le> 0xfffffffe then put_to d B (der_element (data, CBS_ASN1_OCTETSTRING)) else None) \<and>
    realizes mal (cbb_base cbb) (CBB_add_asn1_bool mal d cbb b)
      (put_to d B (der_element ([if b \<noteq> 0 then 0xff else 0], CBS_ASN1_BOOLEAN)))"
  using asn1_uint64_rw.w_realizes [OF assms(1-3)] asn1_int64_rw.w_realizes [OF assms(1-3)]
    CBB_add_asn1_octet_string_realizes [OF assms] CBB_add_asn1_bool_realizes [OF assms(1-3)] by simp

theorem CBB_asn1_writers_refine_witness:
  "realizes (\<lambda>_. None) (cbb_base demo_cbb) (CBB_add_asn1_uint64 (\<lambda>_. None) 0 demo_cbb 300)
      (put_to 0 demo_builder (der_element (der_uint (unat (300 :: u64)), CBS_ASN1_INTEGER))) \<and>
    realizes (\<lambda>_. None) (cbb_base demo_cbb) (CBB_add_asn1_int64 (\<lambda>_. None) 0 demo_cbb 300)
      (put_to 0 demo_builder (der_element (der_int64 300, CBS_ASN1_INTEGER))) \<and>
    realizes (\<lambda>_. None) (cbb_base demo_cbb) (CBB_add_asn1_octet_string (\<lambda>_. None) 0 demo_cbb [1])
      (if length [1 :: byte] \<le> 0xfffffffe then put_to 0 demo_builder (der_element ([1], CBS_ASN1_OCTETSTRING)) else None) \<and>
    realizes (\<lambda>_. None) (cbb_base demo_cbb) (CBB_add_asn1_bool (\<lambda>_. None) 0 demo_cbb 1)
      (put_to 0 demo_builder (der_element ([if (1 :: int) \<noteq> 0 then 0xff else 0], CBS_ASN1_BOOLEAN)))"
  by (rule CBB_asn1_writers_refine [OF malloc_ok_None demo_rep]) (simp_all add: SIZE_MOD_def)

text \<open>
  (C14) Whatever signed integers are written with \<open>CBB_add_asn1_int64\<close> into a fixed buffer that
  can hold their encodings, every call succeeds, \<open>CBB_finish\<close> succeeds, and
  \<open>CBS_get_asn1_int64\<close> reads the same integers back in order and consumes the output exactly.
\<close>

theorem CBB_int64_round_trip:
  assumes "malloc_ok mal" and "length buf < SIZE_MOD"
    and "(\<Sum>v\<leftarrow>vs. length (der_element (der_int64 v, CBS_ASN1_INTEGER))) \<le> length buf"
  shows "\<exists>cbb out n cbb'.
    write_all (\<lambda>mal v d cbb. CBB_add_asn1_int64 mal d cbb v) mal vs (CBB_init_fixed buf (length buf)) = (True, cbb) \<and>
    CBB_finish mal 0 True cbb = (Some (out, n), cbb') \<and>
    decode_n CBS_get_asn1_int64 (length vs) (take n out) = (Some vs, [])"
  using asn1_int64_rw.write_read [OF assms(1) _ assms(2), of vs] assms(3)
  by (auto simp: length_concat comp_def)

theorem CBB_int64_round_trip_witness:
  "\<exists>cbb out n cbb'.
    write_all (\<lambda>mal v d cbb. CBB_add_asn1_int64 mal d cbb v) (\<lambda>_. None) [5, - 1]
      (CBB_init_fixed [0, 0, 0, 0, 0, 0, 0, 0] (length [0, 0, 0, 0, 0, 0, 0, 0 :: byte])) = (True, cbb) \<and>
    CBB_finish (\<lambda>_. None) 0 True cbb = (Some (out, n), cbb') \<and>
    decode_n CBS_get_asn1_int64 (length [5, - 1 :: u64]) (take n out) = (Some [5, - 1], [])"
proof (rule CBB_int64_round_trip [OF malloc_ok_None])
  have "CBS_get_asn1_int64 [2, 1, 5] = (Some 5, [])" by code_simp
  then have "der_element (der_int64 5, CBS_ASN1_INTEGER) = [2, 1, 5]"
    by (simp add: CBS_get_asn1_int64_exact)
  moreover have "CBS_get_asn1_int64 [2, 1, 0xff] = (Some (- 1), [])" by code_simp
  then have "der_element (der_int64 (- 1), CBS_ASN1_INTEGER) = [2, 1, 0xff]"
    by (simp add: CBS_get_asn1_int64_exact)
  ultimately show "(\<Sum>v\<leftarrow>[5, - 1]. length (der_element (der_int64 v, CBS_ASN1_INTEGER)))
      \<le> length [0, 0, 0, 0, 0, 0, 0, 0 :: byte]" by simp
qed (simp add: SIZE_MOD_def)

section \<open>From start to finish\<close>

text \<open>The allocator of the witnesses never fails.\<close>

definition zero_malloc :: malloc_fn where
  "zero_malloc n = Some (replicate n 0)"

lemma zero_malloc_total: "malloc_ok zero_malloc" "\<forall>k. zero_malloc k \<noteq> None"
  by (simp_all add: malloc_ok_def zero_malloc_def)

lemma malloc_total_init:
  assumes "malloc_ok mal" and "\<forall>k. mal k \<noteq> None" and "n + 8 < SIZE_MOD"
  obtains cbb where "CBB_init mal n = Some cbb" and "rep cbb (Root [])" and "cb_can_resize (cbb_base cbb)"
proof -
  obtain p where "mal (n + 8) = Some p" using assms(2) by blast
  then obtain blk where "OPENSSL_malloc mal n = Some blk"
    using assms(3) by (auto simp: OPENSSL_malloc_def size_add_def OPENSSL_MALLOC_PREFIX_def)
  then obtain cbb where cbb: "CBB_init mal n = Some cbb" "cb_can_resize (cbb_base cbb)"
    by (auto simp: CBB_init_def cbb_init_def)
  moreover have "rep cbb (Root [])" using rep_init [OF assms(1) cbb(1)] assms(3) by simp
  ultimately show thesis by (intro that)
qed

lemma finish_root:
  assumes "rep cbb (Root r)"
  obtains out cbb' where "CBB_finish mal 0 True cbb = (Some (out, length r), cbb')" and "take (length r) out = r"
proof -
  have "CBB_flush mal 0 cbb = (True, cbb)" using assms by (subst CBB_flush.simps) (simp add: rep_def)
  moreover have "length r = cb_len (cbb_base cbb)" "take (cb_len (cbb_base cbb)) (cb_buf (cbb_base cbb)) = r"
    using assms by (auto simp: rep_def written_def buf_ok_def)
  ultimately show thesis using that by (auto simp: CBB_finish_def)
qed

end
