(* ===== verification/Oid.thy ===== *)
theory Oid
  imports Cbb_Props
begin

text \<open>
  OBJECT IDENTIFIERs: \<open>CBB_add_asn1_oid_from_text\<close> of \<open>cbb.c\<close> and \<open>CBS_asn1_oid_to_text\<close> of \<open>cbs.c\<close>,
  which convert between the dotted decimal form and the DER contents octets, built on the readers of
  \<open>Cbs\<close> and the writer of \<open>Cbb\<close>.
\<close>

section \<open>Definitions\<close>

text \<open>\<open>snprintf\<close> with \<open>PRIu64\<close> prints the decimal digits.\<close>

definition add_decimal :: "malloc_fn \<Rightarrow> nat \<Rightarrow> cbb \<Rightarrow> u64 \<Rightarrow> bool \<times> cbb" where
  "add_decimal mal d out v = CBB_add_bytes mal d out (decimal (unat v))"

lemma parse_base128_shorter: "parse_base128_integer c = (Some v, c') \<Longrightarrow> length c' < length c"
  by (simp add: base128_codec.dec_Some_iff base128_def)

function oid_to_text_loop :: "malloc_fn \<Rightarrow> cbs \<Rightarrow> cbb \<Rightarrow> bool \<times> cbb" where
  "oid_to_text_loop mal copy cbb =
     (if length copy = 0 then (True, cbb)
      else case parse_base128_integer copy of
             (None, _) \<Rightarrow> (False, cbb)
           | (Some v, copy') \<Rightarrow>
               and_then (CBB_add_u8 mal 0 cbb 0x2e) (\<lambda>cbb.
               and_then (add_decimal mal 0 cbb v) (\<lambda>cbb. oid_to_text_loop mal copy' cbb)))"
  by pat_completeness auto
termination
  by (relation "measure (\<lambda>(mal, copy, cbb). length copy)") (auto dest: parse_base128_shorter [OF sym])

declare oid_to_text_loop.simps [simp del]

text \<open>The buffer behind the returned pointer, \<open>None\<close> for NULL.\<close>

definition CBS_asn1_oid_to_text :: "malloc_fn \<Rightarrow> cbs \<Rightarrow> byte list option" where
  "CBS_asn1_oid_to_text mal cbs =
     (case CBB_init mal 32 of
        None \<Rightarrow> None
      | Some cbb \<Rightarrow>
          (case parse_base128_integer cbs of
             (None, _) \<Rightarrow> None
           | (Some v, copy) \<Rightarrow>
               (case and_then
                       (if v \<ge> 80
                        then and_then (CBB_add_bytes mal 0 cbb [0x32, 0x2e]) (\<lambda>cbb. add_decimal mal 0 cbb (v - 80))
                        else and_then (add_decimal mal 0 cbb (v div 40)) (\<lambda>cbb.
                             and_then (CBB_add_u8 mal 0 cbb 0x2e) (\<lambda>cbb. add_decimal mal 0 cbb (v mod 40))))
                       (\<lambda>cbb. and_then (oid_to_text_loop mal copy cbb) (\<lambda>cbb. CBB_add_u8 mal 0 cbb 0)) of
                  (False, _) \<Rightarrow> None
                | (True, cbb) \<Rightarrow>
                    (case CBB_finish mal 0 True cbb of
                       (None, _) \<Rightarrow> None
                     | (Some (txt, txt_len), _) \<Rightarrow> Some txt))))"

definition parse_dotted_decimal :: "cbs \<Rightarrow> u64 option \<times> cbs" where
  "parse_dotted_decimal cbs =
     (case CBS_get_u64_decimal cbs of
        (None, cbs) \<Rightarrow> (None, cbs)
      | (Some v, cbs) \<Rightarrow>
          (case CBS_get_u8 cbs of
             (None, cbs) \<Rightarrow> (Some v, cbs)
           | (Some dot, cbs) \<Rightarrow> if dot = 0x2e \<and> length cbs > 0 then (Some v, cbs) else (None, cbs)))"

lemma decimal_not_Nil [simp]: "decimal n \<noteq> []"
  by (subst decimal.simps) simp

lemma parse_dotted_decimal_iff:
  "parse_dotted_decimal c = (Some v, c') \<longleftrightarrow>
     c = decimal (unat v) @ (if c' = [] then [] else 0x2e # c')"
proof
  assume "parse_dotted_decimal c = (Some v, c')"
  then obtain c1 where c: "c = decimal (unat v) @ c1"
    and r: "(case CBS_get_u8 c1 of (None, cbs) \<Rightarrow> (Some v, cbs)
           | (Some dot, cbs) \<Rightarrow> if dot = 0x2e \<and> length cbs > 0 then (Some v, cbs) else (None, cbs)) = (Some v, c')"
    by (auto simp: parse_dotted_decimal_def CBS_get_u64_decimal_iff split: prod.splits option.splits if_splits)
  from r show "c = decimal (unat v) @ (if c' = [] then [] else 0x2e # c')"
    unfolding c by (cases c1) (auto split: if_splits)
next
  assume c: "c = decimal (unat v) @ (if c' = [] then [] else 0x2e # c')"
  have "number_ends (if c' = [] then [] else 0x2e # c')"
    by (simp add: number_ends_def OPENSSL_isdigit_def)
  then have "CBS_get_u64_decimal c = (Some v, if c' = [] then [] else 0x2e # c')"
    by (simp add: CBS_get_u64_decimal_iff c)
  then show "parse_dotted_decimal c = (Some v, c')" by (simp add: parse_dotted_decimal_def)
qed

lemma parse_dotted_decimal_shorter: "parse_dotted_decimal c = (Some v, c') \<Longrightarrow> length c' < length c"
  by (auto simp: parse_dotted_decimal_iff)

function oid_from_text_loop :: "malloc_fn \<Rightarrow> nat \<Rightarrow> cbs \<Rightarrow> cbb \<Rightarrow> bool \<times> cbb" where
  "oid_from_text_loop mal d cbs cbb =
     (if length cbs > 0
      then (case parse_dotted_decimal cbs of
              (None, _) \<Rightarrow> (False, cbb)
            | (Some a, cbs') \<Rightarrow>
                and_then (add_base128_integer mal d cbb a) (\<lambda>cbb. oid_from_text_loop mal d cbs' cbb))
      else (True, cbb))"
  by pat_completeness auto
termination
  by (relation "measure (\<lambda>(mal, d, cbs, cbb). length cbs)") (auto dest: parse_dotted_decimal_shorter [OF sym])

declare oid_from_text_loop.simps [simp del]

definition CBB_add_asn1_oid_from_text :: "malloc_fn \<Rightarrow> nat \<Rightarrow> cbb \<Rightarrow> byte list \<Rightarrow> bool \<times> cbb" where
  "CBB_add_asn1_oid_from_text mal d cbb text =
     and_then (CBB_flush mal d cbb) (\<lambda>cbb.
       case parse_dotted_decimal text of
         (None, _) \<Rightarrow> (False, cbb)
       | (Some a, cbs) \<Rightarrow>
           (case parse_dotted_decimal cbs of
              (None, _) \<Rightarrow> (False, cbb)
            | (Some b, cbs) \<Rightarrow>
                if a > 2 \<or> (a < 2 \<and> b > 39) \<or> b > UINT64_MAX - 80 then (False, cbb)
                else and_then (add_base128_integer mal d cbb (40 * a + b))
                       (\<lambda>cbb. oid_from_text_loop mal d cbs cbb)))"

section \<open>Specification\<close>

text \<open>Object identifiers are lists of at least two arcs; their dotted text and DER contents.\<close>

fun dotted :: "nat list \<Rightarrow> byte list" where
  "dotted [] = []"
| "dotted [a] = decimal a"
| "dotted (a # b # as) = decimal a @ 0x2e # dotted (b # as)"

fun oid_der :: "nat list \<Rightarrow> byte list" where
  "oid_der (a # b # as) = base128 (40 * a + b) @ concat (map base128 as)"
| "oid_der _ = []"

fun oid_ok :: "nat list \<Rightarrow> bool" where
  "oid_ok (a # b # as) \<longleftrightarrow> a \<le> 2 \<and> (if a < 2 then b \<le> 39 else b + 80 < 2 ^ 64) \<and> (\<forall>n\<in>set as. n < 2 ^ 64)"
| "oid_ok _ \<longleftrightarrow> False"

lemma dotted_Cons: "dotted (a # as) = decimal a @ (if as = [] then [] else 0x2e # dotted as)"
  by (cases as) auto

lemma dotted_eq_Nil [simp]: "dotted as = [] \<longleftrightarrow> as = []"
  by (cases as) (simp_all add: dotted_Cons)

section \<open>From text\<close>

lemma parse_dotted_Cons:
  "n < 2 ^ 64 \<Longrightarrow> parse_dotted_decimal (dotted (n # ns)) = (Some (of_nat n), dotted ns)"
  by (auto simp: parse_dotted_decimal_iff dotted_Cons unat_of_nat take_bit_eq_mod)

lemma oid_from_text_loop_realizes:
  assumes "malloc_ok mal" and "\<forall>n\<in>set ns. n < 2 ^ 64" and "rep cbb B" and "depth B = d"
  shows "realizes mal (cbb_base cbb) (oid_from_text_loop mal d (dotted ns) cbb)
     (Some (put B (concat (map base128 ns))))"
  using assms(2-4)
proof (induction ns arbitrary: cbb B)
  case Nil
  then show ?case by (subst oid_from_text_loop.simps) (simp add: realizes_ok)
next
  case (Cons n ns)
  have "oid_from_text_loop mal d (dotted (n # ns)) cbb =
      and_then (add_base128_integer mal d cbb (of_nat n)) (\<lambda>cbb. oid_from_text_loop mal d (dotted ns) cbb)"
    using Cons.prems(1) parse_dotted_Cons [of n ns] by (subst oid_from_text_loop.simps) simp
  moreover have "realizes mal (cbb_base cbb)
      (and_then (add_base128_integer mal d cbb (of_nat n)) (\<lambda>cbb. oid_from_text_loop mal d (dotted ns) cbb))
      (Option.bind (Some (put B (base128 n))) (\<lambda>B. Some (put B (concat (map base128 ns)))))"
  proof (rule realizes_and_then)
    have "unat (of_nat n :: u64) = n" using Cons.prems(1) by (simp add: unat_of_nat take_bit_eq_mod)
    then show "realizes mal (cbb_base cbb) (add_base128_integer mal d cbb (of_nat n)) (Some (put B (base128 n)))"
      using add_base128_integer_realizes [OF assms(1) Cons.prems(2,3), of "of_nat n"] by simp
    fix c B' assume "rep c B'" "Some (put B (base128 n)) = Some B'"
    then show "realizes mal (cbb_base c) (oid_from_text_loop mal d (dotted ns) c) (Some (put B' (concat (map base128 ns))))"
      using Cons.IH [of c B'] Cons.prems by auto
  qed auto
  ultimately show ?case by simp
qed

lemma oid_from_text_loop_success:
  "fst (oid_from_text_loop mal d c cbb) \<Longrightarrow> \<exists>ns. c = dotted ns \<and> (\<forall>n\<in>set ns. n < 2 ^ 64)"
proof (induction mal d c cbb rule: oid_from_text_loop.induct)
  case (1 mal d c cbb)
  show ?case
  proof (cases "c = []")
    case True
    then show ?thesis by (intro exI [of _ "[]"]) simp
  next
    case False
    with 1(2) obtain a c' where p: "parse_dotted_decimal c = (Some a, c')"
      and r: "fst (and_then (add_base128_integer mal d cbb a) (\<lambda>cbb. oid_from_text_loop mal d c' cbb))"
      by (subst (asm) oid_from_text_loop.simps) (auto split: prod.splits option.splits)
    then have "fst (oid_from_text_loop mal d c' (snd (add_base128_integer mal d cbb a)))"
      by (auto simp: and_then_def split: if_splits)
    then obtain ns where "c' = dotted ns" "\<forall>n\<in>set ns. n < 2 ^ 64"
      using 1(1) [OF _ p [symmetric]] False by auto
    moreover have "unat a < 2 ^ 64" using unat_u64_less [of a] by simp
    ultimately show ?thesis using p
      by (intro exI [of _ "unat a # ns"]) (auto simp: parse_dotted_decimal_iff dotted_Cons)
  qed
qed


lemma oid_from_text_refines:
  assumes "malloc_ok mal" and "rep cbb B" and "d \<le> depth B" and "oid_ok arcs"
  shows "realizes mal (cbb_base cbb) (CBB_add_asn1_oid_from_text mal d cbb (dotted arcs)) (put_to d B (oid_der arcs))"
proof -
  from assms(4) obtain a b ns where arcs: "arcs = a # b # ns" by (cases arcs rule: oid_ok.cases) auto
  with assms(4) have ok: "a \<le> 2" "a < 2 \<longrightarrow> b \<le> 39" "b + 80 < 2 ^ 64" "\<forall>n\<in>set ns. n < 2 ^ 64"
    by (auto split: if_splits)
  let ?a = "of_nat a :: u64" and ?b = "of_nat b :: u64"
  have ua: "unat ?a = a" using ok(1) by (simp add: unat_of_nat take_bit_eq_mod)
  have ub: "unat ?b = b" using ok(3) by (simp add: unat_of_nat take_bit_eq_mod)
  have sum: "40 * ?a + ?b = of_nat (40 * a + b)" by simp
  have usum: "unat (of_nat (40 * a + b) :: u64) = 40 * a + b"
    using ok(1,3) by (simp add: unat_of_nat take_bit_eq_mod del: of_nat_add)
  have guard: "\<not> (?a > 2 \<or> (?a < 2 \<and> ?b > 39) \<or> ?b > UINT64_MAX - 80)"
    using ok by (auto simp: word_less_nat_alt ua ub UINT64_MAX_def)
  have pa: "parse_dotted_decimal (dotted (a # b # ns)) = (Some ?a, dotted (b # ns))"
    and pb: "parse_dotted_decimal (dotted (b # ns)) = (Some ?b, dotted ns)"
    using parse_dotted_Cons [of a "b # ns"] parse_dotted_Cons [of b ns] ok(1,3) by (simp_all del: dotted.simps)
  have step: "(case parse_dotted_decimal (dotted arcs) of
         (None, _) \<Rightarrow> (False, c)
       | (Some a, cbs) \<Rightarrow>
           (case parse_dotted_decimal cbs of
              (None, _) \<Rightarrow> (False, c)
            | (Some b, cbs) \<Rightarrow>
                if a > 2 \<or> (a < 2 \<and> b > 39) \<or> b > UINT64_MAX - 80 then (False, c)
                else and_then (add_base128_integer mal d c (40 * a + b)) (\<lambda>cbb. oid_from_text_loop mal d cbs cbb))) =
      and_then (add_base128_integer mal d c (of_nat (40 * a + b))) (\<lambda>cbb. oid_from_text_loop mal d (dotted ns) cbb)" for c
    unfolding arcs by (simp only: pa pb prod.case option.case if_not_P [OF guard] sum)
  have "realizes mal (cbb_base cbb) (CBB_add_asn1_oid_from_text mal d cbb (dotted arcs))
      (Option.bind (close_to d B) (\<lambda>B. Some (put B (oid_der arcs))))"
    unfolding CBB_add_asn1_oid_from_text_def step
  proof (rule realizes_and_then)
    show "realizes mal (cbb_base cbb) (CBB_flush mal d cbb) (close_to d B)"
      by (rule CBB_flush_realizes [OF assms(1-3)])
    fix c B1 assume c: "rep c B1" "close_to d B = Some B1"
    then have dB: "depth B1 = d" using close_to_depth by blast
    have "realizes mal (cbb_base c)
        (and_then (add_base128_integer mal d c (of_nat (40 * a + b))) (\<lambda>cbb. oid_from_text_loop mal d (dotted ns) cbb))
        (Option.bind (Some (put B1 (base128 (40 * a + b)))) (\<lambda>B. Some (put B (concat (map base128 ns)))))"
    proof (rule realizes_and_then)
      show "realizes mal (cbb_base c) (add_base128_integer mal d c (of_nat (40 * a + b))) (Some (put B1 (base128 (40 * a + b))))"
        using add_base128_integer_realizes [OF assms(1) c(1) dB, of "of_nat (40 * a + b)"] usum by simp
      fix c' B' assume "rep c' B'" "Some (put B1 (base128 (40 * a + b))) = Some B'"
      then show "realizes mal (cbb_base c') (oid_from_text_loop mal d (dotted ns) c') (Some (put B' (concat (map base128 ns))))"
        using oid_from_text_loop_realizes [OF assms(1) ok(4), of c' B' d] dB by auto
    qed auto
    then show "realizes mal (cbb_base c)
        (and_then (add_base128_integer mal d c (of_nat (40 * a + b))) (\<lambda>cbb. oid_from_text_loop mal d (dotted ns) cbb))
        (Some (put B1 (oid_der arcs)))"
      by (simp add: arcs)
  qed auto
  then show ?thesis by simp
qed

lemma oid_from_text_success:
  assumes "fst (CBB_add_asn1_oid_from_text mal d cbb text)"
  shows "\<exists>arcs. oid_ok arcs \<and> text = dotted arcs"
proof -
  obtain c a b c1 c2 where p: "parse_dotted_decimal text = (Some a, c1)" "parse_dotted_decimal c1 = (Some b, c2)"
    and g: "\<not> (a > 2 \<or> (a < 2 \<and> b > 39) \<or> b > UINT64_MAX - 80)"
    and r: "fst (and_then (add_base128_integer mal d c (40 * a + b)) (\<lambda>cbb. oid_from_text_loop mal d c2 cbb))"
    using assms by (auto simp: CBB_add_asn1_oid_from_text_def and_then_def split: prod.splits option.splits if_splits)
  obtain c' where "fst (oid_from_text_loop mal d c2 c')" using r by (auto simp: and_then_def split: if_splits)
  then obtain ns where ns: "c2 = dotted ns" "\<forall>n\<in>set ns. n < 2 ^ 64" using oid_from_text_loop_success by blast
  have "unat (UINT64_MAX - 80) = 2 ^ 64 - 81" by (simp add: UINT64_MAX_def)
  then have "oid_ok (unat a # unat b # ns)"
    using g ns(2) by (auto simp: word_less_nat_alt not_less)
  moreover have "c1 \<noteq> []" using p(2) by (auto simp: parse_dotted_decimal_iff)
  then have "text = dotted (unat a # unat b # ns)"
    using p ns(1) by (auto simp: parse_dotted_decimal_iff dotted_Cons split: if_splits)
  ultimately show ?thesis by blast
qed


section \<open>To text\<close>

lemma length_decimal: "n < 10 ^ Suc k \<Longrightarrow> length (decimal n) \<le> Suc k"
proof (induction k arbitrary: n)
  case 0
  then show ?case by (subst decimal.simps) simp
next
  case (Suc k)
  then have "length (decimal (n div 10)) \<le> Suc k" by (intro Suc.IH) simp
  then show ?case by (subst decimal.simps) simp
qed

lemma add_decimal_realizes:
  assumes "malloc_ok mal" and "rep cbb (Root r)"
  shows "realizes mal (cbb_base cbb) (add_decimal mal 0 cbb v) (Some (Root (r @ decimal (unat v))))"
proof -
  have "length (decimal (unat v)) \<le> Suc 19"
    by (rule length_decimal) (use unat_u64_less [of v] in simp)
  then have "length (decimal (unat v)) < SIZE_MOD" by (simp add: SIZE_MOD_def)
  then show ?thesis
    using CBB_add_bytes_realizes [OF assms, of 0 "decimal (unat v)"] put_to_same [of "Root r" 0]
    by (simp add: add_decimal_def)
qed

lemma u8_root_realizes:
  assumes "malloc_ok mal" and "rep cbb (Root r)"
  shows "realizes mal (cbb_base cbb) (CBB_add_u8 mal 0 cbb b) (Some (Root (r @ [b])))"
  using CBB_add_u8_realizes [OF assms, of 0 b] put_to_same [of "Root r" 0] by simp

text \<open>Sequences at the root of a builder.\<close>

lemma realizes_root_then:
  assumes "realizes mal base r (Some (Root x))"
    and "\<And>cbb. rep cbb (Root x) \<Longrightarrow> realizes mal (cbb_base cbb) (k cbb) (Some (Root (x @ y)))"
  shows "realizes mal base (and_then r k) (Some (Root (x @ y)))"
proof -
  have "realizes mal base (and_then r k) (Option.bind (Some (Root x)) (\<lambda>_. Some (Root (x @ y))))"
    by (rule realizes_and_then [OF assms(1)]) (auto intro: assms(2))
  then show ?thesis by simp
qed

fun dot_tail :: "nat list \<Rightarrow> byte list" where
  "dot_tail [] = []"
| "dot_tail (n # ns) = 0x2e # decimal n @ dot_tail ns"

lemma dotted_tail: "dotted (n # ns) = decimal n @ dot_tail ns"
  by (induction ns arbitrary: n) auto

lemma oid_to_text_loop_realizes:
  assumes "malloc_ok mal" and "\<forall>n\<in>set ns. n < 2 ^ 64" and "rep cbb (Root r)"
  shows "realizes mal (cbb_base cbb) (oid_to_text_loop mal (concat (map base128 ns)) cbb) (Some (Root (r @ dot_tail ns)))"
  using assms(2,3)
proof (induction ns arbitrary: cbb r)
  case Nil
  then show ?case by (subst oid_to_text_loop.simps) (simp add: realizes_ok)
next
  case (Cons n ns)
  let ?v = "of_nat n :: u64"
  have un: "unat ?v = n" using Cons.prems(1) by (simp add: unat_of_nat take_bit_eq_mod)
  have "parse_base128_integer (base128 n @ concat (map base128 ns)) = (Some ?v, concat (map base128 ns))"
    using parse_base128 [of ?v] un by simp
  moreover have "base128 n \<noteq> []" by (simp add: base128_def)
  ultimately have eq: "oid_to_text_loop mal (concat (map base128 (n # ns))) cbb =
      and_then (CBB_add_u8 mal 0 cbb 0x2e) (\<lambda>cbb.
      and_then (add_decimal mal 0 cbb ?v) (\<lambda>cbb. oid_to_text_loop mal (concat (map base128 ns)) cbb))"
    by (subst oid_to_text_loop.simps) simp
  have "realizes mal (cbb_base cbb)
      (and_then (CBB_add_u8 mal 0 cbb 0x2e) (\<lambda>cbb.
       and_then (add_decimal mal 0 cbb ?v) (\<lambda>cbb. oid_to_text_loop mal (concat (map base128 ns)) cbb)))
      (Some (Root ((r @ [0x2e]) @ decimal n @ dot_tail ns)))"
  proof (rule realizes_root_then [OF u8_root_realizes [OF assms(1) Cons.prems(2)]])
    fix c assume c: "rep c (Root (r @ [0x2e]))"
    have "realizes mal (cbb_base c)
        (and_then (add_decimal mal 0 c ?v) (\<lambda>cbb. oid_to_text_loop mal (concat (map base128 ns)) cbb))
        (Some (Root (((r @ [0x2e]) @ decimal n) @ dot_tail ns)))"
    proof (rule realizes_root_then)
      show "realizes mal (cbb_base c) (add_decimal mal 0 c ?v) (Some (Root ((r @ [0x2e]) @ decimal n)))"
        using add_decimal_realizes [OF assms(1) c, of ?v] un by simp
      fix c' assume "rep c' (Root ((r @ [0x2e]) @ decimal n))"
      then show "realizes mal (cbb_base c') (oid_to_text_loop mal (concat (map base128 ns)) c')
          (Some (Root (((r @ [0x2e]) @ decimal n) @ dot_tail ns)))"
        using Cons.prems(1) by (intro Cons.IH) simp_all
    qed
    then show "realizes mal (cbb_base c)
        (and_then (add_decimal mal 0 c ?v) (\<lambda>cbb. oid_to_text_loop mal (concat (map base128 ns)) cbb))
        (Some (Root ((r @ [0x2e]) @ decimal n @ dot_tail ns)))" by simp
  qed
  then show ?case unfolding eq by simp
qed


text \<open>The first component: \<open>40 * a + b\<close> is taken apart again.\<close>

lemma oid_first:
  assumes "a \<le> 2" and "a < 2 \<longrightarrow> b \<le> 39" and "b + 80 < 2 ^ 64"
  defines "v \<equiv> of_nat (40 * a + b) :: u64"
  shows "unat v = 40 * a + b" and "v \<ge> 80 \<longleftrightarrow> a = 2" and "a = 2 \<Longrightarrow> unat (v - 80) = b"
    and "a < 2 \<Longrightarrow> unat (v div 40) = a" and "a < 2 \<Longrightarrow> unat (v mod 40) = b"
proof -
  have "40 * a + b < 2 ^ 64" using assms(1,3) by simp
  then show u: "unat v = 40 * a + b" by (simp add: v_def unat_of_nat take_bit_eq_mod del: of_nat_add)
  show ge: "v \<ge> 80 \<longleftrightarrow> a = 2" using assms(1,2) by (cases "a = 2") (auto simp: word_le_nat_alt u)
  show "a = 2 \<Longrightarrow> unat (v - 80) = b" using ge by (simp add: unat_sub u)
  show "a < 2 \<Longrightarrow> unat (v div 40) = a" "a < 2 \<Longrightarrow> unat (v mod 40) = b"
    using assms(2) by (simp_all add: unat_div unat_mod u)
qed

lemma oid_to_text_realizes:
  assumes "malloc_ok mal" and "rep cbb (Root [])" and "oid_ok (a # b # ns)"
  defines "v \<equiv> of_nat (40 * a + b) :: u64"
  shows "realizes mal (cbb_base cbb)
      (and_then
        (if v \<ge> 80
         then and_then (CBB_add_bytes mal 0 cbb [0x32, 0x2e]) (\<lambda>cbb. add_decimal mal 0 cbb (v - 80))
         else and_then (add_decimal mal 0 cbb (v div 40)) (\<lambda>cbb.
              and_then (CBB_add_u8 mal 0 cbb 0x2e) (\<lambda>cbb. add_decimal mal 0 cbb (v mod 40))))
        (\<lambda>cbb. and_then (oid_to_text_loop mal (concat (map base128 ns)) cbb) (\<lambda>cbb. CBB_add_u8 mal 0 cbb 0)))
      (Some (Root (dotted (a # b # ns) @ [0])))"
proof -
  from assms(3) have ok: "a \<le> 2" "a < 2 \<longrightarrow> b \<le> 39" "b + 80 < 2 ^ 64" "\<forall>n\<in>set ns. n < 2 ^ 64"
    by (auto split: if_splits)
  note v = oid_first [OF ok(1-3), folded v_def]
  note dec = add_decimal_realizes [OF assms(1)]
  have b2: "realizes mal (cbb_base cbb) (CBB_add_bytes mal 0 cbb [0x32, 0x2e]) (Some (Root [0x32, 0x2e]))"
    using CBB_add_bytes_realizes [OF assms(1,2), of 0 "[0x32, 0x2e]"] put_to_same [of "Root []" 0]
    by (simp add: SIZE_MOD_def)
  have first: "realizes mal (cbb_base cbb)
      (if v \<ge> 80
       then and_then (CBB_add_bytes mal 0 cbb [0x32, 0x2e]) (\<lambda>cbb. add_decimal mal 0 cbb (v - 80))
       else and_then (add_decimal mal 0 cbb (v div 40)) (\<lambda>cbb.
            and_then (CBB_add_u8 mal 0 cbb 0x2e) (\<lambda>cbb. add_decimal mal 0 cbb (v mod 40))))
      (Some (Root (decimal a @ 0x2e # decimal b)))"
  proof (cases "a = 2")
    case True
    have "decimal 2 = [0x32]" by (simp add: decimal.simps)
    moreover have "realizes mal (cbb_base cbb)
        (and_then (CBB_add_bytes mal 0 cbb [0x32, 0x2e]) (\<lambda>cbb. add_decimal mal 0 cbb (v - 80)))
        (Some (Root ([0x32, 0x2e] @ decimal b)))"
      by (rule realizes_root_then [OF b2]) (drule dec [where v = "v - 80"], simp only: v(3) [OF True])
    ultimately show ?thesis using v(2) True by simp
  next
    case False
    then have a: "a < 2" using ok(1) by simp
    have "realizes mal (cbb_base cbb)
       (and_then (add_decimal mal 0 cbb (v div 40)) (\<lambda>cbb.
            and_then (CBB_add_u8 mal 0 cbb 0x2e) (\<lambda>cbb. add_decimal mal 0 cbb (v mod 40))))
       (Some (Root (decimal a @ 0x2e # decimal b)))"
    proof (rule realizes_root_then)
      show "realizes mal (cbb_base cbb) (add_decimal mal 0 cbb (v div 40)) (Some (Root (decimal a)))"
        using dec [OF assms(2), of "v div 40"] v(4) [OF a] by simp
      fix c assume c: "rep c (Root (decimal a))"
      have u8: "realizes mal (cbb_base c) (CBB_add_u8 mal 0 c 0x2e) (Some (Root (decimal a @ [0x2e])))"
        by (rule u8_root_realizes [OF assms(1) c])
      have "realizes mal (cbb_base c) (and_then (CBB_add_u8 mal 0 c 0x2e) (\<lambda>cbb. add_decimal mal 0 cbb (v mod 40)))
          (Some (Root ((decimal a @ [0x2e]) @ decimal b)))"
        by (rule realizes_root_then [OF u8]) (drule dec [where v = "v mod 40"], simp only: v(5) [OF a])
      then show "realizes mal (cbb_base c) (and_then (CBB_add_u8 mal 0 c 0x2e) (\<lambda>cbb. add_decimal mal 0 cbb (v mod 40)))
          (Some (Root (decimal a @ 0x2e # decimal b)))" by simp
    qed
    then show ?thesis using v(2) False by simp
  qed
  let ?f = "decimal a @ 0x2e # decimal b"
  have "realizes mal (cbb_base cbb)
      (and_then
        (if v \<ge> 80
         then and_then (CBB_add_bytes mal 0 cbb [0x32, 0x2e]) (\<lambda>cbb. add_decimal mal 0 cbb (v - 80))
         else and_then (add_decimal mal 0 cbb (v div 40)) (\<lambda>cbb.
              and_then (CBB_add_u8 mal 0 cbb 0x2e) (\<lambda>cbb. add_decimal mal 0 cbb (v mod 40))))
        (\<lambda>cbb. and_then (oid_to_text_loop mal (concat (map base128 ns)) cbb) (\<lambda>cbb. CBB_add_u8 mal 0 cbb 0)))
      (Some (Root (?f @ dot_tail ns @ [0])))"
  proof (rule realizes_root_then [OF first])
    fix c assume c: "rep c (Root ?f)"
    have "realizes mal (cbb_base c)
        (and_then (oid_to_text_loop mal (concat (map base128 ns)) c) (\<lambda>cbb. CBB_add_u8 mal 0 cbb 0))
        (Some (Root ((?f @ dot_tail ns) @ [0])))"
      by (rule realizes_root_then [OF oid_to_text_loop_realizes [OF assms(1) ok(4) c]])
        (rule u8_root_realizes [OF assms(1)])
    then show "realizes mal (cbb_base c)
        (and_then (oid_to_text_loop mal (concat (map base128 ns)) c) (\<lambda>cbb. CBB_add_u8 mal 0 cbb 0))
        (Some (Root (?f @ dot_tail ns @ [0])))" by simp
  qed
  then show ?thesis by (simp add: dotted_tail)
qed

lemma oid_to_text_loop_success:
  "fst (oid_to_text_loop mal c cbb) \<Longrightarrow> \<exists>ns. c = concat (map base128 ns) \<and> (\<forall>n\<in>set ns. n < 2 ^ 64)"
proof (induction mal c cbb rule: oid_to_text_loop.induct)
  case (1 mal c cbb)
  show ?case
  proof (cases "c = []")
    case True
    then show ?thesis by (intro exI [of _ "[]"]) simp
  next
    case False
    with 1(2) obtain v c' where p: "parse_base128_integer c = (Some v, c')"
      and r: "fst (and_then (CBB_add_u8 mal 0 cbb 0x2e) (\<lambda>cbb.
               and_then (add_decimal mal 0 cbb v) (\<lambda>cbb. oid_to_text_loop mal c' cbb)))"
      by (subst (asm) oid_to_text_loop.simps) (auto split: prod.splits option.splits)
    then obtain c1 where "fst (oid_to_text_loop mal c' c1)"
      by (auto simp: and_then_def split: if_splits)
    then obtain ns where "c' = concat (map base128 ns)" "\<forall>n\<in>set ns. n < 2 ^ 64"
      using 1(1) [OF _ p [symmetric]] False by auto
    moreover have "unat v < 2 ^ 64" using unat_u64_less [of v] by simp
    ultimately show ?thesis using p
      by (intro exI [of _ "unat v # ns"]) (auto simp: base128_codec.dec_Some_iff)
  qed
qed

lemma oid_to_text_success:
  assumes "CBS_asn1_oid_to_text mal cbs \<noteq> None"
  shows "\<exists>arcs. oid_ok arcs \<and> cbs = oid_der arcs"
proof -
  obtain v c cbb where p: "parse_base128_integer cbs = (Some v, c)" and l: "fst (oid_to_text_loop mal c cbb)"
    using assms
    by (auto simp: CBS_asn1_oid_to_text_def and_then_def split: prod.splits option.splits bool.splits if_splits)
  obtain ns where ns: "c = concat (map base128 ns)" "\<forall>n\<in>set ns. n < 2 ^ 64"
    using oid_to_text_loop_success [OF l] by blast
  have cbs: "cbs = base128 (unat v) @ concat (map base128 ns)"
    using p ns(1) by (simp add: base128_codec.dec_Some_iff)
  have lt: "unat v < 2 ^ 64" using unat_u64_less [of v] by simp
  show ?thesis
  proof (cases "unat v < 80")
    case True
    have e: "40 * (unat v div 40) + unat v mod 40 = unat v" by simp
    show ?thesis
      using True ns(2) cbs e by (intro exI [of _ "unat v div 40 # unat v mod 40 # ns"]) auto
  next
    case False
    then show ?thesis
      using lt ns(2) cbs by (intro exI [of _ "2 # (unat v - 80) # ns"]) auto
  qed
qed

lemma oid_to_text_der:
  assumes "malloc_ok mal" and "\<forall>k. mal k \<noteq> None" and "oid_ok arcs" and "length (dotted arcs) + 1 < 2 ^ 62"
  shows "\<exists>rest. CBS_asn1_oid_to_text mal (oid_der arcs) = Some (dotted arcs @ 0 # rest)"
proof -
  obtain a b ns where arcs: "arcs = a # b # ns" using assms(3) by (cases arcs rule: oid_ok.cases) auto
  obtain cbb where cbb: "CBB_init mal 32 = Some cbb" "rep cbb (Root [])" "cb_can_resize (cbb_base cbb)"
    using malloc_total_init [OF assms(1,2), of 32] by (auto simp: SIZE_MOD_def)
  let ?v = "of_nat (40 * a + b) :: u64"
  have "a \<le> 2" "a < 2 \<longrightarrow> b \<le> 39" "b + 80 < 2 ^ 64" using assms(3) arcs by (auto split: if_splits)
  note v = oid_first [OF this]
  let ?w = "and_then
        (if ?v \<ge> 80
         then and_then (CBB_add_bytes mal 0 cbb [0x32, 0x2e]) (\<lambda>cbb. add_decimal mal 0 cbb (?v - 80))
         else and_then (add_decimal mal 0 cbb (?v div 40)) (\<lambda>cbb.
              and_then (CBB_add_u8 mal 0 cbb 0x2e) (\<lambda>cbb. add_decimal mal 0 cbb (?v mod 40))))
        (\<lambda>cbb. and_then (oid_to_text_loop mal (concat (map base128 ns)) cbb) (\<lambda>cbb. CBB_add_u8 mal 0 cbb 0))"
  have R: "realizes mal (cbb_base cbb) ?w (Some (Root (dotted arcs @ [0])))"
    unfolding arcs by (rule oid_to_text_realizes [OF assms(1) cbb(2) assms(3) [unfolded arcs]])
  moreover have "ample mal (cbb_base cbb) (length (dotted arcs @ [0]))"
    using assms(2,4) cbb(3) by (simp add: ample_def)
  ultimately obtain c where w: "?w = (True, c)" and c: "rep c (Root (dotted arcs @ [0]))"
    by (cases ?w) (auto simp: realizes_def split: if_splits)
  obtain out c' where fin: "CBB_finish mal 0 True c = (Some (out, length (dotted arcs @ [0])), c')"
    and out: "take (length (dotted arcs @ [0])) out = dotted arcs @ [0]" using finish_root [OF c] .
  have p: "parse_base128_integer (oid_der arcs) = (Some ?v, concat (map base128 ns))"
    using parse_base128 [of ?v] v(1) by (simp add: arcs)
  have "CBS_asn1_oid_to_text mal (oid_der arcs) = Some out"
    by (simp only: CBS_asn1_oid_to_text_def cbb(1) p option.case prod.case w fin bool.case)
  moreover have "out = (dotted arcs @ [0]) @ drop (length (dotted arcs @ [0])) out"
    using out by (metis append_take_drop_id)
  ultimately show ?thesis by (metis append.assoc append_Cons append_Nil)
qed

section \<open>Properties\<close>

text \<open>
  (C26) \<open>CBB_add_asn1_oid_from_text\<close> accepts exactly the dotted texts of representable object
  identifiers (two arcs or more, the first at most 2, the second below 40 under the first two, no
  superfluous zeros, every component below \<open>2 ^ 64\<close>): on those it refines appending the DER contents
  octets, and on any other text it returns 0.
\<close>

theorem CBB_add_asn1_oid_from_text_exact:
  assumes "malloc_ok mal" and "rep cbb B" and "d \<le> depth B"
  shows "(\<forall>arcs. oid_ok arcs \<longrightarrow>
       realizes mal (cbb_base cbb) (CBB_add_asn1_oid_from_text mal d cbb (dotted arcs)) (put_to d B (oid_der arcs))) \<and>
    ((\<forall>arcs. oid_ok arcs \<longrightarrow> text \<noteq> dotted arcs) \<longrightarrow> \<not> fst (CBB_add_asn1_oid_from_text mal d cbb text))"
  using oid_from_text_refines [OF assms] oid_from_text_success by blast

theorem CBB_add_asn1_oid_from_text_exact_witness:
  "\<exists>c. CBB_add_asn1_oid_from_text (\<lambda>_. None) 0 (CBB_init_fixed [0, 0, 0] 3) [0x31, 0x2e, 0x32, 0x2e, 0x38, 0x34, 0x30] = (True, c) \<and>
     rep c (Root [0x2a, 0x86, 0x48])"
proof -
  let ?c = "CBB_init_fixed [0, 0, 0] 3"
  have r: "rep ?c (Root [])" using rep_init_fixed [of "[0, 0, 0]"] by (simp add: SIZE_MOD_def numeral_3_eq_3)
  have t: "dotted [1, 2, 840] = [0x31, 0x2e, 0x32, 0x2e, 0x38, 0x34, 0x30]" by code_simp
  have der: "oid_der [1, 2, 840] = [0x2a, 0x86, 0x48]" by code_simp
  have ok: "0 \<le> depth (Root [])" "oid_ok [1, 2, 840]" by simp_all
  have "realizes (\<lambda>_. None) (cbb_base ?c) (CBB_add_asn1_oid_from_text (\<lambda>_. None) 0 ?c (dotted [1, 2, 840]))
      (put_to 0 (Root []) (oid_der [1, 2, 840]))"
    using CBB_add_asn1_oid_from_text_exact [OF malloc_ok_None r, of 0 "[]"] ok by blast
  moreover have "put_to 0 (Root []) (oid_der [1, 2, 840]) = Some (Root [0x2a, 0x86, 0x48])"
    unfolding der using put_to_same [of "Root []" 0] by simp
  moreover have "ample (\<lambda>_. None) (cbb_base ?c) (length (layout (Root [0x2a, 0x86, 0x48])))"
    by (simp add: ample_def CBB_init_fixed_def cbb_init_def)
  ultimately show ?thesis
    unfolding t by (cases "CBB_add_asn1_oid_from_text (\<lambda>_. None) 0 ?c [0x31, 0x2e, 0x32, 0x2e, 0x38, 0x34, 0x30]")
      (auto simp: realizes_def split: if_splits)
qed

text \<open>
  \<open>CBS_asn1_oid_to_text\<close> inverts that encoding: on the DER contents of a representable object
  identifier it returns, when memory suffices, the dotted text as a C string; and whenever it returns
  a string, its input was the DER contents of a representable object identifier.
\<close>

theorem CBS_asn1_oid_to_text_exact:
  assumes "malloc_ok mal" and "\<forall>k. mal k \<noteq> None" and "oid_ok arcs" and "length (dotted arcs) + 1 < 2 ^ 62"
  shows "(\<exists>rest. CBS_asn1_oid_to_text mal (oid_der arcs) = Some (dotted arcs @ 0 # rest)) \<and>
    (\<forall>cbs. CBS_asn1_oid_to_text mal cbs \<noteq> None \<longrightarrow> (\<exists>arcs. oid_ok arcs \<and> cbs = oid_der arcs))"
  using oid_to_text_der [OF assms] oid_to_text_success by blast

theorem CBS_asn1_oid_to_text_exact_witness:
  "\<exists>rest. CBS_asn1_oid_to_text zero_malloc [0x2a, 0x86, 0x48] = Some ([0x31, 0x2e, 0x32, 0x2e, 0x38, 0x34, 0x30] @ 0 # rest)"
proof -
  have t: "dotted [1, 2, 840] = [0x31, 0x2e, 0x32, 0x2e, 0x38, 0x34, 0x30]" by code_simp
  have der: "oid_der [1, 2, 840] = [0x2a, 0x86, 0x48]" by code_simp
  have "oid_ok [1, 2, 840]" by simp
  moreover have "length (dotted [1, 2, 840]) + 1 < 2 ^ 62" unfolding t by simp
  ultimately show ?thesis
    using CBS_asn1_oid_to_text_exact [OF zero_malloc_total, of "[1, 2, 840]"] unfolding t der by blast
qed

end
