(* ===== verification/Set_Of.thy ===== *)
theory Set_Of
  imports Cbb_Props "HOL-Library.Multiset" "HOL-Library.List_Lexorder"
begin

text \<open>
  \<open>CBB_flush_asn1_set_of\<close> of \<open>cbb.c\<close>: the elements of a SET OF are put into the order DER asks for.
  Byte strings are ordered lexicographically (the library's order on lists). \<open>qsort\<close> of the C library
  is an insertion sort by the comparison function; elements that compare equal are equal here, so the
  order in which \<open>qsort\<close> leaves equal elements does not matter.
\<close>

section \<open>Definitions\<close>

definition compare_set_of_element :: "cbs \<Rightarrow> cbs \<Rightarrow> int" where
  "compare_set_of_element a b =
     (let a_len = length a; b_len = length b;
          min_len = (if a_len < b_len then a_len else b_len);
          ret = OPENSSL_memcmp a b min_len
      in if ret \<noteq> 0 then ret
         else if a_len = b_len then 0
         else if a_len < b_len then - 1 else 1)"

fun qsort_insert :: "('a \<Rightarrow> 'a \<Rightarrow> int) \<Rightarrow> 'a \<Rightarrow> 'a list \<Rightarrow> 'a list" where
  "qsort_insert cmp x [] = [x]"
| "qsort_insert cmp x (y # ys) = (if cmp x y \<le> 0 then x # y # ys else y # qsort_insert cmp x ys)"

definition qsort :: "('a \<Rightarrow> 'a \<Rightarrow> int) \<Rightarrow> 'a list \<Rightarrow> 'a list" where
  "qsort cmp xs = foldr (qsort_insert cmp) xs []"

lemma get_element_shorter: "CBS_get_any_asn1_element c = (Some e, c') \<Longrightarrow> length c' < length c"
  by (auto simp: CBS_get_any_asn1_element_exact der_element_def der_header_def length_der_length)

function count_elements :: "cbs \<Rightarrow> nat option" where
  "count_elements cbs =
     (if length cbs \<noteq> 0
      then (case CBS_get_any_asn1_element cbs of
              (None, _) \<Rightarrow> None
            | (Some _, cbs') \<Rightarrow> map_option Suc (count_elements cbs'))
      else Some 0)"
  by pat_completeness auto
termination
  by (relation "measure length") (auto dest: get_element_shorter [OF sym])

declare count_elements.simps [simp del]

definition get_element_bytes :: "cbs \<Rightarrow> cbs option \<times> cbs" where
  "get_element_bytes cbs =
     (case CBS_get_any_asn1_element cbs of
        (None, cbs') \<Rightarrow> (None, cbs') | (Some e, cbs') \<Rightarrow> (Some (el_out e), cbs'))"

fun write_children :: "byte list \<Rightarrow> nat \<Rightarrow> cbs list \<Rightarrow> byte list" where
  "write_children buf out [] = buf"
| "write_children buf out (c # cs) = write_children (mem_write buf out c) (out + length c) cs"

text \<open>\<open>sizeof(CBS)\<close> is a pointer and a \<open>size_t\<close>.\<close>

definition SIZEOF_CBS :: nat where "SIZEOF_CBS = 16"

definition CBB_flush_asn1_set_of :: "malloc_fn \<Rightarrow> nat \<Rightarrow> cbb \<Rightarrow> bool \<times> cbb" where
  "CBB_flush_asn1_set_of mal d cbb =
     and_then (CBB_flush mal d cbb) (\<lambda>cbb.
       let out = CBB_data d cbb;
           buf_len = CBB_len d cbb;
           data = take buf_len (drop out (cb_buf (cbb_base cbb)))
       in case count_elements data of
            None \<Rightarrow> (False, cbb)
          | Some num_children \<Rightarrow>
              if num_children < 2 then (True, cbb)
              else case (OPENSSL_memdup mal data, OPENSSL_calloc mal num_children SIZEOF_CBS) of
                     (Some buf, Some _) \<Rightarrow>
                       (case decode_n get_element_bytes num_children (take buf_len (user_data buf)) of
                          (None, _) \<Rightarrow> (False, cbb)
                        | (Some children, _) \<Rightarrow>
                            (True, cbb\<lparr>cbb_base := (cbb_base cbb)\<lparr>cb_buf :=
                               write_children (cb_buf (cbb_base cbb)) out (qsort compare_set_of_element children)\<rparr>\<rparr>))
                   | _ \<Rightarrow> (False, cbb))"

section \<open>The comparison and the sort\<close>

lemma compare_simps [simp]:
  "compare_set_of_element [] [] = 0"
  "compare_set_of_element [] (y # ys) = - 1"
  "compare_set_of_element (x # xs) [] = 1"
  "compare_set_of_element (x # xs) (y # ys) =
     (if x < y then - 1 else if y < x then 1 else compare_set_of_element xs ys)"
  by (auto simp: compare_set_of_element_def OPENSSL_memcmp_def Let_def)

lemma compare_le: "compare_set_of_element a b \<le> 0 \<longleftrightarrow> a \<le> b"
proof (induction a arbitrary: b)
  case Nil
  then show ?case by (cases b) auto
next
  case (Cons x a)
  then show ?case by (cases b) (auto simp: not_less_iff_gr_or_eq)
qed

lemma mset_qsort_insert: "mset (qsort_insert cmp x ys) = add_mset x (mset ys)"
  by (induction ys) auto

lemma mset_qsort: "mset (qsort cmp xs) = mset xs"
  by (induction xs) (auto simp: qsort_def mset_qsort_insert)

lemma sorted_qsort_insert: "sorted ys \<Longrightarrow> sorted (qsort_insert compare_set_of_element x ys)"
proof (induction ys)
  case (Cons y ys)
  have s: "set (qsort_insert compare_set_of_element x ys) = insert x (set ys)"
    by (metis mset_qsort_insert set_mset_add_mset_insert set_mset_mset)
  show ?case using Cons by (auto simp: s compare_le)
qed simp

lemma qsort_eq_sort: "qsort compare_set_of_element xs = sort xs"
proof -
  have "sorted (qsort compare_set_of_element xs)" by (induction xs) (auto simp: qsort_def sorted_qsort_insert)
  then show ?thesis using mset_qsort by (metis properties_for_sort)
qed

section \<open>Elements\<close>

lemma count_elements_iff:
  "count_elements c = Some n \<longleftrightarrow>
     (\<exists>els. length els = n \<and> (\<forall>x\<in>set els. der_valid x) \<and> c = concat (map der_element els))"
proof (induction c arbitrary: n rule: count_elements.induct)
  case (1 c)
  show ?case
  proof (cases "c = []")
    case True
    have ne: "der_element x \<noteq> []" for x by (simp add: der_element_def der_header_def der_length_def)
    have "concat (map der_element els) = [] \<longleftrightarrow> els = []" for els by (cases els) (simp_all only: ne list.map concat.simps append_is_Nil_conv simp_thms list.distinct)
    then show ?thesis using True by (subst count_elements.simps) auto
  next
    case False
    then have unf: "count_elements c = (case CBS_get_any_asn1_element c of
              (None, _) \<Rightarrow> None
            | (Some _, cbs') \<Rightarrow> map_option Suc (count_elements cbs'))" by (subst count_elements.simps) simp
    show ?thesis
    proof
      assume "count_elements c = Some n"
      then obtain e c' m where g: "CBS_get_any_asn1_element c = (Some e, c')" and m: "count_elements c' = Some m" "n = Suc m"
        unfolding unf by (auto split: prod.splits option.splits)
      obtain els where "length els = m" "\<forall>x\<in>set els. der_valid x" "c' = concat (map der_element els)"
        using 1 [OF _ g [symmetric]] False m(1) by auto
      moreover obtain x where "der_valid x" "c = der_element x @ c'"
        using g by (auto simp: CBS_get_any_asn1_element_exact)
      ultimately show "\<exists>els. length els = n \<and> (\<forall>x\<in>set els. der_valid x) \<and> c = concat (map der_element els)"
        using m(2) by (intro exI [of _ "x # els"]) simp
    next
      assume "\<exists>els. length els = n \<and> (\<forall>x\<in>set els. der_valid x) \<and> c = concat (map der_element els)"
      then obtain x els where e: "n = Suc (length els)" "der_valid x" "\<forall>x\<in>set els. der_valid x"
        "c = der_element x @ concat (map der_element els)"
        using False by (metis (no_types, lifting) concat.simps(2) length_Cons list.exhaust list.set_intros list.simps(8,9) concat.simps(1))
      then have g: "CBS_get_any_asn1_element c = (Some (der_parsed x), concat (map der_element els))"
        using CBS_get_any_asn1_element_exact by blast
      then have "count_elements (concat (map der_element els)) = Some (length els)"
        using 1 [OF _ g [symmetric]] False e by auto
      then show "count_elements c = Some n" unfolding unf g using e(1) by simp
    qed
  qed
qed


lemma get_element_bytes_Some:
  "get_element_bytes c = (Some b, c') \<longleftrightarrow> (\<exists>x. der_valid x \<and> b = der_element x \<and> c = der_element x @ c')"
proof
  assume "get_element_bytes c = (Some b, c')"
  then obtain e where "CBS_get_any_asn1_element c = (Some e, c')" "b = el_out e"
    by (auto simp: get_element_bytes_def split: prod.splits option.splits)
  then show "\<exists>x. der_valid x \<and> b = der_element x \<and> c = der_element x @ c'"
    by (elim CBS_get_any_asn1_element_exact [THEN iffD1, THEN exE] conjE, intro exI conjI) (simp_all add: der_parsed_def)
next
  assume "\<exists>x. der_valid x \<and> b = der_element x \<and> c = der_element x @ c'"
  then obtain x where x: "b = der_element x" "CBS_get_any_asn1_element c = (Some (der_parsed x), c')"
    using CBS_get_any_asn1_element_exact by metis
  then show "get_element_bytes c = (Some b, c')" by (simp add: get_element_bytes_def der_parsed_def)
qed

lemma decode_elements:
  "\<forall>x\<in>set els. der_valid x \<Longrightarrow>
   decode_n get_element_bytes (length els) (concat (map der_element els)) = (Some (map der_element els), [])"
proof (induction els)
  case (Cons x els)
  then have "get_element_bytes (der_element x @ concat (map der_element els)) =
      (Some (der_element x), concat (map der_element els))"
    unfolding get_element_bytes_Some by (intro exI [of _ x]) simp
  then show ?case using Cons by simp
qed simp

lemma write_children_at:
  "length x = length (concat cs) \<Longrightarrow> write_children (p @ x @ r) (length p) cs = p @ concat cs @ r"
proof (induction cs arbitrary: p x)
  case (Cons c cs)
  define y z where "y = take (length c) x" and "z = drop (length c) x"
  have x: "x = y @ z" "length y = length c" "length z = length (concat cs)"
    using Cons.prems by (simp_all add: y_def z_def)
  have "mem_write (p @ y @ (z @ r)) (length p) c = p @ c @ z @ r" using x(2) by (intro mem_write_at) simp
  then show ?case using Cons.IH [of z "p @ c"] x by simp
qed simp

section \<open>Builders\<close>

text \<open>The contents of the object at the innermost level, and a builder with other contents there.\<close>

fun contents :: "builder \<Rightarrow> byte list" where
  "contents (Root r) = r"
| "contents (Open B p b) = b"

fun with_contents :: "builder \<Rightarrow> byte list \<Rightarrow> builder" where
  "with_contents (Root r) c = Root c"
| "with_contents (Open B p b) c = Open B p c"

fun before :: "builder \<Rightarrow> byte list" where
  "before (Root r) = []"
| "before (Open B p b) = layout B @ replicate (plen p) 0"

lemma layout_before: "layout B = before B @ contents B"
  by (cases B) auto

lemma layout_with_contents [simp]: "layout (with_contents B c) = before B @ c"
  by (cases B) auto

lemma chain_of_with_contents [simp]: "chain_of (with_contents B c) = chain_of B"
  by (cases B) auto

lemma CBB_data_rep: "rep cbb B \<Longrightarrow> CBB_data (depth B) cbb = length (before B)"
  by (cases B) (auto simp: CBB_data_def rep_def nth_append Let_def)

lemma CBB_len_rep: "rep cbb B \<Longrightarrow> CBB_len (depth B) cbb = length (contents B)"
proof -
  assume r: "rep cbb B"
  then have "cb_len (cbb_base cbb) = length (layout B)"
    by (metis rep_def written_length)
  then show ?thesis using r by (cases B) (auto simp: CBB_len_def rep_def nth_append Let_def)
qed

lemma with_contents_same [simp]: "with_contents B (contents B) = B"
  by (cases B) auto

lemma der_element_length: "2 \<le> length (der_element x)"
proof -
  have "tag_bytes (snd x) \<noteq> []" by (simp add: tag_bytes_def Let_def)
  then have "1 \<le> length (tag_bytes (snd x))" by (simp add: Suc_le_eq)
  then show ?thesis by (simp add: der_element_def der_header_def length_der_length)
qed

lemma elements_le_length: "length els \<le> length (concat (map der_element els))"
proof (induction els)
  case (Cons x els)
  then show ?case using der_element_length [of x] by simp
qed simp

lemma malloc_total:
  assumes "malloc_ok mal" and "\<forall>k. mal k \<noteq> None" and "n < 2 ^ 63"
  shows "OPENSSL_malloc mal n \<noteq> None"
proof -
  obtain p where "mal (n + 8) = Some p" using assms(2) by blast
  then show ?thesis using OPENSSL_malloc_succeeds [OF assms(1), of n p] assms(3) by (simp add: SIZE_MOD_def)
qed

lemma memdup_calloc_total:
  assumes "malloc_ok mal" and "\<forall>k. mal k \<noteq> None" and "length d < 2 ^ 59" and "d \<noteq> []" and "n \<le> length d"
  shows "OPENSSL_memdup mal d \<noteq> None" and "OPENSSL_calloc mal n SIZEOF_CBS \<noteq> None"
proof -
  show "OPENSSL_memdup mal d \<noteq> None"
    using malloc_total [OF assms(1,2), of "length d"] assms(3,4) by (auto simp: OPENSSL_memdup_def split: option.split)
  have "\<not> (SIZEOF_CBS \<noteq> 0 \<and> n > SIZE_MAX div SIZEOF_CBS)"
    using calloc_guard [of n SIZEOF_CBS] assms(3,5) by (simp add: SIZEOF_CBS_def SIZE_MOD_def)
  moreover have "n * SIZEOF_CBS < 2 ^ 63" using assms(3,5) by (simp add: SIZEOF_CBS_def)
  then have "n * SIZEOF_CBS mod SIZE_MOD < 2 ^ 63" by (simp add: SIZE_MOD_def)
  then have "OPENSSL_malloc mal (n * SIZEOF_CBS mod SIZE_MOD) \<noteq> None" by (rule malloc_total [OF assms(1,2)])
  ultimately show "OPENSSL_calloc mal n SIZEOF_CBS \<noteq> None"
    by (auto simp: OPENSSL_calloc_def OPENSSL_zalloc_def split: option.split)
qed

lemma object_data:
  assumes "rep cbb B"
  shows "cb_buf (cbb_base cbb) = before B @ contents B @ drop (cb_len (cbb_base cbb)) (cb_buf (cbb_base cbb))"
    and "take (CBB_len (depth B) cbb) (drop (CBB_data (depth B) cbb) (cb_buf (cbb_base cbb))) = contents B"
proof -
  show e: "cb_buf (cbb_base cbb) = before B @ contents B @ drop (cb_len (cbb_base cbb)) (cb_buf (cbb_base cbb))"
    using buf_split [of "cbb_base cbb"] assms by (simp add: rep_def layout_before)
  show "take (CBB_len (depth B) cbb) (drop (CBB_data (depth B) cbb) (cb_buf (cbb_base cbb))) = contents B"
    unfolding CBB_len_rep [OF assms] CBB_data_rep [OF assms] by (subst e) simp
qed

text \<open>What the sort does after the flush, to a builder whose innermost object holds elements.\<close>

lemma set_of_elements:
  assumes "malloc_ok mal" and "rep cbb B" and "depth B = d"
    and els: "contents B = concat (map der_element els)" "\<forall>x\<in>set els. der_valid x"
    and "CBB_flush mal d cbb0 = (True, cbb)"
  shows "case CBB_flush_asn1_set_of mal d cbb0 of
      (True, cbb') \<Rightarrow> rep cbb' (with_contents B (concat (sort (map der_element els))))
    | (False, cbb') \<Rightarrow> cbb' = cbb \<and> \<not> ((\<forall>k. mal k \<noteq> None) \<and> length (contents B) < 2 ^ 59)"
proof -
  let ?base = "cbb_base cbb" and ?n = "length els" and ?bs = "map der_element els"
  note data = object_data(2) [OF assms(2), unfolded assms(3) CBB_len_rep [OF assms(2), unfolded assms(3)]
      CBB_data_rep [OF assms(2), unfolded assms(3)]]
  have count: "count_elements (contents B) = Some ?n"
    unfolding count_elements_iff using els by blast
  have r: "CBB_flush_asn1_set_of mal d cbb0 =
     (if ?n < 2 then (True, cbb)
      else case (OPENSSL_memdup mal (contents B), OPENSSL_calloc mal ?n SIZEOF_CBS) of
             (Some buf, Some _) \<Rightarrow>
               (case decode_n get_element_bytes ?n (take (length (contents B)) (user_data buf)) of
                  (None, _) \<Rightarrow> (False, cbb)
                | (Some children, _) \<Rightarrow>
                    (True, cbb\<lparr>cbb_base := ?base\<lparr>cb_buf :=
                       write_children (cb_buf ?base) (length (before B)) (qsort compare_set_of_element children)\<rparr>\<rparr>))
           | _ \<Rightarrow> (False, cbb))"
    using CBB_len_rep [OF assms(2), unfolded assms(3)] CBB_data_rep [OF assms(2), unfolded assms(3)]
    by (simp only: CBB_flush_asn1_set_of_def assms(6) and_then_simps Let_def data count option.case assms(3))
  show ?thesis
  proof (cases "?n < 2")
    case True
    then have "sort ?bs = ?bs" by (cases els; cases "tl els") auto
    then show ?thesis unfolding r using True assms(2) els(1) [symmetric] by simp
  next
    case False
    have "2 \<le> length (contents B)" unfolding els(1) using False elements_le_length [of els] by linarith
    then have ne: "contents B \<noteq> []" by auto
    have lim: "length (contents B) < SIZE_MOD"
      using assms(2) written_length [of ?base] layout_before [of B] by (auto simp: rep_def buf_ok_def)
    show ?thesis
    proof (cases "OPENSSL_memdup mal (contents B) = None \<or> OPENSSL_calloc mal ?n SIZEOF_CBS = None")
      case True
      have "\<not> ((\<forall>k. mal k \<noteq> None) \<and> length (contents B) < 2 ^ 59)"
        using memdup_calloc_total [OF assms(1) _ _ ne, of ?n] True elements_le_length [of els] els(1) by auto
      then show ?thesis unfolding r using False True by (auto split: option.splits)
    next
      case ok: False
      then obtain buf where buf: "OPENSSL_memdup mal (contents B) = Some buf" by (metis not_None_eq)
      then have u: "take (length (contents B)) (user_data buf) = contents B"
        using OPENSSL_memdup_Some [OF assms(1) lim] by simp
      have dec: "decode_n get_element_bytes ?n (contents B) = (Some ?bs, [])"
        unfolding els(1) by (rule decode_elements [OF els(2)])
      have len: "length (contents B) = length (concat (sort ?bs))"
        unfolding els(1) by (metis length_concat mset_sort mset_map sum_mset_sum_list)
      have w: "write_children (cb_buf ?base) (length (before B)) (sort ?bs) =
          before B @ concat (sort ?bs) @ drop (cb_len ?base) (cb_buf ?base)"
        by (subst object_data(1) [OF assms(2)]) (rule write_children_at [OF len])
      obtain z where z: "OPENSSL_calloc mal ?n SIZEOF_CBS = Some z" using ok by (metis not_None_eq)
      have "CBB_flush_asn1_set_of mal d cbb0 = (True, cbb\<lparr>cbb_base := ?base\<lparr>cb_buf :=
          before B @ concat (sort ?bs) @ drop (cb_len ?base) (cb_buf ?base)\<rparr>\<rparr>)"
        unfolding r by (simp only: if_not_P [OF False] buf z prod.case option.case u dec qsort_eq_sort w)
      moreover have "length (before B) + length (concat (sort ?bs)) = cb_len ?base"
        using assms(2) layout_before [of B] written_length [of ?base] len by (auto simp: rep_def)
      ultimately show ?thesis
        using assms(2) object_data(1) [OF assms(2)] len
        by (simp add: rep_def buf_ok_def written_def)
    qed
  qed
qed


section \<open>Properties\<close>

lemma set_of_flushed:
  assumes "malloc_ok mal" and "rep cbb B" and "d \<le> depth B"
    and "close_to d B = Some B1" and "ample mal (cbb_base cbb) (length (layout B1))"
  obtains c where "CBB_flush mal d cbb = (True, c)" and "rep c B1" and "depth B1 = d"
proof -
  obtain f c where fc: "CBB_flush mal d cbb = (f, c)" by fastforce
  with CBB_flush_realizes [OF assms(1-3)] assms(4,5) have "f" "rep c B1"
    by (auto simp: realizes_def split: if_splits)
  then show thesis using that fc close_to_depth [OF assms(4)] by simp
qed

text \<open>
  (C18) \<open>CBB_flush_asn1_set_of\<close> sorts: if the children below the object can be closed and its contents
  are then a sequence of DER elements, the call, given enough memory, succeeds, and the object then
  holds the same elements, byte string by byte string, in ascending lexicographic order, while
  everything in front of it in the buffer is untouched.
\<close>

theorem CBB_flush_asn1_set_of_sorts:
  assumes "malloc_ok mal" and "rep cbb B" and "d \<le> depth B"
    and "close_to d B = Some B1" and "ample mal (cbb_base cbb) (length (layout B1))"
    and "contents B1 = concat (map der_element els)" and "\<forall>x\<in>set els. der_valid x"
    and "\<forall>k. mal k \<noteq> None" and "length (contents B1) < 2 ^ 59"
  shows "\<exists>c. CBB_flush_asn1_set_of mal d cbb = (True, c) \<and>
    rep c (with_contents B1 (concat (sort (map der_element els))))"
proof -
  obtain c where "CBB_flush mal d cbb = (True, c)" "rep c B1" "depth B1 = d"
    using set_of_flushed [OF assms(1-5)] .
  from set_of_elements [OF assms(1) this(2,3) assms(6,7) this(1)] show ?thesis
    using assms(8,9) by (auto split: prod.splits bool.splits)
qed

text \<open>A witness: a SET OF with the INTEGERs 5 and 3, and an allocator that never fails.\<close>

definition set_cbb :: cbb where
  "set_cbb = \<lparr>cbb_base = \<lparr>cb_buf = [2, 1, 5, 2, 1, 3], cb_null = False, cb_len = 6, cb_cap = 6, cb_can_resize = False,
     cb_error = False\<rparr>, cbb_chain = []\<rparr>"

theorem CBB_flush_asn1_set_of_sorts_witness:
  "\<exists>c. CBB_flush_asn1_set_of zero_malloc 0 set_cbb = (True, c) \<and> rep c (Root [2, 1, 3, 2, 1, 5])"
proof -
  have r: "rep set_cbb (Root [2, 1, 5, 2, 1, 3])"
    by (simp add: rep_def set_cbb_def buf_ok_def written_def SIZE_MOD_def)
  note m = zero_malloc_total
  have e5: "der_element ([5], 2) = [2, 1, 5]" by code_simp
  have e3: "der_element ([3], 2) = [2, 1, 3]" by code_simp
  have v: "\<forall>x\<in>set [([5 :: byte], 2 :: asn1_tag), ([3], 2)]. der_valid x"
  proof -
    have "der_valid ([5], 2)" "der_valid ([3], 2)" unfolding der_valid_def by (simp_all, code_simp+)
    then show ?thesis by simp
  qed
  have s: "sort [[2, 1, 5], [2, 1, 3 :: byte]] = [[2, 1, 3], [2, 1, 5]]" by simp
  have "\<exists>c. CBB_flush_asn1_set_of zero_malloc 0 set_cbb = (True, c) \<and>
      rep c (with_contents (Root [2, 1, 5, 2, 1, 3]) (concat (sort (map der_element [([5], 2), ([3], 2)]))))"
  proof (rule CBB_flush_asn1_set_of_sorts [OF m(1) r _ _ _ _ v m(2)])
    show "close_to 0 (Root [2, 1, 5, 2, 1, 3]) = Some (Root [2, 1, 5, 2, 1, 3])"
      using close_to_same [of "Root [2, 1, 5, 2, 1, 3]"] by simp
  qed (simp_all add: e5 e3 ample_def set_cbb_def)
  then show ?thesis by (simp add: e5 e3 s)
qed

end
