(* ===== verification/Unicode.thy ===== *)
theory Unicode
  imports Cbb_Props
begin

text \<open>
  \<open>crypto/bytestring/unicode.c\<close>: reading and writing one code point in UTF-8, Latin-1, UCS-2 and
  UTF-32. The readers are canonical codecs and the writers refine appending the encoding.
\<close>

section \<open>Definitions\<close>

definition is_valid_code_point :: "u32 \<Rightarrow> bool" where
  "is_valid_code_point v \<longleftrightarrow>
     \<not> (v > 0x10ffff \<or> v AND 0xfffe = 0xfffe \<or> (v \<ge> 0xfdd0 \<and> v \<le> 0xfdef) \<or> (v \<ge> 0xd800 \<and> v \<le> 0xdfff))"

definition BOTTOM_BITS :: "nat \<Rightarrow> byte" where
  "BOTTOM_BITS n = push_bit n 1 - 1"

definition TOP_BITS :: "nat \<Rightarrow> byte" where
  "TOP_BITS n = NOT (BOTTOM_BITS (8 - n))"

fun utf8_loop :: "nat \<Rightarrow> cbs \<Rightarrow> u32 \<Rightarrow> u32 option \<times> cbs" where
  "utf8_loop 0 cbs v = (Some v, cbs)"
| "utf8_loop (Suc n) cbs v =
     (case CBS_get_u8 cbs of
        (None, cbs) \<Rightarrow> (None, cbs)
      | (Some c, cbs) \<Rightarrow>
          if c AND TOP_BITS 2 \<noteq> TOP_BITS 1 then (None, cbs)
          else utf8_loop n cbs (push_bit 6 v OR ucast (c AND BOTTOM_BITS 6)))"

definition CBS_get_utf8 :: "cbs \<Rightarrow> u32 option \<times> cbs" where
  "CBS_get_utf8 cbs =
     (case CBS_get_u8 cbs of
        (None, cbs) \<Rightarrow> (None, cbs)
      | (Some c, cbs) \<Rightarrow>
          let rest = (\<lambda>v len lower_bound.
                case utf8_loop len cbs v of
                  (None, cbs) \<Rightarrow> (None, cbs)
                | (Some v, cbs) \<Rightarrow>
                    if \<not> is_valid_code_point v \<or> v < lower_bound then (None, cbs) else (Some v, cbs))
          in if c \<le> 0x7f then (Some (ucast c), cbs)
             else if c AND TOP_BITS 3 = TOP_BITS 2 then rest (ucast (c AND BOTTOM_BITS 5)) 1 0x80
             else if c AND TOP_BITS 4 = TOP_BITS 3 then rest (ucast (c AND BOTTOM_BITS 4)) 2 0x800
             else if c AND TOP_BITS 5 = TOP_BITS 4 then rest (ucast (c AND BOTTOM_BITS 3)) 3 0x10000
             else (None, cbs))"

definition CBS_get_latin1 :: "cbs \<Rightarrow> u32 option \<times> cbs" where
  "CBS_get_latin1 cbs =
     (case CBS_get_u8 cbs of (None, cbs) \<Rightarrow> (None, cbs) | (Some c, cbs) \<Rightarrow> (Some (ucast c), cbs))"

definition CBS_get_ucs2_be :: "cbs \<Rightarrow> u32 option \<times> cbs" where
  "CBS_get_ucs2_be cbs =
     (case CBS_get_u16 cbs of
        (None, cbs) \<Rightarrow> (None, cbs)
      | (Some c, cbs) \<Rightarrow> if is_valid_code_point (ucast c) then (Some (ucast c), cbs) else (None, cbs))"

definition CBS_get_utf32_be :: "cbs \<Rightarrow> u32 option \<times> cbs" where
  "CBS_get_utf32_be cbs =
     (case CBS_get_u32 cbs of
        (None, cbs) \<Rightarrow> (None, cbs)
      | (Some v, cbs) \<Rightarrow> if is_valid_code_point v then (Some v, cbs) else (None, cbs))"

definition CBB_get_utf8_len :: "u32 \<Rightarrow> nat" where
  "CBB_get_utf8_len u = (if u \<le> 0x7f then 1 else if u \<le> 0x7ff then 2 else if u \<le> 0xffff then 3 else 4)"

definition CBB_add_utf8 :: "malloc_fn \<Rightarrow> nat \<Rightarrow> cbb \<Rightarrow> u32 \<Rightarrow> bool \<times> cbb" where
  "CBB_add_utf8 mal d cbb u =
     (if \<not> is_valid_code_point u then (False, cbb)
      else if u \<le> 0x7f then CBB_add_u8 mal d cbb (ucast u)
      else if u \<le> 0x7ff
      then and_then (CBB_add_u8 mal d cbb (TOP_BITS 2 OR ucast (drop_bit 6 u))) (\<lambda>cbb.
             CBB_add_u8 mal d cbb (TOP_BITS 1 OR (ucast u AND BOTTOM_BITS 6)))
      else if u \<le> 0xffff
      then and_then (CBB_add_u8 mal d cbb (TOP_BITS 3 OR ucast (drop_bit 12 u))) (\<lambda>cbb.
           and_then (CBB_add_u8 mal d cbb (TOP_BITS 1 OR (ucast (drop_bit 6 u) AND BOTTOM_BITS 6))) (\<lambda>cbb.
             CBB_add_u8 mal d cbb (TOP_BITS 1 OR (ucast u AND BOTTOM_BITS 6))))
      else if u \<le> 0x10ffff
      then and_then (CBB_add_u8 mal d cbb (TOP_BITS 4 OR ucast (drop_bit 18 u))) (\<lambda>cbb.
           and_then (CBB_add_u8 mal d cbb (TOP_BITS 1 OR (ucast (drop_bit 12 u) AND BOTTOM_BITS 6))) (\<lambda>cbb.
           and_then (CBB_add_u8 mal d cbb (TOP_BITS 1 OR (ucast (drop_bit 6 u) AND BOTTOM_BITS 6))) (\<lambda>cbb.
             CBB_add_u8 mal d cbb (TOP_BITS 1 OR (ucast u AND BOTTOM_BITS 6)))))
      else (False, cbb))"

definition CBB_add_latin1 :: "malloc_fn \<Rightarrow> nat \<Rightarrow> cbb \<Rightarrow> u32 \<Rightarrow> bool \<times> cbb" where
  "CBB_add_latin1 mal d cbb u = (if u \<le> 0xff then CBB_add_u8 mal d cbb (ucast u) else (False, cbb))"

definition CBB_add_ucs2_be :: "malloc_fn \<Rightarrow> nat \<Rightarrow> cbb \<Rightarrow> u32 \<Rightarrow> bool \<times> cbb" where
  "CBB_add_ucs2_be mal d cbb u =
     (if u \<le> 0xffff \<and> is_valid_code_point u then CBB_add_u16 mal d cbb (ucast u) else (False, cbb))"

definition CBB_add_utf32_be :: "malloc_fn \<Rightarrow> nat \<Rightarrow> cbb \<Rightarrow> u32 \<Rightarrow> bool \<times> cbb" where
  "CBB_add_utf32_be mal d cbb u =
     (if is_valid_code_point u then CBB_add_u32 mal d cbb u else (False, cbb))"

section \<open>UTF-8\<close>

text \<open>The UTF-8 form of a number, in arithmetic.\<close>

definition utf8 :: "nat \<Rightarrow> byte list" where
  "utf8 n =
     (if n \<le> 0x7f then [of_nat n]
      else if n \<le> 0x7ff then [of_nat (0xc0 + n div 64), of_nat (0x80 + n mod 64)]
      else if n \<le> 0xffff
      then [of_nat (0xe0 + n div 4096), of_nat (0x80 + n div 64 mod 64), of_nat (0x80 + n mod 64)]
      else [of_nat (0xf0 + n div 262144), of_nat (0x80 + n div 4096 mod 64), of_nat (0x80 + n div 64 mod 64),
            of_nat (0x80 + n mod 64)])"

lemma lead_bytes:
  "(c :: byte) AND TOP_BITS 2 = TOP_BITS 1 \<longleftrightarrow> 128 \<le> unat c \<and> unat c < 192"
  "c AND TOP_BITS 3 = TOP_BITS 2 \<longleftrightarrow> 192 \<le> unat c \<and> unat c < 224"
  "c AND TOP_BITS 4 = TOP_BITS 3 \<longleftrightarrow> 224 \<le> unat c \<and> unat c < 240"
  "c AND TOP_BITS 5 = TOP_BITS 4 \<longleftrightarrow> 240 \<le> unat c \<and> unat c < 248"
  by (rule byte_forallI [of "\<lambda>c. c AND TOP_BITS 2 = TOP_BITS 1 \<longleftrightarrow> 128 \<le> unat c \<and> unat c < 192" c], code_simp,
      rule byte_forallI [of "\<lambda>c. c AND TOP_BITS 3 = TOP_BITS 2 \<longleftrightarrow> 192 \<le> unat c \<and> unat c < 224" c], code_simp,
      rule byte_forallI [of "\<lambda>c. c AND TOP_BITS 4 = TOP_BITS 3 \<longleftrightarrow> 224 \<le> unat c \<and> unat c < 240" c], code_simp,
      rule byte_forallI [of "\<lambda>c. c AND TOP_BITS 5 = TOP_BITS 4 \<longleftrightarrow> 240 \<le> unat c \<and> unat c < 248" c], code_simp)

lemmas lead_cont = lead_bytes(1) [unfolded One_nat_def]

lemma unat_bottom:
  "unat ((c :: byte) AND BOTTOM_BITS 6) = unat c mod 64"
  "unat (c AND BOTTOM_BITS 5) = unat c mod 32"
  "unat (c AND BOTTOM_BITS 4) = unat c mod 16"
  "unat (c AND BOTTOM_BITS 3) = unat c mod 8"
  using unat_and_mask [of c 6] unat_and_mask [of c 5] unat_and_mask [of c 4] unat_and_mask [of c 3]
  by (simp_all add: BOTTOM_BITS_def mask_eq_exp_minus_1)

lemma unat_next:
  "unat v < 2 ^ 26 \<Longrightarrow> unat (push_bit 6 v OR ucast (c AND BOTTOM_BITS 6 :: byte) :: u32) = unat v * 64 + unat c mod 64"
  by (subst unat_shift_or) (simp_all add: unat_ucast_up unat_bottom)

text \<open>The loop in arithmetic.\<close>

fun utf8_cont :: "byte list \<Rightarrow> nat \<Rightarrow> nat" where
  "utf8_cont [] v = v"
| "utf8_cont (c # cs) v = utf8_cont cs (v * 64 + unat c mod 64)"

lemma utf8_loop_Some:
  "unat v < 2 ^ (32 - 6 * n) \<Longrightarrow> n \<le> 3 \<Longrightarrow>
   utf8_loop n cbs v = (Some u, cbs') \<longleftrightarrow>
     (\<exists>cs. length cs = n \<and> cbs = cs @ cbs' \<and> (\<forall>c\<in>set cs. 128 \<le> unat c \<and> unat c < 192) \<and>
           unat u = utf8_cont cs (unat v))"
proof (induction n arbitrary: cbs v)
  case 0
  then show ?case by (auto simp: word_unat_eq_iff)
next
  case (Suc n)
  show ?case
  proof (cases cbs)
    case (Cons c cs)
    have p: "(2::nat) ^ (32 - 6 * Suc n) * 64 = 2 ^ (32 - 6 * n)"
    proof -
      have "32 - 6 * n = (32 - 6 * Suc n) + 6" using Suc.prems(2) by simp
      then show ?thesis by (simp only: power_add) simp
    qed
    have "(2::nat) ^ (32 - 6 * Suc n) \<le> 2 ^ 26" by (intro power_increasing) auto
    then have small: "unat v < 2 ^ 26" using Suc.prems(1) by linarith
    let ?v = "push_bit 6 v OR ucast (c AND BOTTOM_BITS 6) :: u32"
    have nv: "unat ?v = unat v * 64 + unat c mod 64" using small by (rule unat_next)
    have "unat ?v < 2 ^ (32 - 6 * n)"
      unfolding nv p [symmetric] using Suc.prems(1) mod_less_divisor [of 64 "unat c"] by simp
    from Suc.IH [OF this, of cs] show ?thesis
      using Suc.prems(2) Cons nv by (auto simp: lead_cont Cons_eq_append_conv length_Suc_conv)
  qed (auto simp: Cons_eq_append_conv)
qed


lemma unat_of_nat_byte: "n < 256 \<Longrightarrow> unat (of_nat n :: byte) = n"
  by (simp add: unat_of_nat)

definition utf8_valid :: "u32 \<Rightarrow> bool" where
  "utf8_valid v \<longleftrightarrow> is_valid_code_point v"

lemma valid_max: "is_valid_code_point v \<Longrightarrow> unat v \<le> 0x10ffff"
  by (auto simp: is_valid_code_point_def word_le_nat_alt not_less)

lemma valid_ascii: "unat v \<le> 0x7f \<Longrightarrow> is_valid_code_point v"
proof -
  assume a: "unat v \<le> 0x7f"
  have "v AND 0xfffe \<noteq> 0xfffe"
  proof
    assume "v AND 0xfffe = 0xfffe"
    then have "bit (v AND 0xfffe) 8" by simp
    then have "bit v 8" by (simp add: bit_and_iff)
    then have "bit (unat v) 8" by (simp add: bit_unsigned_iff)
    moreover have "unat v div 2 ^ 8 = 0" using a by simp
    ultimately show False by (simp add: bit_iff_odd)
  qed
  then show ?thesis using a by (simp add: is_valid_code_point_def word_less_nat_alt word_le_nat_alt)
qed

text \<open>The three multi-byte forms: lead byte range, value bits and length.\<close>

lemma CBS_get_utf8_multi:
  assumes "unat (ucast b :: u32) < 2 ^ (32 - 6 * n)" and "n \<le> 3"
  shows "(case utf8_loop n cbs (ucast (b :: byte)) of
            (None, cbs) \<Rightarrow> (None, cbs)
          | (Some v, cbs) \<Rightarrow> if \<not> is_valid_code_point v \<or> v < lo then (None, cbs) else (Some v, cbs)) = (Some v, c')
     \<longleftrightarrow> is_valid_code_point v \<and> unat lo \<le> unat v \<and>
         (\<exists>cs. length cs = n \<and> cbs = cs @ c' \<and> (\<forall>c\<in>set cs. 128 \<le> unat c \<and> unat c < 192) \<and>
               unat v = utf8_cont cs (unat b))"
proof -
  have "(case utf8_loop n cbs (ucast b) of
            (None, cbs) \<Rightarrow> (None, cbs)
          | (Some v, cbs) \<Rightarrow> if \<not> is_valid_code_point v \<or> v < lo then (None, cbs) else (Some v, cbs)) = (Some v, c')
     \<longleftrightarrow> utf8_loop n cbs (ucast b) = (Some v, c') \<and> is_valid_code_point v \<and> unat lo \<le> unat v"
    by (auto simp: word_less_nat_alt not_less split: prod.splits option.splits)
  then show ?thesis
    using utf8_loop_Some [OF assms] by (auto simp: unat_ucast_up)
qed

lemma length_eq_2: "length cs = 2 \<longleftrightarrow> (\<exists>x y. cs = [x, y])"
  by (auto simp: numeral_2_eq_2 length_Suc_conv)

lemma length_eq_3: "length cs = 3 \<longleftrightarrow> (\<exists>x y z. cs = [x, y, z])"
  by (auto simp: numeral_3_eq_3 length_Suc_conv)

lemma CBS_get_utf8_cases:
  "CBS_get_utf8 (b # cbs) = (Some v, c') \<longleftrightarrow>
     is_valid_code_point v \<and>
     ((unat b \<le> 0x7f \<and> unat v = unat b \<and> cbs = c') \<or>
      (192 \<le> unat b \<and> unat b < 224 \<and> 0x80 \<le> unat v \<and>
        (\<exists>x. cbs = x # c' \<and> 128 \<le> unat x \<and> unat x < 192 \<and> unat v = unat b mod 32 * 64 + unat x mod 64)) \<or>
      (224 \<le> unat b \<and> unat b < 240 \<and> 0x800 \<le> unat v \<and>
        (\<exists>x y. cbs = x # y # c' \<and> 128 \<le> unat x \<and> unat x < 192 \<and> 128 \<le> unat y \<and> unat y < 192 \<and>
               unat v = (unat b mod 16 * 64 + unat x mod 64) * 64 + unat y mod 64)) \<or>
      (240 \<le> unat b \<and> unat b < 248 \<and> 0x10000 \<le> unat v \<and>
        (\<exists>x y z. cbs = x # y # z # c' \<and> 128 \<le> unat x \<and> unat x < 192 \<and> 128 \<le> unat y \<and> unat y < 192 \<and>
               128 \<le> unat z \<and> unat z < 192 \<and>
               unat v = ((unat b mod 8 * 64 + unat x mod 64) * 64 + unat y mod 64) * 64 + unat z mod 64)))"
proof -
  have a: "b \<le> 0x7f \<longleftrightarrow> unat b \<le> 0x7f" by (simp add: word_le_nat_alt)
  let ?chk = "\<lambda>n w lo. case utf8_loop n cbs w of (None, cbs) \<Rightarrow> (None, cbs)
     | (Some v, cbs) \<Rightarrow> if \<not> is_valid_code_point v \<or> v < lo then (None, cbs) else (Some v, cbs)"
  have 1: "unat (ucast (b AND BOTTOM_BITS 5) :: u32) < 2 ^ (32 - 6 * Suc 0)"
    and 2: "unat (ucast (b AND BOTTOM_BITS 4) :: u32) < 2 ^ (32 - 6 * 2)"
    and 3: "unat (ucast (b AND BOTTOM_BITS 3) :: u32) < 2 ^ (32 - 6 * 3)"
    by (simp_all add: unat_ucast_up unat_bottom)
  have le: "Suc 0 \<le> 3" "2 \<le> (3::nat)" "3 \<le> (3::nat)" by simp_all
  consider "unat b \<le> 0x7f" | "128 \<le> unat b" "unat b < 192" | "192 \<le> unat b" "unat b < 224"
    | "224 \<le> unat b" "unat b < 240" | "240 \<le> unat b" "unat b < 248" | "248 \<le> unat b" by linarith
  then show ?thesis
  proof cases
    case 1
    then have "unat (ucast b :: u32) = unat b" by (simp add: unat_ucast_up)
    then show ?thesis
      using 1 valid_ascii by (auto simp: CBS_get_utf8_def Let_def a word_unat_eq_iff)
  next
    case 3
    then have e: "CBS_get_utf8 (b # cbs) = ?chk (Suc 0) (ucast (b AND BOTTOM_BITS 5)) 0x80"
      by (simp add: CBS_get_utf8_def Let_def lead_bytes a del: utf8_loop.simps)
    show ?thesis
      unfolding e CBS_get_utf8_multi [OF 1 le(1)] using 3
      by (auto simp: unat_bottom length_Suc_conv Cons_eq_append_conv)
  next
    case 4
    then have e: "CBS_get_utf8 (b # cbs) = ?chk 2 (ucast (b AND BOTTOM_BITS 4)) 0x800"
      by (simp add: CBS_get_utf8_def Let_def lead_bytes a del: utf8_loop.simps)
    show ?thesis
      unfolding e CBS_get_utf8_multi [OF 2 le(2)] using 4
      by (auto simp: unat_bottom length_eq_2 Cons_eq_append_conv)
  next
    case 5
    then have e: "CBS_get_utf8 (b # cbs) = ?chk 3 (ucast (b AND BOTTOM_BITS 3)) 0x10000"
      by (simp add: CBS_get_utf8_def Let_def lead_bytes a del: utf8_loop.simps)
    show ?thesis
      unfolding e CBS_get_utf8_multi [OF 3 le(3)] using 5
      by (auto simp: unat_bottom length_eq_3 Cons_eq_append_conv)
  qed (auto simp: CBS_get_utf8_def Let_def lead_bytes a)
qed

text \<open>Lead and continuation bytes from their value bits, and back.\<close>

lemma range_mod:
  fixes k :: nat
  assumes "a \<le> k" and "k < a + m" and "m dvd a"
  shows "a + k mod m = k"
proof -
  obtain q where q: "a = m * q" using assms(3) by (elim dvdE)
  have "k mod m = (m * q + (k - a)) mod m" using assms(1) q by simp
  also have "\<dots> = (k - a) mod m" by (rule mod_mult_self4)
  also have "\<dots> = k - a" using assms(1,2) by simp
  finally show ?thesis using assms(1) by simp
qed

lemma lead_range:
  fixes k :: nat
  shows "192 \<le> k \<Longrightarrow> k < 224 \<Longrightarrow> 192 + k mod 32 = k"
    and "224 \<le> k \<Longrightarrow> k < 240 \<Longrightarrow> 224 + k mod 16 = k"
    and "240 \<le> k \<Longrightarrow> k < 248 \<Longrightarrow> 240 + k mod 8 = k"
    and "128 \<le> k \<Longrightarrow> k < 192 \<Longrightarrow> 128 + k mod 64 = k"
  by (rule range_mod; simp)+

lemma byte_of_bits:
  fixes b :: byte
  shows "192 \<le> unat b \<Longrightarrow> unat b < 224 \<Longrightarrow> of_nat (192 + unat b mod 32) = b"
    and "224 \<le> unat b \<Longrightarrow> unat b < 240 \<Longrightarrow> of_nat (224 + unat b mod 16) = b"
    and "240 \<le> unat b \<Longrightarrow> unat b < 248 \<Longrightarrow> of_nat (240 + unat b mod 8) = b"
    and "128 \<le> unat b \<Longrightarrow> unat b < 192 \<Longrightarrow> of_nat (128 + unat b mod 64) = b"
  by (simp_all only: lead_range of_nat_unat)

lemma base64_digits:
  fixes x s :: nat
  assumes "s < 64"
  shows "(x * 64 + s) div 64 = x" and "(x * 64 + s) mod 64 = s"
  using assms by simp_all

lemma div64_steps: "n div 4096 = n div 64 div 64" "n div 262144 = n div 64 div 64 div (64::nat)"
  by (simp_all add: div_mult2_eq [symmetric])

lemma utf8_form2:
  "q < 32 \<Longrightarrow> r < 64 \<Longrightarrow> 0x80 \<le> q * 64 + r \<Longrightarrow> utf8 (q * 64 + r) = [of_nat (192 + q), of_nat (128 + r)]"
  by (simp add: utf8_def del: of_nat_add)

lemma utf8_form3:
  assumes "q < 16" and "r < 64" and "s < 64" and n: "n = (q * 64 + r) * 64 + s" and "0x800 \<le> n"
  shows "utf8 n = [of_nat (224 + q), of_nat (128 + r), of_nat (128 + s)]"
proof -
  have d: "n div 64 = q * 64 + r" "n mod 64 = s" using assms(3) by (simp_all only: n base64_digits)
  have "q * 64 + r \<le> 1023" using assms(1,2) by linarith
  then have "(q * 64 + r) * 64 \<le> 1023 * 64" by (rule mult_le_mono1)
  then have "n \<le> 0xffff" using assms(3) unfolding n by linarith
  then show ?thesis using assms(1,2,5) by (simp add: utf8_def div64_steps d del: of_nat_add)
qed

lemma utf8_form4:
  assumes "q < 8" and "r < 64" and "s < 64" and "t < 64"
    and n: "n = ((q * 64 + r) * 64 + s) * 64 + t" and "0x10000 \<le> n"
  shows "utf8 n = [of_nat (240 + q), of_nat (128 + r), of_nat (128 + s), of_nat (128 + t)]"
proof -
  have d: "n div 64 = (q * 64 + r) * 64 + s" "n mod 64 = t" using assms(4) by (simp_all only: n base64_digits)
  have e: "((q * 64 + r) * 64 + s) div 64 = q * 64 + r" "((q * 64 + r) * 64 + s) mod 64 = s"
    using assms(3) by (simp_all only: base64_digits)
  have f: "(q * 64 + r) div 64 = q" "(q * 64 + r) mod 64 = r" using assms(2) by (simp_all only: base64_digits)
  show ?thesis using assms(6) by (simp only: utf8_def div64_steps d e f) simp
qed

lemma CBS_get_utf8_sound:
  assumes "CBS_get_utf8 c = (Some v, c')"
  shows "is_valid_code_point v \<and> c = utf8 (unat v) @ c'"
proof -
  obtain b cbs where c: "c = b # cbs" using assms by (cases c) (auto simp: CBS_get_utf8_def)
  note C = assms [unfolded c CBS_get_utf8_cases]
  then have v: "is_valid_code_point v" by blast
  from C consider
      "unat b \<le> 0x7f" "unat v = unat b" "cbs = c'"
    | x where "192 \<le> unat b" "unat b < 224" "0x80 \<le> unat v" "cbs = x # c'" "128 \<le> unat x" "unat x < 192"
        "unat v = unat b mod 32 * 64 + unat x mod 64"
    | x y where "224 \<le> unat b" "unat b < 240" "0x800 \<le> unat v" "cbs = x # y # c'" "128 \<le> unat x" "unat x < 192"
        "128 \<le> unat y" "unat y < 192" "unat v = (unat b mod 16 * 64 + unat x mod 64) * 64 + unat y mod 64"
    | x y z where "240 \<le> unat b" "unat b < 248" "0x10000 \<le> unat v" "cbs = x # y # z # c'" "128 \<le> unat x"
        "unat x < 192" "128 \<le> unat y" "unat y < 192" "128 \<le> unat z" "unat z < 192"
        "unat v = ((unat b mod 8 * 64 + unat x mod 64) * 64 + unat y mod 64) * 64 + unat z mod 64"
    by blast
  then show ?thesis
  proof cases
    case 1
    then have "utf8 (unat v) = [b]" by (simp add: utf8_def)
    then show ?thesis using v c 1 by simp
  next
    case 2
    have "utf8 (unat v) = [of_nat (192 + unat b mod 32), of_nat (128 + unat x mod 64)]"
      using 2(3) unfolding 2(7) by (intro utf8_form2) simp_all
    then show ?thesis using v c 2 by (simp only: byte_of_bits) simp
  next
    case 3
    have "utf8 (unat v) = [of_nat (224 + unat b mod 16), of_nat (128 + unat x mod 64), of_nat (128 + unat y mod 64)]"
      using 3(3,9) by (intro utf8_form3) simp_all
    then show ?thesis using v c 3 by (simp only: byte_of_bits) simp
  next
    case 4
    have "utf8 (unat v) = [of_nat (240 + unat b mod 8), of_nat (128 + unat x mod 64), of_nat (128 + unat y mod 64),
        of_nat (128 + unat z mod 64)]"
      using 4(3,11) by (intro utf8_form4) simp_all
    then show ?thesis using v c 4 by (simp only: byte_of_bits) simp
  qed
qed

lemma unat_bits:
  "q < 32 \<Longrightarrow> unat (of_nat (192 + q) :: byte) = 192 + q" "q < 16 \<Longrightarrow> unat (of_nat (224 + q) :: byte) = 224 + q"
  "q < 8 \<Longrightarrow> unat (of_nat (240 + q) :: byte) = 240 + q" "q < 64 \<Longrightarrow> unat (of_nat (128 + q) :: byte) = 128 + q"
  by (simp_all add: unat_of_nat del: of_nat_add)

lemma CBS_get_utf8_complete:
  assumes "is_valid_code_point v"
  shows "CBS_get_utf8 (utf8 (unat v) @ c') = (Some v, c')"
proof -
  obtain n where n: "unat v = n" by blast
  then have max: "n \<le> 0x10ffff" using assms valid_max by blast
  have mods: "(192 + q) mod 32 = q mod 32" "(224 + q) mod 16 = q mod 16" "(240 + q) mod 8 = q mod 8"
    "(128 + q) mod 64 = q mod 64" for q :: nat
    using mod_mult_self3 [of 6 32 q] mod_mult_self3 [of 14 16 q] mod_mult_self3 [of 30 8 q]
      mod_mult_self3 [of 2 64 q] by simp_all
  have h: "n = n div 64 * 64 + n mod 64" "n div 64 = n div 64 div 64 * 64 + n div 64 mod 64"
    "n div 64 div 64 = n div 64 div 64 div 64 * 64 + n div 64 div 64 mod 64" by (simp_all only: div_mult_mod_eq)
  consider "n \<le> 0x7f" | "0x80 \<le> n" "n \<le> 0x7ff" | "0x800 \<le> n" "n \<le> 0xffff" | "0x10000 \<le> n"
    by linarith
  then show ?thesis
  proof cases
    case 1
    then show ?thesis using assms n by (simp add: utf8_def CBS_get_utf8_cases unat_of_nat_byte)
  next
    case 2
    then have q: "n div 64 < 32" by (simp add: div_less_iff_less_mult)
    show ?thesis
      using 2 assms n q h(1) by (simp add: utf8_def CBS_get_utf8_cases unat_bits mods del: of_nat_add)
  next
    case 3
    then have q: "n div 64 div 64 < 16" by (simp add: div_less_iff_less_mult flip: div_mult2_eq)
    show ?thesis
      using 3 assms n q by (simp add: utf8_def div64_steps CBS_get_utf8_cases unat_bits mods del: of_nat_add)
        (use h in linarith)
  next
    case 4
    then have q: "n div 64 div 64 div 64 < 8" using max by (simp add: div_less_iff_less_mult flip: div_mult2_eq)
    show ?thesis
      using 4 assms n q max by (simp add: utf8_def div64_steps CBS_get_utf8_cases unat_bits mods del: of_nat_add)
        (use h in linarith)
  qed
qed

interpretation utf8_codec: canonical_codec "\<lambda>v. utf8 (unat v)" CBS_get_utf8 is_valid_code_point
  by unfold_locales (auto simp: CBS_get_utf8_complete dest: CBS_get_utf8_sound)


section \<open>The writer\<close>

lemma unat_TOP_BITS:
  "unat (TOP_BITS 1) = 128" "unat (TOP_BITS 2) = 192" "unat (TOP_BITS 3) = 224" "unat (TOP_BITS 4) = 240"
  by code_simp+

lemma or_lead:
  fixes x :: byte
  assumes "unat x < 2 ^ (7 - k)" and "k \<le> 4" and "1 \<le> k"
  shows "TOP_BITS k OR x = of_nat (256 - 2 ^ (8 - k) + unat x)"
proof -
  from assms(2,3) consider "k = 1" | "k = 2" | "k = 3" | "k = 4" by linarith
  then have t: "unat (TOP_BITS k) = 256 - 2 ^ (8 - k)"
    using unat_TOP_BITS by cases simp_all
  have "TOP_BITS k OR x = TOP_BITS k + x"
  proof (rule word_or_add_disjoint)
    show "unat x < 2 ^ (7 - k)" by (rule assms)
    from assms(2,3) consider "k = 1" | "k = 2" | "k = 3" | "k = 4" by linarith
    then show "2 ^ (7 - k) dvd unat (TOP_BITS k)" unfolding t by cases simp_all
  qed
  also have "\<dots> = of_nat (unat (TOP_BITS k) + unat x)" by simp
  finally show ?thesis by (simp only: t)
qed

lemma utf8_units:
  fixes u :: u32
  shows "unat u \<le> 0x7ff \<Longrightarrow> TOP_BITS 2 OR ucast (drop_bit 6 u) = of_nat (0xc0 + unat u div 64)"
    and "unat u \<le> 0xffff \<Longrightarrow> TOP_BITS 3 OR ucast (drop_bit 12 u) = of_nat (0xe0 + unat u div 4096)"
    and "unat u \<le> 0x10ffff \<Longrightarrow> TOP_BITS 4 OR ucast (drop_bit 18 u) = of_nat (0xf0 + unat u div 262144)"
    and "TOP_BITS 1 OR (ucast (drop_bit k u) AND BOTTOM_BITS 6) = of_nat (0x80 + unat u div 2 ^ k mod 64)"
    and "TOP_BITS 1 OR (ucast u AND BOTTOM_BITS 6) = of_nat (0x80 + unat u mod 64)"
proof -
  have d: "unat (ucast (drop_bit k u) :: byte) = unat u div 2 ^ k mod 256" for k
    by (simp add: unat_ucast_down unat_drop_bit)
  have c: "unat (ucast (drop_bit k u) AND BOTTOM_BITS 6 :: byte) = unat u div 2 ^ k mod 64" for k
    by (simp add: unat_bottom d mod_mod_cancel)
  show "unat u \<le> 0x7ff \<Longrightarrow> TOP_BITS 2 OR ucast (drop_bit 6 u) = of_nat (0xc0 + unat u div 64)"
    using or_lead [of "ucast (drop_bit 6 u)" 2] d [of 6] div_less_iff_less_mult [of 64 "unat u" 32] by simp
  show "unat u \<le> 0xffff \<Longrightarrow> TOP_BITS 3 OR ucast (drop_bit 12 u) = of_nat (0xe0 + unat u div 4096)"
    using or_lead [of "ucast (drop_bit 12 u)" 3] d [of 12] div_less_iff_less_mult [of 4096 "unat u" 16] by simp
  show "unat u \<le> 0x10ffff \<Longrightarrow> TOP_BITS 4 OR ucast (drop_bit 18 u) = of_nat (0xf0 + unat u div 262144)"
    using or_lead [of "ucast (drop_bit 18 u)" 4] d [of 18] div_less_iff_less_mult [of 262144 "unat u" 8] by simp
  show k: "TOP_BITS 1 OR (ucast (drop_bit k u) AND BOTTOM_BITS 6) = of_nat (0x80 + unat u div 2 ^ k mod 64)" for k
    using or_lead [of "ucast (drop_bit k u) AND BOTTOM_BITS 6" 1] c [of k] by simp
  show "TOP_BITS 1 OR (ucast u AND BOTTOM_BITS 6) = of_nat (0x80 + unat u mod 64)"
    using k [of 0] by simp
qed

lemma u8_then_realizes_to:
  assumes "malloc_ok mal" and "rep c B" and "d \<le> depth B"
    and k: "\<And>c' B'. rep c' B' \<Longrightarrow> depth B' = d \<Longrightarrow> realizes mal (cbb_base c') (k c') (Some (put B' rest))"
  shows "realizes mal (cbb_base c) (and_then (CBB_add_u8 mal d c x) k) (put_to d B (x # rest))"
proof -
  have "realizes mal (cbb_base c) (and_then (CBB_add_u8 mal d c x) k)
      (Option.bind (put_to d B [x]) (\<lambda>B'. Some (put B' rest)))"
    by (rule realizes_and_then [OF CBB_add_u8_realizes [OF assms(1-3)]])
      (auto simp: bind_eq_Some_conv intro!: k dest: close_to_depth)
  then show ?thesis by (cases "close_to d B") simp_all
qed

lemma CBB_add_utf8_realizes:
  assumes "malloc_ok mal" and "rep cbb B" and "d \<le> depth B" and "is_valid_code_point u"
  shows "realizes mal (cbb_base cbb) (CBB_add_utf8 mal d cbb u) (put_to d B (utf8 (unat u)))"
proof -
  obtain n where n: "unat u = n" by blast
  have max: "n \<le> 0x10ffff" using assms(4) valid_max n by blast
  have c: "u \<le> 0x7f \<longleftrightarrow> n \<le> 0x7f" "u \<le> 0x7ff \<longleftrightarrow> n \<le> 0x7ff"
    "u \<le> 0xffff \<longleftrightarrow> n \<le> 0xffff" "u \<le> 0x10ffff \<longleftrightarrow> n \<le> 0x10ffff"
    by (simp_all add: word_le_nat_alt n)
  have asc: "ucast u = (of_nat n :: byte)" unfolding n [symmetric] by simp
  note units = utf8_units(1-3) [of u] utf8_units(4) [of 6 u] utf8_units(4) [of 12 u] utf8_units(5) [of u]
  note U = units [unfolded n, simplified]
  note start = u8_then_realizes_to [OF assms(1-3)]
  note W = u8_then_realizes [OF assms(1)] u8_realizes [OF assms(1)]
  consider "n \<le> 0x7f" | "0x80 \<le> n" "n \<le> 0x7ff" | "0x800 \<le> n" "n \<le> 0xffff" | "0x10000 \<le> n" by linarith
  then show ?thesis
  proof cases
    case 1
    then show ?thesis
      using CBB_add_u8_realizes [OF assms(1-3), of "ucast u"] assms(4)
      by (simp add: CBB_add_utf8_def c asc n utf8_def)
  next
    case 2
    have "CBB_add_utf8 mal d cbb u =
        and_then (CBB_add_u8 mal d cbb (of_nat (0xc0 + n div 64))) (\<lambda>cbb.
          CBB_add_u8 mal d cbb (of_nat (0x80 + n mod 64)))"
      using 2 assms(4) U by (simp add: CBB_add_utf8_def c)
    then show ?thesis using 2 by (simp only: n utf8_def) (simp del: of_nat_add, intro start W)
  next
    case 3
    have "CBB_add_utf8 mal d cbb u =
        and_then (CBB_add_u8 mal d cbb (of_nat (0xe0 + n div 4096))) (\<lambda>cbb.
        and_then (CBB_add_u8 mal d cbb (of_nat (0x80 + n div 64 mod 64))) (\<lambda>cbb.
          CBB_add_u8 mal d cbb (of_nat (0x80 + n mod 64))))"
      using 3 assms(4) U by (simp add: CBB_add_utf8_def c)
    then show ?thesis using 3 by (simp only: n utf8_def) (simp del: of_nat_add, intro start W)
  next
    case 4
    have "CBB_add_utf8 mal d cbb u =
        and_then (CBB_add_u8 mal d cbb (of_nat (0xf0 + n div 262144))) (\<lambda>cbb.
        and_then (CBB_add_u8 mal d cbb (of_nat (0x80 + n div 4096 mod 64))) (\<lambda>cbb.
        and_then (CBB_add_u8 mal d cbb (of_nat (0x80 + n div 64 mod 64))) (\<lambda>cbb.
          CBB_add_u8 mal d cbb (of_nat (0x80 + n mod 64)))))"
      using 4 assms(4) U max by (simp add: CBB_add_utf8_def c)
    then show ?thesis using 4 by (simp only: n utf8_def) (simp del: of_nat_add, intro start W)
  qed
qed

interpretation utf8_rw: cbb_codec "\<lambda>v. utf8 (unat v)" CBS_get_utf8 is_valid_code_point
  "\<lambda>mal v d cbb. CBB_add_utf8 mal d cbb v"
  by unfold_locales (rule CBB_add_utf8_realizes)

lemma ucs2_narrow: "unat u \<le> 0xffff \<Longrightarrow> ucast (ucast (u :: u32) :: u16) = u"
  by (rule word_unat_eq_iff [THEN iffD2]) (simp add: unat_ucast_up unat_ucast_down)

interpretation ucs2_rw: cbb_codec "\<lambda>v. be_bytes 2 (unat v)" CBS_get_ucs2_be
  "\<lambda>v. v \<le> 0xffff \<and> is_valid_code_point v" "\<lambda>mal v d cbb. CBB_add_ucs2_be mal d cbb v"
proof
  fix v rest assume v: "v \<le> (0xffff :: u32) \<and> is_valid_code_point v"
  then have n: "unat v \<le> 0xffff" by (simp add: word_le_nat_alt)
  then have "unat (ucast v :: u16) = unat v" by (simp add: unat_ucast_down)
  then have "CBS_get_u16 (be_bytes 2 (unat v) @ rest) = (Some (ucast v), rest)"
    using u16_codec.dec_enc [of "ucast v" rest] n by simp
  then show "CBS_get_ucs2_be (be_bytes 2 (unat v) @ rest) = (Some v, rest)"
    using v n by (simp add: CBS_get_ucs2_be_def ucs2_narrow)
next
  fix mal cbb B d v
  assume a: "malloc_ok mal" "rep cbb B" "d \<le> depth B" and v: "v \<le> (0xffff :: u32) \<and> is_valid_code_point v"
  then have n: "unat v \<le> 0xffff" by (simp add: word_le_nat_alt)
  then have u: "unat (ucast v :: u16) = unat v" by (simp add: unat_ucast_down)
  then show "realizes mal (cbb_base cbb) (CBB_add_ucs2_be mal d cbb v) (put_to d B (be_bytes 2 (unat v)))"
    using u16_rw.w_realizes [OF a, of "ucast v"] v n by (simp add: CBB_add_ucs2_be_def)
qed

interpretation utf32_rw: cbb_codec "\<lambda>v. be_bytes 4 (unat v)" CBS_get_utf32_be is_valid_code_point
  "\<lambda>mal v d cbb. CBB_add_utf32_be mal d cbb v"
proof
  fix v rest assume "is_valid_code_point v"
  then show "CBS_get_utf32_be (be_bytes 4 (unat v) @ rest) = (Some v, rest)"
    using u32_codec.dec_enc [of v rest] unat_u32_less [of v] by (simp add: CBS_get_utf32_be_def)
next
  fix mal cbb B d v
  assume a: "malloc_ok mal" "rep cbb B" "d \<le> depth B" and v: "is_valid_code_point v"
  then show "realizes mal (cbb_base cbb) (CBB_add_utf32_be mal d cbb v) (put_to d B (be_bytes 4 (unat v)))"
    using u32_rw.w_realizes [OF a, of v] unat_u32_less [of v] by (simp add: CBB_add_utf32_be_def)
qed

section \<open>Properties\<close>

text \<open>
  (C12) \<open>CBS_get_utf8\<close> accepts exactly well-formed UTF-8: it returns \<open>v\<close> and leaves \<open>c'\<close> if and only
  if \<open>v\<close> is a code point that may be interchanged (no surrogate, no noncharacter, at most
  \<open>10FFFF\<close>) and the input is the one shortest UTF-8 form of \<open>v\<close> followed by \<open>c'\<close>. Overlong forms
  and truncated sequences are rejected.
\<close>

theorem CBS_get_utf8_exact:
  "CBS_get_utf8 c = (Some v, c') \<longleftrightarrow> is_valid_code_point v \<and> c = utf8 (unat v) @ c'"
  by (rule utf8_codec.dec_Some_iff)

text \<open>
  A string of valid code points written with \<open>CBB_add_utf8\<close> into a fixed buffer that has room
  for it is written completely, and \<open>CBS_get_utf8\<close> reads the same code points back.
\<close>

theorem utf8_string_round_trip:
  assumes "malloc_ok mal" and "\<forall>v\<in>set vs. is_valid_code_point v" and "length buf < SIZE_MOD"
    and "length (concat (map (\<lambda>v. utf8 (unat v)) vs)) \<le> length buf"
  shows "\<exists>cbb out n cbb'.
    write_all (\<lambda>mal v d cbb. CBB_add_utf8 mal d cbb v) mal vs (CBB_init_fixed buf (length buf)) = (True, cbb) \<and>
    CBB_finish mal 0 True cbb = (Some (out, n), cbb') \<and> n = (\<Sum>v\<leftarrow>vs. CBB_get_utf8_len v) \<and>
    decode_n CBS_get_utf8 (length vs) (take n out) = (Some vs, [])"
proof -
  have "length (utf8 (unat v)) = CBB_get_utf8_len v" for v :: u32
    by (simp add: utf8_def CBB_get_utf8_len_def word_le_nat_alt)
  then show ?thesis
    using utf8_rw.write_read [OF assms] by (simp add: length_concat comp_def)
qed

theorem utf8_string_round_trip_witness:
  "\<exists>cbb out n cbb'.
    write_all (\<lambda>mal v d cbb. CBB_add_utf8 mal d cbb v) (\<lambda>_. None) [0x41, 0xe9]
      (CBB_init_fixed [0, 0, 0, 0] (length [0, 0, 0, 0 :: byte])) = (True, cbb) \<and>
    CBB_finish (\<lambda>_. None) 0 True cbb = (Some (out, n), cbb') \<and> n = (\<Sum>v\<leftarrow>[0x41, 0xe9]. CBB_get_utf8_len v) \<and>
    decode_n CBS_get_utf8 (length [0x41, 0xe9 :: u32]) (take n out) = (Some [0x41, 0xe9], [])"
  by (rule utf8_string_round_trip [OF malloc_ok_None])
    (simp_all add: is_valid_code_point_def SIZE_MOD_def utf8_def)

end
