(* ===== verification/Cbb_Errors.thy ===== *)
theory Cbb_Errors
  imports Oid Set_Of Unicode
begin

text \<open>
  What happens to a builder after an error: the operations on a \<open>CBB\<close> as data, their runs in any order,
  and what an error means for what comes after it.
\<close>

section \<open>Operations\<close>

text \<open>
  The operations of \<open>cbb.c\<close> and \<open>unicode.c\<close> that change a builder, each on the object at a depth.
  \<open>Add_u d v n\<close> stands for \<open>CBB_add_u8\<close> to \<open>CBB_add_u64le\<close>, \<open>Length_prefixed\<close> for the three functions that
  add a child with a length prefix.
\<close>

datatype cbb_op =
    Flush nat | Finish nat bool | Add_space nat nat | Reserve nat nat | Did_write nat nat | Discard_child nat
  | Add_bytes nat "byte list" | Add_zeros nat nat | Add_u nat u64 nat | Length_prefixed nat nat | Add_asn1 nat asn1_tag
  | Add_uint64 nat u64 asn1_tag | Add_int64 nat u64 asn1_tag | Add_octet_string nat "byte list" | Add_bool nat int
  | Add_oid nat "byte list" | Flush_set_of nat | Add_utf8 nat u32 | Add_latin1 nat u32 | Add_ucs2 nat u32 | Add_utf32 nat u32

fun run_op :: "malloc_fn \<Rightarrow> cbb_op \<Rightarrow> cbb \<Rightarrow> bool \<times> cbb" where
  "run_op mal (Flush d) cbb = CBB_flush mal d cbb"
| "run_op mal (Finish d want) cbb = (case CBB_finish mal d want cbb of (r, cbb) \<Rightarrow> (r \<noteq> None, cbb))"
| "run_op mal (Add_space d n) cbb = (case CBB_add_space mal d cbb n of (r, cbb) \<Rightarrow> (r \<noteq> None, cbb))"
| "run_op mal (Reserve d n) cbb = (case CBB_reserve mal d cbb n of (r, cbb) \<Rightarrow> (r \<noteq> None, cbb))"
| "run_op mal (Did_write d n) cbb = CBB_did_write d cbb n"
| "run_op mal (Discard_child d) cbb = (True, CBB_discard_child d cbb)"
| "run_op mal (Add_bytes d data) cbb = CBB_add_bytes mal d cbb data"
| "run_op mal (Add_zeros d n) cbb = CBB_add_zeros mal d cbb n"
| "run_op mal (Add_u d v n) cbb = cbb_add_u mal d cbb v n"
| "run_op mal (Length_prefixed d n) cbb = cbb_add_length_prefixed mal d cbb n"
| "run_op mal (Add_asn1 d tag) cbb = CBB_add_asn1 mal d cbb tag"
| "run_op mal (Add_uint64 d v tag) cbb = CBB_add_asn1_uint64_with_tag mal d cbb v tag"
| "run_op mal (Add_int64 d v tag) cbb = CBB_add_asn1_int64_with_tag mal d cbb v tag"
| "run_op mal (Add_octet_string d data) cbb = CBB_add_asn1_octet_string mal d cbb data"
| "run_op mal (Add_bool d v) cbb = CBB_add_asn1_bool mal d cbb v"
| "run_op mal (Add_oid d text) cbb = CBB_add_asn1_oid_from_text mal d cbb text"
| "run_op mal (Flush_set_of d) cbb = CBB_flush_asn1_set_of mal d cbb"
| "run_op mal (Add_utf8 d u) cbb = CBB_add_utf8 mal d cbb u"
| "run_op mal (Add_latin1 d u) cbb = CBB_add_latin1 mal d cbb u"
| "run_op mal (Add_ucs2 d u) cbb = CBB_add_ucs2_be mal d cbb u"
| "run_op mal (Add_utf32 d u) cbb = CBB_add_utf32_be mal d cbb u"

text \<open>\<open>CBB_did_write\<close> and \<open>CBB_discard_child\<close> do not look at the error flag.\<close>

fun checks_error :: "cbb_op \<Rightarrow> bool" where
  "checks_error (Did_write d n) = False"
| "checks_error (Discard_child d) = False"
| "checks_error op = True"

text \<open>A run, each operation with the allocator as it is then; and what the operations return.\<close>

fun run_ops :: "(malloc_fn \<times> cbb_op) list \<Rightarrow> cbb \<Rightarrow> bool list \<times> cbb" where
  "run_ops [] cbb = ([], cbb)"
| "run_ops ((mal, op) # ops) cbb =
     (case run_op mal op cbb of (r, cbb) \<Rightarrow> (case run_ops ops cbb of (rs, cbb) \<Rightarrow> (r # rs, cbb)))"

section \<open>After an error\<close>

text \<open>Only the length of the contents may still change.\<close>

definition frozen :: "cbb \<Rightarrow> cbb \<Rightarrow> bool" where
  "frozen c c' \<longleftrightarrow>
     cb_error (cbb_base c') = cb_error (cbb_base c) \<and> cb_buf (cbb_base c') = cb_buf (cbb_base c) \<and>
     cb_null (cbb_base c') = cb_null (cbb_base c) \<and> cb_cap (cbb_base c') = cb_cap (cbb_base c) \<and>
     cb_can_resize (cbb_base c') = cb_can_resize (cbb_base c)"

lemma frozen_refl [simp]: "frozen c c"
  by (simp add: frozen_def)

lemma frozen_trans: "frozen c c' \<Longrightarrow> frozen c' c'' \<Longrightarrow> frozen c c''"
  by (simp add: frozen_def)

text \<open>A call that fails and writes nothing.\<close>

definition stuck :: "cbb \<Rightarrow> bool \<times> cbb \<Rightarrow> bool" where
  "stuck c r \<longleftrightarrow> \<not> fst r \<and> frozen c (snd r)"

lemma stuck_and_then: "stuck c r \<Longrightarrow> stuck c (and_then r k)"
  by (simp add: stuck_def and_then_def)

lemma stuck_or_on_error: "cb_error (cbb_base c) \<Longrightarrow> stuck c r \<Longrightarrow> stuck c (or_on_error d r)"
  by (auto simp: stuck_def or_on_error_def frozen_def cbb_on_error_def cb_set_error_def)

lemma stuck_fail [simp]: "stuck c (False, c)"
  by (simp add: stuck_def)

lemma error_flush: "cb_error (cbb_base c) \<Longrightarrow> CBB_flush mal d c = (False, c)"
  by (subst CBB_flush.simps) simp

lemma error_space: "cb_error (cbb_base c) \<Longrightarrow> CBB_add_space mal d c n = (None, c)"
  by (simp add: CBB_add_space_def error_flush)

lemma error_u: "cb_error (cbb_base c) \<Longrightarrow> cbb_add_u mal d c v n = (False, c)"
  by (simp add: cbb_add_u_def error_space)

lemmas add_u_defs = CBB_add_u8_def CBB_add_u16_def CBB_add_u32_def

lemma error_asn1: "cb_error (cbb_base c) \<Longrightarrow> CBB_add_asn1 mal d c tag = (False, c)"
  by (simp add: CBB_add_asn1_def error_flush)

lemma error_uint64:
  assumes "cb_error (cbb_base c)"
  shows "stuck c (CBB_add_asn1_uint64_with_tag mal d c v tag)"
  unfolding CBB_add_asn1_uint64_with_tag_def error_asn1 [OF assms]
  by (intro stuck_and_then stuck_or_on_error assms) simp

lemma error_int64:
  assumes "cb_error (cbb_base c)"
  shows "stuck c (CBB_add_asn1_int64_with_tag mal d c v tag)"
  unfolding CBB_add_asn1_int64_with_tag_def error_asn1 [OF assms] Let_def
  using error_uint64 [OF assms] by (auto intro!: stuck_and_then stuck_or_on_error assms)

lemma error_string_and_bool:
  assumes "cb_error (cbb_base c)"
  shows "stuck c (CBB_add_asn1_octet_string mal d c data)" "stuck c (CBB_add_asn1_bool mal d c b)"
  unfolding CBB_add_asn1_octet_string_def CBB_add_asn1_bool_def error_asn1 [OF assms]
  by (auto intro!: stuck_or_on_error assms)

lemma error_stuck:
  assumes "cb_error (cbb_base c)" and "checks_error op"
  shows "stuck c (run_op mal op c)"
  using assms(2) error_uint64 [OF assms(1)] error_int64 [OF assms(1)] error_string_and_bool [OF assms(1)]
  by (cases op)
    (simp_all add: assms(1) error_flush error_space error_u error_asn1 CBB_finish_def CBB_reserve_def CBB_add_bytes_def
      CBB_add_zeros_def cbb_add_length_prefixed_def CBB_add_asn1_oid_from_text_def CBB_flush_asn1_set_of_def
      CBB_add_utf8_def CBB_add_latin1_def CBB_add_ucs2_be_def CBB_add_utf32_be_def add_u_defs)

lemma error_frozen: "cb_error (cbb_base c) \<Longrightarrow> frozen c (snd (run_op mal op c))"
  using error_stuck [of c op mal]
  by (cases op) (auto simp: stuck_def frozen_def CBB_did_write_def CBB_discard_child_def Let_def)

lemma error_run:
  assumes "cb_error (cbb_base c)" and "run_ops ops c = (rs, c')"
  shows "frozen c c' \<and> list_all2 (\<lambda>(mal, op) r. checks_error op \<longrightarrow> \<not> r) ops rs"
  using assms
proof (induction ops arbitrary: c rs)
  case (Cons x ops)
  obtain mal op where x: "x = (mal, op)" by fastforce
  obtain r c1 where r: "run_op mal op c = (r, c1)" by fastforce
  obtain rs' where rs: "run_ops ops c1 = (rs', c')" "rs = r # rs'"
    using Cons.prems(2) by (auto simp: x r split: prod.splits)
  have f: "frozen c c1" "checks_error op \<longrightarrow> \<not> r"
    using error_frozen [OF Cons.prems(1), of mal op] error_stuck [OF Cons.prems(1), of op mal] by (auto simp: r stuck_def)
  then have "cb_error (cbb_base c1)" using Cons.prems(1) by (simp add: frozen_def)
  from Cons.IH [OF this rs(1)] show ?case using f frozen_trans by (auto simp: x rs(2))
qed simp

section \<open>Failures that lock the builder\<close>

text \<open>
  A call on the object at depth \<open>d\<close> leaves the object open, or has set the error flag.
\<close>

definition locks :: "nat \<Rightarrow> bool \<times> cbb \<Rightarrow> bool" where
  "locks d r \<longleftrightarrow> (if fst r then d \<le> length (cbb_chain (snd r)) else cb_error (cbb_base (snd r)))"

lemma locks_and_then: "locks d r \<Longrightarrow> (\<And>c. d \<le> length (cbb_chain c) \<Longrightarrow> locks d' (k c)) \<Longrightarrow> locks d' (and_then r k)"
  by (auto simp: locks_def and_then_def)

lemma locks_mono: "locks d r \<Longrightarrow> d' \<le> d \<Longrightarrow> locks d' r"
  by (auto simp: locks_def split: if_splits)

lemma locks_or_on_error: "locks d r \<Longrightarrow> locks d (or_on_error d r)"
  by (auto simp: locks_def or_on_error_def cbb_on_error_def cb_set_error_def)

lemma locks_flush: "d \<le> length (cbb_chain c) \<Longrightarrow> locks d (CBB_flush mal d c)"
proof (induction mal d c rule: CBB_flush.induct)
  case (1 mal d c)
  show ?case
  proof (cases "cb_error (cbb_base c) \<or> d = length (cbb_chain c)")
    case False
    then have "d < length (cbb_chain c)" "\<not> cb_error (cbb_base c)" using "1.prems" by auto
    then have "locks (Suc d) (CBB_flush mal (Suc d) c)" using "1.IH" by simp
    then show ?thesis using False "1.prems"
      by (subst CBB_flush.simps)
        (auto simp: locks_def cbb_on_error_def cb_set_error_def split: prod.splits bool.splits)
  qed (auto simp: locks_def CBB_flush.simps [of mal d c])
qed

lemma reserve_error: "cbb_buffer_reserve mal base n = (None, base') \<Longrightarrow> cb_error base'"
  by (auto simp: cbb_buffer_reserve_def cb_set_error_def Let_def split: if_splits option.splits)

lemma add_error: "cbb_buffer_add mal base n = (None, base') \<Longrightarrow> cb_error base'"
  by (auto simp: cbb_buffer_add_def dest: reserve_error split: prod.splits option.splits)

definition some :: "'a option \<times> 'b \<Rightarrow> bool \<times> 'b" where
  "some r = (fst r \<noteq> None, snd r)"

lemma locks_space:
  assumes "d \<le> length (cbb_chain c)"
  shows "locks d (some (CBB_add_space mal d c n))" "locks d (some (CBB_reserve mal d c n))"
  using locks_flush [OF assms, of mal] add_error [of mal _ n] reserve_error [of mal _ n]
  by (auto simp: CBB_add_space_def CBB_reserve_def some_def locks_def cbb_with_base_def prod_eq_iff
      split: prod.splits bool.splits if_splits)

lemma locks_bytes:
  assumes "d \<le> length (cbb_chain c)"
  shows "locks d (CBB_add_bytes mal d c data)" "locks d (CBB_add_zeros mal d c n)" "locks d (cbb_add_u mal d c v n)"
    "locks d (CBB_add_u8 mal d c b)"
proof -
  show "locks d (CBB_add_bytes mal d c data)"
    using locks_space(1) [OF assms, of mal "length data"]
    by (auto simp: CBB_add_bytes_def some_def locks_def cbb_poke_def split: prod.splits option.splits)
  show "locks d (CBB_add_zeros mal d c n)"
    using locks_space(1) [OF assms, of mal n]
    by (auto simp: CBB_add_zeros_def some_def locks_def cbb_poke_def split: prod.splits option.splits)
  show u: "locks d (cbb_add_u mal d c v n)" for v n
    using locks_space(1) [OF assms, of mal n]
    by (auto simp: cbb_add_u_def some_def locks_def cbb_on_error_def cb_set_error_def Let_def split: prod.splits option.splits)
  show "locks d (CBB_add_u8 mal d c b)" unfolding CBB_add_u8_def by (rule u)
qed

lemma locks_child:
  assumes "d \<le> length (cbb_chain c)"
  shows "locks d (cbb_add_child mal d c n asn1)"
    "locks (Suc d) (cbb_add_child mal d c n asn1)"
  using assms add_error [of mal "cbb_base c" n]
  by (auto simp: cbb_add_child_def Let_def cbb_with_base_def locks_def cbb_poke_def prod_eq_iff split: option.splits)

lemma locks_done: "d \<le> length (cbb_chain c) \<Longrightarrow> locks d (True, c)"
  by (simp add: locks_def)

lemma locks_base128: "d \<le> length (cbb_chain c) \<Longrightarrow> locks d (add_base128_integer mal d c v)"
proof -
  have "locks d (add_base128_loop mal d v n c)" if "d \<le> length (cbb_chain c)" for n c
    using that by (induction n arbitrary: c) (auto simp: Let_def locks_done intro!: locks_and_then locks_bytes)
  then show "d \<le> length (cbb_chain c) \<Longrightarrow> locks d (add_base128_integer mal d c v)"
    by (simp add: add_base128_integer_def Let_def)
qed

lemma locks_asn1: "d \<le> length (cbb_chain c) \<Longrightarrow> locks (Suc d) (CBB_add_asn1 mal d c tag)"
  unfolding CBB_add_asn1_def Let_def
  by (auto intro!: locks_and_then [of d] locks_flush locks_base128 locks_bytes locks_child)

lemma locks_uint64_write:
  "d \<le> length (cbb_chain c) \<Longrightarrow> locks d (fst (asn1_uint64_write mal d v n started c), snd (snd (asn1_uint64_write mal d v n started c)))"
proof (induction n arbitrary: started c)
  case (Suc n)
  define b where "b = (ucast (drop_bit (8 * n) v AND 0xff) :: byte)"
  obtain r c1 where c1: "(if \<not> started \<and> b AND 0x80 \<noteq> 0 then CBB_add_u8 mal d c 0 else (True, c)) = (r, c1)" by fastforce
  have l1: "locks d (r, c1)"
    unfolding c1 [symmetric] using Suc.prems by (simp add: locks_bytes locks_done)
  obtain r' c2 where c2: "CBB_add_u8 mal d c1 b = (r', c2)" by fastforce
  have l2: "locks d (r', c2)" if r
    unfolding c2 [symmetric] by (rule locks_bytes) (use l1 that in \<open>simp add: locks_def\<close>)
  have l3: "locks d (fst (asn1_uint64_write mal d v n True c2), snd (snd (asn1_uint64_write mal d v n True c2)))" if r r'
    by (rule Suc.IH) (use l2 that in \<open>simp add: locks_def\<close>)
  have e: "asn1_uint64_write mal d v (Suc n) started c =
      (if \<not> started \<and> b = 0 then asn1_uint64_write mal d v n started c
       else if \<not> r then (False, started, c1) else if \<not> r' then (False, True, c2) else asn1_uint64_write mal d v n True c2)"
    unfolding asn1_uint64_write.simps Let_def b_def [symmetric] c1 prod.case c2
    by (cases r; cases r') (simp_all only: bool.case if_True if_False not_True_eq_False not_False_eq_True)
  show ?case using Suc.IH [OF Suc.prems, of started] l1 l2 l3 unfolding e
    by (cases r; cases r'; cases "\<not> started \<and> b = 0") (auto simp del: asn1_uint64_write.simps)
qed (simp add: locks_done)

lemma locks_down: "d \<le> length (cbb_chain c) \<Longrightarrow> locks d (add_bytes_down mal d bytes n c)"
  by (induction n arbitrary: c) (auto intro!: locks_and_then locks_bytes)

lemma locks_value:
  assumes "d \<le> length (cbb_chain c)" and "\<And>c. Suc d \<le> length (cbb_chain c) \<Longrightarrow> locks d (body c)"
  shows "locks d (or_on_error d (and_then (CBB_add_asn1 mal d c tag) body))"
  by (rule locks_or_on_error, rule locks_and_then [OF locks_asn1 [OF assms(1)]], rule assms(2))

lemma locks_uint64:
  assumes "d \<le> length (cbb_chain c)"
  shows "locks d (CBB_add_asn1_uint64_with_tag mal d c v tag)"
proof -
  have "locks d (case asn1_uint64_write mal (Suc d) v 8 False c of
      (False, started, c) \<Rightarrow> (False, c)
    | (True, started, c) \<Rightarrow> if \<not> started then CBB_add_u8 mal (Suc d) c 0 else (True, c))" if "Suc d \<le> length (cbb_chain c)" for c
  proof -
    obtain r started c1 where c1: "asn1_uint64_write mal (Suc d) v 8 False c = (r, started, c1)" by (metis surj_pair)
    have "locks (Suc d) (r, c1)" using locks_uint64_write [OF that, of mal v 8 False] by (simp add: c1)
    then have "locks (Suc d) (if \<not> r then (False, c1) else if \<not> started then CBB_add_u8 mal (Suc d) c1 0 else (True, c1))"
      using locks_bytes(4) [of "Suc d" c1] by (auto simp: locks_def)
    from locks_mono [OF this, of d] show ?thesis unfolding c1 by (cases r; cases started) simp_all
  qed
  then show ?thesis
    unfolding CBB_add_asn1_uint64_with_tag_def by (intro locks_and_then [OF locks_value] assms locks_flush)
qed

lemma locks_int64:
  assumes "d \<le> length (cbb_chain c)"
  shows "locks d (CBB_add_asn1_int64_with_tag mal d c v tag)"
proof -
  have "locks d (add_bytes_down mal (Suc d) bytes n c)" if "Suc d \<le> length (cbb_chain c)" for bytes n c
    by (rule locks_mono [OF locks_down [OF that]]) simp
  then have "locks d (and_then (or_on_error d (and_then (CBB_add_asn1 mal d c tag) (add_bytes_down mal (Suc d) bytes n)))
      (CBB_flush mal d))" for bytes n
    by (intro locks_and_then [OF locks_value] assms locks_flush)
  then show ?thesis using locks_uint64 [OF assms] by (simp add: CBB_add_asn1_int64_with_tag_def Let_def)
qed

lemma locks_string_and_bool:
  assumes "d \<le> length (cbb_chain c)"
  shows "locks d (CBB_add_asn1_octet_string mal d c data)" "locks d (CBB_add_asn1_bool mal d c b)"
proof -
  have "locks d (and_then (CBB_add_bytes mal (Suc d) c data) (CBB_flush mal d))"
    "locks d (and_then (CBB_add_u8 mal (Suc d) c x) (CBB_flush mal d))" if "Suc d \<le> length (cbb_chain c)" for c x
    using locks_bytes [OF that] by (auto intro!: locks_and_then [of "Suc d"] locks_flush)
  then show "locks d (CBB_add_asn1_octet_string mal d c data)" "locks d (CBB_add_asn1_bool mal d c b)"
    unfolding CBB_add_asn1_octet_string_def CBB_add_asn1_bool_def by (auto intro!: locks_value assms)
qed

text \<open>
  The writers whose failure is a failure of the builder, with the object they work on. The others may also
  refuse their argument: \<open>CBB_finish\<close> of a child or with null pointers, a text that is no object identifier,
  contents that are no SET OF, a number that is no code point.
\<close>

fun writes_at :: "cbb_op \<Rightarrow> nat option" where
  "writes_at (Flush d) = Some d"
| "writes_at (Add_space d n) = Some d"
| "writes_at (Reserve d n) = Some d"
| "writes_at (Add_bytes d data) = Some d"
| "writes_at (Add_zeros d n) = Some d"
| "writes_at (Add_u d v n) = Some d"
| "writes_at (Length_prefixed d n) = Some d"
| "writes_at (Add_asn1 d tag) = Some d"
| "writes_at (Add_uint64 d v tag) = Some d"
| "writes_at (Add_int64 d v tag) = Some d"
| "writes_at (Add_octet_string d data) = Some d"
| "writes_at (Add_bool d v) = Some d"
| "writes_at op = None"

lemma locks_run:
  assumes "writes_at op = Some d" and "d \<le> length (cbb_chain c)"
  shows "locks d (run_op mal op c)"
  using assms locks_flush locks_space [of d c mal, unfolded some_def] locks_bytes locks_uint64 locks_int64 locks_string_and_bool
    locks_mono [OF locks_asn1]
  by (cases op) (auto simp: cbb_add_length_prefixed_def split_beta intro!: locks_and_then locks_flush locks_child)

text \<open>
  (C27) A failed write is final. When a writer fails on an open object, for want of memory, of room in a fixed
  buffer or in a length prefix, then, whatever operations follow, in any order, on any objects of the tree and
  with any allocator: the error flag stays set, the buffer, its capacity and its bytes stay as they are, and
  every operation fails, \<open>CBB_finish\<close> too, so that a message with a hole is never handed out.
  \<open>CBB_did_write\<close> and \<open>CBB_discard_child\<close> are the exception: they do not look at the flag, and may still change
  the length.
\<close>

theorem CBB_error_sticky:
  assumes "writes_at op = Some d" and "d \<le> length (cbb_chain cbb)" and "run_op mal op cbb = (False, cbb1)"
    and "run_ops ops cbb1 = (results, cbb2)"
  shows "cb_error (cbb_base cbb2) \<and> cb_buf (cbb_base cbb2) = cb_buf (cbb_base cbb1) \<and>
    cb_cap (cbb_base cbb2) = cb_cap (cbb_base cbb1) \<and> length results = length ops \<and>
    (\<forall>i < length ops. checks_error (snd (ops ! i)) \<longrightarrow> \<not> results ! i)"
proof -
  have "cb_error (cbb_base cbb1)" using locks_run [OF assms(1,2), of mal] assms(3) by (simp add: locks_def)
  from error_run [OF this assms(4)] this show ?thesis
    by (auto simp: frozen_def list_all2_conv_all_nth split_beta)
qed

lemma all_less_three: "(\<forall>i < 3. P i) \<longleftrightarrow> P 0 \<and> P 1 \<and> P (2 :: nat)"
  by (auto simp: numeral_3_eq_3 numeral_2_eq_2 less_Suc_eq)

text \<open>A witness: a fixed buffer of two bytes is full, and stays as it is when its length is set back.\<close>

theorem CBB_error_sticky_witness:
  "let none = (\<lambda>_. None); full = \<lparr>cbb_base = \<lparr>cb_buf = [7, 8], cb_null = False, cb_len = 2, cb_cap = 2, cb_can_resize = False,
         cb_error = False\<rparr>, cbb_chain = [\<lparr>ch_offset = 0, ch_pending_len_len = 1, ch_pending_is_asn1 = False\<rparr>]\<rparr>
   in case run_op none (Add_bytes 1 [9]) full of (r, cbb1) \<Rightarrow> \<not> r \<and>
       (case run_ops [(none, Discard_child 0), (none, Add_u 0 5 1), (none, Finish 0 True)] cbb1 of
          (rs, cbb2) \<Rightarrow> \<not> rs ! 1 \<and> \<not> rs ! 2 \<and> cb_buf (cbb_base cbb2) = cb_buf (cbb_base cbb1))"
proof -
  let ?none = "(\<lambda>_. None) :: malloc_fn" and ?ops = "[((\<lambda>_. None) :: malloc_fn, Discard_child 0), (\<lambda>_. None, Add_u 0 5 1), (\<lambda>_. None, Finish 0 True)]"
  define full where "full = \<lparr>cbb_base = \<lparr>cb_buf = [7 :: byte, 8], cb_null = False, cb_len = 2, cb_cap = 2, cb_can_resize = False,
    cb_error = False\<rparr>, cbb_chain = [\<lparr>ch_offset = 0, ch_pending_len_len = 1, ch_pending_is_asn1 = False\<rparr>]\<rparr>"
  have f: "\<not> fst (run_op ?none (Add_bytes 1 [9]) full)" "1 \<le> length (cbb_chain full)"
    by (simp_all add: full_def CBB_add_bytes_def CBB_add_space_def CBB_flush.simps cbb_buffer_add_def cbb_buffer_reserve_def
        cbb_with_base_def size_add_def SIZE_MOD_def)
  obtain cbb1 where r1: "run_op ?none (Add_bytes 1 [9]) full = (False, cbb1)" using f(1) by (metis (full_types) eq_fst_iff)
  obtain rs cbb2 where r2: "run_ops ?ops cbb1 = (rs, cbb2)" by fastforce
  have "writes_at (Add_bytes 1 [9]) = Some 1" by simp
  from CBB_error_sticky [OF this f(2) r1 r2]
  have "cb_buf (cbb_base cbb2) = cb_buf (cbb_base cbb1)" "\<forall>i < 3. checks_error (snd (?ops ! i)) \<longrightarrow> \<not> rs ! i" by simp_all
  then show ?thesis unfolding Let_def full_def [symmetric] r1 prod.case r2 by (simp add: all_less_three)
qed

end
