(* ===== verification/Const_Time.thy ===== *)
theory Const_Time
  imports Prelude
begin

text \<open>
  The constant-time selection primitives of \<open>crypto/internal.h\<close> (64-bit \<open>crypto_word_t\<close>): they
  compute comparisons as masks with no branch, and the masks are right for every input. The
  value barriers are the identity.
\<close>

definition value_barrier_w :: "u64 \<Rightarrow> u64" where
  "value_barrier_w a = a"

definition constant_time_msb_w :: "u64 \<Rightarrow> u64" where
  "constant_time_msb_w a = 0 - drop_bit 63 a"

definition constant_time_lt_w :: "u64 \<Rightarrow> u64 \<Rightarrow> u64" where
  "constant_time_lt_w a b = constant_time_msb_w (a XOR ((a XOR b) OR ((a - b) XOR a)))"

definition constant_time_lt_8 :: "u64 \<Rightarrow> u64 \<Rightarrow> byte" where
  "constant_time_lt_8 a b = ucast (constant_time_lt_w a b)"

definition constant_time_ge_w :: "u64 \<Rightarrow> u64 \<Rightarrow> u64" where
  "constant_time_ge_w a b = NOT (constant_time_lt_w a b)"

definition constant_time_ge_8 :: "u64 \<Rightarrow> u64 \<Rightarrow> byte" where
  "constant_time_ge_8 a b = ucast (constant_time_ge_w a b)"

definition constant_time_is_zero_w :: "u64 \<Rightarrow> u64" where
  "constant_time_is_zero_w a = constant_time_msb_w (NOT a AND (a - 1))"

definition constant_time_is_zero_8 :: "u64 \<Rightarrow> byte" where
  "constant_time_is_zero_8 a = ucast (constant_time_is_zero_w a)"

definition constant_time_eq_w :: "u64 \<Rightarrow> u64 \<Rightarrow> u64" where
  "constant_time_eq_w a b = constant_time_is_zero_w (a XOR b)"

definition constant_time_eq_8 :: "u64 \<Rightarrow> u64 \<Rightarrow> byte" where
  "constant_time_eq_8 a b = ucast (constant_time_eq_w a b)"

text \<open>An \<open>int\<close> is its 32-bit pattern; the cast to \<open>crypto_word_t\<close> extends the sign.\<close>

definition constant_time_eq_int :: "u32 \<Rightarrow> u32 \<Rightarrow> u64" where
  "constant_time_eq_int a b = constant_time_eq_w (scast a) (scast b)"

definition constant_time_eq_int_8 :: "u32 \<Rightarrow> u32 \<Rightarrow> byte" where
  "constant_time_eq_int_8 a b = constant_time_eq_8 (scast a) (scast b)"

definition constant_time_select_w :: "u64 \<Rightarrow> u64 \<Rightarrow> u64 \<Rightarrow> u64" where
  "constant_time_select_w msk a b =
     (let m = value_barrier_w msk in (m AND a) OR (NOT m AND b))"

definition constant_time_select_8 :: "u64 \<Rightarrow> byte \<Rightarrow> byte \<Rightarrow> byte" where
  "constant_time_select_8 msk a b =
     (let m = ucast (value_barrier_w msk) in (m AND a) OR (NOT m AND b))"

definition constant_time_select_int :: "u64 \<Rightarrow> u32 \<Rightarrow> u32 \<Rightarrow> u32" where
  "constant_time_select_int msk a b = ucast (constant_time_select_w msk (scast a) (scast b))"

definition constant_time_conditional_memcpy :: "byte list \<Rightarrow> byte list \<Rightarrow> nat \<Rightarrow> u64 \<Rightarrow> byte list" where
  "constant_time_conditional_memcpy dst src n msk =
     map (\<lambda>i. if i < n then constant_time_select_8 msk (src ! i) (dst ! i) else dst ! i) [0..<length dst]"

definition constant_time_conditional_memxor :: "byte list \<Rightarrow> byte list \<Rightarrow> nat \<Rightarrow> u64 \<Rightarrow> byte list" where
  "constant_time_conditional_memxor dst src n msk =
     map (\<lambda>i. if i < n then dst ! i XOR (ucast (value_barrier_w msk) AND src ! i) else dst ! i)
       [0..<length dst]"

section \<open>Lemmas\<close>

definition mask_of :: "bool \<Rightarrow> 'a::len word" where
  "mask_of p = (if p then - 1 else 0)"

lemma bit63_iff: "bit (w :: u64) 63 \<longleftrightarrow> 2 ^ 63 \<le> unat w"
proof -
  have "bit w 63 \<longleftrightarrow> bit (unat w) 63" by (simp add: bit_unsigned_iff)
  also have "\<dots> \<longleftrightarrow> odd (unat w div 2 ^ 63)" by (rule bit_iff_odd)
  also have "\<dots> \<longleftrightarrow> 2 ^ 63 \<le> unat w"
  proof -
    have "unat w div 2 ^ 63 < 2" using unat_u64_less [of w] by (simp add: div_less_iff_less_mult)
    then consider "unat w div 2 ^ 63 = 0" | "unat w div 2 ^ 63 = 1" by linarith
    then have "odd (unat w div 2 ^ 63) \<longleftrightarrow> 1 \<le> unat w div 2 ^ 63" by cases simp_all
    also have "\<dots> \<longleftrightarrow> 2 ^ 63 \<le> unat w" by (simp add: less_eq_div_iff_mult_less_eq)
    finally show ?thesis .
  qed
  finally show ?thesis .
qed

lemma constant_time_msb_w_eq: "constant_time_msb_w a = mask_of (bit a 63)"
proof -
  have d: "unat (drop_bit 63 a) = unat a div 2 ^ 63" by (rule unat_drop_bit)
  show ?thesis
  proof (cases "bit a 63")
    case True
    then have "unat a div 2 ^ 63 = 1" using unat_u64_less [of a] by (simp add: bit63_iff div_nat_eqI)
    then have "drop_bit 63 a = 1" using d by (simp add: word_unat_eq_iff)
    then show ?thesis using True by (simp add: constant_time_msb_w_def mask_of_def)
  next
    case False
    then have "drop_bit 63 a = 0" by (simp add: bit63_iff drop_bit_zero_iff)
    then show ?thesis using False by (simp add: constant_time_msb_w_def mask_of_def)
  qed
qed

lemma unat_sub_cases: "unat (a - b :: u64) = (if unat b \<le> unat a then unat a - unat b else unat a + 2 ^ 64 - unat b)"
  using unat_sub_if' [of a b] by simp

lemma constant_time_lt_w_eq: "constant_time_lt_w a b = mask_of (a < b)"
proof -
  have "bit (a XOR ((a XOR b) OR ((a - b) XOR a))) 63 \<longleftrightarrow>
      (if bit a 63 = bit b 63 then bit (a - b) 63 else bit b 63)"
    by (auto simp: bit_xor_iff bit_or_iff)
  also have "\<dots> \<longleftrightarrow> unat a < unat b"
    using unat_u64_less [of a] unat_u64_less [of b] by (auto simp: bit63_iff unat_sub_cases)
  finally show ?thesis by (simp add: constant_time_lt_w_def constant_time_msb_w_eq word_less_nat_alt)
qed

lemma constant_time_is_zero_w_eq: "constant_time_is_zero_w a = mask_of (a = 0)"
proof -
  have "bit (NOT a AND (a - 1)) 63 \<longleftrightarrow> \<not> bit a 63 \<and> bit (a - 1) 63"
    by (simp add: bit_and_iff bit_not_iff)
  also have "\<dots> \<longleftrightarrow> unat a = 0"
    using unat_u64_less [of a] unat_sub_cases [of a 1] by (auto simp: bit63_iff split: if_splits)
  finally show ?thesis by (simp add: constant_time_is_zero_w_def constant_time_msb_w_eq unat_0_iff)
qed

lemma constant_time_eq_w_eq: "constant_time_eq_w a b = mask_of (a = b)"
  by (simp add: constant_time_eq_w_def constant_time_is_zero_w_eq word_xor_eq_0)

lemma ucast_minus_1: "(ucast (- 1 :: u64) :: byte) = - 1"
  by code_simp

lemma ucast_mask_of: "(ucast (mask_of p :: u64) :: byte) = mask_of p"
  by (simp add: mask_of_def ucast_minus_1)

lemma constant_time_select_w_eq: "constant_time_select_w (mask_of p) a b = (if p then a else b)"
  by (simp add: constant_time_select_w_def value_barrier_w_def mask_of_def)

lemma constant_time_select_8_eq: "constant_time_select_8 (mask_of p) a b = (if p then a else b)"
  by (simp add: constant_time_select_8_def value_barrier_w_def mask_of_def ucast_minus_1)

text \<open>
  The branch-free comparisons are right for all 64-bit operands: \<open>constant_time_lt_w\<close>,
  \<open>constant_time_ge_w\<close>, \<open>constant_time_is_zero_w\<close> and \<open>constant_time_eq_w\<close> return all ones when the
  unsigned comparison holds and zero otherwise, and \<open>constant_time_select_w\<close> and
  \<open>constant_time_select_8\<close> select by such a mask.
\<close>

theorem constant_time_correct:
  "constant_time_lt_w a b = (if a < b then - 1 else 0) \<and>
   constant_time_ge_w a b = (if a \<ge> b then - 1 else 0) \<and>
   constant_time_is_zero_w a = (if a = 0 then - 1 else 0) \<and>
   constant_time_eq_w a b = (if a = b then - 1 else 0) \<and>
   constant_time_select_w (constant_time_lt_w a b) x y = (if a < b then x else y) \<and>
   constant_time_select_8 (constant_time_eq_w a b) p q = (if a = b then p else q)"
  by (simp add: constant_time_lt_w_eq constant_time_ge_w_def constant_time_is_zero_w_eq constant_time_eq_w_eq
      constant_time_select_w_eq constant_time_select_8_eq) (simp add: mask_of_def not_less)

end
