(* ===== verification/Base64.thy ===== *)
theory Base64
  imports Const_Time Mem
begin

text \<open>
  \<open>crypto/base64/base64.c\<close>: the constant-time base64 alphabet, block encoding and decoding and the
  streaming encoder and decoder with their context. The output buffer a function writes
  through is modelled by the bytes written; \<open>unsigned\<close> and \<open>size_t\<close> counters are \<open>nat\<close> with the
  wrapping sums written out, and the \<open>int\<close> results are \<open>int\<close>.
\<close>

section \<open>The alphabet\<close>

definition constant_time_lt_args_8 :: "byte \<Rightarrow> byte \<Rightarrow> byte" where
  "constant_time_lt_args_8 a b =
     (let aw = ucast a :: u64; bw = ucast b :: u64 in ucast (constant_time_msb_w (aw - bw)))"

definition constant_time_in_range_8 :: "byte \<Rightarrow> byte \<Rightarrow> byte \<Rightarrow> byte" where
  "constant_time_in_range_8 a lo hi = (let a = a - lo in constant_time_lt_args_8 a (hi - lo + 1))"

definition conv_bin2ascii :: "byte \<Rightarrow> byte" where
  "conv_bin2ascii a =
     (let a = a AND 0x3f;
          ret = constant_time_select_8 (ucast (constant_time_eq_8 (ucast a) 62)) 0x2b 0x2f;
          ret = constant_time_select_8 (ucast (constant_time_lt_args_8 a 62)) (a - 52 + 0x30) ret;
          ret = constant_time_select_8 (ucast (constant_time_lt_args_8 a 52)) (a - 26 + 0x61) ret;
          ret = constant_time_select_8 (ucast (constant_time_lt_args_8 a 26)) (a + 0x41) ret
      in ret)"

definition base64_ascii_to_bin :: "byte \<Rightarrow> byte" where
  "base64_ascii_to_bin a =
     (let is_upper = constant_time_in_range_8 a 0x41 0x5a;
          is_lower = constant_time_in_range_8 a 0x61 0x7a;
          is_digit = constant_time_in_range_8 a 0x30 0x39;
          is_plus = constant_time_eq_8 (ucast a) 0x2b;
          is_slash = constant_time_eq_8 (ucast a) 0x2f;
          is_equals = constant_time_eq_8 (ucast a) 0x3d;
          ret = 0;
          ret = ret OR (is_upper AND (a - 0x41));
          ret = ret OR (is_lower AND (a - 0x61 + 26));
          ret = ret OR (is_digit AND (a - 0x30 + 52));
          ret = ret OR (is_plus AND 62);
          ret = ret OR (is_slash AND 63);
          is_valid = is_upper OR is_lower OR is_digit OR is_plus OR is_slash OR is_equals
      in ret OR NOT is_valid)"

section \<open>Encoding\<close>

definition EVP_EncodedLength :: "nat \<Rightarrow> nat option" where
  "EVP_EncodedLength len =
     (if size_add len 2 < len then None
      else let len = size_add len 2 div 3
           in if (len * 4 mod SIZE_MOD) div 4 \<noteq> len then None
              else let len = len * 4 mod SIZE_MOD
                   in if size_add len 1 < len then None else Some (size_add len 1))"

text \<open>The characters written (the NUL after them left out) and the return value.\<close>

fun encode_block_loop :: "byte list \<Rightarrow> byte list" where
  "encode_block_loop [] = []"
| "encode_block_loop (a # b # c # src) =
     (let l = push_bit 16 (ucast a) OR push_bit 8 (ucast b) OR ucast c :: u32
      in conv_bin2ascii (ucast (drop_bit 18 l)) # conv_bin2ascii (ucast (drop_bit 12 l)) #
         conv_bin2ascii (ucast (drop_bit 6 l)) # conv_bin2ascii (ucast l) # encode_block_loop src)"
| "encode_block_loop [a, b] =
     (let l = push_bit 16 (ucast a) OR push_bit 8 (ucast b) :: u32
      in [conv_bin2ascii (ucast (drop_bit 18 l)), conv_bin2ascii (ucast (drop_bit 12 l)),
          conv_bin2ascii (ucast (drop_bit 6 l)), 0x3d])"
| "encode_block_loop [a] =
     (let l = push_bit 16 (ucast a) :: u32
      in [conv_bin2ascii (ucast (drop_bit 18 l)), conv_bin2ascii (ucast (drop_bit 12 l)), 0x3d, 0x3d])"

definition EVP_EncodeBlock :: "byte list \<Rightarrow> byte list \<times> nat" where
  "EVP_EncodeBlock src = (encode_block_loop src, length (encode_block_loop src))"

record EVP_ENCODE_CTX =
  data_used :: nat
  ctx_data :: "byte list"
  eof_seen :: bool
  error_encountered :: bool

definition CTX_DATA_SIZE :: nat where
  "CTX_DATA_SIZE = 48"

definition INT_MAX :: nat where
  "INT_MAX = 2 ^ 31 - 1"

definition EVP_EncodeInit :: EVP_ENCODE_CTX where
  "EVP_EncodeInit = \<lparr>data_used = 0, ctx_data = replicate CTX_DATA_SIZE 0, eof_seen = False, error_encountered = False\<rparr>"

text \<open>
  The loop over whole lines: whether it ran to the end (the total did not wrap), the lines
  written, the total and the rest of the input.
\<close>

function encode_lines_loop :: "byte list \<Rightarrow> nat \<Rightarrow> byte list \<Rightarrow> bool \<times> byte list \<times> nat \<times> byte list" where
  "encode_lines_loop inp tot out =
     (if length inp \<ge> CTX_DATA_SIZE
      then let (enc, encoded) = EVP_EncodeBlock (take CTX_DATA_SIZE inp)
           in if size_add (size_add tot encoded) 1 < tot then (False, out @ enc @ [0x0a], tot, drop CTX_DATA_SIZE inp)
              else encode_lines_loop (drop CTX_DATA_SIZE inp) (size_add tot (size_add encoded 1)) (out @ enc @ [0x0a])
      else (True, out, tot, inp))"
  by pat_completeness auto
termination
  by (relation "measure (\<lambda>(inp, tot, out). length inp)") (auto simp: CTX_DATA_SIZE_def)

declare encode_lines_loop.simps [simp del]

text \<open>The new context, \<open>*out_len\<close> and the bytes written to \<open>out\<close> (a NUL after them left out).\<close>

definition EVP_EncodeUpdate :: "EVP_ENCODE_CTX \<Rightarrow> byte list \<Rightarrow> EVP_ENCODE_CTX \<times> nat \<times> byte list" where
  "EVP_EncodeUpdate ctx inp =
     (if length inp = 0 then (ctx, 0, [])
      else if CTX_DATA_SIZE - data_used ctx > length inp
      then (ctx\<lparr>ctx_data := mem_write (ctx_data ctx) (data_used ctx) inp,
                data_used := data_used ctx + length inp\<rparr>, 0, [])
      else
        let (ctx, inp, tot, out) =
              (if data_used ctx \<noteq> 0
               then let todo = CTX_DATA_SIZE - data_used ctx;
                        data = mem_write (ctx_data ctx) (data_used ctx) (take todo inp);
                        (enc, encoded) = EVP_EncodeBlock (take CTX_DATA_SIZE data)
                    in (ctx\<lparr>ctx_data := data, data_used := 0\<rparr>, drop todo inp, encoded + 1, enc @ [0x0a])
               else (ctx, inp, 0, []))
        in case encode_lines_loop inp tot out of
             (False, out, _, _) \<Rightarrow> (ctx, 0, out)
           | (True, out, tot, rest) \<Rightarrow>
               let ctx = (if length rest \<noteq> 0 then ctx\<lparr>ctx_data := mem_write (ctx_data ctx) 0 rest\<rparr> else ctx);
                   ctx = ctx\<lparr>data_used := length rest\<rparr>
               in (ctx, if tot > INT_MAX then 0 else tot, out))"

definition EVP_EncodeFinal :: "EVP_ENCODE_CTX \<Rightarrow> EVP_ENCODE_CTX \<times> nat \<times> byte list" where
  "EVP_EncodeFinal ctx =
     (if data_used ctx = 0 then (ctx, 0, [])
      else let (enc, encoded) = EVP_EncodeBlock (take (data_used ctx) (ctx_data ctx))
           in (ctx\<lparr>data_used := 0\<rparr>, encoded + 1, enc @ [0x0a]))"

section \<open>Decoding\<close>

definition EVP_DecodedLength :: "nat \<Rightarrow> nat option" where
  "EVP_DecodedLength len = (if len mod 4 \<noteq> 0 then None else Some (len div 4 * 3))"

definition EVP_DecodeInit :: EVP_ENCODE_CTX where
  "EVP_DecodeInit = \<lparr>data_used = 0, ctx_data = replicate CTX_DATA_SIZE 0, eof_seen = False, error_encountered = False\<rparr>"

definition base64_decode_quad :: "byte \<Rightarrow> byte \<Rightarrow> byte \<Rightarrow> byte \<Rightarrow> byte list option" where
  "base64_decode_quad in0 in1 in2 in3 =
     (let a = base64_ascii_to_bin in0; b = base64_ascii_to_bin in1;
          c = base64_ascii_to_bin in2; d = base64_ascii_to_bin in3
      in if a = 0xff \<or> b = 0xff \<or> c = 0xff \<or> d = 0xff then None
         else
           let v = push_bit 18 (ucast a) OR push_bit 12 (ucast b) OR push_bit 6 (ucast c) OR ucast d :: u32;
               padding_pattern = (if in0 = 0x3d then 8 else 0) + (if in1 = 0x3d then 4 else 0)
                               + (if in2 = 0x3d then 2 else 0) + (if in3 = 0x3d then 1 else 0) :: nat
           in if padding_pattern = 0 then Some [ucast (drop_bit 16 v), ucast (drop_bit 8 v), ucast v]
              else if padding_pattern = 1 then Some [ucast (drop_bit 16 v), ucast (drop_bit 8 v)]
              else if padding_pattern = 3 then Some [ucast (drop_bit 16 v)]
              else None)"

text \<open>The loop of \<open>EVP_DecodeUpdate\<close>: whether it ran to the end, the context and the output.\<close>

fun decode_update_loop ::
  "EVP_ENCODE_CTX \<Rightarrow> byte list \<Rightarrow> byte list \<Rightarrow> bool \<times> EVP_ENCODE_CTX \<times> byte list" where
  "decode_update_loop ctx out [] = (True, ctx, out)"
| "decode_update_loop ctx out (c # inp) =
     (if c = 0x20 \<or> c = 0x09 \<or> c = 0x0d \<or> c = 0x0a then decode_update_loop ctx out inp
      else if eof_seen ctx then (False, ctx\<lparr>error_encountered := True\<rparr>, out)
      else
        let ctx = ctx\<lparr>ctx_data := (ctx_data ctx)[data_used ctx := c], data_used := data_used ctx + 1\<rparr>
        in if data_used ctx = 4
           then (case base64_decode_quad (ctx_data ctx ! 0) (ctx_data ctx ! 1) (ctx_data ctx ! 2) (ctx_data ctx ! 3) of
                   None \<Rightarrow> (False, ctx\<lparr>error_encountered := True\<rparr>, out)
                 | Some bs \<Rightarrow>
                     let ctx = ctx\<lparr>data_used := 0\<rparr>;
                         ctx = (if length bs < 3 then ctx\<lparr>eof_seen := True\<rparr> else ctx)
                     in decode_update_loop ctx (out @ bs) inp)
           else decode_update_loop ctx out inp)"

text \<open>The return value, the context, \<open>*out_len\<close> and the bytes written.\<close>

definition EVP_DecodeUpdate :: "EVP_ENCODE_CTX \<Rightarrow> byte list \<Rightarrow> int \<times> EVP_ENCODE_CTX \<times> nat \<times> byte list" where
  "EVP_DecodeUpdate ctx inp =
     (if error_encountered ctx then (- 1, ctx, 0, [])
      else case decode_update_loop ctx [] inp of
             (False, ctx, out) \<Rightarrow> (- 1, ctx, 0, out)
           | (True, ctx, out) \<Rightarrow>
               if length out > INT_MAX then (- 1, ctx\<lparr>error_encountered := True\<rparr>, 0, out)
               else (if eof_seen ctx then 0 else 1, ctx, length out, out))"

definition EVP_DecodeFinal :: "EVP_ENCODE_CTX \<Rightarrow> int" where
  "EVP_DecodeFinal ctx = (if error_encountered ctx \<or> data_used ctx \<noteq> 0 then - 1 else 1)"

fun decode_base64_loop :: "byte list \<Rightarrow> byte list option" where
  "decode_base64_loop (a # b # c # d # inp) =
     (case base64_decode_quad a b c d of
        None \<Rightarrow> None
      | Some bs \<Rightarrow>
          if length bs \<noteq> 3 \<and> inp \<noteq> [] then None
          else map_option ((@) bs) (decode_base64_loop inp))"
| "decode_base64_loop _ = Some []"

definition EVP_DecodeBase64 :: "nat \<Rightarrow> byte list \<Rightarrow> byte list option" where
  "EVP_DecodeBase64 max_out inp =
     (if length inp mod 4 \<noteq> 0 then None
      else case EVP_DecodedLength (length inp) of
             None \<Rightarrow> None
           | Some max_len \<Rightarrow> if max_out < max_len then None else decode_base64_loop inp)"

text \<open>The return value and what was written.\<close>

definition EVP_DecodeBlock :: "byte list \<Rightarrow> int \<times> byte list" where
  "EVP_DecodeBlock src =
     (let src = dropWhile (\<lambda>c. c = 0x20 \<or> c = 0x09) src;
          src = rev (dropWhile (\<lambda>c. c = 0x20 \<or> c = 0x09 \<or> c = 0x0d \<or> c = 0x0a) (rev src))
      in case EVP_DecodedLength (length src) of
           None \<Rightarrow> (- 1, [])
         | Some dst_len \<Rightarrow>
             if dst_len > INT_MAX then (- 1, [])
             else (case EVP_DecodeBase64 dst_len src of
                     None \<Rightarrow> (- 1, [])
                   | Some dst \<Rightarrow>
                       let dst = dst @ replicate ((3 - length dst mod 3) mod 3) 0
                       in (int (length dst), dst)))"

section \<open>The alphabet\<close>

text \<open>The base64 alphabet of RFC 4648, table 1.\<close>

definition base64_char :: "nat \<Rightarrow> byte" where
  "base64_char n =
     (if n < 26 then of_nat (0x41 + n) else if n < 52 then of_nat (0x61 + (n - 26))
      else if n < 62 then of_nat (0x30 + (n - 52)) else if n = 62 then 0x2b else 0x2f)"

lemma constant_time_lt_args_8_eq: "constant_time_lt_args_8 a b = mask_of (a < b)"
proof -
  have u: "unat (ucast x :: u64) = unat x" for x :: byte by (simp add: unat_ucast_up)
  have "bit (ucast a - ucast b :: u64) 63 \<longleftrightarrow> unat a < unat b"
    using unat_byte_less [of a] unat_byte_less [of b] by (auto simp: bit63_iff unat_sub_cases u)
  then show ?thesis
    by (simp add: constant_time_lt_args_8_def constant_time_msb_w_eq ucast_mask_of word_less_nat_alt)
qed

lemma constant_time_eq_8_eq: "constant_time_eq_8 (ucast a) (ucast b) = mask_of ((a :: byte) = b)"
proof -
  have "(ucast a :: u64) = ucast b \<longleftrightarrow> a = b" by (simp add: word_unat_eq_iff unat_ucast_up)
  then show ?thesis by (simp add: constant_time_eq_8_def constant_time_eq_w_eq ucast_mask_of)
qed

lemma select_8_mask: "constant_time_select_8 (ucast (mask_of p :: byte)) a b = (if p then a else b)"
proof -
  have "(ucast (ucast (mask_of p :: byte) :: u64) :: byte) = mask_of p" by (rule ucast_ucast_up) simp
  then show ?thesis by (simp add: constant_time_select_8_def value_barrier_w_def) (simp add: mask_of_def)
qed

lemma conv_bin2ascii_eq:
  "conv_bin2ascii a =
     (let a = a AND 0x3f
      in if a < 26 then a + 0x41 else if a < 52 then a - 26 + 0x61 else if a < 62 then a - 52 + 0x30
         else if a = 62 then 0x2b else 0x2f)"
  using constant_time_eq_8_eq [of "a AND 0x3f" 62]
  by (simp add: conv_bin2ascii_def Let_def constant_time_lt_args_8_eq select_8_mask)

lemma mask_of_simps:
  "mask_of p AND x = (if p then x else 0)" "mask_of p OR mask_of q = (mask_of (p \<or> q) :: byte)"
  "NOT (mask_of p) = (mask_of (\<not> p) :: byte)"
  by (simp_all add: mask_of_def)

lemma base64_ascii_to_bin_eq:
  "base64_ascii_to_bin a =
     (if a - 0x41 < 26 then a - 0x41 else if a - 0x61 < 26 then a - 0x61 + 26
      else if a - 0x30 < 10 then a - 0x30 + 52 else if a = 0x2b then 62 else if a = 0x2f then 63
      else if a = 0x3d then 0 else 0xff)"
proof -
  note eqs = constant_time_eq_8_eq [of a "0x2b", simplified] constant_time_eq_8_eq [of a "0x2f", simplified]
    constant_time_eq_8_eq [of a "0x3d", simplified]
  let ?P = "\<lambda>a :: byte. ((((((0 :: byte) OR (if a - 0x41 < 26 then a - 0x41 else 0)) OR (if a - 0x61 < 26 then a - 0x61 + 26 else 0))
      OR (if a - 0x30 < 10 then a - 0x30 + 52 else 0)) OR (if a = 0x2b then 62 else 0)) OR (if a = 0x2f then 63 else 0))
      OR (if \<not> (a - 0x41 < 26 \<or> a - 0x61 < 26 \<or> a - 0x30 < 10 \<or> a = 0x2b \<or> a = 0x2f \<or> a = 0x3d) then - 1 else 0) =
     (if a - 0x41 < 26 then a - 0x41 else if a - 0x61 < 26 then a - 0x61 + 26
      else if a - 0x30 < 10 then a - 0x30 + 52 else if a = 0x2b then 62 else if a = 0x2f then 63
      else if a = 0x3d then 0 else 0xff)"
  have "?P a" by (rule byte_forallI [of ?P a]) code_simp
  then show ?thesis
    by (simp only: base64_ascii_to_bin_def Let_def constant_time_in_range_8_def constant_time_lt_args_8_eq
        eqs mask_of_simps disj_assoc) (simp add: mask_of_def)
qed

lemma conv_bin2ascii_spec: "conv_bin2ascii a = base64_char (unat (a AND 0x3f))"
  unfolding conv_bin2ascii_eq
  by (rule byte_forallI [of _ a]) code_simp

lemma byte_and_3f: "unat ((b :: byte) AND 0x3f) = unat b mod 64"
  using unat_and_mask [of b 6] by (simp add: mask_eq_exp_minus_1)



lemma ascii_to_bin_bin2ascii: "base64_ascii_to_bin (conv_bin2ascii a) = a AND 0x3f"
  unfolding base64_ascii_to_bin_eq conv_bin2ascii_eq by (rule byte_forallI [of _ a]) code_simp

lemma conv_bin2ascii_not_special: "conv_bin2ascii a \<notin> {0x3d, 0x20, 0x09, 0x0d, 0x0a}"
  unfolding conv_bin2ascii_eq by (rule byte_forallI [of _ a]) code_simp

lemma ascii_to_bin_pad: "base64_ascii_to_bin 0x3d = 0"
  by (simp add: base64_ascii_to_bin_eq)

lemma ascii_to_bin_inverse:
  "base64_ascii_to_bin c \<noteq> 0xff \<longrightarrow> c = 0x3d \<or> conv_bin2ascii (base64_ascii_to_bin c) = c"
  unfolding base64_ascii_to_bin_eq conv_bin2ascii_eq by (rule byte_forallI [of _ c]) code_simp

section \<open>Quads\<close>

lemma and_3f_not_ff: "(a :: byte) AND 0x3f \<noteq> 0xff"
  by (rule byte_forallI [where P = "\<lambda>a. a AND 0x3f \<noteq> 0xff"]) code_simp

lemma or3_nat:
  fixes a b c :: u32
  assumes "unat a < 256" and "unat b < 256" and "unat c < 256"
  shows "unat (push_bit 16 a OR push_bit 8 b OR c) = unat a * 65536 + unat b * 256 + unat c"
proof -
  have bc: "unat (push_bit 8 b OR c) = unat b * 256 + unat c"
    using assms by (subst unat_shift_or) simp_all
  have "unat (push_bit 16 a OR (push_bit 8 b OR c)) = unat a * 2 ^ 16 + unat (push_bit 8 b OR c)"
    using assms by (intro unat_shift_or) (simp_all add: bc)
  then show ?thesis by (simp add: bc or.assoc)
qed

text \<open>The four 6-bit digits of a 24-bit number, and the number again from its digits.\<close>

lemma digit_bin:
  fixes l :: u32
  shows "unat (ucast (drop_bit k l) AND 0x3f :: byte) = unat l div 2 ^ k mod 64"
  by (simp add: byte_and_3f unat_ucast_down unat_drop_bit mod_mod_cancel)

lemma or4_nat:
  fixes a b c d :: byte
  assumes "unat a < 64" and "unat b < 64" and "unat c < 64" and "unat d < 64"
  shows "unat (push_bit 18 (ucast a) OR push_bit 12 (ucast b) OR push_bit 6 (ucast c) OR ucast d :: u32)
           = unat a * 262144 + unat b * 4096 + unat c * 64 + unat d"
proof -
  have u: "unat (ucast x :: u32) = unat x" for x :: byte by (simp add: unat_ucast_up)
  have cd: "unat (push_bit 6 (ucast c) OR ucast d :: u32) = unat c * 64 + unat d"
    using assms by (subst unat_shift_or) (simp_all add: u)
  have bcd: "unat (push_bit 12 (ucast b) OR (push_bit 6 (ucast c) OR ucast d) :: u32) = unat b * 4096 + unat c * 64 + unat d"
    using assms by (subst unat_shift_or) (simp_all add: u cd)
  have "unat (push_bit 18 (ucast a) OR (push_bit 12 (ucast b) OR (push_bit 6 (ucast c) OR ucast d)) :: u32)
      = unat (ucast a :: u32) * 2 ^ 18 + unat (push_bit 12 (ucast b) OR (push_bit 6 (ucast c) OR ucast d) :: u32)"
    using assms by (intro unat_shift_or) (simp_all add: u bcd)
  then show ?thesis by (simp add: bcd u or.assoc)
qed

lemma horner64:
  fixes n :: nat
  assumes "n = x * 64 + d" and "x = y * 64 + c" and "y = z * 64 + b"
  shows "z * 262144 + b * 4096 + c * 64 + d = n"
  unfolding assms by simp

lemma digits64:
  fixes n :: nat
  assumes "n < 2 ^ 24"
  shows "n div 2 ^ 18 mod 64 * 262144 + n div 2 ^ 12 mod 64 * 4096 + n div 2 ^ 6 mod 64 * 64 + n mod 64 = n"
proof -
  have s: "n div 2 ^ 6 = n div 64" "n div 2 ^ 12 = n div 64 div 64" "n div 2 ^ 18 = n div 64 div 64 div 64"
    by (simp_all add: div_mult2_eq [symmetric])
  have "n div 64 div 64 div 64 < 64" using assms by (simp add: div_less_iff_less_mult flip: div_mult2_eq)
  then have m: "n div 64 div 64 div 64 mod 64 = n div 64 div 64 div 64" by simp
  show ?thesis unfolding s m by (rule horner64) (simp_all only: div_mult_mod_eq)
qed

lemma decode_digits:
  fixes l :: u32
  assumes "unat l < 2 ^ 24"
  shows "push_bit 18 (ucast (ucast (drop_bit 18 l) AND 0x3f :: byte)) OR
         push_bit 12 (ucast (ucast (drop_bit 12 l) AND 0x3f :: byte)) OR
         push_bit 6 (ucast (ucast (drop_bit 6 l) AND 0x3f :: byte)) OR ucast (ucast l AND 0x3f :: byte) = l"
    (is "?x = l")
proof (rule word_unat_eq_iff [THEN iffD2])
  have "unat (ucast l AND 0x3f :: byte) = unat l mod 64" using digit_bin [of 0 l] by simp
  then show "unat ?x = unat l"
    using digits64 [OF assms] digit_bin [of 18 l] digit_bin [of 12 l] digit_bin [of 6 l] by (subst or4_nat) simp_all
qed

lemma byte_of_u32: "ucast (drop_bit k (l :: u32)) = (of_nat (unat l div 2 ^ k) :: byte)"
  by (rule word_unat_eq_iff [THEN iffD2]) (simp add: unat_ucast_down unat_drop_bit unat_of_nat)

lemma decode_quad_encoded:
  "base64_decode_quad (conv_bin2ascii a) (conv_bin2ascii b) (conv_bin2ascii c) (conv_bin2ascii d) =
     (let v = push_bit 18 (ucast (a AND 0x3f)) OR push_bit 12 (ucast (b AND 0x3f)) OR
              push_bit 6 (ucast (c AND 0x3f)) OR ucast (d AND 0x3f) :: u32
      in Some [ucast (drop_bit 16 v), ucast (drop_bit 8 v), ucast v])"
  by (simp add: base64_decode_quad_def ascii_to_bin_bin2ascii and_3f_not_ff conv_bin2ascii_not_special [simplified] Let_def)

declare drop_bit_or [simp del]

lemma ucast_byte_less: "unat (ucast (a :: byte) :: u32) < 256"
  using unat_byte_less [of a] by (simp add: unat_ucast_up)

lemma block_value:
  fixes a b c :: byte
  defines "l \<equiv> push_bit 16 (ucast a) OR push_bit 8 (ucast b) OR ucast c :: u32"
  shows "unat l = unat a * 65536 + unat b * 256 + unat c" and "unat l < 2 ^ 24"
    and "ucast (drop_bit 16 l) = a" and "ucast (drop_bit 8 l) = b" and "ucast l = c"
proof -
  note bl = unat_byte_less [of a] unat_byte_less [of b] unat_byte_less [of c]
  show l: "unat l = unat a * 65536 + unat b * 256 + unat c"
    unfolding l_def by (subst or3_nat) (simp_all add: unat_ucast_up unat_byte_less)
  show "unat l < 2 ^ 24" using bl by (simp add: l)
  have ac: "(unat a * 65536 + unat b * 256 + unat c) div 65536 = unat a" using bl by simp
  have "(unat a * 65536 + unat b * 256 + unat c) div 256 = unat a * 256 + unat b" using bl by simp
  then have bc: "(of_nat ((unat a * 65536 + unat b * 256 + unat c) div 256) :: byte) = b"
    by (simp add: word_unat_eq_iff unat_word_ariths mod_less [OF unat_byte_less])
  have cc: "(of_nat (unat a * 65536 + unat b * 256 + unat c) :: byte) = c"
    by (simp add: word_unat_eq_iff unat_word_ariths mod_less [OF unat_byte_less])
  show "ucast (drop_bit 16 l) = a" using byte_of_u32 [of 16 l] ac by (simp add: l)
  show "ucast (drop_bit 8 l) = b" using byte_of_u32 [of 8 l] bc by (simp add: l)
  show "ucast l = c" using byte_of_u32 [of 0 l] cc by (simp add: l)
qed


lemma block_value2:
  fixes a b :: byte
  shows "push_bit 16 (ucast a) OR push_bit 8 (ucast b) =
         (push_bit 16 (ucast a) OR push_bit 8 (ucast b) OR ucast (0 :: byte) :: u32)"
  by simp

lemma quad3:
  fixes a b c :: byte
  defines "l \<equiv> push_bit 16 (ucast a) OR push_bit 8 (ucast b) OR ucast c :: u32"
  shows "base64_decode_quad (conv_bin2ascii (ucast (drop_bit 18 l))) (conv_bin2ascii (ucast (drop_bit 12 l)))
     (conv_bin2ascii (ucast (drop_bit 6 l))) (conv_bin2ascii (ucast l)) = Some [a, b, c]"
proof -
  note bv = block_value [of a b c, folded l_def]
  show ?thesis unfolding decode_quad_encoded Let_def decode_digits [OF bv(2)] using bv(3-5) by simp
qed

lemma quad2:
  fixes a b :: byte
  defines "l \<equiv> push_bit 16 (ucast a) OR push_bit 8 (ucast b) :: u32"
  shows "base64_decode_quad (conv_bin2ascii (ucast (drop_bit 18 l))) (conv_bin2ascii (ucast (drop_bit 12 l)))
     (conv_bin2ascii (ucast (drop_bit 6 l))) 0x3d = Some [a, b]"
proof -
  have l: "l = push_bit 16 (ucast a) OR push_bit 8 (ucast b) OR ucast (0 :: byte)" by (simp add: l_def)
  note bv = block_value [of a b 0, folded l]
  have z: "ucast l AND 0x3f = (0 :: byte)" using bv(5) by simp
  have v: "push_bit 18 (ucast (ucast (drop_bit 18 l) AND 0x3f :: byte)) OR
         push_bit 12 (ucast (ucast (drop_bit 12 l) AND 0x3f :: byte)) OR
         push_bit 6 (ucast (ucast (drop_bit 6 l) AND 0x3f :: byte)) OR ucast (0 :: byte) = l"
    using decode_digits [OF bv(2)] unfolding z .
  show ?thesis
    using v bv by (simp add: base64_decode_quad_def ascii_to_bin_bin2ascii ascii_to_bin_pad and_3f_not_ff
        conv_bin2ascii_not_special [simplified] Let_def)
qed

lemma quad1:
  fixes a :: byte
  defines "l \<equiv> push_bit 16 (ucast a) :: u32"
  shows "base64_decode_quad (conv_bin2ascii (ucast (drop_bit 18 l))) (conv_bin2ascii (ucast (drop_bit 12 l)))
     0x3d 0x3d = Some [a]"
proof -
  have l: "l = push_bit 16 (ucast a) OR push_bit 8 (ucast (0 :: byte)) OR ucast (0 :: byte)" by (simp add: l_def)
  note bv = block_value [of a 0 0, folded l]
  have z: "ucast l AND 0x3f = (0 :: byte)" using bv(5) by simp
  have "unat l div 2 ^ 6 mod 64 = 0" using bv(1) by (simp add: div_mult2_eq [of _ 64 1024, simplified])
  then have z2: "ucast (drop_bit 6 l) AND 0x3f = (0 :: byte)" using digit_bin [of 6 l] by (simp add: word_unat_eq_iff)
  have v: "push_bit 18 (ucast (ucast (drop_bit 18 l) AND 0x3f :: byte)) OR
         push_bit 12 (ucast (ucast (drop_bit 12 l) AND 0x3f :: byte)) OR
         push_bit 6 (ucast (0 :: byte)) OR ucast (0 :: byte) = l"
    using decode_digits [OF bv(2)] unfolding z z2 .
  show ?thesis
    using v bv by (simp add: base64_decode_quad_def ascii_to_bin_bin2ascii ascii_to_bin_pad and_3f_not_ff
        conv_bin2ascii_not_special [simplified] Let_def)
qed

section \<open>Blocks\<close>

lemma decode_encode_block: "decode_base64_loop (encode_block_loop src) = Some src"
  by (induction src rule: encode_block_loop.induct) (simp_all add: quad1 quad2 quad3 Let_def)

lemma length_encode_block: "length (encode_block_loop src) = 4 * ((length src + 2) div 3)"
proof (induction src rule: encode_block_loop.induct)
  case (2 a b c src)
  then show ?case using div_add_self2 [of 3 "length src + 2"] by (simp add: Let_def)
qed (simp_all add: Let_def)

lemma EVP_EncodedLength_exact:
  assumes "n < SIZE_MOD"
  shows "EVP_EncodedLength n =
    (if n + 2 < SIZE_MOD \<and> 4 * ((n + 2) div 3) + 1 < SIZE_MOD then Some (4 * ((n + 2) div 3) + 1) else None)"
proof (cases "n + 2 < SIZE_MOD")
  case True
  let ?k = "(n + 2) div 3"
  have s: "size_add n 2 = n + 2" using True by (rule size_add_small)
  show ?thesis
  proof (cases "?k * 4 < SIZE_MOD")
    case fit: True
    then show ?thesis
      using True by (cases "?k * 4 + 1 < SIZE_MOD")
        (auto simp: EVP_EncodedLength_def s Let_def size_add_small mult.commute size_add_overflow_iff [of _ 1] SIZE_MOD_def)
  next
    case False
    have "(?k * 4 mod SIZE_MOD) div 4 < ?k"
    proof -
      have "?k * 4 mod SIZE_MOD < SIZE_MOD" by (simp add: SIZE_MOD_def)
      then have "?k * 4 mod SIZE_MOD < ?k * 4" using False by linarith
      then show ?thesis by (simp add: div_less_iff_less_mult)
    qed
    then have "(?k * 4 mod SIZE_MOD) div 4 \<noteq> ?k" by simp
    then show ?thesis using True False by (simp add: EVP_EncodedLength_def s Let_def mult.commute)
  qed
next
  case False
  then have "size_add n 2 < n" using size_add_overflow_iff [of n 2] assms by (simp add: SIZE_MOD_def)
  then show ?thesis using False by (simp add: EVP_EncodedLength_def)
qed

text \<open>
  Base64 decoding inverts encoding: for every input, the block written by \<open>EVP_EncodeBlock\<close>
  has \<open>4 * ceil (len / 3)\<close> characters, fits the size that \<open>EVP_EncodedLength\<close> reports with its
  NUL, and \<open>EVP_DecodeBase64\<close> into a buffer of the size that \<open>EVP_DecodedLength\<close> reports
  returns exactly the input again.
\<close>

theorem base64_block_round_trip:
  "snd (EVP_EncodeBlock src) = 4 * ((length src + 2) div 3) \<and>
   length (fst (EVP_EncodeBlock src)) = snd (EVP_EncodeBlock src) \<and>
   EVP_DecodedLength (snd (EVP_EncodeBlock src)) = Some (3 * ((length src + 2) div 3)) \<and>
   EVP_DecodeBase64 (3 * ((length src + 2) div 3)) (fst (EVP_EncodeBlock src)) = Some src"
  by (simp add: EVP_EncodeBlock_def length_encode_block EVP_DecodedLength_def EVP_DecodeBase64_def decode_encode_block)

text \<open>
  \<open>EVP_EncodedLength\<close> reports the exact size of the encoding and its NUL, and fails exactly when
  that size does not fit in a \<open>size_t\<close>.
\<close>

theorem EVP_EncodedLength_correct:
  assumes "n < SIZE_MOD"
  shows "EVP_EncodedLength n =
    (if n + 2 < SIZE_MOD \<and> 4 * ((n + 2) div 3) + 1 < SIZE_MOD then Some (4 * ((n + 2) div 3) + 1) else None)"
  using assms by (rule EVP_EncodedLength_exact)

theorem EVP_EncodedLength_correct_witness:
  "EVP_EncodedLength 7 =
    (if 7 + 2 < SIZE_MOD \<and> 4 * ((7 + 2) div 3) + 1 < SIZE_MOD then Some (4 * ((7 + 2) div 3) + 1) else None)"
  by (rule EVP_EncodedLength_correct) (simp add: SIZE_MOD_def)


section \<open>The streaming encoder\<close>

text \<open>The complete lines of a text, and what is left of it.\<close>

function full_lines :: "byte list \<Rightarrow> byte list" where
  "full_lines xs =
     (if length xs \<ge> 48 then encode_block_loop (take 48 xs) @ [0x0a] @ full_lines (drop 48 xs) else [])"
  by pat_completeness auto
termination by (relation "measure length") auto

declare full_lines.simps [simp del]

definition last_part :: "byte list \<Rightarrow> byte list" where
  "last_part xs = drop (48 * (length xs div 48)) xs"

definition pem_lines :: "byte list \<Rightarrow> byte list" where
  "pem_lines xs = full_lines xs @
     (if last_part xs = [] then [] else encode_block_loop (last_part xs) @ [0x0a])"

lemma last_part_short: "length xs < 48 \<Longrightarrow> last_part xs = xs"
  by (simp add: last_part_def)

lemma last_part_long: "48 \<le> length xs \<Longrightarrow> last_part xs = last_part (drop 48 xs)"
  by (simp add: last_part_def le_div_geq add.commute)

lemma length_last_part: "length (last_part xs) = length xs mod 48"
  by (simp add: last_part_def minus_mult_div_eq_mod)

lemma full_lines_short [simp]: "length xs < 48 \<Longrightarrow> full_lines xs = []"
  by (simp add: full_lines.simps)

lemma full_lines_append: "full_lines (xs @ ys) = full_lines xs @ full_lines (last_part xs @ ys)"
proof (induction xs rule: full_lines.induct)
  case (1 xs)
  show ?case
  proof (cases "48 \<le> length xs")
    case True
    then show ?thesis
      using 1 by (simp add: full_lines.simps [of "xs @ ys"] full_lines.simps [of xs] last_part_long [OF True])
  next
    case False
    then show ?thesis by (simp add: last_part_short)
  qed
qed

lemma last_part_append: "last_part (xs @ ys) = last_part (last_part xs @ ys)"
proof (induction xs rule: full_lines.induct)
  case (1 xs)
  then show ?case
    by (cases "48 \<le> length xs") (simp_all add: last_part_short last_part_long)
qed

lemma length_full_lines: "length (full_lines xs) = 65 * (length xs div 48)"
proof (induction xs rule: full_lines.induct)
  case (1 xs)
  then show ?case
    by (cases "48 \<le> length xs") (simp_all add: full_lines.simps [of xs] length_encode_block le_div_geq)
qed

lemma encode_lines_loop_eq:
  "tot + 65 * (length inp div 48) < SIZE_MOD \<Longrightarrow>
   encode_lines_loop inp tot out = (True, out @ full_lines inp, tot + 65 * (length inp div 48), last_part inp)"
proof (induction inp tot out rule: encode_lines_loop.induct)
  case (1 inp tot out)
  show ?case
  proof (cases "48 \<le> length inp")
    case False
    then show ?thesis
      by (subst encode_lines_loop.simps) (simp add: CTX_DATA_SIZE_def last_part_short)
  next
    case True
    obtain k where k: "length inp div 48 = Suc k" "length (drop 48 inp) div 48 = k"
      using True by (simp add: le_div_geq)
    have e: "length (encode_block_loop (take 48 inp)) = 64" using True by (simp add: length_encode_block)
    have s: "size_add (size_add tot 64) 1 = tot + 65" "size_add tot (size_add 64 1) = tot + 65"
      using 1(2) k by (simp_all add: size_add_def SIZE_MOD_def)
    have "encode_lines_loop (drop 48 inp) (tot + 65) (out @ encode_block_loop (take 48 inp) @ [0x0a]) =
        (True, (out @ encode_block_loop (take 48 inp) @ [0x0a]) @ full_lines (drop 48 inp),
         tot + 65 + 65 * (length (drop 48 inp) div 48), last_part (drop 48 inp))"
      using 1 True k e s by (simp add: CTX_DATA_SIZE_def EVP_EncodeBlock_def)
    then show ?thesis
      using True e s k
      by (subst encode_lines_loop.simps)
        (simp add: CTX_DATA_SIZE_def EVP_EncodeBlock_def full_lines.simps [of inp] last_part_long [OF True])
  qed
qed

definition pending :: "EVP_ENCODE_CTX \<Rightarrow> byte list" where
  "pending ctx = take (data_used ctx) (ctx_data ctx)"

definition enc_ok :: "EVP_ENCODE_CTX \<Rightarrow> bool" where
  "enc_ok ctx \<longleftrightarrow> data_used ctx < 48 \<and> length (ctx_data ctx) = 48"


text \<open>The end of \<open>EVP_EncodeUpdate\<close>: what is left of the input goes to the front of the buffer.\<close>

definition store_rest :: "EVP_ENCODE_CTX \<Rightarrow> byte list \<Rightarrow> EVP_ENCODE_CTX" where
  "store_rest ctx rest =
     (if length rest \<noteq> 0 then ctx\<lparr>ctx_data := mem_write (ctx_data ctx) 0 rest\<rparr> else ctx)\<lparr>data_used := length rest\<rparr>"

lemma store_rest_ok:
  "length (ctx_data ctx) = 48 \<Longrightarrow> length rest < 48 \<Longrightarrow>
     enc_ok (store_rest ctx rest) \<and> pending (store_rest ctx rest) = rest"
  by (simp add: store_rest_def enc_ok_def pending_def mem_write_def)

lemma EVP_EncodeUpdate_spec:
  assumes "enc_ok ctx" and "length inp \<le> 2 ^ 30"
  shows "\<exists>ctx'. EVP_EncodeUpdate ctx inp =
      (ctx', length (full_lines (pending ctx @ inp)), full_lines (pending ctx @ inp)) \<and>
      enc_ok ctx' \<and> pending ctx' = last_part (pending ctx @ inp)"
proof -
  let ?u = "data_used ctx" and ?all = "pending ctx @ inp"
  have u: "?u < 48" and d: "length (ctx_data ctx) = 48" using assms(1) by (simp_all add: enc_ok_def)
  have lp: "length (pending ctx) = ?u" using u d by (simp add: pending_def)
  have bound: "65 * (length ?all div 48) \<le> INT_MAX"
  proof -
    have "length ?all div 48 \<le> (2 ^ 30 + 48) div 48" using assms(2) u lp by (intro div_le_mono) simp
    then show ?thesis by (simp add: INT_MAX_def)
  qed
  consider (empty) "inp = []" | (small) "inp \<noteq> []" "?u + length inp < 48"
    | (line) "48 \<le> ?u + length inp" "?u \<noteq> 0" | (aligned) "48 \<le> length inp" "?u = 0"
    by (cases "inp = []"; cases "?u + length inp < 48"; cases "?u = 0") (auto simp: not_less)
  then show ?thesis
  proof cases
    case empty
    then show ?thesis
      using assms(1) lp u by (simp add: EVP_EncodeUpdate_def last_part_short)
  next
    case small
    have "length inp < 48 - ?u" using small by linarith
    then have "EVP_EncodeUpdate ctx inp = (ctx\<lparr>ctx_data := mem_write (ctx_data ctx) ?u inp, data_used := ?u + length inp\<rparr>, 0, [])"
      using small by (simp add: EVP_EncodeUpdate_def CTX_DATA_SIZE_def)
    then show ?thesis
      using small lp d by (simp add: enc_ok_def pending_def last_part_short mem_write_def)
  next
    case line
    let ?todo = "48 - ?u"
    let ?data = "pending ctx @ take ?todo inp"
    have dl: "length ?data = 48" using lp line u by simp
    have mw: "mem_write (ctx_data ctx) ?u (take ?todo inp) = ?data"
      using line d u by (simp add: mem_write_def pending_def)
    have all48: "48 \<le> length ?all" using lp line by simp
    have parts: "take 48 ?all = ?data" "drop 48 ?all = drop ?todo inp" using lp u by simp_all
    have fl: "full_lines ?all = encode_block_loop ?data @ [0x0a] @ full_lines (drop ?todo inp)"
      using all48 by (subst full_lines.simps) (simp add: parts del: take_append drop_append)
    have lpart: "last_part ?all = last_part (drop ?todo inp)" using last_part_long [OF all48] parts(2) by simp
    have k: "length ?all div 48 = Suc (length (drop ?todo inp) div 48)"
    proof -
      have ld: "length (drop ?todo inp) = length ?all - 48" unfolding parts(2) [symmetric] by (rule length_drop)
      show ?thesis unfolding ld by (rule le_div_geq) (use all48 in simp_all)
    qed
    have e64: "length (encode_block_loop ?data) = 64" using dl by (simp add: length_encode_block)
    have loop: "encode_lines_loop (drop ?todo inp) 65 (encode_block_loop ?data @ [0x0a]) =
        (True, full_lines ?all, 65 * (length ?all div 48), last_part ?all)"
      using bound k by (subst encode_lines_loop_eq) (simp_all add: fl lpart SIZE_MOD_def INT_MAX_def)
    have rest: "length (last_part ?all) < 48" by (simp add: length_last_part)
    have up: "EVP_EncodeUpdate ctx inp =
        (store_rest (ctx\<lparr>ctx_data := ?data, data_used := 0\<rparr>) (last_part ?all), length (full_lines ?all), full_lines ?all)"
    proof -
      have g: "inp \<noteq> []" "\<not> 48 - ?u > length inp" "?u \<noteq> 0" "take 48 ?data = ?data" using line u dl lp by auto
      have "\<not> INT_MAX < 65 * (length ?all div 48)" using bound by simp
      with g loop e64 show ?thesis
        by (simp only: EVP_EncodeUpdate_def CTX_DATA_SIZE_def Let_def EVP_EncodeBlock_def mw store_rest_def
            length_full_lines length_0_conv if_False not_True_eq_False not_False_eq_True if_True prod.case) simp
    qed
    show ?thesis unfolding up using store_rest_ok [OF _ rest] dl by simp
  next
    case aligned
    then have p: "pending ctx = []" by (simp add: pending_def)
    have loop: "encode_lines_loop inp 0 [] = (True, full_lines inp, 65 * (length inp div 48), last_part inp)"
      using bound p by (subst encode_lines_loop_eq) (simp_all add: SIZE_MOD_def INT_MAX_def)
    have rest: "length (last_part inp) < 48" by (simp add: length_last_part)
    have "EVP_EncodeUpdate ctx inp = (store_rest ctx (last_part inp), length (full_lines inp), full_lines inp)"
      using aligned bound loop p
      by (auto simp: EVP_EncodeUpdate_def CTX_DATA_SIZE_def Let_def store_rest_def length_full_lines not_less)
    then show ?thesis using store_rest_ok [OF d rest] p by simp
  qed
qed

text \<open>A whole encoding session: the chunks passed to \<open>EVP_EncodeUpdate\<close>, then \<open>EVP_EncodeFinal\<close>.\<close>

fun encode_session :: "EVP_ENCODE_CTX \<Rightarrow> byte list list \<Rightarrow> byte list" where
  "encode_session ctx [] = (case EVP_EncodeFinal ctx of (ctx', n, out) \<Rightarrow> take n out)"
| "encode_session ctx (c # cs) =
     (case EVP_EncodeUpdate ctx c of (ctx', n, out) \<Rightarrow> take n out @ encode_session ctx' cs)"

lemma encode_session_eq:
  "enc_ok ctx \<Longrightarrow> \<forall>c\<in>set cs. length c \<le> 2 ^ 30 \<Longrightarrow> encode_session ctx cs = pem_lines (pending ctx @ concat cs)"
proof (induction cs arbitrary: ctx)
  case Nil
  then have "length (pending ctx) = data_used ctx" by (simp add: enc_ok_def pending_def)
  then show ?case
    using Nil by (auto simp: EVP_EncodeFinal_def EVP_EncodeBlock_def pem_lines_def last_part_short enc_ok_def
        simp flip: pending_def)
next
  case (Cons c cs)
  then obtain ctx' where u: "EVP_EncodeUpdate ctx c =
      (ctx', length (full_lines (pending ctx @ c)), full_lines (pending ctx @ c))"
    and ok: "enc_ok ctx'" and p: "pending ctx' = last_part (pending ctx @ c)"
    using EVP_EncodeUpdate_spec [of ctx c] by auto
  have "encode_session ctx' cs = pem_lines (pending ctx' @ concat cs)" using Cons ok by simp
  then show ?case
    using full_lines_append [of "pending ctx @ c" "concat cs"] last_part_append [of "pending ctx @ c" "concat cs"] u p
    by (simp add: pem_lines_def)
qed

lemma enc_ok_init: "enc_ok EVP_EncodeInit" "pending EVP_EncodeInit = []"
  by (simp_all add: EVP_EncodeInit_def enc_ok_def pending_def CTX_DATA_SIZE_def)

text \<open>
  The streaming encoder does not depend on how its input is cut up: any sequence of
  \<open>EVP_EncodeUpdate\<close> calls (with chunks of at most \<open>2 ^ 30\<close> bytes, so that \<open>*out_len\<close> does not
  exceed \<open>INT_MAX\<close>) and \<open>EVP_EncodeFinal\<close> produce the lines of 64 characters of the whole
  input, the last one possibly shorter, each with its newline.
\<close>

theorem EVP_Encode_streaming:
  assumes "\<forall>c\<in>set chunks. length c \<le> 2 ^ 30"
  shows "encode_session EVP_EncodeInit chunks = pem_lines (concat chunks)"
  using encode_session_eq [OF enc_ok_init(1) assms] by (simp add: enc_ok_init(2))

theorem EVP_Encode_streaming_witness:
  "encode_session EVP_EncodeInit [[1, 2], [], [3]] = pem_lines (concat [[1, 2], [], [3]])"
  by (rule EVP_Encode_streaming) simp

section \<open>The streaming decoder\<close>

definition is_b64_space :: "byte \<Rightarrow> bool" where
  "is_b64_space c \<longleftrightarrow> c = 0x20 \<or> c = 0x09 \<or> c = 0x0d \<or> c = 0x0a"

lemma decode_update_loop_append:
  "decode_update_loop ctx out (xs @ ys) =
     (case decode_update_loop ctx out xs of
        (True, ctx', out') \<Rightarrow> decode_update_loop ctx' out' ys
      | (False, r) \<Rightarrow> (False, r))"
  by (induction ctx out xs rule: decode_update_loop.induct)
    (auto simp: Let_def split: option.splits)

lemma decode_update_loop_out:
  "decode_update_loop ctx (out @ o2) xs =
     (case decode_update_loop ctx o2 xs of (b, ctx', out') \<Rightarrow> (b, ctx', out @ out'))"
proof (induction ctx o2 xs rule: decode_update_loop.induct)
  case (2 ctx o2 c inp)
  then show ?case by (auto simp: Let_def split: option.splits)
qed simp

text \<open>A session of the decoder: every chunk passed to \<open>EVP_DecodeUpdate\<close>, then \<open>EVP_DecodeFinal\<close>.\<close>

fun decode_session :: "EVP_ENCODE_CTX \<Rightarrow> byte list list \<Rightarrow> byte list option" where
  "decode_session ctx [] = (if EVP_DecodeFinal ctx = 1 then Some [] else None)"
| "decode_session ctx (c # cs) =
     (case EVP_DecodeUpdate ctx c of (ret, ctx', n, out) \<Rightarrow>
        if ret < 0 then None else map_option ((@) (take n out)) (decode_session ctx' cs))"

lemma decode_quad_length: "base64_decode_quad a b c d = Some bs \<Longrightarrow> length bs \<le> 3"
  by (auto simp: base64_decode_quad_def Let_def split: if_splits)

lemma decode_update_loop_length:
  "decode_update_loop ctx out xs = (b, ctx', out') \<Longrightarrow> length out' \<le> length out + 3 * length xs"
proof (induction xs arbitrary: ctx out)
  case (Cons c xs)
  have IH: "decode_update_loop ctx0 out0 xs = (b, ctx', out') \<Longrightarrow> length out' \<le> length out0 + 3 * length xs"
    for ctx0 out0 by (rule Cons.IH)
  from Cons.prems show ?case
    by (auto simp: Let_def split: if_splits option.splits dest!: IH decode_quad_length)
qed simp

lemma error_sticky_loop: "decode_update_loop ctx out xs = (True, ctx', out') \<Longrightarrow> error_encountered ctx' = error_encountered ctx"
  by (induction ctx out xs rule: decode_update_loop.induct)
    (auto simp: Let_def split: if_splits option.splits)

lemma decode_session_eq:
  "\<not> error_encountered ctx \<Longrightarrow> \<forall>c\<in>set cs. length c \<le> 2 ^ 29 \<Longrightarrow>
   decode_session ctx cs =
     (case decode_update_loop ctx [] (concat cs) of
        (True, ctx', out) \<Rightarrow> if EVP_DecodeFinal ctx' = 1 then Some out else None
      | (False, _) \<Rightarrow> None)"
proof (induction cs arbitrary: ctx)
  case Nil
  then show ?case by simp
next
  case (Cons c cs)
  obtain b ctx' out where r: "decode_update_loop ctx [] c = (b, ctx', out)" by (cases "decode_update_loop ctx [] c") auto
  show ?case
  proof (cases b)
    case False
    then show ?thesis using r Cons.prems by (simp add: EVP_DecodeUpdate_def decode_update_loop_append)
  next
    case True
    have len: "length out \<le> INT_MAX"
      using decode_update_loop_length [OF r] Cons.prems(2) by (simp add: INT_MAX_def)
    have ne: "\<not> error_encountered ctx'" using error_sticky_loop r True Cons.prems(1) by metis
    have IH: "decode_session ctx' cs = (case decode_update_loop ctx' [] (concat cs) of
        (True, ctx', out) \<Rightarrow> if EVP_DecodeFinal ctx' = 1 then Some out else None | (False, _) \<Rightarrow> None)"
      using Cons ne by simp
    have "decode_update_loop ctx' (out @ []) (concat cs) =
        (case decode_update_loop ctx' [] (concat cs) of (b, c2, o2) \<Rightarrow> (b, c2, out @ o2))"
      by (rule decode_update_loop_out)
    then show ?thesis
      using r True len IH Cons.prems(1)
      by (auto simp: EVP_DecodeUpdate_def decode_update_loop_append not_less split: prod.splits bool.splits)
  qed
qed

text \<open>Decoding a text the encoder made.\<close>

definition dec_ready :: "EVP_ENCODE_CTX \<Rightarrow> bool" where
  "dec_ready ctx \<longleftrightarrow> data_used ctx = 0 \<and> length (ctx_data ctx) = 48 \<and> \<not> eof_seen ctx \<and> \<not> error_encountered ctx"

definition dec_done :: "EVP_ENCODE_CTX \<Rightarrow> bool" where
  "dec_done ctx \<longleftrightarrow> data_used ctx = 0 \<and> length (ctx_data ctx) = 48 \<and> eof_seen ctx \<and> \<not> error_encountered ctx"

lemma decode_loop_quad:
  assumes "dec_ready ctx" and "\<forall>c\<in>{a, b, c, d}. \<not> is_b64_space c" and "base64_decode_quad a b c d = Some bs"
  shows "\<exists>ctx'. decode_update_loop ctx out (a # b # c # d # inp) = decode_update_loop ctx' (out @ bs) inp \<and>
           (if length bs = 3 then dec_ready ctx' else dec_done ctx')"
proof -
  obtain w x y z r where data: "ctx_data ctx = w # x # y # z # r" "length r = 44"
  proof -
    have "length (ctx_data ctx) = Suc (Suc (Suc (Suc 44)))" using assms(1) by (simp add: dec_ready_def)
    then show thesis using that unfolding length_Suc_conv by blast
  qed
  have "length bs \<le> 3" using assms(3) by (rule decode_quad_length)
  then show ?thesis
    using assms data by (auto simp: dec_ready_def dec_done_def is_b64_space_def Let_def numeral_eq_Suc)
qed


lemma encoded_not_space: "c \<in> set (encode_block_loop src) \<Longrightarrow> \<not> is_b64_space c"
proof -
  have n: "\<not> is_b64_space (conv_bin2ascii a)" for a
    using conv_bin2ascii_not_special [of a] by (simp add: is_b64_space_def)
  show "c \<in> set (encode_block_loop src) \<Longrightarrow> \<not> is_b64_space c"
    by (induction src rule: encode_block_loop.induct) (auto simp: Let_def n is_b64_space_def [of "0x3d"])
qed

lemma decode_loop_block:
  "dec_ready ctx \<Longrightarrow>
   \<exists>ctx'. decode_update_loop ctx out (encode_block_loop src @ inp) = decode_update_loop ctx' (out @ src) inp \<and>
     (if length src mod 3 = 0 then dec_ready ctx' else dec_done ctx')"
proof (induction src arbitrary: ctx out rule: encode_block_loop.induct)
  case 1
  then show ?case by auto
next
  case (2 a b c src)
  obtain p q r s where e: "encode_block_loop (a # b # c # src) = p # q # r # s # encode_block_loop src"
    and d: "base64_decode_quad p q r s = Some [a, b, c]" using quad3 [of a b c] by (simp add: Let_def)
  have "\<forall>x\<in>{p, q, r, s}. \<not> is_b64_space x" using encoded_not_space [of _ "a # b # c # src"] unfolding e by simp
  from decode_loop_quad [OF 2(2) this d, of out "encode_block_loop src @ inp"] obtain ctx1
    where c1: "decode_update_loop ctx out (p # q # r # s # encode_block_loop src @ inp) =
        decode_update_loop ctx1 (out @ [a, b, c]) (encode_block_loop src @ inp)" "dec_ready ctx1" by auto
  from 2(1) [OF refl c1(2), of "out @ [a, b, c]"] show ?case
    unfolding e using c1(1) by (simp del: encode_block_loop.simps)
next
  case (3 a b)
  obtain p q r s where e: "encode_block_loop [a, b] = [p, q, r, s]"
    and d: "base64_decode_quad p q r s = Some [a, b]" using quad2 [of a b] by (simp add: Let_def)
  have "\<forall>x\<in>{p, q, r, s}. \<not> is_b64_space x" using encoded_not_space [of _ "[a, b]"] unfolding e by simp
  from decode_loop_quad [OF 3 this d, of out inp] show ?case unfolding e by simp
next
  case (4 a)
  obtain p q r s where e: "encode_block_loop [a] = [p, q, r, s]"
    and d: "base64_decode_quad p q r s = Some [a]" using quad1 [of a] by (simp add: Let_def)
  have "\<forall>x\<in>{p, q, r, s}. \<not> is_b64_space x" using encoded_not_space [of _ "[a]"] unfolding e by simp
  from decode_loop_quad [OF 4 this d, of out inp] show ?case unfolding e by simp
qed

lemma decode_loop_newline [simp]: "decode_update_loop ctx out (0x0a # inp) = decode_update_loop ctx out inp"
  by simp

lemma decode_loop_full_lines:
  "dec_ready ctx \<Longrightarrow>
   \<exists>ctx'. decode_update_loop ctx out (full_lines xs @ inp) =
            decode_update_loop ctx' (out @ take (48 * (length xs div 48)) xs) inp \<and> dec_ready ctx'"
proof (induction xs arbitrary: ctx out rule: full_lines.induct)
  case (1 xs)
  show ?case
  proof (cases "48 \<le> length xs")
    case False
    then show ?thesis using 1(2) by auto
  next
    case True
    then have m: "length (take 48 xs) mod 3 = 0" by simp
    from decode_loop_block [OF 1(2), of out "take 48 xs" "0x0a # full_lines (drop 48 xs) @ inp"] m
    obtain ctx1 where c1: "decode_update_loop ctx out (encode_block_loop (take 48 xs) @ 0x0a # full_lines (drop 48 xs) @ inp) =
        decode_update_loop ctx1 (out @ take 48 xs) (full_lines (drop 48 xs) @ inp)" "dec_ready ctx1" by auto
    have t: "take (48 * (length xs div 48)) xs = take 48 xs @ take (48 * (length (drop 48 xs) div 48)) (drop 48 xs)"
      using True by (simp add: le_div_geq take_add)
    from 1(1) [OF True c1(2), of "out @ take 48 xs"] show ?thesis
      using True c1(1) unfolding t by (simp add: full_lines.simps [of xs])
  qed
qed

lemma decode_pem_lines:
  "\<exists>ctx'. decode_update_loop EVP_DecodeInit [] (pem_lines xs) = (True, ctx', xs) \<and> EVP_DecodeFinal ctx' = 1"
proof -
  have r: "dec_ready EVP_DecodeInit" by (simp add: dec_ready_def EVP_DecodeInit_def CTX_DATA_SIZE_def)
  let ?tail = "if last_part xs = [] then [] else encode_block_loop (last_part xs) @ [0x0a]"
  from decode_loop_full_lines [OF r, of "[]" xs ?tail] obtain ctx1
    where c1: "decode_update_loop EVP_DecodeInit [] (full_lines xs @ ?tail) =
        decode_update_loop ctx1 (take (48 * (length xs div 48)) xs) ?tail" "dec_ready ctx1" by auto
  have x: "take (48 * (length xs div 48)) xs @ last_part xs = xs" by (simp add: last_part_def)
  show ?thesis
  proof (cases "last_part xs = []")
    case True
    then show ?thesis using c1 x by (auto simp: pem_lines_def dec_ready_def EVP_DecodeFinal_def)
  next
    case False
    from decode_loop_block [OF c1(2), of "take (48 * (length xs div 48)) xs" "last_part xs" "[0x0a]"]
    show ?thesis using c1(1) x False
      by (auto simp: pem_lines_def dec_ready_def dec_done_def EVP_DecodeFinal_def split: if_splits)
  qed
qed

text \<open>
  The streaming decoder does not depend on how its input is cut up: feeding chunks (of at most
  \<open>2 ^ 29\<close> bytes) through \<open>EVP_DecodeUpdate\<close> and \<open>EVP_DecodeFinal\<close> gives the same result, success
  or failure, as feeding their concatenation in one pass of the decoding loop.
\<close>

theorem EVP_Decode_chunking:
  assumes "\<forall>c\<in>set cs. length c \<le> 2 ^ 29"
  shows "decode_session EVP_DecodeInit cs =
    (case decode_update_loop EVP_DecodeInit [] (concat cs) of
       (True, ctx, out) \<Rightarrow> if EVP_DecodeFinal ctx = 1 then Some out else None
     | (False, _) \<Rightarrow> None)"
  by (rule decode_session_eq [OF _ assms]) (simp add: EVP_DecodeInit_def)

theorem EVP_Decode_chunking_witness:
  "decode_session EVP_DecodeInit [[0x41, 0x41], [0x3d, 0x3d]] =
    (case decode_update_loop EVP_DecodeInit [] (concat [[0x41, 0x41], [0x3d, 0x3d]]) of
       (True, ctx, out) \<Rightarrow> if EVP_DecodeFinal ctx = 1 then Some out else None
     | (False, _) \<Rightarrow> None)"
  by (rule EVP_Decode_chunking) simp

text \<open>
  (C13) Streaming round trip: encode any data in any chunks of at most \<open>2 ^ 30\<close> bytes, cut the text up in any
  other way into pieces of at most \<open>2 ^ 29\<close> bytes and decode it; the decoder accepts it and returns the data.
  The bounds keep the lengths, which the functions count in an \<open>int\<close>, below its maximum.
\<close>

theorem base64_streaming_round_trip:
  assumes "\<forall>c\<in>set chunks. length c \<le> 2 ^ 30" and "\<forall>c\<in>set cs. length c \<le> 2 ^ 29"
    and "concat cs = encode_session EVP_EncodeInit chunks"
  shows "decode_session EVP_DecodeInit cs = Some (concat chunks)"
proof -
  have t: "concat cs = pem_lines (concat chunks)"
    using assms(3) encode_session_eq [OF enc_ok_init(1) assms(1)] by (simp add: enc_ok_init(2))
  show ?thesis
    using decode_session_eq [of EVP_DecodeInit, OF _ assms(2)] decode_pem_lines [of "concat chunks"]
    by (auto simp: t EVP_DecodeInit_def)
qed

theorem base64_streaming_round_trip_witness:
  "decode_session EVP_DecodeInit [encode_session EVP_EncodeInit [[1], [2, 3]]] = Some (concat [[1], [2, 3]])"
proof (rule base64_streaming_round_trip)
  have "encode_session EVP_EncodeInit [[1], [2, 3]] = pem_lines [1, 2, 3]"
    using encode_session_eq [OF enc_ok_init(1), of "[[1], [2, 3]]"] by (simp add: enc_ok_init(2))
  then show "\<forall>c\<in>set [encode_session EVP_EncodeInit [[1], [2, 3]]]. length c \<le> 2 ^ 29"
    by (simp add: pem_lines_def last_part_def)
qed simp_all

end
