(* ===== verification/Posix_Time.thy ===== *)
theory Posix_Time
  imports Main "HOL-Library.Signed_Division"
begin

text \<open>
  \<open>crypto/asn1/posix_time.c\<close>: conversion between calendar dates of the years 0 to 9999 and POSIX
  times. The \<open>int64_t\<close> and \<open>int\<close> values are \<open>int\<close>: the guards of the code keep every intermediate
  value far inside \<open>int64_t\<close>. \<open>sdiv\<close> and \<open>smod\<close> are C's division, which truncates towards zero.
  Of \<open>struct tm\<close> the six fields the code reads and writes are modelled.
\<close>

section \<open>Definitions\<close>

definition SECS_PER_HOUR :: int where "SECS_PER_HOUR = 60 * 60"
definition SECS_PER_DAY :: int where "SECS_PER_DAY = 24 * SECS_PER_HOUR"
definition INT64_MAX :: int where "INT64_MAX = 2 ^ 63 - 1"
definition INT64_MIN :: int where "INT64_MIN = - (2 ^ 63)"

definition is_valid_date :: "int \<Rightarrow> int \<Rightarrow> int \<Rightarrow> bool" where
  "is_valid_date year month day \<longleftrightarrow>
     (if day < 1 \<or> month < 1 \<or> year < 0 \<or> year > 9999 then False
      else if month \<in> {1, 3, 5, 7, 8, 10, 12} then day > 0 \<and> day \<le> 31
      else if month \<in> {4, 6, 9, 11} then day > 0 \<and> day \<le> 30
      else if month = 2
      then (if (year smod 4 = 0 \<and> year smod 100 \<noteq> 0) \<or> year smod 400 = 0
            then day > 0 \<and> day \<le> 29 else day > 0 \<and> day \<le> 28)
      else False)"

definition is_valid_time :: "int \<Rightarrow> int \<Rightarrow> int \<Rightarrow> bool" where
  "is_valid_time hours minutes seconds \<longleftrightarrow>
     \<not> (hours < 0 \<or> minutes < 0 \<or> seconds < 0 \<or> hours > 23 \<or> minutes > 59 \<or> seconds > 59)"

definition MIN_POSIX_TIME :: int where "MIN_POSIX_TIME = - 62167219200"
definition MAX_POSIX_TIME :: int where "MAX_POSIX_TIME = 253402300799"

definition is_valid_posix_time :: "int \<Rightarrow> bool" where
  "is_valid_posix_time time \<longleftrightarrow> MIN_POSIX_TIME \<le> time \<and> time \<le> MAX_POSIX_TIME"

definition posix_time_from_utc :: "int \<Rightarrow> int \<Rightarrow> int \<Rightarrow> int \<Rightarrow> int \<Rightarrow> int \<Rightarrow> int option" where
  "posix_time_from_utc year month day hours minutes seconds =
     (if \<not> is_valid_date year month day \<or> \<not> is_valid_time hours minutes seconds then None
      else
        let year = (if month \<le> 2 then year - 1 else year);
            era = (if year \<ge> 0 then year else year - 399) sdiv 400;
            year_of_era = year - era * 400;
            day_of_year = (153 * (if month > 2 then month - 3 else month + 9) + 2) sdiv 5 + day - 1;
            day_of_era = year_of_era * 365 + year_of_era sdiv 4 - year_of_era sdiv 100 + day_of_year;
            posix_days = era * 146097 + day_of_era - 719468
        in Some (posix_days * SECS_PER_DAY + hours * SECS_PER_HOUR + minutes * 60 + seconds))"

text \<open>The result is (year, month, day, hours, minutes, seconds).\<close>

definition utc_from_posix_time :: "int \<Rightarrow> (int \<times> int \<times> int \<times> int \<times> int \<times> int) option" where
  "utc_from_posix_time time =
     (if \<not> is_valid_posix_time time then None
      else
        let days = time sdiv SECS_PER_DAY;
            leftover_seconds = time smod SECS_PER_DAY;
            (days, leftover_seconds) =
              (if leftover_seconds < 0 then (days - 1, leftover_seconds + SECS_PER_DAY) else (days, leftover_seconds));
            days = days + 719468;
            era = (if days > 0 then days else days - 146096) sdiv 146097;
            day_of_era = days - era * 146097;
            year_of_era = (day_of_era - day_of_era sdiv 1460 + day_of_era sdiv 36524 - day_of_era sdiv 146096) sdiv 365;
            out_year = year_of_era + era * 400;
            day_of_year = day_of_era - (365 * year_of_era + year_of_era sdiv 4 - year_of_era sdiv 100);
            month_of_year = (5 * day_of_year + 2) sdiv 153;
            out_month = (if month_of_year < 10 then month_of_year + 3 else month_of_year - 9);
            out_year = (if out_month \<le> 2 then out_year + 1 else out_year);
            out_day = day_of_year - (153 * month_of_year + 2) sdiv 5 + 1;
            out_hours = leftover_seconds sdiv SECS_PER_HOUR;
            leftover_seconds = leftover_seconds smod SECS_PER_HOUR;
            out_minutes = leftover_seconds sdiv 60;
            out_seconds = leftover_seconds smod 60
        in Some (out_year, out_month, out_day, out_hours, out_minutes, out_seconds))"

record tm =
  tm_year :: int
  tm_mon :: int
  tm_mday :: int
  tm_hour :: int
  tm_min :: int
  tm_sec :: int

definition OPENSSL_tm_to_posix :: "tm \<Rightarrow> int option" where
  "OPENSSL_tm_to_posix tm =
     posix_time_from_utc (tm_year tm + 1900) (tm_mon tm + 1) (tm_mday tm) (tm_hour tm) (tm_min tm) (tm_sec tm)"

definition OPENSSL_posix_to_tm :: "int \<Rightarrow> tm option" where
  "OPENSSL_posix_to_tm time =
     (case utc_from_posix_time time of
        None \<Rightarrow> None
      | Some (y, m, d, h, mi, s) \<Rightarrow>
          Some \<lparr>tm_year = y - 1900, tm_mon = m - 1, tm_mday = d, tm_hour = h, tm_min = mi, tm_sec = s\<rparr>)"

text \<open>\<open>time_t\<close> has 32 or 64 bits; \<open>time32\<close> says which.\<close>

definition OPENSSL_timegm :: "bool \<Rightarrow> tm \<Rightarrow> int option" where
  "OPENSSL_timegm time32 tm =
     (case OPENSSL_tm_to_posix tm of
        None \<Rightarrow> None
      | Some posix_time \<Rightarrow>
          if time32 \<and> (posix_time > 2 ^ 31 - 1 \<or> posix_time < - (2 ^ 31)) then None else Some posix_time)"

definition OPENSSL_gmtime :: "int \<Rightarrow> tm option" where
  "OPENSSL_gmtime time = OPENSSL_posix_to_tm time"

definition OPENSSL_gmtime_adj :: "tm \<Rightarrow> int \<Rightarrow> int \<Rightarrow> tm option" where
  "OPENSSL_gmtime_adj tm offset_day offset_sec =
     (case OPENSSL_tm_to_posix tm of
        None \<Rightarrow> None
      | Some posix_time \<Rightarrow>
          let posix_time = posix_time + offset_day * SECS_PER_DAY
          in if posix_time > 0 \<and> offset_sec > INT64_MAX - posix_time then None
             else if posix_time < 0 \<and> offset_sec < INT64_MIN - posix_time then None
             else OPENSSL_posix_to_tm (posix_time + offset_sec))"

text \<open>The result is (\<open>*out_days\<close>, \<open>*out_secs\<close>).\<close>

definition OPENSSL_gmtime_diff :: "tm \<Rightarrow> tm \<Rightarrow> (int \<times> int) option" where
  "OPENSSL_gmtime_diff from to =
     (case OPENSSL_tm_to_posix to of
        None \<Rightarrow> None
      | Some time_to \<Rightarrow>
          (case OPENSSL_tm_to_posix from of
             None \<Rightarrow> None
           | Some time_from \<Rightarrow>
               let timediff = time_to - time_from
               in Some (timediff sdiv SECS_PER_DAY, timediff smod SECS_PER_DAY)))"

section \<open>Truncating division\<close>

lemma sdiv_nonneg: "0 \<le> a \<Longrightarrow> 0 < b \<Longrightarrow> a sdiv b = a div (b :: int)"
  by (simp add: signed_divide_int_def sgn_if)

lemma smod_nonneg: "0 \<le> a \<Longrightarrow> 0 < b \<Longrightarrow> a smod b = a mod (b :: int)"
  by (simp add: signed_modulo_int_def sgn_if)

lemma sdiv_neg: "a < 0 \<Longrightarrow> 0 < b \<Longrightarrow> a sdiv b = - ((- a) div (b :: int))"
  by (simp add: signed_divide_int_def sgn_if)

lemma smod_neg: "a < 0 \<Longrightarrow> 0 < b \<Longrightarrow> a smod b = - ((- a) mod (b :: int))"
  by (simp add: signed_modulo_int_def sgn_if)

lemma sdiv_floor:
  fixes a k :: int
  assumes "a \<le> 0" and "1 < k"
  shows "(a - (k - 1)) sdiv k = a div k"
proof -
  have "(a - (k - 1)) sdiv k = - ((k - 1 - a) div k)" using assms by (simp add: sdiv_neg)
  also have "k - 1 - a = (k - 1 - a mod k) + (- (a div k)) * k"
    using mult_div_mod_eq [of k a] by (simp add: algebra_simps)
  also have "\<dots> div k = - (a div k) + (k - 1 - a mod k) div k"
    using assms(2) by (subst div_mult_self1) simp_all
  also have "(k - 1 - a mod k) div k = 0"
  proof (rule div_pos_pos_trivial)
    show "0 \<le> k - 1 - a mod k" using assms(2) pos_mod_bound [of k a] by linarith
    show "k - 1 - a mod k < k" using assms(2) pos_mod_sign [of k a] by linarith
  qed
  finally show ?thesis by simp
qed

lemma sdiv_smod_floor:
  fixes t k :: int
  assumes "0 < k"
  shows "(if t smod k < 0 then (t sdiv k - 1, t smod k + k) else (t sdiv k, t smod k)) = (t div k, t mod k)"
proof (cases "0 \<le> t")
  case True
  moreover have "\<not> t mod k < 0" using pos_mod_sign [OF assms, of t] by simp
  ultimately show ?thesis using assms by (simp add: sdiv_nonneg smod_nonneg)
next
  case False
  then have s: "t sdiv k = - ((- t) div k)" "t smod k = - ((- t) mod k)" using assms by (simp_all add: sdiv_neg smod_neg)
  show ?thesis
  proof (cases "t mod k = 0")
    case True
    then have "(- t) mod k = 0" "(- t) div k = - (t div k)"
      using assms zdiv_zminus1_eq_if [of k t] by (simp_all add: zmod_zminus1_eq_if)
    then show ?thesis using True s by simp
  next
    case False
    then have "(- t) mod k = k - t mod k" "(- t) div k = - (t div k) - 1"
      using assms by (simp_all add: zmod_zminus1_eq_if zdiv_zminus1_eq_if)
    then show ?thesis using False s assms pos_mod_bound [of k t] by simp
  qed
qed

section \<open>Years of an era\<close>

text \<open>Days before year \<open>y\<close> of a 400-year era that starts on the first of March.\<close>

definition era_days :: "int \<Rightarrow> int" where
  "era_days y = 365 * y + y div 4 - y div 100"

definition year_formula :: "int \<Rightarrow> int" where
  "year_formula d = d - d div 1460 + d div 36524"

lemma year_formula_mono:
  assumes "0 \<le> a" and "a \<le> b"
  shows "year_formula a \<le> year_formula b"
proof -
  have step: "year_formula (int n) \<le> year_formula (int (Suc n))" for n
  proof -
    have "int (Suc n) div 1460 \<le> (int n + 1460) div 1460" by (intro zdiv_mono1) simp_all
    then have "int (Suc n) div 1460 \<le> int n div 1460 + 1" by simp
    moreover have "int n div 36524 \<le> int (Suc n) div 36524" by (intro zdiv_mono1) simp_all
    ultimately show ?thesis unfolding year_formula_def by simp
  qed
  have "year_formula (int m) \<le> year_formula (int n)" if "m \<le> n" for m n
    using that by (induction n rule: dec_induct) (use step order_trans in blast)+
  from this [of "nat a" "nat b"] show ?thesis using assms by simp
qed

lemma era_days_ends:
  assumes "0 \<le> y" and "y \<le> 398"
  shows "365 * y \<le> year_formula (era_days y) \<and> year_formula (era_days (y + 1) - 1) < 365 * (y + 1)"
proof -
  let ?P = "\<lambda>y. 365 * y \<le> year_formula (era_days y) \<and> year_formula (era_days (y + 1) - 1) < 365 * (y + 1)"
  have "list_all ?P [0..398]" by code_simp
  moreover have "y \<in> set [0..398]" using assms by simp
  ultimately show ?thesis unfolding list_all_iff by blast
qed

definition in_year :: "int \<Rightarrow> int \<Rightarrow> bool" where
  "in_year y d \<longleftrightarrow> 0 \<le> y \<and> y \<le> 399 \<and> era_days y \<le> d \<and> (if y < 399 then d < era_days (y + 1) else d \<le> 146096)"

lemma era_days_nonneg: "0 \<le> y \<Longrightarrow> 0 \<le> era_days y"
proof -
  assume y: "0 \<le> y"
  have "y div 100 \<le> y" using y by (simp add: zdiv_mono2 [of y 1 100, simplified])
  moreover have "0 \<le> y div 4" using y by (simp add: pos_imp_zdiv_nonneg_iff)
  ultimately show ?thesis unfolding era_days_def using y by linarith
qed

lemma era_days_max:
  assumes "0 \<le> y" and "y \<le> 398"
  shows "era_days (y + 1) \<le> 146096"
proof -
  have "list_all (\<lambda>y. era_days (y + 1) \<le> 146096) [0..398]" by code_simp
  moreover have "y \<in> set [0..398]" using assms by simp
  ultimately show ?thesis unfolding list_all_iff by blast
qed

lemma year_of_era_correct:
  assumes "in_year y d"
  shows "(d - d div 1460 + d div 36524 - d div 146096) div 365 = y" and "0 \<le> d" and "d \<le> 146096"
proof -
  have y: "0 \<le> y" "y \<le> 399" and lo: "era_days y \<le> d" using assms by (auto simp: in_year_def)
  then show d0: "0 \<le> d" using era_days_nonneg by force
  show d1: "d \<le> 146096"
  proof (cases "y < 399")
    case True
    then have "era_days (y + 1) \<le> 146096" using y era_days_max by simp
    then show ?thesis using assms True by (simp add: in_year_def)
  qed (use assms in \<open>simp add: in_year_def\<close>)
  show "(d - d div 1460 + d div 36524 - d div 146096) div 365 = y"
  proof (cases "d = 146096")
    case True
    have "y = 399"
    proof (rule ccontr)
      assume "y \<noteq> 399"
      then have "y < 399" using y by simp
      then have "era_days (y + 1) \<le> 146096" using y era_days_max by simp
      then show False using assms True \<open>y < 399\<close> by (simp add: in_year_def)
    qed
    then show ?thesis using True by simp
  next
    case False
    then have z: "d div 146096 = 0" using d0 d1 by simp
    have up: "year_formula d < 365 * (y + 1)"
    proof (cases "y < 399")
      case True
      then have "d \<le> era_days (y + 1) - 1" using assms by (simp add: in_year_def)
      then have "year_formula d \<le> year_formula (era_days (y + 1) - 1)" using d0 by (intro year_formula_mono)
      then show ?thesis using era_days_ends [of y] y True by simp
    next
      case False
      have "year_formula d \<le> year_formula 146095" using d0 d1 \<open>d \<noteq> 146096\<close> by (intro year_formula_mono) auto
      moreover have "year_formula 146095 < 146000" by code_simp
      ultimately show ?thesis using False y by simp
    qed
    have low: "365 * y \<le> year_formula d"
    proof -
      have "year_formula (era_days y) \<le> year_formula d" using lo era_days_nonneg [OF y(1)] by (intro year_formula_mono)
      moreover have "365 * y \<le> year_formula (era_days y)"
      proof (cases "y = 399")
        case True
        have "365 * 399 \<le> year_formula (era_days 399)" by code_simp
        then show ?thesis using True by simp
      qed (use y era_days_ends [of y] in simp)
      ultimately show ?thesis by linarith
    qed
    have "year_formula d div 365 = y" using up low by (simp add: int_div_pos_eq [of _ _ _ "year_formula d - 365 * y"])
    then show ?thesis using z by (simp add: year_formula_def)
  qed
qed

end
