(* ===== verification/Posix_Time_Props.thy ===== *)
theory Posix_Time_Props
  imports Posix_Time
begin

text \<open>
  The properties of \<open>Posix_Time\<close>: the date arithmetic of the code (eras of 400 years that start in
  March) in closed form, the round trips between dates and POSIX times, and the calendar they realise.
\<close>

section \<open>Dates\<close>

definition leap :: "int \<Rightarrow> bool" where
  "leap y \<longleftrightarrow> y mod 4 = 0 \<and> y mod 100 \<noteq> 0 \<or> y mod 400 = 0"

definition month_len :: "int \<Rightarrow> int \<Rightarrow> int" where
  "month_len y m = (if m \<in> {1, 3, 5, 7, 8, 10, 12} then 31 else if m \<in> {4, 6, 9, 11} then 30
                    else if leap y then 29 else 28)"

lemma is_valid_date_iff:
  "is_valid_date y m d \<longleftrightarrow> 0 \<le> y \<and> y \<le> 9999 \<and> 1 \<le> m \<and> m \<le> 12 \<and> 1 \<le> d \<and> d \<le> month_len y m"
proof (cases "1 \<le> m \<and> m \<le> 12 \<and> 0 \<le> y")
  case True
  then have "m = 1 \<or> m = 2 \<or> m = 3 \<or> m = 4 \<or> m = 5 \<or> m = 6 \<or> m = 7 \<or> m = 8 \<or> m = 9 \<or> m = 10 \<or> m = 11 \<or> m = 12"
    by presburger
  then show ?thesis using True by (auto simp: is_valid_date_def month_len_def leap_def smod_nonneg)
qed (auto simp: is_valid_date_def)

text \<open>The year that starts in March, its month and its day, and the number of a day.\<close>

definition march_year :: "int \<Rightarrow> int \<Rightarrow> int" where
  "march_year y m = (if m \<le> 2 then y - 1 else y)"

definition march_month :: "int \<Rightarrow> int" where
  "march_month m = (if m > 2 then m - 3 else m + 9)"

definition march_day :: "int \<Rightarrow> int \<Rightarrow> int" where
  "march_day m d = (153 * march_month m + 2) div 5 + d - 1"

definition day_number :: "int \<Rightarrow> int \<Rightarrow> int \<Rightarrow> int" where
  "day_number y m d =
     march_year y m div 400 * 146097 + era_days (march_year y m mod 400) + march_day m d"

definition secs :: "int \<Rightarrow> int \<Rightarrow> int \<Rightarrow> int" where
  "secs h mi s = h * 3600 + mi * 60 + s"

lemma posix_time_from_utc_eq:
  "posix_time_from_utc y m d h mi s =
     (if is_valid_date y m d \<and> is_valid_time h mi s
      then Some ((day_number y m d - 719468) * 86400 + secs h mi s) else None)"
proof (cases "is_valid_date y m d \<and> is_valid_time h mi s")
  case True
  then have v: "0 \<le> y" "1 \<le> m" "m \<le> 12" by (auto simp: is_valid_date_iff)
  let ?y = "march_year y m"
  have era: "(if ?y \<ge> 0 then ?y else ?y - 399) sdiv 400 = ?y div 400"
    using sdiv_floor [of ?y 400] by (simp add: sdiv_nonneg)
  have yoe: "?y - ?y div 400 * 400 = ?y mod 400" by (simp add: minus_div_mult_eq_mod)
  have n: "0 \<le> ?y mod 400" by simp
  have mm: "0 \<le> march_month m" using v by (simp add: march_month_def)
  show ?thesis
    using True era yoe n mm
    by (simp add: posix_time_from_utc_def Let_def day_number_def era_days_def march_day_def secs_def sdiv_nonneg
        SECS_PER_DAY_def SECS_PER_HOUR_def flip: march_year_def march_month_def)
qed (auto simp: posix_time_from_utc_def)

lemma utc_from_posix_time_eq:
  assumes "is_valid_posix_time t"
  defines "D \<equiv> t div 86400 + 719468" and "L \<equiv> t mod 86400"
  defines "e \<equiv> D mod 146097"
  defines "yoe \<equiv> (e - e div 1460 + e div 36524 - e div 146096) div 365"
  defines "doy \<equiv> e - era_days yoe"
  defines "mp \<equiv> (5 * doy + 2) div 153"
  defines "m \<equiv> if mp < 10 then mp + 3 else mp - 9"
  assumes "0 \<le> yoe" and "0 \<le> doy"
  shows "utc_from_posix_time t =
    Some ((yoe + D div 146097 * 400) + (if m \<le> 2 then 1 else 0), m, doy - (153 * mp + 2) div 5 + 1,
          L div 3600, L mod 3600 div 60, L mod 3600 mod 60)"
proof -
  have fl: "(if t smod SECS_PER_DAY < 0 then (t sdiv SECS_PER_DAY - 1, t smod SECS_PER_DAY + SECS_PER_DAY)
      else (t sdiv SECS_PER_DAY, t smod SECS_PER_DAY)) = (t div 86400, t mod 86400)"
    using sdiv_smod_floor [of SECS_PER_DAY t] by (simp add: SECS_PER_DAY_def SECS_PER_HOUR_def)
  have era: "(if D > 0 then D else D - 146096) sdiv 146097 = D div 146097"
    using sdiv_floor [of D 146097] by (simp add: sdiv_nonneg)
  have e: "D - D div 146097 * 146097 = e" "0 \<le> e" by (simp_all add: e_def minus_div_mult_eq_mod)
  have F: "0 \<le> e - e div 1460 + e div 36524 - e div 146096"
    using assms(9) e(2) unfolding yoe_def by (simp add: pos_imp_zdiv_nonneg_iff)
  have yoe: "(e - e sdiv 1460 + e sdiv 36524 - e sdiv 146096) sdiv 365 = yoe"
    using e(2) F by (simp add: sdiv_nonneg yoe_def)
  have doy: "e - (365 * yoe + yoe sdiv 4 - yoe sdiv 100) = doy"
    using assms(9) by (simp add: sdiv_nonneg doy_def era_days_def)
  have mp: "(5 * doy + 2) sdiv 153 = mp" "0 \<le> mp"
    using assms(10) by (simp_all add: sdiv_nonneg mp_def pos_imp_zdiv_nonneg_iff)
  have L: "0 \<le> L" "L sdiv SECS_PER_HOUR = L div 3600" "L smod SECS_PER_HOUR = L mod 3600"
    by (simp_all add: L_def sdiv_nonneg smod_nonneg SECS_PER_HOUR_def)
  have L2: "(L mod 3600) sdiv 60 = L mod 3600 div 60" "(L mod 3600) smod 60 = L mod 3600 mod 60"
    by (simp_all add: sdiv_nonneg smod_nonneg)
  have dm: "(153 * mp + 2) sdiv 5 = (153 * mp + 2) div 5" using mp(2) by (simp add: sdiv_nonneg)
  show ?thesis
    unfolding utc_from_posix_time_def Let_def fl prod.case D_def [symmetric] L_def [symmetric] era e(1) yoe doy
      mp(1) L(2,3) L2 dm m_def [symmetric]
    using assms(1) by simp
qed


lemma div_plus_1: "1 < k \<Longrightarrow> (y + 1) div k = y div k + (if (y + 1) mod k = 0 then 1 else 0)" for y k :: int
proof -
  assume k: "1 < k"
  have r: "0 \<le> y mod k" "y mod k < k" using k by simp_all
  have m: "(y + 1) mod k = (y mod k + 1) mod k" by (simp add: mod_simps)
  have "(y + 1) div k = y div k + (y mod k + 1) div k"
    using k div_add1_eq [of y 1 k] by simp
  moreover have "(y mod k + 1) div k = (if (y mod k + 1) mod k = 0 then 1 else 0)"
  proof (cases "y mod k + 1 = k")
    case True
    then show ?thesis using k by simp
  next
    case False
    then have l: "y mod k + 1 < k" "0 \<le> y mod k + 1" "y mod k + 1 \<noteq> 0" using r by linarith+
    have "(y mod k + 1) div k = 0" using l by (intro div_pos_pos_trivial)
    moreover have "(y mod k + 1) mod k = y mod k + 1" using l by (intro mod_pos_pos_trivial)
    ultimately show ?thesis using l(3) by simp
  qed
  ultimately show ?thesis by (simp only: m)
qed

lemma era_days_step:
  "era_days (y + 1) = era_days y + 365 + (if (y + 1) mod 4 = 0 then 1 else 0) - (if (y + 1) mod 100 = 0 then 1 else 0)"
  using div_plus_1 [of 4 y] div_plus_1 [of 100 y] unfolding era_days_def by (simp only: distrib_left)

text \<open>The months: their first days and lengths, from either side.\<close>

lemma march_month_table:
  assumes "1 \<le> m" and "m \<le> 12" and "1 \<le> d" and "d \<le> 31" and "d \<le> month_len 0 m"
  shows "(5 * march_day m d + 2) div 153 = march_month m \<and>
         march_day m d - (153 * march_month m + 2) div 5 + 1 = d \<and> 0 \<le> march_day m d \<and>
         march_day m d \<le> 365 \<and> (march_day m d = 365 \<longleftrightarrow> m = 2 \<and> d = 29) \<and>
         (m \<le> 2 \<longrightarrow> 306 \<le> march_day m d) \<and> (2 < m \<longrightarrow> march_day m d \<le> 305)"
proof -
  let ?P = "\<lambda>m d. d \<le> month_len 0 m \<longrightarrow> (5 * march_day m d + 2) div 153 = march_month m \<and>
         march_day m d - (153 * march_month m + 2) div 5 + 1 = d \<and> 0 \<le> march_day m d \<and>
         march_day m d \<le> 365 \<and> (march_day m d = 365 \<longleftrightarrow> m = 2 \<and> d = 29) \<and>
         (m \<le> 2 \<longrightarrow> 306 \<le> march_day m d) \<and> (2 < m \<longrightarrow> march_day m d \<le> 305)"
  have "list_all (\<lambda>m. list_all (?P m) [1..31]) [1..12]" by code_simp
  moreover have "m \<in> set [1..12]" "d \<in> set [1..31]" using assms by simp_all
  ultimately show ?thesis using assms(5) unfolding list_all_iff by blast
qed

lemma day_table:
  assumes "0 \<le> k" and "k \<le> 365"
  defines "mp \<equiv> (5 * k + 2) div 153"
  defines "m \<equiv> if mp < 10 then mp + 3 else mp - 9"
  shows "1 \<le> m \<and> m \<le> 12 \<and> 1 \<le> k - (153 * mp + 2) div 5 + 1 \<and> k - (153 * mp + 2) div 5 + 1 \<le> month_len 0 m \<and>
         march_month m = mp \<and> (m \<le> 2 \<longleftrightarrow> 306 \<le> k) \<and> (k < 365 \<longrightarrow> k - (153 * mp + 2) div 5 + 1 \<le> month_len 1 m)"
proof -
  let ?P = "\<lambda>k. let mp = (5 * k + 2) div 153; m = if mp < 10 then mp + 3 else mp - 9
     in 1 \<le> m \<and> m \<le> 12 \<and> 1 \<le> k - (153 * mp + 2) div 5 + 1 \<and> k - (153 * mp + 2) div 5 + 1 \<le> month_len 0 m \<and>
         march_month m = mp \<and> (m \<le> 2 \<longleftrightarrow> 306 \<le> k) \<and> (k < 365 \<longrightarrow> k - (153 * mp + 2) div 5 + 1 \<le> month_len 1 m)"
  have "list_all ?P [0..365]" by code_simp
  moreover have "k \<in> set [0..365]" using assms by simp
  ultimately have "?P k" unfolding list_all_iff by blast
  then show ?thesis unfolding Let_def mp_def m_def .
qed

lemma month_len_le: "month_len y m \<le> month_len 0 m" "month_len 1 m \<le> month_len y m" "month_len y m \<le> 31"
  by (simp_all add: month_len_def leap_def)

lemma month_len_leap: "leap y \<Longrightarrow> month_len y m = month_len 0 m"
  by (simp add: month_len_def leap_def [of 0])

lemma valid_in_year:
  assumes "is_valid_date y m d"
  shows "in_year (march_year y m mod 400) (era_days (march_year y m mod 400) + march_day m d)"
proof -
  let ?q = "march_year y m mod 400"
  have v: "1 \<le> m" "m \<le> 12" "1 \<le> d" "d \<le> month_len y m" using assms by (auto simp: is_valid_date_iff)
  have t: "0 \<le> march_day m d" "march_day m d \<le> 365" "march_day m d = 365 \<longleftrightarrow> m = 2 \<and> d = 29"
    using march_month_table [of m d] v month_len_le [of y m] by auto
  have q: "0 \<le> ?q" "?q \<le> 399" by (simp_all add: pos_mod_bound order_less_imp_le [of _ 400] zle_diff1_eq [symmetric])
  have e399: "era_days 399 = 145731" by code_simp
  show ?thesis
  proof (cases "?q < 399")
    case False
    then have "?q = 399" using q by simp
    then show ?thesis using t e399 by (simp add: in_year_def)
  next
    case True
    have "march_day m d < era_days (?q + 1) - era_days ?q"
    proof (cases "march_day m d = 365")
      case False
      then show ?thesis using t(2) by (simp add: era_days_step) presburger
    next
      case f: True
      then have md: "m = 2" "d = 29" using t(3) by auto
      then have "leap y" using v(4) by (auto simp: month_len_def split: if_splits)
      moreover have "?q + 1 = y mod 400"
      proof -
        have "y mod 400 = (?q + 1) mod 400" by (simp add: march_year_def md mod_simps)
        also have "\<dots> = ?q + 1" using True q by simp
        finally show ?thesis by simp
      qed
      moreover from this have "y mod 400 \<noteq> 0" using q by linarith
      ultimately have "(?q + 1) mod 4 = 0" "(?q + 1) mod 100 \<noteq> 0"
        by (simp_all add: leap_def mod_mod_cancel)
      then show ?thesis using f by (simp add: era_days_step)
    qed
    then show ?thesis using True q t by (simp add: in_year_def)
  qed
qed


lemma era_days_below_last:
  assumes "0 \<le> y" and "y \<le> 398"
  shows "era_days (y + 1) \<le> 145731"
proof -
  have "list_all (\<lambda>y. era_days (y + 1) \<le> 145731) [0..398]" by code_simp
  moreover have "y \<in> set [0..398]" using assms by simp
  ultimately show ?thesis unfolding list_all_iff by blast
qed

lemma in_year_below_last: "in_year y d \<Longrightarrow> y < 399 \<Longrightarrow> d < 145731"
  using era_days_below_last [of y] by (simp add: in_year_def)

lemma era_days_399: "era_days 399 = 145731"
  by code_simp

lemma in_year_exists:
  assumes "0 \<le> d" and "d \<le> 146096"
  shows "\<exists>y. in_year y d"
proof (cases "era_days 399 \<le> d")
  case True
  then show ?thesis using assms by (intro exI [of _ 399]) (simp add: in_year_def)
next
  case False
  have "\<not> d < era_days (int 0)" using assms by (simp add: era_days_def)
  moreover have "d < era_days (int 399)" using False by simp
  ultimately obtain k where k: "k < 399" "\<forall>i\<le>k. \<not> d < era_days (int i)" "d < era_days (int (Suc k))"
    using ex_least_nat_less [of "\<lambda>k. d < era_days (int k)" 399] by blast
  then have "in_year (int k) d" by (auto simp: in_year_def add.commute)
  then show ?thesis ..
qed

lemma time_of_day:
  assumes "is_valid_time h mi s"
  shows "0 \<le> secs h mi s" "secs h mi s < 86400" "secs h mi s div 3600 = h"
    "secs h mi s mod 3600 div 60 = mi" "secs h mi s mod 3600 mod 60 = s"
proof -
  have v: "0 \<le> h" "h \<le> 23" "0 \<le> mi" "mi \<le> 59" "0 \<le> s" "s \<le> 59" using assms by (auto simp: is_valid_time_def)
  then show "0 \<le> secs h mi s" "secs h mi s < 86400" by (simp_all add: secs_def)
  have e: "secs h mi s = (mi * 60 + s) + h * 3600" by (simp add: secs_def)
  have r: "0 \<le> mi * 60 + s" "mi * 60 + s < 3600" using v by linarith+
  then show "secs h mi s div 3600 = h" unfolding e by simp
  have m: "secs h mi s mod 3600 = mi * 60 + s" unfolding e using r by simp
  have e2: "mi * 60 + s = s + mi * 60" by simp
  show "secs h mi s mod 3600 div 60 = mi" unfolding m e2 using v by simp
  show "secs h mi s mod 3600 mod 60 = s" unfolding m e2 using v by simp
qed

lemma day_number_era:
  assumes "is_valid_date y m d"
  defines "e \<equiv> era_days (march_year y m mod 400) + march_day m d"
  shows "day_number y m d div 146097 = march_year y m div 400" and "day_number y m d mod 146097 = e"
proof -
  have e: "0 \<le> e" "e \<le> 146096"
    using year_of_era_correct(2,3) [OF valid_in_year [OF assms(1)]] by (simp_all add: e_def)
  have d: "day_number y m d = e + march_year y m div 400 * 146097" by (simp add: day_number_def e_def)
  show "day_number y m d div 146097 = march_year y m div 400" unfolding d using e by simp
  show "day_number y m d mod 146097 = e" unfolding d using e by simp
qed

lemma day_number_bounds:
  assumes "is_valid_date y m d"
  shows "-60 \<le> day_number y m d" and "day_number y m d \<le> 3652364"
proof -
  let ?Y = "march_year y m"
  let ?e = "era_days (?Y mod 400) + march_day m d"
  have v: "0 \<le> y" "y \<le> 9999" "1 \<le> m" "m \<le> 12" "1 \<le> d" "d \<le> month_len y m"
    using assms by (auto simp: is_valid_date_iff)
  have t: "0 \<le> march_day m d" "m \<le> 2 \<Longrightarrow> 306 \<le> march_day m d" "2 < m \<Longrightarrow> march_day m d \<le> 305"
    using march_month_table [of m d] v month_len_le [of y m] by auto
  have iy: "in_year (?Y mod 400) ?e" by (rule valid_in_year [OF assms])
  have e: "0 \<le> ?e" "?e \<le> 146096" using year_of_era_correct(2,3) [OF iy] by simp_all
  have q: "?Y mod 400 = ?Y - 400 * (?Y div 400)" by (simp add: minus_mult_div_eq_mod)
  show "-60 \<le> day_number y m d"
  proof (cases "0 \<le> ?Y")
    case True
    then have "0 \<le> ?Y div 400" by (simp add: pos_imp_zdiv_nonneg_iff)
    then show ?thesis unfolding day_number_def using e by linarith
  next
    case False
    then have "?Y = -1" "m \<le> 2" using v by (auto simp: march_year_def split: if_splits)
    then show ?thesis unfolding day_number_def using t(2) era_days_399 by simp
  qed
  show "day_number y m d \<le> 3652364"
  proof (cases "?Y mod 400 < 399")
    case True
    have "?Y \<le> 9999" using v by (simp add: march_year_def)
    then have "?Y div 400 \<le> 24" by simp
    then show ?thesis unfolding day_number_def using in_year_below_last [OF iy True] by linarith
  next
    case False
    then have l: "?Y mod 400 = 399" using pos_mod_bound [of 400 ?Y] by simp
    show ?thesis
    proof (cases "m \<le> 2")
      case True
      then have "?Y \<le> 9998" using v by (simp add: march_year_def)
      then have "?Y div 400 \<le> 23" using q l by linarith
      then show ?thesis unfolding day_number_def using e by linarith
    next
      case False
      have "?Y \<le> 9999" using v by (simp add: march_year_def)
      then have "?Y div 400 \<le> 24" by simp
      then show ?thesis unfolding day_number_def using t(3) False l era_days_399 by simp
    qed
  qed
qed

section \<open>Round trips\<close>

lemma valid_posix_time_iff: "is_valid_posix_time t \<longleftrightarrow> -60 \<le> t div 86400 + 719468 \<and> t div 86400 + 719468 \<le> 3652364"
proof -
  have "t = 86400 * (t div 86400) + t mod 86400" "0 \<le> t mod 86400" "t mod 86400 < 86400" by simp_all
  then show ?thesis unfolding is_valid_posix_time_def MIN_POSIX_TIME_def MAX_POSIX_TIME_def by linarith
qed

lemma utc_from_posix_time_in_year:
  assumes "is_valid_posix_time t" and "D = t div 86400 + 719468" and "in_year q (D mod 146097)"
    and "k = D mod 146097 - era_days q" and "0 \<le> k" and "mp = (5 * k + 2) div 153"
    and "m = (if mp < 10 then mp + 3 else mp - 9)" and "d = k - (153 * mp + 2) div 5 + 1"
    and "y = q + D div 146097 * 400 + (if m \<le> 2 then 1 else 0)"
  shows "utc_from_posix_time t =
    Some (y, m, d, t mod 86400 div 3600, t mod 86400 mod 3600 div 60, t mod 86400 mod 3600 mod 60)"
proof -
  have q: "0 \<le> q" using assms(3) by (simp add: in_year_def)
  show ?thesis
    using utc_from_posix_time_eq [OF assms(1), folded assms(2),
        unfolded year_of_era_correct(1) [OF assms(3)], folded assms(4), folded assms(6), folded assms(7),
        folded assms(8,9), OF q assms(5)] .
qed

lemma posix_then_utc:
  assumes "is_valid_date y m d" and "is_valid_time h mi s"
  defines "t \<equiv> (day_number y m d - 719468) * 86400 + secs h mi s"
  shows "is_valid_posix_time t" and "utc_from_posix_time t = Some (y, m, d, h, mi, s)"
proof -
  note td = time_of_day [OF assms(2)]
  have t: "t div 86400 = day_number y m d - 719468" "t mod 86400 = secs h mi s"
    using div_mult_self3 [of 86400 "day_number y m d - 719468" "secs h mi s"] td(1,2)
      mod_mult_self3 [of "day_number y m d - 719468" 86400 "secs h mi s"] unfolding t_def by simp_all
  show vt: "is_valid_posix_time t" using day_number_bounds [OF assms(1)] by (simp add: valid_posix_time_iff t)
  let ?Y = "march_year y m"
  let ?e = "era_days (?Y mod 400) + march_day m d"
  have v: "1 \<le> m" "m \<le> 12" "1 \<le> d" "d \<le> month_len y m" using assms by (auto simp: is_valid_date_iff)
  have mt: "(5 * march_day m d + 2) div 153 = march_month m" "0 \<le> march_day m d"
      "march_day m d - (153 * march_month m + 2) div 5 + 1 = d"
    using march_month_table [of m d] v month_len_le [of y m] by auto
  have mm: "(if march_month m < 10 then march_month m + 3 else march_month m - 9) = m"
    using v by (auto simp: march_month_def)
  have D: "day_number y m d = t div 86400 + 719468" using t by simp
  note e = day_number_era [OF assms(1)]
  have "?Y mod 400 + ?Y div 400 * 400 + (if m \<le> 2 then 1 else 0) = y" by (simp add: march_year_def)
  then show "utc_from_posix_time t = Some (y, m, d, h, mi, s)"
    using utc_from_posix_time_in_year
        [OF vt D, of "?Y mod 400" "march_day m d" "march_month m" m d y, unfolded e t td]
      valid_in_year [OF assms(1)] mt mm by simp
qed

lemma utc_then_posix:
  assumes "is_valid_posix_time t"
  obtains y m d h mi s where "utc_from_posix_time t = Some (y, m, d, h, mi, s)"
    and "is_valid_date y m d" and "is_valid_time h mi s" and "posix_time_from_utc y m d h mi s = Some t"
proof -
  define D where "D = t div 86400 + 719468"
  define L where "L = t mod 86400"
  define e where "e = D mod 146097"
  define A where "A = D div 146097"
  have Db: "-60 \<le> D" "D \<le> 3652364" using assms by (simp_all add: valid_posix_time_iff D_def)
  have eb: "0 \<le> e" "e \<le> 146096" using pos_mod_bound [of 146097 D] by (simp_all add: e_def)
  have DA: "D = A * 146097 + e" by (simp add: A_def e_def)
  obtain q where iy: "in_year q e" using in_year_exists [OF eb] ..
  then have q: "0 \<le> q" "q \<le> 399" "era_days q \<le> e" by (auto simp: in_year_def)
  define k where "k = e - era_days q"
  define mp where "mp = (5 * k + 2) div 153"
  define m where "m = (if mp < 10 then mp + 3 else mp - 9)"
  define d where "d = k - (153 * mp + 2) div 5 + 1"
  define y where "y = q + A * 400 + (if m \<le> 2 then 1 else 0)"
  have k: "0 \<le> k" "k \<le> 365"
  proof -
    show "0 \<le> k" using q by (simp add: k_def)
    show "k \<le> 365"
    proof (cases "q < 399")
      case True
      then have "e < era_days (q + 1)" using iy by (simp add: in_year_def)
      then show ?thesis using era_days_step [of q] by (simp add: k_def split: if_splits)
    qed (use q eb era_days_399 in \<open>simp add: k_def\<close>)
  qed
  have dt: "1 \<le> m" "m \<le> 12" "1 \<le> d" "d \<le> month_len 0 m" "march_month m = mp" "k < 365 \<Longrightarrow> d \<le> month_len 1 m"
      "m \<le> 2 \<longleftrightarrow> 306 \<le> k"
    using day_table [OF k, folded mp_def, folded m_def d_def] by blast+
  have eq: "utc_from_posix_time t = Some (y, m, d, L div 3600, L mod 3600 div 60, L mod 3600 mod 60)"
    using utc_from_posix_time_in_year [OF assms D_def, folded L_def, folded e_def A_def,
        OF iy k_def k(1) mp_def m_def d_def y_def] .
  have Lb: "0 \<le> L" "L < 86400" by (simp_all add: L_def)
  have vt: "is_valid_time (L div 3600) (L mod 3600 div 60) (L mod 3600 mod 60)"
    using Lb by (auto simp: is_valid_time_def pos_imp_zdiv_nonneg_iff pos_imp_zdiv_neg_iff not_less not_le [symmetric])
  have my: "march_year y m = q + A * 400" by (simp add: march_year_def y_def)
  have leap: "leap y" if "k = 365"
  proof -
    have m2: "m \<le> 2" using dt(7) that by simp
    show ?thesis
    proof (cases "q < 399")
      case True
      then have "365 < era_days (q + 1) - era_days q" using iy that by (simp add: in_year_def k_def)
      then have "(q + 1) mod 4 = 0" "(q + 1) mod 100 \<noteq> 0" using era_days_step [of q] by (auto split: if_splits)
      moreover have "y = (q + 1) + A * 100 * 4" "y = (q + 1) + A * 4 * 100" using m2 by (simp_all add: y_def)
      then have "y mod 4 = (q + 1) mod 4" "y mod 100 = (q + 1) mod 100" by (metis mod_mult_self1)+
      ultimately show ?thesis by (simp add: leap_def)
    next
      case False
      then have "q = 399" using q by simp
      then show ?thesis using m2 by (simp add: leap_def y_def)
    qed
  qed
  have yb: "0 \<le> y" "y \<le> 9999"
  proof -
    have last: "e \<ge> 145731 \<longleftrightarrow> q = 399" "q = 399 \<Longrightarrow> k = e - 145731"
      using in_year_below_last [OF iy] q era_days_399 by (cases "q = 399"; simp add: k_def; fail)+
    have "-1 \<le> A" "A \<le> 24" using DA Db eb by linarith+
    then consider "A = -1" | "0 \<le> A" "A \<le> 23" | "A = 24" by linarith
    then have "0 \<le> y \<and> y \<le> 9999"
    proof cases
      case 1
      then have "e \<ge> 146037" using DA Db by simp
      then show ?thesis using 1 last dt(7) by (simp add: y_def)
    next
      case 3
      then have "e \<le> 146036" using DA Db by simp
      then show ?thesis using 3 last dt(7) q by (auto simp: y_def)
    qed (use q in \<open>simp add: y_def\<close>)
    then show "0 \<le> y" "y \<le> 9999" by simp_all
  qed
  have dm: "d \<le> month_len y m"
  proof (cases "k = 365")
    case True
    then show ?thesis using leap month_len_leap dt(4) by simp
  next
    case False
    then show ?thesis using dt(6) k month_len_le(2) [of m y] by simp
  qed
  have vd: "is_valid_date y m d" using yb dt dm by (simp add: is_valid_date_iff)
  have "(q + A * 400) mod 400 = q" "(q + A * 400) div 400 = A" using q by simp_all
  then have dn: "day_number y m d = D" using dt(5) by (simp add: day_number_def my DA march_day_def k_def d_def)
  have sc: "secs (L div 3600) (L mod 3600 div 60) (L mod 3600 mod 60) = L"
    unfolding secs_def by simp
  have "t = t div 86400 * 86400 + t mod 86400" by simp
  then have "posix_time_from_utc y m d (L div 3600) (L mod 3600 div 60) (L mod 3600 mod 60) = Some t"
    by (simp add: posix_time_from_utc_eq vd vt dn sc) (simp add: D_def L_def)
  with eq vd vt show thesis by (rule that)
qed

text \<open>The calendar: what day follows a day.\<close>

definition next_date :: "int \<Rightarrow> int \<Rightarrow> int \<Rightarrow> int \<times> int \<times> int" where
  "next_date y m d =
     (if d < month_len y m then (y, m, d + 1) else if m < 12 then (y, m + 1, 1) else (y + 1, 1, 1))"

lemma year_days: "y div 400 * 146097 + era_days (y mod 400) = 365 * y + y div 4 - y div 100 + y div 400"
proof -
  have y: "y = 400 * (y div 400) + y mod 400" by simp
  have "y = y mod 400 + 100 * (y div 400) * 4" "y = y mod 400 + 4 * (y div 400) * 100" by simp_all
  then have "y div 4 = 100 * (y div 400) + y mod 400 div 4" "y div 100 = 4 * (y div 400) + y mod 400 div 100"
    by (metis div_mult_self1 zero_neq_numeral)+
  then show ?thesis unfolding era_days_def using y by linarith
qed

lemma leap_count:
  fixes y a b c :: int
  assumes "P400 \<longrightarrow> P100" and "P100 \<longrightarrow> P4"
  shows "365 * (y + 1) + (a + (if P4 then 1 else 0)) - (b + (if P100 then 1 else 0)) + (c + (if P400 then 1 else 0)) =
    365 * y + a - b + c + (if P4 \<and> \<not> P100 \<or> P400 then 366 else 365)"
  using assms by auto

lemma year_length:
  "(y + 1) div 400 * 146097 + era_days ((y + 1) mod 400) =
     y div 400 * 146097 + era_days (y mod 400) + (if leap (y + 1) then 366 else 365)"
proof -
  have k: "1 < (4 :: int)" "1 < (100 :: int)" "1 < (400 :: int)" by simp_all
  show ?thesis
    unfolding year_days leap_def unfolding div_plus_1 [OF k(1)] div_plus_1 [OF k(2)] div_plus_1 [OF k(3)]
  proof (rule leap_count; rule impI)
    assume "(y + 1) mod 400 = 0"
    then show "(y + 1) mod 100 = 0" using mod_mod_cancel [of 100 400 "y + 1"] by simp
  next
    assume "(y + 1) mod 100 = 0"
    then show "(y + 1) mod 4 = 0" using mod_mod_cancel [of 4 100 "y + 1"] by simp
  qed
qed

lemma month_step:
  assumes "1 \<le> m" and "m < 12" and "m \<noteq> 2"
  shows "march_day (m + 1) 1 = march_day m (month_len y m) + 1"
proof -
  have "m = 1 \<or> m = 3 \<or> m = 4 \<or> m = 5 \<or> m = 6 \<or> m = 7 \<or> m = 8 \<or> m = 9 \<or> m = 10 \<or> m = 11"
    using assms by presburger
  then show ?thesis by (auto simp: march_day_def march_month_def month_len_def)
qed

lemma next_day:
  assumes "1 \<le> m" "m \<le> 12" "1 \<le> d" "d \<le> month_len y m" and "next_date y m d = (y', m', d')"
  shows "day_number y' m' d' = day_number y m d + 1"
proof (cases "d < month_len y m")
  case True
  then show ?thesis using assms(5) by (auto simp: next_date_def day_number_def march_day_def)
next
  case False
  then have d: "d = month_len y m" using assms by simp
  consider "m = 2" | "m = 12" | "m < 12" "m \<noteq> 2" using assms by linarith
  then show ?thesis
  proof cases
    case 1
    then have "y' = y" "m' = 3" "d' = 1" using assms(5) d by (auto simp: next_date_def)
    then show ?thesis using 1 d year_length [of "y - 1"]
      by (simp add: day_number_def march_year_def march_day_def march_month_def month_len_def)
  next
    case 2
    then have "y' = y + 1" "m' = 1" "d' = 1" using assms(5) d by (auto simp: next_date_def)
    then show ?thesis using 2 d by (simp add: day_number_def march_year_def march_day_def march_month_def month_len_def)
  next
    case 3
    then have "y' = y" "m' = m + 1" "d' = 1" using assms(5) d by (auto simp: next_date_def)
    moreover have "march_year y (m + 1) = march_year y m" using 3 by (auto simp: march_year_def)
    ultimately show ?thesis using 3 d month_step [of m y] assms by (simp add: day_number_def)
  qed
qed

section \<open>Properties\<close>

lemma tm_to_posix_eq:
  "OPENSSL_tm_to_posix t = Some p \<longleftrightarrow> is_valid_posix_time p \<and> OPENSSL_posix_to_tm p = Some t"
proof
  assume "OPENSSL_tm_to_posix t = Some p"
  then have v: "is_valid_date (tm_year t + 1900) (tm_mon t + 1) (tm_mday t)" "is_valid_time (tm_hour t) (tm_min t) (tm_sec t)"
    and p: "p = (day_number (tm_year t + 1900) (tm_mon t + 1) (tm_mday t) - 719468) * 86400
                + secs (tm_hour t) (tm_min t) (tm_sec t)"
    by (auto simp: OPENSSL_tm_to_posix_def posix_time_from_utc_eq split: if_splits)
  then show "is_valid_posix_time p \<and> OPENSSL_posix_to_tm p = Some t"
    using posix_then_utc [OF v] by (simp add: OPENSSL_posix_to_tm_def)
next
  assume a: "is_valid_posix_time p \<and> OPENSSL_posix_to_tm p = Some t"
  then obtain y m d h mi s where u: "utc_from_posix_time p = Some (y, m, d, h, mi, s)"
      "posix_time_from_utc y m d h mi s = Some p"
    using utc_then_posix by metis
  then show "OPENSSL_tm_to_posix t = Some p" using a by (auto simp: OPENSSL_posix_to_tm_def OPENSSL_tm_to_posix_def)
qed

lemma posix_to_tm_defined: "OPENSSL_posix_to_tm p \<noteq> None \<longleftrightarrow> is_valid_posix_time p"
proof
  assume "is_valid_posix_time p"
  then show "OPENSSL_posix_to_tm p \<noteq> None" by (rule utc_then_posix) (auto simp: OPENSSL_posix_to_tm_def)
qed (auto simp: OPENSSL_posix_to_tm_def utc_from_posix_time_def split: if_splits option.splits)

text \<open>
  (C11) The calendar conversions are inverse to each other and total on their domains: a date and time
  converts exactly when it is a valid date and a valid time of day, the result is a valid POSIX time
  that converts back to the same fields; and every valid POSIX time converts to a valid date that
  converts back to it.
\<close>

theorem posix_time_round_trip:
  "(posix_time_from_utc y m d h mi s \<noteq> None \<longleftrightarrow> is_valid_date y m d \<and> is_valid_time h mi s) \<and>
   (posix_time_from_utc y m d h mi s = Some t \<longleftrightarrow>
     is_valid_posix_time t \<and> utc_from_posix_time t = Some (y, m, d, h, mi, s)) \<and>
   (utc_from_posix_time t \<noteq> None \<longleftrightarrow> is_valid_posix_time t)"
proof (intro conjI)
  show "posix_time_from_utc y m d h mi s \<noteq> None \<longleftrightarrow> is_valid_date y m d \<and> is_valid_time h mi s"
    by (simp add: posix_time_from_utc_eq)
  show "posix_time_from_utc y m d h mi s = Some t \<longleftrightarrow>
     is_valid_posix_time t \<and> utc_from_posix_time t = Some (y, m, d, h, mi, s)"
    using tm_to_posix_eq [of "\<lparr>tm_year = y - 1900, tm_mon = m - 1, tm_mday = d, tm_hour = h, tm_min = mi, tm_sec = s\<rparr>" t]
    by (auto simp: OPENSSL_tm_to_posix_def OPENSSL_posix_to_tm_def split: option.splits prod.splits)
  show "utc_from_posix_time t \<noteq> None \<longleftrightarrow> is_valid_posix_time t"
    using posix_to_tm_defined [of t] by (auto simp: OPENSSL_posix_to_tm_def split: option.splits)
qed

text \<open>
  POSIX times count days of the Gregorian calendar: the first of January 1970, midnight, is 0, and
  the day that follows a date (the next day of the month, the first of the next month, or the first of
  January of the next year, with 29 days in February of leap years) is 86400 seconds later.
\<close>

theorem posix_time_counts_days:
  assumes "posix_time_from_utc y m d h mi s = Some t"
    and "next_date y m d = (y', m', d')" and "y' \<le> 9999"
  shows "posix_time_from_utc 1970 1 1 0 0 0 = Some 0 \<and>
    posix_time_from_utc y' m' d' h mi s = Some (t + 86400)"
proof
  show "posix_time_from_utc 1970 1 1 0 0 0 = Some 0" by code_simp
  have v: "is_valid_date y m d" "is_valid_time h mi s"
    and t: "t = (day_number y m d - 719468) * 86400 + secs h mi s"
    using assms(1) by (auto simp: posix_time_from_utc_eq split: if_splits)
  have "1 \<le> month_len y' m'" by (simp add: month_len_def)
  then have "is_valid_date y' m' d'"
    using v(1) assms(2,3) by (auto simp: is_valid_date_iff next_date_def split: if_splits)
  moreover have "day_number y' m' d' = day_number y m d + 1"
    using next_day assms(2) v(1) by (auto simp: is_valid_date_iff)
  ultimately show "posix_time_from_utc y' m' d' h mi s = Some (t + 86400)"
    using v(2) by (simp add: posix_time_from_utc_eq t)
qed

theorem posix_time_counts_days_witness:
  "posix_time_from_utc 2024 2 28 12 0 0 = Some 1709121600 \<and> posix_time_from_utc 2024 2 29 12 0 0 = Some 1709208000"
proof
  show g: "posix_time_from_utc 2024 2 28 12 0 0 = Some 1709121600" by code_simp
  have "next_date 2024 2 28 = (2024, 2, 29)" by code_simp
  from posix_time_counts_days [OF g this] show "posix_time_from_utc 2024 2 29 12 0 0 = Some 1709208000" by simp
qed

text \<open>
  \<^verbatim>\<open>OPENSSL_gmtime_diff\<close> and \<^verbatim>\<open>OPENSSL_gmtime_adj\<close> agree: adjusting the first of two valid
  times by the days and seconds of their difference gives the second; the seconds stay below a day and
  have the sign of the difference.
\<close>

theorem OPENSSL_gmtime_diff_adj:
  assumes "OPENSSL_gmtime_diff from to = Some (days, sec)"
  shows "OPENSSL_gmtime_adj from days sec = Some to \<and> \<bar>sec\<bar> < 86400 \<and> (0 < days \<longrightarrow> 0 \<le> sec) \<and> (days < 0 \<longrightarrow> sec \<le> 0)"
proof -
  obtain a b where a: "OPENSSL_tm_to_posix from = Some a" and b: "OPENSSL_tm_to_posix to = Some b"
    and r: "days = (b - a) sdiv 86400" "sec = (b - a) smod 86400"
    using assms
    by (auto simp: OPENSSL_gmtime_diff_def SECS_PER_DAY_def SECS_PER_HOUR_def Let_def split: option.splits)
  have sum: "days * 86400 + sec = b - a" using r sdiv_mult_smod_eq [of "b - a" 86400] by simp
  have bs: "\<bar>sec\<bar> < 86400" "0 < days \<longrightarrow> 0 \<le> sec" "days < 0 \<longrightarrow> sec \<le> 0"
    using r by (cases "0 \<le> b - a"; simp add: sdiv_nonneg smod_nonneg sdiv_neg smod_neg; fail)+
  have "is_valid_posix_time a" "is_valid_posix_time b" and tb: "OPENSSL_posix_to_tm b = Some to"
    using a b by (simp_all add: tm_to_posix_eq)
  then have rng: "- 62167219200 \<le> a" "a \<le> 253402300799" "- 62167219200 \<le> b" "b \<le> 253402300799"
    by (simp_all add: is_valid_posix_time_def MIN_POSIX_TIME_def MAX_POSIX_TIME_def)
  have "a + days * 86400 + sec = b" "a + days * 86400 = b - sec" using sum by simp_all
  then show ?thesis
    using bs a tb rng by (simp add: OPENSSL_gmtime_adj_def SECS_PER_DAY_def SECS_PER_HOUR_def Let_def INT64_MAX_def INT64_MIN_def)
qed

definition sample_from :: tm where
  "sample_from = \<lparr>tm_year = 100, tm_mon = 0, tm_mday = 1, tm_hour = 12, tm_min = 0, tm_sec = 0\<rparr>"

definition sample_to :: tm where
  "sample_to = \<lparr>tm_year = 99, tm_mon = 11, tm_mday = 30, tm_hour = 23, tm_min = 59, tm_sec = 59\<rparr>"

theorem OPENSSL_gmtime_diff_adj_witness:
  "OPENSSL_gmtime_diff sample_from sample_to = Some (-1, -43201) \<and> OPENSSL_gmtime_adj sample_from (-1) (-43201) = Some sample_to"
proof
  show g: "OPENSSL_gmtime_diff sample_from sample_to = Some (-1, -43201)" by code_simp
  from OPENSSL_gmtime_diff_adj [OF g] show "OPENSSL_gmtime_adj sample_from (-1) (-43201) = Some sample_to" by simp
qed

end
