(* ===== verification/Cbs_Time.thy ===== *)
theory Cbs_Time
  imports Cbs_Asn1 Posix_Time_Props
begin

text \<open>
  The time parsers at the end of \<open>crypto/bytestring/cbs.c\<close>: the bodies of GeneralizedTime and UTCTime
  as RFC 5280 restricts them, with the optional four-digit time zone offset. The parsers work on a
  copy of the \<open>CBS\<close>, so only the flag and \<open>*out_tm\<close> are results. \<open>int\<close> values stay below 10000.
\<close>

section \<open>Definitions\<close>

definition cbs_get_two_digits :: "cbs \<Rightarrow> int option \<times> cbs" where
  "cbs_get_two_digits cbs =
     (case CBS_get_u8 cbs of
        (None, cbs) \<Rightarrow> (None, cbs)
      | (Some first_digit, cbs) \<Rightarrow>
          if \<not> OPENSSL_isdigit (uint first_digit) then (None, cbs)
          else case CBS_get_u8 cbs of
                 (None, cbs) \<Rightarrow> (None, cbs)
               | (Some second_digit, cbs) \<Rightarrow>
                   if \<not> OPENSSL_isdigit (uint second_digit) then (None, cbs)
                   else (Some ((uint first_digit - 0x30) * 10 + (uint second_digit - 0x30)), cbs))"

definition is_valid_day :: "int \<Rightarrow> int \<Rightarrow> int \<Rightarrow> bool" where
  "is_valid_day year month day \<longleftrightarrow>
     (if day < 1 then False
      else if month \<in> {1, 3, 5, 7, 8, 10, 12} then day \<le> 31
      else if month \<in> {4, 6, 9, 11} then day \<le> 30
      else if month = 2
      then (if (year smod 4 = 0 \<and> year smod 100 \<noteq> 0) \<or> year smod 400 = 0 then day \<le> 29 else day \<le> 28)
      else False)"

text \<open>A reader on the local copy, its guard, and the rest of the function; failure is \<open>return 0\<close>.\<close>

definition get_if :: "'a option \<times> cbs \<Rightarrow> ('a \<Rightarrow> bool) \<Rightarrow> ('a \<Rightarrow> cbs \<Rightarrow> 'b option) \<Rightarrow> 'b option" where
  "get_if r ok k = (case r of (None, _) \<Rightarrow> None | (Some v, cbs) \<Rightarrow> if ok v then k v cbs else None)"

definition rfc5280_year :: "bool \<Rightarrow> cbs \<Rightarrow> (int \<Rightarrow> cbs \<Rightarrow> 'b option) \<Rightarrow> 'b option" where
  "rfc5280_year is_gentime copy k =
     (if is_gentime
      then get_if (cbs_get_two_digits copy) (\<lambda>_. True) (\<lambda>century copy.
             get_if (cbs_get_two_digits copy) (\<lambda>_. True) (\<lambda>tmp copy. k (century * 100 + tmp) copy))
      else get_if (cbs_get_two_digits copy) (\<lambda>_. True) (\<lambda>tmp copy.
             let year = 1900 + tmp;
                 year = (if year < 1950 then year + 100 else year)
             in if year \<ge> 2050 then None else k year copy))"

definition rfc5280_offset :: "bool \<Rightarrow> byte \<Rightarrow> cbs \<Rightarrow> int option" where
  "rfc5280_offset allow_timezone_offset tz copy =
     (if tz = 0x5a then (if copy = [] then Some 0 else None)
      else if tz = 0x2b \<or> tz = 0x2d
      then let offset_sign = (if tz = 0x2b then 1 else - 1)
           in if \<not> allow_timezone_offset then None
              else get_if (cbs_get_two_digits copy) (\<lambda>h. \<not> h > 23) (\<lambda>offset_hours copy.
                     get_if (cbs_get_two_digits copy) (\<lambda>m. \<not> m > 59) (\<lambda>offset_minutes copy.
                       if copy = [] then Some (offset_sign * (offset_hours * 3600 + offset_minutes * 60))
                       else None))
      else None)"

definition rfc5280_fields :: "bool \<Rightarrow> bool \<Rightarrow> cbs \<Rightarrow> (tm \<times> int) option" where
  "rfc5280_fields is_gentime allow_timezone_offset cbs =
     rfc5280_year is_gentime cbs (\<lambda>year copy.
       get_if (cbs_get_two_digits copy) (\<lambda>m. \<not> (m < 1 \<or> m > 12)) (\<lambda>month copy.
       get_if (cbs_get_two_digits copy) (is_valid_day year month) (\<lambda>day copy.
       get_if (cbs_get_two_digits copy) (\<lambda>h. \<not> h > 23) (\<lambda>hour copy.
       get_if (cbs_get_two_digits copy) (\<lambda>m. \<not> m > 59) (\<lambda>minute copy.
       get_if (cbs_get_two_digits copy) (\<lambda>s. \<not> s > 59) (\<lambda>sec copy.
       get_if (CBS_get_u8 copy) (\<lambda>_. True) (\<lambda>tz copy.
         map_option (\<lambda>offset_seconds.
             (\<lparr>tm_year = year - 1900, tm_mon = month - 1, tm_mday = day, tm_hour = hour, tm_min = minute, tm_sec = sec\<rparr>,
              offset_seconds))
           (rfc5280_offset allow_timezone_offset tz copy))))))))"

text \<open>\<open>out_tm\<close> is \<open>None\<close> for a null pointer and otherwise what it points to.\<close>

definition CBS_parse_rfc5280_time_internal :: "cbs \<Rightarrow> bool \<Rightarrow> bool \<Rightarrow> tm option \<Rightarrow> bool \<times> tm option" where
  "CBS_parse_rfc5280_time_internal cbs is_gentime allow_timezone_offset out_tm =
     (case rfc5280_fields is_gentime allow_timezone_offset cbs of
        None \<Rightarrow> (False, out_tm)
      | Some (parsed, offset_seconds) \<Rightarrow>
          if out_tm = None then (True, None)
          else if offset_seconds \<noteq> 0
          then (case OPENSSL_gmtime_adj parsed 0 offset_seconds of
                  None \<Rightarrow> (False, Some parsed)
                | Some tm \<Rightarrow> (True, Some tm))
          else (True, Some parsed))"

definition CBS_parse_generalized_time :: "cbs \<Rightarrow> tm option \<Rightarrow> bool \<Rightarrow> bool \<times> tm option" where
  "CBS_parse_generalized_time cbs out_tm allow_timezone_offset =
     CBS_parse_rfc5280_time_internal cbs True allow_timezone_offset out_tm"

definition CBS_parse_utc_time :: "cbs \<Rightarrow> tm option \<Rightarrow> bool \<Rightarrow> bool \<times> tm option" where
  "CBS_parse_utc_time cbs out_tm allow_timezone_offset =
     CBS_parse_rfc5280_time_internal cbs False allow_timezone_offset out_tm"

section \<open>The printed forms\<close>

definition two_digits :: "int \<Rightarrow> byte list" where
  "two_digits n = [of_int (0x30 + n div 10), of_int (0x30 + n mod 10)]"

text \<open>The year of a GeneralizedTime has four digits, that of a UTCTime the last two (1950 to 2049).\<close>

definition year_text :: "bool \<Rightarrow> int \<Rightarrow> byte list" where
  "year_text is_gentime y =
     (if is_gentime then two_digits (y div 100) @ two_digits (y mod 100) else two_digits (y mod 100))"

definition year_ok :: "bool \<Rightarrow> int \<Rightarrow> bool" where
  "year_ok is_gentime y \<longleftrightarrow> (if is_gentime then 0 \<le> y \<and> y \<le> 9999 else 1950 \<le> y \<and> y \<le> 2049)"

definition time_text :: "bool \<Rightarrow> int \<Rightarrow> int \<Rightarrow> int \<Rightarrow> int \<Rightarrow> int \<Rightarrow> int \<Rightarrow> byte list" where
  "time_text is_gentime y m d h mi s =
     year_text is_gentime y @ two_digits m @ two_digits d @ two_digits h @ two_digits mi @ two_digits s"

text \<open>A zone: \<open>Z\<close>, or a sign with hours and minutes.\<close>

datatype zone = Zulu | Plus int int | Minus int int

fun zone_text :: "zone \<Rightarrow> byte list" where
  "zone_text Zulu = [0x5a]"
| "zone_text (Plus h m) = 0x2b # two_digits h @ two_digits m"
| "zone_text (Minus h m) = 0x2d # two_digits h @ two_digits m"

fun zone_ok :: "bool \<Rightarrow> zone \<Rightarrow> bool" where
  "zone_ok allow Zulu \<longleftrightarrow> True"
| "zone_ok allow (Plus h m) \<longleftrightarrow> allow \<and> 0 \<le> h \<and> h \<le> 23 \<and> 0 \<le> m \<and> m \<le> 59"
| "zone_ok allow (Minus h m) \<longleftrightarrow> allow \<and> 0 \<le> h \<and> h \<le> 23 \<and> 0 \<le> m \<and> m \<le> 59"

fun zone_secs :: "zone \<Rightarrow> int" where
  "zone_secs Zulu = 0"
| "zone_secs (Plus h m) = h * 3600 + m * 60"
| "zone_secs (Minus h m) = - (h * 3600 + m * 60)"

section \<open>Two digits\<close>

lemma digit_table:
  assumes "0 \<le> n" and "n \<le> 9"
  shows "uint (of_int (0x30 + n) :: byte) = 0x30 + n" "OPENSSL_isdigit (uint (of_int (0x30 + n) :: byte))"
proof -
  show u: "uint (of_int (0x30 + n) :: byte) = 0x30 + n"
    using assms by (simp add: uint_word_of_int take_bit_eq_mod flip: of_int_add)
  show "OPENSSL_isdigit (uint (of_int (0x30 + n) :: byte))"
    unfolding u OPENSSL_isdigit_def using assms by simp
qed

lemma two_digit_parts:
  fixes p q :: int
  assumes "0 \<le> q" and "q \<le> 9"
  shows "(p * 10 + q) div 10 = p" and "(p * 10 + q) mod 10 = q"
  using assms by simp_all

lemma two_digit_bounds:
  "0 \<le> p \<Longrightarrow> p \<le> 9 \<Longrightarrow> 0 \<le> q \<Longrightarrow> q \<le> 9 \<Longrightarrow> 0 \<le> p * 10 + q \<and> p * 10 + q \<le> 99" for p q :: int
  by simp

lemma get_two_digits_enc:
  assumes "0 \<le> n" and "n \<le> 99"
  shows "cbs_get_two_digits (two_digits n @ rest) = (Some n, rest)"
proof -
  have r: "0 \<le> n div 10" "n div 10 \<le> 9" "0 \<le> n mod 10" "n mod 10 \<le> 9" using assms by auto
  show ?thesis
    using digit_table [OF r(1,2)] digit_table [OF r(3,4)] by (simp add: cbs_get_two_digits_def two_digits_def)
qed

lemma get_two_digits_Some:
  assumes "cbs_get_two_digits c = (Some n, c')"
  shows "0 \<le> n \<and> n \<le> 99 \<and> c = two_digits n @ c'"
proof -
  obtain a b where c: "c = a # b # c'" and d: "OPENSSL_isdigit (uint a)" "OPENSSL_isdigit (uint b)"
    and n: "n = (uint a - 0x30) * 10 + (uint b - 0x30)"
    using assms
    by (auto simp: cbs_get_two_digits_def CBS_get_u8_Some split: prod.splits option.splits if_splits)
  have r: "0 \<le> uint a - 0x30" "uint a - 0x30 \<le> 9" "0 \<le> uint b - 0x30" "uint b - 0x30 \<le> 9"
    using d by (auto simp: OPENSSL_isdigit_def)
  have "n div 10 = uint a - 0x30" "n mod 10 = uint b - 0x30"
    unfolding n by (rule two_digit_parts [OF r(3,4)])+
  then have "0x30 + n div 10 = uint a" "0x30 + n mod 10 = uint b" by simp_all
  then have "two_digits n = [a, b]" by (simp add: two_digits_def del: of_int_add)
  moreover have "0 \<le> n \<and> n \<le> 99" unfolding n by (rule two_digit_bounds [OF r])
  ultimately show ?thesis using c by simp
qed

interpretation two_digit_codec: canonical_codec two_digits cbs_get_two_digits "\<lambda>n. 0 \<le> n \<and> n \<le> 99"
  by unfold_locales (simp_all add: get_two_digits_enc get_two_digits_Some)

lemma get_if_two_digits:
  "get_if (cbs_get_two_digits c) ok k = Some r \<longleftrightarrow>
     (\<exists>n c'. 0 \<le> n \<and> n \<le> 99 \<and> ok n \<and> c = two_digits n @ c' \<and> k n c' = Some r)"
proof
  assume "get_if (cbs_get_two_digits c) ok k = Some r"
  then obtain n c' where "cbs_get_two_digits c = (Some n, c')" "ok n" "k n c' = Some r"
    by (auto simp: get_if_def split: prod.splits option.splits if_splits)
  then show "\<exists>n c'. 0 \<le> n \<and> n \<le> 99 \<and> ok n \<and> c = two_digits n @ c' \<and> k n c' = Some r"
    using get_two_digits_Some by blast
qed (auto simp: get_if_def get_two_digits_enc)

lemma get_if_u8:
  "get_if (CBS_get_u8 c) ok k = Some r \<longleftrightarrow> (\<exists>b c'. ok b \<and> c = b # c' \<and> k b c' = Some r)"
  by (cases c) (auto simp: get_if_def)

section \<open>The parsers\<close>

lemma ex_zone: "(\<exists>z. P z) \<longleftrightarrow> P Zulu \<or> (\<exists>h m. P (Plus h m)) \<or> (\<exists>h m. P (Minus h m))"
  by (metis zone.exhaust)

lemma two_digits_bounded: "h \<le> 23 \<Longrightarrow> h \<le> (99 :: int)" "h \<le> 59 \<Longrightarrow> h \<le> (99 :: int)"
  by simp_all

lemma rfc5280_offset_eq:
  "rfc5280_offset allow tz copy = Some off \<longleftrightarrow>
     (\<exists>z. zone_ok allow z \<and> tz # copy = zone_text z \<and> off = zone_secs z)"
  unfolding ex_zone
  by (auto simp: rfc5280_offset_def get_if_two_digits Let_def two_digits_bounded split: if_splits)

lemma is_valid_day_date: "0 \<le> y \<Longrightarrow> y \<le> 9999 \<Longrightarrow> 1 \<le> m \<Longrightarrow> is_valid_day y m d \<longleftrightarrow> is_valid_date y m d"
  by (auto simp: is_valid_day_def is_valid_date_def)

lemma rfc5280_year_eq:
  "rfc5280_year g c k = Some r \<longleftrightarrow> (\<exists>y c'. year_ok g y \<and> c = year_text g y @ c' \<and> k y c' = Some r)"
proof (cases g)
  case True
  have "(\<exists>a b c'. 0 \<le> a \<and> a \<le> 99 \<and> 0 \<le> b \<and> b \<le> 99 \<and> c = two_digits a @ two_digits b @ c' \<and> k (a * 100 + b) c' = Some r)
      \<longleftrightarrow> (\<exists>y c'. 0 \<le> y \<and> y \<le> 9999 \<and> c = two_digits (y div 100) @ two_digits (y mod 100) @ c' \<and> k y c' = Some r)"
    (is "?L = ?R")
  proof
    assume ?L
    then obtain a b c' where "0 \<le> a" "a \<le> 99" "0 \<le> b" "b \<le> 99" "c = two_digits a @ two_digits b @ c'" "k (a * 100 + b) c' = Some r"
      by blast
    moreover from this have "(a * 100 + b) div 100 = a" "(a * 100 + b) mod 100 = b"
      by (simp_all add: add.commute [of _ b])
    ultimately show ?R by (intro exI [of _ "a * 100 + b"] exI [of _ c']) simp
  next
    assume ?R
    then obtain y c' where y: "0 \<le> y" "y \<le> 9999" "c = two_digits (y div 100) @ two_digits (y mod 100) @ c'" "k y c' = Some r"
      by blast
    then have "0 \<le> y div 100" "y div 100 \<le> 99" "0 \<le> y mod 100" "y mod 100 \<le> 99" "y div 100 * 100 + y mod 100 = y"
      by (auto simp: pos_imp_zdiv_nonneg_iff)
    then show ?L using y by metis
  qed
  then show ?thesis using True
    by (auto simp: rfc5280_year_def get_if_two_digits year_ok_def year_text_def)
next
  case False
  have "(\<exists>a c'. 0 \<le> a \<and> a \<le> 99 \<and> c = two_digits a @ c' \<and> k (if a < 50 then 2000 + a else 1900 + a) c' = Some r)
      \<longleftrightarrow> (\<exists>y c'. 1950 \<le> y \<and> y \<le> 2049 \<and> c = two_digits (y mod 100) @ c' \<and> k y c' = Some r)"
    (is "?L = ?R")
  proof
    assume ?L
    then obtain a c' where a: "0 \<le> a" "a \<le> 99" "c = two_digits a @ c'" "k (if a < 50 then 2000 + a else 1900 + a) c' = Some r"
      by blast
    moreover have "(a + 20 * 100) mod 100 = a" "(a + 19 * 100) mod 100 = a" using a(1,2) unfolding mod_mult_self1 by simp_all
    ultimately show ?R by (intro exI [of _ "if a < 50 then 2000 + a else 1900 + a"] exI [of _ c']) (auto simp: add.commute)
  next
    assume ?R
    then obtain y c' where y: "1950 \<le> y" "y \<le> 2049" "c = two_digits (y mod 100) @ c'" "k y c' = Some r" by blast
    have "(if y mod 100 < 50 then 2000 + y mod 100 else 1900 + y mod 100) = y"
    proof (cases "y < 2000")
      case True
      have "y mod 100 = ((y - 1900) + 19 * 100) mod 100" by simp
      also have "\<dots> = y - 1900" unfolding mod_mult_self1 using True y by simp
      finally show ?thesis using y by simp
    next
      case False
      have "y mod 100 = ((y - 2000) + 20 * 100) mod 100" by simp
      also have "\<dots> = y - 2000" unfolding mod_mult_self1 using False y by simp
      finally show ?thesis using y by simp
    qed
    then show ?L using y by (intro exI [of _ "y mod 100"] exI [of _ c']) auto
  qed
  moreover have body: "(let year = 1900 + a; year = if year < 1950 then year + 100 else year in if 2050 \<le> year then None else k year c') =
      k (if a < 50 then 2000 + a else 1900 + a) c'" if "0 \<le> a" "a \<le> 99" for a c'
    using that by (auto simp: Let_def)
  have "rfc5280_year g c k = Some r \<longleftrightarrow>
      (\<exists>a c'. 0 \<le> a \<and> a \<le> 99 \<and> c = two_digits a @ c' \<and> k (if a < 50 then 2000 + a else 1900 + a) c' = Some r)"
    using False body by (simp only: rfc5280_year_def get_if_two_digits if_False simp_thms cong: conj_cong)
  ultimately show ?thesis using False by (simp add: year_ok_def year_text_def)
qed

lemma rfc5280_year_enc:
  "year_ok g y \<Longrightarrow> k y c = Some r \<Longrightarrow> rfc5280_year g (year_text g y @ c) k = Some r"
  unfolding rfc5280_year_eq by blast

lemma get_if_enc:
  "0 \<le> n \<Longrightarrow> n \<le> 99 \<Longrightarrow> get_if (cbs_get_two_digits (two_digits n @ c)) ok k = (if ok n then k n c else None)"
  by (simp add: get_if_def get_two_digits_enc)

lemma get_if_u8_Cons: "get_if (CBS_get_u8 (b # c)) (\<lambda>_. True) k = k b c"
  by (simp add: get_if_def)

lemma rfc5280_fields_eq:
  "rfc5280_fields g allow cbs = Some (tm, off) \<longleftrightarrow>
     (\<exists>y m d h mi s z. year_ok g y \<and> is_valid_date y m d \<and> is_valid_time h mi s \<and> zone_ok allow z \<and>
        cbs = time_text g y m d h mi s @ zone_text z \<and> off = zone_secs z \<and>
        tm = \<lparr>tm_year = y - 1900, tm_mon = m - 1, tm_mday = d, tm_hour = h, tm_min = mi, tm_sec = s\<rparr>)"
proof -
  have yb: "year_ok g y \<Longrightarrow> 0 \<le> y \<and> y \<le> 9999" for y by (auto simp: year_ok_def split: if_splits)
  have db: "is_valid_date y m d \<Longrightarrow> 1 \<le> m \<and> m \<le> 12 \<and> 1 \<le> d \<and> d \<le> 99" for y m d
    using month_len_le(3) [of y m] by (auto simp: is_valid_date_iff)
  have vd: "year_ok g y \<Longrightarrow> 1 \<le> m \<Longrightarrow> is_valid_day y m d \<longleftrightarrow> is_valid_date y m d" for y m d
    using yb is_valid_day_date by blast
  have tb: "is_valid_time h mi s \<longleftrightarrow> 0 \<le> h \<and> h \<le> 23 \<and> 0 \<le> mi \<and> mi \<le> 59 \<and> 0 \<le> s \<and> s \<le> 59" for h mi s
    by (auto simp: is_valid_time_def)
  show ?thesis (is "?L \<longleftrightarrow> ?R")
  proof
    assume ?L
    then obtain y c1 m c2 d c3 h c4 mi c5 s c6 tz c7 where
      yr: "year_ok g y" and c: "cbs = year_text g y @ c1" "c1 = two_digits m @ c2" "c2 = two_digits d @ c3"
        "c3 = two_digits h @ c4" "c4 = two_digits mi @ c5" "c5 = two_digits s @ c6" "c6 = tz # c7"
      and dt: "\<not> (m < 1 \<or> m > 12)" "is_valid_day y m d"
      and t: "\<not> h > 23" "0 \<le> h" "\<not> mi > 59" "0 \<le> mi" "\<not> s > 59" "0 \<le> s"
      and o: "rfc5280_offset allow tz c7 = Some off"
      and tm: "tm = \<lparr>tm_year = y - 1900, tm_mon = m - 1, tm_mday = d, tm_hour = h, tm_min = mi, tm_sec = s\<rparr>"
      unfolding rfc5280_fields_def rfc5280_year_eq get_if_two_digits get_if_u8 by auto
    from o obtain z where z: "zone_ok allow z" "tz # c7 = zone_text z" "off = zone_secs z"
      unfolding rfc5280_offset_eq by blast
    have "is_valid_date y m d" using vd [OF yr] dt by simp
    moreover have "is_valid_time h mi s" unfolding tb using t by simp
    moreover have "cbs = time_text g y m d h mi s @ zone_text z"
      unfolding c time_text_def z(2) [symmetric] append_assoc ..
    ultimately show ?R using yr z(1,3) tm by blast
  next
    assume ?R
    then obtain y m d h mi s z where r: "year_ok g y" "is_valid_date y m d" "is_valid_time h mi s" "zone_ok allow z"
      "cbs = time_text g y m d h mi s @ zone_text z" "off = zone_secs z"
      "tm = \<lparr>tm_year = y - 1900, tm_mon = m - 1, tm_mday = d, tm_hour = h, tm_min = mi, tm_sec = s\<rparr>" by blast
    obtain tz c7 where z: "zone_text z = tz # c7" by (cases z) auto
    then have o: "rfc5280_offset allow tz c7 = Some off" using r unfolding rfc5280_offset_eq by metis
    have b: "1 \<le> m" "m \<le> 12" "m \<le> 99" "1 \<le> d" "d \<le> 99" "h \<le> 99" "mi \<le> 99" "s \<le> 99" "0 \<le> h" "0 \<le> mi" "0 \<le> s"
      using db [OF r(2)] r(3) [unfolded tb] by simp_all
    have "is_valid_day y m d" using vd r b by simp
    have bnd: "\<not> (m < 1 \<or> m > 12)" "\<not> h > 23" "\<not> mi > 59" "\<not> s > 59" using b r(3) unfolding tb by simp_all
    show ?L
      unfolding rfc5280_fields_def r(5) time_text_def z append_assoc
      by (rule rfc5280_year_enc [OF r(1)])
        (use r(6,7) o b \<open>is_valid_day y m d\<close> bnd in \<open>simp only: get_if_enc get_if_u8_Cons if_True option.map simp_thms\<close>)
  qed
qed


lemma tm_of_date:
  assumes "is_valid_date y m d" and "is_valid_time h mi s"
    and "tm = \<lparr>tm_year = y - 1900, tm_mon = m - 1, tm_mday = d, tm_hour = h, tm_min = mi, tm_sec = s\<rparr>"
  shows "OPENSSL_tm_to_posix tm = posix_time_from_utc y m d h mi s"
    and "\<exists>t. posix_time_from_utc y m d h mi s = Some t"
  using assms by (simp_all add: OPENSSL_tm_to_posix_def posix_time_from_utc_eq)

lemma zone_secs_bounds: "zone_ok allow z \<Longrightarrow> - 86400 < zone_secs z \<and> zone_secs z < 86400"
  by (cases z) auto

lemma gmtime_adj_small:
  assumes "OPENSSL_tm_to_posix tm = Some t" and "\<bar>off\<bar> < 86400"
  shows "OPENSSL_gmtime_adj tm 0 off = OPENSSL_posix_to_tm (t + off)"
proof -
  have "is_valid_posix_time t" using assms(1) tm_to_posix_eq by blast
  then show ?thesis using assms
    by (auto simp: OPENSSL_gmtime_adj_def is_valid_posix_time_def MIN_POSIX_TIME_def MAX_POSIX_TIME_def INT64_MAX_def INT64_MIN_def)
qed

lemma parse_internal_eq:
  "CBS_parse_rfc5280_time_internal cbs g allow (Some old) = (True, Some tm) \<longleftrightarrow>
     (\<exists>y m d h mi s z t. year_ok g y \<and> zone_ok allow z \<and>
        cbs = time_text g y m d h mi s @ zone_text z \<and>
        posix_time_from_utc y m d h mi s = Some t \<and>
        OPENSSL_tm_to_posix tm = Some (t + zone_secs z))"
  (is "?L \<longleftrightarrow> ?R")
proof -
  have adj: "(if off \<noteq> 0 then OPENSSL_gmtime_adj tm' 0 off else Some tm') = Some tm \<longleftrightarrow>
      OPENSSL_tm_to_posix tm = Some (t + off)"
    if "OPENSSL_tm_to_posix tm' = Some t" "\<bar>off\<bar> < 86400" for tm' off t
    using that gmtime_adj_small [OF that] posix_to_tm_defined [of "t + off"]
    by (auto simp: tm_to_posix_eq)
  have "?L \<longleftrightarrow> (\<exists>tm' off. rfc5280_fields g allow cbs = Some (tm', off) \<and>
      (if off \<noteq> 0 then OPENSSL_gmtime_adj tm' 0 off else Some tm') = Some tm)"
    by (auto simp: CBS_parse_rfc5280_time_internal_def split: option.splits if_splits)
  also have "\<dots> \<longleftrightarrow> ?R"
  proof
    assume "\<exists>tm' off. rfc5280_fields g allow cbs = Some (tm', off) \<and>
      (if off \<noteq> 0 then OPENSSL_gmtime_adj tm' 0 off else Some tm') = Some tm"
    then obtain tm' off y m d h mi s z where
      r: "year_ok g y" "is_valid_date y m d" "is_valid_time h mi s" "zone_ok allow z"
        "cbs = time_text g y m d h mi s @ zone_text z" "off = zone_secs z"
        "tm' = \<lparr>tm_year = y - 1900, tm_mon = m - 1, tm_mday = d, tm_hour = h, tm_min = mi, tm_sec = s\<rparr>"
      and a: "(if off \<noteq> 0 then OPENSSL_gmtime_adj tm' 0 off else Some tm') = Some tm"
      unfolding rfc5280_fields_eq by blast
    obtain t where t: "posix_time_from_utc y m d h mi s = Some t" using tm_of_date(2) [OF r(2,3,7)] by blast
    have "OPENSSL_tm_to_posix tm' = Some t" using tm_of_date(1) [OF r(2,3,7)] t by simp
    moreover have "\<bar>off\<bar> < 86400" using zone_secs_bounds [OF r(4)] r(6) by linarith
    ultimately have "OPENSSL_tm_to_posix tm = Some (t + zone_secs z)" using a adj r(6) by blast
    then show ?R using r t by blast
  next
    assume ?R
    then obtain y m d h mi s z t where
      r: "year_ok g y" "zone_ok allow z" "cbs = time_text g y m d h mi s @ zone_text z"
        "posix_time_from_utc y m d h mi s = Some t" "OPENSSL_tm_to_posix tm = Some (t + zone_secs z)" by blast
    define tm' where "tm' = \<lparr>tm_year = y - 1900, tm_mon = m - 1, tm_mday = d, tm_hour = h, tm_min = mi, tm_sec = s\<rparr>"
    have v: "is_valid_date y m d" "is_valid_time h mi s"
      using r(4) by (auto simp: posix_time_from_utc_eq split: if_splits)
    then have "rfc5280_fields g allow cbs = Some (tm', zone_secs z)"
      unfolding rfc5280_fields_eq tm'_def using r by blast
    moreover have "OPENSSL_tm_to_posix tm' = Some t" using tm_of_date(1) [OF v tm'_def] r(4) by simp
    moreover have "\<bar>zone_secs z\<bar> < 86400" using zone_secs_bounds [OF r(2)] by linarith
    ultimately show "\<exists>tm' off. rfc5280_fields g allow cbs = Some (tm', off) \<and>
      (if off \<noteq> 0 then OPENSSL_gmtime_adj tm' 0 off else Some tm') = Some tm"
      using adj r(5) by blast
  qed
  finally show ?thesis .
qed

section \<open>Properties\<close>

text \<open>
  (C25) The time parsers accept exactly the printed times: a GeneralizedTime (UTCTime) body is accepted
  with result \<open>tm\<close> exactly when it is the text of a valid date and time of day, with a four-digit year
  (a year from 1950 to 2049 by its last two digits), followed by \<open>Z\<close> or, when offsets are allowed, a
  signed offset of at most 23:59; \<open>tm\<close> is then the valid time that lies the offset, with its sign, after
  the printed one.
\<close>

theorem CBS_parse_time_exact:
  "(CBS_parse_generalized_time cbs (Some old) allow = (True, Some tm) \<longleftrightarrow>
     (\<exists>y m d h mi s z t. year_ok True y \<and> zone_ok allow z \<and>
        cbs = time_text True y m d h mi s @ zone_text z \<and>
        posix_time_from_utc y m d h mi s = Some t \<and> OPENSSL_tm_to_posix tm = Some (t + zone_secs z))) \<and>
   (CBS_parse_utc_time cbs (Some old) allow = (True, Some tm) \<longleftrightarrow>
     (\<exists>y m d h mi s z t. year_ok False y \<and> zone_ok allow z \<and>
        cbs = time_text False y m d h mi s @ zone_text z \<and>
        posix_time_from_utc y m d h mi s = Some t \<and> OPENSSL_tm_to_posix tm = Some (t + zone_secs z)))"
  unfolding CBS_parse_generalized_time_def CBS_parse_utc_time_def by (intro conjI parse_internal_eq)

text \<open>
  Printing and parsing a time are inverse: the GeneralizedTime text of the fields of any valid
  \<open>struct tm\<close>, with \<open>Z\<close>, is parsed to that same \<open>struct tm\<close>, whether or not offsets are allowed.
\<close>

theorem CBS_parse_generalized_time_round_trip:
  assumes "OPENSSL_tm_to_posix tm = Some t"
  shows "CBS_parse_generalized_time
     (time_text True (tm_year tm + 1900) (tm_mon tm + 1) (tm_mday tm) (tm_hour tm) (tm_min tm) (tm_sec tm) @ [0x5a])
     (Some old) allow = (True, Some tm)"
proof -
  have p: "posix_time_from_utc (tm_year tm + 1900) (tm_mon tm + 1) (tm_mday tm) (tm_hour tm) (tm_min tm) (tm_sec tm) = Some t"
    using assms by (simp add: OPENSSL_tm_to_posix_def)
  then have yo: "year_ok True (tm_year tm + 1900)"
    by (auto simp: posix_time_from_utc_eq is_valid_date_iff year_ok_def split: if_splits)
  show ?thesis
    unfolding CBS_parse_generalized_time_def parse_internal_eq
    by (rule exI [of _ "tm_year tm + 1900"], rule exI [of _ "tm_mon tm + 1"], rule exI [of _ "tm_mday tm"],
      rule exI [of _ "tm_hour tm"], rule exI [of _ "tm_min tm"], rule exI [of _ "tm_sec tm"], rule exI [of _ Zulu],
      rule exI [of _ t]) (simp add: p assms yo)
qed

theorem CBS_parse_generalized_time_round_trip_witness:
  "CBS_parse_generalized_time [0x32,0x30,0x30,0x30, 0x30,0x31, 0x30,0x31, 0x31,0x32, 0x30,0x30, 0x30,0x30, 0x5a]
     (Some sample_to) False = (True, Some sample_from)"
proof -
  have "OPENSSL_tm_to_posix sample_from = Some 946728000" by code_simp
  moreover have "time_text True (tm_year sample_from + 1900) (tm_mon sample_from + 1) (tm_mday sample_from)
      (tm_hour sample_from) (tm_min sample_from) (tm_sec sample_from) @ [0x5a] =
     [0x32,0x30,0x30,0x30, 0x30,0x31, 0x30,0x31, 0x31,0x32, 0x30,0x30, 0x30,0x30, 0x5a]"
    by code_simp
  ultimately show ?thesis using CBS_parse_generalized_time_round_trip [of sample_from 946728000 sample_to False] by simp
qed

end
