(* ===== verification/Ber_Element.thy ===== *)
theory Ber_Element
  imports Cbs_Integer
begin

text \<open>
  What \<open>CBS_get_any_ber_asn1_element\<close> of \<open>cbs.c\<close> accepts: an identifier, length octets as BER allows
  them (not necessarily minimal, or indefinite for a constructed element), and the contents.
\<close>

text \<open>The length octets BER allows for \<open>n\<close>: the short form, or one to four octets.\<close>

definition ber_length :: "nat \<Rightarrow> byte list \<Rightarrow> bool" where
  "ber_length n lb \<longleftrightarrow>
     n < 128 \<and> lb = [of_nat n] \<or>
     (\<exists>k. 1 \<le> k \<and> k \<le> 4 \<and> n < 256 ^ k \<and> lb = of_nat (0x80 + k) # be_bytes k n)"

definition ber_definite :: "asn1_tag \<Rightarrow> byte list \<Rightarrow> byte list \<Rightarrow> asn1_element" where
  "ber_definite tag lb body =
     \<lparr>el_out = tag_bytes tag @ lb @ body, el_tag = tag, el_header_len = length (tag_bytes tag @ lb),
      el_ber_found = (lb \<noteq> der_length (length body)), el_indefinite = False\<rparr>"

definition ber_indefinite :: "asn1_tag \<Rightarrow> asn1_element" where
  "ber_indefinite tag =
     \<lparr>el_out = tag_bytes tag @ [0x80], el_tag = tag, el_header_len = length (tag_bytes tag) + 1,
      el_ber_found = True, el_indefinite = True\<rparr>"

lemma byte_long_form: "1 \<le> k \<Longrightarrow> k \<le> 4 \<Longrightarrow> unat (of_nat (0x80 + k) :: byte) = 128 + k"
  by (subst unat_of_nat) simp

lemma der_length_long: "1 \<le> k \<Longrightarrow> k \<le> 4 \<Longrightarrow> n < 256 ^ k \<Longrightarrow>
   of_nat (0x80 + k) # be_bytes k n = der_length n \<longleftrightarrow> 128 \<le> n \<and> 256 ^ (k - 1) \<le> n"
proof
  assume k: "1 \<le> k" "k \<le> 4" "n < 256 ^ k" and e: "of_nat (0x80 + k) # be_bytes k n = der_length n"
  have "length (der_length n) = Suc k" using e by (metis length_Cons length_be_bytes)
  then have "\<not> n \<le> 0x7f" "der_len_len n = k" using k by (auto simp: length_der_length split: if_splits)
  then show "128 \<le> n \<and> 256 ^ (k - 1) \<le> n" using der_len_len_minimal [of n] by auto
next
  assume k: "1 \<le> k" "k \<le> 4" "n < 256 ^ k" and "128 \<le> n \<and> 256 ^ (k - 1) \<le> n"
  then have "der_len_len n = k" using der_len_len_unique by simp
  then show "of_nat (0x80 + k) # be_bytes k n = der_length n" using \<open>128 \<le> n \<and> _\<close> by (simp add: der_length_def)
qed

lemma get_ber_definite:
  assumes "valid_tag tag" and "ber_length (length body) lb"
  shows "CBS_get_any_ber_asn1_element (tag_bytes tag @ lb @ body @ rest) = (Some (ber_definite tag lb body), rest)"
  using assms(2) unfolding ber_length_def
proof (elim disjE conjE exE)
  assume n: "length body < 128" and lb: "lb = [of_nat (length body)]"
  let ?b = "of_nat (length body) :: byte"
  have b: "unat ?b = length body" using n by (simp add: unat_of_nat)
  have t: "parse_asn1_tag (tag_bytes tag @ ?b # body @ rest) = (Some tag, ?b # body @ rest)"
    using assms(1) by (rule parse_tag_bytes)
  have g: "cbs_get (tag_bytes tag @ ?b # body @ rest) (Suc (length body + length (tag_bytes tag)))
             = (Some (tag_bytes tag @ ?b # body), rest)"
    using cbs_get_append [of "tag_bytes tag @ ?b # body" _ rest] by (simp add: add.commute)
  have "der_length (length body) = [?b]" using n by (simp add: der_length_def)
  then show ?thesis
    using n b t g
    by (simp add: CBS_get_any_ber_asn1_element_def cbs_get_any_asn1_element_def ber_definite_def lb
        byte_and_80 Let_def CBS_get_bytes_eq)
next
  fix k assume k: "1 \<le> k" "k \<le> 4" "length body < 256 ^ k" and lb: "lb = of_nat (0x80 + k) # be_bytes k (length body)"
  let ?b = "of_nat (0x80 + k) :: byte" and ?l = "be_bytes k (length body)"
  let ?v = "of_nat (length body) :: u64"
  note b = byte_long_form [OF k(1,2)]
  then have b7: "unat (?b AND 0x7f) = k" using k by (simp add: byte_and_7f)
  have small: "length body < 2 ^ 32"
    using k(2,3) power_increasing [of k 4 "256 :: nat"] by simp
  then have uv: "unat ?v = length body" by (simp add: unat_of_nat)
  have t: "parse_asn1_tag (tag_bytes tag @ ?b # ?l @ body @ rest) = (Some tag, ?b # ?l @ body @ rest)"
    using assms(1) by (rule parse_tag_bytes)
  have "cbs_get_u (be_bytes k (unat ?v) @ body @ rest) k = (Some ?v, body @ rest)"
    using k uv by (intro decoder.dec_enc [OF canonical_codec.axioms(1) [OF cbs_get_u_canonical]]) auto
  then have u: "cbs_get_u (?l @ body @ rest) k = (Some ?v, body @ rest)" using uv by simp
  have "size_add (size_add (length body) (Suc (length (tag_bytes tag)))) k =
      length body + Suc (length (tag_bytes tag)) + k"
    using small k length_tag_bytes [of tag] by (simp add: size_add_def SIZE_MOD_def)
  moreover have "cbs_get (tag_bytes tag @ ?b # ?l @ body @ rest)
      (length body + (Suc (length (tag_bytes tag)) + k)) = (Some (tag_bytes tag @ ?b # ?l @ body), rest)"
    using cbs_get_append [of "tag_bytes tag @ ?b # ?l @ body" _ rest] by (simp add: ac_simps)
  moreover have ls: "?v < 128 \<longleftrightarrow> length body < 128" using uv by (simp add: word_less_nat_alt)
  moreover have pw: "(2 :: nat) ^ ((k - 1) * 8) = 256 ^ (k - 1)" by (simp add: power_mult mult.commute [of _ 8])
  have dm: "drop_bit ((k - 1) * 8) ?v = 0 \<longleftrightarrow> length body < 256 ^ (k - 1)"
    unfolding drop_bit_zero_iff pw uv ..
  moreover have "(lb \<noteq> der_length (length body)) \<longleftrightarrow> ?v < 128 \<or> drop_bit ((k - 1) * 8) ?v = 0"
    unfolding lb ls dm using der_length_long [OF k] by auto
  ultimately show ?thesis
    using b b7 t u uv k
    by (simp add: CBS_get_any_ber_asn1_element_def cbs_get_any_asn1_element_def ber_definite_def
        lb byte_and_80 Let_def CBS_get_bytes_eq del: of_nat_add)
qed

lemma get_ber_indefinite:
  assumes "valid_tag tag" and "tag AND CBS_ASN1_CONSTRUCTED \<noteq> 0"
  shows "CBS_get_any_ber_asn1_element (tag_bytes tag @ 0x80 # rest) = (Some (ber_indefinite tag), rest)"
proof -
  have t: "parse_asn1_tag (tag_bytes tag @ 0x80 # rest) = (Some tag, 0x80 # rest)"
    using assms(1) by (rule parse_tag_bytes)
  have g: "cbs_get (tag_bytes tag @ 0x80 # rest) (Suc (length (tag_bytes tag))) = (Some (tag_bytes tag @ [0x80]), rest)"
    using cbs_get_append [of "tag_bytes tag @ [0x80]" _ rest] by simp
  show ?thesis
    using assms(2) t g
    by (simp add: CBS_get_any_ber_asn1_element_def cbs_get_any_asn1_element_def ber_indefinite_def
        Let_def CBS_get_bytes_eq)
qed

lemma get_ber_Some:
  assumes "CBS_get_any_ber_asn1_element c = (Some e, c')"
  shows "(\<exists>tag lb body. valid_tag tag \<and> ber_length (length body) lb \<and> c = tag_bytes tag @ lb @ body @ c' \<and>
            e = ber_definite tag lb body) \<or>
         (\<exists>tag. valid_tag tag \<and> tag AND CBS_ASN1_CONSTRUCTED \<noteq> 0 \<and> c = tag_bytes tag @ 0x80 # c' \<and>
            e = ber_indefinite tag)"
proof -
  from assms obtain tag b h where p: "parse_asn1_tag c = (Some tag, b # h)"
    by (auto simp: CBS_get_any_ber_asn1_element_def cbs_get_any_asn1_element_def CBS_get_u8_Some
        split: prod.splits option.splits)
  from tag_codec.enc_dec [OF p] have vt: "valid_tag tag" and c: "c = tag_bytes tag @ b # h" by auto
  let ?k = "unat (b AND 0x7f)"
  consider "unat b < 128" | "128 \<le> unat b" "?k = 0" "tag AND CBS_ASN1_CONSTRUCTED \<noteq> 0"
    | "128 \<le> unat b" "?k \<noteq> 0" | "128 \<le> unat b" "?k = 0" "tag AND CBS_ASN1_CONSTRUCTED = 0" by linarith
  then show ?thesis
  proof cases
    case 1
    from assms p 1 obtain out where
      g: "cbs_get c (unat b + Suc (length (tag_bytes tag))) = (Some out, c')" and
      e: "e = \<lparr>el_out = out, el_tag = tag, el_header_len = Suc (length (tag_bytes tag)),
               el_ber_found = False, el_indefinite = False\<rparr>"
      by (auto simp: CBS_get_any_ber_asn1_element_def cbs_get_any_asn1_element_def byte_and_80 Let_def c
          CBS_get_bytes_eq split: prod.splits option.splits)
    from g have o1: "c = out @ c'" and o2: "length out = unat b + Suc (length (tag_bytes tag))"
      by (auto simp: cbs_get_Some)
    define body where "body = drop (Suc (length (tag_bytes tag))) out"
    have out: "out = tag_bytes tag @ b # body"
      using append_prefix_split [of c out c' "tag_bytes tag @ [b]" h] o1 o2 c by (simp add: body_def)
    have lb: "length body = unat b" using o2 out by simp
    then have "der_length (length body) = [b]" "ber_length (length body) [b]"
      using 1 by (auto simp: der_length_def ber_length_def)
    then show ?thesis
      using vt o1 out e by (intro disjI1 exI [of _ tag] exI [of _ "[b]"] exI [of _ body]) (simp add: ber_definite_def)
  next
    case 2
    have b: "b = 0x80"
    proof -
      have "unat b mod 128 = unat b - 128" using 2(1) unat_byte_less [of b] by (simp add: le_mod_geq)
      then show ?thesis using 2(1,2) by (simp add: byte_and_7f word_unat_eq_iff)
    qed
    have "CBS_get_any_ber_asn1_element c = (Some (ber_indefinite tag), h)"
      unfolding c b by (rule get_ber_indefinite [OF vt 2(3)])
    then show ?thesis using assms vt 2(3) c b by auto
  next
    case 3
    from assms p 3 obtain v h' out where
      k: "?k \<le> 4" and u: "cbs_get_u h ?k = (Some v, h')" and
      g: "cbs_get c (unat v + (Suc (length (tag_bytes tag)) + ?k)) = (Some out, c')"
      by (auto simp: CBS_get_any_ber_asn1_element_def cbs_get_any_asn1_element_def byte_and_80 Let_def c
          CBS_get_bytes_eq split: prod.splits option.splits if_splits)
    from canonical_codec.enc_dec [OF cbs_get_u_canonical u] k
    have vl: "unat v < 256 ^ ?k" and h: "h = be_bytes ?k (unat v) @ h'" by auto
    have b: "of_nat (0x80 + ?k) = b"
    proof -
      have "128 + unat b mod 128 = unat b" using 3 unat_byte_less [of b] by (simp add: le_mod_geq)
      then show ?thesis by (simp only: byte_and_7f of_nat_unat)
    qed
    from g have o1: "c = out @ c'" and
      o2: "length out = unat v + (Suc (length (tag_bytes tag)) + ?k)" by (auto simp: cbs_get_Some)
    define body where "body = drop (Suc (length (tag_bytes tag)) + ?k) out"
    have c2: "c = (tag_bytes tag @ b # be_bytes ?k (unat v)) @ h'" using c h by simp
    have out: "out = (tag_bytes tag @ b # be_bytes ?k (unat v)) @ body"
      using append_prefix_split [OF o1 c2] o2 by (simp add: body_def)
    have lb: "length body = unat v" using o2 out by simp
    have bl: "ber_length (length body) (b # be_bytes ?k (unat v))"
      unfolding ber_length_def lb using 3 k vl b by (intro disjI2 exI [of _ ?k]) simp
    have "CBS_get_any_ber_asn1_element c = (Some (ber_definite tag (b # be_bytes ?k (unat v)) body), c')"
      using get_ber_definite [OF vt bl, of c'] o1 out by simp
    then show ?thesis
      using assms vt bl o1 out
      by (intro disjI1 exI [of _ tag] exI [of _ "b # be_bytes ?k (unat v)"] exI [of _ body]) simp
  next
    case 4
    then have False using assms p
      by (auto simp: CBS_get_any_ber_asn1_element_def cbs_get_any_asn1_element_def byte_and_80 Let_def c
          split: prod.splits option.splits if_splits)
    then show ?thesis ..
  qed
qed


lemma get_ber_element_length:
  assumes "CBS_get_any_ber_asn1_element c = (Some e, c')"
  shows "c = el_out e @ c' \<and> 2 \<le> el_header_len e \<and> el_header_len e \<le> length (el_out e)"
proof -
  have "1 \<le> length lb" if "ber_length n lb" for n lb using that by (auto simp: ber_length_def)
  moreover have "1 \<le> length (tag_bytes tag)" for tag using length_tag_bytes [of tag] by (auto simp: Suc_le_eq)
  ultimately have "2 \<le> length (tag_bytes tag) + length lb" if "ber_length n lb" for n lb tag
    using that by (metis add_mono one_add_one)
  then show ?thesis
    using get_ber_Some [OF assms] \<open>\<And>tag. 1 \<le> length (tag_bytes tag)\<close>
    by (auto simp: ber_definite_def ber_indefinite_def)
qed

lemma ber_contents_shorter:
  assumes "CBS_get_any_ber_asn1_element c = (Some e, c')" and "CBS_skip (el_out e) (el_header_len e) = (Some u, contents)"
  shows "length contents < length c"
  using get_ber_element_length [OF assms(1)] assms(2)
  by (auto simp: CBS_skip_def cbs_get_def split: if_splits prod.splits option.splits)

lemma ber_rest_shorter: "CBS_get_any_ber_asn1_element c = (Some e, c') \<Longrightarrow> length c' < length c"
  using get_ber_element_length [of c e c'] by (metis add_leD1 le_trans length_append less_add_same_cancel2 not_numeral_le_zero gr0I)


lemma get_ber_fail: "CBS_get_any_ber_asn1_element c = (None, c') \<Longrightarrow> c' = c"
  by (auto simp: CBS_get_any_ber_asn1_element_def cbs_get_any_asn1_element_def Let_def CBS_get_bytes_eq
      cbs_get_def split: prod.splits option.splits if_splits)

interpretation ber_reader: reader CBS_get_any_ber_asn1_element
proof
  fix c r c' assume "CBS_get_any_ber_asn1_element c = (r, c')"
  then show "\<exists>p. c = p @ c'"
    using get_ber_fail [of c c'] get_ber_element_length [of c _ c'] by (cases r) auto
qed

end
