(* ===== verification/Ber.thy ===== *)
theory Ber
  imports Cbb_Props Ber_Element
begin

text \<open>
  \<open>crypto/bytestring/ber.c\<close> and \<open>asn1_compat.c\<close>: finding BER that is not DER, converting it to DER,
  and reading implicitly tagged strings. The recursive walk \<open>cbs_find_ber\<close> is a function that
  terminates because contents and rest are shorter than the input. \<open>cbs_convert_ber\<close> calls itself on
  the input its own recursive call left over; it takes fuel, and \<open>Ber_Props\<close> proves that one more
  than the length of the input is enough.
\<close>

definition kMaxDepth :: nat where "kMaxDepth = 128"

definition CBS_ASN1_UTF8STRING :: asn1_tag where "CBS_ASN1_UTF8STRING = 0xc"
definition CBS_ASN1_NUMERICSTRING :: asn1_tag where "CBS_ASN1_NUMERICSTRING = 0x12"
definition CBS_ASN1_PRINTABLESTRING :: asn1_tag where "CBS_ASN1_PRINTABLESTRING = 0x13"
definition CBS_ASN1_T61STRING :: asn1_tag where "CBS_ASN1_T61STRING = 0x14"
definition CBS_ASN1_VIDEOTEXSTRING :: asn1_tag where "CBS_ASN1_VIDEOTEXSTRING = 0x15"
definition CBS_ASN1_IA5STRING :: asn1_tag where "CBS_ASN1_IA5STRING = 0x16"
definition CBS_ASN1_GRAPHICSTRING :: asn1_tag where "CBS_ASN1_GRAPHICSTRING = 0x19"
definition CBS_ASN1_VISIBLESTRING :: asn1_tag where "CBS_ASN1_VISIBLESTRING = 0x1a"
definition CBS_ASN1_GENERALSTRING :: asn1_tag where "CBS_ASN1_GENERALSTRING = 0x1b"
definition CBS_ASN1_UNIVERSALSTRING :: asn1_tag where "CBS_ASN1_UNIVERSALSTRING = 0x1c"
definition CBS_ASN1_BMPSTRING :: asn1_tag where "CBS_ASN1_BMPSTRING = 0x1e"

definition is_string_type :: "asn1_tag \<Rightarrow> bool" where
  "is_string_type tag \<longleftrightarrow>
     tag AND NOT CBS_ASN1_CONSTRUCTED \<in>
       {CBS_ASN1_OCTETSTRING, CBS_ASN1_UTF8STRING, CBS_ASN1_NUMERICSTRING, CBS_ASN1_PRINTABLESTRING,
        CBS_ASN1_T61STRING, CBS_ASN1_VIDEOTEXSTRING, CBS_ASN1_IA5STRING, CBS_ASN1_GRAPHICSTRING,
        CBS_ASN1_VISIBLESTRING, CBS_ASN1_GENERALSTRING, CBS_ASN1_UNIVERSALSTRING, CBS_ASN1_BMPSTRING}"

text \<open>The result is \<open>*ber_found\<close>, \<open>None\<close> when the function fails.\<close>

function cbs_find_ber :: "cbs \<Rightarrow> nat \<Rightarrow> bool option" where
  "cbs_find_ber inp lvl =
     (if lvl > kMaxDepth then None
      else if length inp > 0
      then (case CBS_get_any_ber_asn1_element inp of
              (None, _) \<Rightarrow> None
            | (Some e, inp') \<Rightarrow>
                if el_ber_found e then Some True
                else if el_tag e AND CBS_ASN1_CONSTRUCTED \<noteq> 0
                then (if is_string_type (el_tag e) then Some True
                      else case CBS_skip (el_out e) (el_header_len e) of
                             (None, _) \<Rightarrow> None
                           | (Some _, contents) \<Rightarrow>
                               (case cbs_find_ber contents (lvl + 1) of
                                  None \<Rightarrow> None
                                | Some True \<Rightarrow> Some True
                                | Some False \<Rightarrow> cbs_find_ber inp' lvl))
                else cbs_find_ber inp' lvl)
      else Some False)"
  by pat_completeness auto
termination
  by (relation "measure (\<lambda>(inp, lvl). length inp)")
    (auto dest: ber_rest_shorter [OF sym] ber_contents_shorter [OF sym sym])

declare cbs_find_ber.simps [simp del]

text \<open>The rest of the input after an end-of-contents value.\<close>

definition cbs_get_eoc :: "cbs \<Rightarrow> cbs option" where
  "cbs_get_eoc cbs =
     (if length cbs \<ge> 2 \<and> cbs ! 0 = 0 \<and> cbs ! 1 = 0
      then (case CBS_skip cbs 2 of (None, _) \<Rightarrow> None | (Some _, cbs') \<Rightarrow> Some cbs')
      else None)"

text \<open>
  The body of the loop of \<open>cbs_convert_ber\<close>, up to the call that copies or converts the contents of one
  element: \<open>ber_open\<close> chooses \<open>out_contents\<close> and the string tag of the children, and \<open>ber_element\<close> says
  what comes next, with what is left of \<open>*in\<close> and the builder. Objects of the builder are named by
  their depth.
\<close>

definition ber_open :: "malloc_fn \<Rightarrow> nat \<Rightarrow> cbb \<Rightarrow> asn1_tag \<Rightarrow> asn1_tag \<Rightarrow> bool \<times> cbb \<times> nat \<times> asn1_tag" where
  "ber_open mal out cbb string_tag tag =
     (if string_tag \<noteq> 0
      then (if tag AND NOT CBS_ASN1_CONSTRUCTED \<noteq> string_tag then (False, cbb, out, string_tag)
            else (True, cbb, out, string_tag))
      else let (out_tag, child_string_tag) =
                 (if tag AND CBS_ASN1_CONSTRUCTED \<noteq> 0 \<and> is_string_type tag
                  then (tag AND NOT CBS_ASN1_CONSTRUCTED, tag AND NOT CBS_ASN1_CONSTRUCTED)
                  else (tag, string_tag))
           in (case CBB_add_asn1 mal out cbb out_tag of
                 (ok, cbb') \<Rightarrow> (ok, cbb', out + 1, child_string_tag)))"

datatype ber_step =
    Return bool cbs cbb
  | Indefinite cbs cbb nat asn1_tag
  | Constructed cbs cbs cbb nat asn1_tag
  | Primitive cbs cbs cbb nat

definition ber_element :: "malloc_fn \<Rightarrow> cbs \<Rightarrow> nat \<Rightarrow> cbb \<Rightarrow> asn1_tag \<Rightarrow> bool \<Rightarrow> ber_step" where
  "ber_element mal inp out cbb string_tag looking_for_eoc =
     (if length inp = 0 then Return (\<not> looking_for_eoc) inp cbb
      else case (if looking_for_eoc then cbs_get_eoc inp else None) of
             Some inp' \<Rightarrow> Return True inp' cbb
           | None \<Rightarrow>
     (case CBS_get_any_ber_asn1_element inp of
        (None, inp') \<Rightarrow> Return False inp' cbb
      | (Some e, inp') \<Rightarrow>
     (case ber_open mal out cbb string_tag (el_tag e) of
        (ok, cbb', out_contents, child_string_tag) \<Rightarrow>
          if \<not> ok then Return False inp' cbb'
          else if el_indefinite e then Indefinite inp' cbb' out_contents child_string_tag
          else (case CBS_skip (el_out e) (el_header_len e) of
                  (None, _) \<Rightarrow> Return False inp' cbb'
                | (Some _, contents) \<Rightarrow>
                    if el_tag e AND CBS_ASN1_CONSTRUCTED \<noteq> 0
                    then Constructed contents inp' cbb' out_contents child_string_tag
                    else Primitive contents inp' cbb' out_contents))))"

text \<open>The result is the return value, what is left of \<open>*in\<close>, and the builder.\<close>

fun cbs_convert_ber ::
  "malloc_fn \<Rightarrow> nat \<Rightarrow> cbs \<Rightarrow> nat \<Rightarrow> cbb \<Rightarrow> asn1_tag \<Rightarrow> bool \<Rightarrow> nat \<Rightarrow> (bool \<times> cbs \<times> cbb) option" where
  "cbs_convert_ber mal 0 inp out cbb string_tag looking_for_eoc lvl = None"
| "cbs_convert_ber mal (Suc fuel) inp out cbb string_tag looking_for_eoc lvl =
     (let next = (\<lambda>inp cbb. case CBB_flush mal out cbb of
                   (ok, cbb') \<Rightarrow>
                     if \<not> ok then Some (False, inp, cbb')
                     else cbs_convert_ber mal fuel inp out cbb' string_tag looking_for_eoc lvl)
      in if lvl > kMaxDepth then Some (False, inp, cbb)
         else case ber_element mal inp out cbb string_tag looking_for_eoc of
           Return ok inp' cbb' \<Rightarrow> Some (ok, inp', cbb')
         | Indefinite inp' cbb' out_contents child_string_tag \<Rightarrow>
             (case cbs_convert_ber mal fuel inp' out_contents cbb' child_string_tag True (lvl + 1) of
                None \<Rightarrow> None
              | Some (ok, inp'', cbb'') \<Rightarrow> if \<not> ok then Some (False, inp'', cbb'') else next inp'' cbb'')
         | Constructed contents inp' cbb' out_contents child_string_tag \<Rightarrow>
             (case cbs_convert_ber mal fuel contents out_contents cbb' child_string_tag False (lvl + 1) of
                None \<Rightarrow> None
              | Some (ok, _, cbb'') \<Rightarrow> if \<not> ok then Some (False, inp', cbb'') else next inp' cbb'')
         | Primitive contents inp' cbb' out_contents \<Rightarrow>
             (case CBB_add_bytes mal out_contents cbb' contents of
                (ok, cbb'') \<Rightarrow> if \<not> ok then Some (False, inp', cbb'') else next inp' cbb''))"

text \<open>
  \<open>CBS_asn1_ber_to_der\<close> returns \<open>*out\<close> and \<open>*out_storage\<close> (\<open>None\<close> for NULL), and what is left of
  \<open>*in\<close>.
\<close>

definition CBS_asn1_ber_to_der :: "malloc_fn \<Rightarrow> cbs \<Rightarrow> (cbs \<times> byte list option) option \<times> cbs" where
  "CBS_asn1_ber_to_der mal inp =
     (case cbs_find_ber inp 0 of
        None \<Rightarrow> (None, inp)
      | Some False \<Rightarrow>
          (case CBS_get_any_asn1_element inp of
             (None, inp') \<Rightarrow> (None, inp')
           | (Some e, inp') \<Rightarrow> (Some (el_out e, None), inp'))
      | Some True \<Rightarrow>
          (case CBB_init mal (length inp) of
             None \<Rightarrow> (None, inp)
           | Some cbb \<Rightarrow>
               (case cbs_convert_ber mal (Suc (length inp)) inp 0 cbb 0 False 0 of
                  None \<Rightarrow> (None, inp)
                | Some (False, inp', _) \<Rightarrow> (None, inp')
                | Some (True, inp', cbb') \<Rightarrow>
                    (case CBB_finish mal 0 True cbb' of
                       (None, _) \<Rightarrow> (None, inp')
                     | (Some (out_storage, len), _) \<Rightarrow> (Some (take len out_storage, Some out_storage), inp')))))"

function implicit_string_loop :: "malloc_fn \<Rightarrow> asn1_tag \<Rightarrow> cbs \<Rightarrow> cbb \<Rightarrow> bool \<times> cbb" where
  "implicit_string_loop mal inner_tag child result =
     (if length child > 0
      then (case CBS_get_asn1 child inner_tag of
              (None, _) \<Rightarrow> (False, result)
            | (Some chunk, child') \<Rightarrow>
                and_then (CBB_add_bytes mal 0 result chunk) (\<lambda>result. implicit_string_loop mal inner_tag child' result))
      else (True, result))"
  by pat_completeness auto
termination
  by (relation "measure (\<lambda>(mal, inner_tag, child, result). length child)")
    (auto simp: CBS_get_asn1_exact der_element_def der_header_def length_der_length dest!: sym [of "(Some _, _)"])

declare implicit_string_loop.simps [simp del]

definition CBS_get_asn1_implicit_string ::
  "malloc_fn \<Rightarrow> cbs \<Rightarrow> asn1_tag \<Rightarrow> asn1_tag \<Rightarrow> (cbs \<times> byte list option) option \<times> cbs" where
  "CBS_get_asn1_implicit_string mal inp outer_tag inner_tag =
     (if CBS_peek_asn1_tag inp outer_tag
      then (case CBS_get_asn1 inp outer_tag of
              (None, inp') \<Rightarrow> (None, inp')
            | (Some out, inp') \<Rightarrow> (Some (out, None), inp'))
      else case CBB_init mal (length inp) of
             None \<Rightarrow> (None, inp)
           | Some result \<Rightarrow>
               (case CBS_get_asn1 inp (outer_tag OR CBS_ASN1_CONSTRUCTED) of
                  (None, inp') \<Rightarrow> (None, inp')
                | (Some child, inp') \<Rightarrow>
                    (case implicit_string_loop mal inner_tag child result of
                       (False, _) \<Rightarrow> (None, inp')
                     | (True, result') \<Rightarrow>
                         (case CBB_finish mal 0 True result' of
                            (None, _) \<Rightarrow> (None, inp')
                          | (Some (data, len), _) \<Rightarrow> (Some (take len data, Some data), inp')))))"

text \<open>
  \<open>CBB_finish_i2d\<close> of a growable top-level builder. \<open>outp\<close> is \<open>None\<close> for a null pointer and otherwise
  \<open>*outp\<close>: \<open>None\<close> for NULL, or the memory it points to. The result is the return value and \<open>*outp\<close>
  afterwards: the new buffer, or the memory that was written with the number of bytes \<open>*outp\<close> was
  advanced by.
\<close>

definition INT_MAX_LEN :: nat where "INT_MAX_LEN = 2 ^ 31 - 1"

definition CBB_finish_i2d ::
  "malloc_fn \<Rightarrow> cbb \<Rightarrow> byte list option option \<Rightarrow> int \<times> (byte list \<times> nat) option" where
  "CBB_finish_i2d mal cbb outp =
     (case CBB_finish mal 0 True cbb of
        (None, _) \<Rightarrow> (- 1, None)
      | (Some (der, der_len), _) \<Rightarrow>
          if der_len > INT_MAX_LEN then (- 1, None)
          else (int der_len,
                case outp of
                  None \<Rightarrow> None
                | Some None \<Rightarrow> Some (der, 0)
                | Some (Some mem) \<Rightarrow> Some (mem_write mem 0 (take der_len der), der_len)))"

end
