(* ===== verification/Ber_Props.thy ===== *)
theory Ber_Props
  imports Ber
begin

text \<open>
  The properties of \<open>Ber\<close>. BER and DER structures are trees; \<open>cbs_find_ber\<close> recognises exactly the
  encodings of DER trees, and \<open>cbs_convert_ber\<close> writes the DER tree of a BER tree.
\<close>

abbreviation constructed :: "asn1_tag \<Rightarrow> bool" where
  "constructed t \<equiv> t AND CBS_ASN1_CONSTRUCTED \<noteq> 0"

abbreviation primitive_tag :: "asn1_tag \<Rightarrow> asn1_tag" where
  "primitive_tag t \<equiv> t AND NOT CBS_ASN1_CONSTRUCTED"

section \<open>DER trees\<close>

datatype der = Prim asn1_tag "byte list" | Con asn1_tag "der list"

fun der_enc :: "der \<Rightarrow> byte list" where
  "der_enc (Prim t b) = der_element (b, t)"
| "der_enc (Con t xs) = der_element (concat (map der_enc xs), t)"

text \<open>\<open>d\<close> is the number of constructed elements around the tree.\<close>

fun der_ok :: "nat \<Rightarrow> der \<Rightarrow> bool" where
  "der_ok d (Prim t b) \<longleftrightarrow> valid_tag t \<and> \<not> constructed t \<and> length b < 2 ^ 32"
| "der_ok d (Con t xs) \<longleftrightarrow> valid_tag t \<and> constructed t \<and> \<not> is_string_type t \<and>
     length (concat (map der_enc xs)) < 2 ^ 32 \<and> d < kMaxDepth \<and> list_all (der_ok (Suc d)) xs"

lemma ber_length_der: "n < 2 ^ 32 \<Longrightarrow> ber_length n (der_length n)"
  using der_len_len_bounds [of n] der_len_len_fits [of n] by (auto simp: der_length_def ber_length_def)

lemma ber_length_less: "ber_length n lb \<Longrightarrow> n < 2 ^ 32"
  unfolding ber_length_def
proof (elim disjE exE conjE)
  fix k :: nat assume "k \<le> 4" "n < 256 ^ k"
  then show "n < 2 ^ 32" using power_increasing [of k 4 "256 :: nat"] by simp
qed simp

lemma skip_definite [simp]:
  "CBS_skip (el_out (ber_definite t lb body)) (el_header_len (ber_definite t lb body)) = (Some (), body)"
  using CBS_skip_append [of "tag_bytes t @ lb" _ body] by (simp add: ber_definite_def)

lemma definite_fields [simp]:
  "el_ber_found (ber_definite t lb body) \<longleftrightarrow> lb \<noteq> der_length (length body)"
  "el_tag (ber_definite t lb body) = t" "el_indefinite (ber_definite t lb body) = False"
  by (simp_all add: ber_definite_def)

lemma find_ber_definite:
  assumes "valid_tag t" and "ber_length (length body) lb"
  shows "cbs_find_ber (tag_bytes t @ lb @ body @ rest) d =
    (if d > kMaxDepth then None
     else if lb \<noteq> der_length (length body) then Some True
     else if constructed t
     then (if is_string_type t then Some True
           else case cbs_find_ber body (d + 1) of
                  None \<Rightarrow> None | Some True \<Rightarrow> Some True | Some False \<Rightarrow> cbs_find_ber rest d)
     else cbs_find_ber rest d)"
proof -
  have "tag_bytes t \<noteq> []" using length_tag_bytes [of t] by auto
  then show ?thesis
    using skip_definite by (subst cbs_find_ber.simps) (simp add: get_ber_definite [OF assms])
qed

lemma find_ber_sound:
  "cbs_find_ber c d = Some False \<Longrightarrow> d \<le> kMaxDepth \<and> (\<exists>xs. c = concat (map der_enc xs) \<and> list_all (der_ok d) xs)"
proof (induction c d rule: cbs_find_ber.induct)
  case (1 c d)
  have d: "d \<le> kMaxDepth" using 1(4) by (subst (asm) cbs_find_ber.simps) (auto split: if_splits)
  show ?case
  proof (cases "c = []")
    case True
    then show ?thesis using d by (intro conjI exI [of _ "[]"]) simp_all
  next
    case False
    then obtain e c' where g: "CBS_get_any_ber_asn1_element c = (Some e, c')" and nf: "\<not> el_ber_found e"
      using 1(4) d by (subst (asm) cbs_find_ber.simps) (auto split: prod.splits option.splits if_splits)
    obtain t lb body where b: "valid_tag t" "ber_length (length body) lb" "c = tag_bytes t @ lb @ body @ c'"
        "e = ber_definite t lb body"
      using get_ber_Some [OF g] nf by (auto simp: ber_indefinite_def)
    have lb: "lb = der_length (length body)" using nf by (simp add: b(4))
    have et: "el_tag e = t" by (simp add: b(4))
    note len = ber_length_less [OF b(2)]
    note step = 1(4) [unfolded b(3) find_ber_definite [OF b(1,2)]]
    have el: "c = der_element (body, t) @ c'" by (simp add: b(3) lb der_element_def der_header_def)
    have sk: "CBS_skip (el_out e) (el_header_len e) = (Some (), body)" unfolding b(4) by (rule skip_definite)
    have nd: "\<not> kMaxDepth < d" and ne: "0 < length c" using d False by simp_all
    show ?thesis
    proof (cases "constructed t")
      case con: True
      then have st: "\<not> is_string_type t" and fb: "cbs_find_ber body (d + 1) = Some False" and fc: "cbs_find_ber c' d = Some False"
        using step d lb by (auto split: if_splits option.splits bool.splits)
      have "constructed (el_tag e)" "\<not> is_string_type (el_tag e)" using con st et by simp_all
      note IH1 = 1(1) [OF nd ne g [symmetric] refl nf this sk [symmetric] refl fb]
      note IH2 = 1(2) [OF nd ne g [symmetric] refl nf \<open>constructed (el_tag e)\<close> \<open>\<not> is_string_type (el_tag e)\<close>
          sk [symmetric] refl fb _ fc]
      from IH1 obtain ys where ys: "body = concat (map der_enc ys)" "list_all (der_ok (Suc d)) ys" "Suc d \<le> kMaxDepth" by auto
      from IH2 obtain xs where xs: "c' = concat (map der_enc xs)" "list_all (der_ok d) xs" by auto
      have "c = concat (map der_enc (Con t ys # xs))" using el ys xs by simp
      moreover have "list_all (der_ok d) (Con t ys # xs)" using ys xs b(1) con st len by simp
      ultimately show ?thesis using d by blast
    next
      case pr: False
      then have fc: "cbs_find_ber c' d = Some False" using step d lb by (auto split: if_splits)
      have "\<not> constructed (el_tag e)" using pr et by simp
      note IH = 1(3) [OF nd ne g [symmetric] refl nf this fc]
      then obtain xs where xs: "c' = concat (map der_enc xs)" "list_all (der_ok d) xs" by auto
      have "c = concat (map der_enc (Prim t body # xs))" using el xs by simp
      moreover have "list_all (der_ok d) (Prim t body # xs)" using xs b(1) pr len by simp
      ultimately show ?thesis using d by blast
    qed
  qed
qed

lemma find_ber_step:
  "der_ok d x \<Longrightarrow> d \<le> kMaxDepth \<Longrightarrow> cbs_find_ber (der_enc x @ rest) d = cbs_find_ber rest d"
proof (induction x arbitrary: d rest)
  case (Prim t b)
  then have ok: "valid_tag t" "\<not> constructed t" "length b < 2 ^ 32" by simp_all
  show ?case
    using find_ber_definite [OF ok(1) ber_length_der [OF ok(3)], of rest d] ok Prim(2)
    by (simp add: der_element_def der_header_def)
next
  case (Con t zs)
  then have ok: "valid_tag t" "constructed t" "\<not> is_string_type t" "length (concat (map der_enc zs)) < 2 ^ 32"
      "Suc d \<le> kMaxDepth" "list_all (der_ok (Suc d)) zs" by simp_all
  have "cbs_find_ber (concat (map der_enc zs)) (Suc d) = Some False"
    using Con.IH ok(6)
  proof (induction zs)
    case Nil
    then show ?case using ok(5) by (subst cbs_find_ber.simps) simp
  next
    case (Cons z zs)
    then show ?case using ok(5) by simp
  qed
  then show ?case
    using find_ber_definite [OF ok(1) ber_length_der [OF ok(4)], of rest d] ok
    by (simp add: der_element_def der_header_def)
qed

lemma find_ber_complete:
  "list_all (der_ok d) xs \<Longrightarrow> d \<le> kMaxDepth \<Longrightarrow> cbs_find_ber (concat (map der_enc xs)) d = Some False"
proof (induction xs)
  case Nil
  then show ?case by (subst cbs_find_ber.simps) simp
qed (simp add: find_ber_step)

section \<open>BER trees\<close>

text \<open>
  A primitive element, and constructed elements of definite and of indefinite length; the length octets
  are part of the tree where there is a choice.
\<close>

datatype ber = BPrim asn1_tag "byte list" "byte list" | BCon asn1_tag "byte list" "ber list"
  | BIndef asn1_tag "ber list"

fun ber_enc :: "ber \<Rightarrow> byte list" where
  "ber_enc (BPrim t lb b) = tag_bytes t @ lb @ b"
| "ber_enc (BCon t lb xs) = tag_bytes t @ lb @ concat (map ber_enc xs)"
| "ber_enc (BIndef t xs) = tag_bytes t @ 0x80 # concat (map ber_enc xs) @ [0, 0]"

text \<open>The contents of a string in pieces, and the DER tree of a BER tree.\<close>

fun str_bytes :: "ber \<Rightarrow> byte list" where
  "str_bytes (BPrim t lb b) = b"
| "str_bytes (BCon t lb xs) = concat (map str_bytes xs)"
| "str_bytes (BIndef t xs) = concat (map str_bytes xs)"

fun to_der :: "ber \<Rightarrow> der" where
  "to_der (BPrim t lb b) = Prim t b"
| "to_der (BCon t lb xs) =
     (if is_string_type t then Prim (primitive_tag t) (concat (map str_bytes xs)) else Con t (map to_der xs))"
| "to_der (BIndef t xs) =
     (if is_string_type t then Prim (primitive_tag t) (concat (map str_bytes xs)) else Con t (map to_der xs))"

text \<open>
  What is written for an element when \<open>s\<close> is the tag of the string it is a piece of (0 for none), and
  that tag for the children of an element.
\<close>

definition piece :: "asn1_tag \<Rightarrow> ber \<Rightarrow> byte list" where
  "piece s x = (if s \<noteq> 0 then str_bytes x else der_enc (to_der x))"

definition child_tag :: "asn1_tag \<Rightarrow> asn1_tag \<Rightarrow> asn1_tag" where
  "child_tag s t = (if s \<noteq> 0 then s else if constructed t \<and> is_string_type t then primitive_tag t else 0)"

definition out_tag :: "asn1_tag \<Rightarrow> asn1_tag" where
  "out_tag t = (if constructed t \<and> is_string_type t then primitive_tag t else t)"

text \<open>
  The elements the converter accepts at depth \<open>d\<close> of its recursion inside a string with tag \<open>s\<close>: valid
  tags and lengths, pieces that match the string, contents that fit DER's lengths.
\<close>

definition fits_in :: "asn1_tag \<Rightarrow> asn1_tag \<Rightarrow> byte list \<Rightarrow> bool" where
  "fits_in s t data \<longleftrightarrow> (if s \<noteq> 0 then primitive_tag t = s else length data \<le> 0xfffffffe)"

function ber_ok :: "nat \<Rightarrow> asn1_tag \<Rightarrow> ber \<Rightarrow> bool" where
  "ber_ok d s (BPrim t lb b) \<longleftrightarrow>
     valid_tag t \<and> \<not> constructed t \<and> ber_length (length b) lb \<and> fits_in s t b"
| "ber_ok d s (BCon t lb xs) \<longleftrightarrow>
     valid_tag t \<and> constructed t \<and> ber_length (length (concat (map ber_enc xs))) lb \<and> d < kMaxDepth \<and>
     fits_in s t (concat (map (piece (child_tag s t)) xs)) \<and> list_all (ber_ok (Suc d) (child_tag s t)) xs"
| "ber_ok d s (BIndef t xs) \<longleftrightarrow>
     valid_tag t \<and> constructed t \<and> d < kMaxDepth \<and>
     fits_in s t (concat (map (piece (child_tag s t)) xs)) \<and> list_all (ber_ok (Suc d) (child_tag s t)) xs"
  by pat_completeness auto
termination
  by (relation "measure (\<lambda>(d, s, x). size x)") (auto simp: less_Suc_eq_le size_list_estimation')

lemma string_primitive_nonzero: "is_string_type t \<Longrightarrow> primitive_tag t \<noteq> 0"
  by (auto simp: is_string_type_def CBS_ASN1_OCTETSTRING_def CBS_ASN1_UTF8STRING_def CBS_ASN1_NUMERICSTRING_def
      CBS_ASN1_PRINTABLESTRING_def CBS_ASN1_T61STRING_def CBS_ASN1_VIDEOTEXSTRING_def CBS_ASN1_IA5STRING_def
      CBS_ASN1_GRAPHICSTRING_def CBS_ASN1_VISIBLESTRING_def CBS_ASN1_GENERALSTRING_def CBS_ASN1_UNIVERSALSTRING_def
      CBS_ASN1_BMPSTRING_def)

lemma piece_fun: "s \<noteq> 0 \<Longrightarrow> piece s = str_bytes" "piece 0 = (\<lambda>x. der_enc (to_der x))"
  by (simp_all add: fun_eq_iff piece_def)

lemma piece_con:
  assumes "constructed t" and "to_der x = (if is_string_type t then Prim (primitive_tag t) (concat (map str_bytes xs))
      else Con t (map to_der xs))" and "str_bytes x = concat (map str_bytes xs)"
  shows "piece s x = (if s \<noteq> 0 then concat (map (piece (child_tag s t)) xs)
     else der_element (concat (map (piece (child_tag s t)) xs), out_tag t))"
  using assms string_primitive_nonzero [of t]
  by (auto simp: piece_fun child_tag_def out_tag_def comp_def)

section \<open>Conversion\<close>

text \<open>The fuel: the converter never leaves more input than it got, and always has an answer.\<close>

lemma eoc_shorter: "cbs_get_eoc c = Some c' \<Longrightarrow> length c' \<le> length c"
  by (auto simp: cbs_get_eoc_def CBS_skip_def cbs_get_def split: prod.splits option.splits if_splits)

lemma ber_element_lengths:
  "ber_element mal inp out cbb s eoc = Return ok i c \<Longrightarrow> length i \<le> length inp"
  "ber_element mal inp out cbb s eoc = Indefinite i c oc ct \<Longrightarrow> length i < length inp"
  "ber_element mal inp out cbb s eoc = Constructed b i c oc ct \<Longrightarrow> length i < length inp \<and> length b < length inp"
  "ber_element mal inp out cbb s eoc = Primitive b i c oc \<Longrightarrow> length i < length inp"
proof -
  note defs = ber_element_def
  show "length i \<le> length inp" if "ber_element mal inp out cbb s eoc = Return ok i c"
    using that ber_reader.rd_length [of inp _ i] eoc_shorter [of inp i]
    by (auto simp: defs split: if_splits option.splits prod.splits)
  show "length i < length inp" if "ber_element mal inp out cbb s eoc = Indefinite i c oc ct"
    using that by (auto simp: defs dest: ber_rest_shorter split: if_splits option.splits prod.splits)
  show "length i < length inp \<and> length b < length inp" if "ber_element mal inp out cbb s eoc = Constructed b i c oc ct"
    using that by (auto simp: defs dest: ber_rest_shorter ber_contents_shorter split: if_splits option.splits prod.splits)
  show "length i < length inp" if "ber_element mal inp out cbb s eoc = Primitive b i c oc"
    using that by (auto simp: defs dest: ber_rest_shorter split: if_splits option.splits prod.splits)
qed

lemma convert_rest_length:
  "cbs_convert_ber mal n inp out cbb s eoc d = Some (ok, inp', cbb') \<Longrightarrow> length inp' \<le> length inp"
proof (induction n arbitrary: inp out cbb s eoc d ok inp' cbb')
  case (Suc n)
  have nx: "length j' \<le> length inp"
    if "(case CBB_flush mal out c of (ok, cbb') \<Rightarrow> if \<not> ok then Some (False, j, cbb')
         else cbs_convert_ber mal n j out cbb' s eoc d) = Some (ok, j', c')" "length j \<le> length inp"
    for c j j' c' ok
    using that Suc.IH le_trans by (fastforce split: prod.splits if_splits)
  show ?case
  proof (cases "d > kMaxDepth")
    case False
    show ?thesis
    proof (cases "ber_element mal inp out cbb s eoc")
      case (Return ok1 i c)
      then show ?thesis using Suc.prems False ber_element_lengths(1) [OF Return] by simp
    next
      case (Indefinite i c oc ct)
      then obtain ok1 j c1 where r: "cbs_convert_ber mal n i oc c ct True (d + 1) = Some (ok1, j, c1)"
        using Suc.prems False by (auto split: option.splits)
      have "length j \<le> length inp" using Suc.IH [OF r] ber_element_lengths(2) [OF Indefinite] by simp
      then show ?thesis using Suc.prems False Indefinite r nx [where c = c1 and j = j] by (auto simp: Let_def split: if_splits)
    next
      case (Constructed b i c oc ct)
      then show ?thesis using Suc.prems False ber_element_lengths(3) [OF Constructed] nx
        by (auto simp: Let_def split: if_splits option.splits)
    next
      case (Primitive b i c oc)
      then show ?thesis using Suc.prems False ber_element_lengths(4) [OF Primitive] nx
        by (auto simp: Let_def split: if_splits prod.splits)
    qed
  qed (use Suc.prems in simp)
qed simp

lemma convert_total:
  "length inp < n \<Longrightarrow> cbs_convert_ber mal n inp out cbb s eoc d \<noteq> None"
proof (induction n arbitrary: inp out cbb s eoc d)
  case (Suc n)
  have nx: "(case CBB_flush mal out c of (ok, cbb') \<Rightarrow> if \<not> ok then Some (False, j, cbb')
         else cbs_convert_ber mal n j out cbb' s eoc d) \<noteq> None" if "length j < length inp" for c j
    using Suc.IH [of j] Suc.prems that by (auto split: prod.splits)
  show ?case
  proof (cases "ber_element mal inp out cbb s eoc")
    case (Indefinite i c oc ct)
    have l: "length i < length inp" using ber_element_lengths(2) [OF Indefinite] .
    then obtain ok1 j c1 where r: "cbs_convert_ber mal n i oc c ct True (d + 1) = Some (ok1, j, c1)"
      using Suc.IH [of i oc c ct True "d + 1"] Suc.prems by auto
    then show ?thesis using Indefinite nx [where c = c1 and j = j] convert_rest_length [OF r] l by (auto simp: Let_def)
  next
    case (Constructed b i c oc ct)
    have l: "length i < length inp" "length b < length inp" using ber_element_lengths(3) [OF Constructed] by auto
    then obtain ok1 j c1 where r: "cbs_convert_ber mal n b oc c ct False (d + 1) = Some (ok1, j, c1)"
      using Suc.IH [of b oc c ct False "d + 1"] Suc.prems by auto
    then show ?thesis using Constructed nx [where c = c1 and j = i] l by (auto simp: Let_def)
  next
    case (Primitive b i c oc)
    then show ?thesis using nx [where j = i] ber_element_lengths(4) [OF Primitive] by (auto simp: Let_def split: prod.split)
  qed (auto intro: exI [of _ False])
qed simp


text \<open>The elements of a BER tree as the loop meets them.\<close>

lemma no_eoc_at_tag: "valid_tag t \<Longrightarrow> cbs_get_eoc (tag_bytes t @ x) = None"
proof (rule ccontr)
  assume v: "valid_tag t" and "cbs_get_eoc (tag_bytes t @ x) \<noteq> None"
  then obtain y where y: "tag_bytes t @ x = 0 # y"
    by (cases "tag_bytes t @ x") (auto simp: cbs_get_eoc_def split: if_splits)
  have "parse_asn1_tag (tag_bytes t @ x) = (Some t, x)" using v by (rule parse_tag_bytes)
  then show False unfolding y by (simp add: parse_asn1_tag_def Let_def)
qed

lemma ber_element_definite:
  assumes "valid_tag t" and "ber_length (length b) lb"
  shows "ber_element mal (tag_bytes t @ lb @ b @ rest) out cbb s eoc =
    (case ber_open mal out cbb s t of
       (ok, c, oc, ct) \<Rightarrow>
         if \<not> ok then Return False rest c
         else if constructed t then Constructed b rest c oc ct else Primitive b rest c oc)"
proof -
  have "tag_bytes t \<noteq> []" using length_tag_bytes [of t] by auto
  then show ?thesis
    using no_eoc_at_tag [OF assms(1)]
    by (simp add: ber_element_def get_ber_definite [OF assms] split: prod.split)
qed

lemma ber_element_indefinite:
  assumes "valid_tag t" and "constructed t"
  shows "ber_element mal (tag_bytes t @ 0x80 # rest) out cbb s eoc =
    (case ber_open mal out cbb s t of
       (ok, c, oc, ct) \<Rightarrow> if \<not> ok then Return False rest c else Indefinite rest c oc ct)"
proof -
  have "tag_bytes t \<noteq> []" using length_tag_bytes [of t] by auto
  then show ?thesis
    using no_eoc_at_tag [OF assms(1)] assms(2)
    by (simp add: ber_element_def get_ber_indefinite [OF assms] split: prod.split) (simp add: ber_indefinite_def)
qed

section \<open>Conversion refines the builder\<close>

lemma realizes_trans:
  "realizes mal base (True, c) (Some B1) \<Longrightarrow> realizes mal (cbb_base c) r (Some B2) \<Longrightarrow> realizes mal base r (Some B2)"
  by (auto simp: realizes_def intro: evolves_trans ample_evolves split: if_splits)

lemma realizes_fail:
  "realizes mal base (False, c) (Some B1) \<Longrightarrow> length (layout B1) \<le> length (layout B2) \<Longrightarrow> realizes mal base (False, c) (Some B2)"
  by (auto simp: realizes_def intro: ample_mono)

definition opened :: "asn1_tag \<Rightarrow> asn1_tag \<Rightarrow> builder \<Rightarrow> builder" where
  "opened s t B = (if s \<noteq> 0 then B else Open (put B (tag_bytes (out_tag t))) Asn1 [])"

definition wrapped :: "asn1_tag \<Rightarrow> asn1_tag \<Rightarrow> byte list \<Rightarrow> byte list" where
  "wrapped s t data = (if s \<noteq> 0 then data else der_element (data, out_tag t))"

lemma ber_open_realizes:
  assumes "malloc_ok mal" and "rep cbb B" and "fits_in s t data"
    and "ber_open mal (depth B) cbb s t = (ok, c, oc, ct)"
  shows "realizes mal (cbb_base cbb) (ok, c) (Some (opened s t B))" and "oc = depth (opened s t B)" and "ct = child_tag s t"
proof -
  have R: "realizes mal (cbb_base cbb) (CBB_add_asn1 mal (depth B) cbb (out_tag t)) (Some (Open (put B (tag_bytes (out_tag t))) Asn1 []))"
    using CBB_add_asn1_realizes [OF assms(1,2) order.refl, of "out_tag t"] by simp
  show "realizes mal (cbb_base cbb) (ok, c) (Some (opened s t B))"
    using assms(2-4) R
    by (auto simp: ber_open_def opened_def fits_in_def out_tag_def realizes_ok split: if_splits prod.splits)
  show "oc = depth (opened s t B)" "ct = child_tag s t"
    using assms(3,4) by (auto simp: ber_open_def opened_def child_tag_def fits_in_def split: if_splits prod.splits)
qed

lemma close_opened:
  "fits_in s t data \<Longrightarrow> close_to (depth B) (put (opened s t B) data) = Some (put B (wrapped s t data))"
  using close_to_same [of "put B data"] close_to_same [of "put B (der_element (data, out_tag t))"]
  by (auto simp: opened_def wrapped_def fits_in_def close_to.simps [of "depth B" "Open _ _ _"] der_element_def der_header_def)

lemma layout_opened: "fits_in s t data \<Longrightarrow>
   length (layout (put (opened s t B) data)) \<le> length (layout (put B (wrapped s t data)))"
  using layout_close_to [OF close_opened] .

lemma piece_wrapped_con:
  assumes "constructed t"
  shows "piece s (BCon t lb xs) = wrapped s t (concat (map (piece (child_tag s t)) xs))"
    and "piece s (BIndef t xs) = wrapped s t (concat (map (piece (child_tag s t)) xs))"
  using piece_con [OF assms, of "BCon t lb xs" xs s] piece_con [OF assms, of "BIndef t xs" xs s]
  by (simp_all add: wrapped_def)

lemma piece_wrapped_prim: "\<not> constructed t \<Longrightarrow> piece s (BPrim t lb b) = wrapped s t b"
  by (simp add: piece_def wrapped_def out_tag_def)

text \<open>What a call promises for a list of trees, with \<open>tail\<close> left after the end.\<close>

definition converts :: "malloc_fn \<Rightarrow> cbb_buffer_st \<Rightarrow> (bool \<times> cbs \<times> cbb) option \<Rightarrow> builder \<Rightarrow> cbs \<Rightarrow> bool" where
  "converts mal base r B tail \<longleftrightarrow>
     (case r of None \<Rightarrow> False
      | Some (ok, inp', c) \<Rightarrow> (ok \<longrightarrow> inp' = tail) \<and> realizes mal base (ok, c) (Some B))"

text \<open>From the end of an element on: flush and go on with the rest of the list.\<close>

lemma converts_next:
  assumes "malloc_ok mal" and "fits_in s t data" and "realizes mal base (True, c) (Some (put (opened s t B) data))"
    and IH: "\<And>c'. rep c' (put B (wrapped s t data)) \<Longrightarrow>
      converts mal (cbb_base c') (rec c') (put (put B (wrapped s t data)) xtra) tail"
  shows "converts mal base
     (case CBB_flush mal (depth B) c of (ok, c') \<Rightarrow> if \<not> ok then Some (False, i, c') else rec c')
     (put B (wrapped s t data @ xtra)) tail"
proof -
  obtain ok c' where f: "CBB_flush mal (depth B) c = (ok, c')" by fastforce
  have rc: "rep c (put (opened s t B) data)" using assms(3) by (simp add: realizes_def)
  have "depth B \<le> depth (put (opened s t B) data)" by (simp add: opened_def)
  from CBB_flush_realizes [OF assms(1) rc this] have R: "realizes mal (cbb_base c) (ok, c') (Some (put B (wrapped s t data)))"
    unfolding f close_opened [OF assms(2)] .
  have R2: "realizes mal base (ok, c') (Some (put B (wrapped s t data)))" by (rule realizes_trans [OF assms(3) R])
  show ?thesis
  proof (cases ok)
    case False
    then have okF: "ok = False" by simp
    have "realizes mal base (False, c') (Some (put B (wrapped s t data @ xtra)))"
      by (rule realizes_fail [OF R2 [unfolded okF]]) simp
    then show ?thesis using f False by (simp add: converts_def)
  next
    case True
    then have okT: "ok = True" by simp
    from True have "rep c' (put B (wrapped s t data))" using R2 by (simp add: realizes_def)
    note cv = IH [OF this]
    then obtain ok2 i2 c2 where r: "rec c' = Some (ok2, i2, c2)" by (cases "rec c'") (auto simp: converts_def)
    have R3: "realizes mal (cbb_base c') (ok2, c2) (Some (put B (wrapped s t data @ xtra)))" "ok2 \<longrightarrow> i2 = tail"
      using cv by (simp_all add: converts_def r)
    have "realizes mal base (ok2, c2) (Some (put B (wrapped s t data @ xtra)))"
      by (rule realizes_trans [OF R2 [unfolded okT] R3(1)])
    then show ?thesis using f True r R3(2) by (simp add: converts_def)
  qed
qed

lemma converts_fail:
  "realizes mal base (False, c) (Some B1) \<Longrightarrow> length (layout B1) \<le> length (layout B2) \<Longrightarrow>
   converts mal base (Some (False, i, c)) B2 tail"
  by (simp add: converts_def) (rule realizes_fail)

text \<open>One element: open it, write its contents, flush, and go on with the rest.\<close>

lemma converts_element:
  assumes "malloc_ok mal" and "rep cbb B" and "fits_in s t data"
    and opn: "ber_open mal (depth B) cbb s t = (ok, c, oc, ct)"
    and inner: "\<And>c. rep c (opened s t B) \<Longrightarrow> oc = depth (opened s t B) \<Longrightarrow> ct = child_tag s t \<Longrightarrow>
      \<exists>okr i' c'. inner c = Some (okr, i', c') \<and> (okr \<longrightarrow> i' = mid) \<and> realizes mal (cbb_base c) (okr, c') (Some (put (opened s t B) data))"
    and IH: "\<And>c'. rep c' (put B (wrapped s t data)) \<Longrightarrow>
      converts mal (cbb_base c') (cont mid c') (put (put B (wrapped s t data)) xtra) tail"
  shows "converts mal (cbb_base cbb)
     (if \<not> ok then Some (False, i, c)
      else (case inner c of None \<Rightarrow> None
            | Some (okr, i', c') \<Rightarrow>
                if \<not> okr then Some (False, i', c')
                else (case CBB_flush mal (depth B) c' of (okf, c'') \<Rightarrow> if \<not> okf then Some (False, i', c'') else cont i' c'')))
     (put B (wrapped s t data @ xtra)) tail"
proof -
  note R = ber_open_realizes [OF assms(1-3) opn]
  have L1: "length (layout (put (opened s t B) data)) \<le> length (layout (put B (wrapped s t data @ xtra)))"
    using layout_opened [OF assms(3), of B] by simp
  then have L0: "length (layout (opened s t B)) \<le> length (layout (put B (wrapped s t data @ xtra)))" by simp
  show ?thesis
  proof (cases ok)
    case False
    then have okF: "ok = False" by simp
    from converts_fail [OF R(1) [unfolded okF] L0] show ?thesis using okF by simp
  next
    case True
    then have okT: "ok = True" by simp
    have "rep c (opened s t B)" using R(1) okT by (simp add: realizes_def)
    from inner [OF this R(2,3)] obtain okr i' c' where r: "inner c = Some (okr, i', c')" "okr \<longrightarrow> i' = mid"
      "realizes mal (cbb_base c) (okr, c') (Some (put (opened s t B) data))" by blast
    note R2 = realizes_trans [OF R(1) [unfolded okT] r(3)]
    show ?thesis
    proof (cases okr)
      case False
      then have okF: "okr = False" by simp
      from converts_fail [OF R2 [unfolded okF] L1] show ?thesis using okT okF r(1) by simp
    next
      case okr: True
      then have okrT: "okr = True" and i': "i' = mid" using r(2) by simp_all
      from converts_next [OF assms(1,3) R2 [unfolded okrT] IH]
      show ?thesis using okT okrT r(1) i' by simp
    qed
  qed
qed

definition with_rest :: "cbs \<Rightarrow> (bool \<times> cbs \<times> cbb) option \<Rightarrow> (bool \<times> cbs \<times> cbb) option" where
  "with_rest rest r = map_option (\<lambda>(ok, _, c). (ok, rest, c)) r"

lemma convert_indefinite:
  assumes "valid_tag t" and "constructed t" and "d \<le> kMaxDepth" and "ber_open mal out cbb s t = (ok, c, oc, ct)"
  shows "cbs_convert_ber mal (Suc n) (tag_bytes t @ 0x80 # rest) out cbb s eoc d =
    (if \<not> ok then Some (False, rest, c)
     else (case cbs_convert_ber mal n rest oc c ct True (Suc d) of None \<Rightarrow> None
           | Some (okr, i', c') \<Rightarrow>
               if \<not> okr then Some (False, i', c')
               else (case CBB_flush mal out c' of (okf, c'') \<Rightarrow>
                  if \<not> okf then Some (False, i', c'') else cbs_convert_ber mal n i' out c'' s eoc d)))"
  using assms(3,4) by (simp add: ber_element_indefinite [OF assms(1,2)] Let_def)

lemma convert_definite:
  assumes "valid_tag t" and "ber_length (length b) lb" and "d \<le> kMaxDepth" and "ber_open mal out cbb s t = (ok, c, oc, ct)"
  shows "cbs_convert_ber mal (Suc n) (tag_bytes t @ lb @ b @ rest) out cbb s eoc d =
    (if \<not> ok then Some (False, rest, c)
     else (case with_rest rest (if constructed t then cbs_convert_ber mal n b oc c ct False (Suc d)
                                else (case CBB_add_bytes mal oc c b of (okb, c') \<Rightarrow> Some (okb, rest, c'))) of None \<Rightarrow> None
           | Some (okr, i', c') \<Rightarrow>
               if \<not> okr then Some (False, i', c')
               else (case CBB_flush mal out c' of (okf, c'') \<Rightarrow>
                  if \<not> okf then Some (False, i', c'') else cbs_convert_ber mal n i' out c'' s eoc d)))"
  using assms(3,4) by (simp add: ber_element_definite [OF assms(1,2)] Let_def with_rest_def split: option.splits prod.splits)

text \<open>What ends a list of elements: the end of the input, or an end-of-contents value.\<close>

definition ending :: "bool \<Rightarrow> cbs \<Rightarrow> cbs" where
  "ending eoc tail = (if eoc then 0 # 0 # tail else [])"

definition left_over :: "bool \<Rightarrow> cbs \<Rightarrow> cbs" where
  "left_over eoc tail = (if eoc then tail else [])"

lemma ber_element_end:
  "ber_element mal (ending eoc tail) out cbb s eoc = Return True (left_over eoc tail) cbb"
  using CBS_skip_append [of "[0, 0]" 2 tail] by (simp add: ber_element_def ending_def left_over_def cbs_get_eoc_def)

lemma convertsD:
  assumes "converts mal base r B tail"
  shows "\<exists>ok i c. r = Some (ok, i, c) \<and> (ok \<longrightarrow> i = tail) \<and> realizes mal base (ok, c) (Some B)"
  using assms by (auto simp: converts_def split: option.splits)

lemma ber_enc_nonempty: "ber_ok d s x \<Longrightarrow> 0 < length (ber_enc x)"
  using length_tag_bytes by (cases x) auto

lemma convert_realizes:
  assumes "malloc_ok mal"
  shows "list_all (ber_ok d s) xs \<Longrightarrow> length (concat (map ber_enc xs) @ ending eoc tail) < n \<Longrightarrow> rep cbb B \<Longrightarrow>
    out = depth B \<Longrightarrow> d \<le> kMaxDepth \<Longrightarrow>
    converts mal (cbb_base cbb) (cbs_convert_ber mal n (concat (map ber_enc xs) @ ending eoc tail) out cbb s eoc d)
      (put B (concat (map (piece s) xs))) (left_over eoc tail)"
proof (induction n arbitrary: xs eoc tail out cbb B s d)
  case (Suc n)
  show ?case
  proof (cases xs)
    case Nil
    have "realizes mal (cbb_base cbb) (True, cbb) (Some B)" by (rule realizes_ok [OF Suc.prems(3) evolves_refl])
    then show ?thesis using Suc.prems(5) Nil by (simp add: ber_element_end converts_def)
  next
    case (Cons x ys)
    let ?rest = "concat (map ber_enc ys) @ ending eoc tail"
    have ok: "ber_ok d s x" "list_all (ber_ok d s) ys" using Suc.prems(1) Cons by simp_all
    have len: "length ?rest < n" using Suc.prems(2) Cons ber_enc_nonempty [OF ok(1)] by (simp del: length_greater_0_conv)
    show ?thesis
    proof (cases x)
      case (BPrim t lb b)
      obtain okr c oc ct where o: "ber_open mal (depth B) cbb s t = (okr, c, oc, ct)" by (metis prod_cases4)
      have v: "valid_tag t" "\<not> constructed t" "ber_length (length b) lb" "fits_in s t b" using ok(1) BPrim by simp_all
      have "converts mal (cbb_base cbb) (cbs_convert_ber mal (Suc n) (tag_bytes t @ lb @ b @ ?rest) (depth B) cbb s eoc d)
        (put B (wrapped s t b @ concat (map (piece s) ys))) (left_over eoc tail)"
        unfolding convert_definite [OF v(1,3) Suc.prems(5) o]
      proof (rule converts_element [OF assms Suc.prems(3) v(4) o, where mid = ?rest])
        fix c assume c: "rep c (opened s t B)" "oc = depth (opened s t B)" "ct = child_tag s t"
        have "length b < SIZE_MOD" using ber_length_less [OF v(3)] by (simp add: SIZE_MOD_def)
        note R = CBB_add_bytes_realizes [OF assms c(1) eq_refl [OF c(2)] this, unfolded c(2) put_to_same]
        obtain okb c' where b: "CBB_add_bytes mal oc c b = (okb, c')" by fastforce
        show "\<exists>okr i' c'. with_rest ?rest (if constructed t then cbs_convert_ber mal n b oc c ct False (Suc d)
              else (case CBB_add_bytes mal oc c b of (okb, c') \<Rightarrow> Some (okb, ?rest, c'))) = Some (okr, i', c') \<and>
            (okr \<longrightarrow> i' = ?rest) \<and> realizes mal (cbb_base c) (okr, c') (Some (put (opened s t B) b))"
          using v(2) R b [unfolded c(2)] c(2) by (simp add: with_rest_def)
      next
        fix c' assume "rep c' (put B (wrapped s t b))"
        from Suc.IH [OF ok(2) len this _ Suc.prems(5)]
        show "converts mal (cbb_base c') (cbs_convert_ber mal n ?rest (depth B) c' s eoc d)
          (put (put B (wrapped s t b)) (concat (map (piece s) ys))) (left_over eoc tail)" by simp
      qed
      then show ?thesis using Cons BPrim piece_wrapped_prim [OF v(2)] Suc.prems(4) by simp
    next
      case (BCon t lb zs)
      let ?data = "concat (map (piece (child_tag s t)) zs)" and ?b = "concat (map ber_enc zs)"
      have v: "valid_tag t" "constructed t" "Suc d \<le> kMaxDepth" "fits_in s t ?data" "list_all (ber_ok (Suc d) (child_tag s t)) zs"
        "ber_length (length ?b) lb"
        using ok(1) BCon by simp_all
      obtain okr c oc ct where o: "ber_open mal (depth B) cbb s t = (okr, c, oc, ct)" by (metis prod_cases4)
      have lin: "length (?b @ ending False []) < n" using Suc.prems(2) Cons BCon length_tag_bytes [of t] by (simp add: ending_def del: length_greater_0_conv)
      have "converts mal (cbb_base cbb) (cbs_convert_ber mal (Suc n) (tag_bytes t @ lb @ ?b @ ?rest) (depth B) cbb s eoc d)
        (put B (wrapped s t ?data @ concat (map (piece s) ys))) (left_over eoc tail)"
        unfolding convert_definite [OF v(1,6) Suc.prems(5) o]
      proof (rule converts_element [OF assms Suc.prems(3) v(4) o, where mid = ?rest])
        fix c assume c: "rep c (opened s t B)" "oc = depth (opened s t B)" "ct = child_tag s t"
        from convertsD [OF Suc.IH [OF v(5) lin c(1,2) v(3)]] v(2)
        show "\<exists>okr i' c'. with_rest ?rest (if constructed t then cbs_convert_ber mal n ?b oc c ct False (Suc d)
              else (case CBB_add_bytes mal oc c ?b of (okb, c') \<Rightarrow> Some (okb, ?rest, c'))) = Some (okr, i', c') \<and>
            (okr \<longrightarrow> i' = ?rest) \<and> realizes mal (cbb_base c) (okr, c') (Some (put (opened s t B) ?data))"
          using c(3) by (auto simp: with_rest_def ending_def)
      next
        fix c' assume "rep c' (put B (wrapped s t ?data))"
        from Suc.IH [OF ok(2) len this _ Suc.prems(5)]
        show "converts mal (cbb_base c') (cbs_convert_ber mal n ?rest (depth B) c' s eoc d)
          (put (put B (wrapped s t ?data)) (concat (map (piece s) ys))) (left_over eoc tail)" by simp
      qed
      then show ?thesis using Cons BCon piece_wrapped_con(1) [OF v(2)] Suc.prems(4) by simp
    next
      case (BIndef t zs)
      let ?data = "concat (map (piece (child_tag s t)) zs)"
      have v: "valid_tag t" "constructed t" "Suc d \<le> kMaxDepth" "fits_in s t ?data" "list_all (ber_ok (Suc d) (child_tag s t)) zs"
        using ok(1) BIndef by simp_all
      obtain okr c oc ct where o: "ber_open mal (depth B) cbb s t = (okr, c, oc, ct)" by (metis prod_cases4)
      let ?in = "concat (map ber_enc zs) @ ending True ?rest"
      have lin: "length ?in < n" using Suc.prems(2) Cons BIndef length_tag_bytes [of t] by (simp add: ending_def)
      have "converts mal (cbb_base cbb) (cbs_convert_ber mal (Suc n) (tag_bytes t @ 0x80 # ?in) (depth B) cbb s eoc d)
        (put B (wrapped s t ?data @ concat (map (piece s) ys))) (left_over eoc tail)"
        unfolding convert_indefinite [OF v(1,2) Suc.prems(5) o]
      proof (rule converts_element [OF assms Suc.prems(3) v(4) o, where mid = ?rest])
        fix c assume "rep c (opened s t B)" "oc = depth (opened s t B)" "ct = child_tag s t"
        from convertsD [OF Suc.IH [OF v(5) lin this(1) this(2) v(3)]] this(3)
        show "\<exists>okr i' c'. cbs_convert_ber mal n ?in oc c ct True (Suc d) = Some (okr, i', c') \<and> (okr \<longrightarrow> i' = ?rest) \<and>
           realizes mal (cbb_base c) (okr, c') (Some (put (opened s t B) ?data))"
          by (simp add: left_over_def)
      next
        fix c' assume "rep c' (put B (wrapped s t ?data))"
        from Suc.IH [OF ok(2) len this _ Suc.prems(5)]
        show "converts mal (cbb_base c') (cbs_convert_ber mal n ?rest (depth B) c' s eoc d)
          (put (put B (wrapped s t ?data)) (concat (map (piece s) ys))) (left_over eoc tail)" by simp
      qed
      then show ?thesis using Cons BIndef piece_wrapped_con(2) [OF v(2)] Suc.prems(4) by (simp add: ending_def)
    qed
  qed
qed simp

end
