(* ===== verification/Ber_To_Der.thy ===== *)
theory Ber_To_Der
  imports Ber_Props Oid
begin

text \<open>
  The correctness of \<open>CBS_asn1_ber_to_der\<close>: its two branches, and that its output is DER.
\<close>

lemma primitive_tag_primitive: "\<not> constructed (primitive_tag t)"
  by (simp add: bit_eq_iff bit_simps)

lemma primitive_tag_idem: "primitive_tag (primitive_tag t) = primitive_tag t"
  by (simp add: bit_eq_iff bit_simps)

text \<open>The tree that is written is a DER tree.\<close>

lemma to_der_con:
  assumes "valid_tag t" and "constructed t" and "d < kMaxDepth"
    and "fits_in 0 t (concat (map (piece (child_tag 0 t)) xs))" and "list_all (ber_ok (Suc d) (child_tag 0 t)) xs"
    and IH: "\<And>x. x \<in> set xs \<Longrightarrow> ber_ok (Suc d) 0 x \<Longrightarrow> der_ok (Suc d) (to_der x)"
  shows "der_ok d (if is_string_type t then Prim (primitive_tag t) (concat (map str_bytes xs)) else Con t (map to_der xs))"
proof (cases "is_string_type t")
  case True
  then have "length (concat (map str_bytes xs)) \<le> 0xfffffffe"
    using assms(2,4) string_primitive_nonzero by (simp add: fits_in_def child_tag_def piece_fun)
  then show ?thesis using True string_primitive_nonzero primitive_tag_primitive primitive_tag_idem [of t]
    by (simp add: valid_tag_def)
next
  case False
  then have "list_all (ber_ok (Suc d) 0) xs" "length (concat (map (\<lambda>x. der_enc (to_der x)) xs)) \<le> 0xfffffffe"
    using assms(2,4,5) by (simp_all add: fits_in_def child_tag_def piece_fun)
  then show ?thesis using False assms(1-3) IH by (simp add: comp_def list_all_iff)
qed

lemma to_der_ok: "ber_ok d 0 x \<Longrightarrow> der_ok d (to_der x)"
proof (induction x arbitrary: d)
  case (BPrim t lb b)
  then have "ber_length (length b) lb" by simp
  from ber_length_less [OF this] BPrim show ?case by simp
next
  case (BCon t lb xs)
  have "der_ok d (if is_string_type t then Prim (primitive_tag t) (concat (map str_bytes xs)) else Con t (map to_der xs))"
    using BCon.prems BCon.IH by (intro to_der_con) auto
  then show ?case by simp
next
  case (BIndef t xs)
  have "der_ok d (if is_string_type t then Prim (primitive_tag t) (concat (map str_bytes xs)) else Con t (map to_der xs))"
    using BIndef.prems BIndef.IH by (intro to_der_con) auto
  then show ?case by simp
qed

text \<open>On BER trees \<open>cbs_find_ber\<close> has an answer, and tells the trees apart that are DER already.\<close>

lemma find_ber_indefinite:
  assumes "valid_tag t" and "constructed t" and "d \<le> kMaxDepth"
  shows "cbs_find_ber (tag_bytes t @ 0x80 # rest) d = Some True"
proof -
  have "tag_bytes t \<noteq> []" using length_tag_bytes [of t] by auto
  then show ?thesis
    using assms(3) by (subst cbs_find_ber.simps) (simp add: get_ber_indefinite [OF assms(1,2)] ber_indefinite_def)
qed

lemma find_ber_ber:
  "ber_ok d 0 x \<Longrightarrow> d \<le> kMaxDepth \<Longrightarrow>
   cbs_find_ber (ber_enc x @ rest) d = Some True \<or>
   cbs_find_ber (ber_enc x @ rest) d = cbs_find_ber rest d \<and> ber_enc x = der_enc (to_der x)"
proof (induction x arbitrary: d rest)
  case (BPrim t lb b)
  then show ?case using find_ber_definite [of t b lb rest d] by (auto simp: der_element_def der_header_def)
next
  case (BCon t lb zs)
  let ?b = "concat (map ber_enc zs)"
  have v: "valid_tag t" "constructed t" "ber_length (length ?b) lb" "Suc d \<le> kMaxDepth" using BCon.prems by simp_all
  show ?case
  proof (cases "lb = der_length (length ?b) \<and> \<not> is_string_type t")
    case False
    then show ?thesis using find_ber_definite [OF v(1,3), of rest d] v(2) BCon.prems(2) by auto
  next
    case True
    then have zs: "list_all (ber_ok (Suc d) 0) zs" using BCon.prems by (simp add: child_tag_def)
    have "cbs_find_ber ?b (Suc d) = Some True \<or>
      cbs_find_ber ?b (Suc d) = Some False \<and> ?b = concat (map (\<lambda>x. der_enc (to_der x)) zs)"
      using BCon.IH zs
    proof (induction zs)
      case Nil
      then show ?case using v(4) by (subst cbs_find_ber.simps) simp
    next
      case (Cons z zs)
      then have IH: "cbs_find_ber (concat (map ber_enc zs)) (Suc d) = Some True \<or>
         cbs_find_ber (concat (map ber_enc zs)) (Suc d) = Some False \<and>
         concat (map ber_enc zs) = concat (map (\<lambda>x. der_enc (to_der x)) zs)" by simp
      have "ber_ok (Suc d) 0 z" using Cons.prems(2) by simp
      from Cons.prems(1) [OF _ this v(4), of "concat (map ber_enc zs)"] IH show ?case by auto
    qed
    then show ?thesis
      using True v(2) BCon.prems(2) find_ber_definite [OF v(1,3), of rest d]
      by (auto simp: der_element_def der_header_def comp_def)
  qed
next
  case (BIndef t zs)
  then show ?case using find_ber_indefinite [of t d] by simp
qed

lemma find_ber_defined: "list_all (ber_ok d 0) xs \<Longrightarrow> d \<le> kMaxDepth \<Longrightarrow> cbs_find_ber (concat (map ber_enc xs)) d \<noteq> None"
proof (induction xs)
  case Nil
  then show ?case by (subst cbs_find_ber.simps) simp
next
  case (Cons x xs)
  then show ?case using find_ber_ber [of d x "concat (map ber_enc xs)"] by auto
qed

section \<open>Implicitly tagged strings\<close>

text \<open>The contents of a constructed string with the chunks \<open>bs\<close>.\<close>

definition chunked :: "asn1_tag \<Rightarrow> byte list list \<Rightarrow> byte list" where
  "chunked inner bs = concat (map (\<lambda>b. der_element (b, inner)) bs)"

abbreviation chunks_ok :: "asn1_tag \<Rightarrow> byte list list \<Rightarrow> bool" where
  "chunks_ok inner \<equiv> list_all (\<lambda>b. der_valid (b, inner))"

lemma get_chunk:
  "der_valid (b, inner) \<Longrightarrow> CBS_get_asn1 (der_element (b, inner) @ rest) inner = (Some b, rest)"
  by (simp add: CBS_get_asn1_exact der_valid_def)

lemma length_chunked: "length (concat bs) \<le> length (chunked inner bs)"
  by (induction bs) (simp_all add: chunked_def der_element_def)

lemma implicit_string_loop_realizes:
  assumes "malloc_ok mal"
  shows "chunks_ok inner bs \<Longrightarrow> rep cbb (Root r) \<Longrightarrow>
    realizes mal (cbb_base cbb) (implicit_string_loop mal inner (chunked inner bs) cbb) (Some (Root (r @ concat bs)))"
proof (induction bs arbitrary: cbb r)
  case Nil
  then show ?case by (subst implicit_string_loop.simps) (simp add: chunked_def realizes_ok)
next
  case (Cons b bs)
  have v: "der_valid (b, inner)" "chunks_ok inner bs" using Cons.prems(1) by simp_all
  have ne: "der_element (b, inner) \<noteq> []" by (simp add: der_element_def der_header_def der_length_def)
  have lb: "length b < SIZE_MOD" using v(1) by (simp add: der_valid_def SIZE_MOD_def)
  have c: "chunked inner (b # bs) = der_element (b, inner) @ chunked inner bs" by (simp add: chunked_def)
  have eq: "implicit_string_loop mal inner (chunked inner (b # bs)) cbb =
      and_then (CBB_add_bytes mal 0 cbb b) (implicit_string_loop mal inner (chunked inner bs))"
    unfolding c using ne by (subst implicit_string_loop.simps) (simp add: get_chunk [OF v(1)])
  have "realizes mal (cbb_base cbb) (CBB_add_bytes mal 0 cbb b) (Some (Root (r @ b)))"
    using CBB_add_bytes_realizes [OF assms Cons.prems(2), of 0 b] lb put_to_same [of "Root r" 0 b] by simp
  from realizes_root_then [OF this Cons.IH [OF v(2)]]
  have "realizes mal (cbb_base cbb) (and_then (CBB_add_bytes mal 0 cbb b) (implicit_string_loop mal inner (chunked inner bs)))
     (Some (Root ((r @ b) @ concat bs)))" by simp
  then show ?case unfolding eq by simp
qed

lemma implicit_string_loop_success:
  "fst (implicit_string_loop mal inner child cbb) \<Longrightarrow> \<exists>bs. chunks_ok inner bs \<and> child = chunked inner bs"
proof (induction mal inner child cbb rule: implicit_string_loop.induct)
  case (1 mal inner child cbb)
  show ?case
  proof (cases "child = []")
    case True
    then show ?thesis by (intro exI [of _ "[]"]) (simp add: chunked_def)
  next
    case False
    have ne: "0 < length child" using False by simp
    from 1(2) ne obtain chunk child' where g: "CBS_get_asn1 child inner = (Some chunk, child')"
      by (subst (asm) implicit_string_loop.simps) (auto split: prod.splits option.splits)
    from 1(2) ne g have l: "fst (implicit_string_loop mal inner child' (snd (CBB_add_bytes mal 0 cbb chunk)))"
      by (subst (asm) implicit_string_loop.simps) (auto simp: and_then_def split: if_splits)
    from 1(1) [OF ne g [symmetric] refl l] obtain bs where bs: "chunks_ok inner bs" "child' = chunked inner bs" by blast
    have "der_valid (chunk, inner)" "child = der_element (chunk, inner) @ child'"
      using g by (simp_all add: CBS_get_asn1_exact der_valid_def)
    then show ?thesis using bs by (intro exI [of _ "chunk # bs"]) (simp add: chunked_def)
  qed
qed

lemma peek_get: "CBS_get_asn1 c t = (Some b, c') \<Longrightarrow> CBS_peek_asn1_tag c t' \<longleftrightarrow> t' = t"
  by (simp add: CBS_get_asn1_exact CBS_peek_asn1_tag_def der_element_def der_header_def parse_tag_bytes)

lemma implicit_string_constructed:
  assumes "malloc_ok mal" and "\<forall>k. mal k \<noteq> None" and "length c < 2 ^ 62"
    and "\<not> CBS_peek_asn1_tag c outer"
    and "CBS_get_asn1 c (outer OR CBS_ASN1_CONSTRUCTED) = (Some (chunked inner bs), c')" and "chunks_ok inner bs"
  shows "\<exists>storage. CBS_get_asn1_implicit_string mal c outer inner = (Some (concat bs, storage), c')"
proof -
  obtain cbb where cbb: "CBB_init mal (length c) = Some cbb" "rep cbb (Root [])" "cb_can_resize (cbb_base cbb)"
    using malloc_total_init [OF assms(1,2), of "length c"] assms(3) by (auto simp: SIZE_MOD_def)
  have "length (chunked inner bs) < 2 ^ 32" using assms(5) by (simp add: CBS_get_asn1_exact)
  then have "length (concat bs) < 2 ^ 62" using length_chunked [of bs inner] by simp
  then have a: "ample mal (cbb_base cbb) (length (concat bs))" using assms(2) cbb(3) by (simp add: ample_def)
  obtain ok r where l: "implicit_string_loop mal inner (chunked inner bs) cbb = (ok, r)" by fastforce
  have "realizes mal (cbb_base cbb) (ok, r) (Some (Root (concat bs)))"
    using implicit_string_loop_realizes [OF assms(1,6) cbb(2)] l by simp
  then have ok: "ok = True" and "rep r (Root (concat bs))" using a by (auto simp: realizes_def split: if_splits)
  then obtain out r' where "CBB_finish mal 0 True r = (Some (out, length (concat bs)), r')"
    "take (length (concat bs)) out = concat bs" using finish_root by blast
  then show ?thesis
    using l ok assms(4,5) cbb(1) by (simp add: CBS_get_asn1_implicit_string_def)
qed

section \<open>Properties\<close>

lemma convert_whole:
  assumes "malloc_ok mal" and "\<forall>k. mal k \<noteq> None" and "list_all (ber_ok 0 0) xs"
  defines "inp \<equiv> concat (map ber_enc xs)" and "D \<equiv> concat (map (\<lambda>x. der_enc (to_der x)) xs)"
  assumes "length inp < 2 ^ 62" and "length D < 2 ^ 62"
  obtains cbb c where "CBB_init mal (length inp) = Some cbb"
    and "cbs_convert_ber mal (Suc (length inp)) inp 0 cbb 0 False 0 = Some (True, [], c)" and "rep c (Root D)"
proof -
  obtain cbb where cbb: "CBB_init mal (length inp) = Some cbb" "rep cbb (Root [])" "cb_can_resize (cbb_base cbb)"
    using malloc_total_init [OF assms(1,2), of "length inp"] assms(6) by (auto simp: SIZE_MOD_def)
  have "converts mal (cbb_base cbb) (cbs_convert_ber mal (Suc (length inp)) inp 0 cbb 0 False 0) (Root D) []"
    using convert_realizes [OF assms(1,3) _ cbb(2), of False "[]" "Suc (length inp)" 0]
    by (simp add: inp_def D_def ending_def left_over_def piece_fun)
  then obtain ok i c where r: "cbs_convert_ber mal (Suc (length inp)) inp 0 cbb 0 False 0 = Some (ok, i, c)"
      "ok \<longrightarrow> i = []" "realizes mal (cbb_base cbb) (ok, c) (Some (Root D))"
    using convertsD by blast
  moreover have "ample mal (cbb_base cbb) (length D)" using assms(2,7) cbb(3) by (simp add: ample_def)
  ultimately have "ok" "rep c (Root D)" by (auto simp: realizes_def split: if_splits)
  then show thesis using that cbb(1) r(1,2) by simp
qed

text \<open>
  (C20) \<open>cbs_find_ber\<close> reports that there is no BER in its input, below \<open>depth\<close> enclosing elements, if
  and only if the input is a sequence of encodings of DER trees: minimal identifier and length octets
  everywhere, no constructed strings, and no more than \<open>kMaxDepth\<close> levels.
\<close>

theorem cbs_find_ber_exact:
  "cbs_find_ber c d = Some False \<longleftrightarrow> d \<le> kMaxDepth \<and> (\<exists>xs. c = concat (map der_enc xs) \<and> list_all (der_ok d) xs)"
  using find_ber_sound find_ber_complete by blast

text \<open>
  (C21) \<open>cbs_convert_ber\<close> terminates on every input and for every allocator: with one unit of fuel more
  than there are bytes of input it has an answer, and what is left of the input is never longer.
\<close>

theorem cbs_convert_ber_terminates:
  "\<exists>ok rest cbb'. cbs_convert_ber mal (Suc (length inp)) inp out cbb string_tag eoc lvl = Some (ok, rest, cbb') \<and>
     length rest \<le> length inp"
proof -
  obtain ok rest c where r: "cbs_convert_ber mal (Suc (length inp)) inp out cbb string_tag eoc lvl = Some (ok, rest, c)"
    using convert_total [OF lessI, of mal inp out cbb string_tag eoc lvl] by auto
  from convert_rest_length [OF r] r show ?thesis by blast
qed

text \<open>
  (C19) \<open>CBS_asn1_ber_to_der\<close> on the encodings of well-formed BER trees, given enough memory. If BER is
  found, the whole input is consumed and the output, in allocated storage, is the DER encoding of the
  same trees (constructed strings joined, lengths definite and minimal), in which \<open>cbs_find_ber\<close>
  finds no BER any more. Otherwise the first element is returned as it is, nothing is allocated, and
  the input is advanced over that element only.
\<close>

theorem CBS_asn1_ber_to_der_correct:
  assumes "malloc_ok mal" and "\<forall>k. mal k \<noteq> None" and "list_all (ber_ok 0 0) (x # xs)"
    and "length (concat (map ber_enc (x # xs))) < 2 ^ 62"
    and "length (concat (map (\<lambda>x. der_enc (to_der x)) (x # xs))) < 2 ^ 62"
  shows "case cbs_find_ber (concat (map ber_enc (x # xs))) 0 of
      Some True \<Rightarrow> \<exists>storage.
        CBS_asn1_ber_to_der mal (concat (map ber_enc (x # xs))) =
          (Some (concat (map (\<lambda>x. der_enc (to_der x)) (x # xs)), Some storage), []) \<and>
        cbs_find_ber (concat (map (\<lambda>x. der_enc (to_der x)) (x # xs))) 0 = Some False
    | Some False \<Rightarrow>
        CBS_asn1_ber_to_der mal (concat (map ber_enc (x # xs))) =
          (Some (der_enc (to_der x), None), concat (map ber_enc xs))
    | None \<Rightarrow> False"
proof -
  let ?in = "concat (map ber_enc (x # xs))" and ?D = "concat (map (\<lambda>x. der_enc (to_der x)) (x # xs))"
  have len: "length ?in < 2 ^ 62" using assms(4) .
  have "cbs_find_ber ?in 0 \<noteq> None" by (rule find_ber_defined [OF assms(3)]) simp
  then obtain f where f: "cbs_find_ber ?in 0 = Some f" by blast
  show ?thesis
  proof (cases f)
    case True
    obtain cbb c where c: "CBB_init mal (length ?in) = Some cbb"
      "cbs_convert_ber mal (Suc (length ?in)) ?in 0 cbb 0 False 0 = Some (True, [], c)" "rep c (Root ?D)"
      using convert_whole [OF assms(1-3) len assms(5)] .
    obtain out c' where fin: "CBB_finish mal 0 True c = (Some (out, length ?D), c')" "take (length ?D) out = ?D"
      using finish_root [OF c(3)] .
    have "list_all (der_ok 0) (map to_der (x # xs))" using assms(3) to_der_ok by (auto simp: list_all_iff)
    from find_ber_complete [OF this] have "cbs_find_ber ?D 0 = Some False" by (simp add: comp_def)
    moreover have "CBS_asn1_ber_to_der mal ?in = (Some (?D, Some out), [])"
      using True f c(1,2) fin by (simp only: CBS_asn1_ber_to_der_def option.case bool.case prod.case)
    ultimately show ?thesis using f True by (simp only: option.case bool.case) blast
  next
    case False
    have ok: "ber_ok 0 0 x" using assms(3) by simp
    from find_ber_ber [OF ok, of "concat (map ber_enc xs)"] f False have e: "ber_enc x = der_enc (to_der x)" by auto
    obtain t b where d: "der_enc (to_der x) = der_element (b, t)" "valid_tag t" "length b < 2 ^ 32"
      using to_der_ok [OF ok] by (cases "to_der x") auto
    have "CBS_asn1_ber_to_der mal ?in = (Some (der_enc (to_der x), None), concat (map ber_enc xs))"
      using f False CBS_get_any_asn1_element_der [of t b] d e
      by (simp add: CBS_asn1_ber_to_der_def der_parsed_def)
    then show ?thesis using f False by (simp only: option.case bool.case)
  qed
qed

text \<open>
  A witness: a SEQUENCE of indefinite length with an INTEGER and an OCTET STRING in two pieces.
\<close>

definition ber_demo :: ber where
  "ber_demo = BIndef 0x20000010
     [BPrim 2 [1] [5], BCon 0x20000004 [6] [BPrim 4 [1] [0xaa], BPrim 4 [1] [0xbb]]]"

lemma ber_length_short: "n < 128 \<Longrightarrow> ber_length n [of_nat n]"
  by (simp add: ber_length_def)

lemma ber_demo_ok: "ber_ok 0 0 ber_demo"
proof -
  have l: "ber_length 1 [1]" "ber_length (Suc 0) [1]" "ber_length 6 [6]"
    using ber_length_short [of 1] ber_length_short [of 6] by simp_all
  have v: "valid_tag 0x20000010" "valid_tag 2" "valid_tag 0x20000004" "valid_tag 4"
    by code_simp+
  have c: "constructed 0x20000010" "constructed 0x20000004" "\<not> constructed 2" "\<not> constructed 4" by code_simp+
  have ct: "child_tag 0 0x20000010 = 0" "child_tag 0 0x20000004 = 4" "primitive_tag 4 = 4" by code_simp+
  have body: "length (concat (map ber_enc [BPrim 4 [1] [0xaa], BPrim 4 [1] [0xbb]])) = 6"
    "concat (map str_bytes [BPrim 4 [1] [0xaa], BPrim 4 [1] [0xbb]]) = [0xaa, 0xbb]" by code_simp+
  have f: "fits_in 0 2 [5]" "fits_in 4 4 [0xaa]" "fits_in 4 4 [0xbb]" "fits_in 0 0x20000004 [0xaa, 0xbb]"
    using ct(3) by (simp_all add: fits_in_def)
  have "fits_in 0 0x20000010 (concat (map (piece 0) [BPrim 2 [1] [5], BCon 0x20000004 [6] [BPrim 4 [1] [0xaa], BPrim 4 [1] [0xbb]]]))"
  proof -
    have "concat (map (piece 0) [BPrim 2 [1] [5], BCon 0x20000004 [6] [BPrim 4 [1] [0xaa], BPrim 4 [1] [0xbb]]])
       = [2, 1, 5, 4, 2, 0xaa, 0xbb]" by code_simp
    then show ?thesis by (simp add: fits_in_def)
  qed
  then show ?thesis
    using l v c f by (simp add: ber_demo_def ct piece_fun(1) kMaxDepth_def body del: list.map concat.simps(2))
qed

theorem CBS_asn1_ber_to_der_correct_witness:
  "\<exists>storage. CBS_asn1_ber_to_der zero_malloc [0x30, 0x80, 2, 1, 5, 0x24, 6, 4, 1, 0xaa, 4, 1, 0xbb, 0, 0] =
     (Some ([0x30, 7, 2, 1, 5, 4, 2, 0xaa, 0xbb], Some storage), [])"
proof -
  have e: "concat (map ber_enc [ber_demo]) = [0x30, 0x80, 2, 1, 5, 0x24, 6, 4, 1, 0xaa, 4, 1, 0xbb, 0, 0]"
    by code_simp
  have d: "concat (map (\<lambda>x. der_enc (to_der x)) [ber_demo]) = [0x30, 7, 2, 1, 5, 4, 2, 0xaa, 0xbb]" by code_simp
  have f: "cbs_find_ber [0x30, 0x80, 2, 1, 5, 0x24, 6, 4, 1, 0xaa, 4, 1, 0xbb, 0, 0] 0 = Some True"
  proof -
    have "valid_tag 0x20000010" "constructed 0x20000010" by code_simp+
    moreover have "tag_bytes 0x20000010 = [0x30]" by code_simp
    ultimately show ?thesis using find_ber_indefinite [where t = "0x20000010" and d = 0 and rest = "[2, 1, 5, 0x24, 6, 4, 1, 0xaa, 4, 1, 0xbb, 0, 0]"] by simp
  qed
  have "list_all (ber_ok 0 0) [ber_demo]" using ber_demo_ok by simp
  from CBS_asn1_ber_to_der_correct [OF zero_malloc_total this, unfolded e d]
  show ?thesis by (simp add: f)
qed

text \<open>
  (C22) \<open>CBS_get_asn1_implicit_string\<close>, given enough memory, returns \<open>data\<close> if and only if the input
  starts with a primitive element with the outer tag and contents \<open>data\<close>, or with a constructed one
  whose contents are a sequence of elements with the inner tag whose contents, joined, are \<open>data\<close>.
\<close>

theorem CBS_get_asn1_implicit_string_exact:
  assumes "malloc_ok mal" and "\<forall>k. mal k \<noteq> None" and "length c < 2 ^ 62" and "outer AND CBS_ASN1_CONSTRUCTED = 0"
  shows "(\<exists>storage. CBS_get_asn1_implicit_string mal c outer inner = (Some (data, storage), c')) \<longleftrightarrow>
    CBS_get_asn1 c outer = (Some data, c') \<or>
    (\<exists>bs. chunks_ok inner bs \<and> data = concat bs \<and>
       CBS_get_asn1 c (outer OR CBS_ASN1_CONSTRUCTED) = (Some (chunked inner bs), c'))"
    (is "?L \<longleftrightarrow> ?prim \<or> ?con")
proof -
  have c: "outer OR CBS_ASN1_CONSTRUCTED \<noteq> outer"
  proof
    assume "outer OR CBS_ASN1_CONSTRUCTED = outer"
    then have "(outer OR CBS_ASN1_CONSTRUCTED) AND CBS_ASN1_CONSTRUCTED = 0" using assms(4) by simp
    then have "CBS_ASN1_CONSTRUCTED = 0" by (simp add: bit_eq_iff bit_simps)
    moreover have "CBS_ASN1_CONSTRUCTED \<noteq> 0" by code_simp
    ultimately show False by simp
  qed
  show ?thesis
  proof (cases "CBS_peek_asn1_tag c outer")
    case True
    then have "\<not> ?con" using peek_get [of c "outer OR CBS_ASN1_CONSTRUCTED" _ c' outer] c by auto
    then show ?thesis using True by (auto simp: CBS_get_asn1_implicit_string_def split: prod.splits option.splits)
  next
    case False
    then have "\<not> ?prim" using peek_get [of c outer data c' outer] by auto
    moreover have "?con" if L: ?L
    proof -
      obtain cbb child result where g: "CBS_get_asn1 c (outer OR CBS_ASN1_CONSTRUCTED) = (Some child, c')"
        and l: "implicit_string_loop mal inner child cbb = (True, result)"
        using L False by (auto simp: CBS_get_asn1_implicit_string_def split: prod.splits option.splits bool.splits)
      obtain bs where bs: "chunks_ok inner bs" "child = chunked inner bs"
        using implicit_string_loop_success [of mal inner child cbb] l by auto
      from implicit_string_constructed [OF assms(1-3) False g [unfolded bs(2)] bs(1)] L
      have "data = concat bs" by auto
      then show ?thesis using bs g by blast
    qed
    moreover have "?L" if "?con" using implicit_string_constructed [OF assms(1-3) False] that by blast
    ultimately show ?thesis by blast
  qed
qed

theorem CBS_get_asn1_implicit_string_exact_witness:
  "\<exists>storage. CBS_get_asn1_implicit_string zero_malloc [0xa0, 6, 4, 1, 0xaa, 4, 1, 0xbb, 9] 0x80000000 4 =
     (Some ([0xaa, 0xbb], storage), [9])"
proof -
  have g: "CBS_get_asn1 [0xa0, 6, 4, 1, 0xaa, 4, 1, 0xbb, 9] (0x80000000 OR CBS_ASN1_CONSTRUCTED) =
      (Some (chunked 4 [[0xaa], [0xbb]]), [9])" by code_simp
  have v: "valid_tag 4" by code_simp
  have "chunks_ok 4 [[0xaa], [0xbb]] \<and> [0xaa, 0xbb] = concat [[0xaa], [0xbb :: byte]]" using v by (simp add: der_valid_def)
  with g have "\<exists>bs. chunks_ok 4 bs \<and> [0xaa, 0xbb] = concat bs \<and>
      CBS_get_asn1 [0xa0, 6, 4, 1, 0xaa, 4, 1, 0xbb, 9] (0x80000000 OR CBS_ASN1_CONSTRUCTED) = (Some (chunked 4 bs), [9])" by blast
  moreover have "0x80000000 AND CBS_ASN1_CONSTRUCTED = 0" by code_simp
  ultimately show ?thesis
    using CBS_get_asn1_implicit_string_exact [OF zero_malloc_total, of "[0xa0, 6, 4, 1, 0xaa, 4, 1, 0xbb, 9]" "0x80000000" 4 "[0xaa, 0xbb]" "[9]"] by simp
qed

text \<open>
  The BER element parser is exact: it accepts a tag other than the reserved one followed by length
  octets as BER allows them (short, or one to four octets, minimal or not) and that many bytes, or, for
  a constructed tag, the indefinite length, and nothing else; it reports BER exactly if the length
  octets are not the minimal ones.
\<close>

theorem CBS_get_any_ber_asn1_element_exact:
  "CBS_get_any_ber_asn1_element c = (Some e, c') \<longleftrightarrow>
     (\<exists>tag lb body. valid_tag tag \<and> ber_length (length body) lb \<and> c = tag_bytes tag @ lb @ body @ c' \<and>
        e = \<lparr>el_out = tag_bytes tag @ lb @ body, el_tag = tag, el_header_len = length (tag_bytes tag @ lb),
             el_ber_found = (lb \<noteq> der_length (length body)), el_indefinite = False\<rparr>) \<or>
     (\<exists>tag. valid_tag tag \<and> constructed tag \<and> c = tag_bytes tag @ 0x80 # c' \<and>
        e = \<lparr>el_out = tag_bytes tag @ [0x80], el_tag = tag, el_header_len = length (tag_bytes tag) + 1,
             el_ber_found = True, el_indefinite = True\<rparr>)"
    (is "?L \<longleftrightarrow> ?R")
proof
  assume ?L
  from get_ber_Some [OF this] show ?R unfolding ber_definite_def ber_indefinite_def .
next
  assume ?R
  then show ?L
    by (elim disjE exE conjE)
      (hypsubst, (rule get_ber_definite [unfolded ber_definite_def] | rule get_ber_indefinite [unfolded ber_indefinite_def]), assumption, assumption)+
qed

end
