(* ===== verification/Pb_Encode.thy ===== *)
theory Pb_Encode
  imports Mem
begin

text \<open>
  nanopb's output streams and the writers of the wire format: \<open>pb.h\<close>, \<open>pb_encode.h\<close> and the helper
  functions of \<open>pb_encode.c\<close>, as configured by the project (\<open>PB_FIELD_32BIT\<close>, 64 bit integers, error
  messages on). An operation on a stream returns its return value and the stream.

  A callback is a function on the stream's \<open>state\<close> (the field of the stream that callbacks own): it
  gets the state and the bytes to write, and returns its return value and the new state.
\<close>

section \<open>Field descriptors\<close>

type_synonym pb_byte_t = byte
type_synonym pb_type_t = byte
type_synonym pb_size_t = u32

definition PB_SIZE_MAX :: pb_size_t where "PB_SIZE_MAX = - 1"

definition PB_LTYPE_BOOL :: pb_type_t where "PB_LTYPE_BOOL = 0"
definition PB_LTYPE_VARINT :: pb_type_t where "PB_LTYPE_VARINT = 1"
definition PB_LTYPE_UVARINT :: pb_type_t where "PB_LTYPE_UVARINT = 2"
definition PB_LTYPE_SVARINT :: pb_type_t where "PB_LTYPE_SVARINT = 3"
definition PB_LTYPE_FIXED32 :: pb_type_t where "PB_LTYPE_FIXED32 = 4"
definition PB_LTYPE_FIXED64 :: pb_type_t where "PB_LTYPE_FIXED64 = 5"
definition PB_LTYPE_LAST_PACKABLE :: pb_type_t where "PB_LTYPE_LAST_PACKABLE = 5"
definition PB_LTYPE_BYTES :: pb_type_t where "PB_LTYPE_BYTES = 6"
definition PB_LTYPE_STRING :: pb_type_t where "PB_LTYPE_STRING = 7"
definition PB_LTYPE_SUBMESSAGE :: pb_type_t where "PB_LTYPE_SUBMESSAGE = 8"
definition PB_LTYPE_EXTENSION :: pb_type_t where "PB_LTYPE_EXTENSION = 9"
definition PB_LTYPE_FIXED_LENGTH_BYTES :: pb_type_t where "PB_LTYPE_FIXED_LENGTH_BYTES = 0xa"
definition PB_LTYPE_MASK :: pb_type_t where "PB_LTYPE_MASK = 0xf"

definition PB_HTYPE_REQUIRED :: pb_type_t where "PB_HTYPE_REQUIRED = 0"
definition PB_HTYPE_OPTIONAL :: pb_type_t where "PB_HTYPE_OPTIONAL = 0x10"
definition PB_HTYPE_REPEATED :: pb_type_t where "PB_HTYPE_REPEATED = 0x20"
definition PB_HTYPE_ONEOF :: pb_type_t where "PB_HTYPE_ONEOF = 0x30"
definition PB_HTYPE_MASK :: pb_type_t where "PB_HTYPE_MASK = 0x30"

definition PB_ATYPE_STATIC :: pb_type_t where "PB_ATYPE_STATIC = 0"
definition PB_ATYPE_POINTER :: pb_type_t where "PB_ATYPE_POINTER = 0x80"
definition PB_ATYPE_CALLBACK :: pb_type_t where "PB_ATYPE_CALLBACK = 0x40"
definition PB_ATYPE_MASK :: pb_type_t where "PB_ATYPE_MASK = 0xc0"

definition PB_ATYPE :: "pb_type_t \<Rightarrow> pb_type_t" where "PB_ATYPE x = x AND PB_ATYPE_MASK"
definition PB_HTYPE :: "pb_type_t \<Rightarrow> pb_type_t" where "PB_HTYPE x = x AND PB_HTYPE_MASK"
definition PB_LTYPE :: "pb_type_t \<Rightarrow> pb_type_t" where "PB_LTYPE x = x AND PB_LTYPE_MASK"

text \<open>
  \<open>ptr\<close> of a field: NULL, the descriptors of a submessage (which may be cyclic, so they are named by
  their index in a table of descriptor arrays), or the bytes of a default value.
\<close>

datatype pb_field_ptr = No_ptr | Submsg_fields nat | Default_value "byte list"

record pb_field_t =
  field_tag :: pb_size_t
  field_type :: pb_type_t
  data_offset :: pb_size_t
  size_offset :: "32 word"
  data_size :: pb_size_t
  array_size :: pb_size_t
  field_ptr :: pb_field_ptr

type_synonym pb_wire_type_t = u32

definition PB_WT_VARINT :: pb_wire_type_t where "PB_WT_VARINT = 0"
definition PB_WT_64BIT :: pb_wire_type_t where "PB_WT_64BIT = 1"
definition PB_WT_STRING :: pb_wire_type_t where "PB_WT_STRING = 2"
definition PB_WT_32BIT :: pb_wire_type_t where "PB_WT_32BIT = 5"

section \<open>Output streams\<close>

record 's pb_ostream_t =
  os_callback :: "('s \<Rightarrow> byte list \<Rightarrow> bool \<times> 's) option"
  os_state :: 's
  max_size :: nat
  bytes_written :: nat
  os_errmsg :: "string option"

text \<open>\<open>PB_SET_ERROR\<close> keeps the first message; \<open>PB_RETURN_ERROR\<close> of an output stream.\<close>

definition PB_SET_ERROR :: "string option \<Rightarrow> string \<Rightarrow> string option" where
  "PB_SET_ERROR errmsg msg = (case errmsg of None \<Rightarrow> Some msg | Some m \<Rightarrow> Some m)"

definition os_return_error :: "'s pb_ostream_t \<Rightarrow> string \<Rightarrow> bool \<times> 's pb_ostream_t" where
  "os_return_error stream msg = (False, stream\<lparr>os_errmsg := PB_SET_ERROR (os_errmsg stream) msg\<rparr>)"

text \<open>The state of a stream to a buffer is a pointer: a memory and an offset in it.\<close>

definition buf_write :: "byte list \<times> nat \<Rightarrow> byte list \<Rightarrow> bool \<times> (byte list \<times> nat)" where
  "buf_write state buf = (case state of (mem, dest) \<Rightarrow> (True, (mem_write mem dest buf, dest + length buf)))"

definition pb_ostream_from_buffer :: "byte list \<Rightarrow> nat \<Rightarrow> (byte list \<times> nat) pb_ostream_t" where
  "pb_ostream_from_buffer buf bufsize =
     \<lparr>os_callback = Some buf_write, os_state = (buf, 0), max_size = bufsize, bytes_written = 0, os_errmsg = None\<rparr>"

text \<open>
  A stream that only counts. Its state is NULL in C and is never read; the argument stands for it.
\<close>

definition PB_OSTREAM_SIZING :: "'s \<Rightarrow> 's pb_ostream_t" where
  "PB_OSTREAM_SIZING null =
     \<lparr>os_callback = None, os_state = null, max_size = 0, bytes_written = 0, os_errmsg = None\<rparr>"

text \<open>\<open>count\<close> bytes are written; \<open>buf\<close> may be NULL (the empty list) for a stream that only counts.\<close>

definition pb_write :: "'s pb_ostream_t \<Rightarrow> byte list \<Rightarrow> nat \<Rightarrow> bool \<times> 's pb_ostream_t" where
  "pb_write stream buf count =
     (let done = (\<lambda>stream. (True, stream\<lparr>bytes_written := size_add (bytes_written stream) count\<rparr>))
      in case (if count > 0 then os_callback stream else None) of
           None \<Rightarrow> done stream
         | Some callback \<Rightarrow>
             if size_add (bytes_written stream) count < bytes_written stream \<or>
                size_add (bytes_written stream) count > max_size stream
             then os_return_error stream ''stream full''
             else (case callback (os_state stream) (take count buf) of
                     (ok, state) \<Rightarrow>
                       let stream = stream\<lparr>os_state := state\<rparr>
                       in if \<not> ok then os_return_error stream ''io error'' else done stream))"

section \<open>Writers\<close>

text \<open>\<open>pb_encode_varint\<close>: what the loop leaves in \<open>buffer\<close>.\<close>

function varint_buffer :: "u64 \<Rightarrow> byte list" where
  "varint_buffer value =
     (if value \<noteq> 0 then ucast ((value AND 0x7F) OR 0x80) # varint_buffer (drop_bit 7 value) else [])"
  by pat_completeness auto
termination
proof (relation "measure unat")
  fix v :: u64 assume "v \<noteq> 0"
  then have "0 < unat v" by (simp add: unat_gt_0)
  then show "(drop_bit 7 v, v) \<in> measure unat" by (simp add: unat_drop_bit)
qed simp

declare varint_buffer.simps [simp del]

definition pb_encode_varint :: "'s pb_ostream_t \<Rightarrow> u64 \<Rightarrow> bool \<times> 's pb_ostream_t" where
  "pb_encode_varint stream value =
     (if value \<le> 0x7F then pb_write stream [ucast value] 1
      else let buffer = varint_buffer value; i = length buffer;
               buffer = buffer[i - 1 := (buffer ! (i - 1)) AND 0x7F]
           in pb_write stream buffer i)"

definition pb_encode_svarint :: "'s pb_ostream_t \<Rightarrow> u64 \<Rightarrow> bool \<times> 's pb_ostream_t" where
  "pb_encode_svarint stream value =
     (let zigzagged = (if sint value < 0 then NOT (push_bit 1 value) else push_bit 1 value)
      in pb_encode_varint stream zigzagged)"

definition pb_encode_fixed32 :: "'s pb_ostream_t \<Rightarrow> u32 \<Rightarrow> bool \<times> 's pb_ostream_t" where
  "pb_encode_fixed32 stream val =
     pb_write stream
       [ucast (val AND 0xFF), ucast (drop_bit 8 val AND 0xFF), ucast (drop_bit 16 val AND 0xFF),
        ucast (drop_bit 24 val AND 0xFF)] 4"

definition pb_encode_fixed64 :: "'s pb_ostream_t \<Rightarrow> u64 \<Rightarrow> bool \<times> 's pb_ostream_t" where
  "pb_encode_fixed64 stream val =
     pb_write stream
       [ucast (val AND 0xFF), ucast (drop_bit 8 val AND 0xFF), ucast (drop_bit 16 val AND 0xFF),
        ucast (drop_bit 24 val AND 0xFF), ucast (drop_bit 32 val AND 0xFF), ucast (drop_bit 40 val AND 0xFF),
        ucast (drop_bit 48 val AND 0xFF), ucast (drop_bit 56 val AND 0xFF)] 8"

definition pb_encode_tag :: "'s pb_ostream_t \<Rightarrow> pb_wire_type_t \<Rightarrow> u32 \<Rightarrow> bool \<times> 's pb_ostream_t" where
  "pb_encode_tag stream wiretype field_number =
     pb_encode_varint stream (push_bit 3 (ucast field_number) OR ucast wiretype)"

definition pb_encode_tag_for_field :: "'s pb_ostream_t \<Rightarrow> pb_field_t \<Rightarrow> bool \<times> 's pb_ostream_t" where
  "pb_encode_tag_for_field stream field =
     (let ltype = PB_LTYPE (field_type field)
      in if ltype \<in> {PB_LTYPE_BOOL, PB_LTYPE_VARINT, PB_LTYPE_UVARINT, PB_LTYPE_SVARINT}
         then pb_encode_tag stream PB_WT_VARINT (field_tag field)
         else if ltype = PB_LTYPE_FIXED32 then pb_encode_tag stream PB_WT_32BIT (field_tag field)
         else if ltype = PB_LTYPE_FIXED64 then pb_encode_tag stream PB_WT_64BIT (field_tag field)
         else if ltype \<in> {PB_LTYPE_BYTES, PB_LTYPE_STRING, PB_LTYPE_SUBMESSAGE, PB_LTYPE_FIXED_LENGTH_BYTES}
         then pb_encode_tag stream PB_WT_STRING (field_tag field)
         else os_return_error stream ''invalid field type'')"

definition pb_encode_string :: "'s pb_ostream_t \<Rightarrow> byte list \<Rightarrow> nat \<Rightarrow> bool \<times> 's pb_ostream_t" where
  "pb_encode_string stream buffer sz =
     and_then (pb_encode_varint stream (of_nat sz)) (\<lambda>stream. pb_write stream buffer sz)"

end
