(* ===== verification/Pb_Varint.thy ===== *)
theory Pb_Varint
  imports Pb_Encode
begin

text \<open>
  Varints, little-endian base 128 numbers, and the loop of \<open>pb_encode_varint\<close> that writes them.
\<close>

fun leb :: "nat \<Rightarrow> byte list" where
  "leb n = (if n < 128 then [of_nat n] else of_nat (128 + n mod 128) # leb (n div 128))"

declare leb.simps [simp del]

fun leb_val :: "byte list \<Rightarrow> nat" where
  "leb_val [] = 0"
| "leb_val (b # bs) = unat b mod 128 + 128 * leb_val bs"

lemma unat_byte_of_nat: "n < 256 \<Longrightarrow> unat (of_nat n :: byte) = n"
  by (simp add: unat_of_nat)

lemma leb_val_leb: "leb_val (leb n) = n"
proof (induction n rule: leb.induct)
  case (1 n)
  show ?case
  proof (cases "n < 128")
    case True
    then show ?thesis by (subst leb.simps) (simp add: unat_byte_of_nat)
  next
    case False
    have "n mod 128 < 128" by simp
    then have "unat (of_nat (128 + n mod 128) :: byte) = 128 + n mod 128" by (intro unat_byte_of_nat) simp
    then show ?thesis using False 1 by (subst leb.simps) simp
  qed
qed

lemma leb_shape: "\<exists>bs b. leb n = bs @ [b] \<and> list_all (\<lambda>b. 128 \<le> unat b) bs \<and> unat b < 128"
proof (induction n rule: leb.induct)
  case (1 n)
  show ?case
  proof (cases "n < 128")
    case True
    then show ?thesis by (subst leb.simps) (simp add: unat_byte_of_nat)
  next
    case False
    have "n mod 128 < 128" by simp
    then have u: "unat (of_nat (128 + n mod 128) :: byte) = 128 + n mod 128" by (intro unat_byte_of_nat) simp
    from 1 [OF False] obtain bs b where "leb (n div 128) = bs @ [b]" "list_all (\<lambda>b. 128 \<le> unat b) bs" "unat b < 128"
      by blast
    then show ?thesis using False u
      by (intro exI [of _ "of_nat (128 + n mod 128) # bs"] exI [of _ b]) (subst leb.simps, simp)
  qed
qed

lemma length_leb: "n < 128 ^ Suc k \<Longrightarrow> length (leb n) \<le> Suc k"
proof (induction k arbitrary: n)
  case 0
  then show ?case by (subst leb.simps) simp
next
  case (Suc k)
  then have "n div 128 < 128 ^ Suc k" by (simp add: less_mult_imp_div_less mult.commute)
  from Suc.IH [OF this] show ?case by (subst leb.simps) simp
qed

lemma length_leb_u64: "length (leb (unat (v :: u64))) \<le> 10"
  using length_leb [of "unat v" 9] unat_u64_less [of v] by simp

text \<open>The writer.\<close>

lemma varint_byte: "ucast ((v AND 0x7F) OR 0x80 :: u64) = (of_nat (128 + unat v mod 128) :: byte)"
proof -
  have m: "unat (v AND 0x7F) = unat v mod 128" using unat_and_mask [of v 7] by (simp add: mask_eq_exp_minus_1)
  have "0x80 OR (v AND 0x7F) = 0x80 + (v AND 0x7F)"
    by (rule word_or_add_disjoint [of _ 7]) (simp_all add: m)
  then have "(v AND 0x7F) OR 0x80 = 0x80 + (v AND 0x7F)" by (simp add: or.commute)
  moreover have "unat (0x80 + (v AND 0x7F)) = 128 + unat v mod 128"
    by (simp add: unat_word_ariths m)
  ultimately have u: "unat ((v AND 0x7F) OR 0x80) = 128 + unat v mod 128" by simp
  have "unat v mod 128 < 128" by simp
  then have "unat (of_nat (128 + unat v mod 128) :: byte) = 128 + unat v mod 128" by (intro unat_byte_of_nat) simp
  then show ?thesis
    by (simp add: word_unat_eq_iff unat_ucast_down u del: of_nat_add)
qed

lemma last_update_Cons:
  "w \<noteq> [] \<Longrightarrow> (x # w)[length w := (x # w) ! length w AND y] = x # w[length w - 1 := w ! (length w - 1) AND y]"
  by (cases w) auto

lemma varint_buffer_leb:
  "v \<noteq> 0 \<Longrightarrow> varint_buffer v \<noteq> [] \<and>
    (varint_buffer v)[length (varint_buffer v) - 1 := varint_buffer v ! (length (varint_buffer v) - 1) AND 0x7F] = leb (unat v)"
proof (induction v rule: varint_buffer.induct)
  case (1 v)
  have eq: "varint_buffer v = of_nat (128 + unat v mod 128) # varint_buffer (drop_bit 7 v)"
    using 1(2) by (subst varint_buffer.simps) (simp add: varint_byte)
  have d: "unat (drop_bit 7 v) = unat v div 128" by (simp add: unat_drop_bit)
  show ?case
  proof (cases "drop_bit 7 v = 0")
    case True
    then have v: "unat v < 128" by (simp add: drop_bit_zero_iff)
    have "varint_buffer (drop_bit 7 v) = []" unfolding True by (subst varint_buffer.simps) simp
    moreover have "of_nat (128 + unat v) AND 0x7F = (of_nat (unat v) :: byte)"
    proof -
      have "unat (of_nat (128 + unat v) :: byte) = 128 + unat v" "unat (of_nat (unat v) :: byte) = unat v"
        using v by (intro unat_byte_of_nat; simp)+
      then show ?thesis using v by (simp add: word_unat_eq_iff byte_and_7f del: of_nat_add of_nat_unat)
    qed
    ultimately show ?thesis using v eq by (subst leb.simps) simp
  next
    case False
    then have "\<not> unat v < 128" by (simp add: drop_bit_zero_iff)
    define w where "w = varint_buffer (drop_bit 7 v)"
    have w: "w \<noteq> []" "w[length w - 1 := w ! (length w - 1) AND 0x7F] = leb (unat v div 128)"
      using 1(1) [OF 1(2) False] d by (simp_all add: w_def)
    have "leb (unat v) = of_nat (128 + unat v mod 128) # leb (unat v div 128)"
      using \<open>\<not> unat v < 128\<close> by (subst leb.simps) simp
    then show ?thesis
      using last_update_Cons [OF w(1), of "of_nat (128 + unat v mod 128)" "0x7F"] w(2)
      unfolding eq w_def [symmetric] by (simp only: length_Cons diff_Suc_1 list.distinct simp_thms)
  qed
qed

lemma pb_encode_varint_write: "pb_encode_varint stream v = pb_write stream (leb (unat v)) (length (leb (unat v)))"
proof (cases "v \<le> 0x7F")
  case True
  then have "unat v < 128" by (simp add: word_le_nat_alt)
  then have "leb (unat v) = [ucast v]" by (subst leb.simps) (simp add: word_unat_eq_iff unat_byte_of_nat unat_ucast_down)
  then show ?thesis using True by (simp add: pb_encode_varint_def)
next
  case False
  then have "v \<noteq> 0" by auto
  from varint_buffer_leb [OF this] have "length (leb (unat v)) = length (varint_buffer v)" by (metis length_list_update)
  then show ?thesis using False varint_buffer_leb [OF \<open>v \<noteq> 0\<close>] by (simp add: pb_encode_varint_def Let_def)
qed

end
