(* ===== verification/Pb_Emit.thy ===== *)
theory Pb_Emit
  imports Pb_Varint
begin

text \<open>
  What the writers of nanopb do to the two kinds of streams of the library: a stream that only counts,
  and a stream to a buffer. A writer \<open>emits\<close> a byte string if it counts its length on the former, and on
  the latter appends it, or, where it does not fit, fails without leaving the room of the stream.
\<close>

type_synonym buf_ostream = "(byte list \<times> nat) pb_ostream_t"

definition sizing_stream :: "buf_ostream \<Rightarrow> bool" where
  "sizing_stream s \<longleftrightarrow> os_callback s = None \<and> bytes_written s < SIZE_MOD"

definition buffer_stream :: "buf_ostream \<Rightarrow> bool" where
  "buffer_stream s \<longleftrightarrow> os_callback s = Some buf_write \<and> bytes_written s \<le> max_size s \<and> max_size s < SIZE_MOD \<and>
     snd (os_state s) + (max_size s - bytes_written s) \<le> length (fst (os_state s))"

definition counted :: "buf_ostream \<Rightarrow> byte list \<Rightarrow> buf_ostream" where
  "counted s bs = s\<lparr>bytes_written := size_add (bytes_written s) (length bs)\<rparr>"

definition appended :: "buf_ostream \<Rightarrow> byte list \<Rightarrow> buf_ostream" where
  "appended s bs = s\<lparr>os_state := (mem_write (fst (os_state s)) (snd (os_state s)) bs, snd (os_state s) + length bs),
     bytes_written := bytes_written s + length bs\<rparr>"

text \<open>Outside the room that was left in the stream \<open>s\<close> the memory is as it was.\<close>

definition within_room :: "buf_ostream \<Rightarrow> buf_ostream \<Rightarrow> bool" where
  "within_room s s' \<longleftrightarrow>
     length (fst (os_state s')) = length (fst (os_state s)) \<and>
     take (snd (os_state s)) (fst (os_state s')) = take (snd (os_state s)) (fst (os_state s)) \<and>
     drop (snd (os_state s) + (max_size s - bytes_written s)) (fst (os_state s')) =
       drop (snd (os_state s) + (max_size s - bytes_written s)) (fst (os_state s))"

definition emits :: "(buf_ostream \<Rightarrow> bool \<times> buf_ostream) \<Rightarrow> byte list \<Rightarrow> bool" where
  "emits f bs \<longleftrightarrow>
     (\<forall>s. sizing_stream s \<longrightarrow> f s = (True, counted s bs)) \<and>
     (\<forall>s. buffer_stream s \<longrightarrow>
        (if bytes_written s + length bs \<le> max_size s then f s = (True, appended s bs)
         else \<exists>s'. f s = (False, s') \<and> os_errmsg s' \<noteq> None \<and> within_room s s'))"

lemma emitsD:
  assumes "emits f bs"
  shows "sizing_stream s \<Longrightarrow> f s = (True, counted s bs)"
    and "buffer_stream s \<Longrightarrow> bytes_written s + length bs \<le> max_size s \<Longrightarrow> f s = (True, appended s bs)"
    and "buffer_stream s \<Longrightarrow> \<not> bytes_written s + length bs \<le> max_size s \<Longrightarrow>
      \<exists>s'. f s = (False, s') \<and> os_errmsg s' \<noteq> None \<and> within_room s s'"
  using assms unfolding emits_def by metis+

lemma counted_simps [simp]:
  "sizing_stream s \<Longrightarrow> sizing_stream (counted s bs)"
  "bytes_written (counted s bs) = size_add (bytes_written s) (length bs)"
  "counted (counted s a) b = counted s (a @ b)" "sizing_stream s \<Longrightarrow> counted s [] = s"
  by (simp_all add: counted_def sizing_stream_def size_add_def mod_add_left_eq add.assoc SIZE_MOD_def)

lemma appended_appended:
  assumes "buffer_stream s" and "bytes_written s + length (a @ b) \<le> max_size s"
  shows "appended (appended s a) b = appended s (a @ b)"
proof -
  obtain mem dest where st: "os_state s = (mem, dest)" by fastforce
  have "dest + (max_size s - bytes_written s) \<le> length mem" "length a + length b \<le> max_size s - bytes_written s"
    using assms by (auto simp: buffer_stream_def st)
  then have "dest + length a + length b \<le> length mem" by linarith
  then show ?thesis by (simp add: appended_def st mem_write_def ac_simps)
qed

lemma buffer_stream_appended:
  assumes "buffer_stream s" and "bytes_written s + length a \<le> max_size s"
  shows "buffer_stream (appended s a)" "max_size (appended s a) = max_size s"
    "bytes_written (appended s a) = bytes_written s + length a" "os_callback (appended s a) = os_callback s"
  using assms by (auto simp: buffer_stream_def appended_def)

lemma within_room_appended:
  assumes "buffer_stream s" and "bytes_written s + length a \<le> max_size s" and "within_room (appended s a) s'"
  shows "within_room s s'"
proof -
  obtain mem dest where st: "os_state s = (mem, dest)" by fastforce
  obtain mem' dest' where st': "os_state s' = (mem', dest')" by fastforce
  let ?m = "mem_write mem dest a" and ?e = "dest + (max_size s - bytes_written s)"
  have d: "dest + length a \<le> ?e" "?e \<le> length mem" using assms(1,2) by (simp_all add: buffer_stream_def st)
  have e: "dest + length a + (max_size s - (bytes_written s + length a)) = ?e" using assms(2) by simp
  have w: "length mem' = length ?m" "take (dest + length a) mem' = take (dest + length a) ?m" "drop ?e mem' = drop ?e ?m"
    using assms(3) e by (simp_all add: within_room_def appended_def st st')
  have "take dest (take (dest + length a) mem') = take dest (take (dest + length a) ?m)" by (simp only: w(2))
  then have "take dest mem' = take dest mem" using d by (simp add: mem_write_def)
  moreover have "max_size s - (bytes_written s + length a) + (dest + length a) = ?e" using e by simp
  then have "drop ?e ?m = drop ?e mem" using d(2) by (simp add: mem_write_def ac_simps)
  ultimately show ?thesis using w(1,3) d by (simp add: within_room_def st st')
qed

lemma emits_write: "length bs = n \<Longrightarrow> n < SIZE_MOD \<Longrightarrow> emits (\<lambda>s. pb_write s bs n) bs"
  unfolding emits_def
proof (intro conjI allI impI)
  fix s :: buf_ostream assume "length bs = n" "n < SIZE_MOD" "sizing_stream s"
  then show "pb_write s bs n = (True, counted s bs)"
    by (simp add: pb_write_def sizing_stream_def counted_def)
next
  fix s :: buf_ostream assume n: "length bs = n" "n < SIZE_MOD" and s: "buffer_stream s"
  obtain mem dest where st: "os_state s = (mem, dest)" by fastforce
  have cb: "os_callback s = Some buf_write" and w: "bytes_written s \<le> max_size s" "max_size s < SIZE_MOD"
    using s by (simp_all add: buffer_stream_def)
  have ov: "size_add (bytes_written s) n < bytes_written s \<longleftrightarrow> SIZE_MOD \<le> bytes_written s + n"
    using w n(2) by (intro size_add_overflow_iff) simp_all
  show "if bytes_written s + length bs \<le> max_size s then pb_write s bs n = (True, appended s bs)
     else \<exists>s'. pb_write s bs n = (False, s') \<and> os_errmsg s' \<noteq> None \<and> within_room s s'"
  proof (cases "bytes_written s + n \<le> max_size s")
    case True
    then have "size_add (bytes_written s) n = bytes_written s + n" using w by (intro size_add_small) simp
    then show ?thesis using True cb st n(1)
      by (cases "bs = []") (auto simp: pb_write_def buf_write_def appended_def)
  next
    case False
    then have "0 < n" using w by simp
    moreover have "size_add (bytes_written s) n < bytes_written s \<or> size_add (bytes_written s) n > max_size s"
      using ov False size_add_small [of "bytes_written s" n] by (cases "SIZE_MOD \<le> bytes_written s + n") simp_all
    ultimately have "pb_write s bs n = os_return_error s ''stream full''" using cb by (simp add: pb_write_def)
    then show ?thesis using False n(1)
      by (simp add: os_return_error_def within_room_def PB_SET_ERROR_def split: option.split)
  qed
qed

lemma emits_then:
  assumes "emits f a" and "emits g b"
  shows "emits (\<lambda>s. and_then (f s) g) (a @ b)"
  unfolding emits_def
proof (intro conjI allI impI)
  fix s :: buf_ostream assume "sizing_stream s"
  then show "and_then (f s) g = (True, counted s (a @ b))"
    using emitsD(1) [OF assms(1), of s] emitsD(1) [OF assms(2), of "counted s a"] by simp
next
  fix s :: buf_ostream assume s: "buffer_stream s"
  show "if bytes_written s + length (a @ b) \<le> max_size s then and_then (f s) g = (True, appended s (a @ b))
     else \<exists>s'. and_then (f s) g = (False, s') \<and> os_errmsg s' \<noteq> None \<and> within_room s s'"
  proof (cases "bytes_written s + length a \<le> max_size s")
    case True
    note f = emitsD(2) [OF assms(1) s True] and ap = buffer_stream_appended [OF s True]
    show ?thesis
    proof (cases "bytes_written s + length (a @ b) \<le> max_size s")
      case ab: True
      then show ?thesis
        using f emitsD(2) [OF assms(2) ap(1)] ap(2,3) appended_appended [OF s ab] by simp
    next
      case ab: False
      then obtain s' where "g (appended s a) = (False, s')" "os_errmsg s' \<noteq> None" "within_room (appended s a) s'"
        using emitsD(3) [OF assms(2) ap(1)] ap(2,3) by auto
      then show ?thesis using f ab within_room_appended [OF s True] by auto
    qed
  next
    case False
    then obtain s' where "f s = (False, s')" "os_errmsg s' \<noteq> None" "within_room s s'" using emitsD(3) [OF assms(1) s] by blast
    then show ?thesis using False by simp
  qed
qed

text \<open>The writers.\<close>

definition le_bytes :: "nat \<Rightarrow> nat \<Rightarrow> byte list" where
  "le_bytes n v = rev (be_bytes n v)"

definition zigzag :: "u64 \<Rightarrow> nat" where
  "zigzag v = (if sint v < 0 then nat (- 2 * sint v - 1) else nat (2 * sint v))"

lemma emits_varint: "emits (\<lambda>s. pb_encode_varint s v) (leb (unat v))"
  unfolding pb_encode_varint_write
  using length_leb_u64 [of v] by (intro emits_write) (simp_all add: SIZE_MOD_def)

lemma emits_string:
  "length bs < SIZE_MOD \<Longrightarrow> emits (\<lambda>s. pb_encode_string s bs (length bs)) (leb (length bs) @ bs)"
proof -
  assume l: "length bs < SIZE_MOD"
  then have "unat (of_nat (length bs) :: u64) = length bs" by (simp add: unat_of_nat SIZE_MOD_def take_bit_nat_eq_self)
  then have "emits (\<lambda>s. pb_encode_varint s (of_nat (length bs))) (leb (length bs))"
    using emits_varint [of "of_nat (length bs)"] by simp
  from emits_then [OF this emits_write [OF refl l]] show ?thesis by (simp add: pb_encode_string_def)
qed

lemma sint_u64: "sint (v :: u64) = (if unat v < 2 ^ 63 then int (unat v) else int (unat v) - 2 ^ 64)"
proof -
  have u: "int (unat v) = sint v mod 2 ^ 64" by (simp add: uint_sint take_bit_eq_mod)
  have r: "- (2 ^ 63) \<le> sint v" "sint v < 2 ^ 63" using sint_ge [of v] sint_lt [of v] by simp_all
  show ?thesis
  proof (cases "0 \<le> sint v")
    case True
    then have "sint v mod 2 ^ 64 = sint v" using r by (intro mod_pos_pos_trivial) simp_all
    then have e: "int (unat v) = sint v" using u by (simp only:)
    then have "int (unat v) < int (2 ^ 63)" using r(2) by simp
    then have lt: "unat v < 2 ^ 63" by (simp only: of_nat_less_iff)
    show ?thesis by (simp only: lt if_True e)
  next
    case False
    then have "(sint v + 2 ^ 64) mod 2 ^ 64 = sint v + 2 ^ 64" using r by (intro mod_pos_pos_trivial) simp_all
    then have e: "int (unat v) = sint v + 2 ^ 64" using u by simp
    then have "int (2 ^ 63) \<le> int (unat v)" using r(1) by simp
    then have ge: "\<not> unat v < 2 ^ 63" by (simp only: of_nat_le_iff not_less)
    show ?thesis by (simp only: ge if_False e)
  qed
qed

lemma unat_zigzag: "unat (if sint v < 0 then NOT (push_bit 1 v) else push_bit 1 v) = zigzag v"
proof -
  have uv: "unat v < 2 ^ 64" using unat_u64_less [of v] by simp
  have p: "unat (push_bit 1 v) = 2 * unat v mod 2 ^ 64"
    by (simp add: push_bit_eq_mult unat_word_ariths mult.commute)
  have n: "unat (NOT (push_bit 1 v)) = 2 ^ 64 - 1 - unat (push_bit 1 v)"
  proof -
    have "NOT (push_bit 1 v) = - 1 - push_bit 1 v" by (simp add: not_eq_complement)
    moreover have "unat (- 1 - push_bit 1 v) = unat (- 1 :: u64) - unat (push_bit 1 v)" by (rule unat_sub) simp
    moreover have "unat (- 1 :: u64) = 2 ^ 64 - 1" by (simp add: unsigned_minus_1_eq_mask mask_eq_exp_minus_1)
    ultimately show ?thesis by simp
  qed
  note s = sint_u64 [of v]
  show ?thesis
  proof (cases "unat v < 2 ^ 63")
    case True
    then have "2 * unat v mod 2 ^ 64 = 2 * unat v" by simp
    moreover have "\<not> sint v < 0" "zigzag v = 2 * unat v" using s True by (auto simp: zigzag_def nat_mult_distrib)
    ultimately show ?thesis using p by simp
  next
    case False
    then have "2 * unat v mod 2 ^ 64 = 2 * unat v - 2 ^ 64" using uv by (simp add: mod_if)
    moreover have "sint v < 0" using s False uint_lt2p [of v] by simp
    moreover have "zigzag v = 2 ^ 65 - 1 - 2 * unat v"
    proof -
      have "sint v = int (unat v) - 2 ^ 64" using s False by simp
      then have "- 2 * sint v - 1 = int (2 ^ 65 - 1) - int (2 * unat v)" by simp
      then have "zigzag v = nat (int (2 ^ 65 - 1) - int (2 * unat v))" using \<open>sint v < 0\<close> by (simp only: zigzag_def if_True)
      then show ?thesis by (simp only: nat_minus_as_int)
    qed
    ultimately show ?thesis using False p n uv by simp
  qed
qed

lemma le_bytes_Suc: "le_bytes (Suc n) v = of_nat v # le_bytes n (v div 256)"
  by (simp add: le_bytes_def)

lemma low_byte: "ucast (w AND 0xFF :: 'a::len word) = (of_nat (unat w) :: byte)" if "8 \<le> LENGTH('a)"
proof -
  have "unat (w AND mask 8) = unat w mod 2 ^ 8" by (rule unat_and_mask)
  then have "unat (w AND 0xFF) = unat w mod 256" by (simp add: mask_eq_exp_minus_1)
  then show ?thesis by (simp add: word_unat_eq_iff unat_ucast_down unat_of_nat take_bit_eq_mod)
qed

lemma fixed32_bytes:
  "[ucast (val AND 0xFF), ucast (drop_bit 8 val AND 0xFF), ucast (drop_bit 16 val AND 0xFF), ucast (drop_bit 24 val AND 0xFF)]
     = le_bytes 4 (unat (val :: u32))"
proof -
  have "(4 :: nat) = Suc (Suc (Suc (Suc 0)))" by simp
  then show ?thesis
    by (simp only: low_byte le_bytes_Suc) (simp add: low_byte unat_drop_bit div_mult2_eq [symmetric] le_bytes_def)
qed

lemma fixed64_bytes:
  "[ucast (val AND 0xFF), ucast (drop_bit 8 val AND 0xFF), ucast (drop_bit 16 val AND 0xFF), ucast (drop_bit 24 val AND 0xFF),
    ucast (drop_bit 32 val AND 0xFF), ucast (drop_bit 40 val AND 0xFF), ucast (drop_bit 48 val AND 0xFF), ucast (drop_bit 56 val AND 0xFF)]
     = le_bytes 8 (unat (val :: u64))"
proof -
  have "(8 :: nat) = Suc (Suc (Suc (Suc (Suc (Suc (Suc (Suc 0)))))))" by simp
  then show ?thesis
    by (simp only: low_byte le_bytes_Suc) (simp add: low_byte unat_drop_bit div_mult2_eq [symmetric] le_bytes_def)
qed

lemma length_le_bytes [simp]: "length (le_bytes n v) = n"
  by (simp add: le_bytes_def)

lemma emits_fixed32: "emits (\<lambda>s. pb_encode_fixed32 s v) (le_bytes 4 (unat v))"
  unfolding pb_encode_fixed32_def fixed32_bytes by (rule emits_write) (simp_all add: SIZE_MOD_def)

lemma emits_fixed64: "emits (\<lambda>s. pb_encode_fixed64 s v) (le_bytes 8 (unat v))"
  unfolding pb_encode_fixed64_def fixed64_bytes by (rule emits_write) (simp_all add: SIZE_MOD_def)

lemma emits_svarint: "emits (\<lambda>s. pb_encode_svarint s v) (leb (zigzag v))"
  unfolding pb_encode_svarint_def Let_def unat_zigzag [symmetric] by (rule emits_varint)

lemma emits_tag: "unat w < 8 \<Longrightarrow> emits (\<lambda>s. pb_encode_tag s w t) (leb (unat t * 8 + unat w))"
proof -
  assume w: "unat w < 8"
  have "unat (ucast t :: u64) = unat t" "unat (ucast w :: u64) = unat w" by (simp_all add: unat_ucast_up)
  then have "unat (push_bit 3 (ucast t) OR ucast w :: u64) = unat t * 8 + unat w"
    using unat_shift_or [of "ucast t :: u64" 3 "ucast w"] w unat_u32_less [of t] by simp
  then show ?thesis using emits_varint [of "push_bit 3 (ucast t) OR ucast w"] by (simp add: pb_encode_tag_def)
qed

end
