(* ===== verification/Pb_Decode.thy ===== *)
theory Pb_Decode
  imports Pb_Encode
begin

text \<open>
  nanopb's input streams and the readers of the wire format: the first half of \<open>pb_decode.c\<close> and the
  scalar readers at its end. A reader returns its result (\<open>None\<close> for false) and the stream.
\<close>

section \<open>Input streams\<close>

text \<open>
  The fields \<open>callback\<close> and \<open>state\<close> of a stream together: \<open>buf_read\<close> with a pointer (the memory from
  there on), or another callback with its own state. A callback gets the state and the number of bytes
  asked for, and returns the bytes it put into the buffer, or \<open>None\<close> for false, and the new state. A
  callback that returns true must have filled the whole buffer; what is missing reads as zero here, and
  what is too much is ignored.
\<close>

datatype 's is_source = Buf_read "byte list" | Callback "'s \<Rightarrow> nat \<Rightarrow> byte list option \<times> 's" 's

record 's pb_istream_t =
  is_source :: "'s is_source"
  bytes_left :: nat
  is_errmsg :: "string option"

definition is_return_error :: "'s pb_istream_t \<Rightarrow> string \<Rightarrow> 'a option \<times> 's pb_istream_t" where
  "is_return_error stream msg = (None, stream\<lparr>is_errmsg := PB_SET_ERROR (is_errmsg stream) msg\<rparr>)"

definition buf_read :: "byte list \<Rightarrow> nat \<Rightarrow> byte list \<times> byte list" where
  "buf_read source count = (take count source, drop count source)"

definition is_read :: "'s pb_istream_t \<Rightarrow> nat \<Rightarrow> byte list option \<times> 's pb_istream_t" where
  "is_read stream count =
     (case is_source stream of
        Buf_read source \<Rightarrow>
          (case buf_read source count of (buf, source) \<Rightarrow> (Some buf, stream\<lparr>is_source := Buf_read source\<rparr>))
      | Callback f state \<Rightarrow>
          (case f state count of
             (r, state) \<Rightarrow>
               (map_option (\<lambda>buf. take count (buf @ replicate count 0)) r, stream\<lparr>is_source := Callback f state\<rparr>)))"

text \<open>\<open>pb_read\<close> into a buffer, and its branch for a NULL buffer, which reads blocks of 16 bytes.\<close>

definition pb_read_buf :: "'s pb_istream_t \<Rightarrow> nat \<Rightarrow> byte list option \<times> 's pb_istream_t" where
  "pb_read_buf stream count =
     (if count = 0 then (Some [], stream)
      else if bytes_left stream < count then is_return_error stream ''end-of-stream''
      else (case is_read stream count of
              (None, stream) \<Rightarrow> is_return_error stream ''io error''
            | (Some buf, stream) \<Rightarrow> (Some buf, stream\<lparr>bytes_left := bytes_left stream - count\<rparr>)))"

function pb_skip_blocks :: "'s pb_istream_t \<Rightarrow> nat \<Rightarrow> byte list option \<times> 's pb_istream_t" where
  "pb_skip_blocks stream count =
     (if count > 16
      then (case pb_read_buf stream 16 of
              (None, stream) \<Rightarrow> (None, stream)
            | (Some _, stream) \<Rightarrow> pb_skip_blocks stream (count - 16))
      else pb_read_buf stream count)"
  by pat_completeness auto
termination
  by (relation "measure snd") auto

declare pb_skip_blocks.simps [simp del]

text \<open>\<open>buf_null\<close>: the buffer is NULL, and the bytes read are dropped.\<close>

definition pb_read :: "'s pb_istream_t \<Rightarrow> bool \<Rightarrow> nat \<Rightarrow> byte list option \<times> 's pb_istream_t" where
  "pb_read stream buf_null count =
     (if count = 0 then (Some [], stream)
      else case (if buf_null then is_source stream else Buf_read []) of
             Callback f state \<Rightarrow> pb_skip_blocks stream count
           | Buf_read source \<Rightarrow> pb_read_buf stream count)"

definition pb_readbyte :: "'s pb_istream_t \<Rightarrow> byte option \<times> 's pb_istream_t" where
  "pb_readbyte stream =
     (if bytes_left stream = 0 then is_return_error stream ''end-of-stream''
      else (case is_read stream 1 of
              (None, stream) \<Rightarrow> is_return_error stream ''io error''
            | (Some buf, stream) \<Rightarrow> (Some (buf ! 0), stream\<lparr>bytes_left := bytes_left stream - 1\<rparr>)))"

definition pb_istream_from_buffer :: "byte list \<Rightarrow> nat \<Rightarrow> 's pb_istream_t" where
  "pb_istream_from_buffer buf bufsize = \<lparr>is_source = Buf_read buf, bytes_left = bufsize, is_errmsg = None\<rparr>"

lemma bytes_left_is_read: "is_read stream n = (r, stream') \<Longrightarrow> bytes_left stream' = bytes_left stream"
  by (auto simp: is_read_def buf_read_def split: is_source.splits prod.splits)

lemma bytes_left_readbyte: "pb_readbyte stream = (Some b, stream') \<Longrightarrow> bytes_left stream = Suc (bytes_left stream')"
  by (auto simp: pb_readbyte_def is_return_error_def dest!: bytes_left_is_read split: if_splits prod.splits option.splits)

lemma bytes_left_read_buf: "pb_read_buf stream n = (Some b, stream') \<Longrightarrow> bytes_left stream = bytes_left stream' + n"
  by (auto simp: pb_read_buf_def is_return_error_def dest!: bytes_left_is_read split: if_splits prod.splits option.splits)

section \<open>Varints and tags\<close>

text \<open>
  The loop of \<open>pb_decode_varint32_eof\<close> and the check after it. \<open>bitpos\<close> is a \<open>uint_fast8_t\<close>, 8 bits
  wide on the platforms of the project.
\<close>

function varint32_loop :: "'s pb_istream_t \<Rightarrow> u32 \<Rightarrow> byte \<Rightarrow> u32 option \<times> 's pb_istream_t" where
  "varint32_loop stream result bitpos =
     (case pb_readbyte stream of
        (None, stream) \<Rightarrow> (None, stream)
      | (Some byte, stream) \<Rightarrow>
          let sign_extension = (if bitpos < 63 then 0xFF else 0x01)
          in if bitpos \<ge> 32 \<and> byte AND 0x7F \<noteq> 0 \<and> (drop_bit 31 result = 0 \<or> byte \<noteq> sign_extension)
             then is_return_error stream ''varint overflow''
             else let result = (if bitpos \<ge> 32 then result
                                else result OR push_bit (unat bitpos) (ucast (byte AND 0x7F)));
                      bitpos = bitpos + 7
                  in if byte AND 0x80 \<noteq> 0 then varint32_loop stream result bitpos
                     else if bitpos = 35 \<and> byte AND 0x70 \<noteq> 0 then is_return_error stream ''varint overflow''
                     else (Some result, stream))"
  by pat_completeness auto
termination
  by (relation "measure (\<lambda>(stream, result, bitpos). bytes_left stream)")
    (auto dest: bytes_left_readbyte [OF sym])

declare varint32_loop.simps [simp del]

text \<open>The third component is \<open>*eof\<close>, \<open>False\<close> at the start; the caller that passes NULL ignores it.\<close>

definition pb_decode_varint32_eof :: "'s pb_istream_t \<Rightarrow> u32 option \<times> 's pb_istream_t \<times> bool" where
  "pb_decode_varint32_eof stream =
     (case pb_readbyte stream of
        (None, stream) \<Rightarrow> (None, stream, bytes_left stream = 0)
      | (Some byte, stream) \<Rightarrow>
          if byte AND 0x80 = 0 then (Some (ucast byte), stream, False)
          else (case varint32_loop stream (ucast (byte AND 0x7F)) 7 of (r, stream) \<Rightarrow> (r, stream, False)))"

definition pb_decode_varint32 :: "'s pb_istream_t \<Rightarrow> u32 option \<times> 's pb_istream_t" where
  "pb_decode_varint32 stream = (case pb_decode_varint32_eof stream of (r, stream, _) \<Rightarrow> (r, stream))"

function varint_loop :: "'s pb_istream_t \<Rightarrow> u64 \<Rightarrow> byte \<Rightarrow> u64 option \<times> 's pb_istream_t" where
  "varint_loop stream result bitpos =
     (if bitpos \<ge> 64 then is_return_error stream ''varint overflow''
      else case pb_readbyte stream of
             (None, stream) \<Rightarrow> (None, stream)
           | (Some byte, stream) \<Rightarrow>
               let result = result OR push_bit (unat bitpos) (ucast (byte AND 0x7F)); bitpos = bitpos + 7
               in if byte AND 0x80 \<noteq> 0 then varint_loop stream result bitpos else (Some result, stream))"
  by pat_completeness auto
termination
  by (relation "measure (\<lambda>(stream, result, bitpos). bytes_left stream)")
    (auto dest: bytes_left_readbyte [OF sym])

declare varint_loop.simps [simp del]

definition pb_decode_varint :: "'s pb_istream_t \<Rightarrow> u64 option \<times> 's pb_istream_t" where
  "pb_decode_varint stream = varint_loop stream 0 0"

function pb_skip_varint :: "'s pb_istream_t \<Rightarrow> unit option \<times> 's pb_istream_t" where
  "pb_skip_varint stream =
     (case pb_read stream False 1 of
        (None, stream) \<Rightarrow> (None, stream)
      | (Some buf, stream) \<Rightarrow> if buf ! 0 AND 0x80 \<noteq> 0 then pb_skip_varint stream else (Some (), stream))"
  by pat_completeness auto
termination
  by (relation "measure bytes_left") (auto simp: pb_read_def dest: bytes_left_read_buf [OF sym])

declare pb_skip_varint.simps [simp del]

definition pb_skip_string :: "'s pb_istream_t \<Rightarrow> unit option \<times> 's pb_istream_t" where
  "pb_skip_string stream =
     (case pb_decode_varint32 stream of
        (None, stream) \<Rightarrow> (None, stream)
      | (Some len, stream) \<Rightarrow>
          (case pb_read stream True (unat len) of (r, stream) \<Rightarrow> (map_option (\<lambda>_. ()) r, stream)))"

text \<open>
  \<open>pb_decode_tag\<close> returns the wire type and the tag, and \<open>*eof\<close>.
\<close>

definition pb_decode_tag :: "'s pb_istream_t \<Rightarrow> (pb_wire_type_t \<times> u32) option \<times> 's pb_istream_t \<times> bool" where
  "pb_decode_tag stream =
     (case pb_decode_varint32_eof stream of
        (None, stream, eof) \<Rightarrow> (None, stream, eof)
      | (Some temp, stream, eof) \<Rightarrow>
          if temp = 0 then (None, stream, True)
          else (Some (temp AND 7, drop_bit 3 temp), stream, eof))"

definition skip_bytes :: "'s pb_istream_t \<Rightarrow> nat \<Rightarrow> unit option \<times> 's pb_istream_t" where
  "skip_bytes stream n = (case pb_read stream True n of (r, stream) \<Rightarrow> (map_option (\<lambda>_. ()) r, stream))"

definition pb_skip_field :: "'s pb_istream_t \<Rightarrow> pb_wire_type_t \<Rightarrow> unit option \<times> 's pb_istream_t" where
  "pb_skip_field stream wire_type =
     (if wire_type = PB_WT_VARINT then pb_skip_varint stream
      else if wire_type = PB_WT_64BIT then skip_bytes stream 8
      else if wire_type = PB_WT_STRING then pb_skip_string stream
      else if wire_type = PB_WT_32BIT then skip_bytes stream 4
      else is_return_error stream ''invalid wire_type'')"

text \<open>\<open>read_raw_value\<close> returns what it put into the buffer, whose length is \<open>*size\<close>.\<close>

function raw_varint :: "'s pb_istream_t \<Rightarrow> nat \<Rightarrow> nat \<Rightarrow> byte list option \<times> 's pb_istream_t" where
  "raw_varint stream sz max_sz =
     (if sz + 1 > max_sz then (None, stream)
      else case pb_read stream False 1 of
             (None, stream) \<Rightarrow> (None, stream)
           | (Some buf, stream) \<Rightarrow>
               if buf ! 0 AND 0x80 \<noteq> 0
               then (case raw_varint stream (sz + 1) max_sz of
                       (None, stream) \<Rightarrow> (None, stream)
                     | (Some bs, stream) \<Rightarrow> (Some (buf ! 0 # bs), stream))
               else (Some [buf ! 0], stream))"
  by pat_completeness auto
termination
  by (relation "measure (\<lambda>(stream, n, m). bytes_left stream)")
    (auto simp: pb_read_def dest: bytes_left_read_buf [OF sym])

declare raw_varint.simps [simp del]

definition read_raw_value :: "'s pb_istream_t \<Rightarrow> pb_wire_type_t \<Rightarrow> nat \<Rightarrow> byte list option \<times> 's pb_istream_t" where
  "read_raw_value stream wire_type max_sz =
     (if wire_type = PB_WT_VARINT then raw_varint stream 0 max_sz
      else if wire_type = PB_WT_64BIT then pb_read stream False 8
      else if wire_type = PB_WT_32BIT then pb_read stream False 4
      else is_return_error stream ''invalid wire_type'')"

section \<open>Substreams\<close>

text \<open>The result is \<open>*substream\<close>.\<close>

definition pb_make_string_substream :: "'s pb_istream_t \<Rightarrow> 's pb_istream_t option \<times> 's pb_istream_t" where
  "pb_make_string_substream stream =
     (case pb_decode_varint32 stream of
        (None, stream) \<Rightarrow> (None, stream)
      | (Some sz, stream) \<Rightarrow>
          if bytes_left stream < unat sz then is_return_error stream ''parent stream too short''
          else (Some (stream\<lparr>bytes_left := unat sz\<rparr>), stream\<lparr>bytes_left := bytes_left stream - unat sz\<rparr>))"

definition pb_close_string_substream ::
  "'s pb_istream_t \<Rightarrow> 's pb_istream_t \<Rightarrow> unit option \<times> 's pb_istream_t" where
  "pb_close_string_substream stream substream =
     (case (if bytes_left substream \<noteq> 0 then pb_read substream True (bytes_left substream) else (Some [], substream)) of
        (None, _) \<Rightarrow> (None, stream)
      | (Some _, substream) \<Rightarrow>
          (Some (), stream\<lparr>is_source := is_source substream, is_errmsg := is_errmsg substream\<rparr>))"

section \<open>Scalars\<close>

definition pb_dec_bool :: "'s pb_istream_t \<Rightarrow> bool option \<times> 's pb_istream_t" where
  "pb_dec_bool stream =
     (case pb_decode_varint32 stream of (r, stream) \<Rightarrow> (map_option (\<lambda>v. v \<noteq> 0) r, stream))"

definition pb_decode_bool :: "'s pb_istream_t \<Rightarrow> bool option \<times> 's pb_istream_t" where
  "pb_decode_bool stream = pb_dec_bool stream"

definition pb_decode_svarint :: "'s pb_istream_t \<Rightarrow> u64 option \<times> 's pb_istream_t" where
  "pb_decode_svarint stream =
     (case pb_decode_varint stream of
        (None, stream) \<Rightarrow> (None, stream)
      | (Some v, stream) \<Rightarrow>
          (Some (if v AND 1 \<noteq> 0 then NOT (drop_bit 1 v) else drop_bit 1 v), stream))"

definition pb_decode_fixed32 :: "'s pb_istream_t \<Rightarrow> u32 option \<times> 's pb_istream_t" where
  "pb_decode_fixed32 stream =
     (case pb_read stream False 4 of
        (None, stream) \<Rightarrow> (None, stream)
      | (Some bytes, stream) \<Rightarrow>
          (Some (push_bit 0 (ucast (bytes ! 0)) OR push_bit 8 (ucast (bytes ! 1)) OR
                 push_bit 16 (ucast (bytes ! 2)) OR push_bit 24 (ucast (bytes ! 3))), stream))"

definition pb_decode_fixed64 :: "'s pb_istream_t \<Rightarrow> u64 option \<times> 's pb_istream_t" where
  "pb_decode_fixed64 stream =
     (case pb_read stream False 8 of
        (None, stream) \<Rightarrow> (None, stream)
      | (Some bytes, stream) \<Rightarrow>
          (Some (push_bit 0 (ucast (bytes ! 0)) OR push_bit 8 (ucast (bytes ! 1)) OR
                 push_bit 16 (ucast (bytes ! 2)) OR push_bit 24 (ucast (bytes ! 3)) OR
                 push_bit 32 (ucast (bytes ! 4)) OR push_bit 40 (ucast (bytes ! 5)) OR
                 push_bit 48 (ucast (bytes ! 6)) OR push_bit 56 (ucast (bytes ! 7))), stream))"

text \<open>
  The integer fields. The result is what is stored at \<open>*dest\<close>, an integer of \<open>8 * data_size\<close> bits,
  given as the 64 bit word it stands for; a value that does not fit is stored cut off, before the error
  is returned, so that the stored value comes with the return value.
\<close>

definition sign_cut :: "nat \<Rightarrow> u64 \<Rightarrow> u64" where
  "sign_cut bits v = word_of_int (signed_take_bit (bits - 1) (uint v))"

definition store_int :: "'s pb_istream_t \<Rightarrow> u64 option \<Rightarrow> u64 \<Rightarrow> (bool \<times> u64 option) \<times> 's pb_istream_t" where
  "store_int stream clamped v =
     (case clamped of
        None \<Rightarrow> ((False, None), stream\<lparr>is_errmsg := PB_SET_ERROR (is_errmsg stream) ''invalid data_size''\<rparr>)
      | Some c \<Rightarrow>
          if c \<noteq> v
          then ((False, Some c), stream\<lparr>is_errmsg := PB_SET_ERROR (is_errmsg stream) ''integer too large''\<rparr>)
          else ((True, Some c), stream))"

definition pb_dec_varint :: "'s pb_istream_t \<Rightarrow> pb_field_t \<Rightarrow> (bool \<times> u64 option) \<times> 's pb_istream_t" where
  "pb_dec_varint stream field =
     (case pb_decode_varint stream of
        (None, stream) \<Rightarrow> ((False, None), stream)
      | (Some v, stream) \<Rightarrow>
          let svalue = (if data_size field = 8 then v else sign_cut 32 v);
              clamped = (if data_size field = 8 then Some svalue
                         else if data_size field = 4 then Some (sign_cut 32 svalue)
                         else if data_size field = 2 then Some (sign_cut 16 svalue)
                         else if data_size field = 1 then Some (sign_cut 8 svalue) else None)
          in store_int stream clamped svalue)"

definition pb_dec_uvarint :: "'s pb_istream_t \<Rightarrow> pb_field_t \<Rightarrow> (bool \<times> u64 option) \<times> 's pb_istream_t" where
  "pb_dec_uvarint stream field =
     (case pb_decode_varint stream of
        (None, stream) \<Rightarrow> ((False, None), stream)
      | (Some v, stream) \<Rightarrow>
          let clamped = (if data_size field = 8 then Some v
                         else if data_size field = 4 then Some (take_bit 32 v)
                         else if data_size field = 2 then Some (take_bit 16 v)
                         else if data_size field = 1 then Some (take_bit 8 v) else None)
          in store_int stream clamped v)"

definition pb_dec_svarint :: "'s pb_istream_t \<Rightarrow> pb_field_t \<Rightarrow> (bool \<times> u64 option) \<times> 's pb_istream_t" where
  "pb_dec_svarint stream field =
     (case pb_decode_svarint stream of
        (None, stream) \<Rightarrow> ((False, None), stream)
      | (Some v, stream) \<Rightarrow>
          let clamped = (if data_size field = 8 then Some v
                         else if data_size field = 4 then Some (sign_cut 32 v)
                         else if data_size field = 2 then Some (sign_cut 16 v)
                         else if data_size field = 1 then Some (sign_cut 8 v) else None)
          in store_int stream clamped v)"

end
