(* ===== verification/Pb_Read.thy ===== *)
theory Pb_Read
  imports Pb_Decode Pb_Emit Codec
begin

text \<open>
  What nanopb's readers accept on streams from a buffer. \<open>stream_of c m e\<close> has the bytes \<open>c\<close> left, with
  \<open>m\<close> behind them in memory: \<open>m\<close> is never touched.
\<close>

definition stream_of :: "byte list \<Rightarrow> byte list \<Rightarrow> string option \<Rightarrow> unit pb_istream_t" where
  "stream_of c m e = \<lparr>is_source = Buf_read (c @ m), bytes_left = length c, is_errmsg = e\<rparr>"

lemma stream_of_simps [simp]:
  "bytes_left (stream_of c m e) = length c" "is_errmsg (stream_of c m e) = e"
  "is_source (stream_of c m e) = Buf_read (c @ m)"
  by (simp_all add: stream_of_def)

lemma from_buffer: "pb_istream_from_buffer c (length c) = stream_of c [] None"
  by (simp add: pb_istream_from_buffer_def stream_of_def)

definition failed :: "string option \<Rightarrow> string \<Rightarrow> string option" where
  "failed e msg = PB_SET_ERROR e msg"

lemma error_stream_of: "is_return_error (stream_of c m e) msg = (None, stream_of c m (failed e msg))"
  by (simp add: is_return_error_def stream_of_def failed_def)

lemma readbyte_Nil: "pb_readbyte (stream_of [] m e) = (None, stream_of [] m (failed e ''end-of-stream''))"
  by (simp add: pb_readbyte_def error_stream_of)

lemma readbyte_Cons: "pb_readbyte (stream_of (b # c) m e) = (Some b, stream_of c m e)"
  by (simp add: pb_readbyte_def is_read_def buf_read_def stream_of_def)

lemma read_buf_short: "length c < n \<Longrightarrow> pb_read_buf (stream_of c m e) n = (None, stream_of c m (failed e ''end-of-stream''))"
  by (simp add: pb_read_buf_def error_stream_of)

lemma read_buf_append: "length a = n \<Longrightarrow> pb_read_buf (stream_of (a @ c) m e) n = (Some a, stream_of c m e)"
  by (cases "a = []") (auto simp: pb_read_buf_def is_read_def buf_read_def stream_of_def)

lemma read_stream_of: "pb_read (stream_of c m e) z n = pb_read_buf (stream_of c m e) n"
  by (simp add: pb_read_def pb_read_buf_def)

lemma read_append: "length a = n \<Longrightarrow> pb_read (stream_of (a @ c) m e) z n = (Some a, stream_of c m e)"
  by (simp add: read_stream_of read_buf_append)

lemma read_iff:
  "pb_read (stream_of c m e) z n = (Some a, s') \<longleftrightarrow> (\<exists>c'. length a = n \<and> c = a @ c' \<and> s' = stream_of c' m e)"
proof (cases "length c < n")
  case True
  then show ?thesis by (auto simp: read_stream_of read_buf_short)
next
  case False
  then have "pb_read (stream_of (take n c @ drop n c) m e) z n = (Some (take n c), stream_of (drop n c) m e)"
    by (intro read_append) simp
  then show ?thesis using False by (auto simp: append_eq_conv_conj intro: exI [of _ "drop n c"])
qed

section \<open>Varints of 64 bits\<close>

lemma byte_word: "unat (ucast (b AND 0x7F) :: 'a::len word) = unat (b :: byte) mod 128" if "7 \<le> LENGTH('a)"
proof -
  have "unat b mod 128 < 2 ^ LENGTH('a)"
    using power_increasing [OF that, of "2 :: nat"] mod_less_divisor [of 128 "unat b"] by simp
  then show ?thesis by (simp add: unat_ucast_down byte_and_7f)
qed

lemma leb_val_word:
  assumes "7 \<le> LENGTH('a)"
  shows "(of_nat (leb_val (b # bs)) :: 'a::len word) = ucast (b AND 0x7F) OR push_bit 7 (of_nat (leb_val bs))"
proof -
  have "(of_nat (unat b mod 128) :: 'a word) = ucast (b AND 0x7F)"
    using byte_word [OF assms, of b] by (metis of_nat_unat)
  moreover have "of_nat (128 * leb_val bs) = push_bit 7 (of_nat (leb_val bs) :: 'a word)" by (simp add: push_bit_eq_mult)
  moreover have "push_bit 7 (of_nat (leb_val bs) :: 'a word) OR ucast (b AND 0x7F) =
      push_bit 7 (of_nat (leb_val bs)) + ucast (b AND 0x7F)"
  proof (rule word_or_add_disjoint [of _ 7])
    show "unat (ucast (b AND 0x7F) :: 'a word) < 2 ^ 7" using byte_word [OF assms, of b] by simp
    show "2 ^ 7 dvd unat (push_bit 7 (of_nat (leb_val bs)) :: 'a word)"
    proof -
      have "take_bit 7 (push_bit 7 (of_nat (leb_val bs)) :: 'a word) = 0" by (simp add: take_bit_push_bit)
      then have "take_bit 7 (unat (push_bit 7 (of_nat (leb_val bs)) :: 'a word)) = 0"
        by (simp only: unsigned_take_bit_eq [symmetric] unsigned_0)
      then show ?thesis by (simp only: take_bit_eq_0_iff)
    qed
  qed
  ultimately show ?thesis by (simp add: or.commute add.commute del: of_nat_mult)
qed

definition varint_bytes :: "byte list \<Rightarrow> bool" where
  "varint_bytes bs \<longleftrightarrow> bs \<noteq> [] \<and> list_all (\<lambda>b. 128 \<le> unat b) (butlast bs) \<and> unat (last bs) < 128"

lemma varint_bytes_Cons: "varint_bytes (b # bs) \<longleftrightarrow> (if unat b < 128 then bs = [] else varint_bytes bs)"
  by (auto simp: varint_bytes_def)

lemma varint_bytes_leb: "varint_bytes (leb n)"
  using leb_shape [of n] by (auto simp: varint_bytes_def)

lemma varint_bytes_Nil [simp]: "\<not> varint_bytes []"
  by (simp add: varint_bytes_def)

lemma varint_last:
  assumes "unat b < 128"
  shows "(\<exists>bs c'. b # c = bs @ c' \<and> varint_bytes bs \<and> P bs c') \<longleftrightarrow> P [b] c" (is "?L \<longleftrightarrow> _")
proof
  assume ?L
  then obtain bs c' where "b # c = bs @ c'" "varint_bytes bs" "P bs c'" by blast
  then show "P [b] c" using assms by (cases bs) (auto simp: varint_bytes_Cons)
next
  assume "P [b] c"
  then show ?L using assms by - (rule exI [of _ "[b]"], rule exI [of _ c], simp add: varint_bytes_Cons)
qed

lemma varint_more:
  assumes "128 \<le> unat b"
  shows "(\<exists>bs c'. b # c = bs @ c' \<and> varint_bytes bs \<and> P bs c') \<longleftrightarrow>
     (\<exists>bs c'. c = bs @ c' \<and> varint_bytes bs \<and> P (b # bs) c')" (is "?L \<longleftrightarrow> ?R")
proof
  assume ?L
  then obtain bs c' where "b # c = bs @ c'" "varint_bytes bs" "P bs c'" by blast
  then show ?R using assms by (cases bs) (auto simp: varint_bytes_Cons)
next
  assume ?R
  then obtain bs c' where "c = bs @ c'" "varint_bytes bs" "P (b # bs) c'" by blast
  then show ?L using assms by - (rule exI [of _ "b # bs"], rule exI [of _ c'], simp add: varint_bytes_Cons)
qed

lemma varint_loop_exact:
  "k \<le> 10 \<Longrightarrow> varint_loop (stream_of c m e) r (of_nat (7 * k)) = (Some v, s') \<longleftrightarrow>
     (\<exists>bs c'. c = bs @ c' \<and> varint_bytes bs \<and> length bs + k \<le> 10 \<and> s' = stream_of c' m e \<and>
        v = r OR push_bit (7 * k) (of_nat (leb_val bs)))"
proof (induction c arbitrary: k r)
  case Nil
  then show ?case
    by (subst varint_loop.simps) (auto simp: readbyte_Nil error_stream_of varint_bytes_def is_return_error_def)
next
  case (Cons b c)
  have bp: "unat (of_nat (7 * k) :: byte) = 7 * k" using Cons.prems by (intro unat_byte_of_nat) simp
  show ?case
  proof (cases "k = 10")
    case True
    then show ?thesis
      by (subst varint_loop.simps) (auto simp: is_return_error_def varint_bytes_def)
  next
    case False
    then have k: "Suc k \<le> 10" "\<not> (64 :: byte) \<le> of_nat (7 * k)" using Cons.prems bp by (simp_all add: word_le_nat_alt)
    let ?r = "r OR push_bit (7 * k) (ucast (b AND 0x7F)) :: u64"
    define p :: byte where "p = of_nat (7 * k)"
    define q :: byte where "q = of_nat (7 * Suc k)"
    have pq: "\<not> 64 \<le> p" "unat p = 7 * k" "p + 7 = q" using k(2) bp by (simp_all add: p_def q_def)
    have "varint_loop (stream_of (b # c) m e) r p =
        (if 128 \<le> unat b then varint_loop (stream_of c m e) ?r q else (Some ?r, stream_of c m e))"
      using byte_and_80 [of b] pq by (subst varint_loop.simps) (simp add: readbyte_Cons Let_def)
    note lp = this [unfolded p_def q_def]
    show ?thesis
    proof (cases "128 \<le> unat b")
      case True
      have e: "?r OR push_bit (7 * Suc k) (of_nat (leb_val bs)) = r OR push_bit (7 * k) (of_nat (leb_val (b # bs)))" for bs
      proof -
        have lw: "(of_nat (leb_val (b # bs)) :: u64) = ucast (b AND 0x7F) OR push_bit 7 (of_nat (leb_val bs))"
          by (rule leb_val_word) simp
        have k7: "7 * Suc k = 7 * k + 7" by simp
        show ?thesis unfolding lw k7 by (simp only: push_bit_or push_bit_push_bit or.assoc)
      qed
      show ?thesis
        unfolding lp varint_more [OF True] using True k(1)
        by (simp add: Cons.IH [OF k(1)] e [symmetric] del: leb_val.simps of_nat_mult mult_Suc_right)
    next
      case False
      have "(of_nat (leb_val [b]) :: u64) = ucast (b AND 0x7F) OR push_bit 7 (of_nat (leb_val []))"
        by (rule leb_val_word) simp
      then have "(of_nat (leb_val [b]) :: u64) = ucast (b AND 0x7F)" by simp
      moreover have "unat b < 128" using False by simp
      ultimately show ?thesis unfolding lp varint_last [OF \<open>unat b < 128\<close>] using False k(1)
        by (auto simp del: leb_val.simps)
    qed
  qed
qed

lemma decode_varint_exact:
  "pb_decode_varint (stream_of c m e) = (Some v, s') \<longleftrightarrow>
     (\<exists>bs c'. c = bs @ c' \<and> varint_bytes bs \<and> length bs \<le> 10 \<and> s' = stream_of c' m e \<and> v = of_nat (leb_val bs))"
  using varint_loop_exact [of 0 c m e 0 v s'] by (simp add: pb_decode_varint_def)

lemma decode_varint_leb: "pb_decode_varint (stream_of (leb (unat v) @ c) m e) = (Some v, stream_of c m e)"
  unfolding decode_varint_exact
  by (rule exI [of _ "leb (unat v)"], rule exI [of _ c]) (simp add: varint_bytes_leb length_leb_u64 leb_val_leb)

lemma skip_varint: "varint_bytes bs \<Longrightarrow> pb_skip_varint (stream_of (bs @ c) m e) = (Some (), stream_of c m e)"
proof (induction bs)
  case (Cons b bs)
  have r: "pb_read (stream_of (b # bs @ c) m e) False (Suc 0) = (Some [b], stream_of (bs @ c) m e)"
    using read_append [of "[b]" 1 "bs @ c" m e False] by simp
  show ?case using Cons byte_and_80 [of b]
    by (subst pb_skip_varint.simps) (simp add: r varint_bytes_Cons not_less [symmetric] split: if_splits)
qed simp

section \<open>Varints of 32 bits\<close>

lemma varint32_step:
  fixes r :: u32
  assumes "k \<le> 9"
  shows "varint32_loop (stream_of (b # c) m e) r (of_nat (7 * k)) =
    (if 5 \<le> k \<and> b AND 0x7F \<noteq> 0 \<and> (unat r < 2 ^ 31 \<or> b \<noteq> (if k < 9 then 0xFF else 1))
     then (None, stream_of c m (failed e ''varint overflow''))
     else let r' = (if 5 \<le> k then r else r OR push_bit (7 * k) (ucast (b AND 0x7F)))
          in if 128 \<le> unat b then varint32_loop (stream_of c m e) r' (of_nat (7 * Suc k))
             else if k = 4 \<and> b AND 0x70 \<noteq> 0 then (None, stream_of c m (failed e ''varint overflow''))
             else (Some r', stream_of c m e))"
proof -
  define p :: byte where "p = of_nat (7 * k)"
  define q :: byte where "q = of_nat (7 * Suc k)"
  have up: "unat p = 7 * k" and uq: "unat q = 7 * Suc k"
    using assms unfolding p_def q_def by (intro unat_byte_of_nat; simp)+
  have "p + 7 = q" by (simp add: p_def q_def)
  moreover have "32 \<le> p \<longleftrightarrow> 5 \<le> k" "p < 63 \<longleftrightarrow> k < 9" using up by (auto simp: word_le_nat_alt word_less_nat_alt)
  moreover have "q = 35 \<longleftrightarrow> k = 4" using uq by (auto simp: word_unat_eq_iff)
  moreover have "drop_bit 31 r = 0 \<longleftrightarrow> unat r < 2 ^ 31" by (rule drop_bit_zero_iff)
  ultimately have "varint32_loop (stream_of (b # c) m e) r p =
    (if 5 \<le> k \<and> b AND 0x7F \<noteq> 0 \<and> (unat r < 2 ^ 31 \<or> b \<noteq> (if k < 9 then 0xFF else 1))
     then (None, stream_of c m (failed e ''varint overflow''))
     else let r' = (if 5 \<le> k then r else r OR push_bit (7 * k) (ucast (b AND 0x7F)))
          in if 128 \<le> unat b then varint32_loop (stream_of c m e) r' q
             else if k = 4 \<and> b AND 0x70 \<noteq> 0 then (None, stream_of c m (failed e ''varint overflow''))
             else (Some r', stream_of c m e))"
    using byte_and_80 [of b] up
    by (subst varint32_loop.simps) (auto simp: readbyte_Cons Let_def error_stream_of)
  then show ?thesis unfolding p_def q_def .
qed

lemma byte_and_70: "unat b < 128 \<Longrightarrow> (b :: byte) AND 0x70 = 0 \<longleftrightarrow> unat b < 16"
proof -
  have "unat b < 128 \<longrightarrow> (b AND 0x70 = 0 \<longleftrightarrow> unat b < 16)"
    by (rule byte_forallI [where P = "\<lambda>b. unat b < 128 \<longrightarrow> (b AND 0x70 = 0 \<longleftrightarrow> unat b < 16)"]) code_simp
  then show "unat b < 128 \<Longrightarrow> ?thesis" by simp
qed

lemma and_7f_zero: "(b :: byte) AND 0x7F = 0 \<longleftrightarrow> unat b mod 128 = 0"
  using byte_and_7f [of b] by (metis unat_eq_zero)

lemma u32_leb_Cons: "(of_nat (leb_val (b # bs)) :: u32) = ucast (b AND 0x7F) OR push_bit 7 (of_nat (leb_val bs))"
  by (rule leb_val_word) simp

lemma or_push_leb:
  "(r OR push_bit (7 * k) (ucast (b AND 0x7F))) OR push_bit (7 * Suc k) (of_nat (leb_val bs)) =
   r OR push_bit (7 * k) (of_nat (leb_val (b # bs)) :: u32)"
proof -
  have k7: "7 * Suc k = 7 * k + 7" by simp
  show ?thesis unfolding u32_leb_Cons k7 by (simp only: push_bit_or push_bit_push_bit or.assoc)
qed

text \<open>Continuation bytes below bit 35 are collected.\<close>

lemma varint32_more:
  "list_all (\<lambda>b. 128 \<le> unat b) bs \<Longrightarrow> k + length bs \<le> 5 \<Longrightarrow>
   varint32_loop (stream_of (bs @ c) m e) r (of_nat (7 * k)) =
   varint32_loop (stream_of c m e) (r OR push_bit (7 * k) (of_nat (leb_val bs))) (of_nat (7 * (k + length bs)))"
proof (induction bs arbitrary: k r)
  case (Cons b bs)
  have l: "list_all (\<lambda>b. 128 \<le> unat b) bs" "Suc k + length bs \<le> 5" using Cons.prems by simp_all
  have "varint32_loop (stream_of (b # bs @ c) m e) r (of_nat (7 * k)) =
      varint32_loop (stream_of (bs @ c) m e) (r OR push_bit (7 * k) (ucast (b AND 0x7F))) (of_nat (7 * Suc k))"
    using Cons.prems by (subst varint32_step) (simp_all add: Let_def)
  also have "\<dots> = varint32_loop (stream_of c m e) (r OR push_bit (7 * k) (of_nat (leb_val (b # bs)))) (of_nat (7 * (Suc k + length bs)))"
    by (simp only: Cons.IH [OF l] or_push_leb)
  finally show ?case by (simp only: append_Cons length_Cons add_Suc add_Suc_right)
qed simp

lemma varint32_last:
  assumes "k \<le> 4" and "unat b < 128" and "k = 4 \<longrightarrow> unat b < 16"
  shows "varint32_loop (stream_of (b # c) m e) r (of_nat (7 * k)) =
    (Some (r OR push_bit (7 * k) (ucast (b AND 0x7F))), stream_of c m e)"
  using assms byte_and_70 [of b] by (subst varint32_step) (auto simp: Let_def)

text \<open>What does not fit is an error.\<close>

lemma varint32_high:
  assumes "varint_bytes bs" and "last bs \<noteq> 0"
  shows "5 \<le> k \<Longrightarrow> k + length bs \<le> 9 \<Longrightarrow> fst (varint32_loop (stream_of (bs @ c) m e) r (of_nat (7 * k))) = None"
  using assms
proof (induction bs arbitrary: k)
  case (Cons b bs)
  have k: "k < 9" using Cons.prems by simp
  show ?case
  proof (cases "unat b < 128")
    case True
    then have "bs = []" "b \<noteq> 0" "b \<noteq> 0xFF" using Cons.prems by (auto simp: varint_bytes_Cons)
    moreover have "b AND 0x7F \<noteq> 0" using True \<open>b \<noteq> 0\<close> and_7f_zero [of b] by (auto simp: unat_eq_zero)
    ultimately show ?thesis using k Cons.prems(1) by (subst append_Cons, subst varint32_step) simp_all
  next
    case False
    then have "varint_bytes bs" using Cons.prems by (simp add: varint_bytes_Cons)
    moreover have "last bs \<noteq> 0" using Cons.prems \<open>varint_bytes bs\<close> by (auto simp: varint_bytes_def)
    ultimately have "fst (varint32_loop (stream_of (bs @ c) m e) r (of_nat (7 * Suc k))) = None"
      using Cons.prems by (intro Cons.IH) simp_all
    then show ?thesis using k False Cons.prems(1) by (subst append_Cons, subst varint32_step) (simp_all add: Let_def)
  qed
qed simp

lemma varint32_big:
  "varint_bytes bs \<Longrightarrow> last bs \<noteq> 0 \<Longrightarrow> k \<le> 4 \<Longrightarrow> k + length bs \<le> 9 \<Longrightarrow> 2 ^ 32 \<le> leb_val bs * 2 ^ (7 * k) \<Longrightarrow>
   fst (varint32_loop (stream_of (bs @ c) m e) r (of_nat (7 * k))) = None"
proof (induction bs arbitrary: k r)
  case (Cons b bs)
  show ?case
  proof (cases "unat b < 128")
    case True
    then have bs: "bs = []" using Cons.prems by (auto simp: varint_bytes_Cons)
    have "k = 4"
    proof (rule ccontr)
      assume "k \<noteq> 4"
      then have "(2 :: nat) ^ (7 * k) \<le> 2 ^ 21" using Cons.prems(3) by (intro power_increasing) simp_all
      then have "unat b * 2 ^ (7 * k) < 128 * 2 ^ 21" using True by (intro mult_less_le_imp_less) simp_all
      then show False using Cons.prems(5) True bs by simp
    qed
    then have "\<not> unat b < 16" using Cons.prems(5) True bs by simp
    then show ?thesis using True bs \<open>k = 4\<close> byte_and_70 [OF True] by (subst append_Cons, subst varint32_step) (simp_all add: Let_def)
  next
    case False
    then have v: "varint_bytes bs" using Cons.prems by (simp add: varint_bytes_Cons)
    then have l: "last bs \<noteq> 0" using Cons.prems by (auto simp: varint_bytes_def)
    show ?thesis
    proof (cases "k = 4")
      case True
      have "fst (varint32_loop (stream_of (bs @ c) m e) (r OR push_bit (7 * k) (ucast (b AND 0x7F))) (of_nat (7 * Suc k))) = None"
        using Cons.prems True by (intro varint32_high [OF v l]) simp_all
      then show ?thesis using False True by (subst append_Cons, subst varint32_step) (simp_all add: Let_def)
    next
      case k: False
      have "2 ^ 32 \<le> leb_val bs * 2 ^ (7 * Suc k)"
      proof (rule ccontr)
        assume "\<not> 2 ^ 32 \<le> leb_val bs * 2 ^ (7 * Suc k)"
        then have lt: "leb_val bs * 2 ^ (7 * Suc k) < 2 ^ (32 - 7 * Suc k) * 2 ^ (7 * Suc k)"
          using Cons.prems(3) k by (simp flip: power_add)
        then have "Suc (leb_val bs) \<le> 2 ^ (32 - 7 * Suc k)" by simp
        then have "Suc (leb_val bs) * 2 ^ (7 * Suc k) \<le> 2 ^ (32 - 7 * Suc k) * 2 ^ (7 * Suc k)" by (rule mult_le_mono1)
        also have "\<dots> = 2 ^ 32" using Cons.prems(3) k by (simp flip: power_add)
        finally have le: "Suc (leb_val bs) * 2 ^ (7 * Suc k) \<le> 2 ^ 32" .
        have "unat b mod 128 < 128" by simp
        then have "unat b mod 128 * 2 ^ (7 * k) < 128 * 2 ^ (7 * k)" by (rule mult_less_mono1) simp
        also have "128 * 2 ^ (7 * k) = (2 :: nat) ^ (7 * Suc k)" by (simp add: power_add)
        finally have "leb_val (b # bs) * 2 ^ (7 * k) < Suc (leb_val bs) * 2 ^ (7 * Suc k)"
          by (simp add: algebra_simps power_add)
        then show False using Cons.prems(5) le by simp
      qed
      then have "fst (varint32_loop (stream_of (bs @ c) m e) (r OR push_bit (7 * k) (ucast (b AND 0x7F))) (of_nat (7 * Suc k))) = None"
        using Cons.prems k by (intro Cons.IH [OF v l]) simp_all
      then show ?thesis using False k Cons.prems(3) by (subst append_Cons, subst varint32_step) (simp_all add: Let_def)
    qed
  qed
qed simp

text \<open>The whole function.\<close>

lemma leb_val_append: "leb_val (xs @ ys) = leb_val xs + 128 ^ length xs * leb_val ys"
  by (induction xs) (simp_all add: algebra_simps)

lemma u32_leb_append:
  "(of_nat (leb_val (xs @ ys)) :: u32) = of_nat (leb_val xs) OR push_bit (7 * length xs) (of_nat (leb_val ys))"
proof (induction xs)
  case (Cons x xs)
  have k7: "7 * length (x # xs) = 7 * length xs + 7" by simp
  show ?case
    unfolding append_Cons u32_leb_Cons Cons k7 by (simp only: push_bit_or push_bit_push_bit or.assoc add.commute)
qed simp

lemma varint32_eof_Cons:
  "pb_decode_varint32_eof (stream_of (b # c) m e) =
     (if unat b < 128 then (Some (ucast b), stream_of c m e, False)
      else (case varint32_loop (stream_of c m e) (ucast (b AND 0x7F)) (of_nat (7 * 1)) of (r, s) \<Rightarrow> (r, s, False)))"
  using byte_and_80 [of b] by (simp add: pb_decode_varint32_eof_def readbyte_Cons)

lemma varint32_leb:
  assumes "n < 2 ^ 32"
  shows "pb_decode_varint32_eof (stream_of (leb n @ c) m e) = (Some (of_nat n), stream_of c m e, False)"
proof (cases "n < 128")
  case True
  then have "unat (of_nat n :: byte) = n" by (intro unat_byte_of_nat) simp
  moreover have "leb n = [of_nat n]" using True by (subst leb.simps) simp
  moreover have "(ucast (of_nat n :: byte) :: u32) = of_nat n"
    using True by (simp add: word_unat_eq_iff unat_ucast_up unat_of_nat take_bit_nat_eq_self)
  ultimately show ?thesis using True by (simp add: varint32_eof_Cons)
next
  case False
  obtain bs b where sh: "leb n = bs @ [b]" "list_all (\<lambda>b. 128 \<le> unat b) bs" "unat b < 128" using leb_shape by blast
  have "bs \<noteq> []"
  proof
    assume "bs = []"
    then have "n = unat b" using leb_val_leb [of n] sh by simp
    then show False using sh(3) False by simp
  qed
  then obtain b0 bs' where bs: "bs = b0 # bs'" by (cases bs) auto
  have len: "length (leb n) \<le> 5" using length_leb [of n 4] assms by simp
  have n: "n = leb_val bs + 128 ^ length bs * unat b" using leb_val_leb [of n] sh by (simp add: leb_val_append)
  have k: "1 + length bs' \<le> 4" using len sh(1) bs by simp
  have b16: "1 + length bs' = 4 \<longrightarrow> unat b < 16"
  proof
    assume "1 + length bs' = 4"
    then have "128 ^ length bs = (128 :: nat) ^ 4" using bs by simp
    then have "128 ^ 4 * unat b < 2 ^ 32" using n assms by simp
    then show "unat b < 16" by simp
  qed
  let ?r = "ucast (b0 AND 0x7F) :: u32"
  have r: "?r OR push_bit (7 * 1) (of_nat (leb_val bs')) = of_nat (leb_val bs)" unfolding bs u32_leb_Cons by simp
  have "varint32_loop (stream_of (bs' @ b # c) m e) ?r (of_nat (7 * 1)) =
      varint32_loop (stream_of (b # c) m e) (of_nat (leb_val bs)) (of_nat (7 * (1 + length bs')))"
    using varint32_more [of bs' 1 "b # c" m e ?r] sh(2) bs k unfolding r by simp
  also have "\<dots> = (Some (of_nat (leb_val bs) OR push_bit (7 * (1 + length bs')) (ucast (b AND 0x7F))), stream_of c m e)"
    by (rule varint32_last [OF k sh(3) b16])
  also have "of_nat (leb_val bs) OR push_bit (7 * (1 + length bs')) (ucast (b AND 0x7F)) = (of_nat n :: u32)"
  proof -
    have "(of_nat (leb_val [b]) :: u32) = ucast (b AND 0x7F)" using u32_leb_Cons [of b "[]"] by simp
    then have "(of_nat (leb_val (bs @ [b])) :: u32) = of_nat (leb_val bs) OR push_bit (7 * length bs) (ucast (b AND 0x7F))"
      unfolding u32_leb_append by (simp only:)
    moreover have "leb_val (bs @ [b]) = n" using leb_val_leb [of n] sh(1) by simp
    moreover have "length bs = 1 + length bs'" using bs by simp
    ultimately show ?thesis by (simp only:)
  qed
  finally show ?thesis using sh bs by (simp add: varint32_eof_Cons)
qed

lemma leb_last: "0 < n \<Longrightarrow> last (leb n) \<noteq> 0"
proof (induction n rule: leb.induct)
  case (1 n)
  show ?case
  proof (cases "n < 128")
    case True
    then have "unat (of_nat n :: byte) = n" by (intro unat_byte_of_nat) simp
    then have "(of_nat n :: byte) \<noteq> 0" using 1(2) by (metis less_irrefl unat_0)
    then show ?thesis using True by (subst leb.simps) simp
  next
    case False
    moreover have "leb (n div 128) \<noteq> []" using leb_shape [of "n div 128"] by auto
    ultimately show ?thesis using 1 by (subst leb.simps) simp
  qed
qed

lemma varint32_overflow:
  assumes "2 ^ 32 \<le> n" and "n < 2 ^ 63"
  shows "fst (pb_decode_varint32_eof (stream_of (leb n @ c) m e)) = None"
proof -
  have len: "length (leb n) \<le> 9" using length_leb [of n 8] assms(2) by simp
  have nl: "n \<ge> 128" using assms(1) by simp
  obtain b bs where bs: "leb n = b # bs" "128 \<le> unat b" "bs = leb (n div 128)"
  proof -
    have "n mod 128 < 128" by simp
    then have "unat (of_nat (128 + n mod 128) :: byte) = 128 + n mod 128" by (intro unat_byte_of_nat) simp
    moreover have "leb n = of_nat (128 + n mod 128) # leb (n div 128)" using nl by (subst leb.simps) simp
    ultimately show thesis using that [of "of_nat (128 + n mod 128)" "leb (n div 128)"] by simp
  qed
  have "0 < n div 128" using nl by (simp add: div_greater_zero_iff)
  have "2 ^ 32 div 128 \<le> n div 128" using assms(1) by (rule div_le_mono)
  then have "2 ^ 32 \<le> leb_val bs * 2 ^ (7 * 1)" by (simp add: bs(3) leb_val_leb)
  then have "fst (varint32_loop (stream_of (bs @ c) m e) (ucast (b AND 0x7F)) (of_nat (7 * 1))) = None"
    using len bs(1) leb_last [OF \<open>0 < n div 128\<close>] varint_bytes_leb [of "n div 128"]
    by (intro varint32_big) (simp_all add: bs(3) [symmetric])
  then show ?thesis using bs(1,2) by (simp add: varint32_eof_Cons case_prod_unfold)
qed

end
