(* ===== verification/Pb_Wire.thy ===== *)
theory Pb_Wire
  imports Pb_Read
begin

text \<open>
  nanopb's writers and readers fit together: round trips of the scalars, tags and strings, skipping of
  unknown fields, and substreams.
\<close>

section \<open>Fixed-width integers and zig-zag\<close>

lemma unat_or_push:
  fixes y :: "'a::len word" and b :: byte
  assumes "unat y < 2 ^ k" and "k + 8 \<le> LENGTH('a)"
  shows "unat (y OR push_bit k (ucast b)) = unat y + 2 ^ k * unat b" and "unat (y OR push_bit k (ucast b)) < 2 ^ (k + 8)"
proof -
  have b: "unat (ucast b :: 'a word) = unat b" using assms(2) by (simp add: unat_ucast_up)
  have "2 ^ k * unat b + 2 ^ k \<le> 2 ^ k * (256 :: nat)"
  proof -
    have "Suc (unat b) \<le> 256" using unat_byte_less [of b] by simp
    then have "2 ^ k * Suc (unat b) \<le> 2 ^ k * (256 :: nat)" by (rule mult_le_mono2)
    then show ?thesis by simp
  qed
  with assms(1) have "unat y + 2 ^ k * unat b < 2 ^ k * 256" by linarith
  then have lt: "unat y + 2 ^ k * unat b < 2 ^ (k + 8)" by (simp add: power_add)
  moreover have "(2 :: nat) ^ (k + 8) \<le> 2 ^ LENGTH('a)" using assms(2) by (rule power_increasing) simp
  ultimately have "unat y + 2 ^ k * unat b < 2 ^ LENGTH('a)" by (rule less_le_trans)
  then have "unat (ucast b :: 'a word) * 2 ^ k + unat y < 2 ^ LENGTH('a)" by (simp add: b mult.commute add.commute)
  from unat_shift_or [OF this assms(1)] show e: "unat (y OR push_bit k (ucast b)) = unat y + 2 ^ k * unat b"
    by (simp add: b or.commute mult.commute)
  show "unat (y OR push_bit k (ucast b)) < 2 ^ (k + 8)" using lt unfolding e .
qed

definition le_nat :: "byte list \<Rightarrow> nat" where
  "le_nat bs = be_nat (rev bs)"

lemma le_nat_Cons: "le_nat (b # bs) = unat b + 256 * le_nat bs"
  by (simp add: le_nat_def)

lemma le_bytes_le_nat: "length bs = n \<Longrightarrow> le_bytes n (le_nat bs) = bs"
  using be_bytes_be_nat [of "rev bs"] by (simp add: le_bytes_def le_nat_def)

lemma le_nat_le_bytes: "le_nat (le_bytes n v) = v mod 256 ^ n"
  by (simp add: le_bytes_def le_nat_def be_nat_be_bytes)

lemma fixed32_val:
  assumes "length bs = 4"
  shows "unat (push_bit 0 (ucast (bs ! 0)) OR push_bit 8 (ucast (bs ! 1)) OR push_bit 16 (ucast (bs ! 2)) OR
    push_bit 24 (ucast (bs ! 3)) :: u32) = le_nat bs"
proof -
  obtain b0 b1 b2 b3 where bs: "bs = [b0, b1, b2, b3]" using assms by (auto simp: length_Suc_conv eval_nat_numeral)
  have "unat (ucast b0 :: u32) < 2 ^ 8" using unat_byte_less [of b0] by (simp add: unat_ucast_up)
  note s1 = unat_or_push [OF this, of b1]
  note s2 = unat_or_push [OF s1(2), of b2]
  note s3 = unat_or_push [OF s2(2), of b3]
  show ?thesis using s1(1) s2(1) s3(1) by (simp add: bs le_nat_def be_nat_def unat_ucast_up or.assoc algebra_simps)
qed

lemma fixed64_val:
  assumes "length bs = 8"
  shows "unat (push_bit 0 (ucast (bs ! 0)) OR push_bit 8 (ucast (bs ! 1)) OR push_bit 16 (ucast (bs ! 2)) OR
    push_bit 24 (ucast (bs ! 3)) OR push_bit 32 (ucast (bs ! 4)) OR push_bit 40 (ucast (bs ! 5)) OR
    push_bit 48 (ucast (bs ! 6)) OR push_bit 56 (ucast (bs ! 7)) :: u64) = le_nat bs"
proof -
  obtain b0 b1 b2 b3 b4 b5 b6 b7 where bs: "bs = [b0, b1, b2, b3, b4, b5, b6, b7]"
    using assms by (auto simp: length_Suc_conv eval_nat_numeral)
  have "unat (ucast b0 :: u64) < 2 ^ 8" using unat_byte_less [of b0] by (simp add: unat_ucast_up)
  note s1 = unat_or_push [OF this, of b1]
  note s2 = unat_or_push [OF s1(2), of b2]
  note s3 = unat_or_push [OF s2(2), of b3]
  note s4 = unat_or_push [OF s3(2), of b4]
  note s5 = unat_or_push [OF s4(2), of b5]
  note s6 = unat_or_push [OF s5(2), of b6]
  note s7 = unat_or_push [OF s6(2), of b7]
  show ?thesis using s1(1) s2(1) s3(1) s4(1) s5(1) s6(1) s7(1)
    by (simp add: bs le_nat_def be_nat_def unat_ucast_up or.assoc algebra_simps)
qed

lemma fixed_iff:
  fixes v :: "'a::len word"
  assumes "256 ^ n = (2 :: nat) ^ LENGTH('a)" and "\<And>bs. length bs = n \<Longrightarrow> unat (f bs :: 'a word) = le_nat bs"
  shows "(case pb_read (stream_of c m e) False n of (None, s) \<Rightarrow> (None, s) | (Some bytes, s) \<Rightarrow> (Some (f bytes), s)) = (Some v, s')
    \<longleftrightarrow> (\<exists>c'. c = le_bytes n (unat v) @ c' \<and> s' = stream_of c' m e)" (is "?L \<longleftrightarrow> ?R")
proof
  assume ?L
  then obtain bs where "pb_read (stream_of c m e) False n = (Some bs, s')" "v = f bs"
    by (auto split: prod.splits option.splits)
  then obtain c' where c': "length bs = n" "c = bs @ c'" "s' = stream_of c' m e" by (auto simp: read_iff)
  then have "le_bytes n (unat v) = bs" using assms(2) [of bs] \<open>v = f bs\<close> by (simp add: le_bytes_le_nat)
  then show ?R using c' by blast
next
  assume ?R
  then obtain c' where c': "c = le_bytes n (unat v) @ c'" "s' = stream_of c' m e" by blast
  have "unat v < 256 ^ n" using assms(1) by simp
  then have "unat (f (le_bytes n (unat v))) = unat v" using assms(2) [of "le_bytes n (unat v)"] by (simp add: le_nat_le_bytes)
  then have "f (le_bytes n (unat v)) = v" by (simp only: word_unat_eq_iff)
  then show ?L using c' read_append [of "le_bytes n (unat v)" n c' m e False] by simp
qed

lemma decode_fixed32_iff:
  "pb_decode_fixed32 (stream_of c m e) = (Some v, s') \<longleftrightarrow> (\<exists>c'. c = le_bytes 4 (unat v) @ c' \<and> s' = stream_of c' m e)"
  unfolding pb_decode_fixed32_def by (rule fixed_iff) (simp, rule fixed32_val)

lemma decode_fixed64_iff:
  "pb_decode_fixed64 (stream_of c m e) = (Some v, s') \<longleftrightarrow> (\<exists>c'. c = le_bytes 8 (unat v) @ c' \<and> s' = stream_of c' m e)"
  unfolding pb_decode_fixed64_def by (rule fixed_iff) (simp, rule fixed64_val)

lemma unzigzag:
  fixes v :: u64
  defines "z \<equiv> if sint v < 0 then NOT (push_bit 1 v) else push_bit 1 v"
  shows "(if z AND 1 \<noteq> 0 then NOT (drop_bit 1 z) else drop_bit 1 z) = v"
proof -
  have s: "sint v < 0 \<longleftrightarrow> bit v 63"
    using bit_uint_iff [of v 63] by (simp add: sint_uint signed_take_bit_negative_iff)
  have odd: "w AND 1 \<noteq> 0 \<longleftrightarrow> bit w 0" for w :: u64 by (simp add: and_one_eq bit_0 mod_2_eq_odd)
  define p where "p = push_bit 1 v"
  have p: "bit p n \<longleftrightarrow> 1 \<le> n \<and> n < 64 \<and> bit v (n - 1)" for n
    unfolding p_def by (subst bit_push_bit_iff) (auto dest: bit_imp_le_length)
  have z: "z = (if bit v 63 then NOT p else p)" by (simp add: z_def s p_def)
  show ?thesis
  proof (cases "bit v 63")
    case True
    have b: "bit z 0" using True by (simp add: z p bit_not_iff)
    have "NOT (drop_bit 1 z) = v"
    proof (rule bit_word_eqI)
      fix n assume "n < LENGTH(64)"
      then show "bit (NOT (drop_bit 1 z)) n \<longleftrightarrow> bit v n" using True
        by (cases "n = 63") (auto simp: z p bit_not_iff bit_drop_bit_eq)
    qed
    then show ?thesis using b odd by simp
  next
    case False
    have b: "\<not> bit z 0" using False by (simp add: z p)
    have "drop_bit 1 z = v"
    proof (rule bit_word_eqI)
      fix n assume "n < LENGTH(64)"
      then show "bit (drop_bit 1 z) n \<longleftrightarrow> bit v n" using False
        by (cases "n = 63") (auto simp: z p bit_drop_bit_eq)
    qed
    then show ?thesis using b odd by simp
  qed
qed

lemma decode_svarint_zigzag: "pb_decode_svarint (stream_of (leb (zigzag v) @ c) m e) = (Some v, stream_of c m e)"
  using decode_varint_leb [of "if sint v < 0 then NOT (push_bit 1 v) else push_bit 1 v" c m e] unzigzag [of v]
  by (simp only: pb_decode_svarint_def unat_zigzag prod.case option.case)

section \<open>The codecs\<close>

definition on_buffer :: "(unit pb_istream_t \<Rightarrow> 'v option \<times> unit pb_istream_t) \<Rightarrow> byte list \<Rightarrow> 'v option \<times> byte list" where
  "on_buffer dec c =
     (case dec (pb_istream_from_buffer c (length c)) of
        (r, s) \<Rightarrow> (r, case is_source s of Buf_read b \<Rightarrow> b | Callback f st \<Rightarrow> []))"

lemma on_bufferI: "dec (stream_of c [] None) = (r, stream_of c' [] e) \<Longrightarrow> on_buffer dec c = (r, c')"
  by (simp add: on_buffer_def from_buffer)

interpretation pb_varint: decoder "\<lambda>v. leb (unat v)" "on_buffer pb_decode_varint" "\<lambda>_. True"
  by unfold_locales (rule on_bufferI, rule decode_varint_leb)

interpretation pb_svarint: decoder "\<lambda>v. leb (zigzag v)" "on_buffer pb_decode_svarint" "\<lambda>_. True"
  by unfold_locales (rule on_bufferI, rule decode_svarint_zigzag)

lemma on_buffer_Some:
  assumes "on_buffer dec c = (Some v, c')" and "\<And>s. dec (stream_of c [] None) = (Some v, s) \<Longrightarrow> \<exists>c''. c = f v @ c'' \<and> s = stream_of c'' [] None"
  shows "c = f v @ c'"
proof -
  obtain s where s: "dec (stream_of c [] None) = (Some v, s)"
    and c': "c' = (case is_source s of Buf_read b \<Rightarrow> b | Callback f st \<Rightarrow> [])"
    using assms(1) by (auto simp: on_buffer_def from_buffer split: prod.splits)
  from assms(2) [OF s] c' show ?thesis by auto
qed

interpretation pb_fixed32: canonical_codec "\<lambda>v. le_bytes 4 (unat v)" "on_buffer pb_decode_fixed32" "\<lambda>_. True"
proof
  show "on_buffer pb_decode_fixed32 (le_bytes 4 (unat v) @ rest) = (Some v, rest)" for v rest
    by (rule on_bufferI [of _ _ _ _ None]) (auto simp: decode_fixed32_iff)
  show "True \<and> c = le_bytes 4 (unat v) @ c'" if "on_buffer pb_decode_fixed32 c = (Some v, c')" for c c' v
    using on_buffer_Some [OF that, of "\<lambda>v. le_bytes 4 (unat v)"] by (simp add: decode_fixed32_iff)
qed

interpretation pb_fixed64: canonical_codec "\<lambda>v. le_bytes 8 (unat v)" "on_buffer pb_decode_fixed64" "\<lambda>_. True"
proof
  show "on_buffer pb_decode_fixed64 (le_bytes 8 (unat v) @ rest) = (Some v, rest)" for v rest
    by (rule on_bufferI [of _ _ _ _ None]) (auto simp: decode_fixed64_iff)
  show "True \<and> c = le_bytes 8 (unat v) @ c'" if "on_buffer pb_decode_fixed64 c = (Some v, c')" for c c' v
    using on_buffer_Some [OF that, of "\<lambda>v. le_bytes 8 (unat v)"] by (simp add: decode_fixed64_iff)
qed

fun pb_write_all :: "('s pb_ostream_t \<Rightarrow> 'v \<Rightarrow> bool \<times> 's pb_ostream_t) \<Rightarrow> 's pb_ostream_t \<Rightarrow> 'v list \<Rightarrow> bool \<times> 's pb_ostream_t" where
  "pb_write_all enc s [] = (True, s)"
| "pb_write_all enc s (v # vs) = and_then (enc s v) (\<lambda>s. pb_write_all enc s vs)"

lemma emits_nothing: "emits (\<lambda>s. (True, s)) []"
  by (auto simp: emits_def appended_def buffer_stream_def)

lemma emits_all: "(\<And>v. emits (\<lambda>s. enc s v) (f v)) \<Longrightarrow> emits (\<lambda>s. pb_write_all enc s vs) (concat (map f vs))"
proof (induction vs)
  case Nil
  then show ?case by (simp add: emits_nothing)
next
  case (Cons v vs)
  then show ?case using emits_then [of "\<lambda>s. enc s v" "f v" "\<lambda>s. pb_write_all enc s vs"] by simp
qed

lemma buffer_stream_from_buffer: "length buf < SIZE_MOD \<Longrightarrow> buffer_stream (pb_ostream_from_buffer buf (length buf))"
  by (simp add: buffer_stream_def pb_ostream_from_buffer_def)

lemma emitted_from_buffer:
  assumes "emits f bs" and "length buf < SIZE_MOD" and "f (pb_ostream_from_buffer buf (length buf)) = (True, s)"
  shows "take (bytes_written s) (fst (os_state s)) = bs" and "bytes_written s = length bs"
proof -
  let ?s0 = "pb_ostream_from_buffer buf (length buf)"
  note b = buffer_stream_from_buffer [OF assms(2)]
  have fits: "bytes_written ?s0 + length bs \<le> max_size ?s0"
  proof (rule ccontr)
    assume "\<not> bytes_written ?s0 + length bs \<le> max_size ?s0"
    from emitsD(3) [OF assms(1) b this] assms(3) show False by auto
  qed
  from emitsD(2) [OF assms(1) b fits] have "s = appended ?s0 bs" using assms(3) by simp
  moreover have "length bs \<le> length buf" using fits by (simp add: pb_ostream_from_buffer_def)
  ultimately show "take (bytes_written s) (fst (os_state s)) = bs" "bytes_written s = length bs"
    by (simp_all add: appended_def pb_ostream_from_buffer_def mem_write_def)
qed

text \<open>What was written to a buffer, value by value, is read back from what is in the buffer.\<close>

definition round_trips ::
  "(buf_ostream \<Rightarrow> 'v \<Rightarrow> bool \<times> buf_ostream) \<Rightarrow> (unit pb_istream_t \<Rightarrow> 'v option \<times> unit pb_istream_t) \<Rightarrow> bool" where
  "round_trips enc dec \<longleftrightarrow>
     (\<forall>vs buf s. length buf < SIZE_MOD \<and> pb_write_all enc (pb_ostream_from_buffer buf (length buf)) vs = (True, s) \<longrightarrow>
        decode_n (on_buffer dec) (length vs) (take (bytes_written s) (fst (os_state s))) = (Some vs, []))"

lemma round_tripsI:
  assumes "\<And>v. emits (\<lambda>s. enc s v) (f v)" and "\<And>vs. decode_n (on_buffer dec) (length vs) (concat (map f vs)) = (Some vs, [])"
  shows "round_trips enc dec"
  unfolding round_trips_def
proof (intro allI impI)
  fix vs and buf :: "byte list" and s :: buf_ostream
  assume h: "length buf < SIZE_MOD \<and> pb_write_all enc (pb_ostream_from_buffer buf (length buf)) vs = (True, s)"
  have "emits (\<lambda>s. pb_write_all enc s vs) (concat (map f vs))" by (rule emits_all) (rule assms(1))
  from emitted_from_buffer(1) [OF this] h
  have "take (bytes_written s) (fst (os_state s)) = concat (map f vs)" by blast
  then show "decode_n (on_buffer dec) (length vs) (take (bytes_written s) (fst (os_state s))) = (Some vs, [])"
    using assms(2) by simp
qed

section \<open>Fields\<close>

datatype wire_value = Wvarint u64 | W64bit u64 | Wstring "byte list" | W32bit u32

fun wire_type :: "wire_value \<Rightarrow> pb_wire_type_t" where
  "wire_type (Wvarint v) = PB_WT_VARINT"
| "wire_type (W64bit v) = PB_WT_64BIT"
| "wire_type (Wstring bs) = PB_WT_STRING"
| "wire_type (W32bit v) = PB_WT_32BIT"

fun wire_payload :: "wire_value \<Rightarrow> byte list" where
  "wire_payload (Wvarint v) = leb (unat v)"
| "wire_payload (W64bit v) = le_bytes 8 (unat v)"
| "wire_payload (Wstring bs) = leb (length bs) @ bs"
| "wire_payload (W32bit v) = le_bytes 4 (unat v)"

fun wire_ok :: "wire_value \<Rightarrow> bool" where
  "wire_ok (Wstring bs) \<longleftrightarrow> length bs < 2 ^ 32"
| "wire_ok _ \<longleftrightarrow> True"

fun write_payload :: "'s pb_ostream_t \<Rightarrow> wire_value \<Rightarrow> bool \<times> 's pb_ostream_t" where
  "write_payload s (Wvarint v) = pb_encode_varint s v"
| "write_payload s (W64bit v) = pb_encode_fixed64 s v"
| "write_payload s (Wstring bs) = pb_encode_string s bs (length bs)"
| "write_payload s (W32bit v) = pb_encode_fixed32 s v"

definition write_field :: "'s pb_ostream_t \<Rightarrow> u32 \<Rightarrow> wire_value \<Rightarrow> bool \<times> 's pb_ostream_t" where
  "write_field s t w = and_then (pb_encode_tag s (wire_type w) t) (\<lambda>s. write_payload s w)"

definition field_bytes :: "u32 \<Rightarrow> wire_value \<Rightarrow> byte list" where
  "field_bytes t w = leb (unat t * 8 + unat (wire_type w)) @ wire_payload w"

lemma wire_type_less: "unat (wire_type w) < 8"
  by (cases w) (simp_all add: PB_WT_VARINT_def PB_WT_64BIT_def PB_WT_STRING_def PB_WT_32BIT_def)

lemma emits_payload: "wire_ok w \<Longrightarrow> emits (\<lambda>s. write_payload s w) (wire_payload w)"
proof (cases w)
  case (Wstring bs)
  assume "wire_ok w"
  then have "length bs < SIZE_MOD" using Wstring by (simp add: SIZE_MOD_def)
  from emits_string [OF this] show ?thesis by (simp add: Wstring)
qed (simp_all add: emits_varint emits_fixed64 emits_fixed32)

lemma emits_field: "wire_ok w \<Longrightarrow> emits (\<lambda>s. write_field s t w) (field_bytes t w)"
  unfolding write_field_def field_bytes_def by (intro emits_then emits_tag emits_payload wire_type_less)

lemma decode_any_tag:
  assumes "0 < unat t" and "unat t < 2 ^ 29" and "k < 8"
  shows "pb_decode_tag (stream_of (leb (unat t * 8 + k) @ c) m e) = (Some (of_nat k, t), stream_of c m e, False)"
proof -
  let ?n = "unat t * 8 + k"
  have n: "?n < 2 ^ 32" "0 < ?n" using assms by simp_all
  have u: "unat (of_nat ?n :: u32) = ?n" using n(1) by (subst unat_of_nat) (simp add: take_bit_nat_eq_self)
  have "(of_nat ?n :: u32) \<noteq> 0"
  proof
    assume "(of_nat ?n :: u32) = 0"
    then have "unat (of_nat ?n :: u32) = 0" by simp
    then show False using u n(2) by simp
  qed
  moreover have "(of_nat ?n :: u32) AND 7 = of_nat k"
  proof -
    have "unat ((of_nat ?n :: u32) AND mask 3) = ?n mod 2 ^ 3" by (simp only: unat_and_mask u)
    also have "\<dots> = k" using assms(3) by simp
    finally have "unat ((of_nat ?n :: u32) AND 7) = k" by (simp add: mask_eq_exp_minus_1)
    then show ?thesis using assms(3) by (simp add: word_unat_eq_iff unat_of_nat take_bit_nat_eq_self)
  qed
  moreover have "drop_bit 3 (of_nat ?n :: u32) = t"
  proof -
    have "unat (drop_bit 3 (of_nat ?n :: u32)) = ?n div 2 ^ 3" by (simp only: unat_drop_bit u)
    also have "\<dots> = unat t" using assms(3) by simp
    finally show ?thesis by (simp only: word_unat_eq_iff)
  qed
  ultimately show ?thesis by (simp only: pb_decode_tag_def varint32_leb [OF n(1)] prod.case option.case if_False)
qed

lemma decode_tag:
  assumes "0 < unat t" and "unat t < 2 ^ 29"
  shows "pb_decode_tag (stream_of (leb (unat t * 8 + unat (wire_type w)) @ c) m e) = (Some (wire_type w, t), stream_of c m e, False)"
  using decode_any_tag [OF assms wire_type_less, of w c m e] by simp

lemma decode_varint32: "n < 2 ^ 32 \<Longrightarrow> pb_decode_varint32 (stream_of (leb n @ c) m e) = (Some (of_nat n), stream_of c m e)"
  by (simp add: pb_decode_varint32_def varint32_leb)

lemma skip_bytes_append: "length a = n \<Longrightarrow> skip_bytes (stream_of (a @ c) m e) n = (Some (), stream_of c m e)"
  by (simp add: skip_bytes_def read_append)

lemma wt_distinct: "PB_WT_64BIT \<noteq> PB_WT_VARINT" "PB_WT_STRING \<noteq> PB_WT_VARINT" "PB_WT_STRING \<noteq> PB_WT_64BIT"
  "PB_WT_32BIT \<noteq> PB_WT_VARINT" "PB_WT_32BIT \<noteq> PB_WT_64BIT" "PB_WT_32BIT \<noteq> PB_WT_STRING"
  by code_simp+

lemma skip_payload:
  assumes "wire_ok w"
  shows "pb_skip_field (stream_of (wire_payload w @ c) m e) (wire_type w) = (Some (), stream_of c m e)"
proof (cases w)
  case (Wvarint v)
  then show ?thesis by (simp add: pb_skip_field_def skip_varint [OF varint_bytes_leb])
next
  case (Wstring bs)
  then have l: "length bs < 2 ^ 32" using assms by simp
  then have "unat (of_nat (length bs) :: u32) = length bs" by (subst unat_of_nat) (simp add: take_bit_nat_eq_self)
  then show ?thesis
    using decode_varint32 [OF l, of "bs @ c" m e] read_append [of bs "length bs" c m e True] wt_distinct
    by (simp add: Wstring pb_skip_field_def pb_skip_string_def)
qed (simp_all add: pb_skip_field_def skip_bytes_append wt_distinct)

section \<open>Substreams and wide values\<close>

text \<open>The parent of a substream, while the substream is read: \<open>c\<close> follows the substream.\<close>

definition parent_of :: "byte list \<Rightarrow> byte list \<Rightarrow> byte list \<Rightarrow> string option \<Rightarrow> unit pb_istream_t" where
  "parent_of data c m e = \<lparr>is_source = Buf_read (data @ c @ m), bytes_left = length c, is_errmsg = e\<rparr>"

lemma make_substream:
  assumes "length data < 2 ^ 32"
  shows "pb_make_string_substream (stream_of (leb (length data) @ data @ c) m e) = (Some (stream_of data (c @ m) e), parent_of data c m e)"
proof -
  have "unat (of_nat (length data) :: u32) = length data" using assms by (subst unat_of_nat) (simp add: take_bit_nat_eq_self)
  then show ?thesis
    by (simp add: pb_make_string_substream_def decode_varint32 [OF assms]) (simp add: stream_of_def parent_of_def)
qed

lemma close_substream:
  "pb_close_string_substream (parent_of data c m e) (stream_of rest (c @ m) e') = (Some (), stream_of c m e')"
proof (cases "rest = []")
  case True
  then show ?thesis by (simp add: pb_close_string_substream_def parent_of_def stream_of_def)
next
  case False
  have "pb_read (stream_of (rest @ []) (c @ m) e') True (length rest) = (Some rest, stream_of [] (c @ m) e')"
    by (rule read_append) simp
  then show ?thesis using False by (simp add: pb_close_string_substream_def parent_of_def stream_of_def)
qed

lemma short_substream:
  assumes "n < 2 ^ 32" and "length c < n"
  shows "pb_make_string_substream (stream_of (leb n @ c) m e) = (None, stream_of c m (failed e ''parent stream too short''))"
proof -
  have "unat (of_nat n :: u32) = n" using assms(1) by (subst unat_of_nat) (simp add: take_bit_nat_eq_self)
  then show ?thesis using assms(2)
    by (simp add: pb_make_string_substream_def decode_varint32 [OF assms(1)] error_stream_of)
qed

lemma leb_split:
  "128 ^ k \<le> n \<Longrightarrow> \<exists>bs. length bs = k \<and> list_all (\<lambda>b. 128 \<le> unat b) bs \<and> leb_val bs = n mod 128 ^ k \<and> leb n = bs @ leb (n div 128 ^ k)"
proof (induction k arbitrary: n)
  case (Suc k)
  have n: "128 \<le> n"
  proof -
    have "(128 :: nat) ^ 1 \<le> 128 ^ Suc k" by (rule power_increasing) simp_all
    from this Suc.prems have "128 ^ 1 \<le> n" by (rule le_trans)
    then show ?thesis by simp
  qed
  have "128 ^ Suc k div 128 \<le> n div 128" using Suc.prems by (rule div_le_mono)
  then have "128 ^ k \<le> n div 128" by simp
  from Suc.IH [OF this] obtain bs where bs: "length bs = k" "list_all (\<lambda>b. 128 \<le> unat b) bs"
    "leb_val bs = n div 128 mod 128 ^ k" "leb (n div 128) = bs @ leb (n div 128 div 128 ^ k)" by blast
  let ?b = "of_nat (128 + n mod 128) :: byte"
  have "n mod 128 < 128" by simp
  then have b: "unat ?b = 128 + n mod 128" by (intro unat_byte_of_nat) simp
  have "leb n = ?b # leb (n div 128)" using n by (subst leb.simps) simp
  moreover have "n div 128 div 128 ^ k = n div 128 ^ Suc k" by (simp add: div_mult2_eq)
  moreover have "leb_val (?b # bs) = n mod 128 ^ Suc k"
    using mod_mult2_eq [of n 128 "128 ^ k"] b bs(3) by simp
  ultimately show ?case using bs b by (intro exI [of _ "?b # bs"]) simp
qed (simp add: exI [of _ "[]"])

lemma varint32_sign_extended:
  assumes "2 ^ 64 - 2 ^ 31 \<le> n" and "n < 2 ^ 64"
  shows "pb_decode_varint32_eof (stream_of (leb n @ c) m e) = (Some (of_nat n), stream_of c m e, False)"
proof -
  have "128 ^ 5 \<le> n" using assms(1) by simp
  then obtain bs where bs: "length bs = 5" "list_all (\<lambda>b. 128 \<le> unat b) bs" "leb_val bs = n mod 128 ^ 5"
    "leb n = bs @ leb (n div 128 ^ 5)" using leb_split [of 5 n] by auto
  have hi: "n div 128 ^ 5 = 2 ^ 29 - 1"
    using assms by (simp add: div_nat_eqI)
  have "leb (2 ^ 29 - 1) = [0xFF, 0xFF, 0xFF, 0xFF, 1]" by (simp add: leb.simps)
  then have l: "leb n = bs @ [0xFF, 0xFF, 0xFF, 0xFF, 1]" using bs(4) hi by simp
  obtain b bs' where b: "bs = b # bs'" using bs(1) by (cases bs) auto
  let ?r = "of_nat n :: u32"
  have rm: "(of_nat (leb_val bs) :: u32) = ?r"
  proof -
    have "(n mod 128 ^ 5) mod 2 ^ 32 = n mod (2 ^ 32 :: nat)" by (rule mod_mod_cancel) simp
    then show ?thesis unfolding bs(3) by (simp add: word_unat_eq_iff unat_of_nat take_bit_eq_mod)
  qed
  have ur: "2 ^ 31 \<le> unat ?r"
  proof -
    have "unat ?r = n mod 2 ^ 32" by (simp add: unat_of_nat take_bit_eq_mod)
    moreover have "n mod 2 ^ 32 = n - (2 ^ 64 - 2 ^ 32)"
    proof -
      have "n = (n - (2 ^ 64 - 2 ^ 32)) + (2 ^ 32 - 1) * 2 ^ 32" using assms(1) by simp
      then have "n mod 2 ^ 32 = (n - (2 ^ 64 - 2 ^ 32)) mod 2 ^ 32" by (metis mod_mult_self1)
      then show ?thesis using assms(2) by simp
    qed
    ultimately show ?thesis using assms(1) by simp
  qed
  have r0: "(ucast (b AND 0x7F) :: u32) OR push_bit (7 * 1) (of_nat (leb_val bs')) = ?r"
    using rm unfolding b u32_leb_Cons by simp
  have "varint32_loop (stream_of (bs' @ [0xFF, 0xFF, 0xFF, 0xFF, 1] @ c) m e) (ucast (b AND 0x7F)) (of_nat (7 * 1)) =
      varint32_loop (stream_of ([0xFF, 0xFF, 0xFF, 0xFF, 1] @ c) m e) ?r (of_nat (7 * (1 + length bs')))"
    using varint32_more [of bs' 1 "[0xFF, 0xFF, 0xFF, 0xFF, 1] @ c" m e "ucast (b AND 0x7F)"] bs(1,2) b unfolding r0 by simp
  also have "1 + length bs' = 5" using bs(1) b by simp
  also have "varint32_loop (stream_of ([0xFF, 0xFF, 0xFF, 0xFF, 1] @ c) m e) ?r (of_nat (7 * 5)) = (Some ?r, stream_of c m e)"
  proof -
    have ff: "varint32_loop (stream_of (0xFF # d) m e) ?r (of_nat (7 * k)) = varint32_loop (stream_of d m e) ?r (of_nat (7 * Suc k))"
      if "5 \<le> k" "k \<le> 8" for k d
      using that ur by (subst varint32_step) (simp_all add: Let_def)
    have one: "varint32_loop (stream_of (1 # d) m e) ?r (of_nat (7 * 9)) = (Some ?r, stream_of d m e)" for d
      using ur by (subst varint32_step) (simp_all add: Let_def)
    show ?thesis
      using ff [of 5 "0xFF # 0xFF # 0xFF # 1 # c"] ff [of 6 "0xFF # 0xFF # 1 # c"] ff [of 7 "0xFF # 1 # c"] ff [of 8 "1 # c"]
        one [of c]
      by simp
  qed
  finally have "varint32_loop (stream_of (bs' @ [0xFF, 0xFF, 0xFF, 0xFF, 1] @ c) m e) (ucast (b AND 0x7F)) (of_nat (7 * 1)) =
      (Some ?r, stream_of c m e)" .
  then show ?thesis using bs(2) b by (simp add: l varint32_eof_Cons)
qed

end
