(* ===== verification/Pb_Common.thy ===== *)
theory Pb_Common
  imports Pb_Encode
begin

text \<open>
  The field iterator of nanopb (\<open>pb_common.c\<close>, \<open>pb_common.h\<close>). Pointers into the message structure are
  64 bit addresses, 0 for NULL, and pointer arithmetic wraps. The iterator's \<open>start\<close> is the array of
  field descriptors, which ends with a descriptor whose tag is 0, and \<open>pos\<close> an index into it.
\<close>

record pb_field_iter_t =
  it_start :: "pb_field_t list"
  it_pos :: nat
  required_field_index :: u32
  dest_struct :: u64
  pData :: u64
  pSize :: u64

abbreviation it_field :: "pb_field_iter_t \<Rightarrow> pb_field_t" where
  "it_field iter \<equiv> it_start iter ! it_pos iter"

definition pb_field_iter_begin :: "pb_field_t list \<Rightarrow> u64 \<Rightarrow> bool \<times> pb_field_iter_t" where
  "pb_field_iter_begin fs dest =
     (let pos = fs ! 0;
          data = (if dest = 0 then 0 else dest + ucast (data_offset pos));
          sz = (if dest = 0 then 0 else data + scast (size_offset pos))
      in (field_tag pos \<noteq> 0,
          \<lparr>it_start = fs, it_pos = 0, required_field_index = 0, dest_struct = dest, pData = data, pSize = sz\<rparr>))"

text \<open>\<open>prev_size\<close>, a \<open>size_t\<close>.\<close>

definition iter_prev_size :: "pb_field_t \<Rightarrow> u64" where
  "iter_prev_size prev_field =
     (if PB_ATYPE (field_type prev_field) = PB_ATYPE_STATIC \<and> PB_HTYPE (field_type prev_field) = PB_HTYPE_REPEATED
      then ucast (data_size prev_field) * ucast (array_size prev_field)
      else if PB_ATYPE (field_type prev_field) = PB_ATYPE_POINTER then 8
      else ucast (data_size prev_field))"

definition pb_field_iter_next :: "pb_field_iter_t \<Rightarrow> bool \<times> pb_field_iter_t" where
  "pb_field_iter_next iter =
     (let prev_field = it_field iter
      in if field_tag prev_field = 0 then (False, iter)
         else let iter = iter\<lparr>it_pos := it_pos iter + 1\<rparr>
              in if field_tag (it_field iter) = 0
                 then (False, snd (pb_field_iter_begin (it_start iter) (dest_struct iter)))
                 else if PB_HTYPE (field_type prev_field) = PB_HTYPE_ONEOF \<and>
                         PB_HTYPE (field_type (it_field iter)) = PB_HTYPE_ONEOF \<and>
                         data_offset (it_field iter) = PB_SIZE_MAX
                 then (True, iter)
                 else let iter = (if PB_HTYPE (field_type prev_field) = PB_HTYPE_REQUIRED
                                  then iter\<lparr>required_field_index := required_field_index iter + 1\<rparr> else iter);
                          data = pData iter + iter_prev_size prev_field + ucast (data_offset (it_field iter))
                      in (True, iter\<lparr>pData := data, pSize := data + scast (size_offset (it_field iter))\<rparr>))"

text \<open>
  The loop of \<open>pb_field_iter_find\<close> runs until it is back at its start. It takes fuel, and the number of
  descriptors is enough for an array that has a terminator (\<open>iter_find_exact\<close> below).
\<close>

fun iter_find_loop :: "nat \<Rightarrow> pb_field_iter_t \<Rightarrow> u32 \<Rightarrow> nat \<Rightarrow> (bool \<times> pb_field_iter_t) option" where
  "iter_find_loop 0 iter tag start = None"
| "iter_find_loop (Suc fuel) iter tag start =
     (if field_tag (it_field iter) = tag \<and> PB_LTYPE (field_type (it_field iter)) \<noteq> PB_LTYPE_EXTENSION
      then Some (True, iter)
      else let iter = snd (pb_field_iter_next iter)
           in if it_pos iter \<noteq> start then iter_find_loop fuel iter tag start else Some (False, iter))"

definition pb_field_iter_find :: "pb_field_iter_t \<Rightarrow> u32 \<Rightarrow> (bool \<times> pb_field_iter_t) option" where
  "pb_field_iter_find iter tag = iter_find_loop (length (it_start iter)) iter tag (it_pos iter)"

section \<open>Where the iterator points\<close>

text \<open>
  A descriptor array with \<open>n\<close> fields: a terminator with tag 0 at \<open>n\<close>, and no other one before it.
  The position of field \<open>k\<close> in the structure, and the number of required fields before it, are
  functions of \<open>k\<close>.
\<close>

definition fields_ok :: "pb_field_t list \<Rightarrow> nat \<Rightarrow> bool" where
  "fields_ok fs n \<longleftrightarrow> 0 < n \<and> length fs = Suc n \<and> field_tag (fs ! n) = 0 \<and> list_all (\<lambda>f. field_tag f \<noteq> 0) (take n fs)"

definition in_union :: "pb_field_t \<Rightarrow> pb_field_t \<Rightarrow> bool" where
  "in_union f g \<longleftrightarrow> PB_HTYPE (field_type f) = PB_HTYPE_ONEOF \<and> PB_HTYPE (field_type g) = PB_HTYPE_ONEOF \<and>
     data_offset g = PB_SIZE_MAX"

fun field_data :: "pb_field_t list \<Rightarrow> u64 \<Rightarrow> nat \<Rightarrow> u64" where
  "field_data fs dest 0 = (if dest = 0 then 0 else dest + ucast (data_offset (fs ! 0)))"
| "field_data fs dest (Suc k) =
     (if in_union (fs ! k) (fs ! Suc k) then field_data fs dest k
      else field_data fs dest k + iter_prev_size (fs ! k) + ucast (data_offset (fs ! Suc k)))"

fun field_size :: "pb_field_t list \<Rightarrow> u64 \<Rightarrow> nat \<Rightarrow> u64" where
  "field_size fs dest 0 = (if dest = 0 then 0 else field_data fs dest 0 + scast (size_offset (fs ! 0)))"
| "field_size fs dest (Suc k) =
     (if in_union (fs ! k) (fs ! Suc k) then field_size fs dest k
      else field_data fs dest (Suc k) + scast (size_offset (fs ! Suc k)))"

definition required_before :: "pb_field_t list \<Rightarrow> nat \<Rightarrow> nat" where
  "required_before fs k = length (filter (\<lambda>f. PB_HTYPE (field_type f) = PB_HTYPE_REQUIRED) (take k fs))"

definition iter_at :: "pb_field_t list \<Rightarrow> u64 \<Rightarrow> nat \<Rightarrow> pb_field_iter_t" where
  "iter_at fs dest k =
     \<lparr>it_start = fs, it_pos = k, required_field_index = of_nat (required_before fs k), dest_struct = dest,
      pData = field_data fs dest k, pSize = field_size fs dest k\<rparr>"

lemma iter_at_simps [simp]:
  "it_start (iter_at fs dest k) = fs" "it_pos (iter_at fs dest k) = k" "dest_struct (iter_at fs dest k) = dest"
  "pData (iter_at fs dest k) = field_data fs dest k" "pSize (iter_at fs dest k) = field_size fs dest k"
  by (simp_all add: iter_at_def)

lemma fields_okD: "fields_ok fs n \<Longrightarrow> k < n \<Longrightarrow> field_tag (fs ! k) \<noteq> 0"
  by (auto simp: fields_ok_def list_all_length)

lemma iter_begin: "fields_ok fs n \<Longrightarrow> pb_field_iter_begin fs dest = (True, iter_at fs dest 0)"
  using fields_okD [of fs n 0] by (auto simp: fields_ok_def pb_field_iter_begin_def iter_at_def required_before_def Let_def)

text \<open>
  The addresses in terms of the layout of the structure, as \<open>pb.h\<close> computes the offsets from \<open>offsetof\<close>: the
  offset of a field in its descriptor is what is left between the end of the member before and its own start,
  or \<open>PB_SIZE_MAX\<close> for the second and further members of a union, which have the place of the first. Then the
  iterator's address of field \<open>k\<close> is that of the member.
\<close>

definition laid_out :: "(nat \<Rightarrow> nat) \<Rightarrow> (nat \<Rightarrow> nat) \<Rightarrow> pb_field_t list \<Rightarrow> bool" where
  "laid_out start sz fs \<longleftrightarrow>
     start 0 = unat (data_offset (fs ! 0)) \<and>
     (\<forall>k. Suc k < length fs \<longrightarrow>
        of_nat (sz k) = iter_prev_size (fs ! k) \<and>
        (if in_union (fs ! k) (fs ! Suc k) then start (Suc k) = start k
         else start k + sz k + unat (data_offset (fs ! Suc k)) = start (Suc k)))"

lemma field_data_laid_out:
  assumes "laid_out start sz fs" and "dest \<noteq> 0"
  shows "k < length fs \<Longrightarrow> field_data fs dest k = dest + of_nat (start k)"
proof (induction k)
  case (Suc k)
  then have s: "of_nat (sz k) = iter_prev_size (fs ! k)"
    "if in_union (fs ! k) (fs ! Suc k) then start (Suc k) = start k
     else start k + sz k + unat (data_offset (fs ! Suc k)) = start (Suc k)"
    using assms(1) by (simp_all add: laid_out_def)
  have "field_data fs dest k = dest + of_nat (start k)" using Suc by simp
  moreover have "(of_nat (start (Suc k)) :: u64) = of_nat (start k) + of_nat (sz k) + ucast (data_offset (fs ! Suc k))"
    if "\<not> in_union (fs ! k) (fs ! Suc k)"
  proof -
    have "start (Suc k) = start k + sz k + unat (data_offset (fs ! Suc k))" using s(2) that by simp
    then show ?thesis by simp
  qed
  ultimately show ?case using s by (simp add: add.assoc)
qed (use assms in \<open>simp add: laid_out_def\<close>)

lemma iter_next_inside:
  assumes "fields_ok fs n" and "Suc k < n"
  shows "pb_field_iter_next (iter_at fs dest k) = (True, iter_at fs dest (Suc k))"
proof -
  have t: "field_tag (fs ! k) \<noteq> 0" "field_tag (fs ! Suc k) \<noteq> 0" using fields_okD [OF assms(1)] assms(2) by simp_all
  have "take (Suc k) fs = take k fs @ [fs ! k]"
    using assms by (intro take_Suc_conv_app_nth) (simp add: fields_ok_def)
  moreover have "PB_HTYPE_ONEOF \<noteq> PB_HTYPE_REQUIRED" by code_simp
  ultimately show ?thesis
    using t by (auto simp: pb_field_iter_next_def iter_at_def Let_def in_union_def required_before_def)
qed

lemma iter_next_last:
  assumes "fields_ok fs n" and "Suc k = n"
  shows "pb_field_iter_next (iter_at fs dest k) = (False, iter_at fs dest 0)"
proof -
  have t: "field_tag (fs ! k) \<noteq> 0" "field_tag (fs ! Suc k) = 0"
    using fields_okD [OF assms(1)] assms by (simp_all add: fields_ok_def)
  then show ?thesis
    using iter_begin [OF assms(1), of dest] by (simp add: pb_field_iter_next_def iter_at_def Let_def)
qed

lemma iter_next:
  "fields_ok fs n \<Longrightarrow> k < n \<Longrightarrow>
   pb_field_iter_next (iter_at fs dest k) = (Suc k < n, iter_at fs dest (Suc k mod n))"
  using iter_next_inside [of fs n k dest] iter_next_last [of fs n k dest] by (cases "Suc k = n") auto

text \<open>The field that \<open>pb_field_iter_find\<close> looks for.\<close>

definition matches :: "u32 \<Rightarrow> pb_field_t \<Rightarrow> bool" where
  "matches tag f \<longleftrightarrow> field_tag f = tag \<and> PB_LTYPE (field_type f) \<noteq> PB_LTYPE_EXTENSION"

lemma find_loop:
  assumes "fields_ok fs n" and "p < n"
  shows "i < n \<Longrightarrow> n - i \<le> fuel \<Longrightarrow>
    iter_find_loop fuel (iter_at fs dest ((p + i) mod n)) tag p =
      (case filter (\<lambda>j. matches tag (fs ! ((p + j) mod n))) [i..<n] of
         [] \<Rightarrow> Some (False, iter_at fs dest p)
       | j # _ \<Rightarrow> Some (True, iter_at fs dest ((p + j) mod n)))"
proof (induction fuel arbitrary: i)
  case (Suc fuel)
  let ?k = "(p + i) mod n"
  have k: "?k < n" using assms(2) by simp
  have ups: "[i..<n] = i # [Suc i..<n]" using Suc.prems(1) by (simp add: upt_conv_Cons)
  show ?case
  proof (cases "matches tag (fs ! ?k)")
    case True
    then show ?thesis by (simp add: ups matches_def)
  next
    case False
    have nx: "snd (pb_field_iter_next (iter_at fs dest ?k)) = iter_at fs dest ((p + Suc i) mod n)"
      by (simp add: iter_next [OF assms(1) k] mod_Suc_eq)
    have st: "iter_find_loop (Suc fuel) (iter_at fs dest ?k) tag p =
        (if (p + Suc i) mod n \<noteq> p then iter_find_loop fuel (iter_at fs dest ((p + Suc i) mod n)) tag p
         else Some (False, iter_at fs dest ((p + Suc i) mod n)))"
      using False by (auto simp: matches_def nx simp del: mod_Suc_eq)
    show ?thesis
    proof (cases "Suc i = n")
      case True
      then have "(p + Suc i) mod n = p" using assms(2) by simp
      then show ?thesis unfolding st using False True by (simp add: ups)
    next
      case ne: False
      then have i: "Suc i < n" using Suc.prems(1) by simp
      have "(p + Suc i) mod n \<noteq> p"
      proof
        assume "(p + Suc i) mod n = p"
        then have "(p + Suc i) mod n = p mod n" using assms(2) by simp
        then have "n dvd Suc i" by (metis add_diff_cancel_left' le_add1 mod_eq_dvd_iff_nat)
        then show False using i by (simp add: nat_dvd_not_less)
      qed
      then show ?thesis unfolding st using Suc.IH [OF i] Suc.prems(2) False by (simp add: ups)
    qed
  qed
qed simp

section \<open>Property\<close>

lemma rotate_upt: "p < n \<Longrightarrow> map (\<lambda>j. (p + j) mod n) [0..<n] = [p..<n] @ [0..<p]"
  by (rule nth_equalityI) (auto simp: nth_append mod_if)

lemma find_exact:
  assumes "fields_ok fs n" and "p < n"
  shows "pb_field_iter_find (iter_at fs dest p) tag =
    Some (case filter (\<lambda>k. matches tag (fs ! k)) ([p..<n] @ [0..<p]) of
            [] \<Rightarrow> (False, iter_at fs dest p) | k # _ \<Rightarrow> (True, iter_at fs dest k))"
proof -
  have "n - 0 \<le> length fs" "0 < n" using assms by (simp_all add: fields_ok_def)
  from find_loop [OF assms this(2) this(1), of dest tag]
  have "pb_field_iter_find (iter_at fs dest p) tag =
    (case filter (\<lambda>j. matches tag (fs ! ((p + j) mod n))) [0..<n] of
       [] \<Rightarrow> Some (False, iter_at fs dest p) | j # _ \<Rightarrow> Some (True, iter_at fs dest ((p + j) mod n)))"
    using assms(2) by (simp add: pb_field_iter_find_def)
  moreover have "filter (\<lambda>k. matches tag (fs ! k)) ([p..<n] @ [0..<p]) =
      map (\<lambda>j. (p + j) mod n) (filter (\<lambda>j. matches tag (fs ! ((p + j) mod n))) [0..<n])"
    unfolding rotate_upt [OF assms(2), symmetric] by (simp add: filter_map comp_def)
  ultimately show ?thesis by (simp split: list.split)
qed

text \<open>
  (C23) The field iterator on a descriptor array with \<open>n\<close> fields and a terminator. Its state is a function
  of the position \<open>p\<close>: the address of the field and of its size member, and the number of required
  fields before it. \<open>pb_field_iter_next\<close> goes from \<open>p\<close> to \<open>p + 1\<close>, from the last field to the first,
  and reports the wrap; \<open>pb_field_iter_find\<close> always returns, at the first field with the tag in cyclic
  order from \<open>p\<close> that is not an extension range, and, if there is none, reports that at \<open>p\<close> again.
\<close>

theorem pb_field_iter_correct:
  assumes "fields_ok fs n" and "p < n"
  shows "pb_field_iter_begin fs dest = (True, iter_at fs dest 0) \<and>
    pb_field_iter_next (iter_at fs dest p) = (p + 1 < n, iter_at fs dest ((p + 1) mod n)) \<and>
    pb_field_iter_find (iter_at fs dest p) tag =
      Some (case filter (\<lambda>k. matches tag (fs ! k)) ([p..<n] @ [0..<p]) of
              [] \<Rightarrow> (False, iter_at fs dest p) | k # _ \<Rightarrow> (True, iter_at fs dest k))"
  using iter_begin [OF assms(1)] iter_next [OF assms] find_exact [OF assms] by simp

text \<open>A witness: a required 32 bit integer, tag 1, and an optional string of 16 bytes, tag 3.\<close>

definition demo_fields :: "pb_field_t list" where
  "demo_fields =
     [\<lparr>field_tag = 1, field_type = 1, data_offset = 0, size_offset = 0, data_size = 4, array_size = 0, field_ptr = No_ptr\<rparr>,
      \<lparr>field_tag = 3, field_type = 0x17, data_offset = 1, size_offset = - 1, data_size = 16, array_size = 0, field_ptr = No_ptr\<rparr>,
      \<lparr>field_tag = 0, field_type = 0, data_offset = 0, size_offset = 0, data_size = 0, array_size = 0, field_ptr = No_ptr\<rparr>]"

theorem pb_field_iter_correct_witness:
  "pb_field_iter_find (iter_at demo_fields 0x1000 1) 1 = Some (True, iter_at demo_fields 0x1000 0) \<and>
   pb_field_iter_next (iter_at demo_fields 0x1000 0) = (True, iter_at demo_fields 0x1000 1) \<and>
   pData (iter_at demo_fields 0x1000 1) = 0x1005 \<and> pSize (iter_at demo_fields 0x1000 1) = 0x1004"
proof -
  have "fields_ok demo_fields (Suc (Suc 0))" by (simp add: fields_ok_def demo_fields_def)
  then have ok: "fields_ok demo_fields 2" by (simp only: numeral_2_eq_2)
  have m: "matches 1 (demo_fields ! 0)" "\<not> matches 1 (demo_fields ! 1)" by code_simp+
  have "[1..<2] = [1 :: nat]" by (simp add: upt_rec)
  then have "pb_field_iter_find (iter_at demo_fields 0x1000 1) 1 = Some (True, iter_at demo_fields 0x1000 0)"
    using pb_field_iter_correct [OF ok, of 1 "0x1000" 1] m by simp
  moreover have "pb_field_iter_next (iter_at demo_fields 0x1000 0) = (True, iter_at demo_fields 0x1000 1)"
    using pb_field_iter_correct [OF ok, of 0 "0x1000" 1] by simp
  moreover have "field_data demo_fields 0x1000 (Suc 0) = 0x1005" "field_size demo_fields 0x1000 (Suc 0) = 0x1004" by code_simp+
  ultimately show ?thesis by simp
qed

end
