(* ===== verification/Pb_Claims.thy ===== *)
theory Pb_Claims
  imports Pb_Wire Pb_Common
begin

text \<open>The properties of nanopb's streams and wire format.\<close>

text \<open>
  What nanopb's writers write. A field is its tag and wire type as a varint and the payload, a
  varint (little-endian base 128, zig-zag for signed values), a little-endian word, or a length and
  bytes. Each of them, on a stream that only counts, adds exactly the length of that; on a stream to a
  buffer it appends exactly that if it fits, and otherwise fails with a message, and never writes
  outside the room the stream had.
\<close>

theorem pb_writers_emit:
  assumes "wire_ok w"
  shows "emits (\<lambda>s. write_field s t w) (field_bytes t w) \<and>
    emits (\<lambda>s. write_payload s w) (wire_payload w) \<and>
    emits (\<lambda>s. pb_encode_svarint s v) (leb (zigzag v))"
  using emits_field [OF assms] emits_payload [OF assms] emits_svarint by blast

theorem pb_writers_emit_witness:
  "emits (\<lambda>s. write_field s 2 (Wstring [0x74, 0x65])) [0x12, 2, 0x74, 0x65]"
proof -
  have "field_bytes 2 (Wstring [0x74, 0x65]) = [0x12, 2, 0x74, 0x65]" by code_simp
  moreover have "wire_ok (Wstring [0x74, 0x65])" by simp
  ultimately show ?thesis using pb_writers_emit [of "Wstring [0x74, 0x65]" 2 0] by metis
qed

text \<open>
  Scalars round trip: any number of values written to a buffer with \<open>pb_encode_varint\<close>,
  \<open>pb_encode_svarint\<close>, \<open>pb_encode_fixed32\<close> or \<open>pb_encode_fixed64\<close> are read back, all of them and
  nothing else, by the matching decoder from the bytes that were written.
\<close>

theorem pb_scalars_round_trip:
  "round_trips pb_encode_varint pb_decode_varint \<and> round_trips pb_encode_svarint pb_decode_svarint \<and>
   round_trips pb_encode_fixed32 pb_decode_fixed32 \<and> round_trips pb_encode_fixed64 pb_decode_fixed64"
proof (intro conjI)
  show "round_trips pb_encode_varint pb_decode_varint"
    by (rule round_tripsI [OF emits_varint]) (use pb_varint.decode_n_enc [of _ "[]"] in simp)
  show "round_trips pb_encode_svarint pb_decode_svarint"
    by (rule round_tripsI [OF emits_svarint]) (use pb_svarint.decode_n_enc [of _ "[]"] in simp)
  show "round_trips pb_encode_fixed32 pb_decode_fixed32"
    by (rule round_tripsI [OF emits_fixed32]) (use pb_fixed32.decode_n_enc [of _ "[]"] in simp)
  show "round_trips pb_encode_fixed64 pb_decode_fixed64"
    by (rule round_tripsI [OF emits_fixed64]) (use pb_fixed64.decode_n_enc [of _ "[]"] in simp)
qed

text \<open>
  \<open>pb_decode_varint\<close> is exact on a stream from a buffer: it returns \<open>v\<close> if and only if the input
  starts with at most ten bytes, all but the last with the top bit set, whose 7-bit groups are, modulo
  \<open>2 ^ 64\<close>, the value \<open>v\<close>; it consumes exactly these.
\<close>

theorem pb_decode_varint_exact:
  "pb_decode_varint (stream_of c m e) = (Some v, s') \<longleftrightarrow>
     (\<exists>bs c'. c = bs @ c' \<and> varint_bytes bs \<and> length bs \<le> 10 \<and> s' = stream_of c' m e \<and> v = of_nat (leb_val bs))"
  by (rule decode_varint_exact)

text \<open>
  (C24) Reading a field that a writer wrote: \<open>pb_decode_tag\<close> returns its tag and wire type, and
  \<open>pb_skip_field\<close> then leaves the stream right behind the field, whatever the field contains.
\<close>

theorem pb_skip_field_exact:
  assumes "0 < unat t" and "unat t < 2 ^ 29" and "wire_ok w"
  shows "pb_decode_tag (stream_of (field_bytes t w @ c) m e) = (Some (wire_type w, t), stream_of (wire_payload w @ c) m e, False) \<and>
    pb_skip_field (stream_of (wire_payload w @ c) m e) (wire_type w) = (Some (), stream_of c m e)"
  using decode_tag [OF assms(1,2), of w "wire_payload w @ c" m e] skip_payload [OF assms(3)] by (simp add: field_bytes_def)

theorem pb_skip_field_exact_witness:
  "pb_skip_field (stream_of [2, 0x74, 0x65, 9] [] None) PB_WT_STRING = (Some (), stream_of [9] [] None)"
proof -
  have "wire_payload (Wstring [0x74, 0x65]) @ [9] = [2, 0x74, 0x65, 9]" by code_simp
  then show ?thesis using pb_skip_field_exact [of 2 "Wstring [0x74, 0x65]" "[9]" "[]" None] by simp
qed

text \<open>
  Substreams. On a length-prefixed string \<open>pb_make_string_substream\<close> gives a stream with exactly
  the string, and whatever part of it is then read, \<open>pb_close_string_substream\<close> puts the parent right
  behind the string; a string that is cut off by the end of the parent is an error.
\<close>

theorem pb_string_substream:
  assumes "length data + n < 2 ^ 32"
  shows "pb_make_string_substream (stream_of (leb (length data) @ data @ c) m e) =
      (Some (stream_of data (c @ m) e), parent_of data c m e) \<and>
    pb_close_string_substream (parent_of data c m e) (stream_of (drop k data) (c @ m) e') = (Some (), stream_of c m e') \<and>
    (if n > 0
     then pb_make_string_substream (stream_of (leb (length data + n) @ data) m e) =
       (None, stream_of data m (failed e ''parent stream too short''))
     else True)"
proof -
  have "length data < 2 ^ 32" using assms by simp
  then show ?thesis using make_substream close_substream short_substream [OF assms, of data m e] by simp
qed

theorem pb_string_substream_witness:
  "pb_make_string_substream (stream_of [2, 0x74, 0x65, 9] [] None) = (Some (stream_of [0x74, 0x65] [9] None), parent_of [0x74, 0x65] [9] [] None)"
proof -
  have "leb (length [0x74, 0x65 :: byte]) @ [0x74, 0x65] @ [9] = [2, 0x74, 0x65, 9]" by code_simp
  then show ?thesis using pb_string_substream [of "[0x74, 0x65]" 0 "[9]" "[]" None 0 None] by simp
qed

text \<open>
  \<open>pb_decode_varint32\<close> on the varints that writers produce: a value below \<open>2 ^ 32\<close> is returned, a
  negative 32-bit integer in the ten bytes of its 64-bit form is returned as its 32-bit pattern, and any
  other value below \<open>2 ^ 63\<close> is an error.
\<close>

theorem pb_decode_varint32_values:
  "(if unat (v :: u64) < 2 ^ 32 \<or> 2 ^ 64 - 2 ^ 31 \<le> unat v
    then pb_decode_varint32 (stream_of (leb (unat v) @ c) m e) = (Some (ucast v), stream_of c m e)
    else if unat v < 2 ^ 63 then fst (pb_decode_varint32 (stream_of (leb (unat v) @ c) m e)) = None else True)"
proof -
  have u: "(of_nat (unat v) :: u32) = ucast v" by simp
  show ?thesis
    using varint32_leb [of "unat v" c m e] varint32_sign_extended [of "unat v" c m e] varint32_overflow [of "unat v" c m e]
      unat_u64_less [of v] by (auto simp: pb_decode_varint32_def u split: prod.splits)
qed

lemma leb_val_less: "leb_val bs < 128 ^ length bs"
proof (induction bs)
  case (Cons b bs)
  have "unat b mod 128 < 128" by simp
  moreover have "128 * leb_val bs + 128 \<le> 128 * 128 ^ length bs" using Cons by simp
  ultimately show ?case by simp
qed simp

text \<open>Continuation bytes without bits, and a zero at the end, at whatever position, also a wrapped one.\<close>

lemma varint32_padding: "varint32_loop (stream_of (replicate k 0x80 @ 0 # c) m e) r p = (Some r, stream_of c m e)"
  by (induction k arbitrary: p) (subst varint32_loop.simps, simp add: readbyte_Cons Let_def)+

text \<open>
  (C33) \<open>pb_decode_varint32\<close> does not refuse all varints of 32 bits and more. Of a varint with five bytes of which
  all announce another byte, and any number of bytes without bits behind them, it returns the value
  modulo \<open>2 ^ 32\<close>, so that up to three bits are lost; the check of the fifth byte is made only if it is the last.
  The same number in its shortest form is refused when it is \<open>2 ^ 32\<close> or more.
\<close>

theorem pb_decode_varint32_drops_bits:
  assumes "length bs = 5" and "\<forall>b \<in> set bs. 128 \<le> unat b"
  shows "leb_val (bs @ replicate k 0x80 @ [0]) = leb_val bs \<and>
    pb_decode_varint32 (stream_of (bs @ replicate k 0x80 @ 0 # c) m e) = (Some (of_nat (leb_val bs)), stream_of c m e) \<and>
    (2 ^ 32 \<le> leb_val bs \<longrightarrow> fst (pb_decode_varint32 (stream_of (leb (leb_val bs) @ c) m e)) = None)"
proof (intro conjI impI)
  obtain b bs' where b: "bs = b # bs'" using assms(1) by (cases bs) auto
  have l: "list_all (\<lambda>b. 128 \<le> unat b) bs'" "length bs' = 4" "128 \<le> unat b" using assms b by (auto simp: list_all_iff)
  have "leb_val (replicate k 0x80 @ [0]) = 0" by (induction k) simp_all
  then show "leb_val (bs @ replicate k 0x80 @ [0]) = leb_val bs" by (simp add: leb_val_append)
  have r: "(ucast (b AND 0x7F) :: u32) OR push_bit (7 * 1) (of_nat (leb_val bs')) = of_nat (leb_val bs)"
    unfolding b u32_leb_Cons by simp
  have "varint32_loop (stream_of (bs' @ replicate k 0x80 @ 0 # c) m e) (ucast (b AND 0x7F)) 7 = (Some (of_nat (leb_val bs)), stream_of c m e)"
    using varint32_more [OF l(1), of 1 "replicate k 0x80 @ 0 # c" m e "ucast (b AND 0x7F)"] l(2) varint32_padding
    unfolding r by simp
  then show "pb_decode_varint32 (stream_of (bs @ replicate k 0x80 @ 0 # c) m e) = (Some (of_nat (leb_val bs)), stream_of c m e)"
    using l(3) by (simp add: b pb_decode_varint32_def varint32_eof_Cons)
  assume "2 ^ 32 \<le> leb_val bs"
  moreover have "leb_val bs < 128 ^ 5" using leb_val_less [of bs] assms(1) by simp
  ultimately show "fst (pb_decode_varint32 (stream_of (leb (leb_val bs) @ c) m e)) = None"
    using varint32_overflow [of "leb_val bs" c m e] by (auto simp: pb_decode_varint32_def split: prod.splits)
qed

theorem pb_decode_varint32_drops_bits_witness:
  "leb_val [0x80, 0x80, 0x80, 0x80, 0x90, 0x80, 0] = 2 ^ 32 \<and>
   pb_decode_varint32 (stream_of [0x80, 0x80, 0x80, 0x80, 0x90, 0x80, 0, 7] [] None) = (Some 0, stream_of [7] [] None) \<and>
   fst (pb_decode_varint32 (stream_of (leb (2 ^ 32) @ [7]) [] None)) = None"
proof -
  have v: "leb_val [0x80, 0x80, 0x80, 0x80, 0x90] = 2 ^ 32" by simp
  have z: "(of_nat (2 ^ 32) :: u32) = 0" by simp
  have b: "length [0x80, 0x80, 0x80, 0x80, 0x90 :: byte] = 5" "\<forall>b \<in> set [0x80, 0x80, 0x80, 0x80, 0x90 :: byte]. 128 \<le> unat b" by simp_all
  show ?thesis
    using pb_decode_varint32_drops_bits [OF b, of 1 "[7]" "[]" None] unfolding v z by simp
qed

end
