(* ===== verification/Pb_Memory.thy ===== *)
theory Pb_Memory
  imports Pb_Common Pb_Decode
begin

text \<open>
  Message structures in memory, for the encoder and the decoder of nanopb: a memory is a function from
  64 bit addresses to bytes, integers and pointers in it are little endian, and address arithmetic
  wraps. The structures of \<open>pb.h\<close> have the layout of the 64-bit targets.
\<close>

section \<open>Memory\<close>

type_synonym memory = "u64 \<Rightarrow> byte"

definition load :: "memory \<Rightarrow> u64 \<Rightarrow> nat \<Rightarrow> byte list" where
  "load m a n = map (\<lambda>i. m (a + of_nat i)) [0..<n]"

definition load_uint :: "memory \<Rightarrow> u64 \<Rightarrow> nat \<Rightarrow> nat" where
  "load_uint m a n = be_nat (rev (load m a n))"

definition load_u32 :: "memory \<Rightarrow> u64 \<Rightarrow> u32" where
  "load_u32 m a = of_nat (load_uint m a 4)"

definition load_u64 :: "memory \<Rightarrow> u64 \<Rightarrow> u64" where
  "load_u64 m a = of_nat (load_uint m a 8)"

fun store :: "memory \<Rightarrow> u64 \<Rightarrow> byte list \<Rightarrow> memory" where
  "store m a [] = m"
| "store m a (b # bs) = store (m(a := b)) (a + 1) bs"

lemma length_load [simp]: "length (load m a n) = n"
  by (simp add: load_def)

text \<open>\<open>offsetof(pb_bytes_array_t, bytes)\<close>, and the fields of \<open>pb_callback_t\<close> and \<open>pb_extension_t\<close>.\<close>

definition OFFSETOF_BYTES :: nat where
  "OFFSETOF_BYTES = 4"

definition callback_funcs :: "memory \<Rightarrow> u64 \<Rightarrow> u64" where
  "callback_funcs m a = load_u64 m a"

definition callback_arg :: "u64 \<Rightarrow> u64" where
  "callback_arg a = a + 8"

definition extension_type :: "memory \<Rightarrow> u64 \<Rightarrow> u64" where
  "extension_type m a = load_u64 m a"

definition extension_dest :: "u64 \<Rightarrow> u64" where
  "extension_dest a = a + 8"

definition extension_next :: "memory \<Rightarrow> u64 \<Rightarrow> u64" where
  "extension_next m a = load_u64 m (a + 16)"

definition extension_found :: "u64 \<Rightarrow> u64" where
  "extension_found a = a + 24"

text \<open>
  \<open>pb_extension_type_t\<close>: pointers to the callbacks, 0 for the default handler, and the descriptor that
  \<open>arg\<close> points to.
\<close>

record pb_extension_type_t =
  xt_decode :: u64
  xt_encode :: u64
  xt_arg :: pb_field_t

section \<open>Reading flags\<close>

definition safe_read_bool :: "memory \<Rightarrow> u64 \<Rightarrow> bool" where
  "safe_read_bool m a = list_ex (\<lambda>b. b \<noteq> 0) (load m a 1)"

section \<open>All fields of a message\<close>

text \<open>
  The loop \<open>do { if (!step) return false; } while (pb_field_iter_next(&iter)); return true;\<close> of the
  functions that go through a message. It has as fuel the length of the descriptor array, and \<open>None\<close>
  is the result when \<open>step\<close> has none.
\<close>

fun for_fields ::
  "(pb_field_iter_t \<Rightarrow> 'x \<Rightarrow> (bool \<times> 'x) option) \<Rightarrow> nat \<Rightarrow> pb_field_iter_t \<Rightarrow> 'x \<Rightarrow> (bool \<times> 'x) option" where
  "for_fields step 0 iter x = None"
| "for_fields step (Suc n) iter x =
     (case step iter x of
        None \<Rightarrow> None
      | Some (False, x) \<Rightarrow> Some (False, x)
      | Some (True, x) \<Rightarrow>
          (case pb_field_iter_next iter of
             (True, iter) \<Rightarrow> for_fields step n iter x
           | (False, _) \<Rightarrow> Some (True, x)))"

text \<open>The steps of a loop over a list. On a well-formed array the loop visits the fields in order.\<close>

fun steps :: "('k \<Rightarrow> 'x \<Rightarrow> (bool \<times> 'x) option) \<Rightarrow> 'k list \<Rightarrow> 'x \<Rightarrow> (bool \<times> 'x) option" where
  "steps f [] x = Some (True, x)"
| "steps f (k # ks) x =
     (case f k x of None \<Rightarrow> None | Some (False, x) \<Rightarrow> Some (False, x) | Some (True, x) \<Rightarrow> steps f ks x)"

lemma for_fields_steps:
  assumes "fields_ok fs n" and "k < n" and "n - k \<le> fuel"
  shows "for_fields step fuel (iter_at fs dest k) x = steps (\<lambda>k. step (iter_at fs dest k)) [k..<n] x"
  using assms(2,3)
proof (induction fuel arbitrary: k x)
  case (Suc fuel)
  have u: "[k..<n] = k # [Suc k..<n]" using Suc.prems(1) by (simp add: upt_conv_Cons)
  show ?case
  proof (cases "Suc k < n")
    case True
    then show ?thesis using Suc.IH [of "Suc k"] Suc.prems iter_next_inside [OF assms(1) True]
      by (simp add: u split: option.split bool.split prod.split)
  next
    case False
    then have "Suc k = n" using Suc.prems(1) by simp
    then show ?thesis using iter_next_last [OF assms(1)]
      by (simp add: u split: option.split bool.split prod.split)
  qed
qed simp

lemma for_fields_all:
  assumes "fields_ok fs n"
  shows "for_fields step (length fs) (iter_at fs dest 0) x = steps (\<lambda>k. step (iter_at fs dest k)) [0..<n] x"
  using for_fields_steps [OF assms, of 0 "length fs"] assms by (simp add: fields_ok_def)

text \<open>A descriptor array: fields with tags, and the terminator. It may have no fields at all.\<close>

definition message_ok :: "pb_field_t list \<Rightarrow> bool" where
  "message_ok fs \<longleftrightarrow> fs \<noteq> [] \<and> field_tag (last fs) = 0 \<and> list_all (\<lambda>f. field_tag f \<noteq> 0) (butlast fs)"

lemma message_ok_cases:
  assumes "message_ok fs"
  shows "(length fs = 1 \<and> field_tag (fs ! 0) = 0) \<or> (1 < length fs \<and> fields_ok fs (length fs - 1))"
proof (cases "length fs = 1")
  case True
  then show ?thesis using assms by (cases fs) (auto simp: message_ok_def)
next
  case False
  then have "1 < length fs" using assms by (cases fs) (auto simp: message_ok_def)
  then show ?thesis using assms by (auto simp: message_ok_def fields_ok_def last_conv_nth butlast_conv_take)
qed

lemma for_fields_message:
  assumes "message_ok fs"
  shows "(case pb_field_iter_begin fs dest of
            (False, _) \<Rightarrow> Some (True, x)
          | (True, iter) \<Rightarrow> for_fields step (length fs) iter x) =
         steps (\<lambda>k. step (iter_at fs dest k)) [0..<length fs - 1] x"
  using message_ok_cases [OF assms]
proof
  assume "length fs = 1 \<and> field_tag (fs ! 0) = 0"
  then show ?thesis by (simp add: pb_field_iter_begin_def Let_def)
next
  assume "1 < length fs \<and> fields_ok fs (length fs - 1)"
  then show ?thesis using iter_begin [of fs "length fs - 1" dest] for_fields_all [of fs "length fs - 1"] by simp
qed

end
