(* ===== verification/Pb_Msg_Encode.thy ===== *)
theory Pb_Msg_Encode
  imports Pb_Memory
begin

text \<open>
  The message encoder of nanopb, \<open>pb_encode.c\<close> from \<open>encode_array\<close> to \<open>pb_get_encoded_size\<close> and the field
  encoders at its end.

  What the encoder finds outside of its arguments is one record: the memory with the message
  structures, the table of descriptor arrays that \<open>ptr\<close> of a submessage field names, the user's
  callbacks by their function pointers, and the extension types by their addresses. Descriptors and
  messages may be cyclic through pointers, so the recursion through submessages takes fuel; the
  result \<open>None\<close> means that the fuel did not suffice, or that the C code has no defined behaviour (a
  submessage descriptor that is not one, or a type no encoder exists for).
\<close>

record 's pb_env =
  env_mem :: memory
  env_descs :: "pb_field_t list list"
  env_null :: 's
  env_callback :: "u64 \<Rightarrow> 's pb_ostream_t \<Rightarrow> pb_field_t \<Rightarrow> u64 \<Rightarrow> bool \<times> 's pb_ostream_t"
  env_ext_type :: "u64 \<Rightarrow> pb_extension_type_t"
  env_ext_encode :: "u64 \<Rightarrow> 's pb_ostream_t \<Rightarrow> u64 \<Rightarrow> bool \<times> 's pb_ostream_t"

type_synonym 's result = "(bool \<times> 's pb_ostream_t) option"

text \<open>\<open>if (!f(stream)) return false; ...\<close> for calls that may have no result.\<close>

definition and_then_some :: "(bool \<times> 's) option \<Rightarrow> ('s \<Rightarrow> (bool \<times> 's) option) \<Rightarrow> (bool \<times> 's) option" where
  "and_then_some r k = (case r of None \<Rightarrow> None | Some (ok, s) \<Rightarrow> if ok then k s else Some (False, s))"

lemma and_then_some_simps [simp]:
  "and_then_some None k = None"
  "and_then_some (Some (True, s)) k = k s"
  "and_then_some (Some (False, s)) k = Some (False, s)"
  by (simp_all add: and_then_some_def)

section \<open>Field encoders\<close>

definition pb_enc_bool :: "memory \<Rightarrow> 's pb_ostream_t \<Rightarrow> u64 \<Rightarrow> bool \<times> 's pb_ostream_t" where
  "pb_enc_bool m stream src = pb_encode_varint stream (if safe_read_bool m src then 1 else 0)"

text \<open>The signed and the unsigned integer of \<open>data_size\<close> bytes at an address, if there is such a type.\<close>

definition load_signed :: "memory \<Rightarrow> pb_size_t \<Rightarrow> u64 \<Rightarrow> u64 option" where
  "load_signed m sz src =
     (if sz = 1 then Some (scast (of_nat (load_uint m src 1) :: byte))
      else if sz = 2 then Some (scast (of_nat (load_uint m src 2) :: u16))
      else if sz = 4 then Some (scast (load_u32 m src))
      else if sz = 8 then Some (load_u64 m src)
      else None)"

definition load_unsigned :: "memory \<Rightarrow> pb_size_t \<Rightarrow> u64 \<Rightarrow> u64 option" where
  "load_unsigned m sz src =
     (if sz = 1 then Some (ucast (of_nat (load_uint m src 1) :: byte))
      else if sz = 2 then Some (ucast (of_nat (load_uint m src 2) :: u16))
      else if sz = 4 then Some (ucast (load_u32 m src))
      else if sz = 8 then Some (load_u64 m src)
      else None)"

definition pb_enc_varint :: "memory \<Rightarrow> 's pb_ostream_t \<Rightarrow> pb_field_t \<Rightarrow> u64 \<Rightarrow> bool \<times> 's pb_ostream_t" where
  "pb_enc_varint m stream field src =
     (case load_signed m (data_size field) src of
        None \<Rightarrow> os_return_error stream ''invalid data_size''
      | Some v \<Rightarrow> pb_encode_varint stream v)"

definition pb_enc_uvarint :: "memory \<Rightarrow> 's pb_ostream_t \<Rightarrow> pb_field_t \<Rightarrow> u64 \<Rightarrow> bool \<times> 's pb_ostream_t" where
  "pb_enc_uvarint m stream field src =
     (case load_unsigned m (data_size field) src of
        None \<Rightarrow> os_return_error stream ''invalid data_size''
      | Some v \<Rightarrow> pb_encode_varint stream v)"

definition pb_enc_svarint :: "memory \<Rightarrow> 's pb_ostream_t \<Rightarrow> pb_field_t \<Rightarrow> u64 \<Rightarrow> bool \<times> 's pb_ostream_t" where
  "pb_enc_svarint m stream field src =
     (case load_signed m (data_size field) src of
        None \<Rightarrow> os_return_error stream ''invalid data_size''
      | Some v \<Rightarrow> pb_encode_svarint stream v)"

definition pb_enc_fixed32 :: "memory \<Rightarrow> 's pb_ostream_t \<Rightarrow> u64 \<Rightarrow> bool \<times> 's pb_ostream_t" where
  "pb_enc_fixed32 m stream src = pb_encode_fixed32 stream (load_u32 m src)"

definition pb_enc_fixed64 :: "memory \<Rightarrow> 's pb_ostream_t \<Rightarrow> u64 \<Rightarrow> bool \<times> 's pb_ostream_t" where
  "pb_enc_fixed64 m stream src = pb_encode_fixed64 stream (load_u64 m src)"

definition pb_enc_bytes :: "memory \<Rightarrow> 's pb_ostream_t \<Rightarrow> pb_field_t \<Rightarrow> u64 \<Rightarrow> bool \<times> 's pb_ostream_t" where
  "pb_enc_bytes m stream field src =
     (if src = 0 then pb_encode_string stream [] 0
      else let sz = unat (load_u32 m src)
           in if PB_ATYPE (field_type field) = PB_ATYPE_STATIC \<and>
                 sz > (unat (data_size field) + SIZE_MOD - OFFSETOF_BYTES) mod SIZE_MOD
              then os_return_error stream ''bytes size exceeded''
              else pb_encode_string stream (load m (src + of_nat OFFSETOF_BYTES) sz) sz)"

function str_loop :: "memory \<Rightarrow> u64 \<Rightarrow> nat \<Rightarrow> nat \<Rightarrow> nat" where
  "str_loop m p sz max_sz =
     (if sz < max_sz \<and> m p \<noteq> 0 then str_loop m (p + 1) (sz + 1) max_sz else sz)"
  by pat_completeness auto
termination by (relation "measure (\<lambda>(m, p, sz, max_sz). max_sz - sz)") auto

declare str_loop.simps [simp del]

definition pb_enc_string :: "memory \<Rightarrow> 's pb_ostream_t \<Rightarrow> pb_field_t \<Rightarrow> u64 \<Rightarrow> bool \<times> 's pb_ostream_t" where
  "pb_enc_string m stream field src =
     (let max_sz = (if PB_ATYPE (field_type field) = PB_ATYPE_POINTER then SIZE_MAX else unat (data_size field));
          sz = (if src = 0 then 0 else str_loop m src 0 max_sz)
      in pb_encode_string stream (load m src sz) sz)"

definition pb_enc_fixed_length_bytes :: "memory \<Rightarrow> 's pb_ostream_t \<Rightarrow> pb_field_t \<Rightarrow> u64 \<Rightarrow> bool \<times> 's pb_ostream_t" where
  "pb_enc_fixed_length_bytes m stream field src =
     pb_encode_string stream (load m src (unat (data_size field))) (unat (data_size field))"

text \<open>\<open>sub\<close> is \<open>pb_encode\<close> with the fuel that is left.\<close>

definition pb_encode_submessage ::
  "'s pb_env \<Rightarrow> ('s pb_ostream_t \<Rightarrow> pb_field_t list \<Rightarrow> u64 \<Rightarrow> 's result) \<Rightarrow>
     's pb_ostream_t \<Rightarrow> pb_field_t list \<Rightarrow> u64 \<Rightarrow> 's result" where
  "pb_encode_submessage env sub stream fs src =
     (case sub (PB_OSTREAM_SIZING (env_null env)) fs src of
        None \<Rightarrow> None
      | Some (False, substream) \<Rightarrow> Some (False, stream\<lparr>os_errmsg := os_errmsg substream\<rparr>)
      | Some (True, substream) \<Rightarrow>
          let sz = bytes_written substream
          in and_then_some (Some (pb_encode_varint stream (of_nat sz)))
               (\<lambda>stream.
                  if os_callback stream = None then Some (pb_write stream [] sz)
                  else if size_add (bytes_written stream) sz > max_size stream
                  then Some (os_return_error stream ''stream full'')
                  else (case sub \<lparr>os_callback = os_callback stream, os_state = os_state stream, max_size = sz,
                                   bytes_written = 0, os_errmsg = None\<rparr> fs src of
                          None \<Rightarrow> None
                        | Some (status, substream) \<Rightarrow>
                            let stream = stream\<lparr>bytes_written := size_add (bytes_written stream) (bytes_written substream),
                                                os_state := os_state substream, os_errmsg := os_errmsg substream\<rparr>
                            in if bytes_written substream \<noteq> sz
                               then Some (os_return_error stream ''submsg size changed'')
                               else Some (status, stream))))"

definition submsg_fields :: "pb_field_t list list \<Rightarrow> pb_field_t \<Rightarrow> pb_field_t list option" where
  "submsg_fields descs field =
     (case field_ptr field of
        Submsg_fields k \<Rightarrow> if k < length descs then Some (descs ! k) else None
      | _ \<Rightarrow> None)"

definition pb_enc_submessage ::
  "'s pb_env \<Rightarrow> ('s pb_ostream_t \<Rightarrow> pb_field_t list \<Rightarrow> u64 \<Rightarrow> 's result) \<Rightarrow>
     's pb_ostream_t \<Rightarrow> pb_field_t \<Rightarrow> u64 \<Rightarrow> 's result" where
  "pb_enc_submessage env sub stream field src =
     (if field_ptr field = No_ptr then Some (os_return_error stream ''invalid field descriptor'')
      else case submsg_fields (env_descs env) field of
             None \<Rightarrow> None
           | Some fs \<Rightarrow> pb_encode_submessage env sub stream fs src)"

text \<open>The table \<open>PB_ENCODERS\<close>; it has no entry for extensions.\<close>

definition PB_ENCODERS ::
  "'s pb_env \<Rightarrow> ('s pb_ostream_t \<Rightarrow> pb_field_t list \<Rightarrow> u64 \<Rightarrow> 's result) \<Rightarrow> pb_type_t \<Rightarrow>
     's pb_ostream_t \<Rightarrow> pb_field_t \<Rightarrow> u64 \<Rightarrow> 's result" where
  "PB_ENCODERS env sub ltype stream field src =
     (let m = env_mem env
      in if ltype = PB_LTYPE_BOOL then Some (pb_enc_bool m stream src)
         else if ltype = PB_LTYPE_VARINT then Some (pb_enc_varint m stream field src)
         else if ltype = PB_LTYPE_UVARINT then Some (pb_enc_uvarint m stream field src)
         else if ltype = PB_LTYPE_SVARINT then Some (pb_enc_svarint m stream field src)
         else if ltype = PB_LTYPE_FIXED32 then Some (pb_enc_fixed32 m stream src)
         else if ltype = PB_LTYPE_FIXED64 then Some (pb_enc_fixed64 m stream src)
         else if ltype = PB_LTYPE_BYTES then Some (pb_enc_bytes m stream field src)
         else if ltype = PB_LTYPE_STRING then Some (pb_enc_string m stream field src)
         else if ltype = PB_LTYPE_SUBMESSAGE then pb_enc_submessage env sub stream field src
         else if ltype = PB_LTYPE_FIXED_LENGTH_BYTES then Some (pb_enc_fixed_length_bytes m stream field src)
         else None)"

section \<open>Arrays\<close>

text \<open>The loops over the entries of an array, \<open>data_size\<close> bytes apart.\<close>

fun entries_loop :: "('x \<Rightarrow> u64 \<Rightarrow> (bool \<times> 'x) option) \<Rightarrow> u64 \<Rightarrow> nat \<Rightarrow> u64 \<Rightarrow> 'x \<Rightarrow> (bool \<times> 'x) option" where
  "entries_loop func sz 0 p x = Some (True, x)"
| "entries_loop func sz (Suc n) p x = and_then_some (func x p) (\<lambda>x. entries_loop func sz n (p + sz) x)"

definition encode_array ::
  "'s pb_env \<Rightarrow> 's pb_ostream_t \<Rightarrow> pb_field_t \<Rightarrow> u64 \<Rightarrow> nat \<Rightarrow>
     ('s pb_ostream_t \<Rightarrow> pb_field_t \<Rightarrow> u64 \<Rightarrow> 's result) \<Rightarrow> 's result" where
  "encode_array env stream field data count func =
     (let ltype = PB_LTYPE (field_type field); atype = PB_ATYPE (field_type field);
          loop = entries_loop (\<lambda>stream p. func stream field p) (ucast (data_size field)) count data
      in if count = 0 then Some (True, stream)
         else if atype \<noteq> PB_ATYPE_POINTER \<and> count > unat (array_size field)
         then Some (os_return_error stream ''array max size exceeded'')
         else if ltype \<le> PB_LTYPE_LAST_PACKABLE
         then and_then_some (Some (pb_encode_tag stream PB_WT_STRING (field_tag field)))
           (\<lambda>stream.
              case (if ltype = PB_LTYPE_FIXED32 then Some (Some ((4 * count) mod SIZE_MOD))
                    else if ltype = PB_LTYPE_FIXED64 then Some (Some ((8 * count) mod SIZE_MOD))
                    else (case loop (PB_OSTREAM_SIZING (env_null env)) of
                            None \<Rightarrow> None
                          | Some (ok, sizestream) \<Rightarrow> Some (if ok then Some (bytes_written sizestream) else None))) of
                None \<Rightarrow> None
              | Some None \<Rightarrow> Some (False, stream)
              | Some (Some sz) \<Rightarrow>
                  and_then_some (Some (pb_encode_varint stream (of_nat sz)))
                    (\<lambda>stream. if os_callback stream = None then Some (pb_write stream [] sz) else loop stream))
         else entries_loop
                (\<lambda>stream p.
                   and_then_some (Some (pb_encode_tag_for_field stream field))
                     (\<lambda>stream.
                        func stream field
                          (if atype = PB_ATYPE_POINTER \<and> (ltype = PB_LTYPE_STRING \<or> ltype = PB_LTYPE_BYTES)
                           then load_u64 (env_mem env) p else p)))
                (ucast (data_size field)) count data stream)"

section \<open>Fields\<close>

text \<open>
  \<open>pb_check_proto3_default_value\<close>. The nested messages it goes through are parts of one structure, but
  the descriptors could be cyclic, so it takes fuel too.
\<close>

fun pb_check_proto3_default_value ::
  "pb_field_t list list \<Rightarrow> memory \<Rightarrow> nat \<Rightarrow> pb_field_t \<Rightarrow> u64 \<Rightarrow> bool option" where
  "pb_check_proto3_default_value descs m 0 field data = None"
| "pb_check_proto3_default_value descs m (Suc fuel) field data =
     (let ty = field_type field; sz = data + scast (size_offset field)
      in if PB_HTYPE ty = PB_HTYPE_REQUIRED then Some False
         else if PB_HTYPE ty = PB_HTYPE_REPEATED \<and> size_offset field \<noteq> 0 then Some (load_u32 m sz = 0)
         else if PB_HTYPE ty = PB_HTYPE_REPEATED \<and> PB_ATYPE ty = PB_ATYPE_STATIC then Some False
         else if PB_HTYPE ty = PB_HTYPE_ONEOF then Some (load_u32 m sz = 0)
         else if PB_HTYPE ty = PB_HTYPE_OPTIONAL \<and> size_offset field \<noteq> 0 then Some (\<not> safe_read_bool m sz)
         else if PB_ATYPE ty = PB_ATYPE_STATIC \<and> PB_LTYPE ty = PB_LTYPE_BYTES then Some (load_u32 m data = 0)
         else if PB_ATYPE ty = PB_ATYPE_STATIC \<and> PB_LTYPE ty = PB_LTYPE_STRING then Some (m data = 0)
         else if PB_ATYPE ty = PB_ATYPE_STATIC \<and> PB_LTYPE ty = PB_LTYPE_FIXED_LENGTH_BYTES
         then Some (data_size field = 0)
         else if PB_ATYPE ty = PB_ATYPE_STATIC \<and> PB_LTYPE ty = PB_LTYPE_SUBMESSAGE
         then (case submsg_fields descs field of
                 None \<Rightarrow> None
               | Some fs \<Rightarrow>
                   (case pb_field_iter_begin fs data of
                      (False, _) \<Rightarrow> Some True
                    | (True, iter) \<Rightarrow>
                        map_option fst
                          (for_fields
                             (\<lambda>iter x. case pb_check_proto3_default_value descs m fuel (it_field iter) (pData iter) of
                                          None \<Rightarrow> None | Some b \<Rightarrow> Some (b, ()))
                             (length fs) iter ())))
         else if PB_ATYPE ty = PB_ATYPE_POINTER \<and> PB_LTYPE ty > PB_LTYPE_LAST_PACKABLE
         then Some (load_u64 m data = 0)
         else Some (list_all (\<lambda>b. b = 0) (load m data (unat (data_size field)))))"

text \<open>In \<open>encode_basic_field\<close>, \<open>pSize\<close> is an address or points to the local \<open>implicit_has\<close> (\<open>None\<close>).\<close>

definition encode_basic_field ::
  "'s pb_env \<Rightarrow> nat \<Rightarrow> ('s pb_ostream_t \<Rightarrow> pb_field_t list \<Rightarrow> u64 \<Rightarrow> 's result) \<Rightarrow>
     's pb_ostream_t \<Rightarrow> pb_field_t \<Rightarrow> u64 \<Rightarrow> 's result" where
  "encode_basic_field env fuel sub stream field data =
     (let m = env_mem env; ty = field_type field;
          func = PB_ENCODERS env sub (PB_LTYPE ty);
          sz = (if size_offset field \<noteq> 0 then Some (data + scast (size_offset field)) else None)
      in case (if size_offset field \<noteq> 0 then Some False
               else if PB_HTYPE ty = PB_HTYPE_OPTIONAL
               then map_option Not (pb_check_proto3_default_value (env_descs env) m (Suc fuel) field data)
               else Some True) of
           None \<Rightarrow> None
         | Some implicit_has \<Rightarrow>
             let (data, implicit_has) =
                   (if PB_ATYPE ty = PB_ATYPE_POINTER then (load_u64 m data, load_u64 m data \<noteq> 0)
                    else (data, implicit_has));
                 item = (\<lambda>stream. and_then_some (Some (pb_encode_tag_for_field stream field))
                                     (\<lambda>stream. func stream field data))
             in if PB_HTYPE ty = PB_HTYPE_REQUIRED
                then (if data = 0 then Some (os_return_error stream ''missing required field'') else item stream)
                else if PB_HTYPE ty = PB_HTYPE_OPTIONAL
                then (if (case sz of None \<Rightarrow> implicit_has | Some a \<Rightarrow> safe_read_bool m a) then item stream
                      else Some (True, stream))
                else if PB_HTYPE ty = PB_HTYPE_REPEATED
                then encode_array env stream field data
                       (unat (case sz of None \<Rightarrow> array_size field | Some a \<Rightarrow> load_u32 m a)) func
                else (case sz of
                        None \<Rightarrow> None
                      | Some a \<Rightarrow> if load_u32 m a = field_tag field then item stream else Some (True, stream)))"

definition encode_callback_field ::
  "'s pb_env \<Rightarrow> 's pb_ostream_t \<Rightarrow> pb_field_t \<Rightarrow> u64 \<Rightarrow> bool \<times> 's pb_ostream_t" where
  "encode_callback_field env stream field data =
     (let fn = callback_funcs (env_mem env) data
      in if fn \<noteq> 0
         then (case env_callback env fn stream field (callback_arg data) of
                 (True, stream) \<Rightarrow> (True, stream)
               | (False, stream) \<Rightarrow> os_return_error stream ''callback error'')
         else (True, stream))"

definition encode_field ::
  "'s pb_env \<Rightarrow> nat \<Rightarrow> ('s pb_ostream_t \<Rightarrow> pb_field_t list \<Rightarrow> u64 \<Rightarrow> 's result) \<Rightarrow>
     's pb_ostream_t \<Rightarrow> pb_field_t \<Rightarrow> u64 \<Rightarrow> 's result" where
  "encode_field env fuel sub stream field data =
     (if PB_ATYPE (field_type field) = PB_ATYPE_STATIC \<or> PB_ATYPE (field_type field) = PB_ATYPE_POINTER
      then encode_basic_field env fuel sub stream field data
      else if PB_ATYPE (field_type field) = PB_ATYPE_CALLBACK
      then Some (encode_callback_field env stream field data)
      else Some (os_return_error stream ''invalid field type''))"

definition default_extension_encoder ::
  "'s pb_env \<Rightarrow> nat \<Rightarrow> ('s pb_ostream_t \<Rightarrow> pb_field_t list \<Rightarrow> u64 \<Rightarrow> 's result) \<Rightarrow>
     's pb_ostream_t \<Rightarrow> u64 \<Rightarrow> 's result" where
  "default_extension_encoder env fuel sub stream extension =
     (let field = xt_arg (env_ext_type env (extension_type (env_mem env) extension))
      in if PB_ATYPE (field_type field) = PB_ATYPE_POINTER
         then encode_field env fuel sub stream field (extension_dest extension)
         else encode_field env fuel sub stream field (load_u64 (env_mem env) (extension_dest extension)))"

text \<open>The list of extensions is a linked list, so walking it takes fuel.\<close>

fun extension_loop ::
  "'s pb_env \<Rightarrow> nat \<Rightarrow> ('s pb_ostream_t \<Rightarrow> pb_field_t list \<Rightarrow> u64 \<Rightarrow> 's result) \<Rightarrow>
     nat \<Rightarrow> 's pb_ostream_t \<Rightarrow> u64 \<Rightarrow> 's result" where
  "extension_loop env fuel sub n stream extension =
     (if extension = 0 then Some (True, stream)
      else case n of
             0 \<Rightarrow> None
           | Suc n \<Rightarrow>
               (let fn = xt_encode (env_ext_type env (extension_type (env_mem env) extension))
                in and_then_some
                     (if fn \<noteq> 0 then Some (env_ext_encode env fn stream extension)
                      else default_extension_encoder env fuel sub stream extension)
                     (\<lambda>stream. extension_loop env fuel sub n stream (extension_next (env_mem env) extension))))"

declare extension_loop.simps [simp del]

definition encode_extension_field ::
  "'s pb_env \<Rightarrow> nat \<Rightarrow> ('s pb_ostream_t \<Rightarrow> pb_field_t list \<Rightarrow> u64 \<Rightarrow> 's result) \<Rightarrow>
     's pb_ostream_t \<Rightarrow> u64 \<Rightarrow> 's result" where
  "encode_extension_field env fuel sub stream data =
     extension_loop env fuel sub fuel stream (load_u64 (env_mem env) data)"

section \<open>Messages\<close>

fun pb_encode :: "nat \<Rightarrow> 's pb_env \<Rightarrow> 's pb_ostream_t \<Rightarrow> pb_field_t list \<Rightarrow> u64 \<Rightarrow> 's result" where
  "pb_encode 0 env stream fs src = None"
| "pb_encode (Suc fuel) env stream fs src =
     (case pb_field_iter_begin fs src of
        (False, _) \<Rightarrow> Some (True, stream)
      | (True, iter) \<Rightarrow>
          for_fields
            (\<lambda>iter stream.
               if PB_LTYPE (field_type (it_field iter)) = PB_LTYPE_EXTENSION
               then encode_extension_field env fuel (\<lambda>s f a. pb_encode fuel env s f a) stream (pData iter)
               else encode_field env fuel (\<lambda>s f a. pb_encode fuel env s f a) stream (it_field iter) (pData iter))
            (length fs) iter stream)"

definition pb_encode_delimited ::
  "nat \<Rightarrow> 's pb_env \<Rightarrow> 's pb_ostream_t \<Rightarrow> pb_field_t list \<Rightarrow> u64 \<Rightarrow> 's result" where
  "pb_encode_delimited fuel env stream fs src =
     pb_encode_submessage env (pb_encode fuel env) stream fs src"

definition pb_encode_nullterminated ::
  "nat \<Rightarrow> 's pb_env \<Rightarrow> 's pb_ostream_t \<Rightarrow> pb_field_t list \<Rightarrow> u64 \<Rightarrow> 's result" where
  "pb_encode_nullterminated fuel env stream fs src =
     and_then_some (pb_encode fuel env stream fs src) (\<lambda>stream. Some (pb_write stream [0] 1))"

text \<open>\<open>Some None\<close> is the return value false.\<close>

definition pb_get_encoded_size ::
  "nat \<Rightarrow> 's pb_env \<Rightarrow> pb_field_t list \<Rightarrow> u64 \<Rightarrow> nat option option" where
  "pb_get_encoded_size fuel env fs src =
     (case pb_encode fuel env (PB_OSTREAM_SIZING (env_null env)) fs src of
        None \<Rightarrow> None
      | Some (ok, stream) \<Rightarrow> Some (if ok then Some (bytes_written stream) else None))"

section \<open>Descriptors\<close>

text \<open>The types with an encoder.\<close>

definition encodable :: "pb_type_t \<Rightarrow> bool" where
  "encodable ltype \<longleftrightarrow> ltype \<le> PB_LTYPE_SUBMESSAGE \<or> ltype = PB_LTYPE_FIXED_LENGTH_BYTES"

lemmas ltype_defs = PB_LTYPE_BOOL_def PB_LTYPE_VARINT_def PB_LTYPE_UVARINT_def PB_LTYPE_SVARINT_def PB_LTYPE_FIXED32_def
  PB_LTYPE_FIXED64_def PB_LTYPE_BYTES_def PB_LTYPE_STRING_def PB_LTYPE_SUBMESSAGE_def PB_LTYPE_FIXED_LENGTH_BYTES_def
  PB_LTYPE_EXTENSION_def PB_LTYPE_LAST_PACKABLE_def

lemma encodable_cases:
  assumes "encodable t"
  obtains "t = PB_LTYPE_BOOL" | "t = PB_LTYPE_VARINT" | "t = PB_LTYPE_UVARINT" | "t = PB_LTYPE_SVARINT"
    | "t = PB_LTYPE_FIXED32" | "t = PB_LTYPE_FIXED64" | "t = PB_LTYPE_BYTES" | "t = PB_LTYPE_STRING"
    | "t = PB_LTYPE_SUBMESSAGE" | "t = PB_LTYPE_FIXED_LENGTH_BYTES"
proof -
  have "t \<in> {0, 1, 2, 3, 4, 5, 6, 7, 8, 10}"
  proof (cases "t = 10")
    case False
    then have "unat t \<le> 8" using assms by (simp add: encodable_def ltype_defs word_le_nat_alt)
    then have "unat t \<in> {0, 1, 2, 3, 4, 5, 6, 7, 8}" by auto
    moreover have "t = of_nat n" if "unat t = n" for n using that by auto
    ultimately show ?thesis by fastforce
  qed simp
  then show thesis using that by (auto simp: ltype_defs)
qed

text \<open>
  Descriptors that refer only to descriptors before them, so that messages nest to a bounded depth; no
  extension ranges, whose lists are as long as the user makes them; the fields of unions have their tag.
\<close>

definition refers_below :: "nat \<Rightarrow> pb_field_t \<Rightarrow> bool" where
  "refers_below k f \<longleftrightarrow>
     PB_LTYPE (field_type f) \<noteq> PB_LTYPE_EXTENSION \<and>
     (PB_LTYPE (field_type f) = PB_LTYPE_SUBMESSAGE \<longrightarrow>
        (case field_ptr f of Submsg_fields j \<Rightarrow> j < k | _ \<Rightarrow> False)) \<and>
     (PB_HTYPE (field_type f) = PB_HTYPE_ONEOF \<longrightarrow> size_offset f \<noteq> 0)"

definition nested :: "nat \<Rightarrow> pb_field_t list \<Rightarrow> bool" where
  "nested k fs \<longleftrightarrow> message_ok fs \<and> list_all (refers_below k) (butlast fs)"

definition acyclic_descs :: "pb_field_t list list \<Rightarrow> bool" where
  "acyclic_descs descs \<longleftrightarrow> list_all (\<lambda>k. nested k (descs ! k)) [0..<length descs]"

lemma nestedD: "nested k fs \<Longrightarrow> i < length fs - 1 \<Longrightarrow> refers_below k (fs ! i)"
  by (auto simp: nested_def list_all_length nth_butlast)

lemma acyclicD: "acyclic_descs descs \<Longrightarrow> k < length descs \<Longrightarrow> nested k (descs ! k)"
  by (simp add: acyclic_descs_def list_all_iff)

lemma refers_below_sub:
  assumes "refers_below k f" and "PB_LTYPE (field_type f) = PB_LTYPE_SUBMESSAGE" and "k \<le> length descs"
  obtains j where "j < k" "submsg_fields descs f = Some (descs ! j)" "field_ptr f \<noteq> No_ptr"
  using assms by (auto simp: refers_below_def submsg_fields_def split: pb_field_ptr.splits)

end
