(* ===== verification/Pb_Msg_Wire.thy ===== *)
theory Pb_Msg_Wire
  imports Pb_Msg_Encode Pb_Wire
begin

text \<open>
  The wire form of a message, and that the encoder writes it. The wire form is a list of tagged values
  (\<open>wire_value\<close>), computed from the descriptors and the memory with no streams, sizes or iterators:
  submessages and packed arrays are strings with the bytes of their parts.

  A result has three cases: \<open>Some (Some ws)\<close>; \<open>Some None\<close>, an error; and \<open>None\<close>, where the fuel does not
  suffice, a descriptor is invalid in a way the encoder does not check, or a submessage is larger than
  any object can be (\<open>2 ^ 63\<close> bytes).
\<close>

section \<open>The wire form\<close>

lemma zigzag_less: "zigzag v < 2 ^ 64"
  unfolding unat_zigzag [symmetric] using unat_u64_less by simp

type_synonym wire_field = "u32 \<times> wire_value"

definition message_bytes :: "wire_field list \<Rightarrow> byte list" where
  "message_bytes ws = concat (map (\<lambda>(t, w). field_bytes t w) ws)"

lemma message_bytes_simps [simp]:
  "message_bytes [] = []"
  "message_bytes (tw # ws) = field_bytes (fst tw) (snd tw) @ message_bytes ws"
  "message_bytes (us @ ws) = message_bytes us @ message_bytes ws"
  by (simp_all add: message_bytes_def case_prod_beta)

text \<open>A part and what follows it, and the parts of a list up to the first that has no result or fails.\<close>

definition join :: "'b list option option \<Rightarrow> 'b list option option \<Rightarrow> 'b list option option" where
  "join r q =
     (case r of None \<Rightarrow> None | Some None \<Rightarrow> Some None | Some (Some a) \<Rightarrow> map_option (map_option ((@) a)) q)"

fun collect :: "('a \<Rightarrow> 'b list option option) \<Rightarrow> 'a list \<Rightarrow> 'b list option option" where
  "collect f [] = Some (Some [])"
| "collect f (x # xs) = join (f x) (collect f xs)"

lemma collect_cong [fundef_cong]:
  "xs = ys \<Longrightarrow> (\<And>x. x \<in> set ys \<Longrightarrow> f x = g x) \<Longrightarrow> collect f xs = collect g ys"
  by (induction ys arbitrary: xs) auto

definition value_at :: "memory \<Rightarrow> pb_field_t \<Rightarrow> u64 \<Rightarrow> wire_value option" where
  "value_at m field a =
     (let ltype = PB_LTYPE (field_type field); sz = data_size field; static = (PB_ATYPE (field_type field) = PB_ATYPE_STATIC)
      in if ltype = PB_LTYPE_BOOL then Some (Wvarint (if m a = 0 then 0 else 1))
         else if ltype = PB_LTYPE_VARINT then map_option Wvarint (load_signed m sz a)
         else if ltype = PB_LTYPE_UVARINT then map_option Wvarint (load_unsigned m sz a)
         else if ltype = PB_LTYPE_SVARINT then map_option (\<lambda>v. Wvarint (of_nat (zigzag v))) (load_signed m sz a)
         else if ltype = PB_LTYPE_FIXED32 then Some (W32bit (load_u32 m a))
         else if ltype = PB_LTYPE_FIXED64 then Some (W64bit (load_u64 m a))
         else if ltype = PB_LTYPE_BYTES
         then (let n = unat (load_u32 m a)
               in if a = 0 then Some (Wstring [])
                  else if static \<and> n > (unat sz + SIZE_MOD - OFFSETOF_BYTES) mod SIZE_MOD then None
                  else Some (Wstring (load m (a + of_nat OFFSETOF_BYTES) n)))
         else if ltype = PB_LTYPE_STRING
         then Some (Wstring (if a = 0 then []
                             else takeWhile (\<lambda>c. c \<noteq> 0)
                                    (load m a (if PB_ATYPE (field_type field) = PB_ATYPE_POINTER then SIZE_MAX else unat sz))))
         else if ltype = PB_LTYPE_FIXED_LENGTH_BYTES then Some (Wstring (load m a (unat sz)))
         else None)"

text \<open>\<open>sub\<close> is the wire form of a message given by its descriptors and its address.\<close>

type_synonym sub_wire = "pb_field_t list \<Rightarrow> u64 \<Rightarrow> wire_field list option option"

definition sub_value :: "sub_wire \<Rightarrow> pb_field_t list \<Rightarrow> u64 \<Rightarrow> wire_value option option" where
  "sub_value sub fs a =
     (case sub fs a of
        None \<Rightarrow> None
      | Some None \<Rightarrow> Some None
      | Some (Some ws) \<Rightarrow>
          if length (message_bytes ws) < 2 ^ 63 then Some (Some (Wstring (message_bytes ws))) else None)"

definition wire_at :: "pb_field_t list list \<Rightarrow> memory \<Rightarrow> sub_wire \<Rightarrow> pb_field_t \<Rightarrow> u64 \<Rightarrow> wire_value option option" where
  "wire_at descs m sub field a =
     (if PB_LTYPE (field_type field) \<noteq> PB_LTYPE_SUBMESSAGE then Some (value_at m field a)
      else if field_ptr field = No_ptr then Some None
      else case submsg_fields descs field of None \<Rightarrow> None | Some fs \<Rightarrow> sub_value sub fs a)"

definition item_at :: "pb_field_t list list \<Rightarrow> memory \<Rightarrow> sub_wire \<Rightarrow> pb_field_t \<Rightarrow> u64 \<Rightarrow> wire_field list option option" where
  "item_at descs m sub field a = map_option (map_option (\<lambda>w. [(field_tag field, w)])) (wire_at descs m sub field a)"

text \<open>The addresses of the entries of an array.\<close>

definition entries :: "pb_field_t \<Rightarrow> u64 \<Rightarrow> nat \<Rightarrow> u64 list" where
  "entries field a n = map (\<lambda>i. a + of_nat i * ucast (data_size field)) [0..<n]"

definition array_wire ::
  "pb_field_t list list \<Rightarrow> memory \<Rightarrow> sub_wire \<Rightarrow> pb_field_t \<Rightarrow> u64 \<Rightarrow> nat \<Rightarrow> wire_field list option option" where
  "array_wire descs m sub field a n =
     (let ltype = PB_LTYPE (field_type field); pointer = (PB_ATYPE (field_type field) = PB_ATYPE_POINTER);
          val = wire_at descs m sub field
      in if n = 0 then Some (Some [])
         else if \<not> pointer \<and> n > unat (array_size field) then Some None
         else if ltype \<le> PB_LTYPE_LAST_PACKABLE
         then map_option (map_option (\<lambda>bs. [(field_tag field, Wstring bs)]))
                (collect (\<lambda>p. map_option (map_option wire_payload) (val p)) (entries field a n))
         else collect
                (\<lambda>p. item_at descs m sub field
                        (if pointer \<and> (ltype = PB_LTYPE_STRING \<or> ltype = PB_LTYPE_BYTES) then load_u64 m p else p))
                (entries field a n))"

text \<open>
  A field that is there: a required one that is not is an error; an optional one has a flag, or else is
  there if its pointer is not NULL or its value not the default; the fields of a union share the tag of
  the one that is there.
\<close>

definition basic_wire ::
  "pb_field_t list list \<Rightarrow> memory \<Rightarrow> nat \<Rightarrow> sub_wire \<Rightarrow> pb_field_t \<Rightarrow> u64 \<Rightarrow> wire_field list option option" where
  "basic_wire descs m fuel sub field a =
     (let ty = field_type field; pointer = (PB_ATYPE ty = PB_ATYPE_POINTER);
          data = (if pointer then load_u64 m a else a);
          flagged = (size_offset field \<noteq> 0); flag = a + scast (size_offset field);
          item = item_at descs m sub field data;
          opt = (\<lambda>there. if there then item else Some (Some []))
      in if PB_HTYPE ty = PB_HTYPE_REQUIRED then (if data = 0 then Some None else item)
         else if PB_HTYPE ty = PB_HTYPE_OPTIONAL
         then (if flagged then opt (m flag \<noteq> 0)
               else if pointer then opt (data \<noteq> 0)
               else case pb_check_proto3_default_value descs m (Suc fuel) field a of
                      None \<Rightarrow> None | Some dflt \<Rightarrow> opt (\<not> dflt))
         else if PB_HTYPE ty = PB_HTYPE_REPEATED
         then array_wire descs m sub field data (unat (if flagged then load_u32 m flag else array_size field))
         else if flagged then opt (load_u32 m flag = field_tag field)
         else None)"

text \<open>What the callbacks of fields and extensions write: \<open>None\<close> if they fail.\<close>

record callback_wire =
  cw_field :: "u64 \<Rightarrow> pb_field_t \<Rightarrow> u64 \<Rightarrow> wire_field list option"
  cw_ext :: "u64 \<Rightarrow> u64 \<Rightarrow> wire_field list option"

definition field_wire ::
  "'s pb_env \<Rightarrow> callback_wire \<Rightarrow> nat \<Rightarrow> sub_wire \<Rightarrow> pb_field_t \<Rightarrow> u64 \<Rightarrow> wire_field list option option" where
  "field_wire env cw fuel sub field a =
     (let m = env_mem env; atype = PB_ATYPE (field_type field)
      in if atype = PB_ATYPE_STATIC \<or> atype = PB_ATYPE_POINTER then basic_wire (env_descs env) m fuel sub field a
         else if atype = PB_ATYPE_CALLBACK
         then (if callback_funcs m a = 0 then Some (Some [])
               else Some (cw_field cw (callback_funcs m a) field (callback_arg a)))
         else Some None)"

definition extension_wire ::
  "'s pb_env \<Rightarrow> callback_wire \<Rightarrow> nat \<Rightarrow> sub_wire \<Rightarrow> u64 \<Rightarrow> wire_field list option option" where
  "extension_wire env cw fuel sub a =
     (let m = env_mem env; ty = env_ext_type env (extension_type m a); field = xt_arg ty
      in if xt_encode ty \<noteq> 0 then Some (cw_ext cw (xt_encode ty) a)
         else field_wire env cw fuel sub field
                (if PB_ATYPE (field_type field) = PB_ATYPE_POINTER then extension_dest a else load_u64 m (extension_dest a)))"

text \<open>The extensions of a list, \<open>None\<close> if it has more than \<open>n\<close>.\<close>

fun extension_list :: "memory \<Rightarrow> nat \<Rightarrow> u64 \<Rightarrow> u64 list option" where
  "extension_list m 0 a = (if a = 0 then Some [] else None)"
| "extension_list m (Suc n) a =
     (if a = 0 then Some [] else map_option ((#) a) (extension_list m n (extension_next m a)))"

fun msg_wire :: "'s pb_env \<Rightarrow> callback_wire \<Rightarrow> nat \<Rightarrow> sub_wire" where
  "msg_wire env cw 0 fs a = None"
| "msg_wire env cw (Suc fuel) fs a =
     collect
       (\<lambda>k. if PB_LTYPE (field_type (fs ! k)) = PB_LTYPE_EXTENSION
            then (case extension_list (env_mem env) fuel (load_u64 (env_mem env) (field_data fs a k)) of
                    None \<Rightarrow> None
                  | Some es \<Rightarrow> collect (extension_wire env cw fuel (msg_wire env cw fuel)) es)
            else field_wire env cw fuel (msg_wire env cw fuel) (fs ! k) (field_data fs a k))
       [0..<length fs - 1]"

end
