(* ===== verification/Pb_Msg_Emit.thy ===== *)
theory Pb_Msg_Emit
  imports Pb_Msg_Wire
begin

text \<open>
  The encoder writes the wire form: what each of its functions does to a stream that counts and to a
  stream to a buffer, from the encoders of values to messages.
\<close>

section \<open>Writing, and failing\<close>

text \<open>No object is larger than \<open>PTRDIFF_MAX\<close>; a stream on which nothing has failed has no error message.\<close>

definition object_stream :: "buf_ostream \<Rightarrow> bool" where
  "object_stream s \<longleftrightarrow> buffer_stream s \<and> max_size s < 2 ^ 63 \<and> os_errmsg s = None"

definition yields :: "(buf_ostream \<Rightarrow> (bool \<times> buf_ostream) option) \<Rightarrow> byte list \<Rightarrow> bool" where
  "yields g bs \<longleftrightarrow>
     (\<forall>s. sizing_stream s \<longrightarrow> g s = Some (True, counted s bs)) \<and>
     (\<forall>s. object_stream s \<longrightarrow>
        (if bytes_written s + length bs \<le> max_size s then g s = Some (True, appended s bs)
         else \<exists>s'. g s = Some (False, s') \<and> os_errmsg s' \<noteq> None \<and> within_room s s'))"

definition fails :: "(buf_ostream \<Rightarrow> (bool \<times> buf_ostream) option) \<Rightarrow> bool" where
  "fails g \<longleftrightarrow>
     (\<forall>s. sizing_stream s \<longrightarrow> (\<exists>s'. g s = Some (False, s'))) \<and>
     (\<forall>s. object_stream s \<longrightarrow> (\<exists>s'. g s = Some (False, s') \<and> within_room s s'))"

definition writes :: "(buf_ostream \<Rightarrow> (bool \<times> buf_ostream) option) \<Rightarrow> byte list option option \<Rightarrow> bool" where
  "writes g r \<longleftrightarrow> (case r of None \<Rightarrow> True | Some None \<Rightarrow> fails g | Some (Some bs) \<Rightarrow> yields g bs)"

lemma writes_simps [simp]:
  "writes g None" "writes g (Some None) = fails g" "writes g (Some (Some bs)) = yields g bs"
  by (simp_all add: writes_def)

lemma yieldsD:
  assumes "yields g bs"
  shows "sizing_stream s \<Longrightarrow> g s = Some (True, counted s bs)"
    and "object_stream s \<Longrightarrow> bytes_written s + length bs \<le> max_size s \<Longrightarrow> g s = Some (True, appended s bs)"
    and "object_stream s \<Longrightarrow> \<not> bytes_written s + length bs \<le> max_size s \<Longrightarrow>
      \<exists>s'. g s = Some (False, s') \<and> os_errmsg s' \<noteq> None \<and> within_room s s'"
  using assms unfolding yields_def by metis+

lemma failsD:
  assumes "fails g"
  shows "sizing_stream s \<Longrightarrow> \<exists>s'. g s = Some (False, s')"
    and "object_stream s \<Longrightarrow> \<exists>s'. g s = Some (False, s') \<and> within_room s s'"
  using assms unfolding fails_def by metis+

lemma object_stream_appended:
  "object_stream s \<Longrightarrow> bytes_written s + length a \<le> max_size s \<Longrightarrow> object_stream (appended s a)"
  using buffer_stream_appended [of s a] by (simp add: object_stream_def) (simp add: appended_def)

lemma within_room_refl [simp]: "within_room s s"
  by (simp add: within_room_def)

lemma within_room_cong: "os_state t = os_state s' \<Longrightarrow> within_room s t = within_room s s'"
  by (simp add: within_room_def)

lemma error_state [simp]: "os_state (snd (os_return_error s msg)) = os_state s" "fst (os_return_error s msg) = False"
  "os_errmsg (snd (os_return_error s msg)) \<noteq> None"
  by (simp_all add: os_return_error_def PB_SET_ERROR_def split: option.split)

lemma fails_error: "fails (\<lambda>s. Some (os_return_error s msg))"
proof -
  have "os_return_error s msg = (False, snd (os_return_error s msg))" "within_room s (snd (os_return_error s msg))"
    for s :: buf_ostream
    using prod.collapse [of "os_return_error s msg"] by (simp_all add: within_room_def)
  then show ?thesis unfolding fails_def by metis
qed

lemma yields_emits: "emits f bs \<Longrightarrow> yields (\<lambda>s. Some (f s)) bs"
  using emitsD [of f bs] by (simp add: yields_def object_stream_def)

lemma yields_nothing: "yields (\<lambda>s. Some (True, s)) []"
  using yields_emits [OF emits_nothing] .

lemma yields_then:
  assumes "yields f a" and "yields g b"
  shows "yields (\<lambda>s. and_then_some (f s) g) (a @ b)"
  unfolding yields_def
proof (intro conjI allI impI)
  fix s :: buf_ostream assume "sizing_stream s"
  then show "and_then_some (f s) g = Some (True, counted s (a @ b))"
    using yieldsD(1) [OF assms(1), of s] yieldsD(1) [OF assms(2), of "counted s a"] by simp
next
  fix s :: buf_ostream assume s: "object_stream s"
  then have b: "buffer_stream s" by (simp add: object_stream_def)
  show "if bytes_written s + length (a @ b) \<le> max_size s then and_then_some (f s) g = Some (True, appended s (a @ b))
     else \<exists>s'. and_then_some (f s) g = Some (False, s') \<and> os_errmsg s' \<noteq> None \<and> within_room s s'"
  proof (cases "bytes_written s + length a \<le> max_size s")
    case True
    note f = yieldsD(2) [OF assms(1) s True] and ap = buffer_stream_appended [OF b True] object_stream_appended [OF s True]
    show ?thesis
    proof (cases "bytes_written s + length (a @ b) \<le> max_size s")
      case ab: True
      then show ?thesis
        using f yieldsD(2) [OF assms(2) ap(5)] ap(2,3) appended_appended [OF b ab] by simp
    next
      case ab: False
      then obtain s' where "g (appended s a) = Some (False, s')" "os_errmsg s' \<noteq> None" "within_room (appended s a) s'"
        using yieldsD(3) [OF assms(2) ap(5)] ap(2,3) by auto
      then show ?thesis using f ab within_room_appended [OF b True] by auto
    qed
  next
    case False
    then obtain s' where "f s = Some (False, s')" "os_errmsg s' \<noteq> None" "within_room s s'"
      using yieldsD(3) [OF assms(1) s] by blast
    then show ?thesis using False by simp
  qed
qed

lemma yields_fails:
  assumes "yields f a" and "fails g"
  shows "fails (\<lambda>s. and_then_some (f s) g)"
  unfolding fails_def
proof (intro conjI allI impI)
  fix s :: buf_ostream assume "sizing_stream s"
  then show "\<exists>s'. and_then_some (f s) g = Some (False, s')"
    using yieldsD(1) [OF assms(1), of s] failsD(1) [OF assms(2), of "counted s a"] by simp
next
  fix s :: buf_ostream assume s: "object_stream s"
  then have b: "buffer_stream s" by (simp add: object_stream_def)
  show "\<exists>s'. and_then_some (f s) g = Some (False, s') \<and> within_room s s'"
  proof (cases "bytes_written s + length a \<le> max_size s")
    case True
    then show ?thesis
      using yieldsD(2) [OF assms(1) s] failsD(2) [OF assms(2) object_stream_appended [OF s True]]
        within_room_appended [OF b True] by auto
  next
    case False
    then show ?thesis using yieldsD(3) [OF assms(1) s] by auto
  qed
qed

lemma fails_then:
  assumes "fails f"
  shows "fails (\<lambda>s. and_then_some (f s) g)"
  unfolding fails_def using failsD [OF assms] by (metis and_then_some_simps(3))

lemma writes_then:
  assumes "writes f r" and "\<And>a. r = Some (Some a) \<Longrightarrow> writes g q"
  shows "writes (\<lambda>s. and_then_some (f s) g) (join r q)"
proof (cases r)
  case (Some r')
  show ?thesis
  proof (cases r')
    case None
    then show ?thesis using assms(1) Some by (simp add: join_def fails_then)
  next
    case a: (Some a)
    then have "writes g q" "yields f a" using assms Some by simp_all
    then show ?thesis
      by (cases q rule: option.exhaust; cases "the q") (simp_all add: Some a join_def yields_then yields_fails)
  qed
qed (simp add: join_def)

lemma steps_Cons: "steps f (k # ks) x = and_then_some (f k x) (steps f ks)"
  by (simp add: and_then_some_def split: option.split prod.split)

lemma writes_steps:
  assumes "\<And>k. k \<in> set ks \<Longrightarrow> writes (f k) (r k)"
  shows "writes (steps f ks) (collect r ks)"
  using assms
proof (induction ks)
  case Nil
  then show ?case using yields_nothing by simp
next
  case (Cons k ks)
  have "writes (\<lambda>s. and_then_some (f k s) (steps f ks)) (join (r k) (collect r ks))"
    by (rule writes_then) (use Cons in simp_all)
  then show ?case unfolding steps_Cons by simp
qed

abbreviation bytes_of :: "wire_field list option option \<Rightarrow> byte list option option" where
  "bytes_of \<equiv> map_option (map_option message_bytes)"

lemma bytes_of_join: "bytes_of (join r q) = join (bytes_of r) (bytes_of q)"
  by (auto simp: join_def map_option_case split: option.split)

lemma bytes_of_collect: "bytes_of (collect f xs) = collect (\<lambda>x. bytes_of (f x)) xs"
  by (induction xs) (simp_all add: bytes_of_join)

section \<open>Values\<close>

abbreviation payload_of :: "wire_value option option \<Rightarrow> byte list option option" where
  "payload_of \<equiv> map_option (map_option wire_payload)"

lemma string_length_loop:
  "str_loop m p n k = n + length (takeWhile (\<lambda>c. c \<noteq> 0) (load m p (k - n)))"
proof (induction "k - n" arbitrary: n p)
  case 0
  then show ?case by (subst str_loop.simps) (simp add: load_def)
next
  case (Suc d)
  then have k: "n < k" "k - n = Suc (k - Suc n)" "d = k - Suc n" by simp_all
  have l: "load m p (Suc i) = m p # load m (p + 1) i" for i
    by (simp add: load_def upt_conv_Cons map_Suc_upt [symmetric] add.assoc del: upt_Suc)
  show ?case
    using Suc.hyps(1) [OF k(3), of "p + 1"] k
    by (subst str_loop.simps) (simp add: l)
qed

lemma load_string:
  "load m p (str_loop m p 0 k) = takeWhile (\<lambda>c. c \<noteq> 0) (load m p k)"
proof -
  have "take (length (takeWhile (\<lambda>c. c \<noteq> 0) (load m p k))) (load m p k) = takeWhile (\<lambda>c. c \<noteq> 0) (load m p k)"
    by (metis append_eq_conv_conj takeWhile_dropWhile_id)
  moreover have "take i (load m p k) = load m p i" if "i \<le> k" for i
    using that by (simp add: load_def take_map)
  moreover have "length (takeWhile (\<lambda>c. c \<noteq> 0) (load m p k)) \<le> k"
    using length_takeWhile_le [of "\<lambda>c. c \<noteq> 0" "load m p k"] by simp
  ultimately show ?thesis by (simp add: string_length_loop)
qed

lemma yields_string: "length bs = n \<Longrightarrow> n < SIZE_MOD \<Longrightarrow> yields (\<lambda>s. Some (pb_encode_string s bs n)) (wire_payload (Wstring bs))"
  using yields_emits [OF emits_string [of bs]] by simp

lemma yields_varint: "yields (\<lambda>s. Some (pb_encode_varint s v)) (wire_payload (Wvarint v))"
  using yields_emits [OF emits_varint] by simp

lemma yields_svarint: "yields (\<lambda>s. Some (pb_encode_svarint s v)) (wire_payload (Wvarint (of_nat (zigzag v))))"
  using yields_emits [OF emits_svarint [of v]] zigzag_less [of v] by (simp add: unat_of_nat take_bit_nat_eq_self)

lemma writes_value:
  assumes "encodable (PB_LTYPE (field_type field))" and "PB_LTYPE (field_type field) \<noteq> PB_LTYPE_SUBMESSAGE"
  shows "writes (\<lambda>s. PB_ENCODERS env sub (PB_LTYPE (field_type field)) s field a)
    (payload_of (Some (value_at (env_mem env) field a)))"
  using assms(1)
proof (cases rule: encodable_cases)
  case 1
  have "safe_read_bool m a = (m a \<noteq> 0)" for m by (simp add: safe_read_bool_def load_def)
  then show ?thesis
    using yields_varint [of 0] yields_varint [of 1] by (simp add: PB_ENCODERS_def value_at_def 1 pb_enc_bool_def)
next
  case 2
  then show ?thesis
    by (cases "load_signed (env_mem env) (data_size field) a")
      (simp_all add: PB_ENCODERS_def value_at_def pb_enc_varint_def fails_error yields_varint [simplified] ltype_defs)
next
  case 3
  then show ?thesis
    by (cases "load_unsigned (env_mem env) (data_size field) a")
      (simp_all add: PB_ENCODERS_def value_at_def pb_enc_uvarint_def fails_error yields_varint [simplified] ltype_defs)
next
  case 4
  then show ?thesis
    by (cases "load_signed (env_mem env) (data_size field) a")
      (use yields_svarint in \<open>simp_all add: PB_ENCODERS_def value_at_def pb_enc_svarint_def fails_error ltype_defs\<close>)
next
  case 5
  then show ?thesis using yields_emits [OF emits_fixed32]
    by (simp add: PB_ENCODERS_def value_at_def pb_enc_fixed32_def ltype_defs)
next
  case 6
  then show ?thesis using yields_emits [OF emits_fixed64]
    by (simp add: PB_ENCODERS_def value_at_def pb_enc_fixed64_def ltype_defs)
next
  case 7
  let ?n = "unat (load_u32 (env_mem env) a)"
  have "?n < SIZE_MOD" using unat_u32_less [of "load_u32 (env_mem env) a"] by (simp add: SIZE_MOD_def)
  moreover have z: "0 < SIZE_MOD" by (simp add: SIZE_MOD_def)
  moreover obtain c where c: "(PB_ATYPE (field_type field) = PB_ATYPE_STATIC \<and>
      (unat (data_size field) + SIZE_MOD - OFFSETOF_BYTES) mod SIZE_MOD < ?n) = c" by blast
  ultimately show ?thesis using 7 yields_string [of "[]" 0] yields_string [of "load (env_mem env) (a + of_nat OFFSETOF_BYTES) ?n" ?n]
    by (cases c; cases "a = 0")
      (simp_all add: PB_ENCODERS_def value_at_def pb_enc_bytes_def fails_error ltype_defs Let_def z c)
next
  case 8
  let ?k = "if PB_ATYPE (field_type field) = PB_ATYPE_POINTER then SIZE_MAX else unat (data_size field)"
  have "str_loop (env_mem env) a 0 ?k \<le> ?k"
    using length_takeWhile_le [of "\<lambda>c. c \<noteq> 0" "load (env_mem env) a ?k"] by (simp add: string_length_loop)
  moreover have "?k < SIZE_MOD" using unat_u32_less [of "data_size field"] by (simp add: SIZE_MOD_def SIZE_MAX_def)
  ultimately have n: "str_loop (env_mem env) a 0 ?k < SIZE_MOD" by linarith
  have s: "load (env_mem env) a (str_loop (env_mem env) a 0 ?k) = takeWhile (\<lambda>c. c \<noteq> 0) (load (env_mem env) a ?k)"
    by (rule load_string)
  from yields_string [OF length_load n, of "env_mem env" a]
  have "yields (\<lambda>st. Some (pb_encode_string st (load (env_mem env) a (str_loop (env_mem env) a 0 ?k)) (str_loop (env_mem env) a 0 ?k)))
    (wire_payload (Wstring (takeWhile (\<lambda>c. c \<noteq> 0) (load (env_mem env) a ?k))))"
    by (simp only: s)
  then show ?thesis using 8 yields_string [of "[]" 0]
    by (simp add: PB_ENCODERS_def value_at_def pb_enc_string_def ltype_defs Let_def SIZE_MOD_def load_def [of _ _ 0])
next
  case 10
  have "unat (data_size field) < SIZE_MOD" using unat_u32_less [of "data_size field"] by (simp add: SIZE_MOD_def)
  from yields_string [OF length_load this, of "env_mem env" a] show ?thesis using 10
    by (simp add: PB_ENCODERS_def value_at_def pb_enc_fixed_length_bytes_def ltype_defs)
qed (use assms(2) in simp)

section \<open>Submessages\<close>

text \<open>\<open>subw\<close> is the wire form of what \<open>sub\<close> encodes.\<close>

definition sub_writes :: "'w pb_env \<Rightarrow> (buf_ostream \<Rightarrow> pb_field_t list \<Rightarrow> u64 \<Rightarrow> (bool \<times> buf_ostream) option) \<Rightarrow> sub_wire \<Rightarrow> bool" where
  "sub_writes env sub subw \<longleftrightarrow> (\<forall>fs a. fs \<in> set (env_descs env) \<longrightarrow> writes (\<lambda>s. sub s fs a) (bytes_of (subw fs a)))"

lemma sizing_start: "sizing_stream (PB_OSTREAM_SIZING x)" "bytes_written (PB_OSTREAM_SIZING x) = 0"
  by (simp_all add: PB_OSTREAM_SIZING_def sizing_stream_def SIZE_MOD_def)

lemma submessage_room:
  assumes "yields g bs" and "length bs < 2 ^ 63"
  shows "yields
    (\<lambda>stream.
       if os_callback stream = None then Some (pb_write stream [] (length bs))
       else if size_add (bytes_written stream) (length bs) > max_size stream
       then Some (os_return_error stream ''stream full'')
       else (case g \<lparr>os_callback = os_callback stream, os_state = os_state stream, max_size = length bs,
                        bytes_written = 0, os_errmsg = None\<rparr> of
               None \<Rightarrow> None
             | Some (status, substream) \<Rightarrow>
                 let stream = stream\<lparr>bytes_written := size_add (bytes_written stream) (bytes_written substream),
                                     os_state := os_state substream, os_errmsg := os_errmsg substream\<rparr>
                 in if bytes_written substream \<noteq> length bs
                    then Some (os_return_error stream ''submsg size changed'')
                    else Some (status, stream))) bs"
    (is "yields ?h bs")
  unfolding yields_def
proof (intro conjI allI impI)
  fix s :: buf_ostream assume "sizing_stream s"
  then show "?h s = Some (True, counted s bs)"
    by (simp add: sizing_stream_def pb_write_def counted_def)
next
  fix s :: buf_ostream assume s: "object_stream s"
  have cb: "os_callback s = Some buf_write" and w: "bytes_written s \<le> max_size s" "max_size s < 2 ^ 63" and e: "os_errmsg s = None"
    and room: "snd (os_state s) + (max_size s - bytes_written s) \<le> length (fst (os_state s))"
    using s unfolding object_stream_def buffer_stream_def by blast+
  have sum: "size_add (bytes_written s) (length bs) = bytes_written s + length bs"
    using w assms(2) by (intro size_add_small) (simp add: SIZE_MOD_def)
  show "if bytes_written s + length bs \<le> max_size s then ?h s = Some (True, appended s bs)
     else \<exists>s'. ?h s = Some (False, s') \<and> os_errmsg s' \<noteq> None \<and> within_room s s'"
  proof (cases "bytes_written s + length bs \<le> max_size s")
    case True
    let ?sub = "\<lparr>os_callback = os_callback s, os_state = os_state s, max_size = length bs, bytes_written = 0, os_errmsg = None\<rparr>"
    have "object_stream ?sub"
      using True room cb assms(2) by (simp add: object_stream_def buffer_stream_def SIZE_MOD_def)
    then have "g ?sub = Some (True, appended ?sub bs)" using yieldsD(2) [OF assms(1)] by simp
    then show ?thesis using True sum cb e by (simp add: appended_def)
  next
    case False
    let ?e = "os_return_error s ''stream full''"
    have "?h s = Some ?e" using False sum cb by simp
    moreover have "?e = (False, snd ?e)" using prod.collapse [of ?e] by simp
    ultimately have "?h s = Some (False, snd ?e)" by simp
    moreover have "within_room s (snd ?e)" by (simp add: within_room_def)
    ultimately show ?thesis using False error_state(3) [of s "''stream full''"] by (simp only: if_False) blast
  qed
qed

lemma writes_submessage:
  assumes "sub_writes env sub subw" and "fs \<in> set (env_descs env)"
  shows "writes (\<lambda>s. pb_encode_submessage env sub s fs a) (payload_of (sub_value subw fs a))"
proof (cases "subw fs a")
  case (Some r)
  let ?s0 = "PB_OSTREAM_SIZING (env_null env) :: buf_ostream"
  have w: "writes (\<lambda>s. sub s fs a) (bytes_of (subw fs a))" using assms by (simp add: sub_writes_def)
  show ?thesis
  proof (cases r)
    case None
    then obtain s' where "sub ?s0 fs a = Some (False, s')"
      using w Some failsD(1) [OF _ sizing_start(1)] by fastforce
    then have "pb_encode_submessage env sub s fs a = Some (False, s\<lparr>os_errmsg := os_errmsg s'\<rparr>)" for s
      by (simp add: pb_encode_submessage_def)
    then show ?thesis using None Some by (simp add: sub_value_def fails_def within_room_def)
  next
    case ws: (Some ws)
    let ?bs = "message_bytes ws"
    show ?thesis
    proof (cases "length ?bs < 2 ^ 63")
      case True
      have y: "yields (\<lambda>s. sub s fs a) ?bs" using w Some ws by simp
      have "sub ?s0 fs a = Some (True, counted ?s0 ?bs)" by (rule yieldsD(1) [OF y sizing_start(1)])
      moreover have "bytes_written (counted ?s0 ?bs) = length ?bs"
        using True sizing_start(2) [of "env_null env"] by (simp add: size_add_def SIZE_MOD_def)
      ultimately obtain t where c: "sub ?s0 fs a = Some (True, t)" and b: "bytes_written t = length ?bs" by blast
      have n: "unat (of_nat (length ?bs) :: u64) = length ?bs"
        using True by (simp add: unat_of_nat take_bit_nat_eq_self)
      have "yields (\<lambda>s. Some (pb_encode_varint s (of_nat (length ?bs)))) (leb (length ?bs))"
        using yields_varint [of "of_nat (length ?bs)"] by (simp add: n)
      from yields_then [OF this submessage_room [OF y True]]
      show ?thesis using True Some ws by (simp add: pb_encode_submessage_def c b sub_value_def Let_def) (simp only: b)
    qed (simp add: Some ws sub_value_def)
  qed
qed (simp add: sub_value_def)

lemma writes_encoder:
  assumes "sub_writes env sub subw" and "encodable (PB_LTYPE (field_type field))"
  shows "writes (\<lambda>s. PB_ENCODERS env sub (PB_LTYPE (field_type field)) s field a)
    (payload_of (wire_at (env_descs env) (env_mem env) subw field a))"
proof (cases "PB_LTYPE (field_type field) = PB_LTYPE_SUBMESSAGE")
  case True
  have e: "PB_ENCODERS env sub PB_LTYPE_SUBMESSAGE s field a = pb_enc_submessage env sub s field a" for s
    by (simp add: PB_ENCODERS_def ltype_defs)
  show ?thesis
  proof (cases "field_ptr field = No_ptr")
    case np: True
    then show ?thesis using True by (simp add: e wire_at_def pb_enc_submessage_def fails_error)
  next
    case np: False
    show ?thesis
    proof (cases "submsg_fields (env_descs env) field")
      case (Some fs)
      then have "fs \<in> set (env_descs env)" by (auto simp: submsg_fields_def split: pb_field_ptr.splits if_splits)
      then show ?thesis using writes_submessage [OF assms(1)] Some np True by (simp add: e wire_at_def pb_enc_submessage_def)
    qed (simp add: wire_at_def True np)
  qed
next
  case False
  then show ?thesis using writes_value [OF assms(2) False] by (simp add: wire_at_def)
qed

text \<open>A tag and the value after it.\<close>

lemma yields_tag:
  assumes "encodable (PB_LTYPE (field_type field))" and "wire_at descs m subw field a = Some (Some w)"
  shows "yields (\<lambda>s. Some (pb_encode_tag_for_field s field)) (leb (unat (field_tag field) * 8 + unat (wire_type w)))"
proof -
  have "pb_encode_tag_for_field s field = pb_encode_tag s (wire_type w) (field_tag field)" for s :: buf_ostream
    using assms(1)
  proof (cases rule: encodable_cases)
    case 9
    then show ?thesis using assms(2)
      by (auto simp: wire_at_def sub_value_def pb_encode_tag_for_field_def ltype_defs split: option.splits if_splits)
  qed (use assms(2) in \<open>auto simp: wire_at_def value_at_def pb_encode_tag_for_field_def ltype_defs Let_def split: if_splits\<close>)
  moreover have "yields (\<lambda>s. Some (pb_encode_tag s (wire_type w) (field_tag field))) (leb (unat (field_tag field) * 8 + unat (wire_type w)))"
    by (rule yields_emits [OF emits_tag [OF wire_type_less]])
  ultimately show ?thesis by simp
qed

lemma yields_some_tag:
  assumes "encodable (PB_LTYPE (field_type field))"
  shows "\<exists>b. yields (\<lambda>s. Some (pb_encode_tag_for_field s field)) b"
proof -
  let ?t = "PB_LTYPE (field_type field)"
  let ?w = "if ?t = PB_LTYPE_FIXED32 then PB_WT_32BIT else if ?t = PB_LTYPE_FIXED64 then PB_WT_64BIT
    else if ?t \<le> PB_LTYPE_SVARINT then PB_WT_VARINT else PB_WT_STRING"
  have "pb_encode_tag_for_field s field = pb_encode_tag s ?w (field_tag field)" for s :: buf_ostream
    using assms by (cases rule: encodable_cases) (simp_all add: pb_encode_tag_for_field_def ltype_defs)
  moreover have "unat ?w < 8" by (simp add: PB_WT_VARINT_def PB_WT_STRING_def PB_WT_32BIT_def PB_WT_64BIT_def)
  ultimately obtain w where w: "unat w < 8"
      "\<And>s :: buf_ostream. pb_encode_tag_for_field s field = pb_encode_tag s w (field_tag field)"
    by blast
  show ?thesis unfolding w(2) by (rule exI) (rule yields_emits [OF emits_tag [OF w(1)]])
qed

lemma not_encodable:
  assumes "\<not> encodable (PB_LTYPE (field_type field))"
  shows "wire_at descs m subw field a = Some None"
    and "pb_encode_tag_for_field s field = os_return_error s ''invalid field type''"
proof -
  let ?t = "PB_LTYPE (field_type field)"
  have ne: "?t \<noteq> 0" "?t \<noteq> 1" "?t \<noteq> 2" "?t \<noteq> 3" "?t \<noteq> 4" "?t \<noteq> 5" "?t \<noteq> 6" "?t \<noteq> 7" "?t \<noteq> 8" "?t \<noteq> 10"
    using assms by (auto simp: encodable_def ltype_defs)
  show "wire_at descs m subw field a = Some None" "pb_encode_tag_for_field s field = os_return_error s ''invalid field type''"
    by (simp_all add: wire_at_def value_at_def pb_encode_tag_for_field_def ltype_defs ne)
qed

lemma writes_item:
  assumes "sub_writes env sub subw"
  shows "writes (\<lambda>s. and_then_some (Some (pb_encode_tag_for_field s field))
      (\<lambda>s. PB_ENCODERS env sub (PB_LTYPE (field_type field)) s field a))
    (bytes_of (item_at (env_descs env) (env_mem env) subw field a))"
proof (cases "encodable (PB_LTYPE (field_type field))")
  case True
  note e = writes_encoder [OF assms True, of a]
  obtain b where b: "yields (\<lambda>s. Some (pb_encode_tag_for_field s field)) b" using yields_some_tag [OF True] by blast
  show ?thesis
  proof (cases "wire_at (env_descs env) (env_mem env) subw field a")
    case (Some r)
    show ?thesis
    proof (cases r)
      case None
      then show ?thesis using yields_fails [OF b] e Some by (simp add: item_at_def)
    next
      case w: (Some w)
      then have "wire_at (env_descs env) (env_mem env) subw field a = Some (Some w)" using Some by simp
      from yields_then [OF yields_tag [OF True this]] show ?thesis
        using e Some w by (simp add: item_at_def field_bytes_def)
    qed
  qed (simp add: item_at_def)
next
  case False
  then show ?thesis using fails_then [OF fails_error] by (simp add: not_encodable item_at_def)
qed

section \<open>Arrays\<close>

lemma entries_loop_steps:
  "entries_loop func sz n p x = steps (\<lambda>p x. func x p) (map (\<lambda>i. p + of_nat i * sz) [0..<n]) x"
proof (induction n arbitrary: p x)
  case (Suc n)
  have "map (\<lambda>i. p + of_nat i * sz) [0..<Suc n] = p # map (\<lambda>i. (p + sz) + of_nat i * sz) [0..<n]"
    by (simp add: upt_conv_Cons map_Suc_upt [symmetric] algebra_simps del: upt_Suc)
  moreover have "entries_loop func sz n (p + sz) = steps (\<lambda>p x. func x p) (map (\<lambda>i. (p + sz) + of_nat i * sz) [0..<n])"
    by (intro ext) (rule Suc)
  ultimately show ?case by (simp add: steps_Cons del: steps.simps upt_Suc)
qed simp

lemma packable_cases:
  assumes "t \<le> PB_LTYPE_LAST_PACKABLE"
  obtains "t = PB_LTYPE_BOOL" | "t = PB_LTYPE_VARINT" | "t = PB_LTYPE_UVARINT" | "t = PB_LTYPE_SVARINT"
    | "t = PB_LTYPE_FIXED32" | "t = PB_LTYPE_FIXED64"
proof -
  have "encodable t" using assms by (simp add: encodable_def ltype_defs word_le_nat_alt)
  then show thesis using assms that by (cases rule: encodable_cases) (simp_all add: ltype_defs)
qed

lemma length_leb_64: "length (leb (unat (v :: u64))) \<le> 10"
  using length_leb_u64 [of v] by simp

lemma packable_payload:
  assumes "PB_LTYPE (field_type field) \<le> PB_LTYPE_LAST_PACKABLE" and "wire_at descs m subw field a = Some (Some w)"
  shows "length (wire_payload w) \<le> 10"
  using assms(1)
proof (cases rule: packable_cases)
  case 4
  then obtain v where "w = Wvarint (of_nat (zigzag v))"
    using assms(2) by (auto simp: wire_at_def value_at_def ltype_defs)
  then show ?thesis using length_leb_64 [of "of_nat (zigzag v)"] by simp
qed (use assms(2) length_leb_64 in \<open>auto simp: wire_at_def value_at_def ltype_defs\<close>)

lemma fixed_payload:
  shows "PB_LTYPE (field_type field) = PB_LTYPE_FIXED32 \<Longrightarrow>
      payload_of (wire_at descs m subw field a) = Some (Some (le_bytes 4 (unat (load_u32 m a))))"
    and "PB_LTYPE (field_type field) = PB_LTYPE_FIXED64 \<Longrightarrow>
      payload_of (wire_at descs m subw field a) = Some (Some (le_bytes 8 (unat (load_u64 m a))))"
  by (simp_all add: wire_at_def value_at_def ltype_defs)

lemma collect_total: "(\<And>x. f x = Some (Some (g x))) \<Longrightarrow> collect f xs = Some (Some (concat (map g xs)))"
  by (induction xs) (simp_all add: join_def)

lemma collect_length:
  assumes "\<And>x b. f x = Some (Some b) \<Longrightarrow> length b \<le> c" and "collect f xs = Some (Some bs)"
  shows "length bs \<le> c * length xs"
  using assms(2)
proof (induction xs arbitrary: bs)
  case (Cons x xs)
  then obtain a b where ab: "f x = Some (Some a)" "collect f xs = Some (Some b)" "bs = a @ b"
    by (auto simp: join_def split: option.splits)
  then show ?case using Cons.IH [OF ab(2)] assms(1) [OF ab(1)] by simp
qed simp

lemma concat_length_const: "(\<And>x. length (g x) = c) \<Longrightarrow> length (concat (map g xs)) = c * length xs"
  by (induction xs) simp_all

definition packed_size :: "'w pb_env \<Rightarrow> pb_field_t \<Rightarrow> nat \<Rightarrow> ('w pb_ostream_t \<Rightarrow> (bool \<times> 'w pb_ostream_t) option) \<Rightarrow> nat option option" where
  "packed_size env field count loop =
     (if PB_LTYPE (field_type field) = PB_LTYPE_FIXED32 then Some (Some ((4 * count) mod SIZE_MOD))
      else if PB_LTYPE (field_type field) = PB_LTYPE_FIXED64 then Some (Some ((8 * count) mod SIZE_MOD))
      else (case loop (PB_OSTREAM_SIZING (env_null env)) of
              None \<Rightarrow> None
            | Some (ok, sizestream) \<Rightarrow> Some (if ok then Some (bytes_written sizestream) else None)))"

lemma packed_size_exact:
  assumes "writes loop (Some r)" and "r' = Some r"
    and "r' = collect (\<lambda>p. payload_of (wire_at descs m subw field p)) xs"
    and "PB_LTYPE (field_type field) \<le> PB_LTYPE_LAST_PACKABLE" and "length xs = n" and "n < 2 ^ 32"
  shows "packed_size env field n loop = Some (map_option length r)"
proof -
  have z: "10 * n < SIZE_MOD" using assms(6) by (simp add: SIZE_MOD_def)
  consider (f32) "PB_LTYPE (field_type field) = PB_LTYPE_FIXED32" | (f64) "PB_LTYPE (field_type field) = PB_LTYPE_FIXED64"
    | (var) "PB_LTYPE (field_type field) \<noteq> PB_LTYPE_FIXED32" "PB_LTYPE (field_type field) \<noteq> PB_LTYPE_FIXED64" by blast
  then show ?thesis
  proof cases
    case f32
    have "collect (\<lambda>p. payload_of (wire_at descs m subw field p)) xs =
        Some (Some (concat (map (\<lambda>p. le_bytes 4 (unat (load_u32 m p))) xs)))"
      by (rule collect_total) (rule fixed_payload(1) [OF f32])
    then have "r = Some (concat (map (\<lambda>p. le_bytes 4 (unat (load_u32 m p))) xs))" using assms(2,3) by simp
    moreover have "4 * n < SIZE_MOD" using z by linarith
    ultimately show ?thesis using f32 assms(5) by (simp add: packed_size_def concat_length_const)
  next
    case f64
    have "collect (\<lambda>p. payload_of (wire_at descs m subw field p)) xs =
        Some (Some (concat (map (\<lambda>p. le_bytes 8 (unat (load_u64 m p))) xs)))"
      by (rule collect_total) (rule fixed_payload(2) [OF f64])
    then have "r = Some (concat (map (\<lambda>p. le_bytes 8 (unat (load_u64 m p))) xs))" using assms(2,3) by simp
    moreover have "8 * n < SIZE_MOD" using z by linarith
    ultimately show ?thesis using f64 assms(5)
      by (simp add: packed_size_def concat_length_const PB_LTYPE_FIXED32_def PB_LTYPE_FIXED64_def)
  next
    case var
    show ?thesis
    proof (cases r)
      case None
      then obtain s' where "loop (PB_OSTREAM_SIZING (env_null env)) = Some (False, s')"
        using assms(1) failsD(1) [OF _ sizing_start(1)] by fastforce
      then show ?thesis using var None by (simp add: packed_size_def)
    next
      case (Some bs)
      then have y: "yields loop bs" using assms(1) by simp
      have c: "collect (\<lambda>p. payload_of (wire_at descs m subw field p)) xs = Some (Some bs)" using assms(2,3) Some by simp
      have "length bs \<le> 10 * length xs"
        by (rule collect_length [OF _ c]) (use packable_payload [OF assms(4)] in blast)
      then have "length bs < SIZE_MOD" using z assms(5) by linarith
      then have "bytes_written (counted (PB_OSTREAM_SIZING (env_null env)) bs) = length bs"
        using sizing_start(2) [of "env_null env"] by (simp add: size_add_def)
      then show ?thesis
        using var Some yieldsD(1) [OF y sizing_start(1), of "env_null env"] by (simp add: packed_size_def del: counted_simps)
    qed
  qed
qed

lemma packed_body:
  assumes "yields loop bs" and "length bs < SIZE_MOD"
  shows "yields (\<lambda>s. and_then_some (Some (pb_encode_varint s (of_nat (length bs))))
      (\<lambda>s. if os_callback s = None then Some (pb_write s [] (length bs)) else loop s)) (leb (length bs) @ bs)"
proof (rule yields_then)
  have "unat (of_nat (length bs) :: u64) = length bs"
    using assms(2) by (simp add: unat_of_nat take_bit_nat_eq_self SIZE_MOD_def)
  then show "yields (\<lambda>s. Some (pb_encode_varint s (of_nat (length bs)))) (leb (length bs))"
    using yields_varint [of "of_nat (length bs)"] by simp
  show "yields (\<lambda>s. if os_callback s = None then Some (pb_write s [] (length bs)) else loop s) bs"
    (is "yields ?h bs")
  proof -
    have "?h s = Some (True, counted s bs)" if "sizing_stream s" for s
      using that by (simp add: sizing_stream_def pb_write_def counted_def)
    moreover have "if bytes_written s + length bs \<le> max_size s then ?h s = Some (True, appended s bs)
      else \<exists>s'. ?h s = Some (False, s') \<and> os_errmsg s' \<noteq> None \<and> within_room s s'" if s: "object_stream s" for s
    proof -
      have e: "?h s = loop s" using s by (simp add: object_stream_def buffer_stream_def)
      show ?thesis unfolding e using assms(1) s unfolding yields_def by blast
    qed
    ultimately show ?thesis unfolding yields_def by blast
  qed
qed

lemma writes_array:
  assumes "sub_writes env sub subw" and "n < 2 ^ 32"
  shows "writes (\<lambda>s. encode_array env s field data n (PB_ENCODERS env sub (PB_LTYPE (field_type field))))
    (bytes_of (array_wire (env_descs env) (env_mem env) subw field data n))"
proof -
  let ?t = "PB_LTYPE (field_type field)" and ?xs = "entries field data n"
    and ?p = "PB_ATYPE (field_type field) = PB_ATYPE_POINTER"
  let ?loop = "\<lambda>s. steps (\<lambda>p s. PB_ENCODERS env sub ?t s field p) ?xs s"
  let ?item = "\<lambda>p. if ?p \<and> (?t = PB_LTYPE_STRING \<or> ?t = PB_LTYPE_BYTES) then load_u64 (env_mem env) p else p"
  have xs: "entries_loop f (ucast (data_size field)) n data = steps (\<lambda>p x. f x p) ?xs"
    for f :: "buf_ostream \<Rightarrow> u64 \<Rightarrow> (bool \<times> buf_ostream) option"
    by (intro ext) (simp add: entries_loop_steps entries_def)
  consider (empty) "n = 0" | (toomany) "n \<noteq> 0" "\<not> ?p" "n > unat (array_size field)"
    | (packed) "n \<noteq> 0" "?p \<or> \<not> n > unat (array_size field)" "?t \<le> PB_LTYPE_LAST_PACKABLE"
    | (items) "n \<noteq> 0" "?p \<or> \<not> n > unat (array_size field)" "\<not> ?t \<le> PB_LTYPE_LAST_PACKABLE" by blast
  then show ?thesis
  proof cases
    case empty
    then show ?thesis using yields_nothing by (simp add: encode_array_def array_wire_def)
  next
    case toomany
    then show ?thesis using fails_error by (simp add: encode_array_def array_wire_def Let_def)
  next
    case items
    have "writes (steps (\<lambda>p s. and_then_some (Some (pb_encode_tag_for_field s field)) (\<lambda>s. PB_ENCODERS env sub ?t s field (?item p))) ?xs)
      (collect (\<lambda>p. bytes_of (item_at (env_descs env) (env_mem env) subw field (?item p))) ?xs)"
      by (rule writes_steps) (rule writes_item [OF assms(1)])
    moreover have "encode_array env s field data n (PB_ENCODERS env sub ?t) =
        steps (\<lambda>p s. and_then_some (Some (pb_encode_tag_for_field s field)) (\<lambda>s. PB_ENCODERS env sub ?t s field (?item p))) ?xs s"
      for s :: buf_ostream
      using items by (auto simp: encode_array_def xs Let_def)
    moreover have "array_wire (env_descs env) (env_mem env) subw field data n =
        collect (\<lambda>p. item_at (env_descs env) (env_mem env) subw field (?item p)) ?xs"
      using items by (auto simp: array_wire_def Let_def)
    ultimately show ?thesis by (simp add: bytes_of_collect)
  next
    case packed
    let ?c = "collect (\<lambda>p. payload_of (wire_at (env_descs env) (env_mem env) subw field p)) ?xs"
    have enc: "encodable ?t" using packed(3) by (simp add: encodable_def ltype_defs word_le_nat_alt)
    have loop: "writes ?loop ?c" by (rule writes_steps) (rule writes_encoder [OF assms(1) enc])
    have w: "array_wire (env_descs env) (env_mem env) subw field data n =
        map_option (map_option (\<lambda>bs. [(field_tag field, Wstring bs)])) ?c"
      using packed by (auto simp: array_wire_def Let_def)
    have e: "encode_array env s field data n (PB_ENCODERS env sub ?t) =
        and_then_some (Some (pb_encode_tag s PB_WT_STRING (field_tag field)))
          (\<lambda>s. case packed_size env field n ?loop of
                 None \<Rightarrow> None
               | Some None \<Rightarrow> Some (False, s)
               | Some (Some sz) \<Rightarrow>
                   and_then_some (Some (pb_encode_varint s (of_nat sz)))
                     (\<lambda>s. if os_callback s = None then Some (pb_write s [] sz) else ?loop s))" for s
      unfolding encode_array_def packed_size_def Let_def xs using packed by auto
    have tag: "yields (\<lambda>s. Some (pb_encode_tag s PB_WT_STRING (field_tag field))) (leb (unat (field_tag field) * 8 + unat PB_WT_STRING))"
      by (rule yields_emits [OF emits_tag]) (simp add: PB_WT_STRING_def)
    show ?thesis
    proof (cases ?c)
      case None
      then show ?thesis by (simp add: w)
    next
      case (Some r)
      have sz: "packed_size env field n ?loop = Some (map_option length r)"
        by (rule packed_size_exact [OF loop [unfolded Some] Some refl packed(3) _ assms(2)]) (simp add: entries_def)
      show ?thesis
      proof (cases r)
        case None
        have "fails (\<lambda>s :: buf_ostream. Some (False, s))" by (simp add: fails_def)
        from yields_fails [OF tag this] show ?thesis using None Some by (simp add: e w sz)
      next
        case bs: (Some bs)
        have c: "?c = Some (Some bs)" using Some bs by simp
        have "length bs \<le> 10 * length ?xs"
          by (rule collect_length [OF _ c]) (use packable_payload [OF packed(3)] in blast)
        then have "length bs < SIZE_MOD" using assms(2) by (simp add: entries_def SIZE_MOD_def)
        moreover have "yields ?loop bs" using loop c by simp
        ultimately show ?thesis
          using yields_then [OF tag packed_body [of ?loop bs]] bs by (simp add: e w sz c field_bytes_def)
      qed
    qed
  qed
qed

section \<open>Fields\<close>

lemma safe_read_bool_iff: "safe_read_bool m a \<longleftrightarrow> m a \<noteq> 0"
  by (simp add: safe_read_bool_def load_def)

lemma default_of_pointer:
  "PB_ATYPE (field_type field) = PB_ATYPE_POINTER \<Longrightarrow> \<exists>b. pb_check_proto3_default_value descs m (Suc fuel) field a = Some b"
  by (auto simp: Let_def PB_ATYPE_POINTER_def PB_ATYPE_STATIC_def)

lemma writes_basic:
  assumes "sub_writes env sub subw"
  shows "writes (\<lambda>s. encode_basic_field env fuel sub s field a)
    (bytes_of (basic_wire (env_descs env) (env_mem env) fuel subw field a))"
proof -
  let ?m = "env_mem env" and ?ty = "field_type field"
  let ?data = "if PB_ATYPE ?ty = PB_ATYPE_POINTER then load_u64 ?m a else a"
  let ?item = "\<lambda>s. and_then_some (Some (pb_encode_tag_for_field s field)) (\<lambda>s. PB_ENCODERS env sub (PB_LTYPE ?ty) s field ?data)"
  let ?wire = "item_at (env_descs env) ?m subw field ?data"
  let ?opt = "\<lambda>b s. if b then ?item s else Some (True, s)"
  have opt: "writes (?opt b) (bytes_of (if b then ?wire else Some (Some [])))" for b
    using writes_item [OF assms, of field ?data] yields_nothing by (cases b) simp_all
  consider (req) "PB_HTYPE ?ty = PB_HTYPE_REQUIRED"
    | (flag) "PB_HTYPE ?ty = PB_HTYPE_OPTIONAL" "size_offset field \<noteq> 0"
    | (ptr) "PB_HTYPE ?ty = PB_HTYPE_OPTIONAL" "size_offset field = 0" "PB_ATYPE ?ty = PB_ATYPE_POINTER"
    | (dflt) "PB_HTYPE ?ty = PB_HTYPE_OPTIONAL" "size_offset field = 0" "PB_ATYPE ?ty \<noteq> PB_ATYPE_POINTER"
    | (rep) "PB_HTYPE ?ty = PB_HTYPE_REPEATED"
    | (oneof) "PB_HTYPE ?ty \<notin> {PB_HTYPE_REQUIRED, PB_HTYPE_OPTIONAL, PB_HTYPE_REPEATED}" by blast
  then show ?thesis
  proof cases
    case req
    then have "encode_basic_field env fuel sub s field a =
        (if ?data = 0 then Some (os_return_error s ''missing required field'') else ?item s)" for s
      by (simp add: encode_basic_field_def Let_def PB_HTYPE_REQUIRED_def PB_HTYPE_OPTIONAL_def)
    moreover have "basic_wire (env_descs env) ?m fuel subw field a = (if ?data = 0 then Some None else ?wire)"
      using req by (simp add: basic_wire_def Let_def)
    ultimately show ?thesis
      using fails_error writes_item [OF assms, of field ?data] by (cases "?data = 0") (simp_all only: if_True if_False, simp_all)
  next
    case flag
    then have "encode_basic_field env fuel sub s field a = ?opt (?m (a + scast (size_offset field)) \<noteq> 0) s" for s
      by (simp add: encode_basic_field_def Let_def PB_HTYPE_REQUIRED_def PB_HTYPE_OPTIONAL_def safe_read_bool_iff)
    moreover have "basic_wire (env_descs env) ?m fuel subw field a =
        (if ?m (a + scast (size_offset field)) \<noteq> 0 then ?wire else Some (Some []))"
      using flag by (simp add: basic_wire_def Let_def PB_HTYPE_REQUIRED_def PB_HTYPE_OPTIONAL_def)
    ultimately show ?thesis using opt by simp
  next
    case ptr
    obtain b where "pb_check_proto3_default_value (env_descs env) ?m (Suc fuel) field a = Some b"
      using default_of_pointer [OF ptr(3)] by blast
    then have "encode_basic_field env fuel sub s field a = ?opt (?data \<noteq> 0) s" for s
      using ptr by (simp add: encode_basic_field_def Let_def PB_HTYPE_REQUIRED_def PB_HTYPE_OPTIONAL_def
        del: pb_check_proto3_default_value.simps)
    moreover have "basic_wire (env_descs env) ?m fuel subw field a = (if ?data \<noteq> 0 then ?wire else Some (Some []))"
      using ptr by (simp add: basic_wire_def Let_def PB_HTYPE_REQUIRED_def PB_HTYPE_OPTIONAL_def)
    ultimately show ?thesis using opt by simp
  next
    case dflt
    show ?thesis
    proof (cases "pb_check_proto3_default_value (env_descs env) ?m (Suc fuel) field a")
      case None
      then show ?thesis using dflt
        by (simp add: basic_wire_def Let_def PB_HTYPE_REQUIRED_def PB_HTYPE_OPTIONAL_def del: pb_check_proto3_default_value.simps)
    next
      case (Some b)
      then have "encode_basic_field env fuel sub s field a = ?opt (\<not> b) s" for s
        using dflt by (simp add: encode_basic_field_def Let_def PB_HTYPE_REQUIRED_def PB_HTYPE_OPTIONAL_def
          del: pb_check_proto3_default_value.simps)
      moreover have "basic_wire (env_descs env) ?m fuel subw field a = (if \<not> b then ?wire else Some (Some []))"
        using dflt Some by (simp add: basic_wire_def Let_def PB_HTYPE_REQUIRED_def PB_HTYPE_OPTIONAL_def
          del: pb_check_proto3_default_value.simps)
      ultimately show ?thesis using opt by simp
    qed
  next
    case rep
    let ?n = "unat (if size_offset field \<noteq> 0 then load_u32 ?m (a + scast (size_offset field)) else array_size field)"
    have n: "?n < 2 ^ 32" using unat_u32_less by simp
    have "encode_basic_field env fuel sub s field a = encode_array env s field ?data ?n (PB_ENCODERS env sub (PB_LTYPE ?ty))" for s
      using rep by (simp add: encode_basic_field_def Let_def PB_HTYPE_REQUIRED_def PB_HTYPE_OPTIONAL_def PB_HTYPE_REPEATED_def)
    moreover have "basic_wire (env_descs env) ?m fuel subw field a = array_wire (env_descs env) ?m subw field ?data ?n"
      using rep by (simp add: basic_wire_def Let_def PB_HTYPE_REQUIRED_def PB_HTYPE_OPTIONAL_def PB_HTYPE_REPEATED_def)
    ultimately show ?thesis using writes_array [OF assms n, of field ?data] by simp
  next
    case oneof
    show ?thesis
    proof (cases "size_offset field = 0")
      case True
      then show ?thesis using oneof by (simp add: basic_wire_def Let_def)
    next
      case False
      then have "encode_basic_field env fuel sub s field a =
          ?opt (load_u32 ?m (a + scast (size_offset field)) = field_tag field) s" for s
        using oneof by (simp add: encode_basic_field_def Let_def)
      moreover have "basic_wire (env_descs env) ?m fuel subw field a =
          (if load_u32 ?m (a + scast (size_offset field)) = field_tag field then ?wire else Some (Some []))"
        using oneof False by (simp add: basic_wire_def Let_def)
      ultimately show ?thesis using opt by simp
    qed
  qed
qed

text \<open>What the callbacks of fields and extensions have to do.\<close>

definition callbacks_write :: "(byte list \<times> nat) pb_env \<Rightarrow> callback_wire \<Rightarrow> bool" where
  "callbacks_write env cw \<longleftrightarrow>
     (\<forall>fn field arg. fn \<noteq> 0 \<longrightarrow>
        writes (\<lambda>s. Some (env_callback env fn s field arg)) (bytes_of (Some (cw_field cw fn field arg)))) \<and>
     (\<forall>fn a. fn \<noteq> 0 \<longrightarrow> writes (\<lambda>s. Some (env_ext_encode env fn s a)) (bytes_of (Some (cw_ext cw fn a))))"

lemma writes_error_wrapped:
  assumes "writes (\<lambda>s. Some (f s)) r"
  shows "writes (\<lambda>s. Some (case f s of (True, s) \<Rightarrow> (True, s) | (False, s) \<Rightarrow> os_return_error s msg)) r"
proof -
  let ?F = "\<lambda>s. Some (case f s of (True, s) \<Rightarrow> (True, s) | (False, s) \<Rightarrow> os_return_error s msg)"
  have t: "?F s = Some (True, s')" if "f s = (True, s')" for s s' using that by simp
  have x: "\<exists>s''. ?F s = Some (False, s'') \<and> os_errmsg s'' \<noteq> None \<and> os_state s'' = os_state s'" if "f s = (False, s')" for s s'
    using that prod.collapse [of "os_return_error s' msg"] error_state(1,3) [of s' msg]
    by (intro exI [of _ "snd (os_return_error s' msg)"]) simp
  show ?thesis
  proof (cases r)
    case (Some q)
    show ?thesis
    proof (cases q)
      case None
      then have "fails (\<lambda>s. Some (f s))" using assms Some by simp
      then have "\<exists>s'. ?F s = Some (False, s')" if "sizing_stream s" for s
        using that failsD(1) x by blast
      moreover have "\<exists>s'. ?F s = Some (False, s') \<and> within_room s s'" if "object_stream s" for s
        using failsD(2) [OF \<open>fails (\<lambda>s. Some (f s))\<close> that] x within_room_cong by blast
      ultimately have "fails ?F" unfolding fails_def by blast
      then show ?thesis using Some None by simp
    next
      case bs: (Some bs)
      then have y: "yields (\<lambda>s. Some (f s)) bs" using assms Some by simp
      have "yields ?F bs"
        unfolding yields_def
      proof (intro conjI allI impI)
        fix s assume "sizing_stream s"
        then show "?F s = Some (True, counted s bs)" using yieldsD(1) [OF y] t by blast
      next
        fix s assume s: "object_stream s"
        show "if bytes_written s + length bs \<le> max_size s then ?F s = Some (True, appended s bs)
          else \<exists>s'. ?F s = Some (False, s') \<and> os_errmsg s' \<noteq> None \<and> within_room s s'"
        proof (cases "bytes_written s + length bs \<le> max_size s")
          case True
          then show ?thesis using yieldsD(2) [OF y s] t by simp
        next
          case False
          then obtain s' where s': "f s = (False, s')" "within_room s s'" using yieldsD(3) [OF y s] by auto
          then obtain s'' where "?F s = Some (False, s'')" "os_errmsg s'' \<noteq> None" "os_state s'' = os_state s'" using x by blast
          moreover from this have "within_room s s''" using s'(2) within_room_cong by blast
          ultimately show ?thesis using False by auto
        qed
      qed
      then show ?thesis using Some bs by simp
    qed
  qed simp
qed

definition descs_ok :: "'s pb_env \<Rightarrow> bool" where
  "descs_ok env \<longleftrightarrow> list_all message_ok (env_descs env)"

lemma writes_field:
  assumes "sub_writes env sub subw" and "callbacks_write env cw"
  shows "writes (\<lambda>s. encode_field env fuel sub s field a) (bytes_of (field_wire env cw fuel subw field a))"
proof -
  consider (basic) "PB_ATYPE (field_type field) = PB_ATYPE_STATIC \<or> PB_ATYPE (field_type field) = PB_ATYPE_POINTER"
    | (callback) "PB_ATYPE (field_type field) = PB_ATYPE_CALLBACK" "PB_ATYPE (field_type field) \<noteq> PB_ATYPE_STATIC"
        "PB_ATYPE (field_type field) \<noteq> PB_ATYPE_POINTER"
    | (other) "PB_ATYPE (field_type field) \<notin> {PB_ATYPE_STATIC, PB_ATYPE_POINTER, PB_ATYPE_CALLBACK}" by blast
  then show ?thesis
  proof cases
    case basic
    then show ?thesis using writes_basic [OF assms(1)] by (simp add: encode_field_def field_wire_def Let_def)
  next
    case callback
    let ?fn = "callback_funcs (env_mem env) a"
    show ?thesis
    proof (cases "?fn = 0")
      case True
      then show ?thesis using callback yields_nothing
        by (simp add: encode_field_def field_wire_def Let_def encode_callback_field_def)
    next
      case False
      then have "writes (\<lambda>s. Some (env_callback env ?fn s field (callback_arg a))) (bytes_of (Some (cw_field cw ?fn field (callback_arg a))))"
        using assms(2) by (simp add: callbacks_write_def)
      from writes_error_wrapped [OF this] show ?thesis using callback False
        by (simp add: encode_field_def field_wire_def Let_def encode_callback_field_def)
    qed
  next
    case other
    then show ?thesis using fails_error by (simp add: encode_field_def field_wire_def Let_def)
  qed
qed

lemma writes_extension:
  assumes "sub_writes env sub subw" and "callbacks_write env cw"
  shows "writes (\<lambda>s. let fn = xt_encode (env_ext_type env (extension_type (env_mem env) a))
                    in if fn \<noteq> 0 then Some (env_ext_encode env fn s a) else default_extension_encoder env fuel sub s a)
    (bytes_of (extension_wire env cw fuel subw a))"
proof (cases "xt_encode (env_ext_type env (extension_type (env_mem env) a)) = 0")
  case True
  then show ?thesis using writes_field [OF assms]
    by (simp add: extension_wire_def Let_def default_extension_encoder_def)
next
  case False
  then show ?thesis using assms(2) by (simp add: extension_wire_def Let_def callbacks_write_def)
qed

lemma extension_loop_steps:
  "extension_list (env_mem env) n a = Some es \<Longrightarrow>
   extension_loop env fuel sub n s a =
     steps (\<lambda>a s. let fn = xt_encode (env_ext_type env (extension_type (env_mem env) a))
                  in if fn \<noteq> 0 then Some (env_ext_encode env fn s a) else default_extension_encoder env fuel sub s a) es s"
proof (induction n arbitrary: a es s)
  case 0
  then show ?case by (subst extension_loop.simps) (simp split: if_splits)
next
  case (Suc n)
  show ?case
  proof (cases "a = 0")
    case True
    then show ?thesis using Suc.prems by (subst extension_loop.simps) simp
  next
    case False
    then obtain es' where es: "extension_list (env_mem env) n (extension_next (env_mem env) a) = Some es'" "es = a # es'"
      using Suc.prems by auto
    have "extension_loop env fuel sub n = (\<lambda>s a. extension_loop env fuel sub n s a)" by simp
    show ?thesis using False es(2) Suc.IH [OF es(1)]
      by (subst extension_loop.simps) (simp add: steps_Cons Let_def del: steps.simps)
  qed
qed

section \<open>Messages\<close>

lemma writes_message:
  assumes "callbacks_write env cw" and "descs_ok env" and "message_ok fs"
  shows "writes (\<lambda>s. pb_encode fuel env s fs a) (bytes_of (msg_wire env cw fuel fs a))"
  using assms(3)
proof (induction fuel arbitrary: fs a)
  case (Suc fuel)
  have sub: "sub_writes env (\<lambda>s f a. pb_encode fuel env s f a) (msg_wire env cw fuel)"
    using Suc.IH assms(2) by (simp add: sub_writes_def descs_ok_def list_all_iff)
  let ?step = "\<lambda>k s. if PB_LTYPE (field_type (fs ! k)) = PB_LTYPE_EXTENSION
    then encode_extension_field env fuel (\<lambda>s f a. pb_encode fuel env s f a) s (field_data fs a k)
    else encode_field env fuel (\<lambda>s f a. pb_encode fuel env s f a) s (fs ! k) (field_data fs a k)"
  let ?wire = "\<lambda>k. if PB_LTYPE (field_type (fs ! k)) = PB_LTYPE_EXTENSION
    then (case extension_list (env_mem env) fuel (load_u64 (env_mem env) (field_data fs a k)) of
            None \<Rightarrow> None
          | Some es \<Rightarrow> collect (extension_wire env cw fuel (msg_wire env cw fuel)) es)
    else field_wire env cw fuel (msg_wire env cw fuel) (fs ! k) (field_data fs a k)"
  have e: "pb_encode (Suc fuel) env s fs a = steps ?step [0..<length fs - 1] s" for s :: buf_ostream
    using for_fields_message [OF Suc.prems, where dest = a and x = s] by (simp cong: if_cong)
  have "writes (?step k) (bytes_of (?wire k))" for k
  proof (cases "PB_LTYPE (field_type (fs ! k)) = PB_LTYPE_EXTENSION")
    case True
    show ?thesis
    proof (cases "extension_list (env_mem env) fuel (load_u64 (env_mem env) (field_data fs a k))")
      case None
      then show ?thesis using True by simp
    next
      case (Some es)
      have "writes (\<lambda>s. encode_extension_field env fuel (\<lambda>s f a. pb_encode fuel env s f a) s (field_data fs a k))
        (collect (\<lambda>a. bytes_of (extension_wire env cw fuel (msg_wire env cw fuel) a)) es)"
        unfolding encode_extension_field_def extension_loop_steps [OF Some]
        by (rule writes_steps) (rule writes_extension [OF sub assms(1)])
      then show ?thesis using True Some by (simp add: bytes_of_collect)
    qed
  next
    case False
    then show ?thesis using writes_field [OF sub assms(1)] by simp
  qed
  then have "writes (steps ?step [0..<length fs - 1]) (collect (\<lambda>k. bytes_of (?wire k)) [0..<length fs - 1])"
    by (rule writes_steps)
  then show ?case unfolding e by (simp only: msg_wire.simps bytes_of_collect)
qed simp

end
