(* ===== verification/Pb_Msg_Claims.thy ===== *)
theory Pb_Msg_Claims
  imports Pb_Msg_Emit
begin

text \<open>
  What the message encoder promises: it writes the wire form or fails, the size it reports is the size it
  needs, delimiters frame the message, it always returns on acyclic descriptors, and where it drops a
  field that has a value.
\<close>

section \<open>The encoder returns\<close>

lemma and_then_returns: "f \<noteq> None \<Longrightarrow> (\<And>s. g s \<noteq> None) \<Longrightarrow> and_then_some f g \<noteq> None"
  by (auto simp: and_then_some_def)

lemma if_returns: "(b \<Longrightarrow> x \<noteq> None) \<Longrightarrow> (\<not> b \<Longrightarrow> y \<noteq> None) \<Longrightarrow> (if b then x else y) \<noteq> None"
  by simp

lemma steps_return: "(\<And>k s. k \<in> set ks \<Longrightarrow> f k s \<noteq> None) \<Longrightarrow> steps f ks s \<noteq> None"
proof (induction ks arbitrary: s)
  case (Cons k ks)
  then show ?case unfolding steps_Cons by (intro and_then_returns) simp_all
qed simp

lemma for_fields_return:
  assumes "message_ok fs" and "\<And>k s. k < length fs - 1 \<Longrightarrow> step (iter_at fs a k) s \<noteq> None"
  shows "(case pb_field_iter_begin fs a of (False, _) \<Rightarrow> Some (True, x) | (True, iter) \<Rightarrow> for_fields step (length fs) iter x) \<noteq> None"
  unfolding for_fields_message [OF assms(1)] by (rule steps_return) (use assms(2) in simp)

lemma default_returns:
  assumes "acyclic_descs descs"
  shows "refers_below k field \<Longrightarrow> k \<le> length descs \<Longrightarrow> k < fuel \<Longrightarrow>
    pb_check_proto3_default_value descs m fuel field a \<noteq> None"
proof (induction fuel arbitrary: k field a)
  case (Suc fuel)
  show ?case
  proof (cases "PB_LTYPE (field_type field) = PB_LTYPE_SUBMESSAGE")
    case True
    then obtain j where j: "j < k" "submsg_fields descs field = Some (descs ! j)"
      using refers_below_sub [OF Suc.prems(1)] Suc.prems(2) by blast
    have n: "nested j (descs ! j)" using acyclicD [OF assms] j(1) Suc.prems(2) by simp
    let ?step = "\<lambda>iter x. case pb_check_proto3_default_value descs m fuel (it_field iter) (pData iter) of
      None \<Rightarrow> None | Some b \<Rightarrow> Some (b, ())"
    have st: "?step (iter_at (descs ! j) a i) x \<noteq> None" if "i < length (descs ! j) - 1" for i x
      using Suc.IH [OF nestedD [OF n that]] j(1) Suc.prems(2,3) by (auto split: option.split)
    have "(case pb_field_iter_begin (descs ! j) a of (False, _) \<Rightarrow> Some (True, ())
      | (True, iter) \<Rightarrow> for_fields ?step (length (descs ! j)) iter ()) \<noteq> None"
      by (rule for_fields_return) (use n in \<open>simp add: nested_def\<close>, rule st)
    then have "(case pb_field_iter_begin (descs ! j) a of (False, _) \<Rightarrow> Some True
      | (True, iter) \<Rightarrow> map_option fst (for_fields ?step (length (descs ! j)) iter ())) \<noteq> None"
      by (auto split: prod.splits bool.splits)
    then show ?thesis unfolding pb_check_proto3_default_value.simps Let_def j(2) option.case by (intro if_returns) simp_all
  next
    case False
    then show ?thesis unfolding pb_check_proto3_default_value.simps Let_def by (intro if_returns) simp_all
  qed
qed simp

lemma submessage_returns:
  assumes "\<And>s. sub s fs a \<noteq> None"
  shows "pb_encode_submessage env sub s fs a \<noteq> None"
proof -
  have sub: "\<exists>ok t. sub s' fs a = Some (ok, t)" for s' using assms [of s'] by auto
  obtain ok t where "sub (PB_OSTREAM_SIZING (env_null env)) fs a = Some (ok, t)" using sub by blast
  moreover obtain ok' t' where "pb_encode_varint s (of_nat (bytes_written t)) = (ok', t')" by fastforce
  moreover obtain ok'' t'' where "sub \<lparr>os_callback = os_callback t', os_state = os_state t', max_size = bytes_written t,
      bytes_written = 0, os_errmsg = None\<rparr> fs a = Some (ok'', t'')" using sub by blast
  ultimately show ?thesis by (cases ok; cases ok'; simp add: pb_encode_submessage_def Let_def)
qed

text \<open>\<open>sub\<close> returns on the first \<open>k\<close> messages.\<close>

definition returns_below :: "'s pb_env \<Rightarrow> ('s pb_ostream_t \<Rightarrow> pb_field_t list \<Rightarrow> u64 \<Rightarrow> (bool \<times> 's pb_ostream_t) option) \<Rightarrow> nat \<Rightarrow> bool" where
  "returns_below env sub k \<longleftrightarrow> k \<le> length (env_descs env) \<and> (\<forall>j < k. \<forall>s p. sub s (env_descs env ! j) p \<noteq> None)"

lemma encoder_returns:
  assumes "returns_below env sub k" and "refers_below k field"
    and "encodable (PB_LTYPE (field_type field))"
  shows "PB_ENCODERS env sub (PB_LTYPE (field_type field)) s field a \<noteq> None"
  using assms(3)
proof (cases rule: encodable_cases)
  case 9
  obtain j where j: "j < k" "submsg_fields (env_descs env) field = Some (env_descs env ! j)" "field_ptr field \<noteq> No_ptr"
    using refers_below_sub [OF assms(2) 9] assms(1) by (metis returns_below_def)
  have "pb_encode_submessage env sub s (env_descs env ! j) a \<noteq> None"
    by (rule submessage_returns) (use assms(1) j(1) in \<open>simp add: returns_below_def\<close>)
  then show ?thesis using 9 j by (simp add: PB_ENCODERS_def pb_enc_submessage_def ltype_defs)
qed (simp_all add: PB_ENCODERS_def ltype_defs)

lemma item_returns:
  assumes "returns_below env sub k" and "refers_below k field"
  shows "and_then_some (Some (pb_encode_tag_for_field s field))
    (\<lambda>s. PB_ENCODERS env sub (PB_LTYPE (field_type field)) s field a) \<noteq> None"
proof (cases "encodable (PB_LTYPE (field_type field))")
  case True
  show ?thesis by (rule and_then_returns) (use encoder_returns [OF assms True] in auto)
next
  case False
  then show ?thesis by (simp add: not_encodable(2) os_return_error_def)
qed

lemma loop_returns: "(\<And>x p. f x p \<noteq> None) \<Longrightarrow> entries_loop f sz n p x \<noteq> None"
  unfolding entries_loop_steps by (rule steps_return) simp

lemma array_returns:
  assumes "returns_below env sub k" and "refers_below k field"
  shows "encode_array env s field a n (PB_ENCODERS env sub (PB_LTYPE (field_type field))) \<noteq> None"
proof (cases "PB_LTYPE (field_type field) \<le> PB_LTYPE_LAST_PACKABLE")
  case True
  then have "encodable (PB_LTYPE (field_type field))" by (simp add: encodable_def ltype_defs word_le_nat_alt)
  then have l: "entries_loop (\<lambda>s p. PB_ENCODERS env sub (PB_LTYPE (field_type field)) s field p) sz n a s \<noteq> None" for sz s
    using encoder_returns [OF assms] by (intro loop_returns) simp
  have p: "packed_size env field n (\<lambda>s. entries_loop (\<lambda>s p. PB_ENCODERS env sub (PB_LTYPE (field_type field)) s field p)
      (ucast (data_size field)) n a s) \<noteq> None"
    unfolding packed_size_def using l by (intro if_returns) (auto split: option.split prod.split)
  have K: "(case R of None \<Rightarrow> None | Some None \<Rightarrow> Some (False, s) | Some (Some sz) \<Rightarrow> K sz) \<noteq> None"
    if "R \<noteq> None" and "\<And>sz. K sz \<noteq> None" for R :: "nat option option" and s :: "'a pb_ostream_t" and K
    using that by (auto split: option.split)
  show ?thesis using True p [unfolded packed_size_def] l unfolding encode_array_def Let_def
    by (intro if_returns and_then_returns K) simp_all
next
  case False
  have i: "entries_loop (\<lambda>s p. and_then_some (Some (pb_encode_tag_for_field s field))
      (\<lambda>s. PB_ENCODERS env sub (PB_LTYPE (field_type field)) s field (f p))) sz n a s \<noteq> None" for f sz s
    by (rule loop_returns) (rule item_returns [OF assms])
  show ?thesis unfolding encode_array_def Let_def using False by (intro if_returns i) simp_all
qed

lemma htype_cases: "PB_HTYPE t \<in> {PB_HTYPE_REQUIRED, PB_HTYPE_OPTIONAL, PB_HTYPE_REPEATED, PB_HTYPE_ONEOF}"
  by (rule byte_forallI [where P = "\<lambda>t. PB_HTYPE t \<in> {PB_HTYPE_REQUIRED, PB_HTYPE_OPTIONAL, PB_HTYPE_REPEATED, PB_HTYPE_ONEOF}"])
    code_simp

lemma basic_returns:
  assumes "acyclic_descs (env_descs env)" and "returns_below env sub k" and "refers_below k field" and "k \<le> fuel"
  shows "encode_basic_field env fuel sub s field a \<noteq> None"
proof -
  let ?m = "env_mem env" and ?ty = "field_type field"
  have k: "k \<le> length (env_descs env)" using assms(2) by (simp add: returns_below_def)
  have "pb_check_proto3_default_value (env_descs env) ?m (Suc fuel) field a \<noteq> None"
    by (rule default_returns [OF assms(1,3) k]) (use assms(4) in simp)
  then obtain ih where ih: "(if size_offset field \<noteq> 0 then Some False
      else if PB_HTYPE ?ty = PB_HTYPE_OPTIONAL
      then map_option Not (pb_check_proto3_default_value (env_descs env) ?m (Suc fuel) field a) else Some True) = Some ih"
    by (cases "size_offset field \<noteq> 0"; cases "PB_HTYPE ?ty = PB_HTYPE_OPTIONAL")
      (auto simp del: pb_check_proto3_default_value.simps)
  obtain data ih' where d: "(if PB_ATYPE ?ty = PB_ATYPE_POINTER then (load_u64 ?m a, load_u64 ?m a \<noteq> 0) else (a, ih)) = (data, ih')"
    by fastforce
  note item = item_returns [OF assms(2,3)] and array = array_returns [OF assms(2,3)]
  have oneof: "size_offset field \<noteq> 0" if "PB_HTYPE ?ty \<noteq> PB_HTYPE_REQUIRED" "PB_HTYPE ?ty \<noteq> PB_HTYPE_OPTIONAL" "PB_HTYPE ?ty \<noteq> PB_HTYPE_REPEATED"
    using that htype_cases [of ?ty] assms(3) by (simp add: refers_below_def)
  show ?thesis
    unfolding encode_basic_field_def Let_def ih option.case d prod.case
    by (intro if_returns item array) (use oneof item in \<open>auto simp del: not_None_eq intro!: if_returns\<close>)
qed

lemma field_returns:
  assumes "acyclic_descs (env_descs env)" and "returns_below env sub k" and "refers_below k field" and "k \<le> fuel"
  shows "encode_field env fuel sub s field a \<noteq> None"
  unfolding encode_field_def by (intro if_returns basic_returns [OF assms]) simp_all

lemma pb_encode_returns:
  assumes "acyclic_descs (env_descs env)"
  shows "nested k fs \<Longrightarrow> k \<le> length (env_descs env) \<Longrightarrow> k < fuel \<Longrightarrow> pb_encode fuel env s fs a \<noteq> None"
proof (induction fuel arbitrary: k fs s a)
  case (Suc fuel)
  have sub: "returns_below env (\<lambda>s f a. pb_encode fuel env s f a) k"
  proof -
    have "pb_encode fuel env s (env_descs env ! j) p \<noteq> None" if "j < k" for j s p
      by (rule Suc.IH [of j]) (use acyclicD [OF assms, of j] that Suc.prems(2,3) in simp_all)
    then show ?thesis using Suc.prems(2) by (simp add: returns_below_def)
  qed
  have "message_ok fs" using Suc.prems(1) by (simp add: nested_def)
  show ?case
    unfolding pb_encode.simps
  proof (rule for_fields_return [OF \<open>message_ok fs\<close>])
    fix i s assume "i < length fs - 1"
    then have r: "refers_below k (fs ! i)" by (rule nestedD [OF Suc.prems(1)])
    then show "(if PB_LTYPE (field_type (it_field (iter_at fs a i))) = PB_LTYPE_EXTENSION
      then encode_extension_field env fuel (\<lambda>s f a. pb_encode fuel env s f a) s (pData (iter_at fs a i))
      else encode_field env fuel (\<lambda>s f a. pb_encode fuel env s f a) s (it_field (iter_at fs a i)) (pData (iter_at fs a i))) \<noteq> None"
      using field_returns [OF assms sub r, of fuel] Suc.prems(3) by (simp add: refers_below_def del: not_None_eq)
  qed
qed simp

section \<open>Examples\<close>

text \<open>
  An environment of a memory and descriptors whose callbacks write nothing, and a message of the type
  \<open>demo_fields\<close> in memory: the number 150 and the string \<open>te\<close>.
\<close>

definition example_env :: "memory \<Rightarrow> pb_field_t list list \<Rightarrow> (byte list \<times> nat) pb_env" where
  "example_env m descs =
     \<lparr>env_mem = m, env_descs = descs, env_null = ([], 0), env_callback = (\<lambda>_ s _ _. (True, s)),
      env_ext_type = (\<lambda>_. \<lparr>xt_decode = 0, xt_encode = 0, xt_arg = demo_fields ! 0\<rparr>), env_ext_encode = (\<lambda>_ s _. (True, s))\<rparr>"

definition no_callbacks :: callback_wire where
  "no_callbacks = \<lparr>cw_field = (\<lambda>_ _ _. Some []), cw_ext = (\<lambda>_ _. Some [])\<rparr>"

definition example_memory :: memory where
  "example_memory a =
     (if a = 0x1000 then 0x96 else if a = 0x1004 then 1 else if a = 0x1005 then 0x74 else if a = 0x1006 then 0x65 else 0)"

lemma example_callbacks: "callbacks_write (example_env m descs) no_callbacks"
  using yields_nothing by (simp add: callbacks_write_def example_env_def no_callbacks_def)

lemma demo_message_ok: "message_ok demo_fields"
  by (simp add: message_ok_def demo_fields_def)

lemma demo_descs_ok: "descs_ok (example_env m [demo_fields])"
  using demo_message_ok by (simp add: descs_ok_def example_env_def)

lemma demo_wire:
  "msg_wire (example_env example_memory [demo_fields]) no_callbacks 1 demo_fields 0x1000 =
     Some (Some [(1, Wvarint 150), (3, Wstring [0x74, 0x65])])"
  by code_simp

lemma demo_bytes: "message_bytes [(1, Wvarint 150), (3, Wstring [0x74, 0x65])] = [8, 0x96, 1, 0x1A, 2, 0x74, 0x65]"
  by code_simp

section \<open>Properties\<close>

text \<open>
  (C2) \<open>pb_encode\<close> writes the wire form of the message: it counts its length on a sizing stream, and on a
  stream to a buffer appends exactly these bytes, or, where they do not fit, fails with an error and
  without a write outside of the room. Where the message has no wire form (a required field is
  missing, an array is longer than its maximum, a size is invalid, a callback fails) it fails on both
  kinds of streams. This holds if each callback writes fields, always the same for a field.
\<close>

theorem pb_encode_writes_message:
  assumes "callbacks_write env cw" and "descs_ok env" and "message_ok fs"
  shows "(\<forall>ws. msg_wire env cw fuel fs a = Some (Some ws) \<longrightarrow> yields (\<lambda>s. pb_encode fuel env s fs a) (message_bytes ws)) \<and>
    (msg_wire env cw fuel fs a = Some None \<longrightarrow> fails (\<lambda>s. pb_encode fuel env s fs a))"
  using writes_message [OF assms, of fuel a] by auto

theorem pb_encode_writes_message_witness:
  "yields (\<lambda>s. pb_encode 1 (example_env example_memory [demo_fields]) s demo_fields 0x1000) [8, 0x96, 1, 0x1A, 2, 0x74, 0x65]"
  using pb_encode_writes_message [OF example_callbacks demo_descs_ok demo_message_ok, of example_memory 1 "0x1000"]
    demo_wire demo_bytes by metis

text \<open>
  (C3) The size that \<open>pb_get_encoded_size\<close> reports is exactly the size that the message needs: a buffer of
  that size is enough, and after \<open>pb_encode\<close> it starts with the message and is otherwise unchanged;
  with a smaller buffer \<open>pb_encode\<close> fails and the buffer keeps its length.
\<close>

theorem pb_get_encoded_size_exact:
  assumes "callbacks_write env cw" and "descs_ok env" and "message_ok fs"
    and "msg_wire env cw fuel fs a = Some (Some ws)" and "length (message_bytes ws) < SIZE_MOD" and "length buf < 2 ^ 63"
  shows "pb_get_encoded_size fuel env fs a = Some (Some (length (message_bytes ws))) \<and>
    (if length (message_bytes ws) \<le> length buf
     then \<exists>s. pb_encode fuel env (pb_ostream_from_buffer buf (length buf)) fs a = Some (True, s) \<and>
              bytes_written s = length (message_bytes ws) \<and>
              fst (os_state s) = message_bytes ws @ drop (length (message_bytes ws)) buf
     else \<exists>s. pb_encode fuel env (pb_ostream_from_buffer buf (length buf)) fs a = Some (False, s) \<and>
              os_errmsg s \<noteq> None \<and> length (fst (os_state s)) = length buf)"
proof -
  let ?bs = "message_bytes ws" and ?s = "pb_ostream_from_buffer buf (length buf)"
  have y: "yields (\<lambda>s. pb_encode fuel env s fs a) ?bs"
    using writes_message [OF assms(1-3), of fuel a] assms(4) by simp
  have "length buf < SIZE_MOD" using assms(6) by (simp add: SIZE_MOD_def)
  then have o: "object_stream ?s"
    using assms(6) by (simp add: object_stream_def buffer_stream_from_buffer) (simp add: pb_ostream_from_buffer_def)
  have m: "max_size ?s = length buf" "bytes_written ?s = 0" "os_state ?s = (buf, 0)"
    by (simp_all add: pb_ostream_from_buffer_def)
  have "pb_get_encoded_size fuel env fs a = Some (Some (length ?bs))"
    using yieldsD(1) [OF y sizing_start(1), of "env_null env"] sizing_start(2) [of "env_null env"] assms(5)
    by (simp add: pb_get_encoded_size_def size_add_def)
  moreover have "\<exists>s. pb_encode fuel env ?s fs a = Some (True, s) \<and> bytes_written s = length ?bs \<and>
      fst (os_state s) = ?bs @ drop (length ?bs) buf" if "length ?bs \<le> length buf"
    using yieldsD(2) [OF y o] that m by (simp add: appended_def mem_write_def)
  moreover have "\<exists>s. pb_encode fuel env ?s fs a = Some (False, s) \<and> os_errmsg s \<noteq> None \<and> length (fst (os_state s)) = length buf"
    if "\<not> length ?bs \<le> length buf"
    using yieldsD(3) [OF y o] that m by (auto simp: within_room_def)
  ultimately show ?thesis by simp
qed

theorem pb_get_encoded_size_exact_witness:
  "pb_get_encoded_size 1 (example_env example_memory [demo_fields]) demo_fields 0x1000 = Some (Some 7)"
proof -
  have "length (message_bytes [(1, Wvarint 150), (3, Wstring [0x74, 0x65])]) = 7" unfolding demo_bytes by simp
  then show ?thesis
    using pb_get_encoded_size_exact [OF example_callbacks demo_descs_ok demo_message_ok demo_wire, of "[]"]
    by (simp add: SIZE_MOD_def)
qed

text \<open>
  (C38) Framing. \<open>pb_encode_delimited\<close> writes the length of the message as a varint and the message, which
  \<open>pb_make_string_substream\<close> reads back as a stream with exactly the message, whatever follows it;
  \<open>pb_encode_nullterminated\<close> writes the message and a zero byte, which \<open>pb_decode_tag\<close> reads as the end
  of the message.
\<close>

theorem pb_message_framing:
  assumes "callbacks_write env cw" and "descs_ok env" and "message_ok fs"
    and "msg_wire env cw fuel fs a = Some (Some ws)" and "length (message_bytes ws) < 2 ^ 32" and "fs \<in> set (env_descs env)"
  shows "yields (\<lambda>s. pb_encode_delimited fuel env s fs a) (leb (length (message_bytes ws)) @ message_bytes ws) \<and>
    pb_make_string_substream (stream_of (leb (length (message_bytes ws)) @ message_bytes ws @ c) m e) =
      (Some (stream_of (message_bytes ws) (c @ m) e), parent_of (message_bytes ws) c m e) \<and>
    yields (\<lambda>s. pb_encode_nullterminated fuel env s fs a) (message_bytes ws @ [0]) \<and>
    (\<exists>s'. pb_decode_tag (stream_of (0 # c) m e) = (None, s', True))"
proof -
  have y: "yields (\<lambda>s. pb_encode fuel env s fs a) (message_bytes ws)"
    using writes_message [OF assms(1-3), of fuel a] assms(4) by simp
  have "sub_writes env (\<lambda>s f a. pb_encode fuel env s f a) (msg_wire env cw fuel)"
    using writes_message [OF assms(1,2)] assms(2) by (simp add: sub_writes_def descs_ok_def list_all_iff)
  from writes_submessage [OF this assms(6), of a] assms(4,5)
  have "yields (\<lambda>s. pb_encode_delimited fuel env s fs a) (leb (length (message_bytes ws)) @ message_bytes ws)"
    by (simp add: pb_encode_delimited_def sub_value_def)
  moreover have "yields (\<lambda>s. Some (pb_write s [0] 1)) [0]"
    by (rule yields_emits [OF emits_write]) (simp_all add: SIZE_MOD_def)
  then have "yields (\<lambda>s. pb_encode_nullterminated fuel env s fs a) (message_bytes ws @ [0])"
    unfolding pb_encode_nullterminated_def by (rule yields_then [OF y])
  moreover have "leb 0 = [0]" by (subst leb.simps) simp
  then have "pb_decode_varint32_eof (stream_of (0 # c) m e) = (Some 0, stream_of c m e, False)"
    using varint32_leb [of 0 c m e] by simp
  then have "\<exists>s'. pb_decode_tag (stream_of (0 # c) m e) = (None, s', True)" by (simp add: pb_decode_tag_def)
  ultimately show ?thesis using make_substream assms(5) by simp
qed

theorem pb_message_framing_witness:
  "yields (\<lambda>s. pb_encode_delimited 1 (example_env example_memory [demo_fields]) s demo_fields 0x1000)
     [7, 8, 0x96, 1, 0x1A, 2, 0x74, 0x65]"
proof -
  let ?ws = "[(1, Wvarint 150), (3, Wstring [0x74, 0x65])]"
  have "demo_fields \<in> set (env_descs (example_env example_memory [demo_fields]))" by (simp add: example_env_def)
  moreover have "length (message_bytes ?ws) < 2 ^ 32" unfolding demo_bytes by simp
  ultimately have "yields (\<lambda>s. pb_encode_delimited 1 (example_env example_memory [demo_fields]) s demo_fields 0x1000)
      (leb (length (message_bytes ?ws)) @ message_bytes ?ws)"
    using pb_message_framing [OF example_callbacks demo_descs_ok demo_message_ok demo_wire] by blast
  moreover have "leb (length (message_bytes ?ws)) = [7]" unfolding demo_bytes by (subst leb.simps) simp
  ultimately show ?thesis by (simp only: demo_bytes append.simps)
qed

text \<open>
  (C39) On descriptors whose submessages do not refer back, \<open>pb_encode\<close> always returns: nesting depth plus
  one is enough fuel, for every memory, stream and callback, whatever callbacks do to the stream. The
  proto3 default check, which recurses over the same descriptors, returns as well.
\<close>

theorem pb_encode_terminates:
  assumes "acyclic_descs (env_descs env)" and "nested (length (env_descs env)) fs" and "length (env_descs env) < fuel"
  shows "(\<exists>ok s'. pb_encode fuel env s fs a = Some (ok, s')) \<and>
    (\<forall>i < length fs - 1. \<forall>p. \<exists>b. pb_check_proto3_default_value (env_descs env) m fuel (fs ! i) p = Some b)"
  using pb_encode_returns [OF assms(1,2) _ assms(3), of s a]
    default_returns [OF assms(1) nestedD [OF assms(2)] _ assms(3)] by auto

text \<open>A message with a submessage that has a boolean behind a pointer.\<close>

definition inner_fields :: "pb_field_t list" where
  "inner_fields =
     [\<lparr>field_tag = 1, field_type = 0x90, data_offset = 0, size_offset = 0, data_size = 1, array_size = 0, field_ptr = No_ptr\<rparr>,
      \<lparr>field_tag = 0, field_type = 0, data_offset = 0, size_offset = 0, data_size = 0, array_size = 0, field_ptr = No_ptr\<rparr>]"

definition outer_fields :: "pb_field_t list" where
  "outer_fields =
     [\<lparr>field_tag = 1, field_type = 0x18, data_offset = 0, size_offset = 0, data_size = 8, array_size = 0, field_ptr = Submsg_fields 0\<rparr>,
      \<lparr>field_tag = 0, field_type = 0, data_offset = 0, size_offset = 0, data_size = 0, array_size = 0, field_ptr = No_ptr\<rparr>]"

theorem pb_encode_terminates_witness:
  "\<exists>ok s'. pb_encode 2 (example_env example_memory [inner_fields]) (pb_ostream_from_buffer [0, 0, 0] 3) outer_fields 0x1000 = Some (ok, s')"
proof -
  let ?env = "example_env example_memory [inner_fields]"
  have "nested 0 inner_fields" "nested 1 outer_fields" by code_simp+
  then have "acyclic_descs (env_descs ?env)" "nested (length (env_descs ?env)) outer_fields" "length (env_descs ?env) < 2"
    by (simp_all add: example_env_def acyclic_descs_def)
  then show ?thesis using pb_encode_terminates by blast
qed

lemma example_types:
  "PB_LTYPE 0x18 = PB_LTYPE_SUBMESSAGE" "PB_ATYPE 0x18 = PB_ATYPE_STATIC" "PB_HTYPE 0x18 = PB_HTYPE_OPTIONAL"
  "PB_LTYPE 0x90 = PB_LTYPE_BOOL" "PB_ATYPE 0x90 = PB_ATYPE_POINTER" "PB_HTYPE 0x90 = PB_HTYPE_OPTIONAL"
  by code_simp+

lemmas type_defs = ltype_defs PB_ATYPE_STATIC_def PB_ATYPE_POINTER_def PB_ATYPE_CALLBACK_def
  PB_HTYPE_REQUIRED_def PB_HTYPE_OPTIONAL_def PB_HTYPE_REPEATED_def PB_HTYPE_ONEOF_def

lemma default_inner: "pb_check_proto3_default_value descs m (Suc f) (inner_fields ! 0) a = Some (m a = 0)"
  by (simp add: inner_fields_def example_types type_defs load_def)

lemma inner_begin:
  "pb_field_iter_begin inner_fields a = (True, iter_at inner_fields a 0)"
  "pb_field_iter_next (iter_at inner_fields a 0) = (False, iter_at inner_fields a 0)"
  "field_data inner_fields a 0 = a" "length inner_fields = Suc (Suc 0)"
proof -
  have ok: "fields_ok inner_fields (Suc 0)" by (simp add: fields_ok_def inner_fields_def)
  show "pb_field_iter_begin inner_fields a = (True, iter_at inner_fields a 0)" by (rule iter_begin [OF ok])
  show "pb_field_iter_next (iter_at inner_fields a 0) = (False, iter_at inner_fields a 0)" by (rule iter_next_last [OF ok refl])
  show "field_data inner_fields a 0 = a" "length inner_fields = Suc (Suc 0)" by (simp_all add: inner_fields_def)
qed

lemma default_outer:
  assumes "m a = 0"
  shows "pb_check_proto3_default_value [inner_fields] m (Suc (Suc f)) (outer_fields ! 0) a = Some True"
proof -
  have "pb_check_proto3_default_value [inner_fields] m (Suc (Suc f)) (outer_fields ! 0) a =
    (case pb_field_iter_begin inner_fields a of (False, _) \<Rightarrow> Some True
     | (True, iter) \<Rightarrow> map_option fst (for_fields
         (\<lambda>iter x. case pb_check_proto3_default_value [inner_fields] m (Suc f) (it_field iter) (pData iter) of
            None \<Rightarrow> None | Some b \<Rightarrow> Some (b, ())) (length inner_fields) iter ()))"
    unfolding pb_check_proto3_default_value.simps(2) [of _ _ "Suc f"]
    by (simp add: outer_fields_def submsg_fields_def example_types type_defs del: pb_check_proto3_default_value.simps)
  then show ?thesis
    using assms by (simp add: inner_begin default_inner del: pb_check_proto3_default_value.simps field_data.simps)
qed

lemma size_of_message:
  assumes "msg_wire (example_env m descs) no_callbacks fuel fs a = Some (Some ws)" and "message_ok fs" and "list_all message_ok descs"
    and "length (message_bytes ws) < SIZE_MOD"
  shows "pb_get_encoded_size fuel (example_env m descs) fs a = Some (Some (length (message_bytes ws)))"
proof -
  have "descs_ok (example_env m descs)" using assms(3) by (simp add: descs_ok_def example_env_def)
  from writes_message [OF example_callbacks this assms(2), of fuel a]
  have y: "yields (\<lambda>s. pb_encode fuel (example_env m descs) s fs a) (message_bytes ws)" by (simp add: assms(1))
  show ?thesis using yieldsD(1) [OF y sizing_start(1)] sizing_start(2) [of "env_null (example_env m descs)"] assms(4)
    by (simp add: pb_get_encoded_size_def size_add_def)
qed

lemma example_messages_ok: "message_ok inner_fields" "message_ok outer_fields"
  by (simp_all add: message_ok_def inner_fields_def outer_fields_def)

lemma size_of_outer:
  assumes "a \<noteq> 0" and "m a = 0"
  shows "pb_get_encoded_size (Suc (Suc (Suc f))) (example_env m [inner_fields]) outer_fields a = Some (Some 0)"
proof -
  have "msg_wire (example_env m [inner_fields]) no_callbacks (Suc (Suc (Suc f))) outer_fields a = Some (Some [])"
    unfolding msg_wire.simps(2) [of _ _ "Suc (Suc f)"]
    using default_outer [of m a "Suc f", OF assms(2)] assms(1)
    by (simp add: outer_fields_def example_env_def field_wire_def basic_wire_def example_types type_defs Let_def join_def
      del: pb_check_proto3_default_value.simps msg_wire.simps)
  from size_of_message [OF this example_messages_ok(2)] example_messages_ok(1) show ?thesis by (simp add: SIZE_MOD_def)
qed

lemma size_of_inner:
  assumes "a \<noteq> 0" and "load_u64 m a \<noteq> 0"
  shows "pb_get_encoded_size (Suc (Suc (Suc f))) (example_env m [inner_fields]) inner_fields a = Some (Some 2)"
proof -
  let ?v = "if m (load_u64 m a) = 0 then 0 else (1 :: u64)"
  have "msg_wire (example_env m [inner_fields]) no_callbacks (Suc (Suc (Suc f))) inner_fields a = Some (Some [(1, Wvarint ?v)])"
    using assms
    by (simp add: inner_fields_def example_env_def field_wire_def basic_wire_def item_at_def wire_at_def value_at_def example_types
      type_defs Let_def join_def)
  moreover have "length (message_bytes [(1, Wvarint ?v)]) = 2"
    by (simp add: field_bytes_def PB_WT_VARINT_def leb.simps)
  ultimately show ?thesis using size_of_message [OF _ example_messages_ok(1)] example_messages_ok(1)
    by (simp add: SIZE_MOD_def)
qed

text \<open>
  (C40) A proto3 submessage is left out although it has a value: where its only field is a pointer to a
  boolean and the lowest byte of the pointer happens to be 0 (it points to the start of a page, say), the
  check for default values takes the pointer for NULL, since it compares \<open>data_size\<close> bytes of it, the size
  of the boolean, with 0. On its own the same submessage is encoded, in two bytes.
\<close>

theorem pb_encode_drops_pointer:
  assumes "a \<noteq> 0" and "m a = 0" and "load_u64 m a \<noteq> 0"
  shows "pb_get_encoded_size 3 (example_env m [inner_fields]) outer_fields a = Some (Some 0) \<and>
    pb_get_encoded_size 3 (example_env m [inner_fields]) inner_fields a = Some (Some 2)"
  using size_of_outer [of a m 0, OF assms(1,2)] size_of_inner [OF assms(1,3)] by (simp add: numeral_3_eq_3)

theorem pb_encode_drops_pointer_witness:
  "pb_get_encoded_size 3 (example_env (\<lambda>a. if a = 0x1001 then 0x20 else if a = 0x2000 then 1 else 0) [inner_fields]) outer_fields 0x1000 =
     Some (Some 0)"
proof -
  let ?m = "\<lambda>a :: u64. if a = 0x1001 then 0x20 else if a = 0x2000 then 1 else (0 :: byte)"
  have "load_u64 ?m 0x1000 \<noteq> 0" by code_simp
  then show ?thesis using pb_encode_drops_pointer [of "0x1000" ?m] by simp
qed

end
