(* ===== verification/Pb_Msg_Decode.thy ===== *)
theory Pb_Msg_Decode
  imports Pb_Msg_Encode
begin

text \<open>
  The message decoder of nanopb, \<open>pb_decode.c\<close> from \<open>decode_static_field\<close> to \<open>pb_release\<close> and the field
  decoders at its end, as it is configured in the project, with \<open>PB_ENABLE_MALLOC\<close>.

  Functions return whether they succeed, the stream and the memory. As for the encoder the result is
  \<open>None\<close> when the fuel does not suffice or the C code has no defined behaviour.
\<close>

text \<open>
  What the decoder finds outside of its arguments: the descriptors, the user's callbacks, which may
  write to memory, the extension types, the C allocator, whose state is in memory, and the addresses
  of \<open>fixed_count_size\<close>, the local variable of \<open>pb_decode_noinit\<close> whose address is taken, in the
  frames of the calls that are active.
\<close>

type_synonym 's dresult = "(bool \<times> 's pb_istream_t \<times> memory) option"

record 's pb_denv =
  de_descs :: "pb_field_t list list"
  de_callback :: "u64 \<Rightarrow> 's pb_istream_t \<Rightarrow> pb_field_t \<Rightarrow> u64 \<Rightarrow> memory \<Rightarrow> bool \<times> 's pb_istream_t \<times> memory"
  de_ext_type :: "u64 \<Rightarrow> pb_extension_type_t"
  de_ext_decode ::
    "u64 \<Rightarrow> 's pb_istream_t \<Rightarrow> u64 \<Rightarrow> u32 \<Rightarrow> pb_wire_type_t \<Rightarrow> memory \<Rightarrow> bool \<times> 's pb_istream_t \<times> memory"
  de_realloc :: "memory \<Rightarrow> u64 \<Rightarrow> nat \<Rightarrow> u64 \<times> memory"
  de_free :: "memory \<Rightarrow> u64 \<Rightarrow> memory"
  de_frame :: "nat \<Rightarrow> u64"

definition le_store :: "memory \<Rightarrow> u64 \<Rightarrow> nat \<Rightarrow> nat \<Rightarrow> memory" where
  "le_store m a n v = store m a (rev (be_bytes n v))"

abbreviation store_u32 :: "memory \<Rightarrow> u64 \<Rightarrow> u32 \<Rightarrow> memory" where
  "store_u32 m a v \<equiv> le_store m a 4 (unat v)"

abbreviation store_u64 :: "memory \<Rightarrow> u64 \<Rightarrow> u64 \<Rightarrow> memory" where
  "store_u64 m a v \<equiv> le_store m a 8 (unat v)"

definition memset0 :: "memory \<Rightarrow> u64 \<Rightarrow> nat \<Rightarrow> memory" where
  "memset0 m a n = store m a (replicate n 0)"

definition dec_error :: "'s pb_istream_t \<Rightarrow> memory \<Rightarrow> string \<Rightarrow> bool \<times> 's pb_istream_t \<times> memory" where
  "dec_error stream m msg = (False, stream\<lparr>is_errmsg := PB_SET_ERROR (is_errmsg stream) msg\<rparr>, m)"

section \<open>Extensions as fields\<close>

definition iter_from_extension :: "(u64 \<Rightarrow> pb_extension_type_t) \<Rightarrow> memory \<Rightarrow> u64 \<Rightarrow> pb_field_iter_t" where
  "iter_from_extension ext_type m extension =
     (let field = xt_arg (ext_type (extension_type m extension));
          dest = load_u64 m (extension_dest extension);
          iter = (snd (pb_field_iter_begin [field] dest))\<lparr>pData := dest, pSize := extension_found extension\<rparr>
      in if PB_ATYPE (field_type field) = PB_ATYPE_POINTER
         then iter\<lparr>pData := extension_dest extension\<rparr> else iter)"

section \<open>Default values\<close>

text \<open>The loop over all fields of a message, and the one over a list of extensions, on memory alone.\<close>

fun mem_fields :: "(pb_field_iter_t \<Rightarrow> memory \<Rightarrow> memory option) \<Rightarrow> nat \<Rightarrow> pb_field_iter_t \<Rightarrow> memory \<Rightarrow> memory option" where
  "mem_fields f 0 iter m = None"
| "mem_fields f (Suc n) iter m =
     (case f iter m of
        None \<Rightarrow> None
      | Some m \<Rightarrow>
          (case pb_field_iter_next iter of
             (True, iter) \<Rightarrow> mem_fields f n iter m
           | (False, _) \<Rightarrow> Some m))"

fun mem_extensions :: "(u64 \<Rightarrow> memory \<Rightarrow> memory option) \<Rightarrow> nat \<Rightarrow> u64 \<Rightarrow> memory \<Rightarrow> memory option" where
  "mem_extensions f n ext m =
     (if ext = 0 then Some m
      else case n of
             0 \<Rightarrow> None
           | Suc n \<Rightarrow>
               (case f ext m of None \<Rightarrow> None | Some m \<Rightarrow> mem_extensions f n (extension_next m ext) m))"

declare mem_extensions.simps [simp del]

text \<open>\<open>memcpy\<close> of the default value reads \<open>data_size\<close> bytes of it, which have to be there.\<close>

definition init_value ::
  "'s pb_denv \<Rightarrow> (pb_field_t list \<Rightarrow> u64 \<Rightarrow> memory \<Rightarrow> memory option) \<Rightarrow> pb_field_t \<Rightarrow> u64 \<Rightarrow> memory \<Rightarrow> memory option" where
  "init_value env defaults field data m =
     (if PB_LTYPE (field_type field) = PB_LTYPE_SUBMESSAGE
      then (case submsg_fields (de_descs env) field of None \<Rightarrow> None | Some fs \<Rightarrow> defaults fs data m)
      else (case field_ptr field of
              No_ptr \<Rightarrow> Some (memset0 m data (unat (data_size field)))
            | Default_value bs \<Rightarrow>
                if length bs < unat (data_size field) then None
                else Some (store m data (take (unat (data_size field)) bs))
            | Submsg_fields k \<Rightarrow> None))"

definition pb_message_set_to_defaults ::
  "(pb_field_iter_t \<Rightarrow> memory \<Rightarrow> memory option) \<Rightarrow> pb_field_t list \<Rightarrow> u64 \<Rightarrow> memory \<Rightarrow> memory option" where
  "pb_message_set_to_defaults set_default fs dest m =
     (case pb_field_iter_begin fs dest of
        (False, _) \<Rightarrow> Some m
      | (True, iter) \<Rightarrow> mem_fields set_default (length fs) iter m)"

fun pb_field_set_to_default :: "'s pb_denv \<Rightarrow> nat \<Rightarrow> pb_field_iter_t \<Rightarrow> memory \<Rightarrow> memory option" where
  "pb_field_set_to_default env 0 iter m = None"
| "pb_field_set_to_default env (Suc fuel) iter m =
     (let field = it_field iter; ty = field_type field; htype = PB_HTYPE ty;
          counted = (htype = PB_HTYPE_REPEATED \<or> htype = PB_HTYPE_ONEOF)
      in if PB_LTYPE ty = PB_LTYPE_EXTENSION
         then mem_extensions
                (\<lambda>ext m. let m = store m (extension_found ext) [0]
                         in pb_field_set_to_default env fuel (iter_from_extension (de_ext_type env) m ext) m)
                fuel (load_u64 m (pData iter)) m
         else if PB_ATYPE ty = PB_ATYPE_STATIC
         then (if htype = PB_HTYPE_OPTIONAL \<and> pSize iter \<noteq> pData iter
               then init_value env (\<lambda>fs a m. pb_message_set_to_defaults (\<lambda>i m. pb_field_set_to_default env fuel i m) fs a m)
                      field (pData iter) (store m (pSize iter) [0])
               else if counted then Some (store_u32 m (pSize iter) 0)
               else init_value env (\<lambda>fs a m. pb_message_set_to_defaults (\<lambda>i m. pb_field_set_to_default env fuel i m) fs a m)
                      field (pData iter) m)
         else if PB_ATYPE ty = PB_ATYPE_POINTER
         then (let m = store_u64 m (pData iter) 0 in Some (if counted then store_u32 m (pSize iter) 0 else m))
         else Some m)"

abbreviation set_defaults :: "'s pb_denv \<Rightarrow> nat \<Rightarrow> pb_field_t list \<Rightarrow> u64 \<Rightarrow> memory \<Rightarrow> memory option" where
  "set_defaults env fuel \<equiv> pb_message_set_to_defaults (pb_field_set_to_default env fuel)"

section \<open>Releasing memory\<close>

definition pb_release ::
  "(pb_field_iter_t \<Rightarrow> memory \<Rightarrow> memory option) \<Rightarrow> pb_field_t list \<Rightarrow> u64 \<Rightarrow> memory \<Rightarrow> memory option" where
  "pb_release release_field fs dest m =
     (if dest = 0 then Some m
      else case pb_field_iter_begin fs dest of
             (False, _) \<Rightarrow> Some m
           | (True, iter) \<Rightarrow> mem_fields release_field (length fs) iter m)"

fun release_items :: "(u64 \<Rightarrow> memory \<Rightarrow> memory option) \<Rightarrow> u64 \<Rightarrow> nat \<Rightarrow> u64 \<Rightarrow> memory \<Rightarrow> memory option" where
  "release_items f sz 0 p m = Some m"
| "release_items f sz (Suc n) p m = (case f p m of None \<Rightarrow> None | Some m \<Rightarrow> release_items f sz n (p + sz) m)"

text \<open>The number of entries of the field that is released.\<close>

definition release_count :: "pb_field_iter_t \<Rightarrow> memory \<Rightarrow> u32" where
  "release_count iter m =
     (let field = it_field iter; ty = field_type field; static = (PB_ATYPE ty = PB_ATYPE_STATIC)
      in if PB_HTYPE ty = PB_HTYPE_REPEATED
         then (let count = (if static \<and> pSize iter = pData iter then array_size field else load_u32 m (pSize iter))
               in if static \<and> count > array_size field then array_size field else count)
         else 1)"

definition release_pointer :: "'s pb_denv \<Rightarrow> pb_field_iter_t \<Rightarrow> memory \<Rightarrow> memory option" where
  "release_pointer env iter m =
     (let field = it_field iter; ty = field_type field; repeated = (PB_HTYPE ty = PB_HTYPE_REPEATED)
      in case (if repeated \<and> (PB_LTYPE ty = PB_LTYPE_STRING \<or> PB_LTYPE ty = PB_LTYPE_BYTES)
               then release_items (\<lambda>p m. Some (store_u64 (de_free env m (load_u64 m p)) p 0)) 8
                      (unat (load_u32 m (pSize iter))) (load_u64 m (pData iter)) m
               else Some m) of
           None \<Rightarrow> None
         | Some m \<Rightarrow>
             let m = (if repeated then store_u32 m (pSize iter) 0 else m)
             in Some (store_u64 (de_free env m (load_u64 m (pData iter))) (pData iter) 0))"

fun pb_release_single_field :: "'s pb_denv \<Rightarrow> nat \<Rightarrow> pb_field_iter_t \<Rightarrow> memory \<Rightarrow> memory option" where
  "pb_release_single_field env 0 iter m = None"
| "pb_release_single_field env (Suc fuel) iter m =
     (let field = it_field iter; ty = field_type field
      in if PB_HTYPE ty = PB_HTYPE_ONEOF \<and> load_u32 m (pSize iter) \<noteq> field_tag field then Some m
         else case (if PB_LTYPE ty = PB_LTYPE_EXTENSION
                    then mem_extensions
                           (\<lambda>ext m. pb_release_single_field env fuel (iter_from_extension (de_ext_type env) m ext) m)
                           fuel (load_u64 m (pData iter)) m
                    else if PB_LTYPE ty = PB_LTYPE_SUBMESSAGE \<and> PB_ATYPE ty \<noteq> PB_ATYPE_CALLBACK
                    then (let item = (if PB_ATYPE ty = PB_ATYPE_POINTER then load_u64 m (pData iter) else pData iter)
                          in if item = 0 then Some m
                             else case submsg_fields (de_descs env) field of
                                    None \<Rightarrow> None
                                  | Some fs \<Rightarrow>
                                      release_items
                                        (\<lambda>p m. pb_release (\<lambda>i m. pb_release_single_field env fuel i m) fs p m)
                                        (ucast (data_size field)) (unat (release_count iter m)) item m)
                    else Some m) of
                None \<Rightarrow> None
              | Some m \<Rightarrow> if PB_ATYPE ty = PB_ATYPE_POINTER then release_pointer env iter m else Some m)"

abbreviation release :: "'s pb_denv \<Rightarrow> nat \<Rightarrow> pb_field_t list \<Rightarrow> u64 \<Rightarrow> memory \<Rightarrow> memory option" where
  "release env fuel \<equiv> pb_release (pb_release_single_field env fuel)"

text \<open>The result is the return value, the stream, the iterator and the memory.\<close>

definition pb_release_union_field ::
  "'s pb_denv \<Rightarrow> nat \<Rightarrow> 's pb_istream_t \<Rightarrow> pb_field_iter_t \<Rightarrow> memory \<Rightarrow> (bool \<times> 's pb_istream_t \<times> pb_field_iter_t \<times> memory) option" where
  "pb_release_union_field env fuel stream iter m =
     (let old_tag = load_u32 m (pSize iter); new_tag = field_tag (it_field iter);
          err = (\<lambda>iter m msg. Some (False, stream\<lparr>is_errmsg := PB_SET_ERROR (is_errmsg stream) msg\<rparr>, iter, m))
      in if old_tag = 0 \<or> old_tag = new_tag then Some (True, stream, iter, m)
         else case pb_field_iter_find iter old_tag of
                None \<Rightarrow> None
              | Some (False, iter) \<Rightarrow> err iter m ''invalid union tag''
              | Some (True, iter) \<Rightarrow>
                  (case pb_release_single_field env fuel iter m of
                     None \<Rightarrow> None
                   | Some m \<Rightarrow>
                       (case pb_field_iter_find iter new_tag of
                          None \<Rightarrow> None
                        | Some (False, iter) \<Rightarrow> err iter m ''iterator error''
                        | Some (True, iter) \<Rightarrow>
                            Some (True, stream, iter,
                              if PB_ATYPE (field_type (it_field iter)) = PB_ATYPE_POINTER
                              then store_u64 m (pData iter) 0 else m))))"

section \<open>Field decoders\<close>

definition allocate_field ::
  "'s pb_denv \<Rightarrow> 's pb_istream_t \<Rightarrow> u64 \<Rightarrow> nat \<Rightarrow> nat \<Rightarrow> memory \<Rightarrow> bool \<times> 's pb_istream_t \<times> memory" where
  "allocate_field env stream data dsize asize m =
     (let check_limit = 2 ^ 32
      in if dsize = 0 \<or> asize = 0 then dec_error stream m ''invalid size''
         else if (dsize \<ge> check_limit \<or> asize \<ge> check_limit) \<and> SIZE_MAX div asize < dsize
         then dec_error stream m ''size too large''
         else (case de_realloc env m (load_u64 m data) ((asize * dsize) mod SIZE_MOD) of
                 (p, m) \<Rightarrow> if p = 0 then dec_error stream m ''realloc failed'' else (True, stream, store_u64 m data p)))"

definition initialize_pointer_field :: "'s pb_denv \<Rightarrow> nat \<Rightarrow> u64 \<Rightarrow> pb_field_t \<Rightarrow> memory \<Rightarrow> memory option" where
  "initialize_pointer_field env fuel item field m =
     (let ltype = PB_LTYPE (field_type field)
      in if ltype = PB_LTYPE_STRING \<or> ltype = PB_LTYPE_BYTES then Some (store_u64 m item 0)
         else if ltype = PB_LTYPE_SUBMESSAGE
         then (case submsg_fields (de_descs env) field of
                 None \<Rightarrow> None
               | Some fs \<Rightarrow> set_defaults env fuel fs item (memset0 m item (unat (data_size field))))
         else Some m)"

text \<open>The scalar decoders, which store their value at \<open>dest\<close>.\<close>

definition dec_bool_at :: "'s pb_istream_t \<Rightarrow> u64 \<Rightarrow> memory \<Rightarrow> bool \<times> 's pb_istream_t \<times> memory" where
  "dec_bool_at stream dest m =
     (case pb_dec_bool stream of
        (None, stream) \<Rightarrow> (False, stream, m)
      | (Some b, stream) \<Rightarrow> (True, stream, store m dest [if b then 1 else 0]))"

definition dec_int_at :: "(bool \<times> u64 option) \<times> 's pb_istream_t \<Rightarrow> pb_field_t \<Rightarrow> u64 \<Rightarrow> memory \<Rightarrow> bool \<times> 's pb_istream_t \<times> memory" where
  "dec_int_at r field dest m =
     (case r of
        ((ok, v), stream) \<Rightarrow>
          (ok, stream, case v of None \<Rightarrow> m | Some v \<Rightarrow> le_store m dest (unat (data_size field)) (unat v)))"

definition pb_dec_fixed32 :: "'s pb_istream_t \<Rightarrow> u64 \<Rightarrow> memory \<Rightarrow> bool \<times> 's pb_istream_t \<times> memory" where
  "pb_dec_fixed32 stream dest m =
     (case pb_decode_fixed32 stream of
        (None, stream) \<Rightarrow> (False, stream, m) | (Some v, stream) \<Rightarrow> (True, stream, store_u32 m dest v))"

definition pb_dec_fixed64 :: "'s pb_istream_t \<Rightarrow> u64 \<Rightarrow> memory \<Rightarrow> bool \<times> 's pb_istream_t \<times> memory" where
  "pb_dec_fixed64 stream dest m =
     (case pb_decode_fixed64 stream of
        (None, stream) \<Rightarrow> (False, stream, m) | (Some v, stream) \<Rightarrow> (True, stream, store_u64 m dest v))"

text \<open>\<open>pb_read\<close> into memory. What a failing callback of a stream leaves in the buffer is not modelled.\<close>

definition read_at :: "'s pb_istream_t \<Rightarrow> u64 \<Rightarrow> nat \<Rightarrow> memory \<Rightarrow> bool \<times> 's pb_istream_t \<times> memory" where
  "read_at stream dest n m =
     (case pb_read stream False n of
        (None, stream) \<Rightarrow> (False, stream, m) | (Some bs, stream) \<Rightarrow> (True, stream, store m dest bs))"

definition pb_dec_bytes :: "'s pb_denv \<Rightarrow> 's pb_istream_t \<Rightarrow> pb_field_t \<Rightarrow> u64 \<Rightarrow> memory \<Rightarrow> bool \<times> 's pb_istream_t \<times> memory" where
  "pb_dec_bytes env stream field dest m =
     (case pb_decode_varint32 stream of
        (None, stream) \<Rightarrow> (False, stream, m)
      | (Some sz, stream) \<Rightarrow>
          let alloc_size = size_add (unat sz) OFFSETOF_BYTES;
              fill = (\<lambda>stream bdest m. read_at stream (bdest + of_nat OFFSETOF_BYTES) (unat sz) (store_u32 m bdest sz))
          in if sz > PB_SIZE_MAX then dec_error stream m ''bytes overflow''
             else if unat sz > alloc_size then dec_error stream m ''size too large''
             else if PB_ATYPE (field_type field) = PB_ATYPE_POINTER
             then (if bytes_left stream < unat sz then dec_error stream m ''end-of-stream''
                   else (case allocate_field env stream dest alloc_size 1 m of
                           (False, stream, m) \<Rightarrow> (False, stream, m)
                         | (True, stream, m) \<Rightarrow> fill stream (load_u64 m dest) m))
             else if alloc_size > unat (data_size field) then dec_error stream m ''bytes overflow''
             else fill stream dest m)"

text \<open>In \<open>pb_dec_string\<close>, \<open>size + 1\<close> is a sum of 32 bits.\<close>

definition pb_dec_string :: "'s pb_denv \<Rightarrow> 's pb_istream_t \<Rightarrow> pb_field_t \<Rightarrow> u64 \<Rightarrow> memory \<Rightarrow> bool \<times> 's pb_istream_t \<times> memory" where
  "pb_dec_string env stream field dest m =
     (case pb_decode_varint32 stream of
        (None, stream) \<Rightarrow> (False, stream, m)
      | (Some sz, stream) \<Rightarrow>
          let alloc_size = unat (sz + 1);
              fill = (\<lambda>stream dest m.
                        case read_at stream dest (unat sz) m of
                          (status, stream, m) \<Rightarrow> (status, stream, store m (dest + ucast sz) [0]))
          in if alloc_size < unat sz then dec_error stream m ''size too large''
             else if PB_ATYPE (field_type field) = PB_ATYPE_POINTER
             then (if bytes_left stream < unat sz then dec_error stream m ''end-of-stream''
                   else (case allocate_field env stream dest alloc_size 1 m of
                           (False, stream, m) \<Rightarrow> (False, stream, m)
                         | (True, stream, m) \<Rightarrow> fill stream (load_u64 m dest) m))
             else if alloc_size > unat (data_size field) then dec_error stream m ''string overflow''
             else fill stream dest m)"

definition pb_dec_fixed_length_bytes ::
  "'s pb_istream_t \<Rightarrow> pb_field_t \<Rightarrow> u64 \<Rightarrow> memory \<Rightarrow> bool \<times> 's pb_istream_t \<times> memory" where
  "pb_dec_fixed_length_bytes stream field dest m =
     (case pb_decode_varint32 stream of
        (None, stream) \<Rightarrow> (False, stream, m)
      | (Some sz, stream) \<Rightarrow>
          if sz > PB_SIZE_MAX then dec_error stream m ''bytes overflow''
          else if sz = 0 then (True, stream, memset0 m dest (unat (data_size field)))
          else if sz \<noteq> data_size field then dec_error stream m ''incorrect fixed length bytes size''
          else read_at stream dest (unat (data_size field)) m)"

text \<open>
  A length-prefixed part of a stream: \<open>body\<close> gets the substream, which is closed whatever the result of
  \<open>body\<close>; if that fails, so does the whole.
\<close>

definition in_substream ::
  "'s pb_istream_t \<Rightarrow> memory \<Rightarrow> ('s pb_istream_t \<Rightarrow> 's dresult) \<Rightarrow> 's dresult" where
  "in_substream stream m body =
     (case pb_make_string_substream stream of
        (None, stream) \<Rightarrow> Some (False, stream, m)
      | (Some substream, stream) \<Rightarrow>
          (case body substream of
             None \<Rightarrow> None
           | Some (status, substream, m) \<Rightarrow>
               (case pb_close_string_substream stream substream of
                  (None, stream) \<Rightarrow> Some (False, stream, m)
                | (Some _, stream) \<Rightarrow> Some (status, stream, m))))"

text \<open>\<open>sub True\<close> is \<open>pb_decode\<close>, \<open>sub False\<close> is \<open>pb_decode_noinit\<close>, with the fuel that is left.\<close>

type_synonym 's sub_decoder = "bool \<Rightarrow> 's pb_istream_t \<Rightarrow> pb_field_t list \<Rightarrow> u64 \<Rightarrow> memory \<Rightarrow> 's dresult"

definition pb_dec_submessage ::
  "'s pb_denv \<Rightarrow> 's sub_decoder \<Rightarrow> 's pb_istream_t \<Rightarrow> pb_field_t \<Rightarrow> u64 \<Rightarrow> memory \<Rightarrow> 's dresult" where
  "pb_dec_submessage env sub stream field dest m =
     (if field_ptr field = No_ptr
      then (case pb_make_string_substream stream of
              (None, stream) \<Rightarrow> Some (False, stream, m)
            | (Some _, stream) \<Rightarrow> Some (dec_error stream m ''invalid field descriptor''))
      else in_substream stream m
             (\<lambda>substream.
                case submsg_fields (de_descs env) field of
                  None \<Rightarrow> None
                | Some fs \<Rightarrow> sub (PB_HTYPE (field_type field) = PB_HTYPE_REPEATED) substream fs dest m))"

text \<open>The table \<open>PB_DECODERS\<close>; it has no entry for extensions.\<close>

definition PB_DECODERS ::
  "'s pb_denv \<Rightarrow> 's sub_decoder \<Rightarrow> pb_type_t \<Rightarrow> 's pb_istream_t \<Rightarrow> pb_field_t \<Rightarrow> u64 \<Rightarrow> memory \<Rightarrow> 's dresult" where
  "PB_DECODERS env sub ltype stream field dest m =
     (if ltype = PB_LTYPE_BOOL then Some (dec_bool_at stream dest m)
      else if ltype = PB_LTYPE_VARINT then Some (dec_int_at (pb_dec_varint stream field) field dest m)
      else if ltype = PB_LTYPE_UVARINT then Some (dec_int_at (pb_dec_uvarint stream field) field dest m)
      else if ltype = PB_LTYPE_SVARINT then Some (dec_int_at (pb_dec_svarint stream field) field dest m)
      else if ltype = PB_LTYPE_FIXED32 then Some (pb_dec_fixed32 stream dest m)
      else if ltype = PB_LTYPE_FIXED64 then Some (pb_dec_fixed64 stream dest m)
      else if ltype = PB_LTYPE_BYTES then Some (pb_dec_bytes env stream field dest m)
      else if ltype = PB_LTYPE_STRING then Some (pb_dec_string env stream field dest m)
      else if ltype = PB_LTYPE_SUBMESSAGE then pb_dec_submessage env sub stream field dest m
      else if ltype = PB_LTYPE_FIXED_LENGTH_BYTES then Some (pb_dec_fixed_length_bytes stream field dest m)
      else None)"

section \<open>Fields\<close>

text \<open>The address of entry \<open>*size\<close> of an array; the product is one of 32 bits.\<close>

definition array_item :: "u64 \<Rightarrow> pb_field_t \<Rightarrow> u32 \<Rightarrow> u64" where
  "array_item data field count = data + ucast (data_size field * count)"

text \<open>
  The loop over a packed array. Each entry takes a byte at least, so the number of bytes is fuel enough.
\<close>

fun static_packed_loop ::
  "('s pb_istream_t \<Rightarrow> u64 \<Rightarrow> memory \<Rightarrow> 's dresult) \<Rightarrow> pb_field_iter_t \<Rightarrow> nat \<Rightarrow> 's pb_istream_t \<Rightarrow> memory \<Rightarrow> 's dresult" where
  "static_packed_loop func iter n substream m =
     (if bytes_left substream > 0 \<and> load_u32 m (pSize iter) < array_size (it_field iter)
      then case n of
             0 \<Rightarrow> None
           | Suc n \<Rightarrow>
               (case func substream (array_item (pData iter) (it_field iter) (load_u32 m (pSize iter))) m of
                  None \<Rightarrow> None
                | Some (False, substream, m) \<Rightarrow> Some (False, substream, m)
                | Some (True, substream, m) \<Rightarrow>
                    static_packed_loop func iter n substream (store_u32 m (pSize iter) (load_u32 m (pSize iter) + 1)))
      else Some (True, substream, m))"

declare static_packed_loop.simps [simp del]

definition decode_static_field ::
  "'s pb_denv \<Rightarrow> nat \<Rightarrow> 's sub_decoder \<Rightarrow> 's pb_istream_t \<Rightarrow> pb_wire_type_t \<Rightarrow> pb_field_iter_t \<Rightarrow> memory \<Rightarrow> 's dresult" where
  "decode_static_field env fuel sub stream wire_type iter m =
     (let field = it_field iter; ty = field_type field;
          func = (\<lambda>stream dest m. PB_DECODERS env sub (PB_LTYPE ty) stream field dest m)
      in if PB_HTYPE ty = PB_HTYPE_REQUIRED then func stream (pData iter) m
         else if PB_HTYPE ty = PB_HTYPE_OPTIONAL
         then func stream (pData iter) (if pSize iter \<noteq> pData iter then store m (pSize iter) [1] else m)
         else if PB_HTYPE ty = PB_HTYPE_REPEATED
         then (if wire_type = PB_WT_STRING \<and> PB_LTYPE ty \<le> PB_LTYPE_LAST_PACKABLE
               then (case pb_make_string_substream stream of
                       (None, stream) \<Rightarrow> Some (False, stream, m)
                     | (Some substream, stream) \<Rightarrow>
                         (case static_packed_loop func iter (bytes_left substream) substream m of
                            None \<Rightarrow> None
                          | Some (status, substream, m) \<Rightarrow>
                              if bytes_left substream \<noteq> 0 then Some (dec_error stream m ''array overflow'')
                              else (case pb_close_string_substream stream substream of
                                      (None, stream) \<Rightarrow> Some (False, stream, m)
                                    | (Some _, stream) \<Rightarrow> Some (status, stream, m))))
               else (let count = load_u32 m (pSize iter); m = store_u32 m (pSize iter) (count + 1)
                     in if count \<ge> array_size field then Some (dec_error stream m ''array overflow'')
                        else func stream (array_item (pData iter) field count) m))
         else (case (if PB_LTYPE ty = PB_LTYPE_SUBMESSAGE \<and> load_u32 m (pSize iter) \<noteq> field_tag field
                     then (case submsg_fields (de_descs env) field of
                             None \<Rightarrow> None
                           | Some fs \<Rightarrow> set_defaults env fuel fs (pData iter) (memset0 m (pData iter) (unat (data_size field))))
                     else Some m) of
                 None \<Rightarrow> None
               | Some m \<Rightarrow> func stream (pData iter) (store_u32 m (pSize iter) (field_tag field))))"

text \<open>
  The loop over a packed array behind a pointer: \<open>allocated\<close> entries have memory. The result has the
  error message of the parent stream as the loop leaves it.
\<close>

fun pointer_packed_loop ::
  "'s pb_denv \<Rightarrow> nat \<Rightarrow> ('s pb_istream_t \<Rightarrow> u64 \<Rightarrow> memory \<Rightarrow> 's dresult) \<Rightarrow> pb_field_iter_t \<Rightarrow> nat \<Rightarrow> nat \<Rightarrow>
     's pb_istream_t \<Rightarrow> memory \<Rightarrow> string option \<Rightarrow> (bool \<times> 's pb_istream_t \<times> memory \<times> string option) option" where
  "pointer_packed_loop env fuel func iter n allocated substream m err =
     (if bytes_left substream = 0 then Some (True, substream, m, err)
      else case n of
             0 \<Rightarrow> None
           | Suc n \<Rightarrow>
               (let field = it_field iter; count = load_u32 m (pSize iter); dsize = unat (data_size field)
                in if count = PB_SIZE_MAX then Some (False, substream, m, Some ''too many array entries'')
                   else case (if unat count + 1 > allocated
                              then (if dsize = 0 then None
                                    else let remain = (bytes_left substream - 1) div dsize + 1;
                                             allocated =
                                               (if remain < (unat PB_SIZE_MAX + SIZE_MOD - allocated) mod SIZE_MOD
                                                then size_add allocated remain else size_add allocated 1)
                                         in Some (allocated, allocate_field env substream (pData iter) dsize allocated m))
                              else Some (allocated, (True, substream, m))) of
                          None \<Rightarrow> None
                        | Some (allocated, (False, substream, m)) \<Rightarrow> Some (False, substream, m, err)
                        | Some (allocated, (True, substream, m)) \<Rightarrow>
                            (let item = array_item (load_u64 m (pData iter)) field (load_u32 m (pSize iter))
                             in if item = 0 then Some (False, substream, m, err)
                                else case initialize_pointer_field env fuel item field m of
                                       None \<Rightarrow> None
                                     | Some m \<Rightarrow>
                                         (case func substream item m of
                                            None \<Rightarrow> None
                                          | Some (False, substream, m) \<Rightarrow> Some (False, substream, m, err)
                                          | Some (True, substream, m) \<Rightarrow>
                                              pointer_packed_loop env fuel func iter n allocated substream
                                                (store_u32 m (pSize iter) (load_u32 m (pSize iter) + 1)) err))))"

declare pointer_packed_loop.simps [simp del]

definition decode_pointer_field ::
  "'s pb_denv \<Rightarrow> nat \<Rightarrow> 's sub_decoder \<Rightarrow> 's pb_istream_t \<Rightarrow> pb_wire_type_t \<Rightarrow> pb_field_iter_t \<Rightarrow> memory \<Rightarrow> 's dresult" where
  "decode_pointer_field env fuel sub stream wire_type iter m =
     (let field = it_field iter; ty = field_type field; ltype = PB_LTYPE ty;
          func = (\<lambda>stream dest m. PB_DECODERS env sub ltype stream field dest m)
      in if PB_HTYPE ty \<noteq> PB_HTYPE_REPEATED
         then (case (if ltype = PB_LTYPE_SUBMESSAGE \<and> load_u64 m (pData iter) \<noteq> 0
                     then pb_release_single_field env fuel iter m else Some m) of
                 None \<Rightarrow> None
               | Some m \<Rightarrow>
                   (let m = (if PB_HTYPE ty = PB_HTYPE_ONEOF then store_u32 m (pSize iter) (field_tag field) else m)
                    in if ltype = PB_LTYPE_STRING \<or> ltype = PB_LTYPE_BYTES then func stream (pData iter) m
                       else and_then_some (Some (allocate_field env stream (pData iter) (unat (data_size field)) 1 m))
                              (\<lambda>(stream, m).
                                 case initialize_pointer_field env fuel (load_u64 m (pData iter)) field m of
                                   None \<Rightarrow> None
                                 | Some m \<Rightarrow> func stream (load_u64 m (pData iter)) m)))
         else if wire_type = PB_WT_STRING \<and> ltype \<le> PB_LTYPE_LAST_PACKABLE
         then (let allocated = unat (load_u32 m (pSize iter))
               in case pb_make_string_substream stream of
                    (None, stream) \<Rightarrow> Some (False, stream, m)
                  | (Some substream, stream) \<Rightarrow>
                      (case pointer_packed_loop env fuel func iter (bytes_left substream) allocated substream m (is_errmsg stream) of
                         None \<Rightarrow> None
                       | Some (status, substream, m, err) \<Rightarrow>
                           (case pb_close_string_substream (stream\<lparr>is_errmsg := err\<rparr>) substream of
                              (None, stream) \<Rightarrow> Some (False, stream, m)
                            | (Some _, stream) \<Rightarrow> Some (status, stream, m))))
         else (let count = load_u32 m (pSize iter)
               in if count = PB_SIZE_MAX then Some (dec_error stream m ''too many array entries'')
                  else and_then_some
                         (Some (allocate_field env stream (pData iter) (unat (data_size field)) (unat (count + 1)) m))
                         (\<lambda>(stream, m).
                            let item = array_item (load_u64 m (pData iter)) field (load_u32 m (pSize iter));
                                m = store_u32 m (pSize iter) (load_u32 m (pSize iter) + 1)
                            in case initialize_pointer_field env fuel item field m of
                                 None \<Rightarrow> None
                               | Some m \<Rightarrow> func stream item m)))"

text \<open>
  A callback is called until it has read its whole substream, which may never be; the fuel bounds the
  number of calls.
\<close>

fun callback_loop ::
  "('s pb_istream_t \<Rightarrow> memory \<Rightarrow> bool \<times> 's pb_istream_t \<times> memory) \<Rightarrow> nat \<Rightarrow> 's pb_istream_t \<Rightarrow> memory \<Rightarrow> 's dresult" where
  "callback_loop f 0 substream m = None"
| "callback_loop f (Suc n) substream m =
     (case f substream m of
        (False, substream, m) \<Rightarrow> Some (False, substream, m)
      | (True, substream, m) \<Rightarrow>
          if bytes_left substream \<noteq> 0 then callback_loop f n substream m else Some (True, substream, m))"

definition decode_callback_field ::
  "'s pb_denv \<Rightarrow> nat \<Rightarrow> 's pb_istream_t \<Rightarrow> pb_wire_type_t \<Rightarrow> pb_field_iter_t \<Rightarrow> memory \<Rightarrow> 's dresult" where
  "decode_callback_field env fuel stream wire_type iter m =
     (let call = (\<lambda>substream m. de_callback env (callback_funcs m (pData iter)) substream (it_field iter)
                                     (callback_arg (pData iter)) m)
      in if pData iter = 0 \<or> callback_funcs m (pData iter) = 0
         then (case pb_skip_field stream wire_type of (r, stream) \<Rightarrow> Some (r \<noteq> None, stream, m))
         else if wire_type = PB_WT_STRING
         then (case pb_make_string_substream stream of
                 (None, stream) \<Rightarrow> Some (False, stream, m)
               | (Some substream, stream) \<Rightarrow>
                   (case callback_loop call fuel substream m of
                      None \<Rightarrow> None
                    | Some (False, _, m) \<Rightarrow> Some (dec_error stream m ''callback failed'')
                    | Some (True, substream, m) \<Rightarrow>
                        (case pb_close_string_substream stream substream of
                           (None, stream) \<Rightarrow> Some (False, stream, m)
                         | (Some _, stream) \<Rightarrow> Some (True, stream, m))))
         else (case read_raw_value stream wire_type 10 of
                 (None, stream) \<Rightarrow> Some (False, stream, m)
               | (Some bs, stream) \<Rightarrow>
                   (case call (pb_istream_from_buffer bs (length bs)) m of
                      (ok, _, m) \<Rightarrow> Some (ok, stream, m))))"

text \<open>The result is the return value, the stream, the iterator and the memory.\<close>

definition decode_field ::
  "'s pb_denv \<Rightarrow> nat \<Rightarrow> 's sub_decoder \<Rightarrow> 's pb_istream_t \<Rightarrow> pb_wire_type_t \<Rightarrow> pb_field_iter_t \<Rightarrow> memory \<Rightarrow>
     (bool \<times> 's pb_istream_t \<times> pb_field_iter_t \<times> memory) option" where
  "decode_field env fuel sub stream wire_type iter m =
     (case (if PB_HTYPE (field_type (it_field iter)) = PB_HTYPE_ONEOF
            then pb_release_union_field env fuel stream iter m else Some (True, stream, iter, m)) of
        None \<Rightarrow> None
      | Some (False, stream, iter, m) \<Rightarrow> Some (False, stream, iter, m)
      | Some (True, stream, iter, m) \<Rightarrow>
          (let atype = PB_ATYPE (field_type (it_field iter))
           in map_option (\<lambda>(ok, stream, m). (ok, stream, iter, m))
                (if atype = PB_ATYPE_STATIC then decode_static_field env fuel sub stream wire_type iter m
                 else if atype = PB_ATYPE_POINTER then decode_pointer_field env fuel sub stream wire_type iter m
                 else if atype = PB_ATYPE_CALLBACK then decode_callback_field env fuel stream wire_type iter m
                 else Some (dec_error stream m ''invalid field type''))))"

section \<open>Extensions\<close>

definition default_extension_decoder ::
  "'s pb_denv \<Rightarrow> nat \<Rightarrow> 's sub_decoder \<Rightarrow> 's pb_istream_t \<Rightarrow> u64 \<Rightarrow> u32 \<Rightarrow> pb_wire_type_t \<Rightarrow> memory \<Rightarrow> 's dresult" where
  "default_extension_decoder env fuel sub stream extension tag wire_type m =
     (let field = xt_arg (de_ext_type env (extension_type m extension))
      in if field_tag field \<noteq> tag then Some (True, stream, m)
         else let iter = iter_from_extension (de_ext_type env) m extension
              in map_option (\<lambda>(ok, stream, iter, m). (ok, stream, m))
                   (decode_field env fuel sub stream wire_type iter (store m (extension_found extension) [1])))"

fun decode_extension_loop ::
  "('s pb_istream_t \<Rightarrow> u64 \<Rightarrow> memory \<Rightarrow> 's dresult) \<Rightarrow> nat \<Rightarrow> nat \<Rightarrow> 's pb_istream_t \<Rightarrow> u64 \<Rightarrow> memory \<Rightarrow> 's dresult" where
  "decode_extension_loop f pos n stream extension m =
     (if extension \<noteq> 0 \<and> pos = bytes_left stream
      then case n of
             0 \<Rightarrow> None
           | Suc n \<Rightarrow>
               and_then_some (f stream extension m)
                 (\<lambda>(stream, m). decode_extension_loop f pos n stream (extension_next m extension) m)
      else Some (True, stream, m))"

declare decode_extension_loop.simps [simp del]

definition decode_extension ::
  "'s pb_denv \<Rightarrow> nat \<Rightarrow> 's sub_decoder \<Rightarrow> 's pb_istream_t \<Rightarrow> u32 \<Rightarrow> pb_wire_type_t \<Rightarrow> pb_field_iter_t \<Rightarrow> memory \<Rightarrow> 's dresult" where
  "decode_extension env fuel sub stream tag wire_type iter m =
     decode_extension_loop
       (\<lambda>stream extension m.
          let fn = xt_decode (de_ext_type env (extension_type m extension))
          in if fn \<noteq> 0 then Some (de_ext_decode env fn stream extension tag wire_type m)
             else default_extension_decoder env fuel sub stream extension tag wire_type m)
       (bytes_left stream) fuel stream (load_u64 m (pData iter)) m"

fun find_extension_loop :: "nat \<Rightarrow> pb_field_iter_t \<Rightarrow> nat \<Rightarrow> (bool \<times> pb_field_iter_t) option" where
  "find_extension_loop 0 iter start = None"
| "find_extension_loop (Suc n) iter start =
     (if PB_LTYPE (field_type (it_field iter)) = PB_LTYPE_EXTENSION then Some (True, iter)
      else let iter = snd (pb_field_iter_next iter)
           in if it_pos iter \<noteq> start then find_extension_loop n iter start else Some (False, iter))"

definition find_extension_field :: "pb_field_iter_t \<Rightarrow> (bool \<times> pb_field_iter_t) option" where
  "find_extension_field iter = find_extension_loop (length (it_start iter)) iter (it_pos iter)"

section \<open>Messages\<close>

definition PB_MAX_REQUIRED_FIELDS :: nat where
  "PB_MAX_REQUIRED_FIELDS = 64"

text \<open>
  The local variables of \<open>pb_decode_noinit\<close>: the iterator, \<open>fields_seen\<close>, \<open>extension_range_start\<close>, and
  \<open>fixed_count_field\<close> as a position in the descriptors (\<open>None\<close> for NULL). \<open>fixed_count_size\<close> is in memory
  at \<open>frame\<close>.
\<close>

record decode_locals =
  dl_iter :: pb_field_iter_t
  fields_seen :: "u32 list"
  extension_range_start :: u32
  fixed_count_field :: "nat option"

definition mark_seen :: "u32 \<Rightarrow> u32 list \<Rightarrow> u32 list" where
  "mark_seen i seen =
     (let w = unat (drop_bit 5 i) in seen[w := seen ! w OR push_bit (unat (i AND 31)) 1])"

definition fixed_count_done :: "u64 \<Rightarrow> decode_locals \<Rightarrow> memory \<Rightarrow> bool" where
  "fixed_count_done frame l m =
     (case fixed_count_field l of
        None \<Rightarrow> True
      | Some k \<Rightarrow> load_u32 m frame = array_size (it_start (dl_iter l) ! k))"

text \<open>The three steps of the loop: a tag that is no field, a field of fixed count, and a field.\<close>

definition try_extension ::
  "'s pb_denv \<Rightarrow> nat \<Rightarrow> 's sub_decoder \<Rightarrow> 's pb_istream_t \<Rightarrow> u32 \<Rightarrow> pb_wire_type_t \<Rightarrow> decode_locals \<Rightarrow> memory \<Rightarrow>
     (bool \<times> bool \<times> 's pb_istream_t \<times> decode_locals \<times> memory) option" where
  "try_extension env fuel sub stream tag wire_type l m =
     (if tag < extension_range_start l then Some (True, False, stream, l, m)
      else case find_extension_field (dl_iter l) of
             None \<Rightarrow> None
           | Some (found, iter) \<Rightarrow>
               (let l = l\<lparr>dl_iter := iter, extension_range_start := (if found then field_tag (it_field iter) else - 1)\<rparr>
                in if tag < extension_range_start l then Some (True, False, stream, l, m)
                   else map_option (\<lambda>(ok, stream', m). (ok, bytes_left stream' \<noteq> bytes_left stream, stream', l, m))
                          (decode_extension env fuel sub stream tag wire_type iter m)))"

definition enter_fixed_count :: "u64 \<Rightarrow> decode_locals \<Rightarrow> memory \<Rightarrow> (decode_locals \<times> memory) option" where
  "enter_fixed_count frame l m =
     (let iter = dl_iter l
      in if PB_HTYPE (field_type (it_field iter)) = PB_HTYPE_REPEATED \<and> pSize iter = pData iter
         then (if fixed_count_field l \<noteq> Some (it_pos iter)
               then (if \<not> fixed_count_done frame l m then None
                     else Some (l\<lparr>fixed_count_field := Some (it_pos iter), dl_iter := iter\<lparr>pSize := frame\<rparr>\<rparr>, store_u32 m frame 0))
               else Some (l\<lparr>dl_iter := iter\<lparr>pSize := frame\<rparr>\<rparr>, m))
         else Some (l, m))"

definition note_required :: "decode_locals \<Rightarrow> decode_locals" where
  "note_required l =
     (let iter = dl_iter l
      in if PB_HTYPE (field_type (it_field iter)) = PB_HTYPE_REQUIRED \<and>
            unat (required_field_index iter) < PB_MAX_REQUIRED_FIELDS
         then l\<lparr>fields_seen := mark_seen (required_field_index iter) (fields_seen l)\<rparr> else l)"

text \<open>
  The loop over the fields of the stream. Each tag takes a byte at least, so the number of bytes is fuel
  enough, as long as no extension decoder makes the stream longer.
\<close>

fun decode_loop ::
  "'s pb_denv \<Rightarrow> nat \<Rightarrow> 's sub_decoder \<Rightarrow> u64 \<Rightarrow> nat \<Rightarrow> 's pb_istream_t \<Rightarrow> decode_locals \<Rightarrow> memory \<Rightarrow>
     (bool \<times> 's pb_istream_t \<times> decode_locals \<times> memory) option" where
  "decode_loop env fuel sub frame n stream l m =
     (if bytes_left stream = 0 then Some (True, stream, l, m)
      else case n of
             0 \<Rightarrow> None
           | Suc n \<Rightarrow>
               (case pb_decode_tag stream of
                  (None, stream, eof) \<Rightarrow> Some (eof, stream, l, m)
                | (Some (wire_type, tag), stream, eof) \<Rightarrow>
                    (case pb_field_iter_find (dl_iter l) tag of
                       None \<Rightarrow> None
                     | Some (False, iter) \<Rightarrow>
                         (case try_extension env fuel sub stream tag wire_type (l\<lparr>dl_iter := iter\<rparr>) m of
                            None \<Rightarrow> None
                          | Some (False, _, stream, l, m) \<Rightarrow> Some (False, stream, l, m)
                          | Some (True, True, stream, l, m) \<Rightarrow> decode_loop env fuel sub frame n stream l m
                          | Some (True, False, stream, l, m) \<Rightarrow>
                              (case pb_skip_field stream wire_type of
                                 (None, stream) \<Rightarrow> Some (False, stream, l, m)
                               | (Some _, stream) \<Rightarrow> decode_loop env fuel sub frame n stream l m))
                     | Some (True, iter) \<Rightarrow>
                         (case enter_fixed_count frame (l\<lparr>dl_iter := iter\<rparr>) m of
                            None \<Rightarrow> (case dec_error stream m ''wrong size for fixed count field'' of
                                       (ok, stream, m) \<Rightarrow> Some (ok, stream, l, m))
                          | Some (l, m) \<Rightarrow>
                              (let l = note_required l
                               in case decode_field env fuel sub stream wire_type (dl_iter l) m of
                                    None \<Rightarrow> None
                                  | Some (False, stream, iter, m) \<Rightarrow> Some (False, stream, l\<lparr>dl_iter := iter\<rparr>, m)
                                  | Some (True, stream, iter, m) \<Rightarrow>
                                      decode_loop env fuel sub frame n stream (l\<lparr>dl_iter := iter\<rparr>) m)))))"

declare decode_loop.simps [simp del]

text \<open>Counting the required fields by going to the end of the descriptors.\<close>

fun last_field_loop :: "nat \<Rightarrow> pb_field_iter_t \<Rightarrow> (nat \<times> pb_type_t \<times> pb_field_iter_t) option" where
  "last_field_loop 0 iter = None"
| "last_field_loop (Suc n) iter =
     (case pb_field_iter_next iter of
        (True, iter) \<Rightarrow> last_field_loop n iter
      | (False, iter') \<Rightarrow> Some (unat (required_field_index iter), field_type (it_field iter), iter'))"

definition req_field_count :: "pb_field_iter_t \<Rightarrow> nat option" where
  "req_field_count iter =
     map_option
       (\<lambda>(n, last_type, iter).
          let n = (if PB_HTYPE last_type = PB_HTYPE_REQUIRED \<and> field_tag (it_field iter) \<noteq> 0 then n + 1 else n)
          in if n > PB_MAX_REQUIRED_FIELDS then PB_MAX_REQUIRED_FIELDS else n)
       (last_field_loop (length (it_start iter)) iter)"

definition all_required_seen :: "nat \<Rightarrow> u32 list \<Rightarrow> bool" where
  "all_required_seen n seen \<longleftrightarrow>
     list_all (\<lambda>i. seen ! i = - 1) [0..<n div 32] \<and>
     (n mod 32 \<noteq> 0 \<longrightarrow> seen ! (n div 32) = drop_bit (32 - n mod 32) (- 1))"

definition noinit_body ::
  "'s pb_denv \<Rightarrow> nat \<Rightarrow> 's sub_decoder \<Rightarrow> u64 \<Rightarrow> 's pb_istream_t \<Rightarrow> pb_field_t list \<Rightarrow> u64 \<Rightarrow> memory \<Rightarrow> 's dresult" where
  "noinit_body env fuel sub frame stream fs dest m =
     (let l = \<lparr>dl_iter = snd (pb_field_iter_begin fs dest), fields_seen = [0, 0],
               extension_range_start = 0, fixed_count_field = None\<rparr>
      in case decode_loop env fuel sub frame (bytes_left stream) stream l (store_u32 m frame 0) of
           None \<Rightarrow> None
         | Some (False, stream, l, m) \<Rightarrow> Some (False, stream, m)
         | Some (True, stream, l, m) \<Rightarrow>
             if \<not> fixed_count_done frame l m
             then Some (dec_error stream m ''wrong size for fixed count field'')
             else (case req_field_count (dl_iter l) of
                     None \<Rightarrow> None
                   | Some n \<Rightarrow>
                       if all_required_seen n (fields_seen l) then Some (True, stream, m)
                       else Some (dec_error stream m ''missing required field'')))"

text \<open>\<open>pb_decode\<close> on top of \<open>pb_decode_noinit\<close>.\<close>

definition init_and_decode ::
  "'s pb_denv \<Rightarrow> nat \<Rightarrow> ('s pb_istream_t \<Rightarrow> pb_field_t list \<Rightarrow> u64 \<Rightarrow> memory \<Rightarrow> 's dresult) \<Rightarrow>
     's pb_istream_t \<Rightarrow> pb_field_t list \<Rightarrow> u64 \<Rightarrow> memory \<Rightarrow> 's dresult" where
  "init_and_decode env fuel noinit stream fs dest m =
     (case set_defaults env fuel fs dest m of
        None \<Rightarrow> None
      | Some m \<Rightarrow>
          (case noinit stream fs dest m of
             None \<Rightarrow> None
           | Some (True, stream, m) \<Rightarrow> Some (True, stream, m)
           | Some (False, stream, m) \<Rightarrow> map_option (\<lambda>m. (False, stream, m)) (release env fuel fs dest m)))"

fun pb_decode_noinit ::
  "'s pb_denv \<Rightarrow> nat \<Rightarrow> 's pb_istream_t \<Rightarrow> pb_field_t list \<Rightarrow> u64 \<Rightarrow> memory \<Rightarrow> 's dresult" where
  "pb_decode_noinit env 0 stream fs dest m = None"
| "pb_decode_noinit env (Suc fuel) stream fs dest m =
     noinit_body env fuel
       (\<lambda>init. if init then init_and_decode env fuel (\<lambda>s fs a m. pb_decode_noinit env fuel s fs a m)
                else (\<lambda>s fs a m. pb_decode_noinit env fuel s fs a m))
       (de_frame env fuel) stream fs dest m"

definition pb_decode :: "'s pb_denv \<Rightarrow> nat \<Rightarrow> 's pb_istream_t \<Rightarrow> pb_field_t list \<Rightarrow> u64 \<Rightarrow> memory \<Rightarrow> 's dresult" where
  "pb_decode env fuel = init_and_decode env fuel (pb_decode_noinit env fuel)"

definition pb_decode_delimited_noinit ::
  "'s pb_denv \<Rightarrow> nat \<Rightarrow> 's pb_istream_t \<Rightarrow> pb_field_t list \<Rightarrow> u64 \<Rightarrow> memory \<Rightarrow> 's dresult" where
  "pb_decode_delimited_noinit env fuel stream fs dest m =
     in_substream stream m (\<lambda>substream. pb_decode_noinit env fuel substream fs dest m)"

definition pb_decode_delimited ::
  "'s pb_denv \<Rightarrow> nat \<Rightarrow> 's pb_istream_t \<Rightarrow> pb_field_t list \<Rightarrow> u64 \<Rightarrow> memory \<Rightarrow> 's dresult" where
  "pb_decode_delimited env fuel stream fs dest m =
     in_substream stream m (\<lambda>substream. pb_decode env fuel substream fs dest m)"

definition pb_decode_nullterminated ::
  "'s pb_denv \<Rightarrow> nat \<Rightarrow> 's pb_istream_t \<Rightarrow> pb_field_t list \<Rightarrow> u64 \<Rightarrow> memory \<Rightarrow> 's dresult" where
  "pb_decode_nullterminated env fuel stream fs dest m = pb_decode env fuel stream fs dest m"

end
