(* ===== verification/Pb_Msg_Safe.thy ===== *)
theory Pb_Msg_Safe
  imports Pb_Msg_Decode
begin

text \<open>
  The decoder writes only to the message it decodes: regions of memory, descriptors that fit into a
  structure, and what each function of the decoder may change.
\<close>

section \<open>Regions\<close>

definition region :: "u64 \<Rightarrow> nat \<Rightarrow> u64 set" where
  "region a n = (\<lambda>i. a + of_nat i) ` {..<n}"

definition within :: "u64 set \<Rightarrow> memory \<Rightarrow> memory \<Rightarrow> bool" where
  "within R m m' \<longleftrightarrow> (\<forall>x. x \<notin> R \<longrightarrow> m' x = m x)"

lemma within_refl [simp]: "within R m m"
  by (simp add: within_def)

lemma within_trans: "within R m m' \<Longrightarrow> within R m' m'' \<Longrightarrow> within R m m''"
  by (simp add: within_def)

lemma within_mono: "within R m m' \<Longrightarrow> R \<subseteq> S \<Longrightarrow> within S m m'"
  by (auto simp: within_def)

lemma region_sub:
  assumes "k + n \<le> len"
  shows "region (a + of_nat k) n \<subseteq> region a len"
proof
  fix x assume "x \<in> region (a + of_nat k) n"
  then obtain i where i: "i < n" "x = a + of_nat k + of_nat i" by (auto simp: region_def)
  then have "x = a + of_nat (k + i)" by (simp add: add.assoc)
  moreover have "k + i < len" using i(1) assms by simp
  ultimately show "x \<in> region a len" unfolding region_def by blast
qed

lemma region_mono: "n \<le> len \<Longrightarrow> region a n \<subseteq> region a len"
  using region_sub [of 0 n len a] by simp

lemma store_outside: "x \<notin> region a (length bs) \<Longrightarrow> store m a bs x = m x"
proof (induction m a bs rule: store.induct)
  case (2 m a b bs)
  have "x \<noteq> a"
  proof
    assume "x = a"
    then have "x \<in> region a (length (b # bs))" by (auto simp: region_def intro: image_eqI [of _ _ 0])
    then show False using 2 by simp
  qed
  moreover have "region (a + of_nat 1) (length bs) \<subseteq> region a (length (b # bs))" by (rule region_sub) simp
  then have "x \<notin> region (a + 1) (length bs)" using 2(2) by auto
  ultimately show ?case using 2(1) by (simp add: fun_upd_def)
qed simp

lemma within_store: "region a (length bs) \<subseteq> R \<Longrightarrow> within R m (store m a bs)"
  using store_outside by (fastforce simp: within_def)

lemma within_le_store: "region a n \<subseteq> R \<Longrightarrow> within R m (le_store m a n v)"
  unfolding le_store_def by (rule within_store) simp

lemma within_memset0: "region a n \<subseteq> R \<Longrightarrow> within R m (memset0 m a n)"
  unfolding memset0_def by (rule within_store) simp

section \<open>Descriptors that fit\<close>

text \<open>The offsets of a field and of its size member or flag in the structure.\<close>

fun field_offset :: "pb_field_t list \<Rightarrow> nat \<Rightarrow> u64" where
  "field_offset fs 0 = ucast (data_offset (fs ! 0))"
| "field_offset fs (Suc k) =
     (if in_union (fs ! k) (fs ! Suc k) then field_offset fs k
      else field_offset fs k + iter_prev_size (fs ! k) + ucast (data_offset (fs ! Suc k)))"

fun size_cell :: "pb_field_t list \<Rightarrow> nat \<Rightarrow> u64" where
  "size_cell fs 0 = field_offset fs 0 + scast (size_offset (fs ! 0))"
| "size_cell fs (Suc k) =
     (if in_union (fs ! k) (fs ! Suc k) then size_cell fs k
      else field_offset fs (Suc k) + scast (size_offset (fs ! Suc k)))"

lemma field_data_offset: "dest \<noteq> 0 \<Longrightarrow> field_data fs dest k = dest + field_offset fs k"
  by (induction k) (simp_all add: add.assoc)

lemma field_size_cell: "dest \<noteq> 0 \<Longrightarrow> field_size fs dest k = dest + size_cell fs k"
  by (induction k) (simp_all add: field_data_offset add.assoc del: field_data.simps field_offset.simps)


text \<open>
  A statically allocated field that fits into \<open>len\<close> bytes. \<open>lens\<close> has the sizes of the structures of the
  submessages. The four bytes at the size member of an array or a union are in the structure, also if the
  array has a fixed count and its size member is the array itself: its first four bytes are then set to
  zero as if they were a count (\<open>pb_field_set_to_default\<close>).
\<close>

definition value_fits :: "nat list \<Rightarrow> pb_field_t \<Rightarrow> bool" where
  "value_fits lens f \<longleftrightarrow>
     (let ltype = PB_LTYPE (field_type f); n = unat (data_size f)
      in encodable ltype \<and>
         (ltype = PB_LTYPE_BOOL \<longrightarrow> 1 \<le> n) \<and> (ltype = PB_LTYPE_FIXED32 \<longrightarrow> 4 \<le> n) \<and> (ltype = PB_LTYPE_FIXED64 \<longrightarrow> 8 \<le> n) \<and>
         (case field_ptr f of
            Submsg_fields j \<Rightarrow> ltype = PB_LTYPE_SUBMESSAGE \<and> j < length lens \<and> lens ! j \<le> n
          | Default_value bs \<Rightarrow> n \<le> length bs
          | No_ptr \<Rightarrow> True))"

definition extent :: "pb_field_t \<Rightarrow> nat" where
  "extent f = unat (data_size f) * (if PB_HTYPE (field_type f) = PB_HTYPE_REPEATED then unat (array_size f) else 1)"

definition field_fits :: "nat list \<Rightarrow> pb_field_t list \<Rightarrow> nat \<Rightarrow> nat \<Rightarrow> bool" where
  "field_fits lens fs len k \<longleftrightarrow>
     (let f = fs ! k; htype = PB_HTYPE (field_type f); flagged = (size_cell fs k \<noteq> field_offset fs k);
          cell = unat (size_cell fs k)
      in PB_ATYPE (field_type f) = PB_ATYPE_STATIC \<and> value_fits lens f \<and>
         unat (field_offset fs k) + extent f \<le> len \<and>
         (htype = PB_HTYPE_OPTIONAL \<and> flagged \<longrightarrow> cell + 1 \<le> len) \<and>
         (htype \<noteq> PB_HTYPE_REQUIRED \<and> htype \<noteq> PB_HTYPE_OPTIONAL \<longrightarrow> cell + 4 \<le> len))"

definition message_fits :: "nat list \<Rightarrow> nat \<Rightarrow> pb_field_t list \<Rightarrow> nat \<Rightarrow> bool" where
  "message_fits lens k fs len \<longleftrightarrow>
     len < 2 ^ 32 \<and> 1 < length fs \<and> nested k fs \<and> list_all (field_fits lens fs len) [0..<length fs - 1]"

definition static_descs :: "pb_field_t list list \<Rightarrow> nat list \<Rightarrow> bool" where
  "static_descs descs lens \<longleftrightarrow>
     length lens = length descs \<and> list_all (\<lambda>j. message_fits lens j (descs ! j) (lens ! j)) [0..<length descs]"

text \<open>An object in memory.\<close>

definition object :: "u64 \<Rightarrow> nat \<Rightarrow> bool" where
  "object a n \<longleftrightarrow> a \<noteq> 0 \<and> unat a + n < 2 ^ 64"

lemma object_sub:
  assumes "object a len" and "k + n \<le> len"
  shows "object (a + of_nat k) n"
proof -
  have k: "unat (of_nat k :: u64) = k" using assms by (simp add: object_def unat_of_nat take_bit_nat_eq_self)
  have "unat (a + of_nat k) = unat a + k"
    using assms k by (subst unat_add_lem [THEN iffD1]) (simp_all add: object_def)
  moreover have "0 < unat a" using assms(1) by (simp add: object_def unat_gt_0)
  ultimately have "0 < unat (a + of_nat k)" "unat (a + of_nat k) + n < 2 ^ 64" using assms by (simp_all add: object_def)
  then show ?thesis by (auto simp: object_def)
qed

lemma message_okI: "nested k fs \<Longrightarrow> 1 < length fs \<Longrightarrow> fields_ok fs (length fs - 1)"
  using message_ok_cases [of fs] by (auto simp: nested_def)

lemmas type_codes = PB_HTYPE_REQUIRED_def PB_HTYPE_OPTIONAL_def PB_HTYPE_REPEATED_def PB_HTYPE_ONEOF_def
  PB_ATYPE_STATIC_def PB_ATYPE_POINTER_def PB_ATYPE_CALLBACK_def

text \<open>What the decoder needs of an iterator to write only to \<open>R\<close>.\<close>

definition field_in :: "u64 set \<Rightarrow> nat list \<Rightarrow> nat \<Rightarrow> pb_field_iter_t \<Rightarrow> bool" where
  "field_in R lens k it \<longleftrightarrow>
     (let f = it_field it; htype = PB_HTYPE (field_type f)
      in PB_ATYPE (field_type f) = PB_ATYPE_STATIC \<and> refers_below k f \<and> value_fits lens f \<and>
         extent f < 2 ^ 32 \<and> object (pData it) (extent f) \<and> region (pData it) (extent f) \<subseteq> R \<and>
         (htype = PB_HTYPE_OPTIONAL \<and> pSize it \<noteq> pData it \<longrightarrow> region (pSize it) 1 \<subseteq> R) \<and>
         (htype \<noteq> PB_HTYPE_REQUIRED \<and> htype \<noteq> PB_HTYPE_OPTIONAL \<longrightarrow> region (pSize it) 4 \<subseteq> R))"

lemma field_in_iter_at:
  assumes fits: "message_fits lens k fs len" and p: "p < length fs - 1"
    and obj: "object dest len" and R: "region dest len \<subseteq> R"
  shows "field_in R lens k (iter_at fs dest p)"
proof -
  have f: "field_fits lens fs len p" using fits p by (simp add: message_fits_def list_all_iff)
  have d: "dest \<noteq> 0" using obj by (simp add: object_def)
  have in_R: "region (dest + c) n \<subseteq> R" "object (dest + c) n" if "unat c + n \<le> len" for c n
    using region_sub [OF that, of dest] object_sub [OF obj that] R by simp_all
  have "refers_below k (fs ! p)" using fits p by (auto simp: message_fits_def intro: nestedD)
  then show ?thesis
    using f fits in_R unfolding field_in_def field_fits_def Let_def message_fits_def
    by (auto simp: field_data_offset [OF d] field_size_cell [OF d] simp del: field_data.simps field_size.simps field_offset.simps size_cell.simps)
qed

section \<open>Streams get shorter\<close>

text \<open>A reader that leaves no more than it got, and less when it succeeds.\<close>

definition reads :: "nat \<Rightarrow> 'a option \<times> 's pb_istream_t \<Rightarrow> bool" where
  "reads n r \<longleftrightarrow> bytes_left (snd r) \<le> n \<and> (fst r \<noteq> None \<longrightarrow> bytes_left (snd r) < n)"

lemma reads_simps [simp]:
  "reads n (None, s) \<longleftrightarrow> bytes_left s \<le> n" "reads n (Some x, s) \<longleftrightarrow> bytes_left s < n"
  by (auto simp: reads_def)

lemma left_error [simp]: "bytes_left (snd (is_return_error s msg)) = bytes_left s" "fst (is_return_error s msg) = None"
  by (simp_all add: is_return_error_def)

lemma left_is_read [simp]: "bytes_left (snd (is_read s n)) = bytes_left s"
  by (cases "is_read s n") (simp add: bytes_left_is_read)

lemma reads_readbyte: "reads (bytes_left s) (pb_readbyte s)"
  by (auto simp: pb_readbyte_def reads_def is_return_error_def dest!: bytes_left_is_read split: option.splits prod.splits)

lemma read_buf_left:
  assumes "pb_read_buf s n = (r, s')"
  shows "bytes_left s' \<le> bytes_left s \<and> (r \<noteq> None \<and> 0 < n \<longrightarrow> bytes_left s' < bytes_left s)"
  using assms
  by (auto simp: pb_read_buf_def is_return_error_def dest!: bytes_left_is_read split: if_splits option.splits prod.splits)

lemma skip_blocks_left: "pb_skip_blocks s n = (r, s') \<Longrightarrow> bytes_left s' \<le> bytes_left s"
proof (induction s n rule: pb_skip_blocks.induct)
  case (1 s n)
  show ?case
  proof (cases "16 < n")
    case True
    obtain r1 s1 where r1: "pb_read_buf s 16 = (r1, s1)" by force
    show ?thesis
      using 1 True r1 read_buf_left [OF r1] by (force simp: pb_skip_blocks.simps [of s n] split: option.splits)
  next
    case False
    then show ?thesis using 1(2) read_buf_left [of s n r s'] by (simp add: pb_skip_blocks.simps [of s n])
  qed
qed

lemma read_left: "pb_read s z n = (r, s') \<Longrightarrow> bytes_left s' \<le> bytes_left s"
  by (auto simp: pb_read_def dest: read_buf_left skip_blocks_left split: if_splits is_source.splits)

lemma reads_read: "0 < n \<Longrightarrow> reads (bytes_left s) (pb_read s False n)"
  using read_buf_left [of s n] by (cases "pb_read_buf s n") (auto simp: pb_read_def reads_def)

lemma readbyte_left: "pb_readbyte s = (r, s') \<Longrightarrow> bytes_left s' \<le> bytes_left s \<and> (r \<noteq> None \<longrightarrow> bytes_left s' < bytes_left s)"
  using reads_readbyte [of s] by (simp add: reads_def)

lemma reads_less: "reads n r \<Longrightarrow> n \<le> n' \<Longrightarrow> reads n' r"
  by (auto simp: reads_def)

lemma reads_varint32_loop: "reads (bytes_left s) (varint32_loop s result bitpos)"
proof (induction s result bitpos rule: varint32_loop.induct)
  case (1 s result bitpos)
  obtain r s1 where r: "pb_readbyte s = (r, s1)" by force
  show ?case
  proof (cases r)
    case None
    then show ?thesis using readbyte_left [OF r] r by (simp add: varint32_loop.simps [of s])
  next
    case (Some b)
    have lt: "bytes_left s1 < bytes_left s" using readbyte_left [OF r] Some by simp
    have "reads (bytes_left s) (is_return_error s1 msg)" for msg using lt by (simp add: reads_def)
    then show ?thesis
      using 1 [OF r [symmetric] Some refl _ refl refl] r Some lt
      by (auto simp: varint32_loop.simps [of s] Let_def intro: reads_less)
  qed
qed

lemma varint32_eof_left:
  assumes "pb_decode_varint32_eof s = (r, s', eof)"
  shows "bytes_left s' \<le> bytes_left s \<and> (r \<noteq> None \<longrightarrow> bytes_left s' < bytes_left s)"
proof -
  obtain r1 s1 where r1: "pb_readbyte s = (r1, s1)" by force
  obtain r2 s2 where r2: "varint32_loop s1 (ucast (the r1 AND 0x7F)) 7 = (r2, s2)" by force
  show ?thesis
    using assms r1 r2 readbyte_left [OF r1] reads_varint32_loop [of s1 "ucast (the r1 AND 0x7F)" 7]
    by (auto simp: pb_decode_varint32_eof_def reads_def split: option.splits if_splits)
qed

lemma reads_varint32: "reads (bytes_left s) (pb_decode_varint32 s)"
  using varint32_eof_left [of s] by (cases "pb_decode_varint32_eof s") (auto simp: pb_decode_varint32_def reads_def)

lemma reads_varint_loop: "reads (bytes_left s) (varint_loop s result bitpos)"
proof (induction s result bitpos rule: varint_loop.induct)
  case (1 s result bitpos)
  obtain r s1 where r: "pb_readbyte s = (r, s1)" by force
  show ?case
  proof (cases "64 \<le> bitpos \<or> r = None")
    case True
    then show ?thesis using readbyte_left [OF r] r by (auto simp: varint_loop.simps [of s] reads_def)
  next
    case False
    then obtain b where b: "r = Some b" by auto
    have lt: "bytes_left s1 < bytes_left s" using readbyte_left [OF r] b by simp
    then show ?thesis
      using 1 [OF _ r [symmetric] b refl refl] r b False by (auto simp: varint_loop.simps [of s] Let_def intro: reads_less)
  qed
qed

lemma reads_varint: "reads (bytes_left s) (pb_decode_varint s)"
  by (simp add: pb_decode_varint_def reads_varint_loop)

lemma reads_map:
  assumes "reads n r"
  shows "reads n (case r of (None, s) \<Rightarrow> (None, s) | (Some v, s) \<Rightarrow> (Some (f v), s))"
  using assms by (cases r) (auto split: option.splits)

lemma reads_svarint: "reads (bytes_left s) (pb_decode_svarint s)"
  unfolding pb_decode_svarint_def by (rule reads_map [OF reads_varint])

lemma reads_fixed32: "reads (bytes_left s) (pb_decode_fixed32 s)"
  unfolding pb_decode_fixed32_def by (rule reads_map [OF reads_read]) simp

lemma reads_fixed64: "reads (bytes_left s) (pb_decode_fixed64 s)"
  unfolding pb_decode_fixed64_def by (rule reads_map [OF reads_read]) simp

lemma decode_tag_left:
  assumes "pb_decode_tag s = (r, s', eof)"
  shows "bytes_left s' \<le> bytes_left s \<and> (r \<noteq> None \<longrightarrow> bytes_left s' < bytes_left s)"
proof -
  obtain r1 s1 e1 where r1: "pb_decode_varint32_eof s = (r1, s1, e1)" using prod_cases3 by blast
  show ?thesis
    using assms varint32_eof_left [OF r1] r1 by (auto simp: pb_decode_tag_def split: option.splits if_splits)
qed

lemma skip_varint_left: "pb_skip_varint s = (r, s') \<Longrightarrow> bytes_left s' \<le> bytes_left s"
proof (induction s rule: pb_skip_varint.induct)
  case (1 s)
  obtain r1 s1 where r1: "pb_read s False 1 = (r1, s1)" by force
  show ?case
    using 1 r1 read_left [OF r1] by (force simp: pb_skip_varint.simps [of s] split: option.splits if_splits)
qed

lemma skip_field_left: "pb_skip_field s w = (r, s') \<Longrightarrow> bytes_left s' \<le> bytes_left s"
  using reads_varint32 [of s]
  by (fastforce simp: pb_skip_field_def pb_skip_string_def skip_bytes_def is_return_error_def reads_def
      dest: skip_varint_left read_left split: if_splits prod.splits option.splits)

lemma substream_left:
  assumes "pb_make_string_substream s = (r, s')"
  shows "bytes_left s' \<le> bytes_left s" and "r = Some sub \<Longrightarrow> bytes_left s' < bytes_left s \<and> bytes_left sub < bytes_left s"
  using assms reads_varint32 [of s]
  by (auto simp: pb_make_string_substream_def reads_def is_return_error_def split: option.splits prod.splits if_splits)

lemma close_left [simp]: "bytes_left (snd (pb_close_string_substream s sub)) = bytes_left s"
  by (simp add: pb_close_string_substream_def split: option.split prod.split)

section \<open>Writing only to a region\<close>

text \<open>
  A function that always returns, changes memory only in \<open>R\<close>, does not leave more of the stream than it
  got, and, if it succeeds, has read \<open>k\<close> bytes at least.
\<close>

definition safe :: "u64 set \<Rightarrow> nat \<Rightarrow> nat \<Rightarrow> memory \<Rightarrow> 's dresult \<Rightarrow> bool" where
  "safe R k n m r \<longleftrightarrow>
     (\<exists>ok s m'. r = Some (ok, s, m') \<and> bytes_left s \<le> n \<and> (ok \<longrightarrow> bytes_left s + k \<le> n) \<and> within R m m')"

definition safe_mem :: "u64 set \<Rightarrow> memory \<Rightarrow> memory option \<Rightarrow> bool" where
  "safe_mem R m r \<longleftrightarrow> (\<exists>m'. r = Some m' \<and> within R m m')"

lemma safe_simps [simp]:
  "safe R k n m (Some (False, s, m')) \<longleftrightarrow> bytes_left s \<le> n \<and> within R m m'"
  "safe R k n m (Some (True, s, m')) \<longleftrightarrow> bytes_left s + k \<le> n \<and> within R m m'"
proof -
  show "safe R k n m (Some (False, s, m')) \<longleftrightarrow> bytes_left s \<le> n \<and> within R m m'" unfolding safe_def by blast
  have "bytes_left s \<le> n" if "bytes_left s + k \<le> n" using that by simp
  then show "safe R k n m (Some (True, s, m')) \<longleftrightarrow> bytes_left s + k \<le> n \<and> within R m m'"
    unfolding safe_def by blast
qed

lemma safe_mem_simps [simp]: "safe_mem R m (Some m') \<longleftrightarrow> within R m m'"
  by (auto simp: safe_mem_def)

lemma safe_error [simp]: "safe R k n m (Some (dec_error s m' msg)) \<longleftrightarrow> bytes_left s \<le> n \<and> within R m m'"
  by (simp add: dec_error_def)

lemma safeE:
  assumes "safe R k n m r"
  obtains (ok) s m' where "r = Some (True, s, m')" "bytes_left s + k \<le> n" "within R m m'"
    | (failed) s m' where "r = Some (False, s, m')" "bytes_left s \<le> n" "within R m m'"
  using assms unfolding safe_def by (metis (full_types))

lemma safe_from: "safe R k n m r \<Longrightarrow> within R m0 m \<Longrightarrow> safe R k n m0 r"
  unfolding safe_def using within_trans by blast

lemma safe_mono: "safe R k n m r \<Longrightarrow> n \<le> n' \<Longrightarrow> k' \<le> k \<Longrightarrow> R \<subseteq> S \<Longrightarrow> safe S k' n' m r"
  by (elim safeE) (auto intro: within_mono)

lemma safe_mem_from: "safe_mem R m r \<Longrightarrow> within R m0 m \<Longrightarrow> safe_mem R m0 r"
  unfolding safe_mem_def using within_trans by blast

lemma within_store_fits: "region a n \<subseteq> R \<Longrightarrow> length bs \<le> n \<Longrightarrow> within R m (store m a bs)"
  using region_mono [of "length bs" n a] by (intro within_store) simp

lemma within_le_store_fits: "region a n \<subseteq> R \<Longrightarrow> k \<le> n \<Longrightarrow> within R m (le_store m a k v)"
  using region_mono [of k n a] by (intro within_le_store) simp

lemma length_read_buf: "pb_read_buf s n = (Some bs, s') \<Longrightarrow> length bs \<le> n"
  by (auto simp: pb_read_buf_def is_read_def buf_read_def is_return_error_def split: if_splits option.splits prod.splits is_source.splits)

lemma read_at_safe: "region a n \<subseteq> R \<Longrightarrow> safe R 0 (bytes_left s) m (Some (read_at s a n m))"
  using length_read_buf [of s n] read_left [of s False n]
  by (auto simp: read_at_def pb_read_def within_store_fits split: prod.splits option.splits if_splits)

text \<open>Scalars.\<close>

lemma reads_store:
  assumes "reads n r" and "\<And>v s. r = (Some v, s) \<Longrightarrow> within R m (f v)"
  shows "safe R 1 n m (Some (case r of (None, s) \<Rightarrow> (False, s, m) | (Some v, s) \<Rightarrow> (True, s, f v)))"
  using assms by (cases r) (auto split: option.splits simp: Suc_le_eq)

lemma dec_bool_safe: "region a n \<subseteq> R \<Longrightarrow> 1 \<le> n \<Longrightarrow> safe R 1 (bytes_left s) m (Some (dec_bool_at s a m))"
proof -
  assume R: "region a n \<subseteq> R" "1 \<le> n"
  have "reads (bytes_left s) (pb_dec_bool s)"
    using reads_varint32 [of s] by (auto simp: pb_dec_bool_def reads_def split: prod.split)
  then show ?thesis
    unfolding dec_bool_at_def by (rule reads_store) (rule within_store_fits [OF R(1)], use R(2) in simp)
qed

lemma dec_fixed32_safe: "region a n \<subseteq> R \<Longrightarrow> 4 \<le> n \<Longrightarrow> safe R 1 (bytes_left s) m (Some (pb_dec_fixed32 s a m))"
  unfolding pb_dec_fixed32_def by (rule reads_store [OF reads_fixed32]) (simp add: within_le_store_fits)

lemma dec_fixed64_safe: "region a n \<subseteq> R \<Longrightarrow> 8 \<le> n \<Longrightarrow> safe R 1 (bytes_left s) m (Some (pb_dec_fixed64 s a m))"
  unfolding pb_dec_fixed64_def by (rule reads_store [OF reads_fixed64]) (simp add: within_le_store_fits)

text \<open>The integer readers store at most \<open>data_size\<close> bytes.\<close>

definition int_reads :: "nat \<Rightarrow> (bool \<times> u64 option) \<times> 's pb_istream_t \<Rightarrow> bool" where
  "int_reads n r \<longleftrightarrow> bytes_left (snd r) \<le> n \<and> (fst (fst r) \<longrightarrow> bytes_left (snd r) < n)"

lemma int_reads_store: "bytes_left s < n \<Longrightarrow> int_reads n (store_int s c v)"
  by (auto simp: int_reads_def store_int_def split: option.split)

lemma int_reads_case:
  assumes "reads n r" and "\<And>v s. r = (Some v, s) \<Longrightarrow> int_reads n (f v s)"
  shows "int_reads n (case r of (None, s) \<Rightarrow> ((False, None), s) | (Some v, s) \<Rightarrow> f v s)"
  using assms by (cases r) (auto simp: int_reads_def split: option.splits)

lemma int_readers:
  "int_reads (bytes_left s) (pb_dec_varint s field)" "int_reads (bytes_left s) (pb_dec_uvarint s field)"
  "int_reads (bytes_left s) (pb_dec_svarint s field)"
proof -
  have left: "bytes_left s' < n" if "reads n r" "r = (Some v, s')" for r :: "u64 option \<times> 'a pb_istream_t" and v s' n
    using that by simp
  show "int_reads (bytes_left s) (pb_dec_varint s field)"
    unfolding pb_dec_varint_def Let_def by (intro int_reads_case reads_varint int_reads_store left [OF reads_varint])
  show "int_reads (bytes_left s) (pb_dec_uvarint s field)"
    unfolding pb_dec_uvarint_def Let_def by (intro int_reads_case reads_varint int_reads_store left [OF reads_varint])
  show "int_reads (bytes_left s) (pb_dec_svarint s field)"
    unfolding pb_dec_svarint_def Let_def by (intro int_reads_case reads_svarint int_reads_store left [OF reads_svarint])
qed

lemma dec_int_safe:
  "region a (unat (data_size field)) \<subseteq> R \<Longrightarrow> int_reads n r \<Longrightarrow> safe R 1 n m (Some (dec_int_at r field a m))"
  by (cases r) (auto simp: dec_int_at_def int_reads_def safe_def within_le_store split: prod.splits option.splits)

text \<open>Strings and bytes. The region of the size and of the contents are in the object.\<close>

lemma region_at: "region a n \<subseteq> R \<Longrightarrow> k + j \<le> n \<Longrightarrow> region (a + of_nat k) j \<subseteq> R"
  using region_sub [of k j n a] by blast

lemma dec_bytes_safe:
  assumes "region a (unat (data_size field)) \<subseteq> R" and "PB_ATYPE (field_type field) = PB_ATYPE_STATIC"
  shows "safe R 1 (bytes_left s) m (Some (pb_dec_bytes env s field a m))"
proof -
  obtain r s1 where r: "pb_decode_varint32 s = (r, s1)" by force
  have np: "PB_ATYPE_STATIC \<noteq> PB_ATYPE_POINTER" by code_simp
  show ?thesis
  proof (cases r)
    case None
    then show ?thesis using r reads_varint32 [of s] by (simp add: pb_dec_bytes_def)
  next
    case (Some sz)
    have lt: "bytes_left s1 < bytes_left s" using reads_varint32 [of s] r Some by simp
    let ?n = "unat sz"
    have al: "size_add ?n OFFSETOF_BYTES = ?n + 4"
      using unat_u32_less [of sz] by (simp add: size_add_def OFFSETOF_BYTES_def SIZE_MOD_def)
    show ?thesis
    proof (cases "?n + 4 \<le> unat (data_size field)")
      case True
      have "region (a + of_nat 4) ?n \<subseteq> R" "region a 4 \<subseteq> R"
        using region_at [OF assms(1), of 4 ?n] region_at [OF assms(1), of 0 4] True by (simp_all add: add.commute)
      then have "safe R 0 (bytes_left s1) m (Some (read_at s1 (a + of_nat OFFSETOF_BYTES) ?n (store_u32 m a sz)))"
        by (auto intro!: safe_from [OF read_at_safe] within_le_store simp: OFFSETOF_BYTES_def)
      then have "safe R 1 (bytes_left s) m (Some (read_at s1 (a + of_nat OFFSETOF_BYTES) ?n (store_u32 m a sz)))"
        using lt by (auto simp: safe_def)
      then show ?thesis using r Some lt True np assms(2) by (simp add: pb_dec_bytes_def Let_def al)
    next
      case False
      then show ?thesis using r Some lt np assms(2) by (simp add: pb_dec_bytes_def Let_def al)
    qed
  qed
qed

lemma dec_string_safe:
  assumes "region a (unat (data_size field)) \<subseteq> R" and "PB_ATYPE (field_type field) = PB_ATYPE_STATIC"
  shows "safe R 1 (bytes_left s) m (Some (pb_dec_string env s field a m))"
proof -
  obtain r s1 where r: "pb_decode_varint32 s = (r, s1)" by force
  have np: "PB_ATYPE_STATIC \<noteq> PB_ATYPE_POINTER" by code_simp
  show ?thesis
  proof (cases r)
    case None
    then show ?thesis using r reads_varint32 [of s] by (simp add: pb_dec_string_def)
  next
    case (Some sz)
    have lt: "bytes_left s1 < bytes_left s" using reads_varint32 [of s] r Some by simp
    let ?n = "unat sz"
    show ?thesis
    proof (cases "?n \<le> unat (sz + 1) \<and> unat (sz + 1) \<le> unat (data_size field)")
      case True
      have "sz + 1 \<noteq> 0"
      proof
        assume "sz + 1 = 0"
        then have "unat sz = 0" using True by simp
        then have "sz = 0" by (simp add: unat_0_iff)
        then show False using \<open>sz + 1 = 0\<close> by simp
      qed
      then have "unat (sz + 1) = ?n + 1" using unatSuc [of sz] by (simp add: add.commute)
      then have n: "?n + 1 \<le> unat (data_size field)" using True by simp
      have R: "region a ?n \<subseteq> R" "region (a + ucast sz) 1 \<subseteq> R"
        using region_at [OF assms(1), of 0 ?n] region_at [OF assms(1), of ?n 1] n by simp_all
      obtain ok s2 m2 where r2: "read_at s1 a ?n m = (ok, s2, m2)" using prod_cases3 by blast
      then have "bytes_left s2 \<le> bytes_left s1" "within R m m2"
        using read_at_safe [OF R(1), of s1 m] by (simp_all add: safe_def)
      moreover have "within R m2 (store m2 (a + ucast sz) [0])" using R(2) by (intro within_store) simp
      ultimately have "safe R 1 (bytes_left s) m (Some (ok, s2, store m2 (a + ucast sz) [0]))"
        using lt within_trans [of R m m2] unfolding safe_def by (auto simp del: store.simps)
      then show ?thesis using r Some True np assms(2) r2 by (auto simp: pb_dec_string_def Let_def)
    next
      case False
      then show ?thesis using r Some lt np assms(2) by (auto simp: pb_dec_string_def Let_def)
    qed
  qed
qed

lemma safe_less: "safe R 0 n m r \<Longrightarrow> n < n' \<Longrightarrow> safe R 1 n' m r"
  unfolding safe_def by fastforce

lemma dec_fixed_length_safe:
  assumes R: "region a (unat (data_size field)) \<subseteq> R"
  shows "safe R 1 (bytes_left s) m (Some (pb_dec_fixed_length_bytes s field a m))"
proof -
  obtain r s1 where r: "pb_decode_varint32 s = (r, s1)" by force
  show ?thesis
  proof (cases r)
    case None
    then show ?thesis using r reads_varint32 [of s] by (simp add: pb_dec_fixed_length_bytes_def)
  next
    case (Some sz)
    have lt: "bytes_left s1 < bytes_left s" using reads_varint32 [of s] r Some by simp
    show ?thesis
      using r Some lt safe_less [OF read_at_safe [OF R, of s1 m] lt] within_memset0 [OF R]
      by (simp add: pb_dec_fixed_length_bytes_def)
  qed
qed

lemma in_substream_safe:
  assumes "\<And>sub. safe R 0 (bytes_left sub) m (body sub)"
  shows "safe R 1 (bytes_left s) m (in_substream s m body)"
proof -
  obtain r s1 where r: "pb_make_string_substream s = (r, s1)" by force
  show ?thesis
  proof (cases r)
    case None
    then show ?thesis using substream_left(1) [OF r] r by (simp add: in_substream_def)
  next
    case (Some sub)
    have lt: "bytes_left s1 < bytes_left s" using substream_left(2) [OF r Some] by simp
    obtain ok sub2 m2 where b: "body sub = Some (ok, sub2, m2)" "within R m m2"
      using assms [of sub] by (auto simp: safe_def)
    obtain c s2 where c: "pb_close_string_substream s1 sub2 = (c, s2)" by force
    then have "bytes_left s2 < bytes_left s" using lt close_left [of s1 sub2] by simp
    then have "safe R 1 (bytes_left s) m (Some (ok', s2, m2))" for ok'
      using b(2) by (auto simp: safe_def)
    then show ?thesis using r Some b c \<open>bytes_left s2 < bytes_left s\<close> by (simp add: in_substream_def split: option.split)
  qed
qed

text \<open>\<open>sub\<close> decodes the messages below \<open>k\<close> safely.\<close>

definition subs_safe :: "u64 set \<Rightarrow> pb_field_t list list \<Rightarrow> nat list \<Rightarrow> nat \<Rightarrow> 's sub_decoder \<Rightarrow> bool" where
  "subs_safe R descs lens k sub \<longleftrightarrow>
     (\<forall>j < k. \<forall>init s a m. object a (lens ! j) \<longrightarrow> region a (lens ! j) \<subseteq> R \<longrightarrow>
        safe R 0 (bytes_left s) m (sub init s (descs ! j) a m))"

lemma submsg_desc:
  assumes "refers_below k f" and "value_fits lens f" and "PB_LTYPE (field_type f) = PB_LTYPE_SUBMESSAGE"
    and "length lens = length descs"
  obtains j where "j < k" "field_ptr f = Submsg_fields j" "submsg_fields descs f = Some (descs ! j)"
    "lens ! j \<le> unat (data_size f)"
  using assms by (auto simp: refers_below_def value_fits_def submsg_fields_def Let_def split: pb_field_ptr.splits)

lemma region_le: "region a n \<subseteq> R \<Longrightarrow> k \<le> n \<Longrightarrow> region a k \<subseteq> R"
  using region_mono by blast

lemma object_le: "object a n \<Longrightarrow> k \<le> n \<Longrightarrow> object a k"
  by (simp add: object_def)

lemma dec_submessage_safe:
  assumes f: "refers_below k f" "value_fits lens f" "PB_LTYPE (field_type f) = PB_LTYPE_SUBMESSAGE"
    and l: "length lens = length (de_descs env)" and sub: "subs_safe R (de_descs env) lens k sub"
    and R: "object a (unat (data_size f))" "region a (unat (data_size f)) \<subseteq> R"
  shows "safe R 1 (bytes_left s) m (pb_dec_submessage env sub s f a m)"
proof -
  obtain j where j: "j < k" "field_ptr f = Submsg_fields j" "submsg_fields (de_descs env) f = Some (de_descs env ! j)"
    "lens ! j \<le> unat (data_size f)" using submsg_desc [OF f l] .
  have "safe R 0 (bytes_left s) m (sub init s (de_descs env ! j) a m)" for init s m
    using sub j(1) object_le [OF R(1) j(4)] region_le [OF R(2) j(4)] by (simp add: subs_safe_def)
  then show ?thesis unfolding pb_dec_submessage_def using j by (simp add: in_substream_safe del: One_nat_def)
qed

lemma decoders_safe:
  assumes f: "PB_ATYPE (field_type f) = PB_ATYPE_STATIC" "refers_below k f" "value_fits lens f"
    and l: "length lens = length (de_descs env)" and sub: "subs_safe R (de_descs env) lens k sub"
    and R: "object a (unat (data_size f))" "region a (unat (data_size f)) \<subseteq> R"
  shows "safe R 1 (bytes_left s) m (PB_DECODERS env sub (PB_LTYPE (field_type f)) s f a m)"
proof -
  have e: "encodable (PB_LTYPE (field_type f))" using f(3) by (simp add: value_fits_def Let_def)
  have n: "PB_LTYPE (field_type f) = PB_LTYPE_BOOL \<Longrightarrow> 1 \<le> unat (data_size f)"
    "PB_LTYPE (field_type f) = PB_LTYPE_FIXED32 \<Longrightarrow> 4 \<le> unat (data_size f)"
    "PB_LTYPE (field_type f) = PB_LTYPE_FIXED64 \<Longrightarrow> 8 \<le> unat (data_size f)"
    using f(3) by (simp_all add: value_fits_def Let_def)
  have D: "PB_DECODERS env sub PB_LTYPE_BOOL s f a m = Some (dec_bool_at s a m)"
    "PB_DECODERS env sub PB_LTYPE_VARINT s f a m = Some (dec_int_at (pb_dec_varint s f) f a m)"
    "PB_DECODERS env sub PB_LTYPE_UVARINT s f a m = Some (dec_int_at (pb_dec_uvarint s f) f a m)"
    "PB_DECODERS env sub PB_LTYPE_SVARINT s f a m = Some (dec_int_at (pb_dec_svarint s f) f a m)"
    "PB_DECODERS env sub PB_LTYPE_FIXED32 s f a m = Some (pb_dec_fixed32 s a m)"
    "PB_DECODERS env sub PB_LTYPE_FIXED64 s f a m = Some (pb_dec_fixed64 s a m)"
    "PB_DECODERS env sub PB_LTYPE_BYTES s f a m = Some (pb_dec_bytes env s f a m)"
    "PB_DECODERS env sub PB_LTYPE_STRING s f a m = Some (pb_dec_string env s f a m)"
    "PB_DECODERS env sub PB_LTYPE_SUBMESSAGE s f a m = pb_dec_submessage env sub s f a m"
    "PB_DECODERS env sub PB_LTYPE_FIXED_LENGTH_BYTES s f a m = Some (pb_dec_fixed_length_bytes s f a m)"
    by (simp_all add: PB_DECODERS_def ltype_defs)
  show ?thesis
    using e
  proof (cases rule: encodable_cases)
    case 1 then show ?thesis using dec_bool_safe [OF R(2) n(1)] by (simp add: D)
  next
    case 2 then show ?thesis using dec_int_safe [OF R(2) int_readers(1)] by (simp add: D)
  next
    case 3 then show ?thesis using dec_int_safe [OF R(2) int_readers(2)] by (simp add: D)
  next
    case 4 then show ?thesis using dec_int_safe [OF R(2) int_readers(3)] by (simp add: D)
  next
    case 5 then show ?thesis using dec_fixed32_safe [OF R(2) n(2)] by (simp add: D)
  next
    case 6 then show ?thesis using dec_fixed64_safe [OF R(2) n(3)] by (simp add: D)
  next
    case 7 then show ?thesis using dec_bytes_safe [OF R(2) f(1)] by (simp add: D)
  next
    case 8 then show ?thesis using dec_string_safe [OF R(2) f(1)] by (simp add: D)
  next
    case 9 then show ?thesis using dec_submessage_safe [OF f(2,3) 9 l sub R] by (simp add: D)
  next
    case 10 then show ?thesis using dec_fixed_length_safe [OF R(2)] by (simp add: D)
  qed
qed

section \<open>Fields\<close>

lemma array_item_in:
  assumes "object data (extent f)" and "region data (extent f) \<subseteq> R" and "extent f < 2 ^ 32"
    and "PB_HTYPE (field_type f) = PB_HTYPE_REPEATED" and "count < array_size f"
  shows "object (array_item data f count) (unat (data_size f))" "region (array_item data f count) (unat (data_size f)) \<subseteq> R"
proof -
  let ?n = "unat (data_size f)" and ?c = "unat count"
  have c: "?c < unat (array_size f)" using assms(5) by (simp add: word_less_nat_alt)
  then have "?n * Suc ?c \<le> extent f" unfolding extent_def using assms(4) by (simp add: mult_le_mono2 del: mult_Suc_right)
  then have b: "?n * ?c + ?n \<le> extent f" by simp
  have "unat (data_size f * count) = ?n * ?c" using b assms(3) by (subst unat_mult_lem [THEN iffD1]) simp_all
  moreover have "ucast x = (of_nat (unat x) :: u64)" for x :: u32 by simp
  ultimately have a: "array_item data f count = data + of_nat (?n * ?c)" by (simp only: array_item_def)
  show "object (array_item data f count) ?n" unfolding a by (rule object_sub [OF assms(1) b])
  show "region (array_item data f count) ?n \<subseteq> R" unfolding a by (rule region_at [OF assms(2) b])
qed

lemma packed_loop_safe:
  assumes func: "\<And>s m c. c < array_size (it_field it) \<Longrightarrow>
      safe R 1 (bytes_left s) m (func s (array_item (pData it) (it_field it) c) m)"
    and R: "region (pSize it) 4 \<subseteq> R"
  shows "bytes_left s \<le> n \<Longrightarrow> safe R 0 (bytes_left s) m (static_packed_loop func it n s m)"
proof (induction n arbitrary: s m)
  case 0
  then show ?case by (simp add: static_packed_loop.simps [of _ _ 0])
next
  case (Suc n)
  let ?c = "load_u32 m (pSize it)"
  let ?r = "func s (array_item (pData it) (it_field it) ?c) m"
  show ?case
  proof (cases "0 < bytes_left s \<and> ?c < array_size (it_field it)")
    case False
    then show ?thesis by (auto simp: static_packed_loop.simps [of _ _ "Suc n"])
  next
    case True
    then have "safe R 1 (bytes_left s) m ?r" using func by simp
    then show ?thesis
    proof (cases rule: safeE)
      case (failed s' m')
      then show ?thesis using True by (simp add: static_packed_loop.simps [of _ _ "Suc n"])
    next
      case (ok s' m')
      let ?m = "store_u32 m' (pSize it) (load_u32 m' (pSize it) + 1)"
      have "safe R 0 (bytes_left s') ?m (static_packed_loop func it n s' ?m)" using Suc ok by simp
      moreover have "within R m ?m" by (rule within_trans [OF ok(3) within_le_store [OF R]])
      ultimately have "safe R 0 (bytes_left s') m (static_packed_loop func it n s' ?m)" by (rule safe_from)
      then have "safe R 0 (bytes_left s) m (static_packed_loop func it n s' ?m)" using ok(2) by (elim safe_mono) simp_all
      then show ?thesis using True ok(1) by (simp add: static_packed_loop.simps [of _ _ "Suc n"])
    qed
  qed
qed

section \<open>Default values and release\<close>

lemma mem_fields_at:
  assumes "fields_ok fs n" and step: "\<And>k m. k < n \<Longrightarrow> safe_mem R m (f (iter_at fs a k) m)"
  shows "k < n \<Longrightarrow> n - k \<le> fuel \<Longrightarrow> safe_mem R m (mem_fields f fuel (iter_at fs a k) m)"
proof (induction fuel arbitrary: k m)
  case (Suc fuel)
  obtain m' where m': "f (iter_at fs a k) m = Some m'" "within R m m'"
    using step [OF Suc.prems(1), of m] by (auto simp: safe_mem_def)
  show ?case
  proof (cases "Suc k < n")
    case True
    have "safe_mem R m (mem_fields f fuel (iter_at fs a (Suc k)) m')"
      by (rule safe_mem_from [OF Suc.IH [OF True] m'(2)]) (use Suc.prems(2) in simp)
    then show ?thesis using m' iter_next_inside [OF assms(1) True, of a] by simp
  next
    case False
    then have "Suc k = n" using Suc.prems(1) by simp
    then show ?thesis using m' iter_next_last [OF assms(1), of k a] by simp
  qed
qed simp

lemma mem_fields_safe:
  assumes "fields_ok fs n" and "\<And>k m. k < n \<Longrightarrow> safe_mem R m (f (iter_at fs a k) m)"
  shows "safe_mem R m (mem_fields f (length fs) (iter_at fs a 0) m)"
  by (rule mem_fields_at [OF assms(1)]) (use assms in \<open>simp_all add: fields_ok_def\<close>)

lemma static_descsD:
  "static_descs descs lens \<Longrightarrow> j < length descs \<Longrightarrow> message_fits lens j (descs ! j) (lens ! j)"
  "static_descs descs lens \<Longrightarrow> length lens = length descs"
  by (simp_all add: static_descs_def list_all_iff)

lemma message_fields_ok: "message_fits lens k fs len \<Longrightarrow> fields_ok fs (length fs - 1)"
  unfolding message_fits_def by (blast intro: message_okI)

lemma message_field_in:
  "message_fits lens k fs len \<Longrightarrow> object a len \<Longrightarrow> region a len \<subseteq> R \<Longrightarrow> p < length fs - 1 \<Longrightarrow> field_in R lens k (iter_at fs a p)"
  using field_in_iter_at by blast

lemma extent_single: "PB_HTYPE (field_type f) \<noteq> PB_HTYPE_REPEATED \<Longrightarrow> extent f = unat (data_size f)"
  by (simp add: extent_def)

lemma init_value_safe:
  assumes f: "refers_below k f" "value_fits lens f" and l: "length lens = length (de_descs env)"
    and R: "object a (unat (data_size f))" "region a (unat (data_size f)) \<subseteq> R"
    and sub: "\<And>j m. j < k \<Longrightarrow> object a (lens ! j) \<Longrightarrow> region a (lens ! j) \<subseteq> R \<Longrightarrow> safe_mem R m (defaults (de_descs env ! j) a m)"
  shows "safe_mem R m (init_value env defaults f a m)"
proof (cases "PB_LTYPE (field_type f) = PB_LTYPE_SUBMESSAGE")
  case True
  obtain j where j: "j < k" "submsg_fields (de_descs env) f = Some (de_descs env ! j)" "lens ! j \<le> unat (data_size f)"
    using submsg_desc [OF f True l] by metis
  then have "safe_mem R m (defaults (de_descs env ! j) a m)"
    using sub object_le [OF R(1)] region_le [OF R(2)] by simp
  then show ?thesis using True j by (simp add: init_value_def)
next
  case False
  then show ?thesis
    using f(2) within_memset0 [OF R(2)] within_store_fits [OF R(2)]
    by (auto simp: init_value_def value_fits_def Let_def split: pb_field_ptr.splits)
qed

lemma not_extension: "refers_below k f \<Longrightarrow> PB_LTYPE (field_type f) \<noteq> PB_LTYPE_EXTENSION"
  by (simp add: refers_below_def)

lemma set_to_default_safe:
  assumes st: "static_descs (de_descs env) lens"
  shows "field_in R lens k it \<Longrightarrow> k \<le> length (de_descs env) \<Longrightarrow> k < fuel \<Longrightarrow>
    safe_mem R m (pb_field_set_to_default env fuel it m)"
proof (induction fuel arbitrary: k it m)
  case (Suc fuel)
  let ?f = "it_field it" and ?defaults = "\<lambda>fs a m. set_defaults env fuel fs a m"
  have F: "PB_ATYPE (field_type ?f) = PB_ATYPE_STATIC" "refers_below k ?f" "value_fits lens ?f"
    "object (pData it) (extent ?f)" "region (pData it) (extent ?f) \<subseteq> R"
    "PB_HTYPE (field_type ?f) = PB_HTYPE_OPTIONAL \<and> pSize it \<noteq> pData it \<longrightarrow> region (pSize it) 1 \<subseteq> R"
    "PB_HTYPE (field_type ?f) \<noteq> PB_HTYPE_REQUIRED \<and> PB_HTYPE (field_type ?f) \<noteq> PB_HTYPE_OPTIONAL \<longrightarrow> region (pSize it) 4 \<subseteq> R"
    using Suc.prems(1) by (simp_all add: field_in_def Let_def)
  have sub: "safe_mem R m (?defaults (de_descs env ! j) a m)"
    if "j < k" "object a (lens ! j)" "region a (lens ! j) \<subseteq> R" for j a m
  proof -
    have fit: "message_fits lens j (de_descs env ! j) (lens ! j)" using static_descsD(1) [OF st] that(1) Suc.prems(2) by simp
    have ok: "fields_ok (de_descs env ! j) (length (de_descs env ! j) - 1)" by (rule message_fields_ok [OF fit])
    have "safe_mem R m (pb_field_set_to_default env fuel (iter_at (de_descs env ! j) a p) m)"
      if "p < length (de_descs env ! j) - 1" for p m
      using Suc.IH [OF message_field_in [OF fit _ _ that]] \<open>j < k\<close> Suc.prems(2,3) \<open>object a _\<close> \<open>region a _ \<subseteq> R\<close> by simp
    then show ?thesis by (simp add: pb_message_set_to_defaults_def iter_begin [OF ok] mem_fields_safe [OF ok])
  qed
  have init: "safe_mem R m (init_value env ?defaults ?f (pData it) m)" if "PB_HTYPE (field_type ?f) \<noteq> PB_HTYPE_REPEATED" for m
    using init_value_safe [OF F(2,3) static_descsD(2) [OF st], of "pData it" R ?defaults m] sub F(4,5) extent_single [OF that]
    by simp
  have flag: "safe_mem R m (init_value env ?defaults ?f (pData it) (store m (pSize it) [0]))"
    if "PB_HTYPE (field_type ?f) = PB_HTYPE_OPTIONAL" "pSize it \<noteq> pData it"
  proof -
    have "within R m (store m (pSize it) [0])" using F(6) that by (intro within_store) simp
    moreover have "PB_HTYPE (field_type ?f) \<noteq> PB_HTYPE_REPEATED" using that(1) by (simp add: type_codes)
    ultimately show ?thesis using safe_mem_from [OF init] by blast
  qed
  show ?case
    using init [of m] flag F(7) not_extension [OF F(2)]
    by (auto simp: Let_def F(1) type_codes intro!: within_le_store simp del: store.simps)
qed simp

lemma set_defaults_safe:
  assumes st: "static_descs (de_descs env) lens" and fit: "message_fits lens k fs len"
    and k: "k \<le> length (de_descs env)" "k < fuel" and R: "object a len" "region a len \<subseteq> R"
  shows "safe_mem R m (set_defaults env fuel fs a m)"
proof -
  have ok: "fields_ok fs (length fs - 1)" by (rule message_fields_ok [OF fit])
  have "safe_mem R m (pb_field_set_to_default env fuel (iter_at fs a p) m)" if "p < length fs - 1" for p m
    by (rule set_to_default_safe [OF st message_field_in [OF fit R that] k])
  then show ?thesis by (simp add: pb_message_set_to_defaults_def iter_begin [OF ok] mem_fields_safe [OF ok])
qed

text \<open>Releasing a message whose fields are all static changes nothing.\<close>

lemma safe_mem_same: "safe_mem {} m r \<longleftrightarrow> r = Some m"
  by (auto simp: safe_mem_def within_def)

lemma release_items_same: "(\<And>p m. f p m = Some m) \<Longrightarrow> release_items f sz n p m = Some m"
  by (induction n arbitrary: p) simp_all

definition static_field :: "nat list \<Rightarrow> nat \<Rightarrow> pb_field_t \<Rightarrow> bool" where
  "static_field lens k f \<longleftrightarrow> PB_ATYPE (field_type f) = PB_ATYPE_STATIC \<and> refers_below k f \<and> value_fits lens f"

lemma field_in_static: "field_in R lens k it \<Longrightarrow> static_field lens k (it_field it)"
  by (simp add: field_in_def static_field_def Let_def)

lemma message_static_field: "message_fits lens k fs len \<Longrightarrow> p < length fs - 1 \<Longrightarrow> static_field lens k (fs ! p)"
  by (auto simp: message_fits_def static_field_def list_all_iff field_fits_def Let_def intro: nestedD)

lemma release_same:
  assumes ok: "fields_ok fs n" and f: "\<And>p m. p < n \<Longrightarrow> f (iter_at fs a p) m = Some m"
  shows "pb_release f fs a m = Some m"
proof -
  have "mem_fields f (length fs) (iter_at fs a 0) m = Some m"
    using mem_fields_safe [OF ok, of "{}" f a m] f by (simp add: safe_mem_same)
  then show ?thesis by (simp add: pb_release_def iter_begin [OF ok])
qed

lemma release_field_same:
  assumes st: "static_descs (de_descs env) lens"
  shows "static_field lens k (it_field it) \<Longrightarrow> k \<le> length (de_descs env) \<Longrightarrow> k < fuel \<Longrightarrow>
    pb_release_single_field env fuel it m = Some m"
proof (induction fuel arbitrary: k it m)
  case (Suc fuel)
  let ?f = "it_field it" and ?rel = "\<lambda>fs p m. pb_release (\<lambda>i m. pb_release_single_field env fuel i m) fs p m"
  have F: "PB_ATYPE (field_type ?f) = PB_ATYPE_STATIC" "refers_below k ?f" "value_fits lens ?f"
    using Suc.prems(1) by (simp_all add: static_field_def)
  have np: "PB_ATYPE_STATIC \<noteq> PB_ATYPE_POINTER" "PB_ATYPE_STATIC \<noteq> PB_ATYPE_CALLBACK" by (simp_all add: type_codes)
  have sub: "?rel (de_descs env ! j) p m = Some m" if "j < k" for j p m
  proof -
    have fit: "message_fits lens j (de_descs env ! j) (lens ! j)" using static_descsD(1) [OF st] that Suc.prems(2) by simp
    show ?thesis
      by (rule release_same [OF message_fields_ok [OF fit]])
        (use Suc.IH message_static_field [OF fit] that Suc.prems(2,3) in force)
  qed
  show ?case
  proof (cases "PB_LTYPE (field_type ?f) = PB_LTYPE_SUBMESSAGE")
    case True
    obtain j where j: "j < k" "submsg_fields (de_descs env) ?f = Some (de_descs env ! j)"
      using submsg_desc [OF F(2,3) True static_descsD(2) [OF st]] by metis
    have "release_items (?rel (de_descs env ! j)) w n p m = Some m" for w n p
      using sub [OF j(1)] by (intro release_items_same) simp
    then show ?thesis using j np F(1) not_extension [OF F(2)] by (simp add: Let_def)
  next
    case False
    then show ?thesis using np F(1) not_extension [OF F(2)] by (simp add: Let_def)
  qed
qed simp

lemma release_message_same:
  assumes st: "static_descs (de_descs env) lens" and fit: "message_fits lens k fs len"
    and k: "k \<le> length (de_descs env)" "k < fuel"
  shows "release env fuel fs a m = Some m"
  by (rule release_same [OF message_fields_ok [OF fit]])
    (use release_field_same [OF st _ k] message_static_field [OF fit] in force)

section \<open>Decoding a field\<close>

lemma safe_and_le: "safe R 1 n m r \<Longrightarrow> safe R 0 n m r"
  by (elim safe_mono) simp_all

lemma static_field_safe:
  assumes st: "static_descs (de_descs env) lens" and k: "k \<le> length (de_descs env)" "k \<le> fuel"
    and sub: "subs_safe R (de_descs env) lens k sub" and it: "field_in R lens k it"
  shows "safe R 0 (bytes_left s) m (decode_static_field env fuel sub s w it m)"
proof -
  let ?f = "it_field it" and ?data = "pData it" and ?size = "pSize it"
  let ?func = "\<lambda>s a m. PB_DECODERS env sub (PB_LTYPE (field_type ?f)) s ?f a m"
  have F: "PB_ATYPE (field_type ?f) = PB_ATYPE_STATIC" "refers_below k ?f" "value_fits lens ?f" "extent ?f < 2 ^ 32"
    "object ?data (extent ?f)" "region ?data (extent ?f) \<subseteq> R"
    "PB_HTYPE (field_type ?f) = PB_HTYPE_OPTIONAL \<and> ?size \<noteq> ?data \<longrightarrow> region ?size 1 \<subseteq> R"
    "PB_HTYPE (field_type ?f) \<noteq> PB_HTYPE_REQUIRED \<and> PB_HTYPE (field_type ?f) \<noteq> PB_HTYPE_OPTIONAL \<longrightarrow> region ?size 4 \<subseteq> R"
    using it by (simp_all add: field_in_def Let_def)
  have l: "length lens = length (de_descs env)" by (rule static_descsD(2) [OF st])
  have func: "safe R 1 (bytes_left s) m (?func s a m)"
    if "object a (unat (data_size ?f))" "region a (unat (data_size ?f)) \<subseteq> R" for s a m
    by (rule decoders_safe [OF F(1,2,3) l sub that])
  have single: "safe R 0 (bytes_left s) m (?func s ?data m')"
    if "PB_HTYPE (field_type ?f) \<noteq> PB_HTYPE_REPEATED" "within R m m'" for m'
    using safe_from [OF safe_and_le [OF func] that(2), of ?data s] F(5,6) extent_single [OF that(1)] by simp
  note [simp] = type_codes
  consider (required) "PB_HTYPE (field_type ?f) = PB_HTYPE_REQUIRED" | (optional) "PB_HTYPE (field_type ?f) = PB_HTYPE_OPTIONAL"
    | (repeated) "PB_HTYPE (field_type ?f) = PB_HTYPE_REPEATED"
    | (oneof) "PB_HTYPE (field_type ?f) \<noteq> PB_HTYPE_REQUIRED" "PB_HTYPE (field_type ?f) \<noteq> PB_HTYPE_OPTIONAL"
        "PB_HTYPE (field_type ?f) \<noteq> PB_HTYPE_REPEATED" by blast
  then show ?thesis
  proof cases
    case required
    then show ?thesis using single [of m] by (simp add: decode_static_field_def Let_def)
  next
    case optional
    have "within R m (store m ?size [1])" if "?size \<noteq> ?data" using F(7) optional that by (intro within_store) simp
    then show ?thesis using optional single by (simp add: decode_static_field_def Let_def del: store.simps)
  next
    case repeated
    have R4: "region ?size 4 \<subseteq> R" using F(8) repeated by simp
    have item: "safe R 1 (bytes_left s) m (?func s (array_item ?data ?f c) m)" if "c < array_size ?f" for s m c
      by (rule func) (rule array_item_in [OF F(5,6,4) repeated that])+
    show ?thesis
    proof (cases "w = PB_WT_STRING \<and> PB_LTYPE (field_type ?f) \<le> PB_LTYPE_LAST_PACKABLE")
      case False
      let ?c = "load_u32 m ?size" and ?m = "store_u32 m ?size (load_u32 m ?size + 1)"
      have "within R m ?m" by (rule within_le_store [OF R4])
      then have "safe R 0 (bytes_left s) m (?func s (array_item ?data ?f ?c) ?m)" if "?c < array_size ?f"
        using safe_from [OF safe_and_le [OF item [OF that]]] by blast
      then show ?thesis using False repeated \<open>within R m ?m\<close>
        by (auto simp: decode_static_field_def Let_def not_le)
    next
      case True
      obtain r s1 where r: "pb_make_string_substream s = (r, s1)" by force
      show ?thesis
      proof (cases r)
        case None
        then show ?thesis using substream_left(1) [OF r] r True repeated by (simp add: decode_static_field_def Let_def)
      next
        case (Some ss)
        have lt: "bytes_left s1 < bytes_left s" using substream_left(2) [OF r Some] by simp
        have "safe R 0 (bytes_left ss) m (static_packed_loop ?func it (bytes_left ss) ss m)"
          by (rule packed_loop_safe, erule item, rule R4, rule order.refl)
        then obtain ok s2 m2 where p: "static_packed_loop ?func it (bytes_left ss) ss m = Some (ok, s2, m2)" "within R m m2"
          by (auto simp: safe_def)
        obtain c s3 where c: "pb_close_string_substream s1 s2 = (c, s3)" by force
        then have left: "bytes_left s3 < bytes_left s" using lt close_left [of s1 s2] by simp
        then have "safe R 0 (bytes_left s) m (Some (ok', s3, m2))" for ok' using p(2) by (auto simp: safe_def)
        then show ?thesis using r Some True repeated p c lt left
          by (simp add: decode_static_field_def Let_def split: option.split)
      qed
    qed
  next
    case oneof
    have R4: "region ?size 4 \<subseteq> R" using F(8) oneof by simp
    have R: "object ?data (unat (data_size ?f))" "region ?data (unat (data_size ?f)) \<subseteq> R"
      using F(5,6) extent_single [OF oneof(3)] by simp_all
    let ?init = "if PB_LTYPE (field_type ?f) = PB_LTYPE_SUBMESSAGE \<and> load_u32 m ?size \<noteq> field_tag ?f
       then (case submsg_fields (de_descs env) ?f of
               None \<Rightarrow> None
             | Some fs \<Rightarrow> set_defaults env fuel fs ?data (memset0 m ?data (unat (data_size ?f))))
       else Some m"
    have "safe_mem R m ?init"
    proof (cases "PB_LTYPE (field_type ?f) = PB_LTYPE_SUBMESSAGE \<and> load_u32 m ?size \<noteq> field_tag ?f")
      case True
      obtain j where j: "j < k" "submsg_fields (de_descs env) ?f = Some (de_descs env ! j)" "lens ! j \<le> unat (data_size ?f)"
        using submsg_desc [OF F(2,3) _ l] True by metis
      have jk: "j < length (de_descs env)" "j \<le> length (de_descs env)" "j < fuel" using j(1) k by simp_all
      let ?m = "memset0 m ?data (unat (data_size ?f))"
      have "safe_mem R ?m (set_defaults env fuel (de_descs env ! j) ?data ?m)"
        by (rule set_defaults_safe [OF st static_descsD(1) [OF st jk(1)] jk(2,3) object_le [OF R(1) j(3)] region_le [OF R(2) j(3)]])
      from safe_mem_from [OF this within_memset0 [OF R(2)]] show ?thesis using True j(2) by simp
    next
      case False
      then show ?thesis by (simp only: if_False safe_mem_simps within_refl)
    qed
    then obtain m1 where m1: "?init = Some m1" "within R m m1" by (auto simp: safe_mem_def)
    have "within R m (store_u32 m1 ?size (field_tag ?f))"
      by (rule within_trans [OF m1(2) within_le_store [OF R4]])
    from single [OF oneof(3) this] show ?thesis
      using oneof m1(1) by (simp add: decode_static_field_def Let_def)
  qed
qed

end
