(* ===== verification/Pb_Msg_Run.thy ===== *)
theory Pb_Msg_Run
  imports Pb_Msg_Safe
begin

text \<open>
  The decoder of messages returns and writes only to the message: the loop over the fields of a stream,
  and \<open>pb_decode\<close> as a whole.
\<close>

section \<open>Where the iterator is\<close>

text \<open>
  In the loop the iterator is at a field; its size member is the one of the structure, or, at a field
  that repeats, the local variable at \<open>frame\<close>.
\<close>

definition iter_in :: "pb_field_t list \<Rightarrow> u64 \<Rightarrow> u64 \<Rightarrow> pb_field_iter_t \<Rightarrow> bool" where
  "iter_in fs dest frame it \<longleftrightarrow>
     (\<exists>p < length fs - 1. it = iter_at fs dest p \<or>
        (PB_HTYPE (field_type (fs ! p)) = PB_HTYPE_REPEATED \<and> it = (iter_at fs dest p)\<lparr>pSize := frame\<rparr>))"

lemma iter_in_at: "p < length fs - 1 \<Longrightarrow> iter_in fs dest frame (iter_at fs dest p)"
  by (auto simp: iter_in_def)

lemma iter_in_field:
  assumes "iter_in fs dest frame it" and "message_fits lens k fs len" and "object dest len" and "region dest len \<subseteq> R"
    and "region frame 4 \<subseteq> R"
  shows "field_in R lens k it"
proof -
  obtain p where p: "p < length fs - 1" and it: "it = iter_at fs dest p \<or>
      (PB_HTYPE (field_type (fs ! p)) = PB_HTYPE_REPEATED \<and> it = (iter_at fs dest p)\<lparr>pSize := frame\<rparr>)"
    using assms(1) by (auto simp: iter_in_def)
  have "field_in R lens k (iter_at fs dest p)" by (rule message_field_in [OF assms(2-4) p])
  then show ?thesis using it assms(5) by (auto simp: field_in_def Let_def type_codes)
qed

lemma next_resized:
  assumes "PB_HTYPE (field_type (it_field it)) \<noteq> PB_HTYPE_ONEOF" and "field_tag (it_field it) \<noteq> 0"
  shows "pb_field_iter_next (it\<lparr>pSize := x\<rparr>) = pb_field_iter_next it"
  using assms by (simp add: pb_field_iter_next_def Let_def)

lemma find_at:
  assumes "fields_ok fs n" and "p < n"
  shows "\<exists>found q. pb_field_iter_find (iter_at fs dest p) tag = Some (found, iter_at fs dest q) \<and> q < n"
proof (cases "filter (\<lambda>k. matches tag (fs ! k)) ([p..<n] @ [0..<p])")
  case Nil
  then show ?thesis using find_exact [OF assms, of dest tag] assms(2) by auto
next
  case (Cons q qs)
  then have "q \<in> set (filter (\<lambda>k. matches tag (fs ! k)) ([p..<n] @ [0..<p]))" by simp
  then have "q < n" using assms(2) by auto
  moreover have "pb_field_iter_find (iter_at fs dest p) tag = Some (True, iter_at fs dest q)"
    using find_exact [OF assms, of dest tag] Cons by simp
  ultimately show ?thesis by blast
qed

lemma find_resized:
  assumes ok: "fields_ok fs n" and p: "p < n" and h: "PB_HTYPE (field_type (fs ! p)) = PB_HTYPE_REPEATED"
  shows "pb_field_iter_find ((iter_at fs dest p)\<lparr>pSize := x\<rparr>) tag =
    (if matches tag (fs ! p) then Some (True, (iter_at fs dest p)\<lparr>pSize := x\<rparr>) else pb_field_iter_find (iter_at fs dest p) tag)"
proof -
  obtain f where f: "length fs = Suc f" using ok by (cases "length fs") (auto simp: fields_ok_def)
  have nx: "pb_field_iter_next ((iter_at fs dest p)\<lparr>pSize := x\<rparr>) = pb_field_iter_next (iter_at fs dest p)"
    by (rule next_resized) (use h fields_okD [OF ok p] in \<open>simp_all add: type_codes\<close>)
  show ?thesis by (auto simp: pb_field_iter_find_def f nx matches_def Let_def)
qed

lemma iter_in_find:
  assumes ok: "fields_ok fs (length fs - 1)" and "iter_in fs dest frame it"
  shows "\<exists>found it'. pb_field_iter_find it tag = Some (found, it') \<and> iter_in fs dest frame it'"
proof -
  obtain p where p: "p < length fs - 1" and it: "it = iter_at fs dest p \<or>
      (PB_HTYPE (field_type (fs ! p)) = PB_HTYPE_REPEATED \<and> it = (iter_at fs dest p)\<lparr>pSize := frame\<rparr>)"
    using assms(2) by (auto simp: iter_in_def)
  obtain found q where q: "pb_field_iter_find (iter_at fs dest p) tag = Some (found, iter_at fs dest q)" "q < length fs - 1"
    using find_at [OF ok p] by blast
  from it show ?thesis
  proof
    assume "it = iter_at fs dest p"
    then show ?thesis using q iter_in_at by blast
  next
    assume r: "PB_HTYPE (field_type (fs ! p)) = PB_HTYPE_REPEATED \<and> it = (iter_at fs dest p)\<lparr>pSize := frame\<rparr>"
    then have "iter_in fs dest frame it" using assms(2) by simp
    then show ?thesis using r q iter_in_at find_resized [OF ok p, where x = frame and dest = dest and tag = tag]
      by (cases "matches tag (fs ! p)") auto
  qed
qed

text \<open>There are no extension fields; the search for one comes back to where it began.\<close>

lemma next_in:
  assumes ok: "fields_ok fs n" and p: "p < n"
    and it: "it = iter_at fs dest p \<or> (PB_HTYPE (field_type (fs ! p)) = PB_HTYPE_REPEATED \<and> it = (iter_at fs dest p)\<lparr>pSize := frame\<rparr>)"
  shows "pb_field_iter_next it = (Suc p < n, iter_at fs dest (Suc p mod n))"
proof -
  have "pb_field_iter_next ((iter_at fs dest p)\<lparr>pSize := frame\<rparr>) = pb_field_iter_next (iter_at fs dest p)"
    if "PB_HTYPE (field_type (fs ! p)) = PB_HTYPE_REPEATED"
    by (rule next_resized) (use that fields_okD [OF ok p] in \<open>simp_all add: type_codes\<close>)
  then show ?thesis using it iter_next [OF ok p] by auto
qed

lemma iter_in_next:
  assumes "fields_ok fs (length fs - 1)" and "iter_in fs dest frame it"
  shows "\<exists>p < length fs - 1. it_start it = fs \<and> it_pos it = p \<and>
    pb_field_iter_next it = (Suc p < length fs - 1, iter_at fs dest (Suc p mod (length fs - 1)))"
proof -
  obtain p where p: "p < length fs - 1" and it: "it = iter_at fs dest p \<or>
      (PB_HTYPE (field_type (fs ! p)) = PB_HTYPE_REPEATED \<and> it = (iter_at fs dest p)\<lparr>pSize := frame\<rparr>)"
    using assms(2) by (auto simp: iter_in_def)
  then have "it_start it = fs \<and> it_pos it = p" by auto
  then show ?thesis using p next_in [OF assms(1) p it] by blast
qed

lemma find_extension_loop_at:
  assumes ok: "fields_ok fs n" and p: "p < n"
    and ne: "\<And>q. q < n \<Longrightarrow> PB_LTYPE (field_type (fs ! q)) \<noteq> PB_LTYPE_EXTENSION"
  shows "i < n \<Longrightarrow> n - i \<le> fuel \<Longrightarrow> find_extension_loop fuel (iter_at fs dest ((p + i) mod n)) p = Some (False, iter_at fs dest p)"
proof (induction fuel arbitrary: i)
  case (Suc fuel)
  let ?k = "(p + i) mod n"
  have k: "?k < n" using p by simp
  have nx: "snd (pb_field_iter_next (iter_at fs dest ?k)) = iter_at fs dest ((p + Suc i) mod n)"
    by (simp add: iter_next [OF ok k] mod_Suc_eq)
  show ?case
  proof (cases "(p + Suc i) mod n = p")
    case True
    then show ?thesis using ne [OF k] nx by (simp add: Let_def)
  next
    case False
    then have "Suc i \<noteq> n" using p by (metis mod_add_self2 mod_less)
    then show ?thesis using Suc.IH [of "Suc i"] Suc.prems False ne [OF k] nx by (simp add: Let_def)
  qed
qed simp

lemma find_extension_exact:
  assumes fit: "message_fits lens k fs len" and it: "iter_in fs dest frame it"
  shows "it_pos it < length fs - 1 \<and> find_extension_field it = Some (False, iter_at fs dest (it_pos it))"
proof -
  let ?n = "length fs - 1"
  have ok: "fields_ok fs ?n" by (rule message_fields_ok [OF fit])
  have ne: "PB_LTYPE (field_type (fs ! q)) \<noteq> PB_LTYPE_EXTENSION" if "q < ?n" for q
    using message_static_field [OF fit that] by (auto simp: static_field_def dest: not_extension)
  obtain p where p: "p < ?n" "it_start it = fs" "it_pos it = p"
    and nx: "pb_field_iter_next it = (Suc p < ?n, iter_at fs dest (Suc p mod ?n))"
    using iter_in_next [OF ok it] by blast
  obtain f where f: "length fs = Suc f" using p(1) by (cases "length fs") auto
  have "find_extension_field it = Some (False, iter_at fs dest p)"
  proof (cases "Suc p mod ?n = p")
    case True
    then show ?thesis using p nx ne [OF p(1)] f by (simp add: find_extension_field_def Let_def)
  next
    case False
    then have "1 < ?n" using p(1) by (cases "?n = 1") auto
    then show ?thesis using p nx ne [OF p(1)] f False find_extension_loop_at [OF ok p(1) ne, of 1 f dest]
      by (simp add: find_extension_field_def Let_def)
  qed
  then show ?thesis using p by simp
qed

lemma find_extension_none:
  assumes "message_fits lens k fs len" and "iter_in fs dest frame it"
  shows "\<exists>it'. find_extension_field it = Some (False, it') \<and> iter_in fs dest frame it'"
  using find_extension_exact [OF assms] iter_in_at by blast

text \<open>A search that finds nothing leaves the iterator where it was, with the size member of the structure.\<close>

lemma not_found_at:
  assumes ok: "fields_ok fs (length fs - 1)" and it: "iter_in fs dest frame it" and f: "pb_field_iter_find it tag = Some (False, it')"
  shows "\<exists>p < length fs - 1. it' = iter_at fs dest p \<and> it_pos it = p"
proof -
  obtain p where p: "p < length fs - 1" and i: "it = iter_at fs dest p \<or>
      (PB_HTYPE (field_type (fs ! p)) = PB_HTYPE_REPEATED \<and> it = (iter_at fs dest p)\<lparr>pSize := frame\<rparr>)"
    using it by (auto simp: iter_in_def)
  have "it' = iter_at fs dest p" if "pb_field_iter_find (iter_at fs dest p) tag = Some (False, it')"
    using that find_exact [OF ok p, of dest tag] by (auto split: list.splits)
  then show ?thesis
    using i p f find_resized [OF ok p, where x = frame and dest = dest and tag = tag] by (auto split: if_splits)
qed

lemma last_field_at:
  assumes ok: "fields_ok fs n"
  shows "p < n \<Longrightarrow> n - p \<le> fuel \<Longrightarrow> last_field_loop fuel (iter_at fs dest p) \<noteq> None"
proof (induction fuel arbitrary: p)
  case (Suc fuel)
  show ?case
  proof (cases "Suc p < n")
    case True
    then show ?thesis using Suc.IH [OF True] Suc.prems(2) iter_next_inside [OF ok True, of dest] by simp
  next
    case False
    then have "Suc p = n" using Suc.prems(1) by simp
    then show ?thesis using iter_next_last [OF ok, of p dest] by simp
  qed
qed simp

lemma req_field_count_returns:
  assumes ok: "fields_ok fs (length fs - 1)" and it: "iter_in fs dest frame it"
  shows "req_field_count it \<noteq> None"
proof -
  obtain p where p: "p < length fs - 1" "it_start it = fs"
    and nx: "pb_field_iter_next it = (Suc p < length fs - 1, iter_at fs dest (Suc p mod (length fs - 1)))"
    using iter_in_next [OF ok it] by blast
  obtain f where f: "length fs = Suc f" using p(1) by (cases "length fs") auto
  have "last_field_loop (Suc f) it \<noteq> None"
  proof (cases "Suc p < length fs - 1")
    case True
    then show ?thesis using nx last_field_at [OF ok True, of f dest] f by simp
  next
    case False
    then show ?thesis using nx by simp
  qed
  then show ?thesis using p(2) f by (simp add: req_field_count_def)
qed

section \<open>Decoding a field\<close>

lemma iter_in_static:
  assumes "iter_in fs dest frame it" and "message_fits lens k fs len"
  shows "static_field lens k (it_field it)"
  using assms message_static_field [OF assms(2)] by (auto simp: iter_in_def)

lemma release_union_safe:
  assumes st: "static_descs (de_descs env) lens" and fit: "message_fits lens k fs len"
    and k: "k \<le> length (de_descs env)" "k < fuel" and it: "iter_in fs dest frame it"
  shows "\<exists>ok s' it'. pb_release_union_field env fuel s it m = Some (ok, s', it', m) \<and> bytes_left s' = bytes_left s \<and>
    iter_in fs dest frame it'"
proof -
  have fok: "fields_ok fs (length fs - 1)" by (rule message_fields_ok [OF fit])
  have np: "PB_ATYPE (field_type (it_field i)) \<noteq> PB_ATYPE_POINTER" if "iter_in fs dest frame i" for i
    using iter_in_static [OF that fit] by (simp add: static_field_def type_codes)
  obtain b1 it1 where f1: "pb_field_iter_find it (load_u32 m (pSize it)) = Some (b1, it1)" "iter_in fs dest frame it1"
    using iter_in_find [OF fok it] by blast
  obtain b2 it2 where f2: "pb_field_iter_find it1 (field_tag (it_field it)) = Some (b2, it2)" "iter_in fs dest frame it2"
    using iter_in_find [OF fok f1(2)] by blast
  have rel: "pb_release_single_field env fuel it1 m = Some m"
    by (rule release_field_same [OF st iter_in_static [OF f1(2) fit] k])
  show ?thesis
    using f1 f2 rel np [OF f2(2)] it
    by (cases b1; cases b2) (auto simp: pb_release_union_field_def Let_def)
qed

lemma decode_field_safe:
  assumes st: "static_descs (de_descs env) lens" and fit: "message_fits lens k fs len"
    and k: "k \<le> length (de_descs env)" "k < fuel" and sub: "subs_safe R (de_descs env) lens k sub"
    and R: "object dest len" "region dest len \<subseteq> R" "region frame 4 \<subseteq> R" and it: "iter_in fs dest frame it"
  shows "\<exists>ok s' it' m'. decode_field env fuel sub s w it m = Some (ok, s', it', m') \<and> bytes_left s' \<le> bytes_left s \<and>
    iter_in fs dest frame it' \<and> within R m m'"
proof -
  let ?r = "if PB_HTYPE (field_type (it_field it)) = PB_HTYPE_ONEOF
     then pb_release_union_field env fuel s it m else Some (True, s, it, m)"
  obtain ok s1 it1 where u: "?r = Some (ok, s1, it1, m)" "bytes_left s1 = bytes_left s" "iter_in fs dest frame it1"
    using release_union_safe [OF st fit k it, of s m] it by (cases "PB_HTYPE (field_type (it_field it)) = PB_HTYPE_ONEOF") auto
  have a: "PB_ATYPE (field_type (it_field it1)) = PB_ATYPE_STATIC"
    using iter_in_static [OF u(3) fit] by (simp add: static_field_def)
  have "safe R 0 (bytes_left s1) m (decode_static_field env fuel sub s1 w it1 m)"
    by (rule static_field_safe [OF st k(1) _ sub iter_in_field [OF u(3) fit R]]) (use k(2) in simp)
  then obtain ok2 s2 m2 where "decode_static_field env fuel sub s1 w it1 m = Some (ok2, s2, m2)"
    "bytes_left s2 \<le> bytes_left s" "within R m m2"
    using u(2) by (auto simp: safe_def)
  then show ?thesis using u a unfolding decode_field_def u(1) by (cases ok) (auto simp: Let_def)
qed

section \<open>The loop\<close>

lemma tag_small:
  assumes "pb_decode_tag s = (Some (w, tag), s', eof)"
  shows "tag < - 1"
proof -
  obtain t where t: "tag = drop_bit 3 t"
    using assms by (auto simp: pb_decode_tag_def split: prod.splits option.splits if_splits)
  have "unat (drop_bit 3 t) = unat t div 8" unfolding unat_drop_bit_eq by (simp add: drop_bit_eq_div)
  then have "unat (drop_bit 3 t) < 2 ^ 29" using unat_u32_less [of t] by (simp del: drop_bit_eq_div)
  moreover have "unat (- 1 :: u32) = 2 ^ 32 - 1" by (simp add: unsigned_minus_1_eq_mask mask_eq_exp_minus_1)
  ultimately show ?thesis unfolding t word_less_nat_alt by simp
qed

lemma try_extension_none:
  assumes fit: "message_fits lens k fs len" and l: "iter_in fs dest frame (dl_iter l)" and tag: "tag < - 1"
  shows "\<exists>l'. try_extension env fuel sub s tag w l m = Some (True, False, s, l', m) \<and> iter_in fs dest frame (dl_iter l')"
proof -
  obtain it' where "find_extension_field (dl_iter l) = Some (False, it')" "iter_in fs dest frame it'"
    using find_extension_none [OF fit l] by blast
  then show ?thesis using l tag by (auto simp: try_extension_def Let_def)
qed

lemma enter_fixed_count_in:
  assumes l: "iter_in fs dest frame (dl_iter l)" and e: "enter_fixed_count frame l m = Some (l', m')"
    and R: "region frame 4 \<subseteq> R"
  shows "iter_in fs dest frame (dl_iter l') \<and> within R m m'"
proof -
  have "iter_in fs dest frame ((dl_iter l)\<lparr>pSize := frame\<rparr>)"
    if "PB_HTYPE (field_type (it_field (dl_iter l))) = PB_HTYPE_REPEATED"
    using l that by (auto simp: iter_in_def)
  then show ?thesis
    using e l within_le_store [OF R] by (auto simp: enter_fixed_count_def Let_def split: if_splits)
qed

definition loop_safe ::
  "u64 set \<Rightarrow> pb_field_t list \<Rightarrow> u64 \<Rightarrow> u64 \<Rightarrow> nat \<Rightarrow> memory \<Rightarrow> (bool \<times> 's pb_istream_t \<times> decode_locals \<times> memory) option \<Rightarrow> bool" where
  "loop_safe R fs dest frame n m r \<longleftrightarrow>
     (\<exists>ok s l m'. r = Some (ok, s, l, m') \<and> bytes_left s \<le> n \<and> iter_in fs dest frame (dl_iter l) \<and> within R m m')"

lemma loop_safe_Some [simp]:
  "loop_safe R fs dest frame n m (Some (ok, s, l, m')) \<longleftrightarrow>
     bytes_left s \<le> n \<and> iter_in fs dest frame (dl_iter l) \<and> within R m m'"
  by (simp add: loop_safe_def)

lemma loop_safe_from:
  "loop_safe R fs dest frame n m1 r \<Longrightarrow> n \<le> n' \<Longrightarrow> within R m m1 \<Longrightarrow> loop_safe R fs dest frame n' m r"
proof -
  assume r: "loop_safe R fs dest frame n m1 r" and le: "n \<le> n'" and w: "within R m m1"
  obtain ok s l m' where *: "r = Some (ok, s, l, m')" "bytes_left s \<le> n" "iter_in fs dest frame (dl_iter l)" "within R m1 m'"
    using r unfolding loop_safe_def by blast
  then show ?thesis using le within_trans [OF w] by simp
qed

lemma decode_loop_safe:
  assumes st: "static_descs (de_descs env) lens" and fit: "message_fits lens k fs len"
    and k: "k \<le> length (de_descs env)" "k < fuel" and sub: "subs_safe R (de_descs env) lens k sub"
    and R: "object dest len" "region dest len \<subseteq> R" "region frame 4 \<subseteq> R"
  shows "iter_in fs dest frame (dl_iter l) \<Longrightarrow> bytes_left s \<le> n \<Longrightarrow>
    loop_safe R fs dest frame (bytes_left s) m (decode_loop env fuel sub frame n s l m)"
proof (induction n arbitrary: s l m)
  case 0
  then show ?case by (simp add: decode_loop.simps [of _ _ _ _ 0])
next
  case (Suc n)
  note unfold = decode_loop.simps [of env fuel sub frame "Suc n" s l m]
  have fok: "fields_ok fs (length fs - 1)" by (rule message_fields_ok [OF fit])
  obtain r s1 eof where t: "pb_decode_tag s = (r, s1, eof)" using prod_cases3 by blast
  note left = decode_tag_left [OF t]
  show ?case
  proof (cases "bytes_left s = 0 \<or> r = None")
    case True
    then show ?thesis using Suc.prems left t by (auto simp: unfold)
  next
    case False
    then obtain w tag where r: "r = Some (w, tag)" by auto
    have lt: "bytes_left s1 < bytes_left s" using left r by simp
    obtain found it where f: "pb_field_iter_find (dl_iter l) tag = Some (found, it)" "iter_in fs dest frame it"
      using iter_in_find [OF fok Suc.prems(1)] by blast
    show ?thesis
    proof (cases found)
      case True
      have e: "iter_in fs dest frame (dl_iter (l\<lparr>dl_iter := it\<rparr>))" using f(2) by simp
      show ?thesis
      proof (cases "enter_fixed_count frame (l\<lparr>dl_iter := it\<rparr>) m")
        case None
        then show ?thesis using False r t f True Suc.prems(1) lt by (simp add: unfold dec_error_def)
      next
        case (Some p)
        obtain l1 m1 where p: "p = (l1, m1)" by force
        have l1: "iter_in fs dest frame (dl_iter l1)" "within R m m1"
          using enter_fixed_count_in [OF e Some [unfolded p] R(3)] by simp_all
        have n1: "dl_iter (note_required l1) = dl_iter l1" by (simp add: note_required_def Let_def)
        obtain ok s2 it2 m2 where d: "decode_field env fuel sub s1 w (dl_iter l1) m1 = Some (ok, s2, it2, m2)"
          "bytes_left s2 \<le> bytes_left s1" "iter_in fs dest frame it2" "within R m1 m2"
          using decode_field_safe [OF st fit k sub R l1(1)] by blast
        have m2: "within R m m2" by (rule within_trans [OF l1(2) d(4)])
        let ?l = "(note_required l1)\<lparr>dl_iter := it2\<rparr>"
        have "loop_safe R fs dest frame (bytes_left s2) m2 (decode_loop env fuel sub frame n s2 ?l m2)"
          by (rule Suc.IH) (use d lt Suc.prems(2) in simp_all)
        then have "loop_safe R fs dest frame (bytes_left s) m (decode_loop env fuel sub frame n s2 ?l m2)"
          by (rule loop_safe_from) (use d(2) lt m2 in simp_all)
        then show ?thesis using False r t f True Some p n1 d lt m2
          by (cases ok) (simp_all add: unfold Let_def)
      qed
    next
      case nf: False
      have e: "iter_in fs dest frame (dl_iter (l\<lparr>dl_iter := it\<rparr>))" using f(2) by simp
      obtain l1 where x: "try_extension env fuel sub s1 tag w (l\<lparr>dl_iter := it\<rparr>) m = Some (True, False, s1, l1, m)"
        "iter_in fs dest frame (dl_iter l1)"
        using try_extension_none [OF fit e tag_small [OF t [unfolded r]]] by blast
      obtain sk s2 where sk: "pb_skip_field s1 w = (sk, s2)" by force
      have s2: "bytes_left s2 < bytes_left s" using skip_field_left [OF sk] lt by simp
      have "loop_safe R fs dest frame (bytes_left s2) m (decode_loop env fuel sub frame n s2 l1 m)"
        by (rule Suc.IH) (use x s2 Suc.prems(2) in simp_all)
      then have "loop_safe R fs dest frame (bytes_left s) m (decode_loop env fuel sub frame n s2 l1 m)"
        by (rule loop_safe_from) (use s2 in simp_all)
      then show ?thesis using False r t f nf x sk s2 by (cases sk) (simp_all add: unfold)
    qed
  qed
qed

text \<open>More fuel for the loop does not change its result.\<close>

lemma decode_loop_more:
  "decode_loop env fuel sub frame n s l m = Some r \<Longrightarrow> n \<le> n' \<Longrightarrow> decode_loop env fuel sub frame n' s l m = Some r"
proof (induction n arbitrary: n' s l m)
  case 0
  then show ?case
    by (auto simp: decode_loop.simps [of _ _ _ _ 0] decode_loop.simps [of env fuel sub frame n' s l m] split: if_splits)
next
  case (Suc n)
  obtain j where j: "n' = Suc j" "n \<le> j" using Suc.prems(2) by (cases n') auto
  have IH: "decode_loop env fuel sub frame n s l m = Some r \<Longrightarrow> decode_loop env fuel sub frame j s l m = Some r" for s l m
    using Suc.IH j(2) by blast
  note u = decode_loop.simps [of env fuel sub frame "Suc n" s l m, simplified]
    and v = decode_loop.simps [of env fuel sub frame "Suc j" s l m, simplified]
  show ?case
  proof (cases "bytes_left s = 0")
    case True
    then show ?thesis using Suc.prems(1) by (simp add: u v j(1))
  next
    case False
    obtain t s1 eof where t: "pb_decode_tag s = (t, s1, eof)" using prod_cases3 by blast
    show ?thesis
    proof (cases t)
      case None
      then show ?thesis using Suc.prems(1) False t by (simp add: u v j(1))
    next
      case (Some wt)
      obtain w tag where wt: "wt = (w, tag)" by force
      note step = u v j(1) False t Some wt
      show ?thesis
      proof (cases "pb_field_iter_find (dl_iter l) tag")
        case None
        then show ?thesis using Suc.prems(1) by (simp add: step)
      next
        case f: (Some r')
        obtain found it where r': "r' = (found, it)" by force
        show ?thesis
        proof (cases found)
          case True
          show ?thesis
            using Suc.prems(1) IH
            by (auto simp: step f r' True Let_def split: option.splits prod.splits bool.splits)
        next
          case nf: False
          show ?thesis
            using Suc.prems(1) IH
            by (auto simp: step f r' nf Let_def split: option.splits prod.splits bool.splits)
        qed
      qed
    qed
  qed
qed

section \<open>Messages\<close>

definition frames :: "'s pb_denv \<Rightarrow> nat \<Rightarrow> u64 set" where
  "frames env n = (\<Union>i<n. region (de_frame env i) 4)"

lemma frames_mono: "n \<le> n' \<Longrightarrow> frames env n \<subseteq> frames env n'"
  unfolding frames_def by (rule UN_mono) auto

lemma noinit_body_safe:
  assumes st: "static_descs (de_descs env) lens" and fit: "message_fits lens k fs len"
    and k: "k \<le> length (de_descs env)" "k < fuel" and sub: "subs_safe R (de_descs env) lens k sub"
    and R: "object dest len" "region dest len \<subseteq> R" "region frame 4 \<subseteq> R"
  shows "safe R 0 (bytes_left s) m (noinit_body env fuel sub frame s fs dest m)"
proof -
  have fok: "fields_ok fs (length fs - 1)" by (rule message_fields_ok [OF fit])
  let ?l = "\<lparr>dl_iter = snd (pb_field_iter_begin fs dest), fields_seen = [0, 0], extension_range_start = 0, fixed_count_field = None\<rparr>"
  have "0 < length fs - 1" using fok by (simp add: fields_ok_def)
  then have "iter_in fs dest frame (dl_iter ?l)" using iter_begin [OF fok, of dest] iter_in_at by simp
  then have "loop_safe R fs dest frame (bytes_left s) (store_u32 m frame 0)
      (decode_loop env fuel sub frame (bytes_left s) s ?l (store_u32 m frame 0))"
    by (rule decode_loop_safe [OF st fit k sub R]) simp
  then obtain ok s' l' m' where d:
      "decode_loop env fuel sub frame (bytes_left s) s ?l (store_u32 m frame 0) = Some (ok, s', l', m')"
      "bytes_left s' \<le> bytes_left s" "iter_in fs dest frame (dl_iter l')" "within R (store_u32 m frame 0) m'"
    unfolding loop_safe_def by blast
  have m': "within R m m'" by (rule within_trans [OF within_le_store [OF R(3)] d(4)])
  obtain n where n: "req_field_count (dl_iter l') = Some n" using req_field_count_returns [OF fok d(3)] by blast
  show ?thesis using d(1,2) m' n by (cases ok) (simp_all add: noinit_body_def Let_def)
qed

lemma init_and_decode_safe:
  assumes st: "static_descs (de_descs env) lens" and fit: "message_fits lens k fs len"
    and k: "k \<le> length (de_descs env)" "k < fuel" and R: "object dest len" "region dest len \<subseteq> R"
    and noinit: "\<And>m. safe R 0 (bytes_left s) m (noinit s fs dest m)"
  shows "safe R 0 (bytes_left s) m (init_and_decode env fuel noinit s fs dest m)"
proof -
  obtain m1 where m1: "set_defaults env fuel fs dest m = Some m1" "within R m m1"
    using set_defaults_safe [OF st fit k R, of m] by (auto simp: safe_mem_def)
  have "safe R 0 (bytes_left s) m (noinit s fs dest m1)" by (rule safe_from [OF noinit m1(2)])
  then show ?thesis
    by (cases rule: safeE) (simp_all add: init_and_decode_def m1(1) release_message_same [OF st fit k])
qed

lemma decode_noinit_safe:
  assumes st: "static_descs (de_descs env) lens"
  shows "message_fits lens k fs len \<Longrightarrow> k \<le> length (de_descs env) \<Longrightarrow> k + 1 < fuel \<Longrightarrow>
    object dest len \<Longrightarrow> region dest len \<union> frames env fuel \<subseteq> R \<Longrightarrow>
    safe R 0 (bytes_left s) m (pb_decode_noinit env fuel s fs dest m)"
proof (induction fuel arbitrary: k fs len dest s m)
  case (Suc fuel)
  have frame: "region (de_frame env fuel) 4 \<subseteq> R" and fr: "frames env fuel \<subseteq> R"
    using Suc.prems(5) by (auto simp: frames_def lessThan_Suc)
  have sub: "safe R 0 (bytes_left s) m (init_and_decode env fuel (\<lambda>s fs a m. pb_decode_noinit env fuel s fs a m) s (de_descs env ! j) a m) \<and>
      safe R 0 (bytes_left s) m (pb_decode_noinit env fuel s (de_descs env ! j) a m)"
    if j: "j < k" and a: "object a (lens ! j)" "region a (lens ! j) \<subseteq> R" for j s a m
  proof -
    have jk: "j < length (de_descs env)" "j \<le> length (de_descs env)" "j + 1 < fuel" "j < fuel"
      using j Suc.prems(2,3) by simp_all
    have fit: "message_fits lens j (de_descs env ! j) (lens ! j)" by (rule static_descsD(1) [OF st jk(1)])
    have no: "safe R 0 (bytes_left s) m (pb_decode_noinit env fuel s (de_descs env ! j) a m)" for m
      by (rule Suc.IH [OF fit jk(2,3) a(1)]) (use a(2) fr in simp)
    have "safe R 0 (bytes_left s) m (init_and_decode env fuel (pb_decode_noinit env fuel) s (de_descs env ! j) a m)"
      by (rule init_and_decode_safe [OF st fit jk(2,4) a]) (rule no)
    then show ?thesis using no by simp
  qed
  then have sub: "subs_safe R (de_descs env) lens k
      (\<lambda>init. if init then init_and_decode env fuel (\<lambda>s fs a m. pb_decode_noinit env fuel s fs a m)
              else (\<lambda>s fs a m. pb_decode_noinit env fuel s fs a m))"
    unfolding subs_safe_def using sub by auto
  show ?case
    unfolding pb_decode_noinit.simps
    by (rule noinit_body_safe [OF st Suc.prems(1,2) _ sub Suc.prems(4) _ frame]) (use Suc.prems(3,5) in simp_all)
qed simp

lemma subs_safe_decode:
  assumes st: "static_descs (de_descs env) lens" and k: "k \<le> length (de_descs env)" "k < fuel"
    and fr: "frames env fuel \<subseteq> R"
  shows "subs_safe R (de_descs env) lens k
    (\<lambda>init. if init then init_and_decode env fuel (\<lambda>s fs a m. pb_decode_noinit env fuel s fs a m)
            else (\<lambda>s fs a m. pb_decode_noinit env fuel s fs a m))"
proof -
  have "safe R 0 (bytes_left s) m (init_and_decode env fuel (\<lambda>s fs a m. pb_decode_noinit env fuel s fs a m) s (de_descs env ! j) a m) \<and>
      safe R 0 (bytes_left s) m (pb_decode_noinit env fuel s (de_descs env ! j) a m)"
    if j: "j < k" and a: "object a (lens ! j)" "region a (lens ! j) \<subseteq> R" for j s a m
  proof -
    have jk: "j < length (de_descs env)" "j \<le> length (de_descs env)" "j + 1 < fuel" "j < fuel" using j k by simp_all
    have fit: "message_fits lens j (de_descs env ! j) (lens ! j)" by (rule static_descsD(1) [OF st jk(1)])
    have no: "safe R 0 (bytes_left s) m (pb_decode_noinit env fuel s (de_descs env ! j) a m)" for m
      by (rule decode_noinit_safe [OF st fit jk(2,3) a(1)]) (use a(2) fr in simp)
    have "safe R 0 (bytes_left s) m (init_and_decode env fuel (pb_decode_noinit env fuel) s (de_descs env ! j) a m)"
      by (rule init_and_decode_safe [OF st fit jk(2,4) a]) (rule no)
    then show ?thesis using no by simp
  qed
  then show ?thesis unfolding subs_safe_def by auto
qed

end
