(* ===== verification/Pb_Msg_Decode_Claims.thy ===== *)
theory Pb_Msg_Decode_Claims
  imports Pb_Msg_Run Pb_Wire
begin

text \<open>
  What the message decoder promises, and where it does not do what it means to.
\<close>

section \<open>Memory safety and termination\<close>

text \<open>
  (C4) Decoding is memory safe and terminates, whatever the input: a message whose fields are statically
  allocated and fit into a structure of \<open>len\<close> bytes, as do those of its submessages, none of which is a
  part of itself. On any stream, also one with a callback that fails or lies, \<open>pb_decode\<close> returns, with
  fuel for the nesting, has taken no bytes back, and has changed no byte of memory outside of the
  structure and of the local variables \<open>fixed_count_size\<close>; so do the other entry points.
\<close>

theorem pb_decode_memory_safe:
  assumes "static_descs (de_descs env) lens" and "message_fits lens (length (de_descs env)) fs len"
    and "object dest len" and "length (de_descs env) + 1 < fuel" and "R = region dest len \<union> frames env fuel"
  shows "safe R 0 (bytes_left stream) m (pb_decode env fuel stream fs dest m) \<and>
    safe R 0 (bytes_left stream) m (pb_decode_noinit env fuel stream fs dest m) \<and>
    safe R 0 (bytes_left stream) m (pb_decode_delimited env fuel stream fs dest m) \<and>
    safe R 0 (bytes_left stream) m (pb_decode_delimited_noinit env fuel stream fs dest m) \<and>
    safe R 0 (bytes_left stream) m (pb_decode_nullterminated env fuel stream fs dest m) \<and>
    pb_release (pb_release_single_field env fuel) fs dest m = Some m"
proof -
  let ?k = "length (de_descs env)"
  have k: "?k \<le> ?k" "?k < fuel" using assms(4) by simp_all
  have R: "region dest len \<subseteq> R" by (simp add: assms(5))
  have noinit: "safe R 0 (bytes_left s) m (pb_decode_noinit env fuel s fs dest m)" for s m
    by (rule decode_noinit_safe [OF assms(1,2) k(1) assms(4,3)]) (simp add: assms(5))
  have dec: "safe R 0 (bytes_left s) m (pb_decode env fuel s fs dest m)" for s m
    unfolding pb_decode_def by (rule init_and_decode_safe [OF assms(1,2) k assms(3) R]) (rule noinit)
  have "safe R 0 (bytes_left stream) m (pb_decode_delimited env fuel stream fs dest m)"
    unfolding pb_decode_delimited_def by (rule safe_and_le [OF in_substream_safe]) (rule dec)
  moreover have "safe R 0 (bytes_left stream) m (pb_decode_delimited_noinit env fuel stream fs dest m)"
    unfolding pb_decode_delimited_noinit_def by (rule safe_and_le [OF in_substream_safe]) (rule noinit)
  ultimately show ?thesis
    using dec noinit release_message_same [OF assms(1,2) k] by (simp add: pb_decode_nullterminated_def)
qed

text \<open>A witness: a message with a submessage and an array, and an arbitrary stream.\<close>

definition point_fields :: "pb_field_t list" where
  "point_fields =
     [\<lparr>field_tag = 1, field_type = 1, data_offset = 0, size_offset = 0, data_size = 4, array_size = 0, field_ptr = No_ptr\<rparr>,
      \<lparr>field_tag = 2, field_type = 0x15, data_offset = 4, size_offset = - 1, data_size = 8, array_size = 0, field_ptr = No_ptr\<rparr>,
      \<lparr>field_tag = 0, field_type = 0, data_offset = 0, size_offset = 0, data_size = 0, array_size = 0, field_ptr = No_ptr\<rparr>]"

definition path_fields :: "pb_field_t list" where
  "path_fields =
     [\<lparr>field_tag = 1, field_type = 0x28, data_offset = 4, size_offset = - 4, data_size = 16, array_size = 3, field_ptr = Submsg_fields 0\<rparr>,
      \<lparr>field_tag = 0, field_type = 0, data_offset = 0, size_offset = 0, data_size = 0, array_size = 0, field_ptr = No_ptr\<rparr>]"

definition example_denv :: "pb_field_t list list \<Rightarrow> 's pb_denv" where
  "example_denv descs =
     \<lparr>de_descs = descs, de_callback = (\<lambda>_ s _ _ m. (True, s, m)),
      de_ext_type = (\<lambda>_. \<lparr>xt_decode = 0, xt_encode = 0, xt_arg = point_fields ! 0\<rparr>),
      de_ext_decode = (\<lambda>_ s _ _ _ m. (True, s, m)), de_realloc = (\<lambda>m _ _. (0, m)), de_free = (\<lambda>m _. m),
      de_frame = (\<lambda>i. 0x8000 + 16 * of_nat i)\<rparr>"

lemma example_fits:
  "static_descs [point_fields] [16]" "message_fits [16] (length [point_fields]) path_fields 52"
proof -
  have "nested 0 point_fields" "list_all (field_fits [16] point_fields 16) [0..<2]" by code_simp+
  then show "static_descs [point_fields] [16]"
    by (simp add: static_descs_def message_fits_def point_fields_def upt_rec)
  have "nested 1 path_fields" "list_all (field_fits [16] path_fields 52) [0..<1]" by code_simp+
  then show "message_fits [16] (length [point_fields]) path_fields 52"
    by (simp add: message_fits_def path_fields_def)
qed

theorem pb_decode_memory_safe_witness:
  "\<exists>ok stream' m'. pb_decode (example_denv [point_fields]) 3 (pb_istream_from_buffer [0x0A, 2, 8, 5] 4 :: unit pb_istream_t) path_fields 0x1000 (\<lambda>_. 7) =
    Some (ok, stream', m') \<and> m' 0x1034 = 7"
proof -
  let ?env = "example_denv [point_fields] :: unit pb_denv" and ?s = "pb_istream_from_buffer [0x0A, 2, 8, 5] 4 :: unit pb_istream_t"
  have o: "object 0x1000 52" by (simp add: object_def)
  have d: "de_descs ?env = [point_fields]" by (simp add: example_denv_def)
  have "safe (region 0x1000 52 \<union> frames ?env 3) 0 (bytes_left ?s) (\<lambda>_. 7) (pb_decode ?env 3 ?s path_fields 0x1000 (\<lambda>_. 7))"
    using pb_decode_memory_safe [of ?env "[16]" path_fields 52 "0x1000" 3 _ ?s "\<lambda>_. 7", OF _ _ _ _ refl] example_fits o
    by (simp add: d)
  moreover have "0x1034 \<notin> region 0x1000 52 \<union> frames ?env 3"
    unfolding frames_def region_def example_denv_def by code_simp
  ultimately show ?thesis unfolding safe_def within_def by blast
qed

section \<open>Unknown fields\<close>

text \<open>
  \<open>extension_range_start\<close> does not matter where no field is an extension range: a field that is not found
  is skipped.
\<close>

definition unrange :: "decode_locals \<Rightarrow> decode_locals" where
  "unrange l = l\<lparr>extension_range_start := 0\<rparr>"

definition strip :: "(bool \<times> 's pb_istream_t \<times> decode_locals \<times> memory) option \<Rightarrow> (bool \<times> 's pb_istream_t \<times> decode_locals \<times> memory) option" where
  "strip = map_option (\<lambda>(ok, s, l, m). (ok, s, unrange l, m))"

lemma strip_simps [simp]: "strip None = None" "strip (Some (ok, s, l, m)) = Some (ok, s, unrange l, m)"
  by (simp_all add: strip_def)

lemma skip_step:
  assumes fit: "message_fits lens k fs len" and it: "iter_in fs dest frame (dl_iter l)"
    and f: "pb_field_iter_find (dl_iter l) tag = Some (False, it)" and tag: "tag < - 1"
  shows "\<exists>x. try_extension env fuel sub s tag w (l\<lparr>dl_iter := it\<rparr>) m =
      Some (True, False, s, l\<lparr>dl_iter := it, extension_range_start := x\<rparr>, m)"
proof -
  obtain p where p: "p < length fs - 1" "it = iter_at fs dest p"
    using not_found_at [OF message_fields_ok [OF fit] it f] by blast
  then have "find_extension_field it = Some (False, it)"
    using find_extension_exact [OF fit iter_in_at [OF p(1)]] by simp
  then show ?thesis using tag by (auto simp: try_extension_def Let_def intro: exI [of _ "extension_range_start l"])
qed

lemma range_found:
  "enter_fixed_count frame (l\<lparr>extension_range_start := x\<rparr>) m =
     map_option (\<lambda>(l, m). (l\<lparr>extension_range_start := x\<rparr>, m)) (enter_fixed_count frame l m)"
  "note_required (l\<lparr>extension_range_start := x\<rparr>) = (note_required l)\<lparr>extension_range_start := x\<rparr>"
  by (simp_all add: enter_fixed_count_def note_required_def fixed_count_done_def Let_def split: option.split)

lemma loop_range:
  assumes st: "static_descs (de_descs env) lens" and fit: "message_fits lens k fs len"
    and k: "k \<le> length (de_descs env)" "k < fuel" and sub: "subs_safe R (de_descs env) lens k sub"
    and R: "object dest len" "region dest len \<subseteq> R" "region frame 4 \<subseteq> R"
  shows "iter_in fs dest frame (dl_iter l) \<Longrightarrow>
    strip (decode_loop env fuel sub frame n s (l\<lparr>extension_range_start := x\<rparr>) m) = strip (decode_loop env fuel sub frame n s l m)"
proof (induction n arbitrary: s l m x)
  case 0
  then show ?case by (simp add: decode_loop.simps [of _ _ _ _ 0] unrange_def)
next
  case (Suc n)
  note unfold = decode_loop.simps [of env fuel sub frame "Suc n"]
  have fok: "fields_ok fs (length fs - 1)" by (rule message_fields_ok [OF fit])
  obtain r s1 eof where t: "pb_decode_tag s = (r, s1, eof)" using prod_cases3 by blast
  show ?case
  proof (cases "bytes_left s = 0 \<or> r = None")
    case True
    then show ?thesis using t by (auto simp: unfold unrange_def)
  next
    case False
    then obtain w tag where r: "r = Some (w, tag)" by auto
    obtain found it where f: "pb_field_iter_find (dl_iter l) tag = Some (found, it)" "iter_in fs dest frame it"
      using iter_in_find [OF fok Suc.prems] by blast
    note step = unfold False r t f(1)
    show ?thesis
    proof (cases found)
      case True
      have e: "iter_in fs dest frame (dl_iter (l\<lparr>dl_iter := it\<rparr>))" using f(2) by simp
      have com: "l\<lparr>extension_range_start := x, dl_iter := it\<rparr> = l\<lparr>dl_iter := it, extension_range_start := x\<rparr>" by simp
      show ?thesis
      proof (cases "enter_fixed_count frame (l\<lparr>dl_iter := it\<rparr>) m")
        case None
        then show ?thesis using True by (simp add: step com range_found dec_error_def unrange_def)
      next
        case (Some p)
        obtain l1 m1 where p: "p = (l1, m1)" by force
        have l1: "iter_in fs dest frame (dl_iter l1)"
          using enter_fixed_count_in [OF e Some [unfolded p] R(3)] by simp
        have n1: "dl_iter (note_required l1) = dl_iter l1" by (simp add: note_required_def Let_def)
        obtain ok s2 it2 m2 where d: "decode_field env fuel sub s1 w (dl_iter l1) m1 = Some (ok, s2, it2, m2)"
          "iter_in fs dest frame it2"
          using decode_field_safe [OF st fit k sub R l1(1)] by blast
        let ?l = "(note_required l1)\<lparr>dl_iter := it2\<rparr>"
        have com2: "(note_required l1)\<lparr>extension_range_start := x, dl_iter := it2\<rparr> = ?l\<lparr>extension_range_start := x\<rparr>" by simp
        have "strip (decode_loop env fuel sub frame n s2 ((note_required l1)\<lparr>extension_range_start := x, dl_iter := it2\<rparr>) m2) =
            strip (decode_loop env fuel sub frame n s2 ?l m2)"
          unfolding com2 by (rule Suc.IH) (use d in simp)
        then show ?thesis using True Some p n1 d
          by (cases ok) (simp_all add: step com range_found Let_def unrange_def)
      qed
    next
      case nf: False
      have tag: "tag < - 1" by (rule tag_small [OF t [unfolded r]])
      have f': "pb_field_iter_find (dl_iter l) tag = Some (False, it)" using f(1) nf by simp
      obtain y where y: "try_extension env fuel sub s1 tag w (l\<lparr>dl_iter := it\<rparr>) m =
          Some (True, False, s1, l\<lparr>dl_iter := it, extension_range_start := y\<rparr>, m)"
        using skip_step [OF fit Suc.prems f' tag] by blast
      have "iter_in fs dest frame (dl_iter (l\<lparr>extension_range_start := x\<rparr>))"
        "pb_field_iter_find (dl_iter (l\<lparr>extension_range_start := x\<rparr>)) tag = Some (False, it)" using Suc.prems f nf by simp_all
      from skip_step [OF fit this tag] obtain z where
        "try_extension env fuel sub s1 tag w (l\<lparr>extension_range_start := x, dl_iter := it\<rparr>) m =
          Some (True, False, s1, l\<lparr>extension_range_start := x, dl_iter := it, extension_range_start := z\<rparr>, m)" by blast
      then have z: "try_extension env fuel sub s1 tag w (l\<lparr>extension_range_start := x, dl_iter := it\<rparr>) m =
          Some (True, False, s1, l\<lparr>dl_iter := it, extension_range_start := z\<rparr>, m)" by simp
      obtain sk s2 where sk: "pb_skip_field s1 w = (sk, s2)" by force
      have "strip (decode_loop env fuel sub frame n s2 (l\<lparr>dl_iter := it, extension_range_start := c\<rparr>) m) =
          strip (decode_loop env fuel sub frame n s2 (l\<lparr>dl_iter := it\<rparr>) m)" for c
        by (rule Suc.IH) (use f in simp)
      then show ?thesis using nf y z sk by (cases sk) (simp_all add: step unrange_def)
    qed
  qed
qed

lemma loop_skip:
  assumes "bytes_left s \<noteq> 0" and "pb_decode_tag s = (Some (w, tag), s1, eof)" and "pb_field_iter_find (dl_iter l) tag = Some (False, it)"
    and "try_extension env fuel sub s1 tag w (l\<lparr>dl_iter := it\<rparr>) m = Some (True, False, s1, l1, m)"
    and "pb_skip_field s1 w = (Some (), s2)"
  shows "decode_loop env fuel sub frame (Suc n) s l m = decode_loop env fuel sub frame n s2 l1 m"
  using assms by (simp add: decode_loop.simps [of _ _ _ _ "Suc n"])

lemma noinit_skips:
  assumes st: "static_descs (de_descs env) lens" and fit: "message_fits lens k fs len"
    and k: "k \<le> length (de_descs env)" "k < fuel" and sub: "subs_safe R (de_descs env) lens k sub"
    and R: "object dest len" "region dest len \<subseteq> R" "region frame 4 \<subseteq> R"
    and t: "0 < unat t" "unat t < 2 ^ 29" "wire_ok w" "\<forall>f \<in> set (butlast fs). field_tag f \<noteq> t"
  shows "noinit_body env fuel sub frame (stream_of (field_bytes t w @ c) x e) fs dest m =
    noinit_body env fuel sub frame (stream_of c x e) fs dest m"
proof -
  have fok: "fields_ok fs (length fs - 1)" by (rule message_fields_ok [OF fit])
  let ?n = "length fs - 1" and ?it = "iter_at fs dest 0" and ?m = "store_u32 m frame 0"
  let ?l = "\<lparr>dl_iter = snd (pb_field_iter_begin fs dest), fields_seen = [0, 0], extension_range_start = 0, fixed_count_field = None\<rparr>"
  let ?loop = "decode_loop env fuel sub frame"
  have n0: "0 < ?n" using fok by (simp add: fields_ok_def)
  have l: "dl_iter ?l = ?it" using iter_begin [OF fok, of dest] by simp
  have it: "iter_in fs dest frame (dl_iter ?l)" unfolding l by (rule iter_in_at [OF n0])
  have "\<not> matches t (fs ! q)" if "q < ?n" for q
    using t(4) that nth_butlast [of q fs] by (auto simp: matches_def in_set_conv_nth)
  then have "filter (\<lambda>q. matches t (fs ! q)) ([0..<?n] @ [0..<0]) = []" by (simp add: filter_empty_conv)
  then have f: "pb_field_iter_find (dl_iter ?l) t = Some (False, ?it)"
    unfolding l using find_exact [OF fok n0, of dest t] by simp
  have tag: "pb_decode_tag (stream_of (field_bytes t w @ c) x e) = (Some (wire_type w, t), stream_of (wire_payload w @ c) x e, False)"
    unfolding field_bytes_def using decode_tag [OF t(1,2), of w "wire_payload w @ c" x e] by simp
  have "t < - 1" by (rule tag_small [OF tag])
  obtain y where y: "try_extension env fuel sub (stream_of (wire_payload w @ c) x e) t (wire_type w) (?l\<lparr>dl_iter := ?it\<rparr>) ?m =
      Some (True, False, stream_of (wire_payload w @ c) x e, ?l\<lparr>dl_iter := ?it, extension_range_start := y\<rparr>, ?m)"
    using skip_step [OF fit it f \<open>t < - 1\<close>] by blast
  have fb: "0 < length (field_bytes t w)" using leb_shape [of "unat t * 8 + unat (wire_type w)"] by (auto simp: field_bytes_def)
  then obtain j where j: "length (field_bytes t w @ c) = Suc j" "length c \<le> j" by (cases "length (field_bytes t w @ c)") auto
  have s1: "?loop (Suc j) (stream_of (field_bytes t w @ c) x e) ?l ?m =
      ?loop j (stream_of c x e) (?l\<lparr>dl_iter := ?it, extension_range_start := y\<rparr>) ?m"
    by (rule loop_skip [OF _ tag f y skip_payload [OF t(3)]]) (use fb in simp)
  have same: "?l\<lparr>dl_iter := ?it, extension_range_start := y\<rparr> = ?l\<lparr>extension_range_start := y\<rparr>" using l by simp
  have "loop_safe R fs dest frame (length c) ?m (?loop (length c) (stream_of c x e) (?l\<lparr>extension_range_start := y\<rparr>) ?m)"
    using decode_loop_safe [OF st fit k sub R, of "?l\<lparr>extension_range_start := y\<rparr>" "stream_of c x e" "length c" ?m] it by simp
  then obtain r where r: "?loop (length c) (stream_of c x e) (?l\<lparr>extension_range_start := y\<rparr>) ?m = Some r"
    unfolding loop_safe_def by blast
  have s2: "?loop j (stream_of c x e) (?l\<lparr>extension_range_start := y\<rparr>) ?m = Some r"
    by (rule decode_loop_more [OF r j(2)])
  have "strip (?loop (length c) (stream_of c x e) (?l\<lparr>extension_range_start := y\<rparr>) ?m) = strip (?loop (length c) (stream_of c x e) ?l ?m)"
    by (rule loop_range [OF st fit k sub R it])
  then have eq: "strip (?loop (length c) (stream_of c x e) ?l ?m) = strip (?loop (Suc j) (stream_of (field_bytes t w @ c) x e) ?l ?m)"
    by (simp only: s1 same r s2)
  have body: "noinit_body env fuel sub frame s fs dest m = (case strip (?loop (bytes_left s) s ?l ?m) of
      None \<Rightarrow> None
    | Some (False, s, l, m) \<Rightarrow> Some (False, s, m)
    | Some (True, s, l, m) \<Rightarrow>
        if \<not> fixed_count_done frame l m then Some (dec_error s m ''wrong size for fixed count field'')
        else (case req_field_count (dl_iter l) of
                None \<Rightarrow> None
              | Some n \<Rightarrow> if all_required_seen n (fields_seen l) then Some (True, s, m)
                          else Some (dec_error s m ''missing required field'')))" for s
    by (simp add: noinit_body_def unrange_def fixed_count_done_def split: option.split prod.split bool.split)
  show ?thesis unfolding body using eq j(1) by simp
qed

lemma decode_noinit_skips:
  assumes st: "static_descs (de_descs env) lens" and fit: "message_fits lens (length (de_descs env)) fs len"
    and R: "object dest len" and fuel: "length (de_descs env) + 1 < fuel"
    and t: "0 < unat t" "unat t < 2 ^ 29" "wire_ok w" "\<forall>f \<in> set (butlast fs). field_tag f \<noteq> t"
  shows "pb_decode_noinit env fuel (stream_of (field_bytes t w @ c) x e) fs dest m =
    pb_decode_noinit env fuel (stream_of c x e) fs dest m"
proof -
  obtain f where f: "fuel = Suc f" "length (de_descs env) < f" using fuel by (cases fuel) auto
  let ?R = "region dest len \<union> frames env fuel"
  have "frames env f \<subseteq> ?R" using frames_mono [of f fuel env] f(1) by auto
  note sub = subs_safe_decode [OF st order.refl f(2) this]
  have "region (de_frame env f) 4 \<subseteq> ?R" by (auto simp: frames_def f(1) lessThan_Suc)
  then show ?thesis
    unfolding f(1) pb_decode_noinit.simps by (intro noinit_skips [OF st fit order.refl f(2) sub R _ _ t]) (simp_all add: f(1))
qed

text \<open>
  (C5) Fields that a message does not know are skipped. On a static message as above, any number of
  fields of any wire type whose tags are not in the descriptors, in front of \<open>c\<close>, change nothing:
  \<open>pb_decode\<close> has the same result, with the same memory, the same rest of the stream and the same error,
  as on \<open>c\<close> alone.
\<close>

theorem pb_decode_skips_unknown:
  assumes "static_descs (de_descs env) lens" and "message_fits lens (length (de_descs env)) fs len"
    and "object dest len" and "length (de_descs env) + 1 < fuel"
    and "list_all (\<lambda>(t, w). 0 < unat t \<and> unat t < 2 ^ 29 \<and> wire_ok w \<and> list_all (\<lambda>f. field_tag f \<noteq> t) (butlast fs)) unknown"
  shows "pb_decode env fuel (stream_of (concat (map (\<lambda>(t, w). field_bytes t w) unknown) @ c) x e) fs dest m =
    pb_decode env fuel (stream_of c x e) fs dest m"
  using assms(5)
proof (induction unknown)
  case (Cons u us)
  obtain t w where u: "u = (t, w)" by force
  have t: "0 < unat t" "unat t < 2 ^ 29" "wire_ok w" "\<forall>f \<in> set (butlast fs). field_tag f \<noteq> t"
    using Cons.prems by (simp_all add: u list_all_iff)
  have "pb_decode env fuel (stream_of (field_bytes t w @ d) x e) fs dest m = pb_decode env fuel (stream_of d x e) fs dest m" for d
    by (simp add: pb_decode_def init_and_decode_def decode_noinit_skips [OF assms(1-4) t] cong: option.case_cong)
  then show ?case using Cons by (simp add: u)
qed simp

theorem pb_decode_skips_unknown_witness:
  "pb_decode (example_denv [point_fields]) 3 (stream_of [0x1A, 1, 0xFF, 0x25, 5, 0, 0, 0, 0x0A, 2, 8, 5] [] None) path_fields 0x1000 (\<lambda>_. 7) =
   pb_decode (example_denv [point_fields]) 3 (stream_of [0x0A, 2, 8, 5] [] None) path_fields 0x1000 (\<lambda>_. 7)"
proof -
  let ?env = "example_denv [point_fields] :: unit pb_denv" and ?us = "[(3, Wstring [0xFF]), (4, W32bit 5)]"
  have o: "object 0x1000 52" by (simp add: object_def)
  have d: "de_descs ?env = [point_fields]" by (simp add: example_denv_def)
  have b: "concat (map (\<lambda>(t, w). field_bytes t w) ?us) @ [0x0A, 2, 8, 5] = [0x1A, 1, 0xFF, 0x25, 5, 0, 0, 0, 0x0A, 2, 8, 5]"
    by code_simp
  have "list_all (\<lambda>(t, w). 0 < unat t \<and> unat t < 2 ^ 29 \<and> wire_ok w \<and> list_all (\<lambda>f. field_tag f \<noteq> t) (butlast path_fields)) ?us"
    by (simp add: path_fields_def)
  then have "pb_decode ?env 3 (stream_of (concat (map (\<lambda>(t, w). field_bytes t w) ?us) @ [0x0A, 2, 8, 5]) [] None) path_fields 0x1000 (\<lambda>_. 7) =
      pb_decode ?env 3 (stream_of [0x0A, 2, 8, 5] [] None) path_fields 0x1000 (\<lambda>_. 7)"
    by (intro pb_decode_skips_unknown [OF _ _ o]) (use example_fits in \<open>simp_all add: d\<close>)
  then show ?thesis unfolding b .
qed

end
