(* ===== verification/Pb_Msg_Value.thy ===== *)
theory Pb_Msg_Value
  imports Pb_Msg_Run Pb_Msg_Wire
begin

text \<open>
  Reading back values: what the decoder stores for a value in its wire form is the value that the encoder
  would write.
\<close>

section \<open>Loading what was stored\<close>

definition agree :: "u64 set \<Rightarrow> memory \<Rightarrow> memory \<Rightarrow> bool" where
  "agree R m m' \<longleftrightarrow> (\<forall>x \<in> R. m' x = m x)"

lemma within_agree: "within R m m' \<Longrightarrow> R \<inter> S = {} \<Longrightarrow> agree S m m'"
  by (auto simp: within_def agree_def)

lemma agree_mono: "agree R m m' \<Longrightarrow> S \<subseteq> R \<Longrightarrow> agree S m m'"
  by (auto simp: agree_def)

lemma load_agree: "agree (region a n) m m' \<Longrightarrow> load m' a n = load m a n"
  by (auto simp: load_def agree_def region_def)

lemma load_u32_agree: "agree (region a 4) m m' \<Longrightarrow> load_u32 m' a = load_u32 m a"
  by (simp add: load_u32_def load_uint_def load_agree)

lemma load_Suc: "load m a (Suc n) = m a # load m (a + 1) n"
  by (simp add: load_def upt_conv_Cons map_Suc_upt [symmetric] comp_def add.assoc del: upt_Suc)

lemma not_region_self: "n < 2 ^ 64 \<Longrightarrow> a \<notin> region (a + 1) n"
proof
  assume n: "n < 2 ^ 64" and "a \<in> region (a + 1) n"
  then obtain i where i: "i < n" "a = a + 1 + of_nat i" by (auto simp: region_def)
  then have "(of_nat (Suc i) :: u64) = 0" by (simp add: add.assoc)
  then have "2 ^ 64 dvd Suc i" by (simp add: word_of_nat_eq_0_iff del: of_nat_Suc)
  then show False using i(1) n by (simp add: nat_dvd_not_less)
qed

lemma load_store: "length bs < 2 ^ 64 \<Longrightarrow> load (store m a bs) a (length bs) = bs"
proof (induction bs arbitrary: m a)
  case (Cons b bs)
  have "store (m(a := b)) (a + 1) bs a = b"
    using store_outside [OF not_region_self] Cons.prems by simp
  then show ?case using Cons by (simp add: load_Suc)
qed (simp add: load_def)

lemma load_uint_le_store: "n < 2 ^ 64 \<Longrightarrow> load_uint (le_store m a n v) a n = v mod 256 ^ n"
  using load_store [of "rev (be_bytes n v)" m a] by (simp add: le_store_def load_uint_def be_nat_be_bytes)

lemma load_store_u32 [simp]: "load_u32 (store_u32 m a v) a = v"
  using unat_u32_less [of v] by (simp add: load_u32_def load_uint_le_store)

lemma load_store_u64 [simp]: "load_u64 (store_u64 m a v) a = v"
  using unat_u64_less [of v] by (simp add: load_u64_def load_uint_le_store)

section \<open>Integers\<close>

lemma bit_sign_cut:
  "0 < n \<Longrightarrow> bit (sign_cut n v) i \<longleftrightarrow> i < 64 \<and> bit v (min i (n - 1))"
  by (auto simp: sign_cut_def bit_word_of_int_iff bit_signed_take_bit_iff bit_uint_iff min_def)

lemma sign_cut_scast:
  fixes b :: "'a::len word"
  assumes "LENGTH('a) \<le> n" and "n \<le> 64"
  shows "sign_cut n (scast b) = scast b"
proof (rule bit_word_eqI)
  have n: "0 < n" using assms(1) len_gt_0 [where 'a = 'a] by linarith
  fix i assume "i < LENGTH(64)"
  then show "bit (sign_cut n (scast b)) i \<longleftrightarrow> bit (scast b :: u64) i"
    using assms n by (auto simp: bit_sign_cut bit_signed_iff min_def)
qed

lemma ucast_scast:
  fixes b :: "'a::len word"
  assumes "LENGTH('a) \<le> 64"
  shows "(ucast (scast b :: u64) :: 'a word) = b"
proof (rule bit_word_eqI)
  fix i assume i: "i < LENGTH('a)"
  then have "min (LENGTH('a) - Suc 0) i = i" by simp
  then show "bit (ucast (scast b :: u64) :: 'a word) i \<longleftrightarrow> bit b i"
    using assms i by (simp add: bit_unsigned_iff bit_signed_iff)
qed

lemma of_nat_mod_ucast:
  fixes v :: u64
  assumes "256 ^ n = (2 :: nat) ^ LENGTH('a)"
  shows "(of_nat (unat v mod 256 ^ n) :: 'a::len word) = ucast v"
proof -
  have "(of_nat (unat v mod 2 ^ LENGTH('a)) :: 'a word) = of_nat (unat v)"
    by (simp only: word_of_nat_eq_iff take_bit_eq_mod mod_mod_trivial)
  also have "\<dots> = ucast v" by simp
  finally show ?thesis unfolding assms .
qed

text \<open>A signed integer and an unsigned one, as loaded, stored and loaded again.\<close>

lemma load_signed_cases:
  assumes "load_signed m sz a = Some v"
  obtains (b1) b :: byte where "sz = 1" "v = scast b" | (b2) b :: u16 where "sz = 2" "v = scast b"
    | (b4) b :: u32 where "sz = 4" "v = scast b" | (b8) "sz = 8"
  using assms by (auto simp: load_signed_def split: if_splits)

lemma load_signed_stored:
  assumes "load_signed m0 sz a0 = Some v"
  shows "load_signed (le_store m a (unat sz) (unat v)) sz a = Some v"
  using assms
proof (cases rule: load_signed_cases)
  case (b1 b)
  then show ?thesis using of_nat_mod_ucast [where 'a = 8 and n = 1 and v = v] ucast_scast [of b]
    by (simp add: load_signed_def load_uint_le_store)
next
  case (b2 b)
  then show ?thesis using of_nat_mod_ucast [where 'a = 16 and n = 2 and v = v] ucast_scast [of b]
    by (simp add: load_signed_def load_uint_le_store)
next
  case (b4 b)
  then show ?thesis using of_nat_mod_ucast [where 'a = 32 and n = 4 and v = v] ucast_scast [of b]
    by (simp add: load_signed_def load_u32_def load_uint_le_store)
next
  case b8
  then show ?thesis by (simp add: load_signed_def)
qed

lemma load_unsigned_cases:
  assumes "load_unsigned m sz a = Some v"
  obtains (b1) b :: byte where "sz = 1" "v = ucast b" | (b2) b :: u16 where "sz = 2" "v = ucast b"
    | (b4) b :: u32 where "sz = 4" "v = ucast b" | (b8) "sz = 8"
  using assms by (auto simp: load_unsigned_def split: if_splits)

lemma ucast_ucast:
  fixes b :: "'a::len word"
  assumes "LENGTH('a) \<le> 64"
  shows "(ucast (ucast b :: u64) :: 'a word) = b"
  using assms by (intro bit_word_eqI) (auto simp: bit_unsigned_iff)

lemma load_unsigned_stored:
  assumes "load_unsigned m0 sz a0 = Some v"
  shows "load_unsigned (le_store m a (unat sz) (unat v)) sz a = Some v"
  using assms
proof (cases rule: load_unsigned_cases)
  case (b1 b)
  then show ?thesis using of_nat_mod_ucast [where 'a = 8 and n = 1 and v = v] ucast_ucast [of b]
    by (simp add: load_unsigned_def load_uint_le_store)
next
  case (b2 b)
  then show ?thesis using of_nat_mod_ucast [where 'a = 16 and n = 2 and v = v] ucast_ucast [of b]
    by (simp add: load_unsigned_def load_uint_le_store)
next
  case (b4 b)
  then show ?thesis using of_nat_mod_ucast [where 'a = 32 and n = 4 and v = v] ucast_ucast [of b]
    by (simp add: load_unsigned_def load_u32_def load_uint_le_store)
next
  case b8
  then show ?thesis by (simp add: load_unsigned_def)
qed

lemma take_bit_ucast:
  fixes b :: "'a::len word"
  assumes "LENGTH('a) \<le> n"
  shows "take_bit n (ucast b :: u64) = ucast b"
  using assms by (intro bit_word_eqI) (auto simp: bit_take_bit_iff bit_unsigned_iff dest: bit_imp_le_length)

text \<open>The readers of integers on what the writers of integers write.\<close>

lemma store_int_same: "store_int s (Some v) v = ((True, Some v), s)"
  by (simp add: store_int_def)

lemma dec_varint_of:
  assumes "load_signed m (data_size f) a = Some v"
  shows "pb_dec_varint (stream_of (leb (unat v) @ c) x e) f = ((True, Some v), stream_of c x e)"
  using assms
  by (cases rule: load_signed_cases)
    (simp_all add: pb_dec_varint_def decode_varint_leb sign_cut_scast store_int_same Let_def)

lemma dec_uvarint_of:
  assumes "load_unsigned m (data_size f) a = Some v"
  shows "pb_dec_uvarint (stream_of (leb (unat v) @ c) x e) f = ((True, Some v), stream_of c x e)"
  using assms
  by (cases rule: load_unsigned_cases)
    (simp_all add: pb_dec_uvarint_def decode_varint_leb take_bit_ucast store_int_same Let_def)

lemma dec_svarint_of:
  assumes "load_signed m (data_size f) a = Some v"
  shows "pb_dec_svarint (stream_of (leb (zigzag v) @ c) x e) f = ((True, Some v), stream_of c x e)"
  using assms
  by (cases rule: load_signed_cases)
    (simp_all add: pb_dec_svarint_def decode_svarint_zigzag sign_cut_scast store_int_same Let_def)

section \<open>Values\<close>

lemma load_append: "load m a (i + j) = load m a i @ load m (a + of_nat i) j"
  by (rule nth_equalityI) (auto simp: load_def nth_append of_nat_diff)

lemma region_disjoint:
  assumes "i + n \<le> j \<or> j + k \<le> i" and "i + n \<le> 2 ^ 64" and "j + k \<le> 2 ^ 64"
  shows "region (a + of_nat i) n \<inter> region (a + of_nat j) k = {}"
proof (rule ccontr)
  assume "region (a + of_nat i) n \<inter> region (a + of_nat j) k \<noteq> {}"
  then obtain p q where pq: "p < n" "q < k" "(of_nat (i + p) :: u64) = of_nat (j + q)"
    by (auto simp: region_def add.assoc)
  then have "(i + p) mod 2 ^ 64 = (j + q) mod 2 ^ 64" by (simp only: word_of_nat_eq_iff take_bit_eq_mod len_num1 len_bit0 len_num0) simp
  moreover have "i + p < 2 ^ 64" "j + q < 2 ^ 64" using pq assms by linarith+
  ultimately have "i + p = j + q" by simp
  then show False using assms(1) pq by linarith
qed

lemma load_store_other: "region a (length bs) \<inter> region b n = {} \<Longrightarrow> load (store m a bs) b n = load m b n"
  by (rule load_agree, rule within_agree, rule within_store) auto

text \<open>
  Fields whose value can be read back: no unions; optional fields and arrays have a flag or a count; an
  array of bytes has room for its size. A string is read back if it ends inside of its field.
\<close>

definition plain_field :: "pb_field_t \<Rightarrow> bool" where
  "plain_field f \<longleftrightarrow>
     (let htype = PB_HTYPE (field_type f)
      in (htype = PB_HTYPE_REQUIRED \<or> (htype = PB_HTYPE_OPTIONAL \<or> htype = PB_HTYPE_REPEATED) \<and> size_offset f \<noteq> 0) \<and>
         unat (field_tag f) < 2 ^ 29 \<and> (PB_LTYPE (field_type f) = PB_LTYPE_BYTES \<longrightarrow> 4 \<le> unat (data_size f)))"

definition readable :: "memory \<Rightarrow> pb_field_t \<Rightarrow> u64 \<Rightarrow> bool" where
  "readable m f a \<longleftrightarrow>
     a \<noteq> 0 \<and> (PB_LTYPE (field_type f) = PB_LTYPE_STRING \<longrightarrow> 0 \<in> set (load m a (unat (data_size f))))"

definition decodes_to ::
  "memory \<Rightarrow> pb_field_t \<Rightarrow> u64 \<Rightarrow> (unit pb_istream_t \<Rightarrow> memory \<Rightarrow> unit dresult) \<Rightarrow> wire_value \<Rightarrow> bool" where
  "decodes_to m f a dec w \<longleftrightarrow>
     (\<forall>c x e. \<exists>m'. dec (stream_of (wire_payload w @ c) x e) m = Some (True, stream_of c x e, m') \<and>
        within (region a (unat (data_size f))) m m' \<and> value_at m' f a = Some w)"

lemma decodes_toI:
  assumes "\<And>c x e. dec (stream_of (wire_payload w @ c) x e) m = Some (True, stream_of c x e, m')"
    and "within (region a (unat (data_size f))) m m'" and "value_at m' f a = Some w"
  shows "decodes_to m f a dec w"
  unfolding decodes_to_def using assms by blast

lemma not_above: "\<not> PB_SIZE_MAX < x"
  by (simp add: PB_SIZE_MAX_def not_less)

lemma decode_bytes:
  assumes "n + 4 \<le> unat (data_size f)" and "length bs = n" and "a \<noteq> 0"
    and f: "PB_LTYPE (field_type f) = PB_LTYPE_BYTES" "PB_ATYPE (field_type f) = PB_ATYPE_STATIC"
  shows "decodes_to m f a (\<lambda>s m. Some (pb_dec_bytes env s f a m)) (Wstring bs)"
proof -
  let ?sz = "of_nat n :: u32" and ?ds = "unat (data_size f)"
  define m1 where "m1 = store_u32 m a ?sz"
  define m' where "m' = store m1 (a + of_nat OFFSETOF_BYTES) bs"
  have ds: "?ds < 2 ^ 32" using unat_u32_less [of "data_size f"] by simp
  then have n: "n < 2 ^ 32" using assms(1) by simp
  have sz: "unat ?sz = n" using n by (simp add: unat_of_nat take_bit_nat_eq_self)
  have al: "size_add n OFFSETOF_BYTES = n + 4" using n by (simp add: size_add_def OFFSETOF_BYTES_def SIZE_MOD_def)
  have np: "PB_ATYPE_STATIC \<noteq> PB_ATYPE_POINTER" by code_simp
  have dis: "region (a + of_nat 4) (length bs) \<inter> region (a + of_nat 0) 4 = {}"
    by (rule region_disjoint) (use assms(2) n in simp_all)
  have dec: "pb_dec_bytes env (stream_of (leb n @ bs @ c) x e) f a m = (True, stream_of c x e, m')" for c x e
    using assms(1,2) np f(2) read_append [of bs n c x e False]
    by (simp add: m'_def m1_def pb_dec_bytes_def decode_varint32 [OF n] sz al Let_def read_at_def not_above)
  show ?thesis
  proof (rule decodes_toI)
    show "Some (pb_dec_bytes env (stream_of (wire_payload (Wstring bs) @ c) x e) f a m) = Some (True, stream_of c x e, m')" for c x e
      using dec [of c x e] assms(2) by simp
    have "within (region a ?ds) m m1" unfolding m1_def by (rule within_le_store_fits [OF subset_refl]) (use assms(1) in simp)
    moreover have "region (a + of_nat 4) (length bs) \<subseteq> region a ?ds" using assms(1,2) by (intro region_sub) simp
    then have "within (region a ?ds) m1 m'" unfolding m'_def by (intro within_store) (simp add: OFFSETOF_BYTES_def)
    ultimately show "within (region a ?ds) m m'" by (rule within_trans)
    have "agree (region a 4) m1 m'"
      unfolding m'_def by (rule within_agree [OF within_store [OF subset_refl]]) (use dis in \<open>simp add: OFFSETOF_BYTES_def\<close>)
    from load_u32_agree [OF this] have u: "load_u32 m' a = ?sz" unfolding m1_def by (rule trans) (rule load_store_u32)
    have u: "unat (load_u32 m' a) = n" unfolding u by (rule sz)
    have l: "load m' (a + of_nat OFFSETOF_BYTES) n = bs" using load_store [of bs] assms(2) n by (simp add: m'_def)
    have "\<not> n > (?ds + SIZE_MOD - OFFSETOF_BYTES) mod SIZE_MOD"
      using assms(1) ds by (auto simp: SIZE_MOD_def OFFSETOF_BYTES_def mod_if)
    then show "value_at m' f a = Some (Wstring bs)" using f assms(3) l by (simp add: value_at_def u ltype_defs Let_def)
  qed
qed

lemma decode_string:
  assumes len: "length bs < unat (data_size f)" and nz: "0 \<notin> set bs" and "a \<noteq> 0"
    and f: "PB_LTYPE (field_type f) = PB_LTYPE_STRING" "PB_ATYPE (field_type f) = PB_ATYPE_STATIC"
  shows "decodes_to m f a (\<lambda>s m. Some (pb_dec_string env s f a m)) (Wstring bs)"
proof -
  let ?n = "length bs" and ?ds = "unat (data_size f)"
  let ?sz = "of_nat ?n :: u32"
  define m1 where "m1 = store m a bs"
  define m' where "m' = store m1 (a + of_nat ?n) [0]"
  have ds: "?ds < 2 ^ 32" using unat_u32_less [of "data_size f"] by simp
  then have n: "?n < 2 ^ 32" "?n + 1 < 2 ^ 32" using len by simp_all
  have sz: "unat ?sz = ?n" using n by (simp add: unat_of_nat take_bit_nat_eq_self)
  have U: "unat (of_nat k :: u32) = k" if "k < 2 ^ 32" for k using that by (simp add: unat_of_nat take_bit_nat_eq_self)
  have sz1: "unat (?sz + 1) = ?n + 1" using U [OF n(2)] by (simp add: add.commute)
  have "ucast k = (of_nat (unat k) :: u64)" for k :: u32 by simp
  from this [of ?sz] have uc: "ucast ?sz = (of_nat ?n :: u64)" unfolding sz .
  have np: "PB_ATYPE_STATIC \<noteq> PB_ATYPE_POINTER" by code_simp
  have dec: "pb_dec_string env (stream_of (leb ?n @ bs @ c) x e) f a m = (True, stream_of c x e, m')" for c x e
    using len np f(2) read_append [of bs ?n c x e False]
    by (simp add: m'_def m1_def pb_dec_string_def decode_varint32 [OF n(1)] sz sz1 uc Let_def read_at_def del: store.simps)
  show ?thesis
  proof (rule decodes_toI)
    show "Some (pb_dec_string env (stream_of (wire_payload (Wstring bs) @ c) x e) f a m) = Some (True, stream_of c x e, m')" for c x e
      using dec [of c x e] by simp
    have "within (region a ?ds) m m1" unfolding m1_def by (rule within_store_fits [OF subset_refl]) (use len in simp)
    moreover have "within (region a ?ds) m1 m'" unfolding m'_def by (rule within_store, rule region_sub) (use len in simp)
    ultimately show "within (region a ?ds) m m'" by (rule within_trans)
    have "load m' a ?n = bs"
    proof -
      have "region (a + of_nat ?n) (length [0 :: byte]) \<inter> region (a + of_nat 0) ?n = {}"
        by (rule region_disjoint) (use n in simp_all)
      then have "load m' a ?n = load m1 a ?n" unfolding m'_def by (intro load_store_other) simp
      then show ?thesis using load_store [of bs m a] n by (simp add: m1_def)
    qed
    moreover have "load m' a ?ds = load m' a ?n @ load m' (a + of_nat ?n) (Suc (?ds - Suc ?n))"
      using load_append [of m' a ?n "Suc (?ds - Suc ?n)"] len by simp
    ultimately have "load m' a ?ds = bs @ 0 # load m' (a + of_nat ?n + 1) (?ds - Suc ?n)"
      by (simp add: load_Suc m'_def)
    then have "takeWhile (\<lambda>c. c \<noteq> 0) (load m' a ?ds) = bs" using nz by (auto simp: takeWhile_append)
    then show "value_at m' f a = Some (Wstring bs)"
      using f np assms(3) by (simp add: value_at_def ltype_defs Let_def del: store.simps)
  qed
qed

lemma decode_fixed_length:
  assumes len: "length bs = unat (data_size f)" and f: "PB_LTYPE (field_type f) = PB_LTYPE_FIXED_LENGTH_BYTES"
  shows "decodes_to m f a (\<lambda>s m. Some (pb_dec_fixed_length_bytes s f a m)) (Wstring bs)"
proof -
  have n: "length bs < 2 ^ 32" using unat_u32_less [of "data_size f"] len by simp
  have sz: "(of_nat (length bs) :: u32) = data_size f" using len by simp
  have z: "data_size f = 0 \<longleftrightarrow> bs = []" using len by (auto simp: unat_0_iff [symmetric])
  show ?thesis
  proof (rule decodes_toI)
    show "Some (pb_dec_fixed_length_bytes (stream_of (wire_payload (Wstring bs) @ c) x e) f a m) =
        Some (True, stream_of c x e, store m a bs)" for c x e
      using decode_varint32 [OF n, of "bs @ c" x e] read_append [OF len, of c x e False] z len
      by (cases "bs = []") (simp_all add: pb_dec_fixed_length_bytes_def sz not_above read_at_def memset0_def)
    show "within (region a (unat (data_size f))) m (store m a bs)" using len by (intro within_store) simp
    have "load (store m a bs) a (unat (data_size f)) = bs" using load_store [of bs m a] len n by simp
    then show "value_at (store m a bs) f a = Some (Wstring bs)" using f by (simp add: value_at_def ltype_defs Let_def)
  qed
qed

lemma decode_value:
  assumes f: "PB_ATYPE (field_type f) = PB_ATYPE_STATIC" "value_fits lens f" "PB_LTYPE (field_type f) \<noteq> PB_LTYPE_SUBMESSAGE"
    and pl: "plain_field f" and w: "value_at ms f a0 = Some w" "readable ms f a0" and a: "a \<noteq> 0"
  shows "decodes_to m f a (\<lambda>s m. PB_DECODERS env sub (PB_LTYPE (field_type f)) s f a m) w"
proof -
  let ?ds = "unat (data_size f)"
  have e: "encodable (PB_LTYPE (field_type f))" using f(2) by (simp add: value_fits_def Let_def)
  have n: "PB_LTYPE (field_type f) = PB_LTYPE_BOOL \<Longrightarrow> 1 \<le> ?ds" "PB_LTYPE (field_type f) = PB_LTYPE_FIXED32 \<Longrightarrow> 4 \<le> ?ds"
    "PB_LTYPE (field_type f) = PB_LTYPE_FIXED64 \<Longrightarrow> 8 \<le> ?ds"
    using f(2) by (simp_all add: value_fits_def Let_def)
  have ds: "?ds < 2 ^ 32" using unat_u32_less [of "data_size f"] by simp
  have np: "PB_ATYPE_STATIC \<noteq> PB_ATYPE_POINTER" by code_simp
  note [simp] = ltype_defs
  show ?thesis
    using e
  proof (cases rule: encodable_cases)
    case 1
    let ?b = "if ms a0 = 0 then 0 else 1 :: byte"
    have wv: "w = Wvarint (if ms a0 = 0 then 0 else 1)" using w(1) 1 by (simp add: value_at_def)
    have dec: "pb_decode_varint32 (stream_of (leb k @ c) x e) = (Some (of_nat k), stream_of c x e)" if "k < 2" for k c x e
      using that by (intro decode_varint32) simp
    show ?thesis
    proof (rule decodes_toI)
      show "PB_DECODERS env sub (PB_LTYPE (field_type f)) (stream_of (wire_payload w @ c) x e) f a m =
          Some (True, stream_of c x e, store m a [?b])" for c x e
        using dec [of 0 c x e] dec [of 1 c x e] by (simp add: wv 1 PB_DECODERS_def dec_bool_at_def pb_dec_bool_def)
      show "within (region a ?ds) m (store m a [?b])" by (rule within_store_fits [OF subset_refl]) (use n(1) 1 in simp)
      show "value_at (store m a [?b]) f a = Some w" using 1 by (simp add: value_at_def wv)
    qed
  next
    case 2
    then obtain v where v: "load_signed ms (data_size f) a0 = Some v" "w = Wvarint v" using w(1) by (auto simp: value_at_def)
    show ?thesis
      by (rule decodes_toI [where m' = "le_store m a ?ds (unat v)"])
        (use v 2 in \<open>simp_all add: PB_DECODERS_def dec_int_at_def dec_varint_of [OF v(1)] within_le_store value_at_def load_signed_stored [OF v(1)]\<close>)
  next
    case 3
    then obtain v where v: "load_unsigned ms (data_size f) a0 = Some v" "w = Wvarint v" using w(1) by (auto simp: value_at_def)
    show ?thesis
      by (rule decodes_toI [where m' = "le_store m a ?ds (unat v)"])
        (use v 3 in \<open>simp_all add: PB_DECODERS_def dec_int_at_def dec_uvarint_of [OF v(1)] within_le_store value_at_def load_unsigned_stored [OF v(1)]\<close>)
  next
    case 4
    then obtain v where v: "load_signed ms (data_size f) a0 = Some v" "w = Wvarint (of_nat (zigzag v))" using w(1) by (auto simp: value_at_def)
    have z: "unat (of_nat (zigzag v) :: u64) = zigzag v" using zigzag_less [of v] by (simp add: unat_of_nat take_bit_nat_eq_self)
    show ?thesis
      by (rule decodes_toI [where m' = "le_store m a ?ds (unat v)"])
        (use v 4 in \<open>simp_all add: PB_DECODERS_def dec_int_at_def z dec_svarint_of [OF v(1)] within_le_store value_at_def load_signed_stored [OF v(1)]\<close>)
  next
    case 5
    have "pb_decode_fixed32 (stream_of (le_bytes 4 (unat v) @ c) x e) = (Some v, stream_of c x e)" for v c x e
      using decode_fixed32_iff by blast
    moreover have wv: "w = W32bit (load_u32 ms a0)" using w(1) 5 by (simp add: value_at_def)
    ultimately show ?thesis
      using 5 n(2) within_le_store_fits [of a ?ds "region a ?ds" 4 m]
      by (intro decodes_toI [where m' = "store_u32 m a (load_u32 ms a0)"]) (simp_all add: wv value_at_def PB_DECODERS_def pb_dec_fixed32_def)
  next
    case 6
    have "pb_decode_fixed64 (stream_of (le_bytes 8 (unat v) @ c) x e) = (Some v, stream_of c x e)" for v c x e
      using decode_fixed64_iff by blast
    moreover have wv: "w = W64bit (load_u64 ms a0)" using w(1) 6 by (simp add: value_at_def)
    ultimately show ?thesis
      using 6 n(3) within_le_store_fits [of a ?ds "region a ?ds" 8 m]
      by (intro decodes_toI [where m' = "store_u64 m a (load_u64 ms a0)"]) (simp_all add: wv value_at_def PB_DECODERS_def pb_dec_fixed64_def)
  next
    case 7
    let ?n = "unat (load_u32 ms a0)"
    have r: "a0 \<noteq> 0" "4 \<le> ?ds" using w(2) pl 7 by (simp_all add: readable_def plain_field_def Let_def)
    have lim: "(?ds + SIZE_MOD - OFFSETOF_BYTES) mod SIZE_MOD = ?ds - 4"
      using r(2) ds by (auto simp: SIZE_MOD_def OFFSETOF_BYTES_def mod_if)
    have "?n + 4 \<le> ?ds" "w = Wstring (load ms (a0 + of_nat OFFSETOF_BYTES) ?n)"
      using w(1) 7 f(1) r by (auto simp: value_at_def Let_def lim split: if_splits)
    then show ?thesis using decode_bytes [of ?n f _ a m env] 7 f(1) a by (simp add: PB_DECODERS_def)
  next
    case 8
    let ?bs = "takeWhile (\<lambda>c. c \<noteq> 0) (load ms a0 ?ds)"
    have r: "a0 \<noteq> 0" "0 \<in> set (load ms a0 ?ds)" using w(2) 8 by (simp_all add: readable_def Let_def)
    have "w = Wstring ?bs" using w(1) 8 f(1) r(1) np by (simp add: value_at_def Let_def)
    moreover have "length ?bs < ?ds"
    proof -
      have "length (takeWhile P xs) = length xs \<longleftrightarrow> takeWhile P xs = xs" for P and xs :: "byte list"
        by (metis append_eq_conv_conj takeWhile_dropWhile_id take_all_iff order_refl)
      from this [of "\<lambda>c. c \<noteq> 0" "load ms a0 ?ds"] have "length ?bs \<noteq> ?ds" using r(2) by (auto simp: takeWhile_eq_all_conv)
      then show ?thesis using length_takeWhile_le [of "\<lambda>c. c \<noteq> 0" "load ms a0 ?ds"] by simp
    qed
    moreover have "0 \<notin> set ?bs" by (auto dest: set_takeWhileD)
    ultimately show ?thesis using decode_string [of ?bs f a m env] 8 f(1) a by (simp add: PB_DECODERS_def)
  next
    case 9
    then show ?thesis using f(3) by simp
  next
    case 10
    then have "w = Wstring (load ms a0 ?ds)" using w(1) by (simp add: value_at_def Let_def)
    then show ?thesis using decode_fixed_length [of "load ms a0 ?ds" f m a] 10 by (simp add: PB_DECODERS_def)
  qed
qed

end
