(* ===== verification/Pb_Msg_Copy.thy ===== *)
theory Pb_Msg_Copy
  imports Pb_Msg_Value
begin

text \<open>
  Decoding what was encoded: the wire form of static messages without unions in terms of the values of
  their fields, on which memory it depends, and how the decoder builds it up field by field.
\<close>

section \<open>Parts of lists\<close>

lemma join_nil [simp]: "join r (Some (Some [])) = r"
  by (auto simp: join_def split: option.splits)

lemma collect_iff:
  "collect f xs = Some (Some ws) \<longleftrightarrow> (\<exists>wss. list_all2 (\<lambda>x w. f x = Some (Some w)) xs wss \<and> ws = concat wss)"
proof (induction xs arbitrary: ws)
  case (Cons x xs)
  have "collect f (x # xs) = Some (Some ws) \<longleftrightarrow>
      (\<exists>a b. f x = Some (Some a) \<and> collect f xs = Some (Some b) \<and> ws = a @ b)"
    by (auto simp: join_def split: option.splits)
  then show ?case unfolding Cons.IH by (fastforce simp: list_all2_Cons1)
qed auto

section \<open>The values of a field\<close>

text \<open>The addresses of the entries of a field that are there.\<close>

definition items :: "memory \<Rightarrow> pb_field_iter_t \<Rightarrow> u64 list" where
  "items m it =
     (let f = it_field it; htype = PB_HTYPE (field_type f)
      in if htype = PB_HTYPE_REPEATED then entries f (pData it) (unat (load_u32 m (pSize it)))
         else if htype = PB_HTYPE_OPTIONAL \<and> m (pSize it) = 0 then [] else [pData it])"

definition packed :: "pb_field_t \<Rightarrow> bool" where
  "packed f \<longleftrightarrow> PB_HTYPE (field_type f) = PB_HTYPE_REPEATED \<and> PB_LTYPE (field_type f) \<le> PB_LTYPE_LAST_PACKABLE"

definition wires_of :: "pb_field_t \<Rightarrow> wire_value list \<Rightarrow> wire_field list" where
  "wires_of f vs =
     (if packed f then (if vs = [] then [] else [(field_tag f, Wstring (concat (map wire_payload vs)))])
      else map (Pair (field_tag f)) vs)"

definition has_values ::
  "pb_field_t list list \<Rightarrow> memory \<Rightarrow> sub_wire \<Rightarrow> pb_field_iter_t \<Rightarrow> wire_value list \<Rightarrow> bool" where
  "has_values descs m sub it vs \<longleftrightarrow>
     (PB_HTYPE (field_type (it_field it)) = PB_HTYPE_REPEATED \<longrightarrow> length (items m it) \<le> unat (array_size (it_field it))) \<and>
     list_all2 (\<lambda>a v. wire_at descs m sub (it_field it) a = Some (Some v)) (items m it) vs"

lemma collect_item_iff:
  "collect (item_at descs m sub f) as = Some (Some ws) \<longleftrightarrow>
     (\<exists>vs. list_all2 (\<lambda>a v. wire_at descs m sub f a = Some (Some v)) as vs \<and> ws = map (Pair (field_tag f)) vs)"
proof (induction "as" arbitrary: ws)
  case (Cons a "as")
  have "collect (item_at descs m sub f) (a # as) = Some (Some ws) \<longleftrightarrow>
      (\<exists>v us. wire_at descs m sub f a = Some (Some v) \<and> collect (item_at descs m sub f) as = Some (Some us) \<and>
         ws = (field_tag f, v) # us)"
    by (auto simp: join_def item_at_def split: option.splits)
  then show ?case unfolding Cons.IH by (fastforce simp: list_all2_Cons1)
qed auto

lemma collect_payload_iff:
  "collect (\<lambda>a. map_option (map_option wire_payload) (wire_at descs m sub f a)) as = Some (Some bs) \<longleftrightarrow>
     (\<exists>vs. list_all2 (\<lambda>a v. wire_at descs m sub f a = Some (Some v)) as vs \<and> bs = concat (map wire_payload vs))"
proof (induction "as" arbitrary: bs)
  case (Cons a "as")
  let ?f = "\<lambda>a. map_option (map_option wire_payload) (wire_at descs m sub f a)"
  have "collect ?f (a # as) = Some (Some bs) \<longleftrightarrow>
      (\<exists>v us. wire_at descs m sub f a = Some (Some v) \<and> collect ?f as = Some (Some us) \<and> bs = wire_payload v @ us)"
    by (auto simp: join_def split: option.splits)
  then show ?case unfolding Cons.IH by (fastforce simp: list_all2_Cons1)
qed auto

lemma length_entries [simp]: "length (entries f a n) = n"
  by (simp add: entries_def)

text \<open>The wire form of a field from its values.\<close>

lemma field_wire_iff:
  assumes f: "PB_ATYPE (field_type (it_field it)) = PB_ATYPE_STATIC" "plain_field (it_field it)" and a: "pData it \<noteq> 0"
    and sz: "pSize it = pData it + scast (size_offset (it_field it))"
  shows "field_wire E cw fuel sub (it_field it) (pData it) = Some (Some ws) \<longleftrightarrow>
    (\<exists>vs. has_values (env_descs E) (env_mem E) sub it vs \<and> ws = wires_of (it_field it) vs)"
proof -
  let ?f = "it_field it" and ?m = "env_mem E" and ?d = "env_descs E"
  have np: "PB_ATYPE_STATIC \<noteq> PB_ATYPE_POINTER" by code_simp
  have b: "field_wire E cw fuel sub ?f (pData it) = basic_wire ?d ?m fuel sub ?f (pData it)"
    using f(1) by (simp add: field_wire_def Let_def)
  note [simp] = type_codes
  consider (req) "PB_HTYPE (field_type ?f) = PB_HTYPE_REQUIRED" | (opt) "PB_HTYPE (field_type ?f) = PB_HTYPE_OPTIONAL"
    | (rep) "PB_HTYPE (field_type ?f) = PB_HTYPE_REPEATED"
    using f(2) by (auto simp: plain_field_def Let_def)
  then show ?thesis
  proof cases
    case req
    then have "basic_wire ?d ?m fuel sub ?f (pData it) = collect (item_at ?d ?m sub ?f) (items ?m it)"
      using a f(1) by (simp add: basic_wire_def items_def Let_def)
    then show ?thesis using req by (simp add: b collect_item_iff has_values_def wires_of_def packed_def)
  next
    case opt
    then have "size_offset ?f \<noteq> 0" using f(2) by (simp add: plain_field_def Let_def)
    then have "basic_wire ?d ?m fuel sub ?f (pData it) = collect (item_at ?d ?m sub ?f) (items ?m it)"
      using opt f(1) sz by (simp add: basic_wire_def items_def Let_def)
    then show ?thesis using opt by (simp add: b collect_item_iff has_values_def wires_of_def packed_def)
  next
    case rep
    then have so: "size_offset ?f \<noteq> 0" using f(2) by (simp add: plain_field_def Let_def)
    let ?n = "unat (load_u32 ?m (pSize it))"
    have w: "basic_wire ?d ?m fuel sub ?f (pData it) = array_wire ?d ?m sub ?f (pData it) ?n"
      using rep so f(1) sz by (simp add: basic_wire_def Let_def)
    have it: "items ?m it = entries ?f (pData it) ?n" using rep by (simp add: items_def)
    show ?thesis
    proof (cases "?n = 0")
      case True
      then show ?thesis using rep by (auto simp: b w array_wire_def it entries_def has_values_def wires_of_def Let_def)
    next
      case n: False
      let ?all = "list_all2 (\<lambda>a v. wire_at ?d ?m sub ?f a = Some (Some v)) (entries ?f (pData it) ?n)"
      have hv: "has_values ?d ?m sub it vs \<longleftrightarrow> ?n \<le> unat (array_size ?f) \<and> ?all vs" for vs
        using rep by (simp only: has_values_def it length_entries simp_thms)
      have wo: "wires_of ?f vs = (if packed ?f then [(field_tag ?f, Wstring (concat (map wire_payload vs)))] else map (Pair (field_tag ?f)) vs)"
        if "?all vs" for vs
        using list_all2_lengthD [OF that] n by (auto simp: wires_of_def)
      have "array_wire ?d ?m sub ?f (pData it) ?n = Some (Some ws) \<longleftrightarrow> ?n \<le> unat (array_size ?f) \<and>
          (\<exists>vs. list_all2 (\<lambda>a v. wire_at ?d ?m sub ?f a = Some (Some v)) (entries ?f (pData it) ?n) vs \<and>
             ws = (if packed ?f then [(field_tag ?f, Wstring (concat (map wire_payload vs)))] else map (Pair (field_tag ?f)) vs))"
      proof (cases "packed ?f")
        case True
        then have "PB_LTYPE (field_type ?f) \<le> PB_LTYPE_LAST_PACKABLE" by (simp add: packed_def)
        then have "array_wire ?d ?m sub ?f (pData it) ?n = Some (Some ws) \<longleftrightarrow> ?n \<le> unat (array_size ?f) \<and>
            (\<exists>bs. collect (\<lambda>a. map_option (map_option wire_payload) (wire_at ?d ?m sub ?f a)) (entries ?f (pData it) ?n) =
                Some (Some bs) \<and> ws = [(field_tag ?f, Wstring bs)])"
          using n f(1) by (auto simp: array_wire_def Let_def)
        then show ?thesis using True unfolding collect_payload_iff by auto
      next
        case False
        then have "\<not> PB_LTYPE (field_type ?f) \<le> PB_LTYPE_LAST_PACKABLE" using rep by (simp add: packed_def)
        then have "array_wire ?d ?m sub ?f (pData it) ?n = Some (Some ws) \<longleftrightarrow> ?n \<le> unat (array_size ?f) \<and>
            collect (item_at ?d ?m sub ?f) (entries ?f (pData it) ?n) = Some (Some ws)"
          using n f(1) by (auto simp: array_wire_def Let_def)
        then show ?thesis using False unfolding collect_item_iff by auto
      qed
      then show ?thesis unfolding b w hv using wo by metis
    qed
  qed
qed

section \<open>Where a field is\<close>

definition cell_size :: "pb_field_t \<Rightarrow> nat" where
  "cell_size f =
     (if PB_HTYPE (field_type f) = PB_HTYPE_REQUIRED then 0 else if PB_HTYPE (field_type f) = PB_HTYPE_OPTIONAL then 1 else 4)"

definition area :: "pb_field_iter_t \<Rightarrow> u64 set" where
  "area it = region (pData it) (extent (it_field it)) \<union> region (pSize it) (cell_size (it_field it))"

text \<open>
  The fields of a message that has no two fields with a tag or a place in common. \<open>footprint\<close> has the
  offsets and the sizes of a field and of its size member.
\<close>

definition cells :: "pb_field_t list \<Rightarrow> nat \<Rightarrow> (u64 \<times> nat) list" where
  "cells fs p =
     (field_offset fs p, extent (fs ! p)) #
     (if PB_HTYPE (field_type (fs ! p)) = PB_HTYPE_REQUIRED then [] else [(size_cell fs p, cell_size (fs ! p))])"

definition footprint :: "pb_field_t list \<Rightarrow> nat \<Rightarrow> (nat \<times> nat) list" where
  "footprint fs p = map (\<lambda>(c, n). (unat c, n)) (cells fs p)"

definition apart :: "nat \<times> nat \<Rightarrow> nat \<times> nat \<Rightarrow> bool" where
  "apart x y \<longleftrightarrow> fst x + snd x \<le> fst y \<or> fst y + snd y \<le> fst x"

fun all_apart :: "(nat \<times> nat) list \<Rightarrow> bool" where
  "all_apart [] \<longleftrightarrow> True"
| "all_apart (x # xs) \<longleftrightarrow> list_all (apart x) xs \<and> all_apart xs"

definition plain_message :: "pb_field_t list \<Rightarrow> bool" where
  "plain_message fs \<longleftrightarrow>
     length fs < 2 ^ 32 \<and> list_all plain_field (butlast fs) \<and> distinct (map field_tag fs) \<and>
     all_apart (concat (map (footprint fs) [0..<length fs - 1]))"

lemma apart_sym: "apart x y \<Longrightarrow> apart y x"
  by (auto simp: apart_def)

lemma all_apart_append:
  "all_apart (xs @ ys) \<longleftrightarrow> all_apart xs \<and> all_apart ys \<and> (\<forall>x \<in> set xs. \<forall>y \<in> set ys. apart x y)"
  by (induction xs) (auto simp: list_all_iff)

lemma all_apart_concat:
  "all_apart (concat xss) \<Longrightarrow> i < length xss \<Longrightarrow> all_apart (xss ! i) \<and>
     (\<forall>j < length xss. i \<noteq> j \<longrightarrow> (\<forall>x \<in> set (xss ! i). \<forall>y \<in> set (xss ! j). apart x y))"
proof (induction xss arbitrary: i)
  case (Cons xs xss)
  have h: "apart x y" if "x \<in> set xs" "j < length xss" "y \<in> set (xss ! j)" for x y j
    using Cons.prems(1) nth_mem [OF that(2)] that(1,3) by (simp add: all_apart_append)
  have t: "all_apart (concat xss)" "all_apart xs" using Cons.prems(1) by (simp_all add: all_apart_append)
  show ?case
  proof (cases i)
    case 0
    have "apart x y" if "j < length (xs # xss)" "i \<noteq> j" "x \<in> set ((xs # xss) ! i)" "y \<in> set ((xs # xss) ! j)" for j x y
      using that 0 h by (cases j) auto
    then show ?thesis using t 0 by simp
  next
    case (Suc i')
    have i': "i' < length xss" using Cons.prems(2) Suc by simp
    have "apart x y" if "j < length (xs # xss)" "i \<noteq> j" "x \<in> set ((xs # xss) ! i)" "y \<in> set ((xs # xss) ! j)" for j x y
      using that Suc Cons.IH [OF t(1) i'] h i' apart_sym by (cases j) auto
    then show ?thesis using Cons.IH [OF t(1) i'] Suc by simp
  qed
qed simp

lemma plain_fieldD: "plain_message fs \<Longrightarrow> p < length fs - 1 \<Longrightarrow> plain_field (fs ! p)"
  by (auto simp: plain_message_def list_all_length nth_butlast)

lemma plain_apart:
  assumes "plain_message fs" and "p < length fs - 1"
  shows "all_apart (footprint fs p)"
    and "q < length fs - 1 \<Longrightarrow> p \<noteq> q \<Longrightarrow> x \<in> set (footprint fs p) \<Longrightarrow> y \<in> set (footprint fs q) \<Longrightarrow> apart x y"
  using all_apart_concat [of "map (footprint fs) [0..<length fs - 1]" p] assms by (simp_all add: plain_message_def)

lemma region_offset: "a + c = a + of_nat (unat (c :: u64))"
  by simp

lemma apart_regions:
  assumes "apart (unat c, n) (unat d, k)" and "unat c + n \<le> len" and "unat d + k \<le> len" and "object a len"
  shows "region (a + c) n \<inter> region (a + d) k = {}"
proof -
  have "len < 2 ^ 64" using assms(4) by (simp add: object_def)
  then have "region (a + of_nat (unat c)) n \<inter> region (a + of_nat (unat d)) k = {}"
    using assms(1-3) by (intro region_disjoint) (auto simp: apart_def)
  then show ?thesis by simp
qed

lemma region_0 [simp]: "region a 0 = {}"
  by (simp add: region_def)

lemma plain_htype:
  assumes "plain_field f"
  shows "PB_HTYPE (field_type f) = PB_HTYPE_REQUIRED \<or> PB_HTYPE (field_type f) = PB_HTYPE_OPTIONAL \<or>
    PB_HTYPE (field_type f) = PB_HTYPE_REPEATED" and "PB_HTYPE (field_type f) \<noteq> PB_HTYPE_ONEOF"
  using assms by (auto simp: plain_field_def Let_def type_codes)

lemma cell_offset:
  assumes "plain_message fs" and "p < length fs - 1"
  shows "size_cell fs p = field_offset fs p + scast (size_offset (fs ! p))"
proof (cases p)
  case (Suc k)
  then have "PB_HTYPE (field_type (fs ! k)) \<noteq> PB_HTYPE_ONEOF"
    using plain_htype(2) [OF plain_fieldD [OF assms(1)], of k] assms(2) by simp
  then show ?thesis using Suc by (simp add: in_union_def)
qed simp

lemma field_bounds:
  assumes "message_fits lens k fs len" and "plain_message fs" and "p < length fs - 1"
  shows "list_all (\<lambda>(o', n). o' + n \<le> len) (footprint fs p)"
proof -
  have f: "field_fits lens fs len p" using assms(1,3) by (simp add: message_fits_def list_all_iff)
  have pl: "plain_field (fs ! p)" by (rule plain_fieldD [OF assms(2,3)])
  have cell: "size_cell fs p \<noteq> field_offset fs p" if "PB_HTYPE (field_type (fs ! p)) \<noteq> PB_HTYPE_REQUIRED"
  proof -
    have "size_offset (fs ! p) \<noteq> 0" using pl that by (auto simp: plain_field_def Let_def)
    moreover have "(ucast (scast (size_offset (fs ! p)) :: u64) :: 32 word) = size_offset (fs ! p)" by (rule ucast_scast) simp
    ultimately have "scast (size_offset (fs ! p)) \<noteq> (0 :: u64)" by auto
    then show ?thesis using cell_offset [OF assms(2,3)] by simp
  qed
  show ?thesis using f cell pl
    by (auto simp: footprint_def cells_def field_fits_def Let_def cell_size_def plain_field_def type_codes)
qed

text \<open>Two fields share no memory, and no field shares any with its size member.\<close>

lemma area_at:
  assumes "dest \<noteq> 0"
  shows "area (iter_at fs dest p) = (\<Union>(c, n) \<in> set (cells fs p). region (dest + c) n)"
  by (auto simp: area_def cells_def field_data_offset [OF assms] field_size_cell [OF assms] cell_size_def
    simp del: field_data.simps field_size.simps field_offset.simps size_cell.simps)

lemma cell_fits:
  "message_fits lens k fs len \<Longrightarrow> plain_message fs \<Longrightarrow> p < length fs - 1 \<Longrightarrow> (c, n) \<in> set (cells fs p) \<Longrightarrow> unat c + n \<le> len"
  using field_bounds [of lens k fs len p] by (force simp: list_all_iff footprint_def)

lemma areas_disjoint:
  assumes fit: "message_fits lens k fs len" and pl: "plain_message fs" and obj: "object dest len"
    and p: "p < length fs - 1" and q: "q < length fs - 1" "p \<noteq> q"
  shows "area (iter_at fs dest p) \<inter> area (iter_at fs dest q) = {}"
proof -
  have d: "dest \<noteq> 0" using obj by (simp add: object_def)
  have "region (dest + c) n \<inter> region (dest + d) j = {}" if c: "(c, n) \<in> set (cells fs p)" and d: "(d, j) \<in> set (cells fs q)" for c n d j
  proof (rule apart_regions [OF _ cell_fits [OF fit pl p c] cell_fits [OF fit pl q(1) d] obj])
    show "apart (unat c, n) (unat d, j)" by (rule plain_apart(2) [OF pl p q]) (use c d in \<open>force simp: footprint_def\<close>)+
  qed
  then show ?thesis unfolding area_at [OF d] by blast
qed

lemma own_disjoint:
  assumes fit: "message_fits lens k fs len" and pl: "plain_message fs" and obj: "object dest len" and p: "p < length fs - 1"
  shows "region (field_data fs dest p) (extent (fs ! p)) \<inter> region (field_size fs dest p) (cell_size (fs ! p)) = {}"
proof (cases "PB_HTYPE (field_type (fs ! p)) = PB_HTYPE_REQUIRED")
  case False
  have d: "dest \<noteq> 0" using obj by (simp add: object_def)
  have c: "(field_offset fs p, extent (fs ! p)) \<in> set (cells fs p)" "(size_cell fs p, cell_size (fs ! p)) \<in> set (cells fs p)"
    using False by (simp_all add: cells_def)
  have "apart (unat (field_offset fs p), extent (fs ! p)) (unat (size_cell fs p), cell_size (fs ! p))"
    using plain_apart(1) [OF pl p] False by (simp add: footprint_def cells_def)
  from apart_regions [OF this cell_fits [OF fit pl p c(1)] cell_fits [OF fit pl p c(2)] obj]
  show ?thesis by (simp only: field_data_offset [OF d] field_size_cell [OF d])
qed (simp add: cell_size_def)

lemma area_in:
  assumes fit: "message_fits lens k fs len" and pl: "plain_message fs" and d: "dest \<noteq> 0" and p: "p < length fs - 1"
  shows "area (iter_at fs dest p) \<subseteq> region dest len"
proof -
  have "region (dest + c) n \<subseteq> region dest len" if "(c, n) \<in> set (cells fs p)" for c n
    using region_sub [of "unat c" n len dest] cell_fits [OF fit pl p that] by simp
  then show ?thesis unfolding area_at [OF d] by blast
qed

lemma size_at:
  assumes pl: "plain_message fs" and d: "dest \<noteq> 0" and p: "p < length fs - 1"
  shows "field_size fs dest p = field_data fs dest p + scast (size_offset (fs ! p))"
  unfolding field_data_offset [OF d] field_size_cell [OF d] cell_offset [OF pl p] by (simp add: add.assoc)

end
