(* ===== verification/Pb_Msg_Parts.thy ===== *)
theory Pb_Msg_Parts
  imports Pb_Msg_Copy
begin

text \<open>
  The values of a message are where its fields are: memories that agree on a message have the same values
  for it.
\<close>

section \<open>Values\<close>

lemma load_int_agree:
  assumes "agree (region a (unat sz)) m m'"
  shows "load_signed m' sz a = load_signed m sz a" "load_unsigned m' sz a = load_unsigned m sz a"
proof -
  have "load_uint m' a (unat sz) = load_uint m a (unat sz)" using load_agree [OF assms] by (simp add: load_uint_def)
  then show "load_signed m' sz a = load_signed m sz a" "load_unsigned m' sz a = load_unsigned m sz a"
    by (auto simp: load_signed_def load_unsigned_def load_u32_def load_u64_def)
qed

lemma value_at_agree:
  assumes f: "PB_ATYPE (field_type f) = PB_ATYPE_STATIC" "value_fits lens f" "PB_LTYPE (field_type f) \<noteq> PB_LTYPE_SUBMESSAGE"
    and pl: "plain_field f" and ag: "agree (region a (unat (data_size f))) m m'" and w: "value_at m f a = Some w" and a: "a \<noteq> 0"
  shows "value_at m' f a = Some w"
proof -
  let ?ds = "unat (data_size f)"
  have e: "encodable (PB_LTYPE (field_type f))" using f(2) by (simp add: value_fits_def Let_def)
  have n: "PB_LTYPE (field_type f) = PB_LTYPE_BOOL \<Longrightarrow> 1 \<le> ?ds" "PB_LTYPE (field_type f) = PB_LTYPE_FIXED32 \<Longrightarrow> 4 \<le> ?ds"
    "PB_LTYPE (field_type f) = PB_LTYPE_FIXED64 \<Longrightarrow> 8 \<le> ?ds" "PB_LTYPE (field_type f) = PB_LTYPE_BYTES \<Longrightarrow> 4 \<le> ?ds"
    using f(2) pl by (simp_all add: value_fits_def plain_field_def Let_def)
  have part: "load m' (a + of_nat i) j = load m (a + of_nat i) j" if "i + j \<le> ?ds" for i j
    by (rule load_agree, rule agree_mono [OF ag], rule region_sub [OF that])
  have front: "load m' a j = load m a j" if "j \<le> ?ds" for j using part [of 0 j] that by simp
  have np: "PB_ATYPE_STATIC \<noteq> PB_ATYPE_POINTER" by code_simp
  note [simp] = ltype_defs
  show ?thesis
    using e
  proof (cases rule: encodable_cases)
    case 1
    then have "m' a = m a" using front [of 1] n(1) by (simp add: load_def)
    then show ?thesis using w 1 by (simp add: value_at_def)
  next
    case 7
    let ?n = "unat (load_u32 m a)"
    have r: "4 \<le> ?ds" using n(4) 7 by simp
    have lim: "(?ds + SIZE_MOD - OFFSETOF_BYTES) mod SIZE_MOD = ?ds - 4"
      using r unat_u32_less [of "data_size f"] by (auto simp: SIZE_MOD_def OFFSETOF_BYTES_def mod_if)
    have u: "load_u32 m' a = load_u32 m a" using front [of 4] r by (simp add: load_u32_def load_uint_def)
    have n4: "?n \<le> ?ds - 4" and "w = Wstring (load m (a + of_nat OFFSETOF_BYTES) ?n)"
      using w 7 f(1) a by (auto simp: value_at_def Let_def lim split: if_splits)
    moreover have "load m' (a + of_nat OFFSETOF_BYTES) ?n = load m (a + of_nat OFFSETOF_BYTES) ?n"
      using n4 r by (intro part) (simp add: OFFSETOF_BYTES_def)
    ultimately show ?thesis using n4 7 f(1) a by (simp add: value_at_def Let_def u lim)
  next
    case 8
    then show ?thesis using w f(1) np front [of ?ds] a by (auto simp: value_at_def Let_def)
  qed (use w f(3) front [of ?ds] front [of 4] front [of 8] n load_int_agree [OF ag] in
      \<open>simp_all add: value_at_def load_u32_def load_u64_def load_uint_def Let_def\<close>)
qed

definition keeps_subs ::
  "pb_field_t list list \<Rightarrow> nat list \<Rightarrow> nat \<Rightarrow> memory \<Rightarrow> memory \<Rightarrow> sub_wire \<Rightarrow> sub_wire \<Rightarrow> bool" where
  "keeps_subs descs lens k m m' sub sub' \<longleftrightarrow>
     (\<forall>j < k. \<forall>a ws. object a (lens ! j) \<longrightarrow> agree (region a (lens ! j)) m m' \<longrightarrow>
        sub (descs ! j) a = Some (Some ws) \<longrightarrow> sub' (descs ! j) a = Some (Some ws))"

lemma sub_value_iff:
  "sub_value sub fs a = Some (Some v) \<longleftrightarrow>
     (\<exists>ws. sub fs a = Some (Some ws) \<and> length (message_bytes ws) < 2 ^ 63 \<and> v = Wstring (message_bytes ws))"
  by (auto simp: sub_value_def split: option.splits if_splits)

lemma wire_at_agree:
  assumes f: "static_field lens k f" "plain_field f" and l: "length lens = length descs"
    and sub: "keeps_subs descs lens k m m' sub sub'"
    and a: "object a (unat (data_size f))" "agree (region a (unat (data_size f))) m m'"
    and w: "wire_at descs m sub f a = Some (Some w)"
  shows "wire_at descs m' sub' f a = Some (Some w)"
proof (cases "PB_LTYPE (field_type f) = PB_LTYPE_SUBMESSAGE")
  case True
  obtain j where j: "j < k" "field_ptr f = Submsg_fields j" "submsg_fields descs f = Some (descs ! j)"
    "lens ! j \<le> unat (data_size f)" using submsg_desc [OF _ _ True l] f(1) by (metis static_field_def)
  obtain ws where ws: "sub (descs ! j) a = Some (Some ws)" "length (message_bytes ws) < 2 ^ 63" "w = Wstring (message_bytes ws)"
    using w True j by (auto simp: wire_at_def sub_value_iff)
  have "sub' (descs ! j) a = Some (Some ws)"
    using sub j(1) object_le [OF a(1) j(4)] agree_mono [OF a(2) region_mono [OF j(4)]] ws(1) unfolding keeps_subs_def by blast
  then show ?thesis using True j ws by (simp add: wire_at_def sub_value_iff)
next
  case False
  then show ?thesis
    using value_at_agree [OF _ _ False f(2) a(2), where lens = lens] f(1) w a(1) by (simp add: wire_at_def static_field_def object_def)
qed

section \<open>Entries of arrays\<close>

lemma entry_item:
  assumes "extent f < 2 ^ 32" and "PB_HTYPE (field_type f) = PB_HTYPE_REPEATED" and "i < unat (array_size f)"
  shows "data + of_nat i * ucast (data_size f) = array_item data f (of_nat i)"
    and "array_item data f (of_nat i) = data + of_nat (unat (data_size f) * i)"
    and "unat (data_size f) * i + unat (data_size f) \<le> extent f"
proof -
  let ?n = "unat (data_size f)"
  have "?n * Suc i \<le> extent f" unfolding extent_def using assms by (simp add: mult_le_mono2 del: mult_Suc_right)
  then show b: "?n * i + ?n \<le> extent f" by simp
  have i: "unat (of_nat i :: u32) = i"
    using assms(3) unat_u32_less [of "array_size f"] by (simp add: unat_of_nat take_bit_nat_eq_self)
  have "unat (data_size f * of_nat i) = ?n * i" using b assms(1) i by (subst unat_mult_lem [THEN iffD1]) simp_all
  moreover have "ucast x = (of_nat (unat x) :: u64)" for x :: u32 by simp
  ultimately show e: "array_item data f (of_nat i) = data + of_nat (?n * i)" by (simp only: array_item_def)
  have "ucast (data_size f) = (of_nat ?n :: u64)" by simp
  then show "data + of_nat i * ucast (data_size f) = array_item data f (of_nat i)"
    unfolding e by (simp only: of_nat_mult mult.commute)
qed

lemma entries_items:
  assumes "extent f < 2 ^ 32" and "PB_HTYPE (field_type f) = PB_HTYPE_REPEATED" and "n \<le> unat (array_size f)"
  shows "entries f data n = map (\<lambda>i. array_item data f (of_nat i)) [0..<n]"
  unfolding entries_def using entry_item(1) [OF assms(1,2)] assms(3) by (intro map_cong) auto

text \<open>The values of a field are in its area.\<close>

lemma items_in:
  assumes it: "field_in R lens k it" and x: "x \<in> set (items m it)"
    and n: "PB_HTYPE (field_type (it_field it)) = PB_HTYPE_REPEATED \<Longrightarrow> length (items m it) \<le> unat (array_size (it_field it))"
  shows "object x (unat (data_size (it_field it)))" "region x (unat (data_size (it_field it))) \<subseteq> region (pData it) (extent (it_field it))"
proof -
  let ?f = "it_field it" and ?ds = "unat (data_size (it_field it))"
  have F: "extent ?f < 2 ^ 32" "object (pData it) (extent ?f)" using it by (simp_all add: field_in_def Let_def)
  have "object x ?ds \<and> region x ?ds \<subseteq> region (pData it) (extent ?f)"
  proof (cases "PB_HTYPE (field_type ?f) = PB_HTYPE_REPEATED")
    case True
    let ?n = "unat (load_u32 m (pSize it))"
    have e: "items m it = entries ?f (pData it) ?n" using True by (simp add: items_def)
    then have le: "?n \<le> unat (array_size ?f)" using n [OF True] by simp
    then obtain i where i: "i < ?n" "x = array_item (pData it) ?f (of_nat i)"
      using x unfolding e entries_items [OF F(1) True le] by auto
    have i': "i < unat (array_size ?f)" using i le by simp
    note b = entry_item(3) [OF F(1) True i']
    show ?thesis unfolding i(2) entry_item(2) [OF F(1) True i'] using object_sub [OF F(2) b] region_sub [OF b] by blast
  next
    case False
    then have "x = pData it" using x by (auto simp: items_def Let_def split: if_splits)
    then show ?thesis using F(2) extent_single [OF False] by simp
  qed
  then show "object x ?ds" "region x ?ds \<subseteq> region (pData it) (extent ?f)" by simp_all
qed

lemma items_agree:
  assumes "plain_field (it_field it)" and "agree (area it) m m'"
  shows "items m' it = items m it"
proof -
  have c: "agree (region (pSize it) (cell_size (it_field it))) m m'" by (rule agree_mono [OF assms(2)]) (simp add: area_def)
  note [simp] = type_codes
  consider "PB_HTYPE (field_type (it_field it)) = PB_HTYPE_REQUIRED" | "PB_HTYPE (field_type (it_field it)) = PB_HTYPE_OPTIONAL"
    | "PB_HTYPE (field_type (it_field it)) = PB_HTYPE_REPEATED" using plain_htype(1) [OF assms(1)] by blast
  then show ?thesis
  proof cases
    case 2
    then have "m' (pSize it) = m (pSize it)" using load_agree [OF c] by (simp add: cell_size_def load_def)
    then show ?thesis using 2 by (simp add: items_def)
  next
    case 3
    then have "load_u32 m' (pSize it) = load_u32 m (pSize it)" using c by (intro load_u32_agree) (simp add: cell_size_def)
    then show ?thesis using 3 by (simp add: items_def)
  qed (simp add: items_def)
qed

lemma has_values_agree:
  assumes it: "field_in R lens k it" and pl: "plain_field (it_field it)" and l: "length lens = length descs"
    and sub: "keeps_subs descs lens k m m' sub sub'" and ag: "agree (area it) m m'"
    and v: "has_values descs m sub it vs"
  shows "has_values descs m' sub' it vs"
proof -
  have st: "static_field lens k (it_field it)" by (rule field_in_static [OF it])
  have "wire_at descs m' sub' (it_field it) x = Some (Some w)"
    if "x \<in> set (items m it)" "wire_at descs m sub (it_field it) x = Some (Some w)" for x w
  proof (rule wire_at_agree [OF st pl l sub _ _ that(2)])
    note in_x = items_in [OF it that(1)]
    show "object x (unat (data_size (it_field it)))" using in_x(1) v by (simp add: has_values_def)
    show "agree (region x (unat (data_size (it_field it)))) m m'"
      by (rule agree_mono [OF ag]) (use in_x(2) v in \<open>auto simp: has_values_def area_def\<close>)
  qed
  then show ?thesis
    using v unfolding has_values_def items_agree [OF pl ag] by (auto elim!: list.rel_mono_strong)
qed

section \<open>Messages\<close>

definition wire_in :: "'s pb_env \<Rightarrow> callback_wire \<Rightarrow> nat \<Rightarrow> memory \<Rightarrow> sub_wire" where
  "wire_in E cw n m = msg_wire (E\<lparr>env_mem := m\<rparr>) cw n"

lemma collect_fun:
  "collect f xs = Some (Some ws) \<longleftrightarrow> (\<exists>g. (\<forall>x \<in> set xs. f x = Some (Some (g x))) \<and> ws = concat (map g xs))"
proof (induction xs arbitrary: ws)
  case (Cons x xs)
  have "collect f (x # xs) = Some (Some ws) \<longleftrightarrow>
      (\<exists>a b. f x = Some (Some a) \<and> collect f xs = Some (Some b) \<and> ws = a @ b)"
    by (auto simp: join_def split: option.splits)
  also have "\<dots> \<longleftrightarrow> (\<exists>g. (\<forall>y \<in> set (x # xs). f y = Some (Some (g y))) \<and> ws = concat (map g (x # xs)))"
    unfolding Cons.IH
  proof (intro iffI; elim exE conjE)
    fix a b g assume h: "f x = Some (Some a)" "ws = a @ b" "\<forall>x\<in>set xs. f x = Some (Some (g x))" "b = concat (map g xs)"
    have m: "map (\<lambda>y. the (the (f y))) xs = map g xs" using h(3) by (intro map_cong) auto
    have "ws = concat (map (\<lambda>y. the (the (f y))) (x # xs))" using h by (simp add: m)
    moreover have "\<forall>y \<in> set (x # xs). f y = Some (Some (the (the (f y))))" using h by auto
    ultimately show "\<exists>g. (\<forall>y \<in> set (x # xs). f y = Some (Some (g y))) \<and> ws = concat (map g (x # xs))"
      by (intro exI [of _ "\<lambda>y. the (the (f y))"] conjI)
  qed auto
  finally show ?case .
qed auto

lemma wire_in_iff:
  assumes fit: "message_fits lens k fs len" and pl: "plain_message fs" and obj: "object a len"
  shows "wire_in E cw (Suc n) m fs a = Some (Some ws) \<longleftrightarrow>
    (\<exists>V. (\<forall>p < length fs - 1. has_values (env_descs E) m (wire_in E cw n m) (iter_at fs a p) (V p)) \<and>
       ws = concat (map (\<lambda>p. wires_of (fs ! p) (V p)) [0..<length fs - 1]))"
proof -
  let ?E = "E\<lparr>env_mem := m\<rparr>" and ?sub = "wire_in E cw n m" and ?N = "length fs - 1"
  let ?has = "\<lambda>p. has_values (env_descs E) m ?sub (iter_at fs a p)"
  have a: "a \<noteq> 0" using obj by (simp add: object_def)
  have step: "(if PB_LTYPE (field_type (fs ! p)) = PB_LTYPE_EXTENSION
            then (case extension_list (env_mem ?E) n (load_u64 (env_mem ?E) (field_data fs a p)) of
                    None \<Rightarrow> None
                  | Some es \<Rightarrow> collect (extension_wire ?E cw n (msg_wire ?E cw n)) es)
            else field_wire ?E cw n (msg_wire ?E cw n) (fs ! p) (field_data fs a p)) = Some (Some w) \<longleftrightarrow>
      (\<exists>vs. ?has p vs \<and> w = wires_of (fs ! p) vs)" if p: "p < ?N" for p w
  proof -
    have f: "static_field lens k (fs ! p)" by (rule message_static_field [OF fit p])
    then have ne: "PB_LTYPE (field_type (fs ! p)) \<noteq> PB_LTYPE_EXTENSION" by (auto simp: static_field_def dest: not_extension)
    have "pData (iter_at fs a p) \<noteq> 0"
      using message_field_in [OF fit obj subset_refl p] by (auto simp: field_in_def object_def Let_def)
    then have "field_wire ?E cw n ?sub (it_field (iter_at fs a p)) (pData (iter_at fs a p)) = Some (Some w) \<longleftrightarrow>
        (\<exists>vs. has_values (env_descs ?E) (env_mem ?E) ?sub (iter_at fs a p) vs \<and> w = wires_of (it_field (iter_at fs a p)) vs)"
      using f plain_fieldD [OF pl p] size_at [OF pl a p] by (intro field_wire_iff) (simp_all add: static_field_def)
    then show ?thesis using ne by (simp add: wire_in_def)
  qed
  have "wire_in E cw (Suc n) m fs a = Some (Some ws) \<longleftrightarrow>
      (\<exists>g. (\<forall>p \<in> set [0..<?N]. \<exists>vs. ?has p vs \<and> g p = wires_of (fs ! p) vs) \<and> ws = concat (map g [0..<?N]))"
    using step unfolding wire_in_def msg_wire.simps collect_fun by (simp cong: conj_cong)
  also have "\<dots> \<longleftrightarrow> (\<exists>V. (\<forall>p < ?N. ?has p (V p)) \<and> ws = concat (map (\<lambda>p. wires_of (fs ! p) (V p)) [0..<?N]))"
  proof
    assume "\<exists>g. (\<forall>p \<in> set [0..<?N]. \<exists>vs. ?has p vs \<and> g p = wires_of (fs ! p) vs) \<and> ws = concat (map g [0..<?N])"
    then obtain g where g: "\<forall>p \<in> set [0..<?N]. \<exists>vs. ?has p vs \<and> g p = wires_of (fs ! p) vs" "ws = concat (map g [0..<?N])" by blast
    from bchoice [OF g(1)] obtain V where V: "\<forall>p \<in> set [0..<?N]. ?has p (V p) \<and> g p = wires_of (fs ! p) (V p)" by blast
    then have m: "map g [0..<?N] = map (\<lambda>p. wires_of (fs ! p) (V p)) [0..<?N]" by (intro map_cong) auto
    then show "\<exists>V. (\<forall>p < ?N. ?has p (V p)) \<and> ws = concat (map (\<lambda>p. wires_of (fs ! p) (V p)) [0..<?N])" unfolding g(2) m using V by (intro exI [of _ V] conjI refl) simp
  next
    assume "\<exists>V. (\<forall>p < ?N. ?has p (V p)) \<and> ws = concat (map (\<lambda>p. wires_of (fs ! p) (V p)) [0..<?N])"
    then obtain V where V: "\<forall>p < ?N. ?has p (V p)" "ws = concat (map (\<lambda>p. wires_of (fs ! p) (V p)) [0..<?N])" by blast
    have "\<forall>p \<in> set [0..<?N]. \<exists>vs. ?has p vs \<and> wires_of (fs ! p) (V p) = wires_of (fs ! p) vs" using V(1) by auto
    then show "\<exists>g. (\<forall>p \<in> set [0..<?N]. \<exists>vs. ?has p vs \<and> g p = wires_of (fs ! p) vs) \<and> ws = concat (map g [0..<?N])"
      by (intro exI [of _ "\<lambda>p. wires_of (fs ! p) (V p)"] conjI V(2))
  qed
  finally show ?thesis .
qed

text \<open>The wire form of a message depends on its structure only.\<close>

lemma wire_in_agree:
  assumes st: "static_descs (env_descs E) lens" and pls: "list_all plain_message (env_descs E)"
  shows "message_fits lens k fs len \<Longrightarrow> plain_message fs \<Longrightarrow> k \<le> length (env_descs E) \<Longrightarrow> object a len \<Longrightarrow>
    agree (region a len) m m' \<Longrightarrow> wire_in E cw n m fs a = Some (Some ws) \<Longrightarrow> wire_in E cw n m' fs a = Some (Some ws)"
proof (induction n arbitrary: k fs len a ws)
  case (Suc n)
  note fit = Suc.prems(1) and pl = Suc.prems(2) and k = Suc.prems(3) and obj = Suc.prems(4)
  have l: "length lens = length (env_descs E)" by (rule static_descsD(2) [OF st])
  have sub: "keeps_subs (env_descs E) lens k m m' (wire_in E cw n m) (wire_in E cw n m')"
    unfolding keeps_subs_def
  proof (intro allI impI)
    fix j b us
    assume j: "j < k" "object b (lens ! j)" "agree (region b (lens ! j)) m m'" "wire_in E cw n m (env_descs E ! j) b = Some (Some us)"
    have jl: "j < length (env_descs E)" using j(1) k by simp
    show "wire_in E cw n m' (env_descs E ! j) b = Some (Some us)"
      by (rule Suc.IH [OF static_descsD(1) [OF st jl] _ _ j(2-4)]) (use pls jl in \<open>simp_all add: list_all_length\<close>)
  qed
  obtain V where V: "\<And>p. p < length fs - 1 \<Longrightarrow> has_values (env_descs E) m (wire_in E cw n m) (iter_at fs a p) (V p)"
    "ws = concat (map (\<lambda>p. wires_of (fs ! p) (V p)) [0..<length fs - 1])"
    using Suc.prems(6) unfolding wire_in_iff [OF fit pl obj] by blast
  have a: "a \<noteq> 0" using obj by (simp add: object_def)
  have "has_values (env_descs E) m' (wire_in E cw n m') (iter_at fs a p) (V p)" if p: "p < length fs - 1" for p
  proof (rule has_values_agree [OF message_field_in [OF fit obj subset_refl p] _ l sub _ V(1) [OF p]])
    show "plain_field (it_field (iter_at fs a p))" using plain_fieldD [OF pl p] by simp
    show "agree (area (iter_at fs a p)) m m'" by (rule agree_mono [OF Suc.prems(5) area_in [OF fit pl a p]])
  qed
  then show ?case using V(2) unfolding wire_in_iff [OF fit pl obj] by blast
qed (simp add: wire_in_def)

end
