(* ===== verification/Pb_Msg_Blank.thy ===== *)
theory Pb_Msg_Blank
  imports Pb_Msg_Parts
begin

text \<open>
  Messages as the decoder finds them after \<open>pb_message_set_to_defaults\<close>: no optional field is there, arrays
  are empty, and so it is in the submessages.
\<close>

section \<open>Fields in memory\<close>

text \<open>A plain field at its place: its data and its size member are apart.\<close>

definition plain_at :: "nat list \<Rightarrow> nat \<Rightarrow> pb_field_iter_t \<Rightarrow> bool" where
  "plain_at lens k it \<longleftrightarrow>
     field_in (area it) lens k it \<and> plain_field (it_field it) \<and>
     region (pData it) (extent (it_field it)) \<inter> region (pSize it) (cell_size (it_field it)) = {} \<and>
     (PB_HTYPE (field_type (it_field it)) \<noteq> PB_HTYPE_REQUIRED \<longrightarrow> pSize it \<noteq> pData it)"

lemma scast_eq_0: "scast (x :: 32 word) = (0 :: u64) \<longleftrightarrow> x = 0"
proof
  assume "scast x = (0 :: u64)"
  moreover have "(ucast (scast x :: u64) :: 32 word) = x" by (rule ucast_scast) simp
  ultimately show "x = 0" by simp
qed simp

lemma plain_at_iter:
  assumes fit: "message_fits lens k fs len" and pl: "plain_message fs" and obj: "object a len" and p: "p < length fs - 1"
  shows "plain_at lens k (iter_at fs a p)"
proof -
  let ?it = "iter_at fs a p"
  have a: "a \<noteq> 0" using obj by (simp add: object_def)
  have f: "field_in (region a len) lens k ?it" by (rule message_field_in [OF fit obj subset_refl p])
  have pf: "plain_field (it_field ?it)" using plain_fieldD [OF pl p] by simp
  have "field_in (area ?it) lens k ?it"
    using f plain_htype(2) [OF pf] by (auto simp: field_in_def area_def cell_size_def Let_def type_codes)
  moreover have "pSize ?it \<noteq> pData ?it" if "PB_HTYPE (field_type (it_field ?it)) \<noteq> PB_HTYPE_REQUIRED"
    using pf that size_at [OF pl a p] by (auto simp: plain_field_def Let_def scast_eq_0)
  ultimately show ?thesis using pf own_disjoint [OF fit pl obj p] by (simp add: plain_at_def)
qed

text \<open>The submessage of a field.\<close>

lemma sub_place:
  assumes it: "plain_at lens k it" and sm: "PB_LTYPE (field_type (it_field it)) = PB_LTYPE_SUBMESSAGE"
    and l: "length lens = length descs"
  obtains j where "j < k" "field_ptr (it_field it) = Submsg_fields j" "submsg_fields descs (it_field it) = Some (descs ! j)"
    "lens ! j \<le> unat (data_size (it_field it))"
  using it submsg_desc [OF _ _ sm l] by (auto simp: plain_at_def field_in_def Let_def)

lemma single_place:
  assumes it: "plain_at lens k it" and h: "PB_HTYPE (field_type (it_field it)) \<noteq> PB_HTYPE_REPEATED"
  shows "object (pData it) (unat (data_size (it_field it)))" "region (pData it) (unat (data_size (it_field it))) \<subseteq> area it"
    "region (pData it) (unat (data_size (it_field it))) \<inter> region (pSize it) (cell_size (it_field it)) = {}"
  using it extent_single [OF h] by (auto simp: plain_at_def field_in_def area_def Let_def)

section \<open>Blank messages\<close>

definition blank_field :: "pb_field_t list list \<Rightarrow> memory \<Rightarrow> (pb_field_t list \<Rightarrow> u64 \<Rightarrow> bool) \<Rightarrow> pb_field_iter_t \<Rightarrow> bool" where
  "blank_field descs m sub it \<longleftrightarrow>
     (let f = it_field it; htype = PB_HTYPE (field_type f)
      in (htype = PB_HTYPE_OPTIONAL \<longrightarrow> m (pSize it) = 0) \<and> (htype = PB_HTYPE_REPEATED \<longrightarrow> load_u32 m (pSize it) = 0) \<and>
         (htype \<noteq> PB_HTYPE_REPEATED \<and> PB_LTYPE (field_type f) = PB_LTYPE_SUBMESSAGE \<longrightarrow>
            (case submsg_fields descs f of None \<Rightarrow> True | Some fs \<Rightarrow> sub fs (pData it))))"

fun blank :: "pb_field_t list list \<Rightarrow> memory \<Rightarrow> nat \<Rightarrow> pb_field_t list \<Rightarrow> u64 \<Rightarrow> bool" where
  "blank descs m 0 fs a \<longleftrightarrow> True"
| "blank descs m (Suc n) fs a \<longleftrightarrow>
     list_all (\<lambda>p. blank_field descs m (\<lambda>fs a. blank descs m n fs a) (iter_at fs a p)) [0..<length fs - 1]"

lemma blank_iff:
  "blank descs m (Suc n) fs a \<longleftrightarrow> (\<forall>p < length fs - 1. blank_field descs m (blank descs m n) (iter_at fs a p))"
  by (auto simp: list_all_iff)

declare blank.simps(2) [simp del]

lemma cell_agree:
  assumes "agree (region (pSize it) (cell_size (it_field it))) m m'"
  shows "PB_HTYPE (field_type (it_field it)) = PB_HTYPE_OPTIONAL \<Longrightarrow> m' (pSize it) = m (pSize it)"
    and "PB_HTYPE (field_type (it_field it)) = PB_HTYPE_REPEATED \<Longrightarrow> load_u32 m' (pSize it) = load_u32 m (pSize it)"
proof -
  show "m' (pSize it) = m (pSize it)" if "PB_HTYPE (field_type (it_field it)) = PB_HTYPE_OPTIONAL"
    using load_agree [OF assms] that by (simp add: cell_size_def load_def type_codes)
  show "load_u32 m' (pSize it) = load_u32 m (pSize it)" if "PB_HTYPE (field_type (it_field it)) = PB_HTYPE_REPEATED"
    using assms that by (intro load_u32_agree) (simp add: cell_size_def type_codes)
qed

lemma blank_field_agree:
  assumes it: "plain_at lens k it" and l: "length lens = length descs"
    and sub: "\<And>j b. j < k \<Longrightarrow> object b (lens ! j) \<Longrightarrow> agree (region b (lens ! j)) m m' \<Longrightarrow> sub (descs ! j) b \<Longrightarrow> sub' (descs ! j) b"
    and ag: "agree (area it) m m'" and b: "blank_field descs m sub it"
  shows "blank_field descs m' sub' it"
proof -
  have c: "agree (region (pSize it) (cell_size (it_field it))) m m'" by (rule agree_mono [OF ag]) (simp add: area_def)
  have "case submsg_fields descs (it_field it) of None \<Rightarrow> True | Some fs \<Rightarrow> sub' fs (pData it)"
    if h: "PB_HTYPE (field_type (it_field it)) \<noteq> PB_HTYPE_REPEATED" and sm: "PB_LTYPE (field_type (it_field it)) = PB_LTYPE_SUBMESSAGE"
  proof -
    obtain j where j: "j < k" "submsg_fields descs (it_field it) = Some (descs ! j)" "lens ! j \<le> unat (data_size (it_field it))"
      using sub_place [OF it sm l] by metis
    note d = single_place [OF it h]
    have "agree (region (pData it) (lens ! j)) m m'" by (rule agree_mono [OF ag]) (use d(2) region_mono [OF j(3)] in blast)
    then show ?thesis using sub [OF j(1) object_le [OF d(1) j(3)]] b h sm j(2) by (simp add: blank_field_def Let_def)
  qed
  then show ?thesis using b cell_agree [OF c] by (simp add: blank_field_def Let_def)
qed

lemma blank_agree:
  assumes st: "static_descs descs lens" and pls: "list_all plain_message descs"
  shows "message_fits lens k fs len \<Longrightarrow> plain_message fs \<Longrightarrow> k \<le> length descs \<Longrightarrow> object a len \<Longrightarrow>
    agree (region a len) m m' \<Longrightarrow> blank descs m n fs a \<Longrightarrow> blank descs m' n fs a"
proof (induction n arbitrary: k fs len a)
  case (Suc n)
  have l: "length lens = length descs" by (rule static_descsD(2) [OF st])
  have a: "a \<noteq> 0" using Suc.prems(4) by (simp add: object_def)
  have sub: "blank descs m' n (descs ! j) b"
    if j: "j < k" "object b (lens ! j)" "agree (region b (lens ! j)) m m'" "blank descs m n (descs ! j) b" for j b
  proof -
    have jl: "j < length descs" using j(1) Suc.prems(3) by simp
    show ?thesis by (rule Suc.IH [OF static_descsD(1) [OF st jl] _ _ j(2-4)]) (use pls jl in \<open>simp_all add: list_all_length\<close>)
  qed
  have "blank_field descs m' (blank descs m' n) (iter_at fs a p)" if p: "p < length fs - 1" for p
  proof (rule blank_field_agree [OF plain_at_iter [OF Suc.prems(1,2,4) p] l])
    show "agree (area (iter_at fs a p)) m m'" by (rule agree_mono [OF Suc.prems(5) area_in [OF Suc.prems(1,2) a p]])
    show "blank_field descs m (blank descs m n) (iter_at fs a p)" using Suc.prems(6) p by (simp add: blank_iff)
  qed (rule sub)
  then show ?case by (simp add: blank_iff)
qed simp

section \<open>The defaults are blank\<close>

lemma mem_fields_all:
  assumes ok: "fields_ok fs N"
    and step: "\<And>p m. p < N \<Longrightarrow> \<exists>m'. f (iter_at fs a p) m = Some m' \<and> within (A p) m m' \<and> P p m'"
    and keep: "\<And>p q m m'. p < N \<Longrightarrow> q < N \<Longrightarrow> p \<noteq> q \<Longrightarrow> within (A p) m m' \<Longrightarrow> P q m \<Longrightarrow> P q m'"
  shows "p < N \<Longrightarrow> N - p \<le> fuel \<Longrightarrow> (\<And>q. q < p \<Longrightarrow> P q m) \<Longrightarrow>
    \<exists>m'. mem_fields f fuel (iter_at fs a p) m = Some m' \<and> (\<forall>q < N. P q m')"
proof (induction fuel arbitrary: p m)
  case (Suc fuel)
  obtain m1 where m1: "f (iter_at fs a p) m = Some m1" "within (A p) m m1" "P p m1" using step [OF Suc.prems(1)] by blast
  have P: "P q m1" if "q < Suc p" for q
    using keep [OF Suc.prems(1) _ _ m1(2), of q] Suc.prems(1,3) m1(3) that by (cases "q = p") auto
  show ?case
  proof (cases "Suc p < N")
    case True
    then show ?thesis using Suc.IH [OF True _ P] Suc.prems(2) m1(1) iter_next_inside [OF ok True, of a] by simp
  next
    case False
    then have "Suc p = N" using Suc.prems(1) by simp
    then show ?thesis using m1(1) P iter_next_last [OF ok, of p a] by auto
  qed
qed simp

lemma store_at: "length bs \<le> 1 \<Longrightarrow> bs \<noteq> [] \<Longrightarrow> store m a bs a = hd bs"
  by (cases bs) auto

lemma set_defaults_step:
  assumes st: "static_descs (de_descs env) lens" and fit: "message_fits lens k fs len" and pl: "plain_message fs"
    and obj: "object a len" and pls: "list_all plain_message (de_descs env)" and k: "k \<le> length (de_descs env)"
    and step: "\<And>it m. plain_at lens k it \<Longrightarrow> \<exists>m'. pb_field_set_to_default env fuel it m = Some m' \<and> within (area it) m m' \<and>
      blank_field (de_descs env) m' (blank (de_descs env) m' n) it"
  shows "\<exists>m'. set_defaults env fuel fs a m = Some m' \<and> blank (de_descs env) m' (Suc n) fs a"
proof -
  let ?N = "length fs - 1" and ?d = "de_descs env"
  have ok: "fields_ok fs ?N" by (rule message_fields_ok [OF fit])
  have l: "length lens = length ?d" by (rule static_descsD(2) [OF st])
  have "\<exists>m'. mem_fields (pb_field_set_to_default env fuel) (length fs) (iter_at fs a 0) m = Some m' \<and>
      (\<forall>q < ?N. blank_field ?d m' (blank ?d m' n) (iter_at fs a q))"
  proof (rule mem_fields_all [OF ok, where A = "\<lambda>p. area (iter_at fs a p)"])
    show "\<exists>m'. pb_field_set_to_default env fuel (iter_at fs a p) m = Some m' \<and> within (area (iter_at fs a p)) m m' \<and>
        blank_field ?d m' (blank ?d m' n) (iter_at fs a p)" if "p < ?N" for p m
      by (rule step [OF plain_at_iter [OF fit pl obj that]])
    show "blank_field ?d m' (blank ?d m' n) (iter_at fs a q)"
      if pq: "p < ?N" "q < ?N" "p \<noteq> q" and w: "within (area (iter_at fs a p)) m m'"
        and b: "blank_field ?d m (blank ?d m n) (iter_at fs a q)" for p q m m'
    proof (rule blank_field_agree [OF plain_at_iter [OF fit pl obj pq(2)] l _ _ b])
      show "agree (area (iter_at fs a q)) m m'" by (rule within_agree [OF w areas_disjoint [OF fit pl obj pq]])
      fix j b assume j: "j < k" "object b (lens ! j)" "agree (region b (lens ! j)) m m'" "blank ?d m n (?d ! j) b"
      have jl: "j < length ?d" using j(1) k by simp
      show "blank ?d m' n (?d ! j) b"
        by (rule blank_agree [OF st pls static_descsD(1) [OF st jl] _ _ j(2-4)]) (use pls jl in \<open>simp_all add: list_all_length\<close>)
    qed
  qed (use ok in \<open>simp_all add: fields_ok_def\<close>)
  then show ?thesis by (auto simp: pb_message_set_to_defaults_def iter_begin [OF ok] blank_iff)
qed

lemma set_to_default_blank:
  assumes st: "static_descs (de_descs env) lens" and pls: "list_all plain_message (de_descs env)"
  shows "plain_at lens k it \<Longrightarrow> k \<le> length (de_descs env) \<Longrightarrow> k < fuel \<Longrightarrow>
    \<exists>m'. pb_field_set_to_default env fuel it m = Some m' \<and> within (area it) m m' \<and>
      blank_field (de_descs env) m' (blank (de_descs env) m' n) it"
proof (induction fuel arbitrary: k it m n)
  case (Suc fuel)
  let ?f = "it_field it" and ?d = "de_descs env" and ?ds = "unat (data_size (it_field it))"
  have F: "field_in (area it) lens k it" "plain_field ?f" "PB_ATYPE (field_type ?f) = PB_ATYPE_STATIC" "refers_below k ?f"
    using Suc.prems(1) by (simp_all add: plain_at_def field_in_def Let_def)
  have l: "length lens = length ?d" by (rule static_descsD(2) [OF st])
  obtain m' where m': "pb_field_set_to_default env (Suc fuel) it m = Some m'" "within (area it) m m'"
    using set_to_default_safe [OF st F(1) Suc.prems(2,3), of m] by (auto simp: safe_mem_def)
  let ?m0 = "if PB_HTYPE (field_type ?f) = PB_HTYPE_OPTIONAL then store m (pSize it) [0] else m"
  let ?init = "init_value env (\<lambda>fs a m. set_defaults env fuel fs a m) ?f (pData it) ?m0"
  note [simp] = type_codes
  have "blank_field ?d m' (blank ?d m' n) it"
  proof (cases "PB_HTYPE (field_type ?f) = PB_HTYPE_REPEATED")
    case True
    then have "m' = store_u32 m (pSize it) 0"
      using m'(1) F(3) not_extension [OF F(4)] by (simp add: Let_def)
    then have "load_u32 m' (pSize it) = 0" by (simp only: load_store_u32)
    then show ?thesis using True by (simp add: blank_field_def)
  next
    case False
    note d = single_place [OF Suc.prems(1) False]
    have m1: "?init = Some m'"
      using m'(1) F(3) not_extension [OF F(4)] plain_htype(1) [OF F(2)] False Suc.prems(1)
      by (auto simp: Let_def plain_at_def simp del: store.simps)
    have in_data: "safe_mem (region (pData it) ?ds) ?m0 ?init"
    proof (rule init_value_safe [OF F(4) _ l d(1) subset_refl])
      show "value_fits lens ?f" using F(1) by (simp add: field_in_def Let_def)
      fix j m assume j: "j < k" "object (pData it) (lens ! j)" "region (pData it) (lens ! j) \<subseteq> region (pData it) ?ds"
      show "safe_mem (region (pData it) ?ds) m (set_defaults env fuel (?d ! j) (pData it) m)"
        by (rule set_defaults_safe [OF st static_descsD(1) [OF st] _ _ j(2,3)]) (use j(1) Suc.prems(2,3) in simp_all)
    qed
    then have "within (region (pData it) ?ds) ?m0 m'" unfolding m1 by simp
    then have ag: "agree (region (pSize it) (cell_size ?f)) ?m0 m'" by (rule within_agree) (use d(3) in blast)
    then have flag: "m' (pSize it) = 0" if "PB_HTYPE (field_type ?f) = PB_HTYPE_OPTIONAL"
      using cell_agree(1) [OF ag that] that by simp
    have "case submsg_fields ?d ?f of None \<Rightarrow> True | Some fs \<Rightarrow> blank ?d m' n fs (pData it)"
      if sm: "PB_LTYPE (field_type ?f) = PB_LTYPE_SUBMESSAGE"
    proof (cases n)
      case (Suc n')
      obtain j where j: "j < k" "submsg_fields ?d ?f = Some (?d ! j)" "lens ! j \<le> ?ds"
        using sub_place [OF Suc.prems(1) sm l] by metis
      have jk: "j < length ?d" "j \<le> length ?d" "j < fuel" using j(1) Suc.prems(2,3) by simp_all
      have "\<exists>m'. set_defaults env fuel (?d ! j) (pData it) ?m0 = Some m' \<and> blank ?d m' (Suc n') (?d ! j) (pData it)"
        by (rule set_defaults_step [OF st static_descsD(1) [OF st jk(1)] _ object_le [OF d(1) j(3)] pls jk(2)], use pls jk(1) in \<open>simp add: list_all_length\<close>)
          (rule Suc.IH [OF _ jk(2,3)])
      then show ?thesis using m1 sm j(2) Suc by (simp add: init_value_def del: store.simps)
    qed (simp split: option.split)
    then show ?thesis using flag False by (simp add: blank_field_def Let_def)
  qed
  then show ?case using m' by blast
qed simp

lemma set_defaults_blank:
  assumes st: "static_descs (de_descs env) lens" and pls: "list_all plain_message (de_descs env)"
    and fit: "message_fits lens k fs len" and pl: "plain_message fs" and k: "k \<le> length (de_descs env)" "k < fuel"
    and obj: "object a len"
  shows "\<exists>m'. set_defaults env fuel fs a m = Some m' \<and> within (region a len) m m' \<and> (\<forall>n. blank (de_descs env) m' n fs a)"
proof -
  obtain m' where m': "set_defaults env fuel fs a m = Some m'" "within (region a len) m m'"
    using set_defaults_safe [OF st fit k obj subset_refl, of m] by (auto simp: safe_mem_def)
  have "blank (de_descs env) m' n fs a" for n
  proof (cases n)
    case (Suc n')
    have "\<exists>m'. set_defaults env fuel fs a m = Some m' \<and> blank (de_descs env) m' (Suc n') fs a"
      by (rule set_defaults_step [OF st fit pl obj pls k(1)]) (rule set_to_default_blank [OF st pls _ k])
    then show ?thesis using m'(1) Suc by simp
  qed simp
  then show ?thesis using m' by blast
qed

end
