(* ===== verification/Pb_Msg_Back.thy ===== *)
theory Pb_Msg_Back
  imports Pb_Msg_Blank
begin

text \<open>
  Reading back the fields of a message: what the decoder does with the wire form of one field.
\<close>

section \<open>The source\<close>

text \<open>
  Strings that end inside of their field. The encoder also writes a string that takes all of its field;
  the decoder does not accept it.
\<close>

definition field_strings :: "pb_field_t list list \<Rightarrow> memory \<Rightarrow> (pb_field_t list \<Rightarrow> u64 \<Rightarrow> bool) \<Rightarrow> pb_field_iter_t \<Rightarrow> bool" where
  "field_strings descs m sub it \<longleftrightarrow>
     (let f = it_field it; ltype = PB_LTYPE (field_type f)
      in (ltype = PB_LTYPE_STRING \<longrightarrow> list_all (\<lambda>a. 0 \<in> set (load m a (unat (data_size f)))) (items m it)) \<and>
         (ltype = PB_LTYPE_SUBMESSAGE \<longrightarrow>
            (case submsg_fields descs f of None \<Rightarrow> True | Some fs \<Rightarrow> list_all (sub fs) (items m it))))"

fun strings_end :: "pb_field_t list list \<Rightarrow> memory \<Rightarrow> nat \<Rightarrow> pb_field_t list \<Rightarrow> u64 \<Rightarrow> bool" where
  "strings_end descs m 0 fs a \<longleftrightarrow> True"
| "strings_end descs m (Suc n) fs a \<longleftrightarrow>
     list_all (\<lambda>p. field_strings descs m (\<lambda>fs a. strings_end descs m n fs a) (iter_at fs a p)) [0..<length fs - 1]"

lemma strings_end_iff:
  "strings_end descs m (Suc n) fs a \<longleftrightarrow> (\<forall>p < length fs - 1. field_strings descs m (strings_end descs m n) (iter_at fs a p))"
  by (auto simp: list_all_iff)

declare strings_end.simps(2) [simp del]

section \<open>Items\<close>

text \<open>
  \<open>W m\<close> gives the wire form of the messages in \<open>m\<close>, and \<open>ms\<close> is the memory with the source. \<open>F\<close> has the
  local variables of the decoder.
\<close>

definition read_item ::
  "pb_field_t list list \<Rightarrow> (memory \<Rightarrow> sub_wire) \<Rightarrow> u64 set \<Rightarrow> (unit pb_istream_t \<Rightarrow> u64 \<Rightarrow> memory \<Rightarrow> unit dresult) \<Rightarrow>
     pb_field_t \<Rightarrow> u64 \<Rightarrow> memory \<Rightarrow> wire_value \<Rightarrow> bool" where
  "read_item descs W F dec f a m v \<longleftrightarrow>
     (\<forall>c x e. \<exists>m'. dec (stream_of (wire_payload v @ c) x e) a m = Some (True, stream_of c x e, m') \<and>
        within (region a (unat (data_size f)) \<union> F) m m' \<and> wire_at descs m' (W m') f a = Some (Some v))"

definition sub_back ::
  "pb_field_t list list \<Rightarrow> nat list \<Rightarrow> (memory \<Rightarrow> sub_wire) \<Rightarrow> (pb_field_t list \<Rightarrow> u64 \<Rightarrow> bool) \<Rightarrow> u64 set \<Rightarrow> memory \<Rightarrow>
     nat \<Rightarrow> unit sub_decoder \<Rightarrow> bool" where
  "sub_back descs lens W ends F ms k sub \<longleftrightarrow>
     (\<forall>j < k. \<forall>init b a m ws x e.
        object a (lens ! j) \<longrightarrow> region a (lens ! j) \<inter> F = {} \<longrightarrow> object b (lens ! j) \<longrightarrow>
        W ms (descs ! j) b = Some (Some ws) \<longrightarrow> ends (descs ! j) b \<longrightarrow> length (message_bytes ws) < 2 ^ 32 \<longrightarrow>
        (\<not> init \<longrightarrow> (\<forall>n. blank descs m n (descs ! j) a)) \<longrightarrow>
        (\<exists>m'. sub init (stream_of (message_bytes ws) x e) (descs ! j) a m = Some (True, stream_of [] x e, m') \<and>
           within (region a (lens ! j) \<union> F) m m' \<and> W m' (descs ! j) a = Some (Some ws)))"

lemma in_substream_of:
  assumes "length bs < 2 ^ 32" and "body (stream_of bs (c @ x) e) = Some (True, stream_of [] (c @ x) e, m')"
  shows "in_substream (stream_of (leb (length bs) @ bs @ c) x e) m body = Some (True, stream_of c x e, m')"
  using close_substream [of bs c x e "[]" e] close_substream [of c c x e "[]" e] assms
  by (simp add: in_substream_def make_substream close_substream)

definition source_item :: "pb_field_t list list \<Rightarrow> memory \<Rightarrow> sub_wire \<Rightarrow> (pb_field_t list \<Rightarrow> u64 \<Rightarrow> bool) \<Rightarrow> pb_field_t \<Rightarrow> u64 \<Rightarrow> wire_value \<Rightarrow> bool" where
  "source_item descs ms sub ends f b v \<longleftrightarrow>
     wire_at descs ms sub f b = Some (Some v) \<and> object b (unat (data_size f)) \<and> wire_ok v \<and>
     (PB_LTYPE (field_type f) = PB_LTYPE_STRING \<longrightarrow> 0 \<in> set (load ms b (unat (data_size f)))) \<and>
     (PB_LTYPE (field_type f) = PB_LTYPE_SUBMESSAGE \<longrightarrow>
        (case submsg_fields descs f of None \<Rightarrow> True | Some fs \<Rightarrow> ends fs b))"

definition blank_at :: "pb_field_t list list \<Rightarrow> pb_field_t \<Rightarrow> u64 \<Rightarrow> memory \<Rightarrow> bool" where
  "blank_at descs f a m \<longleftrightarrow>
     (PB_HTYPE (field_type f) \<noteq> PB_HTYPE_REPEATED \<and> PB_LTYPE (field_type f) = PB_LTYPE_SUBMESSAGE \<longrightarrow>
        (case submsg_fields descs f of None \<Rightarrow> True | Some fs \<Rightarrow> \<forall>n. blank descs m n fs a))"

lemma item_back:
  assumes f: "static_field lens k f" "plain_field f" and l: "length lens = length (de_descs env)"
    and sub: "sub_back (de_descs env) lens W ends F ms k sub"
    and a: "object a (unat (data_size f))" "region a (unat (data_size f)) \<inter> F = {}" "blank_at (de_descs env) f a m"
    and src: "source_item (de_descs env) ms (W ms) ends f b v"
  shows "read_item (de_descs env) W F (\<lambda>s a m. PB_DECODERS env sub (PB_LTYPE (field_type f)) s f a m) f a m v"
proof (cases "PB_LTYPE (field_type f) = PB_LTYPE_SUBMESSAGE")
  case True
  let ?d = "de_descs env"
  obtain j where j: "j < k" "field_ptr f = Submsg_fields j" "submsg_fields ?d f = Some (?d ! j)"
    "lens ! j \<le> unat (data_size f)" using submsg_desc [OF _ _ True l] f(1) by (metis static_field_def)
  obtain ws where ws: "W ms (?d ! j) b = Some (Some ws)" "v = Wstring (message_bytes ws)" "length (message_bytes ws) < 2 ^ 63"
    using src True j by (auto simp: source_item_def wire_at_def sub_value_iff)
  have small: "length (message_bytes ws) < 2 ^ 32" using src ws(2) by (simp add: source_item_def)
  have ends: "ends (?d ! j) b" using src True j(3) by (simp add: source_item_def)
  have b: "object b (lens ! j)" using src object_le [OF _ j(4)] by (simp add: source_item_def)
  let ?init = "PB_HTYPE (field_type f) = PB_HTYPE_REPEATED"
  have bl: "\<not> ?init \<longrightarrow> (\<forall>n. blank ?d m n (?d ! j) a)" using a(3) True j(3) by (simp add: blank_at_def)
  have dis: "region a (lens ! j) \<inter> F = {}" using a(2) region_mono [OF j(4)] by blast
  show ?thesis unfolding read_item_def
  proof (intro allI)
    fix c x e
    obtain m' where m': "sub ?init (stream_of (message_bytes ws) (c @ x) e) (?d ! j) a m = Some (True, stream_of [] (c @ x) e, m')"
      "within (region a (lens ! j) \<union> F) m m'" "W m' (?d ! j) a = Some (Some ws)"
      using sub j(1) object_le [OF a(1) j(4)] dis b ws(1) ends small bl unfolding sub_back_def by blast
    have "pb_dec_submessage env sub (stream_of (wire_payload v @ c) x e) f a m = Some (True, stream_of c x e, m')"
      unfolding pb_dec_submessage_def using j(2,3) ws(2) in_substream_of [OF small, where c = c and x = x and e = e] m'(1)
      by simp
    moreover have "within (region a (unat (data_size f)) \<union> F) m m'"
      by (rule within_mono [OF m'(2)]) (use region_mono [OF j(4)] in blast)
    moreover have "wire_at ?d m' (W m') f a = Some (Some v)" using True j m'(3) ws by (simp add: wire_at_def sub_value_iff)
    ultimately show "\<exists>m'. PB_DECODERS env sub (PB_LTYPE (field_type f)) (stream_of (wire_payload v @ c) x e) f a m = Some (True, stream_of c x e, m') \<and>
        within (region a (unat (data_size f)) \<union> F) m m' \<and> wire_at ?d m' (W m') f a = Some (Some v)"
      using True by (auto simp: PB_DECODERS_def ltype_defs)
  qed
next
  case False
  have v: "value_at ms f b = Some v" using src False by (simp add: source_item_def wire_at_def)
  have r: "readable ms f b" using src by (simp add: source_item_def readable_def object_def)
  have a0: "a \<noteq> 0" using a(1) by (simp add: object_def)
  have "decodes_to m f a (\<lambda>s m. PB_DECODERS env sub (PB_LTYPE (field_type f)) s f a m) v"
    by (rule decode_value [OF _ _ False f(2) v r a0, where lens = lens]) (use f(1) in \<open>simp_all add: static_field_def\<close>)
  then show ?thesis
    unfolding decodes_to_def read_item_def using False by (fastforce simp: wire_at_def elim: within_mono)
qed

end
