(* ===== verification/Pb_Msg_Fields.thy ===== *)
theory Pb_Msg_Fields
  imports Pb_Msg_Back
begin

text \<open>
  Reading back fields: the steps of the decoder on the wire form of required, optional and repeated
  fields.
\<close>

section \<open>Arrays\<close>

lemma has_values_array:
  assumes h: "PB_HTYPE (field_type (it_field it)) = PB_HTYPE_REPEATED" and ex: "extent (it_field it) < 2 ^ 32"
  shows "has_values descs m sub it vs \<longleftrightarrow>
    length vs \<le> unat (array_size (it_field it)) \<and> load_u32 m (pSize it) = of_nat (length vs) \<and>
    (\<forall>i < length vs. wire_at descs m sub (it_field it) (array_item (pData it) (it_field it) (of_nat i)) = Some (Some (vs ! i)))"
proof -
  let ?f = "it_field it" and ?n = "unat (load_u32 m (pSize it))"
  have it: "items m it = entries ?f (pData it) ?n" using h by (simp add: items_def)
  have small: "unat (of_nat (length vs) :: u32) = length vs" if "length vs \<le> unat (array_size ?f)"
    using that unat_u32_less [of "array_size ?f"] by (simp add: unat_of_nat take_bit_nat_eq_self)
  have eq: "entries ?f (pData it) ?n = map (\<lambda>i. array_item (pData it) ?f (of_nat i)) [0..<?n]" if "?n \<le> unat (array_size ?f)"
    by (rule entries_items [OF ex h that])
  show ?thesis
  proof
    assume hv: "has_values descs m sub it vs"
    then have le: "?n \<le> unat (array_size ?f)" using h by (simp add: has_values_def it)
    then have all: "list_all2 (\<lambda>a v. wire_at descs m sub ?f a = Some (Some v)) (map (\<lambda>i. array_item (pData it) ?f (of_nat i)) [0..<?n]) vs"
      using hv by (simp add: has_values_def it eq)
    then have n: "?n = length vs" by (auto dest: list_all2_lengthD)
    then have "load_u32 m (pSize it) = of_nat (length vs)" unfolding n [symmetric] by simp
    then show "length vs \<le> unat (array_size ?f) \<and> load_u32 m (pSize it) = of_nat (length vs) \<and>
      (\<forall>i < length vs. wire_at descs m sub ?f (array_item (pData it) ?f (of_nat i)) = Some (Some (vs ! i)))"
      using all le n by (simp add: list_all2_conv_all_nth)
  next
    assume r: "length vs \<le> unat (array_size ?f) \<and> load_u32 m (pSize it) = of_nat (length vs) \<and>
      (\<forall>i < length vs. wire_at descs m sub ?f (array_item (pData it) ?f (of_nat i)) = Some (Some (vs ! i)))"
    then have n: "?n = length vs" using small by simp
    then show "has_values descs m sub it vs" using r eq by (simp add: has_values_def it list_all2_conv_all_nth)
  qed
qed

lemma plain_atD:
  assumes "plain_at lens k it"
  shows "static_field lens k (it_field it)" "plain_field (it_field it)" "extent (it_field it) < 2 ^ 32"
    "object (pData it) (extent (it_field it))" "region (pData it) (extent (it_field it)) \<subseteq> area it"
    "region (pSize it) (cell_size (it_field it)) \<subseteq> area it"
    "region (pData it) (extent (it_field it)) \<inter> region (pSize it) (cell_size (it_field it)) = {}"
    "PB_ATYPE (field_type (it_field it)) = PB_ATYPE_STATIC"
  using assms field_in_static [of "area it" lens k it] by (auto simp: plain_at_def field_in_def area_def Let_def)

text \<open>An array with one more entry.\<close>

lemma item_places:
  assumes ex: "extent f < 2 ^ 32" and h: "PB_HTYPE (field_type f) = PB_HTYPE_REPEATED"
    and i: "i < unat (array_size f)" and obj: "object data (extent f)"
  shows "object (array_item data f (of_nat i)) (unat (data_size f))"
    and "region (array_item data f (of_nat i)) (unat (data_size f)) \<subseteq> region data (extent f)"
    and "j < i \<Longrightarrow> region (array_item data f (of_nat i)) (unat (data_size f)) \<inter>
      region (array_item data f (of_nat j)) (unat (data_size f)) = {}"
proof -
  note b = entry_item(3) [OF ex h i]
  have e: "array_item data f (of_nat i) = data + of_nat (unat (data_size f) * i)" by (rule entry_item(2) [OF ex h i])
  show "object (array_item data f (of_nat i)) (unat (data_size f))" unfolding e by (rule object_sub [OF obj b])
  show "region (array_item data f (of_nat i)) (unat (data_size f)) \<subseteq> region data (extent f)" unfolding e by (rule region_sub [OF b])
  assume j: "j < i"
  then have j': "j < unat (array_size f)" using i by simp
  have "unat (data_size f) * Suc j \<le> unat (data_size f) * i" using j by (intro mult_le_mono2) simp
  then have "unat (data_size f) * j + unat (data_size f) \<le> unat (data_size f) * i" by simp
  then show "region (array_item data f (of_nat i)) (unat (data_size f)) \<inter> region (array_item data f (of_nat j)) (unat (data_size f)) = {}"
    unfolding e entry_item(2) [OF ex h j'] using b ex by (intro region_disjoint) auto
qed

lemma array_push:
  assumes it: "plain_at lens k it" and h: "PB_HTYPE (field_type (it_field it)) = PB_HTYPE_REPEATED"
    and l: "length lens = length descs" and keeps: "keeps_subs descs lens k m m' sub sub'" and F: "area it \<inter> F = {}"
    and hv: "has_values descs m sub it vs" and n: "length vs < unat (array_size (it_field it))"
    and w: "within (region (array_item (pData it) (it_field it) (of_nat (length vs))) (unat (data_size (it_field it))) \<union> region (pSize it) 4 \<union> F) m m'"
    and c: "load_u32 m' (pSize it) = of_nat (Suc (length vs))"
    and v: "wire_at descs m' sub' (it_field it) (array_item (pData it) (it_field it) (of_nat (length vs))) = Some (Some v)"
  shows "has_values descs m' sub' it (vs @ [v])"
proof -
  let ?f = "it_field it" and ?ds = "unat (data_size (it_field it))"
  let ?item = "\<lambda>i. array_item (pData it) ?f (of_nat i)"
  note D = plain_atD [OF it]
  have cs: "cell_size ?f = 4" using h by (simp add: cell_size_def type_codes)
  have "wire_at descs m' sub' ?f (?item i) = Some (Some (vs ! i))" if i: "i < length vs" for i
  proof (rule wire_at_agree [OF D(1,2) l keeps])
    have i': "i < unat (array_size ?f)" using i n by simp
    note P = item_places [OF D(3) h i' D(4)]
    show "object (?item i) ?ds" by (rule P(1))
    show "agree (region (?item i) ?ds) m m'"
      by (rule within_agree [OF w]) (use P(2) D(5-7) F cs item_places(3) [OF D(3) h n D(4) i] in auto)
    show "wire_at descs m sub ?f (?item i) = Some (Some (vs ! i))" using hv i by (simp add: has_values_array [OF h D(3)])
  qed
  then show ?thesis using n c v by (simp add: has_values_array [OF h D(3)] nth_append less_Suc_eq del: of_nat_Suc)
qed

lemma count_less: "n < unat (k :: u32) \<Longrightarrow> (of_nat n :: u32) < k"
  using unat_u32_less [of k] by (simp add: word_less_nat_alt unat_of_nat take_bit_nat_eq_self)

text \<open>
  What is known of a field and of the decoder of its items: \<open>src\<close> has the values of the source, and items
  with these are read back at any place of the field.
\<close>

definition field_back ::
  "pb_field_t list list \<Rightarrow> nat list \<Rightarrow> (memory \<Rightarrow> sub_wire) \<Rightarrow> u64 set \<Rightarrow> nat \<Rightarrow> pb_field_iter_t \<Rightarrow>
     (unit pb_istream_t \<Rightarrow> u64 \<Rightarrow> memory \<Rightarrow> unit dresult) \<Rightarrow> (wire_value \<Rightarrow> bool) \<Rightarrow> bool" where
  "field_back descs lens W F k it func src \<longleftrightarrow>
     plain_at lens k it \<and> length lens = length descs \<and> (\<forall>m m'. keeps_subs descs lens k m m' (W m) (W m')) \<and>
     area it \<inter> F = {} \<and>
     (\<forall>v a m. src v \<longrightarrow> object a (unat (data_size (it_field it))) \<longrightarrow> region a (unat (data_size (it_field it))) \<subseteq> area it \<longrightarrow>
        blank_at descs (it_field it) a m \<longrightarrow> read_item descs W F func (it_field it) a m v)"

lemma field_backD:
  assumes "field_back descs lens W F k it func src"
  shows "plain_at lens k it" "length lens = length descs" "keeps_subs descs lens k m m' (W m) (W m')" "area it \<inter> F = {}"
    and "src v \<Longrightarrow> object a (unat (data_size (it_field it))) \<Longrightarrow> region a (unat (data_size (it_field it))) \<subseteq> area it \<Longrightarrow>
      blank_at descs (it_field it) a m \<Longrightarrow> read_item descs W F func (it_field it) a m v"
  using assms by (simp_all add: field_back_def)

abbreviation holds :: "pb_field_t list list \<Rightarrow> (memory \<Rightarrow> sub_wire) \<Rightarrow> pb_field_iter_t \<Rightarrow> memory \<Rightarrow> wire_value list \<Rightarrow> bool" where
  "holds descs W it m vs \<equiv> has_values descs m (W m) it vs"

lemma blank_array: "PB_HTYPE (field_type (it_field it)) = PB_HTYPE_REPEATED \<Longrightarrow> blank_at descs (it_field it) a m"
  by (simp add: blank_at_def)

lemma array_item_read:
  assumes fb: "field_back descs lens W F k it func src" and h: "PB_HTYPE (field_type (it_field it)) = PB_HTYPE_REPEATED" and v: "src v" and n: "n < unat (array_size (it_field it))"
  shows "\<exists>m'. func (stream_of (wire_payload v @ c) x e) (array_item (pData it) (it_field it) (of_nat n)) m = Some (True, stream_of c x e, m') \<and>
    within (region (array_item (pData it) (it_field it) (of_nat n)) (unat (data_size (it_field it))) \<union> F) m m' \<and>
    wire_at descs m' (W m') (it_field it) (array_item (pData it) (it_field it) (of_nat n)) = Some (Some v) \<and> load_u32 m' (pSize it) = load_u32 m (pSize it)"
proof -
  note D = plain_atD [OF field_backD(1) [OF fb]]
  note P = item_places [OF D(3) h n D(4)]
  have "read_item descs W F func (it_field it) (array_item (pData it) (it_field it) (of_nat n)) m v"
    by (rule field_backD(5) [OF fb v P(1) _ blank_array [OF h]]) (use P(2) D(5) in blast)
  then obtain m' where m': "func (stream_of (wire_payload v @ c) x e) (array_item (pData it) (it_field it) (of_nat n)) m = Some (True, stream_of c x e, m')"
    "within (region (array_item (pData it) (it_field it) (of_nat n)) (unat (data_size (it_field it))) \<union> F) m m'"
    "wire_at descs m' (W m') (it_field it) (array_item (pData it) (it_field it) (of_nat n)) = Some (Some v)"
    unfolding read_item_def by blast
  have "region (pSize it) 4 \<subseteq> region (pSize it) (cell_size (it_field it))" using h by (simp add: cell_size_def type_codes)
  then have "load_u32 m' (pSize it) = load_u32 m (pSize it)"
    by (intro load_u32_agree within_agree [OF m'(2)]) (use P(2) D(6,7) field_backD(4) [OF fb] in blast)
  then show ?thesis using m' by blast
qed

lemma array_step:
  assumes fb: "field_back descs lens W F k it func src" and h: "PB_HTYPE (field_type (it_field it)) = PB_HTYPE_REPEATED" and v: "src v" and n: "length vs < unat (array_size (it_field it))"
    and hv: "holds descs W it m vs"
  shows "\<exists>m'. func (stream_of (wire_payload v @ c) x e) (array_item (pData it) (it_field it) (load_u32 m (pSize it)))
      (store_u32 m (pSize it) (load_u32 m (pSize it) + 1)) = Some (True, stream_of c x e, m') \<and>
    within (area it \<union> F) m m' \<and> holds descs W it m' (vs @ [v])"
proof -
  note D = plain_atD [OF field_backD(1) [OF fb]]
  have cs: "cell_size (it_field it) = 4" using h by (simp add: cell_size_def type_codes)
  have c: "load_u32 m (pSize it) = of_nat (length vs)" using hv by (simp add: has_values_array [OF h D(3)])
  define m1 where "m1 = store_u32 m (pSize it) (load_u32 m (pSize it) + 1)"
  have w1: "within (region (pSize it) 4) m m1" unfolding m1_def by (rule within_le_store) simp
  have c1: "load_u32 m1 (pSize it) = of_nat (Suc (length vs))" unfolding m1_def load_store_u32 c by (simp add: add.commute)
  obtain m' where m': "func (stream_of (wire_payload v @ c) x e) (array_item (pData it) (it_field it) (of_nat (length vs))) m1 = Some (True, stream_of c x e, m')"
    "within (region (array_item (pData it) (it_field it) (of_nat (length vs))) (unat (data_size (it_field it))) \<union> F) m1 m'"
    "wire_at descs m' (W m') (it_field it) (array_item (pData it) (it_field it) (of_nat (length vs))) = Some (Some v)"
    "load_u32 m' (pSize it) = load_u32 m1 (pSize it)"
    using array_item_read [OF fb h v n] by blast
  have w: "within (region (array_item (pData it) (it_field it) (of_nat (length vs))) (unat (data_size (it_field it))) \<union> region (pSize it) 4 \<union> F) m m'"
    by (rule within_trans [OF within_mono [OF w1] within_mono [OF m'(2)]]) auto
  have "holds descs W it m' (vs @ [v])"
    by (rule array_push [OF field_backD(1) [OF fb] h field_backD(2) [OF fb] field_backD(3) [OF fb] field_backD(4) [OF fb] hv n w _ m'(3)]) (use m'(4) c1 in simp)
  moreover have "within (area it \<union> F) m m'"
    by (rule within_mono [OF w]) (use item_places(2) [OF D(3) h n D(4)] D(5,6) cs in auto)
  ultimately show ?thesis using m'(1) unfolding c [symmetric] m1_def by blast
qed

lemma packed_step:
  assumes fb: "field_back descs lens W F k it func src" and h: "PB_HTYPE (field_type (it_field it)) = PB_HTYPE_REPEATED" and v: "src v" and n: "length vs < unat (array_size (it_field it))"
    and hv: "holds descs W it m vs"
  shows "\<exists>m'. func (stream_of (wire_payload v @ c) x e) (array_item (pData it) (it_field it) (load_u32 m (pSize it))) m = Some (True, stream_of c x e, m') \<and>
    within (area it \<union> F) m (store_u32 m' (pSize it) (load_u32 m' (pSize it) + 1)) \<and>
    holds descs W it (store_u32 m' (pSize it) (load_u32 m' (pSize it) + 1)) (vs @ [v])"
proof -
  note D = plain_atD [OF field_backD(1) [OF fb]]
  note P = item_places [OF D(3) h n D(4)]
  have cs: "cell_size (it_field it) = 4" using h by (simp add: cell_size_def type_codes)
  have c: "load_u32 m (pSize it) = of_nat (length vs)" using hv by (simp add: has_values_array [OF h D(3)])
  obtain m1 where m1: "func (stream_of (wire_payload v @ c) x e) (array_item (pData it) (it_field it) (of_nat (length vs))) m = Some (True, stream_of c x e, m1)"
    "within (region (array_item (pData it) (it_field it) (of_nat (length vs))) (unat (data_size (it_field it))) \<union> F) m m1"
    "wire_at descs m1 (W m1) (it_field it) (array_item (pData it) (it_field it) (of_nat (length vs))) = Some (Some v)"
    "load_u32 m1 (pSize it) = load_u32 m (pSize it)"
    using array_item_read [OF fb h v n] by blast
  define m' where "m' = store_u32 m1 (pSize it) (load_u32 m1 (pSize it) + 1)"
  have w1: "within (region (pSize it) 4) m1 m'" unfolding m'_def by (rule within_le_store) simp
  have c1: "load_u32 m' (pSize it) = of_nat (Suc (length vs))" unfolding m'_def load_store_u32 m1(4) c by (simp add: add.commute)
  have w: "within (region (array_item (pData it) (it_field it) (of_nat (length vs))) (unat (data_size (it_field it))) \<union> region (pSize it) 4 \<union> F) m m'"
    by (rule within_trans [OF within_mono [OF m1(2)] within_mono [OF w1]]) auto
  have ag: "agree (region (array_item (pData it) (it_field it) (of_nat (length vs))) (unat (data_size (it_field it)))) m1 m'"
    by (rule within_agree [OF w1]) (use P(2) D(7) cs in auto)
  have "wire_at descs m' (W m') (it_field it) (array_item (pData it) (it_field it) (of_nat (length vs))) = Some (Some v)"
    by (rule wire_at_agree [OF D(1,2) field_backD(2) [OF fb] field_backD(3) [OF fb] P(1) ag m1(3)])
  then have "holds descs W it m' (vs @ [v])" by (rule array_push [OF field_backD(1) [OF fb] h field_backD(2) [OF fb] field_backD(3) [OF fb] field_backD(4) [OF fb] hv n w c1])
  moreover have "within (area it \<union> F) m m'"
    by (rule within_mono [OF w]) (use P(2) D(5,6) cs in auto)
  ultimately show ?thesis using m1(1) unfolding c m'_def by blast
qed

lemma leb_not_Nil: "leb n \<noteq> []"
  using leb_shape [of n] by auto

lemma payload_not_empty: "0 < length (wire_payload v)"
  using leb_not_Nil by (cases v) (auto simp: le_bytes_def)

lemma packed_loop_back:
  assumes fb: "field_back descs lens W F k it func src" and h: "PB_HTYPE (field_type (it_field it)) = PB_HTYPE_REPEATED"
  shows "\<forall>v \<in> set us. src v \<Longrightarrow> length vs + length us \<le> unat (array_size (it_field it)) \<Longrightarrow> holds descs W it m vs \<Longrightarrow>
    length (concat (map wire_payload us)) \<le> n \<Longrightarrow>
    \<exists>m'. static_packed_loop func it n (stream_of (concat (map wire_payload us)) x e) m = Some (True, stream_of [] x e, m') \<and>
      within (area it \<union> F) m m' \<and> holds descs W it m' (vs @ us)"
proof (induction us arbitrary: vs m n)
  case Nil
  then show ?case by (auto simp: static_packed_loop.simps)
next
  case (Cons u us)
  have n: "length vs < unat (array_size (it_field it))" and u: "src u" using Cons.prems(1,2) by simp_all
  obtain n' where n': "n = Suc n'" using Cons.prems(4) payload_not_empty [of u] by (cases n) auto
  have "load_u32 m (pSize it) = of_nat (length vs)"
    using Cons.prems(3) by (simp add: has_values_array [OF h plain_atD(3) [OF field_backD(1) [OF fb]]])
  then have lt: "load_u32 m (pSize it) < array_size (it_field it)" using count_less [OF n] by simp
  let ?next = "\<lambda>m. store_u32 m (pSize it) (load_u32 m (pSize it) + 1)"
  obtain m1 where m1: "func (stream_of (wire_payload u @ concat (map wire_payload us)) x e) (array_item (pData it) (it_field it) (load_u32 m (pSize it))) m =
      Some (True, stream_of (concat (map wire_payload us)) x e, m1)"
    "within (area it \<union> F) m (?next m1)" "holds descs W it (?next m1) (vs @ [u])"
    using packed_step [OF fb h u n Cons.prems(3)] by blast
  have "length (wire_payload u) + length (concat (map wire_payload us)) \<le> Suc n'" using Cons.prems(4) n' by simp
  then have le: "length (concat (map wire_payload us)) \<le> n'" using payload_not_empty [of u] by linarith
  obtain m' where m': "static_packed_loop func it n' (stream_of (concat (map wire_payload us)) x e) (?next m1) = Some (True, stream_of [] x e, m')"
    "within (area it \<union> F) (?next m1) m'" "holds descs W it m' ((vs @ [u]) @ us)"
    using Cons.IH [OF _ _ m1(3) le] Cons.prems(1,2) by auto
  have "static_packed_loop func it n (stream_of (concat (map wire_payload (u # us))) x e) m = Some (True, stream_of [] x e, m')"
    using lt m1(1) m'(1) payload_not_empty [of u] by (simp add: n' static_packed_loop.simps [of _ _ "Suc n'"])
  then show ?case using within_trans [OF m1(2) m'(2)] m'(3) by auto
qed

end
