(* ===== verification/Pb_Msg_Loop.thy ===== *)
theory Pb_Msg_Loop
  imports Pb_Msg_Fields
begin

text \<open>
  Reading back messages: the loop of the decoder on the wire form of the fields, in the order of the
  descriptors, and its record of the required fields.
\<close>

section \<open>Required fields\<close>

text \<open>\<open>fields_seen\<close> after the first \<open>r\<close> required fields.\<close>

definition seen_up_to :: "nat \<Rightarrow> u32 list" where
  "seen_up_to r = [mask (min r 32), mask (min r 64 - 32)]"

lemma mask_step: "mask r OR push_bit r 1 = (mask (Suc r) :: u32)"
  by (simp add: mask_Suc_exp or.commute push_bit_eq_mult)

lemma mark_seen_up_to: "r < 64 \<Longrightarrow> mark_seen (of_nat r) (seen_up_to r) = seen_up_to (Suc r)"
proof -
  assume r: "r < 64"
  have u: "unat (of_nat r :: u32) = r" using r by (simp add: unat_of_nat take_bit_nat_eq_self)
  have w: "unat (drop_bit 5 (of_nat r :: u32)) = r div 32" by (simp only: unat_drop_bit u) simp
  have m: "(31 :: u32) = mask 5" by (simp add: mask_eq_exp_minus_1)
  have b: "unat ((of_nat r :: u32) AND 31) = r mod 32" unfolding m by (simp only: unat_and_mask u) simp
  show ?thesis
  proof (cases "r < 32")
    case True
    then show ?thesis using w b mask_step [of r] by (simp add: mark_seen_def Let_def seen_up_to_def)
  next
    case False
    then have "r div 32 = 1" "r mod 32 = r - 32" "min (Suc r) 64 - 32 = Suc (r - 32)" using r by (auto simp: le_mod_geq)
    then show ?thesis using w b r False mask_step [of "r - 32"] by (simp add: mark_seen_def Let_def seen_up_to_def)
  qed
qed

lemma seen_full: "64 \<le> r \<Longrightarrow> seen_up_to (Suc r) = seen_up_to r"
  by (simp add: seen_up_to_def)

lemma mask_32: "mask 32 = (- 1 :: u32)"
  by (simp add: mask_eq_exp_minus_1)

lemma drop_ones: "k \<le> 32 \<Longrightarrow> drop_bit (32 - k) (- 1 :: u32) = mask k"
  by (rule bit_word_eqI) (auto simp: bit_drop_bit_eq bit_mask_iff)

lemma all_seen: "all_required_seen (min r 64) (seen_up_to r)"
proof -
  consider "r < 32" | "32 \<le> r" "r < 64" | "64 \<le> r" by linarith
  then show ?thesis
  proof cases
    case 1
    then show ?thesis by (simp add: all_required_seen_def seen_up_to_def drop_ones)
  next
    case 2
    then have "r div 32 = 1" "r mod 32 = r - 32" by (auto simp: le_mod_geq)
    then show ?thesis using 2 drop_ones [of "r - 32"] mask_32 by (simp add: all_required_seen_def seen_up_to_def upt_rec)
  next
    case 3
    then show ?thesis using mask_32 by (simp add: all_required_seen_def seen_up_to_def upt_rec)
  qed
qed

lemma required_before_Suc:
  "p < length fs \<Longrightarrow>
   required_before fs (Suc p) = (if PB_HTYPE (field_type (fs ! p)) = PB_HTYPE_REQUIRED then Suc (required_before fs p) else required_before fs p)"
  by (simp add: required_before_def take_Suc_conv_app_nth)

lemma required_before_le: "required_before fs p \<le> p"
  using length_filter_le [of "\<lambda>f. PB_HTYPE (field_type f) = PB_HTYPE_REQUIRED" "take p fs"] by (simp add: required_before_def)

lemma last_field_count:
  assumes ok: "fields_ok fs N"
  shows "p < N \<Longrightarrow> N - p \<le> fuel \<Longrightarrow>
    last_field_loop fuel (iter_at fs dest p) =
      Some (unat (of_nat (required_before fs (N - 1)) :: u32), field_type (fs ! (N - 1)), iter_at fs dest 0)"
proof (induction fuel arbitrary: p)
  case (Suc fuel)
  show ?case
  proof (cases "Suc p < N")
    case True
    then show ?thesis using Suc.IH [OF True] Suc.prems(2) iter_next_inside [OF ok True, of dest] by simp
  next
    case False
    then have p: "Suc p = N" using Suc.prems(1) by simp
    then have "N - 1 = p" by simp
    then show ?thesis using iter_next_last [OF ok p, of dest] by (simp add: iter_at_def)
  qed
qed simp

lemma req_count:
  assumes ok: "fields_ok fs N" and p: "p < N" and n: "N < 2 ^ 32"
  shows "req_field_count (iter_at fs dest p) = Some (min (required_before fs N) 64)"
proof -
  have N: "Suc (N - 1) = N" "N - 1 < length fs" "length fs = Suc N" using p ok by (auto simp: fields_ok_def)
  have u: "unat (of_nat (required_before fs (N - 1)) :: u32) = required_before fs (N - 1)"
    using required_before_le [of fs "N - 1"] n by (simp add: unat_of_nat take_bit_nat_eq_self)
  have t: "field_tag (fs ! 0) \<noteq> 0" using fields_okD [OF ok, of 0] p by simp
  show ?thesis
    using last_field_count [OF ok p, of "length fs" dest, unfolded u] N t required_before_Suc [OF N(2)]
    by (auto simp: req_field_count_def PB_MAX_REQUIRED_FIELDS_def Let_def simp del: last_field_loop.simps)
qed

section \<open>A field in the loop\<close>

definition loop_at :: "pb_field_t list \<Rightarrow> u64 \<Rightarrow> nat \<Rightarrow> decode_locals \<Rightarrow> bool" where
  "loop_at fs dest r l \<longleftrightarrow>
     (\<exists>q < length fs - 1. dl_iter l = iter_at fs dest q) \<and> fields_seen l = seen_up_to r \<and> fixed_count_field l = None"

definition at_field :: "pb_field_t list \<Rightarrow> u64 \<Rightarrow> nat \<Rightarrow> decode_locals \<Rightarrow> decode_locals" where
  "at_field fs dest p l = note_required (l\<lparr>dl_iter := iter_at fs dest p\<rparr>)"

lemma at_field_iter [simp]: "dl_iter (at_field fs dest p l) = iter_at fs dest p"
  by (simp add: at_field_def note_required_def Let_def)

lemma loop_at_field:
  assumes "plain_message fs" and p: "p < length fs - 1" and l: "loop_at fs dest (required_before fs p) l"
  shows "loop_at fs dest (required_before fs (Suc p)) (at_field fs dest p l)"
proof -
  let ?r = "required_before fs p"
  have "length fs < 2 ^ 32" using assms(1) by (simp add: plain_message_def)
  then have "?r < 2 ^ 32" using required_before_le [of fs p] p by linarith
  then have u: "unat (of_nat ?r :: u32) = ?r" by (simp add: unat_of_nat take_bit_nat_eq_self)
  have i: "required_field_index (iter_at fs dest p) = of_nat ?r" by (simp add: iter_at_def)
  show ?thesis
    using p l mark_seen_up_to [of ?r] seen_full [of ?r] required_before_Suc [of p fs]
    by (auto simp: loop_at_def at_field_def note_required_def Let_def i u PB_MAX_REQUIRED_FIELDS_def)
qed

lemma find_tag:
  assumes ok: "fields_ok fs (length fs - 1)" and pl: "plain_message fs" and p: "p < length fs - 1" and q: "q < length fs - 1"
    and ne: "PB_LTYPE (field_type (fs ! p)) \<noteq> PB_LTYPE_EXTENSION"
  shows "pb_field_iter_find (iter_at fs dest q) (field_tag (fs ! p)) = Some (True, iter_at fs dest p)"
proof -
  let ?N = "length fs - 1"
  define js where "js = filter (\<lambda>k. matches (field_tag (fs ! p)) (fs ! k)) ([q..<?N] @ [0..<q])"
  have in_js: "p \<in> set js" using p ne by (auto simp: js_def matches_def)
  have "j = p" if "j \<in> set js" for j
  proof -
    have "j < ?N" "field_tag (fs ! j) = field_tag (fs ! p)" using that q by (auto simp: js_def matches_def)
    then show ?thesis
      using pl p nth_eq_iff_index_eq [of "map field_tag fs" j p] by (simp add: plain_message_def)
  qed
  then obtain ks where "js = p # ks" using in_js by (cases js) auto
  then show ?thesis using find_exact [OF ok q, of dest "field_tag (fs ! p)"] unfolding js_def [symmetric] by simp
qed

lemma loop_field:
  assumes ok: "fields_ok fs (length fs - 1)" and pl: "plain_message fs" and p: "p < length fs - 1"
    and l: "loop_at fs dest r l" and it: "plain_at lens k (iter_at fs dest p)"
    and dec: "decode_static_field env fuel sub (stream_of (wire_payload w @ c) x e) (wire_type w) (iter_at fs dest p) m = Some (True, stream_of c x e, m')"
  shows "decode_loop env fuel sub frame (Suc n) (stream_of (field_bytes (field_tag (fs ! p)) w @ c) x e) l m =
    decode_loop env fuel sub frame n (stream_of c x e) (at_field fs dest p l) m'"
proof -
  let ?it = "iter_at fs dest p" and ?t = "field_tag (fs ! p)" and ?s = "stream_of (field_bytes (field_tag (fs ! p)) w @ c) x e"
  have pf: "plain_field (fs ! p)" by (rule plain_fieldD [OF pl p])
  have ne: "PB_LTYPE (field_type (fs ! p)) \<noteq> PB_LTYPE_EXTENSION"
    using it by (auto simp: plain_at_def field_in_def Let_def dest: not_extension)
  obtain q where q: "q < length fs - 1" "dl_iter l = iter_at fs dest q" using l by (auto simp: loop_at_def)
  have t: "0 < unat ?t" "unat ?t < 2 ^ 29" using fields_okD [OF ok p] pf by (simp_all add: unat_gt_0 plain_field_def Let_def)
  have tag: "pb_decode_tag ?s = (Some (wire_type w, ?t), stream_of (wire_payload w @ c) x e, False)"
    unfolding field_bytes_def using decode_tag [OF t, of w "wire_payload w @ c" x e] by simp
  have find: "pb_field_iter_find (dl_iter l) ?t = Some (True, ?it)" unfolding q(2) by (rule find_tag [OF ok pl p q(1) ne])
  have "\<not> (PB_HTYPE (field_type (it_field ?it)) = PB_HTYPE_REPEATED \<and> pSize ?it = pData ?it)"
    using it by (auto simp: plain_at_def type_codes)
  then have enter: "enter_fixed_count frame (l\<lparr>dl_iter := ?it\<rparr>) m = Some (l\<lparr>dl_iter := ?it\<rparr>, m)"
    by (auto simp: enter_fixed_count_def Let_def)
  have field: "decode_field env fuel sub (stream_of (wire_payload w @ c) x e) (wire_type w) ?it m = Some (True, stream_of c x e, ?it, m')"
    using plain_htype(2) [OF pf] plain_atD(8) [OF it] dec by (simp add: decode_field_def)
  have nz: "bytes_left ?s \<noteq> 0" using leb_not_Nil [of "unat ?t * 8 + unat (wire_type w)"] by (simp add: field_bytes_def)
  have same: "(at_field fs dest p l)\<lparr>dl_iter := ?it\<rparr> = at_field fs dest p l"
    by (simp add: at_field_def note_required_def Let_def)
  have noted: "note_required (l\<lparr>dl_iter := ?it\<rparr>) = at_field fs dest p l" by (simp add: at_field_def)
  from nz show ?thesis
    by (simp add: decode_loop.simps [of _ _ _ _ "Suc n"] tag find enter noted field same Let_def del: stream_of_simps)
qed

end
