(* ===== verification/Pb_Msg_Message.thy ===== *)
theory Pb_Msg_Message
  imports Pb_Msg_Loop
begin

text \<open>
  Reading back messages: each field, all fields, and submessages.
\<close>

section \<open>The bytes of a field\<close>

abbreviation decoder_of :: "'s pb_denv \<Rightarrow> 's sub_decoder \<Rightarrow> pb_field_t \<Rightarrow> 's pb_istream_t \<Rightarrow> u64 \<Rightarrow> memory \<Rightarrow> 's dresult" where
  "decoder_of env sub f \<equiv> (\<lambda>s a m. PB_DECODERS env sub (PB_LTYPE (field_type f)) s f a m)"

definition all_blank :: "pb_field_t list list \<Rightarrow> pb_field_iter_t \<Rightarrow> memory \<Rightarrow> bool" where
  "all_blank descs it m \<longleftrightarrow> (\<forall>n. blank_field descs m (blank descs m n) it)"

lemma all_blankD:
  assumes "all_blank descs it m"
  shows "PB_HTYPE (field_type (it_field it)) = PB_HTYPE_OPTIONAL \<Longrightarrow> m (pSize it) = 0"
    and "PB_HTYPE (field_type (it_field it)) = PB_HTYPE_REPEATED \<Longrightarrow> load_u32 m (pSize it) = 0"
    and "blank_at descs (it_field it) (pData it) m"
  using assms by (auto simp: all_blank_def blank_field_def blank_at_def Let_def split: option.split)

lemma subs_blank_agree:
  assumes st: "static_descs descs lens" and pls: "list_all plain_message descs" and k: "k \<le> length descs"
    and j: "j < k" "object b (lens ! j)" "agree (region b (lens ! j)) m m'" "blank descs m n (descs ! j) b"
  shows "blank descs m' n (descs ! j) b"
proof -
  have jl: "j < length descs" using j(1) k by simp
  show ?thesis
    by (rule blank_agree [OF st pls static_descsD(1) [OF st jl] _ _ j(2-4)]) (use pls jl in \<open>simp_all add: list_all_length\<close>)
qed

lemma all_blank_agree:
  assumes st: "static_descs descs lens" and pls: "list_all plain_message descs" and k: "k \<le> length descs"
    and it: "plain_at lens k it" and ag: "agree (area it) m m'" and b: "all_blank descs it m"
  shows "all_blank descs it m'"
  unfolding all_blank_def
proof
  fix n
  have "blank_field descs m (blank descs m n) it" using b by (simp add: all_blank_def)
  then show "blank_field descs m' (blank descs m' n) it"
    by (rule blank_field_agree [OF it static_descsD(2) [OF st] _ ag, rotated]) (rule subs_blank_agree [OF st pls k])
qed

lemma blank_at_agree:
  assumes st: "static_descs descs lens" and pls: "list_all plain_message descs" and k: "k \<le> length descs"
    and it: "plain_at lens k it" and ag: "agree (region (pData it) (unat (data_size (it_field it)))) m m'"
    and b: "blank_at descs (it_field it) (pData it) m"
  shows "blank_at descs (it_field it) (pData it) m'"
  unfolding blank_at_def
proof
  assume h: "PB_HTYPE (field_type (it_field it)) \<noteq> PB_HTYPE_REPEATED \<and> PB_LTYPE (field_type (it_field it)) = PB_LTYPE_SUBMESSAGE"
  obtain j where j: "j < k" "submsg_fields descs (it_field it) = Some (descs ! j)" "lens ! j \<le> unat (data_size (it_field it))"
    using sub_place [OF it _ static_descsD(2) [OF st]] h by metis
  have "object (pData it) (lens ! j)" using single_place(1) [OF it] object_le [OF _ j(3)] h by blast
  moreover have "agree (region (pData it) (lens ! j)) m m'" by (rule agree_mono [OF ag region_mono [OF j(3)]])
  ultimately show "case submsg_fields descs (it_field it) of None \<Rightarrow> True | Some fs \<Rightarrow> \<forall>n. blank descs m' n fs (pData it)"
    using b h j(2) subs_blank_agree [OF st pls k j(1)] by (simp add: blank_at_def)
qed

lemma has_single:
  assumes "PB_HTYPE (field_type (it_field it)) \<noteq> PB_HTYPE_REPEATED" and "items m it = [pData it]"
    and "wire_at descs m sub (it_field it) (pData it) = Some (Some v)"
  shows "has_values descs m sub it [v]"
  using assms by (simp add: has_values_def)

lemma single_back:
  assumes st: "static_descs (de_descs env) lens" and pls: "list_all plain_message (de_descs env)" and k: "k \<le> length (de_descs env)"
    and fb: "field_back (de_descs env) lens W F k it (decoder_of env sub (it_field it)) src"
    and h: "PB_HTYPE (field_type (it_field it)) \<noteq> PB_HTYPE_REPEATED" and v: "src v" and b: "all_blank (de_descs env) it m"
  shows "\<exists>m'. decode_static_field env fuel sub (stream_of (wire_payload v @ c) x e) w it m = Some (True, stream_of c x e, m') \<and>
    within (area it \<union> F) m m' \<and> holds (de_descs env) W it m' [v]"
proof -
  let ?f = "it_field it" and ?d = "de_descs env"
  let ?m = "if PB_HTYPE (field_type ?f) = PB_HTYPE_OPTIONAL then store m (pSize it) [1] else m"
  note it = field_backD(1) [OF fb]
  note D = plain_atD [OF it] and P = single_place [OF it h]
  note [simp] = type_codes
  have cs: "region (pSize it) 1 \<subseteq> region (pSize it) (cell_size ?f)" if "PB_HTYPE (field_type ?f) = PB_HTYPE_OPTIONAL"
    using that by (simp add: cell_size_def)
  have w: "within (region (pSize it) (cell_size ?f)) m ?m"
    using within_store [of "pSize it" "[1]" "region (pSize it) (cell_size ?f)" m] cs by (simp del: store.simps)
  have "blank_at ?d ?f (pData it) ?m"
    by (rule blank_at_agree [OF st pls k it within_agree [OF w] all_blankD(3) [OF b]]) (use P(3) in blast)
  then have "read_item ?d W F (decoder_of env sub ?f) ?f (pData it) ?m v" by (rule field_backD(5) [OF fb v P(1,2)])
  then obtain m' where m': "decoder_of env sub ?f (stream_of (wire_payload v @ c) x e) (pData it) ?m = Some (True, stream_of c x e, m')"
    "within (region (pData it) (unat (data_size ?f)) \<union> F) ?m m'" "wire_at ?d m' (W m') ?f (pData it) = Some (Some v)"
    unfolding read_item_def by blast
  have dec: "decode_static_field env fuel sub (stream_of (wire_payload v @ c) x e) w it m = Some (True, stream_of c x e, m')"
    using m'(1) plain_htype(1) [OF D(2)] h it by (auto simp: decode_static_field_def plain_at_def Let_def simp del: store.simps)
  have "agree (region (pSize it) (cell_size ?f)) ?m m'"
    by (rule within_agree [OF m'(2)]) (use P(3) D(6) field_backD(4) [OF fb] in blast)
  from cell_agree(1) [OF this] have "m' (pSize it) \<noteq> 0" if "PB_HTYPE (field_type ?f) = PB_HTYPE_OPTIONAL"
    using that by simp
  then have "items m' it = [pData it]" using h by (simp add: items_def Let_def)
  then have "holds ?d W it m' [v]" by (rule has_single [OF h _ m'(3)])
  moreover have "within (area it \<union> F) m m'"
    by (rule within_trans [OF within_mono [OF w] within_mono [OF m'(2)]]) (use D(6) P(2) in auto)
  ultimately show ?thesis using dec by blast
qed

lemma unpacked_back:
  assumes fb: "field_back (de_descs env) lens W F k it (decoder_of env sub (it_field it)) src"
    and h: "PB_HTYPE (field_type (it_field it)) = PB_HTYPE_REPEATED" and np: "\<not> packed (it_field it)"
    and v: "src v" and n: "length vs < unat (array_size (it_field it))" and hv: "holds (de_descs env) W it m vs"
  shows "\<exists>m'. decode_static_field env fuel sub (stream_of (wire_payload v @ c) x e) w it m = Some (True, stream_of c x e, m') \<and>
    within (area it \<union> F) m m' \<and> holds (de_descs env) W it m' (vs @ [v])"
proof -
  have "load_u32 m (pSize it) = of_nat (length vs)"
    using hv by (simp add: has_values_array [OF h plain_atD(3) [OF field_backD(1) [OF fb]]])
  then have "\<not> array_size (it_field it) \<le> load_u32 m (pSize it)" using count_less [OF n] by (simp add: not_le)
  moreover have "PB_HTYPE_REPEATED \<noteq> PB_HTYPE_REQUIRED" "PB_HTYPE_REPEATED \<noteq> PB_HTYPE_OPTIONAL" by (simp_all add: type_codes)
  ultimately show ?thesis
    using array_step [OF fb h v n hv, of c x e] h np by (simp add: decode_static_field_def packed_def Let_def)
qed

lemma packed_back:
  assumes fb: "field_back (de_descs env) lens W F k it (decoder_of env sub (it_field it)) src"
    and p: "packed (it_field it)" and v: "\<forall>v \<in> set vs. src v" and n: "length vs \<le> unat (array_size (it_field it))"
    and b: "all_blank (de_descs env) it m" and len: "length (concat (map wire_payload vs)) < 2 ^ 32"
  shows "\<exists>m'. decode_static_field env fuel sub (stream_of (wire_payload (Wstring (concat (map wire_payload vs))) @ c) x e) PB_WT_STRING it m =
      Some (True, stream_of c x e, m') \<and>
    within (area it \<union> F) m m' \<and> holds (de_descs env) W it m' vs"
proof -
  let ?bs = "concat (map wire_payload vs)" and ?f = "it_field it"
  have h: "PB_HTYPE (field_type ?f) = PB_HTYPE_REPEATED" and lt: "PB_LTYPE (field_type ?f) \<le> PB_LTYPE_LAST_PACKABLE"
    using p by (simp_all add: packed_def)
  have "holds (de_descs env) W it m []"
    using all_blankD(2) [OF b h] by (simp add: has_values_array [OF h plain_atD(3) [OF field_backD(1) [OF fb]]])
  then obtain m' where m': "static_packed_loop (decoder_of env sub ?f) it (length ?bs) (stream_of ?bs (c @ x) e) m = Some (True, stream_of [] (c @ x) e, m')"
    "within (area it \<union> F) m m'" "holds (de_descs env) W it m' vs"
    using packed_loop_back [OF fb h v _ _ order.refl, of "[]" m "c @ x" e] n by auto
  have "PB_HTYPE_REPEATED \<noteq> PB_HTYPE_REQUIRED" "PB_HTYPE_REPEATED \<noteq> PB_HTYPE_OPTIONAL" by (simp_all add: type_codes)
  then have "decode_static_field env fuel sub (stream_of (wire_payload (Wstring ?bs) @ c) x e) PB_WT_STRING it m = Some (True, stream_of c x e, m')"
    using h lt m'(1) close_substream [of ?bs c x e "[]" e] close_substream [of c c x e "[]" e]
    by (simp add: decode_static_field_def make_substream [OF len] close_substream Let_def)
  then show ?thesis using m' by blast
qed

section \<open>A field in the loop\<close>

definition count_ok :: "pb_field_t \<Rightarrow> wire_value list \<Rightarrow> bool" where
  "count_ok f vs \<longleftrightarrow>
     (PB_HTYPE (field_type f) = PB_HTYPE_REQUIRED \<longrightarrow> length vs = 1) \<and>
     (PB_HTYPE (field_type f) = PB_HTYPE_OPTIONAL \<longrightarrow> length vs \<le> 1) \<and>
     (PB_HTYPE (field_type f) = PB_HTYPE_REPEATED \<longrightarrow> length vs \<le> unat (array_size f)) \<and>
     (packed f \<longrightarrow> length (concat (map wire_payload vs)) < 2 ^ 32)"

text \<open>The loop comes from one stream, with its local variables and its memory, to another.\<close>

definition loops_to ::
  "unit pb_denv \<Rightarrow> nat \<Rightarrow> unit sub_decoder \<Rightarrow> u64 \<Rightarrow> unit pb_istream_t \<Rightarrow> decode_locals \<Rightarrow> memory \<Rightarrow>
     unit pb_istream_t \<Rightarrow> decode_locals \<Rightarrow> memory \<Rightarrow> bool" where
  "loops_to env fuel sub frame s l m s' l' m' \<longleftrightarrow>
     (\<exists>j. \<forall>n. decode_loop env fuel sub frame (n + j) s l m = decode_loop env fuel sub frame n s' l' m')"

lemma loops_refl: "loops_to env fuel sub frame s l m s l m"
  unfolding loops_to_def by (rule exI [of _ 0]) simp

lemma loops_trans:
  assumes "loops_to env fuel sub frame s l m s' l' m'" and "loops_to env fuel sub frame s' l' m' s'' l'' m''"
  shows "loops_to env fuel sub frame s l m s'' l'' m''"
proof -
  obtain i where i: "\<And>n. decode_loop env fuel sub frame (n + i) s l m = decode_loop env fuel sub frame n s' l' m'"
    using assms(1) unfolding loops_to_def by blast
  obtain j where j: "\<And>n. decode_loop env fuel sub frame (n + j) s' l' m' = decode_loop env fuel sub frame n s'' l'' m''"
    using assms(2) unfolding loops_to_def by blast
  show ?thesis unfolding loops_to_def by (rule exI [of _ "j + i"]) (simp add: i j add.assoc [symmetric])
qed

lemma loops_step:
  assumes "\<And>n. decode_loop env fuel sub frame (Suc n) s l m = decode_loop env fuel sub frame n s' l' m'"
  shows "loops_to env fuel sub frame s l m s' l' m'"
  unfolding loops_to_def by (rule exI [of _ 1]) (simp add: assms)

text \<open>A field whose values are those of the source.\<close>

definition field_read ::
  "unit pb_denv \<Rightarrow> nat \<Rightarrow> unit sub_decoder \<Rightarrow> u64 \<Rightarrow> (memory \<Rightarrow> sub_wire) \<Rightarrow> u64 set \<Rightarrow> pb_field_t list \<Rightarrow> u64 \<Rightarrow>
     unit pb_istream_t \<Rightarrow> decode_locals \<Rightarrow> memory \<Rightarrow> unit pb_istream_t \<Rightarrow> nat \<Rightarrow> wire_value list \<Rightarrow> bool" where
  "field_read env fuel sub frame W F fs dest s l m s' p vs \<longleftrightarrow>
     (\<exists>l' m'. loops_to env fuel sub frame s l m s' l' m' \<and> loop_at fs dest (required_before fs (Suc p)) l' \<and>
        within (area (iter_at fs dest p) \<union> F) m m' \<and> holds (de_descs env) W (iter_at fs dest p) m' vs)"

lemma array_loop_back:
  assumes ok: "fields_ok fs (length fs - 1)" and pl: "plain_message fs" and p: "p < length fs - 1"
    and fb: "field_back (de_descs env) lens W F k (iter_at fs dest p) (decoder_of env sub (fs ! p)) src"
    and h: "PB_HTYPE (field_type (fs ! p)) = PB_HTYPE_REPEATED" and np: "\<not> packed (fs ! p)"
  shows "\<forall>v \<in> set us. src v \<Longrightarrow> length vs + length us \<le> unat (array_size (fs ! p)) \<Longrightarrow>
    loop_at fs dest (required_before fs p) l \<Longrightarrow> holds (de_descs env) W (iter_at fs dest p) m vs \<Longrightarrow>
    field_read env fuel sub frame W F fs dest
      (stream_of (message_bytes (map (Pair (field_tag (fs ! p))) us) @ c) x e) l m (stream_of c x e) p (vs @ us)"
proof (induction us arbitrary: vs l m)
  case Nil
  have "required_before fs (Suc p) = required_before fs p"
    using p h required_before_Suc [of p fs] by (simp add: type_codes)
  then show ?case using Nil loops_refl within_refl unfolding field_read_def by (fastforce intro!: exI [of _ l] exI [of _ m])
next
  case (Cons u us)
  let ?it = "iter_at fs dest p" and ?rest = "message_bytes (map (Pair (field_tag (fs ! p))) us) @ c"
  have n: "length vs < unat (array_size (it_field ?it))" and u: "src u" using Cons.prems(1,2) by simp_all
  have rb: "required_before fs (Suc p) = required_before fs p"
    using p h required_before_Suc [of p fs] by (simp add: type_codes)
  obtain m1 where m1: "decode_static_field env fuel sub (stream_of (wire_payload u @ ?rest) x e) (wire_type u) ?it m = Some (True, stream_of ?rest x e, m1)"
    "within (area ?it \<union> F) m m1" "holds (de_descs env) W ?it m1 (vs @ [u])"
    using unpacked_back [of env lens W F k ?it sub src u vs m fuel ?rest x e "wire_type u"] u n Cons.prems(4) fb h np by auto
  let ?l = "at_field fs dest p l"
  have step: "loops_to env fuel sub frame (stream_of (field_bytes (field_tag (fs ! p)) u @ ?rest) x e) l m (stream_of ?rest x e) ?l m1"
    by (rule loops_step) (rule loop_field [OF ok pl p Cons.prems(3) field_backD(1) [OF fb] m1(1)])
  have l: "loop_at fs dest (required_before fs p) ?l" using loop_at_field [OF pl p Cons.prems(3)] rb by simp
  have "field_read env fuel sub frame W F fs dest (stream_of ?rest x e) ?l m1 (stream_of c x e) p ((vs @ [u]) @ us)"
    by (rule Cons.IH [OF _ _ l m1(3)]) (use Cons.prems(1,2) in simp_all)
  then obtain l' m' where r: "loops_to env fuel sub frame (stream_of ?rest x e) ?l m1 (stream_of c x e) l' m'"
    "loop_at fs dest (required_before fs (Suc p)) l'" "within (area ?it \<union> F) m1 m'" "holds (de_descs env) W ?it m' (vs @ u # us)"
    unfolding field_read_def by auto
  show ?case
    unfolding field_read_def using loops_trans [OF step r(1)] r(2,4) within_trans [OF m1(2) r(3)] by auto
qed

lemma field_read_back:
  assumes st: "static_descs (de_descs env) lens" and pls: "list_all plain_message (de_descs env)" and k: "k \<le> length (de_descs env)"
    and ok: "fields_ok fs (length fs - 1)" and pl: "plain_message fs" and p: "p < length fs - 1"
    and fb: "field_back (de_descs env) lens W F k (iter_at fs dest p) (decoder_of env sub (fs ! p)) src"
    and v: "\<forall>v \<in> set vs. src v" and n: "count_ok (fs ! p) vs" and l: "loop_at fs dest (required_before fs p) l"
    and b: "all_blank (de_descs env) (iter_at fs dest p) m"
  shows "field_read env fuel sub frame W F fs dest (stream_of (message_bytes (wires_of (fs ! p) vs) @ c) x e) l m (stream_of c x e) p vs"
proof -
  let ?it = "iter_at fs dest p" and ?f = "fs ! p" and ?d = "de_descs env"
  note [simp] = type_codes
  note it = field_backD(1) [OF fb]
  have h: "PB_HTYPE (field_type ?f) = PB_HTYPE_REQUIRED \<or> PB_HTYPE (field_type ?f) = PB_HTYPE_OPTIONAL \<or>
    PB_HTYPE (field_type ?f) = PB_HTYPE_REPEATED" by (rule plain_htype(1) [OF plain_fieldD [OF pl p]])
  have one: "field_read env fuel sub frame W F fs dest (stream_of (field_bytes (field_tag ?f) w @ c) x e) l m (stream_of c x e) p vs"
    if "decode_static_field env fuel sub (stream_of (wire_payload w @ c) x e) (wire_type w) ?it m = Some (True, stream_of c x e, m')"
      "within (area ?it \<union> F) m m'" "holds ?d W ?it m' vs" for w m'
    unfolding field_read_def using loops_step [OF loop_field [OF ok pl p l it that(1)]] loop_at_field [OF pl p l] that(2,3) by blast
  show ?thesis
  proof (cases "PB_HTYPE (field_type ?f) = PB_HTYPE_REPEATED")
    case True
    show ?thesis
    proof (cases "packed ?f")
      case False
      have "holds ?d W ?it m []"
        using all_blankD(2) [OF b] True has_values_array [of ?it] plain_atD(3) [OF it] by simp
      then show ?thesis
        using array_loop_back [OF ok pl p fb True False v _ l, of "[]"] n True False by (simp add: count_ok_def wires_of_def)
    next
      case packed: True
      show ?thesis
      proof (cases "vs = []")
        case Nil: True
        have "holds ?d W ?it m []"
          using all_blankD(2) [OF b] True has_values_array [of ?it] plain_atD(3) [OF it] by simp
        moreover have "required_before fs (Suc p) = required_before fs p" using p True required_before_Suc [of p fs] by simp
        ultimately show ?thesis
          using l loops_refl within_refl Nil packed unfolding field_read_def
          by (fastforce simp: wires_of_def intro!: exI [of _ l] exI [of _ m])
      next
        case ne: False
        have c: "length vs \<le> unat (array_size ?f)" "length (concat (map wire_payload vs)) < 2 ^ 32"
          using n True packed by (simp_all add: count_ok_def)
        obtain m' where "decode_static_field env fuel sub (stream_of (wire_payload (Wstring (concat (map wire_payload vs))) @ c) x e) PB_WT_STRING ?it m =
            Some (True, stream_of c x e, m')" "within (area ?it \<union> F) m m'" "holds ?d W ?it m' vs"
          using packed_back [of env lens W F k ?it sub src vs m fuel c x e] fb packed v c b by auto
        then show ?thesis using one [of "Wstring (concat (map wire_payload vs))" m'] packed ne by (simp add: wires_of_def)
      qed
    qed
  next
    case False
    then have np: "\<not> packed ?f" by (simp add: packed_def)
    show ?thesis
    proof (cases vs)
      case Nil
      then have opt: "PB_HTYPE (field_type ?f) = PB_HTYPE_OPTIONAL" using n h False by (auto simp: count_ok_def)
      then have "items m ?it = []" using all_blankD(1) [OF b] by (simp add: items_def)
      then have "holds ?d W ?it m []" using False by (simp add: has_values_def)
      moreover have "required_before fs (Suc p) = required_before fs p" using p opt required_before_Suc [of p fs] by simp
      ultimately show ?thesis
        using l loops_refl within_refl Nil np unfolding field_read_def
        by (fastforce simp: wires_of_def intro!: exI [of _ l] exI [of _ m])
    next
      case (Cons w us)
      then have vs: "vs = [w]" using n h False by (auto simp: count_ok_def)
      obtain m' where "decode_static_field env fuel sub (stream_of (wire_payload w @ c) x e) (wire_type w) ?it m = Some (True, stream_of c x e, m')"
        "within (area ?it \<union> F) m m'" "holds ?d W ?it m' [w]"
        using single_back [of env lens k W F ?it sub src w m fuel c x e] st pls k fb False v vs b by auto
      then show ?thesis using one [of w m'] np vs by (simp add: wires_of_def)
    qed
  qed
qed

end
