(* ===== verification/Pb_Msg_Round_Trip.thy ===== *)
theory Pb_Msg_Round_Trip
  imports Pb_Msg_Message
begin

text \<open>
  Messages that were encoded are decoded: all fields of a message, with its submessages.
\<close>

section \<open>The values of the source\<close>

lemma bytes_member: "(t, w) \<in> set ws \<Longrightarrow> length (field_bytes t w) \<le> length (message_bytes ws)"
  by (induction ws) auto

lemma wire_ok_part: "length (field_bytes t w) < 2 ^ 32 \<Longrightarrow> wire_ok w"
  by (cases w) (simp_all add: field_bytes_def)

lemma packable_ok:
  assumes "PB_LTYPE (field_type f) \<le> PB_LTYPE_LAST_PACKABLE" and "value_fits lens f" and "wire_at descs m sub f a = Some (Some v)"
  shows "wire_ok v"
proof -
  have e: "encodable (PB_LTYPE (field_type f))" using assms(2) by (simp add: value_fits_def Let_def)
  note [simp] = ltype_defs
  show ?thesis using e
    by (cases rule: encodable_cases) (use assms(1,3) in \<open>auto simp: wire_at_def value_at_def\<close>)
qed

text \<open>The values of a field of the source, and their number.\<close>

lemma source_values:
  assumes fit: "message_fits lens k fs len" and pl: "plain_message fs" and obj: "object src len" and p: "p < length fs - 1"
    and hv: "has_values descs ms sub (iter_at fs src p) vs" and se: "field_strings descs ms ends (iter_at fs src p)"
    and len: "length (message_bytes (wires_of (fs ! p) vs)) < 2 ^ 32"
  shows "\<forall>v \<in> set vs. \<exists>b. source_item descs ms sub ends (fs ! p) b v" and "count_ok (fs ! p) vs"
proof -
  let ?it = "iter_at fs src p" and ?f = "fs ! p"
  have it: "plain_at lens k ?it" by (rule plain_at_iter [OF fit pl obj p])
  have vf: "value_fits lens ?f" using plain_atD(1) [OF it] by (simp add: static_field_def)
  have n: "length (items ms ?it) = length vs" using hv by (auto simp: has_values_def dest: list_all2_lengthD)
  have packed_len: "length (concat (map wire_payload vs)) < 2 ^ 32" if "packed ?f"
    using len that by (cases "vs = []") (simp_all add: wires_of_def field_bytes_def)
  show "count_ok ?f vs"
    using n hv packed_len by (auto simp: count_ok_def items_def has_values_def type_codes Let_def split: if_splits)
  show "\<forall>v \<in> set vs. \<exists>b. source_item descs ms sub ends ?f b v"
  proof
    fix v assume v: "v \<in> set vs"
    then obtain b where b: "b \<in> set (items ms ?it)" "wire_at descs ms sub ?f b = Some (Some v)"
      using hv n by (auto simp: has_values_def list_all2_conv_all_nth in_set_conv_nth)
    have ob: "object b (unat (data_size ?f))"
      using items_in(1) [OF message_field_in [OF fit obj subset_refl p] b(1)] hv by (simp add: has_values_def)
    have ok: "wire_ok v"
    proof (cases "packed ?f")
      case True
      then show ?thesis using packable_ok [OF _ vf b(2)] by (simp add: packed_def)
    next
      case False
      then have "(field_tag ?f, v) \<in> set (wires_of ?f vs)" using v by (simp add: wires_of_def)
      then show ?thesis using bytes_member len wire_ok_part by (metis le_less_trans)
    qed
    have "PB_LTYPE (field_type ?f) = PB_LTYPE_STRING \<longrightarrow> 0 \<in> set (load ms b (unat (data_size ?f)))"
      "PB_LTYPE (field_type ?f) = PB_LTYPE_SUBMESSAGE \<longrightarrow> (case submsg_fields descs ?f of None \<Rightarrow> True | Some fs \<Rightarrow> ends fs b)"
      using se b(1) by (auto simp: field_strings_def list_all_iff Let_def split: option.splits)
    then show "\<exists>b. source_item descs ms sub ends ?f b v" using b ob ok unfolding source_item_def by blast
  qed
qed

section \<open>All fields\<close>

lemma area_agree:
  assumes "message_fits lens k fs len" and "plain_message fs" and "object dest len" and "p < length fs - 1" "q < length fs - 1" "p \<noteq> q"
    and "region dest len \<inter> F = {}" and w: "within (area (iter_at fs dest p) \<union> F) m m'"
  shows "agree (area (iter_at fs dest q)) m m'"
proof (rule within_agree [OF w])
  have "dest \<noteq> 0" using assms(3) by (simp add: object_def)
  then show "(area (iter_at fs dest p) \<union> F) \<inter> area (iter_at fs dest q) = {}"
    using areas_disjoint [OF assms(1-6)] area_in [OF assms(1,2) _ assms(5)] assms(7) by blast
qed

lemma fields_read_back:
  assumes st: "static_descs (de_descs env) lens" and pls: "list_all plain_message (de_descs env)" and k: "k \<le> length (de_descs env)"
    and fit: "message_fits lens k fs len" and pl: "plain_message fs" and obj: "object dest len" and F: "region dest len \<inter> F = {}"
    and keeps: "\<And>m m'. keeps_subs (de_descs env) lens k m m' (W m) (W m')"
    and fb: "\<And>p. p < length fs - 1 \<Longrightarrow> field_back (de_descs env) lens W F k (iter_at fs dest p) (decoder_of env sub (fs ! p)) (src p)"
    and v: "\<And>p. p < length fs - 1 \<Longrightarrow> (\<forall>v \<in> set (V p). src p v) \<and> count_ok (fs ! p) (V p)"
    and l: "loop_at fs dest 0 l" and b: "\<And>p. p < length fs - 1 \<Longrightarrow> all_blank (de_descs env) (iter_at fs dest p) m"
  shows "p \<le> length fs - 1 \<Longrightarrow>
    \<exists>l' m'. loops_to env fuel sub frame
        (stream_of (message_bytes (concat (map (\<lambda>p. wires_of (fs ! p) (V p)) [0..<length fs - 1])) @ c) x e) l m
        (stream_of (message_bytes (concat (map (\<lambda>p. wires_of (fs ! p) (V p)) [p..<length fs - 1])) @ c) x e) l' m' \<and>
      loop_at fs dest (required_before fs p) l' \<and> within (region dest len \<union> F) m m' \<and>
      (\<forall>q < p. holds (de_descs env) W (iter_at fs dest q) m' (V q)) \<and>
      (\<forall>q. p \<le> q \<and> q < length fs - 1 \<longrightarrow> all_blank (de_descs env) (iter_at fs dest q) m')"
proof (induction p)
  case 0
  show ?case by (rule exI [of _ l], rule exI [of _ m]) (use l b loops_refl in \<open>simp add: required_before_def\<close>)
next
  case (Suc p)
  let ?N = "length fs - 1" and ?g = "\<lambda>p. wires_of (fs ! p) (V p)" and ?d = "de_descs env"
  let ?rest = "message_bytes (concat (map ?g [Suc p..<?N])) @ c"
  have p: "p < ?N" using Suc.prems by simp
  have ok: "fields_ok fs ?N" by (rule message_fields_ok [OF fit])
  have l: "length lens = length ?d" by (rule static_descsD(2) [OF st])
  have d: "dest \<noteq> 0" using obj by (simp add: object_def)
  let ?s = "stream_of (message_bytes (concat (map ?g [0..<?N])) @ c) x e"
  obtain l1 m1 where m1: "loops_to env fuel sub frame ?s l m (stream_of (message_bytes (concat (map ?g [p..<?N])) @ c) x e) l1 m1"
    "loop_at fs dest (required_before fs p) l1" "within (region dest len \<union> F) m m1"
    "\<And>q. q < p \<Longrightarrow> holds ?d W (iter_at fs dest q) m1 (V q)" "\<And>q. p \<le> q \<Longrightarrow> q < ?N \<Longrightarrow> all_blank ?d (iter_at fs dest q) m1"
    using Suc.IH Suc.prems by auto
  have split: "message_bytes (concat (map ?g [p..<?N])) @ c = message_bytes (?g p) @ ?rest"
    using p by (simp add: upt_conv_Cons)
  have "field_read env fuel sub frame W F fs dest (stream_of (message_bytes (?g p) @ ?rest) x e) l1 m1 (stream_of ?rest x e) p (V p)"
    using v [OF p] m1(5) [OF order.refl p] by (intro field_read_back [OF st pls k ok pl p fb [OF p] _ _ m1(2)]) simp_all
  then obtain l2 m2 where m2: "loops_to env fuel sub frame (stream_of (message_bytes (?g p) @ ?rest) x e) l1 m1 (stream_of ?rest x e) l2 m2"
    "loop_at fs dest (required_before fs (Suc p)) l2" "within (area (iter_at fs dest p) \<union> F) m1 m2"
    "holds ?d W (iter_at fs dest p) m2 (V p)" unfolding field_read_def by blast
  have ag: "agree (area (iter_at fs dest q)) m1 m2" if "q < ?N" "q \<noteq> p" for q
    using area_agree [OF fit pl obj p _ _ F m2(3)] that by blast
  have "holds ?d W (iter_at fs dest q) m2 (V q)" if q: "q < Suc p" for q
  proof (cases "q = p")
    case False
    then have q': "q < p" "q < ?N" using q p by simp_all
    show ?thesis
      by (rule has_values_agree [OF message_field_in [OF fit obj subset_refl q'(2)] _ l keeps ag [OF q'(2) False] m1(4) [OF q'(1)]])
        (use plain_fieldD [OF pl q'(2)] in simp)
  qed (use m2(4) in simp)
  moreover have "all_blank ?d (iter_at fs dest q) m2" if q: "Suc p \<le> q" "q < ?N" for q
    by (rule all_blank_agree [OF st pls k plain_at_iter [OF fit pl obj q(2)] ag m1(5)]) (use q in simp_all)
  moreover have "within (region dest len \<union> F) m m2"
    by (rule within_trans [OF m1(3) within_mono [OF m2(3)]]) (use area_in [OF fit pl d p] in blast)
  moreover have "loops_to env fuel sub frame ?s l m (stream_of ?rest x e) l2 m2"
    by (rule loops_trans [OF m1(1)]) (use m2(1) split in simp)
  ultimately show ?case using m2(2) by blast
qed

section \<open>Messages\<close>

text \<open>The loop with the fuel the code model gives it.\<close>

lemma loop_result:
  assumes st: "static_descs (de_descs env) lens" and fit: "message_fits lens k fs len"
    and k: "k \<le> length (de_descs env)" "k < fuel" and sub: "subs_safe R (de_descs env) lens k sub"
    and R: "object dest len" "region dest len \<subseteq> R" "region frame 4 \<subseteq> R" and it: "iter_in fs dest frame (dl_iter l)"
    and to: "loops_to env fuel sub frame s l m (stream_of [] x e) l' m'"
  shows "decode_loop env fuel sub frame (bytes_left s) s l m = Some (True, stream_of [] x e, l', m')"
proof -
  let ?loop = "\<lambda>n. decode_loop env fuel sub frame n s l m"
  obtain j where j: "\<And>n. ?loop (n + j) = decode_loop env fuel sub frame n (stream_of [] x e) l' m'"
    using to unfolding loops_to_def by blast
  have r: "?loop j = Some (True, stream_of [] x e, l', m')" using j [of 0] by (simp add: decode_loop.simps)
  have "loop_safe R fs dest frame (bytes_left s) m (?loop (bytes_left s))"
    by (rule decode_loop_safe [OF st fit k sub R it order.refl])
  then obtain r' where r': "?loop (bytes_left s) = Some r'" unfolding loop_safe_def by blast
  have "?loop (max j (bytes_left s)) = Some r'" "?loop (max j (bytes_left s)) = Some (True, stream_of [] x e, l', m')"
    using decode_loop_more [OF r', of "max j (bytes_left s)"] decode_loop_more [OF r, of "max j (bytes_left s)"] by simp_all
  then show ?thesis using r' by simp
qed

lemma concat_part: "x \<in> set xs \<Longrightarrow> \<exists>us vs. concat (map g xs) = us @ g x @ vs"
proof -
  assume "x \<in> set xs"
  then obtain ys zs where "xs = ys @ x # zs" using split_list by fast
  then have "concat (map g xs) = concat (map g ys) @ g x @ concat (map g zs)" by simp
  then show ?thesis by blast
qed

lemma message_read_back:
  assumes st: "static_descs (de_descs env) lens" and pls: "list_all plain_message (de_descs env)"
    and E: "env_descs E = de_descs env"
  shows "message_fits lens k fs len \<Longrightarrow> plain_message fs \<Longrightarrow> k \<le> length (de_descs env) \<Longrightarrow> k + 1 < fuel \<Longrightarrow>
    object dest len \<Longrightarrow> region dest len \<inter> F = {} \<Longrightarrow> frames env fuel \<subseteq> F \<Longrightarrow> object src len \<Longrightarrow>
    (\<And>n. blank (de_descs env) m n fs dest) \<Longrightarrow> wire_in E cw n ms fs src = Some (Some ws) \<Longrightarrow>
    strings_end (de_descs env) ms n fs src \<Longrightarrow> length (message_bytes ws) < 2 ^ 32 \<Longrightarrow>
    \<exists>m'. pb_decode_noinit env fuel (stream_of (message_bytes ws) x e) fs dest m = Some (True, stream_of [] x e, m') \<and>
      within (region dest len \<union> F) m m' \<and> wire_in E cw n m' fs dest = Some (Some ws)"
proof (induction fuel arbitrary: k fs len dest src m n ws x e)
  case (Suc fuel)
  note fit = Suc.prems(1) and pl = Suc.prems(2) and k = Suc.prems(3) and obj = Suc.prems(5) and F = Suc.prems(6)
    and so = Suc.prems(8)
  let ?d = "de_descs env" and ?N = "length fs - 1" and ?frame = "de_frame env fuel"
  let ?sub = "\<lambda>init. if init then init_and_decode env fuel (\<lambda>s fs a m. pb_decode_noinit env fuel s fs a m)
                else (\<lambda>s fs a m. pb_decode_noinit env fuel s fs a m)"
  obtain n' where n': "n = Suc n'" using Suc.prems(10) by (cases n) (auto simp: wire_in_def)
  let ?W = "wire_in E cw n'" and ?ends = "strings_end ?d ms n'"
  have l: "length lens = length ?d" by (rule static_descsD(2) [OF st])
  have kf: "k < fuel" using Suc.prems(4) by simp
  have fr: "frames env fuel \<subseteq> F" "region ?frame 4 \<subseteq> F" using Suc.prems(7) by (auto simp: frames_def lessThan_Suc)
  have ok: "fields_ok fs ?N" by (rule message_fields_ok [OF fit])
  have N: "0 < ?N" using ok by (simp add: fields_ok_def)
  have below: "j < length ?d" "j \<le> length ?d" "j + 1 < fuel" "j < fuel" if "j < k" for j using that k Suc.prems(4) by simp_all
  have desc: "message_fits lens j (?d ! j) (lens ! j)" "plain_message (?d ! j)" if "j < k" for j
    using static_descsD(1) [OF st below(1) [OF that]] pls below(1) [OF that] by (simp_all add: list_all_length)
  have keeps: "keeps_subs ?d lens k m m' (?W m) (?W m')" for m m'
    unfolding keeps_subs_def
  proof (intro allI impI)
    fix j a us assume j: "j < k" "object a (lens ! j)" "agree (region a (lens ! j)) m m'" "?W m (?d ! j) a = Some (Some us)"
    show "?W m' (?d ! j) a = Some (Some us)"
      by (rule wire_in_agree [OF _ _ desc [OF j(1)] _ j(2-4)]) (use st pls E below(2) [OF j(1)] in simp_all)
  qed
  have sub: "sub_back ?d lens ?W ?ends F ms k ?sub"
    unfolding sub_back_def
  proof (intro allI impI)
    fix j init b a m us x e
    assume j: "j < k" and a: "object a (lens ! j)" "region a (lens ! j) \<inter> F = {}" and b: "object b (lens ! j)"
      "?W ms (?d ! j) b = Some (Some us)" "?ends (?d ! j) b" "length (message_bytes us) < 2 ^ 32"
      and bl: "\<not> init \<longrightarrow> (\<forall>n. blank ?d m n (?d ! j) a)"
    have no: "\<exists>m'. pb_decode_noinit env fuel (stream_of (message_bytes us) x e) (?d ! j) a m = Some (True, stream_of [] x e, m') \<and>
        within (region a (lens ! j) \<union> F) m m' \<and> ?W m' (?d ! j) a = Some (Some us)" if "\<And>n. blank ?d m n (?d ! j) a" for m
      by (rule Suc.IH [OF desc [OF j] below(2,3) [OF j] a fr(1) b(1) that b(2-4)])
    show "\<exists>m'. ?sub init (stream_of (message_bytes us) x e) (?d ! j) a m = Some (True, stream_of [] x e, m') \<and>
        within (region a (lens ! j) \<union> F) m m' \<and> ?W m' (?d ! j) a = Some (Some us)"
    proof (cases init)
      case True
      obtain m1 where m1: "set_defaults env fuel (?d ! j) a m = Some m1" "within (region a (lens ! j)) m m1"
        "\<forall>n. blank ?d m1 n (?d ! j) a"
        using set_defaults_blank [OF st pls desc [OF j] below(2,4) [OF j] a(1)] by blast
      obtain m' where m': "pb_decode_noinit env fuel (stream_of (message_bytes us) x e) (?d ! j) a m1 = Some (True, stream_of [] x e, m')"
        "within (region a (lens ! j) \<union> F) m1 m'" "?W m' (?d ! j) a = Some (Some us)" using no [of m1] m1(3) by blast
      have "within (region a (lens ! j) \<union> F) m m'" by (rule within_trans [OF within_mono [OF m1(2)] m'(2)]) simp
      then show ?thesis using True m1(1) m' by (simp add: init_and_decode_def)
    next
      case False
      then show ?thesis using no bl by simp
    qed
  qed
  obtain V where V: "\<And>p. p < ?N \<Longrightarrow> has_values ?d ms (?W ms) (iter_at fs src p) (V p)"
    "ws = concat (map (\<lambda>p. wires_of (fs ! p) (V p)) [0..<?N])"
    using Suc.prems(10) unfolding n' wire_in_iff [OF fit pl so] E by blast
  let ?src = "\<lambda>p v. \<exists>b. source_item ?d ms (?W ms) ?ends (fs ! p) b v"
  have vals: "(\<forall>v \<in> set (V p). ?src p v) \<and> count_ok (fs ! p) (V p)" if p: "p < ?N" for p
  proof -
    obtain us vs where "ws = us @ wires_of (fs ! p) (V p) @ vs"
      using concat_part [of p "[0..<?N]" "\<lambda>p. wires_of (fs ! p) (V p)"] p unfolding V(2) by auto
    then have len: "length (message_bytes (wires_of (fs ! p) (V p))) < 2 ^ 32" using Suc.prems(12) by simp
    have se: "field_strings ?d ms ?ends (iter_at fs src p)" using Suc.prems(11) p by (simp add: n' strings_end_iff)
    show ?thesis using source_values [OF fit pl so p V(1) [OF p] se len] by blast
  qed
  have fb: "field_back ?d lens ?W F k (iter_at fs dest p) (decoder_of env ?sub (fs ! p)) (?src p)" if p: "p < ?N" for p
  proof -
    have it: "plain_at lens k (iter_at fs dest p)" by (rule plain_at_iter [OF fit pl obj p])
    have "dest \<noteq> 0" using obj by (simp add: object_def)
    then have aF: "area (iter_at fs dest p) \<inter> F = {}" using area_in [OF fit pl _ p] F by blast
    have "read_item ?d ?W F (decoder_of env ?sub (fs ! p)) (fs ! p) a m v"
      if v: "?src p v" and a: "object a (unat (data_size (fs ! p)))" "region a (unat (data_size (fs ! p))) \<subseteq> area (iter_at fs dest p)"
        "blank_at ?d (fs ! p) a m" for v a m
    proof -
      obtain b where b: "source_item ?d ms (?W ms) ?ends (fs ! p) b v" using v by blast
      show ?thesis
        by (rule item_back [OF _ _ l sub a(1) _ a(3) b]) (use plain_atD(1,2) [OF it] a(2) aF in auto)
    qed
    then show ?thesis unfolding field_back_def using it l keeps aF by simp
  qed
  let ?m0 = "store_u32 m ?frame 0" and ?s = "stream_of (message_bytes ws) x e"
  let ?l0 = "\<lparr>dl_iter = snd (pb_field_iter_begin fs dest), fields_seen = [0, 0], extension_range_start = 0, fixed_count_field = None\<rparr>"
  have w0: "within F m ?m0" by (rule within_le_store [OF fr(2)])
  have it0: "dl_iter ?l0 = iter_at fs dest 0" using iter_begin [OF ok, of dest] by simp
  have l0: "loop_at fs dest 0 ?l0"
    unfolding loop_at_def it0 using N by (intro conjI exI [of _ 0] refl) (simp_all add: seen_up_to_def)
  have "blank ?d ?m0 (Suc j) fs dest" for j
    by (rule blank_agree [OF st pls fit pl k obj within_agree [OF w0] Suc.prems(9)]) (use F in blast)
  then have b0: "all_blank ?d (iter_at fs dest p) ?m0" if "p < ?N" for p
    using that by (simp add: all_blank_def blank_iff)
  obtain l' m' where r: "loops_to env fuel ?sub ?frame ?s ?l0 ?m0 (stream_of [] x e) l' m'" "loop_at fs dest (required_before fs ?N) l'"
    "within (region dest len \<union> F) ?m0 m'" "\<forall>q < ?N. holds ?d ?W (iter_at fs dest q) m' (V q)"
    using fields_read_back [OF st pls k fit pl obj F keeps fb vals l0 b0 order.refl, of fuel ?frame "[]" x e] unfolding V(2) by auto
  have "decode_loop env fuel ?sub ?frame (bytes_left ?s) ?s ?l0 ?m0 = Some (True, stream_of [] x e, l', m')"
    by (rule loop_result [OF st fit k kf subs_safe_decode [OF st k kf] obj _ _ _ r(1), of "region dest len \<union> F"])
      (use fr(1) fr(2) iter_in_at [OF N, of dest ?frame] in \<open>simp_all only: it0 le_supI2 sup.cobounded1\<close>)
  moreover obtain q where q: "q < ?N" "dl_iter l' = iter_at fs dest q" using r(2) by (auto simp: loop_at_def)
  have "length fs < 2 ^ 32" using pl by (simp add: plain_message_def)
  then have "?N < 2 ^ 32" by linarith
  then have "req_field_count (dl_iter l') = Some (min (required_before fs ?N) 64)" unfolding q(2) by (rule req_count [OF ok q(1)])
  moreover have "fixed_count_field l' = None" "fields_seen l' = seen_up_to (required_before fs ?N)"
    using r(2) by (simp_all add: loop_at_def)
  ultimately have "pb_decode_noinit env (Suc fuel) ?s fs dest m = Some (True, stream_of [] x e, m')"
    using all_seen [of "required_before fs ?N"] by (simp add: noinit_body_def fixed_count_done_def Let_def)
  moreover have "within (region dest len \<union> F) m m'" by (rule within_trans [OF within_mono [OF w0] r(3)]) simp
  moreover have "wire_in E cw n m' fs dest = Some (Some ws)"
    unfolding n' wire_in_iff [OF fit pl obj] E using r(4) V(2) by blast
  ultimately show ?case by blast
qed simp

end
