(* ===== verification/Pb_Msg_Copy_Claims.thy ===== *)
theory Pb_Msg_Copy_Claims
  imports Pb_Msg_Round_Trip Pb_Msg_Claims Pb_Msg_Decode_Claims
begin

text \<open>
  Encoder and decoder of messages together.
\<close>

section \<open>Round trip\<close>

lemma fits_message_ok: "message_fits lens k fs len \<Longrightarrow> message_ok fs"
  by (simp add: message_fits_def nested_def)

lemma static_descs_ok: "static_descs (env_descs E) lens \<Longrightarrow> descs_ok E"
  using fits_message_ok by (fastforce simp: descs_ok_def static_descs_def list_all_length)

lemma decode_back:
  assumes st: "static_descs (de_descs env) lens" and pls: "list_all plain_message (de_descs env)"
    and E: "env_descs E = de_descs env"
    and fit: "message_fits lens (length (de_descs env)) fs len" "plain_message fs" and fuel: "length (de_descs env) + 1 < fuel"
    and dest: "object dest len" "region dest len \<inter> frames env fuel = {}" and src: "object src len"
    and w: "msg_wire E cw n fs src = Some (Some ws)" "strings_end (env_descs E) (env_mem E) n fs src"
    and len: "length (message_bytes ws) < 2 ^ 32"
  shows "\<exists>m'. pb_decode env fuel (stream_of (message_bytes ws) x e) fs dest m = Some (True, stream_of [] x e, m') \<and>
    within (region dest len \<union> frames env fuel) m m' \<and> msg_wire (E\<lparr>env_mem := m'\<rparr>) cw n fs dest = Some (Some ws)"
proof -
  let ?k = "length (de_descs env)"
  have k: "?k \<le> ?k" "?k < fuel" using fuel by simp_all
  obtain m1 where m1: "set_defaults env fuel fs dest m = Some m1" "within (region dest len) m m1"
    "\<And>i. blank (de_descs env) m1 i fs dest"
    using set_defaults_blank [OF st pls fit k dest(1)] by blast
  have w': "wire_in E cw n (env_mem E) fs src = Some (Some ws)" "strings_end (de_descs env) (env_mem E) n fs src"
    using w E by (simp_all add: wire_in_def)
  obtain m' where m': "pb_decode_noinit env fuel (stream_of (message_bytes ws) x e) fs dest m1 = Some (True, stream_of [] x e, m')"
    "within (region dest len \<union> frames env fuel) m1 m'" "wire_in E cw n m' fs dest = Some (Some ws)"
    using message_read_back [OF st pls E fit k(1) fuel dest subset_refl src m1(3) w' len] by blast
  have "pb_decode env fuel (stream_of (message_bytes ws) x e) fs dest m = Some (True, stream_of [] x e, m')"
    using m1(1) m'(1) by (simp add: pb_decode_def init_and_decode_def)
  moreover have "within (region dest len \<union> frames env fuel) m m'"
    by (rule within_trans [OF within_mono [OF m1(2)] m'(2)]) simp
  ultimately show ?thesis using m'(3) by (auto simp: wire_in_def)
qed

text \<open>
  (C1) What \<open>pb_encode\<close> writes, \<open>pb_decode\<close> reads back. Take messages with static fields and no unions, whose
  optional fields have a flag and whose arrays have a count, whose fields have different tags and do not
  overlap, and likewise their submessages. If the message at \<open>src\<close> has the wire form \<open>ws\<close>, with strings that
  end inside of their fields, then the encoder writes its bytes, and from these the decoder, into a
  structure at \<open>dest\<close> with any contents, makes a message with the same wire form: all fields, array
  entries and submessages have the values they had. Nothing else is changed but the decoder's local
  variables. The same holds with the length in front.
\<close>

theorem pb_decode_encoded_message:
  assumes "callbacks_write E cw" and "de_descs env = env_descs E" and "static_descs (env_descs E) lens"
    and "list_all plain_message (env_descs E)" and "message_fits lens (length (env_descs E)) fs len" and "plain_message fs"
    and "object src len" and "object dest len" and "length (env_descs E) + 1 < fuel" and "region dest len \<inter> frames env fuel = {}"
    and "msg_wire E cw n fs src = Some (Some ws)" and "strings_end (env_descs E) (env_mem E) n fs src"
    and "length (message_bytes ws) < 2 ^ 32"
  shows "yields (\<lambda>s. pb_encode n E s fs src) (message_bytes ws) \<and>
    (\<exists>m'. pb_decode env fuel (stream_of (message_bytes ws) x e) fs dest m = Some (True, stream_of [] x e, m') \<and>
       within (region dest len \<union> frames env fuel) m m' \<and> msg_wire (E\<lparr>env_mem := m'\<rparr>) cw n fs dest = Some (Some ws)) \<and>
    (\<exists>m'. pb_decode_delimited env fuel (stream_of (leb (length (message_bytes ws)) @ message_bytes ws @ c) x e) fs dest m =
         Some (True, stream_of c x e, m') \<and>
       within (region dest len \<union> frames env fuel) m m' \<and> msg_wire (E\<lparr>env_mem := m'\<rparr>) cw n fs dest = Some (Some ws))"
proof -
  let ?ok = "\<lambda>m'. within (region dest len \<union> frames env fuel) m m' \<and>
    msg_wire (E\<lparr>env_mem := m'\<rparr>) cw n fs dest = Some (Some ws)"
  have st: "static_descs (de_descs env) lens" "list_all plain_message (de_descs env)" "env_descs E = de_descs env"
    "message_fits lens (length (de_descs env)) fs len" "length (de_descs env) + 1 < fuel"
    using assms(2-5,9) by simp_all
  have again: "\<exists>m'. pb_decode env fuel (stream_of (message_bytes ws) x e) fs dest m = Some (True, stream_of [] x e, m') \<and> ?ok m'" for x
    by (rule decode_back [OF st(1-4) assms(6) st(5) assms(8,10,7,11,12,13)])
  obtain m' where m': "pb_decode env fuel (stream_of (message_bytes ws) (c @ x) e) fs dest m = Some (True, stream_of [] (c @ x) e, m')"
    "?ok m'"
    using again [of "c @ x"] by blast
  have "pb_decode_delimited env fuel (stream_of (leb (length (message_bytes ws)) @ message_bytes ws @ c) x e) fs dest m =
      Some (True, stream_of c x e, m')"
    unfolding pb_decode_delimited_def by (rule in_substream_of) (use assms(13) m'(1) in simp_all)
  moreover have "yields (\<lambda>s. pb_encode n E s fs src) (message_bytes ws)"
    using writes_message [OF assms(1) static_descs_ok [OF assms(3)] fits_message_ok [OF assms(5)], of n src]
    unfolding assms(11) by simp
  ultimately show ?thesis using again [of x] m'(2) by blast
qed

text \<open>A witness: a path with two points, the second with its optional number.\<close>

definition path_memory :: memory where
  "path_memory a =
     (if a = 0x1000 then 2 else if a = 0x1004 then 5 else if a = 0x1014 then 1 else if a = 0x101B then 1
      else if a = 0x101C then 7 else 0)"

lemma point_wires:
  "msg_wire (example_env path_memory [point_fields]) no_callbacks 1 point_fields 0x1004 = Some (Some [(1, Wvarint 5)])"
  "msg_wire (example_env path_memory [point_fields]) no_callbacks 1 point_fields 0x1014 = Some (Some [(1, Wvarint 1), (2, W64bit 7)])"
  by code_simp+

lemma point_bytes: "message_bytes [(1, Wvarint 5)] = [8, 5]" "message_bytes [(1, Wvarint 1), (2, W64bit 7)] = [8, 1, 0x11, 7, 0, 0, 0, 0, 0, 0, 0]"
  by code_simp+

lemma path_wire:
  "msg_wire (example_env path_memory [point_fields]) no_callbacks 2 path_fields 0x1000 =
     Some (Some [(1, Wstring [8, 5]), (1, Wstring [8, 1, 0x11, 7, 0, 0, 0, 0, 0, 0, 0])])"
proof -
  let ?E = "example_env path_memory [point_fields]" and ?f = "path_fields ! 0"
  define sub where "sub = msg_wire ?E no_callbacks 1"
  have f: "PB_HTYPE (field_type ?f) = PB_HTYPE_REPEATED" "PB_ATYPE (field_type ?f) = PB_ATYPE_STATIC"
    "PB_LTYPE (field_type ?f) = PB_LTYPE_SUBMESSAGE" "size_offset ?f = - 4" "field_ptr ?f = Submsg_fields 0" "field_tag ?f = 1"
    "array_size ?f = 3" "data_size ?f = 16" "submsg_fields [point_fields] ?f = Some point_fields"
    by code_simp+
  have n: "load_u32 path_memory 0x1000 = 2" by code_simp
  have e: "env_mem ?E = path_memory" "env_descs ?E = [point_fields]" by (simp_all add: example_env_def)
  have es: "entries ?f 0x1004 2 = [0x1004, 0x1014]" by code_simp
  have "array_wire [point_fields] path_memory sub ?f 0x1004 2 =
      Some (Some [(1, Wstring [8, 5]), (1, Wstring [8, 1, 0x11, 7, 0, 0, 0, 0, 0, 0, 0])])"
    using point_wires [folded sub_def]
    by (simp add: array_wire_def Let_def f es item_at_def wire_at_def sub_value_def point_bytes join_def type_defs
      del: message_bytes_simps)
  then have "field_wire ?E no_callbacks 1 sub ?f 0x1004 =
      Some (Some [(1, Wstring [8, 5]), (1, Wstring [8, 1, 0x11, 7, 0, 0, 0, 0, 0, 0, 0])])"
    by (simp add: field_wire_def basic_wire_def Let_def f e n type_codes)
  moreover have "field_data path_fields 0x1000 0 = 0x1004" "length path_fields = 2" by code_simp+
  moreover have "PB_LTYPE_SUBMESSAGE \<noteq> PB_LTYPE_EXTENSION" by code_simp
  ultimately show ?thesis by (simp add: numeral_2_eq_2 f sub_def del: field_data.simps)
qed

text \<open>Where no field is a string, all strings have an end.\<close>

lemma no_strings:
  assumes "list_all (\<lambda>fs. list_all (\<lambda>f. PB_LTYPE (field_type f) \<noteq> PB_LTYPE_STRING) (butlast fs)) descs"
  shows "list_all (\<lambda>f. PB_LTYPE (field_type f) \<noteq> PB_LTYPE_STRING) (butlast fs) \<Longrightarrow> strings_end descs m n fs a"
proof (induction n arbitrary: fs a)
  case (Suc n fs b)
  have "field_strings descs m (strings_end descs m n) (iter_at fs b p)" if p: "p < length fs - 1" for p
  proof -
    have "PB_LTYPE (field_type (fs ! p)) \<noteq> PB_LTYPE_STRING" using Suc.prems p by (auto simp: list_all_length nth_butlast)
    moreover have "strings_end descs m n gs c" if "submsg_fields descs (fs ! p) = Some gs" for gs c
    proof -
      have "gs \<in> set descs" using that by (auto simp: submsg_fields_def split: pb_field_ptr.splits if_splits)
      then show ?thesis using assms by (intro Suc.IH) (simp add: list_all_iff)
    qed
    ultimately show ?thesis by (auto simp: field_strings_def list_all_iff Let_def split: option.split)
  qed
  then show ?case by (simp add: strings_end_iff)
qed simp

lemma path_strings: "strings_end [point_fields] path_memory 2 path_fields 0x1000"
  by (rule no_strings) code_simp+

lemma path_plain: "list_all plain_message [point_fields]" "plain_message path_fields"
proof -
  have t: "PB_HTYPE 1 = PB_HTYPE_REQUIRED" "PB_HTYPE 0x15 = PB_HTYPE_OPTIONAL" "PB_HTYPE 0x28 = PB_HTYPE_REPEATED"
    "PB_LTYPE 1 \<noteq> PB_LTYPE_BYTES" "PB_LTYPE 0x15 \<noteq> PB_LTYPE_BYTES" "PB_LTYPE 0x28 \<noteq> PB_LTYPE_BYTES" by code_simp+
  have "distinct (map field_tag point_fields)" "all_apart (concat (map (footprint point_fields) [0..<2]))" by code_simp+
  moreover have "list_all plain_field (butlast point_fields)" by (simp add: point_fields_def plain_field_def t)
  moreover have "length point_fields = 3" by (simp add: point_fields_def)
  ultimately show "list_all plain_message [point_fields]" by (simp add: plain_message_def)
  have "distinct (map field_tag path_fields)" "all_apart (concat (map (footprint path_fields) [0..<1]))" by code_simp+
  moreover have "list_all plain_field (butlast path_fields)" by (simp add: path_fields_def plain_field_def t)
  moreover have "length path_fields = 2" by (simp add: path_fields_def)
  ultimately show "plain_message path_fields" by (simp add: plain_message_def)
qed

lemma path_bytes:
  "message_bytes [(1, Wstring [8, 5]), (1, Wstring [8, 1, 0x11, 7, 0, 0, 0, 0, 0, 0, 0])] =
     [0x0A, 2, 8, 5, 0x0A, 11, 8, 1, 0x11, 7, 0, 0, 0, 0, 0, 0, 0]"
  by code_simp

theorem pb_decode_encoded_message_witness:
  "\<exists>m'. pb_decode (example_denv [point_fields]) 3
      (stream_of [0x0A, 2, 8, 5, 0x0A, 11, 8, 1, 0x11, 7, 0, 0, 0, 0, 0, 0, 0] [] None) path_fields 0x2000 (\<lambda>_. 7) =
      Some (True, stream_of [] [] None, m') \<and>
    msg_wire (example_env m' [point_fields]) no_callbacks 2 path_fields 0x2000 =
      Some (Some [(1, Wstring [8, 5]), (1, Wstring [8, 1, 0x11, 7, 0, 0, 0, 0, 0, 0, 0])])"
proof -
  let ?env = "example_denv [point_fields] :: unit pb_denv" and ?E = "example_env path_memory [point_fields]"
  have d: "de_descs ?env = [point_fields]" "env_descs ?E = [point_fields]" "env_mem ?E = path_memory"
    "?E\<lparr>env_mem := m'\<rparr> = example_env m' [point_fields]" for m'
    by (simp_all add: example_denv_def example_env_def)
  have o: "object 0x1000 52" "object 0x2000 52" by (simp_all add: object_def)
  have "list_all (\<lambda>a. a \<notin> frames ?env 3) (map (\<lambda>i. 0x2000 + of_nat i) [0..<52])"
    unfolding frames_def region_def example_denv_def by code_simp
  then have dis: "region 0x2000 52 \<inter> frames ?env 3 = {}" by (auto simp: region_def list_all_iff)
  show ?thesis
    using pb_decode_encoded_message [OF example_callbacks _ _ _ _ path_plain(2) o _ dis path_wire, of "[16]" "[]" None "\<lambda>_. 7" "[]"]
      example_fits path_plain(1) path_strings
    unfolding path_bytes d by auto
qed

section \<open>Strings without an end\<close>

lemma unat_plus_one: "unat (w + 1 :: u32) < unat w \<or> unat w < unat (w + 1)"
proof -
  have "w + 1 \<noteq> w" by simp
  then have "unat (w + 1) \<noteq> unat w" by (metis unsigned_word_eqI)
  then show ?thesis by linarith
qed

text \<open>
  A string that fills its field without a zero byte is encoded, with all of its bytes, but what is
  written cannot be decoded into a field of the same type, which needs room for the zero byte.
\<close>

theorem pb_string_without_end:
  assumes "PB_LTYPE (field_type f) = PB_LTYPE_STRING" and "PB_ATYPE (field_type f) = PB_ATYPE_STATIC"
    and "a \<noteq> 0" and "0 \<notin> set (load m a (unat (data_size f)))" and "bs = load m a (unat (data_size f))"
  shows "yields (\<lambda>s. Some (pb_enc_string m s f a)) (wire_payload (Wstring bs)) \<and>
    (\<exists>msg. pb_dec_string env (stream_of (wire_payload (Wstring bs) @ c) x e) f dest m' = dec_error (stream_of (bs @ c) x e) m' msg)"
proof -
  let ?n = "unat (data_size f)" and ?s = "stream_of (bs @ c) x e"
  have np: "PB_ATYPE (field_type f) \<noteq> PB_ATYPE_POINTER" unfolding assms(2) by code_simp
  have b: "length bs = ?n" using assms(5) by simp
  have "takeWhile (\<lambda>c. c \<noteq> 0) (load m a ?n) = load m a ?n"
    using assms(4) unfolding takeWhile_eq_all_conv by blast
  then have "str_loop m a 0 ?n = ?n" by (simp only: string_length_loop diff_zero add_0 length_load)
  then have e: "pb_enc_string m s f a = pb_encode_string s bs ?n" for s
    using np assms(3) by (simp add: pb_enc_string_def Let_def assms(5))
  have "?n < SIZE_MOD" using unat_u32_less [of "data_size f"] by (simp add: SIZE_MOD_def)
  then have "yields (\<lambda>s. Some (pb_enc_string m s f a)) (wire_payload (Wstring bs))"
    unfolding e by (rule yields_string [OF b])
  moreover have d: "pb_decode_varint32 (stream_of (leb ?n @ bs @ c) x e) = (Some (data_size f), ?s)"
    using decode_varint32 [of ?n] unat_u32_less [of "data_size f"] by simp
  have a: "unat (data_size f + 1) < ?n \<or> ?n < unat (data_size f + 1)" by (rule unat_plus_one)
  have "\<exists>msg. pb_dec_string env (stream_of (leb ?n @ bs @ c) x e) f dest m' = dec_error ?s m' msg"
    using a np unfolding pb_dec_string_def d by (auto simp: Let_def)
  ultimately show ?thesis by (simp add: b)
qed

definition name_field :: pb_field_t where
  "name_field = \<lparr>field_tag = 1, field_type = 7, data_offset = 0, size_offset = 0, data_size = 2, array_size = 0, field_ptr = No_ptr\<rparr>"

theorem pb_string_without_end_witness:
  "yields (\<lambda>s. Some (pb_enc_string (\<lambda>_. 0x61) s name_field 0x1000)) [2, 0x61, 0x61] \<and>
   \<not> fst (pb_dec_string (example_denv []) (stream_of [2, 0x61, 0x61] [] None) name_field 0x2000 (\<lambda>_. 0))"
proof -
  have f: "PB_LTYPE (field_type name_field) = PB_LTYPE_STRING" "PB_ATYPE (field_type name_field) = PB_ATYPE_STATIC"
    "load (\<lambda>_. 0x61) 0x1000 (unat (data_size name_field)) = [0x61, 0x61]" by code_simp+
  have p: "wire_payload (Wstring [0x61, 0x61]) = [2, 0x61, 0x61]" by code_simp
  show ?thesis
    using pb_string_without_end [OF f(1,2), of "0x1000" "\<lambda>_. 0x61" "[0x61, 0x61]" "example_denv []" "[]" "[]" None "0x2000" "\<lambda>_. 0"]
    unfolding f(3) p by (force simp: dec_error_def)
qed

end
