(* ===== verification/Pb_Msg_Errors.thy ===== *)
theory Pb_Msg_Errors
  imports Pb_Msg_Decode_Claims Pb_Msg_Copy_Claims
begin

text \<open>
  What the decoder does against its intentions: the wire type of a field is not looked at, default values
  are written beyond an array, and the terminator of an empty message is decoded as a field.
\<close>

section \<open>The wire type of a field\<close>

lemma find_first:
  assumes "message_ok fs" and "p < length fs - 1" and "PB_LTYPE (field_type (fs ! p)) \<noteq> PB_LTYPE_EXTENSION"
    and "\<forall>q < p. field_tag (fs ! q) \<noteq> field_tag (fs ! p)"
  shows "pb_field_iter_find (iter_at fs dest 0) (field_tag (fs ! p)) = Some (True, iter_at fs dest p)"
proof -
  let ?n = "length fs - 1" and ?M = "\<lambda>k. matches (field_tag (fs ! p)) (fs ! k)"
  have ok: "fields_ok fs ?n" "0 < ?n" using message_ok_cases [OF assms(1)] assms(2) by auto
  have "[0..<?n] = [0..<p] @ p # [Suc p..<?n]"
    using assms(2) upt_conv_Cons [of p ?n] upt_add_eq_append [of 0 p "?n - p"] by simp
  moreover have "filter ?M [0..<p] = []" using assms(4) by (auto simp: filter_empty_conv matches_def)
  moreover have "?M p" using assms(3) by (simp add: matches_def)
  ultimately show ?thesis using find_exact [OF ok, of dest "field_tag (fs ! p)"] by simp
qed

text \<open>Single fields.\<close>

definition single_static :: "pb_field_t \<Rightarrow> bool" where
  "single_static f \<longleftrightarrow> PB_LTYPE (field_type f) \<noteq> PB_LTYPE_EXTENSION \<and> PB_ATYPE (field_type f) = PB_ATYPE_STATIC \<and>
     (PB_HTYPE (field_type f) = PB_HTYPE_REQUIRED \<or> PB_HTYPE (field_type f) = PB_HTYPE_OPTIONAL)"

lemma decode_single:
  assumes "single_static (it_field it)"
  shows "decode_field env fuel sub s w it m = decode_field env fuel sub s w' it m"
proof -
  have "PB_HTYPE (field_type (it_field it)) \<noteq> PB_HTYPE_REPEATED" "PB_HTYPE (field_type (it_field it)) \<noteq> PB_HTYPE_ONEOF"
    using assms by (auto simp: single_static_def type_codes)
  then show ?thesis using assms by (simp add: decode_field_def decode_static_field_def single_static_def Let_def)
qed

lemma length_leb_tag:
  assumes "k < 8"
  shows "length (leb (t * 8 + k)) = length (leb (t * 8))"
proof -
  have l: "length (leb n) = (if n < 128 then 1 else Suc (length (leb (n div 128))))" for n by (subst leb.simps) simp
  have "(t * 8 + k) div (8 * 16) = t * 8 div (8 * 16)" unfolding div_mult2_eq using assms by simp
  then have "(t * 8 + k) div 128 = t * 8 div 128" by simp
  moreover have "t * 8 + k < 128 \<longleftrightarrow> t * 8 < 128" using assms by presburger
  ultimately show ?thesis unfolding l [of "t * 8 + k"] l [of "t * 8"] by (simp only:)
qed

lemma loop_ignores_wire_type:
  assumes "message_ok fs" and "p < length fs - 1" and "single_static (fs ! p)"
    and "\<forall>q < p. field_tag (fs ! q) \<noteq> field_tag (fs ! p)" and "unat (field_tag (fs ! p)) < 2 ^ 29" and "k < 8"
    and "dl_iter l = iter_at fs dest 0"
  shows "decode_loop env fuel sub frame (Suc n) (stream_of (leb (unat (field_tag (fs ! p)) * 8 + k) @ c) x e) l m =
    (let l = note_required (l\<lparr>dl_iter := iter_at fs dest p\<rparr>)
     in case decode_field env fuel sub (stream_of c x e) 0 (dl_iter l) m of
          None \<Rightarrow> None
        | Some (False, stream, iter, m) \<Rightarrow> Some (False, stream, l\<lparr>dl_iter := iter\<rparr>, m)
        | Some (True, stream, iter, m) \<Rightarrow> decode_loop env fuel sub frame n stream (l\<lparr>dl_iter := iter\<rparr>) m)"
proof -
  let ?t = "field_tag (fs ! p)" and ?l = "l\<lparr>dl_iter := iter_at fs dest p\<rparr>"
  have "fields_ok fs (length fs - 1)" using message_ok_cases [OF assms(1)] assms(2) by auto
  from fields_okD [OF this assms(2)] have "0 < unat ?t" by (simp add: unat_gt_0)
  note tag = decode_any_tag [OF this assms(5,6), of c x e]
  have find: "pb_field_iter_find (dl_iter l) ?t = Some (True, iter_at fs dest p)"
    using find_first [OF assms(1,2) _ assms(4), of dest] assms(3,7) by (simp add: single_static_def)
  have enter: "enter_fixed_count frame ?l m = Some (?l, m)"
    using assms(3) by (auto simp: enter_fixed_count_def Let_def single_static_def type_codes)
  have "single_static (it_field (dl_iter (note_required ?l)))" using assms(3) by (simp add: note_required_def Let_def)
  from decode_single [OF this] have field: "decode_field env fuel sub s (of_nat k) (dl_iter (note_required ?l)) m = decode_field env fuel sub s 0 (dl_iter (note_required ?l)) m" for s .
  have left: "(bytes_left (stream_of (leb (unat ?t * 8 + k) @ c) x e) = 0) = False" by (simp add: leb_not_Nil)
  show ?thesis
    unfolding decode_loop.simps [of env fuel sub frame "Suc n" "stream_of (leb (unat ?t * 8 + k) @ c) x e" l m] Let_def
    by (simp only: left if_False nat.case tag prod.case option.case find bool.case enter field)
qed

text \<open>
  (C35) The wire type of a field is not checked. Take any message and any required or optional static field of
  it that is the first one with its tag. If this field comes first on the wire, \<open>pb_decode\<close> gives the same
  result, the same memory and the same rest of the stream whatever three bits stand for the wire type,
  invalid ones included, and whatever follows. So a string in the place of an integer field is accepted:
  its length becomes the integer, and its characters are then parsed as fields.
\<close>

theorem pb_decode_ignores_wire_type:
  assumes "message_ok fs" and "p < length fs - 1" and "single_static (fs ! p)"
    and "\<forall>q < p. field_tag (fs ! q) \<noteq> field_tag (fs ! p)" and "unat (field_tag (fs ! p)) < 2 ^ 29" and "k < 8" and "k' < 8"
  shows "pb_decode env fuel (stream_of (leb (unat (field_tag (fs ! p)) * 8 + k) @ c) x e) fs dest m =
    pb_decode env fuel (stream_of (leb (unat (field_tag (fs ! p)) * 8 + k') @ c) x e) fs dest m"
proof -
  let ?s = "\<lambda>k. stream_of (leb (unat (field_tag (fs ! p)) * 8 + k) @ c) x e"
  have b: "bytes_left (?s k) = bytes_left (?s k')"
    using length_leb_tag [OF assms(6)] length_leb_tag [OF assms(7)] by simp
  obtain n where n: "bytes_left (?s k') = Suc n" using leb_not_Nil by (cases "bytes_left (?s k')") auto
  have "fields_ok fs (length fs - 1)" using message_ok_cases [OF assms(1)] assms(2) by auto
  note i = iter_begin [OF this, of dest]
  have "noinit_body env f sub frame (?s k) fs dest m = noinit_body env f sub frame (?s k') fs dest m" for f sub frame m
  proof -
    let ?l = "\<lparr>dl_iter = iter_at fs dest 0, fields_seen = [0, 0], extension_range_start = 0, fixed_count_field = None\<rparr>"
    have "dl_iter ?l = iter_at fs dest 0" by simp
    then have "decode_loop env f sub frame (Suc n) (?s k) ?l m = decode_loop env f sub frame (Suc n) (?s k') ?l m" for m
      using loop_ignores_wire_type [OF assms(1-5) assms(6)] loop_ignores_wire_type [OF assms(1-5) assms(7)] by (simp only:)
    then show ?thesis unfolding noinit_body_def b n Let_def i snd_conv by simp
  qed
  then have "pb_decode_noinit env fuel (?s k) fs dest = pb_decode_noinit env fuel (?s k') fs dest"
    by (cases fuel) (simp_all add: fun_eq_iff)
  then show ?thesis by (simp only: pb_decode_def init_and_decode_def)
qed

definition int_fields :: "pb_field_t list" where
  "int_fields =
     [\<lparr>field_tag = 1, field_type = 1, data_offset = 0, size_offset = 0, data_size = 4, array_size = 0, field_ptr = No_ptr\<rparr>,
      \<lparr>field_tag = 0, field_type = 0, data_offset = 0, size_offset = 0, data_size = 0, array_size = 0, field_ptr = No_ptr\<rparr>]"

text \<open>The witness: a string of length five is read as the integer field 1 with the value 5.\<close>

theorem pb_decode_ignores_wire_type_witness:
  "case pb_decode (example_denv []) 2 (stream_of [0x0A, 5] [] None) int_fields 0x1000 (\<lambda>_. 7) of
      Some (ok, _, m') \<Rightarrow> ok \<and> load m' 0x1000 4 = [5, 0, 0, 0] | None \<Rightarrow> False"
proof -
  have l: "leb (unat (field_tag (int_fields ! 0)) * 8 + 2) @ [5] = [0x0A, 5]"
    "leb (unat (field_tag (int_fields ! 0)) * 8 + 0) @ [5] = [8, 5]" by code_simp+
  have ok: "message_ok int_fields" "single_static (int_fields ! 0)" by code_simp+
  have "pb_decode (example_denv []) 2 (stream_of [0x0A, 5] [] None) int_fields 0x1000 (\<lambda>_. 7) =
      pb_decode (example_denv []) 2 (stream_of [8, 5] [] None) int_fields 0x1000 (\<lambda>_. 7)"
    using pb_decode_ignores_wire_type [OF ok(1) _ ok(2), of 2 0 "example_denv []" 2 "[5]" "[]" None "0x1000" "\<lambda>_. 7"]
    unfolding l by (simp add: int_fields_def)
  moreover have "case pb_decode (example_denv []) 2 (stream_of [8, 5] [] None :: unit pb_istream_t) int_fields 0x1000 (\<lambda>_. 7) of
      Some (ok, _, m') \<Rightarrow> ok \<and> load m' 0x1000 4 = [5, 0, 0, 0] | None \<Rightarrow> False" by code_simp
  ultimately show ?thesis by simp
qed

section \<open>Default values beyond an array\<close>

text \<open>The descriptor at the end of an array of descriptors, \<open>PB_LAST_FIELD\<close>.\<close>

definition terminator :: pb_field_t where
  "terminator = \<lparr>field_tag = 0, field_type = 0, data_offset = 0, size_offset = 0, data_size = 0, array_size = 0, field_ptr = No_ptr\<rparr>"

lemma terminator_simps [simp]: "field_tag terminator = 0" "field_type terminator = 0"
  by (simp_all add: terminator_def)

lemma store_zeros: "le_store m a 4 (unat (0 :: u32)) = store m a (replicate 4 0)"
proof -
  have "rev (be_bytes 4 0) = replicate 4 0" by code_simp
  then show ?thesis by (simp add: le_store_def)
qed

lemma store_zeros_keeps: "m x = 0 \<Longrightarrow> store m b (replicate n 0) x = 0"
  by (induction n arbitrary: m b) auto

lemma store_zeros_at: "k < 4 \<Longrightarrow> store m a (replicate 4 0) (a + of_nat k) = 0"
proof -
  assume "k < 4"
  have "load (store m a (replicate 4 0)) a 4 = replicate 4 0" using load_store [of "replicate 4 0" m a] by simp
  then have "load (store m a (replicate 4 0)) a 4 ! k = 0" using \<open>k < 4\<close> by simp
  then show ?thesis using \<open>k < 4\<close> by (simp add: load_def)
qed

lemma not_in_region: "n \<le> k \<Longrightarrow> k < 4 \<Longrightarrow> a + of_nat k \<notin> region a n"
proof
  assume k: "n \<le> k" "k < 4" and "a + of_nat k \<in> region a n"
  then obtain i where i: "i < n" "(of_nat k :: u64) = of_nat i" by (auto simp: region_def)
  have "unat (of_nat j :: u64) = j" if "j < 4" for j using that by (subst unat_of_nat) (simp add: take_bit_nat_eq_self)
  then have "k = i" using i k by (metis less_le_trans order.strict_trans)
  then show False using k i(1) by simp
qed

lemma alone_begin:
  assumes "field_tag f \<noteq> 0" and "dest \<noteq> 0" and "size_offset f = 0"
  shows "pb_field_iter_begin [f, terminator] dest =
    (True, \<lparr>it_start = [f, terminator], it_pos = 0, required_field_index = 0, dest_struct = dest,
       pData = dest + ucast (data_offset f), pSize = dest + ucast (data_offset f)\<rparr>)"
  using assms by (simp add: pb_field_iter_begin_def Let_def)

text \<open>
  (C34) Default values can be written beyond the message. A static array of fixed count has no size member:
  its \<open>size_offset\<close> is zero, so that \<open>pSize\<close> is the array itself, and setting the count to zero writes four
  bytes there. Take a message whose only field is such an array with less than four bytes, say of two bools.
  Decoding the empty input succeeds, and the bytes behind the array, up to four from its start, are zero
  afterwards, whatever they were and belonged to; the rest of the memory is as it was, but for the decoder's
  local variable.
\<close>

theorem pb_defaults_beyond_array:
  assumes "PB_HTYPE (field_type f) = PB_HTYPE_REPEATED" and "PB_ATYPE (field_type f) = PB_ATYPE_STATIC"
    and "PB_LTYPE (field_type f) \<noteq> PB_LTYPE_EXTENSION" and "size_offset f = 0" and "field_tag f \<noteq> 0" and "dest \<noteq> 0"
    and "a = dest + ucast (data_offset f)" and "extent f < 4"
  shows "\<exists>m'. pb_decode env (Suc fuel) (stream_of [] x e) [f, terminator] dest m = Some (True, stream_of [] x e, m') \<and>
    (\<forall>k. extent f \<le> k \<and> k < 4 \<longrightarrow> a + of_nat k \<notin> region a (extent f) \<and> m' (a + of_nat k) = 0) \<and>
    within (region a 4 \<union> region (de_frame env fuel) 4) m m'"
proof -
  let ?it = "\<lparr>it_start = [f, terminator], it_pos = 0, required_field_index = 0, dest_struct = dest, pData = a, pSize = a\<rparr>"
  define m1 where "m1 = store_u32 m a 0"
  define m2 where "m2 = store_u32 m1 (de_frame env fuel) 0"
  have b: "pb_field_iter_begin [f, terminator] dest = (True, ?it)" using alone_begin [OF assms(5,6,4)] assms(7) by simp
  have nx: "pb_field_iter_next ?it = (False, ?it)" using b assms(5) by (simp add: pb_field_iter_next_def Let_def)
  have "pb_field_set_to_default env (Suc fuel) ?it m = Some m1"
    using assms(1-3) by (simp add: m1_def Let_def type_codes)
  then have d: "set_defaults env (Suc fuel) [f, terminator] dest m = Some m1"
    by (simp add: pb_message_set_to_defaults_def b nx del: pb_field_set_to_default.simps)
  have r: "req_field_count ?it = Some 0" using assms(1) by (simp add: req_field_count_def nx type_codes)
  have "noinit_body env fuel sub (de_frame env fuel) (stream_of [] x e) [f, terminator] dest m1 = Some (True, stream_of [] x e, m2)" for sub
    by (simp add: noinit_body_def Let_def b decode_loop.simps fixed_count_done_def r all_required_seen_def m2_def)
  then have "pb_decode env (Suc fuel) (stream_of [] x e) [f, terminator] dest m = Some (True, stream_of [] x e, m2)"
    by (simp add: pb_decode_def init_and_decode_def d)
  moreover have "m2 (a + of_nat k) = 0" if "k < 4" for k
    unfolding m2_def m1_def store_zeros by (rule store_zeros_keeps) (rule store_zeros_at [OF that])
  moreover have "within (region a 4 \<union> region (de_frame env fuel) 4) m m2"
    unfolding m2_def m1_def by (rule within_trans [OF within_le_store within_le_store]) simp_all
  ultimately show ?thesis using not_in_region by (intro exI [of _ m2]) blast
qed

text \<open>The witness: two bools at \<open>0x1000\<close>; the two bytes behind them are set to zero.\<close>

theorem pb_defaults_beyond_array_witness:
  "\<exists>m'. pb_decode (example_denv []) 2 (stream_of [] [] None)
      [\<lparr>field_tag = 1, field_type = 0x20, data_offset = 0, size_offset = 0, data_size = 1, array_size = 2, field_ptr = No_ptr\<rparr>, terminator]
      0x1000 (\<lambda>_. 7) = Some (True, stream_of [] [] None, m') \<and> m' (0x1000 + 2) = 0 \<and> m' (0x1000 + 3) = 0"
proof -
  define f where "f = \<lparr>field_tag = 1, field_type = 0x20, data_offset = 0, size_offset = 0, data_size = 1, array_size = 2, field_ptr = No_ptr\<rparr>"
  have f: "PB_HTYPE (field_type f) = PB_HTYPE_REPEATED" "PB_ATYPE (field_type f) = PB_ATYPE_STATIC"
    "PB_LTYPE (field_type f) \<noteq> PB_LTYPE_EXTENSION" "size_offset f = 0" "field_tag f \<noteq> 0" "extent f = 2"
    unfolding f_def by code_simp+
  have a: "0x1000 = 0x1000 + (ucast (data_offset f) :: u64)" by (simp add: f_def)
  have "(0x1000 :: u64) \<noteq> 0" "extent f < 4" using f(6) by simp_all
  from pb_defaults_beyond_array [OF f(1-5) this(1) a this(2), of "example_denv []" 1 "[]" None "\<lambda>_. 7"]
  obtain m' where m': "pb_decode (example_denv []) 2 (stream_of [] [] None) [f, terminator] 0x1000 (\<lambda>_. 7) = Some (True, stream_of [] [] None, m')"
    "\<forall>k. 2 \<le> k \<and> k < 4 \<longrightarrow> m' (0x1000 + of_nat k) = 0" unfolding f(6) Suc_1 by blast
  have "m' (0x1000 + 2) = 0" "m' (0x1000 + 3) = 0" using m'(2) [rule_format, of 2] m'(2) [rule_format, of 3] by simp_all
  then show ?thesis using m'(1) unfolding f_def by blast
qed

section \<open>Messages without fields\<close>

lemma tag_zero:
  assumes "0 < w" and "w < 8"
  shows "pb_decode_tag (stream_of (w # c) x e) = (Some (ucast w, 0), stream_of c x e, False)"
proof -
  let ?P = "\<lambda>w :: byte. 0 < w \<and> w < 8 \<longrightarrow>
    unat w < 128 \<and> (ucast w :: u32) \<noteq> 0 \<and> (ucast w :: u32) AND 7 = ucast w \<and> drop_bit 3 (ucast w :: u32) = 0"
  have "?P w" by (rule byte_forallI [where P = ?P]) code_simp
  then show ?thesis using assms by (simp add: pb_decode_tag_def varint32_eof_Cons)
qed

lemma ucast_byte_0: "(ucast (b :: byte) :: u32) = 0 \<longleftrightarrow> b = 0"
  by (simp add: word_unat_eq_iff unat_ucast_up)

text \<open>
  (C36) A message without fields is not handled by \<open>pb_field_iter_find\<close> as the comment in \<open>pb_decode_noinit\<close>
  says: the search looks at the terminator, which the tag 0 matches, and the terminator is decoded as a
  required bool. Any two bytes of which the first is below 8 and not zero, a tag 0 with any wire type,
  and the second one any small varint, are decoded without an error, and write a byte to the address of
  the structure, which may have no members at all.
\<close>

theorem pb_decode_empty_message_writes:
  assumes "0 < w" and "w < 8" and "unat b < 128"
  shows "\<exists>m'. pb_decode env (Suc fuel) (stream_of [w, b] x e) [terminator] dest m = Some (True, stream_of [] x e, m') \<and>
    m' dest = (if b = 0 then 0 else 1)"
proof -
  let ?it = "\<lparr>it_start = [terminator], it_pos = 0, required_field_index = 0, dest_struct = dest, pData = dest, pSize = dest\<rparr>"
  have z: "data_offset terminator = 0" "size_offset terminator = 0" by (simp_all add: terminator_def)
  have b: "pb_field_iter_begin [terminator] dest = (False, ?it)" using z by (simp add: pb_field_iter_begin_def Let_def)
  have t: "PB_HTYPE 0 = PB_HTYPE_REQUIRED" "PB_LTYPE 0 = PB_LTYPE_BOOL" "PB_ATYPE 0 = PB_ATYPE_STATIC"
    "PB_HTYPE_REQUIRED \<noteq> PB_HTYPE_REPEATED" "PB_HTYPE_REQUIRED \<noteq> PB_HTYPE_ONEOF" "PB_LTYPE_BOOL \<noteq> PB_LTYPE_EXTENSION"
    by code_simp+
  have find: "pb_field_iter_find ?it 0 = Some (True, ?it)" by (simp add: pb_field_iter_find_def t)
  have d: "dec_bool_at (stream_of [b] x e) dest m = (True, stream_of [] x e, store m dest [if b = 0 then 0 else 1])" for m
    using assms(3) by (auto simp: dec_bool_at_def pb_dec_bool_def pb_decode_varint32_def varint32_eof_Cons ucast_byte_0)
  define l where "l = \<lparr>dl_iter = ?it, fields_seen = [0, 0], extension_range_start = 0, fixed_count_field = None\<rparr>"
  have en: "enter_fixed_count fr (l\<lparr>dl_iter := ?it\<rparr>) m = Some (l, m)" for fr m by (simp add: enter_fixed_count_def Let_def t l_def)
  have df: "decode_field env fuel sub (stream_of [b] x e) v ?it m =
      Some (True, stream_of [] x e, ?it, store m dest [if b = 0 then 0 else 1])" for sub v m
    by (simp add: decode_field_def t decode_static_field_def PB_DECODERS_def d)
  have n: "dl_iter (note_required l) = ?it" "fixed_count_field (note_required l) = None" by (simp_all add: note_required_def Let_def l_def)
  have "decode_loop env fuel sub fr (Suc (Suc 0)) (stream_of [w, b] x e) l m =
      Some (True, stream_of [] x e, (note_required l)\<lparr>dl_iter := ?it\<rparr>, store m dest [if b = 0 then 0 else 1])" for sub fr m
  proof -
    have left: "(bytes_left (stream_of [w, b] x e) = 0) = False" "bytes_left (stream_of [] x e) = 0" by simp_all
    have li: "dl_iter l = ?it" by (simp add: l_def)
    have end_: "decode_loop env fuel sub fr n (stream_of [] x e) l' m' = Some (True, stream_of [] x e, l', m')" for n l' m'
      by (subst decode_loop.simps) simp
    show ?thesis
      unfolding decode_loop.simps [of env fuel sub fr "Suc (Suc 0)" "stream_of [w, b] x e" l m] Let_def
      by (simp only: left if_False nat.case tag_zero [OF assms(1,2)] prod.case option.case li find bool.case en n df end_)
  qed
  note loop = this
  have r: "req_field_count ?it = Some 0" by (simp add: req_field_count_def pb_field_iter_next_def)
  have "noinit_body env fuel sub fr (stream_of [w, b] x e) [terminator] dest m =
      Some (True, stream_of [] x e, store (store_u32 m fr 0) dest [if b = 0 then 0 else 1])" for sub fr
  proof -
    have two: "bytes_left (stream_of [w, b] x e) = Suc (Suc 0)" by simp
    show ?thesis
      unfolding noinit_body_def Let_def two b snd_conv l_def [symmetric] loop option.case prod.case bool.case
      by (simp add: fixed_count_done_def n r all_required_seen_def)
  qed
  then have "pb_decode env (Suc fuel) (stream_of [w, b] x e) [terminator] dest m =
      Some (True, stream_of [] x e, store (store_u32 m (de_frame env fuel) 0) dest [if b = 0 then 0 else 1])"
    by (simp add: pb_decode_def init_and_decode_def pb_message_set_to_defaults_def b)
  then show ?thesis by simp
qed

theorem pb_decode_empty_message_writes_witness:
  "\<exists>m'. pb_decode (example_denv []) 2 (stream_of [2, 1] [] None) [terminator] 0x1000 (\<lambda>_. 7) = Some (True, stream_of [] [] None, m') \<and>
    m' 0x1000 = 1"
  using pb_decode_empty_message_writes [of 2 1 "example_denv []" 1 "[]" None "0x1000" "\<lambda>_. 7"]
  unfolding Suc_1 by simp

end
