(* ===== verification/Stack.thy ===== *)
theory Stack
  imports Mem
begin

text \<open>
  \<open>crypto/stack/stack.c\<close>: the growable array of pointers under every \<open>STACK_OF(type)\<close>.

  A pointer is a 64-bit address, 0 is \<open>NULL\<close>. An \<open>OPENSSL_STACK\<close> is a record with the fields of
  \<open>struct stack_st\<close>; \<open>st_data\<close> is the allocated array, all \<open>num_alloc\<close> entries of it. In memory the
  array is a block of little-endian words, which is how it is allocated and reallocated through
  \<open>mem.c\<close>. A function that may get a \<open>NULL\<close> stack takes an option.

  The element type's functions are called through type-erased wrappers, which the caller passes:
  \<open>call_cmp_func comp\<close> compares the objects of two pointers, with \<open>comp\<close> the function pointer stored in
  the stack. Callbacks that may have effects are functions on a state, \<open>'w\<close>, of their own.
\<close>

section \<open>The structure\<close>

type_synonym ptr = u64

record OPENSSL_STACK =
  st_num :: nat
  st_data :: "ptr list"
  st_sorted :: bool
  st_num_alloc :: nat
  st_comp :: ptr

definition kMinSize :: nat where
  "kMinSize = 4"

definition INT_MAX :: nat where
  "INT_MAX = 2147483647"

text \<open>\<open>sizeof(void *)\<close> and \<open>sizeof(OPENSSL_STACK)\<close> on the 64-bit targets.\<close>

definition SIZEOF_PTR :: nat where
  "SIZEOF_PTR = 8"

definition SIZEOF_STACK :: nat where
  "SIZEOF_STACK = 40"

text \<open>An array of pointers as the bytes of its block, and back.\<close>

definition ptr_bytes :: "ptr list \<Rightarrow> byte list" where
  "ptr_bytes ps = concat (map (\<lambda>p. store_size (unat p)) ps)"

fun load_ptrs :: "byte list \<Rightarrow> ptr list" where
  "load_ptrs bs =
     (if length bs < SIZEOF_PTR \<or> SIZEOF_PTR = 0 then []
      else of_nat (load_size bs) # load_ptrs (drop SIZEOF_PTR bs))"

declare load_ptrs.simps [simp del]

text \<open>
  The stack, and the blocks that are freed because a later allocation failed, as they reach the C library.
\<close>

definition OPENSSL_sk_new :: "malloc_fn \<Rightarrow> ptr \<Rightarrow> OPENSSL_STACK option \<times> byte list option list" where
  "OPENSSL_sk_new mal cmp_fn =
     (case OPENSSL_zalloc mal SIZEOF_STACK of
        None \<Rightarrow> (None, [])
      | Some ret \<Rightarrow>
          (case OPENSSL_calloc mal kMinSize SIZEOF_PTR of
             None \<Rightarrow> (None, [OPENSSL_free (Some ret)])
           | Some blk \<Rightarrow>
               (Some \<lparr>st_num = 0, st_data = load_ptrs (user_data blk), st_sorted = False,
                      st_num_alloc = kMinSize, st_comp = cmp_fn\<rparr>, [])))"

definition OPENSSL_sk_new_null :: "malloc_fn \<Rightarrow> OPENSSL_STACK option \<times> byte list option list" where
  "OPENSSL_sk_new_null mal = OPENSSL_sk_new mal 0"

section \<open>Reading and writing elements\<close>

definition OPENSSL_sk_num :: "OPENSSL_STACK option \<Rightarrow> nat" where
  "OPENSSL_sk_num sk = (case sk of None \<Rightarrow> 0 | Some s \<Rightarrow> st_num s)"

definition OPENSSL_sk_zero :: "OPENSSL_STACK option \<Rightarrow> OPENSSL_STACK option" where
  "OPENSSL_sk_zero sk =
     (case sk of
        None \<Rightarrow> None
      | Some s \<Rightarrow>
          if st_num s = 0 then Some s
          else Some (s\<lparr>st_data := replicate (st_num s) 0 @ drop (st_num s) (st_data s),
                       st_num := 0, st_sorted := False\<rparr>))"

definition OPENSSL_sk_value :: "OPENSSL_STACK option \<Rightarrow> nat \<Rightarrow> ptr" where
  "OPENSSL_sk_value sk i =
     (case sk of None \<Rightarrow> 0 | Some s \<Rightarrow> if i \<ge> st_num s then 0 else st_data s ! i)"

definition OPENSSL_sk_set ::
  "OPENSSL_STACK option \<Rightarrow> nat \<Rightarrow> ptr \<Rightarrow> ptr \<times> OPENSSL_STACK option" where
  "OPENSSL_sk_set sk i p =
     (case sk of
        None \<Rightarrow> (0, None)
      | Some s \<Rightarrow>
          if i \<ge> st_num s then (0, Some s)
          else (p, Some (s\<lparr>st_data := (st_data s)[i := p]\<rparr>)))"

section \<open>Freeing\<close>

text \<open>The blocks as they reach the C library: the array's, then the structure's.\<close>

definition OPENSSL_sk_free :: "OPENSSL_STACK option \<Rightarrow> byte list option list" where
  "OPENSSL_sk_free sk =
     (case sk of
        None \<Rightarrow> []
      | Some s \<Rightarrow>
          [OPENSSL_free (Some (ossl_block (ptr_bytes (st_data s)))),
           OPENSSL_free (Some (ossl_block (replicate SIZEOF_STACK 0)))])"

text \<open>The calls of \<open>free_func\<close> on the non-NULL pointers among the entries \<open>i \<le> k < n\<close>.\<close>

function free_loop :: "(ptr \<Rightarrow> 'w \<Rightarrow> 'w) \<Rightarrow> nat \<Rightarrow> nat \<Rightarrow> ptr list \<Rightarrow> 'w \<Rightarrow> 'w" where
  "free_loop free_func i n data w =
     (if i < n
      then free_loop free_func (i + 1) n data (if data ! i \<noteq> 0 then free_func (data ! i) w else w)
      else w)"
  by pat_completeness auto
termination by (relation "measure (\<lambda>(f, i, n, d, w). n - i)") auto

definition OPENSSL_sk_pop_free_ex ::
  "OPENSSL_STACK option \<Rightarrow> (ptr \<Rightarrow> ptr \<Rightarrow> 'w \<Rightarrow> 'w) \<Rightarrow> ptr \<Rightarrow> 'w \<Rightarrow> byte list option list \<times> 'w" where
  "OPENSSL_sk_pop_free_ex sk call_free_func free_func w =
     (case sk of
        None \<Rightarrow> ([], w)
      | Some s \<Rightarrow>
          (OPENSSL_sk_free sk, free_loop (call_free_func free_func) 0 (st_num s) (st_data s) w))"

section \<open>Insertion and deletion\<close>

text \<open>\<open>OPENSSL_memmove\<close> of \<open>n\<close> pointers inside one array.\<close>

definition ptrs_move :: "ptr list \<Rightarrow> nat \<Rightarrow> nat \<Rightarrow> nat \<Rightarrow> ptr list" where
  "ptrs_move d dst src n = take dst d @ take n (drop src d) @ drop (dst + n) d"

text \<open>The size of the next array, \<open>None\<close> when it overflows.\<close>

definition sk_new_alloc :: "nat \<Rightarrow> (nat \<times> nat) option" where
  "sk_new_alloc num_alloc =
     (let new_alloc = (num_alloc * 2) mod SIZE_MOD;
          alloc_size = (new_alloc * SIZEOF_PTR) mod SIZE_MOD;
          (new_alloc, alloc_size) =
            (if new_alloc < num_alloc \<or> alloc_size div SIZEOF_PTR \<noteq> new_alloc
             then (size_add num_alloc 1, (size_add num_alloc 1 * SIZEOF_PTR) mod SIZE_MOD)
             else (new_alloc, alloc_size))
      in if new_alloc < num_alloc \<or> alloc_size div SIZEOF_PTR \<noteq> new_alloc then None
         else Some (new_alloc, alloc_size))"

definition sk_grow :: "malloc_fn \<Rightarrow> OPENSSL_STACK \<Rightarrow> OPENSSL_STACK option" where
  "sk_grow mal s =
     (if st_num_alloc s \<le> st_num s + 1
      then (case sk_new_alloc (st_num_alloc s) of
              None \<Rightarrow> None
            | Some (new_alloc, alloc_size) \<Rightarrow>
                (case fst (OPENSSL_realloc mal (Some (ossl_block (ptr_bytes (st_data s)))) alloc_size) of
                   None \<Rightarrow> None
                 | Some blk \<Rightarrow>
                     Some (s\<lparr>st_data := load_ptrs (user_data blk), st_num_alloc := new_alloc\<rparr>)))
      else Some s)"

definition OPENSSL_sk_insert ::
  "malloc_fn \<Rightarrow> OPENSSL_STACK option \<Rightarrow> ptr \<Rightarrow> nat \<Rightarrow> nat \<times> OPENSSL_STACK option" where
  "OPENSSL_sk_insert mal sk p at =
     (case sk of
        None \<Rightarrow> (0, None)
      | Some s \<Rightarrow>
          if st_num s \<ge> INT_MAX then (0, Some s)
          else (case sk_grow mal s of
                  None \<Rightarrow> (0, Some s)
                | Some s \<Rightarrow>
                    let data =
                          (if at \<ge> st_num s then (st_data s)[st_num s := p]
                           else (ptrs_move (st_data s) (at + 1) at (st_num s - at))[at := p])
                    in (st_num s + 1,
                        Some (s\<lparr>st_data := data, st_num := st_num s + 1, st_sorted := False\<rparr>))))"

definition OPENSSL_sk_delete :: "OPENSSL_STACK option \<Rightarrow> nat \<Rightarrow> ptr \<times> OPENSSL_STACK option" where
  "OPENSSL_sk_delete sk at =
     (case sk of
        None \<Rightarrow> (0, None)
      | Some s \<Rightarrow>
          if at \<ge> st_num s then (0, Some s)
          else (st_data s ! at,
                Some (s\<lparr>st_data :=
                         (if at \<noteq> st_num s - 1
                          then ptrs_move (st_data s) at (at + 1) (st_num s - at - 1)
                          else st_data s),
                        st_num := st_num s - 1\<rparr>)))"

text \<open>The loops that look for the first entry with a property.\<close>

function find_loop :: "(ptr \<Rightarrow> bool) \<Rightarrow> nat \<Rightarrow> nat \<Rightarrow> ptr list \<Rightarrow> nat option" where
  "find_loop P i n data =
     (if i < n then (if P (data ! i) then Some i else find_loop P (i + 1) n data) else None)"
  by pat_completeness auto
termination by (relation "measure (\<lambda>(P, i, n, d). n - i)") auto

definition OPENSSL_sk_delete_ptr :: "OPENSSL_STACK option \<Rightarrow> ptr \<Rightarrow> ptr \<times> OPENSSL_STACK option" where
  "OPENSSL_sk_delete_ptr sk p =
     (case sk of
        None \<Rightarrow> (0, None)
      | Some s \<Rightarrow>
          (case find_loop (\<lambda>q. q = p) 0 (st_num s) (st_data s) of
             Some i \<Rightarrow> OPENSSL_sk_delete sk i
           | None \<Rightarrow> (0, sk)))"

text \<open>The compaction in place; \<open>func\<close> returns nonzero for what is to go.\<close>

function delete_if_loop ::
  "(ptr \<Rightarrow> 'w \<Rightarrow> int \<times> 'w) \<Rightarrow> nat \<Rightarrow> nat \<Rightarrow> nat \<Rightarrow> ptr list \<Rightarrow> 'w \<Rightarrow> (nat \<times> ptr list) \<times> 'w" where
  "delete_if_loop func new_num i n data w =
     (if i < n
      then (let (r, w) = func (data ! i) w
            in if r = 0 then delete_if_loop func (new_num + 1) (i + 1) n (data[new_num := data ! i]) w
               else delete_if_loop func new_num (i + 1) n data w)
      else ((new_num, data), w))"
  by pat_completeness auto
termination by (relation "measure (\<lambda>(f, k, i, n, d, w). n - i)") auto

definition OPENSSL_sk_delete_if ::
  "OPENSSL_STACK option \<Rightarrow> (ptr \<Rightarrow> ptr \<Rightarrow> ptr \<Rightarrow> 'w \<Rightarrow> int \<times> 'w) \<Rightarrow> ptr \<Rightarrow> ptr \<Rightarrow> 'w \<Rightarrow> OPENSSL_STACK option \<times> 'w" where
  "OPENSSL_sk_delete_if sk call_func func arg w =
     (case sk of
        None \<Rightarrow> (None, w)
      | Some s \<Rightarrow>
          let ((new_num, data), w) = delete_if_loop (\<lambda>p. call_func func p arg) 0 0 (st_num s) (st_data s) w
          in (Some (s\<lparr>st_data := data, st_num := new_num\<rparr>), w))"

definition OPENSSL_sk_shift :: "OPENSSL_STACK option \<Rightarrow> ptr \<times> OPENSSL_STACK option" where
  "OPENSSL_sk_shift sk =
     (case sk of
        None \<Rightarrow> (0, None)
      | Some s \<Rightarrow> if st_num s = 0 then (0, sk) else OPENSSL_sk_delete sk 0)"

definition OPENSSL_sk_push ::
  "malloc_fn \<Rightarrow> OPENSSL_STACK option \<Rightarrow> ptr \<Rightarrow> nat \<times> OPENSSL_STACK option" where
  "OPENSSL_sk_push mal sk p = OPENSSL_sk_insert mal sk p (case sk of None \<Rightarrow> 0 | Some s \<Rightarrow> st_num s)"

definition OPENSSL_sk_pop :: "OPENSSL_STACK option \<Rightarrow> ptr \<times> OPENSSL_STACK option" where
  "OPENSSL_sk_pop sk =
     (case sk of
        None \<Rightarrow> (0, None)
      | Some s \<Rightarrow> if st_num s = 0 then (0, sk) else OPENSSL_sk_delete sk (st_num s - 1))"

section \<open>Searching\<close>

definition OPENSSL_sk_is_sorted :: "OPENSSL_STACK option \<Rightarrow> bool" where
  "OPENSSL_sk_is_sorted sk =
     (case sk of None \<Rightarrow> True | Some s \<Rightarrow> st_sorted s \<or> (st_comp s \<noteq> 0 \<and> st_num s < 2))"

text \<open>The binary search; \<open>cmp q\<close> compares the element looked for with \<open>q\<close>.\<close>

function bsearch_loop :: "(ptr \<Rightarrow> int) \<Rightarrow> nat \<Rightarrow> nat \<Rightarrow> ptr list \<Rightarrow> nat option" where
  "bsearch_loop cmp lo hi data =
     (if lo < hi
      then (let mid = lo + (hi - lo - 1) div 2;
                r = cmp (data ! mid)
            in if r > 0 then bsearch_loop cmp (mid + 1) hi data
               else if r < 0 then bsearch_loop cmp lo mid data
               else if hi - lo = 1 then Some mid
               else bsearch_loop cmp lo (mid + 1) data)
      else None)"
  by pat_completeness auto
termination
  by (relation "measure (\<lambda>(c, lo, hi, d). hi - lo)") auto

text \<open>The value of \<open>*out_index\<close> when the function returns 1, \<open>None\<close> when it returns 0.\<close>

definition OPENSSL_sk_find ::
  "OPENSSL_STACK option \<Rightarrow> ptr \<Rightarrow> (ptr \<Rightarrow> ptr \<Rightarrow> ptr \<Rightarrow> int) \<Rightarrow> nat option" where
  "OPENSSL_sk_find sk p call_cmp_func =
     (case sk of
        None \<Rightarrow> None
      | Some s \<Rightarrow>
          if st_comp s = 0 then find_loop (\<lambda>q. q = p) 0 (st_num s) (st_data s)
          else if p = 0 then None
          else if \<not> OPENSSL_sk_is_sorted sk
          then find_loop (\<lambda>q. call_cmp_func (st_comp s) p q = 0) 0 (st_num s) (st_data s)
          else bsearch_loop (call_cmp_func (st_comp s) p) 0 (st_num s) (st_data s))"

section \<open>Copying\<close>

text \<open>
  The copy and the blocks that are freed on the way. When the array cannot be allocated, \<open>OPENSSL_sk_free\<close>
  gets a stack whose \<open>data\<close> is still \<open>NULL\<close>.
\<close>

definition OPENSSL_sk_dup ::
  "malloc_fn \<Rightarrow> OPENSSL_STACK option \<Rightarrow> OPENSSL_STACK option \<times> byte list option list" where
  "OPENSSL_sk_dup mal sk =
     (case sk of
        None \<Rightarrow> (None, [])
      | Some s \<Rightarrow>
          (case OPENSSL_zalloc mal SIZEOF_STACK of
             None \<Rightarrow> (None, [])
           | Some ret \<Rightarrow>
               (case OPENSSL_memdup mal (take (SIZEOF_PTR * st_num_alloc s) (ptr_bytes (st_data s))) of
                  None \<Rightarrow> (None, [OPENSSL_free None, OPENSSL_free (Some ret)])
                | Some blk \<Rightarrow>
                    (Some \<lparr>st_num = st_num s, st_data = load_ptrs (user_data blk), st_sorted = st_sorted s,
                           st_num_alloc = st_num_alloc s, st_comp = st_comp s\<rparr>, []))))"

text \<open>The loop replaces the pointers by their copies; when one fails it frees those made before.\<close>

function deep_copy_loop ::
  "(ptr \<Rightarrow> 'w \<Rightarrow> ptr \<times> 'w) \<Rightarrow> (ptr \<Rightarrow> 'w \<Rightarrow> 'w) \<Rightarrow> nat \<Rightarrow> nat \<Rightarrow> ptr list \<Rightarrow> 'w \<Rightarrow> ptr list option \<times> 'w" where
  "deep_copy_loop copy_func free_func i n data w =
     (if i < n
      then (if data ! i = 0 then deep_copy_loop copy_func free_func (i + 1) n data w
            else (let (q, w) = copy_func (data ! i) w;
                      data = data[i := q]
                  in if q = 0 then (None, free_loop free_func 0 i data w)
                     else deep_copy_loop copy_func free_func (i + 1) n data w))
      else (Some data, w))"
  by pat_completeness auto
termination by (relation "measure (\<lambda>(c, f, i, n, d, w). n - i)") auto

text \<open>
  On failure the stack is freed with the copies that were made in its array; blocks are overwritten
  before they are freed, so that the array's contents do not matter there.
\<close>

definition OPENSSL_sk_deep_copy ::
  "malloc_fn \<Rightarrow> OPENSSL_STACK option \<Rightarrow> (ptr \<Rightarrow> ptr \<Rightarrow> 'w \<Rightarrow> ptr \<times> 'w) \<Rightarrow> ptr \<Rightarrow>
     (ptr \<Rightarrow> ptr \<Rightarrow> 'w \<Rightarrow> 'w) \<Rightarrow> ptr \<Rightarrow> 'w \<Rightarrow> (OPENSSL_STACK option \<times> byte list option list) \<times> 'w" where
  "OPENSSL_sk_deep_copy mal sk call_copy_func copy_func call_free_func free_func w =
     (case OPENSSL_sk_dup mal sk of
        (None, freed) \<Rightarrow> ((None, freed), w)
      | (Some ret, freed) \<Rightarrow>
          (case deep_copy_loop (call_copy_func copy_func) (call_free_func free_func) 0 (st_num ret)
                  (st_data ret) w of
             (None, w) \<Rightarrow> ((None, freed @ OPENSSL_sk_free (Some ret)), w)
           | (Some data, w) \<Rightarrow> ((Some (ret\<lparr>st_data := data\<rparr>), freed), w)))"

section \<open>Sorting\<close>

definition parent_idx :: "nat \<Rightarrow> nat" where
  "parent_idx idx = (idx - 1) div 2"

definition left_idx :: "nat \<Rightarrow> nat" where
  "left_idx idx = 2 * idx + 1"

definition swap_ptrs :: "ptr list \<Rightarrow> nat \<Rightarrow> nat \<Rightarrow> ptr list" where
  "swap_ptrs data i j = data[i := data ! j, j := data ! i]"

text \<open>The larger of a node and its children, among the first \<open>num\<close> elements.\<close>

definition largest_child :: "(ptr \<Rightarrow> ptr \<Rightarrow> int) \<Rightarrow> nat \<Rightarrow> nat \<Rightarrow> ptr list \<Rightarrow> nat" where
  "largest_child cmp i num data =
     (let left = left_idx i;
          k = (if cmp (data ! i) (data ! left) < 0 then left else i);
          right = left + 1
      in if right < num \<and> cmp (data ! k) (data ! right) < 0 then right else k)"

lemma largest_child_cases:
  "largest_child cmp i num data = i \<or> largest_child cmp i num data = 2 * i + 1 \<or>
   (largest_child cmp i num data = 2 * i + 2 \<and> 2 * i + 2 < num)"
  by (auto simp: largest_child_def left_idx_def Let_def)

function down_heap :: "(ptr \<Rightarrow> ptr \<Rightarrow> int) \<Rightarrow> nat \<Rightarrow> nat \<Rightarrow> ptr list \<Rightarrow> ptr list" where
  "down_heap cmp i num data =
     (if left_idx i \<ge> num then data
      else (let k = largest_child cmp i num data
            in if i = k then data else down_heap cmp k num (swap_ptrs data i k)))"
  by pat_completeness auto
termination
proof (relation "measure (\<lambda>(c, i, n, d). n - i)")
  fix cmp i num data k
  assume "\<not> num \<le> left_idx i" and "k = largest_child cmp i num data" and "i \<noteq> k"
  then show "((cmp, k, num, swap_ptrs data i k), cmp, i, num, data) \<in> measure (\<lambda>(c, i, n, d). n - i)"
    using largest_child_cases [of cmp i num data] by (auto simp: left_idx_def)
qed simp

text \<open>The two loops of \<open>OPENSSL_sk_sort\<close>, both counting down.\<close>

fun build_heap :: "(ptr \<Rightarrow> ptr \<Rightarrow> int) \<Rightarrow> nat \<Rightarrow> nat \<Rightarrow> ptr list \<Rightarrow> ptr list" where
  "build_heap cmp 0 num data = down_heap cmp 0 num data"
| "build_heap cmp (Suc i) num data = build_heap cmp i num (down_heap cmp (Suc i) num data)"

fun extract_loop :: "(ptr \<Rightarrow> ptr \<Rightarrow> int) \<Rightarrow> nat \<Rightarrow> ptr list \<Rightarrow> ptr list" where
  "extract_loop cmp 0 data = data"
| "extract_loop cmp (Suc i) data =
     extract_loop cmp i (down_heap cmp 0 (Suc i) (swap_ptrs data 0 (Suc i)))"

definition OPENSSL_sk_sort ::
  "OPENSSL_STACK option \<Rightarrow> (ptr \<Rightarrow> ptr \<Rightarrow> ptr \<Rightarrow> int) \<Rightarrow> OPENSSL_STACK option" where
  "OPENSSL_sk_sort sk call_cmp_func =
     (case sk of
        None \<Rightarrow> None
      | Some s \<Rightarrow>
          if st_comp s = 0 \<or> st_sorted s then sk
          else (let cmp = call_cmp_func (st_comp s);
                    data =
                      (if st_num s \<ge> 2
                       then extract_loop cmp (st_num s - 1)
                              (build_heap cmp (parent_idx (st_num s - 1)) (st_num s) (st_data s))
                       else st_data s)
                in Some (s\<lparr>st_data := data, st_sorted := True\<rparr>)))"

definition OPENSSL_sk_set_cmp_func :: "OPENSSL_STACK \<Rightarrow> ptr \<Rightarrow> ptr \<times> OPENSSL_STACK" where
  "OPENSSL_sk_set_cmp_func s cmp_fn =
     (st_comp s,
      s\<lparr>st_sorted := (if st_comp s \<noteq> cmp_fn then False else st_sorted s), st_comp := cmp_fn\<rparr>)"

end
