(* ===== verification/Stack_Sort.thy ===== *)
theory Stack_Sort
  imports Stack "HOL-Library.Multiset"
begin

text \<open>
  What \<open>stack.c\<close> relies on of a comparison function, as an interface, and what the heap sort and the
  binary search do with any function that keeps it. Indices are those of the code: the parent of
  \<open>j > 0\<close> is \<open>(j - 1) div 2\<close>.
\<close>

section \<open>Lists of pointers\<close>

lemma length_swap_ptrs [simp]: "length (swap_ptrs d i j) = length d"
  by (simp add: swap_ptrs_def)

lemma nth_swap_ptrs:
  assumes "i < length d" and "j < length d"
  shows "swap_ptrs d i j ! k = (if k = j then d ! i else if k = i then d ! j else d ! k)"
  using assms by (auto simp: swap_ptrs_def nth_list_update)

lemma take_swap_ptrs:
  assumes "i < n" and "j < n" and "n \<le> length d"
  shows "take n (swap_ptrs d i j) = swap_ptrs (take n d) i j"
  using assms by (simp add: swap_ptrs_def take_update_swap)

lemma drop_swap_ptrs:
  assumes "i < n" and "j < n"
  shows "drop n (swap_ptrs d i j) = drop n d"
  using assms by (simp add: swap_ptrs_def)

lemma mset_swap_ptrs:
  assumes "i < length d" and "j < length d"
  shows "mset (swap_ptrs d i j) = mset d"
  using assms by (simp add: swap_ptrs_def mset_swap)

declare down_heap.simps [simp del]

lemma down_heap_permutes:
  assumes "i < n" and "n \<le> length d"
  shows "length (down_heap cmp i n d) = length d \<and> drop n (down_heap cmp i n d) = drop n d \<and>
    mset (take n (down_heap cmp i n d)) = mset (take n d)"
  using assms
proof (induction cmp i n d rule: down_heap.induct)
  case (1 cmp i num data)
  define k where "k = largest_child cmp i num data"
  show ?case
  proof (cases "num \<le> left_idx i \<or> i = k")
    case True
    then show ?thesis by (subst (1 2 3) down_heap.simps) (auto simp: k_def Let_def)
  next
    case False
    then have k: "k < num" and nl: "\<not> num \<le> left_idx i" and ne: "i \<noteq> k"
      using largest_child_cases [of cmp i num data] by (auto simp: k_def left_idx_def)
    have e: "down_heap cmp i num data = down_heap cmp k num (swap_ptrs data i k)"
      by (subst down_heap.simps) (simp add: nl ne flip: k_def)
    have "mset (take num (swap_ptrs data i k)) = mset (take num data)"
      using 1(2,3) k by (simp add: take_swap_ptrs mset_swap_ptrs)
    then show ?thesis
      using 1(1) [OF nl k_def ne k] 1(2,3) k by (simp add: e drop_swap_ptrs)
  qed
qed

lemma length_down_heap [simp]: "i < n \<Longrightarrow> n \<le> length d \<Longrightarrow> length (down_heap cmp i n d) = length d"
  by (simp add: down_heap_permutes)

lemma nth_drop_eq: "drop n xs = drop n ys \<Longrightarrow> length xs = length ys \<Longrightarrow> n \<le> k \<Longrightarrow> k < length ys \<Longrightarrow> xs ! k = ys ! k"
  using nth_drop [of n xs "k - n"] nth_drop [of n ys "k - n"] by simp

text \<open>A statement about all of the first \<open>n\<close> entries does not depend on their order.\<close>

lemma all_take_mset:
  assumes "mset (take n xs) = mset (take n ys)" and "n \<le> length xs" and "n \<le> length ys"
    and "\<forall>b<n. P (ys ! b)" and "a < n"
  shows "P (xs ! a)"
proof -
  have "xs ! a \<in> set (take n xs)" using assms(2,5) by (auto simp: in_set_conv_nth)
  then have "xs ! a \<in> set (take n ys)" using assms(1) by (metis mset_eq_setD)
  then show ?thesis using assms(3,4) by (auto simp: in_set_conv_nth)
qed

section \<open>The contract of a comparison\<close>

locale comparison =
  fixes cmp :: "ptr \<Rightarrow> ptr \<Rightarrow> int"
  assumes cmp_sign: "cmp a b < 0 \<longleftrightarrow> cmp b a > 0"
    and cmp_trans: "cmp a b \<le> 0 \<Longrightarrow> cmp b c \<le> 0 \<Longrightarrow> cmp a c \<le> 0"
begin

lemma cmp_refl [simp]: "cmp a a = 0"
  using cmp_sign [of a a] by linarith

lemma cmp_le_flip: "cmp a b \<le> 0 \<longleftrightarrow> 0 \<le> cmp b a"
  using cmp_sign [of b a] by linarith

lemma cmp_less_le: "cmp a b < 0 \<Longrightarrow> cmp a b \<le> 0"
  by simp

lemma cmp_eq_sym: "cmp a b = 0 \<longleftrightarrow> cmp b a = 0"
  using cmp_sign [of a b] cmp_sign [of b a] by linarith

lemma cmp_less_trans: "cmp a b < 0 \<Longrightarrow> cmp b c \<le> 0 \<Longrightarrow> cmp a c < 0"
  using cmp_trans [of b c a] cmp_sign [of a b] cmp_sign [of c a] cmp_le_flip [of c a] by linarith

end

text \<open>The instance of the development itself: the order of the encoded elements of a SET OF, by which
  byte strings compare in \<open>cbb.c\<close>, is in \<open>Stack_Props\<close>.\<close>

section \<open>Heaps\<close>

text \<open>
  Between \<open>m\<close> and \<open>n\<close> no element is larger than its parent; and the same but for the children of
  \<open>i\<close>, which are not larger than the parent of \<open>i\<close>.
\<close>

definition heap_from :: "(ptr \<Rightarrow> ptr \<Rightarrow> int) \<Rightarrow> nat \<Rightarrow> nat \<Rightarrow> ptr list \<Rightarrow> bool" where
  "heap_from cmp m n d \<longleftrightarrow>
     (\<forall>j. 0 < j \<and> j < n \<and> m \<le> parent_idx j \<longrightarrow> cmp (d ! j) (d ! parent_idx j) \<le> 0)"

definition heap_except :: "(ptr \<Rightarrow> ptr \<Rightarrow> int) \<Rightarrow> nat \<Rightarrow> nat \<Rightarrow> nat \<Rightarrow> ptr list \<Rightarrow> bool" where
  "heap_except cmp i m n d \<longleftrightarrow>
     (\<forall>j. 0 < j \<and> j < n \<and> m \<le> parent_idx j \<and> parent_idx j \<noteq> i \<longrightarrow> cmp (d ! j) (d ! parent_idx j) \<le> 0) \<and>
     (\<forall>j. 0 < j \<and> j < n \<and> parent_idx j = i \<and> 0 < i \<and> m \<le> parent_idx i \<longrightarrow>
        cmp (d ! j) (d ! parent_idx i) \<le> 0)"

lemma parent_idx_less: "0 < j \<Longrightarrow> parent_idx j < j"
  by (auto simp: parent_idx_def)

lemma parent_idx_eq: "0 < j \<Longrightarrow> parent_idx j = i \<longleftrightarrow> j = 2 * i + 1 \<or> j = 2 * i + 2"
  by (auto simp: parent_idx_def)

lemma heap_fromD: "heap_from cmp m n d \<Longrightarrow> 0 < j \<Longrightarrow> j < n \<Longrightarrow> m \<le> parent_idx j \<Longrightarrow> cmp (d ! j) (d ! parent_idx j) \<le> 0"
  by (simp add: heap_from_def)

lemma heap_leaves: "n \<le> left_idx m \<Longrightarrow> heap_from cmp m n d"
  by (auto simp: heap_from_def parent_idx_def left_idx_def)

lemma heap_except_first: "heap_from cmp (Suc m) n d \<Longrightarrow> heap_except cmp m m n d"
proof -
  assume h: "heap_from cmp (Suc m) n d"
  have "\<not> m \<le> parent_idx m" if "0 < m" using parent_idx_less [OF that] by simp
  then show "heap_except cmp m m n d"
    using h by (auto simp: heap_except_def heap_from_def)
qed

context comparison
begin

lemma largest_child_ge:
  fixes d :: "ptr list" and i n :: nat
  defines "k \<equiv> largest_child cmp i n d"
  shows "cmp (d ! i) (d ! k) \<le> 0" and "cmp (d ! (2 * i + 1)) (d ! k) \<le> 0"
    and "2 * i + 2 < n \<Longrightarrow> cmp (d ! (2 * i + 2)) (d ! k) \<le> 0"
proof -
  define l where "l = (if cmp (d ! i) (d ! (2 * i + 1)) < 0 then 2 * i + 1 else i)"
  have l: "cmp (d ! i) (d ! l) \<le> 0" "cmp (d ! (2 * i + 1)) (d ! l) \<le> 0"
    using cmp_le_flip [of "d ! (2 * i + 1)" "d ! i"] by (auto simp: l_def)
  have k: "k = (if 2 * i + 2 < n \<and> cmp (d ! l) (d ! (2 * i + 2)) < 0 then 2 * i + 2 else l)"
    by (auto simp: k_def l_def largest_child_def left_idx_def Let_def)
  have lk: "cmp (d ! l) (d ! k) \<le> 0" by (simp add: k)
  show "cmp (d ! i) (d ! k) \<le> 0" "cmp (d ! (2 * i + 1)) (d ! k) \<le> 0" using l lk cmp_trans by blast+
  show "2 * i + 2 < n \<Longrightarrow> cmp (d ! (2 * i + 2)) (d ! k) \<le> 0"
    using cmp_le_flip [of "d ! (2 * i + 2)" "d ! l"] by (auto simp: k)
qed

text \<open>One swap moves the violation down; without one there is none.\<close>

lemma heap_except_done:
  assumes "heap_except cmp i m n d"
    and "n \<le> left_idx i \<or> largest_child cmp i n d = i"
  shows "heap_from cmp m n d"
  unfolding heap_from_def
proof (intro allI impI)
  fix j assume j: "0 < j \<and> j < n \<and> m \<le> parent_idx j"
  show "cmp (d ! j) (d ! parent_idx j) \<le> 0"
  proof (cases "parent_idx j = i")
    case True
    then have "j = 2 * i + 1 \<or> j = 2 * i + 2" using parent_idx_eq j by blast
    then show ?thesis
      using assms(2) largest_child_ge(2) [of d i n] largest_child_ge(3) [of i n d] j True by (auto simp: left_idx_def)
  next
    case False
    then show ?thesis using assms(1) j by (auto simp: heap_except_def)
  qed
qed

lemma heap_except_step:
  assumes h: "heap_except cmp i m n d" and k: "largest_child cmp i n d = k" "i \<noteq> k"
    and n: "left_idx i < n" "n \<le> length d" and m: "m \<le> i"
  shows "heap_except cmp k m n (swap_ptrs d i k)" and "k < n" and "m \<le> k"
proof -
  have kc: "k = 2 * i + 1 \<or> k = 2 * i + 2" and kn: "k < n" and ik: "i < k"
    using largest_child_cases [of cmp i n d] k n by (auto simp: left_idx_def)
  show "k < n" by (fact kn)
  show "m \<le> k" using m ik by simp
  have pk: "parent_idx k = i" using kc by (auto simp: parent_idx_def)
  have le: "cmp (d ! i) (d ! k) \<le> 0" using largest_child_ge(1) [of d i n] k by simp
  have nth: "swap_ptrs d i k ! j = (if j = k then d ! i else if j = i then d ! k else d ! j)" for j
    using nth_swap_ptrs [of i d k j] kn ik n by simp
  show "heap_except cmp k m n (swap_ptrs d i k)"
    unfolding heap_except_def
  proof (intro conjI allI impI)
    fix j assume j: "0 < j \<and> j < n \<and> m \<le> parent_idx j \<and> parent_idx j \<noteq> k"
    then have pj: "parent_idx j < j" using parent_idx_less by simp
    consider "j = k" | "j \<noteq> k" "parent_idx j = i" | "j = i" | "j \<noteq> k" "j \<noteq> i" "parent_idx j \<noteq> i" by blast
    then show "cmp (swap_ptrs d i k ! j) (swap_ptrs d i k ! parent_idx j) \<le> 0"
    proof cases
      case 1
      then show ?thesis using le pk ik by (simp add: nth)
    next
      case 2
      then have "j = 2 * i + 1 \<or> j = 2 * i + 2" using parent_idx_eq j by blast
      then have "cmp (d ! j) (d ! k) \<le> 0" using largest_child_ge(2) [of d i n] largest_child_ge(3) [of i n d] k j by auto
      then show ?thesis using 2 ik pj by (simp add: nth)
    next
      case 3
      have "cmp (d ! k) (d ! parent_idx i) \<le> 0"
        using h 3 j pk kn ik unfolding heap_except_def by auto
      then show ?thesis using 3 pj ik by (simp add: nth)
    next
      case 4
      then show ?thesis using h j by (simp add: nth heap_except_def)
    qed
  next
    fix j assume j: "0 < j \<and> j < n \<and> parent_idx j = k \<and> 0 < k \<and> m \<le> parent_idx k"
    then have "k < j" using parent_idx_less by blast
    moreover have "cmp (d ! j) (d ! parent_idx j) \<le> 0"
      using h j ik m unfolding heap_except_def by auto
    ultimately show "cmp (swap_ptrs d i k ! j) (swap_ptrs d i k ! parent_idx k) \<le> 0"
      using j ik pk by (simp add: nth)
  qed
qed

lemma down_heap_heap:
  assumes "heap_except cmp i m n d" and "m \<le> i" and "i < n" and "n \<le> length d"
  shows "heap_from cmp m n (down_heap cmp i n d)"
  using assms
proof (induction "n - i" arbitrary: i d rule: less_induct)
  case less
  define k where "k = largest_child cmp i n d"
  show ?case
  proof (cases "n \<le> left_idx i \<or> i = k")
    case True
    then have "down_heap cmp i n d = d" by (subst down_heap.simps) (auto simp: k_def Let_def)
    then show ?thesis using heap_except_done [of i m n d] less.prems(1) True k_def by auto
  next
    case False
    then have nl: "\<not> n \<le> left_idx i" "left_idx i < n" and ne: "i \<noteq> k" by auto
    have e: "down_heap cmp i n d = down_heap cmp k n (swap_ptrs d i k)"
      by (subst down_heap.simps) (simp add: nl(1) ne flip: k_def)
    note s = heap_except_step [OF less.prems(1) k_def [symmetric] ne nl(2) less.prems(4,2)]
    have "i < k" using largest_child_cases [of cmp i n d] ne by (auto simp: k_def)
    then have "n - k < n - i" using less.prems(3) by simp
    from less.hyps [OF this s(1,3,2)] less.prems(4) show ?thesis by (simp add: e)
  qed
qed

text \<open>The root of a heap is its maximum.\<close>

lemma heap_root_max:
  assumes "heap_from cmp 0 n d" and "j < n"
  shows "cmp (d ! j) (d ! 0) \<le> 0"
  using assms(2)
proof (induction j rule: less_induct)
  case (less j)
  show ?case
  proof (cases "j = 0")
    case False
    then have "parent_idx j < j" using parent_idx_less by simp
    then have "cmp (d ! parent_idx j) (d ! 0) \<le> 0" using less by simp
    moreover have "cmp (d ! j) (d ! parent_idx j) \<le> 0"
      using heap_fromD [OF assms(1)] False less.prems by simp
    ultimately show ?thesis using cmp_trans by blast
  qed simp
qed

lemma build_heap_correct:
  assumes "heap_from cmp (Suc i) n d" and "i < n" and "n \<le> length d"
  shows "heap_from cmp 0 n (build_heap cmp i n d) \<and> length (build_heap cmp i n d) = length d \<and>
    drop n (build_heap cmp i n d) = drop n d \<and> mset (take n (build_heap cmp i n d)) = mset (take n d)"
  using assms
proof (induction i arbitrary: d)
  case 0
  then show ?case
    using down_heap_heap [OF heap_except_first [OF 0(1)]] down_heap_permutes [of 0 n d cmp] by simp
next
  case (Suc i)
  have "heap_from cmp (Suc i) n (down_heap cmp (Suc i) n d)"
    using down_heap_heap [OF heap_except_first [OF Suc(2)]] Suc(3,4) by simp
  from Suc.IH [OF this] Suc(3,4) down_heap_permutes [of "Suc i" n d cmp] show ?case by simp
qed

text \<open>
  After the elements above \<open>i\<close> have been extracted, they are in order, none of the rest is larger than
  one of them, and the rest is a heap.
\<close>

definition extracted :: "nat \<Rightarrow> nat \<Rightarrow> ptr list \<Rightarrow> bool" where
  "extracted i n d \<longleftrightarrow>
     heap_from cmp 0 (Suc i) d \<and>
     (\<forall>a b. i < a \<and> a \<le> b \<and> b < n \<longrightarrow> cmp (d ! a) (d ! b) \<le> 0) \<and>
     (\<forall>a b. a \<le> i \<and> i < b \<and> b < n \<longrightarrow> cmp (d ! a) (d ! b) \<le> 0)"

lemma heap_prefix: "heap_from cmp m n d \<Longrightarrow> n' \<le> n \<Longrightarrow> heap_from cmp m n' d"
  by (simp add: heap_from_def)

lemma extract_step:
  assumes e: "extracted (Suc i) n d" and n: "Suc i < n" "n \<le> length d"
  defines "d' \<equiv> down_heap cmp 0 (Suc i) (swap_ptrs d 0 (Suc i))"
  shows "extracted i n d'" and "length d' = length d" and "drop n d' = drop n d"
    and "mset (take n d') = mset (take n d)"
proof -
  define s where "s = swap_ptrs d 0 (Suc i)"
  have s: "s ! j = (if j = Suc i then d ! 0 else if j = 0 then d ! Suc i else d ! j)" for j
    using nth_swap_ptrs [of 0 d "Suc i" j] n unfolding s_def by linarith
  have ls: "length s = length d" by (simp add: s_def)
  note p = down_heap_permutes [of 0 "Suc i" s cmp, folded d'_def [folded s_def]]
  have p': "length d' = length d" "drop (Suc i) d' = drop (Suc i) s"
    "mset (take (Suc i) d') = mset (take (Suc i) s)"
    using p n ls by simp_all
  have hi: "d' ! b = s ! b" if "i < b" "b < n" for b
    using nth_drop_eq [OF p'(2)] p'(1) ls that n by simp
  show "length d' = length d" by (fact p'(1))
  have "drop (n - Suc i) (drop (Suc i) d') = drop (n - Suc i) (drop (Suc i) s)"
    by (simp only: p'(2))
  then have dn: "drop n d' = drop n s" using n by simp
  then show "drop n d' = drop n d" using drop_swap_ptrs [of 0 n "Suc i" d] n by (simp add: s_def)
  have "mset (take k x) + mset (drop k x) = mset x" for k and x :: "ptr list"
    using mset_append [of "take k x" "drop k x"] by simp
  from this [of "Suc i" d'] this [of "Suc i" s] this [of n d'] this [of n s]
  have "mset (take n d') = mset (take n s)" using p'(2,3) dn by (metis add_right_cancel)
  then show "mset (take n d') = mset (take n d)"
    using n by (simp add: s_def take_swap_ptrs mset_swap_ptrs)
  have h: "heap_from cmp 0 (Suc (Suc i)) d" using e by (simp add: extracted_def)
  have mx: "cmp (d ! j) (d ! 0) \<le> 0" if "j \<le> Suc i" for j
    using heap_root_max [OF h, of j] that by simp
  have "heap_from cmp (Suc 0) (Suc i) s"
    using h by (auto simp: heap_from_def s parent_idx_def)
  then have "heap_from cmp 0 (Suc i) d'"
    using down_heap_heap [OF heap_except_first, of 0 "Suc i" s] n ls by (simp add: d'_def s_def)
  moreover have "cmp (d' ! a) (d' ! b) \<le> 0" if "i < a \<and> a \<le> b \<and> b < n" for a b
    using that e n mx unfolding extracted_def by (auto simp: hi s)
  moreover have "cmp (d' ! a) (d' ! b) \<le> 0" if ab: "a \<le> i \<and> i < b \<and> b < n" for a b
  proof -
    have "\<forall>k<Suc i. cmp (s ! k) (d' ! b) \<le> 0"
      using ab e n mx unfolding extracted_def by (auto simp: hi s)
    from all_take_mset [OF p'(3) _ _ this, of a] show ?thesis using ab n ls p'(1) by simp
  qed
  ultimately show "extracted i n d'" by (simp add: extracted_def)
qed

lemma extract_loop_correct:
  assumes "extracted i n d" and "i < n" and "n \<le> length d"
  shows "extracted 0 n (extract_loop cmp i d) \<and> length (extract_loop cmp i d) = length d \<and>
    drop n (extract_loop cmp i d) = drop n d \<and> mset (take n (extract_loop cmp i d)) = mset (take n d)"
  using assms
proof (induction i arbitrary: d)
  case (Suc i)
  note s = extract_step [OF Suc(2,3,4)]
  from Suc.IH [OF s(1)] s(2-4) Suc(3,4) show ?case by simp
qed simp

text \<open>The heap sort permutes the first \<open>n\<close> elements into ascending order and leaves the others.\<close>

lemma heap_sort_correct:
  assumes "2 \<le> n" and "n \<le> length d"
  defines "d' \<equiv> extract_loop cmp (n - 1) (build_heap cmp (parent_idx (n - 1)) n d)"
  shows "sorted_wrt (\<lambda>a b. cmp a b \<le> 0) (take n d')" and "mset (take n d') = mset (take n d)"
    and "length d' = length d" and "drop n d' = drop n d"
proof -
  define h where "h = build_heap cmp (parent_idx (n - 1)) n d"
  have "heap_from cmp (Suc (parent_idx (n - 1))) n d"
    using assms(1) by (intro heap_leaves) (auto simp: left_idx_def parent_idx_def)
  moreover have "parent_idx (n - 1) < n" using assms(1) parent_idx_less [of "n - 1"] by simp
  ultimately have h: "heap_from cmp 0 n h" "length h = length d" "drop n h = drop n d"
    "mset (take n h) = mset (take n d)"
    using build_heap_correct assms(2) unfolding h_def by blast+
  have "extracted (n - 1) n h" using h(1) assms(1) by (auto simp: extracted_def)
  then have e: "extracted 0 n d' \<and> length d' = length h \<and> drop n d' = drop n h \<and> mset (take n d') = mset (take n h)"
    using extract_loop_correct [of "n - 1" n h] assms(1,2) h(2) unfolding d'_def h_def [symmetric] by simp
  have "cmp (d' ! a) (d' ! b) \<le> 0" if "a < b" "b < n" for a b
    using e that by (cases "a = 0") (auto simp: extracted_def)
  then show "sorted_wrt (\<lambda>a b. cmp a b \<le> 0) (take n d')" by (simp add: sorted_wrt_iff_nth_less)
  show "mset (take n d') = mset (take n d)" "length d' = length d" "drop n d' = drop n d"
    using e h by simp_all
qed

end

end
