(* ===== verification/Stack_Props.thy ===== *)
theory Stack_Props
  imports Stack_Sort
begin

text \<open>
  The stack implements lists: what each operation of \<open>stack.c\<close> does to the list of the first \<open>num\<close>
  pointers, and the invariant of the structure that every operation keeps.
\<close>

section \<open>Arrays in memory\<close>

lemma ptr_bytes_simps [simp]:
  "ptr_bytes [] = []"
  "ptr_bytes (p # ps) = store_size (unat p) @ ptr_bytes ps"
  by (simp_all add: ptr_bytes_def)

lemma length_ptr_bytes [simp]: "length (ptr_bytes ps) = 8 * length ps"
  by (induction ps) auto

lemma unat_ptr_less: "unat (p :: u64) < SIZE_MOD"
  using unsigned_less [of p, where ?'a = nat] by (simp add: SIZE_MOD_def)

lemma load_ptrs_append [simp]: "load_ptrs (ptr_bytes ps @ bs) = ps @ load_ptrs bs"
proof (induction ps)
  case (Cons p ps)
  then show ?case by (subst load_ptrs.simps) (simp add: SIZEOF_PTR_def unat_ptr_less)
qed simp

lemma load_ptrs_Nil [simp]: "load_ptrs [] = []"
  by (subst load_ptrs.simps) (simp add: SIZEOF_PTR_def)

lemma load_ptr_bytes [simp]: "load_ptrs (ptr_bytes ps) = ps"
  using load_ptrs_append [of ps "[]"] by simp

lemma length_load_ptrs [simp]: "length (load_ptrs bs) = length bs div 8"
proof (induction bs rule: load_ptrs.induct)
  case (1 bs)
  show ?case
  proof (cases "length bs < 8")
    case False
    then have "length (load_ptrs bs) = Suc (length (drop 8 bs) div 8)"
      using 1 by (subst load_ptrs.simps) (simp add: SIZEOF_PTR_def)
    then show ?thesis using False le_div_geq [of 8 "length bs"] by simp
  qed (subst load_ptrs.simps, simp add: SIZEOF_PTR_def)
qed

lemma be_bytes_0: "be_bytes n 0 = replicate n 0"
  by (induction n) (simp_all add: replicate_append_same)

lemma store_size_0: "store_size 0 = replicate 8 0"
  by (simp add: store_size_def be_bytes_0)

lemma ptr_bytes_zeros: "ptr_bytes (replicate n 0) = replicate (8 * n) 0"
  by (induction n) (simp_all add: store_size_0 flip: replicate_add)

section \<open>The invariant of the structure\<close>

definition stack_ok :: "OPENSSL_STACK \<Rightarrow> bool" where
  "stack_ok s \<longleftrightarrow>
     st_num s < st_num_alloc s \<and> length (st_data s) = st_num_alloc s \<and> kMinSize \<le> st_num_alloc s \<and>
     SIZEOF_PTR * st_num_alloc s < SIZE_MOD \<and> st_num s \<le> INT_MAX"

text \<open>The list a stack represents; \<open>NULL\<close> is an empty one.\<close>

definition elements :: "OPENSSL_STACK \<Rightarrow> ptr list" where
  "elements s = take (st_num s) (st_data s)"

definition elements_of :: "OPENSSL_STACK option \<Rightarrow> ptr list" where
  "elements_of sk = (case sk of None \<Rightarrow> [] | Some s \<Rightarrow> elements s)"

text \<open>A set flag means that the elements are in order.\<close>

definition sorted_ok :: "(ptr \<Rightarrow> ptr \<Rightarrow> ptr \<Rightarrow> int) \<Rightarrow> OPENSSL_STACK \<Rightarrow> bool" where
  "sorted_ok call s \<longleftrightarrow>
     (st_sorted s \<longrightarrow> st_comp s \<noteq> 0 \<and> sorted_wrt (\<lambda>a b. call (st_comp s) a b \<le> 0) (elements s))"

lemma stack_okD:
  assumes "stack_ok s"
  shows "st_num s < st_num_alloc s" and "length (st_data s) = st_num_alloc s" and "4 \<le> st_num_alloc s"
    and "8 * st_num_alloc s < SIZE_MOD" and "st_num s \<le> INT_MAX" and "st_num s < length (st_data s)"
  using assms by (simp_all add: stack_ok_def kMinSize_def SIZEOF_PTR_def)

lemma length_elements: "stack_ok s \<Longrightarrow> length (elements s) = st_num s"
  using stack_okD(6) [of s] by (simp add: elements_def)

lemma nth_elements: "i < st_num s \<Longrightarrow> elements s ! i = st_data s ! i"
  by (simp add: elements_def)

section \<open>Creation\<close>

lemma OPENSSL_calloc_zeros:
  assumes "malloc_ok mal" and "OPENSSL_calloc mal n k = Some blk" and "n * k < SIZE_MOD"
  shows "user_data blk = replicate (n * k) 0"
  using OPENSSL_zalloc_Some [OF assms(1), of "n * k" blk] assms(2,3)
  by (auto simp: OPENSSL_calloc_def split: if_splits)

lemma sk_new_ok:
  assumes "malloc_ok mal" and "OPENSSL_sk_new mal c = (Some s, freed)"
  shows "stack_ok s" and "elements s = []" and "st_comp s = c" and "\<not> st_sorted s"
proof -
  from assms(2) obtain blk where b: "OPENSSL_calloc mal kMinSize SIZEOF_PTR = Some blk"
    and s: "s = \<lparr>st_num = 0, st_data = load_ptrs (user_data blk), st_sorted = False,
                     st_num_alloc = kMinSize, st_comp = c\<rparr>"
    by (auto simp: OPENSSL_sk_new_def split: option.splits)
  have "user_data blk = replicate 32 0"
    using OPENSSL_calloc_zeros [OF assms(1) b] by (simp add: SIZE_MOD_def kMinSize_def SIZEOF_PTR_def)
  then show "stack_ok s" "elements s = []" "st_comp s = c" "\<not> st_sorted s"
    by (simp_all add: s stack_ok_def elements_def SIZE_MOD_def kMinSize_def SIZEOF_PTR_def INT_MAX_def)
qed

section \<open>Insertion\<close>

text \<open>The array grows to at least one entry more, and to no more bytes than a \<open>size_t\<close> can count.\<close>

lemma sk_new_alloc_ok:
  assumes "sk_new_alloc n = Some (m, b)" and "4 \<le> n" and "8 * n < SIZE_MOD"
  shows "n < m" and "b = 8 * m" and "8 * m < SIZE_MOD"
proof -
  have n: "n < SIZE_MOD" "n + 1 < SIZE_MOD" "2 * n < SIZE_MOD"
    using assms(2,3) by simp_all
  have d: "8 * k < SIZE_MOD" if "(k * 8) mod SIZE_MOD div 8 = k" for k
  proof -
    have "(k * 8) mod SIZE_MOD < SIZE_MOD" by (simp add: SIZE_MOD_def)
    moreover have "k * 8 \<le> (k * 8) mod SIZE_MOD"
      using div_times_less_eq_dividend [of "(k * 8) mod SIZE_MOD" 8] that by simp
    ultimately show ?thesis by simp
  qed
  have m2: "n * 2 mod SIZE_MOD = n * 2" and a1: "size_add n 1 = n + 1"
    using n by (simp_all add: size_add_small)
  define bad where "bad \<longleftrightarrow> n * 2 < n \<or> n * 2 * 8 mod SIZE_MOD div 8 \<noteq> n * 2"
  have e: "sk_new_alloc n =
      (if bad then (if n + 1 < n \<or> (n + 1) * 8 mod SIZE_MOD div 8 \<noteq> n + 1 then None
                    else Some (n + 1, (n + 1) * 8 mod SIZE_MOD))
       else Some (n * 2, n * 2 * 8 mod SIZE_MOD))"
    unfolding sk_new_alloc_def Let_def SIZEOF_PTR_def m2 a1 bad_def by auto
  have "n < m \<and> b = 8 * m \<and> 8 * m < SIZE_MOD"
  proof (cases bad)
    case True
    then have "(n + 1) * 8 mod SIZE_MOD div 8 = n + 1" "m = n + 1" "b = (n + 1) * 8 mod SIZE_MOD"
      using assms(1) by (auto simp: e split: if_splits)
    then show ?thesis using d [of "n + 1"] by (simp add: mult.commute)
  next
    case False
    then have "n * 2 * 8 mod SIZE_MOD div 8 = n * 2" unfolding bad_def by blast
    moreover have "Some (n * 2, n * 2 * 8 mod SIZE_MOD) = Some (m, b)"
      using assms(1) unfolding e if_not_P [OF False] .
    then have "m = n * 2" "b = n * 2 * 8 mod SIZE_MOD" unfolding option.inject prod.inject by blast+
    ultimately have "n * 2 * 8 mod SIZE_MOD div 8 = n * 2" "m = n * 2" "b = n * 2 * 8 mod SIZE_MOD" by blast+
    then show ?thesis using d [of "n * 2"] assms(2) by (simp add: mult.commute)
  qed
  then show "n < m" "b = 8 * m" "8 * m < SIZE_MOD" by simp_all
qed

lemma sk_grow_ok:
  assumes "malloc_ok mal" and "stack_ok s" and "sk_grow mal s = Some s'"
  shows "stack_ok s'" and "elements s' = elements s" and "st_num s + 1 < st_num_alloc s'"
    and "st_num s' = st_num s" and "st_comp s' = st_comp s" and "st_sorted s' = st_sorted s"
proof -
  note ok = stack_okD [OF assms(2)]
  have "stack_ok s' \<and> elements s' = elements s \<and> st_num s + 1 < st_num_alloc s' \<and> st_num s' = st_num s \<and>
      st_comp s' = st_comp s \<and> st_sorted s' = st_sorted s"
  proof (cases "st_num_alloc s \<le> st_num s + 1")
    case True
    with assms(3) obtain m b blk where a: "sk_new_alloc (st_num_alloc s) = Some (m, b)"
      and r: "fst (OPENSSL_realloc mal (Some (ossl_block (ptr_bytes (st_data s)))) b) = Some blk"
      and s': "s' = s\<lparr>st_data := load_ptrs (user_data blk), st_num_alloc := m\<rparr>"
      by (auto simp: sk_grow_def split: option.splits)
    note m = sk_new_alloc_ok [OF a ok(3,4)]
    obtain fresh where blk: "blk = ossl_block (take b (ptr_bytes (st_data s)) @ drop (8 * st_num_alloc s) fresh)"
      and fresh: "length fresh = b"
      using OPENSSL_realloc_Some [OF assms(1) _ _ r] ok m by (auto simp: ac_simps)
    have "user_data blk = ptr_bytes (st_data s) @ drop (8 * st_num_alloc s) fresh"
      using m ok by (simp add: blk)
    then have d: "load_ptrs (user_data blk) = st_data s @ load_ptrs (drop (8 * st_num_alloc s) fresh)"
      by simp
    have l: "length (load_ptrs (user_data blk)) = m"
      using d m ok fresh by (simp add: diff_mult_distrib2 [symmetric])
    have "elements s' = elements s" using ok by (simp add: s' elements_def d)
    then show ?thesis using assms(2) m l True ok
      by (simp add: s' stack_ok_def SIZEOF_PTR_def)
  next
    case False
    then show ?thesis using assms(2,3) ok by (simp add: sk_grow_def)
  qed
  then show "stack_ok s'" "elements s' = elements s" "st_num s + 1 < st_num_alloc s'"
    "st_num s' = st_num s" "st_comp s' = st_comp s" "st_sorted s' = st_sorted s" by simp_all
qed

lemma split_around:
  assumes "k < n" and "n \<le> length d"
  obtains A b B C where "d = A @ b # B @ C" and "length A = k" and "length B = n - k - 1"
proof -
  have e: "drop (k + 1) d = take (n - k - 1) (drop (k + 1) d) @ drop (n - k - 1) (drop (k + 1) d)"
    by (rule append_take_drop_id [symmetric])
  have "d = take k d @ d ! k # drop (k + 1) d" using assms id_take_nth_drop [of k d] by simp
  then have "d = take k d @ d ! k # (take (n - k - 1) (drop (k + 1) d) @ drop (n - k - 1) (drop (k + 1) d))"
    by (simp only: e [symmetric])
  then show thesis by (rule that) (use assms in simp_all)
qed

lemma ptrs_move_up:
  assumes "at < n" and "n < length d"
  shows "take (n + 1) ((ptrs_move d (at + 1) at (n - at))[at := p]) = take at d @ p # drop at (take n d)"
    and "length (ptrs_move d (at + 1) at (n - at)) = length d"
proof -
  obtain A b B C where d: "d = A @ b # B @ C" "length A = at" "length B = n - at - 1"
    using split_around [OF assms(1) less_imp_le [OF assms(2)]] by blast
  then have n: "n = at + Suc (length B)" using assms(1) by simp
  obtain c C' where C: "C = c # C'" using assms(2) by (cases C) (simp_all add: d(1,2) n)
  have "ptrs_move d (at + 1) at (n - at) = A @ b # b # B @ C'"
    by (simp add: ptrs_move_def d(1,2) C n)
  then show "take (n + 1) ((ptrs_move d (at + 1) at (n - at))[at := p]) = take at d @ p # drop at (take n d)"
    "length (ptrs_move d (at + 1) at (n - at)) = length d"
    by (simp_all add: d(1,2) C n list_update_append)
qed

lemma ptrs_move_down:
  assumes "at < n" and "n \<le> length d"
  shows "take (n - 1) (ptrs_move d at (at + 1) (n - at - 1)) = take at d @ drop (at + 1) (take n d)"
    and "length (ptrs_move d at (at + 1) (n - at - 1)) = length d"
proof -
  obtain A b B C where d: "d = A @ b # B @ C" "length A = at" "length B = n - at - 1"
    using split_around [OF assms] by blast
  then have n: "n = at + Suc (length B)" using assms(1) by simp
  have dr: "drop (at + 1) d = B @ C" "take at d = A" "drop (at + length B) d = drop (length B) (b # B @ C)"
    unfolding d(1) by (simp_all add: d(2))
  have na: "n - at - 1 = length B" using n by simp
  have "ptrs_move d at (at + 1) (n - at - 1) = A @ B @ drop (length B) (b # B @ C)"
    unfolding ptrs_move_def na dr by simp
  then show "take (n - 1) (ptrs_move d at (at + 1) (n - at - 1)) = take at d @ drop (at + 1) (take n d)"
    "length (ptrs_move d at (at + 1) (n - at - 1)) = length d"
    unfolding dr using n by (simp_all add: d(1,2))
qed

text \<open>Inserting into the represented list; past its end means at its end.\<close>

definition insert_at :: "nat \<Rightarrow> 'a \<Rightarrow> 'a list \<Rightarrow> 'a list" where
  "insert_at at p xs = take at xs @ p # drop at xs"

definition delete_at :: "nat \<Rightarrow> 'a list \<Rightarrow> 'a list" where
  "delete_at at xs = take at xs @ drop (at + 1) xs"

lemma sk_insert_Some:
  assumes "malloc_ok mal" and "stack_ok s" and "st_num s < INT_MAX" and "sk_grow mal s = Some t"
  obtains s' where "OPENSSL_sk_insert mal (Some s) p at = (st_num s + 1, Some s')"
    and "stack_ok s'" and "elements s' = insert_at at p (elements s)" and "st_comp s' = st_comp s"
    and "\<not> st_sorted s'"
proof -
  note g = sk_grow_ok [OF assms(1,2,4)]
  note t = stack_okD [OF g(1)]
  define d where "d = (if at \<ge> st_num t then (st_data t)[st_num t := p]
                       else (ptrs_move (st_data t) (at + 1) at (st_num t - at))[at := p])"
  define s' where "s' = t\<lparr>st_data := d, st_num := st_num t + 1, st_sorted := False\<rparr>"
  have r: "OPENSSL_sk_insert mal (Some s) p at = (st_num s + 1, Some s')"
    using assms(3,4) g(4) by (simp add: OPENSSL_sk_insert_def d_def s'_def Let_def)
  have "length d = length (st_data t)" using t ptrs_move_up(2) [of at "st_num t" "st_data t"] by (auto simp: d_def)
  then have "stack_ok s'" using t g assms(3) by (simp add: s'_def stack_ok_def SIZEOF_PTR_def kMinSize_def)
  moreover have "elements s' = insert_at at p (elements s)"
  proof (cases "at \<ge> st_num t")
    case True
    have "take (Suc (st_num t)) ((st_data t)[st_num t := p]) = take (st_num t) (st_data t) @ [p]"
      using t(6) by (simp add: take_Suc_conv_app_nth)
    then show ?thesis
      using True t by (simp add: s'_def d_def insert_at_def flip: g(2)) (simp add: elements_def)
  next
    case False
    then show ?thesis
      using ptrs_move_up(1) [of at "st_num t" "st_data t" p] t
      by (simp add: s'_def d_def insert_at_def flip: g(2)) (simp add: elements_def)
  qed
  ultimately show thesis
    using that r g by (simp add: s'_def)
qed

lemma sk_insert_fails:
  "OPENSSL_sk_insert mal (Some s) p at = (0, Some s)" if "INT_MAX \<le> st_num s \<or> sk_grow mal s = None"
  using that by (auto simp: OPENSSL_sk_insert_def split: option.splits)

section \<open>Deletion\<close>

lemma sk_delete_Some:
  assumes "stack_ok s" and "at < st_num s"
  obtains s' where "OPENSSL_sk_delete (Some s) at = (elements s ! at, Some s')"
    and "stack_ok s'" and "elements s' = delete_at at (elements s)" and "st_comp s' = st_comp s"
    and "st_sorted s' = st_sorted s"
proof -
  note ok = stack_okD [OF assms(1)]
  define d where "d = (if at \<noteq> st_num s - 1 then ptrs_move (st_data s) at (at + 1) (st_num s - at - 1)
                       else st_data s)"
  define s' where "s' = s\<lparr>st_data := d, st_num := st_num s - 1\<rparr>"
  have "OPENSSL_sk_delete (Some s) at = (elements s ! at, Some s')"
    using assms(2) by (simp add: OPENSSL_sk_delete_def d_def s'_def nth_elements)
  moreover have "length d = length (st_data s)"
    using ptrs_move_down(2) [of at "st_num s" "st_data s"] assms(2) ok(6) by (simp add: d_def)
  then have "stack_ok s'" using assms ok by (auto simp: s'_def stack_ok_def SIZEOF_PTR_def kMinSize_def)
  moreover have "elements s' = delete_at at (elements s)"
  proof (cases "at = st_num s - 1")
    case True
    then show ?thesis using assms(2) ok by (simp add: s'_def d_def elements_def delete_at_def min_def)
  next
    case False
    then show ?thesis
      using ptrs_move_down(1) [of at "st_num s" "st_data s"] assms(2) ok
      by (simp add: s'_def d_def elements_def delete_at_def min_def)
  qed
  ultimately show thesis using that by (simp add: s'_def)
qed

lemma sk_delete_range: "st_num s \<le> at \<Longrightarrow> OPENSSL_sk_delete (Some s) at = (0, Some s)"
  by (simp add: OPENSSL_sk_delete_def)

lemma sorted_wrt_delete_at:
  assumes "sorted_wrt P xs"
  shows "sorted_wrt P (delete_at k xs)"
proof -
  have "sorted_wrt P (take k xs @ drop k xs)" using assms by simp
  then have "sorted_wrt P (take k xs)" "sorted_wrt P (drop k xs)" "\<forall>x\<in>set (take k xs). \<forall>y\<in>set (drop k xs). P x y"
    unfolding sorted_wrt_append by auto
  moreover have "drop (k + 1) xs = drop 1 (drop k xs)" by simp
  ultimately show ?thesis
    using set_drop_subset [of 1 "drop k xs"] unfolding delete_at_def sorted_wrt_append
    by (metis sorted_wrt_drop subsetD)
qed

section \<open>Searching\<close>

declare find_loop.simps [simp del] bsearch_loop.simps [simp del]

text \<open>The first position between \<open>lo\<close> and \<open>hi\<close> with a property, if there is one.\<close>

definition first_at :: "(nat \<Rightarrow> bool) \<Rightarrow> nat \<Rightarrow> nat \<Rightarrow> nat option \<Rightarrow> bool" where
  "first_at P lo hi r \<longleftrightarrow>
     (case r of
        Some k \<Rightarrow> lo \<le> k \<and> k < hi \<and> P k \<and> (\<forall>j. lo \<le> j \<and> j < k \<longrightarrow> \<not> P j)
      | None \<Rightarrow> \<forall>j. lo \<le> j \<and> j < hi \<longrightarrow> \<not> P j)"

lemma first_at_empty: "hi \<le> lo \<Longrightarrow> first_at P lo hi None"
  by (auto simp: first_at_def)

lemma first_at_here: "P lo \<Longrightarrow> lo < hi \<Longrightarrow> first_at P lo hi (Some lo)"
  by (auto simp: first_at_def)

lemma first_at_skip:
  assumes "first_at P k hi r" and "lo \<le> k" and "\<And>j. lo \<le> j \<Longrightarrow> j < k \<Longrightarrow> \<not> P j"
  shows "first_at P lo hi r"
  using assms by (auto simp: first_at_def split: option.splits) (meson not_le)+

lemma first_at_cut:
  assumes "first_at P lo k r" and "k \<le> hi"
    and "(\<exists>j. lo \<le> j \<and> j < k \<and> P j) \<or> (\<forall>j. k \<le> j \<and> j < hi \<longrightarrow> \<not> P j)"
  shows "first_at P lo hi r"
  using assms by (auto simp: first_at_def split: option.splits) (meson not_le)

lemma first_at_cong:
  assumes "\<And>j. lo \<le> j \<Longrightarrow> j < hi \<Longrightarrow> P j = Q j"
  shows "first_at P lo hi r = first_at Q lo hi r"
  using assms by (auto simp: first_at_def split: option.splits)

lemma find_loop_first: "first_at (\<lambda>j. P (d ! j)) i n (find_loop P i n d)"
proof (induction P i n d rule: find_loop.induct)
  case (1 P i n d)
  show ?case
  proof (cases "i < n")
    case False
    then show ?thesis by (subst find_loop.simps) (simp add: first_at_empty)
  next
    case i: True
    show ?thesis
    proof (cases "P (d ! i)")
      case True
      then show ?thesis using i by (subst find_loop.simps) (simp add: first_at_here)
    next
      case False
      have "first_at (\<lambda>j. P (d ! j)) i n (find_loop P (i + 1) n d)"
        by (rule first_at_skip [OF 1(1) [OF i False]]) (use False in \<open>auto simp: le_Suc_eq less_Suc_eq_le\<close>)
      then show ?thesis using i False by (subst find_loop.simps) simp
    qed
  qed
qed

context comparison
begin

lemma bsearch_first:
  assumes "\<And>a b. a \<le> b \<Longrightarrow> b < n \<Longrightarrow> cmp (d ! a) (d ! b) \<le> 0" and "hi \<le> n"
  shows "first_at (\<lambda>j. cmp p (d ! j) = 0) lo hi (bsearch_loop (cmp p) lo hi d)"
  using assms(2)
proof (induction "hi - lo" arbitrary: lo hi rule: less_induct)
  case less
  show ?case
  proof (cases "lo < hi")
    case False
    then show ?thesis by (subst bsearch_loop.simps) (simp add: first_at_empty)
  next
    case True
    define mid where "mid = lo + (hi - lo - 1) div 2"
    have mid: "lo \<le> mid" "mid < hi" using True by (auto simp: mid_def)
    have e: "bsearch_loop (cmp p) lo hi d =
        (if cmp p (d ! mid) > 0 then bsearch_loop (cmp p) (mid + 1) hi d
         else if cmp p (d ! mid) < 0 then bsearch_loop (cmp p) lo mid d
         else if hi - lo = 1 then Some mid else bsearch_loop (cmp p) lo (mid + 1) d)"
      using True by (subst bsearch_loop.simps) (simp add: mid_def Let_def)
    consider "cmp p (d ! mid) > 0" | "cmp p (d ! mid) < 0" | "cmp p (d ! mid) = 0" "hi - lo = 1"
      | "cmp p (d ! mid) = 0" "hi - lo \<noteq> 1" by linarith
    then show ?thesis
    proof cases
      case 1
      have "cmp p (d ! j) \<noteq> 0" if "j < mid + 1" for j
      proof
        assume z: "cmp p (d ! j) = 0"
        have "cmp (d ! j) (d ! mid) \<le> 0" using assms(1) [of j mid] that mid less.prems by simp
        then have "cmp p (d ! mid) \<le> 0" using cmp_trans [of p "d ! j" "d ! mid"] z by simp
        with 1 show False by simp
      qed
      moreover have "first_at (\<lambda>j. cmp p (d ! j) = 0) (mid + 1) hi (bsearch_loop (cmp p) (mid + 1) hi d)"
        by (rule less.hyps) (use less.prems mid in linarith)+
      ultimately have "first_at (\<lambda>j. cmp p (d ! j) = 0) lo hi (bsearch_loop (cmp p) (mid + 1) hi d)"
        using mid by (elim first_at_skip) auto
      then show ?thesis using 1 e by simp
    next
      case 2
      have "cmp p (d ! j) \<noteq> 0" if "mid \<le> j" "j < hi" for j
        using cmp_less_trans [OF 2, of "d ! j"] assms(1) [of mid j] that less.prems by simp
      moreover have "first_at (\<lambda>j. cmp p (d ! j) = 0) lo mid (bsearch_loop (cmp p) lo mid d)"
        by (rule less.hyps) (use less.prems mid in linarith)+
      ultimately have "first_at (\<lambda>j. cmp p (d ! j) = 0) lo hi (bsearch_loop (cmp p) lo mid d)"
        using mid by (elim first_at_cut) auto
      then show ?thesis using 2 e by simp
    next
      case 3
      then have "mid = lo" using mid by simp
      then show ?thesis using 3 e mid by (auto intro: first_at_here)
    next
      case 4
      then have m: "mid + 1 < hi" using True by (auto simp: mid_def)
      have "first_at (\<lambda>j. cmp p (d ! j) = 0) lo (mid + 1) (bsearch_loop (cmp p) lo (mid + 1) d)"
        by (rule less.hyps) (use less.prems mid m in linarith)+
      then have "first_at (\<lambda>j. cmp p (d ! j) = 0) lo hi (bsearch_loop (cmp p) lo (mid + 1) d)"
        using mid m 4(1) by (elim first_at_cut [where k = "mid + 1"]) auto
      then show ?thesis using 4 e by simp
    qed
  qed
qed

end

section \<open>Loops that call back\<close>

declare free_loop.simps [simp del] delete_if_loop.simps [simp del] deep_copy_loop.simps [simp del]

lemma drop_nth_Cons: "i < n \<Longrightarrow> n \<le> length d \<Longrightarrow> take (n - i) (drop i d) = d ! i # take (n - (i + 1)) (drop (i + 1) d)"
  by (subst Cons_nth_drop_Suc [symmetric]) (simp_all add: take_Cons' Suc_diff_Suc flip: Suc_eq_plus1)

lemma free_loop_fold:
  assumes "n \<le> length d"
  shows "free_loop f i n d w = fold f (filter (\<lambda>p. p \<noteq> 0) (take (n - i) (drop i d))) w"
  using assms
proof (induction f i n d w rule: free_loop.induct)
  case (1 f i n d w)
  then show ?case
    by (subst free_loop.simps) (cases "i < n", simp_all add: drop_nth_Cons del: take_all drop_all)
qed

text \<open>What remains of a list when each element is offered to the callback once, in order.\<close>

fun filter_st :: "(ptr \<Rightarrow> 'w \<Rightarrow> int \<times> 'w) \<Rightarrow> ptr list \<Rightarrow> 'w \<Rightarrow> ptr list \<times> 'w" where
  "filter_st f [] w = ([], w)"
| "filter_st f (p # ps) w =
     (let (r, w) = f p w; (qs, w) = filter_st f ps w in (if r = 0 then p # qs else qs, w))"

lemma delete_if_loop_filter:
  assumes "k \<le> i" and "i \<le> n" and "n \<le> length d" and "delete_if_loop f k i n d w = ((k', d'), w')"
  shows "take k' d' = take k d @ fst (filter_st f (take (n - i) (drop i d)) w) \<and>
    w' = snd (filter_st f (take (n - i) (drop i d)) w) \<and> k' \<le> n \<and> length d' = length d"
  using assms
proof (induction f k i n d w rule: delete_if_loop.induct)
  case (1 f k i n d w)
  show ?case
  proof (cases "i < n")
    case False
    then show ?thesis using 1(3-) by (simp add: delete_if_loop.simps)
  next
    case True
    obtain r v where f: "f (d ! i) w = (r, v)" by (cases "f (d ! i) w")
    note c = drop_nth_Cons [OF True 1(5)]
    show ?thesis
    proof (cases "r = 0")
      case r: True
      have "delete_if_loop f (k + 1) (i + 1) n (d[k := d ! i]) v = ((k', d'), w')"
        using 1(6) True by (subst (asm) delete_if_loop.simps) (simp add: f r)
      from 1(1) [OF True f [symmetric] refl r _ _ _ this] 1(3-5) True
      have "take k' d' = take (k + 1) (d[k := d ! i]) @ fst (filter_st f (take (n - (i + 1)) (drop (i + 1) d)) v) \<and>
        w' = snd (filter_st f (take (n - (i + 1)) (drop (i + 1) d)) v) \<and> k' \<le> n \<and> length d' = length d"
        by simp
      moreover have "take (k + 1) (d[k := d ! i]) = take k d @ [d ! i]"
        using 1(3,5) True by (simp add: take_Suc_conv_app_nth)
      ultimately show ?thesis
        unfolding c by (simp add: f r split: prod.splits)
    next
      case r: False
      have "delete_if_loop f k (i + 1) n d v = ((k', d'), w')"
        using 1(6) True by (subst (asm) delete_if_loop.simps) (simp add: f r)
      from 1(2) [OF True f [symmetric] refl r _ _ _ this] 1(3-5) True
      show ?thesis unfolding c by (simp add: f r split: prod.splits)
    qed
  qed
qed

text \<open>Copying a list: the copies made so far are freed when one fails.\<close>

fun copy_all ::
  "(ptr \<Rightarrow> 'w \<Rightarrow> ptr \<times> 'w) \<Rightarrow> (ptr \<Rightarrow> 'w \<Rightarrow> 'w) \<Rightarrow> ptr list \<Rightarrow> ptr list \<Rightarrow> 'w \<Rightarrow> ptr list option \<times> 'w" where
  "copy_all cp fr made [] w = (Some made, w)"
| "copy_all cp fr made (p # ps) w =
     (if p = 0 then copy_all cp fr (made @ [0]) ps w
      else (let (q, w) = cp p w
            in if q = 0 then (None, fold fr (filter (\<lambda>p. p \<noteq> 0) made) w)
               else copy_all cp fr (made @ [q]) ps w))"

lemma deep_copy_loop_copy_all:
  assumes "i \<le> n" and "n \<le> length d"
  shows "deep_copy_loop cp fr i n d w =
    (case copy_all cp fr (take i d) (take (n - i) (drop i d)) w of
       (r, w') \<Rightarrow> (map_option (\<lambda>xs. xs @ drop n d) r, w'))"
  using assms
proof (induction cp fr i n d w rule: deep_copy_loop.induct)
  case (1 cp fr i n d w)
  show ?case
  proof (cases "i < n")
    case False
    then show ?thesis using 1(3-) by (simp add: deep_copy_loop.simps)
  next
    case True
    note c = drop_nth_Cons [OF True 1(4)]
    have t: "take (i + 1) d = take i d @ [d ! i]" using True 1(4) by (simp add: take_Suc_conv_app_nth)
    show ?thesis
    proof (cases "d ! i = 0")
      case z: True
      show ?thesis
        using 1(1) [OF True z] True 1(4) z t
        by (subst deep_copy_loop.simps) (simp add: c del: take_all)
    next
      case z: False
      obtain q v where f: "cp (d ! i) w = (q, v)" by (cases "cp (d ! i) w")
      have t': "take (i + 1) (d[i := q]) = take i d @ [q]" using True 1(4) by (simp add: take_Suc_conv_app_nth)
      show ?thesis
      proof (cases "q = 0")
        case q: True
        then show ?thesis
          using True 1(4) z
          by (subst deep_copy_loop.simps) (simp add: c f free_loop_fold)
      next
        case q: False
        have "deep_copy_loop cp fr (i + 1) n (d[i := q]) v =
            (case copy_all cp fr (take (i + 1) (d[i := q])) (take (n - (i + 1)) (drop (i + 1) (d[i := q]))) v of
               (r, w') \<Rightarrow> (map_option (\<lambda>xs. xs @ drop n (d[i := q])) r, w'))"
          using 1(2) [OF True z f [symmetric] refl refl q] True 1(4) by simp
        then show ?thesis
          using True z q
          by (subst deep_copy_loop.simps) (simp add: c f t' t' [simplified] del: take_all)
      qed
    qed
  qed
qed

section \<open>Copies\<close>

lemma sk_dup_eq:
  assumes "malloc_ok mal" and "stack_ok s" and "OPENSSL_sk_dup mal (Some s) = (Some t, freed)"
  shows "t = s" and "freed = []"
proof -
  note ok = stack_okD [OF assms(2)]
  from assms(3) obtain blk where b: "OPENSSL_memdup mal (take (SIZEOF_PTR * st_num_alloc s) (ptr_bytes (st_data s))) = Some blk"
    and t: "t = \<lparr>st_num = st_num s, st_data = load_ptrs (user_data blk), st_sorted = st_sorted s,
                          st_num_alloc = st_num_alloc s, st_comp = st_comp s\<rparr>"
    and f: "freed = []"
    by (auto simp: OPENSSL_sk_dup_def split: option.splits)
  have "take (SIZEOF_PTR * st_num_alloc s) (ptr_bytes (st_data s)) = ptr_bytes (st_data s)"
    using ok by (simp add: SIZEOF_PTR_def)
  then have "blk = ossl_block (ptr_bytes (st_data s))"
    using OPENSSL_memdup_Some [OF assms(1) _ b] ok by simp
  then show "t = s" "freed = []" by (simp_all add: t f)
qed

text \<open>The blocks that \<open>OPENSSL_sk_dup\<close> gets from the allocator, and that nothing is left of them if it fails.\<close>

definition dup_blocks :: "malloc_fn \<Rightarrow> OPENSSL_STACK \<Rightarrow> byte list list" where
  "dup_blocks mal s =
     (case OPENSSL_zalloc mal SIZEOF_STACK of
        None \<Rightarrow> []
      | Some ret \<Rightarrow>
          (case OPENSSL_memdup mal (take (SIZEOF_PTR * st_num_alloc s) (ptr_bytes (st_data s))) of
             None \<Rightarrow> [ret]
           | Some blk \<Rightarrow> [blk, ret]))"

abbreviation freed_blocks :: "byte list option list \<Rightarrow> byte list option list" where
  "freed_blocks fs \<equiv> filter (\<lambda>b. b \<noteq> None) fs"

lemma OPENSSL_free_not_None [simp]: "OPENSSL_free (Some b) \<noteq> None" "OPENSSL_free None = None"
  by (simp_all add: OPENSSL_free_def)

lemma sk_dup_frees:
  assumes "OPENSSL_sk_dup mal (Some s) = (None, freed)"
  shows "freed_blocks freed = map (\<lambda>b. OPENSSL_free (Some b)) (dup_blocks mal s)"
  using assms by (auto simp: OPENSSL_sk_dup_def dup_blocks_def split: option.splits)

lemma sk_free_dup:
  assumes "malloc_ok mal" and "stack_ok s" and "OPENSSL_sk_dup mal (Some s) = (Some t, freed)"
  shows "freed_blocks (OPENSSL_sk_free (Some s)) = map (\<lambda>b. OPENSSL_free (Some b)) (dup_blocks mal s)"
proof -
  note ok = stack_okD [OF assms(2)]
  from assms(3) obtain ret blk where z: "OPENSSL_zalloc mal SIZEOF_STACK = Some ret"
    and b: "OPENSSL_memdup mal (take (SIZEOF_PTR * st_num_alloc s) (ptr_bytes (st_data s))) = Some blk"
    by (auto simp: OPENSSL_sk_dup_def split: option.splits)
  have "take (SIZEOF_PTR * st_num_alloc s) (ptr_bytes (st_data s)) = ptr_bytes (st_data s)"
    using ok by (simp add: SIZEOF_PTR_def)
  then have "blk = ossl_block (ptr_bytes (st_data s))" using OPENSSL_memdup_Some [OF assms(1) _ b] ok by simp
  moreover have "ret = ossl_block (replicate SIZEOF_STACK 0)"
    using OPENSSL_zalloc_Some [OF assms(1) z] by (simp add: SIZEOF_STACK_def SIZE_MOD_def)
  ultimately show ?thesis by (simp add: dup_blocks_def z b OPENSSL_sk_free_def)
qed

text \<open>A stack that cannot be made leaves nothing behind.\<close>

lemma sk_new_frees:
  assumes "OPENSSL_sk_new mal c = (None, freed)"
  shows "freed_blocks freed = (case OPENSSL_zalloc mal SIZEOF_STACK of None \<Rightarrow> [] | Some ret \<Rightarrow> [OPENSSL_free (Some ret)])"
  using assms by (auto simp: OPENSSL_sk_new_def split: option.splits)

end
