(* ===== verification/Stack_Claims.thy ===== *)
theory Stack_Claims
  imports Stack_Props Set_Of
begin

text \<open>
  What the stack promises: insertion and deletion on lists, sorting, searching, copies that do not
  leak, and the invariant of every stack that can be reached through its functions.
\<close>

section \<open>A comparison function\<close>

text \<open>
  The development's own comparison, of the encoded elements of a SET OF, on stacks of pointers to byte
  strings: \<open>obj p\<close> is the string at \<open>p\<close>.
\<close>

interpretation set_of_order: comparison "\<lambda>p q. compare_set_of_element (obj p) (obj q)"
  for obj :: "ptr \<Rightarrow> byte list"
proof
  have z: "compare_set_of_element x y = 0 \<longleftrightarrow> x = y" for x y
  proof -
    have "compare_set_of_element x y \<in> {- 1, 0, 1} \<and> (compare_set_of_element x y = 0 \<longleftrightarrow> x = y)"
      by (induction x y rule: list_induct2') auto
    then show ?thesis by simp
  qed
  show "compare_set_of_element (obj a) (obj b) < 0 \<longleftrightarrow> 0 < compare_set_of_element (obj b) (obj a)" for a b
    using compare_le [of "obj a" "obj b"] compare_le [of "obj b" "obj a"] z [of "obj a" "obj b"]
      z [of "obj b" "obj a"] linear [of "obj a" "obj b"]
    by (metis antisym less_le not_le)
  show "compare_set_of_element (obj a) (obj b) \<le> 0 \<Longrightarrow> compare_set_of_element (obj b) (obj c) \<le> 0 \<Longrightarrow>
      compare_set_of_element (obj a) (obj c) \<le> 0" for a b c
    by (auto simp: compare_le)
qed

section \<open>Sorting and searching\<close>

lemma sk_sort_ok:
  assumes "stack_ok s" and "sorted_ok call s" and "st_comp s \<noteq> 0" and "comparison (call (st_comp s))"
    and "OPENSSL_sk_sort (Some s) call = Some t"
  shows "stack_ok t" and "mset (elements t) = mset (elements s)" and "st_comp t = st_comp s"
    and "st_num t = st_num s" and "st_sorted t"
    and "sorted_wrt (\<lambda>a b. call (st_comp s) a b \<le> 0) (elements t)"
proof -
  note ok = stack_okD [OF assms(1)]
  have "stack_ok t \<and> mset (elements t) = mset (elements s) \<and> st_comp t = st_comp s \<and> st_num t = st_num s \<and>
      st_sorted t \<and> sorted_wrt (\<lambda>a b. call (st_comp s) a b \<le> 0) (elements t)"
  proof (cases "st_sorted s")
    case True
    then show ?thesis using assms by (auto simp: OPENSSL_sk_sort_def sorted_ok_def)
  next
    case False
    show ?thesis
    proof (cases "2 \<le> st_num s")
      case True
      note h = comparison.heap_sort_correct [OF assms(4) True less_imp_le [OF ok(6)]]
      show ?thesis
        using assms(1,3,5) False True h
        by (auto simp: OPENSSL_sk_sort_def Let_def elements_def stack_ok_def)
    next
      case n: False
      then have "sorted_wrt P (take (st_num s) (st_data s))" for P
        by (intro sorted_wrt01) simp
      then show ?thesis
        using assms(1,3,5) False n by (auto simp: OPENSSL_sk_sort_def Let_def elements_def stack_ok_def)
    qed
  qed
  then show "stack_ok t" "mset (elements t) = mset (elements s)" "st_comp t = st_comp s"
    "st_num t = st_num s" "st_sorted t"
    "sorted_wrt (\<lambda>a b. call (st_comp s) a b \<le> 0) (elements t)" by simp_all
qed

text \<open>The lists two stacks are built from in the witnesses: capacity four, three strings.\<close>

definition example_stack :: "bool \<Rightarrow> ptr list \<Rightarrow> OPENSSL_STACK" where
  "example_stack b ps =
     \<lparr>st_num = length ps, st_data = ps @ replicate (4 - length ps) 0, st_sorted = b, st_num_alloc = 4,
      st_comp = 1\<rparr>"

definition example_order :: "ptr \<Rightarrow> ptr \<Rightarrow> ptr \<Rightarrow> int" where
  "example_order c p q = compare_set_of_element [ucast p] [ucast q]"

lemma example_order_comparison: "comparison (example_order c)"
  unfolding example_order_def by (rule set_of_order.comparison_axioms)

lemma example_stack_ok: "length ps < 4 \<Longrightarrow> stack_ok (example_stack b ps)"
  by (simp add: stack_ok_def example_stack_def kMinSize_def SIZEOF_PTR_def SIZE_MOD_def INT_MAX_def)

text \<open>
  (C6) \<open>OPENSSL_sk_sort\<close> sorts in place: on a well-formed stack with a comparison function that is a total
  preorder, whatever the flag says truthfully, it permutes the elements into ascending order, sets the
  flag, keeps the number of elements, and leaves the structure well-formed. The heap sort never
  fails and needs no memory.
\<close>

theorem OPENSSL_sk_sort_correct:
  assumes "stack_ok s" and "sorted_ok call_cmp_func s" and "st_comp s \<noteq> 0"
    and "comparison (call_cmp_func (st_comp s))"
  shows "\<exists>t. OPENSSL_sk_sort (Some s) call_cmp_func = Some t \<and> stack_ok t \<and> st_sorted t \<and>
    st_num t = st_num s \<and> mset (elements t) = mset (elements s) \<and>
    sorted_wrt (\<lambda>a b. call_cmp_func (st_comp s) a b \<le> 0) (elements t)"
proof -
  have "OPENSSL_sk_sort (Some s) call_cmp_func \<noteq> None"
    by (simp add: OPENSSL_sk_sort_def Let_def)
  then obtain t where t: "OPENSSL_sk_sort (Some s) call_cmp_func = Some t" by blast
  show ?thesis using sk_sort_ok [OF assms t] t by blast
qed

theorem OPENSSL_sk_sort_correct_witness:
  "\<exists>t. OPENSSL_sk_sort (Some (example_stack False [7, 3, 5])) example_order = Some t \<and> stack_ok t \<and> st_sorted t \<and>
    st_num t = st_num (example_stack False [7, 3, 5]) \<and>
    mset (elements t) = mset (elements (example_stack False [7, 3, 5])) \<and>
    sorted_wrt (\<lambda>a b. example_order (st_comp (example_stack False [7, 3, 5])) a b \<le> 0) (elements t)"
proof (rule OPENSSL_sk_sort_correct)
  show "stack_ok (example_stack False [7, 3, 5])" by (rule example_stack_ok) simp
  show "comparison (example_order (st_comp (example_stack False [7, 3, 5])))"
    by (rule example_order_comparison)
qed (simp_all add: sorted_ok_def example_stack_def)

text \<open>The test \<open>OPENSSL_sk_find\<close> applies to an element.\<close>

definition sk_match :: "OPENSSL_STACK \<Rightarrow> (ptr \<Rightarrow> ptr \<Rightarrow> ptr \<Rightarrow> int) \<Rightarrow> ptr \<Rightarrow> ptr \<Rightarrow> bool" where
  "sk_match s call p q = (if st_comp s = 0 then q = p else p \<noteq> 0 \<and> call (st_comp s) p q = 0)"

text \<open>
  (C8) \<open>OPENSSL_sk_find\<close> returns the index of the first element equal to the one looked for, and reports
  none exactly if there is none: by pointer equality when there is no comparison function, by
  linear search when the stack is not sorted, and by binary search when it is; all three agree on
  the first match although the binary search probes in the middle.
\<close>

theorem OPENSSL_sk_find_exact:
  assumes "stack_ok s" and "sorted_ok call_cmp_func s"
    and "st_comp s \<noteq> 0 \<Longrightarrow> comparison (call_cmp_func (st_comp s))"
  shows "case OPENSSL_sk_find (Some s) p call_cmp_func of
      Some i \<Rightarrow> i < st_num s \<and> sk_match s call_cmp_func p (elements s ! i) \<and>
        (\<forall>q\<in>set (take i (elements s)). \<not> sk_match s call_cmp_func p q)
    | None \<Rightarrow> (\<forall>q\<in>set (elements s). \<not> sk_match s call_cmp_func p q)"
proof -
  note ok = stack_okD [OF assms(1)]
  let ?M = "sk_match s call_cmp_func p"
  have "first_at (\<lambda>j. ?M (st_data s ! j)) 0 (st_num s) (OPENSSL_sk_find (Some s) p call_cmp_func)"
  proof -
    consider "st_comp s = 0" | "st_comp s \<noteq> 0" "p = 0" | "st_comp s \<noteq> 0" "p \<noteq> 0" "\<not> OPENSSL_sk_is_sorted (Some s)"
      | "st_comp s \<noteq> 0" "p \<noteq> 0" "OPENSSL_sk_is_sorted (Some s)" by blast
    then show ?thesis
    proof cases
      case 4
      have "call_cmp_func (st_comp s) (st_data s ! a) (st_data s ! b) \<le> 0" if "a \<le> b" "b < st_num s" for a b
      proof (cases "st_sorted s \<and> a \<noteq> b")
        case True
        then have "sorted_wrt (\<lambda>a b. call_cmp_func (st_comp s) a b \<le> 0) (elements s)"
          using assms(2) by (simp add: sorted_ok_def)
        then show ?thesis
          using that True sorted_wrt_nth_less [of _ "elements s" a b] length_elements [OF assms(1)]
          by (simp add: nth_elements)
      next
        case False
        then have "a = b" using 4 that by (auto simp: OPENSSL_sk_is_sorted_def)
        then show ?thesis using comparison.cmp_refl [OF assms(3) [OF 4(1)]] by simp
      qed
      then have "first_at (\<lambda>j. call_cmp_func (st_comp s) p (st_data s ! j) = 0) 0 (st_num s)
          (bsearch_loop (call_cmp_func (st_comp s) p) 0 (st_num s) (st_data s))"
        by (rule comparison.bsearch_first [OF assms(3) [OF 4(1)] _ order_refl])
      then show ?thesis using 4 by (simp add: OPENSSL_sk_find_def sk_match_def)
    qed (use find_loop_first in \<open>auto simp: OPENSSL_sk_find_def sk_match_def first_at_def\<close>)
  qed
  then show ?thesis
    using length_elements [OF assms(1)]
    by (auto simp: first_at_def nth_elements set_conv_nth split: option.splits)
qed

theorem OPENSSL_sk_find_exact_witness:
  "case OPENSSL_sk_find (Some (example_stack True [3, 5, 5])) 5 example_order of
      Some i \<Rightarrow> i < st_num (example_stack True [3, 5, 5]) \<and>
        sk_match (example_stack True [3, 5, 5]) example_order 5 (elements (example_stack True [3, 5, 5]) ! i) \<and>
        (\<forall>q\<in>set (take i (elements (example_stack True [3, 5, 5]))).
           \<not> sk_match (example_stack True [3, 5, 5]) example_order 5 q)
    | None \<Rightarrow> (\<forall>q\<in>set (elements (example_stack True [3, 5, 5])).
           \<not> sk_match (example_stack True [3, 5, 5]) example_order 5 q)"
proof (rule OPENSSL_sk_find_exact)
  show "stack_ok (example_stack True [3, 5, 5])" by (rule example_stack_ok) simp
  show "sorted_ok example_order (example_stack True [3, 5, 5])" by code_simp
  show "comparison (example_order (st_comp (example_stack True [3, 5, 5])))"
    by (rule example_order_comparison)
qed

text \<open>When everything in reach compares as too small, the binary search runs off to the right.\<close>

lemma bsearch_above:
  "(\<And>j. lo \<le> j \<Longrightarrow> j < hi \<Longrightarrow> cmp (d ! j) > 0) \<Longrightarrow> bsearch_loop cmp lo hi d = None"
proof (induction cmp lo hi d rule: bsearch_loop.induct)
  case (1 cmp lo hi d)
  show ?case
  proof (cases "lo < hi")
    case True
    let ?mid = "lo + (hi - lo - 1) div 2"
    have "cmp (d ! ?mid) > 0" using "1.prems" [of ?mid] True by linarith
    moreover from this have "bsearch_loop cmp (?mid + 1) hi d = None" using "1.IH"(1) [OF True refl refl] "1.prems" by simp
    ultimately show ?thesis using True by (subst bsearch_loop.simps) (simp add: Let_def)
  qed (simp add: bsearch_loop.simps)
qed

text \<open>
  (C37) \<open>OPENSSL_sk_set\<close> leaves the flag alone: the structure's comment says that a nonzero \<open>sorted\<close> means
  ascending order, but setting an element of a sorted stack can make it false. Take any well-formed stack
  that is sorted under a comparison function, any index in the left half, that is left of where the binary
  search probes first, and any element that is greater than all others. After setting it there the flag is
  still set, the elements are out of order, \<open>OPENSSL_sk_find\<close> does not find the element that was just stored,
  and \<open>OPENSSL_sk_sort\<close> does not help, as it trusts the flag.
\<close>

theorem OPENSSL_sk_set_breaks_order:
  assumes "stack_ok s" and "st_sorted s" and "st_comp s \<noteq> 0" and "comparison (call_cmp_func (st_comp s))"
    and "p \<noteq> 0" and "i < (st_num s - 1) div 2"
    and "\<And>j. j < st_num s \<Longrightarrow> j \<noteq> i \<Longrightarrow> call_cmp_func (st_comp s) p (elements s ! j) > 0"
  shows "\<exists>t. OPENSSL_sk_set (Some s) i p = (p, Some t) \<and> elements t = (elements s)[i := p] \<and> st_sorted t \<and>
    \<not> sorted_ok call_cmp_func t \<and> OPENSSL_sk_find (Some t) p call_cmp_func = None \<and>
    OPENSSL_sk_sort (Some t) call_cmp_func = Some t"
proof -
  note ok = stack_okD [OF assms(1)] and l = length_elements [OF assms(1)]
  define cmp where "cmp = call_cmp_func (st_comp s)"
  define t where "t = s\<lparr>st_data := (st_data s)[i := p]\<rparr>"
  let ?mid = "(st_num s - 1) div 2"
  have i: "i < st_num s" "?mid < st_num s" "i < ?mid" using assms(6) by linarith+
  have above: "cmp p (st_data t ! j) > 0" if "j < st_num s" "j \<noteq> i" for j
    using assms(7) [OF that] that by (simp add: cmp_def t_def nth_elements)
  have e: "elements t = (elements s)[i := p]" by (simp add: t_def elements_def take_update_swap)
  have "bsearch_loop (cmp p) (?mid + 1) (st_num s) (st_data t) = None"
    by (rule bsearch_above) (use i above in simp)
  then have "bsearch_loop (cmp p) 0 (st_num s) (st_data t) = None"
    using above [of ?mid] i by (subst bsearch_loop.simps) (simp add: Let_def)
  then have "OPENSSL_sk_find (Some t) p call_cmp_func = None"
    using assms(2,3,5) by (simp add: OPENSSL_sk_find_def OPENSSL_sk_is_sorted_def t_def cmp_def)
  moreover have "\<not> sorted_ok call_cmp_func t"
  proof
    assume "sorted_ok call_cmp_func t"
    then have "sorted_wrt (\<lambda>a b. cmp a b \<le> 0) ((elements s)[i := p])"
      using assms(2) e by (simp add: sorted_ok_def t_def cmp_def)
    from sorted_wrt_nth_less [OF this i(3)] have "cmp p (elements s ! ?mid) \<le> 0" using i l by simp
    then show False using assms(7) [of ?mid] i by (simp add: cmp_def)
  qed
  moreover have "OPENSSL_sk_set (Some s) i p = (p, Some t)" using i by (simp add: OPENSSL_sk_set_def t_def)
  moreover have "st_sorted t" "OPENSSL_sk_sort (Some t) call_cmp_func = Some t"
    using assms(2) by (simp_all add: t_def OPENSSL_sk_sort_def)
  ultimately show ?thesis using e by blast
qed

theorem OPENSSL_sk_set_breaks_order_witness:
  "\<exists>t. OPENSSL_sk_set (Some (example_stack True [3, 5, 7])) 0 9 = (9, Some t) \<and>
     elements t = (elements (example_stack True [3, 5, 7]))[0 := 9] \<and> st_sorted t \<and> \<not> sorted_ok example_order t \<and>
     OPENSSL_sk_find (Some t) 9 example_order = None \<and> OPENSSL_sk_sort (Some t) example_order = Some t"
proof (rule OPENSSL_sk_set_breaks_order)
  show "stack_ok (example_stack True [3, 5, 7])" by (rule example_stack_ok) simp
  show "comparison (example_order (st_comp (example_stack True [3, 5, 7])))" by (rule example_order_comparison)
  fix j assume "j < st_num (example_stack True [3, 5, 7])" "j \<noteq> 0"
  then have j: "j = 1 \<or> j = 2" by (auto simp: example_stack_def)
  have "example_order (st_comp (example_stack True [3, 5, 7])) 9 (elements (example_stack True [3, 5, 7]) ! 1) > 0"
    "example_order (st_comp (example_stack True [3, 5, 7])) 9 (elements (example_stack True [3, 5, 7]) ! 2) > 0" by code_simp+
  then show "example_order (st_comp (example_stack True [3, 5, 7])) 9 (elements (example_stack True [3, 5, 7]) ! j) > 0"
    using j by blast
qed (simp_all add: example_stack_def)

section \<open>Lists\<close>

text \<open>
  (C30) \<open>OPENSSL_sk_insert\<close> refines insertion into a list: it returns the new length and a well-formed,
  unsorted stack with the element in place, or it returns 0 and leaves the stack as it was, and
  this only if the stack is full or the array cannot be enlarged. An index past the end appends.
  Growing never writes outside the array, whatever the allocator puts into fresh memory.
\<close>

theorem OPENSSL_sk_insert_refines:
  assumes "malloc_ok mal" and "stack_ok s"
  shows "\<exists>r t. OPENSSL_sk_insert mal (Some s) p at = (r, Some t) \<and> stack_ok t \<and>
    (if INT_MAX \<le> st_num s \<or> sk_grow mal s = None then r = 0 \<and> t = s
     else r = st_num s + 1 \<and> elements t = insert_at at p (elements s) \<and> st_comp t = st_comp s \<and> \<not> st_sorted t)"
proof (cases "INT_MAX \<le> st_num s \<or> sk_grow mal s = None")
  case True
  then show ?thesis using sk_insert_fails [OF True] assms(2) by simp
next
  case False
  then obtain u where "sk_grow mal s = Some u" by auto
  from sk_insert_Some [OF assms _ this] False show ?thesis by (metis not_le)
qed

theorem OPENSSL_sk_insert_refines_witness:
  "\<exists>r t. OPENSSL_sk_insert zero_malloc (Some (example_stack True [3, 5, 7])) 9 1 = (r, Some t) \<and> stack_ok t \<and>
    (if INT_MAX \<le> st_num (example_stack True [3, 5, 7]) \<or> sk_grow zero_malloc (example_stack True [3, 5, 7]) = None
     then r = 0 \<and> t = example_stack True [3, 5, 7]
     else r = st_num (example_stack True [3, 5, 7]) + 1 \<and>
       elements t = insert_at 1 9 (elements (example_stack True [3, 5, 7])) \<and>
       st_comp t = st_comp (example_stack True [3, 5, 7]) \<and> \<not> st_sorted t)"
  by (rule OPENSSL_sk_insert_refines [OF zero_malloc_total(1) example_stack_ok]) simp

section \<open>Copies\<close>

text \<open>
  What the callbacks of a deep copy do to the set of live objects: a copy is a new object or \<open>NULL\<close>
  with no object more, freeing removes one.
\<close>

definition copy_contract :: "('w \<Rightarrow> ptr set) \<Rightarrow> (ptr \<Rightarrow> 'w \<Rightarrow> ptr \<times> 'w) \<Rightarrow> bool" where
  "copy_contract live cp \<longleftrightarrow>
     (\<forall>p w q w'. cp p w = (q, w') \<longrightarrow>
        (if q = 0 then live w' = live w else q \<notin> live w \<and> live w' = insert q (live w)))"

definition free_contract :: "('w \<Rightarrow> ptr set) \<Rightarrow> (ptr \<Rightarrow> 'w \<Rightarrow> 'w) \<Rightarrow> bool" where
  "free_contract live fr \<longleftrightarrow> (\<forall>q w. live (fr q w) = live w - {q})"

lemma live_fold_free:
  assumes "free_contract live fr"
  shows "live (fold fr ps w) = live w - set ps"
  using assms by (induction ps arbitrary: w) (auto simp: free_contract_def)

abbreviation nonnull :: "ptr list \<Rightarrow> ptr list" where
  "nonnull ps \<equiv> filter (\<lambda>p. p \<noteq> 0) ps"

lemma copy_all_live:
  assumes cp: "copy_contract live cp" and fr: "free_contract live fr"
    and "live w = L \<union> set (nonnull made)" and "L \<inter> set (nonnull made) = {}" and "distinct (nonnull made)"
    and "copy_all cp fr made ps w = (r, w')"
  shows "case r of None \<Rightarrow> live w' = L
    | Some qs \<Rightarrow> live w' = L \<union> set (nonnull qs) \<and> L \<inter> set (nonnull qs) = {} \<and> distinct (nonnull qs) \<and>
        map (\<lambda>p. p = 0) qs = map (\<lambda>p. p = 0) (made @ ps)"
  using assms(3-6)
proof (induction ps arbitrary: made w)
  case (Cons p ps)
  show ?case
  proof (cases "p = 0")
    case True
    then show ?thesis using Cons.IH [of w "made @ [0]"] Cons.prems by (cases r) simp_all
  next
    case False
    obtain q v where f: "cp p w = (q, v)" by (cases "cp p w")
    have c: "if q = 0 then live v = live w else q \<notin> live w \<and> live v = insert q (live w)"
      using cp [unfolded copy_contract_def, rule_format, OF f] .
    show ?thesis
    proof (cases "q = 0")
      case q: True
      then have r: "r = None" "w' = fold fr (nonnull made) v" using Cons.prems(4) False f by auto
      have "live v = live w" using c q by simp
      then show ?thesis using live_fold_free [OF fr, of "nonnull made" v] Cons.prems(1,2) r by auto
    next
      case q: False
      have v: "q \<notin> live w" "live v = insert q (live w)" using c q by simp_all
      have "copy_all cp fr (made @ [q]) ps v = (r, w')" using Cons.prems(4) False f q by simp
      from Cons.IH [OF _ _ _ this] Cons.prems(1-3) v q False
      show ?thesis by (cases r) auto
    qed
  qed
qed auto

lemma sk_deep_copy_eq:
  assumes "stack_ok s" and "OPENSSL_sk_dup mal (Some s) = (Some s, [])"
    and "copy_all (call_copy_func copy_func) (call_free_func free_func) [] (elements s) w = (r, w')"
  shows "OPENSSL_sk_deep_copy mal (Some s) call_copy_func copy_func call_free_func free_func w =
    (case r of None \<Rightarrow> ((None, OPENSSL_sk_free (Some s)), w')
     | Some qs \<Rightarrow> ((Some (s\<lparr>st_data := qs @ drop (st_num s) (st_data s)\<rparr>), []), w'))"
proof -
  have "deep_copy_loop (call_copy_func copy_func) (call_free_func free_func) 0 (st_num s) (st_data s) w =
      (map_option (\<lambda>xs. xs @ drop (st_num s) (st_data s)) r, w')"
    using deep_copy_loop_copy_all [of 0 "st_num s" "st_data s" "call_copy_func copy_func" "call_free_func free_func" w]
      stack_okD(6) [OF assms(1)] assms(3) by (simp add: elements_def)
  then show ?thesis by (cases r) (simp_all add: OPENSSL_sk_deep_copy_def assms(2))
qed

lemma stack_with_data:
  assumes "stack_ok s" and "length qs = st_num s"
  shows "elements (s\<lparr>st_data := qs @ drop (st_num s) (st_data s)\<rparr>) = qs"
    and "stack_ok (s\<lparr>st_data := qs @ drop (st_num s) (st_data s)\<rparr>)"
  using assms stack_okD(6) [OF assms(1)] by (simp_all add: elements_def stack_ok_def)

lemma copy_all_copies:
  "copy_all cp fr made ps w = (Some qs, w') \<Longrightarrow>
   \<exists>rs. qs = made @ rs \<and> list_all2 (\<lambda>q p. q = p \<or> q \<noteq> 0 \<and> (\<exists>w. q = fst (cp p w))) rs ps"
proof (induction ps arbitrary: made w)
  case (Cons p ps)
  obtain q v where f: "cp p w = (q, v)" by (cases "cp p w")
  show ?case
  proof (cases "p = 0 \<or> q = 0")
    case True
    then have "p = 0" "copy_all cp fr (made @ [0]) ps w = (Some qs, w')" using Cons.prems f by (auto split: if_splits)
    from Cons.IH [OF this(2)] this(1) show ?thesis by auto
  next
    case False
    then have "copy_all cp fr (made @ [q]) ps v = (Some qs, w')" using Cons.prems f by simp
    from Cons.IH [OF this] obtain rs where rs: "qs = (made @ [q]) @ rs"
      "list_all2 (\<lambda>q p. q = p \<or> q \<noteq> 0 \<and> (\<exists>w. q = fst (cp p w))) rs ps" by blast
    moreover have "q = fst (cp p w)" by (simp add: f)
    ultimately show ?thesis using False by (intro exI [of _ "q # rs"]) auto
  qed
qed auto

text \<open>
  (C31) \<open>OPENSSL_sk_deep_copy\<close> does not leak: when it fails, the copies already made have been freed, so
  the set of live objects is what it was; when it succeeds, exactly the new objects are live in
  addition, they are distinct and none of them is an object that was there before, and \<open>NULL\<close>
  entries are kept at their places. The copy is as well-formed as the original. Of the memory that was
  allocated for the stack itself, all is freed on failure, at whichever step, and nothing on success.
\<close>

theorem OPENSSL_sk_deep_copy_no_leak:
  assumes "malloc_ok mal" and "stack_ok s"
    and "copy_contract live (call_copy_func copy_func)" and "free_contract live (call_free_func free_func)"
  shows "case OPENSSL_sk_deep_copy mal (Some s) call_copy_func copy_func call_free_func free_func w of
      ((None, freed), w') \<Rightarrow> live w' = live w \<and>
        freed_blocks freed = map (\<lambda>b. OPENSSL_free (Some b)) (dup_blocks mal s)
    | ((Some t, freed), w') \<Rightarrow> freed = [] \<and> live w' = live w \<union> set (nonnull (elements t)) \<and>
        live w \<inter> set (nonnull (elements t)) = {} \<and> distinct (nonnull (elements t)) \<and>
        map (\<lambda>p. p = 0) (elements t) = map (\<lambda>p. p = 0) (elements s) \<and> stack_ok t"
proof (cases "fst (OPENSSL_sk_dup mal (Some s))")
  case None
  then obtain freed where "OPENSSL_sk_dup mal (Some s) = (None, freed)" by (metis prod.collapse)
  then show ?thesis using sk_dup_frees by (simp add: OPENSSL_sk_deep_copy_def)
next
  case (Some u)
  then obtain freed where "OPENSSL_sk_dup mal (Some s) = (Some u, freed)" by (metis prod.collapse)
  then have dup: "OPENSSL_sk_dup mal (Some s) = (Some s, [])" using sk_dup_eq [OF assms(1,2)] by simp
  obtain r w' where c: "copy_all (call_copy_func copy_func) (call_free_func free_func) [] (elements s) w = (r, w')"
    by (cases "copy_all (call_copy_func copy_func) (call_free_func free_func) [] (elements s) w")
  note l = sk_deep_copy_eq [where call_copy_func = call_copy_func and call_free_func = call_free_func, OF assms(2) dup c]
  note e = copy_all_live [OF assms(3,4) _ _ _ c, of "live w"]
  show ?thesis
  proof (cases r)
    case None
    then show ?thesis using e sk_free_dup [OF assms(1,2) dup] by (simp add: l)
  next
    case (Some qs)
    then have q: "map (\<lambda>p. p = 0) qs = map (\<lambda>p. p = 0) (elements s)" using e by simp
    then have "length qs = st_num s" using length_elements [OF assms(2)] map_eq_imp_length_eq by fastforce
    then show ?thesis using e Some stack_with_data [OF assms(2)] by (simp add: l)
  qed
qed

text \<open>In the witness a world is a list of live objects; a copy gets a number above all of them.\<close>

definition example_copy :: "ptr \<Rightarrow> ptr \<Rightarrow> ptr list \<Rightarrow> ptr \<times> ptr list" where
  "example_copy c p w = (let q = Max (set (0 # w)) + 1 in if q = 0 \<or> q \<in> set w then (0, w) else (q, q # w))"

definition example_free :: "ptr \<Rightarrow> ptr \<Rightarrow> ptr list \<Rightarrow> ptr list" where
  "example_free f p w = removeAll p w"

theorem OPENSSL_sk_deep_copy_no_leak_witness:
  "case OPENSSL_sk_deep_copy zero_malloc (Some (example_stack True [3, 0, 7])) example_copy 1 example_free 2 [3, 7] of
      ((None, freed), w') \<Rightarrow> set w' = set [3, 7] \<and>
        freed_blocks freed = map (\<lambda>b. OPENSSL_free (Some b)) (dup_blocks zero_malloc (example_stack True [3, 0, 7]))
    | ((Some t, freed), w') \<Rightarrow> freed = [] \<and> set w' = set [3, 7] \<union> set (nonnull (elements t)) \<and>
        set [3, 7] \<inter> set (nonnull (elements t)) = {} \<and> distinct (nonnull (elements t)) \<and>
        map (\<lambda>p. p = 0) (elements t) = map (\<lambda>p. p = 0) (elements (example_stack True [3, 0, 7])) \<and> stack_ok t"
proof (rule OPENSSL_sk_deep_copy_no_leak [OF zero_malloc_total(1) example_stack_ok])
  show "length [3, 0, 7 :: ptr] < 4" by simp
  show "copy_contract set (example_copy 1)"
    by (auto simp: copy_contract_def example_copy_def Let_def split: if_splits)
  show "free_contract set (example_free 2)" by (auto simp: free_contract_def example_free_def)
qed

section \<open>Every reachable stack\<close>

text \<open>
  The stacks a program can get by the functions of \<open>stack.c\<close>; callbacks and allocators may differ from call
  to call. The second argument is true when the \<open>sorted\<close> flag may be wrong. This happens where the functions
  rely on their caller: when \<open>OPENSSL_sk_set\<close> replaces an element while the flag is set (see
  \<open>OPENSSL_sk_set_breaks_order\<close>), and when a stack with the flag set is copied by a function whose copies do not
  compare as their originals. It stays so until an operation clears the flag: sorting does not help, as
  \<open>OPENSSL_sk_sort\<close> does nothing when the flag is set.
\<close>

definition same_order :: "(ptr \<Rightarrow> ptr \<Rightarrow> int) \<Rightarrow> (ptr \<Rightarrow> 'w \<Rightarrow> ptr \<times> 'w) \<Rightarrow> bool" where
  "same_order cmp cp \<longleftrightarrow>
     (\<forall>p w. fst (cp p w) \<noteq> 0 \<longrightarrow> (\<forall>r. cmp (fst (cp p w)) r = cmp p r \<and> cmp r (fst (cp p w)) = cmp r p))"

inductive sk_reachable :: "(ptr \<Rightarrow> ptr \<Rightarrow> ptr \<Rightarrow> int) \<Rightarrow> OPENSSL_STACK \<Rightarrow> bool \<Rightarrow> bool" for call where
  new: "malloc_ok mal \<Longrightarrow> OPENSSL_sk_new mal c = (Some s, freed) \<Longrightarrow> sk_reachable call s False"
| new_null: "malloc_ok mal \<Longrightarrow> OPENSSL_sk_new_null mal = (Some s, freed) \<Longrightarrow> sk_reachable call s False"
| insert: "sk_reachable call s b \<Longrightarrow> malloc_ok mal \<Longrightarrow> OPENSSL_sk_insert mal (Some s) p at = (r, Some t) \<Longrightarrow>
    sk_reachable call t (b \<and> st_sorted t)"
| push: "sk_reachable call s b \<Longrightarrow> malloc_ok mal \<Longrightarrow> OPENSSL_sk_push mal (Some s) p = (r, Some t) \<Longrightarrow>
    sk_reachable call t (b \<and> st_sorted t)"
| delete: "sk_reachable call s b \<Longrightarrow> OPENSSL_sk_delete (Some s) at = (q, Some t) \<Longrightarrow> sk_reachable call t b"
| delete_ptr: "sk_reachable call s b \<Longrightarrow> OPENSSL_sk_delete_ptr (Some s) p = (q, Some t) \<Longrightarrow> sk_reachable call t b"
| shift: "sk_reachable call s b \<Longrightarrow> OPENSSL_sk_shift (Some s) = (q, Some t) \<Longrightarrow> sk_reachable call t b"
| pop: "sk_reachable call s b \<Longrightarrow> OPENSSL_sk_pop (Some s) = (q, Some t) \<Longrightarrow> sk_reachable call t b"
| delete_if: "sk_reachable call s b \<Longrightarrow>
    OPENSSL_sk_delete_if (Some s) (call_func :: ptr \<Rightarrow> ptr \<Rightarrow> ptr \<Rightarrow> nat \<Rightarrow> int \<times> nat) func arg w = (Some t, w') \<Longrightarrow>
    sk_reachable call t b"
| zero: "sk_reachable call s b \<Longrightarrow> OPENSSL_sk_zero (Some s) = Some t \<Longrightarrow> sk_reachable call t (b \<and> st_sorted t)"
| set: "sk_reachable call s b \<Longrightarrow> OPENSSL_sk_set (Some s) i p = (q, Some t) \<Longrightarrow>
    sk_reachable call t (if i < st_num s then st_sorted s else b)"
| sort: "sk_reachable call s b \<Longrightarrow> OPENSSL_sk_sort (Some s) call = Some t \<Longrightarrow> sk_reachable call t (b \<and> st_sorted s)"
| set_cmp: "sk_reachable call s b \<Longrightarrow> OPENSSL_sk_set_cmp_func s c = (c', t) \<Longrightarrow> sk_reachable call t (b \<and> st_sorted t)"
| dup: "sk_reachable call s b \<Longrightarrow> malloc_ok mal \<Longrightarrow> OPENSSL_sk_dup mal (Some s) = (Some t, freed) \<Longrightarrow> sk_reachable call t b"
| deep_copy: "sk_reachable call s b \<Longrightarrow> malloc_ok mal \<Longrightarrow>
    OPENSSL_sk_deep_copy mal (Some s) (call_copy :: ptr \<Rightarrow> ptr \<Rightarrow> nat \<Rightarrow> ptr \<times> nat) copy call_free free w = ((Some t, freed), w') \<Longrightarrow>
    sk_reachable call t (st_sorted s \<and> (b \<or> \<not> same_order (call (st_comp s)) (call_copy copy)))"

text \<open>The operations that delete at most one element.\<close>

definition deletes :: "OPENSSL_STACK \<Rightarrow> OPENSSL_STACK \<Rightarrow> bool" where
  "deletes s t \<longleftrightarrow> t = s \<or> (\<exists>at q. OPENSSL_sk_delete (Some s) at = (q, Some t))"

lemma deletes_ops:
  "OPENSSL_sk_delete_ptr (Some s) p = (q, Some t) \<Longrightarrow> deletes s t"
  "OPENSSL_sk_shift (Some s) = (q, Some t) \<Longrightarrow> deletes s t"
  "OPENSSL_sk_pop (Some s) = (q, Some t) \<Longrightarrow> deletes s t"
  by (auto simp: OPENSSL_sk_delete_ptr_def OPENSSL_sk_shift_def OPENSSL_sk_pop_def deletes_def
      split: option.splits if_splits)

lemma deletes_keep:
  assumes "stack_ok s" and "deletes s t"
  shows "stack_ok t \<and> (sorted_ok call s \<longrightarrow> sorted_ok call t)"
proof -
  have "stack_ok t \<and> (sorted_ok call s \<longrightarrow> sorted_ok call t)" if d: "OPENSSL_sk_delete (Some s) at = (q, Some t)" for at q
  proof (cases "at < st_num s")
    case True
    from sk_delete_Some [OF assms(1) True] obtain u where "OPENSSL_sk_delete (Some s) at = (elements s ! at, Some u)"
      "stack_ok u" "elements u = delete_at at (elements s)" "st_comp u = st_comp s" "st_sorted u = st_sorted s" by blast
    then show ?thesis using d by (auto simp: sorted_ok_def intro: sorted_wrt_delete_at)
  next
    case False
    then show ?thesis using assms(1) d sk_delete_range [of s at] by simp
  qed
  then show ?thesis using assms unfolding deletes_def by blast
qed

lemma sk_insert_shape:
  assumes "stack_ok s" and "malloc_ok mal" and "OPENSSL_sk_insert mal (Some s) p at = (r, Some t)"
  shows "stack_ok t \<and> (t = s \<or> \<not> st_sorted t)"
  using assms sk_insert_Some [of mal s _ p at] sk_insert_fails [of s mal p at]
  by (cases "INT_MAX \<le> st_num s \<or> sk_grow mal s = None") auto

lemma sk_new_keeps: "malloc_ok mal \<Longrightarrow> OPENSSL_sk_new mal c = (Some s, freed) \<Longrightarrow> stack_ok s \<and> sorted_ok call s"
  using sk_new_ok by (simp add: sorted_ok_def)

lemma sorted_copies:
  assumes "list_all2 (\<lambda>q p. q = p \<or> q \<noteq> 0 \<and> (\<exists>w. q = fst (cp p w))) qs ps" and "same_order cmp cp"
    and "sorted_wrt (\<lambda>a b. cmp a b \<le> 0) ps"
  shows "sorted_wrt (\<lambda>a b. cmp a b \<le> 0) qs"
proof -
  have "cmp (qs ! i) r = cmp (ps ! i) r \<and> cmp r (qs ! i) = cmp r (ps ! i)" if "i < length qs" for i r
    using list_all2_nthD [OF assms(1) that] assms(2) by (auto simp: same_order_def)
  then have "cmp (qs ! i) (qs ! j) = cmp (ps ! i) (ps ! j)" if "i < length qs" "j < length qs" for i j
    using that by simp
  then show ?thesis using assms(3) list_all2_lengthD [OF assms(1)] by (simp add: sorted_wrt_iff_nth_less)
qed

lemma sk_deep_copy_keeps:
  assumes "stack_ok s" and "malloc_ok mal" and "OPENSSL_sk_deep_copy mal (Some s) call_copy copy call_free free w = ((Some t, freed), w')"
  shows "stack_ok t" and "st_sorted t = st_sorted s"
    and "sorted_ok call s \<Longrightarrow> same_order (call (st_comp s)) (call_copy copy) \<Longrightarrow> sorted_ok call t"
proof -
  obtain u fr where u: "OPENSSL_sk_dup mal (Some s) = (Some u, fr)"
    using assms(3) by (cases "OPENSSL_sk_dup mal (Some s)") (auto simp: OPENSSL_sk_deep_copy_def split: option.splits)
  then have dup: "OPENSSL_sk_dup mal (Some s) = (Some s, [])" using sk_dup_eq [OF assms(2,1) u] by simp
  obtain r v where c: "copy_all (call_copy copy) (call_free free) [] (elements s) w = (r, v)" by fastforce
  obtain qs where r: "r = Some qs" and t: "t = s\<lparr>st_data := qs @ drop (st_num s) (st_data s)\<rparr>"
    using assms(3) sk_deep_copy_eq [where call_copy_func = call_copy and call_free_func = call_free, OF assms(1) dup c]
    by (cases r) auto
  from copy_all_copies [OF c [unfolded r]]
  have q: "list_all2 (\<lambda>q p. q = p \<or> q \<noteq> 0 \<and> (\<exists>w. q = fst (call_copy copy p w))) qs (elements s)" by simp
  then have "length qs = st_num s" using length_elements [OF assms(1)] by (simp add: list_all2_lengthD)
  note d = stack_with_data [OF assms(1) this]
  show "stack_ok t" "st_sorted t = st_sorted s" using d by (simp_all add: t)
  show "sorted_ok call s \<Longrightarrow> same_order (call (st_comp s)) (call_copy copy) \<Longrightarrow> sorted_ok call t"
    using sorted_copies [OF q] d(1) by (simp add: sorted_ok_def t)
qed

lemma set_filter_st: "set (fst (filter_st f ps w)) \<subseteq> set ps"
proof (induction ps arbitrary: w)
  case (Cons p ps)
  show ?case using Cons.IH [of "snd (f p w)"] by (auto split: prod.splits)
qed simp

lemma sorted_wrt_filter_st: "sorted_wrt P ps \<Longrightarrow> sorted_wrt P (fst (filter_st f ps w))"
proof (induction ps arbitrary: w)
  case (Cons p ps)
  obtain r v where f: "f p w = (r, v)" by (cases "f p w")
  obtain qs u where q: "filter_st f ps v = (qs, u)" by (cases "filter_st f ps v")
  have "set qs \<subseteq> set ps" "sorted_wrt P qs"
    using set_filter_st [of f ps v] Cons.IH [of v] Cons.prems q by simp_all
  then show ?case using Cons.prems by (auto simp: f q)
qed simp

lemma sk_delete_if_Some:
  assumes "stack_ok s" and "OPENSSL_sk_delete_if (Some s) call_func func arg w = (Some t, w')"
  shows "stack_ok t" and "elements t = fst (filter_st (\<lambda>p. call_func func p arg) (elements s) w)"
    and "w' = snd (filter_st (\<lambda>p. call_func func p arg) (elements s) w)"
    and "st_comp t = st_comp s" and "st_sorted t = st_sorted s"
proof -
  note ok = stack_okD [OF assms(1)]
  obtain k d v where l: "delete_if_loop (\<lambda>p. call_func func p arg) 0 0 (st_num s) (st_data s) w = ((k, d), v)"
    by (metis prod.exhaust)
  then have t: "t = s\<lparr>st_data := d, st_num := k\<rparr>" and v: "w' = v"
    using assms(2) by (auto simp: OPENSSL_sk_delete_if_def)
  note f = delete_if_loop_filter [OF _ _ _ l]
  show "stack_ok t" using f ok assms(1) by (simp add: t stack_ok_def)
  show "elements t = fst (filter_st (\<lambda>p. call_func func p arg) (elements s) w)"
    "w' = snd (filter_st (\<lambda>p. call_func func p arg) (elements s) w)"
    using f ok by (simp_all add: t v elements_def)
  show "st_comp t = st_comp s" "st_sorted t = st_sorted s" by (simp_all add: t)
qed


text \<open>
  (C29) Every stack a program can get, by any sequence of the operations of \<open>stack.c\<close>, is well-formed: its array
  has room for one element more than it holds, no array is larger than a \<open>size_t\<close> can count, and there are
  at most \<open>INT_MAX\<close> elements, so that the count can be cast to \<open>int\<close>. And a set \<open>sorted\<close> flag is true, so
  that the binary search is right, unless since it was set an element was replaced by \<open>OPENSSL_sk_set\<close>, or
  the stack is a deep copy by a function whose copies do not compare as their originals.
\<close>

theorem sk_reachable_ok:
  assumes "sk_reachable call_cmp_func s stale" and "\<And>c. c \<noteq> 0 \<Longrightarrow> comparison (call_cmp_func c)"
  shows "stack_ok s \<and> (stale \<or> sorted_ok call_cmp_func s)"
  using assms(1)
proof (induction rule: sk_reachable.induct)
  case (new mal c s freed)
  then show ?case using sk_new_keeps by blast
next
  case (new_null mal s freed)
  then show ?case using sk_new_keeps unfolding OPENSSL_sk_new_null_def by blast
next
  case (insert s b mal p at r t)
  then show ?case using sk_insert_shape [of s mal p at r t] by (auto simp: sorted_ok_def)
next
  case (push s b mal p r t)
  then show ?case using sk_insert_shape [of s mal p "st_num s" r t] by (auto simp: OPENSSL_sk_push_def sorted_ok_def)
next
  case (delete s b at q t)
  then have "deletes s t" unfolding deletes_def by blast
  then show ?case using deletes_keep delete.IH by blast
next
  case (delete_ptr s b p q t)
  then show ?case using deletes_keep deletes_ops(1) by blast
next
  case (shift s b q t)
  then show ?case using deletes_keep deletes_ops(2) by blast
next
  case (pop s b q t)
  then show ?case using deletes_keep deletes_ops(3) by blast
next
  case (delete_if s b call_func func arg w t w')
  then have "stack_ok s" by simp
  note d = sk_delete_if_Some [OF this delete_if.hyps(2)]
  show ?case using d delete_if.IH by (auto simp: sorted_ok_def sorted_wrt_filter_st)
next
  case (zero s b t)
  then show ?case by (auto simp: OPENSSL_sk_zero_def stack_ok_def sorted_ok_def elements_def split: if_splits)
next
  case (set s b i p q t)
  then show ?case by (auto simp: OPENSSL_sk_set_def stack_ok_def sorted_ok_def split: if_splits)
next
  case (sort s b t)
  show ?case
  proof (cases "st_comp s = 0 \<or> st_sorted s")
    case True
    then have "t = s" using sort.hyps(2) by (auto simp: OPENSSL_sk_sort_def)
    then show ?thesis using sort.IH by (auto simp: sorted_ok_def)
  next
    case False
    then have "sorted_ok call_cmp_func s" by (simp add: sorted_ok_def)
    with False show ?thesis using sk_sort_ok [of s call_cmp_func t] sort assms(2) by (simp add: sorted_ok_def)
  qed
next
  case (set_cmp s b c c' t)
  then show ?case
    by (cases "st_comp s = c") (auto simp: OPENSSL_sk_set_cmp_func_def stack_ok_def sorted_ok_def elements_def)
next
  case (dup s b mal t freed)
  then show ?case using sk_dup_eq(1) by blast
next
  case (deep_copy s b mal call_copy copy call_free free w t freed w')
  then have "stack_ok s" by simp
  note d = sk_deep_copy_keeps [OF this deep_copy.hyps(2,3)]
  show ?case using d deep_copy.IH by (auto simp: sorted_ok_def)
qed

lemma zero_malloc_zalloc:
  assumes "n + 8 < SIZE_MOD"
  shows "OPENSSL_zalloc zero_malloc n = Some (ossl_block (replicate n 0))"
proof -
  have "OPENSSL_malloc zero_malloc n = Some (ossl_block (drop 8 (replicate (n + 8) 0)))"
    using OPENSSL_malloc_succeeds [OF zero_malloc_total(1) _ assms] by (simp add: zero_malloc_def)
  then show ?thesis
    using OPENSSL_zalloc_Some [OF zero_malloc_total(1), of n] assms by (simp add: OPENSSL_zalloc_def)
qed

lemma reached: "sk_reachable call s b \<Longrightarrow> b = b' \<Longrightarrow> sk_reachable call s b'"
  by simp

theorem sk_reachable_ok_witness:
  "\<exists>s. (stack_ok s \<and> sorted_ok example_order s) \<and> elements s = [3, 7]"
proof -
  let ?s = "\<lparr>st_num = 2, st_data = [3, 7, 0, 0], st_sorted = True, st_num_alloc = 4, st_comp = 1\<rparr>"
  let ?n = "\<lparr>st_num = 0, st_data = [0, 0, 0, 0], st_sorted = False, st_num_alloc = 4, st_comp = 1\<rparr>"
  have "OPENSSL_zalloc zero_malloc SIZEOF_STACK = Some (ossl_block (replicate SIZEOF_STACK 0))"
    by (rule zero_malloc_zalloc) (simp add: SIZE_MOD_def SIZEOF_STACK_def)
  moreover have "OPENSSL_calloc zero_malloc kMinSize SIZEOF_PTR = Some (ossl_block (replicate 32 0))"
    by (simp add: OPENSSL_calloc_def kMinSize_def SIZEOF_PTR_def SIZE_MAX_def SIZE_MOD_def zero_malloc_zalloc)
  moreover have "load_ptrs (replicate 32 0) = [0, 0, 0, 0]"
    using load_ptr_bytes [of "replicate 4 0"] by (simp add: ptr_bytes_zeros) (simp add: numeral_eq_Suc)
  ultimately have "OPENSSL_sk_new zero_malloc 1 = (Some ?n, [])" by (simp add: OPENSSL_sk_new_def kMinSize_def)
  then have "sk_reachable example_order ?n False" using sk_reachable.new zero_malloc_total(1) by blast
  then have "sk_reachable example_order (?n\<lparr>st_num := 1, st_data := [7, 0, 0, 0]\<rparr>) False"
    by (rule reached [OF sk_reachable.push [OF _ zero_malloc_total(1), where p = 7 and r = 1]])
      (simp_all add: OPENSSL_sk_push_def OPENSSL_sk_insert_def sk_grow_def INT_MAX_def)
  then have "sk_reachable example_order (?n\<lparr>st_num := 2, st_data := [7, 3, 0, 0]\<rparr>) False"
    by (rule reached [OF sk_reachable.push [OF _ zero_malloc_total(1), where p = 3 and r = 2]])
      (simp_all add: OPENSSL_sk_push_def OPENSSL_sk_insert_def sk_grow_def INT_MAX_def)
  moreover have "OPENSSL_sk_sort (Some (?n\<lparr>st_num := 2, st_data := [7, 3, 0, 0]\<rparr>)) example_order = Some ?s" by code_simp
  ultimately have "sk_reachable example_order ?s False" by (rule reached [OF sk_reachable.sort]) simp
  then have "stack_ok ?s \<and> (False \<or> sorted_ok example_order ?s)"
    by (rule sk_reachable_ok) (rule example_order_comparison)
  then show ?thesis by (intro exI [of _ ?s]) (simp add: elements_def)
qed

lemma delete_first:
  assumes "first_at (\<lambda>j. xs ! j = p) 0 (length xs) r"
  shows "case r of Some k \<Rightarrow> p \<in> set xs \<and> k < length xs \<and> xs ! k = p \<and> delete_at k xs = remove1 p xs
    | None \<Rightarrow> p \<notin> set xs"
proof (cases r)
  case None
  then show ?thesis using assms by (auto simp: first_at_def in_set_conv_nth)
next
  case (Some k)
  then have k: "k < length xs" "xs ! k = p" "\<forall>j<k. xs ! j \<noteq> p" using assms by (auto simp: first_at_def)
  then have n: "p \<notin> set (take k xs)" by (auto simp: in_set_conv_nth)
  have "xs = take k xs @ p # drop (k + 1) xs" using id_take_nth_drop [OF k(1)] k(2) by simp
  then have "remove1 p xs = remove1 p (take k xs @ p # drop (k + 1) xs)" by simp
  also have "\<dots> = delete_at k xs" using n by (simp add: remove1_append delete_at_def)
  finally show ?thesis using Some k by auto
qed

lemma sk_delete_ok:
  assumes "stack_ok s"
  obtains t where "OPENSSL_sk_delete (Some s) at = (if at < st_num s then elements s ! at else 0, Some t)"
    and "stack_ok t" and "elements t = delete_at at (elements s)"
proof (cases "at < st_num s")
  case True
  obtain u where "OPENSSL_sk_delete (Some s) at = (elements s ! at, Some u)" "stack_ok u"
    "elements u = delete_at at (elements s)" using sk_delete_Some [OF assms True] .
  then show thesis using that [of u] True by simp
next
  case False
  then show thesis
    using that [of s] sk_delete_range [of s at] assms length_elements [OF assms] by (simp add: delete_at_def)
qed

lemma sk_ends:
  assumes "stack_ok s"
  shows "\<exists>t. OPENSSL_sk_shift (Some s) = (case elements s of [] \<Rightarrow> 0 | q # _ \<Rightarrow> q, Some t) \<and> stack_ok t \<and>
      elements t = drop 1 (elements s)"
    and "\<exists>t. OPENSSL_sk_pop (Some s) = (case elements s of [] \<Rightarrow> 0 | qs \<Rightarrow> last qs, Some t) \<and> stack_ok t \<and>
      elements t = butlast (elements s)"
proof -
  note l = length_elements [OF assms]
  show "\<exists>t. OPENSSL_sk_shift (Some s) = (case elements s of [] \<Rightarrow> 0 | q # _ \<Rightarrow> q, Some t) \<and> stack_ok t \<and>
      elements t = drop 1 (elements s)"
  proof (cases "elements s")
    case Nil
    then show ?thesis using l assms by (simp add: OPENSSL_sk_shift_def)
  next
    case (Cons q qs)
    obtain t where "OPENSSL_sk_delete (Some s) 0 = (if 0 < st_num s then elements s ! 0 else 0, Some t)"
      "stack_ok t" "elements t = delete_at 0 (elements s)" using sk_delete_ok [OF assms] .
    then show ?thesis using Cons l by (auto simp: OPENSSL_sk_shift_def delete_at_def)
  qed
  show "\<exists>t. OPENSSL_sk_pop (Some s) = (case elements s of [] \<Rightarrow> 0 | qs \<Rightarrow> last qs, Some t) \<and> stack_ok t \<and>
      elements t = butlast (elements s)"
  proof (cases "elements s" rule: rev_cases)
    case Nil
    then show ?thesis using l assms by (simp add: OPENSSL_sk_pop_def)
  next
    case (snoc qs q)
    then have n: "st_num s = Suc (length qs)" using l by simp
    obtain t where t: "OPENSSL_sk_delete (Some s) (length qs) =
        (if length qs < st_num s then elements s ! length qs else 0, Some t)"
      "stack_ok t" "elements t = delete_at (length qs) (elements s)" using sk_delete_ok [OF assms] .
    have "(case elements s of [] \<Rightarrow> 0 | qs \<Rightarrow> last qs) = q" using snoc by (cases qs) simp_all
    then show ?thesis using t n snoc by (auto simp: OPENSSL_sk_pop_def delete_at_def)
  qed
qed

text \<open>
  \<open>OPENSSL_sk_delete_if\<close>, \<open>OPENSSL_sk_delete_ptr\<close>, \<open>OPENSSL_sk_delete\<close>, \<open>OPENSSL_sk_shift\<close> and \<open>OPENSSL_sk_pop\<close> refine
  the list operations: the compaction in place offers each element to the callback once and in
  order and keeps those it does not select; of equal pointers only the first is deleted; the ends
  are taken off, or \<open>NULL\<close> is returned for an empty stack.
\<close>

theorem OPENSSL_sk_deletions_refine:
  assumes "stack_ok s"
  shows "(\<exists>t. OPENSSL_sk_delete_if (Some s) call_func func arg w =
        (Some t, snd (filter_st (\<lambda>p. call_func func p arg) (elements s) w)) \<and> stack_ok t \<and>
        elements t = fst (filter_st (\<lambda>p. call_func func p arg) (elements s) w))
    \<and> (\<exists>t. OPENSSL_sk_delete_ptr (Some s) p = (if p \<in> set (elements s) then p else 0, Some t) \<and> stack_ok t \<and>
        elements t = remove1 p (elements s))
    \<and> (\<exists>t. OPENSSL_sk_delete (Some s) at = (if at < st_num s then elements s ! at else 0, Some t) \<and> stack_ok t \<and>
        elements t = delete_at at (elements s))
    \<and> (\<exists>t. OPENSSL_sk_shift (Some s) = (case elements s of [] \<Rightarrow> 0 | q # _ \<Rightarrow> q, Some t) \<and> stack_ok t \<and>
        elements t = drop 1 (elements s))
    \<and> (\<exists>t. OPENSSL_sk_pop (Some s) = (case elements s of [] \<Rightarrow> 0 | qs \<Rightarrow> last qs, Some t) \<and> stack_ok t \<and>
        elements t = butlast (elements s))"
proof (intro conjI)
  show "\<exists>t. OPENSSL_sk_delete_if (Some s) call_func func arg w =
        (Some t, snd (filter_st (\<lambda>p. call_func func p arg) (elements s) w)) \<and> stack_ok t \<and>
        elements t = fst (filter_st (\<lambda>p. call_func func p arg) (elements s) w)"
  proof -
    obtain k d v where "delete_if_loop (\<lambda>p. call_func func p arg) 0 0 (st_num s) (st_data s) w = ((k, d), v)"
      by (metis prod.exhaust)
    then obtain t w' where d: "OPENSSL_sk_delete_if (Some s) call_func func arg w = (Some t, w')"
      by (simp add: OPENSSL_sk_delete_if_def)
    show ?thesis using sk_delete_if_Some [OF assms d] d by simp
  qed
  show "\<exists>t. OPENSSL_sk_delete_ptr (Some s) p = (if p \<in> set (elements s) then p else 0, Some t) \<and> stack_ok t \<and>
        elements t = remove1 p (elements s)"
  proof -
    let ?r = "find_loop (\<lambda>q. q = p) 0 (st_num s) (st_data s)"
    have "first_at (\<lambda>j. elements s ! j = p) 0 (length (elements s)) ?r"
      using find_loop_first [of "\<lambda>q. q = p" "st_data s" 0 "st_num s"] length_elements [OF assms]
        first_at_cong [of 0 "st_num s" "\<lambda>j. st_data s ! j = p" "\<lambda>j. elements s ! j = p"]
      by (simp add: nth_elements)
    note f = delete_first [OF this]
    show ?thesis
    proof (cases ?r)
      case None
      then show ?thesis using f assms by (simp add: OPENSSL_sk_delete_ptr_def remove1_idem)
    next
      case (Some k)
      obtain t where "OPENSSL_sk_delete (Some s) k = (if k < st_num s then elements s ! k else 0, Some t)"
        "stack_ok t" "elements t = delete_at k (elements s)" using sk_delete_ok [OF assms] .
      then show ?thesis using Some f length_elements [OF assms] by (simp add: OPENSSL_sk_delete_ptr_def)
    qed
  qed
  show "\<exists>t. OPENSSL_sk_delete (Some s) at = (if at < st_num s then elements s ! at else 0, Some t) \<and> stack_ok t \<and>
        elements t = delete_at at (elements s)"
    using sk_delete_ok [OF assms] by blast
qed (rule sk_ends [OF assms])+

theorem OPENSSL_sk_deletions_refine_witness:
  "\<exists>t. OPENSSL_sk_pop (Some (example_stack True [3, 5, 7])) =
      (case elements (example_stack True [3, 5, 7]) of [] \<Rightarrow> 0 | qs \<Rightarrow> last qs, Some t) \<and> stack_ok t \<and>
      elements t = butlast (elements (example_stack True [3, 5, 7]))"
proof -
  have "stack_ok (example_stack True [3, 5, 7])" by (rule example_stack_ok) simp
  from OPENSSL_sk_deletions_refine [OF this, THEN conjunct2, THEN conjunct2, THEN conjunct2, THEN conjunct2]
  show ?thesis .
qed

end
