(* ===== verification/Lhash.thy ===== *)
theory Lhash
  imports Stack
begin

text \<open>
  \<open>crypto/lhash/lhash.c\<close>: the chained hash table under every \<open>LHASH_OF(type)\<close>.

  A chain is the list of its items in the order of their \<open>next\<close> pointers; \<open>lh_buckets\<close> is the array of
  chains. The pointers to pointers the code walks with (\<open>LHASH_ITEM **\<close>) are a bucket and a position
  in its chain: the position after the last item is the \<open>next\<close> field that holds \<open>NULL\<close>. Elements are
  pointers, and the functions that hash and compare them are called through the wrappers
  \<open>call_hash_func\<close> and \<open>call_cmp_func\<close> with the function pointers kept in the table.
\<close>

section \<open>The structure\<close>

record LHASH_ITEM =
  it_data :: ptr
  it_hash :: u32

record LHASH =
  lh_num_items :: nat
  lh_buckets :: "LHASH_ITEM list list"
  lh_num_buckets :: nat
  lh_callback_depth :: u32
  lh_comp :: ptr
  lh_hash :: ptr

definition kMinNumBuckets :: nat where
  "kMinNumBuckets = 16"

definition kMaxAverageChainLength :: nat where
  "kMaxAverageChainLength = 2"

definition kMinAverageChainLength :: nat where
  "kMinAverageChainLength = 1"

text \<open>\<open>sizeof(LHASH_ITEM)\<close> and \<open>sizeof(_LHASH)\<close>.\<close>

definition SIZEOF_LHASH_ITEM :: nat where
  "SIZEOF_LHASH_ITEM = 24"

definition SIZEOF_LHASH :: nat where
  "SIZEOF_LHASH = 48"

text \<open>The table, and what is freed because the array of buckets could not be allocated.\<close>

definition OPENSSL_lh_new :: "malloc_fn \<Rightarrow> ptr \<Rightarrow> ptr \<Rightarrow> LHASH option \<times> byte list option list" where
  "OPENSSL_lh_new mal hash_fn cmp_fn =
     (case OPENSSL_zalloc mal SIZEOF_LHASH of
        None \<Rightarrow> (None, [])
      | Some ret \<Rightarrow>
          (case OPENSSL_calloc mal kMinNumBuckets SIZEOF_PTR of
             None \<Rightarrow> (None, [OPENSSL_free (Some ret)])
           | Some blk \<Rightarrow>
               (Some \<lparr>lh_num_items = 0, lh_buckets = replicate kMinNumBuckets [],
                      lh_num_buckets = kMinNumBuckets, lh_callback_depth = 0, lh_comp = cmp_fn, lh_hash = hash_fn\<rparr>,
                [])))"

definition OPENSSL_lh_num_items :: "LHASH \<Rightarrow> nat" where
  "OPENSSL_lh_num_items lh = lh_num_items lh"

section \<open>Searching\<close>

text \<open>The walk along a chain up to the item a test holds of, or to its end.\<close>

fun chain_pos :: "(LHASH_ITEM \<Rightarrow> bool) \<Rightarrow> LHASH_ITEM list \<Rightarrow> nat" where
  "chain_pos P [] = 0"
| "chain_pos P (cur # rest) = (if P cur then 0 else Suc (chain_pos P rest))"

definition deref :: "LHASH \<Rightarrow> nat \<times> nat \<Rightarrow> LHASH_ITEM option" where
  "deref lh r =
     (let chain = lh_buckets lh ! fst r in if snd r < length chain then Some (chain ! snd r) else None)"

definition bucket_of :: "LHASH \<Rightarrow> u32 \<Rightarrow> nat" where
  "bucket_of lh h = unat h mod lh_num_buckets lh"

definition get_next_ptr_and_hash ::
  "LHASH \<Rightarrow> ptr \<Rightarrow> (ptr \<Rightarrow> ptr \<Rightarrow> u32) \<Rightarrow> (ptr \<Rightarrow> ptr \<Rightarrow> ptr \<Rightarrow> int) \<Rightarrow> (nat \<times> nat) \<times> u32" where
  "get_next_ptr_and_hash lh data call_hash_func call_cmp_func =
     (let h = call_hash_func (lh_hash lh) data;
          b = bucket_of lh h
      in ((b, chain_pos (\<lambda>cur. call_cmp_func (lh_comp lh) (it_data cur) data = 0) (lh_buckets lh ! b)), h))"

definition get_next_ptr_by_key ::
  "LHASH \<Rightarrow> ptr \<Rightarrow> u32 \<Rightarrow> (ptr \<Rightarrow> ptr \<Rightarrow> int) \<Rightarrow> nat \<times> nat" where
  "get_next_ptr_by_key lh key key_hash cmp_key =
     (let b = bucket_of lh key_hash
      in (b, chain_pos (\<lambda>cur. cmp_key key (it_data cur) = 0) (lh_buckets lh ! b)))"

definition OPENSSL_lh_retrieve ::
  "LHASH \<Rightarrow> ptr \<Rightarrow> (ptr \<Rightarrow> ptr \<Rightarrow> u32) \<Rightarrow> (ptr \<Rightarrow> ptr \<Rightarrow> ptr \<Rightarrow> int) \<Rightarrow> ptr" where
  "OPENSSL_lh_retrieve lh data call_hash_func call_cmp_func =
     (case deref lh (fst (get_next_ptr_and_hash lh data call_hash_func call_cmp_func)) of
        None \<Rightarrow> 0 | Some item \<Rightarrow> it_data item)"

definition OPENSSL_lh_retrieve_key ::
  "LHASH \<Rightarrow> ptr \<Rightarrow> u32 \<Rightarrow> (ptr \<Rightarrow> ptr \<Rightarrow> int) \<Rightarrow> ptr" where
  "OPENSSL_lh_retrieve_key lh key key_hash cmp_key =
     (case deref lh (get_next_ptr_by_key lh key key_hash cmp_key) of
        None \<Rightarrow> 0 | Some item \<Rightarrow> it_data item)"

section \<open>Resizing\<close>

text \<open>Each item is pushed onto the front of its new chain.\<close>

fun move_chain :: "nat \<Rightarrow> LHASH_ITEM list \<Rightarrow> LHASH_ITEM list list \<Rightarrow> LHASH_ITEM list list" where
  "move_chain n [] nb = nb"
| "move_chain n (cur # rest) nb =
     (let b = unat (it_hash cur) mod n in move_chain n rest (nb[b := cur # nb ! b]))"

fun move_chains :: "nat \<Rightarrow> LHASH_ITEM list list \<Rightarrow> LHASH_ITEM list list \<Rightarrow> LHASH_ITEM list list" where
  "move_chains n [] nb = nb"
| "move_chains n (chain # rest) nb = move_chains n rest (move_chain n chain nb)"

definition lh_rebucket :: "malloc_fn \<Rightarrow> LHASH \<Rightarrow> nat \<Rightarrow> LHASH" where
  "lh_rebucket mal lh new_num_buckets =
     (let alloc_size = (SIZEOF_PTR * new_num_buckets) mod SIZE_MOD
      in if alloc_size div SIZEOF_PTR \<noteq> new_num_buckets then lh
         else (case OPENSSL_zalloc mal alloc_size of
                 None \<Rightarrow> lh
               | Some blk \<Rightarrow>
                   lh\<lparr>lh_num_buckets := new_num_buckets,
                      lh_buckets := move_chains new_num_buckets (lh_buckets lh) (replicate new_num_buckets [])\<rparr>))"

definition lh_maybe_resize :: "malloc_fn \<Rightarrow> LHASH \<Rightarrow> LHASH" where
  "lh_maybe_resize mal lh =
     (if lh_callback_depth lh > 0 then lh
      else (let avg_chain_length = lh_num_items lh div lh_num_buckets lh
            in if avg_chain_length > kMaxAverageChainLength
               then (let new_num_buckets = (lh_num_buckets lh * 2) mod SIZE_MOD
                     in if new_num_buckets > lh_num_buckets lh then lh_rebucket mal lh new_num_buckets else lh)
               else if avg_chain_length < kMinAverageChainLength \<and> lh_num_buckets lh > kMinNumBuckets
               then (let new_num_buckets = lh_num_buckets lh div 2;
                         new_num_buckets = (if new_num_buckets < kMinNumBuckets then kMinNumBuckets else new_num_buckets)
                     in lh_rebucket mal lh new_num_buckets)
               else lh))"

section \<open>Insertion and deletion\<close>

text \<open>The return value, \<open>*old_data\<close> and the table.\<close>

definition OPENSSL_lh_insert ::
  "malloc_fn \<Rightarrow> LHASH \<Rightarrow> ptr \<Rightarrow> (ptr \<Rightarrow> ptr \<Rightarrow> u32) \<Rightarrow> (ptr \<Rightarrow> ptr \<Rightarrow> ptr \<Rightarrow> int) \<Rightarrow> (bool \<times> ptr) \<times> LHASH" where
  "OPENSSL_lh_insert mal lh data call_hash_func call_cmp_func =
     (let (r, h) = get_next_ptr_and_hash lh data call_hash_func call_cmp_func;
          (b, k) = r
      in (case deref lh r of
            Some item \<Rightarrow>
              ((True, it_data item),
               lh\<lparr>lh_buckets := (lh_buckets lh)[b := (lh_buckets lh ! b)[k := item\<lparr>it_data := data\<rparr>]]\<rparr>)
          | None \<Rightarrow>
              (case OPENSSL_malloc mal SIZEOF_LHASH_ITEM of
                 None \<Rightarrow> ((False, 0), lh)
               | Some blk \<Rightarrow>
                   ((True, 0),
                    lh_maybe_resize mal
                      (lh\<lparr>lh_buckets := (lh_buckets lh)[b := lh_buckets lh ! b @ [\<lparr>it_data = data, it_hash = h\<rparr>]],
                          lh_num_items := size_add (lh_num_items lh) 1\<rparr>)))))"

definition OPENSSL_lh_delete ::
  "malloc_fn \<Rightarrow> LHASH \<Rightarrow> ptr \<Rightarrow> (ptr \<Rightarrow> ptr \<Rightarrow> u32) \<Rightarrow> (ptr \<Rightarrow> ptr \<Rightarrow> ptr \<Rightarrow> int) \<Rightarrow> ptr \<times> LHASH" where
  "OPENSSL_lh_delete mal lh data call_hash_func call_cmp_func =
     (let (r, h) = get_next_ptr_and_hash lh data call_hash_func call_cmp_func;
          (b, k) = r;
          chain = lh_buckets lh ! b
      in (case deref lh r of
            None \<Rightarrow> (0, lh)
          | Some item \<Rightarrow>
              (it_data item,
               lh_maybe_resize mal
                 (lh\<lparr>lh_buckets := (lh_buckets lh)[b := take k chain @ drop (k + 1) chain],
                     lh_num_items := (lh_num_items lh + SIZE_MOD - 1) mod SIZE_MOD\<rparr>))))"

section \<open>Iteration\<close>

definition UINT_MAX :: u32 where
  "UINT_MAX = 0xffffffff"

text \<open>
  The callback acts on a state of its own; callbacks that change the table they are called from
  are outside the model.
\<close>

fun doall_chain :: "(ptr \<Rightarrow> ptr \<Rightarrow> 'w \<Rightarrow> 'w) \<Rightarrow> ptr \<Rightarrow> LHASH_ITEM list \<Rightarrow> 'w \<Rightarrow> 'w" where
  "doall_chain func arg [] w = w"
| "doall_chain func arg (cur # rest) w = doall_chain func arg rest (func (it_data cur) arg w)"

fun doall_chains :: "(ptr \<Rightarrow> ptr \<Rightarrow> 'w \<Rightarrow> 'w) \<Rightarrow> ptr \<Rightarrow> LHASH_ITEM list list \<Rightarrow> 'w \<Rightarrow> 'w" where
  "doall_chains func arg [] w = w"
| "doall_chains func arg (chain # rest) w = doall_chains func arg rest (doall_chain func arg chain w)"

definition OPENSSL_lh_doall_arg ::
  "malloc_fn \<Rightarrow> LHASH option \<Rightarrow> (ptr \<Rightarrow> ptr \<Rightarrow> 'w \<Rightarrow> 'w) \<Rightarrow> ptr \<Rightarrow> 'w \<Rightarrow> LHASH option \<times> 'w" where
  "OPENSSL_lh_doall_arg mal lh func arg w =
     (case lh of
        None \<Rightarrow> (None, w)
      | Some lh \<Rightarrow>
          let lh = (if lh_callback_depth lh < UINT_MAX
                    then lh\<lparr>lh_callback_depth := lh_callback_depth lh + 1\<rparr> else lh);
              w = doall_chains func arg (lh_buckets lh) w;
              lh = (if lh_callback_depth lh < UINT_MAX
                    then lh\<lparr>lh_callback_depth := lh_callback_depth lh - 1\<rparr> else lh)
          in (Some (lh_maybe_resize mal lh), w))"

text \<open>The items in the order they are freed.\<close>

fun free_chain :: "LHASH_ITEM list \<Rightarrow> LHASH_ITEM list" where
  "free_chain [] = []"
| "free_chain (n # next) = n # free_chain next"

definition OPENSSL_lh_free :: "LHASH option \<Rightarrow> LHASH_ITEM list" where
  "OPENSSL_lh_free lh =
     (case lh of None \<Rightarrow> [] | Some lh \<Rightarrow> concat (map free_chain (lh_buckets lh)))"

end
