(* ===== verification/Lhash_Props.thy ===== *)
theory Lhash_Props
  imports Lhash Stack_Claims
begin

text \<open>
  The hash table implements finite maps from elements to the equal element stored. The contract of
  the hash and comparison functions is an interface; under it the position of an element is
  determined by its hash, so that a search may look at one chain only.
\<close>

section \<open>The contract of hash and comparison\<close>

locale hashing =
  fixes hsh :: "ptr \<Rightarrow> u32" and cmp :: "ptr \<Rightarrow> ptr \<Rightarrow> int"
  assumes eq_refl: "cmp a a = 0"
    and eq_sym: "cmp a b = 0 \<Longrightarrow> cmp b a = 0"
    and eq_trans: "cmp a b = 0 \<Longrightarrow> cmp b c = 0 \<Longrightarrow> cmp a c = 0"
    and eq_hash: "cmp a b = 0 \<Longrightarrow> hsh a = hsh b"

text \<open>
  Byte strings under the hash of \<open>mem.c\<close> and the comparison of \<open>cbb.c\<close>.
\<close>

lemma compare_set_of_eq_0: "compare_set_of_element x y = 0 \<longleftrightarrow> x = y"
  by (induction x y rule: list_induct2') auto

interpretation byte_strings: hashing "\<lambda>p. OPENSSL_hash32 (obj p)" "\<lambda>p q. compare_set_of_element (obj p) (obj q)"
  for obj :: "ptr \<Rightarrow> byte list"
  by unfold_locales (auto simp: compare_set_of_eq_0)

section \<open>Lists of items\<close>

text \<open>
  The items of a table in some order: hashes are cached truly, no element is \<open>NULL\<close> and no two are
  equal. The map they stand for takes an element to the equal one stored.
\<close>

definition items_ok :: "(ptr \<Rightarrow> u32) \<Rightarrow> (ptr \<Rightarrow> ptr \<Rightarrow> int) \<Rightarrow> LHASH_ITEM list \<Rightarrow> bool" where
  "items_ok hsh cmp xs \<longleftrightarrow>
     (\<forall>e\<in>set xs. it_hash e = hsh (it_data e) \<and> it_data e \<noteq> 0) \<and>
     sorted_wrt (\<lambda>a b. cmp (it_data a) (it_data b) \<noteq> 0) xs"

definition items_map :: "(ptr \<Rightarrow> ptr \<Rightarrow> int) \<Rightarrow> LHASH_ITEM list \<Rightarrow> ptr \<Rightarrow> ptr option" where
  "items_map cmp xs x = map_option it_data (find (\<lambda>e. cmp (it_data e) x = 0) xs)"

lemma items_map_simps [simp]:
  "items_map cmp [] x = None"
  "items_map cmp (e # xs) x = (if cmp (it_data e) x = 0 then Some (it_data e) else items_map cmp xs x)"
  by (simp_all add: items_map_def)

lemma items_map_append:
  "items_map cmp (xs @ ys) x = (case items_map cmp xs x of None \<Rightarrow> items_map cmp ys x | Some d \<Rightarrow> Some d)"
  by (induction xs) auto

lemma items_map_None_iff: "items_map cmp xs x = None \<longleftrightarrow> (\<forall>e\<in>set xs. cmp (it_data e) x \<noteq> 0)"
  by (induction xs) auto

lemma items_map_SomeD: "items_map cmp xs x = Some d \<Longrightarrow> \<exists>e\<in>set xs. it_data e = d \<and> cmp d x = 0"
  by (induction xs) (auto split: if_splits)

text \<open>A symmetric relation between all pairs of a list does not depend on the order.\<close>

lemma sorted_wrt_sym_mset:
  assumes "symp R"
  shows "sorted_wrt R xs \<longleftrightarrow> (\<forall>x\<in>#mset xs. \<forall>y\<in>#mset xs - {#x#}. R x y)"
proof (induction xs)
  case (Cons a xs)
  have "(\<forall>x\<in>#mset (a # xs). \<forall>y\<in>#mset (a # xs) - {#x#}. R x y) \<longleftrightarrow>
      (\<forall>y\<in>set xs. R a y) \<and> (\<forall>x\<in>set xs. R x a) \<and> (\<forall>x\<in>#mset xs. \<forall>y\<in>#mset xs - {#x#}. R x y)"
  proof -
    have "(\<forall>x\<in>set xs. \<forall>y\<in>#mset (a # xs) - {#x#}. R x y) \<longleftrightarrow>
        (\<forall>x\<in>set xs. R x a \<and> (\<forall>y\<in>#mset xs - {#x#}. R x y))"
    proof (rule ball_cong [OF refl])
      fix x assume "x \<in> set xs"
      then have "mset (a # xs) - {#x#} = add_mset a (mset xs - {#x#})" by simp
      then show "(\<forall>y\<in>#mset (a # xs) - {#x#}. R x y) \<longleftrightarrow> R x a \<and> (\<forall>y\<in>#mset xs - {#x#}. R x y)" by simp
    qed
    then show ?thesis by auto
  qed
  then show ?case using Cons assms by (auto dest: sympD)
qed simp

context hashing
begin

lemma symp_differ: "symp (\<lambda>a b. cmp (it_data a) (it_data b) \<noteq> 0)"
  using eq_sym by (auto intro!: sympI)

lemma items_ok_perm: "items_ok hsh cmp xs \<Longrightarrow> mset xs = mset ys \<Longrightarrow> items_ok hsh cmp ys"
  using sorted_wrt_sym_mset [OF symp_differ, of xs] sorted_wrt_sym_mset [OF symp_differ, of ys]
  by (auto simp: items_ok_def dest: mset_eq_setD)

lemma items_ok_Cons:
  "items_ok hsh cmp (e # xs) \<longleftrightarrow> it_hash e = hsh (it_data e) \<and> it_data e \<noteq> 0 \<and> items_ok hsh cmp xs \<and>
     items_map cmp xs (it_data e) = None"
proof -
  have "cmp (it_data e) y \<noteq> 0 \<longleftrightarrow> cmp y (it_data e) \<noteq> 0" for y using eq_sym by blast
  then show ?thesis by (auto simp: items_ok_def items_map_None_iff)
qed

lemma items_map_equal: "cmp x y = 0 \<Longrightarrow> items_map cmp xs x = items_map cmp xs y"
proof -
  assume xy: "cmp x y = 0"
  have "cmp a x = 0 \<longleftrightarrow> cmp a y = 0" for a using xy eq_trans eq_sym by blast
  then show ?thesis by (simp add: items_map_def)
qed

text \<open>There are no more items than pointers.\<close>

lemma items_count:
  assumes "items_ok hsh cmp xs"
  shows "length xs < SIZE_MOD"
proof -
  have "distinct (map it_data xs)"
    using assms eq_refl by (auto simp: items_ok_def distinct_map sorted_wrt_iff_nth_less distinct_conv_nth nth_eq_iff_index_eq)
      (metis linorder_neqE_nat)
  then have "length xs = card (set (map it_data xs))" by (metis distinct_card length_map)
  also have "\<dots> \<le> card (UNIV - {0 :: ptr})" using assms by (intro card_mono) (auto simp: items_ok_def)
  also have "\<dots> < SIZE_MOD" by (simp add: card_Diff_singleton card_word SIZE_MOD_def)
  finally show ?thesis .
qed

text \<open>At most one item is equal to an element, so the map does not depend on the order either.\<close>

lemma items_map_Some_iff:
  "items_ok hsh cmp xs \<Longrightarrow> items_map cmp xs x = Some d \<longleftrightarrow> (\<exists>e\<in>set xs. it_data e = d \<and> cmp d x = 0)"
proof (induction xs)
  case (Cons e xs)
  then have ok: "items_ok hsh cmp xs" and n: "items_map cmp xs (it_data e) = None" by (simp_all add: items_ok_Cons)
  show ?case
  proof (cases "cmp (it_data e) x = 0")
    case True
    have "cmp (it_data f) x \<noteq> 0" if "f \<in> set xs" for f
      using n that eq_trans [of "it_data f" x "it_data e"] eq_sym [OF True] by (auto simp: items_map_None_iff)
    then show ?thesis using True by auto
  next
    case False
    then show ?thesis using Cons.IH [OF ok] by auto
  qed
qed simp

lemma items_map_perm:
  assumes "items_ok hsh cmp xs" and "mset xs = mset ys"
  shows "items_map cmp ys x = items_map cmp xs x"
proof -
  have "items_map cmp ys x = Some d \<longleftrightarrow> items_map cmp xs x = Some d" for d
    using items_map_Some_iff [OF assms(1)] items_map_Some_iff [OF items_ok_perm [OF assms]] mset_eq_setD [OF assms(2)]
    by simp
  then show ?thesis by (metis not_Some_eq)
qed

text \<open>Removing the item of an element, and replacing it by an equal element.\<close>

lemma items_map_remove:
  assumes "items_ok hsh cmp (e # xs)" and "cmp (it_data e) d = 0"
  shows "items_map cmp xs x = (if cmp d x = 0 then None else items_map cmp (e # xs) x)"
proof -
  have n: "items_map cmp xs d = None"
    using assms items_map_equal by (simp add: items_ok_Cons)
  show ?thesis
  proof (cases "cmp d x = 0")
    case True
    then show ?thesis using n items_map_equal by simp
  next
    case False
    have "cmp (it_data e) x \<noteq> 0" using False eq_trans eq_sym assms(2) by blast
    then show ?thesis using False by simp
  qed
qed

lemma items_ok_replace:
  assumes "items_ok hsh cmp (e # xs)" and "cmp (it_data e) d = 0" and "d \<noteq> 0"
  shows "items_ok hsh cmp (e\<lparr>it_data := d\<rparr> # xs)"
  using assms eq_hash [OF assms(2)] items_map_equal [OF assms(2)] by (simp add: items_ok_Cons)

lemma items_map_replace:
  assumes "items_ok hsh cmp (e # xs)" and "cmp (it_data e) d = 0"
  shows "items_map cmp (e\<lparr>it_data := d\<rparr> # xs) x = (if cmp d x = 0 then Some d else items_map cmp (e # xs) x)"
  using items_map_remove [OF assms, of x] by simp

end

section \<open>Tables\<close>

definition lh_items :: "LHASH \<Rightarrow> LHASH_ITEM list" where
  "lh_items lh = concat (lh_buckets lh)"

text \<open>Every item is in the chain of its hash.\<close>

definition placed :: "nat \<Rightarrow> LHASH_ITEM list list \<Rightarrow> bool" where
  "placed n bs \<longleftrightarrow> (\<forall>b<length bs. \<forall>e\<in>set (bs ! b). unat (it_hash e) mod n = b)"

definition lh_shape :: "LHASH \<Rightarrow> bool" where
  "lh_shape lh \<longleftrightarrow>
     length (lh_buckets lh) = lh_num_buckets lh \<and> kMinNumBuckets \<le> lh_num_buckets lh \<and>
     placed (lh_num_buckets lh) (lh_buckets lh) \<and> lh_num_items lh = length (lh_items lh)"

definition lh_ok :: "(ptr \<Rightarrow> ptr \<Rightarrow> u32) \<Rightarrow> (ptr \<Rightarrow> ptr \<Rightarrow> ptr \<Rightarrow> int) \<Rightarrow> LHASH \<Rightarrow> bool" where
  "lh_ok call_hash call_cmp lh \<longleftrightarrow>
     lh_shape lh \<and> items_ok (call_hash (lh_hash lh)) (call_cmp (lh_comp lh)) (lh_items lh)"

definition lh_map :: "(ptr \<Rightarrow> ptr \<Rightarrow> ptr \<Rightarrow> int) \<Rightarrow> LHASH \<Rightarrow> ptr \<Rightarrow> ptr option" where
  "lh_map call_cmp lh = items_map (call_cmp (lh_comp lh)) (lh_items lh)"

lemma mset_concat_update:
  assumes "b < length bs"
  shows "mset (concat (bs[b := c])) + mset (bs ! b) = mset (concat bs) + mset c"
proof -
  have "mset (concat bs) = mset (concat (take b bs)) + mset (bs ! b) + mset (concat (drop (Suc b) bs))"
    by (subst id_take_nth_drop [OF assms]) simp
  moreover have "mset (concat (bs[b := c])) = mset (concat (take b bs)) + mset c + mset (concat (drop (Suc b) bs))"
    by (subst upd_conv_take_nth_drop [OF assms]) simp
  ultimately show ?thesis by simp
qed

lemma placed_update:
  assumes "placed n bs" and "\<forall>e\<in>set c. unat (it_hash e) mod n = b"
  shows "placed n (bs[b := c])"
  unfolding placed_def
proof (intro allI impI ballI)
  fix j e assume "j < length (bs[b := c])" and "e \<in> set (bs[b := c] ! j)"
  then show "unat (it_hash e) mod n = j"
    using assms by (cases "j = b") (auto simp: placed_def)
qed

lemma chain_pos_cases:
  "(chain_pos P xs < length xs \<and> P (xs ! chain_pos P xs) \<and> (\<forall>e\<in>set (take (chain_pos P xs) xs). \<not> P e)) \<or>
   (chain_pos P xs = length xs \<and> (\<forall>e\<in>set xs. \<not> P e))"
  by (induction xs) auto

subsection \<open>Resizing\<close>

lemma move_chain_ok:
  assumes "placed n nb" and "length nb = n" and "0 < n"
  shows "placed n (move_chain n xs nb) \<and> length (move_chain n xs nb) = n \<and>
    mset (concat (move_chain n xs nb)) = mset xs + mset (concat nb)"
  using assms
proof (induction xs arbitrary: nb)
  case (Cons e xs)
  let ?b = "unat (it_hash e) mod n"
  let ?nb = "nb[?b := e # nb ! ?b]"
  have b: "?b < length nb" using Cons.prems by simp
  have "placed n ?nb" using Cons.prems b by (intro placed_update) (auto simp: placed_def)
  moreover have "mset (concat ?nb) = add_mset e (mset (concat nb))"
    using mset_concat_update [OF b, of "e # nb ! ?b"] by simp
  ultimately show ?case using Cons.IH [of ?nb] Cons.prems by (simp add: Let_def)
qed simp

lemma move_chains_ok:
  assumes "placed n nb" and "length nb = n" and "0 < n"
  shows "placed n (move_chains n bs nb) \<and> length (move_chains n bs nb) = n \<and>
    mset (concat (move_chains n bs nb)) = mset (concat bs) + mset (concat nb)"
  using assms
proof (induction bs arbitrary: nb)
  case (Cons xs bs)
  then show ?case using move_chain_ok [OF Cons.prems, of xs] Cons.IH [of "move_chain n xs nb"] by simp
qed simp

lemma lh_rebucket_ok:
  assumes "lh_shape lh" and "kMinNumBuckets \<le> n"
  shows "lh_shape (lh_rebucket mal lh n)" and "mset (lh_items (lh_rebucket mal lh n)) = mset (lh_items lh)"
    and "lh_num_items (lh_rebucket mal lh n) = lh_num_items lh"
    and "lh_comp (lh_rebucket mal lh n) = lh_comp lh" and "lh_hash (lh_rebucket mal lh n) = lh_hash lh"
    and "lh_callback_depth (lh_rebucket mal lh n) = lh_callback_depth lh"
proof -
  have n: "0 < n" using assms(2) by (simp add: kMinNumBuckets_def)
  have "placed n (replicate n [])" by (simp add: placed_def)
  note m = move_chains_ok [OF this _ n, of "lh_buckets lh"]
  have c: "concat (replicate n []) = []" by simp
  have "lh_rebucket mal lh n = lh \<or> lh_rebucket mal lh n =
      lh\<lparr>lh_num_buckets := n, lh_buckets := move_chains n (lh_buckets lh) (replicate n [])\<rparr>"
    by (simp add: lh_rebucket_def Let_def split: option.split)
  then consider "lh_rebucket mal lh n = lh" | "lh_rebucket mal lh n =
      lh\<lparr>lh_num_buckets := n, lh_buckets := move_chains n (lh_buckets lh) (replicate n [])\<rparr>" by blast
  then have "lh_shape (lh_rebucket mal lh n) \<and> mset (lh_items (lh_rebucket mal lh n)) = mset (lh_items lh) \<and>
      lh_num_items (lh_rebucket mal lh n) = lh_num_items lh \<and>
      lh_comp (lh_rebucket mal lh n) = lh_comp lh \<and> lh_hash (lh_rebucket mal lh n) = lh_hash lh \<and>
      lh_callback_depth (lh_rebucket mal lh n) = lh_callback_depth lh"
  proof cases
    case 2
    have "length (concat (move_chains n (lh_buckets lh) (replicate n []))) = length (concat (lh_buckets lh))"
      using m c by (metis add.right_neutral length_replicate mset.simps(1) size_mset)
    then show ?thesis using m c assms by (simp add: 2 lh_shape_def lh_items_def)
  qed (use assms in simp)
  then show "lh_shape (lh_rebucket mal lh n)" "mset (lh_items (lh_rebucket mal lh n)) = mset (lh_items lh)"
    "lh_num_items (lh_rebucket mal lh n) = lh_num_items lh"
    "lh_comp (lh_rebucket mal lh n) = lh_comp lh" "lh_hash (lh_rebucket mal lh n) = lh_hash lh"
    "lh_callback_depth (lh_rebucket mal lh n) = lh_callback_depth lh" by simp_all
qed

lemma lh_maybe_resize_cases:
  assumes "kMinNumBuckets \<le> lh_num_buckets lh"
  shows "lh_maybe_resize mal lh = lh \<or>
    (\<exists>n. kMinNumBuckets \<le> n \<and> lh_maybe_resize mal lh = lh_rebucket mal lh n)"
proof -
  have "kMinNumBuckets \<le> n" if "n > lh_num_buckets lh" for n using assms that by simp
  then show ?thesis unfolding lh_maybe_resize_def Let_def by (auto simp: not_less)
qed

lemma lh_maybe_resize_ok:
  assumes "lh_shape lh"
  shows "lh_shape (lh_maybe_resize mal lh)" and "mset (lh_items (lh_maybe_resize mal lh)) = mset (lh_items lh)"
    and "lh_num_items (lh_maybe_resize mal lh) = lh_num_items lh"
    and "lh_comp (lh_maybe_resize mal lh) = lh_comp lh" and "lh_hash (lh_maybe_resize mal lh) = lh_hash lh"
    and "lh_callback_depth (lh_maybe_resize mal lh) = lh_callback_depth lh"
proof -
  have "kMinNumBuckets \<le> lh_num_buckets lh" using assms by (simp add: lh_shape_def)
  from lh_maybe_resize_cases [OF this, of mal]
  have "lh_shape (lh_maybe_resize mal lh) \<and> mset (lh_items (lh_maybe_resize mal lh)) = mset (lh_items lh) \<and>
      lh_num_items (lh_maybe_resize mal lh) = lh_num_items lh \<and>
      lh_comp (lh_maybe_resize mal lh) = lh_comp lh \<and> lh_hash (lh_maybe_resize mal lh) = lh_hash lh \<and>
      lh_callback_depth (lh_maybe_resize mal lh) = lh_callback_depth lh"
    using assms lh_rebucket_ok [OF assms] by auto
  then show "lh_shape (lh_maybe_resize mal lh)" "mset (lh_items (lh_maybe_resize mal lh)) = mset (lh_items lh)"
    "lh_num_items (lh_maybe_resize mal lh) = lh_num_items lh"
    "lh_comp (lh_maybe_resize mal lh) = lh_comp lh" "lh_hash (lh_maybe_resize mal lh) = lh_hash lh"
    "lh_callback_depth (lh_maybe_resize mal lh) = lh_callback_depth lh" by simp_all
qed

end
