(* ===== verification/Lhash_Claims.thy ===== *)
theory Lhash_Claims
  imports Lhash_Props
begin

text \<open>
  What the hash table promises: retrieval, insertion and deletion refine the operations on a finite
  map, the number of buckets follows the number of items, and iteration visits every item once.
\<close>

section \<open>Positions\<close>

lemma table_focus:
  assumes "b < length bs" and "k < length (bs ! b)"
  defines "R \<equiv> concat (bs[b := take k (bs ! b) @ drop (k + 1) (bs ! b)])"
  shows "mset (concat bs) = mset (bs ! b ! k # R)"
    and "mset (concat (bs[b := (bs ! b)[k := e]])) = mset (e # R)"
proof -
  let ?c = "bs ! b" and ?r = "take k (bs ! b) @ drop (k + 1) (bs ! b)"
  have c: "mset ?c = add_mset (?c ! k) (mset ?r)"
    by (subst id_take_nth_drop [OF assms(2)]) simp
  have u: "mset (?c[k := e]) = add_mset e (mset ?r)"
    by (subst upd_conv_take_nth_drop [OF assms(2)]) simp
  have "mset R + mset ?c = mset (concat bs) + mset ?r"
    unfolding R_def by (rule mset_concat_update [OF assms(1)])
  then show m: "mset (concat bs) = mset (?c ! k # R)" unfolding c by simp
  have "mset (concat (bs[b := ?c[k := e]])) + mset ?c = mset (concat bs) + mset (?c[k := e])"
    by (rule mset_concat_update [OF assms(1)])
  then show "mset (concat (bs[b := ?c[k := e]])) = mset (e # R)"
    unfolding m c u by (simp add: union_mset_add_mset_left)
qed

lemma placed_focus:
  assumes "placed n bs" and "b < length bs"
  shows "placed n (bs[b := take k (bs ! b) @ drop (k + 1) (bs ! b)])"
  using assms by (intro placed_update) (auto simp: placed_def dest: in_set_takeD in_set_dropD)

lemma placed_replace:
  assumes "placed n bs" and "b < length bs" and "k < length (bs ! b)" and "it_hash e = it_hash (bs ! b ! k)"
  shows "placed n (bs[b := (bs ! b)[k := e]])"
proof (rule placed_update [OF assms(1)])
  show "\<forall>g\<in>set ((bs ! b)[k := e]). unat (it_hash g) mod n = b"
  proof
    fix g assume "g \<in> set ((bs ! b)[k := e])"
    then have "g \<in> set (bs ! b) \<or> g = e" using set_update_subset_insert by fast
    then show "unat (it_hash g) mod n = b" using assms by (auto simp: placed_def)
  qed
qed

text \<open>A search ends at the item equal to an element, or at the end of the only chain that could hold it.\<close>

lemma bucket_less: "lh_shape lh \<Longrightarrow> bucket_of lh h < length (lh_buckets lh)"
  by (auto simp: lh_shape_def bucket_of_def kMinNumBuckets_def)

lemma only_bucket:
  assumes "lh_shape lh" and "b \<noteq> bucket_of lh h" and "b < length (lh_buckets lh)" and "e \<in> set (lh_buckets lh ! b)"
  shows "it_hash e \<noteq> h"
  using assms by (auto simp: lh_shape_def placed_def bucket_of_def)

lemma chain_search:
  assumes s: "lh_shape lh" and P: "\<And>e. e \<in> set (lh_items lh) \<Longrightarrow> P e \<Longrightarrow> it_hash e = h"
  defines "b \<equiv> bucket_of lh h" and "k \<equiv> chain_pos P (lh_buckets lh ! bucket_of lh h)"
  shows "case deref lh (b, k) of
      Some e \<Rightarrow> k < length (lh_buckets lh ! b) \<and> e = lh_buckets lh ! b ! k \<and> P e \<and> e \<in> set (lh_items lh)
    | None \<Rightarrow> k = length (lh_buckets lh ! b) \<and> (\<forall>e\<in>set (lh_items lh). \<not> P e)"
proof -
  have b: "b < length (lh_buckets lh)" unfolding b_def by (rule bucket_less [OF s])
  show ?thesis
  proof (cases "k < length (lh_buckets lh ! b)")
    case True
    then have "P (lh_buckets lh ! b ! k)"
      using chain_pos_cases [of P "lh_buckets lh ! b"] unfolding k_def b_def by auto
    moreover have "lh_buckets lh ! b ! k \<in> set (lh_items lh)"
      using True b unfolding lh_items_def by (auto intro!: bexI [of _ "lh_buckets lh ! b"])
    ultimately show ?thesis using True by (simp add: deref_def Let_def)
  next
    case False
    then have k: "k = length (lh_buckets lh ! b)" and n: "\<forall>e\<in>set (lh_buckets lh ! b). \<not> P e"
      using chain_pos_cases [of P "lh_buckets lh ! b"] unfolding k_def b_def by auto
    have "\<not> P e" if e: "e \<in> set (lh_items lh)" for e
    proof
      assume p: "P e"
      obtain c where c: "c < length (lh_buckets lh)" "e \<in> set (lh_buckets lh ! c)"
        using e unfolding lh_items_def by (auto simp: in_set_conv_nth [of _ "lh_buckets lh"])
      then have "c = bucket_of lh h" using only_bucket [OF s _ c] P [OF e p] by blast
      then show False using n p c by (simp add: b_def)
    qed
    then show ?thesis using k by (simp add: deref_def Let_def)
  qed
qed

lemma next_ptr_cases:
  assumes ok: "lh_ok call_hash call_cmp lh" and h: "hashing (call_hash (lh_hash lh)) (call_cmp (lh_comp lh))"
  obtains
    (found) b k e where "get_next_ptr_and_hash lh x call_hash call_cmp = ((b, k), call_hash (lh_hash lh) x)"
      and "deref lh (b, k) = Some e" and "b < length (lh_buckets lh)" and "k < length (lh_buckets lh ! b)"
      and "e = lh_buckets lh ! b ! k" and "call_cmp (lh_comp lh) (it_data e) x = 0"
      and "lh_map call_cmp lh x = Some (it_data e)"
  | (absent) b k where "get_next_ptr_and_hash lh x call_hash call_cmp = ((b, k), call_hash (lh_hash lh) x)"
      and "deref lh (b, k) = None" and "b = bucket_of lh (call_hash (lh_hash lh) x)" and "b < length (lh_buckets lh)"
      and "lh_map call_cmp lh x = None"
proof -
  let ?c = "call_cmp (lh_comp lh)" and ?h = "call_hash (lh_hash lh)"
  have s: "lh_shape lh" and i: "items_ok ?h ?c (lh_items lh)" using ok by (simp_all add: lh_ok_def)
  let ?b = "bucket_of lh (?h x)" and ?P = "\<lambda>cur. ?c (it_data cur) x = 0"
  let ?k = "chain_pos ?P (lh_buckets lh ! ?b)"
  have g: "get_next_ptr_and_hash lh x call_hash call_cmp = ((?b, ?k), ?h x)"
    by (simp add: get_next_ptr_and_hash_def Let_def)
  have "it_hash e = ?h x" if "e \<in> set (lh_items lh)" "?P e" for e
    using that i hashing.eq_hash [OF h] unfolding items_ok_def by metis
  note f = chain_search [OF s, where P = ?P, OF this]
  note b = bucket_less [OF s, of "?h x"]
  show thesis
  proof (cases "deref lh (?b, ?k)")
    case None
    then have "lh_map call_cmp lh x = None" using f by (auto simp: lh_map_def items_map_None_iff)
    then show thesis using absent [OF g None refl b] by simp
  next
    case (Some e)
    then have "lh_map call_cmp lh x = Some (it_data e)"
      using f hashing.items_map_Some_iff [OF h i] by (auto simp: lh_map_def)
    moreover have "?k < length (lh_buckets lh ! ?b)" "e = lh_buckets lh ! ?b ! ?k" "?c (it_data e) x = 0"
      using f unfolding Some option.case by blast+
    ultimately show thesis by (intro found [OF g Some b])
  qed
qed

section \<open>Changing a table\<close>

lemma lh_resized:
  assumes "lh_ok call_hash call_cmp lh" and "hashing (call_hash (lh_hash lh)) (call_cmp (lh_comp lh))"
  shows "lh_ok call_hash call_cmp (lh_maybe_resize mal lh)"
    and "lh_map call_cmp (lh_maybe_resize mal lh) = lh_map call_cmp lh"
    and "lh_num_items (lh_maybe_resize mal lh) = lh_num_items lh"
    and "lh_comp (lh_maybe_resize mal lh) = lh_comp lh" and "lh_hash (lh_maybe_resize mal lh) = lh_hash lh"
proof -
  have s: "lh_shape lh" and i: "items_ok (call_hash (lh_hash lh)) (call_cmp (lh_comp lh)) (lh_items lh)"
    using assms(1) by (simp_all add: lh_ok_def)
  note m = lh_maybe_resize_ok [OF s, of mal]
  show "lh_ok call_hash call_cmp (lh_maybe_resize mal lh)"
    using m hashing.items_ok_perm [OF assms(2) i m(2) [symmetric]] by (simp add: lh_ok_def)
  show "lh_map call_cmp (lh_maybe_resize mal lh) = lh_map call_cmp lh"
    using m hashing.items_map_perm [OF assms(2) i m(2) [symmetric]] by (auto simp: lh_map_def)
qed (use assms(1) lh_maybe_resize_ok in \<open>auto simp: lh_ok_def\<close>)

text \<open>The three ways a table is changed before it is resized.\<close>

lemma lh_replace_ok:
  assumes ok: "lh_ok call_hash call_cmp lh" and h: "hashing (call_hash (lh_hash lh)) (call_cmp (lh_comp lh))"
    and b: "b < length (lh_buckets lh)" "k < length (lh_buckets lh ! b)"
    and e: "e = lh_buckets lh ! b ! k" "call_cmp (lh_comp lh) (it_data e) d = 0" and d: "d \<noteq> 0"
  defines "lh' \<equiv> lh\<lparr>lh_buckets := (lh_buckets lh)[b := (lh_buckets lh ! b)[k := e\<lparr>it_data := d\<rparr>]]\<rparr>"
  shows "lh_ok call_hash call_cmp lh'"
    and "lh_map call_cmp lh' = (\<lambda>x. if call_cmp (lh_comp lh) d x = 0 then Some d else lh_map call_cmp lh x)"
proof -
  let ?c = "call_cmp (lh_comp lh)" and ?h = "call_hash (lh_hash lh)"
  define R where "R = concat ((lh_buckets lh)[b := take k (lh_buckets lh ! b) @ drop (k + 1) (lh_buckets lh ! b)])"
  have s: "lh_shape lh" and i: "items_ok ?h ?c (lh_items lh)" using ok by (simp_all add: lh_ok_def)
  note f = table_focus [OF b, folded R_def, folded e(1)]
  have m: "mset (lh_items lh) = mset (e # R)" using f(1) by (simp only: lh_items_def)
  have i': "items_ok ?h ?c (e # R)" by (rule hashing.items_ok_perm [OF h i m])
  have n: "mset (lh_items lh') = mset (e\<lparr>it_data := d\<rparr> # R)" using f(2) by (simp add: lh'_def lh_items_def)
  have in': "items_ok ?h ?c (e\<lparr>it_data := d\<rparr> # R)" by (rule hashing.items_ok_replace [OF h i' e(2) d])
  have "length (lh_items lh') = length (lh_items lh)"
    using n f(1) by (metis lh_items_def length_Cons size_mset)
  moreover have "placed (lh_num_buckets lh) (lh_buckets lh')"
    using placed_replace [OF _ b, of "lh_num_buckets lh" "e\<lparr>it_data := d\<rparr>"] s e(1)
    by (simp add: lh'_def lh_shape_def)
  ultimately show "lh_ok call_hash call_cmp lh'"
    using s hashing.items_ok_perm [OF h in' n [symmetric]] by (simp add: lh_ok_def lh_shape_def lh'_def)
  show "lh_map call_cmp lh' = (\<lambda>x. if ?c d x = 0 then Some d else lh_map call_cmp lh x)"
  proof
    fix x
    have "lh_map call_cmp lh' x = items_map ?c (e\<lparr>it_data := d\<rparr> # R) x"
      using hashing.items_map_perm [OF h in' n [symmetric]] by (simp add: lh_map_def lh'_def)
    also have "\<dots> = (if ?c d x = 0 then Some d else items_map ?c (e # R) x)"
      by (rule hashing.items_map_replace [OF h i' e(2)])
    also have "items_map ?c (e # R) x = lh_map call_cmp lh x"
      unfolding lh_map_def by (rule hashing.items_map_perm [OF h i m])
    finally show "lh_map call_cmp lh' x = (if ?c d x = 0 then Some d else lh_map call_cmp lh x)" .
  qed
qed

lemma lh_append_ok:
  assumes ok: "lh_ok call_hash call_cmp lh" and h: "hashing (call_hash (lh_hash lh)) (call_cmp (lh_comp lh))"
    and b: "b = bucket_of lh (call_hash (lh_hash lh) d)" and n: "lh_map call_cmp lh d = None" and d: "d \<noteq> 0"
  defines "lh' \<equiv> lh\<lparr>lh_buckets := (lh_buckets lh)[b := lh_buckets lh ! b @ [\<lparr>it_data = d, it_hash = call_hash (lh_hash lh) d\<rparr>]],
      lh_num_items := lh_num_items lh + 1\<rparr>"
  shows "lh_ok call_hash call_cmp lh'"
    and "lh_map call_cmp lh' = (\<lambda>x. if call_cmp (lh_comp lh) d x = 0 then Some d else lh_map call_cmp lh x)"
proof -
  let ?c = "call_cmp (lh_comp lh)" and ?h = "call_hash (lh_hash lh)"
  define e where "e = \<lparr>it_data = d, it_hash = ?h d\<rparr>"
  have s: "lh_shape lh" and i: "items_ok ?h ?c (lh_items lh)" using ok by (simp_all add: lh_ok_def)
  have bl: "b < length (lh_buckets lh)" unfolding b by (rule bucket_less [OF s])
  have m: "mset (e # lh_items lh) = mset (lh_items lh')"
    using mset_concat_update [OF bl, of "lh_buckets lh ! b @ [e]"] by (simp add: lh'_def lh_items_def e_def)
  have i': "items_ok ?h ?c (e # lh_items lh)"
    unfolding hashing.items_ok_Cons [OF h] using i n d by (simp add: e_def lh_map_def)
  have "length (lh_items lh') = length (lh_items lh) + 1"
    using m by (metis Suc_eq_plus1 length_Cons size_mset)
  moreover have "placed (lh_num_buckets lh) (lh_buckets lh')"
  proof -
    have "placed (lh_num_buckets lh) ((lh_buckets lh)[b := lh_buckets lh ! b @ [e]])"
      using s bl b by (intro placed_update) (auto simp: lh_shape_def placed_def e_def bucket_of_def)
    then show ?thesis by (simp add: lh'_def e_def)
  qed
  ultimately show "lh_ok call_hash call_cmp lh'"
    using s hashing.items_ok_perm [OF h i' m] by (simp add: lh_ok_def lh_shape_def lh'_def)
  show "lh_map call_cmp lh' = (\<lambda>x. if ?c d x = 0 then Some d else lh_map call_cmp lh x)"
  proof
    fix x
    have "lh_map call_cmp lh' x = items_map ?c (lh_items lh') x" by (simp add: lh_map_def lh'_def)
    also have "\<dots> = items_map ?c (e # lh_items lh) x" by (rule hashing.items_map_perm [OF h i' m])
    finally show "lh_map call_cmp lh' x = (if ?c d x = 0 then Some d else lh_map call_cmp lh x)"
      by (simp add: e_def lh_map_def)
  qed
qed

text \<open>A new table, and one that cannot be made.\<close>

lemma lh_new_ok:
  assumes "OPENSSL_lh_new mal hash_fn cmp_fn = (Some lh, freed)"
  shows "lh_ok call_hash call_cmp lh" and "lh_map call_cmp lh = (\<lambda>x. None)" and "freed = []"
proof -
  have lh: "lh = \<lparr>lh_num_items = 0, lh_buckets = replicate kMinNumBuckets [], lh_num_buckets = kMinNumBuckets,
      lh_callback_depth = 0, lh_comp = cmp_fn, lh_hash = hash_fn\<rparr>" and f: "freed = []"
    using assms by (auto simp: OPENSSL_lh_new_def split: option.splits)
  have "lh_items lh = []" by (simp add: lh lh_items_def)
  then show "lh_ok call_hash call_cmp lh" "lh_map call_cmp lh = (\<lambda>x. None)" "freed = []"
    by (simp_all add: lh_ok_def lh_shape_def lh_map_def items_ok_def placed_def lh f fun_eq_iff)
qed

lemma lh_new_frees:
  assumes "OPENSSL_lh_new mal hash_fn cmp_fn = (None, freed)"
  shows "freed = (case OPENSSL_zalloc mal SIZEOF_LHASH of None \<Rightarrow> [] | Some ret \<Rightarrow> [OPENSSL_free (Some ret)])"
  using assms by (auto simp: OPENSSL_lh_new_def split: option.splits)

text \<open>\<open>num_items--\<close> does not wrap when there is an item.\<close>

lemma count_down: "0 < n \<Longrightarrow> n < SIZE_MOD \<Longrightarrow> (n + SIZE_MOD - 1) mod SIZE_MOD = n - 1"
  by (simp add: mod_if)

lemma lh_remove_ok:
  assumes ok: "lh_ok call_hash call_cmp lh" and h: "hashing (call_hash (lh_hash lh)) (call_cmp (lh_comp lh))"
    and b: "b < length (lh_buckets lh)" "k < length (lh_buckets lh ! b)"
    and e: "e = lh_buckets lh ! b ! k" "call_cmp (lh_comp lh) (it_data e) d = 0"
  defines "lh' \<equiv> lh\<lparr>lh_buckets := (lh_buckets lh)[b := take k (lh_buckets lh ! b) @ drop (k + 1) (lh_buckets lh ! b)],
      lh_num_items := (lh_num_items lh + SIZE_MOD - 1) mod SIZE_MOD\<rparr>"
  shows "lh_ok call_hash call_cmp lh'"
    and "lh_map call_cmp lh' = (\<lambda>x. if call_cmp (lh_comp lh) d x = 0 then None else lh_map call_cmp lh x)"
    and "lh_num_items lh = lh_num_items lh' + 1"
proof -
  let ?c = "call_cmp (lh_comp lh)" and ?h = "call_hash (lh_hash lh)"
  have s: "lh_shape lh" and i: "items_ok ?h ?c (lh_items lh)" using ok by (simp_all add: lh_ok_def)
  have m: "mset (lh_items lh) = mset (e # lh_items lh')"
    using table_focus(1) [OF b] unfolding e(1) lh_items_def lh'_def by simp
  have i': "items_ok ?h ?c (e # lh_items lh')" by (rule hashing.items_ok_perm [OF h i m])
  then have in': "items_ok ?h ?c (lh_items lh')" unfolding hashing.items_ok_Cons [OF h] by simp
  have l: "length (lh_items lh) = length (lh_items lh') + 1"
    using m by (metis Suc_eq_plus1 length_Cons size_mset)
  then have n: "0 < lh_num_items lh" "lh_num_items lh < SIZE_MOD"
    using s hashing.items_count [OF h i] by (simp_all add: lh_shape_def)
  then have n': "lh_num_items lh' = lh_num_items lh - 1" using count_down [OF n] by (simp add: lh'_def)
  then show "lh_num_items lh = lh_num_items lh' + 1" using n by simp
  have "placed (lh_num_buckets lh) (lh_buckets lh')"
    using placed_focus [OF _ b(1)] s by (simp add: lh'_def lh_shape_def)
  moreover have "lh_num_buckets lh' = lh_num_buckets lh" "length (lh_buckets lh') = length (lh_buckets lh)"
    "lh_comp lh' = lh_comp lh" "lh_hash lh' = lh_hash lh" "lh_num_items lh' = lh_num_items lh - 1"
    using n' by (simp_all add: lh'_def)
  moreover have "lh_num_items lh = length (lh_items lh)" using s by (simp add: lh_shape_def)
  ultimately show "lh_ok call_hash call_cmp lh'"
    using s in' l unfolding lh_ok_def lh_shape_def by simp
  show "lh_map call_cmp lh' = (\<lambda>x. if ?c d x = 0 then None else lh_map call_cmp lh x)"
  proof
    fix x
    have "lh_map call_cmp lh' x = items_map ?c (lh_items lh') x" by (simp add: lh_map_def lh'_def)
    also have "\<dots> = (if ?c d x = 0 then None else items_map ?c (e # lh_items lh') x)"
      by (rule hashing.items_map_remove [OF h i' e(2)])
    also have "items_map ?c (e # lh_items lh') x = lh_map call_cmp lh x"
      unfolding lh_map_def by (rule hashing.items_map_perm [OF h i m])
    finally show "lh_map call_cmp lh' x = (if ?c d x = 0 then None else lh_map call_cmp lh x)" .
  qed
qed

section \<open>An example\<close>

text \<open>Tables of one-byte strings, for the witnesses: an empty one and one that holds \<open>d\<close>.\<close>

definition example_hash :: "ptr \<Rightarrow> ptr \<Rightarrow> u32" where
  "example_hash c p = OPENSSL_hash32 [ucast p]"

definition example_table :: "LHASH_ITEM list list \<Rightarrow> nat \<Rightarrow> LHASH" where
  "example_table bs n =
     \<lparr>lh_num_items = n, lh_buckets = bs, lh_num_buckets = 16, lh_callback_depth = 0, lh_comp = 1, lh_hash = 1\<rparr>"

definition example_lh :: "ptr \<Rightarrow> LHASH" where
  "example_lh d =
     (let b = unat (example_hash 1 d) mod 16
      in example_table ((replicate 16 []) [b := [\<lparr>it_data = d, it_hash = example_hash 1 d\<rparr>]]) 1)"

lemma example_hashing: "hashing (example_hash c) (example_order c')"
  unfolding example_hash_def example_order_def by (rule byte_strings.hashing_axioms)

lemma example_lh_hashing: "hashing (example_hash (lh_hash (example_lh d))) (example_order (lh_comp (example_lh d)))"
  by (rule example_hashing)

lemma example_lh_ok:
  assumes "d \<noteq> 0"
  shows "lh_ok example_hash example_order (example_lh d)"
proof -
  let ?e = "example_table (replicate 16 []) 0"
  have e: "lh_ok example_hash example_order ?e"
    by (simp add: example_table_def lh_ok_def lh_shape_def lh_items_def placed_def kMinNumBuckets_def items_ok_def)
  have m: "lh_map example_order ?e d = None"
    by (simp add: example_table_def lh_map_def lh_items_def)
  have b: "bucket_of ?e (example_hash (lh_hash ?e) d) = unat (example_hash 1 d) mod 16"
    by (simp add: example_table_def bucket_of_def)
  have "lh_ok example_hash example_order (?e\<lparr>lh_buckets := (lh_buckets ?e)
      [unat (example_hash 1 d) mod 16 := lh_buckets ?e ! (unat (example_hash 1 d) mod 16) @
         [\<lparr>it_data = d, it_hash = example_hash (lh_hash ?e) d\<rparr>]], lh_num_items := lh_num_items ?e + 1\<rparr>)"
    by (rule lh_append_ok(1) [OF e example_hashing b [symmetric] m assms])
  then show ?thesis by (simp add: example_lh_def example_table_def Let_def)
qed

section \<open>Retrieval\<close>

text \<open>
  \<open>OPENSSL_lh_retrieve\<close> returns the stored element equal to the one given, \<open>NULL\<close> if there is none, and
  \<open>OPENSSL_lh_retrieve_key\<close> does the same for a key of another type whose hash and comparison agree with
  those of an element: looking at one chain is enough.
\<close>

theorem OPENSSL_lh_retrieve_exact:
  assumes "lh_ok call_hash call_cmp lh" and "hashing (call_hash (lh_hash lh)) (call_cmp (lh_comp lh))"
    and "\<And>v. cmp_key key v = 0 \<longleftrightarrow> call_cmp (lh_comp lh) v x = 0" and "key_hash = call_hash (lh_hash lh) x"
  shows "OPENSSL_lh_retrieve lh x call_hash call_cmp = (case lh_map call_cmp lh x of None \<Rightarrow> 0 | Some d \<Rightarrow> d)
    \<and> OPENSSL_lh_retrieve_key lh key key_hash cmp_key = (case lh_map call_cmp lh x of None \<Rightarrow> 0 | Some d \<Rightarrow> d)"
proof -
  have r: "OPENSSL_lh_retrieve lh x call_hash call_cmp = (case lh_map call_cmp lh x of None \<Rightarrow> 0 | Some d \<Rightarrow> d)"
    using assms(1,2) by (rule next_ptr_cases [where x = x]) (simp_all add: OPENSSL_lh_retrieve_def)
  have "get_next_ptr_by_key lh key key_hash cmp_key = fst (get_next_ptr_and_hash lh x call_hash call_cmp)"
    using assms(3,4) by (simp add: get_next_ptr_by_key_def get_next_ptr_and_hash_def Let_def)
  then have "OPENSSL_lh_retrieve_key lh key key_hash cmp_key = OPENSSL_lh_retrieve lh x call_hash call_cmp"
    by (simp add: OPENSSL_lh_retrieve_key_def OPENSSL_lh_retrieve_def)
  then show ?thesis using r by simp
qed

theorem OPENSSL_lh_retrieve_exact_witness:
  "OPENSSL_lh_retrieve (example_lh 5) 5 example_hash example_order =
      (case lh_map example_order (example_lh 5) 5 of None \<Rightarrow> 0 | Some d \<Rightarrow> d)
    \<and> OPENSSL_lh_retrieve_key (example_lh 5) 9 (example_hash (lh_hash (example_lh 5)) 5)
        (\<lambda>key v. example_order (lh_comp (example_lh 5)) v 5) =
      (case lh_map example_order (example_lh 5) 5 of None \<Rightarrow> 0 | Some d \<Rightarrow> d)"
  by (rule OPENSSL_lh_retrieve_exact [OF example_lh_ok example_lh_hashing]) simp_all

section \<open>The operations\<close>

text \<open>
  (C7) \<open>OPENSSL_lh_insert\<close> refines the update of a finite map: on success exactly the elements equal to the new
  one are now found as it, \<open>*old_data\<close> is what was found before or \<open>NULL\<close>, and the count is right; it
  fails only for a new element whose item cannot be allocated, and then the table is unchanged. A
  resize that fails or succeeds is not visible.
\<close>

theorem OPENSSL_lh_insert_refines:
  assumes ok: "lh_ok call_hash call_cmp lh" and h: "hashing (call_hash (lh_hash lh)) (call_cmp (lh_comp lh))"
    and d: "d \<noteq> 0" and n: "lh_num_items lh + 1 < SIZE_MOD"
    and r: "OPENSSL_lh_insert mal lh d call_hash call_cmp = ((success, old), lh')"
  shows "if success
    then lh_ok call_hash call_cmp lh' \<and> lh_comp lh' = lh_comp lh \<and> lh_hash lh' = lh_hash lh \<and>
      old = (case lh_map call_cmp lh d of None \<Rightarrow> 0 | Some e \<Rightarrow> e) \<and>
      lh_map call_cmp lh' = (\<lambda>x. if call_cmp (lh_comp lh) d x = 0 then Some d else lh_map call_cmp lh x) \<and>
      OPENSSL_lh_num_items lh' = (if lh_map call_cmp lh d = None then lh_num_items lh + 1 else lh_num_items lh)
    else lh' = lh \<and> old = 0 \<and> lh_map call_cmp lh d = None \<and> OPENSSL_malloc mal SIZEOF_LHASH_ITEM = None"
  using ok h
proof (rule next_ptr_cases [where x = d])
  fix b k e
  assume g: "get_next_ptr_and_hash lh d call_hash call_cmp = ((b, k), call_hash (lh_hash lh) d)"
    and e: "deref lh (b, k) = Some e" and b: "b < length (lh_buckets lh)" "k < length (lh_buckets lh ! b)"
    and c: "e = lh_buckets lh ! b ! k" "call_cmp (lh_comp lh) (it_data e) d = 0"
    and m: "lh_map call_cmp lh d = Some (it_data e)"
  have "success" "old = it_data e"
    "lh' = lh\<lparr>lh_buckets := (lh_buckets lh)[b := (lh_buckets lh ! b)[k := e\<lparr>it_data := d\<rparr>]]\<rparr>"
    using r by (simp_all add: OPENSSL_lh_insert_def g e)
  then show ?thesis using lh_replace_ok [OF ok h b c d] m by (simp add: OPENSSL_lh_num_items_def)
next
  fix b k
  assume g: "get_next_ptr_and_hash lh d call_hash call_cmp = ((b, k), call_hash (lh_hash lh) d)"
    and e: "deref lh (b, k) = None" and b: "b = bucket_of lh (call_hash (lh_hash lh) d)" "b < length (lh_buckets lh)"
    and m: "lh_map call_cmp lh d = None"
  let ?lh = "lh\<lparr>lh_buckets := (lh_buckets lh)[b := lh_buckets lh ! b @ [\<lparr>it_data = d, it_hash = call_hash (lh_hash lh) d\<rparr>]],
      lh_num_items := lh_num_items lh + 1\<rparr>"
  note a = lh_append_ok [OF ok h b(1) m d]
  show ?thesis
  proof (cases "OPENSSL_malloc mal SIZEOF_LHASH_ITEM")
    case None
    then show ?thesis using r m by (auto simp: OPENSSL_lh_insert_def g e)
  next
    case (Some blk)
    then have "success" "old = 0" "lh' = lh_maybe_resize mal ?lh"
      using r n by (simp_all add: OPENSSL_lh_insert_def g e size_add_small)
    then show ?thesis using lh_resized [OF a(1), of mal] a(2) h m by (simp add: OPENSSL_lh_num_items_def)
  qed
qed

theorem OPENSSL_lh_insert_refines_witness:
  "\<exists>success old lh'. OPENSSL_lh_insert zero_malloc (example_lh 5) 6 example_hash example_order = ((success, old), lh') \<and>
    (if success
    then lh_ok example_hash example_order lh' \<and> lh_comp lh' = lh_comp (example_lh 5) \<and> lh_hash lh' = lh_hash (example_lh 5) \<and>
      old = (case lh_map example_order (example_lh 5) 6 of None \<Rightarrow> 0 | Some e \<Rightarrow> e) \<and>
      lh_map example_order lh' =
        (\<lambda>x. if example_order (lh_comp (example_lh 5)) 6 x = 0 then Some 6 else lh_map example_order (example_lh 5) x) \<and>
      OPENSSL_lh_num_items lh' =
        (if lh_map example_order (example_lh 5) 6 = None then lh_num_items (example_lh 5) + 1 else lh_num_items (example_lh 5))
    else lh' = example_lh 5 \<and> old = 0 \<and> lh_map example_order (example_lh 5) 6 = None \<and>
      OPENSSL_malloc zero_malloc SIZEOF_LHASH_ITEM = None)"
proof -
  obtain success old lh' where r: "OPENSSL_lh_insert zero_malloc (example_lh 5) 6 example_hash example_order = ((success, old), lh')"
    by (metis prod.exhaust)
  have "lh_num_items (example_lh 5) + 1 < SIZE_MOD"
    by (simp add: example_lh_def example_table_def SIZE_MOD_def Let_def)
  from OPENSSL_lh_insert_refines [OF example_lh_ok example_lh_hashing _ this r] r show ?thesis by auto
qed

section \<open>Deletion\<close>

text \<open>
  (C28) \<open>OPENSSL_lh_delete\<close> refines deletion from a finite map: it returns the stored element equal to the one
  given, which is found no longer, or \<open>NULL\<close> and the table as it was; the count never wraps.
\<close>

theorem OPENSSL_lh_delete_refines:
  assumes ok: "lh_ok call_hash call_cmp lh" and h: "hashing (call_hash (lh_hash lh)) (call_cmp (lh_comp lh))"
    and r: "OPENSSL_lh_delete mal lh d call_hash call_cmp = (old, lh')"
  shows "lh_ok call_hash call_cmp lh' \<and> lh_comp lh' = lh_comp lh \<and> lh_hash lh' = lh_hash lh \<and>
    old = (case lh_map call_cmp lh d of None \<Rightarrow> 0 | Some e \<Rightarrow> e) \<and>
    lh_map call_cmp lh' = (\<lambda>x. if call_cmp (lh_comp lh) d x = 0 then None else lh_map call_cmp lh x) \<and>
    lh_num_items lh = (if lh_map call_cmp lh d = None then OPENSSL_lh_num_items lh' else OPENSSL_lh_num_items lh' + 1)"
  using ok h
proof (rule next_ptr_cases [where x = d])
  fix b k e
  assume g: "get_next_ptr_and_hash lh d call_hash call_cmp = ((b, k), call_hash (lh_hash lh) d)"
    and e: "deref lh (b, k) = Some e" and b: "b < length (lh_buckets lh)" "k < length (lh_buckets lh ! b)"
    and c: "e = lh_buckets lh ! b ! k" "call_cmp (lh_comp lh) (it_data e) d = 0"
    and m: "lh_map call_cmp lh d = Some (it_data e)"
  note x = lh_remove_ok [OF ok h b c]
  have "old = it_data e" "lh' = lh_maybe_resize mal (lh\<lparr>lh_buckets :=
      (lh_buckets lh)[b := take k (lh_buckets lh ! b) @ drop (k + 1) (lh_buckets lh ! b)],
      lh_num_items := (lh_num_items lh + SIZE_MOD - 1) mod SIZE_MOD\<rparr>)"
    using r by (simp_all add: OPENSSL_lh_delete_def Let_def g e)
  then show ?thesis using lh_resized [OF x(1), of mal] x(2,3) h m by (simp add: OPENSSL_lh_num_items_def)
next
  fix b k
  assume g: "get_next_ptr_and_hash lh d call_hash call_cmp = ((b, k), call_hash (lh_hash lh) d)"
    and e: "deref lh (b, k) = None" and m: "lh_map call_cmp lh d = None"
  have "lh_map call_cmp lh x = None" if "call_cmp (lh_comp lh) d x = 0" for x
    using m hashing.items_map_equal [OF h that] by (simp add: lh_map_def)
  then show ?thesis using r ok m by (auto simp: OPENSSL_lh_delete_def Let_def g e OPENSSL_lh_num_items_def fun_eq_iff)
qed

theorem OPENSSL_lh_delete_refines_witness:
  "\<exists>old lh'. OPENSSL_lh_delete zero_malloc (example_lh 5) 5 example_hash example_order = (old, lh') \<and>
    lh_ok example_hash example_order lh' \<and> lh_comp lh' = lh_comp (example_lh 5) \<and> lh_hash lh' = lh_hash (example_lh 5) \<and>
    old = (case lh_map example_order (example_lh 5) 5 of None \<Rightarrow> 0 | Some e \<Rightarrow> e) \<and>
    lh_map example_order lh' =
      (\<lambda>x. if example_order (lh_comp (example_lh 5)) 5 x = 0 then None else lh_map example_order (example_lh 5) x) \<and>
    lh_num_items (example_lh 5) =
      (if lh_map example_order (example_lh 5) 5 = None then OPENSSL_lh_num_items lh' else OPENSSL_lh_num_items lh' + 1)"
proof -
  obtain old lh' where r: "OPENSSL_lh_delete zero_malloc (example_lh 5) 5 example_hash example_order = (old, lh')"
    by (metis prod.exhaust)
  have "(5 :: ptr) \<noteq> 0" by simp
  from OPENSSL_lh_delete_refines [OF example_lh_ok [OF this] example_lh_hashing r] r show ?thesis by blast
qed

section \<open>The number of buckets\<close>

text \<open>Chains have fewer than three items on average, and a table above the smallest size has no more buckets than items.\<close>

definition lh_load_ok :: "LHASH \<Rightarrow> bool" where
  "lh_load_ok lh \<longleftrightarrow>
     kMinNumBuckets \<le> lh_num_buckets lh \<and> lh_num_items lh < 3 * lh_num_buckets lh \<and>
     (lh_num_buckets lh = kMinNumBuckets \<or> lh_num_buckets lh \<le> lh_num_items lh)"

lemma zalloc_total:
  assumes "\<And>k. mal k \<noteq> None" and "n + 8 < SIZE_MOD"
  shows "OPENSSL_zalloc mal n \<noteq> None"
  using assms(1) [of "n + 8"] assms(2)
  by (auto simp: OPENSSL_zalloc_def OPENSSL_malloc_def size_add_small OPENSSL_MALLOC_PREFIX_def split: option.split)

lemma lh_rebucket_succeeds:
  assumes "\<And>k. mal k \<noteq> None" and "8 * n + 8 < SIZE_MOD"
  shows "lh_num_buckets (lh_rebucket mal lh n) = n" and "lh_num_items (lh_rebucket mal lh n) = lh_num_items lh"
proof -
  have e: "SIZEOF_PTR * n mod SIZE_MOD = 8 * n" using assms(2) by (simp add: SIZEOF_PTR_def)
  obtain blk where "OPENSSL_zalloc mal (8 * n) = Some blk" using zalloc_total [of mal "8 * n", OF assms] by blast
  then show "lh_num_buckets (lh_rebucket mal lh n) = n" "lh_num_items (lh_rebucket mal lh n) = lh_num_items lh"
    unfolding lh_rebucket_def e by (simp_all add: SIZEOF_PTR_def)
qed

lemma lh_maybe_resize_load:
  assumes "\<And>k. mal k \<noteq> None" and "16 * lh_num_buckets lh + 8 < SIZE_MOD" and "lh_callback_depth lh = 0"
    and k: "kMinNumBuckets \<le> lh_num_buckets lh" and "lh_num_items lh \<le> 3 * lh_num_buckets lh"
    and "lh_num_buckets lh = kMinNumBuckets \<or> lh_num_buckets lh \<le> lh_num_items lh + 1"
  shows "lh_load_ok (lh_maybe_resize mal lh)"
proof -
  let ?n = "lh_num_items lh" and ?b = "lh_num_buckets lh"
  have b: "16 \<le> ?b" "0 < ?b" using k by (simp_all add: kMinNumBuckets_def)
  have gt: "?n div ?b > 2 \<longleftrightarrow> 3 * ?b \<le> ?n"
    using b less_eq_div_iff_mult_less_eq [of ?b 3 ?n] by (simp add: Suc_le_eq [symmetric] eval_nat_numeral)
  have lt: "?n div ?b < 1 \<longleftrightarrow> ?n < ?b" using b by (simp add: div_eq_0_iff)
  note r = lh_rebucket_succeeds [OF assms(1)]
  consider (up) "3 * ?b \<le> ?n" | (down) "?n < ?b" "kMinNumBuckets < ?b" | (stay) "?n < 3 * ?b" "?b \<le> ?n \<or> ?b \<le> kMinNumBuckets"
    by linarith
  then show ?thesis
  proof cases
    case up
    have m: "?b * 2 mod SIZE_MOD = ?b * 2" using assms(2) by simp
    have e: "lh_maybe_resize mal lh = lh_rebucket mal lh (?b * 2)"
      unfolding lh_maybe_resize_def Let_def kMaxAverageChainLength_def gt m using up assms(3) b by simp
    have "8 * (?b * 2) + 8 < SIZE_MOD" using assms(2) by simp
    then show ?thesis using r up assms(5) b unfolding e lh_load_ok_def by (simp add: kMinNumBuckets_def)
  next
    case down
    define n' where "n' = (if ?b div 2 < kMinNumBuckets then kMinNumBuckets else ?b div 2)"
    have e: "lh_maybe_resize mal lh = lh_rebucket mal lh n'"
      unfolding lh_maybe_resize_def Let_def kMaxAverageChainLength_def kMinAverageChainLength_def gt lt n'_def
      using down assms(3) by simp
    have n: "n' \<le> ?b" "?n < 3 * n'" "n' = kMinNumBuckets \<or> n' \<le> ?n" "kMinNumBuckets \<le> n'"
      using down assms(6) by (auto simp: n'_def kMinNumBuckets_def)
    have "8 * n' + 8 < SIZE_MOD" using assms(2) n(1) by simp
    then show ?thesis using r n(2-) unfolding e lh_load_ok_def by simp
  next
    case stay
    then have "lh_maybe_resize mal lh = lh"
      unfolding lh_maybe_resize_def Let_def kMaxAverageChainLength_def kMinAverageChainLength_def gt lt by auto
    then show ?thesis using stay k by (auto simp: lh_load_ok_def)
  qed
qed

text \<open>
  (C32) As long as memory can be allocated and no iteration is going on, insertion and deletion keep the
  number of buckets of a table with a true count proportional to the number of items: there are fewer than three items to a
  bucket, and above the initial sixteen buckets at least one.
\<close>

theorem OPENSSL_lh_load_bounded:
  assumes "\<And>k. mal k \<noteq> None" and "16 * lh_num_buckets lh + 8 < SIZE_MOD" and "lh_callback_depth lh = 0"
    and "lh_shape lh" and l: "lh_load_ok lh"
  shows "lh_load_ok (snd (OPENSSL_lh_insert mal lh d call_hash call_cmp)) \<and>
    lh_load_ok (snd (OPENSSL_lh_delete mal lh d call_hash call_cmp))"
proof
  have s: "size_add (lh_num_items lh) 1 = lh_num_items lh + 1"
    using assms(2) l by (intro size_add_small) (auto simp: lh_load_ok_def)
  obtain b k h where g: "get_next_ptr_and_hash lh d call_hash call_cmp = ((b, k), h)"
    by (metis prod.exhaust)
  show "lh_load_ok (snd (OPENSSL_lh_insert mal lh d call_hash call_cmp))"
  proof (cases "deref lh (b, k)")
    case (Some e)
    then show ?thesis using l by (simp add: OPENSSL_lh_insert_def g lh_load_ok_def)
  next
    case None
    show ?thesis
    proof (cases "OPENSSL_malloc mal SIZEOF_LHASH_ITEM")
      case (Some blk)
      then show ?thesis using None assms l
        by (simp add: OPENSSL_lh_insert_def g s [simplified]) (rule lh_maybe_resize_load, auto simp: lh_load_ok_def)
    qed (use None l in \<open>simp add: OPENSSL_lh_insert_def g\<close>)
  qed
  show "lh_load_ok (snd (OPENSSL_lh_delete mal lh d call_hash call_cmp))"
  proof (cases "deref lh (b, k)")
    case (Some e)
    have "b = bucket_of lh h" using g by (auto simp: get_next_ptr_and_hash_def Let_def)
    moreover have "length (lh_buckets lh) = lh_num_buckets lh" "0 < lh_num_buckets lh"
      using assms(4) by (simp_all add: lh_shape_def kMinNumBuckets_def)
    ultimately have "b < length (lh_buckets lh)" by (simp add: bucket_of_def)
    moreover have "lh_buckets lh ! b \<noteq> []" using Some by (auto simp: deref_def Let_def split: if_splits)
    ultimately have "lh_items lh \<noteq> []" unfolding lh_items_def by (metis concat_eq_Nil_conv nth_mem)
    then have n: "0 < lh_num_items lh" using assms(4) by (simp add: lh_shape_def)
    have "lh_num_items lh < SIZE_MOD" using assms(2) l by (simp add: lh_load_ok_def)
    note c = count_down [OF n this]
    show ?thesis using assms l Some
      by (simp add: OPENSSL_lh_delete_def Let_def g c [simplified]) (rule lh_maybe_resize_load, auto simp: lh_load_ok_def)
  qed (use l in \<open>simp add: OPENSSL_lh_delete_def Let_def g\<close>)
qed

theorem OPENSSL_lh_load_bounded_witness:
  "lh_load_ok (snd (OPENSSL_lh_insert zero_malloc (example_lh 5) 6 example_hash example_order)) \<and>
   lh_load_ok (snd (OPENSSL_lh_delete zero_malloc (example_lh 5) 6 example_hash example_order))"
  using example_lh_ok [of 5]
  by (intro OPENSSL_lh_load_bounded)
    (simp_all add: lh_ok_def zero_malloc_def example_lh_def example_table_def SIZE_MOD_def Let_def lh_load_ok_def kMinNumBuckets_def)

section \<open>Iteration\<close>

lemma doall_chains_fold: "doall_chains f a bs w = fold (\<lambda>e. f (it_data e) a) (concat bs) w"
proof (induction bs arbitrary: w)
  case (Cons c bs)
  have "doall_chain f a c w = fold (\<lambda>e. f (it_data e) a) c w" for w by (induction c arbitrary: w) auto
  then show ?case using Cons by simp
qed simp

text \<open>
  \<open>OPENSSL_lh_doall_arg\<close> calls the function once for every item, in the order of the chains, before any
  resizing, which moves items but loses none; the depth counter is back where it was unless it is
  saturated.
\<close>

theorem OPENSSL_lh_doall_arg_visits_all:
  assumes ok: "lh_ok call_hash call_cmp lh" and h: "hashing (call_hash (lh_hash lh)) (call_cmp (lh_comp lh))"
  shows "case OPENSSL_lh_doall_arg mal (Some lh) func arg w of
      (None, w') \<Rightarrow> False
    | (Some lh', w') \<Rightarrow> w' = fold (\<lambda>e. func (it_data e) arg) (lh_items lh) w \<and>
        lh_ok call_hash call_cmp lh' \<and> lh_map call_cmp lh' = lh_map call_cmp lh \<and>
        lh_num_items lh' = lh_num_items lh \<and>
        lh_callback_depth lh' = (if lh_callback_depth lh = UINT_MAX - 1 then UINT_MAX else lh_callback_depth lh)"
proof -
  let ?d = "lh_callback_depth lh"
  have d: "(if (if ?d < UINT_MAX then ?d + 1 else ?d) < UINT_MAX then (if ?d < UINT_MAX then ?d + 1 else ?d) - 1
      else (if ?d < UINT_MAX then ?d + 1 else ?d)) = (if ?d = UINT_MAX - 1 then UINT_MAX else ?d)"
  proof -
    have u: "UINT_MAX = - 1" by (simp add: UINT_MAX_def)
    have m: "x \<le> UINT_MAX" for x :: u32 unfolding u by (rule word_n1_ge)
    show ?thesis using m [of ?d] m [of "?d + 1"] by (auto simp: less_le eq_diff_eq)
  qed
  define l where "l = lh\<lparr>lh_callback_depth := (if ?d = UINT_MAX - 1 then UINT_MAX else ?d)\<rparr>"
  have l: "lh_ok call_hash call_cmp l" "lh_map call_cmp l = lh_map call_cmp lh" "lh_num_items l = lh_num_items lh"
    "lh_hash l = lh_hash lh" "lh_comp l = lh_comp lh"
    using ok by (simp_all add: l_def lh_ok_def lh_shape_def lh_items_def lh_map_def)
  have s: "lh_shape l" using l(1) by (simp add: lh_ok_def)
  have "OPENSSL_lh_doall_arg mal (Some lh) func arg w =
      (Some (lh_maybe_resize mal l), fold (\<lambda>e. func (it_data e) arg) (lh_items lh) w)"
  proof -
    define x where "x = (if ?d < UINT_MAX then ?d + 1 else ?d)"
    have e: "(if ?d < UINT_MAX then lh\<lparr>lh_callback_depth := ?d + 1\<rparr> else lh) = lh\<lparr>lh_callback_depth := x\<rparr>"
      by (simp add: x_def)
    have f: "(if lh_callback_depth (lh\<lparr>lh_callback_depth := x\<rparr>) < UINT_MAX
        then lh\<lparr>lh_callback_depth := x\<rparr>\<lparr>lh_callback_depth := lh_callback_depth (lh\<lparr>lh_callback_depth := x\<rparr>) - 1\<rparr>
        else lh\<lparr>lh_callback_depth := x\<rparr>) = l"
      using d [folded x_def] by (simp add: l_def split: if_split_asm)
    show ?thesis
      unfolding OPENSSL_lh_doall_arg_def option.case Let_def e f by (simp add: doall_chains_fold lh_items_def)
  qed
  moreover have "lh_callback_depth (lh_maybe_resize mal l) = (if ?d = UINT_MAX - 1 then UINT_MAX else ?d)"
    using lh_maybe_resize_ok(6) [OF s, of mal] by (simp add: l_def)
  ultimately show ?thesis using lh_resized [OF l(1), of mal] h l by simp
qed

theorem OPENSSL_lh_doall_arg_visits_all_witness:
  "case OPENSSL_lh_doall_arg zero_malloc (Some (example_lh 5)) (\<lambda>p a w. p # w) 0 [] of
      (None, w') \<Rightarrow> False
    | (Some lh', w') \<Rightarrow> w' = fold (\<lambda>e. (\<lambda>p a w. p # w) (it_data e) (0 :: ptr)) (lh_items (example_lh 5)) [] \<and>
        lh_ok example_hash example_order lh' \<and> lh_map example_order lh' = lh_map example_order (example_lh 5) \<and>
        lh_num_items lh' = lh_num_items (example_lh 5) \<and>
        lh_callback_depth lh' =
          (if lh_callback_depth (example_lh 5) = UINT_MAX - 1 then UINT_MAX else lh_callback_depth (example_lh 5))"
  by (rule OPENSSL_lh_doall_arg_visits_all [OF example_lh_ok example_lh_hashing]) simp

end
