(* ===== verification/Spec2Isabelle.thy ===== *)
theory Spec2Isabelle
  imports Prelude Codec Cbs Cbs_Asn1 Cbs_Integer Cbb Cbb_Spec Cbb_Props Cbb_Errors Unicode Const_Time Base64
    Posix_Time Posix_Time_Props Cbs_Time Oid Set_Of Ber_Element Ber Ber_Props Ber_To_Der
    Pb_Encode Pb_Varint Pb_Emit Pb_Decode Pb_Read Pb_Wire Pb_Common Pb_Claims Pb_Memory Pb_Msg_Encode Pb_Msg_Wire Pb_Msg_Emit Pb_Msg_Claims Pb_Msg_Decode Pb_Msg_Safe Pb_Msg_Run Pb_Msg_Decode_Claims
    Pb_Msg_Value Pb_Msg_Copy Pb_Msg_Parts Pb_Msg_Blank Pb_Msg_Back Pb_Msg_Fields Pb_Msg_Loop Pb_Msg_Message Pb_Msg_Round_Trip
    Pb_Msg_Copy_Claims Pb_Msg_Errors
    Stack Stack_Sort Stack_Props Stack_Claims Lhash Lhash_Props Lhash_Claims
begin

text \<open>
  A verification development for the C code under \<open>daily-trivia/Pods\<close> that encodes and decodes what the
  application exchanges with its servers: the byte-string, ASN.1, base64, time and memory modules of
  BoringSSL (\<open>Pods/BoringSSL-GRPC/src/crypto\<close>) and nanopb (\<open>Pods/nanopb\<close>), the protocol buffer library
  of the Firebase clients. Everything is a shallow embedding; definitions keep the names of the C
  functions and follow their control flow, error paths included.

  Parts of the program and how they interact.

  \<^item> \<open>crypto/mem.c\<close> (\<open>Mem\<close>) wraps the C allocator, prefixing each block with its size, and holds the
    string helpers. \<open>crypto/internal.h\<close> (\<open>Mem\<close>, \<open>Const_Time\<close>) has the byte swaps, the guarded \<open>mem*\<close>
    functions and the branch-free selectors. The others allocate and copy through these.

  \<^item> \<open>crypto/bytestring/cbs.c\<close>, the reader CBS: fixed-width and length-prefixed values and decimals
    (\<open>Cbs\<close>); tags, DER and BER elements, optional values, bit strings, object identifiers
    (\<open>Cbs_Asn1\<close>); the INTEGER readers (\<open>Cbs_Integer\<close>); GeneralizedTime and UTCTime (\<open>Cbs_Time\<close>, on top of
    \<open>Posix_Time\<close>).

  \<^item> \<open>crypto/bytestring/cbb.c\<close>, the builder CBB (\<open>Cbb\<close>): a buffer that may grow and a chain of open
    children whose length prefixes are filled in when they are flushed. \<open>Oid\<close> has the object identifier
    writer and the text form, \<open>Set_Of\<close> the SET OF sorter.

  \<^item> \<open>crypto/bytestring/ber.c\<close> and \<open>asn1_compat.c\<close> (\<open>Ber\<close>) read BER with the parser of \<open>cbs.c\<close> and write DER
    with the builder of \<open>cbb.c\<close>.

  \<^item> \<open>crypto/bytestring/unicode.c\<close> (\<open>Unicode\<close>) reads code points from a CBS and writes them to a CBB.

  \<^item> \<open>crypto/base64/base64.c\<close> (\<open>Base64\<close>, with \<open>Const_Time\<close>) and \<open>crypto/asn1/posix_time.c\<close> (\<open>Posix_Time\<close>).

  \<^item> nanopb: streams and writers (\<open>Pb_Encode\<close>: \<open>pb.h\<close>, \<open>pb_encode.h\<close>, \<open>pb_encode.c\<close>), streams and readers
    (\<open>Pb_Decode\<close>: \<open>pb_decode.h\<close>, \<open>pb_decode.c\<close>), the field iterator (\<open>Pb_Common\<close>: \<open>pb_common.c\<close>), and on top
    of these, with the message structures in memory (\<open>Pb_Memory\<close>), the message encoder (\<open>Pb_Msg_Encode\<close>):
    field encoders, arrays, submessages, optional fields, callbacks and extensions; and the message
    decoder (\<open>Pb_Msg_Decode\<close>): default values, static, pointer and callback fields, unions, extensions,
    required fields and fixed counts, and the release of what was allocated.

  \<^item> \<open>crypto/stack/stack.c\<close> (\<open>Stack\<close>), a growing array of pointers with an optional order, and
    \<open>crypto/lhash/lhash.c\<close> (\<open>Lhash\<close>), a hash table of chains that grows and shrinks with its load. Both
    call the comparison, hash, copy and free functions of their user, and allocate through \<open>mem.c\<close>.

  How state and operations correspond. A \<open>CBS\<close> is the list of bytes it has left; a function that returns
  0 or 1 and writes out-parameters returns an option of these and the cursor as it leaves it. A root
  \<open>CBB\<close> and its open descendants are one record, the buffer and the chain of children; an object is
  named by its depth in the chain. \<open>EVP_ENCODE_CTX\<close>, \<open>struct tm\<close>, \<open>pb_field_t\<close>, the streams and the
  iterator of nanopb are records with the fields of the C structures. Machine integers are words where
  the code does arithmetic on them; a \<open>size_t\<close> is a natural number with the sums that may wrap written
  out modulo \<open>2 ^ 64\<close>. Memory is a list of bytes with offsets into it. The message structures of nanopb are the exception:
  they are in a function from 64 bit addresses to bytes, which the encoder only reads and the decoder
  takes and returns; reading through a NULL pointer is there a read of address 0. The C allocator is a parameter (\<open>malloc_fn\<close>), and all that is assumed of it
  is that a block has the size asked for (\<open>malloc_ok\<close>); so is \<open>vsnprintf\<close> (\<open>vsnprintf_ok\<close>). Callbacks of
  nanopb streams are functions on the state they own. The elements of the containers are 64 bit
  pointers that only their user's functions look at; a chain of the hash table is a list, and a pointer
  to a link of it the bucket and the position.

  What the lemmas show.

  \<^item> \<open>Codec\<close> has the interfaces between writers and readers, as locales: a reader drops a prefix of its
    input; a decoder inverts an encoder; a canonical codec accepts nothing else. They are interpreted on
    the readers of \<open>Cbs\<close>, \<open>Cbs_Asn1\<close>, \<open>Cbs_Integer\<close>, \<open>Unicode\<close>, \<open>Ber_Element\<close> and \<open>Pb_Wire\<close>, which gives prefix
    freeness, unique inputs and reading of sequences for all of them.

  \<^item> \<open>Cbs\<close>, \<open>Cbs_Asn1\<close>, \<open>Cbs_Integer\<close>, \<open>Cbs_Time\<close>, \<open>Oid\<close>: each reader accepts exactly the encodings of its
    values. \<open>Cbb_Spec\<close> states what the builder promises, on an abstract state (\<open>builder\<close>: a chain of
    contents with their prefixes), and proves by simulation (\<open>realizes\<close>) that every operation keeps the
    promise or sets the error flag, and does the latter only if memory or the fixed buffer is
    exhausted, or a prefix cannot hold the length. \<open>Cbb_Props\<close> has the interface \<open>cbb_codec\<close> between a
    writer of values and its reader; \<open>Set_Of\<close> that the SET OF sorter sorts and changes nothing else.
    \<open>Cbb_Errors\<close> has the operations on a builder as data and their runs: once a writer has failed, nothing
    is written any more and no message is handed out, whatever is called.

  \<^item> \<open>Ber_Element\<close>, \<open>Ber_Props\<close>, \<open>Ber_To_Der\<close>: BER and DER as trees; the search for BER is exact, the
    conversion terminates and writes the DER form of the tree it reads.

  \<^item> \<open>Posix_Time_Props\<close>: the conversions are inverse bijections that count days. \<open>Base64\<close>: block and
    streaming forms agree however the input is cut, and decode what was encoded.

  \<^item> \<open>Pb_Varint\<close>, \<open>Pb_Emit\<close>: nanopb's writers append exactly the wire form or fail inside their room, and
    count the same on a sizing stream; \<open>Pb_Read\<close>, \<open>Pb_Wire\<close>, \<open>Pb_Claims\<close>: the readers are exact, round
    trips, skipping, substreams, and what the 32-bit varint reader does with values that do not fit;
    \<open>Pb_Common\<close>: the iterator's position determines its pointers, which are those of the members of the
    structure if the offsets in the descriptors are (\<open>field_data_laid_out\<close>), and the search terminates.

  \<^item> \<open>Pb_Msg_Wire\<close> defines the wire form of a message from its descriptors and its memory, as a list of
    tagged values, without streams, sizes or iterators. \<open>Pb_Msg_Emit\<close> proves, function by function, that
    the encoder writes it (\<open>yields\<close>) or fails (\<open>fails\<close>) on streams that count and streams to a buffer;
    \<open>Pb_Msg_Claims\<close> has the properties of the encoder as a whole and its termination.

  \<^item> \<open>Pb_Msg_Safe\<close> says what it means for descriptors to fit into a structure (\<open>message_fits\<close>), that the
    readers shorten the stream, and what memory each field decoder may change (\<open>safe\<close>); \<open>Pb_Msg_Run\<close>
    goes on to the loop over the fields of a message, by the invariant that the iterator is at a field.
    \<open>Pb_Msg_Decode_Claims\<close> has the properties: decoding is memory safe and terminates on any input, and
    unknown fields are skipped.

  \<^item> \<open>Pb_Msg_Value\<close> to \<open>Pb_Msg_Round_Trip\<close> follow the wire form of a message back into memory: values
    (\<open>Pb_Msg_Value\<close>), the wire form as a function of the fields' values (\<open>Pb_Msg_Copy\<close>) and of the memory of
    the message only (\<open>Pb_Msg_Parts\<close>), the message after the default values (\<open>Pb_Msg_Blank\<close>), one value
    (\<open>Pb_Msg_Back\<close>), one field (\<open>Pb_Msg_Fields\<close>), the loop and the required fields (\<open>Pb_Msg_Loop\<close>), and all
    fields with their submessages (\<open>Pb_Msg_Message\<close>, \<open>Pb_Msg_Round_Trip\<close>). \<open>Pb_Msg_Copy_Claims\<close> has the round
    trip of encoder and decoder. It is about plain messages (\<open>plain_message\<close>): static fields, no unions,
    presence flags and counts for optional fields and arrays, different tags, members that do not overlap;
    strings have to end inside of their fields (\<open>strings_end\<close>), without which the decoder refuses what the
    encoder writes (\<open>pb_string_without_end\<close>); and the decoder's local variables are apart from the structure.

  \<^item> \<open>Pb_Msg_Errors\<close>: what the decoder does against its intentions, with wire types, the default values of
    arrays of fixed count, and empty messages.

  \<^item> \<open>Stack_Sort\<close> has the interface of a comparison function (\<open>comparison\<close>) and the correctness of heap
    sort under it; it is interpreted on the order of SET OF elements. \<open>Stack_Props\<close> and \<open>Stack_Claims\<close>
    show that a stack stands for a list, that the operations are the operations on lists, or fail and
    change nothing, and keep the invariant in any sequence (\<open>sk_reachable\<close>), but for the \<open>sorted\<close> flag where
    the functions leave it to their caller; and that a failing deep copy leaks nothing. \<open>Lhash_Props\<close>
    has the interface of a hash function (\<open>hashing\<close>) and the map that a table stands for;
    \<open>Lhash_Claims\<close> that the operations are those on the map, whatever is resized, and that the load
    is bounded.

  Loops and fuel. Loops over the input are recursive functions that terminate because the input gets
  shorter. \<open>cbs_convert_ber\<close> recurses on what its own calls leave over and takes fuel: one more than the
  length of the input is enough (\<open>cbs_convert_ber_terminates\<close>). The search of the field iterator takes
  as fuel the length of the descriptor array, which is enough for every array with a terminator
  (\<open>pb_field_iter_correct\<close>).

  Submessages nest as deep as the descriptors and the pointers in memory say, so the message encoder takes
  fuel, one unit for each level and each extension of a list. Its result \<open>None\<close> stands for too little
  fuel, and for the descriptors on which the C code has no defined behaviour; on descriptors that do
  not refer back, the number of descriptors plus one is enough (\<open>pb_encode_returns\<close>).
  The decoder takes fuel for the same reason; with static fields only, the number of descriptors plus
  two is enough (\<open>pb_decode_memory_safe\<close>). Its loops over a stream take the number of bytes left, as
  each round reads one at least.

  Not modelled: of \<open>mem.c\<close>, the replaceable allocator hooks, \<open>OPENSSL_cleanse\<close>'s effect on the optimiser
  and the printing to a \<open>FILE\<close>; of \<open>base64.c\<close>, the allocation of contexts; of \<open>internal.h\<close>, locks,
  reference counts, thread locals and CPU detection; of nanopb, callbacks that change the message they
  encode, and what is in a buffer after a read into it has failed; callbacks of \<open>OPENSSL_lh_doall_arg\<close> that
  change the table they are called on. The rest of BoringSSL, gRPC, Abseil, LevelDB, the Firebase clients, the Swift
  application and the cloud functions are outside the chosen subsystems: concurrent runtimes,
  generated code, user interface, and calls to remote services.
\<close>

end
